(* ===== verification/Base.thy ===== *)
theory Base
  imports Complex_Main "HOL-Library.AList" "HOL-Library.Char_ord" "HOL-Library.List_Lexorder"
begin

text \<open>
  The prelude of the development: the types every component uses, Python's insertion-ordered
  dictionary as an association list, SQL tables as lists of rows in primary-key order with a
  unique key column, the two lemmas schemes for invariants (of a step function and of a step
  relation) as locales, and the simplification rules the component theories share.

  \<^item> An \<open>instant\<close> is a timezone-aware UTC \<open>datetime\<close>, counted in microseconds: Python's
    \<open>datetime\<close> and \<open>timedelta\<close> are exact integers of microseconds, so subtraction and
    comparison on \<open>int\<close> are theirs.
  \<^item> A \<open>clock\<close> is a reading of \<open>time.time()\<close> or \<open>time.monotonic()\<close>. Every finite float is a
    rational number, so the reading itself is exact; only the rounding of a difference of two
    readings is idealised.
\<close>

type_synonym instant = int
type_synonym clock = rat

definition hour :: instant where
  "hour = 3600000000"

lemma hour_pos [simp]: "0 < hour"
  by (simp add: hour_def)

subsection \<open>Dictionaries\<close>

text \<open>
  A Python \<open>dict\<close> keeps its insertion order: assigning to a present key keeps its place,
  assigning to a new key appends. \<^const>\<open>AList.update\<close> has exactly this behaviour and
  \<^const>\<open>AList.delete\<close> is \<open>pop\<close>.
\<close>

type_synonym ('k, 'v) dict = "('k \<times> 'v) list"

abbreviation dict_get :: "('k, 'v) dict \<Rightarrow> 'k \<Rightarrow> 'v option" where
  "dict_get \<equiv> map_of"

abbreviation dict_set :: "'k \<Rightarrow> 'v \<Rightarrow> ('k, 'v) dict \<Rightarrow> ('k, 'v) dict" where
  "dict_set \<equiv> AList.update"

abbreviation dict_pop :: "'k \<Rightarrow> ('k, 'v) dict \<Rightarrow> ('k, 'v) dict" where
  "dict_pop \<equiv> AList.delete"

abbreviation dict_keys :: "('k, 'v) dict \<Rightarrow> 'k list" where
  "dict_keys \<equiv> map fst"

abbreviation dict_values :: "('k, 'v) dict \<Rightarrow> 'v list" where
  "dict_values \<equiv> map snd"

definition dict_ok :: "('k, 'v) dict \<Rightarrow> bool" where
  "dict_ok d \<longleftrightarrow> distinct (map fst d)"

lemma dict_ok_Nil [simp]: "dict_ok []"
  by (simp add: dict_ok_def)

lemma dict_ok_set [simp]: "dict_ok d \<Longrightarrow> dict_ok (dict_set k v d)"
  by (simp add: dict_ok_def distinct_update)

lemma dict_ok_pop [simp]: "dict_ok d \<Longrightarrow> dict_ok (dict_pop k d)"
  by (simp add: dict_ok_def distinct_delete)

lemma dict_get_set [simp]:
  "dict_get (dict_set k v d) k' = (if k' = k then Some v else dict_get d k')"
  by (simp add: update_conv)

lemma dict_get_pop [simp]:
  "dict_get (dict_pop k d) k' = (if k' = k then None else dict_get d k')"
  by (simp add: delete_conv)

lemma dict_values_iff:
  "dict_ok d \<Longrightarrow> v \<in> set (dict_values d) \<longleftrightarrow> (\<exists>k. dict_get d k = Some v)"
  unfolding dict_ok_def
  by (auto simp: image_iff) (metis map_of_SomeD snd_conv | metis map_of_is_SomeI)+

lemma dict_get_in_values: "dict_get d k = Some v \<Longrightarrow> v \<in> set (dict_values d)"
  by (auto simp: image_iff dest!: map_of_SomeD intro!: bexI [of _ "(k, v)"])

lemma length_dict_set:
  "length (dict_set k v d) = (if k \<in> set (dict_keys d) then length d else Suc (length d))"
  by (induction d) auto

lemma dict_set_new: "k \<notin> set (dict_keys d) \<Longrightarrow> dict_set k v d = d @ [(k, v)]"
  by (induction d) auto

subsection \<open>Tables with a unique key column\<close>

text \<open>
  The SQL tables of the repository are lists of rows in the order of their autoincrement
  primary key, with one \<open>UNIQUE\<close> column (or tuple of columns) read by \<open>key\<close>. A lookup by
  that key returns the row, an \<open>UPDATE ... WHERE key = k\<close> changes it in place.
\<close>

definition row_where :: "('r \<Rightarrow> 'k) \<Rightarrow> 'k \<Rightarrow> 'r list \<Rightarrow> 'r option" where
  "row_where key k t = find (\<lambda>r. key r = k) t"

definition update_where :: "('r \<Rightarrow> 'k) \<Rightarrow> 'k \<Rightarrow> ('r \<Rightarrow> 'r) \<Rightarrow> 'r list \<Rightarrow> 'r list" where
  "update_where key k f t = map (\<lambda>r. if key r = k then f r else r) t"

definition delete_where :: "('r \<Rightarrow> 'k) \<Rightarrow> 'k \<Rightarrow> 'r list \<Rightarrow> 'r list" where
  "delete_where key k t = filter (\<lambda>r. key r \<noteq> k) t"

lemma row_where_Nil [simp]: "row_where key k [] = None"
  by (simp add: row_where_def)

lemma row_where_Cons [simp]:
  "row_where key k (r # t) = (if key r = k then Some r else row_where key k t)"
  by (simp add: row_where_def)

lemma row_where_None: "row_where key k t = None \<longleftrightarrow> k \<notin> set (map key t)"
  by (induction t) auto

lemma row_where_SomeD: "row_where key k t = Some r \<Longrightarrow> key r = k \<and> r \<in> set t"
  by (induction t) (auto split: if_splits)

lemma row_where_append [simp]:
  "row_where key k (t @ u) =
     (case row_where key k t of None \<Rightarrow> row_where key k u | Some r \<Rightarrow> Some r)"
  by (induction t) auto

lemma row_where_update [simp]:
  assumes "\<And>r. key (f r) = key r"
  shows "row_where key k' (update_where key k f t) =
     (if k' = k then map_option f (row_where key k t) else row_where key k' t)"
  by (induction t) (auto simp: update_where_def assms)

lemma row_where_delete [simp]:
  "row_where key k' (delete_where key k t) = (if k' = k then None else row_where key k' t)"
  by (induction t) (auto simp: delete_where_def)

lemma keys_update_where [simp]:
  assumes "\<And>r. key (f r) = key r"
  shows "map key (update_where key k f t) = map key t"
  by (induction t) (auto simp: update_where_def assms)

lemma keys_delete_where: "map key (delete_where key k t) = filter (\<lambda>x. x \<noteq> k) (map key t)"
  by (induction t) (auto simp: delete_where_def)

lemma distinct_keys_delete_where [simp]:
  "distinct (map key t) \<Longrightarrow> distinct (map key (delete_where key k t))"
  by (simp only: keys_delete_where distinct_filter)

lemma row_where_unique:
  "distinct (map key t) \<Longrightarrow> r \<in> set t \<Longrightarrow> row_where key (key r) t = Some r"
  by (induction t) auto

lemma length_update_where [simp]: "length (update_where key k f t) = length t"
  by (simp add: update_where_def)

lemma set_update_where:
  "set (update_where key k f t) = (\<lambda>r. if key r = k then f r else r) ` set t"
  by (simp add: update_where_def)

subsection \<open>Separated strings\<close>

text \<open>
  Composite keys are built as \<open>f"{a}:{b}"\<close>; they are read back from the first or from the
  last separator.
\<close>

lemma split_first_sep:
  "c \<notin> set a \<Longrightarrow> c \<notin> set a' \<Longrightarrow> a @ c # b = a' @ c # b' \<longleftrightarrow> a = a' \<and> b = b'"
proof (induction a arbitrary: a')
  case Nil
  then show ?case by (cases a') auto
next
  case (Cons x a)
  then show ?case by (cases a') auto
qed

lemma split_last_sep:
  assumes "c \<notin> set b" and "c \<notin> set b'"
  shows "a @ c # b = a' @ c # b' \<longleftrightarrow> a = a' \<and> b = b'"
proof -
  have "a @ c # b = a' @ c # b' \<longleftrightarrow> rev (a @ c # b) = rev (a' @ c # b')"
    by (simp only: rev_is_rev_conv)
  also have "\<dots> \<longleftrightarrow> rev b = rev b' \<and> rev a = rev a'"
    using split_first_sep [of c "rev b" "rev b'" "rev a" "rev a'"] assms by simp
  finally show ?thesis by auto
qed

subsection \<open>Decimal numerals\<close>

text \<open>The text of an integer in an \<open>f\<close>-string.\<close>

fun dec :: "nat \<Rightarrow> string" where
  "dec n = (if n < 10 then [char_of (48 + n)] else dec (n div 10) @ [char_of (48 + n mod 10)])"

declare dec.simps [simp del]

definition dec_int :: "int \<Rightarrow> string" where
  "dec_int i = (if i < 0 then CHR ''-'' # dec (nat (- i)) else dec (nat i))"

lemma char_of_digit_inj [simp]:
  "m < 10 \<Longrightarrow> n < 10 \<Longrightarrow> (char_of (48 + m) :: char) = char_of (48 + n) \<longleftrightarrow> m = (n::nat)"
  by (auto dest!: arg_cong [where f = "of_char :: char \<Rightarrow> nat"])

lemma dec_digits: "ch \<in> set (dec n) \<Longrightarrow> (of_char ch :: nat) \<in> {48..57}"
proof (induction n rule: dec.induct)
  case (1 n)
  have "n mod 10 < 10" by simp
  with 1 show ?case by (subst (asm) (2) dec.simps) (auto split: if_splits)
qed

lemma dec_no_char: "(of_char ch :: nat) \<notin> {48..57} \<Longrightarrow> ch \<notin> set (dec n)"
  using dec_digits by blast

lemma dec_not_Nil [simp]: "dec n \<noteq> []" "[] \<noteq> dec n"
  by (subst dec.simps, simp)+

lemma dec_inj [simp]: "dec m = dec n \<longleftrightarrow> m = n"
proof
  show "dec m = dec n \<Longrightarrow> m = n"
  proof (induction m arbitrary: n rule: dec.induct)
    case (1 m)
    have last: "m mod 10 = n mod 10 \<and> butlast (dec m) = butlast (dec n)" if "dec m = dec n"
    proof -
      have "last (dec k) = char_of (48 + k mod 10)" for k
        by (subst dec.simps) simp
      then have "(char_of (48 + m mod 10) :: char) = char_of (48 + n mod 10)" using that by metis
      then show ?thesis using that by simp
    qed
    have but: "butlast (dec k) = (if k < 10 then [] else dec (k div 10))" for k
      by (subst dec.simps) simp
    have "m mod 10 = n mod 10" and b: "butlast (dec m) = butlast (dec n)" using last 1(2) by auto
    moreover have "m div 10 = n div 10"
    proof (cases "m < 10")
      case True
      then show ?thesis using b by (simp add: but split: if_splits)
    next
      case False
      then have "\<not> n < 10" using b by (auto simp: but)
      with False b have "dec (m div 10) = dec (n div 10)" by (simp add: but)
      with 1(1) False show ?thesis by blast
    qed
    ultimately show ?case by (metis div_mult_mod_eq)
  qed
qed simp

subsection \<open>Invariants of runs\<close>

text \<open>
  A component whose operations are the cases of one step function keeps an invariant over
  every run (every list of operations) if one operation keeps it.
\<close>

locale preserved =
  fixes step :: "'s \<Rightarrow> 'e \<Rightarrow> 's"
    and inv :: "'s \<Rightarrow> bool"
  assumes step_inv: "inv s \<Longrightarrow> inv (step s e)"
begin

lemma run_inv: "inv s \<Longrightarrow> inv (foldl step s es)"
  by (induction es arbitrary: s) (auto simp: step_inv)

lemma run_inv_prefix: "inv s \<Longrightarrow> inv (foldl step s (take n es))"
  by (rule run_inv)

end

text \<open>The same where only the operations accepted by \<open>ok\<close> keep the invariant.\<close>

locale preserved_when =
  fixes step :: "'s \<Rightarrow> 'e \<Rightarrow> 's"
    and inv :: "'s \<Rightarrow> bool"
    and ok :: "'e \<Rightarrow> bool"
  assumes step_inv_when: "inv s \<Longrightarrow> ok e \<Longrightarrow> inv (step s e)"
begin

lemma run_inv_when: "inv s \<Longrightarrow> \<forall>e\<in>set es. ok e \<Longrightarrow> inv (foldl step s es)"
  by (induction es arbitrary: s) (auto simp: step_inv_when)

end

text \<open>The same for a step relation, where several callers interleave.\<close>

locale preserved_rel =
  fixes steps :: "'s \<Rightarrow> 's \<Rightarrow> bool"
    and inv :: "'s \<Rightarrow> bool"
  assumes rel_inv: "steps s t \<Longrightarrow> inv s \<Longrightarrow> inv t"
begin

lemma reach_inv: "rtranclp steps s t \<Longrightarrow> inv s \<Longrightarrow> inv t"
  by (induction rule: rtranclp_induct) (auto intro: rel_inv)

end

end
