(* ===== verification/ExactlyOnce.thy ===== *)
theory ExactlyOnce
  imports Base
begin

text \<open>
  \<open>pipeline/exactly_once.py\<close>, the part every backend shares: the canonical key, the states and
  errors, the backend interface (the \<open>DedupBackend\<close> protocol) and the facade
  \<open>ExactlyOnceStore\<close>. A backend is a record of operations over its own state \<open>'st\<close>; an
  operation returns a result or the error it raised, and the state it leaves.

  The locale \<open>exactly_once\<close> is the contract the clients rely on. \<open>fresh st c\<close> says that the
  canonical key \<open>c\<close> is committed and still within its TTL in state \<open>st\<close>.
\<close>

subsection \<open>Keys, states, errors\<close>

record dedup_key =
  dk_source :: string
  dk_external_id :: string
  dk_tenant_id :: "string option"

definition canonical :: "dedup_key \<Rightarrow> string" where
  "canonical k =
     (let tenant = (case dk_tenant_id k of Some t \<Rightarrow> t | None \<Rightarrow> ''_'')
      in tenant @ '':'' @ dk_source k @ '':'' @ dk_external_id k)"

datatype dedup_state = NEW | STAGED | COMMITTED | FAILED | TTL_EXPIRED_REVERIFY

fun state_value :: "dedup_state \<Rightarrow> string" where
  "state_value NEW = ''new''"
| "state_value STAGED = ''staged''"
| "state_value COMMITTED = ''committed''"
| "state_value FAILED = ''failed''"
| "state_value TTL_EXPIRED_REVERIFY = ''ttl_expired_reverify''"

lemma state_value_inj [simp]: "state_value s = state_value t \<longleftrightarrow> s = t"
  by (cases s; cases t) simp_all

text \<open>
  What an operation can raise: the fail-closed error of the module, with the source it was
  raised for, and the database and Python errors the SQL backend lets through.
\<close>

datatype dedup_error =
    DedupBackendUnavailable (unavailable_source: string)
  | DbOperationalError
  | PyAssertionError
  | PyAttributeError

record 'p dedup_decision =
  dd_state :: dedup_state
  dd_payload :: "'p option"

definition decision :: "dedup_state \<Rightarrow> 'p option \<Rightarrow> 'p dedup_decision" where
  "decision s p = \<lparr>dd_state = s, dd_payload = p\<rparr>"

lemma decision_sel [simp]: "dd_state (decision s p) = s" "dd_payload (decision s p) = p"
  by (simp_all add: decision_def)

subsection \<open>The backend protocol and the facade\<close>

record ('st, 'p) dedup_backend =
  be_check_and_stage :: "dedup_key \<Rightarrow> rat \<Rightarrow> 'st \<Rightarrow> (dedup_error + 'p dedup_decision) \<times> 'st"
  be_commit :: "dedup_key \<Rightarrow> 'p option \<Rightarrow> 'st \<Rightarrow> (dedup_error + unit) \<times> 'st"
  be_mark_failed :: "dedup_key \<Rightarrow> 'st \<Rightarrow> (dedup_error + unit) \<times> 'st"
  be_get :: "dedup_key \<Rightarrow> 'st \<Rightarrow> (dedup_error + 'p dedup_decision) \<times> 'st"
  be_health_check :: "'st \<Rightarrow> bool \<times> 'st"

record ('st, 'p) exactly_once_store =
  eo_backend :: "('st, 'p) dedup_backend"
  eo_ttl_seconds :: rat

definition store_check_and_stage ::
  "('st, 'p) exactly_once_store \<Rightarrow> dedup_key \<Rightarrow> 'st \<Rightarrow> (dedup_error + 'p dedup_decision) \<times> 'st" where
  "store_check_and_stage s k = be_check_and_stage (eo_backend s) k (eo_ttl_seconds s)"

definition store_commit ::
  "('st, 'p) exactly_once_store \<Rightarrow> dedup_key \<Rightarrow> 'p option \<Rightarrow> 'st \<Rightarrow> (dedup_error + unit) \<times> 'st" where
  "store_commit s k p = be_commit (eo_backend s) k p"

definition store_mark_failed ::
  "('st, 'p) exactly_once_store \<Rightarrow> dedup_key \<Rightarrow> 'st \<Rightarrow> (dedup_error + unit) \<times> 'st" where
  "store_mark_failed s k = be_mark_failed (eo_backend s) k"

definition store_get ::
  "('st, 'p) exactly_once_store \<Rightarrow> dedup_key \<Rightarrow> 'st \<Rightarrow> (dedup_error + 'p dedup_decision) \<times> 'st" where
  "store_get s k = be_get (eo_backend s) k"

definition store_is_available :: "('st, 'p) exactly_once_store \<Rightarrow> 'st \<Rightarrow> bool \<times> 'st" where
  "store_is_available s = be_health_check (eo_backend s)"

lemmas store_defs =
  store_check_and_stage_def store_commit_def store_mark_failed_def store_get_def
  store_is_available_def

subsection \<open>The contract\<close>

locale exactly_once =
  fixes B :: "('st, 'p) dedup_backend"
    and okst :: "'st \<Rightarrow> bool"
    and fresh :: "'st \<Rightarrow> string \<Rightarrow> bool"
  assumes stage_fresh:
      "okst st \<Longrightarrow> be_check_and_stage B k ttl st = (Inr d, st') \<Longrightarrow>
       (dd_state d = COMMITTED) = fresh st (canonical k)"
    and stage_frame:
      "okst st \<Longrightarrow> be_check_and_stage B k ttl st = (r, st') \<Longrightarrow> okst st' \<and> fresh st' = fresh st"
    and commit_fresh:
      "okst st \<Longrightarrow> be_commit B k p st = (Inr u, st') \<Longrightarrow>
       okst st' \<and> fresh st' = (fresh st)(canonical k := True)"
    and commit_error:
      "okst st \<Longrightarrow> be_commit B k p st = (Inl e, st') \<Longrightarrow> okst st'"
begin

lemma restage_after_commit:
  assumes "okst st" and "be_commit B k p st = (Inr u, st1)"
    and "be_check_and_stage B k ttl st1 = (Inr d, st2)"
  shows "dd_state d = COMMITTED"
  using stage_fresh [of st1 k ttl d st2] commit_fresh [OF assms(1,2)] assms(3) by simp

end

subsection \<open>Properties of the key\<close>

definition plain_key :: "dedup_key \<Rightarrow> bool" where
  "plain_key k \<longleftrightarrow> CHR '':'' \<notin> set (dk_external_id k) \<and>
     (case dk_tenant_id k of None \<Rightarrow> True | Some t \<Rightarrow> CHR '':'' \<notin> set t \<and> t \<noteq> ''_'')"

text \<open>
  Two keys whose external id and tenant hold no colon, and whose tenant is not the
  placeholder \<open>_\<close>, have the same canonical form only if they are equal: the composite key
  identifies the unit of work, whatever colons the source holds.
\<close>

theorem canonical_injective:
  assumes "plain_key k" and "plain_key k'"
  shows "canonical k = canonical k' \<longleftrightarrow> k = k'"
proof
  assume same: "canonical k = canonical k'"
  define ten where "ten x = (case dk_tenant_id x of Some t \<Rightarrow> t | None \<Rightarrow> ''_'')"
    for x :: dedup_key
  have tens: "CHR '':'' \<notin> set (ten k)" "CHR '':'' \<notin> set (ten k')"
    using assms by (auto simp: ten_def plain_key_def split: option.splits)
  from same have "ten k @ CHR '':'' # (dk_source k @ CHR '':'' # dk_external_id k)
      = ten k' @ CHR '':'' # (dk_source k' @ CHR '':'' # dk_external_id k')"
    by (simp add: canonical_def ten_def Let_def)
  then have ten: "ten k = ten k'" and
    "dk_source k @ CHR '':'' # dk_external_id k = dk_source k' @ CHR '':'' # dk_external_id k'"
    using split_first_sep [OF tens] by simp_all
  then have "dk_source k = dk_source k'" "dk_external_id k = dk_external_id k'"
    using split_last_sep [of "CHR '':''" "dk_external_id k" "dk_external_id k'"] assms
    by (simp_all add: plain_key_def)
  moreover have "dk_tenant_id k = dk_tenant_id k'"
    using ten assms by (auto simp: ten_def plain_key_def split: option.splits)
  ultimately show "k = k'" by simp
qed simp

theorem canonical_injective_witness:
  "canonical \<lparr>dk_source = ''horizon_trade:XLM'', dk_external_id = ''ab'', dk_tenant_id = None\<rparr> \<noteq>
   canonical \<lparr>dk_source = ''horizon_trade'', dk_external_id = ''ab'', dk_tenant_id = Some ''t1''\<rparr>"
  by (subst canonical_injective) (simp_all add: plain_key_def)

text \<open>
  Without those conditions the canonical form does not identify the key: a colon moved
  from the source into the external id gives the same form, and so does the tenant \<open>_\<close> in
  place of no tenant.
\<close>

theorem canonical_collision:
  "canonical \<lparr>dk_source = ''kafka'', dk_external_id = ''a:b'', dk_tenant_id = None\<rparr> =
   canonical \<lparr>dk_source = ''kafka:a'', dk_external_id = ''b'', dk_tenant_id = None\<rparr> \<and>
   canonical \<lparr>dk_source = ''kafka'', dk_external_id = ''a'', dk_tenant_id = Some ''_''\<rparr> =
   canonical \<lparr>dk_source = ''kafka'', dk_external_id = ''a'', dk_tenant_id = None\<rparr>"
  by (simp add: canonical_def)

end
