(* ===== verification/SqlDedup.thy ===== *)
theory SqlDedup
  imports ExactlyOnce
begin

text \<open>
  \<open>pipeline/exactly_once.py\<close>: the durable backend \<open>SqlExactlyOnceBackend\<close>. Its table
  \<open>exactly_once_dedup\<close> is a list of rows in \<open>id\<close> order with \<open>UNIQUE(canonical_key)\<close>. A world
  holds the table, the reading of the clock and, for the retry wrapper, which of the coming
  database attempts fail with a transient \<open>OperationalError\<close> (a failed attempt is rolled back,
  so it leaves the table as it was).

  \<open>check_and_stage\<close> runs several transactions; \<open>stage_step\<close> is one of them, so that any number
  of callers can interleave (\<open>race_step\<close>), and \<open>sql_check_and_stage_impl\<close> is the method run
  without interference.
\<close>

subsection \<open>The table and its single-row operations\<close>

record 'p dedup_row =
  dr_key :: string
  dr_source :: string
  dr_external_id :: string
  dr_tenant_id :: "string option"
  dr_state :: dedup_state
  dr_payload :: "'p option"
  dr_staged_at :: instant
  dr_committed_at :: "instant option"

definition get_row :: "dedup_key \<Rightarrow> 'p dedup_row list \<Rightarrow> 'p dedup_row option" where
  "get_row k t = row_where dr_key (canonical k) t"

definition staged_row :: "dedup_key \<Rightarrow> instant \<Rightarrow> 'p dedup_row" where
  "staged_row k now =
     \<lparr>dr_key = canonical k, dr_source = dk_source k, dr_external_id = dk_external_id k,
      dr_tenant_id = dk_tenant_id k, dr_state = STAGED, dr_payload = None,
      dr_staged_at = now, dr_committed_at = None\<rparr>"

definition mark_committed :: "instant \<Rightarrow> 'p option \<Rightarrow> 'p dedup_row \<Rightarrow> 'p dedup_row" where
  "mark_committed now p row =
     row\<lparr>dr_state := COMMITTED, dr_committed_at := Some now,
         dr_payload := (case p of None \<Rightarrow> dr_payload row | Some _ \<Rightarrow> p)\<rparr>"

lemma dr_key_simps [simp]:
  "dr_key (staged_row k now) = canonical k"
  "dr_key (mark_committed now p row) = dr_key row"
  "dr_state (staged_row k now) = STAGED"
  "dr_state (mark_committed now p row) = COMMITTED"
  "dr_committed_at (mark_committed now p row) = Some now"
  by (simp_all add: staged_row_def mark_committed_def)

definition age_hours :: "instant \<Rightarrow> instant \<Rightarrow> rat" where
  "age_hours now since = of_int (now - since) / of_int hour"

text \<open>The answer for a committed row: stale rows are surfaced, never silently re-run.\<close>

definition committed_answer ::
  "rat \<Rightarrow> instant \<Rightarrow> 'p dedup_row \<Rightarrow> dedup_error + 'p dedup_decision" where
  "committed_answer ttl_hours now row =
     (case dr_committed_at row of
        None \<Rightarrow> Inl PyAttributeError
      | Some since \<Rightarrow>
          if age_hours now since > ttl_hours
          then Inr (decision TTL_EXPIRED_REVERIFY (dr_payload row))
          else Inr (decision COMMITTED (dr_payload row)))"

definition sql_check_and_stage_impl ::
  "rat \<Rightarrow> dedup_key \<Rightarrow> instant \<Rightarrow> 'p dedup_row list
     \<Rightarrow> (dedup_error + 'p dedup_decision) \<times> 'p dedup_row list" where
  "sql_check_and_stage_impl ttl_hours k now t =
     (case get_row k t of
        None \<Rightarrow> (Inr (decision NEW None), t @ [staged_row k now])
      | Some row \<Rightarrow>
          if dr_state row = COMMITTED then (committed_answer ttl_hours now row, t)
          else if dr_state row = FAILED then
            (Inr (decision NEW None),
             update_where dr_key (canonical k)
               (\<lambda>r. r\<lparr>dr_state := STAGED, dr_staged_at := now\<rparr>) t)
          else (Inr (decision STAGED None), t))"

text \<open>
  \<open>racing\<close> is what concurrent callers commit between this call's \<open>SELECT\<close> and its
  \<open>COMMIT\<close>; if they inserted the key first, the \<open>IntegrityError\<close> branch updates their row.
\<close>

definition sql_commit_impl ::
  "('p dedup_row list \<Rightarrow> 'p dedup_row list) \<Rightarrow> dedup_key \<Rightarrow> 'p option \<Rightarrow> instant
     \<Rightarrow> 'p dedup_row list \<Rightarrow> (dedup_error + unit) \<times> 'p dedup_row list" where
  "sql_commit_impl racing k p now t =
     (let t' = racing t; update = update_where dr_key (canonical k) (mark_committed now p)
      in case get_row k t of
           None \<Rightarrow>
             (case get_row k t' of
                None \<Rightarrow> (Inr (), t' @ [mark_committed now p (staged_row k now)])
              | Some row \<Rightarrow> (Inr (), update t'))
         | Some row \<Rightarrow> (Inr (), update t'))"

definition sql_mark_failed_impl ::
  "dedup_key \<Rightarrow> 'p dedup_row list \<Rightarrow> (dedup_error + unit) \<times> 'p dedup_row list" where
  "sql_mark_failed_impl k t =
     (case get_row k t of
        None \<Rightarrow> (Inr (), t)
      | Some row \<Rightarrow> (Inr (), update_where dr_key (canonical k) (\<lambda>r. r\<lparr>dr_state := FAILED\<rparr>) t))"

definition sql_get_impl ::
  "dedup_key \<Rightarrow> 'p dedup_row list \<Rightarrow> (dedup_error + 'p dedup_decision) \<times> 'p dedup_row list" where
  "sql_get_impl k t =
     (case get_row k t of
        None \<Rightarrow> (Inr (decision NEW None), t)
      | Some row \<Rightarrow> (Inr (decision (dr_state row) (dr_payload row)), t))"

subsection \<open>Listing by source prefix\<close>

text \<open>
  SQL's \<open>LIKE\<close>: \<open>%\<close> matches any run, \<open>_\<close> any one character; \<open>eqc\<close> is the character
  comparison of the database (SQLite folds ASCII case, PostgreSQL does not).
\<close>

fun sql_like :: "(char \<Rightarrow> char \<Rightarrow> bool) \<Rightarrow> string \<Rightarrow> string \<Rightarrow> bool" where
  "sql_like eqc [] s = (s = [])"
| "sql_like eqc (c # p) s =
     (if c = CHR ''%'' then sql_like eqc p s \<or> (case s of [] \<Rightarrow> False | _ # s' \<Rightarrow> sql_like eqc (c # p) s')
      else (case s of [] \<Rightarrow> False | x # s' \<Rightarrow> (c = CHR ''_'' \<or> eqc c x) \<and> sql_like eqc p s'))"

definition list_by_source_prefix ::
  "(char \<Rightarrow> char \<Rightarrow> bool) \<Rightarrow> string \<Rightarrow> 'p dedup_row list \<Rightarrow> 'p dedup_row list" where
  "list_by_source_prefix eqc source_prefix t =
     filter (\<lambda>r. sql_like eqc (source_prefix @ ''%'') (dr_source r)) t"

declare sql_like.simps(2) [simp del]

lemma sql_like_simps [simp]:
  "sql_like eqc (CHR ''%'' # p) [] = sql_like eqc p []"
  "sql_like eqc (CHR ''%'' # p) (x # s) =
     (sql_like eqc p (x # s) \<or> sql_like eqc (CHR ''%'' # p) s)"
  "c \<noteq> CHR ''%'' \<Longrightarrow> \<not> sql_like eqc (c # p) []"
  "c \<noteq> CHR ''%'' \<Longrightarrow>
     sql_like eqc (c # p) (x # s) = ((c = CHR ''_'' \<or> eqc c x) \<and> sql_like eqc p s)"
  by (simp_all add: sql_like.simps(2))

lemma sql_like_any [simp]: "sql_like eqc ''%'' s"
  by (induction s) simp_all

lemma sql_like_skip: "sql_like eqc p s \<Longrightarrow> sql_like eqc (CHR ''%'' # p) (u @ s)"
  by (induction u) (cases s; simp)+

lemma sql_like_prefix:
  assumes "\<And>c. eqc c c"
  shows "sql_like eqc (p @ ''%'') (p @ s)"
proof (induction p)
  case (Cons c p)
  then show ?case
    using sql_like_skip [of eqc "p @ ''%''" "p @ s" "[]"]
    by (cases "c = CHR ''%''") (simp_all add: assms)
qed simp

lemma sql_like_plain:
  assumes "CHR ''%'' \<notin> set p" and "CHR ''_'' \<notin> set p"
  shows "sql_like (=) (p @ ''%'') s \<longleftrightarrow> (\<exists>u. s = p @ u)"
  using assms
proof (induction p arbitrary: s)
  case (Cons c p)
  then show ?case by (cases s) auto
qed simp

subsection \<open>The retry wrapper and the backend\<close>

record 'p sql_world =
  sq_table :: "'p dedup_row list"
  sq_now :: instant
  sq_faults :: "bool list"

fun with_retry ::
  "nat \<Rightarrow> ('t \<Rightarrow> (dedup_error + 'a) \<times> 't) \<Rightarrow> bool list \<Rightarrow> 't \<Rightarrow> ((dedup_error + 'a) \<times> 't) \<times> bool list"
where
  "with_retry attempt fn [] t = (fn t, [])"
| "with_retry attempt fn (False # fs) t = (fn t, fs)"
| "with_retry attempt fn (True # fs) t =
     (if attempt = 4 then ((Inl DbOperationalError, t), fs)
      else with_retry (attempt + 1) fn fs t)"

definition sql_call ::
  "('p dedup_row list \<Rightarrow> (dedup_error + 'a) \<times> 'p dedup_row list) \<Rightarrow> 'p sql_world
     \<Rightarrow> (dedup_error + 'a) \<times> 'p sql_world" where
  "sql_call fn w =
     (case with_retry 0 fn (sq_faults w) (sq_table w) of
        ((r, t), fs) \<Rightarrow> (r, w\<lparr>sq_table := t, sq_faults := fs\<rparr>))"

definition sql_health_check :: "'p sql_world \<Rightarrow> bool \<times> 'p sql_world" where
  "sql_health_check w =
     (case sq_faults w of
        [] \<Rightarrow> (True, w)
      | fault # fs \<Rightarrow> (\<not> fault, w\<lparr>sq_faults := fs\<rparr>))"

definition sql_backend :: "rat \<Rightarrow> ('p sql_world, 'p) dedup_backend" where
  "sql_backend ttl_hours =
     \<lparr>be_check_and_stage =
        (\<lambda>k ttl_seconds w. sql_call (sql_check_and_stage_impl ttl_hours k (sq_now w)) w),
      be_commit = (\<lambda>k p w. sql_call (sql_commit_impl id k p (sq_now w)) w),
      be_mark_failed = (\<lambda>k w. sql_call (sql_mark_failed_impl k) w),
      be_get = (\<lambda>k w. sql_call (sql_get_impl k) w),
      be_health_check = sql_health_check\<rparr>"

lemma with_retry_cases:
  "(\<exists>fs'. with_retry n fn fs t = (fn t, fs')) \<or>
   (\<exists>fs'. with_retry n fn fs t = ((Inl DbOperationalError, t), fs'))"
  by (induction n fn fs t rule: with_retry.induct) auto

lemma sql_call_cases:
  obtains (ran) r t fs where "fn (sq_table w) = (r, t)"
      and "sql_call fn w = (r, w\<lparr>sq_table := t, sq_faults := fs\<rparr>)"
    | (gave_up) fs where "sql_call fn w = (Inl DbOperationalError, w\<lparr>sq_faults := fs\<rparr>)"
  using with_retry_cases [of 0 fn "sq_faults w" "sq_table w"]
  by (cases "fn (sq_table w)") (auto simp: sql_call_def)

text \<open>Four transient failures in a row are absorbed, the fifth is raised.\<close>

lemma with_retry_absorbs:
  "n + m \<le> 4 \<Longrightarrow> with_retry n fn (replicate m True @ False # fs) t = (fn t, fs)"
  by (induction m arbitrary: n) auto

lemma with_retry_gives_up:
  "n \<le> 4 \<Longrightarrow> with_retry n fn (replicate (5 - n) True @ fs) t = ((Inl DbOperationalError, t), fs)"
proof (induction "4 - n" arbitrary: n)
  case 0
  then have "n = 4" by simp
  then show ?case by (simp add: numeral_eq_Suc)
next
  case (Suc m)
  then have "5 - n = Suc (5 - Suc n)" and "n \<noteq> 4" and "Suc n \<le> 4" and "m = 4 - Suc n"
    by simp_all
  then show ?case using Suc.hyps(1) [of "Suc n"] by simp
qed

subsection \<open>The backend keeps the contract\<close>

definition sql_fresh :: "rat \<Rightarrow> 'p sql_world \<Rightarrow> string \<Rightarrow> bool" where
  "sql_fresh ttl_hours w c =
     (case row_where dr_key c (sq_table w) of
        None \<Rightarrow> False
      | Some row \<Rightarrow> dr_state row = COMMITTED \<and>
          (case dr_committed_at row of
             None \<Rightarrow> False
           | Some since \<Rightarrow> age_hours (sq_now w) since \<le> ttl_hours))"

lemma sql_fresh_faults [simp]: "sql_fresh ttl (w\<lparr>sq_faults := fs\<rparr>) = sql_fresh ttl w"
  by (simp add: sql_fresh_def fun_eq_iff split: option.split)

lemma stage_impl_answer:
  assumes "sql_check_and_stage_impl ttl k (sq_now w) (sq_table w) = (Inr d, t)"
  shows "dd_state d = COMMITTED \<longleftrightarrow> sql_fresh ttl w (canonical k)"
  using assms
  by (auto simp: sql_check_and_stage_impl_def committed_answer_def sql_fresh_def get_row_def
      split: option.splits if_splits)

lemma stage_impl_fresh:
  assumes "sql_check_and_stage_impl ttl k (sq_now w) (sq_table w) = (r, t)"
  shows "sql_fresh ttl (w\<lparr>sq_table := t\<rparr>) = sql_fresh ttl w"
  using assms
  by (auto simp: sql_check_and_stage_impl_def sql_fresh_def get_row_def fun_eq_iff
      split: option.splits if_splits)

lemma commit_impl_fresh:
  assumes "0 \<le> ttl" and "sql_commit_impl id k p (sq_now w) (sq_table w) = (r, t)"
  shows "sql_fresh ttl (w\<lparr>sq_table := t\<rparr>) = (sql_fresh ttl w)(canonical k := True)"
  using assms
  by (auto simp: sql_commit_impl_def sql_fresh_def get_row_def fun_eq_iff age_hours_def Let_def
      split: option.splits if_splits)

interpretation sql: exactly_once "sql_backend ttl" "\<lambda>_. 0 \<le> ttl" "sql_fresh ttl" for ttl :: rat
proof unfold_locales
  fix st st' :: "'p sql_world" and k and s :: rat and d :: "'p dedup_decision"
  assume "be_check_and_stage (sql_backend ttl) k s st = (Inr d, st')"
  then show "(dd_state d = COMMITTED) = sql_fresh ttl st (canonical k)"
    by (rule_tac sql_call_cases [of "sql_check_and_stage_impl ttl k (sq_now st)" st])
       (auto simp: sql_backend_def dest: stage_impl_answer)
next
  fix st st' :: "'p sql_world" and k s and r :: "dedup_error + 'p dedup_decision"
  assume "0 \<le> ttl" and "be_check_and_stage (sql_backend ttl) k s st = (r, st')"
  then show "0 \<le> ttl \<and> sql_fresh ttl st' = sql_fresh ttl st"
    by (rule_tac sql_call_cases [of "sql_check_and_stage_impl ttl k (sq_now st)" st])
       (auto simp: sql_backend_def stage_impl_fresh)
next
  fix st st' :: "'p sql_world" and k p u
  assume "0 \<le> ttl" and "be_commit (sql_backend ttl) k p st = (Inr u, st')"
  then show "0 \<le> ttl \<and> sql_fresh ttl st' = (sql_fresh ttl st)(canonical k := True)"
    by (rule_tac sql_call_cases [of "sql_commit_impl id k p (sq_now st)" st])
       (auto simp: sql_backend_def commit_impl_fresh)
qed simp

subsection \<open>Concurrent callers\<close>

text \<open>
  A caller of \<open>check_and_stage\<close> is between two transactions: before its \<open>SELECT\<close>, before
  inserting the row it found absent, before re-reading after an \<open>IntegrityError\<close>, before
  re-staging a failed row, or back with its result.
\<close>

datatype 'p stage_pc =
    Selecting
  | Inserting
  | Conflicted
  | Restaging
  | Returned "dedup_error + 'p dedup_decision"

fun stage_step ::
  "rat \<Rightarrow> dedup_key \<Rightarrow> instant \<Rightarrow> 'p stage_pc \<Rightarrow> 'p dedup_row list \<Rightarrow> 'p stage_pc \<times> 'p dedup_row list"
where
  "stage_step ttl_hours k now Selecting t =
     (case get_row k t of
        None \<Rightarrow> (Inserting, t)
      | Some row \<Rightarrow>
          if dr_state row = COMMITTED then (Returned (committed_answer ttl_hours now row), t)
          else if dr_state row = FAILED then (Restaging, t)
          else (Returned (Inr (decision STAGED None)), t))"
| "stage_step ttl_hours k now Inserting t =
     (case get_row k t of
        None \<Rightarrow> (Returned (Inr (decision NEW None)), t @ [staged_row k now])
      | Some row \<Rightarrow> (Conflicted, t))"
| "stage_step ttl_hours k now Conflicted t =
     (case get_row k t of
        None \<Rightarrow> (Returned (Inl PyAssertionError), t)
      | Some row \<Rightarrow>
          if dr_state row = COMMITTED
          then (Returned (Inr (decision COMMITTED (dr_payload row))), t)
          else (Returned (Inr (decision STAGED None)), t))"
| "stage_step ttl_hours k now Restaging t =
     (Returned (Inr (decision NEW None)),
      update_where dr_key (canonical k) (\<lambda>r. r\<lparr>dr_state := STAGED, dr_staged_at := now\<rparr>) t)"
| "stage_step ttl_hours k now (Returned r) t = (Returned r, t)"

text \<open>Run alone, the transactions compose to the method.\<close>

definition stage_alone ::
  "rat \<Rightarrow> dedup_key \<Rightarrow> instant \<Rightarrow> 'p dedup_row list \<Rightarrow> 'p stage_pc \<times> 'p dedup_row list" where
  "stage_alone ttl_hours k now t =
     (case stage_step ttl_hours k now Selecting t of
        (pc, t') \<Rightarrow> stage_step ttl_hours k now pc t')"

lemma stage_alone_eq:
  "stage_alone ttl k now t =
     (case sql_check_and_stage_impl ttl k now t of (r, t') \<Rightarrow> (Returned r, t'))"
  by (auto simp: stage_alone_def sql_check_and_stage_impl_def split: option.splits)

record 'p race =
  rc_table :: "'p dedup_row list"
  rc_pcs :: "nat \<Rightarrow> 'p stage_pc"

fun told_new :: "'p stage_pc \<Rightarrow> bool" where
  "told_new (Returned (Inr d)) = (dd_state d = NEW)"
| "told_new _ = False"

definition won :: "'p race \<Rightarrow> nat \<Rightarrow> bool" where
  "won s i = told_new (rc_pcs s i)"

definition returned :: "'p race \<Rightarrow> nat \<Rightarrow> bool" where
  "returned s i \<longleftrightarrow> (\<exists>r. rc_pcs s i = Returned r)"

text \<open>
  One step of the system: some caller runs its next transaction, at any clock reading, or a
  caller that was told \<open>NEW\<close> commits its work.
\<close>

inductive race_step :: "rat \<Rightarrow> dedup_key \<Rightarrow> 'p race \<Rightarrow> 'p race \<Rightarrow> bool" for ttl_hours k where
  call: "stage_step ttl_hours k now (rc_pcs s i) (rc_table s) = (pc, t) \<Longrightarrow>
    race_step ttl_hours k s (s\<lparr>rc_table := t, rc_pcs := (rc_pcs s)(i := pc)\<rparr>)"
| commit: "won s i \<Longrightarrow>
    race_step ttl_hours k s (s\<lparr>rc_table := snd (sql_commit_impl id k p now (rc_table s))\<rparr>)"

inductive_cases race_stepE: "race_step ttl_hours k s t"

definition race_start :: "'p dedup_row list \<Rightarrow> 'p race" where
  "race_start t = \<lparr>rc_table = t, rc_pcs = (\<lambda>_. Selecting)\<rparr>"

text \<open>
  The invariant of a race for a key that was never seen: the row exists exactly when some
  caller won, nobody wins twice, the row never fails, and whoever is past the insert has seen
  the row.
\<close>

definition race_inv :: "dedup_key \<Rightarrow> 'p race \<Rightarrow> bool" where
  "race_inv k s \<longleftrightarrow>
     (get_row k (rc_table s) \<noteq> None \<longleftrightarrow> (\<exists>i. won s i)) \<and>
     (\<forall>i j. won s i \<longrightarrow> won s j \<longrightarrow> i = j) \<and>
     (\<forall>row. get_row k (rc_table s) = Some row \<longrightarrow> dr_state row \<in> {STAGED, COMMITTED}) \<and>
     (\<forall>i. rc_pcs s i \<noteq> Restaging) \<and>
     (\<forall>i. rc_pcs s i \<notin> {Selecting, Inserting} \<longrightarrow> get_row k (rc_table s) \<noteq> None)"

lemma race_inv_start: "get_row k t = None \<Longrightarrow> race_inv k (race_start t)"
  by (simp add: race_inv_def race_start_def won_def)

lemma get_row_commit:
  "get_row k t = Some row \<Longrightarrow>
   get_row k (snd (sql_commit_impl id k p now t)) = Some (mark_committed now p row)"
  by (simp add: sql_commit_impl_def get_row_def Let_def)

lemma committed_answer_not_new [simp]: "\<not> told_new (Returned (committed_answer ttl now row))"
  by (simp add: committed_answer_def split: option.split)

lemma get_row_insert: "get_row k t = None \<Longrightarrow> get_row k (t @ [staged_row k now]) = Some (staged_row k now)"
  by (simp add: get_row_def)

lemma losing_move:
  assumes "race_inv k s" and "\<not> told_new (rc_pcs s i)" and "t = rc_table s"
    and "\<not> told_new pc \<and> pc \<noteq> Restaging \<and>
      (pc \<in> {Selecting, Inserting} \<or> get_row k (rc_table s) \<noteq> None)"
  shows "race_inv k (s\<lparr>rc_table := t, rc_pcs := (rc_pcs s)(i := pc)\<rparr>)"
proof -
  have "told_new (((rc_pcs s)(i := pc)) j) = told_new (rc_pcs s j)" for j
    using assms(2,4) by simp
  then show ?thesis using assms(1,3,4) by (auto simp: race_inv_def won_def)
qed

lemma winning_insert:
  assumes "race_inv k s" and "get_row k (rc_table s) = None"
  shows "race_inv k (s\<lparr>rc_table := rc_table s @ [staged_row k now],
           rc_pcs := (rc_pcs s)(i := Returned (Inr (decision NEW None)))\<rparr>)"
  using assms by (auto simp: race_inv_def won_def get_row_insert)

lemma race_step_inv: "race_step ttl k s s' \<Longrightarrow> race_inv k s \<Longrightarrow> race_inv k s'"
proof (induction rule: race_step.induct)
  case (call now s i pc t)
  note row = \<open>race_inv k s\<close> [unfolded race_inv_def]
  show ?case
  proof (cases "rc_pcs s i")
    case Selecting
    with row have "dr_state r \<noteq> FAILED" if "get_row k (rc_table s) = Some r" for r
      using that by auto
    with Selecting call have "t = rc_table s" and "\<not> told_new pc \<and> pc \<noteq> Restaging \<and>
      (pc \<in> {Selecting, Inserting} \<or> get_row k (rc_table s) \<noteq> None)"
      by (auto split: option.splits if_splits)
    with call.prems Selecting show ?thesis by (intro losing_move) simp_all
  next
    case Inserting
    show ?thesis
    proof (cases "get_row k (rc_table s)")
      case None
      with call Inserting show ?thesis by (auto intro: winning_insert)
    next
      case (Some r)
      with call Inserting have "t = rc_table s" "pc = Conflicted" by auto
      with call.prems Inserting Some show ?thesis by (intro losing_move) simp_all
    qed
  next
    case Conflicted
    then have "rc_pcs s i \<notin> {Selecting, Inserting}" by simp
    with row have "get_row k (rc_table s) \<noteq> None" by blast
    with call Conflicted have "t = rc_table s" and "\<not> told_new pc \<and> pc \<noteq> Restaging \<and>
      (pc \<in> {Selecting, Inserting} \<or> get_row k (rc_table s) \<noteq> None)"
      by (auto split: option.splits if_splits)
    with call.prems Conflicted show ?thesis by (intro losing_move) simp_all
  next
    case Restaging
    with row show ?thesis by simp
  next
    case (Returned r)
    with call have "pc = rc_pcs s i" and "t = rc_table s" by auto
    then show ?thesis using call.prems by simp
  qed
next
  case (commit s i p now)
  then obtain row where "get_row k (rc_table s) = Some row"
    by (auto simp: race_inv_def)
  with commit show ?case
    by (simp add: race_inv_def won_def get_row_commit)
qed

interpretation race: preserved_rel "race_step ttl k" "race_inv k" for ttl k
  by unfold_locales (rule race_step_inv)

text \<open>
  C1. However many callers of \<open>check_and_stage\<close> race on a key no row holds, in whatever
  interleaving of their transactions and of the winners' commits: as soon as one of them has
  its answer, exactly one caller of all has been told \<open>NEW\<close>.
\<close>

theorem exactly_one_new:
  assumes "get_row k t = None"
    and "rtranclp (race_step ttl k) (race_start t) s"
    and "returned s i"
  shows "\<exists>!j. won s j"
proof -
  have inv: "race_inv k s"
    using assms(2) race_inv_start [OF assms(1)] by (rule race.reach_inv)
  from assms(3) have "rc_pcs s i \<notin> {Selecting, Inserting}"
    by (auto simp: returned_def)
  with inv have "\<exists>j. won s j" by (auto simp: race_inv_def)
  with inv show ?thesis by (auto simp: race_inv_def)
qed

text \<open>
  The guarantee does not extend to a key whose row is \<open>FAILED\<close>: re-staging is a
  \<open>SELECT\<close> followed by an \<open>UPDATE\<close>, with no constraint between them, so two callers can both
  be told \<open>NEW\<close>.
\<close>

theorem failed_row_two_new:
  assumes "get_row k t = Some row" and "dr_state row = FAILED"
  shows "\<exists>s. rtranclp (race_step ttl k) (race_start t) s \<and> won s 0 \<and> won s 1"
proof -
  let ?sel = "\<lambda>s i. s\<lparr>rc_pcs := (rc_pcs s)(i := Restaging)\<rparr>"
  let ?re = "\<lambda>s i. s\<lparr>rc_table := update_where dr_key (canonical k)
       (\<lambda>r. r\<lparr>dr_state := STAGED, dr_staged_at := 0\<rparr>) (rc_table s),
     rc_pcs := (rc_pcs s)(i := Returned (Inr (decision NEW None)))\<rparr>"
  have sel: "race_step ttl k s (?sel s i)" if "rc_pcs s i = Selecting" "rc_table s = t" for s i
  proof -
    have "s\<lparr>rc_table := t, rc_pcs := (rc_pcs s)(i := Restaging)\<rparr> = ?sel s i"
      using that(2) by (cases s) simp
    moreover have "race_step ttl k s (s\<lparr>rc_table := t, rc_pcs := (rc_pcs s)(i := Restaging)\<rparr>)"
      by (rule call [where now = 0]) (use that assms in simp)
    ultimately show ?thesis by (simp only:)
  qed
  have re: "race_step ttl k s (?re s i)" if "rc_pcs s i = Restaging" for s i
    using call [of ttl k 0 s i] that by simp
  let ?s0 = "race_start t"
  have "race_step ttl k ?s0 (?sel ?s0 0)" by (rule sel) (simp_all add: race_start_def)
  moreover have "race_step ttl k (?sel ?s0 0) (?sel (?sel ?s0 0) 1)"
    by (rule sel) (simp_all add: race_start_def)
  moreover have "race_step ttl k (?sel (?sel ?s0 0) 1) (?re (?sel (?sel ?s0 0) 1) 0)"
    by (rule re) simp
  moreover have "race_step ttl k (?re (?sel (?sel ?s0 0) 1) 0) (?re (?re (?sel (?sel ?s0 0) 1) 0) 1)"
    by (rule re) simp
  ultimately have "rtranclp (race_step ttl k) ?s0 (?re (?re (?sel (?sel ?s0 0) 1) 0) 1)"
    by (meson rtranclp.rtrancl_into_rtrancl rtranclp.rtrancl_refl)
  then show ?thesis by (intro exI) (auto simp: won_def)
qed

definition demo_key :: dedup_key where
  "demo_key = \<lparr>dk_source = ''kafka_trade'', dk_external_id = ''42'', dk_tenant_id = None\<rparr>"

lemma demo_race:
  "rtranclp (race_step 48 demo_key) (race_start [])
     \<lparr>rc_table = [staged_row demo_key 7 :: string dedup_row],
      rc_pcs = (\<lambda>_. Selecting)(0 := Returned (Inr (decision NEW None)))\<rparr>"
proof -
  let ?s1 = "\<lparr>rc_table = [] :: string dedup_row list, rc_pcs = (\<lambda>_. Selecting)(0 := Inserting)\<rparr>"
  have "race_step 48 demo_key (race_start []) ?s1"
    using call [of 48 demo_key 7 "race_start []" 0 Inserting "[]"]
    by (simp add: race_start_def get_row_def)
  moreover have "race_step 48 demo_key ?s1 \<lparr>rc_table = [staged_row demo_key 7 :: string dedup_row],
      rc_pcs = (\<lambda>_. Selecting)(0 := Returned (Inr (decision NEW None)))\<rparr>"
    using call [of 48 demo_key 7 ?s1 0 "Returned (Inr (decision NEW None))" "[staged_row demo_key 7]"]
    by (simp add: get_row_def)
  ultimately show ?thesis by (meson rtranclp.rtrancl_into_rtrancl rtranclp.rtrancl_refl)
qed

theorem exactly_one_new_witness:
  "\<exists>!j. won \<lparr>rc_table = [staged_row demo_key 7 :: string dedup_row],
      rc_pcs = (\<lambda>_. Selecting)(0 := Returned (Inr (decision NEW None)))\<rparr> j"
  by (rule exactly_one_new [OF _ demo_race, of 0]) (simp_all add: get_row_def returned_def)

theorem failed_row_two_new_witness:
  "\<exists>s. rtranclp (race_step 48 demo_key)
        (race_start [(staged_row demo_key 7 :: string dedup_row)\<lparr>dr_state := FAILED\<rparr>]) s
      \<and> won s 0 \<and> won s 1"
  by (rule failed_row_two_new [of _ _ "(staged_row demo_key 7)\<lparr>dr_state := FAILED\<rparr>"])
     (simp_all add: get_row_def)

subsection \<open>Committed work is never re-run\<close>

text \<open>
  A history of the table: caller \<open>i\<close>, whose call is on the key \<open>ks i\<close>, runs its next
  transaction; anybody commits a key, or marks one failed. Each operation has its own reading of
  the clock.
\<close>

datatype 'p dedup_op =
    Advances nat instant
  | Commits dedup_key "'p option" instant
  | MarksFailed dedup_key

fun dedup_apply :: "rat \<Rightarrow> (nat \<Rightarrow> dedup_key) \<Rightarrow> 'p dedup_op \<Rightarrow> 'p race \<Rightarrow> 'p race" where
  "dedup_apply ttl_hours ks (Advances i now) s =
     (case stage_step ttl_hours (ks i) now (rc_pcs s i) (rc_table s) of
        (pc, t) \<Rightarrow> s\<lparr>rc_table := t, rc_pcs := (rc_pcs s)(i := pc)\<rparr>)"
| "dedup_apply ttl_hours ks (Commits k p now) s =
     s\<lparr>rc_table := snd (sql_commit_impl id k p now (rc_table s))\<rparr>"
| "dedup_apply ttl_hours ks (MarksFailed k) s =
     s\<lparr>rc_table := snd (sql_mark_failed_impl k (rc_table s))\<rparr>"

definition dedup_history ::
  "rat \<Rightarrow> (nat \<Rightarrow> dedup_key) \<Rightarrow> 'p dedup_op list \<Rightarrow> 'p race \<Rightarrow> 'p race" where
  "dedup_history ttl_hours ks ops s = fold (dedup_apply ttl_hours ks) ops s"

text \<open>When a key was last committed, and the payload its commits left.\<close>

fun note_commit :: "dedup_key \<Rightarrow> 'p dedup_op \<Rightarrow> instant \<times> 'p option \<Rightarrow> instant \<times> 'p option" where
  "note_commit k (Commits k' p now) (since, q) =
     (if canonical k' = canonical k then (now, case p of None \<Rightarrow> q | Some _ \<Rightarrow> p) else (since, q))"
| "note_commit k _ c = c"

definition last_commit ::
  "dedup_key \<Rightarrow> 'p dedup_op list \<Rightarrow> instant \<times> 'p option \<Rightarrow> instant \<times> 'p option" where
  "last_commit k ops c = fold (note_commit k) ops c"

fun fails_key :: "dedup_key \<Rightarrow> 'p dedup_op \<Rightarrow> bool" where
  "fails_key k (MarksFailed k') = (canonical k' = canonical k)"
| "fails_key k _ = False"

text \<open>
  What holds of a committed key: its row is committed with a known time, and its callers are
  before or behind their answer, which names the commit.
\<close>

definition answers_committed :: "dedup_error + 'p dedup_decision \<Rightarrow> bool" where
  "answers_committed r \<longleftrightarrow> (\<exists>d. r = Inr d \<and> dd_state d \<in> {COMMITTED, TTL_EXPIRED_REVERIFY})"

lemma answers_committed_simps [simp]:
  "answers_committed (Inr (decision COMMITTED p))"
  "answers_committed (Inr (decision TTL_EXPIRED_REVERIFY p))"
  by (simp_all add: answers_committed_def)

fun pc_behind_commit :: "'p stage_pc \<Rightarrow> bool" where
  "pc_behind_commit Restaging = False"
| "pc_behind_commit (Returned r) = answers_committed r"
| "pc_behind_commit _ = True"

definition committed_inv :: "(nat \<Rightarrow> dedup_key) \<Rightarrow> dedup_key \<Rightarrow> instant \<times> 'p option \<Rightarrow> 'p race \<Rightarrow> bool" where
  "committed_inv ks k c s \<longleftrightarrow>
     (\<exists>row. get_row k (rc_table s) = Some row \<and> dr_state row = COMMITTED \<and>
        dr_committed_at row = Some (fst c) \<and> dr_payload row = snd c) \<and>
     (\<forall>i. canonical (ks i) = canonical k \<longrightarrow> pc_behind_commit (rc_pcs s i))"

lemma stage_step_other:
  assumes "stage_step ttl k' now pc t = (pc', t')" and "canonical k' \<noteq> canonical k"
  shows "get_row k t' = get_row k t"
  using assms by (cases pc) (auto simp: get_row_def split: option.splits if_splits)

lemma stage_step_committed:
  assumes "stage_step ttl k' now pc t = (pc', t')" and "canonical k' = canonical k"
    and "get_row k t = Some row" and "dr_state row = COMMITTED"
    and "dr_committed_at row = Some since" and "pc_behind_commit pc"
  shows "t' = t \<and> pc_behind_commit pc'"
  using assms
  by (cases pc) (auto simp: get_row_def committed_answer_def split: if_splits)

lemma committed_inv_step:
  assumes "committed_inv ks k c s" and "\<not> fails_key k op"
  shows "committed_inv ks k (note_commit k op c) (dedup_apply ttl ks op s)"
proof -
  obtain since q where c: "c = (since, q)" by fastforce
  obtain row where row: "get_row k (rc_table s) = Some row" "dr_state row = COMMITTED"
      "dr_committed_at row = Some since" "dr_payload row = q"
    and pcs: "\<And>i. canonical (ks i) = canonical k \<Longrightarrow> pc_behind_commit (rc_pcs s i)"
    using assms(1) c by (auto simp: committed_inv_def)
  show ?thesis
  proof (cases op)
    case (Advances i now)
    obtain pc t where step: "stage_step ttl (ks i) now (rc_pcs s i) (rc_table s) = (pc, t)" by fastforce
    have "get_row k t = get_row k (rc_table s) \<and> (canonical (ks i) = canonical k \<longrightarrow> pc_behind_commit pc)"
      using stage_step_other [OF step, of k] stage_step_committed [OF step _ row(1-3)] pcs [of i]
      by (cases "canonical (ks i) = canonical k") auto
    then show ?thesis using Advances step row pcs c by (auto simp: committed_inv_def)
  next
    case (Commits k' p now)
    have "get_row k (snd (sql_commit_impl id k' p now (rc_table s))) =
        Some (if canonical k' = canonical k then mark_committed now p row else row)"
      using row(1) by (auto simp: sql_commit_impl_def get_row_def Let_def split: option.split)
    then show ?thesis using Commits row pcs c by (auto simp: committed_inv_def mark_committed_def)
  next
    case (MarksFailed k')
    then have "get_row k (snd (sql_mark_failed_impl k' (rc_table s))) = Some row"
      using row(1) assms(2) by (auto simp: sql_mark_failed_impl_def get_row_def split: option.split)
    then show ?thesis using MarksFailed row pcs c by (auto simp: committed_inv_def)
  qed
qed

lemma committed_inv_history:
  assumes "committed_inv ks k c s" and "\<not> list_ex (fails_key k) ops"
  shows "committed_inv ks k (last_commit k ops c) (dedup_history ttl ks ops s)"
  using assms
proof (induction ops arbitrary: c s)
  case (Cons op ops)
  then show ?case using committed_inv_step [of ks k c s op ttl] by (simp add: last_commit_def dedup_history_def)
qed (simp add: last_commit_def dedup_history_def)

lemma committed_inv_commit:
  assumes "get_row k t = Some row" and "\<forall>i. rc_pcs s i \<in> {Selecting, Inserting}"
    and "rc_table s = snd (sql_commit_impl id k p now t)"
  shows "committed_inv ks k (note_commit k (Commits k p now) (0, dr_payload row)) s"
proof -
  have "pc_behind_commit (rc_pcs s i)" for i using assms(2) by (metis insertE pc_behind_commit.simps(3,4) singletonD)
  then show ?thesis
    using get_row_commit [OF assms(1), of p now] assms(3)
    by (auto simp: committed_inv_def mark_committed_def)
qed

text \<open>
  C5. Committed work is never run again. After the commit of a staged key, and over any later
  history in which callers of any keys run the transactions of their calls in any interleaving,
  keys are committed and other keys are marked failed, every call on the key that was before its
  \<open>INSERT\<close> at the commit or came later and has returned was told \<open>COMMITTED\<close> or
  \<open>TTL_EXPIRED_REVERIFY\<close>, and the next one is told \<open>COMMITTED\<close> if the last commit is
  within its TTL and \<open>TTL_EXPIRED_REVERIFY\<close> otherwise, with the payload of the commits, and
  leaves the table as it is. A call that had found the key's row \<open>FAILED\<close> before the commit is
  excepted, and so is a \<open>mark_failed\<close> of the key itself.
\<close>

theorem committed_never_rerun:
  assumes "get_row k t = Some row" and "\<forall>i. rc_pcs s i \<in> {Selecting, Inserting}"
    and "rc_table s = snd (sql_commit_impl id k p committed t)"
    and "\<not> list_ex (fails_key k) ops"
  shows "let s' = dedup_history ttl_hours ks ops s;
      (since, payload) = last_commit k (Commits k p committed # ops) (0, dr_payload row)
    in (canonical (ks i) = canonical k \<and> rc_pcs s' i = Returned r \<longrightarrow> answers_committed r) \<and>
       sql_check_and_stage_impl ttl_hours k now (rc_table s') =
         (Inr (decision (if age_hours now since \<le> ttl_hours then COMMITTED else TTL_EXPIRED_REVERIFY)
            payload), rc_table s')"
proof -
  let ?s = "dedup_history ttl_hours ks ops s"
  let ?c = "last_commit k (Commits k p committed # ops) (0, dr_payload row)"
  obtain since payload where c: "?c = (since, payload)" by fastforce
  have "committed_inv ks k ?c ?s"
    using committed_inv_history [OF committed_inv_commit [OF assms(1-3)] assms(4), where ks = ks and ttl = ttl_hours]
    by (simp add: last_commit_def)
  then show ?thesis
    unfolding c Let_def prod.case
    by (auto simp: committed_inv_def sql_check_and_stage_impl_def committed_answer_def c
        dest!: spec [of _ i])
qed

theorem committed_never_rerun_witness:
  "answers_committed (Inr (decision COMMITTED (Some ''ok'')) :: dedup_error + string dedup_decision) \<and>
   sql_check_and_stage_impl 1 demo_key (3 * hour)
     (rc_table (dedup_history 1 (\<lambda>_. demo_key) [Advances 0 8, Advances 0 9, Advances 1 9]
        \<lparr>rc_table = [mark_committed 7 (Some ''ok'') (staged_row demo_key 0)],
         rc_pcs = (\<lambda>_. Selecting)(0 := Inserting)\<rparr>)) =
   (Inr (decision TTL_EXPIRED_REVERIFY (Some ''ok'')),
    [mark_committed 7 (Some ''ok'') (staged_row demo_key 0)])"
proof -
  let ?s = "\<lparr>rc_table = [mark_committed 7 (Some ''ok'') (staged_row demo_key 0)],
     rc_pcs = (\<lambda>_. Selecting)(0 := Inserting)\<rparr>"
  let ?ops = "[Advances 0 8, Advances 0 9, Advances 1 9] :: string dedup_op list"
  have s': "dedup_history 1 (\<lambda>_. demo_key) ?ops ?s =
     \<lparr>rc_table = [mark_committed 7 (Some ''ok'') (staged_row demo_key 0)],
      rc_pcs = (\<lambda>_. Selecting)(0 := Returned (Inr (decision COMMITTED (Some ''ok''))),
        1 := Returned (Inr (decision COMMITTED (Some ''ok''))))\<rparr>"
    by (simp add: dedup_history_def get_row_def committed_answer_def age_hours_def hour_def
        mark_committed_def staged_row_def fun_eq_iff)
  have "rc_table ?s = snd (sql_commit_impl id demo_key (Some ''ok'') 7 [staged_row demo_key 0])"
    by (simp add: sql_commit_impl_def get_row_def update_where_def Let_def)
  moreover have "get_row demo_key [staged_row demo_key 0 :: string dedup_row] = Some (staged_row demo_key 0)"
    by (simp add: get_row_def)
  moreover have "last_commit demo_key (Commits demo_key (Some ''ok'') 7 # ?ops)
      (0, dr_payload (staged_row demo_key 0)) = (7, Some ''ok'')"
    by (simp add: last_commit_def)
  moreover have "\<not> age_hours (3 * hour) 7 \<le> 1" by (simp add: age_hours_def hour_def)
  ultimately show ?thesis
    using committed_never_rerun [where s = ?s and k = demo_key and ops = ?ops and ttl_hours = 1
        and ks = "\<lambda>_. demo_key" and i = 0 and r = "Inr (decision COMMITTED (Some ''ok''))"
        and now = "3 * hour" and t = "[staged_row demo_key 0]" and row = "staged_row demo_key 0"
        and p = "Some ''ok''" and committed = 7]
    by (simp only: s' Let_def prod.case) simp
qed

text \<open>
  Whatever the concurrent callers do between \<open>commit\<close>'s \<open>SELECT\<close> and its \<open>COMMIT\<close>,
  short of deleting the row, the call leaves the row committed at this clock reading with the
  payload it was given: the \<open>IntegrityError\<close> branch loses no commit.
\<close>

theorem commit_lands:
  assumes "get_row k t \<noteq> None \<Longrightarrow> get_row k (racing t) \<noteq> None"
  shows "\<exists>row. get_row k (snd (sql_commit_impl racing k p now t)) = Some row \<and>
    dr_state row = COMMITTED \<and> dr_committed_at row = Some now \<and>
    (p \<noteq> None \<longrightarrow> dr_payload row = p)"
  using assms
  by (cases "get_row k t"; cases "get_row k (racing t)")
     (auto simp: sql_commit_impl_def get_row_def Let_def mark_committed_def)

theorem commit_lands_witness:
  "\<exists>row. get_row demo_key (snd (sql_commit_impl (\<lambda>t. t @ [staged_row demo_key 3]) demo_key
        (Some ''ok'') 9 [])) = Some row \<and> dr_state row = COMMITTED \<and>
    dr_committed_at row = Some 9 \<and> (Some ''ok'' \<noteq> None \<longrightarrow> dr_payload row = Some ''ok'')"
  by (rule commit_lands) (simp add: get_row_def)

text \<open>
  Up to four transient \<open>OperationalError\<close>s in a row are invisible to the caller of
  \<open>check_and_stage\<close>: it gets the answer and the table of a call without faults. The fifth is
  raised and changes nothing.
\<close>

theorem transient_faults:
  "fst (be_check_and_stage (sql_backend ttl) k s
      (w\<lparr>sq_faults := replicate n True @ False # fs\<rparr>)) =
     (if n \<le> 4 then fst (sql_check_and_stage_impl ttl k (sq_now w) (sq_table w))
      else Inl DbOperationalError) \<and>
   sq_table (snd (be_check_and_stage (sql_backend ttl) k s
      (w\<lparr>sq_faults := replicate n True @ False # fs\<rparr>))) =
     (if n \<le> 4 then snd (sql_check_and_stage_impl ttl k (sq_now w) (sq_table w))
      else sq_table w)"
proof (cases "n \<le> 4")
  case True
  then show ?thesis
    using with_retry_absorbs [of 0 n "sql_check_and_stage_impl ttl k (sq_now w)" fs "sq_table w"]
    by (simp add: sql_backend_def sql_call_def split: prod.split)
next
  case False
  then have "replicate n True = replicate 5 True @ replicate (n - 5) True"
    by (simp flip: replicate_add)
  then show ?thesis
    using False with_retry_gives_up [of 0 "sql_check_and_stage_impl ttl k (sq_now w)"
      "replicate (n - 5) True @ False # fs" "sq_table w"]
    by (simp add: sql_backend_def sql_call_def)
qed

end
