(* ===== verification/RedisDedup.thy ===== *)
theory RedisDedup
  imports ExactlyOnce
begin

text \<open>
  \<open>pipeline/exactly_once.py\<close>: the hot-path backend \<open>RedisExactlyOnceBackend\<close>. The Redis client
  is code outside the repository, so it is a parameter: a record of the commands the backend
  sends, each a function of the server's state \<open>'r\<close> that either raises (\<open>Inl\<close>) or answers.

  \<open>redis_laws R v\<close> states the documented behaviour the backend relies on, over a view \<open>v\<close> of
  the server that gives each live key its value and remaining seconds: \<open>SET ... NX\<close> is one
  atomic command, and a command that raises may or may not have reached the server.
\<close>

subsection \<open>The client\<close>

record 'r redis =
  rd_set :: "string \<Rightarrow> string \<Rightarrow> bool \<Rightarrow> int \<Rightarrow> 'r \<Rightarrow> (string + bool) \<times> 'r"
  rd_get :: "string \<Rightarrow> 'r \<Rightarrow> (string + string option) \<times> 'r"
  rd_delete :: "string \<Rightarrow> 'r \<Rightarrow> (string + unit) \<times> 'r"
  rd_ping :: "'r \<Rightarrow> (string + unit) \<times> 'r"
  rd_scan :: "string \<Rightarrow> 'r \<Rightarrow> (string + string list) \<times> 'r"

type_synonym 'r redis_view = "'r \<Rightarrow> string \<Rightarrow> (string \<times> int) option"

definition claim_law :: "'r redis \<Rightarrow> 'r redis_view \<Rightarrow> bool" where
  "claim_law R v \<longleftrightarrow>
     (\<forall>k x ex r. case rd_set R k x True ex r of
        (Inl _, r') \<Rightarrow> v r' = v r \<or> v r k = None \<and> v r' = (v r)(k \<mapsto> (x, ex))
      | (Inr ok, r') \<Rightarrow> ok = (v r k = None) \<and> v r' = (if ok then (v r)(k \<mapsto> (x, ex)) else v r))"

definition overwrite_law :: "'r redis \<Rightarrow> 'r redis_view \<Rightarrow> bool" where
  "overwrite_law R v \<longleftrightarrow>
     (\<forall>k x ex r. case rd_set R k x False ex r of
        (Inl _, r') \<Rightarrow> v r' = v r \<or> v r' = (v r)(k \<mapsto> (x, ex))
      | (Inr _, r') \<Rightarrow> v r' = (v r)(k \<mapsto> (x, ex)))"

definition read_law :: "'r redis \<Rightarrow> 'r redis_view \<Rightarrow> bool" where
  "read_law R v \<longleftrightarrow>
     (\<forall>k r. case rd_get R k r of
        (Inl _, r') \<Rightarrow> v r' = v r
      | (Inr x, r') \<Rightarrow> x = map_option fst (v r k) \<and> v r' = v r)"

definition redis_laws :: "'r redis \<Rightarrow> 'r redis_view \<Rightarrow> bool" where
  "redis_laws R v \<longleftrightarrow> claim_law R v \<and> overwrite_law R v \<and> read_law R v"

text \<open>Time passing: a key is gone once its seconds have run out.\<close>

definition redis_expiry :: "(int \<Rightarrow> 'r \<Rightarrow> 'r) \<Rightarrow> 'r redis_view \<Rightarrow> bool" where
  "redis_expiry wait v \<longleftrightarrow>
     (\<forall>d r k. v (wait d r) k =
        (case v r k of None \<Rightarrow> None | Some (x, e) \<Rightarrow> if d < e then Some (x, e - d) else None))"

text \<open>\<open>int()\<close> of a finite float truncates towards zero.\<close>

definition py_int :: "rat \<Rightarrow> int" where
  "py_int q = (if 0 \<le> q then \<lfloor>q\<rfloor> else \<lceil>q\<rceil>)"

subsection \<open>The backend\<close>

record 'r redis_config =
  rb_redis :: "'r redis option"
  rb_key_prefix :: string

definition require_redis :: "'r redis_config \<Rightarrow> string \<Rightarrow> dedup_error + 'r redis" where
  "require_redis c source =
     (case rb_redis c of None \<Rightarrow> Inl (DedupBackendUnavailable source) | Some R \<Rightarrow> Inr R)"

definition redis_key :: "'r redis_config \<Rightarrow> dedup_key \<Rightarrow> string" where
  "redis_key c k = rb_key_prefix c @ canonical k"

definition redis_health_check :: "'r redis_config \<Rightarrow> 'r \<Rightarrow> bool \<times> 'r" where
  "redis_health_check c r =
     (case rb_redis c of
        None \<Rightarrow> (False, r)
      | Some R \<Rightarrow> (case rd_ping R r of (Inl _, r') \<Rightarrow> (False, r') | (Inr _, r') \<Rightarrow> (True, r')))"

text \<open>
  \<open>between\<close> is what reaches the server between the failed claim and the \<open>GET\<close> that follows
  it: the commands of other callers, the passing of time.
\<close>

definition redis_check_and_stage ::
  "'r redis_config \<Rightarrow> ('r \<Rightarrow> 'r) \<Rightarrow> dedup_key \<Rightarrow> rat \<Rightarrow> 'r \<Rightarrow> (dedup_error + 'p dedup_decision) \<times> 'r"
where
  "redis_check_and_stage c between k ttl_seconds r =
     (case require_redis c (dk_source k) of
        Inl e \<Rightarrow> (Inl e, r)
      | Inr R \<Rightarrow>
          (case rd_set R (redis_key c k) (state_value STAGED) True (py_int ttl_seconds) r of
             (Inl _, r1) \<Rightarrow> (Inl (DedupBackendUnavailable (dk_source k)), r1)
           | (Inr claimed, r1) \<Rightarrow>
               if claimed then (Inr (decision NEW None), r1)
               else (case rd_get R (redis_key c k) (between r1) of
                       (Inl _, r2) \<Rightarrow> (Inl (DedupBackendUnavailable (dk_source k)), r2)
                     | (Inr existing, r2) \<Rightarrow>
                         if existing = Some (state_value COMMITTED)
                         then (Inr (decision COMMITTED None), r2)
                         else (Inr (decision STAGED None), r2))))"

definition redis_commit ::
  "'r redis_config \<Rightarrow> dedup_key \<Rightarrow> 'p option \<Rightarrow> rat \<Rightarrow> 'r \<Rightarrow> (dedup_error + unit) \<times> 'r" where
  "redis_commit c k payload ttl_seconds r =
     (case require_redis c (dk_source k) of
        Inl e \<Rightarrow> (Inl e, r)
      | Inr R \<Rightarrow>
          (case rd_set R (redis_key c k) (state_value COMMITTED) False (py_int ttl_seconds) r of
             (Inl _, r') \<Rightarrow> (Inl (DedupBackendUnavailable (dk_source k)), r')
           | (Inr _, r') \<Rightarrow> (Inr (), r')))"

definition redis_mark_failed ::
  "'r redis_config \<Rightarrow> dedup_key \<Rightarrow> 'r \<Rightarrow> (dedup_error + unit) \<times> 'r" where
  "redis_mark_failed c k r =
     (case require_redis c (dk_source k) of
        Inl e \<Rightarrow> (Inl e, r)
      | Inr R \<Rightarrow>
          (case rd_delete R (redis_key c k) r of
             (Inl _, r') \<Rightarrow> (Inl (DedupBackendUnavailable (dk_source k)), r')
           | (Inr _, r') \<Rightarrow> (Inr (), r')))"

definition redis_get ::
  "'r redis_config \<Rightarrow> dedup_key \<Rightarrow> 'r \<Rightarrow> (dedup_error + 'p dedup_decision) \<times> 'r" where
  "redis_get c k r =
     (case require_redis c (dk_source k) of
        Inl e \<Rightarrow> (Inl e, r)
      | Inr R \<Rightarrow>
          (case rd_get R (redis_key c k) r of
             (Inl _, r') \<Rightarrow> (Inl (DedupBackendUnavailable (dk_source k)), r')
           | (Inr None, r') \<Rightarrow> (Inr (decision NEW None), r')
           | (Inr (Some x), r') \<Rightarrow>
               if x = state_value COMMITTED then (Inr (decision COMMITTED None), r')
               else (Inr (decision STAGED None), r')))"

definition scan_pattern :: "'r redis_config \<Rightarrow> string \<Rightarrow> string" where
  "scan_pattern c prefix = rb_key_prefix c @ ''*:'' @ prefix @ '':*''"

definition scan_count :: "'r redis_config \<Rightarrow> string \<Rightarrow> 'r \<Rightarrow> (dedup_error + nat) \<times> 'r" where
  "scan_count c prefix r =
     (case require_redis c prefix of
        Inl e \<Rightarrow> (Inl e, r)
      | Inr R \<Rightarrow>
          (case rd_scan R (scan_pattern c prefix) r of
             (Inl _, r') \<Rightarrow> (Inl (DedupBackendUnavailable prefix), r')
           | (Inr ks, r') \<Rightarrow> (Inr (length ks), r')))"

fun delete_all :: "'r redis \<Rightarrow> string list \<Rightarrow> nat \<Rightarrow> 'r \<Rightarrow> (string + nat) \<times> 'r" where
  "delete_all R [] deleted r = (Inr deleted, r)"
| "delete_all R (k # ks) deleted r =
     (case rd_delete R k r of
        (Inl e, r') \<Rightarrow> (Inl e, r')
      | (Inr _, r') \<Rightarrow> delete_all R ks (deleted + 1) r')"

definition scan_delete :: "'r redis_config \<Rightarrow> string \<Rightarrow> 'r \<Rightarrow> (dedup_error + nat) \<times> 'r" where
  "scan_delete c prefix r =
     (case require_redis c prefix of
        Inl e \<Rightarrow> (Inl e, r)
      | Inr R \<Rightarrow>
          (case rd_scan R (scan_pattern c prefix) r of
             (Inl _, r1) \<Rightarrow> (Inl (DedupBackendUnavailable prefix), r1)
           | (Inr ks, r1) \<Rightarrow>
               (case delete_all R ks 0 r1 of
                  (Inl _, r2) \<Rightarrow> (Inl (DedupBackendUnavailable prefix), r2)
                | (Inr n, r2) \<Rightarrow> (Inr n, r2))))"

text \<open>
  The backend as the facade sees it. \<open>ExactlyOnceStore.commit\<close> passes no \<open>ttl_seconds\<close>, so
  the default 86400 applies.
\<close>

definition redis_backend :: "'r redis_config \<Rightarrow> ('r \<Rightarrow> 'r) \<Rightarrow> ('r, 'p) dedup_backend" where
  "redis_backend c between =
     \<lparr>be_check_and_stage = redis_check_and_stage c between,
      be_commit = (\<lambda>k p. redis_commit c k p 86400),
      be_mark_failed = redis_mark_failed c,
      be_get = redis_get c,
      be_health_check = redis_health_check c\<rparr>"

lemmas redis_defs =
  redis_check_and_stage_def redis_commit_def redis_mark_failed_def redis_get_def
  require_redis_def redis_backend_def

subsection \<open>What the laws give\<close>

lemmas claim_lawD = claim_law_def [THEN iffD1, THEN spec, THEN spec, THEN spec, THEN spec]
lemmas overwrite_lawD = overwrite_law_def [THEN iffD1, THEN spec, THEN spec, THEN spec, THEN spec]
lemmas read_lawD = read_law_def [THEN iffD1, THEN spec, THEN spec]

lemma claimed:
  assumes "redis_laws R v" and "rd_set R k x True ex r = (Inr ok, r')"
  shows "ok = (v r k = None)" and "v r' = (if ok then (v r)(k \<mapsto> (x, ex)) else v r)"
proof -
  from assms(1) have "claim_law R v" by (simp add: redis_laws_def)
  from claim_lawD [OF this, of r k x ex] assms(2)
  show "ok = (v r k = None)" and "v r' = (if ok then (v r)(k \<mapsto> (x, ex)) else v r)" by simp_all
qed

lemma claim_raised:
  assumes "redis_laws R v" and "rd_set R k x True ex r = (Inl e, r')"
  shows "v r' = v r \<or> v r k = None \<and> v r' = (v r)(k \<mapsto> (x, ex))"
proof -
  from assms(1) have "claim_law R v" by (simp add: redis_laws_def)
  from claim_lawD [OF this, of r k x ex] assms(2) show ?thesis by simp
qed

lemma overwritten:
  assumes "redis_laws R v" and "rd_set R k x False ex r = (Inr ok, r')"
  shows "v r' = (v r)(k \<mapsto> (x, ex))"
proof -
  from assms(1) have "overwrite_law R v" by (simp add: redis_laws_def)
  from overwrite_lawD [OF this, of r k x ex] assms(2) show ?thesis by simp
qed

lemma was_read:
  assumes "redis_laws R v" and "rd_get R k r = (a, r')"
  shows "v r' = v r" and "\<And>x. a = Inr x \<Longrightarrow> x = map_option fst (v r k)"
proof -
  from assms(1) have "read_law R v" by (simp add: redis_laws_def)
  from read_lawD [OF this, of r k] assms(2)
  show "v r' = v r" and "\<And>x. a = Inr x \<Longrightarrow> x = map_option fst (v r k)"
    by (auto split: sum.splits)
qed

text \<open>
  The four ways a call on a constructed client goes; the claim's answer decides alone whether
  the caller is told \<open>NEW\<close>.
\<close>

lemma redis_stage_cases:
  assumes "rb_redis c = Some R" and "redis_check_and_stage c between k ttl r = (a, r')"
  obtains (raised) e where
      "rd_set R (redis_key c k) (state_value STAGED) True (py_int ttl) r = (Inl e, r')"
      "a = Inl (DedupBackendUnavailable (dk_source k))"
    | (new)
      "rd_set R (redis_key c k) (state_value STAGED) True (py_int ttl) r = (Inr True, r')"
      "a = Inr (decision NEW None)"
    | (read_raised) r1 e where
      "rd_set R (redis_key c k) (state_value STAGED) True (py_int ttl) r = (Inr False, r1)"
      "rd_get R (redis_key c k) (between r1) = (Inl e, r')"
      "a = Inl (DedupBackendUnavailable (dk_source k))"
    | (present) r1 x where
      "rd_set R (redis_key c k) (state_value STAGED) True (py_int ttl) r = (Inr False, r1)"
      "rd_get R (redis_key c k) (between r1) = (Inr x, r')"
      "a = Inr (decision (if x = Some (state_value COMMITTED) then COMMITTED else STAGED) None)"
proof (cases "rd_set R (redis_key c k) (state_value STAGED) True (py_int ttl) r")
  case set: (Pair b r1)
  show ?thesis
  proof (cases b)
    case (Inl e)
    then show ?thesis using raised assms set
      by (simp add: redis_check_and_stage_def require_redis_def)
  next
    case (Inr ok)
    then show ?thesis using new read_raised present assms set
      by (cases ok; cases "rd_get R (redis_key c k) (between r1)"; cases "fst (rd_get R (redis_key c k) (between r1))")
         (auto simp: redis_check_and_stage_def require_redis_def split: if_splits)
  qed
qed

definition redis_fresh :: "'r redis_config \<Rightarrow> 'r redis_view \<Rightarrow> 'r \<Rightarrow> string \<Rightarrow> bool" where
  "redis_fresh c v r cn = (map_option fst (v r (rb_key_prefix c @ cn)) = Some (state_value COMMITTED))"

lemma redis_stage_fresh:
  assumes L: "redis_laws R v" and R: "rb_redis c = Some R"
    and "redis_check_and_stage c id k ttl r = (Inr d, r')"
  shows "dd_state d = COMMITTED \<longleftrightarrow> redis_fresh c v r (canonical k)"
  using R assms(3)
proof (cases rule: redis_stage_cases)
  case new
  then show ?thesis using claimed [OF L new(1)] by (simp add: redis_fresh_def redis_key_def)
next
  case (present r1 x)
  then show ?thesis using claimed [OF L present(1)] was_read [OF L present(2)]
    by (simp add: redis_fresh_def redis_key_def)
qed simp_all

lemma redis_stage_frame:
  assumes L: "redis_laws R v" and R: "rb_redis c = Some R"
    and "redis_check_and_stage c id k ttl r = (a, r')"
  shows "redis_fresh c v r' = redis_fresh c v r"
  using R assms(3)
proof (cases rule: redis_stage_cases)
  case (raised e)
  then show ?thesis using claim_raised [OF L raised(1)]
    by (intro ext) (elim disjE conjE; simp add: redis_fresh_def redis_key_def)
next
  case new
  then show ?thesis using claimed [OF L new(1)]
    by (auto simp: redis_fresh_def redis_key_def fun_eq_iff)
next
  case (read_raised r1 e)
  then show ?thesis using claimed [OF L read_raised(1)] was_read(1) [OF L read_raised(2)]
    by (simp add: redis_fresh_def fun_eq_iff)
next
  case (present r1 x)
  then show ?thesis using claimed [OF L present(1)] was_read(1) [OF L present(2)]
    by (simp add: redis_fresh_def fun_eq_iff)
qed

lemma redis_commit_sets:
  assumes "redis_laws R v" and R: "rb_redis c = Some R"
    and "redis_commit c k p ttl r = (Inr u, r')"
  shows "v r' = (v r)(redis_key c k \<mapsto> (state_value COMMITTED, py_int ttl))"
  using assms(3) R overwritten [OF assms(1)]
  by (auto simp: redis_commit_def require_redis_def split: sum.splits prod.splits)

lemma redis_commit_fresh:
  assumes "redis_laws R v" and "rb_redis c = Some R"
    and "redis_commit c k p ttl r = (Inr u, r')"
  shows "redis_fresh c v r' = (redis_fresh c v r)(canonical k := True)"
  using redis_commit_sets [OF assms] by (auto simp: redis_fresh_def redis_key_def fun_eq_iff)

text \<open>On a lawful client the backend keeps the contract of the store's clients.\<close>

lemma redis_exactly_once:
  fixes c :: "'r redis_config"
  assumes "redis_laws R v" and "rb_redis c = Some R"
  shows "exactly_once (redis_backend c id :: ('r, 'p) dedup_backend) (\<lambda>_. True) (redis_fresh c v)"
  by unfold_locales
     (auto simp: redis_backend_def redis_stage_fresh [OF assms] redis_stage_frame [OF assms]
       redis_commit_fresh [OF assms])

subsection \<open>A server for the witnesses\<close>

type_synonym mem_redis = "string \<rightharpoonup> string \<times> int"

definition mem_redis :: "mem_redis redis" where
  "mem_redis =
     \<lparr>rd_set = (\<lambda>k x nx ex r. if nx \<and> r k \<noteq> None then (Inr False, r)
                 else (Inr True, r(k \<mapsto> (x, ex)))),
      rd_get = (\<lambda>k r. (Inr (map_option fst (r k)), r)),
      rd_delete = (\<lambda>k r. (Inr (), r(k := None))),
      rd_ping = (\<lambda>r. (Inr (), r)),
      rd_scan = (\<lambda>pattern r. (Inl ''unsupported'', r))\<rparr>"

definition mem_view :: "mem_redis redis_view" where
  "mem_view r = r"

definition mem_wait :: "int \<Rightarrow> mem_redis \<Rightarrow> mem_redis" where
  "mem_wait d r k =
     (case r k of None \<Rightarrow> None | Some (x, e) \<Rightarrow> if d < e then Some (x, e - d) else None)"

definition mem_config :: "mem_redis redis_config" where
  "mem_config = \<lparr>rb_redis = Some mem_redis, rb_key_prefix = ''ledgerlens:dedup:''\<rparr>"

lemma mem_redis_laws: "redis_laws mem_redis mem_view"
  by (auto simp: redis_laws_def claim_law_def overwrite_law_def read_law_def mem_redis_def
      mem_view_def fun_eq_iff simp del: not_None_eq)

lemma mem_config_redis: "rb_redis mem_config = Some mem_redis"
  by (simp add: mem_config_def)

lemma mem_redis_expiry: "redis_expiry mem_wait mem_view"
  by (simp add: redis_expiry_def mem_view_def mem_wait_def)

subsection \<open>Properties\<close>

definition answered_new :: "dedup_error + 'p dedup_decision \<Rightarrow> bool" where
  "answered_new a = (case a of Inl _ \<Rightarrow> False | Inr d \<Rightarrow> dd_state d = NEW)"

lemma answered_new_simps [simp]:
  "\<not> answered_new (Inl e)" "answered_new (Inr d) = (dd_state d = NEW)"
  by (simp_all add: answered_new_def)

lemma redis_answers:
  assumes "redis_check_and_stage c between k ttl r = (a, r')"
  shows "answered_new a = (\<exists>R. rb_redis c = Some R \<and>
          fst (rd_set R (redis_key c k) (state_value STAGED) True (py_int ttl) r) = Inr True) \<and>
      a \<in> {Inl (DedupBackendUnavailable (dk_source k)), Inr (decision NEW None),
           Inr (decision STAGED None), Inr (decision COMMITTED None)}"
proof (cases "rb_redis c")
  case None
  then show ?thesis using assms by (auto simp: redis_check_and_stage_def require_redis_def)
next
  case (Some R)
  show ?thesis using Some assms by (rule redis_stage_cases) (auto simp: Some)
qed

text \<open>
  A client that keeps a note of whether a command of it has raised. It behaves as the client it
  watches (\<open>watched_stage\<close>).
\<close>

definition note_raise :: "('r \<Rightarrow> (string + 'a) \<times> 'r) \<Rightarrow> 'r \<times> bool \<Rightarrow> (string + 'a) \<times> 'r \<times> bool" where
  "note_raise f s = (case f (fst s) of (a, r) \<Rightarrow> (a, r, snd s \<or> isl a))"

definition watched :: "'r redis \<Rightarrow> ('r \<times> bool) redis" where
  "watched R =
     \<lparr>rd_set = (\<lambda>k x nx ex. note_raise (rd_set R k x nx ex)),
      rd_get = (\<lambda>k. note_raise (rd_get R k)),
      rd_delete = (\<lambda>k. note_raise (rd_delete R k)),
      rd_ping = note_raise (rd_ping R),
      rd_scan = (\<lambda>pattern. note_raise (rd_scan R pattern))\<rparr>"

definition watched_config :: "'r redis_config \<Rightarrow> ('r \<times> bool) redis_config" where
  "watched_config c = \<lparr>rb_redis = map_option watched (rb_redis c), rb_key_prefix = rb_key_prefix c\<rparr>"

lemma watched_simps [simp]:
  "rd_set (watched R) k x nx ex = note_raise (rd_set R k x nx ex)"
  "rd_get (watched R) k = note_raise (rd_get R k)"
  "rd_delete (watched R) k = note_raise (rd_delete R k)"
  "rd_scan (watched R) pattern = note_raise (rd_scan R pattern)"
  "rb_redis (watched_config c) = map_option watched (rb_redis c)"
  "redis_key (watched_config c) dk = redis_key c dk"
  "scan_pattern (watched_config c) prefix = scan_pattern c prefix"
  by (simp_all add: watched_def watched_config_def redis_key_def scan_pattern_def)

lemma watched_stage:
  "redis_check_and_stage c between k ttl r =
     (case redis_check_and_stage (watched_config c) (map_prod between id) k ttl (r, b) of
        (a, r', _) \<Rightarrow> (a, r'))"
  by (auto simp: redis_check_and_stage_def require_redis_def note_raise_def
      split: option.split sum.split prod.split)

text \<open>
  Fail-closed: the operation raises when there is no client or a command of it raised, and then
  it raises \<open>DedupBackendUnavailableError\<close> for its source.
\<close>

definition fail_closed :: "'r redis_config \<Rightarrow> string \<Rightarrow> (dedup_error + 'a) \<times> 'r \<times> bool \<Rightarrow> bool" where
  "fail_closed c source res \<longleftrightarrow>
     (case res of (a, _, raised) \<Rightarrow>
        if rb_redis c = None \<or> raised then a = Inl (DedupBackendUnavailable source) else \<not> isl a)"

lemma delete_all_watched:
  "case delete_all (watched R) ks n (r, b) of (a, _, raised) \<Rightarrow> raised = (b \<or> isl a)"
proof (induction ks arbitrary: n r b)
  case (Cons k ks)
  obtain a r' where del: "rd_delete R k r = (a, r')" by fastforce
  show ?case
  proof (cases a)
    case (Inl e)
    then show ?thesis using del by (simp add: note_raise_def)
  next
    case (Inr u)
    then show ?thesis using del Cons.IH [where n = "n + 1" and r = r' and b = b] by (simp add: note_raise_def)
  qed
qed simp

lemma scan_delete_fail_closed: "fail_closed c prefix (scan_delete (watched_config c) prefix (r, False))"
proof (cases "rb_redis c")
  case None
  then show ?thesis by (simp add: fail_closed_def scan_delete_def require_redis_def)
next
  case (Some R)
  obtain a r1 where scan: "rd_scan R (scan_pattern c prefix) r = (a, r1)" by fastforce
  show ?thesis
  proof (cases a)
    case (Inl e)
    then show ?thesis using Some scan
      by (simp add: fail_closed_def scan_delete_def require_redis_def note_raise_def)
  next
    case (Inr ks)
    obtain d r2 raised where del: "delete_all (watched R) ks 0 (r1, False) = (d, r2, raised)"
      by (rule prod_cases3)
    have "raised = isl d" using delete_all_watched [where R = R and ks = ks and n = 0 and r = r1 and b = False] del by simp
    then show ?thesis using Some scan Inr del
      by (cases d) (simp_all add: fail_closed_def scan_delete_def require_redis_def note_raise_def)
  qed
qed

text \<open>
  C7. The backend is fail-closed, whatever the client and the server do: each of its operations
  raises \<open>DedupBackendUnavailableError\<close> for its source exactly when no client was constructed
  or a command sent by the operation raised, so no answer is ever made up for a server that could
  not be asked, and a caller is told \<open>NEW\<close> only when its atomic claim was confirmed.
\<close>

theorem redis_fail_closed:
  "fail_closed c (dk_source k)
     (redis_check_and_stage (watched_config c) (map_prod between id) k ttl (r, False)) \<and>
   fail_closed c (dk_source k) (redis_commit (watched_config c) k payload ttl (r, False)) \<and>
   fail_closed c (dk_source k) (redis_mark_failed (watched_config c) k (r, False)) \<and>
   fail_closed c (dk_source k) (redis_get (watched_config c) k (r, False)) \<and>
   fail_closed c prefix (scan_count (watched_config c) prefix (r, False)) \<and>
   fail_closed c prefix (scan_delete (watched_config c) prefix (r, False)) \<and>
   answered_new (fst (redis_check_and_stage c between k ttl r)) =
     (\<exists>R. rb_redis c = Some R \<and>
        fst (rd_set R (redis_key c k) (state_value STAGED) True (py_int ttl) r) = Inr True)"
proof (intro conjI)
  show "fail_closed c (dk_source k)
     (redis_check_and_stage (watched_config c) (map_prod between id) k ttl (r, False))"
    by (auto simp: fail_closed_def redis_check_and_stage_def require_redis_def note_raise_def
        split: option.split sum.split prod.split)
  show "fail_closed c (dk_source k) (redis_commit (watched_config c) k payload ttl (r, False))"
    by (auto simp: fail_closed_def redis_commit_def require_redis_def note_raise_def
        split: option.split sum.split prod.split)
  show "fail_closed c (dk_source k) (redis_mark_failed (watched_config c) k (r, False))"
    by (auto simp: fail_closed_def redis_mark_failed_def require_redis_def note_raise_def
        split: option.split sum.split prod.split)
  show "fail_closed c (dk_source k) (redis_get (watched_config c) k (r, False))"
    by (auto simp: fail_closed_def redis_get_def require_redis_def note_raise_def
        split: option.split sum.split prod.split)
  show "fail_closed c prefix (scan_count (watched_config c) prefix (r, False))"
    by (auto simp: fail_closed_def scan_count_def require_redis_def note_raise_def
        split: option.split sum.split prod.split)
  show "fail_closed c prefix (scan_delete (watched_config c) prefix (r, False))"
    by (rule scan_delete_fail_closed)
  show "answered_new (fst (redis_check_and_stage c between k ttl r)) =
     (\<exists>R. rb_redis c = Some R \<and>
        fst (rd_set R (redis_key c k) (state_value STAGED) True (py_int ttl) r) = Inr True)"
    by (rule redis_answers [OF prod.collapse [symmetric], THEN conjunct1])
qed

subsection \<open>Concurrent callers\<close>

text \<open>
  A caller of \<open>check_and_stage\<close> is before its \<open>SET NX\<close>, between the refused \<open>SET NX\<close>
  and its \<open>GET\<close>, or back with its answer.
\<close>

datatype 'p redis_pc =
    Claiming
  | Reading
  | Answered "dedup_error + 'p dedup_decision"

fun redis_step ::
  "'r redis_config \<Rightarrow> dedup_key \<Rightarrow> rat \<Rightarrow> 'p redis_pc \<Rightarrow> 'r \<Rightarrow> 'p redis_pc \<times> 'r"
where
  "redis_step c k ttl_seconds Claiming r =
     (case require_redis c (dk_source k) of
        Inl e \<Rightarrow> (Answered (Inl e), r)
      | Inr R \<Rightarrow>
          (case rd_set R (redis_key c k) (state_value STAGED) True (py_int ttl_seconds) r of
             (Inl _, r') \<Rightarrow> (Answered (Inl (DedupBackendUnavailable (dk_source k))), r')
           | (Inr claimed, r') \<Rightarrow>
               if claimed then (Answered (Inr (decision NEW None)), r') else (Reading, r')))"
| "redis_step c k ttl_seconds Reading r =
     (case require_redis c (dk_source k) of
        Inl e \<Rightarrow> (Answered (Inl e), r)
      | Inr R \<Rightarrow>
          (case rd_get R (redis_key c k) r of
             (Inl _, r') \<Rightarrow> (Answered (Inl (DedupBackendUnavailable (dk_source k))), r')
           | (Inr existing, r') \<Rightarrow>
               if existing = Some (state_value COMMITTED)
               then (Answered (Inr (decision COMMITTED None)), r')
               else (Answered (Inr (decision STAGED None)), r')))"
| "redis_step c k ttl_seconds (Answered a) r = (Answered a, r)"

text \<open>Its two commands compose to the method.\<close>

lemma redis_step_composes:
  "(case redis_check_and_stage c between k ttl r of (a, r') \<Rightarrow> (Answered a, r')) =
     (case redis_step c k ttl Claiming r of
        (Reading, r1) \<Rightarrow> redis_step c k ttl Reading (between r1)
      | (pc, r1) \<Rightarrow> (pc, r1))"
  by (auto simp: redis_check_and_stage_def require_redis_def
      split: option.split sum.split prod.split)

text \<open>
  The events of a race on one key: caller \<open>i\<close> sends its next command, a caller that was told
  \<open>NEW\<close> commits its work, time passes, and anything else reaches the server.
\<close>

datatype 'r redis_op =
    Moves nat
  | Finishes nat
  | Waits int
  | Others "'r \<Rightarrow> 'r"

record ('r, 'p) redis_race =
  rr_server :: 'r
  rr_pcs :: "nat \<Rightarrow> 'p redis_pc"

fun claim_won :: "'p redis_pc \<Rightarrow> bool" where
  "claim_won (Answered a) = answered_new a"
| "claim_won _ = False"

fun claim_failed :: "'p redis_pc \<Rightarrow> bool" where
  "claim_failed (Answered a) = isl a"
| "claim_failed _ = False"

fun has_answer :: "'p redis_pc \<Rightarrow> bool" where
  "has_answer (Answered a) = True"
| "has_answer _ = False"

fun redis_apply ::
  "'r redis_config \<Rightarrow> (int \<Rightarrow> 'r \<Rightarrow> 'r) \<Rightarrow> dedup_key \<Rightarrow> (nat \<Rightarrow> rat) \<Rightarrow> 'r redis_op
     \<Rightarrow> ('r, 'p) redis_race \<Rightarrow> ('r, 'p) redis_race" where
  "redis_apply c wait k ttls (Moves i) s =
     (case redis_step c k (ttls i) (rr_pcs s i) (rr_server s) of
        (pc, r) \<Rightarrow> s\<lparr>rr_server := r, rr_pcs := (rr_pcs s)(i := pc)\<rparr>)"
| "redis_apply c wait k ttls (Finishes i) s =
     (if claim_won (rr_pcs s i)
      then s\<lparr>rr_server := snd (redis_commit c k (None :: 'p option) 86400 (rr_server s))\<rparr> else s)"
| "redis_apply c wait k ttls (Waits d) s = s\<lparr>rr_server := wait d (rr_server s)\<rparr>"
| "redis_apply c wait k ttls (Others f) s = s\<lparr>rr_server := f (rr_server s)\<rparr>"

definition redis_history ::
  "'r redis_config \<Rightarrow> (int \<Rightarrow> 'r \<Rightarrow> 'r) \<Rightarrow> dedup_key \<Rightarrow> (nat \<Rightarrow> rat) \<Rightarrow> 'r redis_op list \<Rightarrow> 'r
     \<Rightarrow> nat \<Rightarrow> 'p redis_pc" where
  "redis_history c wait k ttls ops r =
     rr_pcs (fold (redis_apply c wait k ttls) ops \<lparr>rr_server = r, rr_pcs = (\<lambda>_. Claiming)\<rparr>)"

fun time_of :: "'r redis_op \<Rightarrow> int" where
  "time_of (Waits d) = d"
| "time_of _ = 0"

definition time_passed :: "'r redis_op list \<Rightarrow> int" where
  "time_passed ops = sum_list (map time_of ops)"

fun leaves_key :: "'r redis_view \<Rightarrow> string \<Rightarrow> 'r redis_op \<Rightarrow> bool" where
  "leaves_key v rk (Waits d) = (0 \<le> d)"
| "leaves_key v rk (Others f) = (\<forall>r. v (f r) rk = v r rk)"
| "leaves_key v rk _ = True"

text \<open>
  The invariant, with \<open>T\<close> the time that is still to pass: the key, once there, outlives it; it
  is there when a caller was told \<open>NEW\<close>, and was put there by a caller who was told so or whose
  claim raised; while it is not, no call has got past its claim.
\<close>

definition redis_inv :: "'r redis_view \<Rightarrow> string \<Rightarrow> int \<Rightarrow> ('r, 'p) redis_race \<Rightarrow> bool" where
  "redis_inv v rk T s \<longleftrightarrow>
     (\<forall>i j. claim_won (rr_pcs s i) \<longrightarrow> claim_won (rr_pcs s j) \<longrightarrow> i = j) \<and>
     (case v (rr_server s) rk of
        None \<Rightarrow> \<forall>i. rr_pcs s i = Claiming \<or> claim_failed (rr_pcs s i)
      | Some (x, e) \<Rightarrow> T < e \<and> (\<exists>i. claim_won (rr_pcs s i) \<or> claim_failed (rr_pcs s i)))"

lemma redis_inv_move:
  assumes L: "redis_laws R v" and R: "rb_redis c = Some R"
    and inv: "redis_inv v (redis_key c k) T s" and ttl: "T < py_int ttl"
    and step: "redis_step c k ttl (rr_pcs s i) (rr_server s) = (pc, r)"
  shows "redis_inv v (redis_key c k) T (s\<lparr>rr_server := r, rr_pcs := (rr_pcs s)(i := pc)\<rparr>)"
proof (cases "rr_pcs s i")
  case Claiming
  obtain a r1 where set: "rd_set R (redis_key c k) (state_value STAGED) True (py_int ttl) (rr_server s)
      = (a, r1)" by fastforce
  show ?thesis
  proof (cases a)
    case (Inl e)
    then have "pc = Answered (Inl (DedupBackendUnavailable (dk_source k)))" "r = r1"
      using step Claiming R set by (auto simp: require_redis_def)
    with claim_raised [OF L set [unfolded Inl]] inv ttl Claiming show ?thesis
      by (auto simp: redis_inv_def split: option.splits)
  next
    case (Inr ok)
    note got = claimed [OF L set [unfolded Inr]]
    show ?thesis
    proof (cases ok)
      case True
      then have "pc = Answered (Inr (decision NEW None))" "r = r1"
        using step Claiming R set Inr by (auto simp: require_redis_def)
      moreover have "\<not> claim_won (rr_pcs s j)" for j
      proof -
        have "rr_pcs s j = Claiming \<or> claim_failed (rr_pcs s j)"
          using inv got(1) True by (simp add: redis_inv_def)
        then show ?thesis by (cases "rr_pcs s j") (auto simp: answered_new_def split: sum.split)
      qed
      ultimately show ?thesis using got True ttl by (auto simp: redis_inv_def)
    next
      case False
      then have "pc = Reading" "r = r1"
        using step Claiming R set Inr by (auto simp: require_redis_def)
      moreover obtain x e where key: "v (rr_server s) (redis_key c k) = Some (x, e)"
        using got(1) False by auto
      moreover obtain w where "claim_won (rr_pcs s w) \<or> claim_failed (rr_pcs s w)"
        using inv key by (auto simp: redis_inv_def)
      moreover from this Claiming have "w \<noteq> i" by auto
      ultimately show ?thesis using inv got False by (auto simp: redis_inv_def)
    qed
  qed
next
  case Reading
  obtain a r1 where get: "rd_get R (redis_key c k) (rr_server s) = (a, r1)" by fastforce
  have "v (rr_server s) (redis_key c k) \<noteq> None"
  proof
    assume "v (rr_server s) (redis_key c k) = None"
    then have "rr_pcs s i = Claiming \<or> claim_failed (rr_pcs s i)" using inv by (simp add: redis_inv_def)
    with Reading show False by simp
  qed
  then obtain x e where key: "v (rr_server s) (redis_key c k) = Some (x, e)" by auto
  with inv obtain w where w: "claim_won (rr_pcs s w) \<or> claim_failed (rr_pcs s w)"
    by (auto simp: redis_inv_def)
  with Reading have "w \<noteq> i" by auto
  have "\<not> claim_won pc" and "r = r1"
    using step Reading R get by (auto simp: require_redis_def split: sum.splits if_splits)
  with w key \<open>w \<noteq> i\<close> inv was_read(1) [OF L get] show ?thesis by (auto simp: redis_inv_def)
next
  case (Answered a)
  then have "s\<lparr>rr_server := r, rr_pcs := (rr_pcs s)(i := pc)\<rparr> = s" using step by (cases s) auto
  then show ?thesis using inv by simp
qed

lemma redis_commit_keeps:
  assumes L: "redis_laws R v" and R: "rb_redis c = Some R"
    and "redis_commit c k p ttl r = (a, r')"
  shows "v r' = v r \<or> v r' = (v r)(redis_key c k \<mapsto> (state_value COMMITTED, py_int ttl))"
proof -
  from L have "overwrite_law R v" by (simp add: redis_laws_def)
  from overwrite_lawD [OF this, of r "redis_key c k" "state_value COMMITTED" "py_int ttl"] assms(3) R
  show ?thesis by (auto simp: redis_commit_def require_redis_def split: sum.splits prod.splits)
qed

lemma redis_inv_step:
  assumes L: "redis_laws R v" and E: "redis_expiry wait v" and R: "rb_redis c = Some R"
    and inv: "redis_inv v (redis_key c k) (time_of op + T) s" and leaves: "leaves_key v (redis_key c k) op"
    and rest: "0 \<le> T" and ttl: "\<And>i. T < py_int (ttls i)" "T < 86400"
  shows "redis_inv v (redis_key c k) T (redis_apply c wait k ttls op s)"
proof (cases op)
  case (Moves i)
  obtain pc r where "redis_step c k (ttls i) (rr_pcs s i) (rr_server s) = (pc, r)" by fastforce
  then show ?thesis
    using inv redis_inv_move [OF L R _ ttl(1), where s = s and i = i] Moves by simp
next
  case (Finishes i)
  show ?thesis
  proof (cases "claim_won (rr_pcs s i)")
    case True
    obtain a r where com: "redis_commit c k (None :: unit option) 86400 (rr_server s) = (a, r)" by fastforce
    have com': "snd (redis_commit c k (None :: 'b option) 86400 (rr_server s)) = r"
      using com R by (auto simp: redis_commit_def require_redis_def split: sum.splits prod.splits)
    have "v (rr_server s) (redis_key c k) \<noteq> None"
    proof
      assume "v (rr_server s) (redis_key c k) = None"
      then have "rr_pcs s i = Claiming \<or> claim_failed (rr_pcs s i)" using inv by (simp add: redis_inv_def)
      with True show False by (cases "rr_pcs s i") (auto simp: answered_new_def split: sum.splits)
    qed
    with redis_commit_keeps [OF L R com] show ?thesis using Finishes True inv ttl(2) com'
      by (auto simp: redis_inv_def py_int_def split: option.splits)
  next
    case False
    then show ?thesis using Finishes inv by simp
  qed
next
  case (Waits d)
  then have "v (wait d (rr_server s)) (redis_key c k) =
      (case v (rr_server s) (redis_key c k) of None \<Rightarrow> None
       | Some (x, e) \<Rightarrow> if d < e then Some (x, e - d) else None)" and "0 \<le> d"
    using E leaves by (simp_all add: redis_expiry_def)
  with Waits inv rest show ?thesis
    by (auto simp: redis_inv_def split: option.splits)
next
  case (Others f)
  then have "v (f (rr_server s)) (redis_key c k) = v (rr_server s) (redis_key c k)" using leaves by simp
  then show ?thesis using Others inv by (auto simp: redis_inv_def split: option.splits)
qed

lemma time_passed_nonneg: "\<forall>op\<in>set ops. leaves_key v rk op \<Longrightarrow> 0 \<le> time_passed ops"
proof (induction ops)
  case (Cons op ops)
  then have "0 \<le> time_of op" by (cases op) auto
  with Cons show ?case by (simp add: time_passed_def)
qed (simp add: time_passed_def)

lemma redis_inv_history:
  assumes "redis_laws R v" and "redis_expiry wait v" and "rb_redis c = Some R"
  shows "redis_inv v (redis_key c k) (time_passed ops) s \<Longrightarrow>
    \<forall>op\<in>set ops. leaves_key v (redis_key c k) op \<Longrightarrow>
    \<forall>i. time_passed ops < py_int (ttls i) \<Longrightarrow> time_passed ops < 86400 \<Longrightarrow>
    redis_inv v (redis_key c k) 0 (fold (redis_apply c wait k ttls) ops s)"
proof (induction ops arbitrary: s)
  case Nil
  then show ?case by (simp add: time_passed_def)
next
  case (Cons op ops)
  have rest: "0 \<le> time_passed ops" 
    by (rule time_passed_nonneg [where v = v and rk = "redis_key c k"]) (use Cons.prems(2) in simp)
  have op: "leaves_key v (redis_key c k) op" using Cons.prems(2) by simp
  then have "0 \<le> time_of op" by (cases op) auto
  moreover have split: "time_passed (op # ops) = time_of op + time_passed ops" by (simp add: time_passed_def)
  ultimately have short: "time_passed ops < py_int (ttls i)" "time_passed ops < 86400" for i
    using spec [OF Cons.prems(3), of i] Cons.prems(4) by linarith+
  have "redis_inv v (redis_key c k) (time_passed ops) (redis_apply c wait k ttls op s)"
    by (rule redis_inv_step [OF assms _ op rest short]) (use Cons.prems(1) split in simp)
  then show ?case using Cons.IH short Cons.prems(2) by simp
qed

text \<open>
  C6. However many callers submit a key that is not there, in whatever interleaving of their
  commands, of the winner's commit, of the passing of time and of whatever else reaches the server
  and leaves the key alone (so no \<open>mark_failed\<close> or \<open>scan_delete\<close> of it), and as long as less
  time has passed than each claim's and the commit's time to live: at most one caller is told
  \<open>NEW\<close>, and as soon as one has an answer and none was refused with an error, exactly one is.
  An error can hide a claim that reached the server; then nobody need be told \<open>NEW\<close>.
\<close>

theorem redis_one_new:
  assumes "redis_laws R v" and "redis_expiry wait v" and "rb_redis c = Some R"
    and "v r (redis_key c k) = None" and "\<forall>op\<in>set ops. leaves_key v (redis_key c k) op"
    and "\<forall>i. time_passed ops < py_int (ttls i)" and "time_passed ops < 86400"
  shows "let pcs = redis_history c wait k ttls ops r :: nat \<Rightarrow> 'p redis_pc in
    (claim_won (pcs i) \<and> claim_won (pcs j) \<longrightarrow> i = j) \<and>
    (has_answer (pcs i) \<and> (\<forall>j. \<not> claim_failed (pcs j)) \<longrightarrow> (\<exists>!j. claim_won (pcs j)))"
proof -
  let ?s = "fold (redis_apply c wait k ttls) ops
      \<lparr>rr_server = r, rr_pcs = (\<lambda>_. Claiming :: 'p redis_pc)\<rparr>"
  have inv: "redis_inv v (redis_key c k) 0 ?s"
    by (rule redis_inv_history [OF assms(1-3)]) (use assms(4-7) in \<open>simp_all add: redis_inv_def\<close>)
  then have "i = j" if "claim_won (rr_pcs ?s i)" "claim_won (rr_pcs ?s j)" for i j
    using that inv unfolding redis_inv_def by (elim conjE) blast
  moreover have "\<exists>j. claim_won (rr_pcs ?s j)"
    if "has_answer (rr_pcs ?s i)" "\<forall>j. \<not> claim_failed (rr_pcs ?s j)"
  proof (cases "v (rr_server ?s) (redis_key c k)")
    case None
    with inv that(2) have "rr_pcs ?s i = Claiming" by (simp add: redis_inv_def)
    with that(1) show ?thesis by simp
  next
    case (Some y)
    with inv that(2) show ?thesis by (auto simp: redis_inv_def)
  qed
  ultimately show ?thesis unfolding redis_history_def Let_def by blast
qed

theorem redis_one_new_witness:
  "\<exists>!j. claim_won (redis_history mem_config mem_wait
      \<lparr>dk_source = ''s'', dk_external_id = ''1'', dk_tenant_id = None\<rparr> (\<lambda>_. 60)
      [Moves 1, Moves 0, Waits 30, Moves 0, Finishes 1, Moves 2] Map.empty j :: string redis_pc)"
proof -
  let ?k = "\<lparr>dk_source = ''s'', dk_external_id = ''1'', dk_tenant_id = None\<rparr>"
  let ?ops = "[Moves 1, Moves 0, Waits 30, Moves 0, Finishes 1, Moves 2] :: mem_redis redis_op list"
  have pcs: "redis_history mem_config mem_wait ?k (\<lambda>_. 60) ?ops Map.empty =
      (\<lambda>_. Claiming)(1 := Answered (Inr (decision NEW None :: string dedup_decision)),
         0 := Answered (Inr (decision STAGED None)), 2 := Reading)"
    by (simp add: redis_history_def require_redis_def mem_config_def mem_redis_def mem_wait_def
        py_int_def redis_commit_def fun_eq_iff)
  have "mem_view Map.empty (redis_key mem_config ?k) = None" by (simp add: mem_view_def)
  moreover have "\<forall>op\<in>set ?ops. leaves_key mem_view (redis_key mem_config ?k) op" by simp
  moreover have "time_passed ?ops < 60" and "py_int 60 = 60"
    by (simp_all add: time_passed_def py_int_def)
  ultimately show ?thesis
    using redis_one_new [where 'p = string, OF mem_redis_laws mem_redis_expiry mem_config_redis,
        where r = Map.empty and k = ?k and ops = ?ops and ttls = "\<lambda>_. 60" and i = 1 and j = 1]
    by (simp only: pcs Let_def) simp
qed

text \<open>
  The marker of committed work lives a day, whatever the time to live the store was built
  with: after a commit through the facade, \<open>get\<close> answers \<open>COMMITTED\<close> exactly while less
  than 86400 seconds have passed, and \<open>NEW\<close> from then on.
\<close>

theorem committed_marker_lifetime:
  assumes "redis_laws R v" and "redis_expiry wait v" and "rb_redis c = Some R"
    and "store_commit \<lparr>eo_backend = redis_backend c between, eo_ttl_seconds = ttl\<rparr> k p r = (Inr (), r1)"
    and "store_get \<lparr>eo_backend = redis_backend c between, eo_ttl_seconds = ttl\<rparr> k (wait d r1) = (Inr a, r2)"
  shows "dd_state a = (if d < 86400 then COMMITTED else NEW)"
proof -
  have "redis_commit c k p 86400 r = (Inr (), r1)"
    using assms(4) by (simp add: store_defs redis_backend_def)
  from redis_commit_sets [OF assms(1,3) this]
  have "v r1 (redis_key c k) = Some (state_value COMMITTED, 86400)" by (simp add: py_int_def)
  then have view: "v (wait d r1) (redis_key c k) =
      (if d < 86400 then Some (state_value COMMITTED, 86400 - d) else None)"
    using assms(2) by (simp add: redis_expiry_def)
  have get: "redis_get c k (wait d r1) = (Inr a, r2)"
    using assms(5) by (simp add: store_defs redis_backend_def)
  then obtain x where read: "rd_get R (redis_key c k) (wait d r1) = (Inr x, r2)"
    and "a = decision (case x of None \<Rightarrow> NEW | Some y \<Rightarrow>
           if y = state_value COMMITTED then COMMITTED else STAGED) None"
    using assms(3) by (auto simp: redis_get_def require_redis_def
      split: sum.splits prod.splits option.splits if_splits)
  then show ?thesis using was_read(2) [OF assms(1) read refl] view by (simp split: if_splits)
qed

theorem committed_marker_lifetime_witness:
  "dd_state (decision NEW None :: string dedup_decision) = (if 86400 < (86400::int) then COMMITTED else NEW)"
proof -
  let ?k = "\<lparr>dk_source = ''s'', dk_external_id = ''1'', dk_tenant_id = None\<rparr>"
  let ?s = "\<lparr>eo_backend = redis_backend mem_config id, eo_ttl_seconds = 604800\<rparr>
    :: (mem_redis, string) exactly_once_store"
  have "store_commit ?s ?k None Map.empty = (Inr (), [redis_key mem_config ?k \<mapsto> (state_value COMMITTED, 86400)])"
    by (simp add: store_defs redis_defs mem_config_def mem_redis_def py_int_def)
  moreover have "store_get ?s ?k
      (mem_wait 86400 [redis_key mem_config ?k \<mapsto> (state_value COMMITTED, 86400)]) = (Inr (decision NEW None), Map.empty)"
    by (simp add: store_defs redis_defs mem_config_def mem_redis_def mem_wait_def fun_eq_iff)
  ultimately show ?thesis
    by (rule committed_marker_lifetime [OF mem_redis_laws mem_redis_expiry mem_config_redis])
qed

end
