(* ===== verification/TradeDedup.thy ===== *)
theory TradeDedup
  imports RedisDedup "HOL-Library.Word"
begin

unbundle bit_operations_syntax

text \<open>
  \<open>ingestion/trade_deduplicator.py\<close>: the trade cache \<open>SeenEventCache\<close>, a client of the
  exactly-once store, and \<open>CrossSourceDeduplicator\<close>, the in-process window of canonical trade
  keys with its parser of Horizon ids. SHA-256 is a parameter \<open>sha256\<close>, the hex digest of a
  string; the readings of the clock are arguments.
\<close>

subsection \<open>SeenEventCache\<close>

record ('st, 'p) seen_event_cache =
  sc_store :: "('st, 'p) exactly_once_store"
  sc_redis :: "'st redis_config"

definition str_or :: "string option \<Rightarrow> string \<Rightarrow> string" where
  "str_or a b = (case a of None \<Rightarrow> b | Some s \<Rightarrow> if s = [] then b else s)"

definition trade_key ::
  "(string \<Rightarrow> string) \<Rightarrow> string \<Rightarrow> string option \<Rightarrow> string \<Rightarrow> dedup_key" where
  "trade_key sha256 trade_id paging_token asset_pair =
     \<lparr>dk_source = ''horizon_trade:'' @ asset_pair,
      dk_external_id = sha256 (str_or paging_token trade_id), dk_tenant_id = None\<rparr>"

definition is_duplicate ::
  "('st, 'p) exactly_once_store \<Rightarrow> dedup_key \<Rightarrow> 'st \<Rightarrow> (dedup_error + bool) \<times> 'st" where
  "is_duplicate S key st =
     (case store_check_and_stage S key st of
        (Inl e, st1) \<Rightarrow> (Inl e, st1)
      | (Inr d, st1) \<Rightarrow>
          if dd_state d = COMMITTED then (Inr True, st1)
          else (case store_commit S key None st1 of
                  (Inl e, st2) \<Rightarrow> (Inl e, st2)
                | (Inr _, st2) \<Rightarrow> (Inr False, st2)))"

definition cache_is_duplicate ::
  "(string \<Rightarrow> string) \<Rightarrow> ('st, 'p) seen_event_cache \<Rightarrow> string \<Rightarrow> string option \<Rightarrow> string \<Rightarrow> 'st
     \<Rightarrow> (dedup_error + bool) \<times> 'st" where
  "cache_is_duplicate sha256 c trade_id paging_token asset_pair =
     is_duplicate (sc_store c) (trade_key sha256 trade_id paging_token asset_pair)"

definition cache_trade ::
  "(string \<Rightarrow> string) \<Rightarrow> ('st, 'p) seen_event_cache \<Rightarrow> string \<Rightarrow> string option \<Rightarrow> string \<Rightarrow> 'st
     \<Rightarrow> (dedup_error + unit) \<times> 'st" where
  "cache_trade sha256 c trade_id paging_token asset_pair =
     store_commit (sc_store c) (trade_key sha256 trade_id paging_token asset_pair) None"

definition get_cache_size :: "('st, 'p) seen_event_cache \<Rightarrow> string \<Rightarrow> 'st \<Rightarrow> int \<times> 'st" where
  "get_cache_size c asset_pair st =
     (case scan_count (sc_redis c) (''horizon_trade:'' @ asset_pair) st of
        (Inl _, st') \<Rightarrow> (- 1, st') | (Inr n, st') \<Rightarrow> (int n, st'))"

definition clear_cache :: "('st, 'p) seen_event_cache \<Rightarrow> string option \<Rightarrow> 'st \<Rightarrow> bool \<times> 'st" where
  "clear_cache c asset_pair st =
     (let prefix = (case asset_pair of
                      Some p \<Rightarrow> if p = [] then ''horizon_trade'' else ''horizon_trade:'' @ p
                    | None \<Rightarrow> ''horizon_trade'')
      in case scan_delete (sc_redis c) prefix st of
           (Inl _, st') \<Rightarrow> (False, st') | (Inr _, st') \<Rightarrow> (True, st'))"

definition cache_health_check :: "('st, 'p) seen_event_cache \<Rightarrow> 'st \<Rightarrow> bool \<times> 'st" where
  "cache_health_check c = store_is_available (sc_store c)"

text \<open>The constructor: both the store and the cache's own scans use one Redis backend.\<close>

definition seen_event_cache :: "'r redis_config \<Rightarrow> ('r \<Rightarrow> 'r) \<Rightarrow> rat \<Rightarrow> ('r, 'p) seen_event_cache" where
  "seen_event_cache rc between ttl_seconds =
     \<lparr>sc_store = \<lparr>eo_backend = redis_backend rc between, eo_ttl_seconds = ttl_seconds\<rparr>,
      sc_redis = rc\<rparr>"

text \<open>A stream of trades through the cache, the answers in order.\<close>

fun duplicate_stream ::
  "('st, 'p) exactly_once_store \<Rightarrow> dedup_key list \<Rightarrow> 'st \<Rightarrow> (dedup_error + bool) list" where
  "duplicate_stream S [] st = []"
| "duplicate_stream S (k # ks) st =
     (case is_duplicate S k st of (a, st') \<Rightarrow> a # duplicate_stream S ks st')"

lemma length_duplicate_stream [simp]: "length (duplicate_stream S ks st) = length ks"
  by (induction S ks st rule: duplicate_stream.induct) (simp_all split: prod.split)

context exactly_once
begin

lemma is_duplicate_answer:
  assumes "okst st" and "eo_backend S = B" and "is_duplicate S k st = (Inr dup, st')"
  shows "okst st' \<and> dup = fresh st (canonical k) \<and> fresh st' = (fresh st)(canonical k := True)"
proof -
  obtain d st1 where stage: "be_check_and_stage B k (eo_ttl_seconds S) st = (Inr d, st1)"
    using assms(2,3) by (auto simp: is_duplicate_def store_defs split: prod.splits sum.splits)
  note fresh1 = stage_fresh [OF assms(1) stage] stage_frame [OF assms(1) stage]
  show ?thesis
  proof (cases "dd_state d = COMMITTED")
    case True
    then show ?thesis using assms(2,3) stage fresh1
      by (auto simp: is_duplicate_def store_defs fun_eq_iff)
  next
    case False
    then show ?thesis using assms(2,3) stage fresh1 commit_fresh
      by (auto simp: is_duplicate_def store_defs split: prod.splits sum.splits)
  qed
qed

lemma stream_answers:
  assumes "okst st" and "eo_backend S = B"
    and "\<forall>a \<in> set (duplicate_stream S ks st). \<not> isl a" and "i < length ks"
  shows "duplicate_stream S ks st ! i =
    Inr (fresh st (canonical (ks ! i)) \<or> canonical (ks ! i) \<in> canonical ` set (take i ks))"
  using assms(1,3,4)
proof (induction ks arbitrary: st i)
  case (Cons k ks)
  obtain a st' where call: "is_duplicate S k st = (a, st')" by fastforce
  from Cons.prems(2) call obtain dup where a: "a = Inr dup" by (cases a) auto
  note answer = is_duplicate_answer [OF Cons.prems(1) assms(2) call [unfolded a]]
  show ?case
  proof (cases i)
    case 0
    then show ?thesis using call a answer by simp
  next
    case (Suc j)
    then show ?thesis using Cons.IH [of st' j] Cons.prems call answer by auto
  qed
qed simp

lemma uncommitted_stages:
  assumes "okst st" and "\<not> fresh st (canonical k)"
    and "be_check_and_stage B k ttl st = (Inr d1, st1)"
    and "be_check_and_stage B k ttl' st1 = (Inr d2, st2)"
  shows "dd_state d1 \<noteq> COMMITTED \<and> dd_state d2 \<noteq> COMMITTED"
  using stage_fresh [OF assms(1,3)] stage_frame [OF assms(1,3)] stage_fresh [of st1, OF _ assms(4)]
    assms(2) by simp

end

subsection \<open>Canonical trade keys\<close>

text \<open>Python's \<open>int()\<close> of a string: blanks around, a sign, digits with single underscores.\<close>

definition py_space :: "char \<Rightarrow> bool" where
  "py_space ch \<longleftrightarrow> (of_char ch :: nat) \<in> {9, 10, 11, 12, 13, 28, 29, 30, 31, 32, 133, 160}"

definition py_strip :: "string \<Rightarrow> string" where
  "py_strip s = rev (dropWhile py_space (rev (dropWhile py_space s)))"

definition is_digit :: "char \<Rightarrow> bool" where
  "is_digit ch \<longleftrightarrow> 48 \<le> (of_char ch :: nat) \<and> (of_char ch :: nat) \<le> 57"

fun digits_value :: "int \<Rightarrow> bool \<Rightarrow> string \<Rightarrow> int option" where
  "digits_value acc after_digit [] = (if after_digit then Some acc else None)"
| "digits_value acc after_digit (ch # s) =
     (if is_digit ch then digits_value (10 * acc + (of_char ch - 48)) True s
      else if ch = CHR ''_'' \<and> after_digit then digits_value acc False s
      else None)"

definition int_of_string :: "string \<Rightarrow> int option" where
  "int_of_string s =
     (case py_strip s of
        [] \<Rightarrow> None
      | ch # r \<Rightarrow>
          if ch = CHR ''-'' then map_option uminus (digits_value 0 False r)
          else if ch = CHR ''+'' then digits_value 0 False r
          else digits_value 0 False (ch # r))"

record raw_trade =
  rt_ledger_sequence :: "int option"
  rt_operation_index :: "int option"
  rt_trade_index :: "int option"
  rt_trade_id :: "string option"
  rt_id :: "string option"
  rt_paging_token :: "string option"

type_synonym canonical_trade_key = "int \<times> int \<times> int"

datatype record_error = ValueError

definition partition_dash :: "string \<Rightarrow> string \<times> string" where
  "partition_dash s =
     (takeWhile (\<lambda>ch. ch \<noteq> CHR ''-'') s, drop 1 (dropWhile (\<lambda>ch. ch \<noteq> CHR ''-'') s))"

definition key_of_horizon_id :: "string \<Rightarrow> record_error + canonical_trade_key" where
  "key_of_horizon_id trade_id =
     (case partition_dash trade_id of (op_id_str, trade_idx) \<Rightarrow>
        case int_of_string op_id_str of
          None \<Rightarrow> Inl ValueError
        | Some op_id \<Rightarrow>
            (case int_of_string (if trade_idx = [] then ''0'' else trade_idx) of
               None \<Rightarrow> Inl ValueError
             | Some idx \<Rightarrow> Inr (drop_bit 32 op_id, op_id AND 0xFFFFFFFF, idx)))"

definition canonical_key_from_record :: "raw_trade \<Rightarrow> record_error + canonical_trade_key" where
  "canonical_key_from_record r =
     (case (rt_ledger_sequence r, rt_operation_index r) of
        (Some ledger, Some op_index) \<Rightarrow>
          Inr (ledger, op_index, case rt_trade_index r of None \<Rightarrow> 0 | Some i \<Rightarrow> i)
      | _ \<Rightarrow>
          (let trade_id = str_or (rt_trade_id r) (str_or (rt_id r) (str_or (rt_paging_token r) []))
           in if trade_id = [] then Inl ValueError else key_of_horizon_id trade_id))"

subsection \<open>CrossSourceDeduplicator\<close>

type_synonym seen_window = "(canonical_trade_key, clock \<times> string) dict"

record cross_source_deduplicator =
  cd_window_seconds :: rat
  cd_max_entries :: int
  cd_seen :: seen_window

definition cross_source_init :: "rat \<Rightarrow> int \<Rightarrow> record_error + cross_source_deduplicator" where
  "cross_source_init window_seconds max_entries =
     (if window_seconds \<le> 0 then Inl ValueError
      else Inr \<lparr>cd_window_seconds = window_seconds, cd_max_entries = max_entries, cd_seen = []\<rparr>)"

fun evict_seen :: "rat \<Rightarrow> int \<Rightarrow> clock \<Rightarrow> seen_window \<Rightarrow> seen_window" where
  "evict_seen window max_entries now [] = []"
| "evict_seen window max_entries now ((key, seen_at, src) # rest) =
     (if now - seen_at < window \<and> int (length ((key, seen_at, src) # rest)) \<le> max_entries
      then (key, seen_at, src) # rest
      else evict_seen window max_entries now rest)"

definition accept ::
  "clock \<Rightarrow> raw_trade \<Rightarrow> string \<Rightarrow> cross_source_deduplicator
     \<Rightarrow> (record_error + bool) \<times> cross_source_deduplicator" where
  "accept now r source d =
     (let seen = evict_seen (cd_window_seconds d) (cd_max_entries d) now (cd_seen d);
          d' = d\<lparr>cd_seen := seen\<rparr>
      in case canonical_key_from_record r of
           Inl e \<Rightarrow> (Inl e, d')
         | Inr key \<Rightarrow>
             if key \<in> set (dict_keys seen) then (Inr False, d')
             else (Inr True, d'\<lparr>cd_seen := dict_set key (now, source) seen\<rparr>))"

definition cross_source_len :: "cross_source_deduplicator \<Rightarrow> nat" where
  "cross_source_len d = length (cd_seen d)"

subsection \<open>Eviction\<close>

text \<open>
  Entries are in the order they were accepted, so with a clock that does not run backwards the
  loop keeps exactly the entries that are inside the window and among the last
  \<open>max_entries\<close>.
\<close>

definition by_age :: "seen_window \<Rightarrow> bool" where
  "by_age s \<longleftrightarrow> sorted (map (\<lambda>e. fst (snd e)) s)"

lemma evict_suffix: "\<exists>pre. s = pre @ evict_seen w m now s"
proof (induction w m now s rule: evict_seen.induct)
  case (2 w m now key seen_at src rest)
  show ?case
  proof (cases "now - seen_at < w \<and> int (length ((key, seen_at, src) # rest)) \<le> m")
    case True
    then have "evict_seen w m now ((key, seen_at, src) # rest) = (key, seen_at, src) # rest" by simp
    then show ?thesis by (intro exI [of _ "[]"]) simp
  next
    case False
    then have "evict_seen w m now ((key, seen_at, src) # rest) = evict_seen w m now rest" by auto
    with 2 False show ?thesis by (metis append_Cons)
  qed
qed simp

lemma dict_ok_evict [simp]: "dict_ok s \<Longrightarrow> dict_ok (evict_seen w m now s)"
  using evict_suffix [of s w m now] unfolding dict_ok_def by (metis distinct_append map_append)

lemma by_age_evict: "by_age s \<Longrightarrow> by_age (evict_seen w m now s)"
  using evict_suffix [of s w m now] unfolding by_age_def by (metis sorted_append map_append)

lemma evict_length: "0 \<le> m \<Longrightarrow> int (length (evict_seen w m now s)) \<le> m"
  by (induction w m now s rule: evict_seen.induct) auto

lemma evict_spec:
  assumes "by_age s" and "0 \<le> m"
  shows "evict_seen w m now s =
    filter (\<lambda>(k, t, src). now - t < w) (drop (length s - nat m) s)"
  using assms
proof (induction w m now s rule: evict_seen.induct)
  case (2 w m now key seen_at src rest)
  have rest: "by_age rest" and older: "\<And>k t x. (k, t, x) \<in> set rest \<Longrightarrow> seen_at \<le> t"
    using 2(2) by (auto simp: by_age_def)
  show ?case
  proof (cases "now - seen_at < w \<and> int (length ((key, seen_at, src) # rest)) \<le> m")
    case True
    then have "\<forall>(k, t, x) \<in> set rest. now - t < w" using older by fastforce
    then have "filter (\<lambda>(k, t, src). now - t < w) rest = rest"
      by (intro filter_True) auto
    moreover have "length ((key, seen_at, src) # rest) - nat m = 0"
      using True by (simp add: le_nat_iff)
    ultimately show ?thesis using True by simp
  next
    case False
    then have "evict_seen w m now ((key, seen_at, src) # rest) = evict_seen w m now rest" by auto
    also have "\<dots> = filter (\<lambda>(k, t, src). now - t < w) (drop (length rest - nat m) rest)"
      using 2 rest False by auto
    finally have E: "evict_seen w m now ((key, seen_at, src) # rest) =
        filter (\<lambda>(k, t, src). now - t < w) (drop (length rest - nat m) rest)" .
    show ?thesis
    proof (cases "length ((key, seen_at, src) # rest) \<le> nat m")
      case True
      with False have "\<not> now - seen_at < w" by auto
      with E True show ?thesis by simp
    next
      case False
      then have "length ((key, seen_at, src) # rest) - nat m = Suc (length rest - nat m)" by auto
      with E show ?thesis by simp
    qed
  qed
qed simp

lemma evict_keeps_tail:
  assumes "s = pre @ (k, t, src) # post" and "now - t < w" and "int (length post) < m"
  shows "\<exists>pre'. evict_seen w m now s = pre' @ (k, t, src) # post"
  using assms(1)
proof (induction pre arbitrary: s)
  case Nil
  then show ?case using assms(2,3) by auto
next
  case (Cons e pre)
  then show ?case by (cases e) (auto split: if_splits intro: exI [of _ "e # pre"])
qed

definition accept_all ::
  "(clock \<times> raw_trade \<times> string) list \<Rightarrow> cross_source_deduplicator \<Rightarrow> cross_source_deduplicator"
where
  "accept_all es d = foldl (\<lambda>d (now, r, src). snd (accept now r src d)) d es"

lemma accept_config [simp]:
  "cd_window_seconds (snd (accept now r src d)) = cd_window_seconds d"
  "cd_max_entries (snd (accept now r src d)) = cd_max_entries d"
  by (auto simp: accept_def Let_def split: sum.split)

lemma accept_keeps:
  assumes "cd_seen d = pre @ (k, t, x) # post" and "now - t < cd_window_seconds d"
    and "int (length post) < cd_max_entries d"
  shows "\<exists>pre' post'. cd_seen (snd (accept now r src d)) = pre' @ (k, t, x) # post' \<and>
    length post' \<le> Suc (length post)"
proof -
  obtain pre' where ev: "evict_seen (cd_window_seconds d) (cd_max_entries d) now (cd_seen d) =
      pre' @ (k, t, x) # post" using evict_keeps_tail [OF assms] by blast
  have "cd_seen (snd (accept now r src d)) = pre' @ (k, t, x) # post \<or>
      (\<exists>e. cd_seen (snd (accept now r src d)) = pre' @ (k, t, x) # post @ [e])"
  proof (cases "canonical_key_from_record r")
    case (Inr k')
    show ?thesis
    proof (cases "k' \<in> set (dict_keys (pre' @ (k, t, x) # post))")
      case False
      from dict_set_new [OF this] Inr False show ?thesis by (cases k') (auto simp: accept_def Let_def ev)
    qed (use Inr in \<open>auto simp: accept_def Let_def ev\<close>)
  qed (simp add: accept_def Let_def ev)
  then show ?thesis by force
qed

lemma accept_all_keeps:
  assumes "cd_seen d = pre @ (k, t, x) # post"
    and "\<forall>(now, r, src) \<in> set es. now - t < cd_window_seconds d"
    and "int (length post + length es) \<le> cd_max_entries d"
  shows "\<exists>pre' post'. cd_seen (accept_all es d) = pre' @ (k, t, x) # post' \<and>
    length post' \<le> length post + length es"
  using assms
proof (induction es arbitrary: d pre post)
  case (Cons e es)
  obtain now r src where e: "e = (now, r, src)" by (cases e)
  obtain pre' post' where step: "cd_seen (snd (accept now r src d)) = pre' @ (k, t, x) # post'"
      "length post' \<le> Suc (length post)"
    using accept_keeps [of d pre k t x post now r src] Cons.prems e by auto
  obtain pre'' post'' where "cd_seen (accept_all es (snd (accept now r src d))) = pre'' @ (k, t, x) # post''"
      and "length post'' \<le> length post' + length es"
    using Cons.IH [OF step(1)] Cons.prems step(2) by auto
  then show ?case using step(2) e
    by (intro exI [of _ pre''] exI [of _ post'']) (simp add: accept_all_def)
qed (auto simp: accept_all_def)

lemma accept_all_config [simp]:
  "cd_window_seconds (accept_all es d) = cd_window_seconds d"
  "cd_max_entries (accept_all es d) = cd_max_entries d"
  by (induction es arbitrary: d) (auto simp: accept_all_def split: prod.split)

subsection \<open>Properties\<close>

text \<open>
  A stream of trades through the cache on a Redis that keeps its documented laws: if no
  call raises, a trade is reported as a duplicate exactly when an earlier trade of the stream
  has its canonical key, or the key was already committed when the stream began.
\<close>

theorem duplicates_are_reported:
  fixes rc :: "'r redis_config"
  assumes "redis_laws R v" and "rb_redis rc = Some R"
    and "\<forall>a \<in> set (duplicate_stream (sc_store (seen_event_cache rc id ttl :: ('r, 'p) seen_event_cache))
           ks r). \<not> isl a"
    and "i < length ks"
  shows "duplicate_stream (sc_store (seen_event_cache rc id ttl :: ('r, 'p) seen_event_cache)) ks r ! i =
    Inr (redis_fresh rc v r (canonical (ks ! i)) \<or> canonical (ks ! i) \<in> canonical ` set (take i ks))"
  by (rule exactly_once.stream_answers [OF redis_exactly_once [OF assms(1,2)] TrueI _ assms(3,4)])
     (simp add: seen_event_cache_def)

text \<open>
  Check and commit are two steps, so they are not atomic against another caller: if a
  second call checks an uncommitted trade before the first commits it, neither is told that
  the trade is a duplicate.
\<close>

theorem overlapping_checks_both_pass:
  fixes rc :: "'r redis_config"
  assumes "redis_laws R v" and "rb_redis rc = Some R" and "\<not> redis_fresh rc v r (canonical k)"
    and "store_check_and_stage (sc_store (seen_event_cache rc id ttl :: ('r, 'p) seen_event_cache)) k r
      = (Inr d1, r1)"
    and "store_check_and_stage (sc_store (seen_event_cache rc id ttl :: ('r, 'p) seen_event_cache)) k r1
      = (Inr d2, r2)"
  shows "dd_state d1 \<noteq> COMMITTED \<and> dd_state d2 \<noteq> COMMITTED"
  using assms(3-5)
  by (intro exactly_once.uncommitted_stages [OF redis_exactly_once [OF assms(1,2)], of r k ttl d1 r1 ttl d2 r2])
     (simp_all add: store_defs seen_event_cache_def)

text \<open>
  A Horizon operation id is recovered from its canonical key: the sequence is the id
  shifted by 32 bits and the position its low 32 bits, so that two ids share both only if
  they are equal.
\<close>

theorem toid_key_roundtrip:
  assumes "key_of_horizon_id s = Inr (ledger, position, idx)"
  shows "0 \<le> position \<and> position < 2 ^ 32 \<and>
    int_of_string (fst (partition_dash s)) = Some (ledger * 2 ^ 32 + position)"
proof -
  obtain n where n: "int_of_string (fst (partition_dash s)) = Some n"
    and "ledger = drop_bit 32 n" and "position = n AND 0xFFFFFFFF"
    using assms by (auto simp: key_of_horizon_id_def split: prod.splits option.splits)
  moreover have "n AND 0xFFFFFFFF = n mod 2 ^ 32"
    using take_bit_eq_mask [of 32 n] by (simp add: take_bit_eq_mod mask_eq_exp_minus_1)
  moreover have "drop_bit 32 n = n div 2 ^ 32" by (simp add: drop_bit_eq_div)
  ultimately show ?thesis by simp
qed

text \<open>
  Once a record is accepted, every record with the same canonical key observed within the
  window is refused, from whatever source, as long as fewer than \<open>max_entries\<close> records came in
  between.
\<close>

theorem window_refuses_duplicates:
  assumes "accept t r src d = (Inr True, d1)" and "canonical_key_from_record r = Inr k"
    and "\<forall>(now, r', src') \<in> set es. now - t < cd_window_seconds d"
    and "int (length es) < cd_max_entries d"
    and "canonical_key_from_record r' = Inr k" and "now - t < cd_window_seconds d"
  shows "fst (accept now r' src' (accept_all es d1)) = Inr False"
proof -
  have d1: "cd_seen d1 = evict_seen (cd_window_seconds d) (cd_max_entries d) t (cd_seen d) @ [(k, t, src)]"
    and conf: "cd_window_seconds d1 = cd_window_seconds d" "cd_max_entries d1 = cd_max_entries d"
    using assms(1,2) by (auto simp: accept_def Let_def dict_set_new split: if_splits)
  obtain pre post where kept: "cd_seen (accept_all es d1) = pre @ (k, t, src) # post"
      "length post \<le> length es"
    using accept_all_keeps [OF d1, of es] assms(3,4) conf by auto
  obtain pre' where "evict_seen (cd_window_seconds d) (cd_max_entries d) now (cd_seen (accept_all es d1))
      = pre' @ (k, t, src) # post"
    using evict_keeps_tail [OF kept(1) assms(6)] kept(2) assms(4) by fastforce
  then show ?thesis using assms(5) conf by (simp add: accept_def Let_def)
qed

text \<open>
  With a clock that does not run backwards, a record is refused exactly when its key is
  held by an entry inside the window among the last \<open>max_entries\<close> accepted; the memory is
  bounded by \<open>max_entries + 1\<close> entries.
\<close>

theorem accept_exact:
  assumes "by_age (cd_seen d)" and "0 \<le> cd_max_entries d" and "canonical_key_from_record r = Inr k"
  shows "(fst (accept now r src d) = Inr False \<longleftrightarrow>
      (\<exists>t x. (k, t, x) \<in> set (drop (length (cd_seen d) - nat (cd_max_entries d)) (cd_seen d)) \<and>
             now - t < cd_window_seconds d)) \<and>
    int (cross_source_len (snd (accept now r src d))) \<le> cd_max_entries d + 1"
proof -
  let ?seen = "evict_seen (cd_window_seconds d) (cd_max_entries d) now (cd_seen d)"
  have "fst (accept now r src d) = Inr False \<longleftrightarrow> (\<exists>t x. (k, t, x) \<in> set ?seen)"
    using assms(3) by (force simp: accept_def Let_def)
  moreover have "int (cross_source_len (snd (accept now r src d))) \<le> int (length ?seen) + 1"
    using assms(3) by (simp add: accept_def Let_def cross_source_len_def length_dict_set)
  ultimately show ?thesis
    using evict_length [OF assms(2), of "cd_window_seconds d" now "cd_seen d"]
    by (auto simp: evict_spec [OF assms(1,2)])
qed

subsection \<open>Witnesses\<close>

definition demo_trade_key :: "string \<Rightarrow> dedup_key" where
  "demo_trade_key = (\<lambda>token. trade_key id ''7'' (Some token) ''XLM'')"

theorem duplicates_are_reported_witness:
  "duplicate_stream (sc_store (seen_event_cache mem_config id 60 :: (mem_redis, string) seen_event_cache))
     [demo_trade_key ''a'', demo_trade_key ''b'', demo_trade_key ''a''] Map.empty ! 2 = Inr True"
  using duplicates_are_reported [OF mem_redis_laws mem_config_redis,
    where 'p = string and ttl = 60 and r = Map.empty and i = 2
      and ks = "[demo_trade_key ''a'', demo_trade_key ''b'', demo_trade_key ''a'']"]
  by (simp add: demo_trade_key_def is_duplicate_def seen_event_cache_def store_defs redis_defs
    redis_key_def mem_config_def mem_redis_def trade_key_def str_or_def canonical_def numeral_2_eq_2)

theorem overlapping_checks_both_pass_witness:
  "dd_state (decision NEW None :: string dedup_decision) \<noteq> COMMITTED \<and>
   dd_state (decision STAGED None :: string dedup_decision) \<noteq> COMMITTED"
proof -
  let ?S = "sc_store (seen_event_cache mem_config id 60 :: (mem_redis, string) seen_event_cache)"
  let ?k = "demo_trade_key ''a''"
  let ?r1 = "[redis_key mem_config ?k \<mapsto> (state_value STAGED, 60)]"
  have "store_check_and_stage ?S ?k Map.empty = (Inr (decision NEW None), ?r1)"
    and "store_check_and_stage ?S ?k ?r1 = (Inr (decision STAGED None), ?r1)"
    by (simp_all add: seen_event_cache_def store_defs redis_defs mem_config_def mem_redis_def py_int_def)
  moreover have "\<not> redis_fresh mem_config mem_view Map.empty (canonical ?k)"
    by (simp add: redis_fresh_def mem_view_def)
  ultimately show ?thesis
    by (intro overlapping_checks_both_pass [OF mem_redis_laws mem_config_redis])
qed

theorem toid_key_roundtrip_witness:
  "0 \<le> (4097::int) \<and> (4097::int) < 2 ^ 32 \<and>
   int_of_string (fst (partition_dash ''12884905985-1'')) = Some (3 * 2 ^ 32 + 4097)"
  by (rule toid_key_roundtrip [of "''12884905985-1''" 3 4097 1]) code_simp

definition demo_record :: raw_trade where
  "demo_record = \<lparr>rt_ledger_sequence = Some 9, rt_operation_index = Some 1, rt_trade_index = None,
     rt_trade_id = None, rt_id = None, rt_paging_token = None\<rparr>"

theorem window_refuses_duplicates_witness:
  "fst (accept 20 demo_record ''mirror'' (accept_all [(5, demo_record\<lparr>rt_operation_index := Some 2\<rparr>, ''h'')]
     \<lparr>cd_window_seconds = 300, cd_max_entries = 2, cd_seen = [((9, 1, 0), 0, ''h'')]\<rparr>)) = Inr False"
  by (rule window_refuses_duplicates [of 0 demo_record "''h''"
        "\<lparr>cd_window_seconds = 300, cd_max_entries = 2, cd_seen = []\<rparr>" _ "(9, 1, 0)"])
     (simp_all add: accept_def canonical_key_from_record_def demo_record_def)

theorem accept_exact_witness:
  "fst (accept 400 demo_record ''h''
     \<lparr>cd_window_seconds = 300, cd_max_entries = 2, cd_seen = [((9, 1, 0), 0, ''h'')]\<rparr>) \<noteq> Inr False"
  using accept_exact [of "\<lparr>cd_window_seconds = 300, cd_max_entries = 2, cd_seen = [((9, 1, 0), 0, ''h'')]\<rparr>"
      demo_record "(9, 1, 0)" 400 "''h''"]
  by (simp add: by_age_def canonical_key_from_record_def demo_record_def)

end
