(* ===== verification/Checkpoints.thy ===== *)
theory Checkpoints
  imports Base
begin

text \<open>
  \<open>pipeline/idempotency.py\<close>: the durable log of completed pipeline stages (\<open>CheckpointStore\<close>),
  the context manager around a stage (\<open>PipelineCheckpoint\<close>) and the guarded write of a risk
  score (\<open>idempotent_upsert\<close>). The table \<open>pipeline_checkpoints\<close> is a list of rows in \<open>id\<close>
  order, unique in \<open>(run_id, pair_id, stage)\<close>. Every operation takes the readings of the UTC
  clock and of the monotonic clock it makes.

  JSON and SHA-256 are parameters: \<open>dumps\<close>/\<open>loads\<close> of a result payload and \<open>digest\<close> of a
  string.
\<close>

subsection \<open>The store\<close>

record ckpt_row =
  cp_run_id :: string
  cp_pair_id :: string
  cp_stage :: string
  cp_status :: string
  cp_result_json :: "string option"
  cp_started_at :: "instant option"
  cp_completed_at :: "instant option"
  cp_error_message :: "string option"

type_synonym ckpt_key = "string \<times> string \<times> string"

definition cp_key :: "ckpt_row \<Rightarrow> ckpt_key" where
  "cp_key r = (cp_run_id r, cp_pair_id r, cp_stage r)"

record ckpt_store =
  cs_rows :: "ckpt_row list"
  cs_ttl_hours :: int
  cs_last_eviction :: clock

definition pipeline_stages :: "string list" where
  "pipeline_stages =
     [''ingest'', ''orderbook'', ''funding_graph'', ''features'', ''scoring'', ''persist'', ''onchain'']"

definition pipe_join :: "string list \<Rightarrow> string" where
  "pipe_join xs = (case xs of [] \<Rightarrow> [] | x # r \<Rightarrow> x @ concat (map (\<lambda>y. CHR ''|'' # y) r))"

definition make_run_id :: "(string \<Rightarrow> string) \<Rightarrow> string list \<Rightarrow> string" where
  "make_run_id digest components = take 16 (digest (pipe_join components))"

definition ckpt_get :: "ckpt_key \<Rightarrow> ckpt_store \<Rightarrow> ckpt_row option" where
  "ckpt_get k s = row_where cp_key k (cs_rows s)"

definition is_complete :: "instant \<Rightarrow> ckpt_key \<Rightarrow> ckpt_store \<Rightarrow> bool" where
  "is_complete now k s =
     (case ckpt_get k s of
        None \<Rightarrow> False
      | Some r \<Rightarrow>
          if cp_status r \<noteq> ''done'' then False
          else (case cp_completed_at r of
                  None \<Rightarrow> False
                | Some c \<Rightarrow> \<not> (now - c > cs_ttl_hours s * hour)))"

definition get_result :: "(string \<Rightarrow> 'v option) \<Rightarrow> ckpt_key \<Rightarrow> ckpt_store \<Rightarrow> 'v option" where
  "get_result loads k s =
     (case ckpt_get k s of
        None \<Rightarrow> None
      | Some r \<Rightarrow> (case cp_result_json r of None \<Rightarrow> None | Some j \<Rightarrow> loads j))"

definition expired_row :: "instant \<Rightarrow> ckpt_row \<Rightarrow> bool" where
  "expired_row cutoff r =
     (case cp_completed_at r of
        Some c \<Rightarrow> c < cutoff
      | None \<Rightarrow> (case cp_started_at r of None \<Rightarrow> False | Some t \<Rightarrow> t < cutoff))"

definition evict_expired :: "instant \<Rightarrow> clock \<Rightarrow> ckpt_store \<Rightarrow> nat \<times> ckpt_store" where
  "evict_expired now tick s =
     (let cutoff = now - cs_ttl_hours s * hour;
          kept = filter (\<lambda>r. \<not> expired_row cutoff r) (cs_rows s)
      in (length (cs_rows s) - length kept, s\<lparr>cs_rows := kept, cs_last_eviction := tick\<rparr>))"

definition ckpt_open :: "ckpt_row list \<Rightarrow> int \<Rightarrow> instant \<Rightarrow> clock \<Rightarrow> ckpt_store" where
  "ckpt_open rows ttl_hours now tick =
     snd (evict_expired now tick \<lparr>cs_rows = rows, cs_ttl_hours = ttl_hours, cs_last_eviction = 0\<rparr>)"

definition or_old :: "'a option \<Rightarrow> 'a option \<Rightarrow> 'a option" where
  "or_old new old = (case new of None \<Rightarrow> old | Some _ \<Rightarrow> new)"

definition new_ckpt_row :: "ckpt_key \<Rightarrow> ckpt_row" where
  "new_ckpt_row k =
     \<lparr>cp_run_id = fst k, cp_pair_id = fst (snd k), cp_stage = snd (snd k), cp_status = ''pending'',
      cp_result_json = None, cp_started_at = None, cp_completed_at = None, cp_error_message = None\<rparr>"

definition set_ckpt ::
  "string \<Rightarrow> instant option \<Rightarrow> instant option \<Rightarrow> string option \<Rightarrow> string option \<Rightarrow> ckpt_row \<Rightarrow> ckpt_row"
where
  "set_ckpt status started_at completed_at result_json error_message r =
     r\<lparr>cp_status := status,
       cp_started_at := or_old started_at (cp_started_at r),
       cp_completed_at := or_old completed_at (cp_completed_at r),
       cp_result_json := or_old result_json (cp_result_json r),
       cp_error_message := or_old error_message (cp_error_message r)\<rparr>"

definition upsert_status ::
  "ckpt_key \<Rightarrow> string \<Rightarrow> instant option \<Rightarrow> instant option \<Rightarrow> string option \<Rightarrow> string option
     \<Rightarrow> ckpt_store \<Rightarrow> ckpt_store" where
  "upsert_status k status started_at completed_at result_json error_message s =
     (let set_row = set_ckpt status started_at completed_at result_json error_message
      in case ckpt_get k s of
           None \<Rightarrow> s\<lparr>cs_rows := cs_rows s @ [set_row (new_ckpt_row k)]\<rparr>
         | Some _ \<Rightarrow> s\<lparr>cs_rows := update_where cp_key k set_row (cs_rows s)\<rparr>)"

definition mark_started :: "instant \<Rightarrow> clock \<Rightarrow> ckpt_key \<Rightarrow> ckpt_store \<Rightarrow> ckpt_store" where
  "mark_started now tick k s =
     (let s' = (if tick - cs_last_eviction s \<ge> 3600 then snd (evict_expired now tick s) else s)
      in upsert_status k ''running'' (Some now) None None None s')"

definition mark_done ::
  "('v \<Rightarrow> string) \<Rightarrow> instant \<Rightarrow> ckpt_key \<Rightarrow> 'v option \<Rightarrow> ckpt_store \<Rightarrow> ckpt_store" where
  "mark_done dumps now k result s =
     upsert_status k ''done'' None (Some now) (map_option dumps result) None s"

definition ckpt_mark_failed :: "instant \<Rightarrow> ckpt_key \<Rightarrow> string \<Rightarrow> ckpt_store \<Rightarrow> ckpt_store" where
  "ckpt_mark_failed now k err s =
     upsert_status k ''failed'' None (Some now) None (Some err) s"

definition list_stages :: "string \<Rightarrow> string \<Rightarrow> ckpt_store \<Rightarrow> ckpt_row list" where
  "list_stages run_id pair_id s =
     filter (\<lambda>r. cp_run_id r = run_id \<and> cp_pair_id r = pair_id) (cs_rows s)"

definition first_incomplete_stage :: "instant \<Rightarrow> string \<Rightarrow> string \<Rightarrow> ckpt_store \<Rightarrow> string option" where
  "first_incomplete_stage now run_id pair_id s =
     (let completed = map cp_stage (filter (\<lambda>r. cp_status r = ''done'' \<and>
            (case cp_completed_at r of None \<Rightarrow> False | Some c \<Rightarrow> now - c < cs_ttl_hours s * hour))
            (list_stages run_id pair_id s))
      in find (\<lambda>stage. stage \<notin> set completed) pipeline_stages)"

definition purge_old_checkpoints ::
  "instant \<Rightarrow> int option \<Rightarrow> ckpt_store \<Rightarrow> nat \<times> ckpt_store" where
  "purge_old_checkpoints now older_than_hours s =
     (let hours = (case older_than_hours of Some h \<Rightarrow> h | None \<Rightarrow> cs_ttl_hours s * 7);
          cutoff = now - hours * hour;
          old = (\<lambda>r. case cp_completed_at r of None \<Rightarrow> False | Some c \<Rightarrow> c < cutoff)
      in (length (filter old (cs_rows s)), s\<lparr>cs_rows := filter (\<lambda>r. \<not> old r) (cs_rows s)\<rparr>))"

definition ckpt_size :: "ckpt_store \<Rightarrow> (string \<times> nat) list" where
  "ckpt_size s = map (\<lambda>status. (status, length (filter (\<lambda>r. cp_status r = status) (cs_rows s))))
     [''pending'', ''running'', ''done'', ''failed'']"

subsection \<open>The context manager\<close>

record 'v ckpt_state =
  st_skip :: bool
  st_result :: "'v option"
  st_pending_result :: "'v option"

definition ckpt_enter ::
  "(string \<Rightarrow> 'v option) \<Rightarrow> instant \<Rightarrow> clock \<Rightarrow> bool \<Rightarrow> ckpt_key \<Rightarrow> ckpt_store
     \<Rightarrow> 'v ckpt_state \<times> ckpt_store" where
  "ckpt_enter loads now tick force k s =
     (if \<not> force \<and> is_complete now k s
      then (\<lparr>st_skip = True, st_result = get_result loads k s, st_pending_result = None\<rparr>, s)
      else (\<lparr>st_skip = False, st_result = None, st_pending_result = None\<rparr>, mark_started now tick k s))"

text \<open>\<open>exc\<close> is the message of the exception the block raised, if it raised one.\<close>

definition ckpt_exit ::
  "('v \<Rightarrow> string) \<Rightarrow> instant \<Rightarrow> ckpt_key \<Rightarrow> 'v ckpt_state \<Rightarrow> string option \<Rightarrow> ckpt_store \<Rightarrow> ckpt_store"
where
  "ckpt_exit dumps now k st exc s =
     (if st_skip st then s
      else (case exc of
              None \<Rightarrow> mark_done dumps now k (st_pending_result st) s
            | Some msg \<Rightarrow> ckpt_mark_failed now k msg s))"

subsection \<open>The guarded write\<close>

type_synonym 'v risk_dict = "(string, 'v) dict"

definition hashed_fields :: "string list" where
  "hashed_fields = [''score'', ''benford_flag'', ''ml_flag'', ''confidence'']"

definition canonical_score :: "'v risk_dict \<Rightarrow> 'v risk_dict" where
  "canonical_score risk_score =
     (let base = concat (map (\<lambda>k. case dict_get risk_score k of None \<Rightarrow> [] | Some v \<Rightarrow> [(k, v)])
                     hashed_fields)
      in case dict_get risk_score ''ring_id'' of
           None \<Rightarrow> base
         | Some v \<Rightarrow> dict_set ''ring_id'' v base)"

definition risk_score_hash ::
  "('v risk_dict \<Rightarrow> string) \<Rightarrow> (string \<Rightarrow> string) \<Rightarrow> 'v risk_dict \<Rightarrow> string" where
  "risk_score_hash dumps_sorted digest risk_score =
     take 16 (digest (dumps_sorted (canonical_score risk_score)))"

record 'v risk_record =
  rr_score :: 'v
  rr_benford_flag :: 'v
  rr_ml_flag :: 'v
  rr_confidence :: 'v
  rr_ring_id :: "'v option"

definition existing_score_dict :: "'v risk_record \<Rightarrow> 'v risk_dict" where
  "existing_score_dict e =
     [(''score'', rr_score e), (''benford_flag'', rr_benford_flag e),
      (''ml_flag'', rr_ml_flag e), (''confidence'', rr_confidence e)] @
     (case rr_ring_id e of None \<Rightarrow> [] | Some v \<Rightarrow> [(''ring_id'', v)])"

definition idempotent_upsert ::
  "('v risk_dict \<Rightarrow> string) \<Rightarrow> ('st \<Rightarrow> string \<Rightarrow> string \<Rightarrow> 'v risk_record option)
     \<Rightarrow> (string \<Rightarrow> string \<Rightarrow> 'v risk_dict \<Rightarrow> string \<Rightarrow> 'st \<Rightarrow> 'v risk_record \<times> 'st)
     \<Rightarrow> string \<Rightarrow> string \<Rightarrow> 'v risk_dict \<Rightarrow> string \<Rightarrow> 'st \<Rightarrow> (bool \<times> 'v risk_record) \<times> 'st" where
  "idempotent_upsert hash get upsert wallet asset_pair risk_score finality st =
     (case get st wallet asset_pair of
        Some e \<Rightarrow>
          if hash risk_score = hash (existing_score_dict e) then ((False, e), st)
          else (case upsert wallet asset_pair risk_score finality st of (r, st') \<Rightarrow> ((True, r), st'))
      | None \<Rightarrow>
          (case upsert wallet asset_pair risk_score finality st of (r, st') \<Rightarrow> ((True, r), st')))"

subsection \<open>What the operations do to a row\<close>

lemma cp_key_set [simp]: "cp_key (set_ckpt st sa ca rj em r) = cp_key r"
  by (simp add: cp_key_def set_ckpt_def)

lemma cp_key_new [simp]: "cp_key (new_ckpt_row k) = k"
  by (simp add: cp_key_def new_ckpt_row_def)

lemma ckpt_get_upsert:
  "ckpt_get k' (upsert_status k st sa ca rj em s) =
     (if k' = k then Some (set_ckpt st sa ca rj em
        (case ckpt_get k s of None \<Rightarrow> new_ckpt_row k | Some r \<Rightarrow> r))
      else ckpt_get k' s)"
  by (auto simp: upsert_status_def ckpt_get_def Let_def split: option.split)

lemma upsert_ttl [simp]: "cs_ttl_hours (upsert_status k st sa ca rj em s) = cs_ttl_hours s"
  by (simp add: upsert_status_def Let_def split: option.split)

lemma evict_ttl [simp]: "cs_ttl_hours (snd (evict_expired now tick s)) = cs_ttl_hours s"
  by (simp add: evict_expired_def Let_def)

lemma row_where_filter_keep:
  "row_where key k t = Some r \<Longrightarrow> P r \<Longrightarrow> row_where key k (filter P t) = Some r"
  by (induction t) (auto split: if_splits)

lemma row_where_filter_drop:
  "distinct (map key t) \<Longrightarrow> row_where key k t = Some r \<Longrightarrow> \<not> P r \<Longrightarrow> row_where key k (filter P t) = None"
  by (induction t) (auto simp: row_where_None split: if_splits)

lemma row_where_filter_None: "row_where key k t = None \<Longrightarrow> row_where key k (filter P t) = None"
  by (auto simp: row_where_None)

definition ckpt_ok :: "ckpt_store \<Rightarrow> bool" where
  "ckpt_ok s \<longleftrightarrow> distinct (map cp_key (cs_rows s))"

lemma ckpt_get_evict:
  assumes "ckpt_ok s"
  shows "ckpt_get k (snd (evict_expired now tick s)) =
    (case ckpt_get k s of None \<Rightarrow> None
     | Some r \<Rightarrow> if expired_row (now - cs_ttl_hours s * hour) r then None else Some r)"
  using assms row_where_filter_keep [of cp_key k "cs_rows s" _
      "\<lambda>r. \<not> expired_row (now - cs_ttl_hours s * hour) r"]
    row_where_filter_drop [of cp_key "cs_rows s" k _ "\<lambda>r. \<not> expired_row (now - cs_ttl_hours s * hour) r"]
    row_where_filter_None [of cp_key k "cs_rows s" "\<lambda>r. \<not> expired_row (now - cs_ttl_hours s * hour) r"]
  by (auto simp: evict_expired_def ckpt_get_def ckpt_ok_def Let_def split: option.split)

lemma ckpt_ok_evict [simp]: "ckpt_ok s \<Longrightarrow> ckpt_ok (snd (evict_expired now tick s))"
  by (simp add: ckpt_ok_def evict_expired_def Let_def distinct_map_filter)

lemma ckpt_ok_upsert [simp]: "ckpt_ok s \<Longrightarrow> ckpt_ok (upsert_status k st sa ca rj em s)"
  by (auto simp: ckpt_ok_def upsert_status_def ckpt_get_def Let_def row_where_None split: option.split)

text \<open>The operations as events, so that a property can speak of any history of the store.\<close>

datatype ckpt_event =
    Entered instant clock bool ckpt_key
  | Started instant clock ckpt_key
  | Done instant ckpt_key "string option"
  | Failed instant ckpt_key string
  | Evicted instant clock
  | Purged instant "int option"
  | Reopened instant clock int

fun ckpt_event_step :: "ckpt_store \<Rightarrow> ckpt_event \<Rightarrow> ckpt_store" where
  "ckpt_event_step s (Entered now tick force k) = snd (ckpt_enter Some now tick force k s)"
| "ckpt_event_step s (Started now tick k) = mark_started now tick k s"
| "ckpt_event_step s (Done now k j) = mark_done id now k j s"
| "ckpt_event_step s (Failed now k err) = ckpt_mark_failed now k err s"
| "ckpt_event_step s (Evicted now tick) = snd (evict_expired now tick s)"
| "ckpt_event_step s (Purged now older_than) = snd (purge_old_checkpoints now older_than s)"
| "ckpt_event_step s (Reopened now tick ttl_hours) = ckpt_open (cs_rows s) ttl_hours now tick"

lemma ckpt_ok_rows: "ckpt_ok s \<Longrightarrow> cs_rows s' = cs_rows s \<Longrightarrow> ckpt_ok s'"
  by (simp add: ckpt_ok_def)

lemma ckpt_ok_started [simp]: "ckpt_ok s \<Longrightarrow> ckpt_ok (mark_started now tick k s)"
  by (simp add: mark_started_def Let_def)

lemma ckpt_ok_purge [simp]: "ckpt_ok s \<Longrightarrow> ckpt_ok (snd (purge_old_checkpoints now h s))"
  by (simp add: ckpt_ok_def purge_old_checkpoints_def Let_def distinct_map_filter)

lemma ckpt_get_started:
  assumes "ckpt_ok s" and "k' \<noteq> k"
    and "ckpt_get k s = Some r" and "\<not> expired_row (now - cs_ttl_hours s * hour) r"
  shows "ckpt_get k (mark_started now tick k' s) = Some r \<and>
    cs_ttl_hours (mark_started now tick k' s) = cs_ttl_hours s"
  using assms by (simp add: mark_started_def Let_def ckpt_get_upsert ckpt_get_evict)

interpretation ckpt: preserved ckpt_event_step ckpt_ok
proof
  fix s e assume "ckpt_ok s"
  then show "ckpt_ok (ckpt_event_step s e)"
    by (cases e) (simp_all add: mark_done_def ckpt_mark_failed_def ckpt_enter_def ckpt_open_def
        ckpt_ok_rows [OF \<open>ckpt_ok s\<close>])
qed

text \<open>
  An event spares a checkpoint completed at \<open>t\<close> when it is not a start, an end or a forced
  entry of its stage, when it happens within the TTL, when a purge reaches further back than the
  checkpoint, and when a restart keeps the TTL.
\<close>

fun spares_ckpt :: "ckpt_key \<Rightarrow> instant \<Rightarrow> int \<Rightarrow> ckpt_event \<Rightarrow> bool" where
  "spares_ckpt k t ttl (Entered now tick force k') = (now - t \<le> ttl * hour \<and> (k' = k \<longrightarrow> \<not> force))"
| "spares_ckpt k t ttl (Started now tick k') = (now - t \<le> ttl * hour \<and> k' \<noteq> k)"
| "spares_ckpt k t ttl (Done now k' j) = (k' \<noteq> k)"
| "spares_ckpt k t ttl (Failed now k' err) = (k' \<noteq> k)"
| "spares_ckpt k t ttl (Evicted now tick) = (now - t \<le> ttl * hour)"
| "spares_ckpt k t ttl (Purged now older_than) =
     (now - t \<le> (case older_than of Some h \<Rightarrow> h | None \<Rightarrow> ttl * 7) * hour)"
| "spares_ckpt k t ttl (Reopened now tick ttl') = (now - t \<le> ttl * hour \<and> ttl' = ttl)"

lemma sparing_event_keeps:
  assumes ok: "ckpt_ok s" and row: "ckpt_get k s = Some r" "cp_completed_at r = Some c"
    and "cp_status r = ''done''" and spares: "spares_ckpt k c (cs_ttl_hours s) e"
  shows "ckpt_get k (ckpt_event_step s e) = Some r \<and> cs_ttl_hours (ckpt_event_step s e) = cs_ttl_hours s"
proof (cases e)
  case (Entered now tick force k')
  show ?thesis
  proof (cases "k' = k")
    case True
    then have "is_complete now k s" using Entered row assms(4) spares by (simp add: is_complete_def)
    then show ?thesis using True Entered spares row by (simp add: ckpt_enter_def)
  next
    case False
    have "\<not> expired_row (now - cs_ttl_hours s * hour) r"
      using Entered spares row by (simp add: expired_row_def)
    from ckpt_get_started [OF ok False row(1) this] Entered row(1) show ?thesis by (simp add: ckpt_enter_def)
  qed
next
  case (Started now tick k')
  have "\<not> expired_row (now - cs_ttl_hours s * hour) r"
    using Started spares row by (simp add: expired_row_def)
  with ckpt_get_started [OF ok _ row(1) this] Started spares show ?thesis by simp
next
  case (Reopened now tick ttl)
  let ?s = "\<lparr>cs_rows = cs_rows s, cs_ttl_hours = ttl, cs_last_eviction = 0\<rparr>"
  have "ckpt_get k ?s = Some r" and "ckpt_ok ?s" using ok row by (simp_all add: ckpt_get_def ckpt_ok_def)
  then show ?thesis using Reopened spares row by (simp add: ckpt_open_def ckpt_get_evict expired_row_def)
next
  case (Purged now h)
  have "ckpt_get k (snd (purge_old_checkpoints now h s)) = Some r"
    using row spares Purged
    by (cases h) (simp_all add: ckpt_get_def purge_old_checkpoints_def Let_def row_where_filter_keep)
  then show ?thesis using Purged by (simp add: purge_old_checkpoints_def Let_def)
qed (use assms in \<open>simp_all add: mark_done_def ckpt_mark_failed_def ckpt_get_upsert ckpt_get_evict expired_row_def\<close>)

lemma sparing_events_keep:
  assumes "ckpt_ok s" and "ckpt_get k s = Some r" and "cp_completed_at r = Some c"
    and "cp_status r = ''done''" and "\<forall>e \<in> set es. spares_ckpt k c (cs_ttl_hours s) e"
  shows "ckpt_get k (foldl ckpt_event_step s es) = Some r \<and>
    cs_ttl_hours (foldl ckpt_event_step s es) = cs_ttl_hours s"
  using assms
proof (induction es arbitrary: s)
  case (Cons e es)
  have "ckpt_ok (ckpt_event_step s e)" using ckpt.run_inv [of s "[e]"] Cons.prems(1) by simp
  with Cons sparing_event_keeps [OF Cons.prems(1-4), of e] show ?case by auto
qed simp

subsection \<open>Properties\<close>

text \<open>
  C9. A stage that ended cleanly with a result is not run again within its TTL: over any later
  history of the store, in which other stages start, finish or fail, this one is entered again
  without \<open>force\<close>, expired rows are evicted, the store is reopened with the same TTL and purges
  that do not reach the checkpoint's age run, entering the stage skips it and hands back the payload
  it stored. A forced entry of the stage, a start or end of it outside the context manager, a purge
  of younger checkpoints and a restart with another TTL are excepted.
\<close>

theorem checkpoint_replay:
  assumes "ckpt_ok s" and "loads (dumps v) = Some v"
    and "\<not> st_skip st" and "st_pending_result st = Some v"
    and "\<forall>e \<in> set es. spares_ckpt k t (cs_ttl_hours s) e"
    and "now - t \<le> cs_ttl_hours s * hour"
  shows "ckpt_enter loads now tick False k (foldl ckpt_event_step (ckpt_exit dumps t k st None s) es)
    = (\<lparr>st_skip = True, st_result = Some v, st_pending_result = None\<rparr>,
       foldl ckpt_event_step (ckpt_exit dumps t k st None s) es)"
proof -
  let ?s = "ckpt_exit dumps t k st None s"
  have s: "?s = upsert_status k ''done'' None (Some t) (Some (dumps v)) None s"
    using assms(3,4) by (simp add: ckpt_exit_def mark_done_def)
  obtain r where r: "ckpt_get k ?s = Some r" "cp_status r = ''done''"
      "cp_completed_at r = Some t" "cp_result_json r = Some (dumps v)"
    by (simp add: s ckpt_get_upsert set_ckpt_def or_old_def)
  have "ckpt_ok ?s" "cs_ttl_hours ?s = cs_ttl_hours s" using assms(1) by (simp_all add: s)
  then have "ckpt_get k (foldl ckpt_event_step ?s es) = Some r \<and>
      cs_ttl_hours (foldl ckpt_event_step ?s es) = cs_ttl_hours s"
    using sparing_events_keep [of ?s k r t es] r assms(5) by simp
  then show ?thesis using r assms(2,6)
    by (simp add: ckpt_enter_def is_complete_def get_result_def)
qed

text \<open>
  Eviction only drops what no longer counts: at the same clock reading it changes no
  answer of \<open>is_complete\<close>, and every completed row it leaves is within the TTL.
\<close>

theorem evict_keeps_complete:
  assumes "ckpt_ok s"
  shows "is_complete now k (snd (evict_expired now tick s)) = is_complete now k s \<and>
    (\<forall>r c. ckpt_get k (snd (evict_expired now tick s)) = Some r \<longrightarrow> cp_completed_at r = Some c \<longrightarrow>
       now - c \<le> cs_ttl_hours s * hour)"
  using assms
  by (auto simp: is_complete_def ckpt_get_evict expired_row_def split: option.splits if_splits)

text \<open>
  Re-running a stale stage leaves its old completion time in the row, so the next eviction
  drops the row of the running stage although it was just updated, however recent its start.
\<close>

theorem restarted_row_evicted:
  assumes "ckpt_ok s" and "ckpt_get k s = Some r" and "cp_completed_at r = Some c"
    and "now - c > cs_ttl_hours s * hour" and "tick - cs_last_eviction s < 3600"
  shows "\<not> is_complete now k s \<and>
    map_option cp_status (ckpt_get k (mark_started now tick k s)) = Some ''running'' \<and>
    ckpt_get k (snd (evict_expired now tick' (mark_started now tick k s))) = None"
  using assms
  by (auto simp: is_complete_def mark_started_def Let_def ckpt_get_upsert ckpt_get_evict
      set_ckpt_def or_old_def expired_row_def)

definition has_score_fields :: "'v risk_dict \<Rightarrow> bool" where
  "has_score_fields d \<longleftrightarrow> set hashed_fields \<subseteq> set (dict_keys d)"

definition upsert_law ::
  "'v \<Rightarrow> ('st \<Rightarrow> string \<Rightarrow> string \<Rightarrow> 'v risk_record option)
     \<Rightarrow> (string \<Rightarrow> string \<Rightarrow> 'v risk_dict \<Rightarrow> string \<Rightarrow> 'st \<Rightarrow> 'v risk_record \<times> 'st) \<Rightarrow> bool" where
  "upsert_law null get upsert \<longleftrightarrow>
     (\<forall>w p d f st r st'. has_score_fields d \<longrightarrow> upsert w p d f st = (r, st') \<longrightarrow>
        get st' w p = Some r \<and>
        dict_get d ''score'' = Some (rr_score r) \<and> dict_get d ''benford_flag'' = Some (rr_benford_flag r) \<and>
        dict_get d ''ml_flag'' = Some (rr_ml_flag r) \<and> dict_get d ''confidence'' = Some (rr_confidence r) \<and>
        rr_ring_id r =
          (case dict_get d ''ring_id'' of
             Some v \<Rightarrow> if v = null then None else Some v
           | None \<Rightarrow> Option.bind (get st w p) rr_ring_id))"

lemma written_content:
  assumes "upsert_law null get upsert" and "has_score_fields d" and "upsert w p d f st = (r, st1)"
  shows "canonical_score (existing_score_dict r) =
    (case rr_ring_id r of None \<Rightarrow> AList.delete ''ring_id'' (canonical_score d)
     | Some v \<Rightarrow> dict_set ''ring_id'' v (canonical_score d))"
proof -
  have "dict_get d ''score'' = Some (rr_score r)" "dict_get d ''benford_flag'' = Some (rr_benford_flag r)"
    "dict_get d ''ml_flag'' = Some (rr_ml_flag r)" "dict_get d ''confidence'' = Some (rr_confidence r)"
    using assms unfolding upsert_law_def by blast+
  then show ?thesis
    by (simp add: canonical_score_def existing_score_dict_def hashed_fields_def Let_def split: option.split)
qed

lemma written_ring_id:
  assumes "upsert_law null get upsert" and "has_score_fields d" and "upsert w p d f st = (r, st1)"
  shows "get st1 w p = Some r" and "rr_ring_id r =
    (case dict_get d ''ring_id'' of
       Some v \<Rightarrow> if v = null then None else Some v
     | None \<Rightarrow> Option.bind (get st w p) rr_ring_id)"
  using assms unfolding upsert_law_def by blast+

lemma canonical_ring_id:
  "dict_get (canonical_score d) ''ring_id'' = dict_get d ''ring_id''"
  "dict_ok (canonical_score d)"
  by (auto simp: canonical_score_def hashed_fields_def dict_ok_def split: option.split)

lemma canonical_without_ring_id:
  "canonical_score (dict_pop ''ring_id'' d) = dict_pop ''ring_id'' (canonical_score d)"
  by (auto simp: canonical_score_def hashed_fields_def Let_def split: option.split)

lemma dict_set_same: "dict_ok d \<Longrightarrow> dict_get d k = Some v \<Longrightarrow> dict_set k v d = d"
  unfolding dict_ok_def by (induction d) (auto split: if_splits dest: map_of_SomeD)

lemma delete_absent: "dict_get d k = None \<Longrightarrow> AList.delete k d = d"
  by (metis delete_id map_of_eq_None_iff dom_map_of_conv_image_fst image_set)

text \<open>
  On a store that keeps what it is given, replaying a write that was made is skipped: the
  second call leaves the store alone and returns the stored record. It takes that the ring id
  is not sent as \<open>null\<close>, and that a score sent without one has none stored.
\<close>

theorem upsert_replay_skipped:
  assumes "upsert_law null get upsert" and "has_score_fields d"
    and "idempotent_upsert (risk_score_hash ds digest) get upsert w p d f st = ((True, r), st1)"
    and "case dict_get d ''ring_id'' of Some v \<Rightarrow> v \<noteq> null | None \<Rightarrow> Option.bind (get st w p) rr_ring_id = None"
  shows "idempotent_upsert (risk_score_hash ds digest) get upsert w p d f st1 = ((False, r), st1)"
proof -
  have w: "upsert w p d f st = (r, st1)"
    using assms(3) by (auto simp: idempotent_upsert_def split: option.splits if_splits prod.splits)
  note r = written_ring_id [OF assms(1,2) w]
  have "canonical_score (existing_score_dict r) = canonical_score d"
    using written_content [OF assms(1,2) w] r(2) assms(4) canonical_ring_id [of d]
    by (auto simp: dict_set_same delete_absent split: option.splits)
  then show ?thesis using r(1) by (simp add: idempotent_upsert_def risk_score_hash_def)
qed

text \<open>
  A ring id sent as \<open>null\<close> defeats the guard: the stored record holds none, the incoming
  content holds the key, so unless the digests collide every replay writes again.
\<close>

theorem null_ring_id_rewrites:
  assumes "upsert_law null get upsert" and "has_score_fields d"
    and "idempotent_upsert (risk_score_hash ds digest) get upsert w p d f st = ((True, r), st1)"
    and "dict_get d ''ring_id'' = Some null"
    and "risk_score_hash ds digest d \<noteq> risk_score_hash ds digest (dict_pop ''ring_id'' d)"
  shows "fst (fst (idempotent_upsert (risk_score_hash ds digest) get upsert w p d f st1)) = True"
proof -
  have w: "upsert w p d f st = (r, st1)"
    using assms(3) by (auto simp: idempotent_upsert_def split: option.splits if_splits prod.splits)
  note r = written_ring_id [OF assms(1,2) w]
  have "canonical_score (existing_score_dict r) = dict_pop ''ring_id'' (canonical_score d)"
    using written_content [OF assms(1,2) w] r(2) assms(4) by simp
  also have "\<dots> = canonical_score (dict_pop ''ring_id'' d)"
    by (rule canonical_without_ring_id [symmetric])
  finally have "risk_score_hash ds digest d \<noteq> risk_score_hash ds digest (existing_score_dict r)"
    using assms(5) by (simp add: risk_score_hash_def)
  then show ?thesis using r(1) by (simp add: idempotent_upsert_def split: prod.split)
qed

subsection \<open>Witnesses\<close>

definition ingest_key :: ckpt_key where
  "ingest_key = (''r1'', ''XLM'', ''ingest'')"

definition empty_ckpt :: ckpt_store where
  "empty_ckpt = \<lparr>cs_rows = [], cs_ttl_hours = 48, cs_last_eviction = 0\<rparr>"

lemma ckpt_get_empty [simp]: "ckpt_get k empty_ckpt = None"
  by (simp add: ckpt_get_def empty_ckpt_def)

theorem checkpoint_replay_witness:
  "st_result (fst (ckpt_enter (\<lambda>j. Some j) (5 * hour) 0 False ingest_key
     (foldl ckpt_event_step (ckpt_exit id 0 ingest_key
         \<lparr>st_skip = False, st_result = None, st_pending_result = Some ''3''\<rparr> None empty_ckpt)
       [Started hour 1 (''r1'', ''XLM'', ''scoring''), Evicted (2 * hour) 7200,
        Entered (3 * hour) 10800 False ingest_key, Purged (4 * hour) None, Reopened (4 * hour) 2 48]))) = Some ''3''"
  by (subst checkpoint_replay [where v = "''3''" and dumps = id and t = 0])
     (simp_all add: empty_ckpt_def ckpt_ok_def ingest_key_def hour_def)

theorem evict_keeps_complete_witness:
  "is_complete hour ingest_key (snd (evict_expired hour 9 (mark_done id 0 ingest_key None empty_ckpt)))"
proof -
  have "ckpt_ok (mark_done id 0 ingest_key None empty_ckpt)"
    by (simp add: mark_done_def empty_ckpt_def ckpt_ok_def upsert_status_def ckpt_get_def)
  moreover have "is_complete hour ingest_key (mark_done id 0 ingest_key None empty_ckpt)"
    by (simp add: is_complete_def mark_done_def ckpt_get_upsert set_ckpt_def or_old_def empty_ckpt_def
        hour_def)
  ultimately show ?thesis using evict_keeps_complete [of _ hour ingest_key 9] by blast
qed

theorem restarted_row_evicted_witness:
  "ckpt_get ingest_key (snd (evict_expired (50 * hour) 3700
     (mark_started (50 * hour) 0 ingest_key (mark_done id 0 ingest_key None empty_ckpt)))) = None"
proof -
  let ?s = "mark_done id 0 ingest_key None empty_ckpt"
  have "ckpt_ok ?s"
    by (simp add: mark_done_def empty_ckpt_def ckpt_ok_def upsert_status_def ckpt_get_def)
  moreover have "ckpt_get ingest_key ?s = Some (set_ckpt ''done'' None (Some 0) None None (new_ckpt_row ingest_key))"
    by (simp add: mark_done_def ckpt_get_upsert)
  moreover have "cs_ttl_hours ?s = 48" "cs_last_eviction ?s = 0"
    by (simp_all add: mark_done_def upsert_status_def empty_ckpt_def ckpt_get_def)
  ultimately show ?thesis
    using restarted_row_evicted [of ?s ingest_key _ 0 "50 * hour" 0 3700]
    by (simp add: set_ckpt_def or_old_def hour_def)
qed

text \<open>A store that keeps one record, for the two witnesses of the guarded write.\<close>

definition one_get :: "nat risk_record option \<Rightarrow> string \<Rightarrow> string \<Rightarrow> nat risk_record option" where
  "one_get st w p = st"

definition one_upsert ::
  "string \<Rightarrow> string \<Rightarrow> nat risk_dict \<Rightarrow> string \<Rightarrow> nat risk_record option
     \<Rightarrow> nat risk_record \<times> nat risk_record option" where
  "one_upsert w p d f st =
     (let r = \<lparr>rr_score = the (dict_get d ''score''), rr_benford_flag = the (dict_get d ''benford_flag''),
               rr_ml_flag = the (dict_get d ''ml_flag''), rr_confidence = the (dict_get d ''confidence''),
               rr_ring_id = (case dict_get d ''ring_id'' of
                               Some v \<Rightarrow> if v = 0 then None else Some v
                             | None \<Rightarrow> Option.bind st rr_ring_id)\<rparr>
      in (r, Some r))"

lemma has_score_field:
  "has_score_fields d \<Longrightarrow> k \<in> set hashed_fields \<Longrightarrow> dict_get d k = Some (the (dict_get d k))"
  by (metis has_score_fields_def list.set_map map_of_eq_None_iff option.exhaust_sel subsetD)

lemma one_upsert_law: "upsert_law 0 one_get one_upsert"
  unfolding upsert_law_def one_upsert_def one_get_def Let_def
  by (auto intro: has_score_field simp: hashed_fields_def)

definition demo_score :: "nat risk_dict" where
  "demo_score = [(''score'', 81), (''benford_flag'', 1), (''ml_flag'', 1), (''confidence'', 70)]"

lemma demo_score_fields: "has_score_fields demo_score" "has_score_fields (demo_score @ x)"
  by (auto simp: has_score_fields_def hashed_fields_def demo_score_def)

lemma demo_score_ring: "dict_get demo_score ''ring_id'' = None"
  by (simp add: demo_score_def)

abbreviation key_hash :: "nat risk_dict \<Rightarrow> string" where
  "key_hash \<equiv> risk_score_hash (\<lambda>c. concat (rev (map fst c))) (\<lambda>s. s)"

lemma first_write:
  "idempotent_upsert h one_get one_upsert w p d f None =
     ((True, fst (one_upsert w p d f None)), Some (fst (one_upsert w p d f None)))"
  by (simp add: idempotent_upsert_def one_get_def one_upsert_def Let_def)

theorem upsert_replay_skipped_witness:
  "fst (fst (idempotent_upsert key_hash one_get one_upsert ''w'' ''p'' demo_score ''provisional''
     (Some (fst (one_upsert ''w'' ''p'' demo_score ''provisional'' None))))) = False"
  by (subst upsert_replay_skipped [OF one_upsert_law demo_score_fields(1) first_write])
     (simp_all add: demo_score_ring one_get_def)

theorem null_ring_id_rewrites_witness:
  "fst (fst (idempotent_upsert key_hash one_get one_upsert ''w'' ''p''
     (demo_score @ [(''ring_id'', 0)]) ''provisional''
     (Some (fst (one_upsert ''w'' ''p'' (demo_score @ [(''ring_id'', 0)]) ''provisional'' None))))) = True"
  by (rule null_ring_id_rewrites [OF one_upsert_law demo_score_fields(2) first_write])
     (simp_all add: demo_score_def risk_score_hash_def canonical_score_def hashed_fields_def Let_def)

end
