(* ===== verification/Recovery.thy ===== *)
theory Recovery
  imports Checkpoints "HOL-Library.Multiset"
begin

text \<open>
  \<open>pipeline/recovery.py\<close>: resumable execution of the pipeline's stages. The state of a
  \<open>RecoveryManager\<close> is the checkpoint store, a tracker (a list of stage results) and the latest
  consistency report per \<open>(run_id, pair_id)\<close>. The block of a \<open>with rm.stage(...)\<close> is an argument:
  from the state it is handed it sets a result and ends by returning, by raising an
  \<open>Exception\<close>, or by raising a \<open>BaseException\<close> that is none (\<open>KeyboardInterrupt\<close>,
  \<open>SystemExit\<close>). JSON and SHA-256 are the parameters \<open>dumps\<close> and \<open>digest\<close>.
\<close>

subsection \<open>Stage results and the tracker\<close>

record 'v stage_result =
  sr_stage :: string
  sr_status :: string
  sr_wall_seconds :: rat
  sr_result_payload :: "'v option"
  sr_error :: string

record stage_counts =
  sc_total_wall_seconds :: rat
  sc_completed :: nat
  sc_skipped :: nat
  sc_failed :: nat

definition status_count :: "string \<Rightarrow> 'v stage_result list \<Rightarrow> nat" where
  "status_count status rs = length (filter (\<lambda>r. sr_status r = status) rs)"

text \<open>The counts of \<open>summary()\<close>, before \<open>round\<close>.\<close>

definition tracker_summary :: "'v stage_result list \<Rightarrow> stage_counts" where
  "tracker_summary rs =
     \<lparr>sc_total_wall_seconds = sum_list (map sr_wall_seconds rs),
      sc_completed = status_count ''completed'' rs, sc_skipped = status_count ''skipped'' rs,
      sc_failed = status_count ''failed'' rs\<rparr>"

definition failed_stages :: "'v stage_result list \<Rightarrow> string list" where
  "failed_stages rs = map sr_stage (filter (\<lambda>r. sr_status r = ''failed'') rs)"

definition has_failures :: "'v stage_result list \<Rightarrow> bool" where
  "has_failures rs = list_ex (\<lambda>r. sr_status r = ''failed'') rs"

subsection \<open>Consistency reports\<close>

definition compute_checksum :: "('rec \<Rightarrow> string) \<Rightarrow> (string \<Rightarrow> string) \<Rightarrow> 'rec list \<Rightarrow> string" where
  "compute_checksum dumps digest records =
     digest (concat (sort (map (\<lambda>r. digest (dumps r)) records)))"

record stage_snapshot =
  ss_record_count :: int
  ss_checksum :: "string option"

definition snapshot_from_records ::
  "('rec \<Rightarrow> string) \<Rightarrow> (string \<Rightarrow> string) \<Rightarrow> 'rec list \<Rightarrow> stage_snapshot" where
  "snapshot_from_records dumps digest records =
     \<lparr>ss_record_count = int (length records), ss_checksum = Some (compute_checksum dumps digest records)\<rparr>"

datatype issue =
    NoExpectedState
  | OutputMissing
  | CountMismatch int int
  | ChecksumMismatch string string

record consistency_check =
  cc_stage :: string
  cc_expected :: "stage_snapshot option"
  cc_actual :: "stage_snapshot option"

definition check_issues :: "consistency_check \<Rightarrow> issue list" where
  "check_issues c =
     (case cc_expected c of
        None \<Rightarrow> [NoExpectedState]
      | Some e \<Rightarrow>
          (case cc_actual c of
             None \<Rightarrow> [OutputMissing]
           | Some a \<Rightarrow>
               (if ss_record_count e \<noteq> ss_record_count a
                then [CountMismatch (ss_record_count e) (ss_record_count a)] else []) @
               (case (ss_checksum e, ss_checksum a) of
                  (Some x, Some y) \<Rightarrow> if x \<noteq> y then [ChecksumMismatch (take 12 x) (take 12 y)] else []
                | _ \<Rightarrow> [])))"

definition check_passed :: "consistency_check \<Rightarrow> bool" where
  "check_passed c \<longleftrightarrow> check_issues c = []"

record recovery_report =
  re_run_id :: string
  re_pair_id :: string
  re_recovered_range :: "(string \<times> string) option"
  re_recovered_stages :: "string list"
  re_checks :: "consistency_check list"
  re_approved_by :: "string option"

definition report_passed :: "recovery_report \<Rightarrow> bool" where
  "report_passed r = list_all check_passed (re_checks r)"

definition resume_allowed :: "recovery_report \<Rightarrow> bool" where
  "resume_allowed r \<longleftrightarrow> report_passed r \<or> re_approved_by r \<noteq> None"

definition report_failed_stages :: "recovery_report \<Rightarrow> string list" where
  "report_failed_stages r = map cc_stage (filter (\<lambda>c. \<not> check_passed c) (re_checks r))"

text \<open>\<open>list(dict.fromkeys(xs))\<close>: the first occurrences, in order.\<close>

fun fromkeys :: "'a list \<Rightarrow> 'a list" where
  "fromkeys [] = []"
| "fromkeys (x # xs) = x # filter (\<lambda>y. y \<noteq> x) (fromkeys xs)"

definition verify_recovery ::
  "string \<Rightarrow> string \<Rightarrow> (string, stage_snapshot) dict \<Rightarrow> (string, stage_snapshot) dict
     \<Rightarrow> (string \<times> string) option \<Rightarrow> string list option \<Rightarrow> recovery_report" where
  "verify_recovery run_id pair_id expected actual recovered_range recovered_stages =
     (let stages = fromkeys (dict_keys expected @ dict_keys actual)
      in \<lparr>re_run_id = run_id, re_pair_id = pair_id, re_recovered_range = recovered_range,
          re_recovered_stages = (case recovered_stages of None \<Rightarrow> stages | Some rs \<Rightarrow> rs),
          re_checks = map (\<lambda>s. \<lparr>cc_stage = s, cc_expected = dict_get expected s,
                                 cc_actual = dict_get actual s\<rparr>) stages,
          re_approved_by = None\<rparr>)"

subsection \<open>The manager\<close>

type_synonym run_key = "string \<times> string"

record 'v recovery_manager =
  rm_store :: ckpt_store
  rm_trackers :: "(run_key, 'v stage_result list) dict"
  rm_reports :: "(run_key, recovery_report) dict"

datatype recovery_error = RecoveryBlockedError recovery_report | ReviewerValueError | NoReportKeyError

definition tracker_of :: "run_key \<Rightarrow> 'v recovery_manager \<Rightarrow> 'v stage_result list" where
  "tracker_of key m = (case dict_get (rm_trackers m) key of None \<Rightarrow> [] | Some t \<Rightarrow> t)"

datatype ending = Clean | ExceptionRaised string | BaseExceptionRaised

text \<open>
  \<open>stage\<close>: \<open>t_enter\<close>, \<open>tick\<close> are the clock readings on entry, \<open>t_exit\<close> the one of the mark
  on exit, \<open>elapsed\<close> the wall time. Only an \<open>Exception\<close> reaches \<open>exc_info\<close>; the \<open>finally\<close>
  block runs in all three cases.
\<close>

definition run_stage_body ::
  "('v \<Rightarrow> string) \<Rightarrow> (string \<Rightarrow> 'v option) \<Rightarrow> run_key \<Rightarrow> string \<Rightarrow> bool
     \<Rightarrow> instant \<Rightarrow> clock \<Rightarrow> instant \<Rightarrow> rat \<Rightarrow> ('v ckpt_state \<Rightarrow> 'v option \<times> ending)
     \<Rightarrow> 'v recovery_manager \<Rightarrow> (recovery_error + 'v ckpt_state \<times> ending) \<times> 'v recovery_manager"
where
  "run_stage_body dumps loads key stage_name force t_enter tick t_exit elapsed body m =
     (let k = (fst key, snd key, stage_name);
          (st0, store1) = ckpt_enter loads t_enter tick force k (rm_store m);
          (pending, how) = body st0;
          st = st0\<lparr>st_pending_result := pending\<rparr>;
          exc_info = (case how of ExceptionRaised msg \<Rightarrow> Some msg | _ \<Rightarrow> None);
          store2 = ckpt_exit dumps t_exit k st exc_info store1;
          result = \<lparr>sr_stage = stage_name,
                    sr_status = (if st_skip st then ''skipped''
                                 else if exc_info = None then ''completed'' else ''failed''),
                    sr_wall_seconds = elapsed, sr_result_payload = pending,
                    sr_error = (if st_skip st then [] else case exc_info of None \<Rightarrow> [] | Some msg \<Rightarrow> msg)\<rparr>
      in (Inr (st, how),
          m\<lparr>rm_store := store2,
            rm_trackers := dict_set key (tracker_of key m @ [result]) (rm_trackers m)\<rparr>))"

definition run_stage ::
  "('v \<Rightarrow> string) \<Rightarrow> (string \<Rightarrow> 'v option) \<Rightarrow> run_key \<Rightarrow> string \<Rightarrow> bool
     \<Rightarrow> instant \<Rightarrow> clock \<Rightarrow> instant \<Rightarrow> rat \<Rightarrow> ('v ckpt_state \<Rightarrow> 'v option \<times> ending)
     \<Rightarrow> 'v recovery_manager \<Rightarrow> (recovery_error + 'v ckpt_state \<times> ending) \<times> 'v recovery_manager"
where
  "run_stage dumps loads key stage_name force t_enter tick t_exit elapsed body m =
     (case dict_get (rm_reports m) key of
        Some report \<Rightarrow>
          if \<not> resume_allowed report then (Inl (RecoveryBlockedError report), m)
          else run_stage_body dumps loads key stage_name force t_enter tick t_exit elapsed body m
      | None \<Rightarrow> run_stage_body dumps loads key stage_name force t_enter tick t_exit elapsed body m)"

record resume_view =
  rv_completed_stages :: "string list"
  rv_first_incomplete_stage :: "string option"
  rv_will_resume :: bool

definition resume_info :: "instant \<Rightarrow> run_key \<Rightarrow> 'v recovery_manager \<Rightarrow> resume_view" where
  "resume_info now key m =
     (let first_incomplete = first_incomplete_stage now (fst key) (snd key) (rm_store m);
          completed = map cp_stage (filter (\<lambda>r. cp_status r = ''done'')
                        (list_stages (fst key) (snd key) (rm_store m)))
      in \<lparr>rv_completed_stages = completed, rv_first_incomplete_stage = first_incomplete,
          rv_will_resume = (first_incomplete \<noteq> None \<and> length completed > 0)\<rparr>)"

definition run_summary :: "run_key \<Rightarrow> 'v recovery_manager \<Rightarrow> stage_counts" where
  "run_summary key m = tracker_summary (tracker_of key m)"

definition manager_has_failures :: "run_key \<Rightarrow> 'v recovery_manager \<Rightarrow> bool" where
  "manager_has_failures key m = has_failures (tracker_of key m)"

definition complete_recovery ::
  "run_key \<Rightarrow> (string, stage_snapshot) dict \<Rightarrow> (string, stage_snapshot) dict
     \<Rightarrow> (string \<times> string) option \<Rightarrow> 'v recovery_manager \<Rightarrow> recovery_report \<times> 'v recovery_manager" where
  "complete_recovery key expected actual recovered_range m =
     (let recovered = map sr_stage (filter (\<lambda>r. sr_status r = ''completed'') (tracker_of key m));
          report = verify_recovery (fst key) (snd key) expected actual recovered_range
                     (if recovered = [] then None else Some recovered)
      in (report, m\<lparr>rm_reports := dict_set key report (rm_reports m)\<rparr>))"

definition can_auto_resume :: "run_key \<Rightarrow> 'v recovery_manager \<Rightarrow> bool" where
  "can_auto_resume key m =
     (case dict_get (rm_reports m) key of None \<Rightarrow> True | Some r \<Rightarrow> resume_allowed r)"

definition approve_resume ::
  "run_key \<Rightarrow> string \<Rightarrow> 'v recovery_manager \<Rightarrow> (recovery_error + unit) \<times> 'v recovery_manager" where
  "approve_resume key reviewer m =
     (if reviewer = [] then (Inl ReviewerValueError, m)
      else (case dict_get (rm_reports m) key of
              None \<Rightarrow> (Inl NoReportKeyError, m)
            | Some r \<Rightarrow> (Inr (), m\<lparr>rm_reports :=
                dict_set key (r\<lparr>re_approved_by := Some reviewer\<rparr>) (rm_reports m)\<rparr>)))"

text \<open>
  \<open>delete\<close> is the score store's method, absent (\<open>None\<close>) where the store does not expose one;
  a call that raises is skipped.
\<close>

fun rollback_each ::
  "(string \<Rightarrow> string \<Rightarrow> 'st \<Rightarrow> (string + bool) \<times> 'st) \<Rightarrow> string list \<Rightarrow> string \<Rightarrow> nat \<Rightarrow> 'st \<Rightarrow> nat \<times> 'st"
where
  "rollback_each delete [] pair_id deleted st = (deleted, st)"
| "rollback_each delete (w # ws) pair_id deleted st =
     (case delete w pair_id st of
        (Inl _, st') \<Rightarrow> rollback_each delete ws pair_id deleted st'
      | (Inr removed, st') \<Rightarrow>
          rollback_each delete ws pair_id (if removed then deleted + 1 else deleted) st')"

definition rollback_partial_writes ::
  "(string \<Rightarrow> string \<Rightarrow> 'st \<Rightarrow> (string + bool) \<times> 'st) option \<Rightarrow> string list \<Rightarrow> string \<Rightarrow> 'st \<Rightarrow> nat \<times> 'st"
where
  "rollback_partial_writes delete wallets pair_id st =
     (case delete of None \<Rightarrow> (0, st) | Some d \<Rightarrow> rollback_each d wallets pair_id 0 st)"

subsection \<open>Properties\<close>

lemma set_fromkeys [simp]: "set (fromkeys xs) = set xs"
  by (induction xs) auto

lemma distinct_fromkeys [simp]: "distinct (fromkeys xs)"
  by (induction xs) auto

definition snapshots_agree :: "stage_snapshot \<Rightarrow> stage_snapshot \<Rightarrow> bool" where
  "snapshots_agree e a \<longleftrightarrow> ss_record_count e = ss_record_count a \<and>
     (ss_checksum e = None \<or> ss_checksum a = None \<or> ss_checksum e = ss_checksum a)"

lemma check_passed_iff:
  "check_passed \<lparr>cc_stage = s, cc_expected = e, cc_actual = a\<rparr> \<longleftrightarrow>
     (\<exists>x y. e = Some x \<and> a = Some y \<and> snapshots_agree x y)"
  by (auto simp: check_passed_def check_issues_def snapshots_agree_def split: option.splits)

text \<open>
  A recovery is reported as consistent exactly when the stages expected and the stages
  found are the same and agree one by one in record count and, where both have one, in
  checksum; no stage is checked twice.
\<close>

theorem verify_recovery_exact:
  "report_passed (verify_recovery run pair expected actual rng stages) =
     (set (dict_keys expected) = set (dict_keys actual) \<and>
      (\<forall>s \<in> set (dict_keys expected).
         snapshots_agree (the (dict_get expected s)) (the (dict_get actual s)))) \<and>
   distinct (map cc_stage (re_checks (verify_recovery run pair expected actual rng stages)))"
proof
  let ?E = "set (dict_keys expected)" and ?A = "set (dict_keys actual)"
  have both: "(\<exists>x y. dict_get expected s = Some x \<and> dict_get actual s = Some y \<and> snapshots_agree x y) \<longleftrightarrow>
      s \<in> ?E \<and> s \<in> ?A \<and> snapshots_agree (the (dict_get expected s)) (the (dict_get actual s))" for s
    using map_of_eq_None_iff [of expected s] map_of_eq_None_iff [of actual s]
    by (cases "dict_get expected s"; cases "dict_get actual s") simp_all
  have "report_passed (verify_recovery run pair expected actual rng stages) \<longleftrightarrow>
      (\<forall>s \<in> ?E \<union> ?A. \<exists>x y. dict_get expected s = Some x \<and> dict_get actual s = Some y \<and> snapshots_agree x y)"
    by (simp add: report_passed_def verify_recovery_def Let_def list_all_iff check_passed_iff)
  also have "\<dots> \<longleftrightarrow> ?E = ?A \<and>
      (\<forall>s \<in> ?E. snapshots_agree (the (dict_get expected s)) (the (dict_get actual s)))"
    unfolding both by blast
  finally show "report_passed (verify_recovery run pair expected actual rng stages) =
     (?E = ?A \<and> (\<forall>s \<in> ?E. snapshots_agree (the (dict_get expected s)) (the (dict_get actual s))))" .
  show "distinct (map cc_stage (re_checks (verify_recovery run pair expected actual rng stages)))"
    by (simp add: verify_recovery_def Let_def comp_def)
qed

lemma same_blocks:
  assumes "\<forall>x \<in> set (xs @ ys). length x = n" and "concat xs = concat ys" and "0 < n"
  shows "xs = ys"
  using assms
proof (induction xs arbitrary: ys)
  case Nil
  then show ?case by (cases ys) auto
next
  case (Cons x xs)
  then obtain y ys' where ys: "ys = y # ys'" by (cases ys) auto
  with Cons.prems have "x = y" "concat xs = concat ys'" by (auto simp: append_eq_append_conv)
  with Cons ys show ?case by simp
qed

text \<open>
  The checksum of a stage's records does not depend on their order, and it distinguishes
  what it should: with digests of one positive length and no collision on the two inputs of the
  outer hash, equal checksums mean equal multisets of record digests.
\<close>

theorem checksum_order_independent:
  assumes "\<And>s. length (digest s) = n" and "0 < n"
    and "\<And>ds ds'. ds = concat (sort (map (\<lambda>r. digest (dumps r)) xs)) \<Longrightarrow>
           ds' = concat (sort (map (\<lambda>r. digest (dumps r)) ys)) \<Longrightarrow> digest ds = digest ds' \<Longrightarrow> ds = ds'"
  shows "compute_checksum dumps digest xs = compute_checksum dumps digest ys \<longleftrightarrow>
    mset (map (\<lambda>r. digest (dumps r)) xs) = mset (map (\<lambda>r. digest (dumps r)) ys)"
proof
  let ?d = "\<lambda>xs. sort (map (\<lambda>r. digest (dumps r)) xs)"
  assume "compute_checksum dumps digest xs = compute_checksum dumps digest ys"
  then have "concat (?d xs) = concat (?d ys)"
    using assms(3) unfolding compute_checksum_def by blast
  then have "?d xs = ?d ys"
    by (intro same_blocks [of "?d xs" "?d ys" n]) (auto simp: assms(1,2))
  then show "mset (map (\<lambda>r. digest (dumps r)) xs) = mset (map (\<lambda>r. digest (dumps r)) ys)"
    by (metis mset_sort)
next
  assume "mset (map (\<lambda>r. digest (dumps r)) xs) = mset (map (\<lambda>r. digest (dumps r)) ys)"
  then have "sort (map (\<lambda>r. digest (dumps r)) xs) = sort (map (\<lambda>r. digest (dumps r)) ys)"
    by (metis properties_for_sort mset_sort sorted_sort)
  then show "compute_checksum dumps digest xs = compute_checksum dumps digest ys"
    unfolding compute_checksum_def by (simp only:)
qed

subsection \<open>The gate\<close>

text \<open>
  The history of a manager. The reports are kept in memory: a manager opened anew on the store has
  none.
\<close>

datatype 'v recovery_event =
    RanStage run_key string bool instant clock instant rat "'v ckpt_state \<Rightarrow> 'v option \<times> ending"
  | Completed run_key "(string, stage_snapshot) dict" "(string, stage_snapshot) dict" "(string \<times> string) option"
  | Approved run_key string
  | ManagerReopened

fun recovery_step ::
  "('v \<Rightarrow> string) \<Rightarrow> (string \<Rightarrow> 'v option) \<Rightarrow> 'v recovery_manager \<Rightarrow> 'v recovery_event \<Rightarrow> 'v recovery_manager"
where
  "recovery_step dumps loads m (RanStage key stage_name force t0 tick t1 elapsed body) =
     snd (run_stage dumps loads key stage_name force t0 tick t1 elapsed body m)"
| "recovery_step dumps loads m (Completed key expected actual rng) =
     snd (complete_recovery key expected actual rng m)"
| "recovery_step dumps loads m (Approved key reviewer) = snd (approve_resume key reviewer m)"
| "recovery_step dumps loads m ManagerReopened =
     \<lparr>rm_store = rm_store m, rm_trackers = [], rm_reports = []\<rparr>"

text \<open>What a history says of a run, without looking at the manager.\<close>

definition consistent :: "(string, stage_snapshot) dict \<Rightarrow> (string, stage_snapshot) dict \<Rightarrow> bool" where
  "consistent expected actual \<longleftrightarrow>
     set (dict_keys expected) = set (dict_keys actual) \<and>
     (\<forall>s \<in> set (dict_keys expected). snapshots_agree (the (dict_get expected s)) (the (dict_get actual s)))"

fun note_review :: "run_key \<Rightarrow> bool \<Rightarrow> 'v recovery_event \<Rightarrow> bool" where
  "note_review key blocked (RanStage key' stage_name force t0 tick t1 elapsed body) = blocked"
| "note_review key blocked (Completed key' expected actual rng) =
     (if key' = key then \<not> consistent expected actual else blocked)"
| "note_review key blocked (Approved key' reviewer) = (blocked \<and> \<not> (key' = key \<and> reviewer \<noteq> []))"
| "note_review key blocked ManagerReopened = False"

definition blocked_by :: "run_key \<Rightarrow> 'v recovery_event list \<Rightarrow> bool" where
  "blocked_by key es = foldl (note_review key) False es"

definition report_blocks :: "run_key \<Rightarrow> 'v recovery_manager \<Rightarrow> bool" where
  "report_blocks key m \<longleftrightarrow> (\<exists>r. dict_get (rm_reports m) key = Some r \<and> \<not> resume_allowed r)"

lemma run_stage_reports [simp]:
  "rm_reports (snd (run_stage dumps loads key n force t0 tick t1 el body m)) = rm_reports m"
  by (auto simp: run_stage_def run_stage_body_def Let_def split: option.split prod.split)

lemma completed_blocks:
  "report_blocks key (snd (complete_recovery key' expected actual rng m)) =
     (if key' = key then \<not> consistent expected actual else report_blocks key m)"
proof -
  have "resume_allowed (fst (complete_recovery key' expected actual rng m)) = consistent expected actual"
    using verify_recovery_exact [of "fst key'" "snd key'" expected actual rng]
    by (simp add: complete_recovery_def Let_def resume_allowed_def consistent_def)
      (simp add: verify_recovery_def Let_def)
  then show ?thesis by (auto simp: report_blocks_def complete_recovery_def Let_def)
qed

lemma approved_blocks:
  "report_blocks key (snd (approve_resume key' reviewer m)) =
     (report_blocks key m \<and> \<not> (key' = key \<and> reviewer \<noteq> []))"
  by (auto simp: report_blocks_def approve_resume_def resume_allowed_def split: option.splits)

lemma note_review_step:
  "report_blocks key (recovery_step dumps loads m e) = note_review key (report_blocks key m) e"
  by (cases e) (simp_all add: completed_blocks approved_blocks, simp_all add: report_blocks_def)

lemma report_blocks_history:
  "report_blocks key (foldl (recovery_step dumps loads) m es) = foldl (note_review key) (report_blocks key m) es"
  by (induction es arbitrary: m) (simp_all add: note_review_step)

text \<open>
  C17. Over any history of a manager, of stages run, of consistency checks and of approvals, for any
  runs and in any order, a run is blocked exactly while its latest check has failed and no reviewer
  has approved it since and the manager has not been opened anew: then the call of a stage
  raises \<open>RecoveryBlockedError\<close> with a failed, unapproved report and leaves the store and the trackers
  as they are, and otherwise it runs. A check that passes later unblocks the run without a reviewer.
\<close>

theorem failed_recovery_blocks:
  assumes "dict_get (rm_reports m) key = None" and "m' = foldl (recovery_step dumps loads) m es"
  shows "can_auto_resume key m' = (\<not> blocked_by key es) \<and>
    (if blocked_by key es
     then \<exists>report. \<not> report_passed report \<and> re_approved_by report = None \<and>
       run_stage dumps loads key n force t0 tick t1 el body m' = (Inl (RecoveryBlockedError report), m')
     else \<not> isl (fst (run_stage dumps loads key n force t0 tick t1 el body m')))"
proof -
  have "report_blocks key m' = blocked_by key es"
    using report_blocks_history [of key dumps loads m es] assms
    by (simp add: blocked_by_def report_blocks_def)
  moreover have "\<not> isl (fst (run_stage_body dumps loads key n force t0 tick t1 el body m'))"
    by (simp add: run_stage_body_def Let_def split: prod.split)
  ultimately show ?thesis
    by (auto simp: report_blocks_def can_auto_resume_def run_stage_def resume_allowed_def split: option.split)
qed

text \<open>
  So the promise that a failed check blocks every later stage until \<open>approve_resume\<close> is called is
  not kept: whoever runs the check again with an expectation that fits is let through.
\<close>

lemma passing_check_unblocks:
  assumes "dict_get (rm_reports m) key = None" and "consistent expected' actual'"
  shows "can_auto_resume key (foldl (recovery_step dumps loads) m
    [Completed key expected actual rng, Completed key expected' actual' rng'])"
proof -
  have "\<not> blocked_by key [Completed key expected actual rng, Completed key expected' actual' rng']"
    using assms(2) by (simp add: blocked_by_def)
  then show ?thesis
    using report_blocks_history [of key dumps loads m "[Completed key expected actual rng, Completed key expected' actual' rng']"]
      assms by (auto simp: report_blocks_def can_auto_resume_def split: option.splits)
qed

definition stage_row :: "run_key \<Rightarrow> string \<Rightarrow> 'v recovery_manager \<Rightarrow> ckpt_row option" where
  "stage_row key n m = ckpt_get (fst key, snd key, n) (rm_store m)"

lemma mark_ttl [simp]:
  "cs_ttl_hours (mark_started now tick k st) = cs_ttl_hours st"
  "cs_ttl_hours (mark_done dumps now k v st) = cs_ttl_hours st"
  by (simp_all add: mark_started_def mark_done_def Let_def)

text \<open>
  What a stage that runs leaves behind: an \<open>Exception\<close> of its block is recorded as
  \<open>failed\<close> in the store and in the tracker, every other ending as \<open>done\<close> and \<open>completed\<close>. That
  includes a block stopped by a \<open>BaseException\<close> such as \<open>KeyboardInterrupt\<close>: the interrupted
  stage counts as complete and is skipped by the resumed run.
\<close>

theorem stage_outcome:
  assumes "can_auto_resume key m" and "\<not> is_complete t0 (fst key, snd key, n) (rm_store m) \<or> force"
    and "body \<lparr>st_skip = False, st_result = None, st_pending_result = None\<rparr> = (pending, how)"
  shows "let m' = snd (run_stage dumps loads key n force t0 tick t1 el body m)
    in map_option cp_status (stage_row key n m') =
         Some (case how of ExceptionRaised msg \<Rightarrow> ''failed'' | _ \<Rightarrow> ''done'') \<and>
       sr_status (last (tracker_of key m')) =
         (case how of ExceptionRaised msg \<Rightarrow> ''failed'' | _ \<Rightarrow> ''completed'') \<and>
       (how = BaseExceptionRaised \<longrightarrow> t - t1 \<le> cs_ttl_hours (rm_store m) * hour \<longrightarrow>
          is_complete t (fst key, snd key, n) (rm_store m'))"
proof -
  let ?k = "(fst key, snd key, n)" and ?m' = "snd (run_stage dumps loads key n force t0 tick t1 el body m)"
  let ?s = "mark_started t0 tick ?k (rm_store m)"
  have run: "run_stage dumps loads key n force t0 tick t1 el body m = run_stage_body dumps loads key n force t0 tick t1 el body m"
    using assms(1) by (auto simp: run_stage_def can_auto_resume_def split: option.splits)
  have enter: "ckpt_enter loads t0 tick force ?k (rm_store m) = (\<lparr>st_skip = False, st_result = None, st_pending_result = None\<rparr>, ?s)"
    using assms(2) by (auto simp: ckpt_enter_def)
  have store: "rm_store ?m' = (case how of ExceptionRaised msg \<Rightarrow> ckpt_mark_failed t1 ?k msg ?s | _ \<Rightarrow> mark_done dumps t1 ?k pending ?s)"
    unfolding run run_stage_body_def Let_def enter prod.case assms(3) by (cases how) (simp_all add: ckpt_exit_def)
  have "sr_status (last (tracker_of key ?m')) = (case how of ExceptionRaised msg \<Rightarrow> ''failed'' | _ \<Rightarrow> ''completed'')"
    unfolding run run_stage_body_def Let_def enter prod.case assms(3) by (cases how) (simp_all add: tracker_of_def)
  moreover have "ckpt_get ?k (rm_store ?m') \<noteq> None \<and>
      map_option cp_status (ckpt_get ?k (rm_store ?m')) = Some (case how of ExceptionRaised msg \<Rightarrow> ''failed'' | _ \<Rightarrow> ''done'')"
    unfolding store by (cases how) (simp_all add: mark_done_def ckpt_mark_failed_def ckpt_get_upsert set_ckpt_def)
  moreover have "is_complete t ?k (rm_store ?m')" if "how = BaseExceptionRaised" "t - t1 \<le> cs_ttl_hours (rm_store m) * hour"
    unfolding store using that by (simp add: is_complete_def mark_done_def ckpt_get_upsert set_ckpt_def or_old_def)
  ultimately show ?thesis by (simp add: stage_row_def Let_def)
qed

subsection \<open>Witnesses\<close>

definition snap :: "int \<Rightarrow> stage_snapshot" where
  "snap n = \<lparr>ss_record_count = n, ss_checksum = None\<rparr>"

definition fresh_manager :: "string recovery_manager" where
  "fresh_manager = \<lparr>rm_store = empty_ckpt, rm_trackers = [], rm_reports = []\<rparr>"

theorem verify_recovery_exact_witness:
  "\<not> report_passed (verify_recovery ''r'' ''p'' [(''ingest'', snap 3)] [(''ingest'', snap 2)] None None)"
  using verify_recovery_exact [of "''r''" "''p''" "[(''ingest'', snap 3)]" "[(''ingest'', snap 2)]" None None]
  by (simp add: snapshots_agree_def snap_def)

theorem checksum_order_independent_witness:
  "compute_checksum id (\<lambda>s. [if s = [] then CHR ''x'' else hd s]) [''a'', ''b''] =
   compute_checksum id (\<lambda>s. [if s = [] then CHR ''x'' else hd s]) [''b'', ''a'']"
  by (subst checksum_order_independent [where n = 1]) (auto simp: insort_key_def)

theorem failed_recovery_blocks_witness:
  "isl (fst (run_stage id Some (''r'', ''p'') ''features'' False 0 0 0 0 (\<lambda>st. (None, Clean))
     (foldl (recovery_step id Some) fresh_manager
        [Completed (''r'', ''p'') [(''ingest'', snap 3)] [] None, Approved (''r2'', ''p'') ''eve''])))"
proof -
  let ?es = "[Completed (''r'', ''p'') [(''ingest'', snap 3)] [] None, Approved (''r2'', ''p'') ''eve'']
    :: string recovery_event list"
  have "blocked_by (''r'', ''p'') ?es" by (simp add: blocked_by_def consistent_def)
  moreover have "dict_get (rm_reports (fresh_manager :: string recovery_manager)) (''r'', ''p'') = None"
    by (simp add: fresh_manager_def)
  ultimately show ?thesis
    using failed_recovery_blocks [OF _ refl, of fresh_manager "(''r'', ''p'')" id Some ?es "''features''"
        False 0 0 0 0 "\<lambda>st. (None, Clean)"]
    by auto
qed

theorem stage_outcome_witness:
  "is_complete hour (''r'', ''p'', ''persist'') (rm_store (snd (run_stage id Some (''r'', ''p'') ''persist'' False 0 0 0 0
     (\<lambda>st. (None, BaseExceptionRaised)) fresh_manager)))"
proof -
  have "can_auto_resume (''r'', ''p'') fresh_manager"
    and "\<not> is_complete 0 (''r'', ''p'', ''persist'') (rm_store fresh_manager)"
    and "cs_ttl_hours (rm_store fresh_manager) = 48"
    by (simp_all add: can_auto_resume_def fresh_manager_def is_complete_def)
      (simp add: empty_ckpt_def)
  then show ?thesis
    using stage_outcome [of "(''r'', ''p'')" fresh_manager 0 "''persist''" False
      "\<lambda>st. (None, BaseExceptionRaised)" None BaseExceptionRaised id Some 0 0 0 hour]
    by (simp add: Let_def)
qed

end
