(* ===== verification/AlertDispatch.thy ===== *)
theory AlertDispatch
  imports SqlDedup
begin

text \<open>
  \<open>streaming/alert_ledger.py\<close> and \<open>streaming/alert_dispatcher.py\<close>: the durable ledger of alert
  outcomes, kept as committed rows of the exactly-once table, and the dispatcher that writes an
  intent to it before every external call and resolves open intents after a crash.

  A world holds the cooldowns, the database, how often \<open>time.time_ns()\<close> was read, what left
  the process (\<open>aw_out\<close>) and what the outside answers to the coming posts and pushes. Text of
  numbers, SHA-256, the database's character comparison and the readings of \<open>time_ns\<close> are
  parameters held in the configuration.
\<close>

subsection \<open>The ledger\<close>

datatype alert_outcome = InFlight | Delivered | DeadLettered | SuppressedCooldown | ReconciledSkipped

definition terminal_outcomes :: "alert_outcome list" where
  "terminal_outcomes = [Delivered, DeadLettered, ReconciledSkipped]"

record alert_score =
  as_score :: rat
  as_fields :: "(string, string) dict"

record alert_record =
  ar_wallet :: string
  ar_pair_id :: string
  ar_score :: "rat option"
  ar_outcome :: "alert_outcome option"
  ar_channel :: string
  ar_reason :: "string option"
  ar_idempotency_key :: "string option"
  ar_risk_score :: "alert_score option"

record alert_config =
  dc_channel :: string
  dc_webhook_url :: "string option"
  dc_cooldown_seconds :: int
  dc_threshold :: "string \<Rightarrow> rat"
  dc_max_retries :: nat
  dc_ledger :: bool
  dc_ttl_hours :: rat
  dc_text :: "rat \<Rightarrow> string"
  dc_text_rounded :: "rat \<Rightarrow> string"
  dc_sha256 :: "string \<Rightarrow> string"
  dc_eqc :: "char \<Rightarrow> char \<Rightarrow> bool"
  dc_time_ns :: "nat \<Rightarrow> nat"

datatype post_reply = HttpOk | HttpError nat | RequestFailed

datatype effect =
    Printed string string "string option"
  | Posted string string "string option"
  | Pushed string string "string option"

record alert_world =
  aw_cooldowns :: "(string, clock) dict"
  aw_db :: "alert_record sql_world"
  aw_reads :: nat
  aw_out :: "effect list"
  aw_replies :: "post_reply list"
  aw_push_fails :: "bool list"

definition alert_store :: "alert_config \<Rightarrow> (alert_record sql_world, alert_record) exactly_once_store" where
  "alert_store c = \<lparr>eo_backend = sql_backend (dc_ttl_hours c), eo_ttl_seconds = 86400\<rparr>"

definition alert_key :: "alert_config \<Rightarrow> string \<Rightarrow> string \<Rightarrow> alert_score \<Rightarrow> nat \<Rightarrow> dedup_key" where
  "alert_key c wallet pair_id risk_score ns =
     \<lparr>dk_source = ''alert_delivery'',
      dk_external_id = wallet @ '':'' @ pair_id @ '':'' @ dc_text c (as_score risk_score) @ '':'' @ dec ns,
      dk_tenant_id = None\<rparr>"

definition ledger_record ::
  "alert_config \<Rightarrow> string \<Rightarrow> string \<Rightarrow> alert_score \<Rightarrow> alert_outcome \<Rightarrow> string \<Rightarrow> string option
     \<Rightarrow> string option \<Rightarrow> alert_world \<Rightarrow> (dedup_error + unit) \<times> alert_world" where
  "ledger_record c wallet pair_id risk_score outcome channel reason idempotency_key w =
     (let key = alert_key c wallet pair_id risk_score (dc_time_ns c (aw_reads w));
          payload = \<lparr>ar_wallet = wallet, ar_pair_id = pair_id, ar_score = Some (as_score risk_score),
                     ar_outcome = Some outcome, ar_channel = channel, ar_reason = reason,
                     ar_idempotency_key = idempotency_key, ar_risk_score = Some risk_score\<rparr>
      in case store_commit (alert_store c) key (Some payload) (aw_db w) of
           (r, db) \<Rightarrow> (r, w\<lparr>aw_db := db, aw_reads := Suc (aw_reads w)\<rparr>))"

definition empty_record :: alert_record where
  "empty_record = \<lparr>ar_wallet = [], ar_pair_id = [], ar_score = None, ar_outcome = None, ar_channel = [],
     ar_reason = None, ar_idempotency_key = None, ar_risk_score = None\<rparr>"

definition records_of :: "alert_config \<Rightarrow> alert_record dedup_row list \<Rightarrow> alert_record list" where
  "records_of c t = map (\<lambda>row. case dr_payload row of None \<Rightarrow> empty_record | Some p \<Rightarrow> p)
     (list_by_source_prefix (dc_eqc c) ''alert_delivery'' t)"

definition all_records ::
  "alert_config \<Rightarrow> alert_world \<Rightarrow> (dedup_error + alert_record list) \<times> alert_world" where
  "all_records c w =
     (case sql_call (\<lambda>t. (Inr (records_of c t), t)) (aw_db w) of (r, db) \<Rightarrow> (r, w\<lparr>aw_db := db\<rparr>))"

definition closes :: "string \<Rightarrow> alert_record \<Rightarrow> bool" where
  "closes key r \<longleftrightarrow> ar_idempotency_key r = Some key \<and> ar_outcome r \<in> Some ` set terminal_outcomes"

definition delivered_in :: "string \<Rightarrow> alert_record list \<Rightarrow> bool" where
  "delivered_in key rs = list_ex (closes key) rs"

definition is_delivered :: "alert_config \<Rightarrow> string \<Rightarrow> alert_world \<Rightarrow> (dedup_error + bool) \<times> alert_world" where
  "is_delivered c key w =
     (case all_records c w of
        (Inl e, w') \<Rightarrow> (Inl e, w') | (Inr rs, w') \<Rightarrow> (Inr (delivered_in key rs), w'))"

definition open_intent :: "alert_record list \<Rightarrow> alert_record \<Rightarrow> string option" where
  "open_intent rs r =
     (case ar_idempotency_key r of
        None \<Rightarrow> None
      | Some key \<Rightarrow>
          if ar_outcome r = Some InFlight \<and> key \<noteq> [] \<and> \<not> list_ex (closes key) rs then Some key else None)"

definition pending_of :: "alert_record list \<Rightarrow> (string, alert_record) dict" where
  "pending_of rs = foldl (\<lambda>d r. case open_intent rs r of None \<Rightarrow> d | Some key \<Rightarrow> dict_set key r d) [] rs"

definition in_flight :: "alert_config \<Rightarrow> alert_world \<Rightarrow> (dedup_error + alert_record list) \<times> alert_world" where
  "in_flight c w =
     (case all_records c w of
        (Inl e, w') \<Rightarrow> (Inl e, w') | (Inr rs, w') \<Rightarrow> (Inr (dict_values (pending_of rs)), w'))"

definition for_wallet_pair ::
  "alert_config \<Rightarrow> string \<Rightarrow> string \<Rightarrow> alert_world \<Rightarrow> (dedup_error + alert_record list) \<times> alert_world" where
  "for_wallet_pair c wallet pair_id w =
     (case all_records c w of
        (Inl e, w') \<Rightarrow> (Inl e, w')
      | (Inr rs, w') \<Rightarrow> (Inr (map (\<lambda>r. r\<lparr>ar_idempotency_key := None, ar_risk_score := None\<rparr>)
           (filter (\<lambda>r. ar_wallet r = wallet \<and> ar_pair_id r = pair_id) rs)), w'))"

subsection \<open>The dispatcher\<close>

datatype alert_error = LedgerError dedup_error | PushFailed | AlertValueError

definition record_if ::
  "alert_config \<Rightarrow> string \<Rightarrow> string \<Rightarrow> alert_score \<Rightarrow> alert_outcome \<Rightarrow> string \<Rightarrow> string option
     \<Rightarrow> string option \<Rightarrow> alert_world \<Rightarrow> (alert_error + unit) \<times> alert_world" where
  "record_if c wallet pair_id risk_score outcome channel reason key w =
     (if dc_ledger c
      then (case ledger_record c wallet pair_id risk_score outcome channel reason key w of
              (Inl e, w') \<Rightarrow> (Inl (LedgerError e), w') | (Inr _, w') \<Rightarrow> (Inr (), w'))
      else (Inr (), w))"

definition starts_with :: "string \<Rightarrow> string \<Rightarrow> bool" where
  "starts_with p s \<longleftrightarrow> take (length p) s = p"

text \<open>The constructor's checks.\<close>

definition dispatcher_init :: "alert_config \<Rightarrow> alert_error + alert_config" where
  "dispatcher_init c =
     (if dc_channel c \<notin> {''stdout'', ''webhook'', ''websocket''} then Inl AlertValueError
      else if dc_channel c = ''webhook'' \<and>
        (case dc_webhook_url c of None \<Rightarrow> True | Some u \<Rightarrow> u = [] \<or> \<not> starts_with ''https://'' u)
      then Inl AlertValueError
      else Inr c)"

definition idempotency_key :: "alert_config \<Rightarrow> string \<Rightarrow> alert_score \<Rightarrow> string \<Rightarrow> clock \<Rightarrow> string" where
  "idempotency_key c wallet risk_score pair_id ts =
     (let window = \<lfloor>ts / of_int (max (dc_cooldown_seconds c) 1)\<rfloor>
      in dc_sha256 c (wallet @ ''|'' @ pair_id @ ''|'' @ dc_text c (as_score risk_score) @ ''|'' @ dec_int window))"

definition deliver_stdout ::
  "alert_config \<Rightarrow> string \<Rightarrow> alert_score \<Rightarrow> string \<Rightarrow> string option \<Rightarrow> alert_world
     \<Rightarrow> (alert_error + unit) \<times> alert_world" where
  "deliver_stdout c wallet risk_score pair_id key w =
     record_if c wallet pair_id risk_score Delivered ''stdout'' None key
       (w\<lparr>aw_out := aw_out w @ [Printed wallet pair_id key]\<rparr>)"

definition write_to_dead_letter ::
  "alert_config \<Rightarrow> string \<Rightarrow> alert_score \<Rightarrow> string \<Rightarrow> string \<Rightarrow> string option \<Rightarrow> alert_world
     \<Rightarrow> (alert_error + unit) \<times> alert_world" where
  "write_to_dead_letter c wallet risk_score pair_id reason key w =
     record_if c wallet pair_id risk_score DeadLettered ''webhook'' (Some reason) key w"

definition post :: "effect \<Rightarrow> alert_world \<Rightarrow> post_reply \<times> alert_world" where
  "post eff w =
     (case aw_replies w of
        [] \<Rightarrow> (HttpOk, w\<lparr>aw_out := aw_out w @ [eff]\<rparr>)
      | r # rs \<Rightarrow> (r, w\<lparr>aw_out := aw_out w @ [eff], aw_replies := rs\<rparr>))"

text \<open>One attempt of the webhook loop: settled with a result, or to be retried (\<open>None\<close>).\<close>

definition webhook_attempt ::
  "alert_config \<Rightarrow> string \<Rightarrow> alert_score \<Rightarrow> string \<Rightarrow> string option \<Rightarrow> alert_world
     \<Rightarrow> (alert_error + unit) option \<times> alert_world" where
  "webhook_attempt c wallet risk_score pair_id key w =
     (case post (Posted wallet pair_id key) w of
        (HttpOk, w') \<Rightarrow>
          (case record_if c wallet pair_id risk_score Delivered ''webhook'' None key w' of (r, w'') \<Rightarrow> (Some r, w''))
      | (HttpError code, w') \<Rightarrow>
          if 400 \<le> code \<and> code < 500
          then (case write_to_dead_letter c wallet risk_score pair_id
                       (''HTTP '' @ dec code @ '' client error'') key w' of (r, w'') \<Rightarrow> (Some r, w''))
          else (None, w')
      | (RequestFailed, w') \<Rightarrow> (None, w'))"

text \<open>The loop; \<open>left\<close> is \<open>max_retries - attempt\<close>. The sleeps between attempts are left out.\<close>

fun webhook_attempts ::
  "alert_config \<Rightarrow> nat \<Rightarrow> string \<Rightarrow> alert_score \<Rightarrow> string \<Rightarrow> string option \<Rightarrow> alert_world
     \<Rightarrow> (alert_error + unit) \<times> alert_world" where
  "webhook_attempts c 0 wallet risk_score pair_id key w =
     (case webhook_attempt c wallet risk_score pair_id key w of
        (Some r, w') \<Rightarrow> (r, w')
      | (None, w') \<Rightarrow> write_to_dead_letter c wallet risk_score pair_id
            (''exhausted '' @ dec (dc_max_retries c) @ '' retries'') key w')"
| "webhook_attempts c (Suc left) wallet risk_score pair_id key w =
     (case webhook_attempt c wallet risk_score pair_id key w of
        (Some r, w') \<Rightarrow> (r, w')
      | (None, w') \<Rightarrow> webhook_attempts c left wallet risk_score pair_id key w')"

definition deliver_webhook ::
  "alert_config \<Rightarrow> string \<Rightarrow> alert_score \<Rightarrow> string \<Rightarrow> string option \<Rightarrow> alert_world
     \<Rightarrow> (alert_error + unit) \<times> alert_world" where
  "deliver_webhook c = webhook_attempts c (dc_max_retries c)"

definition deliver_websocket ::
  "alert_config \<Rightarrow> string \<Rightarrow> alert_score \<Rightarrow> string \<Rightarrow> string option \<Rightarrow> alert_world
     \<Rightarrow> (alert_error + unit) \<times> alert_world" where
  "deliver_websocket c wallet risk_score pair_id key w =
     (case aw_push_fails w of
        True # fs \<Rightarrow> (Inl PushFailed, w\<lparr>aw_push_fails := fs\<rparr>)
      | fs \<Rightarrow> record_if c wallet pair_id risk_score Delivered ''websocket'' None key
                (w\<lparr>aw_out := aw_out w @ [Pushed wallet pair_id key], aw_push_fails := drop 1 fs\<rparr>))"

definition deliver ::
  "alert_config \<Rightarrow> string \<Rightarrow> alert_score \<Rightarrow> string \<Rightarrow> string option \<Rightarrow> alert_world
     \<Rightarrow> (alert_error + unit) \<times> alert_world" where
  "deliver c wallet risk_score pair_id key w =
     (if dc_channel c = ''stdout'' then deliver_stdout c wallet risk_score pair_id key w
      else if dc_channel c = ''webhook'' then deliver_webhook c wallet risk_score pair_id key w
      else if dc_channel c = ''websocket'' then deliver_websocket c wallet risk_score pair_id key w
      else (Inr (), w))"

definition dispatch ::
  "alert_config \<Rightarrow> clock \<Rightarrow> string \<Rightarrow> alert_score \<Rightarrow> string \<Rightarrow> alert_world
     \<Rightarrow> (alert_error + unit) \<times> alert_world" where
  "dispatch c now wallet risk_score pair_id w =
     (if as_score risk_score < dc_threshold c pair_id then (Inr (), w)
      else if (case dict_get (aw_cooldowns w) wallet of None \<Rightarrow> False | Some til \<Rightarrow> now < til) then
        record_if c wallet pair_id risk_score SuppressedCooldown (dc_channel c)
          (Some (''cooldown active until '' @ dc_text_rounded c (the (dict_get (aw_cooldowns w) wallet)))) None w
      else
        (let w1 = w\<lparr>aw_cooldowns := dict_set wallet (now + of_int (dc_cooldown_seconds c)) (aw_cooldowns w)\<rparr>;
             key = idempotency_key c wallet risk_score pair_id now
         in if dc_ledger c then
              (case is_delivered c key w1 of
                 (Inl e, w2) \<Rightarrow> (Inl (LedgerError e), w2)
               | (Inr done, w2) \<Rightarrow>
                   if done then (Inr (), w2)
                   else (case ledger_record c wallet pair_id risk_score InFlight (dc_channel c) None (Some key) w2 of
                           (Inl e, w3) \<Rightarrow> (Inl (LedgerError e), w3)
                         | (Inr _, w3) \<Rightarrow> deliver c wallet risk_score pair_id (Some key) w3))
            else deliver c wallet risk_score pair_id (Some key) w1))"

fun reconcile_each ::
  "alert_config \<Rightarrow> alert_record list \<Rightarrow> nat \<times> nat \<Rightarrow> alert_world \<Rightarrow> (alert_error + nat \<times> nat) \<times> alert_world"
where
  "reconcile_each c [] counts w = (Inr counts, w)"
| "reconcile_each c (r # rs) (redelivered, skipped) w =
     (let risk_score = (case ar_risk_score r of Some s \<Rightarrow> s | None \<Rightarrow> \<lparr>as_score = the (ar_score r), as_fields = []\<rparr>)
      in if ar_channel r = ''webhook'' \<and> dc_channel c = ''webhook'' then
           (case deliver c (ar_wallet r) risk_score (ar_pair_id r) (ar_idempotency_key r) w of
              (Inl e, w') \<Rightarrow> (Inl e, w')
            | (Inr _, w') \<Rightarrow> reconcile_each c rs (redelivered + 1, skipped) w')
         else
           (case record_if c (ar_wallet r) (ar_pair_id r) risk_score ReconciledSkipped (ar_channel r)
                   (Some ''in-flight at crash; channel not idempotent'') (ar_idempotency_key r) w of
              (Inl e, w') \<Rightarrow> (Inl e, w')
            | (Inr _, w') \<Rightarrow> reconcile_each c rs (redelivered, skipped + 1) w'))"

definition reconcile_on_startup ::
  "alert_config \<Rightarrow> alert_world \<Rightarrow> (alert_error + nat \<times> nat) \<times> alert_world" where
  "reconcile_on_startup c w =
     (if \<not> dc_ledger c then (Inr (0, 0), w)
      else (case in_flight c w of
              (Inl e, w') \<Rightarrow> (Inl (LedgerError e), w')
            | (Inr rs, w') \<Rightarrow> reconcile_each c rs (0, 0) w'))"

subsection \<open>The ledger grows by what is recorded\<close>

definition ledger_of :: "alert_config \<Rightarrow> alert_world \<Rightarrow> alert_record list" where
  "ledger_of c w = records_of c (sq_table (aw_db w))"

text \<open>What the proofs take from the outside: the clock's readings differ, a character matches itself.\<close>

definition sane :: "alert_config \<Rightarrow> bool" where
  "sane c \<longleftrightarrow> inj (dc_time_ns c) \<and> (\<forall>ch. dc_eqc c ch ch)"

definition clock_ok :: "alert_config \<Rightarrow> alert_world \<Rightarrow> bool" where
  "clock_ok c w \<longleftrightarrow> (\<forall>n \<ge> aw_reads w. \<forall>wallet pair_id s.
     canonical (alert_key c wallet pair_id s (dc_time_ns c n)) \<notin> set (map dr_key (sq_table (aw_db w))))"

lemma alert_key_time:
  "canonical (alert_key c a b s m) = canonical (alert_key c a' b' s' n) \<Longrightarrow> m = n"
proof -
  have colon: "CHR '':'' \<notin> set (dec k)" for k by (rule dec_no_char) simp
  assume "canonical (alert_key c a b s m) = canonical (alert_key c a' b' s' n)"
  then have "(a @ '':'' @ b @ '':'' @ dc_text c (as_score s)) @ CHR '':'' # dec m =
      (a' @ '':'' @ b' @ '':'' @ dc_text c (as_score s')) @ CHR '':'' # dec n"
    by (simp add: canonical_def alert_key_def)
  then have "dec m = dec n" using split_last_sep [OF colon colon] by blast
  then show "m = n" by simp
qed

lemma like_alert_delivery: "sane c \<Longrightarrow> sql_like (dc_eqc c) (''alert_delivery'' @ ''%'') ''alert_delivery''"
  using sql_like_prefix [of "dc_eqc c" "''alert_delivery''" "[]"] by (simp add: sane_def)

lemma commit_new_row:
  assumes "get_row k t = None"
  shows "sql_commit_impl id k p now t = (Inr (), t @ [mark_committed now p (staged_row k now)])"
  using assms by (simp add: sql_commit_impl_def)

lemma ledger_record_cases:
  assumes "sane c" and "clock_ok c w"
    and "ledger_record c wallet pair_id s oc ch reason key w = (r, w')"
  shows "clock_ok c w' \<and> aw_out w' = aw_out w \<and> aw_cooldowns w' = aw_cooldowns w \<and>
    ledger_of c w' = ledger_of c w @ (case r of Inl _ \<Rightarrow> [] | Inr _ \<Rightarrow>
      [\<lparr>ar_wallet = wallet, ar_pair_id = pair_id, ar_score = Some (as_score s), ar_outcome = Some oc,
        ar_channel = ch, ar_reason = reason, ar_idempotency_key = key, ar_risk_score = Some s\<rparr>])"
proof -
  let ?k = "alert_key c wallet pair_id s (dc_time_ns c (aw_reads w))"
  let ?p = "\<lparr>ar_wallet = wallet, ar_pair_id = pair_id, ar_score = Some (as_score s), ar_outcome = Some oc,
        ar_channel = ch, ar_reason = reason, ar_idempotency_key = key, ar_risk_score = Some s\<rparr>"
  let ?fn = "sql_commit_impl id ?k (Some ?p) (sq_now (aw_db w))"
  have absent: "get_row ?k (sq_table (aw_db w)) = None"
    using assms(2) by (simp add: get_row_def row_where_None clock_ok_def)
  obtain db where call: "sql_call ?fn (aw_db w) = (r, db)" and w': "w' = w\<lparr>aw_db := db, aw_reads := Suc (aw_reads w)\<rparr>"
    using assms(3) by (auto simp: ledger_record_def Let_def alert_store_def store_commit_def sql_backend_def
        split: prod.splits)
  from call show ?thesis
  proof (cases rule: sql_call_cases [of ?fn "aw_db w"])
    case (ran r1 t fs)
    then have r: "r = Inr ()" and t: "sq_table db = sq_table (aw_db w) @
        [mark_committed (sq_now (aw_db w)) (Some ?p) (staged_row ?k (sq_now (aw_db w)))]"
      using call commit_new_row [OF absent] by auto
    have "clock_ok c w'"
      unfolding clock_ok_def
    proof (intro allI impI)
      fix n wallet' pair' s' assume n: "aw_reads w' \<le> n"
      then have "dc_time_ns c n \<noteq> dc_time_ns c (aw_reads w)"
        using assms(1) w' by (auto simp: sane_def dest: injD)
      then have "canonical (alert_key c wallet' pair' s' (dc_time_ns c n)) \<noteq> canonical ?k"
        using alert_key_time by blast
      moreover have "canonical (alert_key c wallet' pair' s' (dc_time_ns c n)) \<notin>
          set (map dr_key (sq_table (aw_db w)))"
        using assms(2) n w' unfolding clock_ok_def by simp
      ultimately show "canonical (alert_key c wallet' pair' s' (dc_time_ns c n)) \<notin>
          set (map dr_key (sq_table (aw_db w')))"
        by (simp add: w' t)
    qed
    moreover have "ledger_of c w' = ledger_of c w @ [?p]"
      using like_alert_delivery [OF assms(1)]
      by (simp add: ledger_of_def records_of_def list_by_source_prefix_def w' t mark_committed_def
          staged_row_def alert_key_def)
    ultimately show ?thesis using r w' by simp
  next
    case (gave_up fs)
    then have "r = Inl DbOperationalError" "sq_table db = sq_table (aw_db w)" using call by auto
    then show ?thesis using assms(2) w' by (simp add: clock_ok_def ledger_of_def)
  qed
qed

lemma sql_read:
  assumes "sql_call (\<lambda>t. (Inr (f t), t)) w = (r, w')"
  shows "sq_table w' = sq_table w" and "r = Inr x \<Longrightarrow> x = f (sq_table w)"
proof -
  consider fs where "with_retry 0 (\<lambda>t. (Inr (f t) :: dedup_error + _, t)) (sq_faults w) (sq_table w)
        = ((Inr (f (sq_table w)), sq_table w), fs)"
    | fs where "with_retry 0 (\<lambda>t. (Inr (f t) :: dedup_error + _, t)) (sq_faults w) (sq_table w)
        = ((Inl DbOperationalError, sq_table w), fs)"
    using with_retry_cases [of 0 "\<lambda>t. (Inr (f t) :: dedup_error + _, t)" "sq_faults w" "sq_table w"] by blast
  then show "sq_table w' = sq_table w" and "r = Inr x \<Longrightarrow> x = f (sq_table w)"
    using assms by (cases; auto simp: sql_call_def)+
qed

lemma all_records_cases:
  assumes "all_records c w = (r, w')"
  shows "ledger_of c w' = ledger_of c w" and "clock_ok c w' = clock_ok c w"
    and "aw_out w' = aw_out w" and "aw_cooldowns w' = aw_cooldowns w"
    and "\<And>rs. r = Inr rs \<Longrightarrow> rs = ledger_of c w"
  using assms
proof -
  obtain db where call: "sql_call (\<lambda>t. (Inr (records_of c t), t)) (aw_db w) = (r, db)"
    and w': "w' = w\<lparr>aw_db := db\<rparr>"
    using assms by (auto simp: all_records_def split: prod.splits)
  note db = sql_read [OF call]
  show "ledger_of c w' = ledger_of c w" and "clock_ok c w' = clock_ok c w"
    and "aw_out w' = aw_out w" and "aw_cooldowns w' = aw_cooldowns w"
    by (simp_all add: w' db(1) ledger_of_def clock_ok_def)
  show "rs = ledger_of c w" if "r = Inr rs" for rs
    using db(2) [OF that] by (simp add: ledger_of_def)
qed

text \<open>
  What any delivery does: the ledger grows by outcomes that are no intents, and what leaves the
  process is for this wallet under this key.
\<close>

fun effect_key :: "effect \<Rightarrow> string option" where
  "effect_key (Printed w p k) = k"
| "effect_key (Posted w p k) = k"
| "effect_key (Pushed w p k) = k"

fun effect_wallet :: "effect \<Rightarrow> string" where
  "effect_wallet (Printed w p k) = w"
| "effect_wallet (Posted w p k) = w"
| "effect_wallet (Pushed w p k) = w"

definition delivery :: "alert_config \<Rightarrow> string \<Rightarrow> string option \<Rightarrow> alert_world \<Rightarrow> alert_world \<Rightarrow> bool" where
  "delivery c wallet key w w' \<longleftrightarrow> clock_ok c w' \<and> aw_cooldowns w' = aw_cooldowns w \<and>
     (\<exists>new effs. ledger_of c w' = ledger_of c w @ new \<and> aw_out w' = aw_out w @ effs \<and>
        (\<forall>r \<in> set new. ar_outcome r \<noteq> Some InFlight) \<and>
        (\<forall>e \<in> set effs. effect_key e = key \<and> effect_wallet e = wallet))"

lemma delivery_trans: "delivery c wa k w w1 \<Longrightarrow> delivery c wa k w1 w2 \<Longrightarrow> delivery c wa k w w2"
  unfolding delivery_def by (elim conjE exE) (auto intro!: exI)

lemma record_if_delivery:
  assumes "sane c" and "clock_ok c w" and "oc \<noteq> InFlight"
    and "record_if c wallet pair_id s oc ch reason key w = (r, w')"
  shows "delivery c wallet k w w'"
    and "r = Inr () \<Longrightarrow> dc_ledger c \<Longrightarrow> key = Some x \<Longrightarrow> oc \<in> set terminal_outcomes \<Longrightarrow>
      delivered_in x (ledger_of c w')"
proof -
  obtain r1 w1 where rec: "ledger_record c wallet pair_id s oc ch reason key w = (r1, w1)" by fastforce
  note grown = ledger_record_cases [OF assms(1,2) rec]
  show "delivery c wallet k w w'"
    using grown assms(2-4) rec
    by (cases r1) (auto simp: record_if_def delivery_def split: if_splits)
  show "delivered_in x (ledger_of c w')"
    if "r = Inr ()" "dc_ledger c" "key = Some x" "oc \<in> set terminal_outcomes"
    using grown assms(4) rec that
    by (cases r1) (auto simp: record_if_def delivered_in_def closes_def)
qed

text \<open>A delivery that returns has closed the intent, if there is a ledger.\<close>

definition closed_after ::
  "alert_config \<Rightarrow> string option \<Rightarrow> alert_error + unit \<Rightarrow> alert_world \<Rightarrow> bool" where
  "closed_after c key r w \<longleftrightarrow>
     (\<forall>x. r = Inr () \<longrightarrow> dc_ledger c \<longrightarrow> key = Some x \<longrightarrow> delivered_in x (ledger_of c w))"

lemma record_if_closes:
  assumes "sane c" and "clock_ok c w" and "oc \<in> set terminal_outcomes"
    and "record_if c wallet pair_id s oc ch reason key w = (r, w')"
  shows "delivery c wallet k w w' \<and> closed_after c key r w'"
  using record_if_delivery [OF assms(1,2) _ assms(4)] assms(3)
  by (auto simp: closed_after_def terminal_outcomes_def)

lemma sent_delivery:
  assumes "clock_ok c w" and "aw_db w' = aw_db w" and "aw_reads w' = aw_reads w"
    and "aw_cooldowns w' = aw_cooldowns w" and "aw_out w' = aw_out w @ [eff]"
    and "effect_key eff = key" and "effect_wallet eff = wallet"
  shows "clock_ok c w' \<and> delivery c wallet key w w'"
  using assms by (simp add: clock_ok_def delivery_def ledger_of_def)

lemma delivery_clock: "delivery c wa k w w' \<Longrightarrow> clock_ok c w'"
  by (simp add: delivery_def)

lemma post_delivery:
  assumes "clock_ok c w" and "post (Posted wallet pair_id key) w = (reply, w')"
  shows "clock_ok c w' \<and> delivery c wallet key w w'"
  using assms(2) by (intro sent_delivery [OF assms(1), where eff = "Posted wallet pair_id key"])
    (auto simp: post_def split: list.splits)

lemma webhook_attempt_delivery:
  assumes "sane c" and "clock_ok c w" and "webhook_attempt c wallet s pair_id key w = (o1, w')"
  shows "delivery c wallet key w w' \<and> (case o1 of None \<Rightarrow> True | Some r \<Rightarrow> closed_after c key r w')"
proof -
  obtain reply w1 where p: "post (Posted wallet pair_id key) w = (reply, w1)" by fastforce
  note w1 = post_delivery [OF assms(2) p]
  have rec: "delivery c wallet key w w2 \<and> closed_after c key r w2"
    if "record_if c wallet pair_id s oc ch reason key w1 = (r, w2)" and "oc \<in> set terminal_outcomes"
    for oc ch reason r w2
    using record_if_closes [OF assms(1) _ that(2,1)] w1 delivery_trans by blast
  show ?thesis
    using assms(3) p w1 rec
    by (auto simp: webhook_attempt_def write_to_dead_letter_def terminal_outcomes_def
        split: post_reply.splits prod.splits if_splits)
qed

lemma webhook_attempts_delivery:
  assumes "sane c" and "clock_ok c w" and "webhook_attempts c left wallet s pair_id key w = (r, w')"
  shows "delivery c wallet key w w' \<and> closed_after c key r w'"
  using assms(2,3)
proof (induction left arbitrary: w)
  case 0
  obtain o1 w1 where one: "webhook_attempt c wallet s pair_id key w = (o1, w1)" by fastforce
  note w1 = webhook_attempt_delivery [OF assms(1) 0(1) one]
  have "DeadLettered \<in> set terminal_outcomes" by (simp add: terminal_outcomes_def)
  with 0 one w1 show ?case
    using record_if_closes [OF assms(1), of w1 DeadLettered wallet pair_id s] delivery_clock delivery_trans
    by (auto simp: write_to_dead_letter_def split: option.splits)
next
  case (Suc left)
  obtain o1 w1 where one: "webhook_attempt c wallet s pair_id key w = (o1, w1)" by fastforce
  note w1 = webhook_attempt_delivery [OF assms(1) Suc.prems(1) one]
  show ?case
  proof (cases o1)
    case None
    then have "webhook_attempts c left wallet s pair_id key w1 = (r, w')" using Suc.prems(2) one by simp
    with Suc.IH [of w1] w1 delivery_clock delivery_trans show ?thesis by blast
  next
    case (Some r1)
    then show ?thesis using Suc.prems(2) one w1 by simp
  qed
qed

lemma deliver_delivery:
  assumes "sane c" and "clock_ok c w" and "deliver c wallet s pair_id key w = (r, w')"
    and "dc_channel c \<in> {''stdout'', ''webhook'', ''websocket''}"
  shows "delivery c wallet key w w' \<and> closed_after c key r w'"
proof -
  have tm: "Delivered \<in> set terminal_outcomes" by (simp add: terminal_outcomes_def)
  have rec: "delivery c wallet key w w2 \<and> closed_after c key r2 w2"
    if "clock_ok c w1 \<and> delivery c wallet key w w1"
      and "record_if c wallet pair_id s Delivered ch None key w1 = (r2, w2)" for ch w1 r2 w2
    using record_if_closes [OF assms(1) _ tm that(2)] that(1) delivery_trans by blast
  consider "dc_channel c = ''stdout''" | "dc_channel c = ''webhook''" | "dc_channel c = ''websocket''"
    using assms(4) by auto
  then show ?thesis
  proof cases
    case 1
    then have "record_if c wallet pair_id s Delivered ''stdout'' None key
        (w\<lparr>aw_out := aw_out w @ [Printed wallet pair_id key]\<rparr>) = (r, w')"
      using assms(3) by (simp add: deliver_def deliver_stdout_def)
    then show ?thesis
      by (rule rec [rotated]) (rule sent_delivery [OF assms(2), where eff = "Printed wallet pair_id key"]; simp)
  next
    case 2
    then show ?thesis
      using assms(3) webhook_attempts_delivery [OF assms(1,2)] by (simp add: deliver_def deliver_webhook_def)
  next
    case 3
    show ?thesis
    proof (cases "\<exists>fs. aw_push_fails w = True # fs")
      case True
      then obtain fs where fs: "r = Inl PushFailed" "w' = w\<lparr>aw_push_fails := fs\<rparr>"
        using 3 assms(3) by (auto simp: deliver_def deliver_websocket_def)
      moreover have "clock_ok c (w\<lparr>aw_push_fails := fs\<rparr>)" using assms(2) by (simp add: clock_ok_def)
      ultimately show ?thesis by (simp add: delivery_def ledger_of_def closed_after_def)
    next
      case False
      then have "record_if c wallet pair_id s Delivered ''websocket'' None key
          (w\<lparr>aw_out := aw_out w @ [Pushed wallet pair_id key], aw_push_fails := drop 1 (aw_push_fails w)\<rparr>) = (r, w')"
        using 3 assms(3)
        by (auto simp: deliver_def deliver_websocket_def split: list.splits bool.splits)
      then show ?thesis
        by (rule rec [rotated]) (rule sent_delivery [OF assms(2), where eff = "Pushed wallet pair_id key"]; simp)
    qed
  qed
qed

subsection \<open>Every effect has its intent\<close>

definition intent_in :: "string option \<Rightarrow> alert_record list \<Rightarrow> bool" where
  "intent_in key rs = list_ex (\<lambda>r. ar_idempotency_key r = key \<and> ar_outcome r = Some InFlight) rs"

definition alert_inv :: "alert_config \<Rightarrow> alert_world \<Rightarrow> bool" where
  "alert_inv c w \<longleftrightarrow> clock_ok c w \<and> (\<forall>e \<in> set (aw_out w). intent_in (effect_key e) (ledger_of c w))"

lemma intent_in_append [simp]: "intent_in k (rs @ rs') = (intent_in k rs \<or> intent_in k rs')"
  by (simp add: intent_in_def)

lemma delivery_inv:
  assumes "alert_inv c w" and "delivery c wallet key w w'" and "intent_in key (ledger_of c w)"
  shows "alert_inv c w'"
  using assms by (auto simp: alert_inv_def delivery_def)

definition well_set :: "alert_config \<Rightarrow> bool" where
  "well_set c \<longleftrightarrow> sane c \<and> dc_ledger c \<and> dispatcher_init c = Inr c"

lemma well_set_channel: "well_set c \<Longrightarrow> dc_channel c \<in> {''stdout'', ''webhook'', ''websocket''}"
  by (auto simp: well_set_def dispatcher_init_def split: if_splits)

lemma dispatch_inv:
  assumes "well_set c" and "alert_inv c w"
  shows "alert_inv c (snd (dispatch c now wallet s pair_id w))"
proof -
  note sane = assms(1) [unfolded well_set_def, THEN conjunct1]
  have led: "dc_ledger c" using assms(1) by (simp add: well_set_def)
  let ?w1 = "w\<lparr>aw_cooldowns := dict_set wallet (now + of_int (dc_cooldown_seconds c)) (aw_cooldowns w)\<rparr>"
  let ?key = "idempotency_key c wallet s pair_id now"
  have w1: "alert_inv c ?w1" using assms(2) by (simp add: alert_inv_def clock_ok_def ledger_of_def)
  consider (below) "as_score s < dc_threshold c pair_id"
    | (cooling) til where "\<not> as_score s < dc_threshold c pair_id" "dict_get (aw_cooldowns w) wallet = Some til" "now < til"
    | (go) "\<not> as_score s < dc_threshold c pair_id"
        "\<not> (case dict_get (aw_cooldowns w) wallet of None \<Rightarrow> False | Some til \<Rightarrow> now < til)"
    by (cases "dict_get (aw_cooldowns w) wallet") auto
  then show ?thesis
  proof cases
    case below
    then show ?thesis using assms(2) by (simp add: dispatch_def)
  next
    case cooling
    obtain r w' where rec: "record_if c wallet pair_id s SuppressedCooldown (dc_channel c)
        (Some (''cooldown active until '' @ dc_text_rounded c til)) None w = (r, w')" by fastforce
    have "clock_ok c w" using assms(2) by (simp add: alert_inv_def)
    from record_if_delivery(1) [OF sane this _ rec] have "delivery c wallet None w w'" by simp
    moreover have "aw_out w' = aw_out w"
      using rec led ledger_record_cases [OF sane \<open>clock_ok c w\<close>]
      by (auto simp: record_if_def split: prod.splits sum.splits)
    ultimately have "alert_inv c w'" using assms(2) by (auto simp: alert_inv_def delivery_def)
    then show ?thesis using cooling rec by (simp add: dispatch_def)
  next
    case go
    obtain d w2 where del: "is_delivered c ?key ?w1 = (d, w2)" by fastforce
    obtain rs where all: "all_records c ?w1 = (rs, w2)"
      using del by (auto simp: is_delivered_def split: prod.splits sum.splits)
    note kept = all_records_cases [OF all]
    have w2: "alert_inv c w2" using w1 by (simp add: alert_inv_def kept(1-3))
    show ?thesis
    proof (cases "d = Inr False")
      case False
      then have "snd (dispatch c now wallet s pair_id w) = w2"
        using go led del by (auto simp: dispatch_def Let_def split: sum.splits)
      then show ?thesis using w2 by simp
    next
      case True
      obtain r w3 where rec: "ledger_record c wallet pair_id s InFlight (dc_channel c) None (Some ?key) w2 = (r, w3)"
        by fastforce
      have "clock_ok c w2" using w2 by (simp add: alert_inv_def)
      note rc = ledger_record_cases [OF sane this rec]
      have w3: "alert_inv c w3" using w2 rc by (auto simp: alert_inv_def)
      show ?thesis
      proof (cases r)
        case (Inl e)
        then show ?thesis using go led del True rec w3 by (simp add: dispatch_def Let_def)
      next
        case (Inr u)
        obtain r4 w4 where deliv: "deliver c wallet s pair_id (Some ?key) w3 = (r4, w4)" by fastforce
        have "clock_ok c w3" using w3 by (simp add: alert_inv_def)
        note d4 = deliver_delivery [OF sane this deliv well_set_channel [OF assms(1)]]
        have "intent_in (Some ?key) (ledger_of c w3)" using rc Inr by (simp add: intent_in_def)
        then have "alert_inv c w4" using d4 delivery_inv [OF w3] by blast
        then show ?thesis using go led del True rec Inr deliv by (simp add: dispatch_def Let_def)
      qed
    qed
  qed
qed

subsection \<open>Reconciliation closes every intent\<close>

lemma pending_fold:
  fixes f :: "alert_record \<Rightarrow> string option"
  defines "step \<equiv> \<lambda>d r. case f r of None \<Rightarrow> d | Some key \<Rightarrow> dict_set key r d"
  shows "dict_ok d \<Longrightarrow> dict_ok (foldl step d xs)"
    and "dict_get (foldl step d xs) k = Some r \<Longrightarrow>
      dict_get d k = Some r \<or> r \<in> set xs \<and> f r = Some k"
    and "dict_get d k \<noteq> None \<or> (\<exists>r \<in> set xs. f r = Some k) \<Longrightarrow> dict_get (foldl step d xs) k \<noteq> None"
proof -
  show "dict_ok d \<Longrightarrow> dict_ok (foldl step d xs)"
    by (induction xs arbitrary: d) (auto simp: step_def split: option.split)
  show "dict_get (foldl step d xs) k = Some r \<Longrightarrow>
      dict_get d k = Some r \<or> r \<in> set xs \<and> f r = Some k"
  proof (induction xs arbitrary: d)
    case (Cons x xs)
    then have "dict_get (step d x) k = Some r \<or> r \<in> set xs \<and> f r = Some k" by simp
    then show ?case by (cases "f x") (auto simp: step_def split: if_splits)
  qed simp
  show "dict_get d k \<noteq> None \<or> (\<exists>r \<in> set xs. f r = Some k) \<Longrightarrow> dict_get (foldl step d xs) k \<noteq> None"
  proof (induction xs arbitrary: d)
    case (Cons x xs)
    have "dict_get (step d x) k \<noteq> None \<or> (\<exists>r \<in> set xs. f r = Some k)"
      using Cons.prems by (cases "f x") (auto simp: step_def)
    from Cons.IH [OF this] show ?case by simp
  qed simp
qed

lemma pending_values:
  "r \<in> set (dict_values (pending_of rs)) \<Longrightarrow> r \<in> set rs \<and> (\<exists>k. open_intent rs r = Some k)"
proof -
  assume r: "r \<in> set (dict_values (pending_of rs))"
  have "dict_ok (pending_of rs)" unfolding pending_of_def by (rule pending_fold(1)) simp
  from iffD1 [OF dict_values_iff [OF this, of r] r]
  obtain k where "dict_get (pending_of rs) k = Some r" by (rule exE)
  then have "r \<in> set rs \<and> open_intent rs r = Some k"
    using pending_fold(2) [of "open_intent rs" "[]" rs k r] by (simp add: pending_of_def)
  then show "r \<in> set rs \<and> (\<exists>k. open_intent rs r = Some k)" by blast
qed

lemma open_is_pending:
  assumes "r \<in> set rs" and "open_intent rs r = Some k"
  shows "\<exists>r' \<in> set (dict_values (pending_of rs)). ar_idempotency_key r' = Some k"
proof -
  have "dict_get (pending_of rs) k \<noteq> None"
    unfolding pending_of_def by (rule pending_fold(3)) (use assms in blast)
  then obtain r' where r': "dict_get (pending_of rs) k = Some r'" by blast
  then have "open_intent rs r' = Some k"
    using pending_fold(2) [of "open_intent rs" "[]" rs k r'] by (simp add: pending_of_def)
  then have "ar_idempotency_key r' = Some k" by (auto simp: open_intent_def split: option.splits if_splits)
  with dict_get_in_values [OF r'] show ?thesis by blast
qed

lemma no_pending: "(\<And>r. r \<in> set rs \<Longrightarrow> open_intent rs r = None) \<Longrightarrow> pending_of rs = []"
proof -
  assume "\<And>r. r \<in> set rs \<Longrightarrow> open_intent rs r = None"
  then have "foldl (\<lambda>d r. case open_intent rs r of None \<Rightarrow> d | Some key \<Rightarrow> dict_set key r d) [] xs = []"
    if "set xs \<subseteq> set rs" for xs
    using that by (induction xs) auto
  then show ?thesis by (simp add: pending_of_def)
qed

lemma open_intentD:
  "open_intent rs r = Some k \<Longrightarrow>
     ar_idempotency_key r = Some k \<and> ar_outcome r = Some InFlight \<and> \<not> delivered_in k rs"
  by (auto simp: open_intent_def delivered_in_def split: option.splits if_splits)

lemma reconcile_each_spec:
  assumes "well_set c" and "alert_inv c w"
    and "\<forall>r \<in> set rs. \<exists>k. ar_idempotency_key r = Some k \<and> intent_in (Some k) (ledger_of c w)"
    and "reconcile_each c rs counts w = (res, w')"
  shows "alert_inv c w' \<and> (\<exists>new. ledger_of c w' = ledger_of c w @ new \<and>
      (\<forall>r \<in> set new. ar_outcome r \<noteq> Some InFlight)) \<and>
    (\<forall>n m. res = Inr (n, m) \<longrightarrow> n + m = fst counts + snd counts + length rs \<and>
      (\<forall>r \<in> set rs. \<forall>k. ar_idempotency_key r = Some k \<longrightarrow> delivered_in k (ledger_of c w')))"
  using assms(2-4)
proof (induction rs arbitrary: w counts)
  case Nil
  then show ?case by (cases counts) auto
next
  case (Cons r rs)
  note sane = assms(1) [unfolded well_set_def, THEN conjunct1]
  have led: "dc_ledger c" using assms(1) by (simp add: well_set_def)
  obtain n0 m0 where counts: "counts = (n0, m0)" by fastforce
  have cl: "clock_ok c w" using Cons.prems(1) by (simp add: alert_inv_def)
  obtain k where k: "ar_idempotency_key r = Some k" "intent_in (Some k) (ledger_of c w)"
    using Cons.prems(2) by auto
  let ?s = "case ar_risk_score r of Some s \<Rightarrow> s | None \<Rightarrow> \<lparr>as_score = the (ar_score r), as_fields = []\<rparr>"
  obtain e w1 n1 m1 where one: "delivery c (ar_wallet r) (Some k) w w1" "closed_after c (Some k) e w1"
    and n1: "n1 + m1 = Suc (n0 + m0)"
    and rest: "reconcile_each c (r # rs) counts w =
      (case e of Inl x \<Rightarrow> (Inl x, w1) | Inr _ \<Rightarrow> reconcile_each c rs (n1, m1) w1)"
  proof (cases "ar_channel r = ''webhook'' \<and> dc_channel c = ''webhook''")
    case True
    obtain e w1 where d: "deliver c (ar_wallet r) ?s (ar_pair_id r) (Some k) w = (e, w1)" by fastforce
    note deliver_delivery [OF sane cl d well_set_channel [OF assms(1)]]
    moreover have "reconcile_each c (r # rs) counts w =
      (case e of Inl x \<Rightarrow> (Inl x, w1) | Inr _ \<Rightarrow> reconcile_each c rs (n0 + 1, m0) w1)"
      using True d k counts by (simp add: Let_def)
    ultimately show ?thesis using that [of w1 e "n0 + 1" m0] by simp
  next
    case False
    obtain e w1 where d: "record_if c (ar_wallet r) (ar_pair_id r) ?s ReconciledSkipped (ar_channel r)
        (Some ''in-flight at crash; channel not idempotent'') (Some k) w = (e, w1)" by fastforce
    have "ReconciledSkipped \<in> set terminal_outcomes" by (simp add: terminal_outcomes_def)
    note record_if_closes [OF sane cl this d]
    moreover have "reconcile_each c (r # rs) counts w =
      (case e of Inl x \<Rightarrow> (Inl x, w1) | Inr _ \<Rightarrow> reconcile_each c rs (n0, m0 + 1) w1)"
      using d k(1) by (simp add: counts Let_def if_not_P [OF False] split del: if_split)
    ultimately show ?thesis using that [of w1 e n0 "m0 + 1"] by simp
  qed
  have w1: "alert_inv c w1" using delivery_inv [OF Cons.prems(1) one(1) k(2)] .
  obtain new where new: "ledger_of c w1 = ledger_of c w @ new" "\<forall>r \<in> set new. ar_outcome r \<noteq> Some InFlight"
    using one(1) by (auto simp: delivery_def)
  show ?case
  proof (cases e)
    case (Inl x)
    then show ?thesis using rest Cons.prems(3) w1 new by auto
  next
    case (Inr u)
    then have "reconcile_each c rs (n1, m1) w1 = (res, w')" using rest Cons.prems(3) by simp
    note IH = Cons.IH [OF w1 _ this]
    have "\<forall>r \<in> set rs. \<exists>k. ar_idempotency_key r = Some k \<and> intent_in (Some k) (ledger_of c w1)"
      using Cons.prems(2) new(1) by auto
    note IH = IH [OF this]
    have "delivered_in k (ledger_of c w1)"
      using one(2) Inr led by (simp add: closed_after_def)
    then have "delivered_in k (ledger_of c w')" using IH by (auto simp: delivered_in_def)
    with IH new k n1 counts show ?thesis by auto
  qed
qed

lemma reconcile_spec:
  assumes "well_set c" and "alert_inv c w" and "reconcile_on_startup c w = (res, w')"
  shows "alert_inv c w'"
    and "res = Inr (n, m) \<Longrightarrow> n + m = length (pending_of (ledger_of c w)) \<and> pending_of (ledger_of c w') = []"
proof -
  have led: "dc_ledger c" using assms(1) by (simp add: well_set_def)
  obtain rs w1 where all: "all_records c w = (rs, w1)" by fastforce
  note kept = all_records_cases [OF all]
  have w1: "alert_inv c w1" using assms(2) by (simp add: alert_inv_def kept(1-3))
  let ?L = "ledger_of c w"
  have main: "alert_inv c w' \<and> (\<forall>n m. res = Inr (n, m) \<longrightarrow>
      n + m = length (pending_of ?L) \<and> pending_of (ledger_of c w') = [])"
  proof (cases rs)
    case (Inl e)
    then show ?thesis using assms(3) led all w1 by (auto simp: reconcile_on_startup_def in_flight_def)
  next
    case (Inr recs)
    then have "recs = ?L" using kept(5) by simp
    then have run: "reconcile_each c (dict_values (pending_of ?L)) (0, 0) w1 = (res, w')"
      using assms(3) led all Inr by (simp add: reconcile_on_startup_def in_flight_def)
    have keyed: "\<forall>r \<in> set (dict_values (pending_of ?L)).
        \<exists>k. ar_idempotency_key r = Some k \<and> intent_in (Some k) (ledger_of c w1)"
    proof
      fix r assume "r \<in> set (dict_values (pending_of ?L))"
      from pending_values [OF this] obtain k where "r \<in> set ?L" "open_intent ?L r = Some k" by blast
      with open_intentD [of ?L r k] show "\<exists>k. ar_idempotency_key r = Some k \<and> intent_in (Some k) (ledger_of c w1)"
        by (auto simp: kept(1) intent_in_def list_ex_iff)
    qed
    note spec = reconcile_each_spec [OF assms(1) w1 keyed run]
    show ?thesis
    proof (intro conjI allI impI)
      fix n m assume ok: "res = Inr (n, m)"
      show "n + m = length (pending_of ?L)" using spec ok by simp
      obtain new where new: "ledger_of c w' = ?L @ new" "\<forall>r \<in> set new. ar_outcome r \<noteq> Some InFlight"
        using spec kept(1) by auto
      show "pending_of (ledger_of c w') = []"
      proof (rule no_pending, rule ccontr)
        fix r assume r: "r \<in> set (ledger_of c w')" and "open_intent (ledger_of c w') r \<noteq> None"
        then obtain k where k: "open_intent (ledger_of c w') r = Some k" by blast
        note o = open_intentD [OF k]
        then have "r \<in> set ?L" using r new by auto
        moreover have "open_intent ?L r = Some k"
          using k new(1) by (auto simp: open_intent_def split: option.splits if_splits)
        ultimately obtain r' where "r' \<in> set (dict_values (pending_of ?L))" "ar_idempotency_key r' = Some k"
          using open_is_pending by blast
        then have "delivered_in k (ledger_of c w')" using spec ok by blast
        with o show False by simp
      qed
    qed (use spec in blast)
  qed
  then show "alert_inv c w'" and "res = Inr (n, m) \<Longrightarrow>
      n + m = length (pending_of (ledger_of c w)) \<and> pending_of (ledger_of c w') = []" by blast+
qed

subsection \<open>Cooldowns\<close>

definition cooling :: "alert_world \<Rightarrow> string \<Rightarrow> clock \<Rightarrow> bool" where
  "cooling w wallet now = (case dict_get (aw_cooldowns w) wallet of None \<Rightarrow> False | Some til \<Rightarrow> now < til)"

lemma dispatch_effects:
  assumes "well_set c" and "alert_inv c w"
  shows "let w' = snd (dispatch c now wa s pair_id w) in
    aw_cooldowns w' = aw_cooldowns w \<and> aw_out w' = aw_out w \<or>
    \<not> cooling w wa now \<and>
    aw_cooldowns w' = dict_set wa (now + of_int (dc_cooldown_seconds c)) (aw_cooldowns w) \<and>
    (\<exists>effs. aw_out w' = aw_out w @ effs \<and> (\<forall>e \<in> set effs. effect_wallet e = wa))"
proof -
  note sane = assms(1) [unfolded well_set_def, THEN conjunct1]
  have led: "dc_ledger c" using assms(1) by (simp add: well_set_def)
  have cl: "clock_ok c w" using assms(2) by (simp add: alert_inv_def)
  let ?w1 = "w\<lparr>aw_cooldowns := dict_set wa (now + of_int (dc_cooldown_seconds c)) (aw_cooldowns w)\<rparr>"
  let ?key = "idempotency_key c wa s pair_id now"
  have rec: "aw_out w' = aw_out w \<and> aw_cooldowns w' = aw_cooldowns w"
    if "record_if c wa pair_id s oc ch reason key w = (r, w')" for oc ch reason key r w'
    using that led ledger_record_cases [OF sane cl]
    by (auto simp: record_if_def split: prod.splits sum.splits)
  show ?thesis
  proof (cases "as_score s < dc_threshold c pair_id \<or> cooling w wa now")
    case True
    then show ?thesis
      using rec [OF prod.collapse [symmetric]] by (auto simp: dispatch_def cooling_def Let_def)
  next
    case False
    obtain d w2 where del: "is_delivered c ?key ?w1 = (d, w2)" by fastforce
    obtain rs where all: "all_records c ?w1 = (rs, w2)"
      using del by (auto simp: is_delivered_def split: prod.splits sum.splits)
    note kept = all_records_cases [OF all]
    have cl2: "clock_ok c w2" using cl kept(2) by (simp add: clock_ok_def)
    show ?thesis
    proof (cases "d = Inr False")
      case d: False
      then have "snd (dispatch c now wa s pair_id w) = w2"
        using False led del by (auto simp: dispatch_def cooling_def Let_def split: sum.splits)
      then show ?thesis using kept False by simp
    next
      case True
      obtain r w3 where rec3: "ledger_record c wa pair_id s InFlight (dc_channel c) None (Some ?key) w2 = (r, w3)"
        by fastforce
      note rc = ledger_record_cases [OF sane cl2 rec3]
      obtain r4 w4 where deliv: "deliver c wa s pair_id (Some ?key) w3 = (r4, w4)" by fastforce
      have "snd (dispatch c now wa s pair_id w) = (case r of Inl _ \<Rightarrow> w3 | Inr _ \<Rightarrow> w4)"
        using False led del True rec3 deliv
        by (cases r) (auto simp: dispatch_def cooling_def Let_def)
      then show ?thesis
        using deliver_delivery [OF sane _ deliv well_set_channel [OF assms(1)]] rc kept False
        by (auto simp: delivery_def Let_def split: sum.splits)
    qed
  qed
qed

definition sent_for :: "string \<Rightarrow> alert_world \<Rightarrow> effect list" where
  "sent_for wallet w = filter (\<lambda>e. effect_wallet e = wallet) (aw_out w)"

type_synonym dispatch_call = "clock \<times> string \<times> alert_score \<times> string"

definition dispatch_all :: "alert_config \<Rightarrow> dispatch_call list \<Rightarrow> alert_world \<Rightarrow> alert_world" where
  "dispatch_all c calls w = foldl (\<lambda>w (now, wallet, s, pair_id). snd (dispatch c now wallet s pair_id w)) w calls"

datatype alert_event = Dispatched dispatch_call | Reconciled

fun alert_step :: "alert_config \<Rightarrow> alert_world \<Rightarrow> alert_event \<Rightarrow> alert_world" where
  "alert_step c w (Dispatched (now, wallet, s, pair_id)) = snd (dispatch c now wallet s pair_id w)"
| "alert_step c w Reconciled = snd (reconcile_on_startup c w)"

interpretation alert: preserved "alert_step c" "\<lambda>w. well_set c \<and> alert_inv c w" for c
proof
  fix w e assume w: "well_set c \<and> alert_inv c w"
  show "well_set c \<and> alert_inv c (alert_step c w e)"
  proof (cases e)
    case (Dispatched call)
    then show ?thesis using w dispatch_inv by (cases call) simp
  next
    case Reconciled
    obtain r w' where "reconcile_on_startup c w = (r, w')" by fastforce
    with w Reconciled reconcile_spec(1) [of c w r w'] show ?thesis by simp
  qed
qed

lemma silent_calls:
  assumes "well_set c"
  shows "alert_inv c w \<Longrightarrow> dict_get (aw_cooldowns w) wallet = Some til \<Longrightarrow>
    \<forall>(now, rest) \<in> set calls. now < til \<Longrightarrow> sent_for wallet (dispatch_all c calls w) = sent_for wallet w"
proof (induction calls arbitrary: w)
  case (Cons x calls)
  obtain now wa s p where x: "x = (now, wa, s, p)" by (cases x)
  let ?w1 = "snd (dispatch c now wa s p w)"
  have "alert_inv c ?w1" using dispatch_inv [OF assms Cons.prems(1)] .
  moreover have "dict_get (aw_cooldowns ?w1) wallet = Some til \<and> sent_for wallet ?w1 = sent_for wallet w"
    using dispatch_effects [OF assms Cons.prems(1), of now wa s p] Cons.prems(2,3) x
    by (auto simp: sent_for_def cooling_def Let_def filter_empty_conv)
  ultimately have "sent_for wallet (dispatch_all c calls ?w1) = sent_for wallet ?w1"
    using Cons.IH [of ?w1] Cons.prems(3) by auto
  then show ?case using x \<open>_ \<and> sent_for wallet ?w1 = _\<close> by (simp add: dispatch_all_def)
qed (simp add: dispatch_all_def)

subsection \<open>Properties\<close>

text \<open>
  C2. Write-ahead: in every history of dispatches and reconciliations, whatever faults the
  database, the webhook and the socket show, everything that has left the process is covered by
  an \<open>in_flight\<close> intent under its idempotency key in the ledger.
\<close>

theorem effects_have_intents:
  assumes "well_set c" and "clock_ok c w" and "aw_out w = []"
    and "e \<in> set (aw_out (foldl (alert_step c) w es))"
  shows "intent_in (effect_key e) (ledger_of c (foldl (alert_step c) w es))"
proof -
  have "alert_inv c w" using assms(2,3) by (simp add: alert_inv_def)
  with alert.run_inv [of c w es] assms(1,4) show ?thesis by (simp add: alert_inv_def)
qed

text \<open>
  C8. A reconciliation that returns has resolved every open intent: the ledger lists none
  in flight any more, and the counts add up to the number there was.
\<close>

theorem reconcile_resolves_all:
  assumes "well_set c" and "alert_inv c w" and "reconcile_on_startup c w = (Inr (redelivered, skipped), w')"
  shows "redelivered + skipped = length (pending_of (ledger_of c w)) \<and> pending_of (ledger_of c w') = []"
  using reconcile_spec(2) [OF assms refl] .

text \<open>
  While a wallet is cooling down, no call of \<open>dispatch\<close> sends anything for it, on
  whatever pair and with whatever score, however calls for other wallets interleave.
\<close>

theorem cooldown_silences:
  assumes "well_set c" and "alert_inv c w" and "dict_get (aw_cooldowns w) wallet = Some til"
    and "\<forall>(now, rest) \<in> set calls. now < til"
  shows "sent_for wallet (dispatch_all c calls w) = sent_for wallet w"
  using silent_calls [OF assms] .

subsection \<open>Witnesses\<close>

definition demo_alerts :: alert_config where
  "demo_alerts =
     \<lparr>dc_channel = ''stdout'', dc_webhook_url = None, dc_cooldown_seconds = 3600,
      dc_threshold = (\<lambda>_. 70), dc_max_retries = 3, dc_ledger = True, dc_ttl_hours = 48,
      dc_text = (\<lambda>_. ''81''), dc_text_rounded = (\<lambda>_. ''3600''), dc_sha256 = (\<lambda>s. s),
      dc_eqc = (=), dc_time_ns = (\<lambda>n. n)\<rparr>"

definition demo_alert_world :: alert_world where
  "demo_alert_world =
     \<lparr>aw_cooldowns = [], aw_db = \<lparr>sq_table = [], sq_now = 0, sq_faults = []\<rparr>, aw_reads = 0,
      aw_out = [], aw_replies = [], aw_push_fails = []\<rparr>"

definition demo_alert_score :: alert_score where
  "demo_alert_score = \<lparr>as_score = 81, as_fields = []\<rparr>"

lemma demo_well_set: "well_set demo_alerts"
  by (simp add: well_set_def demo_alerts_def sane_def inj_def dispatcher_init_def)

lemma demo_clock_ok: "clock_ok demo_alerts demo_alert_world"
  by (simp add: clock_ok_def demo_alert_world_def)

lemmas dispatch_eval =
  dispatch_def Let_def is_delivered_def all_records_def sql_call_def ledger_record_def
  store_commit_def alert_store_def sql_backend_def sql_commit_impl_def get_row_def deliver_def
  deliver_stdout_def record_if_def demo_alerts_def demo_alert_world_def demo_alert_score_def
  idempotency_key_def dec_int_def records_of_def list_by_source_prefix_def delivered_in_def

lemma demo_dispatch:
  "aw_out (snd (dispatch demo_alerts 0 ''w'' demo_alert_score ''p'' demo_alert_world)) =
     [Printed ''w'' ''p'' (Some (''w|p|81|'' @ dec 0))]"
  by (simp add: dispatch_eval alert_key_def canonical_def alert_key_time dec.simps)

theorem effects_have_intents_witness:
  "intent_in (Some (''w|p|81|'' @ dec 0))
     (ledger_of demo_alerts (foldl (alert_step demo_alerts) demo_alert_world
        [Dispatched (0, ''w'', demo_alert_score, ''p'')]))"
  using effects_have_intents [OF demo_well_set demo_clock_ok, of "Printed ''w'' ''p'' (Some (''w|p|81|'' @ dec 0))"
      "[Dispatched (0, ''w'', demo_alert_score, ''p'')]"] demo_dispatch
  by (simp add: demo_alert_world_def)

text \<open>A process that died between the intent and the print.\<close>

definition crashed_world :: alert_world where
  "crashed_world = snd (ledger_record demo_alerts ''w'' ''p'' demo_alert_score InFlight ''stdout'' None
     (Some ''k'') demo_alert_world)"

lemma crashed_inv: "alert_inv demo_alerts crashed_world"
proof -
  have "sane demo_alerts" using demo_well_set by (simp add: well_set_def)
  from ledger_record_cases [OF this demo_clock_ok prod.collapse [symmetric]]
  show ?thesis by (simp add: alert_inv_def crashed_world_def demo_alert_world_def)
qed

lemma crashed_reconciled: "fst (reconcile_on_startup demo_alerts crashed_world) = Inr (0, 1)"
  by (simp add: crashed_world_def reconcile_on_startup_def in_flight_def dispatch_eval mark_committed_def
      staged_row_def alert_key_def pending_of_def open_intent_def closes_def terminal_outcomes_def
      canonical_def dec.simps)

theorem reconcile_resolves_all_witness:
  "pending_of (ledger_of demo_alerts (snd (reconcile_on_startup demo_alerts crashed_world))) = []"
proof -
  have "reconcile_on_startup demo_alerts crashed_world =
      (Inr (0, 1), snd (reconcile_on_startup demo_alerts crashed_world))"
    by (metis crashed_reconciled prod.collapse)
  from reconcile_resolves_all [OF demo_well_set crashed_inv this] show ?thesis by simp
qed

theorem cooldown_silences_witness:
  "sent_for ''w'' (dispatch_all demo_alerts [(100, ''w'', demo_alert_score, ''q'')]
       (demo_alert_world\<lparr>aw_cooldowns := [(''w'', 3600)]\<rparr>)) = []"
proof -
  have "alert_inv demo_alerts (demo_alert_world\<lparr>aw_cooldowns := [(''w'', 3600)]\<rparr>)"
    by (simp add: alert_inv_def clock_ok_def demo_alert_world_def)
  from cooldown_silences [OF demo_well_set this, of "''w''" 3600 "[(100, ''w'', demo_alert_score, ''q'')]"]
  show ?thesis by (simp add: sent_for_def demo_alert_world_def)
qed

end
