(* ===== verification/AlertGrouping.thy ===== *)
theory AlertGrouping
  imports Base "HOL-Library.Multiset"
begin

text \<open>
  \<open>alerts/deduplicator.py\<close>: alerts of independent detectors for the same wallet and asset pair
  are folded into one. The open groups are the insertion-ordered dictionary of the generator, an
  alert's evidence is a dictionary of its own, and the flushed alerts are the list of the
  generator's yields.

  The specification is a partition of the input: \<open>split_alerts\<close> runs the same loop on lists of
  alerts, and \<open>merged\<close> says what one list must be reported as.
\<close>

subsection \<open>Keys\<close>

text \<open>The key of a group, ordered as Python orders the tuple.\<close>

datatype alert_group_key = GroupKey (group_wallet: string) (group_pair: string)

instantiation alert_group_key :: linorder
begin

definition less_eq_alert_group_key :: "alert_group_key \<Rightarrow> alert_group_key \<Rightarrow> bool" where
  "less_eq_alert_group_key a b \<longleftrightarrow>
     group_wallet a < group_wallet b \<or> group_wallet a = group_wallet b \<and> group_pair a \<le> group_pair b"

definition less_alert_group_key :: "alert_group_key \<Rightarrow> alert_group_key \<Rightarrow> bool" where
  "less_alert_group_key a b \<longleftrightarrow>
     group_wallet a < group_wallet b \<or> group_wallet a = group_wallet b \<and> group_pair a < group_pair b"

instance
proof
  fix x y :: alert_group_key
  assume "x \<le> y" "y \<le> x"
  then show "x = y"
    by (cases x; cases y) (auto simp: less_eq_alert_group_key_def)
qed (auto simp: less_eq_alert_group_key_def less_alert_group_key_def)

end

subsection \<open>Groups\<close>

record 'v alert =
  al_wallet_address :: string
  al_asset_pair :: string
  al_detector :: string
  al_risk_score :: rat
  al_evidence :: "(string, 'v) dict"
  al_detected_at :: rat

definition alert_group_key :: "'v alert \<Rightarrow> alert_group_key" where
  "alert_group_key a = GroupKey (al_wallet_address a) (al_asset_pair a)"

record 'v alert_group =
  gr_wallet_address :: string
  gr_asset_pair :: string
  gr_detectors :: "string list"
  gr_risk_score :: rat
  gr_evidence :: "(string, 'v) dict"
  gr_detected_at :: rat
  gr_last_seen :: rat
  gr_raw_count :: nat

record 'v grouped_alert =
  ga_wallet_address :: string
  ga_asset_pair :: string
  ga_detectors :: "string list"
  ga_risk_score :: rat
  ga_evidence :: "(string, 'v) dict"
  ga_detected_at :: rat

definition dict_update :: "('k, 'v) dict \<Rightarrow> ('k, 'v) dict \<Rightarrow> ('k, 'v) dict" where
  "dict_update d e = foldl (\<lambda>d (k, v). dict_set k v d) d e"

definition group_init :: "'v alert \<Rightarrow> 'v alert_group" where
  "group_init a =
     \<lparr>gr_wallet_address = al_wallet_address a, gr_asset_pair = al_asset_pair a,
      gr_detectors = [al_detector a], gr_risk_score = al_risk_score a,
      gr_evidence = al_evidence a, gr_detected_at = al_detected_at a,
      gr_last_seen = al_detected_at a, gr_raw_count = 1\<rparr>"

definition group_absorb :: "'v alert \<Rightarrow> 'v alert_group \<Rightarrow> 'v alert_group" where
  "group_absorb a g =
     g\<lparr>gr_detectors := List.insert (al_detector a) (gr_detectors g),
       gr_risk_score := max (gr_risk_score g) (al_risk_score a),
       gr_evidence := dict_update (gr_evidence g) (al_evidence a),
       gr_detected_at := min (gr_detected_at g) (al_detected_at a),
       gr_last_seen := max (gr_last_seen g) (al_detected_at a),
       gr_raw_count := gr_raw_count g + 1\<rparr>"

definition group_flush :: "'v alert_group \<Rightarrow> 'v grouped_alert" where
  "group_flush g =
     \<lparr>ga_wallet_address = gr_wallet_address g, ga_asset_pair = gr_asset_pair g,
      ga_detectors = sort (gr_detectors g), ga_risk_score = gr_risk_score g,
      ga_evidence = gr_evidence g, ga_detected_at = gr_detected_at g\<rparr>"

subsection \<open>The generator\<close>

type_synonym 'v alert_groups = "(alert_group_key, 'v alert_group) dict"

definition stale_keys :: "rat \<Rightarrow> rat \<Rightarrow> 'v alert_groups \<Rightarrow> alert_group_key list" where
  "stale_keys window now groups =
     map fst (filter (\<lambda>(k, g). now - gr_last_seen g \<ge> window) groups)"

fun pop_groups ::
  "alert_group_key list \<Rightarrow> 'v alert_groups \<Rightarrow> 'v grouped_alert list \<times> 'v alert_groups" where
  "pop_groups [] groups = ([], groups)"
| "pop_groups (k # ks) groups =
     (case dict_get groups k of
        None \<Rightarrow> pop_groups ks groups
      | Some g \<Rightarrow>
          (case pop_groups ks (dict_pop k groups) of (out, groups') \<Rightarrow> (group_flush g # out, groups')))"

definition buffer_alert :: "'v alert \<Rightarrow> 'v alert_groups \<Rightarrow> 'v alert_groups" where
  "buffer_alert a groups =
     (case dict_get groups (alert_group_key a) of
        Some g \<Rightarrow> dict_set (alert_group_key a) (group_absorb a g) groups
      | None \<Rightarrow> dict_set (alert_group_key a) (group_init a) groups)"

fun dedup_loop ::
  "rat \<Rightarrow> 'v alert list \<Rightarrow> 'v alert_groups \<Rightarrow> 'v grouped_alert list" where
  "dedup_loop window [] groups = fst (pop_groups (sort (dict_keys groups)) groups)"
| "dedup_loop window (a # stream) groups =
     (case pop_groups (stale_keys window (al_detected_at a) groups) groups of
        (out, groups') \<Rightarrow> out @ dedup_loop window stream (buffer_alert a groups'))"

definition deduplicate :: "'v alert list \<Rightarrow> rat \<Rightarrow> 'v grouped_alert list" where
  "deduplicate alert_stream window_seconds = dedup_loop window_seconds alert_stream []"

subsection \<open>The specification\<close>

text \<open>What a nonempty list of alerts, in arrival order, must be reported as.\<close>

definition merged :: "'v alert list \<Rightarrow> 'v grouped_alert" where
  "merged as =
     \<lparr>ga_wallet_address = al_wallet_address (hd as), ga_asset_pair = al_asset_pair (hd as),
      ga_detectors = sorted_list_of_set (al_detector ` set as),
      ga_risk_score = Max (al_risk_score ` set as),
      ga_evidence = foldl dict_update (al_evidence (hd as)) (map al_evidence (tl as)),
      ga_detected_at = Min (al_detected_at ` set as)\<rparr>"

definition last_seen :: "'v alert list \<Rightarrow> rat" where
  "last_seen as = Max (al_detected_at ` set as)"

type_synonym 'v open_lists = "(alert_group_key, 'v alert list) dict"

fun pop_lists ::
  "alert_group_key list \<Rightarrow> 'v open_lists \<Rightarrow> 'v alert list list \<times> 'v open_lists" where
  "pop_lists [] ls = ([], ls)"
| "pop_lists (k # ks) ls =
     (case dict_get ls k of
        None \<Rightarrow> pop_lists ks ls
      | Some l \<Rightarrow> (case pop_lists ks (dict_pop k ls) of (out, ls') \<Rightarrow> (l # out, ls')))"

definition add_alert :: "'v alert \<Rightarrow> 'v open_lists \<Rightarrow> 'v open_lists" where
  "add_alert a ls =
     dict_set (alert_group_key a) ((case dict_get ls (alert_group_key a) of None \<Rightarrow> [] | Some l \<Rightarrow> l) @ [a]) ls"

fun split_loop :: "rat \<Rightarrow> 'v alert list \<Rightarrow> 'v open_lists \<Rightarrow> 'v alert list list" where
  "split_loop window [] ls = fst (pop_lists (sort (dict_keys ls)) ls)"
| "split_loop window (a # stream) ls =
     (case pop_lists (map fst (filter (\<lambda>(k, l). al_detected_at a - last_seen l \<ge> window) ls)) ls of
        (out, ls') \<Rightarrow> out @ split_loop window stream (add_alert a ls'))"

definition split_alerts :: "'v alert list \<Rightarrow> rat \<Rightarrow> 'v alert list list" where
  "split_alerts alert_stream window = split_loop window alert_stream []"

subsection \<open>Refinement\<close>

text \<open>A group of the code represents a list of alerts.\<close>

definition represents :: "'v alert list \<Rightarrow> 'v alert_group \<Rightarrow> bool" where
  "represents l g \<longleftrightarrow> l \<noteq> [] \<and> group_flush g = merged l \<and> gr_last_seen g = last_seen l \<and>
     gr_raw_count g = length l \<and> distinct (gr_detectors g) \<and> set (gr_detectors g) = al_detector ` set l"

lemma represents_init: "represents [a] (group_init a)"
  by (simp add: represents_def group_init_def group_flush_def merged_def last_seen_def)

lemma sort_distinct: "distinct xs \<Longrightarrow> sort xs = sorted_list_of_set (set xs)"
  by (simp add: sorted_list_of_set_sort_remdups distinct_remdups_id)

lemma represents_absorb:
  assumes "represents l g"
  shows "represents (l @ [a]) (group_absorb a g)"
proof -
  have l: "l \<noteq> []" and fl: "group_flush g = merged l" and ls: "gr_last_seen g = last_seen l"
    and n: "gr_raw_count g = length l" and d: "distinct (gr_detectors g)"
    and ds: "set (gr_detectors g) = al_detector ` set l"
    using assms by (auto simp: represents_def)
  let ?g = "group_absorb a g"
  have det: "distinct (gr_detectors ?g)" "set (gr_detectors ?g) = al_detector ` set (l @ [a])"
    using d ds by (auto simp: group_absorb_def)
  have "ga_detectors (group_flush ?g) = sorted_list_of_set (al_detector ` set (l @ [a]))"
    using sort_distinct [OF det(1)] det(2) by (simp add: group_flush_def)
  moreover have "gr_risk_score g = Max (al_risk_score ` set l)" "gr_detected_at g = Min (al_detected_at ` set l)"
    "gr_evidence g = foldl dict_update (al_evidence (hd l)) (map al_evidence (tl l))"
    "gr_wallet_address g = al_wallet_address (hd l)" "gr_asset_pair g = al_asset_pair (hd l)"
    using fl by (simp_all add: group_flush_def merged_def)
  ultimately have "group_flush ?g = merged (l @ [a])"
    using l by (simp add: group_flush_def merged_def group_absorb_def max.commute min.commute)
  moreover have "gr_last_seen ?g = last_seen (l @ [a])"
    using l ls by (simp add: group_absorb_def last_seen_def max.commute)
  ultimately show ?thesis using n det by (simp add: represents_def group_absorb_def)
qed

definition simulates :: "'v open_lists \<Rightarrow> 'v alert_groups \<Rightarrow> bool" where
  "simulates ls gs \<longleftrightarrow> list_all2 (\<lambda>(k, l) (k', g). k = k' \<and> represents l g) ls gs"

lemma simulates_keys: "simulates ls gs \<Longrightarrow> dict_keys ls = dict_keys gs"
  unfolding simulates_def by (induction rule: list_all2_induct) auto

lemma simulates_get:
  "simulates ls gs \<Longrightarrow>
     (case dict_get ls k of None \<Rightarrow> dict_get gs k = None
      | Some l \<Rightarrow> \<exists>g. dict_get gs k = Some g \<and> represents l g)"
  unfolding simulates_def by (induction rule: list_all2_induct) (auto split: option.splits)

lemma simulates_set:
  "simulates ls gs \<Longrightarrow> represents l g \<Longrightarrow> simulates (dict_set k l ls) (dict_set k g gs)"
  unfolding simulates_def by (induction rule: list_all2_induct) auto

lemma simulates_pop: "simulates ls gs \<Longrightarrow> simulates (dict_pop k ls) (dict_pop k gs)"
  unfolding simulates_def by (induction rule: list_all2_induct) (auto simp: AList.delete_eq)

lemma simulates_stale:
  "simulates ls gs \<Longrightarrow>
     map fst (filter (\<lambda>(k, l). now - last_seen l \<ge> window) ls) = stale_keys window now gs"
  unfolding simulates_def stale_keys_def
  by (induction rule: list_all2_induct) (auto simp: represents_def)

lemma pop_refines:
  "simulates ls gs \<Longrightarrow> pop_lists ks ls = (lout, ls') \<Longrightarrow> pop_groups ks gs = (gout, gs') \<Longrightarrow>
     gout = map merged lout \<and> simulates ls' gs'"
proof (induction ks arbitrary: ls gs lout gout)
  case (Cons k ks)
  note get = simulates_get [OF Cons.prems(1), of k]
  show ?case
  proof (cases "dict_get ls k")
    case None
    then show ?thesis using Cons get by auto
  next
    case (Some l)
    then obtain g where g: "dict_get gs k = Some g" "represents l g" using get by auto
    have "simulates (dict_pop k ls) (dict_pop k gs)" using Cons.prems(1) by (rule simulates_pop)
    then show ?thesis using Cons Some g by (auto simp: represents_def split: prod.splits)
  qed
qed simp

lemma add_refines: "simulates ls gs \<Longrightarrow> simulates (add_alert a ls) (buffer_alert a gs)"
  using simulates_get [of ls gs "alert_group_key a"] simulates_set represents_init [of a] represents_absorb
  by (fastforce simp: add_alert_def buffer_alert_def split: option.splits)

lemma loop_refines: "simulates ls gs \<Longrightarrow> dedup_loop window stream gs = map merged (split_loop window stream ls)"
proof (induction stream arbitrary: ls gs)
  case Nil
  obtain lout ls' where l: "pop_lists (sort (dict_keys ls)) ls = (lout, ls')" by fastforce
  obtain gout gs' where g: "pop_groups (sort (dict_keys gs)) gs = (gout, gs')" by fastforce
  from pop_refines [OF Nil l, of gout gs'] g simulates_keys [OF Nil] l show ?case by simp
next
  case (Cons a stream)
  let ?ks = "stale_keys window (al_detected_at a) gs"
  obtain lout ls' where l: "pop_lists ?ks ls = (lout, ls')" by fastforce
  obtain gout gs' where g: "pop_groups ?ks gs = (gout, gs')" by fastforce
  from pop_refines [OF Cons.prems l g] Cons.IH [OF add_refines, of ls' gs' a] l g
    simulates_stale [OF Cons.prems, where now = "al_detected_at a" and window = window]
  show ?case by simp
qed

subsection \<open>The partition\<close>

text \<open>Every list of the partition is nonempty and of one key, and nothing is lost or doubled.\<close>

definition open_ok :: "'v open_lists \<Rightarrow> bool" where
  "open_ok ls \<longleftrightarrow> dict_ok ls \<and>
     (\<forall>k l. dict_get ls k = Some l \<longrightarrow> l \<noteq> [] \<and> (\<forall>a \<in> set l. alert_group_key a = k))"

definition held :: "'v open_lists \<Rightarrow> 'v alert multiset" where
  "held ls = mset (concat (dict_values ls))"

lemma held_pop:
  "dict_ok ls \<Longrightarrow> dict_get ls k = Some l \<Longrightarrow> held ls = mset l + held (dict_pop k ls)"
proof (induction ls)
  case (Cons x ls)
  obtain k' l' where x: "x = (k', l')" by fastforce
  show ?case
  proof (cases "k' = k")
    case True
    then have "dict_pop k ls = ls" using Cons.prems(1) x by (simp add: dict_ok_def delete_id)
    then show ?thesis using Cons.prems(2) x True by (simp add: held_def)
  next
    case False
    then show ?thesis using Cons x by (simp add: held_def dict_ok_def)
  qed
qed simp

lemma held_set_new: "dict_get ls k = None \<Longrightarrow> held (dict_set k l ls) = held ls + mset l"
  by (induction ls) (auto simp: held_def split: if_splits)

lemma held_set_old:
  "dict_ok ls \<Longrightarrow> dict_get ls k = Some l \<Longrightarrow> held (dict_set k (l @ [a]) ls) = add_mset a (held ls)"
proof (induction ls)
  case (Cons x ls)
  obtain k' l' where "x = (k', l')" by fastforce
  with Cons show ?case by (auto simp: held_def dict_ok_def split: if_splits)
qed simp

lemma held_add: "dict_ok ls \<Longrightarrow> held (add_alert a ls) = add_mset a (held ls)"
  using held_set_new [of ls "alert_group_key a" "[a]"] held_set_old [of ls "alert_group_key a" _ a]
  by (auto simp: add_alert_def split: option.split)

definition one_key :: "'v alert list \<Rightarrow> bool" where
  "one_key l \<longleftrightarrow> l \<noteq> [] \<and> (\<forall>a \<in> set l. \<forall>b \<in> set l. alert_group_key a = alert_group_key b)"

lemma open_ok_pop: "open_ok ls \<Longrightarrow> open_ok (dict_pop k ls)"
  by (auto simp: open_ok_def)

lemma open_ok_add: "open_ok ls \<Longrightarrow> open_ok (add_alert a ls)"
  by (cases "dict_get ls (alert_group_key a)") (auto simp: open_ok_def add_alert_def)

lemma pop_lists_spec:
  "open_ok ls \<Longrightarrow> pop_lists ks ls = (out, ls') \<Longrightarrow>
     open_ok ls' \<and> held ls = mset (concat out) + held ls' \<and> (\<forall>l \<in> set out. one_key l) \<and>
     set (dict_keys ls') = set (dict_keys ls) - set ks"
proof (induction ks arbitrary: ls out)
  case (Cons k ks)
  show ?case
  proof (cases "dict_get ls k")
    case None
    then have "k \<notin> set (dict_keys ls)" by (simp add: map_of_eq_None_iff)
    then show ?thesis using Cons None by auto
  next
    case (Some l)
    have "dict_ok ls" "one_key l"
      using Cons.prems(1) Some by (auto simp: open_ok_def one_key_def)
    with Some Cons.prems(2) Cons.IH [OF open_ok_pop [OF Cons.prems(1)]] held_pop [of ls k l]
    show ?thesis by (auto simp: AList.delete_keys split: prod.splits)
  qed
qed (auto simp: held_def)

lemma held_empty: "set (dict_keys ls) = {} \<Longrightarrow> held ls = {#}"
  by (simp add: held_def)

lemma split_loop_spec:
  "open_ok ls \<Longrightarrow> mset (concat (split_loop window stream ls)) = held ls + mset stream \<and>
     (\<forall>l \<in> set (split_loop window stream ls). one_key l)"
proof (induction stream arbitrary: ls)
  case Nil
  obtain out ls' where pop: "pop_lists (sort (dict_keys ls)) ls = (out, ls')" by fastforce
  from pop_lists_spec [OF Nil this] pop held_empty [of ls'] show ?case by simp
next
  case (Cons a stream)
  obtain out ls' where pop: "pop_lists (map fst (filter (\<lambda>(k, l). al_detected_at a - last_seen l \<ge> window) ls)) ls
      = (out, ls')" by fastforce
  note p = pop_lists_spec [OF Cons.prems pop]
  then have ok: "open_ok ls'" by blast
  then have "dict_ok ls'" by (simp add: open_ok_def)
  note IH = Cons.IH [OF open_ok_add [OF ok]] held_add [OF this, of a]
  have "split_loop window (a # stream) ls = out @ split_loop window stream (add_alert a ls')"
    using pop by simp
  with IH p show ?case by (simp add: ball_Un)
qed

subsection \<open>Properties\<close>

text \<open>
  The alerts flushed are those of a partition of the input: every alert given belongs to
  exactly one group, a group holds alerts of one wallet and pair, and it is reported with the
  sorted union of their detectors, their greatest score, their evidence merged in arrival order
  and their earliest time.
\<close>

theorem deduplicate_partitions:
  "deduplicate stream window = map merged (split_alerts stream window) \<and>
   mset (concat (split_alerts stream window)) = mset stream \<and>
   list_all one_key (split_alerts stream window)"
  using split_loop_spec [of "[]" window stream] loop_refines [of "[]" "[]" window stream]
  by (simp add: deduplicate_def split_alerts_def open_ok_def held_def simulates_def list_all_iff)

definition demo_alert :: "string \<Rightarrow> rat \<Rightarrow> rat alert" where
  "demo_alert detector t =
     \<lparr>al_wallet_address = ''G1'', al_asset_pair = ''XLM'', al_detector = detector, al_risk_score = 80,
      al_evidence = [], al_detected_at = t\<rparr>"

text \<open>
  The window bounds the silence that still merges only for alerts that arrive in order: an
  alert that arrives late joins the open group however old it is, here one of 1000 seconds
  before under a window of 60.
\<close>

theorem late_alert_merges:
  "length (deduplicate [demo_alert ''gnn'' 1000, demo_alert ''benford'' 0] 60) = 1 \<and>
   length (deduplicate [demo_alert ''benford'' 0, demo_alert ''gnn'' 1000] 60) = 2"
  by (simp add: deduplicate_def demo_alert_def stale_keys_def buffer_alert_def group_init_def
      group_absorb_def alert_group_key_def)

end
