(* ===== verification/CircuitBreaker.thy ===== *)
theory CircuitBreaker
  imports Base
begin

text \<open>
  \<open>utils/circuit_breaker.py\<close>: the three-state circuit breaker. A \<open>call\<close> is three steps: the
  admission under the lock, the protected function outside it, and the record of its outcome
  under the lock again. Calls of several threads interleave, so the component is a step function
  over events \<open>Admit\<close>, \<open>Succeeded\<close>, \<open>FailedCall\<close>, each with its reading of the clock, and
  \<open>breaker_call\<close> is one call run alone. The gauges are the dictionary \<open>cb_gauge\<close>.
\<close>

subsection \<open>State and operations\<close>

datatype circuit_state = CLOSED | OPEN | HALF_OPEN

record breaker =
  cb_name :: string
  cb_failure_threshold :: int
  cb_timeout_seconds :: rat
  cb_success_threshold :: int
  cb_state :: circuit_state
  cb_consecutive_failures :: int
  cb_consecutive_successes :: int
  cb_opened_at :: "clock option"
  cb_gauge :: "(string, int) dict"

definition breaker_init :: "string \<Rightarrow> int \<Rightarrow> rat \<Rightarrow> int \<Rightarrow> (string, int) dict \<Rightarrow> breaker" where
  "breaker_init name failure_threshold timeout_seconds success_threshold gauge =
     \<lparr>cb_name = name, cb_failure_threshold = failure_threshold, cb_timeout_seconds = timeout_seconds,
      cb_success_threshold = success_threshold, cb_state = CLOSED, cb_consecutive_failures = 0,
      cb_consecutive_successes = 0, cb_opened_at = None, cb_gauge = gauge\<rparr>"

datatype breaker_error = CircuitOpenError string | OpenedAtAssertion | CallFailed string

definition effective_state :: "clock \<Rightarrow> breaker \<Rightarrow> breaker_error + circuit_state" where
  "effective_state now b =
     (if cb_state b = OPEN then
        (case cb_opened_at b of
           None \<Rightarrow> Inl OpenedAtAssertion
         | Some t \<Rightarrow> if now - t \<ge> cb_timeout_seconds b then Inr HALF_OPEN else Inr OPEN)
      else Inr (cb_state b))"

definition set_gauge :: "int \<Rightarrow> breaker \<Rightarrow> breaker" where
  "set_gauge v b = b\<lparr>cb_gauge := dict_set (cb_name b) v (cb_gauge b)\<rparr>"

definition admit :: "clock \<Rightarrow> breaker \<Rightarrow> (breaker_error + unit) \<times> breaker" where
  "admit now b =
     (case effective_state now b of
        Inl e \<Rightarrow> (Inl e, b)
      | Inr effective \<Rightarrow>
          if effective = OPEN then (Inl (CircuitOpenError (cb_name b)), b)
          else if cb_state b = OPEN
          then (Inr (), b\<lparr>cb_state := HALF_OPEN, cb_consecutive_successes := 0\<rparr>)
          else (Inr (), b))"

definition record_success :: "breaker \<Rightarrow> breaker" where
  "record_success b =
     (case cb_state b of
        HALF_OPEN \<Rightarrow>
          (let b' = b\<lparr>cb_consecutive_successes := cb_consecutive_successes b + 1\<rparr>
           in if cb_consecutive_successes b' \<ge> cb_success_threshold b'
              then set_gauge 0 (b'\<lparr>cb_state := CLOSED, cb_consecutive_failures := 0,
                     cb_consecutive_successes := 0, cb_opened_at := None\<rparr>)
              else b')
      | CLOSED \<Rightarrow> b\<lparr>cb_consecutive_failures := 0\<rparr>
      | OPEN \<Rightarrow> b)"

definition record_failure :: "clock \<Rightarrow> breaker \<Rightarrow> breaker" where
  "record_failure now b =
     (if cb_state b = HALF_OPEN then
        set_gauge 1 (b\<lparr>cb_state := OPEN, cb_opened_at := Some now, cb_consecutive_successes := 0\<rparr>)
      else
        (let b' = b\<lparr>cb_consecutive_failures := cb_consecutive_failures b + 1\<rparr>
         in if cb_state b' = CLOSED \<and> cb_consecutive_failures b' \<ge> cb_failure_threshold b'
            then set_gauge 1 (b'\<lparr>cb_state := OPEN, cb_opened_at := Some now\<rparr>)
            else b'))"

text \<open>One call run alone: \<open>outcome\<close> is what the protected function returned or raised.\<close>

definition breaker_call ::
  "clock \<Rightarrow> clock \<Rightarrow> string + 'a \<Rightarrow> breaker \<Rightarrow> (breaker_error + 'a) \<times> breaker" where
  "breaker_call t0 t1 outcome b =
     (case admit t0 b of
        (Inl e, b') \<Rightarrow> (Inl e, b')
      | (Inr _, b') \<Rightarrow>
          (case outcome of
             Inl msg \<Rightarrow> (Inl (CallFailed msg), record_failure t1 b')
           | Inr r \<Rightarrow> (Inr r, record_success b')))"

datatype breaker_event = Admit clock | Succeeded | FailedCall clock

fun breaker_step :: "breaker \<Rightarrow> breaker_event \<Rightarrow> breaker" where
  "breaker_step b (Admit now) = snd (admit now b)"
| "breaker_step b Succeeded = record_success b"
| "breaker_step b (FailedCall now) = record_failure now b"

subsection \<open>Invariant\<close>

text \<open>
  An open circuit knows when it opened (the assertion of \<open>_effective_state\<close> cannot fail), a
  closed one is below its failure threshold, a half-open one below its success threshold, and
  the gauge tells whether the circuit tripped and has not recovered.
\<close>

definition breaker_inv :: "breaker \<Rightarrow> bool" where
  "breaker_inv b \<longleftrightarrow> 0 < cb_failure_threshold b \<and> 0 < cb_success_threshold b \<and>
     0 \<le> cb_consecutive_failures b \<and> 0 \<le> cb_consecutive_successes b \<and>
     (case cb_state b of
        CLOSED \<Rightarrow> cb_opened_at b = None \<and> cb_consecutive_failures b < cb_failure_threshold b \<and>
          dict_get (cb_gauge b) (cb_name b) \<in> {None, Some 0}
      | OPEN \<Rightarrow> cb_opened_at b \<noteq> None \<and> dict_get (cb_gauge b) (cb_name b) = Some 1
      | HALF_OPEN \<Rightarrow> cb_opened_at b \<noteq> None \<and> cb_consecutive_successes b < cb_success_threshold b \<and>
          dict_get (cb_gauge b) (cb_name b) = Some 1)"

lemma admit_inv: "breaker_inv b \<Longrightarrow> breaker_inv (snd (admit now b))"
  by (cases "cb_state b") (auto simp: breaker_inv_def admit_def effective_state_def split: option.splits)

lemma success_inv: "breaker_inv b \<Longrightarrow> breaker_inv (record_success b)"
  by (cases "cb_state b") (auto simp: breaker_inv_def record_success_def set_gauge_def Let_def)

lemma failure_inv: "breaker_inv b \<Longrightarrow> breaker_inv (record_failure now b)"
  by (cases "cb_state b") (auto simp: breaker_inv_def record_failure_def set_gauge_def Let_def)

interpretation circuit: preserved breaker_step breaker_inv
proof
  fix b e assume "breaker_inv b"
  then show "breaker_inv (breaker_step b e)"
    by (cases e) (auto intro: admit_inv success_inv failure_inv)
qed

fun before :: "clock \<Rightarrow> breaker_event \<Rightarrow> bool" where
  "before t (Admit now) = (now < t)"
| "before t Succeeded = True"
| "before t (FailedCall now) = True"

lemma open_stays:
  assumes "cb_state b = OPEN" and "cb_opened_at b = Some t" and "before (t + cb_timeout_seconds b) e"
  shows "cb_state (breaker_step b e) = OPEN \<and> cb_opened_at (breaker_step b e) = Some t \<and>
    cb_timeout_seconds (breaker_step b e) = cb_timeout_seconds b \<and> cb_name (breaker_step b e) = cb_name b"
  using assms
  by (cases e) (auto simp: admit_def effective_state_def record_success_def record_failure_def Let_def)

lemma open_stays_run:
  assumes "cb_state b = OPEN" and "cb_opened_at b = Some t"
    and "\<forall>e \<in> set es. before (t + cb_timeout_seconds b) e"
  shows "cb_state (foldl breaker_step b es) = OPEN \<and> cb_opened_at (foldl breaker_step b es) = Some t \<and>
    cb_timeout_seconds (foldl breaker_step b es) = cb_timeout_seconds b \<and>
    cb_name (foldl breaker_step b es) = cb_name b"
  using assms
proof (induction es arbitrary: b)
  case (Cons e es)
  have "before (t + cb_timeout_seconds b) e" using Cons.prems(3) by simp
  note step = open_stays [OF Cons.prems(1,2) this]
  with Cons.IH [of "breaker_step b e"] Cons.prems(3) show ?case by simp
qed simp

lemma successes_Suc:
  "foldl breaker_step b (replicate (Suc m) Succeeded) =
     record_success (foldl breaker_step b (replicate m Succeeded))"
  by (induction m arbitrary: b) simp_all

subsection \<open>Properties\<close>

text \<open>
  Every interleaving of calls keeps the breaker consistent, so no admission ever trips the
  assertion on the opening time: it either lets the call through or rejects it with
  \<open>CircuitOpenError\<close>, and it rejects only in state \<open>OPEN\<close>.
\<close>

theorem admission_is_total:
  assumes "0 < ft" and "0 < st" and "dict_get gauge name \<in> {None, Some 0}"
  shows "let b = foldl breaker_step (breaker_init name ft timeout st gauge) es in
    breaker_inv b \<and> (fst (admit now b) = Inr () \<or>
      cb_state b = OPEN \<and> fst (admit now b) = Inl (CircuitOpenError (cb_name b)))"
proof -
  have "breaker_inv (breaker_init name ft timeout st gauge)"
    using assms by (simp add: breaker_inv_def breaker_init_def)
  from circuit.run_inv [OF this, of es] show ?thesis
    by (auto simp: Let_def admit_def effective_state_def breaker_inv_def split: option.split)
qed

text \<open>
  Once open, the circuit rejects every call until its timeout has elapsed since it opened,
  whatever calls admitted before it opened still succeed or fail meanwhile: they neither close
  it early nor extend the timeout.
\<close>

theorem open_rejects_until_timeout:
  assumes "cb_state b = OPEN" and "cb_opened_at b = Some t"
    and "\<forall>e \<in> set es. before (t + cb_timeout_seconds b) e" and "now < t + cb_timeout_seconds b"
  shows "admit now (foldl breaker_step b es) =
    (Inl (CircuitOpenError (cb_name b)), foldl breaker_step b es)"
  using open_stays_run [OF assms(1-3)] assms(4)
  by (auto simp: admit_def effective_state_def)

text \<open>
  A closed circuit with no failure on record opens at the \<open>failure_threshold\<close>th failure in
  a row, not before, and it opens at the clock reading of that failure.
\<close>

theorem opens_at_threshold:
  assumes "cb_state b = CLOSED" and "cb_consecutive_failures b = 0"
    and "int (length ts) = cb_failure_threshold b" and "ts \<noteq> []"
  shows "cb_state (foldl breaker_step b (map FailedCall (butlast ts))) = CLOSED \<and>
    cb_state (foldl breaker_step b (map FailedCall ts)) = OPEN \<and>
    cb_opened_at (foldl breaker_step b (map FailedCall ts)) = Some (last ts)"
proof -
  have run: "cb_state (foldl breaker_step b (map FailedCall xs)) = CLOSED \<and>
      cb_consecutive_failures (foldl breaker_step b (map FailedCall xs)) = int (length xs) \<and>
      cb_failure_threshold (foldl breaker_step b (map FailedCall xs)) = cb_failure_threshold b"
    if "int (length xs) < cb_failure_threshold b" for xs
    using that
    by (induction xs rule: rev_induct) (auto simp: assms(1,2) record_failure_def Let_def)
  have "int (length (butlast ts)) < cb_failure_threshold b"
    using assms(3,4) by (cases ts rule: rev_cases) auto
  note b' = run [OF this]
  have "foldl breaker_step b (map FailedCall ts) =
      record_failure (last ts) (foldl breaker_step b (map FailedCall (butlast ts)))"
    using assms(4) by (cases ts rule: rev_cases) auto
  with b' assms(3,4) show ?thesis
    by (auto simp: record_failure_def set_gauge_def Let_def)
qed

text \<open>
  From half-open, \<open>success_threshold\<close> successes in a row close the circuit and clear its
  counters, and one failure opens it again at once.
\<close>

theorem half_open_recovery:
  assumes "cb_state b = HALF_OPEN" and "cb_consecutive_successes b = 0"
    and "int n = cb_success_threshold b" and "0 < n"
  shows "cb_state (foldl breaker_step b (replicate n Succeeded)) = CLOSED \<and>
    cb_consecutive_failures (foldl breaker_step b (replicate n Succeeded)) = 0 \<and>
    cb_opened_at (foldl breaker_step b (replicate n Succeeded)) = None \<and>
    cb_state (breaker_step (foldl breaker_step b (replicate (n - 1) Succeeded)) (FailedCall t)) = OPEN"
proof -
  have run: "cb_state (foldl breaker_step b (replicate m Succeeded)) = HALF_OPEN \<and>
      cb_consecutive_successes (foldl breaker_step b (replicate m Succeeded)) = int m \<and>
      cb_success_threshold (foldl breaker_step b (replicate m Succeeded)) = cb_success_threshold b"
    if "m < n" for m
    using that
  proof (induction m)
    case (Suc m)
    then have "int m + 1 < cb_success_threshold b" using assms(3) by simp
    with Suc show ?case
      by (simp add: successes_Suc record_success_def Let_def del: replicate_Suc)
  qed (simp add: assms(1,2))
  obtain m where m: "n = Suc m" using assms(4) by (cases n) auto
  have "foldl breaker_step b (replicate n Succeeded) =
      record_success (foldl breaker_step b (replicate m Succeeded))"
    unfolding m by (rule successes_Suc)
  with run [of m] m assms(3) show ?thesis
    by (simp add: record_success_def record_failure_def set_gauge_def Let_def del: replicate_Suc)
qed

subsection \<open>Witnesses\<close>

definition demo_breaker :: breaker where
  "demo_breaker = breaker_init ''redis'' 2 60 2 []"

theorem admission_is_total_witness:
  "breaker_inv (foldl breaker_step (breaker_init ''redis'' 2 60 2 []) [Admit 0, FailedCall 1, FailedCall 2])"
  using admission_is_total [of 2 2 "[]" "''redis''" 60 "[Admit 0, FailedCall 1, FailedCall 2]"]
  by (simp add: Let_def)

theorem open_rejects_until_timeout_witness:
  "fst (admit 50 (foldl breaker_step (demo_breaker\<lparr>cb_state := OPEN, cb_opened_at := Some 5\<rparr>)
     [FailedCall 6, Succeeded, Admit 7])) = Inl (CircuitOpenError ''redis'')"
  by (subst open_rejects_until_timeout [of _ 5]) (simp_all add: demo_breaker_def breaker_init_def)

theorem opens_at_threshold_witness:
  "cb_opened_at (foldl breaker_step demo_breaker (map FailedCall [3, 9])) = Some 9"
  using opens_at_threshold [of demo_breaker "[3, 9]"] by (simp add: demo_breaker_def breaker_init_def)

theorem half_open_recovery_witness:
  "cb_state (foldl breaker_step (demo_breaker\<lparr>cb_state := HALF_OPEN, cb_opened_at := Some 5\<rparr>)
     (replicate 2 Succeeded)) = CLOSED"
  using half_open_recovery [of "demo_breaker\<lparr>cb_state := HALF_OPEN, cb_opened_at := Some 5\<rparr>" 2 7]
  by (simp add: demo_breaker_def breaker_init_def)

end
