(* ===== verification/ArtifactRegistry.thy ===== *)
theory ArtifactRegistry
  imports Base
begin

text \<open>
  \<open>detection/artifact_lifecycle.py\<close>: the registry of model artifacts. The state is the nested
  dictionary of records in memory (\<open>rg_data\<close>) and the manifest on disk (\<open>rg_disk\<close>), whose keys
  are written sorted. The trust verifier is a parameter: it accepts a record (\<open>None\<close>) or raises.
  The artifact files are a parameter \<open>files\<close> giving the SHA-256 of each existing path.
\<close>

subsection \<open>Records and stages\<close>

datatype artifact_stage = Staged | Validated | Promoted | Deprecated | RolledBack

fun stage_text :: "artifact_stage \<Rightarrow> string" where
  "stage_text Staged = ''staged''"
| "stage_text Validated = ''validated''"
| "stage_text Promoted = ''promoted''"
| "stage_text Deprecated = ''deprecated''"
| "stage_text RolledBack = ''rolled_back''"

fun legal_transitions :: "artifact_stage \<Rightarrow> artifact_stage list" where
  "legal_transitions Staged = [Validated, Deprecated]"
| "legal_transitions Validated = [Promoted, Deprecated]"
| "legal_transitions Promoted = [Deprecated, RolledBack]"
| "legal_transitions Deprecated = []"
| "legal_transitions RolledBack = [Staged]"

fun_cases stage_textE: "stage_text s = t"

lemma stage_text_inj [simp]: "stage_text s = stage_text t \<longleftrightarrow> s = t"
  by (auto elim!: stage_textE)

record history_entry =
  hi_stage :: string
  hi_at :: clock
  hi_reason :: "string option"

record artifact =
  art_name :: string
  art_version :: string
  art_path :: string
  art_sha256 :: string
  art_stage :: artifact_stage
  art_created_at :: clock
  art_metrics :: "(string, rat) dict"
  art_tags :: "(string, string) dict"
  art_parent_version :: "string option"
  art_rollback_reason :: "string option"
  art_history :: "history_entry list"

type_synonym manifest = "(string, (string, artifact) dict) dict"

record registry =
  rg_data :: manifest
  rg_disk :: manifest
  rg_trust_verifier :: "(artifact \<Rightarrow> string option) option"

datatype artifact_error =
    ArtifactFileNotFound string
  | ArtifactNotFoundError string "string option"
  | InvalidTransitionError string string artifact_stage artifact_stage
  | TrustVerificationRequiredError string string
  | TrustCheckRaised string
  | IntegrityCheckError string string string string

subsection \<open>Persistence\<close>

text \<open>\<open>json.dump(..., sort_keys=True)\<close> sorts the keys of every level.\<close>

definition sorted_dict :: "('k::linorder, 'v) dict \<Rightarrow> ('k, 'v) dict" where
  "sorted_dict d = sort_key fst d"

definition save :: "registry \<Rightarrow> registry" where
  "save r = r\<lparr>rg_disk := sorted_dict (map (\<lambda>(n, vs). (n, sorted_dict vs)) (rg_data r))\<rparr>"

definition registry_load :: "manifest \<Rightarrow> (artifact \<Rightarrow> string option) option \<Rightarrow> registry" where
  "registry_load disk verifier = \<lparr>rg_data = disk, rg_disk = disk, rg_trust_verifier = verifier\<rparr>"

subsection \<open>Operations\<close>

definition versions_of :: "string \<Rightarrow> registry \<Rightarrow> (string, artifact) dict" where
  "versions_of name r = (case dict_get (rg_data r) name of None \<Rightarrow> [] | Some vs \<Rightarrow> vs)"

definition set_record :: "string \<Rightarrow> string \<Rightarrow> artifact \<Rightarrow> registry \<Rightarrow> registry" where
  "set_record name version a r =
     r\<lparr>rg_data := dict_set name (dict_set version a (versions_of name r)) (rg_data r)\<rparr>"

definition artifact_get :: "string \<Rightarrow> string \<Rightarrow> registry \<Rightarrow> artifact_error + artifact" where
  "artifact_get name version r =
     (case dict_get (versions_of name r) version of
        None \<Rightarrow> Inl (ArtifactNotFoundError name (Some version)) | Some a \<Rightarrow> Inr a)"

definition active_in :: "string \<Rightarrow> registry \<Rightarrow> artifact option" where
  "active_in name r = find (\<lambda>a. art_stage a = Promoted) (dict_values (versions_of name r))"

definition get_active :: "string \<Rightarrow> registry \<Rightarrow> artifact_error + artifact" where
  "get_active name r =
     (case active_in name r of None \<Rightarrow> Inl (ArtifactNotFoundError name None) | Some a \<Rightarrow> Inr a)"

definition add_history :: "artifact_stage \<Rightarrow> clock \<Rightarrow> string option \<Rightarrow> artifact \<Rightarrow> artifact" where
  "add_history s now reason a =
     a\<lparr>art_history := art_history a @ [\<lparr>hi_stage = stage_text s, hi_at = now, hi_reason = reason\<rparr>]\<rparr>"

definition move :: "artifact_stage \<Rightarrow> clock \<Rightarrow> string option \<Rightarrow> artifact \<Rightarrow> artifact" where
  "move s now reason a = add_history s now reason (a\<lparr>art_stage := s\<rparr>)"

definition register ::
  "(string \<Rightarrow> string option) \<Rightarrow> clock \<Rightarrow> string \<Rightarrow> string \<Rightarrow> string \<Rightarrow> (string, rat) dict
     \<Rightarrow> (string, string) dict \<Rightarrow> string option \<Rightarrow> registry \<Rightarrow> (artifact_error + string) \<times> registry" where
  "register files now generated name path metrics tags version r =
     (case files path of
        None \<Rightarrow> (Inl (ArtifactFileNotFound path), r)
      | Some sha \<Rightarrow>
          (let v = (case version of Some v \<Rightarrow> if v = [] then generated else v | None \<Rightarrow> generated);
               a = \<lparr>art_name = name, art_version = v, art_path = path, art_sha256 = sha,
                    art_stage = Staged, art_created_at = now, art_metrics = metrics, art_tags = tags,
                    art_parent_version = map_option art_version (active_in name r),
                    art_rollback_reason = None, art_history = []\<rparr>
           in (Inr v, save (set_record name v (add_history Staged now None a) r))))"

definition transition ::
  "clock \<Rightarrow> string \<Rightarrow> string \<Rightarrow> artifact_stage \<Rightarrow> string option \<Rightarrow> registry
     \<Rightarrow> (artifact_error + artifact) \<times> registry" where
  "transition now name version target reason r =
     (case artifact_get name version r of
        Inl e \<Rightarrow> (Inl e, r)
      | Inr a \<Rightarrow>
          if target \<notin> set (legal_transitions (art_stage a))
          then (Inl (InvalidTransitionError name version (art_stage a) target), r)
          else (let a' = move target now reason a in (Inr a', save (set_record name version a' r))))"

definition validate :: "clock \<Rightarrow> string \<Rightarrow> string \<Rightarrow> registry \<Rightarrow> (artifact_error + artifact) \<times> registry" where
  "validate now name version = transition now name version Validated None"

definition deprecate ::
  "clock \<Rightarrow> string \<Rightarrow> string \<Rightarrow> string option \<Rightarrow> registry \<Rightarrow> (artifact_error + artifact) \<times> registry" where
  "deprecate now name version reason = transition now name version Deprecated reason"

definition supersede_others :: "clock \<Rightarrow> string \<Rightarrow> string \<Rightarrow> registry \<Rightarrow> registry" where
  "supersede_others now name version r =
     (case dict_get (rg_data r) name of
        None \<Rightarrow> r
      | Some vs \<Rightarrow> r\<lparr>rg_data := dict_set name
          (map (\<lambda>(v, a). (v, if art_stage a = Promoted \<and> v \<noteq> version
                             then move Deprecated now (Some ''superseded'') a else a)) vs) (rg_data r)\<rparr>)"

definition promote :: "clock \<Rightarrow> string \<Rightarrow> string \<Rightarrow> registry \<Rightarrow> (artifact_error + artifact) \<times> registry" where
  "promote now name version r =
     (case artifact_get name version r of
        Inl e \<Rightarrow> (Inl e, r)
      | Inr a \<Rightarrow>
          (case rg_trust_verifier r of
             None \<Rightarrow> (Inl (TrustVerificationRequiredError name version), r)
           | Some verifier \<Rightarrow>
               (case verifier a of
                  Some msg \<Rightarrow> (Inl (TrustCheckRaised msg), r)
                | None \<Rightarrow> transition now name version Promoted None (supersede_others now name version r))))"

definition rollback ::
  "clock \<Rightarrow> string \<Rightarrow> string option \<Rightarrow> string option \<Rightarrow> registry \<Rightarrow> (artifact_error + artifact) \<times> registry"
where
  "rollback now name version reason r =
     (case (case version of
              Some v \<Rightarrow> if v = [] then get_active name r else artifact_get name v r
            | None \<Rightarrow> get_active name r) of
        Inl e \<Rightarrow> (Inl e, r)
      | Inr a \<Rightarrow>
          (case transition now name (art_version a) RolledBack reason r of
             (Inl e, r1) \<Rightarrow> (Inl e, r1)
           | (Inr b, r1) \<Rightarrow>
               (let b' = b\<lparr>art_rollback_reason := reason\<rparr>;
                    r2 = set_record name (art_version a) b' r1
                in case art_parent_version b' of
                     None \<Rightarrow> (Inr b', save r2)
                   | Some p \<Rightarrow>
                       if p = [] then (Inr b', save r2)
                       else (case artifact_get name p r2 of
                               Inl e \<Rightarrow> (Inl e, r2)
                             | Inr parent \<Rightarrow>
                                 if art_stage parent \<in> {Deprecated, Validated}
                                 then (Inr b', save (set_record name p
                                        (move Promoted now (Some ''rollback_reactivation'') parent) r2))
                                 else (Inr b', save r2)))))"

definition verify_integrity ::
  "(string \<Rightarrow> string option) \<Rightarrow> string \<Rightarrow> string \<Rightarrow> registry \<Rightarrow> artifact_error + unit" where
  "verify_integrity files name version r =
     (case artifact_get name version r of
        Inl e \<Rightarrow> Inl e
      | Inr a \<Rightarrow>
          (case files (art_path a) of
             None \<Rightarrow> Inl (ArtifactNotFoundError name (Some version))
           | Some actual \<Rightarrow>
               if actual \<noteq> art_sha256 a
               then Inl (IntegrityCheckError name version (art_sha256 a) actual) else Inr ()))"

definition list_versions :: "string \<Rightarrow> registry \<Rightarrow> artifact list" where
  "list_versions name r = sort_key art_created_at (dict_values (versions_of name r))"

definition list_names :: "registry \<Rightarrow> string list" where
  "list_names r = sort (dict_keys (rg_data r))"

subsection \<open>How records change\<close>

lemma versions_of_set [simp]:
  "versions_of name' (set_record name version a r) =
     (if name' = name then dict_set version a (versions_of name r) else versions_of name' r)"
  by (simp add: versions_of_def set_record_def)

lemma save_sel [simp]:
  "rg_data (save r) = rg_data r" "rg_trust_verifier (save r) = rg_trust_verifier r"
  "versions_of name (save r) = versions_of name r"
  by (simp_all add: save_def versions_of_def)

lemma set_record_verifier [simp]: "rg_trust_verifier (set_record n v a r) = rg_trust_verifier r"
  by (simp add: set_record_def)

lemma move_sel [simp]:
  "art_stage (move s now reason a) = s" "art_version (move s now reason a) = art_version a"
  "art_parent_version (move s now reason a) = art_parent_version a"
  "art_sha256 (move s now reason a) = art_sha256 a"
  by (simp_all add: move_def add_history_def)

lemma versions_of_supersede:
  "versions_of name' (supersede_others now name version r) =
     (if name' = name
      then map (\<lambda>(v, a). (v, if art_stage a = Promoted \<and> v \<noteq> version
                             then move Deprecated now (Some ''superseded'') a else a)) (versions_of name r)
      else versions_of name' r)"
  by (auto simp: versions_of_def supersede_others_def split: option.split)

lemma map_of_map_pair: "map_of (map (\<lambda>(k, v). (k, f k v)) d) k = map_option (f k) (map_of d k)"
  by (induction d) auto

lemma get_supersede:
  "dict_get (versions_of name (supersede_others now name version r)) v =
     map_option (\<lambda>a. if art_stage a = Promoted \<and> v \<noteq> version
       then move Deprecated now (Some ''superseded'') a else a) (dict_get (versions_of name r) v)"
  by (simp add: versions_of_supersede
      map_of_map_pair [where f = "\<lambda>v a. if art_stage a = Promoted \<and> v \<noteq> version
        then move Deprecated now (Some ''superseded'') a else a"])

text \<open>The operations as events, so that a property speaks of every history of a registry.\<close>

datatype registry_event =
    Register clock string string string "(string, rat) dict" "(string, string) dict" "string option"
  | Validate clock string string
  | Promote clock string string
  | Deprecate clock string string "string option"
  | Rollback clock string "string option" "string option"

fun registry_step :: "(string \<Rightarrow> string option) \<Rightarrow> registry \<Rightarrow> registry_event \<Rightarrow> registry" where
  "registry_step files r (Register now generated name path metrics tags version) =
     snd (register files now generated name path metrics tags version r)"
| "registry_step files r (Validate now name version) = snd (validate now name version r)"
| "registry_step files r (Promote now name version) = snd (promote now name version r)"
| "registry_step files r (Deprecate now name version reason) = snd (deprecate now name version reason r)"
| "registry_step files r (Rollback now name version reason) = snd (rollback now name version reason r)"

text \<open>Versions are filed under their own name, and at most one of a family is promoted.\<close>

definition registry_inv :: "registry \<Rightarrow> bool" where
  "registry_inv r \<longleftrightarrow> (\<forall>name. dict_ok (versions_of name r) \<and>
     (\<forall>v a. dict_get (versions_of name r) v = Some a \<longrightarrow> art_version a = v) \<and>
     (\<forall>v a w b. dict_get (versions_of name r) v = Some a \<longrightarrow> dict_get (versions_of name r) w = Some b \<longrightarrow>
        art_stage a = Promoted \<longrightarrow> art_stage b = Promoted \<longrightarrow> v = w))"

lemma registry_invI:
  assumes "\<And>name. dict_ok (versions_of name r)"
    and "\<And>name v a. dict_get (versions_of name r) v = Some a \<Longrightarrow> art_version a = v"
    and "\<And>name v a w b. dict_get (versions_of name r) v = Some a \<Longrightarrow> dict_get (versions_of name r) w = Some b \<Longrightarrow>
        art_stage a = Promoted \<Longrightarrow> art_stage b = Promoted \<Longrightarrow> v = w"
  shows "registry_inv r"
  unfolding registry_inv_def using assms by simp

lemma registry_invD:
  assumes "registry_inv r"
  shows "dict_ok (versions_of name r)"
    and "dict_get (versions_of name r) v = Some a \<Longrightarrow> art_version a = v"
    and "dict_get (versions_of name r) v = Some a \<Longrightarrow> dict_get (versions_of name r) w = Some b \<Longrightarrow>
        art_stage a = Promoted \<Longrightarrow> art_stage b = Promoted \<Longrightarrow> v = w"
  using assms unfolding registry_inv_def by blast+

lemma inv_set:
  assumes "registry_inv r" and "art_version a = v"
    and "art_stage a \<noteq> Promoted \<or>
      (\<forall>w b. dict_get (versions_of name r) w = Some b \<longrightarrow> art_stage b = Promoted \<longrightarrow> w = v)"
  shows "registry_inv (set_record name v a r)"
  using assms unfolding registry_inv_def by (auto split: if_splits)

lemma inv_save [simp]: "registry_inv (save r) = registry_inv r"
  by (simp add: registry_inv_def)

lemma inv_supersede:
  assumes "registry_inv r"
  shows "registry_inv (supersede_others now name version r)"
proof -
  have "dict_keys (versions_of name' (supersede_others now name version r)) = dict_keys (versions_of name' r)"
    for name' by (auto simp: versions_of_supersede)
  then have ok: "dict_ok (versions_of name' (supersede_others now name version r))" for name'
    using registry_invD(1) [OF assms] by (simp add: dict_ok_def)
  have old: "dict_get (versions_of name' (supersede_others now name version r)) v = Some a \<Longrightarrow>
      \<exists>b. dict_get (versions_of name' r) v = Some b \<and> art_version a = art_version b \<and>
        (art_stage a = Promoted \<longrightarrow> art_stage b = Promoted)" for name' v a
  proof (cases "name' = name")
    case True
    assume "dict_get (versions_of name' (supersede_others now name version r)) v = Some a"
    with True show ?thesis by (auto simp: get_supersede split: if_splits)
  next
    case False
    assume "dict_get (versions_of name' (supersede_others now name version r)) v = Some a"
    with False show ?thesis by (simp add: versions_of_supersede)
  qed
  show ?thesis
  proof (rule registry_invI [OF ok])
    fix name' v a assume "dict_get (versions_of name' (supersede_others now name version r)) v = Some a"
    from old [OF this] show "art_version a = v" using registry_invD(2) [OF assms] by metis
  next
    fix name' v a w b
    assume "dict_get (versions_of name' (supersede_others now name version r)) v = Some a"
      and "dict_get (versions_of name' (supersede_others now name version r)) w = Some b"
      and "art_stage a = Promoted" "art_stage b = Promoted"
    with old [of name' v a] old [of name' w b] obtain a' b' where
      "dict_get (versions_of name' r) v = Some a'" "dict_get (versions_of name' r) w = Some b'"
      "art_stage a' = Promoted" "art_stage b' = Promoted" by blast
    then show "v = w" by (rule registry_invD(3) [OF assms])
  qed
qed

lemma transition_cases:
  assumes "transition now name v target reason r = (res, r')"
  obtains (failed) e where "res = Inl e" "r' = r"
      "\<And>a. dict_get (versions_of name r) v = Some a \<Longrightarrow> target \<notin> set (legal_transitions (art_stage a))"
    | (moved) a where "dict_get (versions_of name r) v = Some a"
      "target \<in> set (legal_transitions (art_stage a))" "res = Inr (move target now reason a)"
      "r' = save (set_record name v (move target now reason a) r)"
  using assms
  by (auto simp: transition_def artifact_get_def Let_def split: option.splits if_splits)

lemma inv_transition:
  assumes "registry_inv r" and "transition now name v target reason r = (res, r')"
    and "target = Promoted \<Longrightarrow>
      (\<forall>w b. dict_get (versions_of name r) w = Some b \<longrightarrow> art_stage b = Promoted \<longrightarrow> w = v)"
  shows "registry_inv r'"
  using assms(2)
proof (cases rule: transition_cases)
  case failed
  then show ?thesis using assms(1) by simp
next
  case (moved a)
  have "art_version a = v" using assms(1) moved(1) by (auto simp: registry_inv_def)
  then show ?thesis unfolding moved(4) inv_save
    by (intro inv_set [OF assms(1)]) (use assms(3) in auto)
qed

lemma only_version_promoted:
  assumes "dict_get (versions_of name (supersede_others now name version r)) w = Some b"
    and "art_stage b = Promoted"
  shows "w = version"
proof -
  obtain a where "b = (if art_stage a = Promoted \<and> w \<noteq> version
      then move Deprecated now (Some ''superseded'') a else a)"
    using assms(1) by (auto simp: get_supersede)
  with assms(2) show ?thesis by (cases "art_stage a = Promoted \<and> w \<noteq> version") auto
qed

lemma inv_promote:
  assumes "registry_inv r"
  shows "registry_inv (snd (promote now name v r))"
proof -
  obtain res r' where t: "transition now name v Promoted None (supersede_others now name v r) = (res, r')"
    by fastforce
  have "registry_inv r'"
    by (rule inv_transition [OF inv_supersede [OF assms] t]) (use only_version_promoted in blast)
  then show ?thesis using assms t by (auto simp: promote_def split: sum.split option.split)
qed

lemma inv_rollback:
  assumes "registry_inv r"
  shows "registry_inv (snd (rollback now name version reason r))"
proof -
  let ?target = "case version of Some v \<Rightarrow> if v = [] then get_active name r else artifact_get name v r
    | None \<Rightarrow> get_active name r"
  show ?thesis
  proof (cases ?target)
    case (Inl e)
    then show ?thesis using assms by (simp add: rollback_def)
  next
    case target: (Inr a)
    obtain res r1 where t: "transition now name (art_version a) RolledBack reason r = (res, r1)" by fastforce
    from t show ?thesis
    proof (cases rule: transition_cases)
      case (failed e)
      then show ?thesis using target t assms by (simp add: rollback_def)
    next
      case (moved a1)
      let ?v = "art_version a"
      let ?b = "(move RolledBack now reason a1)\<lparr>art_rollback_reason := reason\<rparr>"
      let ?r2 = "set_record name ?v ?b r1"
      have a1: "art_version a1 = ?v" "art_stage a1 = Promoted"
        using registry_invD(2) [OF assms moved(1)] moved(2) by (simp, cases "art_stage a1") simp_all
      have r1: "registry_inv r1" by (rule inv_transition [OF assms t]) simp
      have r2: "registry_inv ?r2" by (rule inv_set [OF r1]) (simp_all add: a1)
      have none: "art_stage b \<noteq> Promoted" if "dict_get (versions_of name ?r2) w = Some b" for w b
      proof (cases "w = ?v")
        case True
        then show ?thesis using that by auto
      next
        case False
        then have "dict_get (versions_of name r) w = Some b" using that moved(4) by simp
        then show ?thesis using registry_invD(3) [OF assms moved(1) _ a1(2)] False by blast
      qed
      have "registry_inv (set_record name p (move Promoted now (Some x) parent) ?r2)"
        if "dict_get (versions_of name ?r2) p = Some parent" for p x parent
        using registry_invD(2) [OF r2 that] none by (intro inv_set [OF r2]) auto
      then have reactivate: "artifact_get name p ?r2 = Inr parent \<Longrightarrow>
          registry_inv (set_record name p (move Promoted now (Some x) parent) ?r2)" for p x parent
        by (auto simp: artifact_get_def split: option.splits)
      show ?thesis
        using target t moved(3) r2 reactivate
        by (auto simp: rollback_def Let_def split: option.split sum.split)
    qed
  qed
qed

lemma inv_register:
  assumes "registry_inv r"
  shows "registry_inv (snd (register files now generated name path metrics tags version r))"
  using assms by (auto simp: register_def Let_def add_history_def intro!: inv_set split: option.split)

interpretation artifacts: preserved "registry_step files" registry_inv for files
proof
  fix r e assume inv: "registry_inv r"
  have tr: "registry_inv (snd (transition now name v target reason r))" if "target \<noteq> Promoted"
    for now name v target reason
    using inv_transition [OF inv prod.collapse [symmetric]] that by blast
  show "registry_inv (registry_step files r e)"
    using inv by (cases e)
      (simp_all add: inv_register inv_promote inv_rollback validate_def deprecate_def tr)
qed

subsection \<open>Properties\<close>

definition promoted_versions :: "string \<Rightarrow> registry \<Rightarrow> string list" where
  "promoted_versions name r = map fst (filter (\<lambda>(v, a). art_stage a = Promoted) (versions_of name r))"

lemma find_SomeD: "find P xs = Some x \<Longrightarrow> x \<in> set xs \<and> P x"
  by (induction xs) (auto split: if_splits)

lemma active_inD:
  assumes "active_in name r = Some c"
  shows "c \<in> set (dict_values (versions_of name r))" and "art_stage c = Promoted"
  using find_SomeD [of _ _ c] assms unfolding active_in_def by blast+

lemma active_is:
  assumes "registry_inv r" and "dict_get (versions_of name r) v = Some a" and "art_stage a = Promoted"
  shows "active_in name r = Some a"
proof -
  have "a \<in> set (dict_values (versions_of name r))" using assms(2) by (rule dict_get_in_values)
  then have "active_in name r \<noteq> None" using assms(3) unfolding active_in_def find_None_iff by blast
  then obtain c where c: "active_in name r = Some c" by blast
  from iffD1 [OF dict_values_iff [OF registry_invD(1) [OF assms(1)]] active_inD(1) [OF c]]
  obtain w where "dict_get (versions_of name r) w = Some c" by (rule exE)
  with registry_invD(3) [OF assms(1,2) this assms(3) active_inD(2) [OF c]] assms(2) c show ?thesis by simp
qed

lemma inv_promoted_unique: "registry_inv r \<Longrightarrow> length (promoted_versions name r) \<le> 1"
proof -
  assume inv: "registry_inv r"
  then have ok: "distinct (map fst (versions_of name r))" by (simp add: registry_inv_def dict_ok_def)
  then have d: "distinct (promoted_versions name r)"
    by (simp add: promoted_versions_def distinct_map_filter)
  have "v = w" if "v \<in> set (promoted_versions name r)" "w \<in> set (promoted_versions name r)" for v w
  proof -
    from that obtain a b where "(v, a) \<in> set (versions_of name r)" "art_stage a = Promoted"
        "(w, b) \<in> set (versions_of name r)" "art_stage b = Promoted"
      by (auto simp: promoted_versions_def)
    then show ?thesis using inv ok unfolding registry_inv_def by (metis map_of_is_SomeI)
  qed
  with d show ?thesis
    by (cases "promoted_versions name r") (auto, metis distinct_length_2_or_more length_Suc_conv list.exhaust list.set_intros length_0_conv le_zero_eq)
qed

text \<open>
  C19. In every history of registrations, validations, promotions, deprecations and rollbacks,
  failed calls included, a family of artifacts never has two promoted versions, so the active
  version is unambiguous.
\<close>

theorem one_active_version:
  assumes "registry_inv r"
  shows "length (promoted_versions name (foldl (registry_step files) r es)) \<le> 1"
  by (rule inv_promoted_unique [OF artifacts.run_inv [OF assms]])

text \<open>
  C20. A promotion succeeds exactly when the version is registered and validated, a trust verifier is
  configured and it accepts the version's record; then that record, with the digest it was
  registered with, is the active one of its family, on disk too as soon as the manifest is written.
\<close>

theorem promote_is_trusted:
  assumes "registry_inv r" and "promote now name v r = (res, r')"
  shows "((\<exists>a'. res = Inr a') \<longleftrightarrow> (\<exists>a verifier. dict_get (versions_of name r) v = Some a \<and>
        art_stage a = Validated \<and> rg_trust_verifier r = Some verifier \<and> verifier a = None)) \<and>
    (\<forall>a'. res = Inr a' \<longrightarrow> (\<exists>a. dict_get (versions_of name r) v = Some a \<and> a' = move Promoted now None a \<and>
        art_sha256 a' = art_sha256 a) \<and> active_in name r' = Some a' \<and> r' = save r')"
proof (cases res)
  case (Inr a')
  obtain a verifier where a: "dict_get (versions_of name r) v = Some a" "rg_trust_verifier r = Some verifier"
      "verifier a = None"
    and t: "transition now name v Promoted None (supersede_others now name v r) = (Inr a', r')"
    using assms(2) Inr by (auto simp: promote_def artifact_get_def split: option.splits)
  from t show ?thesis
  proof (cases rule: transition_cases)
    case (failed e)
    then show ?thesis by simp
  next
    case (moved b)
    have "b = a" using moved(1) a(1) by (simp add: get_supersede)
    moreover have "art_stage a = Validated" using moved(2) \<open>b = a\<close> by (cases "art_stage a") auto
    moreover have inv: "registry_inv r'"
      using inv_promote [OF assms(1), of now name v] assms(2) by simp
    moreover have here: "dict_get (versions_of name r') v = Some a'"
      using moved(3,4) by simp
    moreover have "active_in name r' = Some a'"
      by (rule active_is [OF inv here]) (use moved(3) in simp)
    ultimately show ?thesis using a moved(3,4) Inr by (auto simp: save_def)
  qed
next
  case (Inl e)
  have False if "dict_get (versions_of name r) v = Some a" "art_stage a = Validated"
    "rg_trust_verifier r = Some verifier" "verifier a = None" for a verifier
    using that Inl assms(2)
    by (simp add: promote_def artifact_get_def transition_def get_supersede Let_def)
  with Inl show ?thesis by blast
qed

text \<open>
  A promotion of a version that is not validated, by a verifier that accepts it, fails only
  after the active version has been deprecated: the error leaves the family with no active
  version in memory while the manifest on disk still has it.
\<close>

theorem failed_promote_deactivates:
  assumes "registry_inv r" and "dict_get (versions_of name r) v = Some a"
    and "art_stage a \<notin> {Validated, Promoted}"
    and "rg_trust_verifier r = Some verifier" and "verifier a = None"
  shows "fst (promote now name v r) = Inl (InvalidTransitionError name v (art_stage a) Promoted) \<and>
    active_in name (snd (promote now name v r)) = None \<and> rg_disk (snd (promote now name v r)) = rg_disk r"
proof -
  let ?s = "supersede_others now name v r"
  have "dict_get (versions_of name ?s) v = Some a" using assms(2) by (simp add: get_supersede)
  moreover have "Promoted \<notin> set (legal_transitions (art_stage a))"
    using assms(3) by (cases "art_stage a") auto
  ultimately have p: "promote now name v r = (Inl (InvalidTransitionError name v (art_stage a) Promoted), ?s)"
    using assms by (simp add: promote_def transition_def artifact_get_def)
  have "active_in name ?s = None"
  proof (rule ccontr)
    assume "active_in name ?s \<noteq> None"
    then obtain b where "active_in name ?s = Some b" by blast
    from active_inD [OF this]
    have "b \<in> set (dict_values (versions_of name ?s))" "art_stage b = Promoted" .
    moreover then obtain w where w: "dict_get (versions_of name ?s) w = Some b"
      using dict_values_iff [OF registry_invD(1) [OF inv_supersede [OF assms(1)]]] by blast
    ultimately have "w = v" using only_version_promoted by blast
    with w \<open>dict_get (versions_of name ?s) v = Some a\<close> \<open>art_stage b = Promoted\<close> assms(3) show False by simp
  qed
  with p show ?thesis by (simp add: supersede_others_def split: option.split)
qed

text \<open>
  Rolling back the active version makes its deprecated parent the active one again.
\<close>

theorem rollback_reactivates_parent:
  assumes "registry_inv r" and "active_in name r = Some a" and "art_parent_version a = Some p"
    and "p \<noteq> []" and "dict_get (versions_of name r) p = Some parent" and "art_stage parent = Deprecated"
  shows "map_option art_version (active_in name (snd (rollback now name None reason r))) = Some p \<and>
    (\<exists>b. fst (rollback now name None reason r) = Inr b \<and> art_stage b = RolledBack \<and>
       dict_get (versions_of name (snd (rollback now name None reason r))) (art_version a) = Some b)"
proof -
  let ?v = "art_version a"
  obtain w where "dict_get (versions_of name r) w = Some a"
    using dict_values_iff [OF registry_invD(1) [OF assms(1)]] active_inD(1) [OF assms(2)] by blast
  then have a: "dict_get (versions_of name r) ?v = Some a" using registry_invD(2) [OF assms(1)] by blast
  have prom: "art_stage a = Promoted" using active_inD(2) [OF assms(2)] .
  have pv: "p \<noteq> ?v" using a assms(5,6) prom by auto
  let ?b = "(move RolledBack now reason a)\<lparr>art_rollback_reason := reason\<rparr>"
  let ?p = "move Promoted now (Some ''rollback_reactivation'') parent"
  let ?r1 = "save (set_record name ?v (move RolledBack now reason a) r)"
  let ?r' = "save (set_record name p ?p (set_record name ?v ?b ?r1))"
  have roll: "rollback now name None reason r = (Inr ?b, ?r')"
    using assms(2-6) a prom pv
    by (simp add: rollback_def get_active_def transition_def artifact_get_def Let_def)
  have inv: "registry_inv ?r'" using inv_rollback [OF assms(1), of now name None reason] roll by simp
  have here: "dict_get (versions_of name ?r') p = Some ?p" by simp
  have "active_in name ?r' = Some ?p"
    by (rule active_is [OF inv here]) simp
  moreover have "art_version ?p = p" using registry_invD(2) [OF assms(1,5)] by simp
  ultimately show ?thesis using roll pv by (simp add: move_sel)
qed

subsection \<open>Witnesses\<close>

definition demo_files :: "string \<Rightarrow> string option" where
  "demo_files path = Some path"

definition demo_registry :: registry where
  "demo_registry = foldl (registry_step demo_files) (registry_load [] (Some (\<lambda>a. None)))
     [Register 0 [] ''rf'' ''a'' [] [] (Some ''1''), Validate 1 ''rf'' ''1'', Promote 2 ''rf'' ''1'',
      Register 3 [] ''rf'' ''b'' [] [] (Some ''2'')]"

lemma demo_registry_inv: "registry_inv demo_registry"
  unfolding demo_registry_def
  by (rule artifacts.run_inv) (simp add: registry_inv_def registry_load_def versions_of_def)

lemmas registry_eval =
  register_def validate_def promote_def transition_def artifact_get_def versions_of_def
  set_record_def save_def registry_load_def demo_files_def move_def add_history_def
  supersede_others_def active_in_def sorted_dict_def Let_def

lemma demo_registry_get:
  "map_option art_stage (dict_get (versions_of ''rf'' demo_registry) ''1'') = Some Promoted"
  "map_option art_stage (dict_get (versions_of ''rf'' demo_registry) ''2'') = Some Staged"
  "rg_trust_verifier demo_registry = Some (\<lambda>a. None)"
  by (simp_all add: demo_registry_def registry_eval)

theorem one_active_version_witness:
  "length (promoted_versions ''rf'' (foldl (registry_step demo_files) demo_registry
     [Validate 4 ''rf'' ''2'', Promote 5 ''rf'' ''2'', Rollback 6 ''rf'' None None])) \<le> 1"
  by (rule one_active_version [OF demo_registry_inv])

theorem promote_is_trusted_witness:
  "\<exists>a. active_in ''rf'' (snd (promote 5 ''rf'' ''2'' (snd (validate 4 ''rf'' ''2'' demo_registry)))) = Some a
     \<and> art_version a = ''2''"
proof -
  let ?r = "snd (validate 4 ''rf'' ''2'' demo_registry)"
  have inv: "registry_inv ?r"
    using artifacts.run_inv [OF demo_registry_inv, of demo_files "[Validate 4 ''rf'' ''2'']"] by simp
  obtain a' where p: "promote 5 ''rf'' ''2'' ?r = (Inr a', snd (promote 5 ''rf'' ''2'' ?r))"
    and v: "art_version a' = ''2''"
    by (simp add: demo_registry_def registry_eval)
  show ?thesis using promote_is_trusted [OF inv p] v by auto
qed

theorem failed_promote_deactivates_witness:
  "active_in ''rf'' (snd (promote 5 ''rf'' ''2'' demo_registry)) = None \<and>
   active_in ''rf'' demo_registry \<noteq> None"
proof -
  obtain a where "dict_get (versions_of ''rf'' demo_registry) ''2'' = Some a" "art_stage a = Staged"
    using demo_registry_get(2) by auto
  with failed_promote_deactivates [OF demo_registry_inv this(1) _ demo_registry_get(3), of 5]
  have "active_in ''rf'' (snd (promote 5 ''rf'' ''2'' demo_registry)) = None" by simp
  moreover obtain b where "dict_get (versions_of ''rf'' demo_registry) ''1'' = Some b" "art_stage b = Promoted"
    using demo_registry_get(1) by auto
  ultimately show ?thesis using active_is [OF demo_registry_inv] by fastforce
qed

theorem rollback_reactivates_parent_witness:
  "map_option art_version (active_in ''rf'' (snd (rollback 6 ''rf'' None None
     (foldl (registry_step demo_files) demo_registry [Validate 4 ''rf'' ''2'', Promote 5 ''rf'' ''2''])))) = Some ''1''"
proof -
  let ?r = "foldl (registry_step demo_files) demo_registry [Validate 4 ''rf'' ''2'', Promote 5 ''rf'' ''2'']"
  have inv: "registry_inv ?r" by (rule artifacts.run_inv [OF demo_registry_inv])
  obtain a parent where "active_in ''rf'' ?r = Some a" "art_parent_version a = Some ''1''"
      "dict_get (versions_of ''rf'' ?r) ''1'' = Some parent" "art_stage parent = Deprecated"
    by (simp add: demo_registry_def registry_eval)
  from rollback_reactivates_parent [OF inv this(1,2) _ this(3,4)] show ?thesis by simp
qed

text \<open>
  A rollback runs no trust check: registering new bytes under the version of the parent
  and validating them is enough for a rollback to make active what the verifier rejects, here
  the artifact with digest \<open>bad\<close>.
\<close>

theorem rollback_promotes_unverified:
  "map_option art_sha256 (active_in ''rf'' (foldl (registry_step demo_files)
     (registry_load [] (Some (\<lambda>a. if art_sha256 a = ''bad'' then Some ''untrusted'' else None)))
     [Register 0 [] ''rf'' ''good'' [] [] (Some ''1''), Validate 1 ''rf'' ''1'', Promote 2 ''rf'' ''1'',
      Register 3 [] ''rf'' ''good2'' [] [] (Some ''2''), Validate 4 ''rf'' ''2'', Promote 5 ''rf'' ''2'',
      Register 6 [] ''rf'' ''bad'' [] [] (Some ''1''), Validate 7 ''rf'' ''1'',
      Rollback 8 ''rf'' None None])) = Some ''bad''"
  by (simp add: registry_eval rollback_def get_active_def)

end
