(* ===== verification/RollbackTrigger.thy ===== *)
theory RollbackTrigger
  imports ArtifactRegistry
begin

text \<open>
  \<open>detection/rollback_trigger.py\<close>: the post-deployment monitor that rolls a model version back
  when its metrics regress. Its state holds the registry it drives, the baselines, deployment
  times and overrides per \<open>(model, version)\<close>, and the audit log, a list of entries in the order
  they are appended. The text of a rollback's reason is a parameter of the names it lists.
\<close>

record rollback_config =
  rc_window_seconds :: rat
  rc_thresholds :: "(string, rat) dict"

record regression_detail =
  rd_metric :: string
  rd_baseline_value :: rat
  rd_observed_value :: rat
  rd_drop :: rat
  rd_threshold :: rat

record evaluation_result =
  ev_model_name :: string
  ev_version :: string
  ev_evaluated_at :: clock
  ev_within_window :: bool
  ev_regressions :: "regression_detail list"
  ev_rolled_back :: bool
  ev_suppressed :: bool
  ev_suppression_reason :: "string option"
  ev_previous_active_version :: "string option"

record override_record =
  ov_suppress :: bool
  ov_reason :: "string option"
  ov_set_at :: clock

datatype audit_entry =
    OverrideSet string string bool "string option"
  | Evaluation evaluation_result
  | RollbackTriggered evaluation_result

type_synonym model_key = "string \<times> string"

record monitor =
  mo_registry :: registry
  mo_config :: rollback_config
  mo_baselines :: "(model_key, (string, rat) dict) dict"
  mo_deploy_times :: "(model_key, clock) dict"
  mo_overrides :: "(model_key, override_record) dict"
  mo_audit :: "audit_entry list"

definition default_thresholds :: "(string, rat) dict" where
  "default_thresholds = [(''auc_roc'', 2/100), (''f1'', 3/100), (''precision'', 3/100), (''recall'', 3/100)]"

definition record_baseline ::
  "clock \<Rightarrow> string \<Rightarrow> string \<Rightarrow> (string, rat) dict \<Rightarrow> clock option \<Rightarrow> monitor \<Rightarrow> monitor" where
  "record_baseline now model version metrics deploy_time m =
     m\<lparr>mo_baselines := dict_set (model, version) metrics (mo_baselines m),
       mo_deploy_times := dict_set (model, version)
         (case deploy_time of Some t \<Rightarrow> t | None \<Rightarrow> now) (mo_deploy_times m)\<rparr>"

definition set_override ::
  "clock \<Rightarrow> string \<Rightarrow> string \<Rightarrow> bool \<Rightarrow> string option \<Rightarrow> monitor \<Rightarrow> monitor" where
  "set_override now model version suppress reason m =
     m\<lparr>mo_overrides := dict_set (model, version)
         \<lparr>ov_suppress = suppress, ov_reason = reason, ov_set_at = now\<rparr> (mo_overrides m),
       mo_audit := mo_audit m @ [OverrideSet model version suppress reason]\<rparr>"

definition regressions_of ::
  "(string, rat) dict \<Rightarrow> (string, rat) dict \<Rightarrow> (string, rat) dict \<Rightarrow> regression_detail list" where
  "regressions_of thresholds baseline observed =
     concat (map (\<lambda>(metric, threshold).
       case (dict_get baseline metric, dict_get observed metric) of
         (Some b, Some v) \<Rightarrow>
           if b - v > threshold
           then [\<lparr>rd_metric = metric, rd_baseline_value = b, rd_observed_value = v, rd_drop = b - v,
                  rd_threshold = threshold\<rparr>]
           else []
       | _ \<Rightarrow> []) thresholds)"

definition evaluate ::
  "(string list \<Rightarrow> string) \<Rightarrow> clock \<Rightarrow> string \<Rightarrow> string \<Rightarrow> (string, rat) dict \<Rightarrow> clock \<Rightarrow> monitor
     \<Rightarrow> evaluation_result \<times> monitor" where
  "evaluate reason_text now model version observed eval_time m =
     (let key = (model, version);
          within_window = (case dict_get (mo_deploy_times m) key of
                             None \<Rightarrow> False | Some t \<Rightarrow> eval_time - t \<le> rc_window_seconds (mo_config m));
          baseline = (case dict_get (mo_baselines m) key of None \<Rightarrow> [] | Some b \<Rightarrow> b);
          regressions = regressions_of (rc_thresholds (mo_config m)) baseline observed;
          suppressed = (case dict_get (mo_overrides m) key of None \<Rightarrow> False | Some ov \<Rightarrow> ov_suppress ov);
          suppression_reason = (if suppressed then Option.bind (dict_get (mo_overrides m) key) ov_reason else None);
          should_rollback = (regressions \<noteq> [] \<and> within_window \<and> \<not> suppressed);
          (outcome, registry) =
            (if should_rollback
             then rollback now model (Some version) (Some (reason_text (map rd_metric regressions))) (mo_registry m)
             else (Inl (ArtifactNotFoundError model None), mo_registry m));
          result = \<lparr>ev_model_name = model, ev_version = version, ev_evaluated_at = eval_time,
                    ev_within_window = within_window, ev_regressions = regressions,
                    ev_rolled_back = (\<not> isl outcome), ev_suppressed = suppressed,
                    ev_suppression_reason = suppression_reason,
                    ev_previous_active_version =
                      (case outcome of
                         Inl _ \<Rightarrow> None
                       | Inr a \<Rightarrow> (case art_parent_version a of
                                     None \<Rightarrow> None | Some p \<Rightarrow> if p = [] then None else Some p))\<rparr>
      in (result, m\<lparr>mo_registry := registry,
           mo_audit := mo_audit m @ [if ev_rolled_back result then RollbackTriggered result
                                     else Evaluation result]\<rparr>))"

subsection \<open>Properties\<close>

lemma regressions_of_set:
  "r \<in> set (regressions_of thresholds baseline observed) \<longleftrightarrow>
     (\<exists>metric threshold b v. (metric, threshold) \<in> set thresholds \<and> dict_get baseline metric = Some b \<and>
        dict_get observed metric = Some v \<and> b - v > threshold \<and>
        r = \<lparr>rd_metric = metric, rd_baseline_value = b, rd_observed_value = v, rd_drop = b - v,
             rd_threshold = threshold\<rparr>)"
  unfolding regressions_of_def by (fastforce split: option.splits if_splits prod.splits)

lemma rollback_parent:
  assumes "rollback now name version reason r = (Inr a, r')"
  shows "art_stage a = RolledBack"
proof -
  let ?target = "case version of Some v \<Rightarrow> if v = [] then get_active name r else artifact_get name v r
    | None \<Rightarrow> get_active name r"
  obtain c where c: "?target = Inr c" using assms by (cases ?target) (simp_all add: rollback_def)
  obtain res r1 where t: "transition now name (art_version c) RolledBack reason r = (res, r1)" by fastforce
  from t show ?thesis
  proof (cases rule: transition_cases)
    case (failed e)
    then show ?thesis using assms c t by (simp add: rollback_def)
  next
    case (moved b)
    then have "a = (move RolledBack now reason b)\<lparr>art_rollback_reason := reason\<rparr>"
      using assms c t
      by (auto simp: rollback_def Let_def split: option.splits if_splits sum.splits)
    then show ?thesis by simp
  qed
qed

text \<open>
  The monitor touches the registry only when a metric fell by more than its threshold below
  the recorded baseline, inside the window after deployment, with no override in force; in
  every other case the registry is left as it is, and every evaluation appends one entry to the
  audit log.
\<close>

theorem rollback_only_on_regression:
  "let (result, m') = evaluate text now model version observed t m in
     length (mo_audit m') = length (mo_audit m) + 1 \<and>
     (mo_registry m' = mo_registry m \<or>
      (\<exists>deployed metric threshold b v.
         dict_get (mo_deploy_times m) (model, version) = Some deployed \<and>
         t - deployed \<le> rc_window_seconds (mo_config m) \<and>
         (metric, threshold) \<in> set (rc_thresholds (mo_config m)) \<and>
         Option.bind (dict_get (mo_baselines m) (model, version)) (\<lambda>d. dict_get d metric) = Some b \<and>
         dict_get observed metric = Some v \<and> b - v > threshold \<and>
         (case dict_get (mo_overrides m) (model, version) of
            None \<Rightarrow> True | Some ov \<Rightarrow> \<not> ov_suppress ov)))"
proof -
  let ?base = "case dict_get (mo_baselines m) (model, version) of None \<Rightarrow> [] | Some b \<Rightarrow> b"
  let ?regs = "regressions_of (rc_thresholds (mo_config m)) ?base observed"
  let ?win = "case dict_get (mo_deploy_times m) (model, version) of
      None \<Rightarrow> False | Some d \<Rightarrow> t - d \<le> rc_window_seconds (mo_config m)"
  let ?sup = "case dict_get (mo_overrides m) (model, version) of None \<Rightarrow> False | Some ov \<Rightarrow> ov_suppress ov"
  show ?thesis
  proof (cases "?regs \<noteq> [] \<and> ?win \<and> \<not> ?sup")
    case False
    then show ?thesis by (auto simp: evaluate_def Let_def)
  next
    case True
    then obtain r where "r \<in> set ?regs" by (cases ?regs) auto
    then obtain metric threshold b v where reg: "(metric, threshold) \<in> set (rc_thresholds (mo_config m))"
        "dict_get ?base metric = Some b" "dict_get observed metric = Some v" "b - v > threshold"
      by (auto simp: regressions_of_set)
    then have "Option.bind (dict_get (mo_baselines m) (model, version)) (\<lambda>d. dict_get d metric) = Some b"
      by (cases "dict_get (mo_baselines m) (model, version)") auto
    moreover obtain d where "dict_get (mo_deploy_times m) (model, version) = Some d"
        "t - d \<le> rc_window_seconds (mo_config m)" using True by (auto split: option.splits)
    moreover have "case dict_get (mo_overrides m) (model, version) of
            None \<Rightarrow> True | Some ov \<Rightarrow> \<not> ov_suppress ov" using True by (auto split: option.splits)
    moreover have "length (mo_audit (snd (evaluate text now model version observed t m))) = length (mo_audit m) + 1"
      by (simp add: evaluate_def Let_def split: prod.split)
    ultimately show ?thesis using reg(1,3,4) by (auto simp: case_prod_beta)
  qed
qed

text \<open>
  When a rollback is reported, the version is rolled back in the registry, its family still
  has at most one promoted version, and the audit log ends with the entry that says so.
\<close>

theorem reported_rollback_happened:
  assumes "registry_inv (mo_registry m)"
    and "evaluate text now model version observed t m = (result, m')" and "ev_rolled_back result"
  shows "length (promoted_versions model (mo_registry m')) \<le> 1 \<and>
    last (mo_audit m') = RollbackTriggered result \<and>
    (\<exists>a reason. rollback now model (Some version) (Some reason) (mo_registry m) = (Inr a, mo_registry m') \<and>
       art_stage a = RolledBack)"
proof -
  obtain a reason where roll: "rollback now model (Some version) (Some reason) (mo_registry m) = (Inr a, mo_registry m')"
    and last: "last (mo_audit m') = RollbackTriggered result"
    using assms(2,3)
    by (auto simp: evaluate_def Let_def split: prod.splits if_splits sum.splits)
  have "registry_inv (mo_registry m')"
    using inv_rollback [OF assms(1), of now model "Some version" "Some reason"] roll by simp
  then show ?thesis using roll last rollback_parent [OF roll] inv_promoted_unique by blast
qed

subsection \<open>Witnesses\<close>

definition demo_monitor :: monitor where
  "demo_monitor =
     \<lparr>mo_registry = demo_registry, mo_config = \<lparr>rc_window_seconds = 3600, rc_thresholds = default_thresholds\<rparr>,
      mo_baselines = [((''rf'', ''1''), [(''f1'', 9/10)])], mo_deploy_times = [((''rf'', ''1''), 100)],
      mo_overrides = [], mo_audit = []\<rparr>"

theorem reported_rollback_happened_witness:
  "promoted_versions ''rf'' (mo_registry (snd (evaluate concat 900 ''rf'' ''1'' [(''f1'', 8/10)] 900 demo_monitor))) = [] \<and>
   last (mo_audit (snd (evaluate concat 900 ''rf'' ''1'' [(''f1'', 8/10)] 900 demo_monitor))) =
     RollbackTriggered (fst (evaluate concat 900 ''rf'' ''1'' [(''f1'', 8/10)] 900 demo_monitor))"
proof -
  let ?e = "evaluate concat 900 ''rf'' ''1'' [(''f1'', 8/10)] 900 demo_monitor"
  have inv: "registry_inv (mo_registry demo_monitor)"
    using demo_registry_inv by (simp add: demo_monitor_def)
  have rolled: "ev_rolled_back (fst ?e)" and none: "promoted_versions ''rf'' (mo_registry (snd ?e)) = []"
    by (simp_all add: evaluate_def demo_monitor_def regressions_of_def default_thresholds_def
        rollback_def get_active_def demo_registry_def registry_eval promoted_versions_def)
  from reported_rollback_happened [OF inv prod.collapse [symmetric] rolled] none show ?thesis by simp
qed

end
