(* ===== verification/CacheInvalidation.thy ===== *)
theory CacheInvalidation
  imports Base
begin

text \<open>
  \<open>detection/cache_invalidation.py\<close>: the graph of derived keys and their sources, with its
  breadth-first cascade, and the registry that evicts what a changed source invalidates. A Python
  set is a list without repetitions (in one of the orders the interpreter may give it; the
  properties speak of its set). An evictor is a cache's name; whether the callback raises on a
  key is the parameter \<open>fails\<close>, and \<open>ir_evicted\<close> is the trace of the calls that returned.
\<close>

subsection \<open>The dependency graph\<close>

record dep_graph =
  dg_forward :: "(string, string list) dict"
  dg_reverse :: "(string, string list) dict"

definition empty_graph :: dep_graph where
  "empty_graph = \<lparr>dg_forward = [], dg_reverse = []\<rparr>"

definition set_of :: "('k, 'v list) dict \<Rightarrow> 'k \<Rightarrow> 'v list" where
  "set_of d k = (case dict_get d k of None \<Rightarrow> [] | Some xs \<Rightarrow> xs)"

definition add_edge :: "string \<Rightarrow> string \<Rightarrow> dep_graph \<Rightarrow> dep_graph" where
  "add_edge derived_key source g =
     g\<lparr>dg_forward := dict_set source (List.insert derived_key (set_of (dg_forward g) source)) (dg_forward g),
       dg_reverse := dict_set derived_key (List.insert source (set_of (dg_reverse g) derived_key)) (dg_reverse g)\<rparr>"

definition drop_forward :: "string \<Rightarrow> string \<Rightarrow> (string, string list) dict \<Rightarrow> (string, string list) dict" where
  "drop_forward derived_key source fwd =
     (let rest = removeAll derived_key (set_of fwd source)
      in if rest = [] then dict_pop source fwd else dict_set source rest fwd)"

definition remove_key :: "string \<Rightarrow> dep_graph \<Rightarrow> dep_graph" where
  "remove_key derived_key g =
     g\<lparr>dg_reverse := dict_pop derived_key (dg_reverse g),
       dg_forward := fold (drop_forward derived_key) (set_of (dg_reverse g) derived_key) (dg_forward g)\<rparr>"

definition set_dependencies :: "string \<Rightarrow> string list \<Rightarrow> dep_graph \<Rightarrow> dep_graph" where
  "set_dependencies derived_key sources g = fold (add_edge derived_key) sources (remove_key derived_key g)"

text \<open>
  The loop of \<open>dependents_of\<close> over its queue and the keys already seen: it ends because every
  turn either shortens the queue or sees a key for the first time.
\<close>

function dependents_loop :: "(string, string list) dict \<Rightarrow> string list \<Rightarrow> string list \<Rightarrow> string list" where
  "dependents_loop fwd [] seen = seen"
| "dependents_loop fwd (key # queue) seen =
     (if key \<in> set seen then dependents_loop fwd queue seen
      else dependents_loop fwd
             (queue @ filter (\<lambda>x. x \<notin> set (seen @ [key])) (set_of fwd key)) (seen @ [key]))"
  by pat_completeness auto

definition graph_keys :: "(string, string list) dict \<Rightarrow> string set" where
  "graph_keys fwd = \<Union> (set ` set (dict_values fwd))"

lemma set_of_graph_keys: "set (set_of fwd k) \<subseteq> graph_keys fwd"
  by (cases "dict_get fwd k") (auto simp: set_of_def graph_keys_def dest: map_of_SomeD intro!: bexI [of _ "(k, _)"])

termination dependents_loop
proof (relation "(\<lambda>(fwd, q, seen). card ((set q \<union> graph_keys fwd) - set seen)) <*mlex*>
    measure (\<lambda>(fwd, q, seen). length q)", goal_cases)
  case 1
  then show ?case by (intro wf_mlex) simp
next
  case (2 fwd key queue seen)
  have fin: "finite ((set (key # queue) \<union> graph_keys fwd) - set seen)" by (simp add: graph_keys_def)
  have "card ((set queue \<union> graph_keys fwd) - set seen) \<le> card ((set (key # queue) \<union> graph_keys fwd) - set seen)"
    by (rule card_mono [OF fin]) auto
  then show ?case by (auto simp: mlex_leq mlex_prod_def)
next
  case (3 fwd key queue seen)
  have fin: "finite ((set (key # queue) \<union> graph_keys fwd) - set seen)" by (simp add: graph_keys_def)
  let ?q = "queue @ filter (\<lambda>x. x \<notin> set (seen @ [key])) (set_of fwd key)"
  have "card ((set ?q \<union> graph_keys fwd) - set (seen @ [key])) < card ((set (key # queue) \<union> graph_keys fwd) - set seen)"
    by (rule psubset_card_mono [OF fin]) (use 3 set_of_graph_keys [of fwd key] in auto)
  then show ?case by (intro mlex_less) simp
qed

definition dependents_of :: "string \<Rightarrow> dep_graph \<Rightarrow> string list" where
  "dependents_of source g = dependents_loop (dg_forward g) (set_of (dg_forward g) source) []"

definition sources_of :: "string \<Rightarrow> dep_graph \<Rightarrow> string list" where
  "sources_of derived_key g = set_of (dg_reverse g) derived_key"

definition graph_len :: "dep_graph \<Rightarrow> nat" where
  "graph_len g = length (dg_reverse g)"

subsection \<open>The cascade is reachability\<close>

definition edges :: "(string, string list) dict \<Rightarrow> (string \<times> string) set" where
  "edges fwd = {(s, d). d \<in> set (set_of fwd s)}"

lemma loop_grows: "set seen \<union> set queue \<subseteq> set (dependents_loop fwd queue seen)"
  by (induction fwd queue seen rule: dependents_loop.induct) auto

lemma loop_closed:
  "(\<And>s d. s \<in> set seen \<Longrightarrow> (s, d) \<in> edges fwd \<Longrightarrow> d \<in> set seen \<union> set queue) \<Longrightarrow>
   s \<in> set (dependents_loop fwd queue seen) \<Longrightarrow> (s, d) \<in> edges fwd \<Longrightarrow>
   d \<in> set (dependents_loop fwd queue seen)"
proof (induction fwd queue seen rule: dependents_loop.induct)
  case (2 fwd key queue seen)
  show ?case
  proof (cases "key \<in> set seen")
    case True
    have "d \<in> set seen \<union> set queue" if "s \<in> set seen" "(s, d) \<in> edges fwd" for s d
      using 2(3) [OF that] True by auto
    with 2(1) [OF True] 2(4,5) True show ?thesis by simp
  next
    case False
    let ?q = "queue @ filter (\<lambda>x. x \<notin> set (seen @ [key])) (set_of fwd key)"
    have "d \<in> set (seen @ [key]) \<union> set ?q" if "s \<in> set (seen @ [key])" "(s, d) \<in> edges fwd" for s d
      using 2(3) [of s d] that by (auto simp: edges_def)
    with 2(2) [OF False] 2(4,5) False show ?thesis by simp
  qed
qed simp

lemma loop_reached:
  "x \<in> set (dependents_loop fwd queue seen) \<Longrightarrow>
     x \<in> set seen \<or> (\<exists>q \<in> set queue. (q, x) \<in> (edges fwd)\<^sup>*)"
proof (induction fwd queue seen rule: dependents_loop.induct)
  case (2 fwd key queue seen)
  show ?case
  proof (cases "key \<in> set seen")
    case True
    then show ?thesis using 2(1,3) by auto
  next
    case False
    let ?q = "queue @ filter (\<lambda>x. x \<notin> set (seen @ [key])) (set_of fwd key)"
    from 2(2) [OF False] 2(3) False
    have "x \<in> set (seen @ [key]) \<or> (\<exists>q \<in> set ?q. (q, x) \<in> (edges fwd)\<^sup>*)" by simp
    moreover have "(key, q) \<in> edges fwd" if "q \<in> set (set_of fwd key)" for q
      using that by (simp add: edges_def)
    ultimately show ?thesis by (auto intro: converse_rtrancl_into_rtrancl)
  qed
qed simp

lemma loop_distinct: "distinct seen \<Longrightarrow> distinct (dependents_loop fwd queue seen)"
  by (induction fwd queue seen rule: dependents_loop.induct) auto

lemma dependents_reach: "set (dependents_of source g) = {k. (source, k) \<in> (edges (dg_forward g))\<^sup>+}"
proof (intro equalityI subsetI)
  fix k assume "k \<in> set (dependents_of source g)"
  then obtain q where "q \<in> set (set_of (dg_forward g) source)" "(q, k) \<in> (edges (dg_forward g))\<^sup>*"
    using loop_reached by (fastforce simp: dependents_of_def)
  then show "k \<in> {k. (source, k) \<in> (edges (dg_forward g))\<^sup>+}"
    by (auto simp: edges_def intro: rtrancl_into_trancl2)
next
  fix k assume "k \<in> {k. (source, k) \<in> (edges (dg_forward g))\<^sup>+}"
  then have "(source, k) \<in> (edges (dg_forward g))\<^sup>+" by simp
  then show "k \<in> set (dependents_of source g)"
  proof (induction rule: trancl_induct)
    case (base y)
    then show ?case using loop_grows [of "[]" "set_of (dg_forward g) source" "dg_forward g"]
      by (auto simp: dependents_of_def edges_def)
  next
    case (step y z)
    then show ?case unfolding dependents_of_def by (intro loop_closed [OF _ step.IH [unfolded dependents_of_def]]) auto
  qed
qed

subsection \<open>The two maps mirror each other\<close>

definition graph_ok :: "dep_graph \<Rightarrow> bool" where
  "graph_ok g \<longleftrightarrow> dict_ok (dg_forward g) \<and> dict_ok (dg_reverse g) \<and>
     (\<forall>s d. d \<in> set (set_of (dg_forward g) s) \<longleftrightarrow> s \<in> set (set_of (dg_reverse g) d)) \<and>
     (\<forall>s. dict_get (dg_forward g) s \<noteq> Some []) \<and>
     (\<forall>d. distinct (set_of (dg_reverse g) d)) \<and> (\<forall>s. distinct (set_of (dg_forward g) s))"

lemma set_of_set [simp]: "set_of (dict_set k v d) k' = (if k' = k then v else set_of d k')"
  by (simp add: set_of_def)

lemma set_of_pop [simp]: "set_of (dict_pop k d) k' = (if k' = k then [] else set_of d k')"
  by (simp add: set_of_def)

lemma set_of_drop: "set_of (drop_forward dk s fwd) s' = (if s' = s then removeAll dk (set_of fwd s) else set_of fwd s')"
  by (auto simp: drop_forward_def Let_def)

lemma set_of_drops:
  "distinct ss \<Longrightarrow> set_of (fold (drop_forward dk) ss fwd) s =
     (if s \<in> set ss then removeAll dk (set_of fwd s) else set_of fwd s)"
  by (induction ss arbitrary: fwd) (auto simp: set_of_drop)

lemma drops_ok:
  "dict_ok fwd \<Longrightarrow> (\<forall>s. dict_get fwd s \<noteq> Some []) \<Longrightarrow>
     dict_ok (fold (drop_forward dk) ss fwd) \<and> (\<forall>s. dict_get (fold (drop_forward dk) ss fwd) s \<noteq> Some [])"
proof (induction ss arbitrary: fwd)
  case (Cons s ss)
  have "dict_ok (drop_forward dk s fwd) \<and> (\<forall>s'. dict_get (drop_forward dk s fwd) s' \<noteq> Some [])"
    using Cons.prems by (auto simp: drop_forward_def Let_def)
  with Cons.IH show ?case by simp
qed simp

lemma graph_ok_remove: "graph_ok g \<Longrightarrow> graph_ok (remove_key dk g)"
  using drops_ok [of "dg_forward g" dk "set_of (dg_reverse g) dk"]
  by (auto simp: graph_ok_def remove_key_def set_of_drops distinct_removeAll)

lemma removed_edges:
  "graph_ok g \<Longrightarrow> edges (dg_forward (remove_key dk g)) = {(s, d) \<in> edges (dg_forward g). d \<noteq> dk}"
  by (auto simp: graph_ok_def remove_key_def set_of_drops edges_def split: if_splits)

lemma graph_ok_add: "graph_ok g \<Longrightarrow> graph_ok (add_edge dk s g)"
  by (auto simp: graph_ok_def add_edge_def List.insert_def split: if_splits)
    (metis empty_iff list.set(1))+

lemma graph_ok_adds: "graph_ok g \<Longrightarrow> graph_ok (fold (add_edge dk) ss g)"
  by (induction ss arbitrary: g) (auto simp: graph_ok_add)

lemma added_edges:
  "edges (dg_forward (fold (add_edge dk) ss g)) = edges (dg_forward g) \<union> {(s, dk) | s. s \<in> set ss}"
  by (induction ss arbitrary: g) (auto simp: add_edge_def edges_def split: if_splits)

lemma graph_ok_set: "graph_ok g \<Longrightarrow> graph_ok (set_dependencies dk ss g)"
  by (simp add: set_dependencies_def graph_ok_adds graph_ok_remove)

lemma set_edges:
  "graph_ok g \<Longrightarrow> edges (dg_forward (set_dependencies dk ss g)) =
     {(s, d) \<in> edges (dg_forward g). d \<noteq> dk} \<union> {(s, dk) | s. s \<in> set ss}"
  by (simp add: set_dependencies_def added_edges removed_edges)

subsection \<open>The registry\<close>

record invalidation_event =
  ie_key :: string
  ie_source :: "string option"
  ie_reason :: string
  ie_cache_names :: "string list"
  ie_at :: clock

record inv_registry =
  ir_graph :: dep_graph
  ir_evictors :: "string list"
  ir_key_caches :: "(string, string list) dict"
  ir_audit :: "(string, invalidation_event list) dict"
  ir_max_audit :: nat
  ir_fingerprints :: "(string, string) dict"
  ir_evicted :: "(string \<times> string) list"

datatype invalidation_error = CacheNotRegistered string | CacheInvalidationError string string

definition registry_init :: "nat \<Rightarrow> inv_registry" where
  "registry_init max_audit =
     \<lparr>ir_graph = empty_graph, ir_evictors = [], ir_key_caches = [], ir_audit = [],
      ir_max_audit = max_audit, ir_fingerprints = [], ir_evicted = []\<rparr>"

definition register_cache :: "string \<Rightarrow> inv_registry \<Rightarrow> inv_registry" where
  "register_cache cache_name r = r\<lparr>ir_evictors := List.insert cache_name (ir_evictors r)\<rparr>"

text \<open>\<open>fp\<close> is the fingerprint of the version inputs, if any were given.\<close>

definition record_dependency ::
  "string \<Rightarrow> string list \<Rightarrow> string \<Rightarrow> string option \<Rightarrow> inv_registry
     \<Rightarrow> (invalidation_error + string option) \<times> inv_registry" where
  "record_dependency derived_key sources cache_name fp r =
     (if cache_name \<notin> set (ir_evictors r) then (Inl (CacheNotRegistered cache_name), r)
      else (Inr fp, r\<lparr>ir_graph := set_dependencies derived_key sources (ir_graph r),
         ir_key_caches := dict_set derived_key
           (List.insert cache_name (set_of (ir_key_caches r) derived_key)) (ir_key_caches r),
         ir_fingerprints := (case fp of None \<Rightarrow> ir_fingerprints r
                             | Some f \<Rightarrow> dict_set derived_key f (ir_fingerprints r))\<rparr>))"

text \<open>A \<open>deque(maxlen=n)\<close> keeps the last \<open>n\<close> elements.\<close>

definition push_bounded :: "nat \<Rightarrow> 'a \<Rightarrow> 'a list \<Rightarrow> 'a list" where
  "push_bounded n x xs = drop (Suc (length xs) - n) (xs @ [x])"

definition evict_key ::
  "(string \<Rightarrow> string \<Rightarrow> bool) \<Rightarrow> clock \<Rightarrow> string \<Rightarrow> string option \<Rightarrow> string \<Rightarrow> inv_registry
     \<Rightarrow> invalidation_error list \<times> inv_registry" where
  "evict_key fails now derived_key source reason r =
     (let names = filter (\<lambda>n. n \<in> set (ir_evictors r)) (sort (set_of (ir_key_caches r) derived_key));
          succeeded = filter (\<lambda>n. \<not> fails n derived_key) names;
          event = \<lparr>ie_key = derived_key, ie_source = source, ie_reason = reason,
                   ie_cache_names = succeeded, ie_at = now\<rparr>
      in (map (\<lambda>n. CacheInvalidationError n derived_key) (filter (\<lambda>n. fails n derived_key) names),
          r\<lparr>ir_audit := dict_set derived_key (push_bounded (ir_max_audit r) event
                (set_of (ir_audit r) derived_key)) (ir_audit r),
            ir_fingerprints := dict_pop derived_key (ir_fingerprints r),
            ir_key_caches := dict_pop derived_key (ir_key_caches r),
            ir_graph := remove_key derived_key (ir_graph r),
            ir_evicted := ir_evicted r @ map (\<lambda>n. (n, derived_key)) succeeded\<rparr>))"

fun evict_keys ::
  "(string \<Rightarrow> string \<Rightarrow> bool) \<Rightarrow> clock \<Rightarrow> string list \<Rightarrow> string \<Rightarrow> string \<Rightarrow> inv_registry
     \<Rightarrow> invalidation_error list \<times> inv_registry" where
  "evict_keys fails now [] source reason r = ([], r)"
| "evict_keys fails now (k # ks) source reason r =
     (case evict_key fails now k (Some source) reason r of
        (errors, r1) \<Rightarrow>
          (case evict_keys fails now ks source reason r1 of (errors', r2) \<Rightarrow> (errors @ errors', r2)))"

definition invalidate_source ::
  "(string \<Rightarrow> string \<Rightarrow> bool) \<Rightarrow> clock \<Rightarrow> string \<Rightarrow> string \<Rightarrow> inv_registry
     \<Rightarrow> (invalidation_error + string list) \<times> inv_registry" where
  "invalidate_source fails now source reason r =
     (let affected = dependents_of source (ir_graph r)
      in case evict_keys fails now affected source reason r of
           (errors, r1) \<Rightarrow>
             (let g = ir_graph r1;
                  r2 = r1\<lparr>ir_graph := g\<lparr>dg_forward := dict_pop source (dg_forward g)\<rparr>\<rparr>
              in (case errors of [] \<Rightarrow> Inr affected | e # _ \<Rightarrow> Inl e, r2)))"

definition invalidate_key ::
  "(string \<Rightarrow> string \<Rightarrow> bool) \<Rightarrow> clock \<Rightarrow> string \<Rightarrow> string \<Rightarrow> inv_registry
     \<Rightarrow> (invalidation_error + unit) \<times> inv_registry" where
  "invalidate_key fails now derived_key reason r =
     (case evict_key fails now derived_key None reason r of
        (errors, r') \<Rightarrow> (case errors of [] \<Rightarrow> Inr () | e # _ \<Rightarrow> Inl e, r'))"

definition is_stale :: "string \<Rightarrow> string \<Rightarrow> inv_registry \<Rightarrow> bool" where
  "is_stale derived_key fp r =
     (case dict_get (ir_fingerprints r) derived_key of None \<Rightarrow> True | Some recorded \<Rightarrow> recorded \<noteq> fp)"

definition explain :: "string \<Rightarrow> inv_registry \<Rightarrow> invalidation_event list" where
  "explain derived_key r = set_of (ir_audit r) derived_key"

subsection \<open>What a cascade leaves\<close>

lemma evict_keys_graph:
  "graph_ok (ir_graph r) \<Longrightarrow> graph_ok (ir_graph (snd (evict_keys fails now ks source reason r))) \<and>
     edges (dg_forward (ir_graph (snd (evict_keys fails now ks source reason r)))) =
       {(s, d) \<in> edges (dg_forward (ir_graph r)). d \<notin> set ks}"
proof (induction ks arbitrary: r)
  case (Cons k ks)
  let ?r1 = "snd (evict_key fails now k (Some source) reason r)"
  have g: "ir_graph ?r1 = remove_key k (ir_graph r)" by (simp add: evict_key_def Let_def)
  then have "graph_ok (ir_graph ?r1)" using graph_ok_remove [OF Cons.prems] by simp
  note IH = Cons.IH [OF this]
  have "evict_keys fails now (k # ks) source reason r =
      (fst (evict_key fails now k (Some source) reason r) @ fst (evict_keys fails now ks source reason ?r1),
       snd (evict_keys fails now ks source reason ?r1))"
    by (simp split: prod.split)
  with IH g removed_edges [OF Cons.prems, of k] show ?case by auto
qed auto

lemma evict_keys_mono: "set (ir_evicted r) \<subseteq> set (ir_evicted (snd (evict_keys fails now ks source reason r)))"
proof (induction ks arbitrary: r)
  case (Cons k ks)
  let ?r1 = "snd (evict_key fails now k (Some source) reason r)"
  have "set (ir_evicted r) \<subseteq> set (ir_evicted ?r1)" by (auto simp: evict_key_def Let_def)
  also have "\<dots> \<subseteq> set (ir_evicted (snd (evict_keys fails now ks source reason ?r1)))" by (rule Cons.IH)
  finally show ?case by (simp add: case_prod_beta)
qed simp

lemma evict_keys_calls:
  "distinct ks \<Longrightarrow> k \<in> set ks \<Longrightarrow> n \<in> set (set_of (ir_key_caches r) k) \<Longrightarrow> n \<in> set (ir_evictors r) \<Longrightarrow>
     (n, k) \<in> set (ir_evicted (snd (evict_keys fails now ks source reason r))) \<or>
     fails n k \<and> CacheInvalidationError n k \<in> set (fst (evict_keys fails now ks source reason r))"
proof (induction ks arbitrary: r)
  case (Cons x ks)
  let ?r1 = "snd (evict_key fails now x (Some source) reason r)"
  have split: "evict_keys fails now (x # ks) source reason r =
      (fst (evict_key fails now x (Some source) reason r) @ fst (evict_keys fails now ks source reason ?r1),
       snd (evict_keys fails now ks source reason ?r1))"
    by (simp split: prod.split)
  note mono = evict_keys_mono [where ks = ks]
  show ?case
  proof (cases "k = x")
    case True
    have "(n, k) \<in> set (ir_evicted ?r1) \<or>
        fails n k \<and> CacheInvalidationError n k \<in> set (fst (evict_key fails now x (Some source) reason r))"
      using Cons.prems True by (auto simp: evict_key_def Let_def)
    then show ?thesis using split mono [of ?r1 fails now source reason] by auto
  next
    case False
    have "n \<in> set (set_of (ir_key_caches ?r1) k)" "n \<in> set (ir_evictors ?r1)"
      using Cons.prems False by (simp_all add: evict_key_def Let_def)
    with Cons.IH [of ?r1] Cons.prems False split show ?thesis by auto
  qed
qed simp

lemma invalidate_source_eq:
  "invalidate_source fails now source reason r =
     (case evict_keys fails now (dependents_of source (ir_graph r)) source reason r of
        (errors, r1) \<Rightarrow>
          (case errors of [] \<Rightarrow> Inr (dependents_of source (ir_graph r)) | e # _ \<Rightarrow> Inl e,
           r1\<lparr>ir_graph := (ir_graph r1)\<lparr>dg_forward := dict_pop source (dg_forward (ir_graph r1))\<rparr>\<rparr>))"
  by (simp add: invalidate_source_def Let_def)

text \<open>Evicting the dependents has already removed the edges of the source: the final \<open>pop\<close> is idle.\<close>

lemma forget_source_idle:
  assumes "graph_ok (ir_graph r)"
  shows "ir_graph (snd (invalidate_source fails now source reason r)) =
    ir_graph (snd (evict_keys fails now (dependents_of source (ir_graph r)) source reason r))"
proof -
  let ?r1 = "snd (evict_keys fails now (dependents_of source (ir_graph r)) source reason r)"
  note g = evict_keys_graph [OF assms, of fails now "dependents_of source (ir_graph r)" source reason]
  have "(source, d) \<notin> edges (dg_forward (ir_graph ?r1))" for d
    using g dependents_reach [of source "ir_graph r"] by auto
  then have "set_of (dg_forward (ir_graph ?r1)) source = []"
    by (cases "set_of (dg_forward (ir_graph ?r1)) source") (auto simp: edges_def)
  then have "dict_get (dg_forward (ir_graph ?r1)) source = None"
    using g by (cases "dict_get (dg_forward (ir_graph ?r1)) source") (auto simp: set_of_def graph_ok_def)
  then have "dict_pop source (dg_forward (ir_graph ?r1)) = dg_forward (ir_graph ?r1)"
    by (simp add: delete_id map_of_eq_None_iff)
  then show ?thesis by (simp add: invalidate_source_eq case_prod_beta)
qed

subsection \<open>Properties\<close>

text \<open>
  The cascade is exactly reachability: the keys reported as dependents of a source are those
  with a chain of recorded dependencies from it, cycles included, each once.
\<close>

theorem dependents_are_reachable:
  "set (dependents_of source g) = {k. (source, k) \<in> (edges (dg_forward g))\<^sup>+} \<and>
   distinct (dependents_of source g)"
  using dependents_reach [of source g] by (simp add: dependents_of_def loop_distinct)

text \<open>
  C21. An invalidation runs to the end whatever evictors raise: every registered cache that holds
  an affected key has been asked to drop it, and either did or is among the errors; nothing
  depends on the source any more; every dependency of an unaffected key is kept.
\<close>

theorem invalidation_completes:
  assumes "graph_ok (ir_graph r)"
  shows "let r' = snd (invalidate_source fails now source reason r);
             affected = {k. (source, k) \<in> (edges (dg_forward (ir_graph r)))\<^sup>+}
    in graph_ok (ir_graph r') \<and>
       edges (dg_forward (ir_graph r')) = {(s, d) \<in> edges (dg_forward (ir_graph r)). d \<notin> affected} \<and>
       (\<forall>k \<in> affected. \<forall>n \<in> set (set_of (ir_key_caches r) k) \<inter> set (ir_evictors r).
          (n, k) \<in> set (ir_evicted r') \<or>
          fails n k \<and> isl (fst (invalidate_source fails now source reason r)))"
proof -
  let ?ks = "dependents_of source (ir_graph r)"
  let ?e = "evict_keys fails now ?ks source reason r"
  have ks: "set ?ks = {k. (source, k) \<in> (edges (dg_forward (ir_graph r)))\<^sup>+}" and "distinct ?ks"
    using dependents_reach by (auto simp: dependents_of_def loop_distinct)
  have evicted: "ir_evicted (snd (invalidate_source fails now source reason r)) = ir_evicted (snd ?e)"
    by (simp add: invalidate_source_eq case_prod_beta)
  have failed: "isl (fst (invalidate_source fails now source reason r))" if "x \<in> set (fst ?e)" for x
    using that by (cases "fst ?e") (auto simp: invalidate_source_eq case_prod_beta)
  show ?thesis
    unfolding Let_def forget_source_idle [OF assms] evicted ks [symmetric]
    using evict_keys_graph [OF assms, of fails now ?ks source reason]
      evict_keys_calls [OF \<open>distinct ?ks\<close>, of _ _ r fails now source reason] failed
    by blast
qed

text \<open>
  Recording the same derived key for a second cache replaces the dependencies the first
  cache's value was computed from: a later change of its source evicts nothing.
\<close>

theorem second_cache_loses_sources:
  assumes "graph_ok (ir_graph r)" and "c1 \<in> set (ir_evictors r)" and "c2 \<in> set (ir_evictors r)"
    and "a \<noteq> b"
  shows "let r1 = snd (record_dependency k [a] c1 fp1 r); r2 = snd (record_dependency k [b] c2 fp2 r1)
    in k \<in> set (dependents_of a (ir_graph r1)) \<and>
       {c1, c2} \<subseteq> set (set_of (ir_key_caches r2) k) \<and> (a, k) \<notin> edges (dg_forward (ir_graph r2))"
proof -
  let ?g1 = "set_dependencies k [a] (ir_graph r)"
  have e1: "edges (dg_forward ?g1) = {(s, d) \<in> edges (dg_forward (ir_graph r)). d \<noteq> k} \<union> {(a, k)}"
    using set_edges [OF assms(1), of k "[a]"] by auto
  have e2: "edges (dg_forward (set_dependencies k [b] ?g1)) =
      {(s, d) \<in> edges (dg_forward ?g1). d \<noteq> k} \<union> {(b, k)}"
    using set_edges [OF graph_ok_set [OF assms(1)], of k "[b]" k "[a]"] by auto
  have "k \<in> set (dependents_of a ?g1)" using e1 by (auto simp: dependents_reach)
  moreover have "(a, k) \<notin> edges (dg_forward (set_dependencies k [b] ?g1))"
    using e2 assms(4) by auto
  ultimately show ?thesis using assms(2,3) by (simp add: record_dependency_def)
qed

subsection \<open>Witnesses\<close>

definition demo_invalidation :: inv_registry where
  "demo_invalidation = snd (record_dependency ''w'' [''t''] ''features'' None
     (register_cache ''benford'' (register_cache ''features'' (registry_init 20))))"

lemma demo_invalidation_ok: "graph_ok (ir_graph demo_invalidation)"
proof -
  have "graph_ok empty_graph" by (simp add: graph_ok_def empty_graph_def set_of_def)
  then show ?thesis
    by (simp add: demo_invalidation_def record_dependency_def register_cache_def registry_init_def graph_ok_set)
qed

theorem invalidation_completes_witness:
  "\<not> isl (fst (invalidate_source (\<lambda>n k. False) 0 ''t'' ''trade'' demo_invalidation)) \<and>
   (''features'', ''w'') \<in> set (ir_evicted (snd (invalidate_source (\<lambda>n k. False) 0 ''t'' ''trade'' demo_invalidation)))"
proof -
  have "(''t'', ''w'') \<in> edges (dg_forward (ir_graph demo_invalidation))"
    and "''features'' \<in> set (set_of (ir_key_caches demo_invalidation) ''w'') \<inter> set (ir_evictors demo_invalidation)"
    by (simp_all add: demo_invalidation_def record_dependency_def register_cache_def registry_init_def
        edges_def set_dependencies_def add_edge_def remove_key_def empty_graph_def set_of_def)
  moreover have "\<not> isl (fst (invalidate_source (\<lambda>n k. False) 0 ''t'' ''trade'' demo_invalidation))"
  proof -
    have "fst (evict_keys (\<lambda>n k. False) 0 ks ''t'' ''trade'' r) = []" for ks r
      by (induction ks arbitrary: r) (simp_all add: evict_key_def Let_def case_prod_beta)
    then show ?thesis by (simp add: invalidate_source_eq case_prod_beta)
  qed
  ultimately show ?thesis
    using invalidation_completes [OF demo_invalidation_ok, of "\<lambda>n k. False" 0 "''t''" "''trade''"]
    by (auto simp: Let_def)
qed

theorem second_cache_loses_sources_witness:
  "(''t'', ''w'') \<notin> edges (dg_forward (ir_graph (snd (record_dependency ''w'' [''u''] ''benford'' None
      (snd (record_dependency ''w'' [''t''] ''features'' None demo_invalidation))))))"
  using second_cache_loses_sources [OF demo_invalidation_ok, of "''features''" "''benford''" "''t''" "''u''" "''w''" None None]
  by (simp add: Let_def demo_invalidation_def record_dependency_def register_cache_def registry_init_def)

end
