(* ===== verification/JobLedger.thy ===== *)
theory JobLedger
  imports Base
begin

text \<open>
  The idempotency ledger of pipeline jobs (\<open>utils/idempotency.py\<close>): one SQLite row per job
  key, claimed by \<open>INSERT OR IGNORE\<close>, and \<open>run\<close>, which replays the recorded result of a job
  that succeeded, rejects a key reused with another input or held by a live lease, and
  otherwise executes the body and records how it ended.

  JSON and SHA-256 are the fields of \<open>job_codec\<close>: the canonical text of a payload, its digest,
  the text of a result (\<open>None\<close> where \<open>json.dumps\<close> raises \<open>TypeError\<close>) and the value read back
  from a text. The body is a function on a state of the caller's choice, and the four readings
  of \<open>time.time()\<close> a call makes are \<open>job_times\<close>. A failure of SQLite itself propagates to the
  caller and is not modelled.
\<close>

subsection \<open>Rows and records\<close>

datatype job_status = JobPending | JobSuccess | JobFailed

record job_row =
  jr_key :: string
  jr_status :: job_status
  jr_input_hash :: string
  jr_result :: "string option"
  jr_error :: "string option"
  jr_attempts :: nat
  jr_created_at :: clock
  jr_updated_at :: clock

record 'v job_record =
  jb_key :: string
  jb_status :: job_status
  jb_input_hash :: string
  jb_result :: "'v option"
  jb_error :: "string option"
  jb_attempts :: nat
  jb_created_at :: clock
  jb_updated_at :: clock

record ('p, 'v) job_codec =
  jc_dumps :: "'p \<Rightarrow> string"
  jc_sha256 :: "string \<Rightarrow> string"
  jc_result_dumps :: "'v \<Rightarrow> string option"
  jc_loads :: "string \<Rightarrow> 'v"

definition hash_payload :: "('p, 'v) job_codec \<Rightarrow> 'p \<Rightarrow> string" where
  "hash_payload js payload = jc_sha256 js (jc_dumps js payload)"

definition row_to_record :: "('p, 'v) job_codec \<Rightarrow> job_row \<Rightarrow> 'v job_record" where
  "row_to_record js r =
     \<lparr>jb_key = jr_key r, jb_status = jr_status r, jb_input_hash = jr_input_hash r,
      jb_result = map_option (jc_loads js) (jr_result r), jb_error = jr_error r,
      jb_attempts = jr_attempts r, jb_created_at = jr_created_at r,
      jb_updated_at = jr_updated_at r\<rparr>"

subsection \<open>The statements of the ledger\<close>

definition job_get :: "('p, 'v) job_codec \<Rightarrow> string \<Rightarrow> job_row list \<Rightarrow> 'v job_record option" where
  "job_get js k t = map_option (row_to_record js) (row_where jr_key k t)"

definition insert_or_ignore :: "string \<Rightarrow> string \<Rightarrow> clock \<Rightarrow> job_row list \<Rightarrow> bool \<times> job_row list" where
  "insert_or_ignore k h now t =
     (case row_where jr_key k t of
        Some r \<Rightarrow> (False, t)
      | None \<Rightarrow>
          (True, t @ [\<lparr>jr_key = k, jr_status = JobPending, jr_input_hash = h, jr_result = None,
             jr_error = None, jr_attempts = 0, jr_created_at = now, jr_updated_at = now\<rparr>]))"

text \<open>\<open>assert record is not None\<close> is the branch \<open>None\<close>.\<close>

definition begin_attempt ::
  "('p, 'v) job_codec \<Rightarrow> string \<Rightarrow> string \<Rightarrow> clock \<Rightarrow> job_row list \<Rightarrow>
     ('v job_record \<times> bool) option \<times> job_row list"
where
  "begin_attempt js k h now t =
     (let (created, t') = insert_or_ignore k h now t in
        (map_option (\<lambda>rec. (rec, created)) (job_get js k t'), t'))"

definition touch_pending :: "string \<Rightarrow> clock \<Rightarrow> job_row list \<Rightarrow> job_row list" where
  "touch_pending k now =
     update_where jr_key k (\<lambda>r. r\<lparr>jr_status := JobPending, jr_attempts := jr_attempts r + 1,
       jr_updated_at := now\<rparr>)"

definition mark_success :: "string \<Rightarrow> string \<Rightarrow> clock \<Rightarrow> job_row list \<Rightarrow> job_row list" where
  "mark_success k result now =
     update_where jr_key k (\<lambda>r. r\<lparr>jr_status := JobSuccess, jr_result := Some result,
       jr_error := None, jr_attempts := jr_attempts r + 1, jr_updated_at := now\<rparr>)"

definition mark_job_failed :: "string \<Rightarrow> string \<Rightarrow> clock \<Rightarrow> job_row list \<Rightarrow> job_row list" where
  "mark_job_failed k err now =
     update_where jr_key k (\<lambda>r. r\<lparr>jr_status := JobFailed, jr_error := Some err,
       jr_attempts := jr_attempts r + 1, jr_updated_at := now\<rparr>)"


subsection \<open>\<open>IdempotencyLedger.run\<close>\<close>

datatype 'v body_end = BodyReturned 'v | BodyRaised string | BodyInterrupted

datatype job_error =
    IdempotencyConflictError string string string
  | ConcurrentExecutionError string clock clock
  | JobAssertionError
  | JobRaised string
  | JobInterrupted
  | ResultTypeError

record job_times =
  jt_begin :: clock
  jt_lease :: clock
  jt_touch :: clock
  jt_end :: clock

definition execute_job ::
  "('p, 'v) job_codec \<Rightarrow> clock \<Rightarrow> string \<Rightarrow> ('w \<Rightarrow> 'v body_end \<times> 'w) \<Rightarrow>
     'w \<times> job_row list \<Rightarrow> (job_error + 'v) \<times> 'w \<times> job_row list"
where
  "execute_job js now k body s =
     (case body (fst s) of
        (BodyRaised e, w) \<Rightarrow> (Inl (JobRaised e), w, mark_job_failed k e now (snd s))
      | (BodyInterrupted, w) \<Rightarrow> (Inl JobInterrupted, w, snd s)
      | (BodyReturned v, w) \<Rightarrow>
          (case jc_result_dumps js v of
             None \<Rightarrow> (Inl ResultTypeError, w, snd s)
           | Some tx \<Rightarrow> (Inr v, w, mark_success k tx now (snd s))))"

definition job_run ::
  "('p, 'v) job_codec \<Rightarrow> clock \<Rightarrow> job_times \<Rightarrow> string \<Rightarrow> 'p \<Rightarrow> ('w \<Rightarrow> 'v body_end \<times> 'w) \<Rightarrow>
     'w \<times> job_row list \<Rightarrow> (job_error + 'v option) \<times> 'w \<times> job_row list"
where
  "job_run js lease tm k payload body s =
     (let h = hash_payload js payload in
      case begin_attempt js k h (jt_begin tm) (snd s) of
        (None, t) \<Rightarrow> (Inl JobAssertionError, fst s, t)
      | (Some (rec, created), t) \<Rightarrow>
          if jb_input_hash rec \<noteq> h
          then (Inl (IdempotencyConflictError k (jb_input_hash rec) h), fst s, t)
          else if jb_status rec = JobSuccess then (Inr (jb_result rec), fst s, t)
          else if \<not> created \<and> jb_status rec = JobPending then
            let lease_age = jt_lease tm - jb_updated_at rec in
            if lease_age < lease then (Inl (ConcurrentExecutionError k lease_age lease), fst s, t)
            else (case execute_job js (jt_end tm) k body (fst s, touch_pending k (jt_touch tm) t) of
                    (r, s') \<Rightarrow> (map_sum id Some r, s'))
          else (case execute_job js (jt_end tm) k body (fst s, t) of
                  (r, s') \<Rightarrow> (map_sum id Some r, s')))"

text \<open>The decorator \<open>idempotent\<close>: the key and the payload are those of the call's arguments.\<close>

definition idempotent ::
  "('a, 'v) job_codec \<Rightarrow> clock \<Rightarrow> ('a \<Rightarrow> string) \<Rightarrow> ('a \<Rightarrow> 'w \<Rightarrow> 'v body_end \<times> 'w) \<Rightarrow>
     job_times \<Rightarrow> 'a \<Rightarrow> 'w \<times> job_row list \<Rightarrow> (job_error + 'v option) \<times> 'w \<times> job_row list"
where
  "idempotent js lease key_fn f tm args = job_run js lease tm (key_fn args) args (f args)"

subsection \<open>What a call leaves behind\<close>

lemma row_touch [simp]: "row_where jr_key k (touch_pending k now t) =
    map_option (\<lambda>r. r\<lparr>jr_status := JobPending, jr_attempts := jr_attempts r + 1,
       jr_updated_at := now\<rparr>) (row_where jr_key k t)"
  by (simp add: touch_pending_def)

lemma row_success [simp]: "row_where jr_key k (mark_success k tx now t) =
    map_option (\<lambda>r. r\<lparr>jr_status := JobSuccess, jr_result := Some tx,
       jr_error := None, jr_attempts := jr_attempts r + 1, jr_updated_at := now\<rparr>)
     (row_where jr_key k t)"
  by (simp add: mark_success_def)

lemma row_failed [simp]: "row_where jr_key k (mark_job_failed k e now t) =
    map_option (\<lambda>r. r\<lparr>jr_status := JobFailed, jr_error := Some e,
       jr_attempts := jr_attempts r + 1, jr_updated_at := now\<rparr>) (row_where jr_key k t)"
  by (simp add: mark_job_failed_def)




















subsection \<open>Concurrent callers of one key\<close>

text \<open>
  A call of \<open>run\<close> is a sequence of separately committed statements. \<open>job_pc\<close> is where a caller
  stands: before the \<open>INSERT OR IGNORE\<close>, before the \<open>SELECT\<close> that follows it, holding the record
  and deciding, past the decision to reclaim an expired lease, in the body, with the body
  returned, with the body failed, or back with a result (and whether it ran the body for it).
\<close>

datatype 'v job_pc =
    JobStart
  | JobInserted bool
  | JobDeciding "'v job_record" bool
  | JobReclaiming
  | JobExecuting
  | JobEnded "'v body_end"
  | JobAnswered "'v option" bool
  | JobError job_error

fun job_step ::
  "('p, 'v) job_codec \<Rightarrow> clock \<Rightarrow> string \<Rightarrow> string \<Rightarrow> clock \<Rightarrow> 'v body_end \<Rightarrow>
     'v job_pc \<Rightarrow> job_row list \<Rightarrow> 'v job_pc \<times> job_row list"
where
  "job_step js lease k h now out JobStart t =
     (case insert_or_ignore k h now t of (created, t') \<Rightarrow> (JobInserted created, t'))"
| "job_step js lease k h now out (JobInserted created) t =
     (case job_get js k t of
        None \<Rightarrow> (JobError JobAssertionError, t)
      | Some rec \<Rightarrow> (JobDeciding rec created, t))"
| "job_step js lease k h now out (JobDeciding rec created) t =
     (if jb_input_hash rec \<noteq> h
      then (JobError (IdempotencyConflictError k (jb_input_hash rec) h), t)
      else if jb_status rec = JobSuccess then (JobAnswered (jb_result rec) False, t)
      else if \<not> created \<and> jb_status rec = JobPending then
        (if now - jb_updated_at rec < lease
         then (JobError (ConcurrentExecutionError k (now - jb_updated_at rec) lease), t)
         else (JobReclaiming, t))
      else (JobExecuting, t))"
| "job_step js lease k h now out JobReclaiming t = (JobExecuting, touch_pending k now t)"
| "job_step js lease k h now out JobExecuting t = (JobEnded out, t)"
| "job_step js lease k h now out (JobEnded (BodyRaised e)) t =
     (JobError (JobRaised e), mark_job_failed k e now t)"
| "job_step js lease k h now out (JobEnded BodyInterrupted) t = (JobError JobInterrupted, t)"
| "job_step js lease k h now out (JobEnded (BodyReturned v)) t =
     (case jc_result_dumps js v of
        None \<Rightarrow> (JobError ResultTypeError, t)
      | Some tx \<Rightarrow> (JobAnswered (Some v) True, mark_success k tx now t))"
| "job_step js lease k h now out (JobAnswered r own) t = (JobAnswered r own, t)"
| "job_step js lease k h now out (JobError e) t = (JobError e, t)"

text \<open>Run alone, at the clock readings of \<open>job_times\<close>, the statements compose to \<open>run\<close>.\<close>

definition job_alone ::
  "('p, 'v) job_codec \<Rightarrow> clock \<Rightarrow> string \<Rightarrow> string \<Rightarrow> job_times \<Rightarrow> 'v body_end \<Rightarrow> job_row list \<Rightarrow>
     'v job_pc \<times> job_row list"
where
  "job_alone js lease k h tm out t =
     (let step = (\<lambda>now (pc, t). job_step js lease k h now out pc t);
          decided = step (jt_lease tm) (step 0 (step (jt_begin tm) (JobStart, t)));
          running = (if fst decided = JobReclaiming then step (jt_touch tm) decided else decided)
      in step (jt_end tm) (step 0 running))"

fun job_answer :: "'v job_pc \<Rightarrow> job_error + 'v option" where
  "job_answer (JobAnswered r _) = Inr r"
| "job_answer (JobError e) = Inl e"
| "job_answer _ = Inl JobAssertionError"

lemma job_alone_eq:
  "(let a = job_alone js lease k (hash_payload js p) tm (fst (body w)) t;
        r = job_run js lease tm k p body (w, t)
    in fst r = job_answer (fst a) \<and> snd (snd r) = snd a)"
proof -
  obtain created t1 where ins: "insert_or_ignore k (hash_payload js p) (jt_begin tm) t = (created, t1)"
    by (cases "insert_or_ignore k (hash_payload js p) (jt_begin tm) t")
  obtain out w' where body: "body w = (out, w')"
    by (cases "body w")
  show ?thesis
    by (cases "job_get js k t1"; cases out)
       (auto simp: job_run_def job_alone_def begin_attempt_def execute_job_def Let_def ins body
         split: option.splits if_splits)
qed

record 'v job_race =
  jx_table :: "job_row list"
  jx_pcs :: "nat \<Rightarrow> 'v job_pc"

text \<open>
  One step of the system: caller \<open>i\<close>, whose payload hashes to \<open>hs i\<close> and whose body ends as
  \<open>outs i\<close>, runs its next statement at a clock reading that \<open>ok\<close> allows.
\<close>

inductive job_race_step ::
  "('p, 'v) job_codec \<Rightarrow> clock \<Rightarrow> string \<Rightarrow> (nat \<Rightarrow> string) \<Rightarrow> (nat \<Rightarrow> 'v body_end) \<Rightarrow>
     (clock \<Rightarrow> 'v job_pc \<Rightarrow> bool) \<Rightarrow> 'v job_race \<Rightarrow> 'v job_race \<Rightarrow> bool"
  for js lease k hs outs ok where
  advance: "ok now (jx_pcs s i) \<Longrightarrow>
    job_step js lease k (hs i) now (outs i) (jx_pcs s i) (jx_table s) = (pc, t) \<Longrightarrow>
    job_race_step js lease k hs outs ok s (s\<lparr>jx_table := t, jx_pcs := (jx_pcs s)(i := pc)\<rparr>)"

inductive_cases job_race_stepE: "job_race_step js lease k hs outs ok s s'"

definition job_race_start :: "job_row list \<Rightarrow> 'v job_race" where
  "job_race_start t = \<lparr>jx_table = t, jx_pcs = (\<lambda>_. JobStart)\<rparr>"

fun lease_live :: "clock \<Rightarrow> clock \<Rightarrow> 'v job_pc \<Rightarrow> bool" where
  "lease_live lease now (JobDeciding rec _) \<longleftrightarrow> now - jb_updated_at rec < lease"
| "lease_live lease now _ \<longleftrightarrow> True"

fun entered_body :: "'v job_pc \<Rightarrow> bool" where
  "entered_body JobExecuting = True"
| "entered_body (JobEnded _) = True"
| "entered_body (JobAnswered _ own) = own"
| "entered_body (JobError (JobRaised _)) = True"
| "entered_body (JobError JobInterrupted) = True"
| "entered_body (JobError ResultTypeError) = True"
| "entered_body _ = False"

text \<open>
  The caller that created the row owns it until it succeeds; everyone else waits, and what a
  bystander has read as a success is the row's result.
\<close>

fun job_owner :: "('p, 'v) job_codec \<Rightarrow> 'v body_end \<Rightarrow> job_row \<Rightarrow> 'v job_pc \<Rightarrow> bool" where
  "job_owner js out r (JobInserted created) \<longleftrightarrow> created \<and> jr_status r = JobPending"
| "job_owner js out r (JobDeciding rec created) \<longleftrightarrow> created \<and> jb_status rec = JobPending \<and>
     jb_input_hash rec = jr_input_hash r \<and> jr_status r = JobPending"
| "job_owner js out r JobExecuting \<longleftrightarrow> jr_status r = JobPending"
| "job_owner js out r (JobEnded ended) \<longleftrightarrow> ended = out \<and> jr_status r = JobPending"
| "job_owner js out r (JobError e) \<longleftrightarrow> e \<in> {JobInterrupted, ResultTypeError} \<and> jr_status r = JobPending"
| "job_owner js out r (JobAnswered x own) \<longleftrightarrow> own \<and> jr_status r = JobSuccess \<and>
     (\<exists>v tx. x = Some v \<and> jc_result_dumps js v = Some tx \<and> jr_result r = Some tx)"
| "job_owner js out r _ \<longleftrightarrow> False"

fun job_bystander :: "('p, 'v) job_codec \<Rightarrow> job_row \<Rightarrow> 'v job_pc \<Rightarrow> bool" where
  "job_bystander js r JobStart \<longleftrightarrow> True"
| "job_bystander js r (JobInserted created) \<longleftrightarrow> \<not> created"
| "job_bystander js r (JobDeciding rec created) \<longleftrightarrow> \<not> created \<and> (jb_status rec = JobPending \<or>
     jb_status rec = JobSuccess \<and> jr_status r = JobSuccess \<and>
     jb_result rec = map_option (jc_loads js) (jr_result r))"
| "job_bystander js r (JobAnswered x own) \<longleftrightarrow> \<not> own \<and> jr_status r = JobSuccess \<and>
     x = map_option (jc_loads js) (jr_result r)"
| "job_bystander js r (JobError e) \<longleftrightarrow> \<not> entered_body (JobError e :: 'v job_pc)"
| "job_bystander js r _ \<longleftrightarrow> False"

definition job_race_inv ::
  "('p, 'v) job_codec \<Rightarrow> string \<Rightarrow> (nat \<Rightarrow> string) \<Rightarrow> (nat \<Rightarrow> 'v body_end) \<Rightarrow> 'v job_race \<Rightarrow> bool"
where
  "job_race_inv js k hs outs s \<longleftrightarrow>
     (case row_where jr_key k (jx_table s) of
        None \<Rightarrow> \<forall>i. jx_pcs s i = JobStart
      | Some r \<Rightarrow> \<exists>w. jr_input_hash r = hs w \<and> job_owner js (outs w) r (jx_pcs s w) \<and>
          (\<forall>i. i \<noteq> w \<longrightarrow> job_bystander js r (jx_pcs s i)))"

lemma owner_entered: "job_owner js out r pc \<Longrightarrow> \<not> job_bystander js r pc"
  by (cases "(js, out, r, pc)" rule: job_owner.cases) auto

lemma bystander_not_entered: "job_bystander js r pc \<Longrightarrow> \<not> entered_body pc"
  by (cases "(js, r, pc)" rule: job_bystander.cases) auto

lemma bystander_grows:
  "job_bystander js r pc \<Longrightarrow> jr_status r = JobPending \<Longrightarrow> job_bystander js r' pc"
  by (cases "(js, r, pc)" rule: job_bystander.cases) auto

lemma bystander_step:
  assumes "job_step js lease k h now out pc t = (pc', t')"
    and "job_bystander js r pc" and "lease_live lease now pc"
    and row: "row_where jr_key k t = Some r"
    and "jr_status r = JobPending \<or> jr_status r = JobSuccess"
  shows "t' = t \<and> job_bystander js r pc'"
  using assms
  by (cases "(js, r, pc)" rule: job_bystander.cases)
     (auto simp: insert_or_ignore_def job_get_def row_to_record_def split: if_splits)

lemma owner_step:
  assumes "job_step js lease k (jr_input_hash r) now out pc t = (pc', t')"
    and "job_owner js out r pc"
    and row: "row_where jr_key k t = Some r"
  shows "(\<exists>e. pc' = JobError (JobRaised e)) \<or>
    (\<exists>r'. row_where jr_key k t' = Some r' \<and> jr_input_hash r' = jr_input_hash r \<and>
      job_owner js out r' pc' \<and> (r' = r \<or> jr_status r = JobPending))"
  using assms
  by (cases "(js, out, r, pc)" rule: job_owner.cases; cases out)
     (auto simp: job_get_def row_to_record_def split: if_splits option.splits)

lemma owner_status: "job_owner js out r pc \<Longrightarrow> jr_status r = JobPending \<or> jr_status r = JobSuccess"
  by (cases "(js, out, r, pc)" rule: job_owner.cases) auto

text \<open>A failure is recorded when a caller has left with the exception of its body.\<close>

definition failure_recorded :: "'v job_race \<Rightarrow> bool" where
  "failure_recorded s \<longleftrightarrow> (\<exists>i e. jx_pcs s i = JobError (JobRaised e))"

lemma job_race_step_inv:
  assumes "job_race_step js lease k hs outs (lease_live lease) s s'"
    and "failure_recorded s \<or> job_race_inv js k hs outs s"
  shows "failure_recorded s' \<or> job_race_inv js k hs outs s'"
proof -
  from assms(1) obtain now i pc t where
    1: "s' = s\<lparr>jx_table := t, jx_pcs := (jx_pcs s)(i := pc)\<rparr>" "lease_live lease now (jx_pcs s i)"
      "job_step js lease k (hs i) now (outs i) (jx_pcs s i) (jx_table s) = (pc, t)"
    by (rule job_race_stepE) blast
  show ?thesis
  proof (cases "failure_recorded s")
    case True
    then obtain j e where j: "jx_pcs s j = JobError (JobRaised e)" by (auto simp: failure_recorded_def)
    have "jx_pcs s' j = JobError (JobRaised e)" using 1 j by (cases "i = j") auto
    then show ?thesis by (auto simp: failure_recorded_def)
  next
    case False
    with assms(2) have inv: "job_race_inv js k hs outs s" by simp
    show ?thesis
    proof (cases "row_where jr_key k (jx_table s)")
      case None
      with inv have start: "\<forall>i. jx_pcs s i = JobStart" by (simp add: job_race_inv_def)
      with 1 None have "job_race_inv js k hs outs s'"
        by (auto simp: job_race_inv_def insert_or_ignore_def intro!: exI [of _ i])
      then show ?thesis by simp
    next
      case (Some r)
      with inv obtain w where w: "jr_input_hash r = hs w" "job_owner js (outs w) r (jx_pcs s w)"
        "\<And>i. i \<noteq> w \<Longrightarrow> job_bystander js r (jx_pcs s i)"
        by (auto simp: job_race_inv_def)
      show ?thesis
      proof (cases "i = w")
        case True
        from owner_step [of js lease k r now "outs w" "jx_pcs s w" "jx_table s" pc t] 1 w Some True
        consider e where "pc = JobError (JobRaised e)"
          | r' where "row_where jr_key k t = Some r'" "jr_input_hash r' = jr_input_hash r"
            "job_owner js (outs w) r' pc" "r' = r \<or> jr_status r = JobPending" by auto
        then show ?thesis
        proof cases
          case 1
          then have "jx_pcs s' i = JobError (JobRaised e)" by (simp add: \<open>s' = _\<close>)
          then show ?thesis by (auto simp: failure_recorded_def)
        next
          case (2 r')
          have "job_bystander js r' (jx_pcs s j)" if "j \<noteq> w" for j
            using 2(4) w(3) [OF that] bystander_grows by blast
          with \<open>s' = _\<close> True 2 w have "job_race_inv js k hs outs s'"
            by (auto simp: job_race_inv_def intro!: exI [of _ w])
          then show ?thesis by simp
        qed
      next
        case False
        from bystander_step [OF 1(3) w(3) [OF False] 1(2) Some owner_status [OF w(2)]]
        have "t = jx_table s \<and> job_bystander js r pc" .
        with 1 False Some w have "job_race_inv js k hs outs s'"
          by (auto simp: job_race_inv_def intro!: exI [of _ w])
        then show ?thesis by simp
      qed
    qed
  qed
qed

interpretation job_race: preserved_rel "job_race_step js lease k hs outs (lease_live lease)"
    "\<lambda>s. failure_recorded s \<or> job_race_inv js k hs outs s"
    for js :: "('p, 'v) job_codec" and lease k hs outs
  by unfold_locales (rule job_race_step_inv)

text \<open>
  C3. The lease excludes: however many callers of \<open>run\<close> submit a key no row holds, with
  whatever payloads and bodies, raising ones included, and in whatever interleaving of their
  statements, as long as no lease check comes after the lease has expired and no failure of a body
  has been recorded, at most one of them has entered the body, and every result returned is that
  caller's: its value to itself, the JSON reading of it to the others.
\<close>

theorem one_execution:
  assumes "row_where jr_key k t = None"
    and "rtranclp (job_race_step js lease k hs outs (lease_live lease)) (job_race_start t) s"
    and "\<not> failure_recorded s"
  shows "(entered_body (jx_pcs s i) \<and> entered_body (jx_pcs s j) \<longrightarrow> i = j) \<and>
    (jx_pcs s i = JobAnswered x own \<longrightarrow>
      (\<exists>w v tx. jx_pcs s w = JobAnswered (Some v) True \<and> jc_result_dumps js v = Some tx \<and>
         (if own then i = w \<and> x = Some v else x = Some (jc_loads js tx))))"
proof -
  have "job_race_inv js k hs outs s"
    using job_race.reach_inv [OF assms(2)] assms(1,3)
    by (simp add: job_race_inv_def job_race_start_def)
  show ?thesis
  proof (cases "row_where jr_key k (jx_table s)")
    case None
    with \<open>job_race_inv js k hs outs s\<close> show ?thesis by (simp add: job_race_inv_def)
  next
    case (Some r)
    with \<open>job_race_inv js k hs outs s\<close> obtain w where
      w: "job_owner js (outs w) r (jx_pcs s w)"
        "\<And>i. i \<noteq> w \<Longrightarrow> job_bystander js r (jx_pcs s i)"
      by (auto simp: job_race_inv_def)
    have entered: "entered_body (jx_pcs s i) \<Longrightarrow> i = w" for i
      using w(2) bystander_not_entered by blast
    have "jx_pcs s i = JobAnswered x own \<longrightarrow>
      (\<exists>w v tx. jx_pcs s w = JobAnswered (Some v) True \<and> jc_result_dumps js v = Some tx \<and>
         (if own then i = w \<and> x = Some v else x = Some (jc_loads js tx)))"
    proof (cases "i = w")
      case True
      with w(1) show ?thesis by auto
    next
      case False
      with w(2) [of i] w(1) show ?thesis
        by (cases "jx_pcs s w") (fastforce split: if_splits)+
    qed
    with entered show ?thesis by blast
  qed
qed

text \<open>
  A retry of a failed job takes no lease: the row stays \<open>FAILED\<close> while the body runs again,
  so two callers that retry at the same time are both in the body, although no lease is expired.
\<close>

theorem failed_job_runs_twice:
  assumes "row_where jr_key k t = Some r" and "jr_status r = JobFailed" and "jr_input_hash r = h"
  shows "\<exists>s. rtranclp (job_race_step js lease k (\<lambda>_. h) outs (lease_live lease))
      (job_race_start t) s \<and> jx_pcs s 0 = JobExecuting \<and> jx_pcs s 1 = JobExecuting"
proof -
  let ?R = "job_race_step js lease k (\<lambda>_. h) outs (lease_live lease)"
  let ?rec = "row_to_record js r"
  let ?at = "\<lambda>p q. \<lparr>jx_table = t, jx_pcs = (\<lambda>_. JobStart)(0 := p, 1 := q)\<rparr>"
  let ?now = "jb_updated_at ?rec + lease - 1"
  have move: "?R (s\<lparr>jx_table := t, jx_pcs := (jx_pcs s)(i := p)\<rparr>)
      (s\<lparr>jx_table := t, jx_pcs := (jx_pcs s)(i := q)\<rparr>)"
    if "job_step js lease k h ?now (outs i) p t = (q, t)" and "lease_live lease ?now p" for s i p q
    using advance [of "lease_live lease" ?now "s\<lparr>jx_table := t, jx_pcs := (jx_pcs s)(i := p)\<rparr>"
        i js lease k "\<lambda>_. h" outs q t] that by simp
  have steps: "job_step js lease k h ?now out JobStart t = (JobInserted False, t)"
    "job_step js lease k h ?now out (JobInserted False) t = (JobDeciding ?rec False, t)"
    "job_step js lease k h ?now out (JobDeciding ?rec False) t = (JobExecuting, t)" for out
    using assms by (auto simp: insert_or_ignore_def job_get_def row_to_record_def)
  let ?set = "\<lambda>s i p. s\<lparr>jx_table := t, jx_pcs := (jx_pcs s)(i := p)\<rparr>"
  have run: "rtranclp ?R (?set s i JobStart) (?set s i JobExecuting)" for s i
  proof -
    have "?R (?set s i JobStart) (?set s i (JobInserted False))"
      by (rule move [OF steps(1)]) simp
    moreover have "?R (?set s i (JobInserted False)) (?set s i (JobDeciding ?rec False))"
      by (rule move [OF steps(2)]) simp
    moreover have "?R (?set s i (JobDeciding ?rec False)) (?set s i JobExecuting)"
      by (rule move [OF steps(3)]) simp
    ultimately show ?thesis by (rule converse_rtranclp_into_rtranclp
      [OF _ converse_rtranclp_into_rtranclp [OF _ r_into_rtranclp]])
  qed
  have "rtranclp ?R (job_race_start t) (?at JobExecuting JobStart)"
    using run [of "job_race_start t" 0] by (simp add: job_race_start_def fun_upd_idem)
  moreover have "rtranclp ?R (?at JobExecuting JobStart) (?at JobExecuting JobExecuting)"
    using run [of "?at JobExecuting JobStart" 1] by simp
  ultimately have "rtranclp ?R (job_race_start t) (?at JobExecuting JobExecuting)"
    by (rule rtranclp_trans)
  then show ?thesis by (intro exI [of _ "?at JobExecuting JobExecuting"]) simp
qed

subsection \<open>Concrete runs\<close>

definition demo_codec :: "(string, string) job_codec" where
  "demo_codec = \<lparr>jc_dumps = id, jc_sha256 = id, jc_result_dumps = Some, jc_loads = id\<rparr>"


definition demo_job_row :: "job_status \<Rightarrow> job_row" where
  "demo_job_row st = \<lparr>jr_key = ''job'', jr_status = st, jr_input_hash = ''in'', jr_result = None,
     jr_error = None, jr_attempts = 1, jr_created_at = 0, jr_updated_at = 0\<rparr>"




definition demo_job_move :: "string job_race \<Rightarrow> string job_race" where
  "demo_job_move s =
     (case job_step demo_codec 300 ''job'' ''in'' 1 (BodyReturned ''out'') (jx_pcs s 0) (jx_table s) of
        (pc, t) \<Rightarrow> s\<lparr>jx_table := t, jx_pcs := (jx_pcs s)(0 := pc)\<rparr>)"

abbreviation demo_job_step :: "string job_race \<Rightarrow> string job_race \<Rightarrow> bool" where
  "demo_job_step \<equiv> job_race_step demo_codec 300 ''job'' (\<lambda>_. ''in'') (\<lambda>_. BodyReturned ''out'')
     (lease_live 300)"

lemma demo_job_moves:
  "\<forall>m<n. lease_live 300 1 (jx_pcs ((demo_job_move ^^ m) s) 0) \<Longrightarrow>
     rtranclp demo_job_step s ((demo_job_move ^^ n) s)"
proof (induction n)
  case (Suc n)
  let ?s = "(demo_job_move ^^ n) s"
  obtain pc t where m: "job_step demo_codec 300 ''job'' ''in'' 1 (BodyReturned ''out'') (jx_pcs ?s 0)
      (jx_table ?s) = (pc, t)" by (cases "job_step demo_codec 300 ''job'' ''in'' 1
      (BodyReturned ''out'') (jx_pcs ?s 0) (jx_table ?s)")
  have "lease_live 300 1 (jx_pcs ?s 0)" using Suc.prems by simp
  from advance [of "lease_live 300", OF this m] m have "demo_job_step ?s (demo_job_move ?s)"
    by (simp add: demo_job_move_def)
  with Suc show ?case by (auto intro: rtranclp.rtrancl_into_rtrancl)
qed simp

definition demo_job_end :: "string job_race" where
  "demo_job_end = (demo_job_move ^^ 5) (job_race_start [])"

lemma demo_job_end_reached: "rtranclp demo_job_step (job_race_start []) demo_job_end"
  unfolding demo_job_end_def
  by (rule demo_job_moves)
     (simp add: numeral_eq_Suc less_Suc_eq demo_job_move_def job_race_start_def insert_or_ignore_def
       job_get_def row_to_record_def demo_codec_def)

lemma demo_job_end_pc: "jx_pcs demo_job_end 0 = JobAnswered (Some ''out'') True"
  by (simp add: numeral_eq_Suc demo_job_end_def demo_job_move_def job_race_start_def
    insert_or_ignore_def job_get_def row_to_record_def demo_codec_def)

lemma demo_no_failure: "\<not> failure_recorded demo_job_end"
proof -
  have "jx_pcs demo_job_end i = JobStart" if "i \<noteq> 0" for i
    using that by (simp add: numeral_eq_Suc demo_job_end_def demo_job_move_def job_race_start_def
      insert_or_ignore_def job_get_def row_to_record_def demo_codec_def)
  then have "jx_pcs demo_job_end i \<noteq> JobError (JobRaised e)" for i e
    using demo_job_end_pc by (cases "i = 0") simp_all
  then show ?thesis by (simp add: failure_recorded_def)
qed

lemma one_execution_witness:
  "jx_pcs demo_job_end 0 = JobAnswered (Some ''out'') True \<and> \<not> entered_body (jx_pcs demo_job_end 1) \<and>
   (\<exists>v tx. jx_pcs demo_job_end 0 = JobAnswered (Some v) True \<and>
      jc_result_dumps demo_codec v = Some tx \<and> Some ''out'' = Some v)"
proof -
  have "(entered_body (jx_pcs demo_job_end 0) \<and> entered_body (jx_pcs demo_job_end 1) \<longrightarrow> (0::nat) = 1) \<and>
    (jx_pcs demo_job_end 0 = JobAnswered (Some ''out'') True \<longrightarrow>
      (\<exists>w v tx. jx_pcs demo_job_end w = JobAnswered (Some v) True \<and>
         jc_result_dumps demo_codec v = Some tx \<and>
         (if True then 0 = w \<and> Some ''out'' = Some v else Some ''out'' = Some (jc_loads demo_codec tx))))"
    by (rule one_execution [where t = "[]", OF _ demo_job_end_reached demo_no_failure]) simp
  with demo_job_end_pc show ?thesis by auto
qed

lemma failed_job_runs_twice_witness:
  "\<exists>s. rtranclp (job_race_step demo_codec 300 ''job'' (\<lambda>_. ''in'') (\<lambda>_. BodyReturned ''out'')
      (lease_live 300)) (job_race_start [demo_job_row JobFailed]) s \<and>
    jx_pcs s 0 = JobExecuting \<and> jx_pcs s 1 = JobExecuting"
  by (rule failed_job_runs_twice [where r = "demo_job_row JobFailed"]) (simp_all add: demo_job_row_def)

end
