(* ===== verification/Watermarks.thy ===== *)
theory Watermarks
  imports Base
begin

text \<open>
  The watermark store of incremental ingestion (\<open>ingestion/watermark_tracker.py\<close>): the last
  ingested position of every asset pair, kept in memory and written to a JSON file every
  \<open>flush_every_n\<close> updates.

  A \<open>datetime\<close> is timezone-aware or naive; comparing the two kinds raises \<open>TypeError\<close>. Its ISO
  text is written and read by \<open>iso_codec\<close>. The JSON file is absent, undecodable, or a
  dictionary of entries; a write replaces it atomically or, when it fails, leaves it as it was
  and raises. The tracker's lock is a \<open>threading.Lock\<close>, so a thread that holds it and acquires
  it again blocks for ever: \<open>None\<close> is the call that does not return.
\<close>

subsection \<open>Watermarks and their file\<close>

datatype py_datetime = Aware instant | Naive instant

record iso_codec =
  isoformat :: "py_datetime \<Rightarrow> string"
  fromisoformat :: "string \<Rightarrow> py_datetime option"

definition iso_ok :: "iso_codec \<Rightarrow> bool" where
  "iso_ok c \<longleftrightarrow> (\<forall>t. isoformat c t \<noteq> [] \<and> fromisoformat c (isoformat c t) = Some t)"

fun time_less :: "py_datetime \<Rightarrow> py_datetime \<Rightarrow> bool option" where
  "time_less (Aware a) (Aware b) = Some (a < b)"
| "time_less (Naive a) (Naive b) = Some (a < b)"
| "time_less _ _ = None"

record watermark =
  wm_pair_id :: string
  wm_paging_token :: "string option"
  wm_ledger_close_time :: "py_datetime option"
  wm_trade_count :: int
  wm_updated_at :: py_datetime

text \<open>
  An entry of the file, with \<open>None\<close> for a key that is absent; for the token and the two times
  the code reads \<open>null\<close> in the same way.
\<close>

record watermark_entry =
  we_pair_id :: "string option"
  we_paging_token :: "string option"
  we_ledger_close_time :: "string option"
  we_trade_count :: "int option"
  we_updated_at :: "string option"

datatype watermark_file = NoStore | Undecodable | Stored "(string, watermark_entry) dict"

record tracker =
  wt_watermarks :: "(string, watermark) dict"
  wt_update_counter :: nat
  wt_flush_every_n :: int
  wt_file :: watermark_file

datatype watermark_error = WatermarkTypeError | WatermarkOSError

definition watermark_to_dict :: "iso_codec \<Rightarrow> watermark \<Rightarrow> watermark_entry" where
  "watermark_to_dict c wm =
     \<lparr>we_pair_id = Some (wm_pair_id wm), we_paging_token = wm_paging_token wm,
      we_ledger_close_time = map_option (isoformat c) (wm_ledger_close_time wm),
      we_trade_count = Some (wm_trade_count wm),
      we_updated_at = Some (isoformat c (wm_updated_at wm))\<rparr>"

text \<open>\<open>None\<close> is the \<open>ValueError\<close> of a text that is not an ISO time.\<close>

definition read_time :: "iso_codec \<Rightarrow> string option \<Rightarrow> py_datetime option option" where
  "read_time c raw =
     (case raw of
        None \<Rightarrow> Some None
      | Some x \<Rightarrow> if x = [] then Some None else map_option Some (fromisoformat c x))"

definition watermark_from_dict ::
  "iso_codec \<Rightarrow> instant \<Rightarrow> string \<Rightarrow> watermark_entry \<Rightarrow> watermark option"
where
  "watermark_from_dict c now pid e =
     (case read_time c (we_ledger_close_time e) of
        None \<Rightarrow> None
      | Some lct \<Rightarrow>
          (case read_time c (we_updated_at e) of
             None \<Rightarrow> None
           | Some updated \<Rightarrow>
               Some \<lparr>wm_pair_id = (case we_pair_id e of Some p \<Rightarrow> p | None \<Rightarrow> pid),
                 wm_paging_token = we_paging_token e, wm_ledger_close_time = lct,
                 wm_trade_count = (case we_trade_count e of Some n \<Rightarrow> n | None \<Rightarrow> 0),
                 wm_updated_at = (case updated of Some t \<Rightarrow> t | None \<Rightarrow> Aware now)\<rparr>))"

fun load_entries ::
  "iso_codec \<Rightarrow> instant \<Rightarrow> (string, watermark_entry) dict \<Rightarrow> (string, watermark) dict \<Rightarrow>
     (string, watermark) dict option"
where
  "load_entries c now [] acc = Some acc"
| "load_entries c now ((pid, e) # es) acc =
     (case watermark_from_dict c now pid e of
        None \<Rightarrow> None
      | Some wm \<Rightarrow> load_entries c now es (dict_set pid wm acc))"

definition load_watermarks ::
  "iso_codec \<Rightarrow> instant \<Rightarrow> watermark_file \<Rightarrow> (string, watermark) dict"
where
  "load_watermarks c now file =
     (case file of
        NoStore \<Rightarrow> []
      | Undecodable \<Rightarrow> []
      | Stored es \<Rightarrow> (case load_entries c now es [] of None \<Rightarrow> [] | Some d \<Rightarrow> d))"

definition tracker_open :: "iso_codec \<Rightarrow> int \<Rightarrow> instant \<Rightarrow> watermark_file \<Rightarrow> tracker" where
  "tracker_open c n now file =
     \<lparr>wt_watermarks = load_watermarks c now file, wt_update_counter = 0, wt_flush_every_n = n,
      wt_file = file\<rparr>"

subsection \<open>Reading\<close>

definition wm_get :: "string \<Rightarrow> tracker \<Rightarrow> watermark option" where
  "wm_get pid t = dict_get (wt_watermarks t) pid"

definition get_cursor :: "string \<Rightarrow> tracker \<Rightarrow> string option" where
  "get_cursor pid t = (case wm_get pid t of None \<Rightarrow> None | Some wm \<Rightarrow> wm_paging_token wm)"

definition get_since :: "string \<Rightarrow> tracker \<Rightarrow> py_datetime option" where
  "get_since pid t = (case wm_get pid t of None \<Rightarrow> None | Some wm \<Rightarrow> wm_ledger_close_time wm)"

definition all_pair_ids :: "tracker \<Rightarrow> string list" where
  "all_pair_ids t = dict_keys (wt_watermarks t)"

definition tracker_to_dict :: "iso_codec \<Rightarrow> tracker \<Rightarrow> (string, watermark_entry) dict" where
  "tracker_to_dict c t = map (\<lambda>(pid, wm). (pid, watermark_to_dict c wm)) (wt_watermarks t)"

subsection \<open>Writing\<close>

definition flush_unlocked ::
  "iso_codec \<Rightarrow> bool \<Rightarrow> tracker \<Rightarrow> (watermark_error + unit) \<times> tracker"
where
  "flush_unlocked c disk_ok t =
     (if disk_ok then (Inr (), t\<lparr>wt_file := Stored (tracker_to_dict c t)\<rparr>)
      else (Inl WatermarkOSError, t))"

definition store_watermark ::
  "iso_codec \<Rightarrow> bool \<Rightarrow> string \<Rightarrow> watermark \<Rightarrow> tracker \<Rightarrow> (watermark_error + watermark) \<times> tracker"
where
  "store_watermark c disk_ok pid wm t =
     (let t1 = t\<lparr>wt_watermarks := dict_set pid wm (wt_watermarks t),
                 wt_update_counter := wt_update_counter t + 1\<rparr> in
        if 0 < wt_flush_every_n t1 \<and> int (wt_update_counter t1) mod wt_flush_every_n t1 = 0
        then (case flush_unlocked c disk_ok t1 of (r, t2) \<Rightarrow> (map_sum id (\<lambda>_. wm) r, t2))
        else (Inr wm, t1))"

definition advance_watermark ::
  "iso_codec \<Rightarrow> bool \<Rightarrow> instant \<Rightarrow> string \<Rightarrow> string \<Rightarrow> py_datetime \<Rightarrow> int \<Rightarrow> tracker \<Rightarrow>
     (watermark_error + watermark) \<times> tracker"
where
  "advance_watermark c disk_ok now pid token lct inc t =
     (case wm_get pid t of
        None \<Rightarrow>
          store_watermark c disk_ok pid
            \<lparr>wm_pair_id = pid, wm_paging_token = Some token, wm_ledger_close_time = Some lct,
             wm_trade_count = inc, wm_updated_at = Aware now\<rparr> t
      | Some old \<Rightarrow>
          (case (case wm_ledger_close_time old of None \<Rightarrow> Some False | Some cur \<Rightarrow> time_less lct cur) of
             None \<Rightarrow> (Inl WatermarkTypeError, t)
           | Some True \<Rightarrow> (Inr old, t)
           | Some False \<Rightarrow>
               store_watermark c disk_ok pid
                 (old\<lparr>wm_paging_token := Some token, wm_ledger_close_time := Some lct,
                   wm_trade_count := wm_trade_count old + inc, wm_updated_at := Aware now\<rparr>) t))"

definition reset_watermark ::
  "iso_codec \<Rightarrow> bool \<Rightarrow> string \<Rightarrow> tracker \<Rightarrow> (watermark_error + unit) \<times> tracker"
where
  "reset_watermark c disk_ok pid t =
     flush_unlocked c disk_ok (t\<lparr>wt_watermarks := dict_pop pid (wt_watermarks t)\<rparr>)"

definition reset_all_watermarks ::
  "iso_codec \<Rightarrow> bool \<Rightarrow> tracker \<Rightarrow> (watermark_error + unit) \<times> tracker"
where
  "reset_all_watermarks c disk_ok t = flush_unlocked c disk_ok (t\<lparr>wt_watermarks := []\<rparr>)"

subsection \<open>Monitoring, with the lock\<close>

text \<open>\<open>with self._lock\<close>, entered by a thread that holds it already if \<open>held\<close>.\<close>

definition with_lock :: "bool \<Rightarrow> 'a option \<Rightarrow> 'a option" where
  "with_lock held x = (if held then None else x)"

definition lag_of :: "instant \<Rightarrow> watermark option \<Rightarrow> instant option" where
  "lag_of now wm =
     (case wm of
        None \<Rightarrow> None
      | Some w \<Rightarrow>
          (case wm_ledger_close_time w of
             None \<Rightarrow> None
           | Some (Aware t) \<Rightarrow> Some (now - t)
           | Some (Naive t) \<Rightarrow> Some (now - t)))"

definition lag_seconds :: "bool \<Rightarrow> instant \<Rightarrow> string \<Rightarrow> tracker \<Rightarrow> instant option option" where
  "lag_seconds held now pid t =
     (case with_lock held (Some (wm_get pid t)) of
        None \<Rightarrow> None
      | Some wm \<Rightarrow> Some (lag_of now wm))"

record pair_summary =
  ps_pair_id :: string
  ps_watermark :: watermark
  ps_lag :: "instant option"

fun summarise ::
  "instant \<Rightarrow> tracker \<Rightarrow> (string \<times> watermark) list \<Rightarrow> pair_summary list option"
where
  "summarise now t [] = Some []"
| "summarise now t ((pid, wm) # ps) =
     (case lag_seconds True now pid t of
        None \<Rightarrow> None
      | Some lag \<Rightarrow>
          map_option ((#) \<lparr>ps_pair_id = pid, ps_watermark = wm, ps_lag = lag\<rparr>) (summarise now t ps))"

definition tracker_summary_of :: "bool \<Rightarrow> instant \<Rightarrow> tracker \<Rightarrow> pair_summary list option" where
  "tracker_summary_of held now t =
     with_lock held (summarise now t (sort_key fst (wt_watermarks t)))"

subsection \<open>Histories of a tracker\<close>

text \<open>
  The operations that change a tracker, each with whether the disk accepts a write, and a crash
  followed by a restart, which keeps only the file.
\<close>

datatype watermark_event =
    WmAdvance bool instant string string py_datetime int
  | WmReset bool string
  | WmResetAll bool
  | WmFlush bool
  | WmRestart instant

fun watermark_step :: "iso_codec \<Rightarrow> tracker \<Rightarrow> watermark_event \<Rightarrow> tracker" where
  "watermark_step c t (WmAdvance ok now pid token lct inc) =
     snd (advance_watermark c ok now pid token lct inc t)"
| "watermark_step c t (WmReset ok pid) = snd (reset_watermark c ok pid t)"
| "watermark_step c t (WmResetAll ok) = snd (reset_all_watermarks c ok t)"
| "watermark_step c t (WmFlush ok) = snd (flush_unlocked c ok t)"
| "watermark_step c t (WmRestart now) = tracker_open c (wt_flush_every_n t) now (wt_file t)"

fun disk_accepts :: "watermark_event \<Rightarrow> bool" where
  "disk_accepts (WmAdvance ok _ _ _ _ _) = ok"
| "disk_accepts (WmReset ok _) = ok"
| "disk_accepts (WmResetAll ok) = ok"
| "disk_accepts (WmFlush ok) = ok"
| "disk_accepts (WmRestart _) = False"

fun keeps_pair :: "string \<Rightarrow> watermark_event \<Rightarrow> bool" where
  "keeps_pair pid (WmReset _ p) = (p \<noteq> pid)"
| "keeps_pair pid (WmResetAll _) = False"
| "keeps_pair pid (WmRestart _) = False"
| "keeps_pair pid _ = True"

lemma time_less_trans:
  "time_less b a = Some False \<Longrightarrow> time_less x b = Some False \<Longrightarrow> time_less x a = Some False"
  by (cases a; cases b; cases x) auto

lemma time_less_refl [simp]: "time_less a a = Some False"
  by (cases a) auto

lemma flush_keeps [simp]:
  "wt_watermarks (snd (flush_unlocked c ok t)) = wt_watermarks t"
  "wt_update_counter (snd (flush_unlocked c ok t)) = wt_update_counter t"
  "wt_flush_every_n (snd (flush_unlocked c ok t)) = wt_flush_every_n t"
  "flush_unlocked c True t = (Inr (), t\<lparr>wt_file := Stored (tracker_to_dict c t)\<rparr>)"
  by (simp_all add: flush_unlocked_def)

lemma store_keeps [simp]:
  "wt_watermarks (snd (store_watermark c ok pid wm t)) = dict_set pid wm (wt_watermarks t)"
  "wt_flush_every_n (snd (store_watermark c ok pid wm t)) = wt_flush_every_n t"
  "wt_update_counter (snd (store_watermark c ok pid wm t)) = Suc (wt_update_counter t)"
  by (simp_all add: store_watermark_def Let_def case_prod_beta)

definition reached_time :: "string \<Rightarrow> py_datetime \<Rightarrow> tracker \<Rightarrow> bool" where
  "reached_time pid x t \<longleftrightarrow>
     (\<exists>wm y. wm_get pid t = Some wm \<and> wm_ledger_close_time wm = Some y \<and> time_less y x = Some False)"

lemma advance_reached:
  assumes "reached_time pid x t"
  shows "reached_time pid x (snd (advance_watermark c ok now p token lct inc t))"
proof -
  obtain wm y where wm: "wm_get pid t = Some wm" "wm_ledger_close_time wm = Some y"
    "time_less y x = Some False" using assms by (auto simp: reached_time_def)
  show ?thesis
  proof (cases "p = pid")
    case False
    have "wm_get pid (snd (advance_watermark c ok now p token lct inc t)) = wm_get pid t"
      using False by (auto simp: advance_watermark_def wm_get_def split: option.splits bool.splits)
    with wm show ?thesis by (simp add: reached_time_def)
  next
    case True
    show ?thesis
    proof (cases "time_less lct y = Some False")
      case True
      with wm time_less_trans [OF wm(3)] \<open>p = pid\<close> show ?thesis
        by (simp add: advance_watermark_def reached_time_def wm_get_def)
    next
      case False
      with wm \<open>p = pid\<close> assms show ?thesis
        by (cases "time_less lct y") (auto simp: advance_watermark_def split: bool.splits)
    qed
  qed
qed

interpretation reached: preserved_when "watermark_step c" "reached_time pid x" "keeps_pair pid"
  for c pid x
proof
  fix t e
  assume "reached_time pid x t" and "keeps_pair pid e"
  then show "reached_time pid x (watermark_step c t e)"
  proof (cases e)
    case (WmAdvance ok now p token lct inc)
    with \<open>reached_time pid x t\<close> show ?thesis by (simp add: advance_reached)
  qed (auto simp: reached_time_def wm_get_def reset_watermark_def)
qed

text \<open>
  A watermark never moves back: after any history of advances of any pair in any order,
  resets of other pairs and flushes, whether or not the disk accepts their writes, the pair's
  ledger close time is comparable with what it was, and not earlier.
\<close>

theorem watermark_monotone:
  assumes "wm_get pid t = Some wm" and "wm_ledger_close_time wm = Some x"
    and "\<forall>e\<in>set es. keeps_pair pid e"
  shows "\<exists>wm' y. wm_get pid (foldl (watermark_step c) t es) = Some wm' \<and>
    wm_ledger_close_time wm' = Some y \<and> time_less y x = Some False"
proof -
  from assms(1,2) have "reached_time pid x t" by (auto simp: reached_time_def)
  from reached.run_inv_when [OF this assms(3)] show ?thesis by (simp add: reached_time_def)
qed

subsection \<open>Restarts\<close>

definition tracker_ok :: "tracker \<Rightarrow> bool" where
  "tracker_ok t \<longleftrightarrow> dict_ok (wt_watermarks t)"

lemma from_dict_to_dict:
  "iso_ok c \<Longrightarrow> watermark_from_dict c now pid (watermark_to_dict c wm) = Some wm"
  by (auto simp: watermark_from_dict_def watermark_to_dict_def read_time_def iso_ok_def
    split: option.splits)

lemma load_stored:
  assumes "iso_ok c" and "distinct (dict_keys (acc @ d))"
  shows "load_entries c now (map (\<lambda>(pid, wm). (pid, watermark_to_dict c wm)) d) acc = Some (acc @ d)"
  using assms(2)
proof (induction d arbitrary: acc)
  case (Cons p d)
  obtain pid wm where p: "p = (pid, wm)" by (cases p)
  with Cons.prems have "pid \<notin> set (dict_keys acc)" by auto
  with p Cons assms(1) show ?case by (simp add: from_dict_to_dict dict_set_new)
qed simp

lemma load_flushed:
  assumes "iso_ok c" and "tracker_ok t"
  shows "load_watermarks c now (Stored (tracker_to_dict c t)) = wt_watermarks t"
  using load_stored [of c "[]" "wt_watermarks t" now] assms
  by (simp add: load_watermarks_def tracker_to_dict_def tracker_ok_def dict_ok_def)

lemma advance_cases:
  obtains (same) "snd (advance_watermark c ok now pid token lct inc t) = t"
  | (stored) wm where "snd (advance_watermark c ok now pid token lct inc t) =
      snd (store_watermark c ok pid wm t)"
proof (cases "wm_get pid t")
  case None
  then show thesis using stored by (simp add: advance_watermark_def)
next
  case (Some old)
  define cmp where
    "cmp = (case wm_ledger_close_time old of None \<Rightarrow> Some False | Some cur \<Rightarrow> time_less lct cur)"
  consider "cmp = None" | "cmp = Some True" | "cmp = Some False"
    by (cases cmp) auto
  then show thesis
    using same stored Some by cases (auto simp: advance_watermark_def cmp_def [symmetric])
qed

lemma step_ok: "tracker_ok t \<Longrightarrow> disk_accepts e \<Longrightarrow> tracker_ok (watermark_step c t e)"
proof (cases e)
  case (WmAdvance ok now pid token lct inc)
  assume "tracker_ok t"
  then show ?thesis unfolding WmAdvance watermark_step.simps
    by (cases rule: advance_cases [of c ok now pid token lct inc t]) (auto simp: tracker_ok_def)
qed (auto simp: tracker_ok_def reset_watermark_def reset_all_watermarks_def)

interpretation tracker_kept: preserved_when "watermark_step c" tracker_ok disk_accepts for c
  by unfold_locales (rule step_ok)

lemma accepted_step:
  assumes "disk_accepts e" and "0 < wt_flush_every_n t"
  shows "wt_flush_every_n (watermark_step c t e) = wt_flush_every_n t \<and>
    (wt_file (watermark_step c t e) = Stored (tracker_to_dict c (watermark_step c t e)) \<or>
     wt_file (watermark_step c t e) = wt_file t \<and>
       (wt_update_counter (watermark_step c t e) = wt_update_counter t \<or>
        wt_update_counter (watermark_step c t e) = Suc (wt_update_counter t) \<and>
          int (Suc (wt_update_counter t)) mod wt_flush_every_n t \<noteq> 0))"
proof (cases e)
  case (WmAdvance ok now pid token lct inc)
  with assms(1) have "ok" by simp
  show ?thesis
  proof (cases rule: advance_cases [of c ok now pid token lct inc t])
    case same
    then show ?thesis by (simp add: WmAdvance)
  next
    case (stored wm)
    then show ?thesis using WmAdvance \<open>ok\<close> assms(2) by (auto simp: store_watermark_def Let_def tracker_to_dict_def)
  qed
qed (use assms in \<open>auto simp: reset_watermark_def reset_all_watermarks_def tracker_to_dict_def\<close>)

lemma same_block_step:
  assumes "int (Suc k) mod n \<noteq> 0" and "0 < n"
  shows "int (Suc k) div n = int k div n"
proof -
  obtain m where n: "n = int m" using assms(2) by (metis zero_less_imp_eq_int)
  have "Suc k mod m \<noteq> 0"
  proof
    assume "Suc k mod m = 0"
    then have "int (Suc k mod m) = 0" by simp
    with assms(1) n show False by (simp only: zmod_int)
  qed
  then have "Suc k div m = k div m" by (simp add: div_Suc)
  then show ?thesis by (simp only: n zdiv_int [symmetric])
qed

lemma same_block_less:
  assumes "i div n = j div n" and "0 < n"
  shows "j - i < (n :: int)"
proof -
  have "j = n * (i div n) + j mod n" using assms(1) by (metis mult_div_mod_eq)
  moreover have "i = n * (i div n) + i mod n" by simp
  moreover have "j mod n < n" "0 \<le> i mod n" using assms(2) by simp_all
  ultimately show ?thesis by linarith
qed

lemma last_flush:
  assumes "wt_file t = Stored (tracker_to_dict c t)" and "0 < wt_flush_every_n t"
    and "\<forall>e\<in>set es. disk_accepts e"
  shows "wt_flush_every_n (foldl (watermark_step c) t es) = wt_flush_every_n t \<and>
    (\<exists>es1 es2. es = es1 @ es2 \<and>
      wt_file (foldl (watermark_step c) t es) = Stored (tracker_to_dict c (foldl (watermark_step c) t es1)) \<and>
      int (wt_update_counter (foldl (watermark_step c) t es1)) div wt_flush_every_n t =
        int (wt_update_counter (foldl (watermark_step c) t es)) div wt_flush_every_n t)"
  using assms(3)
proof (induction es rule: rev_induct)
  case Nil
  then show ?case using assms(1) by simp
next
  case (snoc e es)
  let ?F = "foldl (watermark_step c) t"
  let ?n = "wt_flush_every_n t"
  from snoc obtain es1 es2 where n: "wt_flush_every_n (?F es) = ?n" and es: "es = es1 @ es2"
    and stored: "wt_file (?F es) = Stored (tracker_to_dict c (?F es1))"
    and block: "int (wt_update_counter (?F es1)) div ?n = int (wt_update_counter (?F es)) div ?n"
    by auto
  have "disk_accepts e" using snoc.prems by simp
  from accepted_step [OF this, of "?F es" c] n assms(2)
  consider (flushed) "wt_file (?F (es @ [e])) = Stored (tracker_to_dict c (?F (es @ [e])))"
    | (kept) "wt_file (?F (es @ [e])) = wt_file (?F es)"
      "int (wt_update_counter (?F (es @ [e]))) div ?n = int (wt_update_counter (?F es)) div ?n"
    using same_block_step [of "wt_update_counter (?F es)" ?n] by auto
  then have "\<exists>fs1 fs2. es @ [e] = fs1 @ fs2 \<and>
      wt_file (?F (es @ [e])) = Stored (tracker_to_dict c (?F fs1)) \<and>
      int (wt_update_counter (?F fs1)) div ?n = int (wt_update_counter (?F (es @ [e]))) div ?n"
  proof cases
    case flushed
    then show ?thesis by (intro exI [of _ "es @ [e]"] exI [of _ "[]"]) simp
  next
    case kept
    with stored block es show ?thesis by (intro exI [of _ es1] exI [of _ "es2 @ [e]"]) simp
  qed
  moreover have "wt_flush_every_n (?F (es @ [e])) = ?n"
    using accepted_step [OF \<open>disk_accepts e\<close>, of "?F es" c] n assms(2) by simp
  ultimately show ?case by blast
qed

text \<open>
  C24. A crash loses fewer updates than the flush interval: from a tracker whose file is current,
  after any history of operations whose writes the disk accepts, a restart finds exactly the
  watermarks as they were at some earlier moment of the history, fewer than \<open>flush_every_n\<close>
  updates ago; with the default interval of one, none is lost.
\<close>

theorem crash_loses_few:
  assumes "iso_ok c" and "tracker_ok t" and "wt_file t = Stored (tracker_to_dict c t)"
    and "0 < wt_flush_every_n t" and "\<forall>e\<in>set es. disk_accepts e"
  shows "\<exists>es1 es2. es = es1 @ es2 \<and>
    wt_watermarks (watermark_step c (foldl (watermark_step c) t es) (WmRestart now)) =
      wt_watermarks (foldl (watermark_step c) t es1) \<and>
    int (wt_update_counter (foldl (watermark_step c) t es)) -
      int (wt_update_counter (foldl (watermark_step c) t es1)) < wt_flush_every_n t"
proof -
  from last_flush [OF assms(3-5)] obtain es1 es2 where es: "es = es1 @ es2"
    and stored: "wt_file (foldl (watermark_step c) t es) =
      Stored (tracker_to_dict c (foldl (watermark_step c) t es1))"
    and block: "int (wt_update_counter (foldl (watermark_step c) t es1)) div wt_flush_every_n t =
      int (wt_update_counter (foldl (watermark_step c) t es)) div wt_flush_every_n t" by blast
  have "tracker_ok (foldl (watermark_step c) t es1)"
    using tracker_kept.run_inv_when [OF assms(2)] assms(5) es by simp
  from load_flushed [OF assms(1) this] stored
  have "wt_watermarks (watermark_step c (foldl (watermark_step c) t es) (WmRestart now)) =
      wt_watermarks (foldl (watermark_step c) t es1)" by (simp add: tracker_open_def)
  with es same_block_less [OF block assms(4)] show ?thesis by blast
qed

text \<open>
  \<open>summary\<close> holds the lock while it asks for each pair's lag, which acquires it again: it
  returns exactly when there is no watermark on record, and otherwise blocks for ever.
\<close>

theorem summary_deadlocks:
  "tracker_summary_of False now t = None \<longleftrightarrow> wt_watermarks t \<noteq> []"
proof (cases "sort_key fst (wt_watermarks t)")
  case Nil
  then have "wt_watermarks t = []" by (metis length_0_conv length_sort)
  then show ?thesis by (simp add: tracker_summary_of_def with_lock_def)
next
  case (Cons p ps)
  then have "wt_watermarks t \<noteq> []" by auto
  with Cons show ?thesis
    by (cases p) (simp add: tracker_summary_of_def with_lock_def lag_seconds_def)
qed

text \<open>
  One entry with a text that is no ISO time empties the whole tracker, and the next flush makes
  that permanent.
\<close>

lemma bad_entry_empties:
  assumes "(pid, e) \<in> set es" and "\<And>now. watermark_from_dict c now pid e = None"
  shows "load_watermarks c now (Stored es) = []"
proof -
  have "load_entries c now es acc = None" for acc
    using assms(1)
  proof (induction es arbitrary: acc)
    case (Cons q qs)
    then show ?case using assms(2) by (cases q) (auto split: option.splits)
  qed simp
  then show ?thesis by (simp add: load_watermarks_def)
qed

subsection \<open>Concrete runs\<close>

text \<open>A time written in unary, as a concrete pair of texts and readings.\<close>

fun unary_iso :: "py_datetime \<Rightarrow> string" where
  "unary_iso (Aware i) = ''Z'' @ (if i < 0 then ''-'' else ''+'') @ replicate (nat \<bar>i\<bar>) (CHR ''1'')"
| "unary_iso (Naive i) = ''N'' @ (if i < 0 then ''-'' else ''+'') @ replicate (nat \<bar>i\<bar>) (CHR ''1'')"

fun unary_of_iso :: "string \<Rightarrow> py_datetime option" where
  "unary_of_iso (z # sg # ones) =
     (let i = (if sg = CHR ''-'' then - int (length ones) else int (length ones)) in
        if z = CHR ''Z'' then Some (Aware i) else if z = CHR ''N'' then Some (Naive i) else None)"
| "unary_of_iso _ = None"

definition unary_codec :: iso_codec where
  "unary_codec = \<lparr>isoformat = unary_iso, fromisoformat = unary_of_iso\<rparr>"

lemma unary_codec_ok: "iso_ok unary_codec"
proof -
  have "unary_iso t \<noteq> [] \<and> unary_of_iso (unary_iso t) = Some t" for t by (cases t) auto
  then show ?thesis by (simp add: iso_ok_def unary_codec_def)
qed

definition demo_tracker :: tracker where
  "demo_tracker = \<lparr>wt_watermarks = [], wt_update_counter = 0, wt_flush_every_n = 2,
     wt_file = Stored []\<rparr>"

definition demo_advances :: "watermark_event list" where
  "demo_advances = map (\<lambda>i. WmAdvance True 0 ''p'' ''tok'' (Aware i) 1) [5, 7, 6, 9]"

lemma watermark_monotone_witness:
  "let t = foldl (watermark_step unary_codec) demo_tracker (take 2 demo_advances) in
     wm_get ''p'' t = Some \<lparr>wm_pair_id = ''p'', wm_paging_token = Some ''tok'',
       wm_ledger_close_time = Some (Aware 7), wm_trade_count = 2, wm_updated_at = Aware 0\<rparr> \<and>
     (\<exists>wm' y. wm_get ''p'' (foldl (watermark_step unary_codec) t (drop 2 demo_advances)) = Some wm' \<and>
        wm_ledger_close_time wm' = Some y \<and> time_less y (Aware 7) = Some False)"
proof -
  let ?t = "foldl (watermark_step unary_codec) demo_tracker (take 2 demo_advances)"
  have wm: "wm_get ''p'' ?t = Some \<lparr>wm_pair_id = ''p'', wm_paging_token = Some ''tok'',
       wm_ledger_close_time = Some (Aware 7), wm_trade_count = 2, wm_updated_at = Aware 0\<rparr>"
    by (simp add: demo_advances_def demo_tracker_def advance_watermark_def wm_get_def
      store_watermark_def Let_def)
  show ?thesis unfolding Let_def
    by (intro conjI wm, rule watermark_monotone [OF wm]) (simp_all add: demo_advances_def)
qed

lemma crash_loses_few_witness:
  "\<exists>es1 es2. demo_advances = es1 @ es2 \<and>
    wt_watermarks (watermark_step unary_codec (foldl (watermark_step unary_codec) demo_tracker
      demo_advances) (WmRestart 10)) =
      wt_watermarks (foldl (watermark_step unary_codec) demo_tracker es1) \<and>
    int (wt_update_counter (foldl (watermark_step unary_codec) demo_tracker demo_advances)) -
      int (wt_update_counter (foldl (watermark_step unary_codec) demo_tracker es1)) < 2"
proof -
  have "wt_flush_every_n demo_tracker = 2" by (simp add: demo_tracker_def)
  then show ?thesis
    using crash_loses_few [of unary_codec demo_tracker demo_advances 10, OF unary_codec_ok]
    by (auto simp: demo_tracker_def tracker_ok_def tracker_to_dict_def demo_advances_def)
qed

end
