(* ===== verification/CursorStore.thy ===== *)
theory CursorStore
  imports Base
begin

text \<open>
  The resumable cursors of the streaming workers (\<open>streaming/cursor_store.py\<close>): three stores
  behind one interface (a JSON file mirrored in memory, an SQLite table, a dictionary), and the
  manager that checkpoints every \<open>flush_interval_events\<close> events. The interface is the locale
  \<open>cursor_store\<close>, a store that survives a restart is \<open>durable_cursor_store\<close>, and the manager's
  lemmas are proved in them once, for the three implementations.

  \<open>json.dumps\<close> and \<open>json.loads\<close> of a metadata dictionary are the fields of \<open>meta_codec\<close>, with
  \<open>None\<close> for \<open>TypeError\<close> and for text that does not parse. A write of the JSON file can also
  fail on the disk: when the temporary file cannot be created the caller gets the \<open>OSError\<close>,
  any later failure is only logged by \<open>FileCursorStore\<close>, which then returns normally.
\<close>

subsection \<open>Records\<close>

datatype 'm meta_value = MetaInt int | MetaOther 'm

type_synonym 'm metadata = "(string, 'm meta_value) dict"

record 'm meta_codec =
  mc_dumps :: "'m metadata \<Rightarrow> string option"
  mc_loads :: "string \<Rightarrow> 'm metadata option"

text \<open>
  The cursor field is a string where the code always writes it, and an option in a record of
  the file, whose key \<open>cursor\<close> may be absent.
\<close>

record ('c, 'm) cursor_record =
  cr_cursor :: 'c
  cr_updated_at :: clock
  cr_metadata :: "'m metadata"

definition or_empty :: "'m metadata option \<Rightarrow> 'm metadata" where
  "or_empty meta = (case meta of None \<Rightarrow> [] | Some d \<Rightarrow> d)"

datatype cursor_error = MetadataTypeError | CursorOSError

datatype disk = DiskOk | WriteFails | NoTempFile

subsection \<open>\<open>FileCursorStore\<close>\<close>

type_synonym 'm file_data = "(string, (string option, 'm) cursor_record) dict"

datatype 'm cursor_file = NoCursorFile | BadCursorFile | CursorFile "'m file_data"

record 'm file_store =
  fs_data :: "'m file_data"
  fs_file :: "'m cursor_file"

definition file_load :: "'m cursor_file \<Rightarrow> 'm file_store" where
  "file_load f =
     \<lparr>fs_data = (case f of CursorFile d \<Rightarrow> d | _ \<Rightarrow> []), fs_file = f\<rparr>"

definition file_flush ::
  "'m meta_codec \<Rightarrow> disk \<Rightarrow> 'm file_store \<Rightarrow> (cursor_error + unit) \<times> 'm file_store"
where
  "file_flush c dk s =
     (case dk of
        NoTempFile \<Rightarrow> (Inl CursorOSError, s)
      | WriteFails \<Rightarrow> (Inr (), s)
      | DiskOk \<Rightarrow>
          (Inr (),
           if list_all (\<lambda>r. mc_dumps c (cr_metadata r) \<noteq> None) (dict_values (fs_data s))
           then s\<lparr>fs_file := CursorFile (fs_data s)\<rparr> else s))"

definition file_get :: "string \<Rightarrow> string \<Rightarrow> 'm file_store \<Rightarrow> string" where
  "file_get sid dflt s =
     (case dict_get (fs_data s) sid of
        None \<Rightarrow> dflt
      | Some r \<Rightarrow> (case cr_cursor r of None \<Rightarrow> dflt | Some cur \<Rightarrow> cur))"

definition file_save ::
  "'m meta_codec \<Rightarrow> disk \<Rightarrow> clock \<Rightarrow> string \<Rightarrow> string \<Rightarrow> 'm metadata option \<Rightarrow> 'm file_store \<Rightarrow>
     (cursor_error + unit) \<times> 'm file_store"
where
  "file_save c dk now sid cur meta s =
     file_flush c dk
       (s\<lparr>fs_data := dict_set sid \<lparr>cr_cursor = Some cur, cr_updated_at = now,
            cr_metadata = or_empty meta\<rparr> (fs_data s)\<rparr>)"

definition file_delete ::
  "'m meta_codec \<Rightarrow> disk \<Rightarrow> string \<Rightarrow> 'm file_store \<Rightarrow> (cursor_error + unit) \<times> 'm file_store"
where
  "file_delete c dk sid s =
     (case dict_get (fs_data s) sid of
        None \<Rightarrow> (Inr (), s)
      | Some r \<Rightarrow> file_flush c dk (s\<lparr>fs_data := dict_pop sid (fs_data s)\<rparr>))"

definition file_list :: "'m file_store \<Rightarrow> 'm file_data" where
  "file_list s = fs_data s"

subsection \<open>\<open>SQLiteCursorStore\<close>\<close>

record sql_cursor =
  sc_stream_id :: string
  sc_cursor :: string
  sc_metadata :: "string option"
  sc_updated_at :: clock

definition sql_get_cursor :: "string \<Rightarrow> string \<Rightarrow> sql_cursor list \<Rightarrow> string" where
  "sql_get_cursor sid dflt t =
     (case row_where sc_stream_id sid t of None \<Rightarrow> dflt | Some r \<Rightarrow> sc_cursor r)"

definition sql_save_cursor ::
  "'m meta_codec \<Rightarrow> clock \<Rightarrow> string \<Rightarrow> string \<Rightarrow> 'm metadata option \<Rightarrow> sql_cursor list \<Rightarrow>
     (cursor_error + unit) \<times> sql_cursor list"
where
  "sql_save_cursor c now sid cur meta t =
     (case mc_dumps c (or_empty meta) of
        None \<Rightarrow> (Inl MetadataTypeError, t)
      | Some text \<Rightarrow>
          (Inr (),
           (case row_where sc_stream_id sid t of
              None \<Rightarrow> t @ [\<lparr>sc_stream_id = sid, sc_cursor = cur, sc_metadata = Some text,
                sc_updated_at = now\<rparr>]
            | Some r \<Rightarrow> update_where sc_stream_id sid (\<lambda>r. r\<lparr>sc_cursor := cur,
                sc_metadata := Some text, sc_updated_at := now\<rparr>) t)))"

definition sql_delete_cursor ::
  "string \<Rightarrow> sql_cursor list \<Rightarrow> (cursor_error + unit) \<times> sql_cursor list"
where
  "sql_delete_cursor sid t = (Inr (), delete_where sc_stream_id sid t)"

definition sql_read_metadata :: "'m meta_codec \<Rightarrow> string option \<Rightarrow> 'm metadata" where
  "sql_read_metadata c raw =
     (case raw of
        None \<Rightarrow> []
      | Some text \<Rightarrow> if text = [] then [] else or_empty (mc_loads c text))"

definition sql_list_cursors ::
  "'m meta_codec \<Rightarrow> sql_cursor list \<Rightarrow> (string, (string, 'm) cursor_record) dict"
where
  "sql_list_cursors c t =
     foldl (\<lambda>d r. dict_set (sc_stream_id r) \<lparr>cr_cursor = sc_cursor r,
         cr_updated_at = sc_updated_at r, cr_metadata = sql_read_metadata c (sc_metadata r)\<rparr> d) [] t"

subsection \<open>\<open>InMemoryCursorStore\<close>\<close>

type_synonym 'm memory_store = "(string, (string, 'm) cursor_record) dict"

definition memory_get :: "string \<Rightarrow> string \<Rightarrow> 'm memory_store \<Rightarrow> string" where
  "memory_get sid dflt s =
     (case dict_get s sid of None \<Rightarrow> dflt | Some r \<Rightarrow> cr_cursor r)"

definition memory_save ::
  "clock \<Rightarrow> string \<Rightarrow> string \<Rightarrow> 'm metadata option \<Rightarrow> 'm memory_store \<Rightarrow>
     (cursor_error + unit) \<times> 'm memory_store"
where
  "memory_save now sid cur meta s =
     (Inr (), dict_set sid \<lparr>cr_cursor = cur, cr_updated_at = now, cr_metadata = or_empty meta\<rparr> s)"

definition memory_delete ::
  "string \<Rightarrow> 'm memory_store \<Rightarrow> (cursor_error + unit) \<times> 'm memory_store"
where
  "memory_delete sid s = (Inr (), dict_pop sid s)"

definition memory_list :: "'m memory_store \<Rightarrow> 'm memory_store" where
  "memory_list s = s"

subsection \<open>\<open>ResumableCursorManager\<close>\<close>

record cursor_manager =
  cm_stream_id :: string
  cm_interval :: int
  cm_event_count :: nat
  cm_current :: string

definition manager_open ::
  "(string \<Rightarrow> string \<Rightarrow> 's \<Rightarrow> string) \<Rightarrow> string \<Rightarrow> int \<Rightarrow> 's \<Rightarrow> cursor_manager"
where
  "manager_open get sid interval s =
     \<lparr>cm_stream_id = sid, cm_interval = interval, cm_event_count = 0,
      cm_current = get sid ''now'' s\<rparr>"

type_synonym ('s, 'm) save_op =
  "clock \<Rightarrow> string \<Rightarrow> string \<Rightarrow> 'm metadata option \<Rightarrow> 's \<Rightarrow> (cursor_error + unit) \<times> 's"

definition checkpoint ::
  "('s, 'm) save_op \<Rightarrow> clock \<Rightarrow> string \<Rightarrow> 'm metadata option \<Rightarrow> bool \<Rightarrow>
     cursor_manager \<times> 's \<Rightarrow> (cursor_error + unit) \<times> cursor_manager \<times> 's"
where
  "checkpoint save now cur meta force ms =
     (let m = (fst ms)\<lparr>cm_current := cur, cm_event_count := cm_event_count (fst ms) + 1\<rparr> in
        if force \<or> int (cm_event_count m) mod max 1 (cm_interval m) = 0
        then (case save now (cm_stream_id m) (cm_current m)
                (Some (dict_set ''event_count'' (MetaInt (int (cm_event_count m))) (or_empty meta)))
                (snd ms) of
                (r, s) \<Rightarrow> (r, m, s))
        else (Inr (), m, snd ms))"

text \<open>A stream of events checkpointed one by one; the first failure ends it.\<close>

fun checkpoint_all ::
  "('s, 'm) save_op \<Rightarrow> (clock \<times> string \<times> 'm metadata option) list \<Rightarrow> cursor_manager \<times> 's \<Rightarrow>
     (cursor_error + unit) \<times> cursor_manager \<times> 's"
where
  "checkpoint_all save [] ms = (Inr (), ms)"
| "checkpoint_all save ((now, cur, meta) # es) ms =
     (case checkpoint save now cur meta False ms of
        (Inl e, ms') \<Rightarrow> (Inl e, ms')
      | (Inr u, ms') \<Rightarrow> checkpoint_all save es ms')"

lemma checkpoint_all_append:
  "checkpoint_all save (es @ [e]) ms =
     (case checkpoint_all save es ms of
        (Inl x, ms') \<Rightarrow> (Inl x, ms')
      | (Inr u, ms') \<Rightarrow> checkpoint save (fst e) (fst (snd e)) (snd (snd e)) False ms')"
  by (induction es arbitrary: ms) (cases e, auto split: prod.splits sum.splits)+

subsection \<open>\<open>get_cursor_store\<close>\<close>

datatype store_ref = SQLiteStore string | MemoryStore | FileStore string

definition falsy_or :: "string option \<Rightarrow> string \<Rightarrow> string" where
  "falsy_or x d = (case x of None \<Rightarrow> d | Some v \<Rightarrow> if v = [] then d else v)"

definition store_of_type :: "string \<Rightarrow> string \<Rightarrow> store_ref" where
  "store_of_type stype spath =
     (if stype = ''sqlite'' then SQLiteStore spath
      else if stype = ''memory'' then MemoryStore else FileStore spath)"

text \<open>\<open>lower\<close> is \<open>str.lower\<close>; the last argument and result are the module's default store.\<close>

definition get_cursor_store ::
  "(string \<Rightarrow> string) \<Rightarrow> string \<Rightarrow> string \<Rightarrow> string option \<Rightarrow> string option \<Rightarrow> store_ref option \<Rightarrow>
     store_ref \<times> store_ref option"
where
  "get_cursor_store lower cfg_type cfg_path stype spath dflt =
     (if stype \<noteq> None \<or> spath \<noteq> None
      then (store_of_type (lower (falsy_or stype cfg_type)) (falsy_or spath cfg_path), dflt)
      else
        (case dflt of
           Some st \<Rightarrow> (st, dflt)
         | None \<Rightarrow> (let st = store_of_type (lower cfg_type) cfg_path in (st, Some st))))"

text \<open>The database file of \<open>SQLiteCursorStore\<close>, before \<open>os.path.abspath\<close>.\<close>

definition sqlite_path :: "string \<Rightarrow> string" where
  "sqlite_path path =
     (if 5 \<le> length path \<and> drop (length path - 5) path = ''.json''
      then take (length path - 5) path @ ''.db'' else path)"

subsection \<open>The interface and its implementations\<close>

text \<open>\<open>ready\<close> is when the store accepts every save: what an implementation needs of its environment.\<close>

locale cursor_store =
  fixes get :: "string \<Rightarrow> string \<Rightarrow> 's \<Rightarrow> string"
    and save :: "('s, 'm) save_op"
    and delete :: "string \<Rightarrow> 's \<Rightarrow> (cursor_error + unit) \<times> 's"
  assumes get_save: "save now sid cur meta s = (Inr u, s') \<Longrightarrow>
      get sid' dflt s' = (if sid' = sid then cur else get sid' dflt s)"
    and get_delete: "get sid' dflt (snd (delete sid s)) =
      (if sid' = sid then dflt else get sid' dflt s)"
begin

lemma manager_resumes:
  "fst (save now sid cur meta s) = Inr u \<Longrightarrow>
     cm_current (manager_open get sid n (snd (save now sid cur meta s))) = cur"
  using get_save [of now sid cur meta s u "snd (save now sid cur meta s)" sid "''now''"]
  by (simp add: manager_open_def prod_eq_iff)

lemma checkpoint_get:
  assumes "checkpoint save now cur meta False (m, s) = (Inr u, m', s')"
  shows "m' = m\<lparr>cm_current := cur, cm_event_count := cm_event_count m + 1\<rparr> \<and>
    get (cm_stream_id m) dflt s' =
      (if int (cm_event_count m + 1) mod max 1 (cm_interval m) = 0 then cur
       else get (cm_stream_id m) dflt s)"
  using assms get_save by (auto simp: checkpoint_def Let_def split: if_splits prod.splits)

text \<open>
  What the store holds after \<open>k\<close> successful checkpoints of a manager that was opened on it: the
  cursor of the last multiple of the interval.
\<close>

lemma checkpoint_all_get:
  assumes "checkpoint_all save es (manager_open get sid n s, s) = (Inr u, m', s')"
  shows "cm_event_count m' = length es \<and> cm_stream_id m' = sid \<and> cm_interval m' = n \<and>
    get sid dflt s' = (let k = nat (max 1 n) in
      if length es < k then get sid dflt s else fst (snd (es ! (length es div k * k - 1))))"
  using assms
proof (induction es arbitrary: m' s' u rule: rev_induct)
  case Nil
  then show ?case by (auto simp: manager_open_def Let_def)
next
  case (snoc e es)
  obtain now cur meta where e: "e = (now, cur, meta)" by (cases e)
  from snoc.prems obtain u1 m1 s1 where
    before: "checkpoint_all save es (manager_open get sid n s, s) = (Inr u1, m1, s1)"
    and step: "checkpoint save now cur meta False (m1, s1) = (Inr u, m', s')"
    by (auto simp: checkpoint_all_append e split: prod.splits sum.splits)
  define k where "k = nat (max 1 n)"
  have "int k = max 1 n" and "0 < k" by (simp_all add: k_def)
  note IH = snoc.IH [OF before]
  have "(int (length es + 1) mod max 1 n = 0) = (Suc (length es) mod k = 0)"
    by (simp only: \<open>int k = max 1 n\<close> [symmetric] zmod_int [symmetric]) simp
  with checkpoint_get [OF step] IH
  have g: "get sid dflt s' = (if Suc (length es) mod k = 0 then cur else get sid dflt s1)"
    by simp
  have m': "cm_event_count m' = Suc (length es)" "cm_stream_id m' = sid" "cm_interval m' = n"
    using checkpoint_get [OF step] IH by simp_all
  show ?case
  proof (cases "Suc (length es) mod k = 0")
    case True
    then have "Suc (length es) div k * k = Suc (length es)" by (metis add.right_neutral div_mult_mod_eq)
    moreover have "\<not> Suc (length es) < k" using True by (metis mod_less nat.distinct(1))
    ultimately show ?thesis using g True m' e by (simp add: k_def [symmetric] Let_def)
  next
    case False
    then have same: "Suc (length es) div k = length es div k" by (simp add: div_Suc)
    have "length es < k \<longleftrightarrow> Suc (length es) < k"
      using False by (metis Suc_lessI lessI less_trans mod_self)
    moreover have "length es div k * k - 1 < length es" if "\<not> length es < k"
    proof -
      have "length es div k * k \<le> length es" by simp
      with that \<open>0 < k\<close> show ?thesis by linarith
    qed
    ultimately show ?thesis using g False m' IH same
      by (simp add: k_def [symmetric] Let_def nth_append)
  qed
qed

end

text \<open>A store whose state a restart of the process reads back.\<close>

locale durable_cursor_store = cursor_store +
  fixes restart :: "'a \<Rightarrow> 'a"
    and synced :: "'a \<Rightarrow> bool"
  assumes get_restart: "synced s \<Longrightarrow> get sid dflt (restart s) = get sid dflt s"
    and synced_save: "save now sid cur meta s = (Inr u, s') \<Longrightarrow> synced s \<Longrightarrow> synced s'"
begin

lemma synced_checkpoints:
  "checkpoint_all save es ms = (Inr u, ms') \<Longrightarrow> synced (snd ms) \<Longrightarrow> synced (snd ms')"
proof (induction es arbitrary: ms)
  case (Cons e es)
  obtain now cur meta where e: "e = (now, cur, meta)" by (cases e)
  obtain r ms1 where c1: "checkpoint save now cur meta False ms = (r, ms1)"
    by (cases "checkpoint save now cur meta False ms")
  with Cons.prems(1) e obtain u1 where "r = Inr u1"
    and rest: "checkpoint_all save es ms1 = (Inr u, ms')" by (cases r) auto
  with c1 Cons.prems(2) have "synced (snd ms1)"
    using synced_save by (auto simp: checkpoint_def Let_def split: if_splits prod.splits)
  then show ?case by (rule Cons.IH [OF rest])
qed simp

lemma restart_resumes:
  assumes "checkpoint_all save es (manager_open get sid n s, s) = (Inr u, m', s')" and "synced s"
  shows "cm_current (manager_open get sid n' (restart s')) = (let k = nat (max 1 n) in
    if length es < k then get sid ''now'' s else fst (snd (es ! (length es div k * k - 1))))"
proof -
  have "synced s'" using synced_checkpoints [OF assms(1)] assms(2) by simp
  then have "cm_current (manager_open get sid n' (restart s')) = get sid ''now'' s'"
    by (simp add: manager_open_def get_restart)
  then show ?thesis using checkpoint_all_get [OF assms(1), of "''now''"] by simp
qed

end

text \<open>
  The JSON file keeps the whole dictionary in memory: it survives a restart when the file is
  current, every record can be written, and the disk accepts the writes.
\<close>

definition file_synced :: "'m meta_codec \<Rightarrow> 'm file_store \<Rightarrow> bool" where
  "file_synced c s \<longleftrightarrow> fs_file s = CursorFile (fs_data s) \<and>
     list_all (\<lambda>r. mc_dumps c (cr_metadata r) \<noteq> None) (dict_values (fs_data s))"

definition file_restart :: "'m file_store \<Rightarrow> 'm file_store" where
  "file_restart s = file_load (fs_file s)"

definition dumps_all :: "'m meta_codec \<Rightarrow> bool" where
  "dumps_all c \<longleftrightarrow> (\<forall>d. mc_dumps c d \<noteq> None)"

lemma file_flush_data [simp]: "fs_data (snd (file_flush c dk s)) = fs_data s"
  by (simp add: file_flush_def split: disk.splits)

lemma file_get_delete:
  "file_get sid' dflt (snd (file_delete c dk sid s)) = (if sid' = sid then dflt else file_get sid' dflt s)"
  by (auto simp: file_get_def file_delete_def split: option.splits)

interpretation files: cursor_store file_get "file_save c dk" "file_delete c dk"
  for c :: "'m meta_codec" and dk
proof
  show "file_get sid' dflt (snd (file_delete c dk sid s)) =
      (if sid' = sid then dflt else file_get sid' dflt s)" for sid' dflt sid s
    by (rule file_get_delete)
next
  fix now sid cur meta s u s' sid' dflt
  assume "file_save c dk now sid cur meta s = (Inr u, s')"
  then have "fs_data s' = dict_set sid \<lparr>cr_cursor = Some cur, cr_updated_at = now,
      cr_metadata = or_empty meta\<rparr> (fs_data s)"
    using file_flush_data [of c dk] by (metis file_save_def file_store.select_convs(1)
      file_store.surjective file_store.update_convs(1) snd_conv)
  then show "file_get sid' dflt s' = (if sid' = sid then cur else file_get sid' dflt s)"
    by (simp add: file_get_def)
qed

interpretation tables: cursor_store sql_get_cursor "sql_save_cursor c" sql_delete_cursor
  for c :: "'m meta_codec"
  by unfold_locales
     (auto simp: sql_save_cursor_def sql_get_cursor_def sql_delete_cursor_def split: option.splits)

interpretation memories: cursor_store memory_get memory_save memory_delete
  by unfold_locales (auto simp: memory_save_def memory_get_def memory_delete_def)

lemma file_save_synced:
  assumes "dumps_all c" and "file_synced c s"
  shows "file_synced c (snd (file_save c DiskOk now sid cur meta s))"
  using assms by (simp add: file_synced_def file_save_def file_flush_def dumps_all_def list_all_iff)

interpretation tables: durable_cursor_store sql_get_cursor "sql_save_cursor c" sql_delete_cursor
    "\<lambda>t. t" "\<lambda>_. True" for c :: "'m meta_codec"
  by unfold_locales simp_all

interpretation files: durable_cursor_store file_get "file_save c DiskOk" "file_delete c DiskOk"
    file_restart "\<lambda>s. dumps_all c \<and> file_synced c s" for c :: "'m meta_codec"
proof
  fix now sid cur meta s u s'
  assume "file_save c DiskOk now sid cur meta s = (Inr u, s')" and "dumps_all c \<and> file_synced c s"
  with file_save_synced [of c s now sid cur meta] show "dumps_all c \<and> file_synced c s'" by simp
qed (auto simp: file_get_def file_restart_def file_load_def file_synced_def)

subsection \<open>Properties\<close>

text \<open>
  A worker that resumes from the JSON file starts at the cursor of its last full batch:
  after any number of checkpoints of a manager opened on a store whose file is current, with
  metadata \<open>json.dump\<close> accepts, a restart resumes at the event whose number is the largest
  multiple of the flush interval, or where the manager itself had started; so fewer events than
  the interval are replayed, and none is skipped.
\<close>

theorem file_manager_resumes:
  fixes c :: "'m meta_codec"
  assumes "dumps_all c" and "file_synced c s"
    and "checkpoint_all (file_save c DiskOk) es (manager_open file_get sid n s, s) = (Inr u, m', s')"
  shows "cm_current (manager_open file_get sid n' (file_restart s')) = (let k = nat (max 1 n) in
    if length es < k then file_get sid ''now'' s else fst (snd (es ! (length es div k * k - 1))))"
  by (rule files.restart_resumes [OF assms(3)]) (use assms(1,2) in simp)

text \<open>
  The same for the SQLite table, which needs nothing of the metadata: a save whose metadata
  cannot be written raises instead, and the checkpoints before it count.
\<close>

theorem sqlite_manager_resumes:
  assumes "checkpoint_all (sql_save_cursor c) es (manager_open sql_get_cursor sid n t, t) =
      (Inr u, m', t')"
  shows "cm_current (manager_open sql_get_cursor sid n' t') = (let k = nat (max 1 n) in
    if length es < k then sql_get_cursor sid ''now'' t
    else fst (snd (es ! (length es div k * k - 1))))"
  by (rule tables.restart_resumes [OF assms]) simp

lemma flush_stuck:
  assumes "dict_get (fs_data s) sid = Some r" and "mc_dumps c (cr_metadata r) = None"
  shows "fs_file (snd (file_flush c dk s)) = fs_file s"
  using dict_get_in_values [OF assms(1)] assms(2)
  by (auto simp: file_flush_def list_all_iff simp del: set_map split: disk.splits)

lemma file_saves_stuck:
  fixes c :: "'m meta_codec"
  assumes "dict_get (fs_data s) sid = Some r" and "mc_dumps c (cr_metadata r) = None"
    and "\<forall>(now, sid', cur, meta)\<in>set saves. sid' \<noteq> sid"
  shows "fs_file (foldl (\<lambda>s (now, sid', cur, meta). snd (file_save c DiskOk now sid' cur meta s)) s saves) =
    fs_file s"
  using assms
proof (induction saves arbitrary: s)
  case (Cons v saves)
  obtain now sid' cur meta where v: "v = (now, sid', cur, meta)" by (cases v)
  let ?s = "snd (file_save c DiskOk now sid' cur meta s)"
  have "sid' \<noteq> sid" using Cons.prems(3) v by auto
  then have data: "dict_get (fs_data ?s) sid = Some r"
    using Cons.prems(1) by (simp add: file_save_def)
  have "fs_file ?s = fs_file s"
    using flush_stuck [of "s\<lparr>fs_data := fs_data ?s\<rparr>" sid r c DiskOk] data Cons.prems(2)
    by (simp add: file_save_def)
  with Cons.IH [OF data Cons.prems(2)] Cons.prems(3) v show ?case by simp
qed simp

text \<open>
  One save whose metadata JSON cannot express returns normally and stops all persistence:
  the flush that fails is only logged, and since it writes the whole dictionary, no later save
  of any other stream reaches the file either.
\<close>

theorem bad_metadata_stops_persistence:
  fixes c :: "'m meta_codec"
  assumes "mc_dumps c (or_empty meta) = None"
    and "\<forall>(now', sid', cur', meta')\<in>set saves. sid' \<noteq> sid"
  shows "fst (file_save c DiskOk now sid cur meta s) = Inr () \<and>
    fs_file (foldl (\<lambda>s (now, sid', cur, meta). snd (file_save c DiskOk now sid' cur meta s))
      (snd (file_save c DiskOk now sid cur meta s)) saves) = fs_file s"
proof -
  let ?r = "\<lparr>cr_cursor = Some cur, cr_updated_at = now, cr_metadata = or_empty meta\<rparr>"
  let ?s = "snd (file_save c DiskOk now sid cur meta s)"
  have data: "dict_get (fs_data ?s) sid = Some ?r" by (simp add: file_save_def)
  have "fs_file ?s = fs_file s"
    using flush_stuck [of "s\<lparr>fs_data := fs_data ?s\<rparr>" sid ?r c DiskOk] data assms(1)
    by (simp add: file_save_def)
  with file_saves_stuck [OF data _ assms(2), where c = c] assms(1) show ?thesis
    by (simp add: file_save_def file_flush_def)
qed

subsection \<open>Concrete runs\<close>

definition demo_codec_ok :: "nat meta_codec" where
  "demo_codec_ok = \<lparr>mc_dumps = (\<lambda>_. Some ''{}''), mc_loads = (\<lambda>_. Some [])\<rparr>"

definition demo_codec_bad :: "nat meta_codec" where
  "demo_codec_bad = \<lparr>mc_dumps = (\<lambda>d. if dict_get d ''set'' = None then Some ''{}'' else None),
     mc_loads = (\<lambda>_. Some [])\<rparr>"

definition demo_events :: "(clock \<times> string \<times> nat metadata option) list" where
  "demo_events = [(1, ''11'', None), (2, ''12'', None), (3, ''13'', None)]"

definition demo_cursor_files :: "nat file_store" where
  "demo_cursor_files = \<lparr>fs_data = [], fs_file = CursorFile []\<rparr>"

definition demo_file_run :: "(cursor_error + unit) \<times> cursor_manager \<times> nat file_store" where
  "demo_file_run = checkpoint_all (file_save demo_codec_ok DiskOk) demo_events
     (manager_open file_get ''s'' 2 demo_cursor_files, demo_cursor_files)"

lemma file_manager_resumes_witness:
  "cm_current (manager_open file_get ''s'' 2 (file_restart (snd (snd demo_file_run)))) =
    (let k = nat (max 1 2) in
       if length demo_events < k then file_get ''s'' ''now'' demo_cursor_files
       else fst (snd (demo_events ! (length demo_events div k * k - 1))))"
proof (rule file_manager_resumes [where c = demo_codec_ok])
  show "checkpoint_all (file_save demo_codec_ok DiskOk) demo_events
      (manager_open file_get ''s'' 2 demo_cursor_files, demo_cursor_files) =
      (Inr (), fst (snd demo_file_run), snd (snd demo_file_run))"
    by (simp add: demo_file_run_def prod_eq_iff)
       (simp add: demo_events_def checkpoint_def manager_open_def file_save_def file_flush_def Let_def)
qed (simp_all add: dumps_all_def demo_codec_ok_def file_synced_def demo_cursor_files_def)

definition demo_sql_run :: "(cursor_error + unit) \<times> cursor_manager \<times> sql_cursor list" where
  "demo_sql_run = checkpoint_all (sql_save_cursor demo_codec_ok) demo_events
     (manager_open sql_get_cursor ''s'' 2 [], [])"

lemma sqlite_manager_resumes_witness:
  "cm_current (manager_open sql_get_cursor ''s'' 2 (snd (snd demo_sql_run))) =
    (let k = nat (max 1 2) in
       if length demo_events < k then sql_get_cursor ''s'' ''now'' []
       else fst (snd (demo_events ! (length demo_events div k * k - 1))))"
proof (rule sqlite_manager_resumes [where c = demo_codec_ok])
  show "checkpoint_all (sql_save_cursor demo_codec_ok) demo_events
      (manager_open sql_get_cursor ''s'' 2 [], []) =
      (Inr (), fst (snd demo_sql_run), snd (snd demo_sql_run))"
    by (simp add: demo_sql_run_def prod_eq_iff)
       (simp add: demo_events_def checkpoint_def manager_open_def sql_save_cursor_def
         demo_codec_ok_def Let_def)
qed

lemma bad_metadata_stops_persistence_witness:
  "fst (file_save demo_codec_bad DiskOk 1 ''a'' ''5'' (Some [(''set'', MetaOther 0)]) demo_cursor_files) = Inr () \<and>
    fs_file (foldl (\<lambda>s (now, sid', cur, meta). snd (file_save demo_codec_bad DiskOk now sid' cur meta s))
      (snd (file_save demo_codec_bad DiskOk 1 ''a'' ''5'' (Some [(''set'', MetaOther 0)]) demo_cursor_files))
      [(2, ''b'', ''6'', None)]) = fs_file demo_cursor_files"
  by (rule bad_metadata_stops_persistence) (simp_all add: demo_codec_bad_def or_empty_def)

end
