(* ===== verification/PubSub.thy ===== *)
theory PubSub
  imports Base "HOL-Library.Multiset"
begin

text \<open>
  The router of published score events to WebSocket clients (\<open>streaming/pubsub_router.py\<close>): the
  two mirrored indexes of subscriptions, the choice of the clients an event goes to, delivery
  with bounded retries, and the dead-letter store with its replay.

  A Python \<open>set\<close> is a list without repetitions, whose order stands for the iteration order.
  Every method holds the router's lock, so methods are atomic. The handler that sends a message
  is a parameter acting on a state of its own; the dead-letter file is the list of its entries,
  and entries are written and read back unchanged (they are JSON objects).
\<close>

subsection \<open>Subscriptions\<close>

record router =
  rt_max_attempts :: int
  rt_subscriptions :: "(string, string list) dict"
  rt_channels :: "(string, string list) dict"

definition members :: "(string, string list) dict \<Rightarrow> string \<Rightarrow> string list" where
  "members d k = (case dict_get d k of None \<Rightarrow> [] | Some xs \<Rightarrow> xs)"

definition add_member :: "string \<Rightarrow> string \<Rightarrow> (string, string list) dict \<Rightarrow> (string, string list) dict"
where
  "add_member k x d = dict_set k (List.insert x (members d k)) d"

definition drop_member :: "string \<Rightarrow> string \<Rightarrow> (string, string list) dict \<Rightarrow> (string, string list) dict"
where
  "drop_member k x d = dict_set k (removeAll x (members d k)) d"

text \<open>Removing a client from a channel also removes a channel that is left empty.\<close>

definition leave_channel :: "string \<Rightarrow> string \<Rightarrow> (string, string list) dict \<Rightarrow> (string, string list) dict"
where
  "leave_channel client channel d =
     (let d' = drop_member channel client d in
        if members d' channel = [] then dict_pop channel d' else d')"

definition router_init :: "int \<Rightarrow> router" where
  "router_init n = \<lparr>rt_max_attempts = max 1 n, rt_subscriptions = [], rt_channels = []\<rparr>"

definition subscribe_one :: "string \<Rightarrow> string \<Rightarrow> router \<Rightarrow> router" where
  "subscribe_one client channel r =
     r\<lparr>rt_subscriptions := add_member client channel (rt_subscriptions r),
       rt_channels := add_member channel client (rt_channels r)\<rparr>"

definition subscribe :: "string \<Rightarrow> string list \<Rightarrow> router \<Rightarrow> router" where
  "subscribe client channels r = fold (subscribe_one client) channels r"

definition unsubscribe_one :: "string \<Rightarrow> string \<Rightarrow> router \<Rightarrow> router" where
  "unsubscribe_one client channel r =
     r\<lparr>rt_subscriptions := drop_member client channel (rt_subscriptions r),
       rt_channels := leave_channel client channel (rt_channels r)\<rparr>"

definition unsubscribe :: "string \<Rightarrow> string list \<Rightarrow> router \<Rightarrow> router" where
  "unsubscribe client channels r = fold (unsubscribe_one client) channels r"

definition disconnect :: "string \<Rightarrow> router \<Rightarrow> router" where
  "disconnect client r =
     (if client \<notin> set (dict_keys (rt_subscriptions r)) then r
      else r\<lparr>rt_subscriptions := dict_pop client (rt_subscriptions r),
             rt_channels := fold (leave_channel client) (members (rt_subscriptions r) client)
               (rt_channels r)\<rparr>)"

definition get_subscribers :: "string \<Rightarrow> router \<Rightarrow> string list" where
  "get_subscribers channel r = members (rt_channels r) channel"

definition get_subscriptions :: "string \<Rightarrow> router \<Rightarrow> string list" where
  "get_subscriptions client r = members (rt_subscriptions r) client"

definition get_clients_for_event :: "string \<Rightarrow> string \<Rightarrow> router \<Rightarrow> string list" where
  "get_clients_for_event wallet pair r =
     remdups (get_subscribers (''wallet/'' @ wallet) r @ get_subscribers (''pair/'' @ pair) r @
       get_subscribers ''all'' r)"

record router_statistics =
  rs_total_clients :: nat
  rs_total_channels :: nat
  rs_per_client :: "(string \<times> nat) list"
  rs_per_channel :: "(string \<times> nat) list"

definition router_stats :: "router \<Rightarrow> router_statistics" where
  "router_stats r =
     \<lparr>rs_total_clients = length (rt_subscriptions r), rs_total_channels = length (rt_channels r),
      rs_per_client = map (\<lambda>(c, xs). (c, length xs)) (rt_subscriptions r),
      rs_per_channel = map (\<lambda>(c, xs). (c, length xs)) (rt_channels r)\<rparr>"

subsection \<open>Delivery and dead letters\<close>

record 'm dead_letter =
  dl_id :: string
  dl_client :: string
  dl_channel :: string
  dl_message :: 'm
  dl_error :: string
  dl_retry_count :: int
  dl_first_failure_at :: "clock option"
  dl_dead_lettered_at :: clock

type_synonym ('m, 'w) handler = "string \<Rightarrow> 'm \<Rightarrow> 'w \<Rightarrow> (string + unit) \<times> 'w"

definition remove_entries :: "string list \<Rightarrow> 'm dead_letter list \<Rightarrow> 'm dead_letter list" where
  "remove_entries ids es = filter (\<lambda>e. dl_id e \<notin> set ids) es"

text \<open>The attempts of one delivery: \<open>Inl\<close> the last error when all of them failed.\<close>

fun attempt_delivery ::
  "('m, 'w) handler \<Rightarrow> string \<Rightarrow> 'm \<Rightarrow> nat \<Rightarrow> string \<Rightarrow> 'w \<Rightarrow> (string + unit) \<times> 'w"
where
  "attempt_delivery handler client msg 0 last_error w = (Inl last_error, w)"
| "attempt_delivery handler client msg (Suc n) last_error w =
     (case handler client msg w of
        (Inr u, w') \<Rightarrow> (Inr (), w')
      | (Inl e, w') \<Rightarrow> attempt_delivery handler client msg n e w')"

record delivery_clock =
  dc_first_failure :: clock
  dc_dead_lettered :: clock
  dc_nanoseconds :: nat

definition deliver_message ::
  "('m, 'w) handler \<Rightarrow> router \<Rightarrow> delivery_clock \<Rightarrow> string \<Rightarrow> string \<Rightarrow> 'm \<Rightarrow>
     'w \<times> 'm dead_letter list \<Rightarrow> bool \<times> 'w \<times> 'm dead_letter list"
where
  "deliver_message handler r dc client channel msg s =
     (case attempt_delivery handler client msg (nat (rt_max_attempts r)) ''NoneType: None'' (fst s) of
        (Inr u, w) \<Rightarrow> (True, w, snd s)
      | (Inl e, w) \<Rightarrow>
          (False, w, snd s @ [\<lparr>dl_id = client @ '':'' @ channel @ '':'' @ dec (dc_nanoseconds dc),
             dl_client = client, dl_channel = channel, dl_message = msg, dl_error = e,
             dl_retry_count = rt_max_attempts r,
             dl_first_failure_at = Some (dc_first_failure dc),
             dl_dead_lettered_at = dc_dead_lettered dc\<rparr>]))"

fun deliver_each ::
  "('m, 'w) handler \<Rightarrow> router \<Rightarrow> (nat \<Rightarrow> delivery_clock) \<Rightarrow> 'm dead_letter list \<Rightarrow> nat \<Rightarrow>
     'w \<times> 'm dead_letter list \<Rightarrow> nat \<times> 'w \<times> 'm dead_letter list"
where
  "deliver_each handler r dcs [] ok s = (ok, s)"
| "deliver_each handler r dcs (e # es) ok s =
     (case deliver_message handler r (dcs (length es)) (dl_client e) (dl_channel e) (dl_message e) s of
        (True, s') \<Rightarrow> deliver_each handler r dcs es (ok + 1) s'
      | (False, s') \<Rightarrow> deliver_each handler r dcs es ok s')"

definition selected :: "string list option \<Rightarrow> 'm dead_letter list \<Rightarrow> 'm dead_letter list" where
  "selected ids es =
     (case ids of None \<Rightarrow> es | Some is \<Rightarrow> filter (\<lambda>e. dl_id e \<in> set is) es)"


text \<open>
  What a replay has done when the process dies after its first \<open>n\<close> deliveries.
\<close>

definition replay_killed ::
  "('m, 'w) handler \<Rightarrow> router \<Rightarrow> (nat \<Rightarrow> delivery_clock) \<Rightarrow> string list option \<Rightarrow> nat \<Rightarrow>
     'w \<times> 'm dead_letter list \<Rightarrow> 'w \<times> 'm dead_letter list"
where
  "replay_killed handler r dcs ids n s =
     (let entries = selected ids (snd s) in
        snd (deliver_each handler r dcs (take n entries) 0
          (fst s, remove_entries (map dl_id entries) (snd s))))"

subsection \<open>The indexes mirror each other\<close>

definition router_ok :: "router \<Rightarrow> bool" where
  "router_ok r \<longleftrightarrow>
     (\<forall>c ch. ch \<in> set (members (rt_subscriptions r) c) \<longleftrightarrow> c \<in> set (members (rt_channels r) ch)) \<and>
     (\<forall>ch. dict_get (rt_channels r) ch \<noteq> Some [])"

lemma members_set [simp]:
  "members (dict_set k xs d) k' = (if k' = k then xs else members d k')"
  by (simp add: members_def)

lemma members_pop [simp]:
  "members (dict_pop k d) k' = (if k' = k then [] else members d k')"
  by (simp add: members_def)

lemma members_add [simp]:
  "set (members (add_member k x d) k') = (if k' = k then insert x (set (members d k)) else set (members d k'))"
  by (simp add: add_member_def)

lemma members_drop [simp]:
  "set (members (drop_member k x d) k') = set (members d k') - (if k' = k then {x} else {})"
  by (simp add: drop_member_def)

lemma members_leave [simp]:
  "set (members (leave_channel c ch d) k) = set (members d k) - (if k = ch then {c} else {})"
  by (auto simp: leave_channel_def Let_def drop_member_def removeAll_filter_not_eq filter_empty_conv)

lemma no_empty_add: "dict_get d' ch \<noteq> Some [] \<Longrightarrow> dict_get (add_member k x d') ch \<noteq> Some []"
  by (auto simp: add_member_def List.insert_def split: if_splits)

lemma no_empty_leave:
  "(\<forall>ch. dict_get d ch \<noteq> Some []) \<Longrightarrow> dict_get (leave_channel c k d) ch \<noteq> Some []"
  by (auto simp: leave_channel_def Let_def drop_member_def members_def split: if_splits)

lemma fold_leave_members:
  "set (members (fold (leave_channel c) chs d) k) =
     set (members d k) - (if k \<in> set chs then {c} else {})"
  by (induction chs arbitrary: d) auto

lemma fold_leave_no_empty:
  "\<forall>ch. dict_get d ch \<noteq> Some [] \<Longrightarrow> \<forall>ch. dict_get (fold (leave_channel c) chs d) ch \<noteq> Some []"
  by (induction chs arbitrary: d) (auto simp: no_empty_leave)

text \<open>The abstract router: the set of pairs of a client and a channel it is subscribed to.\<close>

type_synonym pairs = "(string \<times> string) set"

datatype router_event =
    Subscribe string "string list"
  | Unsubscribe string "string list"
  | Disconnect string

fun pairs_step :: "pairs \<Rightarrow> router_event \<Rightarrow> pairs" where
  "pairs_step P (Subscribe c chs) = P \<union> {c} \<times> set chs"
| "pairs_step P (Unsubscribe c chs) = P - {c} \<times> set chs"
| "pairs_step P (Disconnect c) = {p \<in> P. fst p \<noteq> c}"

fun router_step :: "router \<Rightarrow> router_event \<Rightarrow> router" where
  "router_step r (Subscribe c chs) = subscribe c chs r"
| "router_step r (Unsubscribe c chs) = unsubscribe c chs r"
| "router_step r (Disconnect c) = disconnect c r"

definition abstracts :: "router \<Rightarrow> pairs \<Rightarrow> bool" where
  "abstracts r P \<longleftrightarrow> (\<forall>c ch. (c, ch) \<in> P \<longleftrightarrow> ch \<in> set (members (rt_subscriptions r) c)) \<and>
     router_ok r"

lemma subscribe_one_abstracts:
  "abstracts r P \<Longrightarrow> abstracts (subscribe_one c ch r) (insert (c, ch) P)"
  by (auto simp: abstracts_def router_ok_def subscribe_one_def no_empty_add)

lemma unsubscribe_one_abstracts:
  "abstracts r P \<Longrightarrow> abstracts (unsubscribe_one c ch r) (P - {(c, ch)})"
  by (auto simp: abstracts_def router_ok_def unsubscribe_one_def no_empty_leave)

lemma subscribe_abstracts:
  "abstracts r P \<Longrightarrow> abstracts (subscribe c chs r) (P \<union> {c} \<times> set chs)"
proof (induction chs arbitrary: r P)
  case (Cons ch chs)
  from Cons.IH [OF subscribe_one_abstracts [OF Cons.prems, of c ch]]
  show ?case by (simp add: subscribe_def insert_Times_insert Un_commute insert_absorb)
qed (simp add: subscribe_def)

lemma unsubscribe_abstracts:
  "abstracts r P \<Longrightarrow> abstracts (unsubscribe c chs r) (P - {c} \<times> set chs)"
proof (induction chs arbitrary: r P)
  case (Cons ch chs)
  have "P - {(c, ch)} - {c} \<times> set chs = P - {c} \<times> set (ch # chs)" by auto
  with Cons.IH [OF unsubscribe_one_abstracts [OF Cons.prems, of c ch]]
  show ?case by (simp add: unsubscribe_def)
qed (simp add: unsubscribe_def)

lemma disconnect_abstracts:
  assumes "abstracts r P"
  shows "abstracts (disconnect c r) {p \<in> P. fst p \<noteq> c}"
proof (cases "c \<in> set (dict_keys (rt_subscriptions r))")
  case False
  then have "members (rt_subscriptions r) c = []"
    by (simp add: members_def map_of_eq_None_iff [THEN iffD2])
  with assms False show ?thesis by (auto simp: abstracts_def disconnect_def)
next
  case True
  from assms have m: "\<And>c ch. ch \<in> set (members (rt_subscriptions r) c) \<longleftrightarrow>
      c \<in> set (members (rt_channels r) ch)"
    and P: "\<And>c ch. (c, ch) \<in> P \<longleftrightarrow> ch \<in> set (members (rt_subscriptions r) c)"
    and "\<forall>ch. dict_get (rt_channels r) ch \<noteq> Some []"
    by (auto simp: abstracts_def router_ok_def)
  with True fold_leave_no_empty show ?thesis
    by (auto simp: abstracts_def router_ok_def disconnect_def fold_leave_members)
qed

lemma router_step_abstracts:
  "abstracts r P \<Longrightarrow> abstracts (router_step r e) (pairs_step P e)"
  by (cases e) (simp_all add: subscribe_abstracts unsubscribe_abstracts disconnect_abstracts)

lemma run_abstracts:
  "abstracts r P \<Longrightarrow> abstracts (foldl router_step r es) (foldl pairs_step P es)"
  by (induction es arbitrary: r P) (auto simp: router_step_abstracts)

lemma init_abstracts: "abstracts (router_init n) {}"
  by (simp add: abstracts_def router_ok_def router_init_def members_def)

text \<open>
  C27. The router implements a set of subscriptions: after any history of subscribing,
  unsubscribing and disconnecting, an event reaches exactly the clients subscribed to its
  wallet's channel, to its pair's channel or to \<open>all\<close>, each once.
\<close>

theorem routing_exact:
  "let r = foldl router_step (router_init n) es; P = foldl pairs_step {} es in
     distinct (get_clients_for_event wallet pair r) \<and>
     set (get_clients_for_event wallet pair r) =
       {c. \<exists>ch. (c, ch) \<in> P \<and> ch \<in> {''wallet/'' @ wallet, ''pair/'' @ pair, ''all''}} \<and>
     (\<forall>c. set (get_subscriptions c r) = {ch. (c, ch) \<in> P})"
  using run_abstracts [OF init_abstracts, of n es]
  by (auto simp: Let_def abstracts_def router_ok_def get_clients_for_event_def get_subscribers_def
    get_subscriptions_def)

subsection \<open>Nothing is lost, unless the process dies\<close>

text \<open>What a dead letter is about.\<close>

definition addressed :: "'m dead_letter \<Rightarrow> string \<times> string \<times> 'm" where
  "addressed e = (dl_client e, dl_channel e, dl_message e)"

lemma deliver_message_store:
  assumes "deliver_message handler r dc c ch msg s = (b, s')"
  obtains (sent) "b" "snd s' = snd s"
  | (dead) d where "\<not> b" "addressed d = (c, ch, msg)" "snd s' = snd s @ [d]"
proof (cases "fst (attempt_delivery handler c msg (nat (rt_max_attempts r)) ''NoneType: None'' (fst s))")
  case (Inl e)
  then show thesis using assms
    by (intro dead [of "last (snd s')"])
       (auto simp: deliver_message_def addressed_def split: prod.splits sum.splits)
next
  case (Inr u)
  then show thesis using assms
    by (intro sent) (auto simp: deliver_message_def split: prod.splits sum.splits)
qed

lemma deliver_each_conserves:
  assumes "deliver_each handler r dcs es ok s = (ok', s')"
  shows "\<exists>sent. mset (map addressed (snd s')) + sent = mset (map addressed (snd s)) + mset (map addressed es)
    \<and> size sent + ok = ok'"
  using assms
proof (induction es arbitrary: ok s)
  case (Cons e es)
  obtain b s1 where d: "deliver_message handler r (dcs (length es)) (dl_client e) (dl_channel e)
      (dl_message e) s = (b, s1)"
    by (cases "deliver_message handler r (dcs (length es)) (dl_client e) (dl_channel e)
      (dl_message e) s")
  from d have s1: "mset (map addressed (snd s1)) =
      mset (map addressed (snd s)) + (if b then {#} else {#addressed e#})"
    by (cases rule: deliver_message_store) (auto simp: addressed_def)
  obtain sent where sent: "mset (map addressed (snd s')) + sent =
      mset (map addressed (snd s1)) + mset (map addressed es)"
    "size sent + (if b then ok + 1 else ok) = ok'"
    using Cons.IH [of "if b then ok + 1 else ok" s1] Cons.prems d by (cases b) auto
  show ?case
    using sent s1
    by (intro exI [of _ "sent + (if b then {#addressed e#} else {#})"]) (auto simp: ac_simps)
qed auto

lemma deliver_each_count:
  "deliver_each handler r dcs es ok s = (ok', s') \<Longrightarrow> ok' \<le> ok + length es"
proof (induction es arbitrary: ok s)
  case (Cons e es)
  then show ?case by (fastforce split: prod.splits bool.splits)
qed auto

text \<open>Where the replay stores nothing it removed, what is left is what was not selected.\<close>

lemma selected_split:
  "mset (map addressed (remove_entries (map dl_id (selected ids es)) es)) +
     mset (map addressed (selected ids es)) = mset (map addressed es)"
proof -
  have "remove_entries (map dl_id (selected ids es)) es =
      filter (\<lambda>e. \<not> (case ids of None \<Rightarrow> True | Some is \<Rightarrow> dl_id e \<in> set is)) es"
    unfolding remove_entries_def by (rule filter_cong) (auto simp: selected_def split: option.splits)
  moreover have "selected ids es =
      filter (\<lambda>e. case ids of None \<Rightarrow> True | Some is \<Rightarrow> dl_id e \<in> set is) es"
    by (auto simp: selected_def split: option.splits)
  ultimately have "mset (remove_entries (map dl_id (selected ids es)) es) + mset (selected ids es) =
      mset es"
    by (simp add: multiset_partition [symmetric] add.commute)
  then show ?thesis by (metis image_mset_union mset_map)
qed

text \<open>
  A handler that logs, besides what it does, the messages it has accepted; its answers are those of the
  handler it wraps.
\<close>

definition logged :: "('m, 'w) handler \<Rightarrow> ('m, 'w \<times> (string \<times> 'm) list) handler" where
  "logged handler client msg s =
     (case handler client msg (fst s) of
        (Inr u, w) \<Rightarrow> (Inr u, w, snd s @ [(client, msg)])
      | (Inl e, w) \<Rightarrow> (Inl e, w, snd s))"

lemma logged_answers:
  "attempt_delivery handler client msg n e w =
     (case attempt_delivery (logged handler) client msg n e (w, got) of (a, w', _) \<Rightarrow> (a, w'))"
  by (induction n arbitrary: e w) (simp_all add: logged_def split: prod.split sum.split)






text \<open>
  The selected entries leave the file before the first of them is delivered: if the process
  dies after \<open>n\<close> deliveries, the file holds what was not selected and the failures among the
  first \<open>n\<close>, and the remaining messages were neither delivered nor kept.
\<close>

theorem replay_crash_loses:
  "let s' = replay_killed handler r dcs ids n s; es = selected ids (snd s) in
     \<exists>sent. mset (map addressed (snd s')) + sent + mset (map addressed (drop n es)) =
       mset (map addressed (snd s)) \<and> size sent \<le> n"
proof -
  let ?es = "selected ids (snd s)"
  let ?s0 = "(fst s, remove_entries (map dl_id ?es) (snd s))"
  obtain ok s' where run: "deliver_each handler r dcs (take n ?es) 0 ?s0 = (ok, s')"
    by (cases "deliver_each handler r dcs (take n ?es) 0 ?s0")
  obtain sent where sent: "mset (map addressed (snd s')) + sent =
      mset (map addressed (remove_entries (map dl_id ?es) (snd s))) + mset (map addressed (take n ?es))"
    "size sent = ok"
    using deliver_each_conserves [OF run] by auto
  have "ok \<le> n"
    using deliver_each_count [OF run] by simp
  moreover have "mset (map addressed (take n ?es)) + mset (map addressed (drop n ?es)) =
      mset (map addressed ?es)"
    by (metis append_take_drop_id map_append mset_append)
  ultimately have "ok \<le> n \<and>
      mset (map addressed (snd s')) + sent + mset (map addressed (drop n ?es)) = mset (map addressed (snd s))"
    using sent(1) selected_split [of ids "snd s"] by (simp only: add.assoc)
  then show ?thesis
    using sent(2) run unfolding replay_killed_def Let_def
    by (simp only: prod.case fst_conv snd_conv) (intro exI [of _ sent], simp)
qed

end
