(* ===== verification/MerkleChain.thy ===== *)
theory MerkleChain
  imports Base
begin

text \<open>
  The Merkle commitment of the forensic audit log (the second half of \<open>detection/audit_trail.py\<close>):
  leaf and node hashes, the root of a list of leaves, the chain object with its in-memory entries
  and the table \<open>audit_merkle_roots\<close>, appending, rehydration after a restart, and verification.

  SHA-256 (as a hexadecimal text) is the parameter \<open>sha\<close>, the digest of an entry's content is
  computed by the caller's JSON, so \<open>append\<close> takes it as a text. An \<open>append\<close> whose transaction
  fails (a database error, or the unique index of another process) has already extended the
  in-memory list. Creation times are not verified by the code and are left out.
\<close>

subsection \<open>The tree\<close>

definition leaf_hash :: "(string \<Rightarrow> string) \<Rightarrow> nat \<Rightarrow> string \<Rightarrow> string" where
  "leaf_hash sha i content = sha (dec i @ CHR '':'' # content)"

definition node_hash :: "(string \<Rightarrow> string) \<Rightarrow> string \<Rightarrow> string \<Rightarrow> string" where
  "node_hash sha l r = sha (l @ r)"

text \<open>An odd level repeats its last node.\<close>

definition pad_level :: "string list \<Rightarrow> string list" where
  "pad_level nodes = (if odd (length nodes) then nodes @ [last nodes] else nodes)"

fun node_level :: "(string \<Rightarrow> string) \<Rightarrow> string list \<Rightarrow> string list" where
  "node_level sha (l # r # nodes) = node_hash sha l r # node_level sha nodes"
| "node_level sha _ = []"

lemma length_node_level [simp]: "length (node_level sha nodes) = length nodes div 2"
  by (induction sha nodes rule: node_level.induct) auto

function reduce_levels :: "(string \<Rightarrow> string) \<Rightarrow> string list \<Rightarrow> string list" where
  "reduce_levels sha nodes =
     (if 1 < length nodes then reduce_levels sha (node_level sha (pad_level nodes)) else nodes)"
  by pat_completeness auto

termination reduce_levels
  by (relation "measure (\<lambda>(_, nodes). length nodes)") (auto simp: pad_level_def elim!: oddE)

declare reduce_levels.simps [simp del]

definition compute_root :: "(string \<Rightarrow> string) \<Rightarrow> string list \<Rightarrow> string" where
  "compute_root sha leaves =
     (case reduce_levels sha leaves of [] \<Rightarrow> sha ''empty'' | n # _ \<Rightarrow> n)"

subsection \<open>The chain\<close>

record merkle_entry =
  me_index :: nat
  me_content_hash :: "string option"
  me_prev_root :: "string option"
  me_root :: string

record merkle_chain =
  ch_entries :: "merkle_entry list"
  ch_rows :: "merkle_entry list"

datatype merkle_error = TamperDetectedError nat | AuditChainIncompleteError | MerkleDatabaseError

text \<open>\<open>ORDER BY entry_index\<close>.\<close>

definition rehydrate_entries :: "merkle_entry list \<Rightarrow> merkle_entry list" where
  "rehydrate_entries rows = sort_key me_index rows"

definition chain_open :: "merkle_entry list \<Rightarrow> merkle_chain" where
  "chain_open rows = \<lparr>ch_entries = rehydrate_entries rows, ch_rows = rows\<rparr>"

definition leaves_of :: "(string \<Rightarrow> string) \<Rightarrow> merkle_entry list \<Rightarrow> string list" where
  "leaves_of sha es = map (\<lambda>e. leaf_hash sha (me_index e) (the (me_content_hash e))) es"

definition next_entry :: "(string \<Rightarrow> string) \<Rightarrow> string \<Rightarrow> merkle_entry list \<Rightarrow> merkle_entry" where
  "next_entry sha content es =
     \<lparr>me_index = length es, me_content_hash = Some content,
      me_prev_root = Some (if es = [] then sha ''genesis'' else me_root (last es)),
      me_root = compute_root sha (leaves_of sha es @ [leaf_hash sha (length es) content])\<rparr>"

definition chain_append ::
  "(string \<Rightarrow> string) \<Rightarrow> bool \<Rightarrow> string \<Rightarrow> merkle_chain \<Rightarrow> (merkle_error + merkle_entry) \<times> merkle_chain"
where
  "chain_append sha commit_ok content c =
     (if list_ex (\<lambda>e. me_content_hash e = None) (ch_entries c) then (Inl AuditChainIncompleteError, c)
      else
        (let e = next_entry sha content (ch_entries c);
             c1 = c\<lparr>ch_entries := ch_entries c @ [e]\<rparr> in
           if commit_ok \<and> me_index e \<notin> me_index ` set (ch_rows c)
           then (Inr e, c1\<lparr>ch_rows := ch_rows c @ [e]\<rparr>)
           else (Inl MerkleDatabaseError, c1)))"

text \<open>
  The loop of \<open>verify_chain\<close> over \<open>range(stop)\<close>: \<open>n\<close> indices are left, \<open>i\<close> is the next one.
\<close>

fun verify_from ::
  "(string \<Rightarrow> string) \<Rightarrow> merkle_chain \<Rightarrow> nat \<Rightarrow> nat \<Rightarrow> nat \<Rightarrow> string list \<Rightarrow> merkle_error + bool"
where
  "verify_from sha c start i 0 leaves = Inr True"
| "verify_from sha c start i (Suc n) leaves =
     (if length (ch_entries c) \<le> i then Inl (TamperDetectedError i)
      else
        (let e = ch_entries c ! i in
           case me_content_hash e of
             None \<Rightarrow> Inl AuditChainIncompleteError
           | Some content \<Rightarrow>
               (let leaves' = leaves @ [leaf_hash sha i content] in
                  if i < start then verify_from sha c start (Suc i) n leaves'
                  else
                    (let recomputed = compute_root sha leaves' in
                       if recomputed \<noteq> me_root e then Inl (TamperDetectedError i)
                       else
                         (case row_where me_index i (ch_rows c) of
                            None \<Rightarrow> Inl (TamperDetectedError i)
                          | Some r \<Rightarrow>
                              if me_root r \<noteq> recomputed then Inl (TamperDetectedError i)
                              else verify_from sha c start (Suc i) n leaves')))))"

definition verify_chain ::
  "(string \<Rightarrow> string) \<Rightarrow> nat \<Rightarrow> nat option \<Rightarrow> merkle_chain \<Rightarrow> merkle_error + bool"
where
  "verify_chain sha start stop c =
     verify_from sha c start 0 (case stop of None \<Rightarrow> length (ch_entries c) | Some n \<Rightarrow> n) []"

subsection \<open>What verification accepts\<close>

text \<open>An entry that carries the root of the leaves up to it, in memory and in the table.\<close>

definition entry_ok :: "(string \<Rightarrow> string) \<Rightarrow> merkle_chain \<Rightarrow> nat \<Rightarrow> bool" where
  "entry_ok sha c i \<longleftrightarrow>
     me_root (ch_entries c ! i) =
       compute_root sha (map (\<lambda>j. leaf_hash sha j (the (me_content_hash (ch_entries c ! j)))) [0..<Suc i]) \<and>
     (\<exists>r. row_where me_index i (ch_rows c) = Some r \<and> me_root r = me_root (ch_entries c ! i))"

lemma verify_from_iff:
  assumes "leaves = map (\<lambda>j. leaf_hash sha j (the (me_content_hash (ch_entries c ! j)))) [0..<i]"
  shows "verify_from sha c start i n leaves = Inr True \<longleftrightarrow>
    (n = 0 \<or> i + n \<le> length (ch_entries c)) \<and>
    (\<forall>j\<in>{i..<i + n}. me_content_hash (ch_entries c ! j) \<noteq> None \<and> (start \<le> j \<longrightarrow> entry_ok sha c j))"
  using assms
proof (induction n arbitrary: i leaves)
  case (Suc n)
  have split: "{i..<i + Suc n} = insert i {Suc i..<Suc i + n}" by auto
  show ?case
  proof (cases "length (ch_entries c) \<le> i")
    case False
    show ?thesis
    proof (cases "me_content_hash (ch_entries c ! i)")
      case None
      then show ?thesis unfolding split using False by (simp add: Let_def)
    next
      case (Some content)
      define leaves' where "leaves' = leaves @ [leaf_hash sha i content]"
      have l: "leaves' = map (\<lambda>j. leaf_hash sha j (the (me_content_hash (ch_entries c ! j)))) [0..<Suc i]"
        using Suc.prems Some by (simp add: leaves'_def)
      note IH = Suc.IH [OF l]
      have ok: "entry_ok sha c i \<longleftrightarrow> compute_root sha leaves' = me_root (ch_entries c ! i) \<and>
          (\<exists>r. row_where me_index i (ch_rows c) = Some r \<and> me_root r = compute_root sha leaves')"
        by (auto simp: entry_ok_def l)
      have step: "verify_from sha c start i (Suc n) leaves =
          (if i < start \<or> entry_ok sha c i then verify_from sha c start (Suc i) n leaves'
           else Inl (TamperDetectedError i))"
      proof (cases "row_where me_index i (ch_rows c)")
        case None
        with False Some show ?thesis by (simp add: ok Let_def leaves'_def [symmetric])
      next
        case (Some r)
        with False \<open>me_content_hash (ch_entries c ! i) = Some content\<close> show ?thesis
          by (simp add: ok Let_def leaves'_def [symmetric])
      qed
      show ?thesis
      proof (cases "i < start \<or> entry_ok sha c i")
        case True
        with False have "(Suc n = 0 \<or> i + Suc n \<le> length (ch_entries c)) \<longleftrightarrow>
            (n = 0 \<or> Suc i + n \<le> length (ch_entries c))" by auto
        with True step IH Some show ?thesis by (simp only: split ball_simps(7)) auto
      next
        case False
        with step show ?thesis by (simp only: split ball_simps(7)) auto
      qed
    qed
  qed simp
qed simp

lemma verify_chain_iff:
  "verify_chain sha start stop c = Inr True \<longleftrightarrow>
     (let n = (case stop of None \<Rightarrow> length (ch_entries c) | Some n \<Rightarrow> n) in
        n \<le> length (ch_entries c) \<and>
        (\<forall>j<n. me_content_hash (ch_entries c ! j) \<noteq> None \<and> (start \<le> j \<longrightarrow> entry_ok sha c j)))"
proof -
  define n where "n = (case stop of None \<Rightarrow> length (ch_entries c) | Some n \<Rightarrow> n)"
  have "verify_from sha c start 0 n [] = Inr True \<longleftrightarrow>
      (n = 0 \<or> 0 + n \<le> length (ch_entries c)) \<and>
      (\<forall>j\<in>{0..<0 + n}. me_content_hash (ch_entries c ! j) \<noteq> None \<and> (start \<le> j \<longrightarrow> entry_ok sha c j))"
    by (rule verify_from_iff) simp
  also have "\<dots> \<longleftrightarrow> n \<le> length (ch_entries c) \<and>
      (\<forall>j<n. me_content_hash (ch_entries c ! j) \<noteq> None \<and> (start \<le> j \<longrightarrow> entry_ok sha c j))"
    by (cases "n = 0") (simp_all add: Ball_def)
  finally show ?thesis unfolding verify_chain_def Let_def n_def [symmetric] .
qed

subsection \<open>Honest chains\<close>

definition entry_good :: "(string \<Rightarrow> string) \<Rightarrow> merkle_entry list \<Rightarrow> nat \<Rightarrow> bool" where
  "entry_good sha es i \<longleftrightarrow> me_index (es ! i) = i \<and> me_content_hash (es ! i) \<noteq> None \<and>
     me_root (es ! i) =
       compute_root sha (map (\<lambda>j. leaf_hash sha j (the (me_content_hash (es ! j)))) [0..<Suc i])"

definition chain_good :: "(string \<Rightarrow> string) \<Rightarrow> merkle_chain \<Rightarrow> bool" where
  "chain_good sha c \<longleftrightarrow> ch_rows c = ch_entries c \<and>
     (\<forall>i<length (ch_entries c). entry_good sha (ch_entries c) i)"

lemma good_indices: "\<forall>i<length es. me_index (es ! i) = i \<Longrightarrow> map me_index es = [0..<length es]"
  by (rule nth_equalityI) auto

lemma good_leaves:
  assumes "\<forall>i<length es. me_index (es ! i) = i"
  shows "leaves_of sha es = map (\<lambda>j. leaf_hash sha j (the (me_content_hash (es ! j)))) [0..<length es]"
  using assms by (intro nth_equalityI) (auto simp: leaves_of_def)

lemma entry_good_append:
  "i < length es \<Longrightarrow> entry_good sha (es @ fs) i \<longleftrightarrow> entry_good sha es i"
  unfolding entry_good_def
  by (intro conj_cong arg_cong2 [where f = "(=)"] arg_cong [where f = "compute_root sha"] map_cong refl)
     (auto simp: nth_append)

lemma next_good:
  assumes "\<forall>i<length es. entry_good sha es i"
  shows "\<forall>i<length (es @ [next_entry sha content es]). entry_good sha (es @ [next_entry sha content es]) i"
proof (intro allI impI)
  fix i assume i: "i < length (es @ [next_entry sha content es])"
  show "entry_good sha (es @ [next_entry sha content es]) i"
  proof (cases "i < length es")
    case True
    with assms show ?thesis by (simp add: entry_good_append)
  next
    case False
    with i have "i = length es" by simp
    have idx: "\<forall>i<length es. me_index (es ! i) = i" using assms by (simp add: entry_good_def)
    define e where "e = next_entry sha content es"
    have "map (\<lambda>j. leaf_hash sha j (the (me_content_hash ((es @ [e]) ! j)))) [0..<length es] =
        leaves_of sha es"
      by (simp add: good_leaves [OF idx] nth_append)
    moreover have "me_index e = length es" "me_content_hash e = Some content"
      "me_root e = compute_root sha (leaves_of sha es @ [leaf_hash sha (length es) content])"
      by (simp_all add: e_def next_entry_def)
    ultimately show ?thesis unfolding e_def [symmetric] \<open>i = length es\<close>
      by (simp add: entry_good_def)
  qed
qed

lemma chain_good_indices:
  assumes "chain_good sha c"
  shows "map me_index (ch_entries c) = [0..<length (ch_entries c)]"
  by (rule good_indices) (use assms in \<open>auto simp: chain_good_def entry_good_def\<close>)

lemma good_verifies:
  assumes "chain_good sha c" and "n \<le> length (ch_entries c)"
  shows "verify_chain sha start (Some n) c = Inr True"
proof -
  have "me_content_hash (ch_entries c ! j) \<noteq> None \<and> entry_ok sha c j" if "j < n" for j
  proof -
    from that assms have g: "entry_good sha (ch_entries c) j" by (simp add: chain_good_def)
    have "distinct (map me_index (ch_entries c))"
      by (simp only: chain_good_indices [OF assms(1)] distinct_upt)
    then have "row_where me_index (me_index (ch_entries c ! j)) (ch_entries c) = Some (ch_entries c ! j)"
      using that assms(2) by (intro row_where_unique) auto
    with g assms(1) show ?thesis by (simp add: entry_ok_def entry_good_def chain_good_def)
  qed
  with assms(2) show ?thesis by (simp add: verify_chain_iff Let_def)
qed

lemma restart_good:
  assumes "chain_good sha c"
  shows "chain_open (ch_rows c) = c"
proof -
  have "sorted (map me_index (ch_entries c))"
    by (simp only: chain_good_indices [OF assms] sorted_upt)
  then have "sort_key me_index (ch_entries c) = ch_entries c" by (rule sort_key_id_if_sorted)
  with assms show ?thesis by (simp add: chain_open_def rehydrate_entries_def chain_good_def)
qed

datatype merkle_event = MerkleAppend string | MerkleRestart

fun merkle_step :: "(string \<Rightarrow> string) \<Rightarrow> merkle_chain \<Rightarrow> merkle_event \<Rightarrow> merkle_chain" where
  "merkle_step sha c (MerkleAppend content) = snd (chain_append sha True content c)"
| "merkle_step sha c MerkleRestart = chain_open (ch_rows c)"

lemma append_good:
  assumes "chain_good sha c"
  shows "chain_append sha ok content c =
    (let e = next_entry sha content (ch_entries c) in
     if ok then (Inr e, \<lparr>ch_entries = ch_entries c @ [e], ch_rows = ch_entries c @ [e]\<rparr>)
     else (Inl MerkleDatabaseError, \<lparr>ch_entries = ch_entries c @ [e], ch_rows = ch_entries c\<rparr>))"
proof -
  have "\<forall>e\<in>set (ch_entries c). me_content_hash e \<noteq> None"
    using assms by (auto simp: chain_good_def entry_good_def in_set_conv_nth)
  then have "\<not> list_ex (\<lambda>e. me_content_hash e = None) (ch_entries c)" by (auto simp: list_ex_iff)
  moreover have "me_index ` set (ch_entries c) = {0..<length (ch_entries c)}"
    by (simp only: chain_good_indices [OF assms] list.set_map [symmetric] set_upt)
  ultimately show ?thesis
    using assms by (cases c) (simp add: chain_append_def Let_def chain_good_def next_entry_def)
qed

interpretation good_chain: preserved "merkle_step sha" "chain_good sha" for sha
proof
  fix c e
  assume good: "chain_good sha c"
  show "chain_good sha (merkle_step sha c e)"
  proof (cases e)
    case (MerkleAppend content)
    with good next_good show ?thesis
      by (simp add: append_good Let_def) (simp add: chain_good_def)
  next
    case MerkleRestart
    with good show ?thesis by (simp add: restart_good)
  qed
qed

text \<open>
  The chain verifies over any range after any history of appends that reach the database and
  of restarts.
\<close>

theorem merkle_history_verifies:
  assumes "c = foldl (merkle_step sha) (chain_open []) es" and "n \<le> length (ch_entries c)"
  shows "verify_chain sha start (Some n) c = Inr True"
proof -
  have "chain_good sha (chain_open [])" by (simp add: chain_good_def chain_open_def rehydrate_entries_def)
  then have "chain_good sha c" unfolding assms(1) by (rule good_chain.run_inv)
  then show ?thesis using assms(2) by (rule good_verifies)
qed

text \<open>
  An \<open>append\<close> whose commit fails leaves its entry in memory: from then on the untouched log is
  reported as tampered with, and if another entry is appended before the process restarts, the
  table has a gap, so that every later process reports it too.
\<close>

theorem failed_commit_looks_tampered:
  assumes "c = foldl (merkle_step sha) (chain_open []) es"
  shows "let n = length (ch_entries c); c1 = snd (chain_append sha False x c);
             c2 = snd (chain_append sha True y c1)
    in verify_chain sha 0 None c = Inr True \<and> ch_rows c1 = ch_rows c \<and>
       verify_chain sha 0 None c1 \<noteq> Inr True \<and>
       verify_chain sha 0 None (chain_open (ch_rows c2)) \<noteq> Inr True"
proof -
  have "chain_good sha (chain_open [])" by (simp add: chain_good_def chain_open_def rehydrate_entries_def)
  then have good: "chain_good sha c" unfolding assms(1) by (rule good_chain.run_inv)
  define es where "es = ch_entries c"
  define e where "e = next_entry sha x es"
  define f where "f = next_entry sha y (es @ [e])"
  have rows: "ch_rows c = es" using good by (simp add: chain_good_def es_def)
  have c1: "snd (chain_append sha False x c) = \<lparr>ch_entries = es @ [e], ch_rows = es\<rparr>"
    using good by (simp add: append_good Let_def es_def e_def)
  have idx: "me_index ` set es = {0..<length es}"
    unfolding es_def by (simp only: chain_good_indices [OF good] list.set_map [symmetric] set_upt)
  have content: "\<not> list_ex (\<lambda>e. me_content_hash e = None) (es @ [e])"
    using good by (auto simp: chain_good_def entry_good_def list_ex_iff in_set_conv_nth es_def e_def
      next_entry_def)
  have "me_index f = Suc (length es)" by (simp add: f_def next_entry_def)
  then have c2: "snd (chain_append sha True y \<lparr>ch_entries = es @ [e], ch_rows = es\<rparr>) =
      \<lparr>ch_entries = es @ [e, f], ch_rows = es @ [f]\<rparr>"
    using content idx by (simp add: chain_append_def Let_def f_def)
  have gap: "row_where me_index (length es) (es @ fs) = None"
    if "length es \<notin> me_index ` set fs" for fs
    using idx that by (simp add: row_where_None del: row_where_append)
  have "verify_chain sha 0 None \<lparr>ch_entries = es @ [e], ch_rows = es\<rparr> \<noteq> Inr True"
    using gap [of "[]"] by (auto simp: verify_chain_iff Let_def entry_ok_def)
  moreover have "verify_chain sha 0 None (chain_open (es @ [f])) \<noteq> Inr True"
    using gap [of "[f]"] \<open>me_index f = Suc (length es)\<close>
    by (auto simp: verify_chain_iff Let_def entry_ok_def chain_open_def rehydrate_entries_def)
  moreover have "verify_chain sha 0 None c = Inr True"
    using good_verifies [OF good order_refl, of 0] by (simp add: verify_chain_def)
  ultimately show ?thesis by (simp add: Let_def c1 c2 rows)
qed

subsection \<open>The root binds the log\<close>

text \<open>The texts hashed while a root is computed.\<close>

fun level_inputs :: "string list \<Rightarrow> string list" where
  "level_inputs (l # r # nodes) = (l @ r) # level_inputs nodes"
| "level_inputs _ = []"

function reduce_inputs :: "(string \<Rightarrow> string) \<Rightarrow> string list \<Rightarrow> string list" where
  "reduce_inputs sha nodes =
     (if 1 < length nodes
      then level_inputs (pad_level nodes) @ reduce_inputs sha (node_level sha (pad_level nodes))
      else [])"
  by pat_completeness auto

termination reduce_inputs
  by (relation "measure (\<lambda>(_, nodes). length nodes)") (auto simp: pad_level_def elim!: oddE)

declare reduce_inputs.simps [simp del]

definition log_inputs :: "(string \<Rightarrow> string) \<Rightarrow> string list \<Rightarrow> string set" where
  "log_inputs sha contents =
     (\<lambda>i. dec i @ CHR '':'' # contents ! i) ` {0..<length contents} \<union>
     set (reduce_inputs sha (map (\<lambda>i. leaf_hash sha i (contents ! i)) [0..<length contents]))"

lemma log_input_mem: "i < length cs \<Longrightarrow> dec i @ CHR '':'' # cs ! i \<in> log_inputs sha cs"
  unfolding log_inputs_def by (rule UnI1, rule imageI) simp

lemma node_level_inj:
  assumes "length a = length b" and "even (length a)"
    and "\<forall>x\<in>set a \<union> set b. length x = n"
    and "inj_on sha (set (level_inputs a) \<union> set (level_inputs b))"
    and "node_level sha a = node_level sha b"
  shows "a = b"
  using assms
proof (induction a arbitrary: b rule: level_inputs.induct)
  case (1 l r nodes)
  then obtain l' r' nodes' where b: "b = l' # r' # nodes'"
    by (cases b; cases "tl b") auto
  with 1 have "sha (l @ r) = sha (l' @ r')" by (simp add: node_hash_def)
  then have "l @ r = l' @ r'" by (rule inj_onD [OF 1(5)]) (simp_all add: b)
  moreover have "length l = length l'" using 1(4) b by simp
  ultimately have "l = l' \<and> r = r'" by simp
  moreover have "nodes = nodes'"
    using 1 b by (intro "1.IH") (auto intro: inj_on_subset)
  ultimately show ?case using b by simp
qed auto

lemma pad_level_inj: "length a = length b \<Longrightarrow> pad_level a = pad_level b \<Longrightarrow> a = b"
  by (auto simp: pad_level_def split: if_splits)

lemma pad_level_even: "even (length (pad_level a))" "length a = length b \<Longrightarrow> length (pad_level a) = length (pad_level b)"
  by (auto simp: pad_level_def)

lemma set_pad_level [simp]: "set (pad_level a) = set a"
  by (cases "a = []") (auto simp: pad_level_def)

lemma node_level_length:
  "\<forall>x. length (sha x) = n \<Longrightarrow> \<forall>x\<in>set (node_level sha a). length x = n"
  by (induction sha a rule: node_level.induct) (auto simp: node_hash_def)

lemma reduce_inj:
  assumes "length a = length b" and "\<forall>x. length (sha x) = n"
    and "\<forall>x\<in>set a \<union> set b. length x = n"
    and "inj_on sha (set (reduce_inputs sha a) \<union> set (reduce_inputs sha b))"
    and "reduce_levels sha a = reduce_levels sha b"
  shows "a = b"
  using assms
proof (induction sha a arbitrary: b rule: reduce_levels.induct)
  case (1 sha a)
  show ?case
  proof (cases "1 < length a")
    case False
    with 1(2,6) show ?thesis by (simp add: reduce_levels.simps)
  next
    case True
    let ?l = "\<lambda>a. node_level sha (pad_level a)"
    have inputs: "set (reduce_inputs sha a) = set (level_inputs (pad_level a)) \<union> set (reduce_inputs sha (?l a))"
      "set (reduce_inputs sha b) = set (level_inputs (pad_level b)) \<union> set (reduce_inputs sha (?l b))"
      using True 1(2) by (simp_all add: reduce_inputs.simps [of sha a] reduce_inputs.simps [of sha b])
    have "?l a = ?l b"
    proof (rule "1.IH" [OF True])
      show "length (?l a) = length (?l b)" using pad_level_even(2) [OF 1(2)] by simp
      show "\<forall>x\<in>set (?l a) \<union> set (?l b). length x = n" using node_level_length [OF 1(3)] by blast
      show "inj_on sha (set (reduce_inputs sha (?l a)) \<union> set (reduce_inputs sha (?l b)))"
        by (rule inj_on_subset [OF 1(5)]) (auto simp: inputs)
      show "reduce_levels sha (?l a) = reduce_levels sha (?l b)"
        using 1(2,6) True by (simp add: reduce_levels.simps [of sha a] reduce_levels.simps [of sha b])
    qed (rule 1(3))
    moreover have "inj_on sha (set (level_inputs (pad_level a)) \<union> set (level_inputs (pad_level b)))"
      by (rule inj_on_subset [OF 1(5)]) (auto simp: inputs)
    ultimately have "pad_level a = pad_level b"
      using 1(4) by (intro node_level_inj [OF pad_level_even(2) [OF 1(2)] pad_level_even(1)]) auto
    with 1(2) show ?thesis by (rule pad_level_inj)
  qed
qed

lemma reduce_single: "a \<noteq> [] \<Longrightarrow> length (reduce_levels sha a) = 1"
proof (induction sha a rule: reduce_levels.induct)
  case (1 sha a)
  show ?case
  proof (cases "1 < length a")
    case True
    then have "node_level sha (pad_level a) \<noteq> []"
      by (cases a; cases "tl a") (auto simp: pad_level_def)
    with 1 True show ?thesis by (simp add: reduce_levels.simps [of sha a])
  next
    case False
    with 1(2) have "length a = 1" by (cases a) auto
    then show ?thesis by (simp add: reduce_levels.simps)
  qed
qed

lemma compute_root_inj:
  assumes "compute_root sha a = compute_root sha b" and "a \<noteq> []" and "length a = length b"
    and "\<forall>x. length (sha x) = n" and "\<forall>x\<in>set a \<union> set b. length x = n"
    and "inj_on sha (set (reduce_inputs sha a) \<union> set (reduce_inputs sha b))"
  shows "a = b"
proof -
  have "b \<noteq> []" using assms(2,3) by auto
  then obtain x y where "reduce_levels sha a = [x]" "reduce_levels sha b = [y]"
    using reduce_single [OF assms(2), of sha] reduce_single [of b sha]
    by (auto simp: length_Suc_conv)
  with assms(1) have "reduce_levels sha a = reduce_levels sha b" by (simp add: compute_root_def)
  then show ?thesis by (rule reduce_inj [OF assms(3-6)])
qed

definition contents_of :: "merkle_chain \<Rightarrow> string list" where
  "contents_of c = map (the \<circ> me_content_hash) (ch_entries c)"

lemma verified_last_root:
  assumes "verify_chain sha start None c = Inr True" and "ch_entries c \<noteq> []" and "start < length (ch_entries c)"
  shows "me_root (last (ch_entries c)) =
    compute_root sha (map (\<lambda>i. leaf_hash sha i (contents_of c ! i)) [0..<length (ch_entries c)])"
proof -
  define n where "n = length (ch_entries c) - 1"
  then have n: "length (ch_entries c) = Suc n" using assms(2) by (cases "ch_entries c") auto
  with assms have "entry_ok sha c n" by (simp add: verify_chain_iff Let_def)
  moreover have "last (ch_entries c) = ch_entries c ! n" using assms(2) by (simp add: last_conv_nth n_def)
  moreover have "map (\<lambda>i. leaf_hash sha i (contents_of c ! i)) [0..<Suc n] =
      map (\<lambda>j. leaf_hash sha j (the (me_content_hash (ch_entries c ! j)))) [0..<Suc n]"
    using n by (intro map_cong) (auto simp: contents_of_def)
  ultimately show ?thesis by (simp only: n entry_ok_def)
qed

text \<open>
  C15. Any change of the recorded contents changes the last root: two logs of the same length that
  both verify and end in the same root hold the same content digests, unless SHA-256 collides on
  two of the texts hashed for them. So a copy of the last root kept elsewhere exposes every
  rewrite of an entry.
\<close>

theorem merkle_tampering_detected:
  assumes "verify_chain sha 0 None c = Inr True" and "verify_chain sha 0 None c' = Inr True"
    and "length (ch_entries c) = length (ch_entries c')"
    and "me_root (last (ch_entries c)) = me_root (last (ch_entries c'))"
    and "\<forall>x. length (sha x) = n"
    and "inj_on sha (log_inputs sha (contents_of c) \<union> log_inputs sha (contents_of c'))"
  shows "map me_content_hash (ch_entries c) = map me_content_hash (ch_entries c')"
proof (cases "ch_entries c = []")
  case True
  with assms(3) show ?thesis by simp
next
  case False
  let ?L = "\<lambda>c. map (\<lambda>i. leaf_hash sha i (contents_of c ! i)) [0..<length (contents_of c)]"
  have len: "length (contents_of c) = length (ch_entries c)" for c by (simp add: contents_of_def)
  have "ch_entries c' \<noteq> []" using False assms(3) by auto
  with verified_last_root [OF assms(1) False] verified_last_root [OF assms(2)] False assms(4)
  have "compute_root sha (?L c) = compute_root sha (?L c')" by (simp add: len)
  then have "?L c = ?L c'"
  proof (rule compute_root_inj)
    show "\<forall>x\<in>set (?L c) \<union> set (?L c'). length x = n" using assms(5) by (auto simp: leaf_hash_def)
    show "inj_on sha (set (reduce_inputs sha (?L c)) \<union> set (reduce_inputs sha (?L c')))"
      by (rule inj_on_subset [OF assms(6)]) (auto simp: log_inputs_def)
  qed (use False assms(3,5) \<open>ch_entries c' \<noteq> []\<close> in \<open>simp_all add: len\<close>)
  show ?thesis
  proof (rule nth_equalityI)
    fix i assume "i < length (map me_content_hash (ch_entries c))"
    then have i: "i < length (ch_entries c)" "i < length (ch_entries c')" using assms(3) by simp_all
    have "?L c ! i = ?L c' ! i" using \<open>?L c = ?L c'\<close> by simp
    then have "sha (dec i @ CHR '':'' # contents_of c ! i) = sha (dec i @ CHR '':'' # contents_of c' ! i)"
      using i by (simp add: len leaf_hash_def)
    moreover have "dec i @ CHR '':'' # contents_of c ! i \<in>
        log_inputs sha (contents_of c) \<union> log_inputs sha (contents_of c')"
      by (rule UnI1, rule log_input_mem) (simp add: len i)
    moreover have "dec i @ CHR '':'' # contents_of c' ! i \<in>
        log_inputs sha (contents_of c) \<union> log_inputs sha (contents_of c')"
      by (rule UnI2, rule log_input_mem) (simp add: len i)
    ultimately have "dec i @ CHR '':'' # contents_of c ! i = dec i @ CHR '':'' # contents_of c' ! i"
      by (rule inj_onD [OF assms(6)])
    then have "contents_of c ! i = contents_of c' ! i" by simp
    moreover have "me_content_hash (ch_entries c ! i) \<noteq> None" "me_content_hash (ch_entries c' ! i) \<noteq> None"
      using assms(1,2) i by (simp_all add: verify_chain_iff Let_def)
    ultimately show "map me_content_hash (ch_entries c) ! i = map me_content_hash (ch_entries c') ! i"
      using i by (auto simp: contents_of_def)
  qed (use assms(3) in simp)
qed

text \<open>
  Verification alone does not see a log cut short: with its last rows deleted, the log still
  verifies in every later process.
\<close>

theorem truncated_log_verifies:
  assumes "c = foldl (merkle_step sha) (chain_open []) es"
  shows "verify_chain sha 0 None (chain_open (take k (ch_rows c))) = Inr True"
proof -
  have "chain_good sha (chain_open [])" by (simp add: chain_good_def chain_open_def rehydrate_entries_def)
  then have good: "chain_good sha c" unfolding assms(1) by (rule good_chain.run_inv)
  let ?d = "\<lparr>ch_entries = take k (ch_entries c), ch_rows = take k (ch_entries c)\<rparr>"
  have "entry_good sha (take k (ch_entries c)) i" if "i < length (take k (ch_entries c))" for i
    using good that entry_good_append [of i "take k (ch_entries c)" sha "drop k (ch_entries c)"]
    by (simp add: chain_good_def)
  then have d: "chain_good sha ?d" by (simp add: chain_good_def)
  from restart_good [OF d] have "chain_open (take k (ch_rows c)) = ?d"
    using good by (simp add: chain_good_def)
  with good_verifies [OF d order_refl, of 0] show ?thesis by (simp add: verify_chain_def)
qed

subsection \<open>Witnesses\<close>

lemma demo_dec: "dec 0 = ''0''" "dec (Suc 0) = ''1''"
  by (code_simp, code_simp)

text \<open>A digest of one character that separates the texts hashed for a log of two entries.\<close>

definition demo_sha :: "string \<Rightarrow> string" where
  "demo_sha x = [if length x = 2 then CHR ''r'' else last (CHR ''-'' # x)]"

definition demo_chain :: merkle_chain where
  "demo_chain = foldl (merkle_step demo_sha) (chain_open [])
     [MerkleAppend ''a'', MerkleRestart, MerkleAppend ''b'']"

lemma demo_chain_value:
  "demo_chain = (let es = [\<lparr>me_index = 0, me_content_hash = Some ''a'', me_prev_root = Some ''s'', me_root = ''a''\<rparr>,
      \<lparr>me_index = 1, me_content_hash = Some ''b'', me_prev_root = Some ''a'', me_root = ''r''\<rparr>]
    in \<lparr>ch_entries = es, ch_rows = es\<rparr>)"
  by (simp add: demo_chain_def chain_open_def rehydrate_entries_def chain_append_def next_entry_def Let_def
      compute_root_def reduce_levels.simps leaves_of_def leaf_hash_def demo_sha_def demo_dec pad_level_def
      node_hash_def)

lemma merkle_history_verifies_witness:
  "verify_chain demo_sha 1 (Some 2) demo_chain = Inr True \<and> length (ch_entries demo_chain) = 2"
  using merkle_history_verifies [OF demo_chain_def, of 2 1] by (simp add: demo_chain_value Let_def)

lemma failed_commit_looks_tampered_witness:
  "let c1 = snd (chain_append demo_sha False ''x'' demo_chain)
   in ch_rows c1 = ch_rows demo_chain \<and> verify_chain demo_sha 0 None c1 \<noteq> Inr True"
  using failed_commit_looks_tampered [OF demo_chain_def, of "''x''" "''y''"] by (simp add: Let_def)

lemma truncated_log_verifies_witness:
  "verify_chain demo_sha 0 None (chain_open (take 1 (ch_rows demo_chain))) = Inr True"
  using truncated_log_verifies [OF demo_chain_def] by simp

text \<open>The second log differs in a previous root, which no verification reads.\<close>

definition demo_relinked :: merkle_chain where
  "demo_relinked = demo_chain\<lparr>ch_entries := map (me_prev_root_update (\<lambda>_. None)) (ch_entries demo_chain)\<rparr>"

lemma merkle_tampering_detected_witness:
  "map me_content_hash (ch_entries demo_chain) = map me_content_hash (ch_entries demo_relinked)"
proof (rule merkle_tampering_detected)
  show "verify_chain demo_sha 0 None demo_chain = Inr True"
    "verify_chain demo_sha 0 None demo_relinked = Inr True"
    by (simp_all add: demo_relinked_def demo_chain_value Let_def verify_chain_def compute_root_def
        reduce_levels.simps leaf_hash_def demo_sha_def demo_dec pad_level_def node_hash_def numeral_2_eq_2)
  show "length (ch_entries demo_chain) = length (ch_entries demo_relinked)"
    "me_root (last (ch_entries demo_chain)) = me_root (last (ch_entries demo_relinked))"
    by (simp_all add: demo_relinked_def demo_chain_value Let_def)
  show "\<forall>x. length (demo_sha x) = 1" by (simp add: demo_sha_def)
  have "contents_of demo_chain = [''a'', ''b'']" "contents_of demo_relinked = [''a'', ''b'']"
    by (simp_all add: contents_of_def demo_relinked_def demo_chain_value Let_def)
  moreover have "log_inputs demo_sha [''a'', ''b''] = {''0:a'', ''1:b'', ''ab''}"
    by (auto simp: log_inputs_def reduce_inputs.simps leaf_hash_def demo_sha_def demo_dec pad_level_def
        node_hash_def numeral_2_eq_2 atLeastLessThanSuc)
  moreover have "inj_on demo_sha {''0:a'', ''1:b'', ''ab''}" by (simp add: demo_sha_def)
  ultimately show "inj_on demo_sha (log_inputs demo_sha (contents_of demo_chain) \<union>
      log_inputs demo_sha (contents_of demo_relinked))" by simp
qed

end
