(* ===== verification/Json.thy ===== *)
theory Json
  imports Base
begin

text \<open>
  JSON values as Python holds them, and the canonical form of \<open>json.dumps(..., sort_keys=True,
  separators=(",", ":"))\<close>. A \<open>dict\<close> may have text or integer keys; sorting a mixture raises
  \<open>TypeError\<close>, and integer keys are sorted as integers but written as texts. The text of a
  canonical form is identified with the tree \<open>json.loads\<close> reads from it, so \<open>canon\<close> is both the
  text that is hashed and the value that is read back. Keys that are \<open>None\<close>, booleans or floats
  are left out.
\<close>

datatype jkey = KStr string | KInt int

datatype json = JNull | JBool bool | JNum rat | JStr string | JList "json list"
  | JObj "(jkey \<times> json) list"

fun str_items :: "(jkey \<times> 'a) list \<Rightarrow> (string \<times> 'a) list option" where
  "str_items [] = Some []"
| "str_items ((KStr k, v) # kvs) = map_option (Cons (k, v)) (str_items kvs)"
| "str_items ((KInt i, v) # kvs) = None"

fun int_items :: "(jkey \<times> 'a) list \<Rightarrow> (int \<times> 'a) list option" where
  "int_items [] = Some []"
| "int_items ((KInt k, v) # kvs) = map_option (Cons (k, v)) (int_items kvs)"
| "int_items ((KStr i, v) # kvs) = None"

definition keyed :: "(string \<times> 'a) list \<Rightarrow> (jkey \<times> 'a) list" where
  "keyed kvs = map (\<lambda>(k, v). (KStr k, v)) kvs"

text \<open>The sorted items, with their keys as they are written; \<open>None\<close> is the \<open>TypeError\<close>.\<close>

definition sort_items :: "(jkey \<times> 'a) list \<Rightarrow> (jkey \<times> 'a) list option" where
  "sort_items kvs =
     (case str_items kvs of
        Some ss \<Rightarrow> Some (keyed (sort_key fst ss))
      | None \<Rightarrow>
          (case int_items kvs of
             Some ns \<Rightarrow> Some (keyed (map (\<lambda>(k, v). (dec_int k, v)) (sort_key fst ns)))
           | None \<Rightarrow> None))"

fun canon :: "json \<Rightarrow> json option" where
  "canon (JList js) = map_option JList (those (map canon js))"
| "canon (JObj kvs) =
     (case those (map (\<lambda>(k, j). map_option (Pair k) (canon j)) kvs) of
        None \<Rightarrow> None
      | Some kvs' \<Rightarrow> map_option JObj (sort_items kvs'))"
| "canon j = Some j"

text \<open>Values whose keys are texts throughout, as \<open>json.loads\<close> returns them.\<close>

fun str_keyed :: "json \<Rightarrow> bool" where
  "str_keyed (JList js) \<longleftrightarrow> list_all str_keyed js"
| "str_keyed (JObj kvs) \<longleftrightarrow>
     distinct (map fst kvs) \<and> str_items kvs \<noteq> None \<and> list_all (\<lambda>(k, j). str_keyed j) kvs"
| "str_keyed j \<longleftrightarrow> True"

definition jobj :: "(string, json) dict \<Rightarrow> json" where
  "jobj d = JObj (keyed d)"

subsection \<open>Keys\<close>

lemma str_items_keyed [simp]: "str_items (keyed kvs) = Some kvs"
  by (induction kvs) (auto simp: keyed_def)

lemma keyed_Nil [simp]: "keyed [] = []" and keyed_Cons [simp]: "keyed ((k, v) # d) = (KStr k, v) # keyed d"
  by (simp_all add: keyed_def)

lemma keyed_append [simp]: "keyed (a @ b) = keyed a @ keyed b"
  by (simp add: keyed_def)

lemma str_itemsD: "str_items kvs = Some ss \<Longrightarrow> kvs = keyed ss"
  by (induction kvs arbitrary: ss rule: str_items.induct) auto

lemma str_items_iff: "str_items kvs \<noteq> None \<longleftrightarrow> (\<exists>ss. kvs = keyed ss)"
  using str_itemsD by fastforce

lemma keyed_inj [simp]: "keyed a = keyed b \<longleftrightarrow> a = b"
  by (metis option.inject str_items_keyed)

lemma keys_keyed: "map fst (keyed kvs) = map KStr (map fst kvs)"
  by (simp add: keyed_def case_prod_beta)

lemma distinct_keyed [simp]: "distinct (map fst (keyed d)) \<longleftrightarrow> distinct (map fst d)"
  by (simp only: keys_keyed distinct_map) (simp add: inj_on_def)

lemma list_all_keyed [simp]: "list_all (\<lambda>(k, j). P j) (keyed d) \<longleftrightarrow> list_all (\<lambda>(k, j). P j) d"
  by (induction d) auto

lemma get_keyed [simp]: "map_of (keyed kvs) (KStr k) = map_of kvs k"
  by (induction kvs) auto

lemma filter_keyed: "filter (\<lambda>(k, v). k \<noteq> KStr x) (keyed kvs) = keyed (filter (\<lambda>(k, v). k \<noteq> x) kvs)"
  by (induction kvs) auto

lemma those_Some_iff: "those xs = Some ys \<longleftrightarrow> xs = map Some ys"
  by (induction xs arbitrary: ys) (auto split: option.splits)

lemma those_map_Some [simp]: "those (map Some ys) = Some ys"
  by (simp add: those_Some_iff)

lemma sort_items_keyed [simp]: "sort_items (keyed kvs) = Some (keyed (sort_key fst kvs))"
  by (simp add: sort_items_def)

subsection \<open>Reading back what was written\<close>

lemma canon_fixed:
  assumes "str_keyed j"
  obtains j' where "canon j = Some j'" "str_keyed j'" "canon j' = Some j'"
proof -
  have "\<exists>j'. canon j = Some j' \<and> str_keyed j' \<and> canon j' = Some j'"
    using assms
  proof (induction j)
    case (JList js)
    then have "\<exists>j'. canon j = Some j' \<and> str_keyed j' \<and> canon j' = Some j'" if "j \<in> set js" for j
      using that by (auto simp: list_all_iff)
    then obtain f where f: "\<forall>j\<in>set js. canon j = Some (f j) \<and> str_keyed (f j) \<and> canon (f j) = Some (f j)"
      by metis
    then have "map canon js = map Some (map f js)" "map canon (map f js) = map Some (map f js)" by auto
    then have "canon (JList js) = Some (JList (map f js))" "canon (JList (map f js)) = Some (JList (map f js))"
      by (simp_all only: canon.simps those_map_Some option.map)
    with f show ?case by (auto simp: list_all_iff)
  next
    case (JObj kvs)
    then have "str_items kvs \<noteq> None" by simp
    then obtain d where d: "kvs = keyed d" by (auto simp only: str_items_iff)
    with JObj.prems have dist: "distinct (map fst d)" by (simp only: str_keyed.simps distinct_keyed)
    have "\<exists>j'. canon j = Some j' \<and> str_keyed j' \<and> canon j' = Some j'" if "j \<in> snd ` set d" for j
    proof -
      from that obtain k where "(KStr k, j) \<in> set kvs" unfolding d keyed_def by force
      moreover have "str_keyed j" using JObj.prems calculation by (auto simp: list_all_iff)
      ultimately show ?thesis using JObj.IH [of "(KStr k, j)" j] by simp
    qed
    then have "\<forall>j\<in>snd ` set d. \<exists>j'. canon j = Some j' \<and> str_keyed j' \<and> canon j' = Some j'" by (rule ballI)
    then obtain f where "\<forall>j\<in>snd ` set d. canon j = Some (f j) \<and> str_keyed (f j) \<and> canon (f j) = Some (f j)"
      by (rule bchoice [THEN exE])
    then have f: "\<forall>(k, j)\<in>set d. canon j = Some (f j) \<and> str_keyed (f j) \<and> canon (f j) = Some (f j)"
      by force
    define d' where "d' = map (\<lambda>(k, j). (k, f j)) d"
    have those: "those (map (\<lambda>(k, j). map_option (Pair k) (canon j)) (keyed e)) = Some (keyed (map (\<lambda>(k, j). (k, g j)) e))"
      if "\<forall>(k, j)\<in>set e. canon j = Some (g j)" for e and g :: "json \<Rightarrow> json"
      using that by (induction e) auto
    have 1: "canon (JObj kvs) = Some (JObj (keyed (sort_key fst d')))"
      using those [of d f] f by (simp add: d d'_def case_prod_beta)
    have still: "\<forall>(k, j)\<in>set d'. str_keyed j \<and> canon j = Some j" using f by (auto simp: d'_def)
    then have 2: "canon (JObj (keyed (sort_key fst d'))) = Some (JObj (keyed (sort_key fst d')))"
      using those [of "sort_key fst d'" id] by (auto simp: case_prod_beta sort_key_id_if_sorted)
    have "map fst d' = map fst d" by (simp add: d'_def case_prod_beta)
    with dist have "distinct (map fst d')" by simp
    then have "distinct (map fst (sort_key fst d'))" by (simp only: distinct_map distinct_sort set_sort)
    then have "str_keyed (JObj (keyed (sort_key fst d')))"
      using still by (simp only: str_keyed.simps distinct_keyed list_all_keyed str_items_keyed) (auto simp: list_all_iff)
    with 1 2 show ?case by blast
  qed auto
  then show thesis using that by blast
qed

lemma canon_idem: "str_keyed j \<Longrightarrow> canon (the (canon j)) = Some (the (canon j))"
  by (metis canon_fixed option.sel)

lemma str_keyed_canon: "str_keyed j \<Longrightarrow> str_keyed (the (canon j))"
  by (metis canon_fixed option.sel)

lemma canon_Some: "str_keyed j \<Longrightarrow> canon j = Some (the (canon j))"
  by (metis canon_fixed option.sel)

lemma str_keyed_jobj:
  "str_keyed (jobj d) \<longleftrightarrow> distinct (map fst d) \<and> list_all (\<lambda>(k, j). str_keyed j) d"
  unfolding jobj_def by (simp only: str_keyed.simps distinct_keyed list_all_keyed str_items_keyed) simp

definition canon_items :: "(string, json) dict \<Rightarrow> (string, json) dict" where
  "canon_items d = sort_key fst (map (\<lambda>(k, j). (k, the (canon j))) d)"

lemma canon_jobj:
  assumes "list_all (\<lambda>(k, j). canon j \<noteq> None) d"
  shows "canon (jobj d) = Some (jobj (canon_items d))"
proof -
  have "those (map (\<lambda>(k, j). map_option (Pair k) (canon j)) (keyed d)) =
      Some (keyed (map (\<lambda>(k, j). (k, the (canon j))) d))"
    using assms by (induction d) auto
  then show ?thesis by (simp add: jobj_def canon_items_def)
qed

lemma str_items_values: "str_items kvs = Some ss \<Longrightarrow> set (map snd ss) \<subseteq> set (map snd kvs)"
  by (induction kvs arbitrary: ss rule: str_items.induct) fastforce+

lemma int_items_values: "int_items kvs = Some ns \<Longrightarrow> set (map snd ns) \<subseteq> set (map snd kvs)"
  by (induction kvs arbitrary: ns rule: int_items.induct) fastforce+

lemma sort_items_values:
  assumes "sort_items kvs = Some kvs'"
  obtains ss where "kvs' = keyed ss" "set (map snd ss) \<subseteq> set (map snd kvs)"
proof (cases "str_items kvs")
  case (Some ss)
  with assms str_items_values [OF Some] show ?thesis
    by (intro that [of "sort_key fst ss"]) (simp_all add: sort_items_def)
next
  case None
  with assms obtain ns where ns: "int_items kvs = Some ns"
    by (auto simp: sort_items_def split: option.splits)
  show ?thesis
  proof (rule that)
    show "kvs' = keyed (map (\<lambda>(k, v). (dec_int k, v)) (sort_key fst ns))"
      using assms None ns by (simp add: sort_items_def)
    show "set (map snd (map (\<lambda>(k, v). (dec_int k, v)) (sort_key fst ns))) \<subseteq> set (map snd kvs)"
      using int_items_values [OF ns] by (auto simp: image_image case_prod_beta)
  qed
qed

text \<open>What was written once has text keys throughout, so it can be written again.\<close>

lemma canon_twice: "canon j = Some j' \<Longrightarrow> canon j' \<noteq> None"
proof (induction j arbitrary: j')
  case (JList js)
  then obtain ks where ks: "map canon js = map Some ks" "j' = JList ks" by (auto simp: those_Some_iff)
  have "canon k \<noteq> None" if "k \<in> set ks" for k
  proof -
    from that ks(1) obtain j where "j \<in> set js" "canon j = Some k" by (metis image_eqI list.set_map imageE)
    then show ?thesis using JList.IH by blast
  qed
  then have "map canon ks = map Some (map (the \<circ> canon) ks)" by auto
  then show ?case using ks(2) by (simp only: canon.simps those_map_Some option.map option.distinct not_False_eq_True)
next
  case (JObj kvs)
  then obtain es where es: "map (\<lambda>(k, j). map_option (Pair k) (canon j)) kvs = map Some es"
    and "map_option JObj (sort_items es) = Some j'"
    by (auto simp: those_Some_iff split: option.splits)
  then obtain es' where "sort_items es = Some es'" and j': "j' = JObj es'" by auto
  from sort_items_values [OF this(1)] obtain ss where ss: "es' = keyed ss" "set (map snd ss) \<subseteq> set (map snd es)" .
  have "canon v \<noteq> None" if v: "(k, v) \<in> set es" for k v
  proof -
    from v have "Some (k, v) \<in> set (map Some es)" by simp
    then obtain k' j where kj: "(k', j) \<in> set kvs" "map_option (Pair k') (canon j) = Some (k, v)"
      unfolding es [symmetric] by (auto simp: eq_commute [of "Some (k, v)"])
    then have "canon j = Some v" by auto
    then show ?thesis using JObj.IH [OF kj(1), of j v] by simp
  qed
  then have "list_all (\<lambda>(k, j). canon j \<noteq> None) ss" using ss(2) by (fastforce simp: list_all_iff)
  from canon_jobj [OF this] show ?case by (simp add: j' ss(1) jobj_def)
qed auto

lemma str_keyed_canonical: "str_keyed j \<Longrightarrow> canon j \<noteq> None"
  by (auto elim: canon_fixed)

lemma str_keyed_items: "list_all (\<lambda>(k, j). str_keyed j) d \<Longrightarrow> list_all (\<lambda>(k, j). canon j \<noteq> None) d"
  by (induction d) (auto dest: str_keyed_canonical)

lemma canon_items_str_keyed:
  assumes "str_keyed (jobj d)"
  shows "str_keyed (jobj (canon_items d))"
  using str_keyed_canon [OF assms] canon_jobj [of d] assms str_keyed_items [of d] by (simp add: str_keyed_jobj)

lemma canon_items_fixed:
  assumes "str_keyed (jobj d)"
  shows "canon (jobj (canon_items d)) = Some (jobj (canon_items d))"
  using canon_idem [OF assms] canon_jobj [of d] assms str_keyed_items [of d] by (simp add: str_keyed_jobj)

lemma jobj_inj [simp]: "jobj a = jobj b \<longleftrightarrow> a = b"
  by (simp add: jobj_def)

lemma filter_sort_items:
  "filter (\<lambda>(k, v). k \<noteq> x) (canon_items d) = canon_items (filter (\<lambda>(k, v). k \<noteq> x) d)"
proof -
  have "filter (\<lambda>(k, v). k \<noteq> x) (map (\<lambda>(k, j). (k, the (canon j))) d) =
      map (\<lambda>(k, j). (k, the (canon j))) (filter (\<lambda>(k, v). k \<noteq> x) d)"
    by (induction d) auto
  then show ?thesis by (simp add: canon_items_def filter_sort)
qed

lemma canon_items_get:
  assumes "distinct (map fst d)"
  shows "map_of (canon_items d) k = map_option (\<lambda>j. the (canon j)) (map_of d k)"
proof -
  let ?e = "map (\<lambda>(k, j). (k, the (canon j))) d"
  have keys: "distinct (map fst ?e)" using assms by (simp add: case_prod_beta comp_def)
  then have "distinct (map fst (canon_items d))"
    unfolding canon_items_def by (simp only: distinct_map distinct_sort set_sort)
  then have "map_of (canon_items d) = map_of ?e"
    unfolding map_of_inject_set [OF \<open>distinct (map fst (canon_items d))\<close> keys] by (simp add: canon_items_def)
  then have "map_of (canon_items d) k = map_of ?e k" by (rule fun_cong)
  also have "\<dots> = map_option (\<lambda>j. the (canon j)) (map_of d k)"
    by (induction d) auto
  finally show ?thesis .
qed

lemma canon_items_canonical:
  assumes "list_all (\<lambda>(k, j). canon j \<noteq> None) d"
  shows "list_all (\<lambda>(k, j). canon j \<noteq> None) (canon_items d)"
proof -
  have "canon (the (canon j)) \<noteq> None" if "(k, j) \<in> set d" for k j
    using assms that canon_twice [of j] by (auto simp: list_all_iff)
  then show ?thesis by (auto simp: canon_items_def list_all_iff)
qed

end
