(* ===== verification/AuditTrail.thy ===== *)
theory AuditTrail
  imports Json
begin

text \<open>
  The two audit logs that are files of JSON lines: the hash-chained trail of administrative actions
  (\<open>audit_trail.py\<close>) and the signed log of forensic reports (the first half of
  \<open>detection/audit_trail.py\<close>).

  A file is the list of its lines; a missing file reads as an empty one. A line is blank, or it
  does not parse (the rest of a write that a crash cut short), or it holds the value
  \<open>json.loads\<close> returns. SHA-256 of a canonical text is the parameter \<open>sha\<close>, the Ed25519 key is
  the parameter record \<open>signer\<close>. Timestamps are the texts of \<open>isoformat()\<close>.
\<close>

datatype audit_line = BlankLine | TornLine | JsonLine json

datatype audit_error = JSONDecodeError | AttributeError | JsonTypeError | ModelIntegrityError
  | FileNotFoundError

subsection \<open>The hash-chained trail\<close>

definition genesis_hash :: string where
  "genesis_hash = replicate 64 (CHR ''0'')"

definition json_get :: "json \<Rightarrow> string \<Rightarrow> audit_error + json option" where
  "json_get j k = (case j of JObj kvs \<Rightarrow> Inr (map_of kvs (KStr k)) | _ \<Rightarrow> Inl AttributeError)"

definition compute_hash :: "(json \<Rightarrow> string) \<Rightarrow> json \<Rightarrow> audit_error + string" where
  "compute_hash sha entry =
     (case entry of
        JObj kvs \<Rightarrow>
          (case canon (JObj (filter (\<lambda>(k, v). k \<noteq> KStr ''hash'') kvs)) of
             None \<Rightarrow> Inl JsonTypeError
           | Some payload \<Rightarrow> Inr (sha payload))
      | _ \<Rightarrow> Inl AttributeError)"

fun read_entries :: "audit_line list \<Rightarrow> audit_error + json list" where
  "read_entries [] = Inr []"
| "read_entries (BlankLine # ls) = read_entries ls"
| "read_entries (TornLine # ls) = Inl JSONDecodeError"
| "read_entries (JsonLine j # ls) =
     (case read_entries ls of Inl e \<Rightarrow> Inl e | Inr es \<Rightarrow> Inr (j # es))"

definition last_hash :: "json list \<Rightarrow> audit_error + json" where
  "last_hash es =
     (if es = [] then Inr (JStr genesis_hash)
      else (case json_get (last es) ''hash'' of
              Inl e \<Rightarrow> Inl e
            | Inr None \<Rightarrow> Inr (JStr genesis_hash)
            | Inr (Some h) \<Rightarrow> Inr h))"

record audit_event =
  ae_actor :: string
  ae_action :: string
  ae_before :: json
  ae_after :: json
  ae_target :: "string option"
  ae_metadata :: "(jkey \<times> json) list option"

definition opt_str :: "string option \<Rightarrow> json" where
  "opt_str x = (case x of None \<Rightarrow> JNull | Some s \<Rightarrow> JStr s)"

definition build_entry :: "string \<Rightarrow> audit_event \<Rightarrow> json \<Rightarrow> (string, json) dict" where
  "build_entry now ev prev =
     [(''timestamp'', JStr now), (''actor'', JStr (ae_actor ev)), (''action'', JStr (ae_action ev)),
      (''target'', opt_str (ae_target ev)), (''before'', ae_before ev), (''after'', ae_after ev),
      (''metadata'', JObj (case ae_metadata ev of None \<Rightarrow> [] | Some m \<Rightarrow> m)), (''prev_hash'', prev)]"

text \<open>
  \<open>record_audit_event\<close> after its two reads: the lock is the process's own, so another process can
  append between the reading and this.
\<close>

definition write_entry ::
  "(json \<Rightarrow> string) \<Rightarrow> string \<Rightarrow> audit_event \<Rightarrow> json \<Rightarrow> audit_line list \<Rightarrow>
   (audit_error + json) \<times> audit_line list"
where
  "write_entry sha now ev prev lines =
     (let d = build_entry now ev prev in
        case compute_hash sha (jobj d) of
          Inl e \<Rightarrow> (Inl e, lines)
        | Inr h \<Rightarrow>
            (let entry = jobj (d @ [(''hash'', JStr h)]) in
               case canon entry of
                 None \<Rightarrow> (Inl JsonTypeError, lines)
               | Some j \<Rightarrow> (Inr entry, lines @ [JsonLine j])))"

definition record_audit_event ::
  "(json \<Rightarrow> string) \<Rightarrow> string \<Rightarrow> audit_event \<Rightarrow> audit_line list \<Rightarrow>
   (audit_error + json) \<times> audit_line list"
where
  "record_audit_event sha now ev lines =
     (case read_entries lines of
        Inl e \<Rightarrow> (Inl e, lines)
      | Inr es \<Rightarrow>
          (case last_hash es of
             Inl e \<Rightarrow> (Inl e, lines)
           | Inr prev \<Rightarrow> write_entry sha now ev prev lines))"

fun verify_entries :: "(json \<Rightarrow> string) \<Rightarrow> string \<Rightarrow> json list \<Rightarrow> audit_error + bool" where
  "verify_entries sha prev [] = Inr True"
| "verify_entries sha prev (entry # es) =
     (case json_get entry ''prev_hash'' of
        Inl e \<Rightarrow> Inl e
      | Inr p \<Rightarrow>
          if p \<noteq> Some (JStr prev) then Inr False
          else
            (case compute_hash sha entry of
               Inl e \<Rightarrow> Inl e
             | Inr h \<Rightarrow>
                 if json_get entry ''hash'' \<noteq> Inr (Some (JStr h)) then Inr False
                 else verify_entries sha h es))"

definition verify_audit_trail :: "(json \<Rightarrow> string) \<Rightarrow> audit_line list \<Rightarrow> audit_error + bool" where
  "verify_audit_trail sha lines =
     (case read_entries lines of Inl e \<Rightarrow> Inl e | Inr es \<Rightarrow> verify_entries sha genesis_hash es)"

definition field_is :: "string option \<Rightarrow> string \<Rightarrow> json \<Rightarrow> audit_error + bool" where
  "field_is wanted k entry =
     (case wanted of
        None \<Rightarrow> Inr True
      | Some x \<Rightarrow> (case json_get entry k of Inl e \<Rightarrow> Inl e | Inr v \<Rightarrow> Inr (v = Some (JStr x))))"

definition query_matches ::
  "string option \<Rightarrow> string option \<Rightarrow> string option \<Rightarrow> json \<Rightarrow> audit_error + bool"
where
  "query_matches actor action target entry =
     (case field_is actor ''actor'' entry of
        Inr True \<Rightarrow>
          (case field_is action ''action'' entry of
             Inr True \<Rightarrow> field_is target ''target'' entry
           | r \<Rightarrow> r)
      | r \<Rightarrow> r)"

fun query_entries ::
  "string option \<Rightarrow> string option \<Rightarrow> string option \<Rightarrow> json list \<Rightarrow> audit_error + json list"
where
  "query_entries actor action target [] = Inr []"
| "query_entries actor action target (entry # es) =
     (case query_matches actor action target entry of
        Inl e \<Rightarrow> Inl e
      | Inr b \<Rightarrow>
          (case query_entries actor action target es of
             Inl e \<Rightarrow> Inl e
           | Inr rest \<Rightarrow> Inr (if b then entry # rest else rest)))"

definition query_audit_trail ::
  "string option \<Rightarrow> string option \<Rightarrow> string option \<Rightarrow> audit_line list \<Rightarrow> audit_error + json list"
where
  "query_audit_trail actor action target lines =
     (case read_entries lines of Inl e \<Rightarrow> Inl e | Inr es \<Rightarrow> query_entries actor action target es)"

subsection \<open>Reading and hashing entries\<close>

lemma read_entries_append:
  "read_entries (ls @ ms) =
     (case read_entries ls of Inl e \<Rightarrow> Inl e
      | Inr es \<Rightarrow> (case read_entries ms of Inl e \<Rightarrow> Inl e | Inr fs \<Rightarrow> Inr (es @ fs)))"
  by (induction ls rule: read_entries.induct) (auto split: sum.splits)

lemma json_get_jobj [simp]: "json_get (jobj d) k = Inr (map_of d k)"
  by (simp add: json_get_def jobj_def)

lemma compute_hash_jobj:
  assumes "list_all (\<lambda>(k, j). canon j \<noteq> None) (filter (\<lambda>(k, v). k \<noteq> ''hash'') d)"
  shows "compute_hash sha (jobj d) = Inr (sha (jobj (canon_items (filter (\<lambda>(k, v). k \<noteq> ''hash'') d))))"
  using canon_jobj [OF assms] by (simp add: compute_hash_def jobj_def filter_keyed)

lemma verify_entries_append:
  assumes "verify_entries sha p es = Inr True"
  obtains h where "if es = [] then h = p else last_hash es = Inr (JStr h)"
    "\<And>fs. verify_entries sha p (es @ fs) = verify_entries sha h fs"
proof -
  have "\<exists>h. (if es = [] then h = p else last_hash es = Inr (JStr h)) \<and>
      (\<forall>fs. verify_entries sha p (es @ fs) = verify_entries sha h fs)"
    using assms
  proof (induction es arbitrary: p)
    case (Cons e es)
    then obtain h where h: "json_get e ''prev_hash'' = Inr (Some (JStr p))" "compute_hash sha e = Inr h"
      "json_get e ''hash'' = Inr (Some (JStr h))" "verify_entries sha h es = Inr True"
      by (auto split: sum.splits if_splits)
    from Cons.IH [OF h(4)] obtain h' where h': "if es = [] then h' = h else last_hash es = Inr (JStr h')"
      "\<forall>fs. verify_entries sha h (es @ fs) = verify_entries sha h' fs" by blast
    moreover have "last_hash (e # es) = Inr (JStr h')"
    proof (cases "es = []")
      case True
      with h' h show ?thesis by (auto simp: last_hash_def)
    next
      case False
      with h' show ?thesis by (simp add: last_hash_def)
    qed
    ultimately show ?case using h by (intro exI [of _ h']) simp
  qed auto
  then show thesis using that by blast
qed

lemma verified_last_hash:
  assumes "verify_audit_trail sha lines = Inr True"
  obtains es h where "read_entries lines = Inr es" "last_hash es = Inr (JStr h)"
    "\<And>j. verify_audit_trail sha (lines @ [JsonLine j]) = verify_entries sha h [j]"
proof -
  from assms obtain es where es: "read_entries lines = Inr es" "verify_entries sha genesis_hash es = Inr True"
    by (auto simp: verify_audit_trail_def split: sum.splits)
  from verify_entries_append [OF es(2)] obtain h where h: "if es = [] then h = genesis_hash else last_hash es = Inr (JStr h)"
    "\<And>fs. verify_entries sha genesis_hash (es @ fs) = verify_entries sha h fs" by blast
  then have "last_hash es = Inr (JStr h)" by (simp add: last_hash_def split: if_splits)
  moreover have "verify_audit_trail sha (lines @ [JsonLine j]) = verify_entries sha h [j]" for j
    by (simp add: verify_audit_trail_def read_entries_append es h(2) del: verify_entries.simps)
  ultimately show thesis using es(1) that by blast
qed

subsection \<open>What a recorded event does to the trail\<close>

definition event_canonical :: "audit_event \<Rightarrow> bool" where
  "event_canonical ev \<longleftrightarrow> canon (ae_before ev) \<noteq> None \<and> canon (ae_after ev) \<noteq> None \<and>
     canon (JObj (case ae_metadata ev of None \<Rightarrow> [] | Some m \<Rightarrow> m)) \<noteq> None"

definition event_str_keyed :: "audit_event \<Rightarrow> bool" where
  "event_str_keyed ev \<longleftrightarrow> str_keyed (ae_before ev) \<and> str_keyed (ae_after ev) \<and>
     str_keyed (JObj (case ae_metadata ev of None \<Rightarrow> [] | Some m \<Rightarrow> m))"

lemma event_str_keyed_canonical: "event_str_keyed ev \<Longrightarrow> event_canonical ev"
  unfolding event_str_keyed_def event_canonical_def by (blast dest: str_keyed_canonical)

lemma canon_atoms [simp]: "canon JNull = Some JNull" "canon (JStr s) = Some (JStr s)"
  "canon (opt_str x) = Some (opt_str x)"
  by (auto simp: opt_str_def split: option.split)

text \<open>The text hashed when the event is recorded, and the one hashed when it is read back.\<close>

definition recorded_text :: "string \<Rightarrow> audit_event \<Rightarrow> json \<Rightarrow> json" where
  "recorded_text now ev prev = jobj (canon_items (build_entry now ev prev))"

definition reread_text :: "string \<Rightarrow> audit_event \<Rightarrow> json \<Rightarrow> json" where
  "reread_text now ev prev = jobj (canon_items (canon_items (build_entry now ev prev)))"

lemma build_entry_keys:
  "map fst (build_entry now ev prev) =
     [''timestamp'', ''actor'', ''action'', ''target'', ''before'', ''after'', ''metadata'', ''prev_hash'']"
  by (simp add: build_entry_def)

lemma build_entry_no_hash:
  "filter (\<lambda>(k, v). k \<noteq> ''hash'') (build_entry now ev prev) = build_entry now ev prev"
  by (simp add: build_entry_def)

lemma build_entry_canonical:
  "event_canonical ev \<Longrightarrow> list_all (\<lambda>(k, j). canon j \<noteq> None) (build_entry now ev (JStr p))"
  by (simp add: build_entry_def event_canonical_def)

lemma reread_same:
  assumes "event_str_keyed ev"
  shows "reread_text now ev (JStr p) = recorded_text now ev (JStr p)"
proof -
  have "str_keyed (opt_str x)" for x by (simp add: opt_str_def split: option.split)
  then have "str_keyed (jobj (build_entry now ev (JStr p)))"
    using assms unfolding str_keyed_jobj build_entry_keys by (simp add: build_entry_def event_str_keyed_def)
  note keyed = this
  from canon_items_str_keyed [OF keyed] have "canon (jobj (canon_items (build_entry now ev (JStr p)))) =
      Some (jobj (canon_items (canon_items (build_entry now ev (JStr p)))))"
    unfolding str_keyed_jobj by (blast intro: canon_jobj str_keyed_items)
  with canon_items_fixed [OF keyed] show ?thesis by (simp add: reread_text_def recorded_text_def)
qed

lemma write_entry_effect:
  assumes "event_canonical ev"
  shows "write_entry sha now ev (JStr p) lines =
    (let d = build_entry now ev (JStr p) @ [(''hash'', JStr (sha (recorded_text now ev (JStr p))))] in
       (Inr (jobj d), lines @ [JsonLine (jobj (canon_items d))]))"
proof -
  let ?d = "build_entry now ev (JStr p)"
  let ?h = "sha (recorded_text now ev (JStr p))"
  have ok: "list_all (\<lambda>(k, j). canon j \<noteq> None) (?d @ [(''hash'', JStr ?h)])"
    using build_entry_canonical [OF assms] by simp
  have "compute_hash sha (jobj ?d) = Inr ?h"
    using compute_hash_jobj [of ?d sha] build_entry_canonical [OF assms]
    by (simp add: build_entry_no_hash recorded_text_def)
  with canon_jobj [OF ok] show ?thesis by (simp add: write_entry_def Let_def)
qed

lemma reread_entry:
  assumes "event_canonical ev"
  shows "let d = canon_items (build_entry now ev (JStr p) @ [(''hash'', JStr h)])
    in map_of d ''prev_hash'' = Some (JStr p) \<and> map_of d ''hash'' = Some (JStr h) \<and>
       compute_hash sha (jobj d) = Inr (sha (reread_text now ev (JStr p)))"
proof -
  let ?d = "build_entry now ev (JStr p) @ [(''hash'', JStr h)]"
  have dist: "distinct (map fst ?d)" unfolding map_append build_entry_keys by simp
  have ok: "list_all (\<lambda>(k, j). canon j \<noteq> None) ?d"
    using build_entry_canonical [OF assms] by simp
  have payload: "filter (\<lambda>(k, v). k \<noteq> ''hash'') (canon_items ?d) = canon_items (build_entry now ev (JStr p))"
    by (simp add: filter_sort_items build_entry_no_hash)
  have "compute_hash sha (jobj (canon_items ?d)) = Inr (sha (reread_text now ev (JStr p)))"
    using compute_hash_jobj [of "canon_items ?d" sha] canon_items_canonical [OF build_entry_canonical [OF assms]]
    by (simp add: payload reread_text_def)
  then show ?thesis
    by (simp add: Let_def canon_items_get [OF dist]) (simp add: build_entry_def)
qed

lemma write_entry_verifies:
  assumes "verify_audit_trail sha lines = Inr True" and "event_canonical ev"
    and "read_entries lines = Inr es" and "last_hash es = Inr (JStr h)"
  shows "verify_audit_trail sha (snd (write_entry sha now ev (JStr p) lines)) =
    Inr (p = h \<and> sha (reread_text now ev (JStr p)) = sha (recorded_text now ev (JStr p)))"
proof -
  from verified_last_hash [OF assms(1)] obtain es' h' where "read_entries lines = Inr es'"
    "last_hash es' = Inr (JStr h')"
    and "\<And>j. verify_audit_trail sha (lines @ [JsonLine j]) = verify_entries sha h' [j]" by blast
  with assms(3,4) have step: "verify_audit_trail sha (lines @ [JsonLine j]) = verify_entries sha h [j]" for j
    by simp
  define d where "d = canon_items (build_entry now ev (JStr p) @ [(''hash'', JStr (sha (recorded_text now ev (JStr p))))])"
  have "snd (write_entry sha now ev (JStr p) lines) = lines @ [JsonLine (jobj d)]"
    using write_entry_effect [OF assms(2)] by (simp add: Let_def d_def)
  moreover from reread_entry [OF assms(2), of now p "sha (recorded_text now ev (JStr p))" sha, folded d_def]
  have "map_of d ''prev_hash'' = Some (JStr p)"
    "map_of d ''hash'' = Some (JStr (sha (recorded_text now ev (JStr p))))"
    "compute_hash sha (jobj d) = Inr (sha (reread_text now ev (JStr p)))" by (simp_all add: Let_def)
  ultimately show ?thesis using step [of "jobj d"] by auto
qed

lemma record_is_write:
  assumes "verify_audit_trail sha lines = Inr True"
  obtains es h where "read_entries lines = Inr es" "last_hash es = Inr (JStr h)"
    "\<And>now ev. record_audit_event sha now ev lines = write_entry sha now ev (JStr h) lines"
  using verified_last_hash [OF assms] that by (auto simp: record_audit_event_def)

definition audit_step :: "(json \<Rightarrow> string) \<Rightarrow> audit_line list \<Rightarrow> string \<times> audit_event \<Rightarrow> audit_line list" where
  "audit_step sha lines ne = snd (record_audit_event sha (fst ne) (snd ne) lines)"

interpretation audit_run: preserved_when "audit_step sha" "\<lambda>lines. verify_audit_trail sha lines = Inr True"
  "\<lambda>ne. event_str_keyed (snd ne)" for sha
proof
  fix lines :: "audit_line list" and ne :: "string \<times> audit_event"
  assume v: "verify_audit_trail sha lines = Inr True" and ok: "event_str_keyed (snd ne)"
  from record_is_write [OF v] obtain es h where h: "read_entries lines = Inr es" "last_hash es = Inr (JStr h)"
    "\<And>now ev. record_audit_event sha now ev lines = write_entry sha now ev (JStr h) lines" by blast
  show "verify_audit_trail sha (audit_step sha lines ne) = Inr True"
    using write_entry_verifies [OF v event_str_keyed_canonical [OF ok] h(1,2), of "fst ne" h] reread_same [OF ok]
    by (simp add: audit_step_def h(3))
qed

text \<open>
  The trail verifies after any history of recorded events whose states have text keys, also
  nested ones.
\<close>

theorem audit_history_verifies:
  assumes "verify_audit_trail sha lines = Inr True" and "\<forall>ne\<in>set es. event_str_keyed (snd ne)"
  shows "verify_audit_trail sha (foldl (audit_step sha) lines es) = Inr True"
  using assms by (rule audit_run.run_inv_when)

text \<open>
  Recording a state that is a dictionary with the integer keys 9 and 10 returns normally and
  makes the trail fail its verification, although nothing was tampered with: integer keys are
  sorted as numbers when the event is hashed and as texts when it is read back. (The hypothesis
  is that SHA-256 tells the two texts, which differ, apart.)
\<close>

theorem integer_keys_break_the_trail:
  assumes "verify_audit_trail sha lines = Inr True" and "read_entries lines = Inr es"
    and "last_hash es = Inr prev"
    and "ev = \<lparr>ae_actor = a, ae_action = b, ae_before = JObj [(KInt 9, JNull), (KInt 10, JNull)],
      ae_after = JNull, ae_target = None, ae_metadata = None\<rparr>"
    and "sha (recorded_text now ev prev) \<noteq> sha (reread_text now ev prev)"
  shows "recorded_text now ev prev \<noteq> reread_text now ev prev \<and>
    (\<exists>entry. fst (record_audit_event sha now ev lines) = Inr entry) \<and>
    verify_audit_trail sha (snd (record_audit_event sha now ev lines)) = Inr False"
proof -
  from record_is_write [OF assms(1)] obtain es' h where "read_entries lines = Inr es'"
    "last_hash es' = Inr (JStr h)"
    and w: "\<And>now ev. record_audit_event sha now ev lines = write_entry sha now ev (JStr h) lines" by blast
  with assms(2,3) have "prev = JStr h" by simp
  note h = this w
  have ok: "event_canonical ev"
    by (simp add: assms(4) event_canonical_def sort_items_def)
  have "verify_audit_trail sha (snd (record_audit_event sha now ev lines)) = Inr False"
    using write_entry_verifies [OF assms(1) ok assms(2) assms(3) [unfolded h(1)], of now h] assms(5)
    by (simp add: h)
  moreover have "\<exists>entry. fst (record_audit_event sha now ev lines) = Inr entry"
    by (simp add: h(2) write_entry_effect [OF ok] Let_def)
  ultimately show ?thesis using assms(5) by auto
qed

text \<open>A line that a crash cut short stops the trail: nothing is recorded or verified any more.\<close>

lemma torn_read: "TornLine \<in> set lines \<Longrightarrow> read_entries lines = Inl JSONDecodeError"
  by (induction lines rule: read_entries.induct) auto

lemma torn_line_stops_recording:
  assumes "TornLine \<in> set lines"
  shows "foldl (audit_step sha) lines es = lines" and "verify_audit_trail sha lines = Inl JSONDecodeError"
proof -
  have "audit_step sha lines ne = lines" for ne
    using assms by (simp add: audit_step_def record_audit_event_def torn_read)
  then show "foldl (audit_step sha) lines es = lines" by (induction es) auto
  show "verify_audit_trail sha lines = Inl JSONDecodeError"
    using assms by (simp add: verify_audit_trail_def torn_read)
qed

text \<open>
  The lock is the process's own: two processes that both read the trail before either appends
  link their entries to the same predecessor, and the trail no longer verifies.
\<close>

theorem two_writers_break_the_trail:
  assumes "verify_audit_trail sha lines = Inr True" and "read_entries lines = Inr es"
    and "last_hash es = Inr (JStr prev)" and "event_str_keyed ev" and "event_str_keyed ev'"
    and "sha (recorded_text now ev (JStr prev)) \<noteq> prev"
  shows "verify_audit_trail sha
      (snd (write_entry sha now' ev' (JStr prev) (snd (write_entry sha now ev (JStr prev) lines)))) = Inr False"
proof -
  let ?ms = "snd (write_entry sha now ev (JStr prev) lines)"
  let ?h = "sha (recorded_text now ev (JStr prev))"
  have v: "verify_audit_trail sha ?ms = Inr True"
    using write_entry_verifies [OF assms(1) event_str_keyed_canonical [OF assms(4)] assms(2,3), of now prev]
      reread_same [OF assms(4)] by simp
  define d where "d = build_entry now ev (JStr prev) @ [(''hash'', JStr ?h)]"
  have "?ms = lines @ [JsonLine (jobj (canon_items d))]"
    by (simp add: write_entry_effect [OF event_str_keyed_canonical [OF assms(4)]] Let_def d_def)
  then have "read_entries ?ms = Inr (es @ [jobj (canon_items d)])"
    by (simp add: read_entries_append assms(2))
  moreover have "last_hash (es @ [jobj (canon_items d)]) = Inr (JStr ?h)"
    using reread_entry [OF event_str_keyed_canonical [OF assms(4)], of now prev ?h sha, folded d_def]
    by (simp add: last_hash_def Let_def)
  ultimately show ?thesis
    using write_entry_verifies [OF v event_str_keyed_canonical [OF assms(5)], of _ ?h now' prev] assms(6) by auto
qed

subsection \<open>The chain binds its entries\<close>

definition hashed_text :: "json \<Rightarrow> json option" where
  "hashed_text entry =
     (case entry of JObj kvs \<Rightarrow> canon (JObj (filter (\<lambda>(k, v). k \<noteq> KStr ''hash'') kvs)) | _ \<Rightarrow> None)"

lemma compute_hash_text: "compute_hash sha e = Inr h \<longleftrightarrow> (\<exists>t. hashed_text e = Some t \<and> h = sha t)"
  by (auto simp: compute_hash_def hashed_text_def split: json.splits option.splits)

lemma map_of_filter_key: "k \<noteq> x \<Longrightarrow> map_of (filter (\<lambda>(k, v). k \<noteq> x) d) k = map_of d k"
  by (induction d) auto

lemma hashed_text_prev:
  assumes "str_keyed e" and "json_get e ''prev_hash'' = Inr (Some (JStr p))" and "hashed_text e = Some t"
  shows "json_get t ''prev_hash'' = Inr (Some (JStr p))"
proof -
  obtain kvs where e: "e = JObj kvs" using assms(2) by (cases e) (auto simp: json_get_def)
  with assms(1) have "str_items kvs \<noteq> None" by simp
  then obtain d where d: "kvs = keyed d" by (auto simp only: str_items_iff)
  let ?d = "filter (\<lambda>(k, v). k \<noteq> ''hash'') d"
  have ok: "distinct (map fst d)" "list_all (\<lambda>(k, j). str_keyed j) d"
    using assms(1) unfolding e d jobj_def [symmetric] str_keyed_jobj by blast+
  have "canon (jobj ?d) = Some (jobj (canon_items ?d))"
    using ok(2) by (intro canon_jobj str_keyed_items) (auto simp: list_all_iff)
  then have t: "t = jobj (canon_items ?d)"
    using assms(3) by (simp add: hashed_text_def e d filter_keyed jobj_def)
  have "distinct (map fst ?d)" using ok(1) by (simp add: distinct_map_filter)
  moreover have "map_of d ''prev_hash'' = Some (JStr p)" using assms(2) by (simp add: json_get_def e d)
  ultimately show ?thesis by (simp add: t canon_items_get map_of_filter_key)
qed

lemma verify_entries_snoc:
  assumes "verify_entries sha p (es @ [e]) = Inr True"
  obtains q t where "verify_entries sha p es = Inr True" "if es = [] then q = p else last_hash es = Inr (JStr q)"
    "json_get e ''prev_hash'' = Inr (Some (JStr q))" "hashed_text e = Some t"
    "json_get e ''hash'' = Inr (Some (JStr (sha t)))"
proof -
  have "verify_entries sha p es = Inr True"
    using assms by (induction es arbitrary: p) (auto split: sum.splits if_splits)
  moreover from verify_entries_append [OF this] obtain q
    where "if es = [] then q = p else last_hash es = Inr (JStr q)"
      "\<And>fs. verify_entries sha p (es @ fs) = verify_entries sha q fs" by blast
  moreover from this(2) assms have "verify_entries sha q [e] = Inr True" by simp
  ultimately show thesis using that by (auto simp: compute_hash_text split: sum.splits if_splits)
qed

lemma same_end_same_texts:
  assumes "verify_entries sha p es = Inr True" and "verify_entries sha p fs = Inr True"
    and "length es = length fs" and "es \<noteq> [] \<longrightarrow> last_hash es = last_hash fs"
    and "\<forall>e\<in>set es \<union> set fs. str_keyed e"
    and "inj_on sha {t. \<exists>e\<in>set es \<union> set fs. hashed_text e = Some t}"
  shows "map hashed_text es = map hashed_text fs"
  using assms
proof (induction es arbitrary: fs rule: rev_induct)
  case (snoc e es)
  then obtain f gs where fs: "fs = gs @ [f]" by (cases fs rule: rev_cases) auto
  from verify_entries_snoc [OF snoc.prems(1)] obtain q t where e: "verify_entries sha p es = Inr True"
    "if es = [] then q = p else last_hash es = Inr (JStr q)" "json_get e ''prev_hash'' = Inr (Some (JStr q))"
    "hashed_text e = Some t" "json_get e ''hash'' = Inr (Some (JStr (sha t)))" by blast
  from verify_entries_snoc [OF snoc.prems(2) [unfolded fs]] obtain r u
    where f: "verify_entries sha p gs = Inr True"
    "if gs = [] then r = p else last_hash gs = Inr (JStr r)" "json_get f ''prev_hash'' = Inr (Some (JStr r))"
    "hashed_text f = Some u" "json_get f ''hash'' = Inr (Some (JStr (sha u)))" by blast
  from snoc.prems(4) e(5) f(5) have "sha t = sha u" by (simp add: fs last_hash_def)
  then have "t = u" by (rule inj_onD [OF snoc.prems(6)]) (use e(4) f(4) fs in auto)
  moreover have "json_get t ''prev_hash'' = Inr (Some (JStr q))" "json_get u ''prev_hash'' = Inr (Some (JStr r))"
    using hashed_text_prev e(3,4) f(3,4) snoc.prems(5) fs by auto
  ultimately have "q = r" by simp
  have "map hashed_text es = map hashed_text gs"
  proof (rule snoc.IH [OF e(1) f(1)])
    show "length es = length gs" using snoc.prems(3) fs by simp
    then have "es = [] \<longleftrightarrow> gs = []" by auto
    then show "es \<noteq> [] \<longrightarrow> last_hash es = last_hash gs" using e(2) f(2) \<open>q = r\<close> by (cases "es = []") simp_all
    show "\<forall>e\<in>set es \<union> set gs. str_keyed e" using snoc.prems(5) fs by auto
    show "inj_on sha {t. \<exists>e\<in>set es \<union> set gs. hashed_text e = Some t}"
      by (rule inj_on_subset [OF snoc.prems(6)]) (auto simp: fs)
  qed
  with e(4) f(4) \<open>t = u\<close> show ?case by (simp add: fs)
qed simp

text \<open>
  C25. The last hash commits to the whole trail: two trails of the same number of entries that both
  verify and end in the same hash agree in the hashed text of every entry, unless SHA-256
  collides on two of those texts.
\<close>

theorem audit_tampering_detected:
  assumes "read_entries lines = Inr es" and "read_entries lines' = Inr es'"
    and "verify_audit_trail sha lines = Inr True" and "verify_audit_trail sha lines' = Inr True"
    and "length es = length es'" and "last_hash es = last_hash es'"
    and "\<forall>e\<in>set es \<union> set es'. str_keyed e"
    and "inj_on sha {t. \<exists>e\<in>set es \<union> set es'. hashed_text e = Some t}"
  shows "map hashed_text es = map hashed_text es'"
proof (rule same_end_same_texts [OF _ _ assms(5) _ assms(7,8)])
  show "verify_entries sha genesis_hash es = Inr True" "verify_entries sha genesis_hash es' = Inr True"
    using assms(1-4) by (simp_all add: verify_audit_trail_def)
qed (use assms(6) in simp)

text \<open>A query returns exactly the entries it matches, in order.\<close>

lemma query_exact:
  assumes "read_entries lines = Inr es" and "\<forall>e\<in>set es. \<exists>kvs. e = JObj kvs"
  shows "query_audit_trail actor action target lines =
    Inr (filter (\<lambda>e. query_matches actor action target e = Inr True) es)"
proof -
  have get: "\<exists>v. json_get e k = Inr v" if "e \<in> set es" for e k
    using assms(2) that by (auto simp: json_get_def)
  have fi: "\<exists>b. field_is w k e = Inr b" if "e \<in> set es" for w k e
    using get [OF that, of k] by (auto simp: field_is_def split: option.split)
  have m: "\<exists>b. query_matches actor action target e = Inr b" if "e \<in> set es" for e
    using fi [OF that, of actor "''actor''"] fi [OF that, of action "''action''"] fi [OF that, of target "''target''"]
    by (auto simp: query_matches_def split: bool.split)
  then have "query_entries actor action target es = Inr (filter (\<lambda>e. query_matches actor action target e = Inr True) es)"
  proof (induction es)
    case (Cons e es)
    from Cons.prems [of e] obtain b where "query_matches actor action target e = Inr b" by auto
    with Cons show ?case by (cases b) auto
  qed simp
  then show ?thesis by (simp add: query_audit_trail_def assms(1))
qed

subsection \<open>The signed log of forensic reports\<close>

text \<open>An Ed25519 key pair: the signature of a canonical text, and the check that may raise.\<close>

record signer =
  sg_sign :: "json \<Rightarrow> string"
  sg_verify :: "string \<Rightarrow> json \<Rightarrow> bool"

definition signer_ok :: "signer \<Rightarrow> bool" where
  "signer_ok k \<longleftrightarrow> (\<forall>m. sg_verify k (sg_sign k m) m)"

record forensic_report =
  fr_wallet :: string
  fr_asset_pair :: string
  fr_risk_score :: json
  fr_shap :: "json list"

definition text_hash :: "(json \<Rightarrow> string) \<Rightarrow> json \<Rightarrow> audit_error + string" where
  "text_hash sha j = (case canon j of None \<Rightarrow> Inl JsonTypeError | Some t \<Rightarrow> Inr (sha t))"

definition hash_features :: "(json \<Rightarrow> string) \<Rightarrow> (string, json) dict \<Rightarrow> audit_error + string" where
  "hash_features sha features =
     text_hash sha (JList (map (\<lambda>(k, v). JList [JStr k, v]) (sort_key fst features)))"

definition hash_shap_explanations :: "(json \<Rightarrow> string) \<Rightarrow> json list \<Rightarrow> audit_error + string" where
  "hash_shap_explanations sha shap = text_hash sha (JList shap)"

definition commitment_hash :: "(json \<Rightarrow> string) \<Rightarrow> json \<Rightarrow> audit_error + string" where
  "commitment_hash sha payload = text_hash sha payload"

definition build_payload ::
  "(json \<Rightarrow> string) \<Rightarrow> string \<Rightarrow> forensic_report \<Rightarrow> (string, json) dict \<Rightarrow> string \<Rightarrow>
   string option \<Rightarrow> audit_error + json"
where
  "build_payload sha now report features model_version timestamp =
     (case hash_features sha features of
        Inl e \<Rightarrow> Inl e
      | Inr fh \<Rightarrow>
          (case hash_shap_explanations sha (fr_shap report) of
             Inl e \<Rightarrow> Inl e
           | Inr sh \<Rightarrow> Inr (jobj
               [(''wallet'', JStr (fr_wallet report)), (''asset_pair'', JStr (fr_asset_pair report)),
                (''score'', (case fr_risk_score report of
                     JObj kvs \<Rightarrow> (case map_of kvs (KStr ''score'') of None \<Rightarrow> JNull | Some v \<Rightarrow> v)
                   | r \<Rightarrow> r)),
                (''risk_score'', fr_risk_score report), (''features_hash'', JStr fh),
                (''shap_hash'', JStr sh), (''model_version'', JStr model_version),
                (''timestamp'', JStr (case timestamp of None \<Rightarrow> now | Some t \<Rightarrow> if t = [] then now else t))])))"

definition commit_report ::
  "(json \<Rightarrow> string) \<Rightarrow> signer option \<Rightarrow> string \<Rightarrow> forensic_report \<Rightarrow> string \<Rightarrow> (string, json) dict \<Rightarrow>
   string option \<Rightarrow> audit_line list \<Rightarrow> (audit_error + string) \<times> audit_line list"
where
  "commit_report sha key now report model_version features timestamp lines =
     (case build_payload sha now report features model_version timestamp of
        Inl e \<Rightarrow> (Inl e, lines)
      | Inr payload \<Rightarrow>
          (case commitment_hash sha payload of
             Inl e \<Rightarrow> (Inl e, lines)
           | Inr digest \<Rightarrow>
               (case key of
                  None \<Rightarrow> (Inl ModelIntegrityError, lines)
                | Some k \<Rightarrow>
                    (case canon payload of
                       None \<Rightarrow> (Inl JsonTypeError, lines)
                     | Some message \<Rightarrow>
                         (case canon (jobj [(''payload'', payload), (''commitment_hash'', JStr digest),
                                            (''sig'', JStr (sg_sign k message))]) of
                            None \<Rightarrow> (Inl JsonTypeError, lines)
                          | Some entry \<Rightarrow> (Inr digest, lines @ [JsonLine entry]))))))"

text \<open>\<open>commit_forensic_report\<close>: without a configured key nothing is written.\<close>

definition commit_forensic_report ::
  "bool \<Rightarrow> (json \<Rightarrow> string) \<Rightarrow> signer option \<Rightarrow> string \<Rightarrow> forensic_report \<Rightarrow> string \<Rightarrow>
   (string, json) dict \<Rightarrow> string option \<Rightarrow> audit_line list \<Rightarrow>
   (audit_error + string option) \<times> audit_line list"
where
  "commit_forensic_report configured sha key now report model_version features timestamp lines =
     (if \<not> configured then (Inr None, lines)
      else
        (case commit_report sha key now report model_version features timestamp lines of
           (Inl e, ls) \<Rightarrow> (Inl e, ls)
         | (Inr digest, ls) \<Rightarrow> (Inr (Some digest), ls)))"

text \<open>\<open>verify_entry\<close>; whatever it raises counts as \<open>False\<close> for its only caller.\<close>

definition verify_entry :: "(json \<Rightarrow> string) \<Rightarrow> signer \<Rightarrow> json \<Rightarrow> bool" where
  "verify_entry sha k entry =
     (case json_get entry ''payload'' of
        Inr (Some payload) \<Rightarrow>
          (case canon payload of
             None \<Rightarrow> False
           | Some message \<Rightarrow>
               json_get entry ''commitment_hash'' = Inr (Some (JStr (sha message))) \<and>
               (case json_get entry ''sig'' of
                  Inr (Some (JStr sig)) \<Rightarrow> sg_verify k sig message
                | _ \<Rightarrow> False))
      | _ \<Rightarrow> False)"

fun verify_lines ::
  "(json \<Rightarrow> string) \<Rightarrow> signer \<Rightarrow> nat \<Rightarrow> audit_line list \<Rightarrow> audit_error + (nat \<times> nat list)"
where
  "verify_lines sha k n [] = Inr (0, [])"
| "verify_lines sha k n (BlankLine # ls) = verify_lines sha k (Suc n) ls"
| "verify_lines sha k n (TornLine # ls) = Inl JSONDecodeError"
| "verify_lines sha k n (JsonLine j # ls) =
     (case verify_lines sha k (Suc n) ls of
        Inl e \<Rightarrow> Inl e
      | Inr (valid, failures) \<Rightarrow>
          Inr (if verify_entry sha k j then (Suc valid, failures) else (valid, n # failures)))"

definition verify_audit_log ::
  "(json \<Rightarrow> string) \<Rightarrow> signer option \<Rightarrow> audit_line list option \<Rightarrow> audit_error + (nat \<times> nat list)"
where
  "verify_audit_log sha key store =
     (case key of
        None \<Rightarrow> Inl ModelIntegrityError
      | Some k \<Rightarrow>
          (case store of None \<Rightarrow> Inl FileNotFoundError | Some lines \<Rightarrow> verify_lines sha k 1 lines))"

fun read_audit_log :: "audit_line list \<Rightarrow> audit_error + json list" where
  "read_audit_log [] = Inr []"
| "read_audit_log (BlankLine # ls) = read_audit_log ls"
| "read_audit_log (TornLine # ls) = Inl ModelIntegrityError"
| "read_audit_log (JsonLine j # ls) =
     (case read_audit_log ls of Inl e \<Rightarrow> Inl e | Inr es \<Rightarrow> Inr (j # es))"

lemma verify_lines_all:
  assumes "\<forall>l\<in>set lines. \<exists>j. l = JsonLine j \<and> verify_entry sha k j"
  shows "verify_lines sha k n lines = Inr (length lines, [])"
  using assms by (induction lines arbitrary: n) auto

lemma build_payload_str_keyed:
  assumes "build_payload sha now report features mv ts = Inr payload" and "str_keyed (fr_risk_score report)"
  shows "str_keyed payload"
proof -
  have "str_keyed v" if "fr_risk_score report = JObj kvs" "map_of kvs k = Some v" for kvs k v
    using assms(2) that by (auto simp: list_all_iff dest!: map_of_SomeD)
  with assms show ?thesis
    by (auto simp: build_payload_def str_keyed_jobj split: sum.splits json.splits option.splits)
qed

text \<open>A line the writer appends passes \<open>verify_entry\<close>.\<close>

lemma commit_verifies:
  assumes "signer_ok k" and "str_keyed (fr_risk_score report)"
    and "commit_report sha (Some k) now report mv features ts lines = (Inr digest, lines')"
  shows "\<exists>j. lines' = lines @ [JsonLine j] \<and> verify_entry sha k j"
proof -
  from assms(3) obtain payload where b: "build_payload sha now report features mv ts = Inr payload"
    by (auto simp: commit_report_def split: sum.splits)
  have keyed: "str_keyed payload" by (rule build_payload_str_keyed [OF b assms(2)])
  obtain message where m: "canon payload = Some message" "canon message = Some message"
    by (rule canon_fixed [OF keyed])
  let ?d = "[(''payload'', payload), (''commitment_hash'', JStr (sha message)), (''sig'', JStr (sg_sign k message))]"
  have d: "canon (jobj ?d) = Some (jobj (canon_items ?d))" by (rule canon_jobj) (simp add: m)
  have "lines' = lines @ [JsonLine (jobj (canon_items ?d))]"
    using assms(3) b m d by (auto simp: commit_report_def commitment_hash_def text_hash_def)
  moreover have "verify_entry sha k (jobj (canon_items ?d))"
    using assms(1) m by (simp add: verify_entry_def canon_items_get signer_ok_def)
  ultimately show ?thesis by blast
qed

definition signed_step ::
  "(json \<Rightarrow> string) \<Rightarrow> signer \<Rightarrow> audit_line list \<Rightarrow>
   string \<times> forensic_report \<times> string \<times> (string, json) dict \<times> string option \<Rightarrow> audit_line list"
where
  "signed_step sha k lines c =
     (case c of (now, report, mv, features, ts) \<Rightarrow> snd (commit_report sha (Some k) now report mv features ts lines))"

lemma commit_effect:
  assumes "signer_ok k" and "str_keyed (fr_risk_score report)"
  shows "snd (commit_report sha (Some k) now report mv features ts lines) = lines \<or>
    (\<exists>j. snd (commit_report sha (Some k) now report mv features ts lines) = lines @ [JsonLine j] \<and> verify_entry sha k j)"
proof (cases "commit_report sha (Some k) now report mv features ts lines")
  case (Pair r lines')
  show ?thesis
  proof (cases r)
    case (Inl e)
    with Pair have "lines' = lines"
      by (auto simp: commit_report_def split: sum.splits option.splits)
    with Pair show ?thesis by simp
  next
    case (Inr digest)
    with commit_verifies [OF assms] Pair show ?thesis by auto
  qed
qed

interpretation signed_run: preserved_when "signed_step sha k"
  "\<lambda>lines. signer_ok k \<and> (\<forall>l\<in>set lines. \<exists>j. l = JsonLine j \<and> verify_entry sha k j)"
  "\<lambda>c. str_keyed (fr_risk_score (fst (snd c)))" for sha k
proof
  fix lines and c :: "string \<times> forensic_report \<times> string \<times> (string, json) dict \<times> string option"
  assume inv: "signer_ok k \<and> (\<forall>l\<in>set lines. \<exists>j. l = JsonLine j \<and> verify_entry sha k j)"
    and ok: "str_keyed (fr_risk_score (fst (snd c)))"
  obtain now report mv features ts where c: "c = (now, report, mv, features, ts)" by (cases c)
  from ok c have "str_keyed (fr_risk_score report)" by simp
  then consider "signed_step sha k lines c = lines"
    | j where "signed_step sha k lines c = lines @ [JsonLine j]" "verify_entry sha k j"
    using commit_effect [of k report sha now mv features ts lines] inv by (auto simp: signed_step_def c)
  then show "signer_ok k \<and> (\<forall>l\<in>set (signed_step sha k lines c). \<exists>j. l = JsonLine j \<and> verify_entry sha k j)"
    using inv by cases auto
qed

text \<open>
  Every entry of the signed log verifies after any history of commits, and so does every other
  arrangement of its lines: deleting, reordering or repeating entries is not noticed.
\<close>

theorem signed_log_verifies:
  assumes "signer_ok k" and "\<forall>c\<in>set cs. str_keyed (fr_risk_score (fst (snd c)))"
    and "set lines \<subseteq> set (foldl (signed_step sha k) [] cs)"
  shows "verify_audit_log sha (Some k) (Some lines) = Inr (length lines, [])"
proof -
  have "\<forall>l\<in>set (foldl (signed_step sha k) [] cs). \<exists>j. l = JsonLine j \<and> verify_entry sha k j"
    using signed_run.run_inv_when [where k = k and s = "[]" and es = cs and sha = sha] assms(1,2) by auto
  then have "\<forall>l\<in>set lines. \<exists>j. l = JsonLine j \<and> verify_entry sha k j" using assms(3) by blast
  then show ?thesis by (simp add: verify_audit_log_def verify_lines_all)
qed

subsection \<open>Witnesses\<close>

text \<open>A digest that spells out the tree, and a signature that is the digest.\<close>

fun demo_text :: "json \<Rightarrow> string" where
  "demo_text (JStr s) = CHR ''q'' # s"
| "demo_text JNull = ''n''"
| "demo_text (JList js) = CHR ''['' # concat (map demo_text js)"
| "demo_text (JObj kvs) =
     CHR ''{'' # concat (map (\<lambda>(k, j). (case k of KStr s \<Rightarrow> s | KInt i \<Rightarrow> ''i'') @ demo_text j) kvs)"
| "demo_text _ = ''x''"

definition demo_event :: "string \<Rightarrow> audit_event" where
  "demo_event a = \<lparr>ae_actor = a, ae_action = ''threshold.override'',
     ae_before = JObj [(KStr ''b'', JNull), (KStr ''a'', JStr ''1'')],
     ae_after = JNull, ae_target = None, ae_metadata = None\<rparr>"

lemma demo_event_ok: "event_str_keyed (demo_event a)"
  by (simp add: event_str_keyed_def demo_event_def)

lemma audit_history_verifies_witness:
  "verify_audit_trail demo_text (foldl (audit_step demo_text) [] [(''t'', demo_event ''ops''), (''u'', demo_event ''qa'')]) =
   Inr True"
  by (rule audit_history_verifies) (simp_all add: verify_audit_trail_def demo_event_ok)

lemma integer_keys_break_the_trail_witness:
  "\<exists>ev. recorded_text ''t'' ev (JStr genesis_hash) \<noteq> reread_text ''t'' ev (JStr genesis_hash)"
proof -
  let ?ev = "\<lparr>ae_actor = ''ops'', ae_action = ''x'', ae_before = JObj [(KInt 9, JNull), (KInt 10, JNull)],
      ae_after = JNull, ae_target = None, ae_metadata = None\<rparr>"
  have "demo_text (recorded_text ''t'' ?ev (JStr genesis_hash)) \<noteq>
      demo_text (reread_text ''t'' ?ev (JStr genesis_hash))"
    by code_simp
  then show ?thesis
    using integer_keys_break_the_trail [of demo_text "[]" "[]" "JStr genesis_hash" ?ev "''ops''" "''x''" "''t''"]
    by (auto simp: verify_audit_trail_def last_hash_def)
qed

lemma two_writers_break_the_trail_witness:
  "verify_audit_trail demo_text (snd (write_entry demo_text ''u'' (demo_event ''qa'') (JStr genesis_hash)
     (snd (write_entry demo_text ''t'' (demo_event ''ops'') (JStr genesis_hash) [])))) = Inr False"
proof (rule two_writers_break_the_trail [where es = "[]"])
  show "demo_text (recorded_text ''t'' (demo_event ''ops'') (JStr genesis_hash)) \<noteq> genesis_hash"
    by code_simp
qed (simp_all add: verify_audit_trail_def last_hash_def demo_event_ok)

definition demo_trail :: "audit_line list" where
  "demo_trail = snd (record_audit_event demo_text ''t'' (demo_event ''ops'') [])"

definition demo_entry :: json where
  "demo_entry = (case demo_trail of [JsonLine j] \<Rightarrow> j | _ \<Rightarrow> JNull)"

definition demo_reordered :: json where
  "demo_reordered = (case demo_entry of JObj kvs \<Rightarrow> JObj (rev kvs) | j \<Rightarrow> j)"

lemma demo_trail_facts:
  "demo_trail = [JsonLine demo_entry]" "demo_reordered \<noteq> demo_entry"
  "str_keyed demo_entry" "str_keyed demo_reordered"
  "verify_audit_trail demo_text [JsonLine demo_entry] = Inr True"
  "verify_audit_trail demo_text [JsonLine demo_reordered] = Inr True"
  "last_hash [demo_entry] = last_hash [demo_reordered]"
  "hashed_text demo_entry = hashed_text demo_reordered"
  by code_simp+

text \<open>The second trail writes the keys of its entry in another order.\<close>

lemma audit_tampering_detected_witness:
  "map hashed_text [demo_entry] = map hashed_text [demo_reordered]"
proof (rule audit_tampering_detected)
  show "verify_audit_trail demo_text [JsonLine demo_entry] = Inr True"
    "verify_audit_trail demo_text [JsonLine demo_reordered] = Inr True"
    by (fact demo_trail_facts)+
  show "inj_on demo_text {t. \<exists>e\<in>set [demo_entry] \<union> set [demo_reordered]. hashed_text e = Some t}"
    by (auto simp: inj_on_def demo_trail_facts)
qed (simp_all add: demo_trail_facts)

definition demo_signer :: signer where
  "demo_signer = \<lparr>sg_sign = demo_text, sg_verify = (\<lambda>s m. s = demo_text m)\<rparr>"

definition demo_report :: forensic_report where
  "demo_report = \<lparr>fr_wallet = ''w'', fr_asset_pair = ''p'', fr_risk_score = JObj [(KStr ''score'', JNull)],
     fr_shap = []\<rparr>"

lemma signed_log_verifies_witness:
  "\<exists>l. l \<in> set (foldl (signed_step demo_text demo_signer) [] [(''t'', demo_report, ''m'', [], None)]) \<and>
    verify_audit_log demo_text (Some demo_signer) (Some [l, l]) = Inr (2, [])"
proof -
  have "foldl (signed_step demo_text demo_signer) [] [(''t'', demo_report, ''m'', [], None)] \<noteq> []"
    by code_simp
  then obtain l where l: "l \<in> set (foldl (signed_step demo_text demo_signer) [] [(''t'', demo_report, ''m'', [], None)])"
    by (meson last_in_set)
  have "verify_audit_log demo_text (Some demo_signer) (Some [l, l]) = Inr (length [l, l], [])"
    by (rule signed_log_verifies [of _ "[(''t'', demo_report, ''m'', [], None)]"])
      (use l in \<open>simp_all add: signer_ok_def demo_signer_def demo_report_def\<close>)
  with l show ?thesis by (auto simp: numeral_2_eq_2)
qed

end
