(* ===== verification/Floats.thy ===== *)
theory Floats
  imports Base
begin

text \<open>
  Python floats where the code can meet an infinity or a NaN: finite floats are rationals (rounding
  is idealised), comparisons with NaN are false, and \<open>max\<close> and \<open>min\<close> keep their first argument.
\<close>

datatype xf = Fin rat | PInf | NInf | NaN

fun x_lt :: "xf \<Rightarrow> xf \<Rightarrow> bool" where
  "x_lt (Fin a) (Fin b) = (a < b)"
| "x_lt (Fin a) PInf = True"
| "x_lt NInf (Fin b) = True"
| "x_lt NInf PInf = True"
| "x_lt _ _ = False"

definition x_le :: "xf \<Rightarrow> xf \<Rightarrow> bool" where
  "x_le a b = (x_lt a b \<or> (a = b \<and> a \<noteq> NaN))"

text \<open>Python's \<open>max\<close> and \<open>min\<close> keep their first argument unless the second is strictly better.\<close>

definition x_max :: "xf \<Rightarrow> xf \<Rightarrow> xf" where
  "x_max a b = (if x_lt a b then b else a)"

definition x_min :: "xf \<Rightarrow> xf \<Rightarrow> xf" where
  "x_min a b = (if x_lt b a then b else a)"

fun x_add :: "xf \<Rightarrow> xf \<Rightarrow> xf" where
  "x_add (Fin a) (Fin b) = Fin (a + b)"
| "x_add NaN _ = NaN"
| "x_add _ NaN = NaN"
| "x_add PInf NInf = NaN"
| "x_add NInf PInf = NaN"
| "x_add PInf _ = PInf"
| "x_add _ PInf = PInf"
| "x_add NInf _ = NInf"
| "x_add _ NInf = NInf"

fun x_neg :: "xf \<Rightarrow> xf" where
  "x_neg (Fin a) = Fin (- a)"
| "x_neg PInf = NInf"
| "x_neg NInf = PInf"
| "x_neg NaN = NaN"

definition x_sub :: "xf \<Rightarrow> xf \<Rightarrow> xf" where
  "x_sub a b = x_add a (x_neg b)"

text \<open>Division; \<open>None\<close> is \<open>ZeroDivisionError\<close>.\<close>

fun x_div :: "xf \<Rightarrow> xf \<Rightarrow> xf option" where
  "x_div a (Fin b) =
     (if b = 0 then None
      else Some (case a of
                   Fin x \<Rightarrow> Fin (x / b)
                 | PInf \<Rightarrow> if 0 < b then PInf else NInf
                 | NInf \<Rightarrow> if 0 < b then NInf else PInf
                 | NaN \<Rightarrow> NaN))"
| "x_div (Fin a) PInf = Some (Fin 0)"
| "x_div (Fin a) NInf = Some (Fin 0)"
| "x_div _ _ = Some NaN"

lemma x_lt_NaN [simp]: "\<not> x_lt NaN a" "\<not> x_lt a NaN"
  by (cases a; simp)+

end
