(* ===== verification/RateLimiter.thy ===== *)
theory RateLimiter
  imports Floats
begin

text \<open>
  Rate limiting (\<open>ingestion/rate_limiter.py\<close>): the token bucket that worker processes share through
  Redis, with its optimistic transaction as the interleaved commands of any number of callers, and
  the adaptive limiter that follows the rate-limit headers of an upstream source.

  Readings of clocks and finite floats are rationals (rounding is idealised), but \<open>float()\<close> also
  accepts \<open>inf\<close> and \<open>nan\<close> in a header, so the adaptive limiter computes on \<open>xf\<close>, which has them.
\<close>

subsection \<open>The token bucket\<close>

record limiter =
  lim_capacity :: rat
  lim_rate :: rat
  lim_connected :: bool
  lim_warned :: bool

text \<open>The body of the transaction: what is read, the clock, and what is granted and written.\<close>

definition bucket_take :: "limiter \<Rightarrow> (rat \<times> rat) option \<Rightarrow> clock \<Rightarrow> rat \<Rightarrow> bool \<times> (rat \<times> rat)" where
  "bucket_take L raw now tokens =
     (let current = (case raw of Some (tk, _) \<Rightarrow> tk | None \<Rightarrow> lim_capacity L);
          updated_at = (case raw of Some (_, u) \<Rightarrow> u | None \<Rightarrow> now);
          elapsed = max 0 (now - updated_at);
          current = min (lim_capacity L) (current + elapsed * lim_rate L);
          granted = current \<ge> tokens
      in (granted, (if granted then current - tokens else current, now)))"

text \<open>
  One pass of the loop meets a conflict (\<open>WatchError\<close>), another Redis error, or commits. The list
  holds the passes of one call; \<open>None\<close> is a call still looping when the list ends.
\<close>

datatype pass_outcome = WatchConflict | RedisRaised | Committed "(rat \<times> rat) option" clock

definition warn :: "limiter \<Rightarrow> limiter" where
  "warn L = L\<lparr>lim_warned := True\<rparr>"

text \<open>\<open>_connect\<close>: \<open>None\<close> and a warning unless the server answered the ping.\<close>

definition limiter_open :: "rat \<Rightarrow> rat option \<Rightarrow> bool \<Rightarrow> limiter" where
  "limiter_open capacity refill reachable =
     (let L = \<lparr>lim_capacity = capacity, lim_rate = (case refill of None \<Rightarrow> capacity | Some r \<Rightarrow> r),
                lim_connected = reachable, lim_warned = False\<rparr>
      in if reachable then L else warn L)"

fun try_acquire ::
  "pass_outcome list \<Rightarrow> rat \<Rightarrow> limiter \<Rightarrow> (bool \<times> (rat \<times> rat) option) option \<times> limiter"
where
  "try_acquire passes tokens L =
     (if \<not> lim_connected L then (Some (True, None), L)
      else
        (case passes of
           [] \<Rightarrow> (None, L)
         | WatchConflict # rest \<Rightarrow> try_acquire rest tokens L
         | RedisRaised # rest \<Rightarrow> (Some (True, None), warn (L\<lparr>lim_connected := False\<rparr>))
         | Committed raw now # rest \<Rightarrow>
             (let (granted, new) = bucket_take L raw now tokens in (Some (granted, Some new), L))))"

text \<open>\<open>acquire\<close>: the answers of its polls, each with the monotonic clock read after it.\<close>

fun acquire_poll :: "clock option \<Rightarrow> (bool \<times> clock) list \<Rightarrow> bool option" where
  "acquire_poll deadline [] = None"
| "acquire_poll deadline ((granted, now) # rest) =
     (if granted then Some True
      else (case deadline of
              Some d \<Rightarrow> if d \<le> now then Some False else acquire_poll deadline rest
            | None \<Rightarrow> acquire_poll deadline rest))"

lemma acquire_poll_False:
  "acquire_poll deadline polls = Some False \<Longrightarrow>
     \<exists>d now. deadline = Some d \<and> (False, now) \<in> set polls \<and> d \<le> now"
  by (induction deadline polls rule: acquire_poll.induct) (auto split: if_splits option.splits)

lemma acquire_poll_True: "acquire_poll deadline polls = Some True \<Longrightarrow> \<exists>now. (True, now) \<in> set polls"
  by (induction deadline polls rule: acquire_poll.induct) (auto split: if_splits option.splits)

subsection \<open>Callers sharing one bucket\<close>

text \<open>
  Each caller watches the key, reads the hash, reads the clock and executes its transaction, which
  the server refuses when the key changed after the watch. All callers read one clock here; the
  key expires 60 seconds after its last write. \<open>sb_mark\<close> and \<open>sb_granted\<close> are ghosts: since when the
  bucket has its contents, and the tokens granted so far.
\<close>

datatype bucket_caller = CallerIdle | CallerWatching nat | CallerRead nat "(rat \<times> rat) option"
  | CallerTimed nat "(rat \<times> rat) option" clock

record shared_bucket =
  sb_hash :: "(rat \<times> rat) option"
  sb_version :: nat
  sb_written :: clock
  sb_clock :: clock
  sb_callers :: "nat \<Rightarrow> bucket_caller"
  sb_mark :: clock
  sb_granted :: rat

datatype bucket_event = BucketTick rat | BucketWatch nat | BucketRead nat | BucketClock nat
  | BucketExec nat | BucketExpire

definition bucket_init :: "clock \<Rightarrow> shared_bucket" where
  "bucket_init t = \<lparr>sb_hash = None, sb_version = 0, sb_written = t, sb_clock = t,
     sb_callers = (\<lambda>_. CallerIdle), sb_mark = t, sb_granted = 0\<rparr>"

fun bucket_step :: "limiter \<Rightarrow> shared_bucket \<Rightarrow> bucket_event \<Rightarrow> shared_bucket" where
  "bucket_step L s (BucketTick d) = s\<lparr>sb_clock := sb_clock s + d\<rparr>"
| "bucket_step L s (BucketWatch i) =
     s\<lparr>sb_callers := (sb_callers s)(i := CallerWatching (sb_version s))\<rparr>"
| "bucket_step L s (BucketRead i) =
     (case sb_callers s i of
        CallerWatching v \<Rightarrow> s\<lparr>sb_callers := (sb_callers s)(i := CallerRead v (sb_hash s))\<rparr>
      | _ \<Rightarrow> s)"
| "bucket_step L s (BucketClock i) =
     (case sb_callers s i of
        CallerRead v raw \<Rightarrow> s\<lparr>sb_callers := (sb_callers s)(i := CallerTimed v raw (sb_clock s))\<rparr>
      | _ \<Rightarrow> s)"
| "bucket_step L s (BucketExec i) =
     (case sb_callers s i of
        CallerTimed v raw now \<Rightarrow>
          if v = sb_version s
          then
            (let (granted, new) = bucket_take L raw now 1 in
               s\<lparr>sb_hash := Some new, sb_version := Suc (sb_version s), sb_written := sb_clock s,
                 sb_callers := (sb_callers s)(i := CallerIdle), sb_mark := now,
                 sb_granted := sb_granted s + (if granted then 1 else 0)\<rparr>)
          else s\<lparr>sb_callers := (sb_callers s)(i := CallerIdle)\<rparr>
      | _ \<Rightarrow> s)"
| "bucket_step L s BucketExpire =
     (if sb_hash s \<noteq> None \<and> sb_written s + 60 \<le> sb_clock s
      then s\<lparr>sb_hash := None, sb_version := Suc (sb_version s), sb_mark := sb_clock s\<rparr>
      else s)"

definition level :: "limiter \<Rightarrow> shared_bucket \<Rightarrow> rat" where
  "level L s = (case sb_hash s of None \<Rightarrow> lim_capacity L | Some (tk, _) \<Rightarrow> tk)"

text \<open>
  What the bucket holds and what was granted never exceed the capacity and the refill since the
  start; whoever holds the current version has read the bucket as it is, and later than its mark.
\<close>

definition caller_ok :: "shared_bucket \<Rightarrow> bucket_caller \<Rightarrow> bool" where
  "caller_ok s c =
     (case c of
        CallerIdle \<Rightarrow> True
      | CallerWatching v \<Rightarrow> v \<le> sb_version s
      | CallerRead v raw \<Rightarrow> v \<le> sb_version s \<and> (v = sb_version s \<longrightarrow> raw = sb_hash s)
      | CallerTimed v raw now \<Rightarrow>
          v \<le> sb_version s \<and> now \<le> sb_clock s \<and> (v = sb_version s \<longrightarrow> raw = sb_hash s \<and> sb_mark s \<le> now))"

text \<open>
  The rate at which tokens can appear: the refill, or a full bucket each time the key has expired.
\<close>

definition budget_rate :: "limiter \<Rightarrow> rat" where
  "budget_rate L = max (lim_rate L) (lim_capacity L / 60)"

definition bucket_inv :: "limiter \<Rightarrow> clock \<Rightarrow> shared_bucket \<Rightarrow> bool" where
  "bucket_inv L t0 s \<longleftrightarrow>
     t0 \<le> sb_mark s \<and> sb_mark s \<le> sb_clock s \<and>
     (case sb_hash s of None \<Rightarrow> True | Some (tk, u) \<Rightarrow> u = sb_mark s \<and> u \<le> sb_written s) \<and>
     0 \<le> level L s \<and> level L s \<le> lim_capacity L \<and>
     level L s + sb_granted s \<le> lim_capacity L + budget_rate L * (sb_mark s - t0) \<and>
     (\<forall>i. caller_ok s (sb_callers s i))"

definition limiter_ok :: "limiter \<Rightarrow> bool" where
  "limiter_ok L \<longleftrightarrow> 0 \<le> lim_capacity L \<and> 0 \<le> lim_rate L"

lemma budget_rate:
  assumes "limiter_ok L"
  shows "lim_rate L \<le> budget_rate L" "lim_capacity L \<le> budget_rate L * 60" "0 \<le> budget_rate L"
  using assms by (auto simp: budget_rate_def limiter_ok_def max_def field_simps)

fun tick_ok :: "bucket_event \<Rightarrow> bool" where
  "tick_ok (BucketTick d) \<longleftrightarrow> 0 \<le> d"
| "tick_ok _ \<longleftrightarrow> True"

lemma bucket_take_level:
  assumes "bucket_take L (sb_hash s) now 1 = (granted, new)"
    and "case sb_hash s of None \<Rightarrow> True | Some (tk, u) \<Rightarrow> u = sb_mark s"
    and "sb_mark s \<le> now" and "0 \<le> lim_rate L" and "0 \<le> level L s" and "0 \<le> lim_capacity L"
  shows "snd new = now" and "0 \<le> fst new" and "fst new \<le> lim_capacity L"
    and "fst new + (if granted then 1 else 0) \<le> level L s + lim_rate L * (now - sb_mark s)"
proof -
  define e where "e = (case sb_hash s of None \<Rightarrow> 0 | Some _ \<Rightarrow> now - sb_mark s)"
  define c where "c = min (lim_capacity L) (level L s + e * lim_rate L)"
  have take: "bucket_take L (sb_hash s) now 1 = (1 \<le> c, (if 1 \<le> c then c - 1 else c, now))"
    using assms(2,3) by (auto simp: bucket_take_def Let_def c_def e_def level_def split: option.splits)
  have "0 \<le> e" "e \<le> now - sb_mark s" using assms(3) by (auto simp: e_def split: option.split)
  then have "e * lim_rate L \<le> lim_rate L * (now - sb_mark s)" "0 \<le> e * lim_rate L"
    using assms(4) mult_left_mono [of e "now - sb_mark s" "lim_rate L"] by (simp_all add: mult.commute [of e])
  with take assms(1,5,6) show "snd new = now" "0 \<le> fst new"
    "fst new \<le> lim_capacity L"
    "fst new + (if granted then 1 else 0) \<le> level L s + lim_rate L * (now - sb_mark s)"
    by (auto simp: c_def split: if_splits)
qed

lemma caller_ok_mono:
  assumes "caller_ok s c" and "sb_version t = sb_version s" "sb_hash t = sb_hash s" "sb_mark t = sb_mark s"
    "sb_clock s \<le> sb_clock t"
  shows "caller_ok t c"
  using assms by (auto simp: caller_ok_def split: bucket_caller.splits)

lemma caller_ok_new_version:
  assumes "caller_ok s c" and "sb_version t = Suc (sb_version s)" "sb_clock s \<le> sb_clock t"
  shows "caller_ok t c"
  using assms by (auto simp: caller_ok_def split: bucket_caller.splits)

lemma bucket_inv_callers:
  assumes "bucket_inv L t0 s" and "\<forall>i. caller_ok s (f i)"
  shows "bucket_inv L t0 (s\<lparr>sb_callers := f\<rparr>)"
proof -
  have "caller_ok (s\<lparr>sb_callers := f\<rparr>) c = caller_ok s c" for c
    by (auto simp: caller_ok_def split: bucket_caller.splits)
  with assms show ?thesis by (auto simp: bucket_inv_def level_def split: option.splits)
qed

lemma bucket_exec_inv:
  assumes L: "limiter_ok L" and inv: "bucket_inv L t0 s"
    and c: "sb_callers s i = CallerTimed (sb_version s) raw now"
  shows "bucket_inv L t0 (bucket_step L s (BucketExec i))"
proof -
  obtain granted new where take: "bucket_take L raw now 1 = (granted, new)" by (cases "bucket_take L raw now 1")
  have "caller_ok s (CallerTimed (sb_version s) raw now)" using inv c by (metis bucket_inv_def)
  then have raw: "raw = sb_hash s" "sb_mark s \<le> now" "now \<le> sb_clock s" by (simp_all add: caller_ok_def)
  have hash: "case sb_hash s of None \<Rightarrow> True | Some (tk, u) \<Rightarrow> u = sb_mark s"
    using inv by (auto simp: bucket_inv_def split: option.splits)
  have rate: "0 \<le> lim_rate L" "0 \<le> lim_capacity L" "0 \<le> level L s" using L inv by (simp_all add: limiter_ok_def bucket_inv_def)
  note lev = bucket_take_level [OF take [unfolded raw(1)] hash raw(2) rate(1,3,2)]
  define t where "t = bucket_step L s (BucketExec i)"
  have t: "t = s\<lparr>sb_hash := Some new, sb_version := Suc (sb_version s), sb_written := sb_clock s,
      sb_callers := (sb_callers s)(i := CallerIdle), sb_mark := now,
      sb_granted := sb_granted s + (if granted then 1 else 0)\<rparr>"
    using c take by (simp add: t_def)
  have "level L s + sb_granted s \<le> lim_capacity L + budget_rate L * (sb_mark s - t0)"
    using inv by (simp add: bucket_inv_def)
  moreover have "lim_rate L * (now - sb_mark s) \<le> budget_rate L * (now - sb_mark s)"
    using budget_rate(1) [OF L] raw(2) by (intro mult_right_mono) simp_all
  ultimately have "fst new + (sb_granted s + (if granted then 1 else 0)) \<le>
      lim_capacity L + (budget_rate L * (sb_mark s - t0) + budget_rate L * (now - sb_mark s))"
    using lev(4) by linarith
  also have "budget_rate L * (sb_mark s - t0) + budget_rate L * (now - sb_mark s) = budget_rate L * (now - t0)"
    by (simp add: algebra_simps)
  finally have phi: "fst new + (sb_granted s + (if granted then 1 else 0)) \<le> lim_capacity L + budget_rate L * (now - t0)" .
  have callers: "caller_ok t (sb_callers t j)" for j
  proof (cases "j = i")
    case True
    then show ?thesis by (simp add: t caller_ok_def)
  next
    case False
    have "caller_ok s (sb_callers s j)" using inv by (simp add: bucket_inv_def)
    from caller_ok_new_version [OF this, of t] False show ?thesis by (simp add: t)
  qed
  have "t0 \<le> sb_mark s" using inv by (simp add: bucket_inv_def)
  obtain tk u where new: "new = (tk, u)" by (cases new)
  have "bucket_inv L t0 t"
    using callers phi lev(1-3) rate raw \<open>t0 \<le> sb_mark s\<close>
    by (simp add: bucket_inv_def level_def t new)
  then show ?thesis by (simp add: t_def)
qed

lemma bucket_expire_inv:
  assumes L: "limiter_ok L" and inv: "bucket_inv L t0 s"
  shows "bucket_inv L t0 (bucket_step L s BucketExpire)"
proof (cases "sb_hash s \<noteq> None \<and> sb_written s + 60 \<le> sb_clock s")
  case False
  with inv show ?thesis by auto
next
  case True
  then obtain tk u where h: "sb_hash s = Some (tk, u)" by auto
  with inv have b: "u = sb_mark s" "u \<le> sb_written s" "0 \<le> tk" "t0 \<le> sb_mark s" "sb_mark s \<le> sb_clock s"
    "tk + sb_granted s \<le> lim_capacity L + budget_rate L * (sb_mark s - t0)"
    by (simp_all add: bucket_inv_def level_def)
  define t where "t = bucket_step L s BucketExpire"
  have t: "t = s\<lparr>sb_hash := None, sb_version := Suc (sb_version s), sb_mark := sb_clock s\<rparr>"
    using True by (simp add: t_def)
  have "budget_rate L * (sb_mark s - t0 + 60) \<le> budget_rate L * (sb_clock s - t0)"
    using b(1,2) True budget_rate(3) [OF L] by (intro mult_left_mono) auto
  moreover have "budget_rate L * (sb_mark s - t0 + 60) = budget_rate L * (sb_mark s - t0) + budget_rate L * 60"
    by (rule distrib_left)
  ultimately have "sb_granted s \<le> budget_rate L * (sb_clock s - t0)"
    using b(3,6) budget_rate(2) [OF L] by linarith
  moreover have "caller_ok t (sb_callers t j)" for j
  proof -
    have "caller_ok s (sb_callers s j)" using inv by (simp add: bucket_inv_def)
    from caller_ok_new_version [OF this, of t] show ?thesis by (simp add: t)
  qed
  ultimately have "bucket_inv L t0 t"
    using b L by (simp add: bucket_inv_def level_def t limiter_ok_def)
  then show ?thesis by (simp add: t_def)
qed

interpretation shared: preserved_when "bucket_step L" "\<lambda>s. limiter_ok L \<and> bucket_inv L t0 s" tick_ok for L t0
proof
  fix s e
  assume inv: "limiter_ok L \<and> bucket_inv L t0 s" and ok: "tick_ok e"
  have callers: "caller_ok s (sb_callers s i)" for i using inv by (simp add: bucket_inv_def)
  show "limiter_ok L \<and> bucket_inv L t0 (bucket_step L s e)"
  proof (cases e)
    case (BucketTick d)
    have "caller_ok (s\<lparr>sb_clock := sb_clock s + d\<rparr>) (sb_callers s i)" for i
      by (rule caller_ok_mono [OF callers]) (use ok BucketTick in simp_all)
    then show ?thesis using inv ok BucketTick by (auto simp: bucket_inv_def level_def split: option.splits)
  next
    case (BucketWatch i)
    then show ?thesis using inv callers by (simp add: bucket_inv_callers caller_ok_def)
  next
    case (BucketRead i)
    have "bucket_inv L t0 (s\<lparr>sb_callers := (sb_callers s)(i := CallerRead v (sb_hash s))\<rparr>)"
      if "sb_callers s i = CallerWatching v" for v
      using inv callers callers [of i] that by (intro bucket_inv_callers) (auto simp: caller_ok_def)
    then show ?thesis using inv BucketRead by (cases "sb_callers s i") simp_all
  next
    case (BucketClock i)
    have "bucket_inv L t0 (s\<lparr>sb_callers := (sb_callers s)(i := CallerTimed v raw (sb_clock s))\<rparr>)"
      if "sb_callers s i = CallerRead v raw" for v raw
    proof (rule bucket_inv_callers)
      have "caller_ok s (CallerTimed v raw (sb_clock s))"
        using callers [of i] that inv by (simp add: caller_ok_def bucket_inv_def)
      with callers show "\<forall>j. caller_ok s (((sb_callers s)(i := CallerTimed v raw (sb_clock s))) j)" by simp
    qed (use inv in simp)
    then show ?thesis using inv BucketClock by (cases "sb_callers s i") simp_all
  next
    case (BucketExec i)
    have idle: "bucket_inv L t0 (s\<lparr>sb_callers := (sb_callers s)(i := CallerIdle)\<rparr>)"
      using inv callers by (intro bucket_inv_callers) (auto simp: caller_ok_def)
    show ?thesis
    proof (cases "\<exists>raw now. sb_callers s i = CallerTimed (sb_version s) raw now")
      case True
      then show ?thesis using bucket_exec_inv inv BucketExec by blast
    next
      case False
      then show ?thesis using inv idle BucketExec by (cases "sb_callers s i") auto
    qed
  next
    case BucketExpire
    then show ?thesis using bucket_expire_inv inv by blast
  qed
qed

text \<open>
  C16. However the commands of any number of callers interleave, and whenever the key expires, the
  tokens granted never exceed the capacity and what appears since the start at the rate of the
  refill or of one capacity per minute, whichever is larger, when all callers read one clock. The
  second rate is the key's expiry: an expired bucket starts full.
\<close>

theorem shared_budget:
  assumes "limiter_ok L" and "\<forall>e\<in>set es. tick_ok e" and "s = foldl (bucket_step L) (bucket_init t0) es"
  shows "sb_granted s \<le> lim_capacity L + max (lim_rate L) (lim_capacity L / 60) * (sb_clock s - t0)"
proof -
  have "bucket_inv L t0 (bucket_init t0)"
    using assms(1) by (simp add: bucket_inv_def bucket_init_def level_def limiter_ok_def caller_ok_def)
  then have inv: "bucket_inv L t0 s"
    using shared.run_inv_when [of L t0 "bucket_init t0" es] assms by simp
  then have "sb_granted s \<le> lim_capacity L + budget_rate L * (sb_mark s - t0)" by (auto simp: bucket_inv_def)
  also have "budget_rate L * (sb_mark s - t0) \<le> budget_rate L * (sb_clock s - t0)"
    using inv budget_rate(3) [OF assms(1)] by (intro mult_left_mono) (auto simp: bucket_inv_def)
  finally show ?thesis by (simp add: budget_rate_def)
qed

text \<open>
  The second rate is real: a bucket of five tokens that is never refilled, as the repository's own
  tests configure it, has granted six a minute after the fifth.
\<close>

definition take_one :: "bucket_event list" where
  "take_one = [BucketWatch 0, BucketRead 0, BucketClock 0, BucketExec 0]"

lemma expired_bucket_overgrants:
  assumes "lim_capacity L = 5" and "lim_rate L = 0"
  shows "sb_granted (foldl (bucket_step L) (bucket_init t)
    (concat (replicate 6 take_one) @ [BucketTick 60, BucketExpire] @ take_one)) = 6"
  using assms
  by (simp add: take_one_def bucket_init_def bucket_take_def Let_def numeral_eq_Suc [of num.One] eval_nat_numeral)

text \<open>
  Two callers take turns at one moment, one of them on a host whose clock is \<open>d\<close> seconds ahead: a
  round is one take of each.
\<close>

fun skewed_rounds :: "limiter \<Rightarrow> clock \<Rightarrow> rat \<Rightarrow> nat \<Rightarrow> (rat \<times> rat) option \<Rightarrow> nat" where
  "skewed_rounds L t d 0 raw = 0"
| "skewed_rounds L t d (Suc n) raw =
     (let (g, b) = bucket_take L raw t 1; (g', b') = bucket_take L (Some b) (t + d) 1 in
        of_bool g + of_bool g' + skewed_rounds L t d n (Some b'))"

text \<open>
  The bucket trusts the clock of whoever calls: with clocks \<open>d\<close> seconds apart, where \<open>d\<close> seconds
  refill the bucket, every take of every round is granted although no time passes.
\<close>

theorem skewed_clocks_overgrant:
  assumes "2 \<le> lim_capacity L" and "lim_capacity L \<le> d * lim_rate L" and "0 \<le> d"
  shows "skewed_rounds L t d n None = 2 * n"
proof -
  have run: "skewed_rounds L t d m (Some (lim_capacity L - 1, t + d)) = 2 * m" for m
    using assms by (induction m) (auto simp: bucket_take_def Let_def)
  show ?thesis
  proof (cases n)
    case (Suc m)
    have "bucket_take L None t 1 = (True, lim_capacity L - 1, t)"
      using assms by (simp add: bucket_take_def)
    moreover have "bucket_take L (Some (lim_capacity L - 1, t)) (t + d) 1 = (True, lim_capacity L - 1, t + d)"
      using assms by (simp add: bucket_take_def)
    ultimately show ?thesis using run [of m] by (simp add: Suc)
  qed simp
qed

subsection \<open>The adaptive limiter\<close>

record adaptive =
  ad_ceilings :: "(string, rat) dict"
  ad_default :: rat
  ad_epoch_threshold :: rat
  ad_rates :: "(string, xf) dict"
  ad_next_allowed :: "(string, xf) dict"

definition lower_char :: "char \<Rightarrow> char" where
  "lower_char ch = (if of_char ch \<ge> (65::nat) \<and> of_char ch \<le> (90::nat) then char_of (of_char ch + (32::nat)) else ch)"

definition lowered :: "(string \<times> 'v) list \<Rightarrow> (string, 'v) dict" where
  "lowered headers = foldl (\<lambda>d (k, v). dict_set (map lower_char k) v d) [] headers"

text \<open>\<open>_header_float\<close>: \<open>parse\<close> is \<open>float()\<close> of a header value, \<open>None\<close> where it raises.\<close>

fun header_float :: "('v \<Rightarrow> xf option) \<Rightarrow> (string, 'v) dict \<Rightarrow> string list \<Rightarrow> xf option" where
  "header_float parse d [] = None"
| "header_float parse d (n # ns) =
     (case dict_get d n of Some v \<Rightarrow> parse v | None \<Rightarrow> header_float parse d ns)"

definition ceiling_of :: "adaptive \<Rightarrow> string \<Rightarrow> rat" where
  "ceiling_of a source = (case dict_get (ad_ceilings a) source of Some c \<Rightarrow> c | None \<Rightarrow> ad_default a)"

definition effective_rate :: "adaptive \<Rightarrow> string \<Rightarrow> xf" where
  "effective_rate a source =
     (case dict_get (ad_rates a) source of Some r \<Rightarrow> r | None \<Rightarrow> Fin (ceiling_of a source))"

definition next_allowed :: "adaptive \<Rightarrow> string \<Rightarrow> xf" where
  "next_allowed a source = (case dict_get (ad_next_allowed a) source of Some t \<Rightarrow> t | None \<Rightarrow> Fin 0)"

definition pause_until :: "string \<Rightarrow> xf \<Rightarrow> adaptive \<Rightarrow> adaptive" where
  "pause_until source t a =
     a\<lparr>ad_next_allowed := dict_set source (x_max (next_allowed a source) t) (ad_next_allowed a)\<rparr>"

definition reset_window :: "adaptive \<Rightarrow> clock \<Rightarrow> xf option \<Rightarrow> xf" where
  "reset_window a now reset =
     (case reset of
        None \<Rightarrow> Fin 1
      | Some r \<Rightarrow>
          x_max (if x_lt (Fin (ad_epoch_threshold a)) r then x_sub r (Fin now) else r) (Fin (1/1000)))"

definition update_from_response ::
  "('v \<Rightarrow> xf option) \<Rightarrow> clock \<Rightarrow> string \<Rightarrow> int \<Rightarrow> (string \<times> 'v) list \<Rightarrow> adaptive \<Rightarrow> xf option \<times> adaptive"
where
  "update_from_response parse now source status headers a =
     (let d = lowered headers;
          a1 = (case header_float parse d [''retry-after''] of
                  Some r \<Rightarrow> if status \<in> {429, 503} then pause_until source (x_add (Fin now) r) a else a
                | None \<Rightarrow> a)
      in case header_float parse d [''x-ratelimit-remaining'', ''ratelimit-remaining''] of
           None \<Rightarrow> (Some (effective_rate a1 source), a1)
         | Some remaining \<Rightarrow>
             (let window = reset_window a1 now
                    (header_float parse d [''x-ratelimit-reset'', ''ratelimit-reset'']) in
                if x_le remaining (Fin 0)
                then
                  (let a2 = pause_until source (x_add (Fin now) window) a1;
                       rate = Fin (ceiling_of a source)
                   in (Some rate, a2\<lparr>ad_rates := dict_set source rate (ad_rates a2)\<rparr>))
                else
                  (case x_div remaining window of
                     None \<Rightarrow> (None, a1)
                   | Some q \<Rightarrow>
                       (let rate = x_min q (Fin (ceiling_of a source))
                        in (Some rate, a1\<lparr>ad_rates := dict_set source rate (ad_rates a1)\<rparr>)))))"

definition delay_for :: "clock \<Rightarrow> string \<Rightarrow> adaptive \<Rightarrow> xf" where
  "delay_for now source a = x_max (Fin 0) (x_sub (next_allowed a source) (Fin now))"

text \<open>
  \<open>acquire\<close>: \<open>t1\<close> is the clock in \<open>delay_for\<close> and \<open>t2\<close> the one after the sleep. The first component is
  the delay, or \<open>None\<close> for a \<open>ZeroDivisionError\<close>.
\<close>

definition adaptive_acquire :: "clock \<Rightarrow> clock \<Rightarrow> string \<Rightarrow> adaptive \<Rightarrow> xf option \<times> adaptive" where
  "adaptive_acquire t1 t2 source a =
     (case x_div (Fin 1) (effective_rate a source) of
        None \<Rightarrow> (None, a)
      | Some gap \<Rightarrow>
          (Some (delay_for t1 source a),
           a\<lparr>ad_next_allowed :=
               dict_set source (x_add (x_max (Fin t2) (next_allowed a source)) gap) (ad_next_allowed a)\<rparr>))"

subsection \<open>Pacing under finite headers\<close>

datatype 'v pacing_event = PacingResponse clock string int "(string \<times> 'v) list" | PacingAcquire clock clock string

fun pacing_step :: "('v \<Rightarrow> xf option) \<Rightarrow> adaptive \<Rightarrow> 'v pacing_event \<Rightarrow> adaptive" where
  "pacing_step parse a (PacingResponse now source status headers) =
     snd (update_from_response parse now source status headers a)"
| "pacing_step parse a (PacingAcquire t1 t2 source) = snd (adaptive_acquire t1 t2 source a)"

definition finite_headers :: "('v \<Rightarrow> xf option) \<Rightarrow> bool" where
  "finite_headers parse \<longleftrightarrow> (\<forall>v x. parse v = Some x \<longrightarrow> (\<exists>q. x = Fin q))"

definition rate_ok :: "adaptive \<Rightarrow> string \<Rightarrow> bool" where
  "rate_ok a source \<longleftrightarrow> (\<exists>q. effective_rate a source = Fin q \<and> 0 < q \<and> q \<le> ceiling_of a source)"

definition pacing_ok :: "adaptive \<Rightarrow> bool" where
  "pacing_ok a \<longleftrightarrow> (\<forall>source. 0 < ceiling_of a source \<and> rate_ok a source \<and> (\<exists>q. next_allowed a source = Fin q))"

lemma x_max_Fin [simp]: "x_max (Fin a) (Fin b) = Fin (max a b)"
  by (simp add: x_max_def)

lemma x_min_Fin [simp]: "x_min (Fin a) (Fin b) = Fin (min a b)"
  by (simp add: x_min_def)

lemma x_sub_Fin [simp]: "x_sub (Fin a) (Fin b) = Fin (a - b)"
  by (simp add: x_sub_def)

lemma x_le_Fin [simp]: "x_le (Fin a) (Fin b) \<longleftrightarrow> a \<le> b"
  by (auto simp: x_le_def)

lemma header_float_finite:
  "finite_headers parse \<Longrightarrow> header_float parse d ns = Some x \<Longrightarrow> \<exists>q. x = Fin q"
  by (induction parse d ns rule: header_float.induct) (auto simp: finite_headers_def split: option.splits)

lemma reset_window_finite:
  assumes "\<forall>x. reset = Some x \<longrightarrow> (\<exists>q. x = Fin q)"
  shows "\<exists>w. reset_window a now reset = Fin w \<and> 0 < w"
  using assms by (auto simp: reset_window_def split: option.split)

lemma next_allowed_pause [simp]:
  "next_allowed (pause_until source t a) s =
     (if s = source then x_max (next_allowed a source) t else next_allowed a s)"
  by (simp add: pause_until_def next_allowed_def)

lemma pause_until_fields [simp]:
  "ad_rates (pause_until source t a) = ad_rates a" "ad_ceilings (pause_until source t a) = ad_ceilings a"
  "ad_default (pause_until source t a) = ad_default a"
  by (simp_all add: pause_until_def)

lemma same_rates:
  assumes "ad_rates b = ad_rates a" "ad_ceilings b = ad_ceilings a" "ad_default b = ad_default a"
  shows "ceiling_of b s = ceiling_of a s" "effective_rate b s = effective_rate a s" "rate_ok b s = rate_ok a s"
proof -
  show c: "ceiling_of b s = ceiling_of a s" for s
    using assms by (simp add: ceiling_of_def split: option.split)
  then show "effective_rate b s = effective_rate a s"
    using assms by (simp add: effective_rate_def split: option.split)
  with c show "rate_ok b s = rate_ok a s" by (simp add: rate_ok_def)
qed

text \<open>What a response does to the pacing of one source: the pause only grows.\<close>

definition grows :: "adaptive \<Rightarrow> adaptive \<Rightarrow> bool" where
  "grows a b \<longleftrightarrow> (\<forall>s. \<exists>p q. next_allowed a s = Fin p \<and> next_allowed b s = Fin q \<and> p \<le> q)"

lemma pause_grows:
  assumes "pacing_ok a"
  shows "grows a (pause_until source (Fin t) a)" "pacing_ok (pause_until source (Fin t) a)"
proof -
  have "\<exists>p. next_allowed a s = Fin p" for s using assms by (simp add: pacing_ok_def)
  then show "grows a (pause_until source (Fin t) a)" by (fastforce simp: grows_def)
  show "pacing_ok (pause_until source (Fin t) a)"
    unfolding pacing_ok_def
  proof (intro allI conjI)
    fix s
    show "0 < ceiling_of (pause_until source (Fin t) a) s" "rate_ok (pause_until source (Fin t) a) s"
      using assms by (simp_all add: same_rates [of "pause_until source (Fin t) a" a] pacing_ok_def)
    obtain p where "next_allowed a s = Fin p" using assms by (auto simp: pacing_ok_def)
    then show "\<exists>q. next_allowed (pause_until source (Fin t) a) s = Fin q" by auto
  qed
qed

lemma grows_refl: "pacing_ok a \<Longrightarrow> grows a a"
  unfolding grows_def pacing_ok_def by (meson order_refl)

lemma grows_trans: "grows a b \<Longrightarrow> grows b c \<Longrightarrow> grows a c"
  unfolding grows_def by (metis order.trans xf.inject)

lemma set_rate_ok:
  assumes "pacing_ok a" and "0 < q" and "q \<le> ceiling_of a source"
  shows "pacing_ok (a\<lparr>ad_rates := dict_set source (Fin q) (ad_rates a)\<rparr>)"
    "grows a (a\<lparr>ad_rates := dict_set source (Fin q) (ad_rates a)\<rparr>)"
proof -
  let ?b = "a\<lparr>ad_rates := dict_set source (Fin q) (ad_rates a)\<rparr>"
  have c: "ceiling_of ?b s = ceiling_of a s" "next_allowed ?b s = next_allowed a s" for s
    by (simp_all add: ceiling_of_def next_allowed_def split: option.split)
  have "effective_rate ?b s = (if s = source then Fin q else effective_rate a s)" for s
    by (simp add: effective_rate_def c split: option.split)
  with assms c show "pacing_ok ?b" by (auto simp: pacing_ok_def rate_ok_def)
  show "grows a ?b" using grows_refl [OF assms(1)] by (simp add: grows_def c)
qed

definition after_retry ::
  "('v \<Rightarrow> xf option) \<Rightarrow> clock \<Rightarrow> string \<Rightarrow> int \<Rightarrow> (string \<times> 'v) list \<Rightarrow> adaptive \<Rightarrow> adaptive"
where
  "after_retry parse now source status headers a =
     (case header_float parse (lowered headers) [''retry-after''] of
        Some x \<Rightarrow> if status \<in> {429, 503} then pause_until source (x_add (Fin now) x) a else a
      | None \<Rightarrow> a)"

lemma update_after_retry:
  "update_from_response parse now source status headers a =
     (let d = lowered headers; a1 = after_retry parse now source status headers a in
        case header_float parse d [''x-ratelimit-remaining'', ''ratelimit-remaining''] of
          None \<Rightarrow> (Some (effective_rate a1 source), a1)
        | Some remaining \<Rightarrow>
            (let window = reset_window a1 now
                   (header_float parse d [''x-ratelimit-reset'', ''ratelimit-reset'']) in
               if x_le remaining (Fin 0)
               then
                 (let a2 = pause_until source (x_add (Fin now) window) a1;
                      rate = Fin (ceiling_of a source)
                  in (Some rate, a2\<lparr>ad_rates := dict_set source rate (ad_rates a2)\<rparr>))
               else
                 (case x_div remaining window of
                    None \<Rightarrow> (None, a1)
                  | Some q \<Rightarrow>
                      (let rate = x_min q (Fin (ceiling_of a source))
                       in (Some rate, a1\<lparr>ad_rates := dict_set source rate (ad_rates a1)\<rparr>)))))"
  by (simp only: update_from_response_def after_retry_def Let_def)

lemma response_ok:
  assumes fin: "finite_headers parse" and ok: "pacing_ok a"
    and b: "update_from_response parse now source status headers a = (r, b)"
  shows "pacing_ok b \<and> grows (after_retry parse now source status headers a) b \<and> grows a b \<and> r \<noteq> None"
proof -
  let ?d = "lowered headers"
  define a1 where "a1 = after_retry parse now source status headers a"
  have a1: "pacing_ok a1 \<and> grows a a1 \<and> ceiling_of a1 source = ceiling_of a source"
  proof (cases "header_float parse ?d [''retry-after'']")
    case (Some x)
    with header_float_finite [OF fin] obtain q where "x = Fin q" by blast
    have c: "ceiling_of (pause_until source (Fin t) a) source = ceiling_of a source" for t
      by (rule same_rates) simp_all
    from Some \<open>x = Fin q\<close> ok c pause_grows [OF ok] grows_refl [OF ok] show ?thesis
      by (auto simp: a1_def after_retry_def simp del: next_allowed_pause)
  qed (use ok grows_refl in \<open>simp add: a1_def after_retry_def\<close>)
  let ?rem = "header_float parse ?d [''x-ratelimit-remaining'', ''ratelimit-remaining'']"
  let ?reset = "header_float parse ?d [''x-ratelimit-reset'', ''ratelimit-reset'']"
  show ?thesis
  proof (cases ?rem)
    case None
    with b a1 grows_refl [of a1] show ?thesis
      by (simp add: update_after_retry Let_def a1_def [symmetric] del: header_float.simps) auto
  next
    case (Some x)
    with header_float_finite [OF fin] obtain rem where x: "x = Fin rem" by blast
    obtain w where w: "reset_window a1 now ?reset = Fin w" "0 < w"
      using reset_window_finite header_float_finite [OF fin] by blast
    have c: "0 < ceiling_of a source" using ok by (simp add: pacing_ok_def)
    show ?thesis
    proof (cases "rem \<le> 0")
      case True
      define a2 where "a2 = pause_until source (Fin (now + w)) a1"
      have "(r, b) = (Some (Fin (ceiling_of a source)),
          a2\<lparr>ad_rates := dict_set source (Fin (ceiling_of a source)) (ad_rates a2)\<rparr>)"
        using b by (simp add: update_after_retry Let_def Some x w True a2_def flip: a1_def del: header_float.simps)
      then have rb: "r = Some (Fin (ceiling_of a source))"
        "b = a2\<lparr>ad_rates := dict_set source (Fin (ceiling_of a source)) (ad_rates a2)\<rparr>" by simp_all
      have a2: "pacing_ok a2" "grows a1 a2" using pause_grows a1 by (simp_all add: a2_def)
      have "ceiling_of a2 source = ceiling_of a source" using a1 same_rates(1) [of a2 a1] by (simp add: a2_def)
      from set_rate_ok [OF a2(1) c] this have "pacing_ok b" "grows a2 b" by (simp_all add: rb(2))
      with rb(1) a1 a2(2) show ?thesis unfolding a1_def [symmetric] by (blast intro: grows_trans)
    next
      case False
      let ?q = "min (rem / w) (ceiling_of a source)"
      have "(r, b) = (Some (Fin ?q), a1\<lparr>ad_rates := dict_set source (Fin ?q) (ad_rates a1)\<rparr>)"
        using b w(2) by (simp add: update_after_retry Let_def Some x w(1) False flip: a1_def del: header_float.simps)
      then have rb: "r = Some (Fin ?q)" "b = a1\<lparr>ad_rates := dict_set source (Fin ?q) (ad_rates a1)\<rparr>" by simp_all
      have "0 < ?q" using False w c by simp
      with a1 have "pacing_ok b" "grows a1 b" using set_rate_ok [of a1 ?q source] by (simp_all add: rb(2))
      with rb(1) a1 show ?thesis unfolding a1_def [symmetric] by (blast intro: grows_trans)
    qed
  qed
qed

lemma acquire_ok:
  assumes ok: "pacing_ok a" and b: "adaptive_acquire t1 t2 source a = (r, b)"
  shows "pacing_ok b \<and> grows a b \<and> r = Some (delay_for t1 source a) \<and>
    (\<exists>q n. effective_rate a source = Fin q \<and> next_allowed b source = Fin n \<and> t2 + 1 / q \<le> n)"
proof -
  obtain q where q: "effective_rate a source = Fin q" "0 < q"
    using ok by (auto simp: pacing_ok_def rate_ok_def)
  obtain p where p: "next_allowed a source = Fin p" using ok by (auto simp: pacing_ok_def)
  have b': "b = a\<lparr>ad_next_allowed := dict_set source (Fin (max t2 p + 1 / q)) (ad_next_allowed a)\<rparr>"
    "r = Some (delay_for t1 source a)"
    using b q p by (simp_all add: adaptive_acquire_def)
  have n: "next_allowed b s = (if s = source then Fin (max t2 p + 1 / q) else next_allowed a s)" for s
    by (simp add: b' next_allowed_def)
  have e: "ceiling_of b s = ceiling_of a s" "rate_ok b s = rate_ok a s" for s
    using same_rates [of b a] by (simp_all add: b')
  have "0 < 1 / q" using q by simp
  then have "p \<le> max t2 p + 1 / q" "t2 + 1 / q \<le> max t2 p + 1 / q" by linarith+
  moreover have "\<exists>p. next_allowed a s = Fin p" for s using ok by (simp add: pacing_ok_def)
  ultimately have "grows a b" unfolding grows_def n by (metis order.refl p)
  moreover have "pacing_ok b" using ok by (auto simp: pacing_ok_def e n)
  ultimately show ?thesis using b'(2) q n \<open>t2 + 1 / q \<le> max t2 p + 1 / q\<close> by auto
qed

lemma pacing_step_ok:
  assumes "finite_headers parse" and "pacing_ok a"
  shows "pacing_ok (pacing_step parse a e) \<and> grows a (pacing_step parse a e)"
proof (cases e)
  case (PacingResponse now source status headers)
  then show ?thesis using response_ok [OF assms] by (metis pacing_step.simps(1) prod.collapse)
next
  case (PacingAcquire t1 t2 source)
  then show ?thesis using acquire_ok [OF assms(2)] by (metis pacing_step.simps(2) prod.collapse)
qed

interpretation pacing: preserved "pacing_step parse"
  "\<lambda>b. finite_headers parse \<and> pacing_ok b \<and> grows a b" for parse a
  by unfold_locales (metis pacing_step_ok grows_trans)

text \<open>
  After any history of responses with finite headers and of acquires, the effective rate of every
  source is positive and at most its ceiling.
\<close>

theorem rate_within_ceiling:
  assumes "finite_headers parse" and "pacing_ok a"
  shows "rate_ok (foldl (pacing_step parse) a es) source"
  using pacing.run_inv [of parse a a es] assms grows_refl by (simp add: pacing_ok_def)

lemma later_acquire:
  assumes "finite_headers parse" and "pacing_ok a" and "next_allowed a source = Fin p"
    and "adaptive_acquire t1 t2 source (foldl (pacing_step parse) a es) = (Some (Fin delay), b)"
    and "t1 + delay \<le> t2"
  shows "p \<le> t2"
proof -
  let ?c = "foldl (pacing_step parse) a es"
  have c: "pacing_ok ?c" "grows a ?c" using pacing.run_inv [of parse a a es] assms(1,2) grows_refl by simp_all
  then obtain q where q: "next_allowed ?c source = Fin q" "p \<le> q"
    using assms(3) by (auto simp: grows_def) (metis xf.inject)
  have "delay_for t1 source ?c = Fin delay" using acquire_ok [OF c(1) assms(4)] by simp
  then have "q - t1 \<le> delay" using q(1) by (simp add: delay_for_def)
  with q(2) assms(5) show ?thesis by simp
qed

text \<open>
  Two acquires of one source are at least one interval of the effective rate apart, whatever
  happens in between, if the sleep lasts as long as it was asked to.
\<close>

theorem acquires_are_spaced:
  assumes "finite_headers parse" and "pacing_ok a" and "effective_rate a source = Fin q"
    and "adaptive_acquire s1 s2 source a = (r, b)"
    and "adaptive_acquire t1 t2 source (foldl (pacing_step parse) b es) = (Some (Fin delay), c)"
    and "t1 + delay \<le> t2"
  shows "s2 + 1 / q \<le> t2"
proof -
  from acquire_ok [OF assms(2,4)] assms(3) obtain n
    where "pacing_ok b" "next_allowed b source = Fin n" "s2 + 1 / q \<le> n" by auto
  with later_acquire [OF assms(1) _ _ assms(5,6)] show ?thesis by force
qed

text \<open>
  After a 429 or 503 with \<open>Retry-After: r\<close> no call to the source is let through before \<open>r\<close>
  seconds have passed, whatever responses and acquires come in between.
\<close>

theorem retry_after_respected:
  assumes "finite_headers parse" and "pacing_ok a" and "status \<in> {429, 503}"
    and "header_float parse (lowered headers) [''retry-after''] = Some (Fin r)"
    and "adaptive_acquire t1 t2 source (foldl (pacing_step parse) (snd (update_from_response parse now source status headers a)) es)
      = (Some (Fin delay), c)"
    and "t1 + delay \<le> t2"
  shows "now + r \<le> t2"
proof -
  let ?a1 = "after_retry parse now source status headers a"
  obtain x b where b: "update_from_response parse now source status headers a = (x, b)" by fastforce
  from response_ok [OF assms(1,2) b] have ok: "pacing_ok b" "grows ?a1 b" by simp_all
  have "?a1 = pause_until source (Fin (now + r)) a" using assms(3,4) by (simp add: after_retry_def)
  moreover obtain p where "next_allowed a source = Fin p" using assms(2) by (auto simp: pacing_ok_def)
  ultimately have "next_allowed ?a1 source = Fin (max p (now + r))" by simp
  with ok(2) obtain n where n: "next_allowed b source = Fin n" "max p (now + r) \<le> n"
    unfolding grows_def by (metis xf.inject)
  have "n \<le> t2" using later_acquire [OF assms(1) ok(1) n(1) _ assms(6)] assms(5) by (simp add: b)
  with n(2) show ?thesis by simp
qed

subsection \<open>Headers that are not finite\<close>

lemma lower_names:
  "map lower_char ''Retry-After'' = ''retry-after''"
  "map lower_char ''X-RateLimit-Remaining'' = ''x-ratelimit-remaining''"
  "map lower_char ''X-RateLimit-Reset'' = ''x-ratelimit-reset''"
  by code_simp+

lemma lowered_headers:
  "lowered [(''X-RateLimit-Remaining'', v)] = [(''x-ratelimit-remaining'', v)]"
  "lowered [(''Retry-After'', v)] = [(''retry-after'', v)]"
  "lowered [(''X-RateLimit-Remaining'', v), (''X-RateLimit-Reset'', w)] =
    [(''x-ratelimit-remaining'', v), (''x-ratelimit-reset'', w)]"
  by (simp_all only: lowered_def foldl.simps lower_names case_prod_conv update.simps) simp

text \<open>
  A response whose remaining count is \<open>nan\<close> lifts the pacing: the rate becomes \<open>nan\<close>, and after one
  more acquire a \<open>Retry-After\<close> no longer delays the next call.
\<close>

theorem nan_header_lifts_pause:
  assumes "parse ''nan'' = Some NaN" and "parse ''60'' = Some (Fin 60)" and "pacing_ok a"
  shows "let a1 = snd (update_from_response parse t source 200 [(''X-RateLimit-Remaining'', ''nan'')] a);
             a2 = snd (adaptive_acquire t t source a1);
             a3 = snd (update_from_response parse t source 429 [(''Retry-After'', ''60'')] a2)
    in \<not> rate_ok a1 source \<and> delay_for t source a3 = Fin 0"
proof -
  note l = lowered_headers
  obtain p where p: "next_allowed a source = Fin p" using assms(3) by (auto simp: pacing_ok_def)
  define a1 where "a1 = snd (update_from_response parse t source 200 [(''X-RateLimit-Remaining'', ''nan'')] a)"
  define a2 where "a2 = snd (adaptive_acquire t t source a1)"
  define a3 where "a3 = snd (update_from_response parse t source 429 [(''Retry-After'', ''60'')] a2)"
  have a1: "effective_rate a1 source = NaN" "next_allowed a1 source = Fin p"
    by (simp_all add: a1_def update_from_response_def l assms(1) Let_def reset_window_def x_le_def x_min_def
        effective_rate_def next_allowed_def p [unfolded next_allowed_def])
  have a2: "next_allowed a2 source = NaN"
    by (simp add: a2_def adaptive_acquire_def a1) (simp add: next_allowed_def)
  have "next_allowed a3 source = NaN"
    by (simp add: a3_def update_from_response_def l assms(2) Let_def a2 x_max_def)
  then have "delay_for t source a3 = Fin 0" by (simp add: delay_for_def x_sub_def x_max_def)
  moreover have "\<not> rate_ok a1 source" using a1 by (simp add: rate_ok_def)
  ultimately show ?thesis by (simp add: Let_def flip: a1_def a2_def a3_def)
qed

text \<open>A reset of \<open>inf\<close> makes the rate zero, and every acquire raises.\<close>

lemma inf_reset_blocks:
  assumes "parse ''inf'' = Some PInf" and "parse ''5'' = Some (Fin 5)" and "0 < ceiling_of a source"
  shows "let a1 = snd (update_from_response parse t source 200
              [(''X-RateLimit-Remaining'', ''5''), (''X-RateLimit-Reset'', ''inf'')] a)
    in effective_rate a1 source = Fin 0 \<and> fst (adaptive_acquire t1 t2 source a1) = None"
proof -
  note l = lowered_headers
  define a1 where "a1 = snd (update_from_response parse t source 200
      [(''X-RateLimit-Remaining'', ''5''), (''X-RateLimit-Reset'', ''inf'')] a)"
  have "effective_rate a1 source = Fin 0"
    using assms(3)
    by (simp add: a1_def update_from_response_def l assms(1,2) Let_def reset_window_def x_sub_def x_max_def
        effective_rate_def)
  then show ?thesis by (simp add: adaptive_acquire_def flip: a1_def)
qed

subsection \<open>Witnesses\<close>

definition demo_limiter :: limiter where
  "demo_limiter = \<lparr>lim_capacity = 2, lim_rate = 1, lim_connected = True, lim_warned = False\<rparr>"

definition demo_events :: "bucket_event list" where
  "demo_events = [BucketWatch 0, BucketWatch 1, BucketRead 0, BucketRead 1, BucketClock 0, BucketTick 1,
     BucketClock 1, BucketExec 0, BucketExec 1, BucketTick 60, BucketExpire]"

lemma shared_budget_witness:
  "sb_granted (foldl (bucket_step demo_limiter) (bucket_init 5) demo_events) \<le> 63 \<and>
   sb_granted (foldl (bucket_step demo_limiter) (bucket_init 5) demo_events) = 1"
  using shared_budget [of demo_limiter demo_events _ 5, OF _ _ refl]
  by (simp add: demo_limiter_def demo_events_def limiter_ok_def bucket_init_def bucket_take_def)

lemma skewed_clocks_overgrant_witness: "skewed_rounds demo_limiter 0 2 1000 None = 2000"
  using skewed_clocks_overgrant [of demo_limiter 2 0 1000] by (simp add: demo_limiter_def)

definition demo_parse :: "string \<Rightarrow> xf option" where
  "demo_parse v = (if v = ''60'' then Some (Fin 60) else if v = ''5'' then Some (Fin 5) else None)"

definition demo_adaptive :: adaptive where
  "demo_adaptive = \<lparr>ad_ceilings = [(''h'', 10)], ad_default = 5, ad_epoch_threshold = 1000000000,
     ad_rates = [], ad_next_allowed = []\<rparr>"

lemma demo_adaptive_ok: "pacing_ok demo_adaptive" "finite_headers demo_parse"
  by (auto simp: pacing_ok_def rate_ok_def effective_rate_def ceiling_of_def next_allowed_def
      demo_adaptive_def finite_headers_def demo_parse_def split: if_splits)

lemma rate_within_ceiling_witness:
  "rate_ok (foldl (pacing_step demo_parse) demo_adaptive
     [PacingResponse 0 ''h'' 200 [(''X-RateLimit-Remaining'', ''5'')], PacingAcquire 0 1 ''h'']) ''h''"
  by (rule rate_within_ceiling [OF demo_adaptive_ok(2,1)])

lemma acquires_are_spaced_witness:
  "100 + 1 / 10 \<le> (1001 / 10 :: rat) \<and> effective_rate demo_adaptive ''h'' = Fin 10"
proof -
  have e: "effective_rate demo_adaptive ''h'' = Fin 10"
    by (simp add: effective_rate_def ceiling_of_def demo_adaptive_def)
  obtain r b where b: "adaptive_acquire 100 100 ''h'' demo_adaptive = (r, b)" by fastforce
  then have b': "b = demo_adaptive\<lparr>ad_next_allowed := [(''h'', Fin (1001/10))]\<rparr>"
    by (simp add: adaptive_acquire_def e) (simp add: next_allowed_def demo_adaptive_def)
  have "adaptive_acquire 100 (1001 / 10) ''h'' (foldl (pacing_step demo_parse) b []) =
      (Some (Fin (1 / 10)), snd (adaptive_acquire 100 (1001 / 10) ''h'' b))"
    by (simp add: b' adaptive_acquire_def delay_for_def next_allowed_def effective_rate_def ceiling_of_def
        demo_adaptive_def)
  from acquires_are_spaced [OF demo_adaptive_ok(2,1) e b this] e show ?thesis by simp
qed

lemma retry_after_respected_witness:
  "\<exists>c. adaptive_acquire 100 160 ''h'' (snd (update_from_response demo_parse 100 ''h'' 429
      [(''Retry-After'', ''60'')] demo_adaptive)) = (Some (Fin 60), c) \<and> (100 + 60 :: rat) \<le> 160"
proof -
  have l: "header_float demo_parse (lowered [(''Retry-After'', ''60'')]) [''retry-after''] = Some (Fin 60)"
    by (simp add: lowered_headers demo_parse_def)
  define b where "b = snd (update_from_response demo_parse 100 ''h'' 429 [(''Retry-After'', ''60'')] demo_adaptive)"
  have "b = demo_adaptive\<lparr>ad_next_allowed := [(''h'', Fin 160)]\<rparr>"
    unfolding b_def update_from_response_def
    by (simp add: lowered_headers demo_parse_def Let_def pause_until_def next_allowed_def demo_adaptive_def x_max_def)
  then have "adaptive_acquire 100 160 ''h'' b = (Some (Fin 60), snd (adaptive_acquire 100 160 ''h'' b))"
    by (simp add: adaptive_acquire_def delay_for_def next_allowed_def effective_rate_def ceiling_of_def
        demo_adaptive_def)
  moreover from retry_after_respected [OF demo_adaptive_ok(2,1) _ l, of 429 100 160 "''h''" 100 "[]" 60] this
  have "(100 + 60 :: rat) \<le> 160" by (simp flip: b_def)
  ultimately show ?thesis unfolding b_def by blast
qed

definition odd_parse :: "string \<Rightarrow> xf option" where
  "odd_parse v = (if v = ''nan'' then Some NaN else if v = ''60'' then Some (Fin 60) else None)"

lemma nan_header_lifts_pause_witness:
  "\<not> rate_ok (snd (update_from_response odd_parse 7 ''h'' 200 [(''X-RateLimit-Remaining'', ''nan'')] demo_adaptive)) ''h''"
  using nan_header_lifts_pause [of odd_parse demo_adaptive 7 "''h''"] demo_adaptive_ok(1)
  by (simp add: odd_parse_def Let_def)

end
