(* ===== verification/WsAuth.thy ===== *)
theory WsAuth
  imports Json
begin

text \<open>
  Authentication and channel permissions of WebSocket clients (\<open>streaming/ws_auth.py\<close>).

  \<open>jwt.decode\<close> is the parameter \<open>decode\<close>: the claims of a token whose signature, issuer and expiry it
  accepts, or the exception it raises. Claims are JSON objects.
\<close>

datatype jwt_failure = JWTClaimsError | JWTError | OtherException

type_synonym claims = "(string, json) dict"

subsection \<open>Scopes\<close>

definition is_space :: "char \<Rightarrow> bool" where
  "is_space ch \<longleftrightarrow> (of_char ch :: nat) \<in> {9, 10, 11, 12, 13, 28, 29, 30, 31, 32}"

text \<open>\<open>str.split()\<close>: the maximal runs of characters that are not white space.\<close>

function py_split :: "string \<Rightarrow> string list" where
  "py_split s =
     (let t = dropWhile is_space s in
        if t = [] then []
        else takeWhile (\<lambda>ch. \<not> is_space ch) t # py_split (dropWhile (\<lambda>ch. \<not> is_space ch) t))"
  by pat_completeness auto

termination py_split
proof (relation "measure length")
  fix s t
  assume t: "t = dropWhile is_space s" "t \<noteq> []"
  then have "\<not> is_space (hd t)" by (metis dropWhile_eq_Nil_conv hd_dropWhile)
  with t(2) have "length (dropWhile (\<lambda>ch. \<not> is_space ch) t) < length t"
    by (cases t) (auto simp: le_imp_less_Suc length_dropWhile_le)
  also have "length t \<le> length s" using t(1) length_dropWhile_le by simp
  finally show "(dropWhile (\<lambda>ch. \<not> is_space ch) t, s) \<in> measure length" by simp
qed simp

declare py_split.simps [simp del]

definition starts_with :: "string \<Rightarrow> string \<Rightarrow> bool" where
  "starts_with p s \<longleftrightarrow> take (length p) s = p"

lemma starts_with_append [simp]: "starts_with p (p @ s)"
  by (simp add: starts_with_def)

lemma starts_with_iff: "starts_with p s \<longleftrightarrow> (\<exists>t. s = p @ t)"
  by (metis append_take_drop_id starts_with_append starts_with_def)

text \<open>
  The scope of the claims: a missing or falsy one is the empty text; one that is no text makes
  \<open>.split\<close> raise, which is \<open>None\<close>.
\<close>

definition scope_of :: "claims \<Rightarrow> string option" where
  "scope_of c =
     (case dict_get c ''scope'' of
        None \<Rightarrow> Some []
      | Some (JStr s) \<Rightarrow> Some s
      | Some j \<Rightarrow> if j \<in> {JNull, JBool False, JNum 0, JList [], JObj []} then Some [] else None)"

definition has_scores_read_scope :: "string \<Rightarrow> bool" where
  "has_scores_read_scope scope \<longleftrightarrow> list_ex (starts_with ''scores:read'') (py_split scope)"

subsection \<open>Tokens\<close>

definition verify_token :: "(string \<Rightarrow> jwt_failure + claims) \<Rightarrow> string \<Rightarrow> claims option" where
  "verify_token decode token =
     (if token = [] then None
      else
        (case decode token of
           Inl e \<Rightarrow> None
         | Inr c \<Rightarrow>
             if dict_get c ''sub'' = None then None
             else
               (case scope_of c of
                  None \<Rightarrow> None
                | Some scope \<Rightarrow> if has_scores_read_scope scope then Some c else None)))"

definition verify_refresh ::
  "(string \<Rightarrow> jwt_failure + claims) \<Rightarrow> string \<Rightarrow> string \<Rightarrow> rat option \<Rightarrow> clock \<Rightarrow> claims option"
where
  "verify_refresh decode token current_sub current_exp now =
     (if (case current_exp of None \<Rightarrow> False | Some t \<Rightarrow> t \<le> now) then None
      else
        (case verify_token decode token of
           None \<Rightarrow> None
         | Some c \<Rightarrow> if dict_get c ''sub'' \<noteq> Some (JStr current_sub) then None else Some c))"

text \<open>
  \<open>token_expiry\<close>: \<open>None\<close> is infinity. The library has checked that \<open>exp\<close>, if present, is an integer.
\<close>

definition token_expiry :: "claims \<Rightarrow> rat option" where
  "token_expiry c = (case dict_get c ''exp'' of Some (JNum q) \<Rightarrow> Some q | _ \<Rightarrow> None)"

definition add_permission :: "string \<Rightarrow> string list \<Rightarrow> string list" where
  "add_permission s permissions =
     (if s = ''scores:read'' then List.insert ''scores:read:all'' permissions
      else if starts_with ''scores:read:'' s then List.insert s permissions
      else permissions)"

definition extract_permissions :: "claims \<Rightarrow> string list" where
  "extract_permissions c =
     (case scope_of c of
        None \<Rightarrow> []
      | Some scope \<Rightarrow> if scope = [] then [] else fold add_permission (py_split scope) [])"

definition is_permitted_channel :: "string list \<Rightarrow> string \<Rightarrow> bool" where
  "is_permitted_channel permissions channel \<longleftrightarrow>
     (if permissions = [] then False
      else if channel = ''all'' then ''scores:read:all'' \<in> set permissions
      else list_ex (\<lambda>p. p = ''scores:read:all'' \<or>
             (starts_with ''scores:read:'' p \<and> drop 12 p = channel)) permissions)"

subsection \<open>What a token permits\<close>

lemma fold_permissions:
  "set (fold add_permission ss ps) =
     set ps \<union> (if ''scores:read'' \<in> set ss then {''scores:read:all''} else {}) \<union>
     {s \<in> set ss. s \<noteq> ''scores:read'' \<and> starts_with ''scores:read:'' s}"
  by (induction ss arbitrary: ps) (auto simp: add_permission_def)

lemma py_split_Nil [simp]: "py_split [] = []"
  by (simp add: py_split.simps)

lemma permissions_set:
  assumes "scope_of c = Some scope"
  shows "set (extract_permissions c) =
    (if ''scores:read'' \<in> set (py_split scope) then {''scores:read:all''} else {}) \<union>
    {s \<in> set (py_split scope). starts_with ''scores:read:'' s}"
proof -
  have "\<not> starts_with ''scores:read:'' ''scores:read''" by (simp add: starts_with_def)
  then show ?thesis using assms by (auto simp: extract_permissions_def fold_permissions)
qed

lemma scoped_channel: "starts_with ''scores:read:'' p \<and> drop 12 p = channel \<longleftrightarrow> p = ''scores:read:'' @ channel"
  by (auto simp: starts_with_iff)

text \<open>
  A token permits a channel exactly when its scope lists \<open>scores:read\<close>, \<open>scores:read:all\<close> or
  \<open>scores:read:\<close> followed by that channel.
\<close>

theorem permitted_exact:
  assumes "scope_of c = Some scope"
  shows "is_permitted_channel (extract_permissions c) channel \<longleftrightarrow>
    (\<exists>s. s \<in> set (py_split scope) \<and>
      (s = ''scores:read'' \<or> s = ''scores:read:all'' \<or> s = ''scores:read:'' @ channel))"
proof -
  define P where "P = set (extract_permissions c)"
  have P: "p \<in> P \<longleftrightarrow> (p = ''scores:read:all'' \<and> ''scores:read'' \<in> set (py_split scope)) \<or>
      (p \<in> set (py_split scope) \<and> starts_with ''scores:read:'' p)" for p
    unfolding P_def permissions_set [OF assms] by auto
  have "is_permitted_channel (extract_permissions c) channel \<longleftrightarrow>
      ''scores:read:all'' \<in> P \<or> ''scores:read:'' @ channel \<in> P"
  proof (cases "extract_permissions c = []")
    case True
    then show ?thesis by (simp add: is_permitted_channel_def P_def)
  next
    case False
    then show ?thesis
      by (auto simp: is_permitted_channel_def list_ex_iff scoped_channel P_def)
  qed
  moreover have "starts_with ''scores:read:'' ''scores:read:all''"
    "starts_with ''scores:read:'' (''scores:read:'' @ channel)" by (simp_all add: starts_with_def)
  moreover have "''scores:read:'' @ channel = ''scores:read:all'' \<longleftrightarrow> channel = ''all''"
    by auto
  ultimately show ?thesis unfolding P by blast
qed

text \<open>
  A refresh is accepted only before the session's token expires, with a token that verifies and
  names the session's own subject.
\<close>

theorem refresh_keeps_subject:
  assumes "verify_refresh decode token sub current_exp now = Some c"
  shows "verify_token decode token = Some c \<and> dict_get c ''sub'' = Some (JStr sub) \<and>
    (\<forall>t. current_exp \<noteq> Some t \<or> now < t)"
  using assms by (auto simp: verify_refresh_def split: if_splits option.splits)

text \<open>
  A scope such as \<open>scores:readonly\<close> verifies, although it permits no channel; and a token without an
  expiry verifies and never expires.
\<close>

lemma readonly_verifies:
  assumes "decode token = Inr [(''sub'', JStr ''x''), (''scope'', JStr ''scores:readonly'')]" and "token \<noteq> []"
  shows "verify_token decode token = Some [(''sub'', JStr ''x''), (''scope'', JStr ''scores:readonly'')] \<and>
    extract_permissions [(''sub'', JStr ''x''), (''scope'', JStr ''scores:readonly'')] = [] \<and>
    token_expiry [(''sub'', JStr ''x''), (''scope'', JStr ''scores:readonly'')] = None"
proof -
  have "has_scores_read_scope ''scores:readonly''" by code_simp
  moreover have "extract_permissions [(''sub'', JStr ''x''), (''scope'', JStr ''scores:readonly'')] = []" by code_simp
  ultimately show ?thesis using assms by (simp add: verify_token_def scope_of_def token_expiry_def)
qed

subsection \<open>Witnesses\<close>

definition demo_claims :: claims where
  "demo_claims = [(''sub'', JStr ''client''), (''exp'', JNum 100), (''scope'', JStr ''other scores:read:wallet/G'')]"

lemma permitted_exact_witness:
  "is_permitted_channel (extract_permissions demo_claims) ''wallet/G'' \<and>
   \<not> is_permitted_channel (extract_permissions demo_claims) ''all''"
proof -
  have scope: "scope_of demo_claims = Some ''other scores:read:wallet/G''" by (simp add: scope_of_def demo_claims_def)
  have split: "py_split ''other scores:read:wallet/G'' = [''other'', ''scores:read:wallet/G'']" by code_simp
  have "is_permitted_channel (extract_permissions demo_claims) ''wallet/G''"
    unfolding permitted_exact [OF scope] split by (rule exI [of _ "''scores:read:wallet/G''"]) simp
  moreover have "\<not> is_permitted_channel (extract_permissions demo_claims) ''all''"
    unfolding permitted_exact [OF scope] split by (simp add: conj_disj_distribR ex_disj_distrib)
  ultimately show ?thesis by blast
qed

lemma refresh_keeps_subject_witness:
  "\<exists>c. verify_refresh (\<lambda>_. Inr demo_claims) ''t'' ''client'' (Some 50) 40 = Some c \<and>
    dict_get c ''sub'' = Some (JStr ''client'')"
proof -
  have "verify_refresh (\<lambda>_. Inr demo_claims) ''t'' ''client'' (Some 50) 40 = Some demo_claims" by code_simp
  from refresh_keeps_subject [OF this] this show ?thesis by blast
qed

end
