(* ===== verification/WsAbuse.thy ===== *)
theory WsAbuse
  imports Base "HOL-Library.Multiset"
begin

text \<open>
  Abuse detection of WebSocket clients (\<open>streaming/ws_abuse_detector.py\<close>): the sliding window of
  requests, the window of distinct wallets, blocking, and reputations that decay.

  \<open>math.pow(0.5, x)\<close> is the parameter \<open>half_pow\<close>; readings of \<open>time.monotonic()\<close> are rationals.
\<close>

subsection \<open>State\<close>

record abuse_verdict =
  av_blocked :: bool
  av_reason :: string
  av_retry_after :: int

record client_state =
  cs_request_times :: "clock list"
  cs_window_start :: clock
  cs_wallets :: "string list"
  cs_blocked_until :: clock

record reputation =
  rp_score :: rat
  rp_updated_at :: clock

record abuse_config =
  ab_max_rpm :: int
  ab_max_wallets :: int
  ab_wallet_window :: int
  ab_block_duration :: int
  ab_max_mult :: rat
  ab_new_mult :: rat
  ab_half_life :: rat
  ab_gain :: rat

record detector =
  dt_states :: "(string, client_state) dict"
  dt_reputations :: "(string, reputation) dict"

text \<open>\<open>x or default\<close>: zero counts as missing.\<close>

definition or_default :: "'a::zero option \<Rightarrow> 'a \<Rightarrow> 'a" where
  "or_default x d = (case x of None \<Rightarrow> d | Some v \<Rightarrow> if v = 0 then d else v)"

definition make_config ::
  "abuse_config \<Rightarrow> int option \<Rightarrow> int option \<Rightarrow> int option \<Rightarrow> int option \<Rightarrow> rat option \<Rightarrow> rat option \<Rightarrow>
   rat option \<Rightarrow> rat \<Rightarrow> abuse_config"
where
  "make_config c rpm wallets window block max_mult new_mult half_life gain =
     \<lparr>ab_max_rpm = or_default rpm (ab_max_rpm c), ab_max_wallets = or_default wallets (ab_max_wallets c),
      ab_wallet_window = or_default window (ab_wallet_window c),
      ab_block_duration = or_default block (ab_block_duration c),
      ab_max_mult = or_default max_mult (ab_max_mult c), ab_new_mult = or_default new_mult (ab_new_mult c),
      ab_half_life = or_default half_life (ab_half_life c), ab_gain = gain\<rparr>"

text \<open>
  The group of \<open>_WALLET_RE\<close>: the text after \<open>wallet/\<close>, which is \<open>G\<close> and 55 characters of base 32; the
  \<open>$\<close> of the pattern also matches before a final line feed.
\<close>

definition base32_char :: "char \<Rightarrow> bool" where
  "base32_char ch \<longleftrightarrow> (let n = of_char ch :: nat in (65 \<le> n \<and> n \<le> 90) \<or> (50 \<le> n \<and> n \<le> 55))"

definition is_wallet :: "string \<Rightarrow> bool" where
  "is_wallet w \<longleftrightarrow> length w = 56 \<and> hd w = CHR ''G'' \<and> list_all base32_char (tl w)"

definition match_wallet :: "string \<Rightarrow> string option" where
  "match_wallet channel =
     (let w = take 56 (drop 7 channel); rest = drop 63 channel in
        if take 7 channel = ''wallet/'' \<and> is_wallet w \<and> (rest = [] \<or> rest = [CHR 0x0A]) then Some w else None)"

subsection \<open>Operations\<close>

definition decayed ::
  "(rat \<Rightarrow> rat) \<Rightarrow> abuse_config \<Rightarrow> string \<Rightarrow> clock \<Rightarrow> detector \<Rightarrow> rat \<times> detector"
where
  "decayed half_pow cfg client now d =
     (case dict_get (dt_reputations d) client of
        None \<Rightarrow>
          (0, d\<lparr>dt_reputations := dict_set client \<lparr>rp_score = 0, rp_updated_at = now\<rparr> (dt_reputations d)\<rparr>)
      | Some rep \<Rightarrow>
          (let elapsed = now - rp_updated_at rep;
               score = (if 0 < elapsed \<and> 0 < ab_half_life cfg
                        then rp_score rep * half_pow (elapsed / ab_half_life cfg) else rp_score rep)
           in (score,
               d\<lparr>dt_reputations := dict_set client \<lparr>rp_score = score, rp_updated_at = now\<rparr> (dt_reputations d)\<rparr>)))"

text \<open>\<open>int()\<close> of a float truncates towards zero.\<close>

definition py_trunc :: "rat \<Rightarrow> int" where
  "py_trunc q = (if 0 \<le> q then \<lfloor>q\<rfloor> else \<lceil>q\<rceil>)"

definition limit_for :: "abuse_config \<Rightarrow> rat \<Rightarrow> int" where
  "limit_for cfg score =
     (let mult = (if 0 \<le> score then ab_new_mult cfg + (ab_max_mult cfg - ab_new_mult cfg) * score
                  else ab_new_mult cfg * (1 + 1/2 * score))
      in max 1 (py_trunc (of_int (ab_max_rpm cfg) * mult)))"

definition set_score :: "string \<Rightarrow> rat \<Rightarrow> detector \<Rightarrow> detector" where
  "set_score client score d =
     (case dict_get (dt_reputations d) client of
        None \<Rightarrow> d
      | Some rep \<Rightarrow> d\<lparr>dt_reputations := dict_set client (rep\<lparr>rp_score := score\<rparr>) (dt_reputations d)\<rparr>)"

definition set_state :: "string \<Rightarrow> client_state \<Rightarrow> detector \<Rightarrow> detector" where
  "set_state client st d = d\<lparr>dt_states := dict_set client st (dt_states d)\<rparr>"

definition state_of :: "clock \<Rightarrow> string \<Rightarrow> detector \<Rightarrow> client_state" where
  "state_of fresh client d =
     (case dict_get (dt_states d) client of
        Some st \<Rightarrow> st
      | None \<Rightarrow> \<lparr>cs_request_times = [], cs_window_start = fresh, cs_wallets = [], cs_blocked_until = 0\<rparr>)"

definition blocked_verdict :: "string \<Rightarrow> int \<Rightarrow> abuse_verdict" where
  "blocked_verdict reason retry = \<lparr>av_blocked = True, av_reason = reason, av_retry_after = retry\<rparr>"

definition trip ::
  "abuse_config \<Rightarrow> clock \<Rightarrow> string \<Rightarrow> string \<Rightarrow> client_state \<Rightarrow> detector \<Rightarrow> abuse_verdict \<times> detector"
where
  "trip cfg now client reason st d =
     (blocked_verdict reason (ab_block_duration cfg),
      set_score client (- 1)
        (set_state client (st\<lparr>cs_blocked_until := now + of_int (ab_block_duration cfg)\<rparr>) d))"

definition note_wallet :: "abuse_config \<Rightarrow> clock \<Rightarrow> string \<Rightarrow> client_state \<Rightarrow> client_state" where
  "note_wallet cfg now channel st =
     (case match_wallet channel of
        None \<Rightarrow> st
      | Some w \<Rightarrow>
          (let st' = (if of_int (ab_wallet_window cfg) < now - cs_window_start st
                      then st\<lparr>cs_window_start := now, cs_wallets := []\<rparr> else st)
           in st'\<lparr>cs_wallets := List.insert w (cs_wallets st')\<rparr>))"

text \<open>
  \<open>record\<close>: \<open>fresh\<close> is the reading with which \<open>defaultdict\<close> creates the state of a new client.
\<close>

definition record_request ::
  "(rat \<Rightarrow> rat) \<Rightarrow> abuse_config \<Rightarrow> clock \<Rightarrow> clock \<Rightarrow> string \<Rightarrow> string \<Rightarrow> detector \<Rightarrow> abuse_verdict \<times> detector"
where
  "record_request half_pow cfg now fresh client channel d =
     (let st = state_of fresh client d;
          (score, d1) = decayed half_pow cfg client now (set_state client st d)
      in if now < cs_blocked_until st
         then (blocked_verdict ''abuse_block_active'' (py_trunc (cs_blocked_until st - now) + 1), d1)
         else
           (let st1 = st\<lparr>cs_request_times := dropWhile (\<lambda>t. t < now - 60) (cs_request_times st) @ [now]\<rparr> in
              if limit_for cfg score < int (length (cs_request_times st1))
              then trip cfg now client ''rate_limit_exceeded'' st1 d1
              else
                (let st2 = note_wallet cfg now channel st1
                 in if match_wallet channel \<noteq> None \<and> ab_max_wallets cfg < int (length (cs_wallets st2))
                    then trip cfg now client ''wallet_targeting_detected'' st2 d1
                    else
                      (\<lparr>av_blocked = False, av_reason = [], av_retry_after = 60\<rparr>,
                       set_score client (min 1 (score + ab_gain cfg)) (set_state client st2 d1)))))"

definition reputation_of ::
  "(rat \<Rightarrow> rat) \<Rightarrow> abuse_config \<Rightarrow> string \<Rightarrow> clock \<Rightarrow> detector \<Rightarrow> rat \<times> detector"
where
  "reputation_of half_pow cfg client now d = decayed half_pow cfg client now d"

definition effective_limit ::
  "(rat \<Rightarrow> rat) \<Rightarrow> abuse_config \<Rightarrow> string \<Rightarrow> clock \<Rightarrow> detector \<Rightarrow> int \<times> detector"
where
  "effective_limit half_pow cfg client now d =
     (let (score, d1) = decayed half_pow cfg client now d in (limit_for cfg score, d1))"

definition reset_client :: "string \<Rightarrow> detector \<Rightarrow> detector" where
  "reset_client client d = d\<lparr>dt_states := dict_pop client (dt_states d)\<rparr>"

subsection \<open>What one operation does\<close>

lemma decayed_states [simp]: "dt_states (snd (decayed hp cfg client now d)) = dt_states d"
  by (simp add: decayed_def Let_def split: option.split)

lemma set_score_states [simp]: "dt_states (set_score client x d) = dt_states d"
  by (simp add: set_score_def split: option.split)

lemma set_state_get [simp]:
  "dict_get (dt_states (set_state client st d)) c = (if c = client then Some st else dict_get (dt_states d) c)"
  by (simp add: set_state_def)

lemma other_client_state:
  assumes "c \<noteq> client"
  shows "dict_get (dt_states (snd (record_request hp cfg now fresh client channel d))) c = dict_get (dt_states d) c"
proof -
  obtain score d1 where d1: "decayed hp cfg client now (set_state client (state_of fresh client d) d) = (score, d1)"
    by fastforce
  then have "dict_get (dt_states d1) c = dict_get (dt_states d) c"
    using decayed_states [of hp cfg client now "set_state client (state_of fresh client d) d"] assms by simp
  then show ?thesis using assms by (simp add: record_request_def d1 Let_def trip_def)
qed

text \<open>The reputation the request is judged by.\<close>

definition judged :: "(rat \<Rightarrow> rat) \<Rightarrow> abuse_config \<Rightarrow> clock \<Rightarrow> string \<Rightarrow> detector \<Rightarrow> rat" where
  "judged hp cfg now client d = fst (decayed hp cfg client now d)"

lemma judged_set_state [simp]: "judged hp cfg now client (set_state c st d) = judged hp cfg now client d"
  by (simp add: judged_def decayed_def set_state_def Let_def split: option.split)

lemma record_outcome:
  assumes "record_request hp cfg now fresh client channel d = (v, d')"
  shows "(now < cs_blocked_until (state_of fresh client d) \<and> av_blocked v \<and>
      dict_get (dt_states d') client = Some (state_of fresh client d)) \<or>
    (cs_blocked_until (state_of fresh client d) \<le> now \<and>
      (\<exists>st. dict_get (dt_states d') client = Some st \<and>
        cs_request_times st = dropWhile (\<lambda>t. t < now - 60) (cs_request_times (state_of fresh client d)) @ [now] \<and>
        (if av_blocked v then cs_blocked_until st = now + of_int (ab_block_duration cfg)
         else cs_blocked_until st \<le> now \<and>
           int (length (cs_request_times st)) \<le> limit_for cfg (judged hp cfg now client d))))"
proof -
  define st where "st = state_of fresh client d"
  define st1 where "st1 = st\<lparr>cs_request_times := dropWhile (\<lambda>t. t < now - 60) (cs_request_times st) @ [now]\<rparr>"
  define st2 where "st2 = note_wallet cfg now channel st1"
  obtain score d1 where d1: "decayed hp cfg client now (set_state client st d) = (score, d1)" by fastforce
  then have score: "score = judged hp cfg now client d"
    using judged_set_state [of hp cfg now client client st d] by (simp add: judged_def)
  have get: "dict_get (dt_states d1) client = Some st"
    using decayed_states [of hp cfg client now "set_state client st d"] d1 by simp
  have st2: "cs_request_times st2 = cs_request_times st1" "cs_blocked_until st2 = cs_blocked_until st"
    by (simp_all add: st2_def note_wallet_def st1_def Let_def split: option.split)
  show ?thesis
  proof (cases "now < cs_blocked_until st")
    case True
    with assms get show ?thesis
      by (auto simp: record_request_def d1 Let_def blocked_verdict_def st_def [symmetric])
  next
    case False
    have r: "record_request hp cfg now fresh client channel d =
      (if limit_for cfg score < int (length (cs_request_times st1)) then trip cfg now client ''rate_limit_exceeded'' st1 d1
       else if match_wallet channel \<noteq> None \<and> ab_max_wallets cfg < int (length (cs_wallets st2))
            then trip cfg now client ''wallet_targeting_detected'' st2 d1
            else (\<lparr>av_blocked = False, av_reason = [], av_retry_after = 60\<rparr>,
                  set_score client (min 1 (score + ab_gain cfg)) (set_state client st2 d1)))"
      using False by (simp add: record_request_def d1 Let_def st_def [symmetric] st1_def [symmetric] st2_def [symmetric])
    from assms False score st2 show ?thesis
      unfolding st_def [symmetric] r
      by (auto simp: trip_def blocked_verdict_def st1_def split: if_splits)
  qed
qed

subsection \<open>Blocking\<close>

datatype abuse_event = WsRequest clock clock string string | WsDisconnect string

fun abuse_step :: "(rat \<Rightarrow> rat) \<Rightarrow> abuse_config \<Rightarrow> detector \<times> (string \<times> clock) list \<Rightarrow> abuse_event \<Rightarrow>
    detector \<times> (string \<times> clock) list" where
  "abuse_step hp cfg (d, acc) (WsRequest now fresh client channel) =
     (let (v, d') = record_request hp cfg now fresh client channel d
      in (d', if av_blocked v then acc else acc @ [(client, now)]))"
| "abuse_step hp cfg (d, acc) (WsDisconnect client) = (reset_client client d, acc)"

fun before :: "string \<Rightarrow> clock \<Rightarrow> abuse_event \<Rightarrow> bool" where
  "before client t (WsRequest now fresh c channel) \<longleftrightarrow> c \<noteq> client \<or> now < t"
| "before client t (WsDisconnect c) \<longleftrightarrow> c \<noteq> client"

interpretation blocked_run: preserved_when "abuse_step hp cfg"
  "\<lambda>(d, acc). \<exists>st. dict_get (dt_states d) client = Some st \<and> cs_blocked_until st = t" "before client t"
  for hp cfg client t
proof
  fix s :: "detector \<times> (string \<times> clock) list" and e
  assume inv: "case s of (d, acc) \<Rightarrow> \<exists>st. dict_get (dt_states d) client = Some st \<and> cs_blocked_until st = t"
    and ok: "before client t e"
  obtain d acc where s: "s = (d, acc)" by fastforce
  from inv s obtain st where st: "dict_get (dt_states d) client = Some st" "cs_blocked_until st = t" by auto
  show "case abuse_step hp cfg s e of (d, acc) \<Rightarrow> \<exists>st. dict_get (dt_states d) client = Some st \<and> cs_blocked_until st = t"
  proof (cases e)
    case (WsDisconnect c)
    with st ok show ?thesis by (simp add: s reset_client_def)
  next
    case (WsRequest now fresh c channel)
    obtain v d' where r: "record_request hp cfg now fresh c channel d = (v, d')" by fastforce
    have "\<exists>st. dict_get (dt_states d') client = Some st \<and> cs_blocked_until st = t"
    proof (cases "c = client")
      case False
      with other_client_state [of client c hp cfg now fresh channel d] r st show ?thesis by simp
    next
      case True
      have "state_of fresh c d = st" using st True by (simp add: state_of_def)
      with record_outcome [OF r] st True ok WsRequest show ?thesis by auto
    qed
    then show ?thesis by (simp add: s WsRequest r)
  qed
qed

text \<open>
  A client that trips a threshold is blocked for the whole block duration: whatever it and the
  others send meanwhile, each of its requests before the end is refused, as long as it stays
  connected.
\<close>

theorem block_lasts:
  assumes "record_request hp cfg now fresh client channel d = (v, d')"
    and "av_blocked v" and "cs_blocked_until (state_of fresh client d) \<le> now"
    and "\<forall>e\<in>set es. before client (now + of_int (ab_block_duration cfg)) e"
    and "later < now + of_int (ab_block_duration cfg)"
  shows "av_blocked (fst (record_request hp cfg later fresh' client channel'
    (fst (foldl (abuse_step hp cfg) (d', acc) es))))"
proof -
  let ?t = "now + of_int (ab_block_duration cfg)"
  from record_outcome [OF assms(1)] assms(2,3)
  have "case (d', acc) of (d, acc) \<Rightarrow> \<exists>st. dict_get (dt_states d) client = Some st \<and> cs_blocked_until st = ?t"
    by auto
  from blocked_run.run_inv_when [OF this assms(4)] obtain e acc' st
    where run: "foldl (abuse_step hp cfg) (d', acc) es = (e, acc')"
      and st: "dict_get (dt_states e) client = Some st" "cs_blocked_until st = ?t" by fastforce
  obtain w e' where r: "record_request hp cfg later fresh' client channel' e = (w, e')" by fastforce
  from record_outcome [OF r] st assms(5) have "av_blocked w" by (auto simp: state_of_def)
  then show ?thesis by (simp add: run r)
qed

text \<open>
  A disconnect removes the client's state, and with it the block: its first request after that is
  accepted, however recently it was blocked.
\<close>

lemma reset_unblocks:
  assumes "0 \<le> now" and "1 \<le> ab_max_wallets cfg"
  shows "\<not> av_blocked (fst (record_request hp cfg now fresh client channel (reset_client client d)))"
proof -
  have st: "state_of fresh client (reset_client client d) =
      \<lparr>cs_request_times = [], cs_window_start = fresh, cs_wallets = [], cs_blocked_until = 0\<rparr>"
    by (simp add: state_of_def reset_client_def)
  have lim: "1 \<le> limit_for cfg x" for x by (simp add: limit_for_def Let_def)
  obtain score d1 where d1: "decayed hp cfg client now (set_state client
      \<lparr>cs_request_times = [], cs_window_start = fresh, cs_wallets = [], cs_blocked_until = 0\<rparr> (reset_client client d)) = (score, d1)"
    by fastforce
  have "\<not> limit_for cfg score < 1" using lim [of score] by simp
  then show ?thesis
    using assms by (simp add: record_request_def st d1 Let_def note_wallet_def split: option.split)
qed

subsection \<open>The request window\<close>

definition pow_ok :: "(rat \<Rightarrow> rat) \<Rightarrow> bool" where
  "pow_ok half_pow \<longleftrightarrow> (\<forall>x>0. 0 \<le> half_pow x \<and> half_pow x \<le> 1)"

definition scores_ok :: "detector \<Rightarrow> bool" where
  "scores_ok d \<longleftrightarrow> (\<forall>c rep. dict_get (dt_reputations d) c = Some rep \<longrightarrow> - 1 \<le> rp_score rep \<and> rp_score rep \<le> 1)"

lemma decay_bounds:
  assumes "- 1 \<le> x" and "x \<le> (1::rat)" and "0 \<le> p" and "p \<le> 1"
  shows "- 1 \<le> x * p" and "x * p \<le> 1"
proof -
  have "\<bar>x * p\<bar> \<le> 1 * 1" unfolding abs_mult by (rule mult_mono) (use assms in auto)
  then show "- 1 \<le> x * p" "x * p \<le> 1" by linarith+
qed

lemma decayed_ok:
  assumes "pow_ok hp" and "scores_ok d" and "decayed hp cfg client now d = (score, d')"
  shows "scores_ok d' \<and> - 1 \<le> score \<and> score \<le> 1 \<and> dict_get (dt_reputations d') client \<noteq> None"
proof (cases "dict_get (dt_reputations d) client")
  case None
  with assms(2,3) show ?thesis by (auto simp: decayed_def scores_ok_def split: if_splits)
next
  case (Some rep)
  then have b: "- 1 \<le> rp_score rep" "rp_score rep \<le> 1" using assms(2) by (auto simp: scores_ok_def)
  let ?x = "now - rp_updated_at rep"
  have "- 1 \<le> score \<and> score \<le> 1"
  proof (cases "0 < ?x \<and> 0 < ab_half_life cfg")
    case True
    then have "0 < ?x / ab_half_life cfg" by simp
    then have "0 \<le> hp (?x / ab_half_life cfg)" "hp (?x / ab_half_life cfg) \<le> 1"
      using assms(1) by (auto simp: pow_ok_def)
    from decay_bounds [OF b this] True assms(3) Some show ?thesis by (simp add: decayed_def Let_def)
  next
    case False
    with assms(3) Some b show ?thesis by (auto simp: decayed_def Let_def split: if_splits)
  qed
  with assms(2,3) Some show ?thesis by (auto simp: decayed_def scores_ok_def Let_def split: if_splits)
qed

lemma scores_set_state [simp]: "scores_ok (set_state c st d) = scores_ok d"
  by (simp add: scores_ok_def set_state_def)

lemma scores_set_score: "scores_ok d \<Longrightarrow> - 1 \<le> x \<Longrightarrow> x \<le> 1 \<Longrightarrow> scores_ok (set_score c x d)"
  by (auto simp: scores_ok_def set_score_def split: option.split if_splits)

text \<open>Reputations stay within \<open>[-1, 1]\<close> over any history of requests and disconnects.\<close>

interpretation scores: preserved "abuse_step hp cfg" "\<lambda>(d, acc). pow_ok hp \<and> 0 \<le> ab_gain cfg \<and> scores_ok d" for hp cfg
proof
  fix s :: "detector \<times> (string \<times> clock) list" and e
  assume inv: "case s of (d, acc) \<Rightarrow> pow_ok hp \<and> 0 \<le> ab_gain cfg \<and> scores_ok d"
  obtain d acc where s: "s = (d, acc)" by fastforce
  show "case abuse_step hp cfg s e of (d, acc) \<Rightarrow> pow_ok hp \<and> 0 \<le> ab_gain cfg \<and> scores_ok d"
  proof (cases e)
    case (WsDisconnect c)
    with inv show ?thesis by (simp add: s reset_client_def scores_ok_def)
  next
    case (WsRequest now fresh c channel)
    obtain score d1 where d1: "decayed hp cfg c now (set_state c (state_of fresh c d) d) = (score, d1)" by fastforce
    from decayed_ok [OF _ _ d1] inv s have ok: "scores_ok d1" "- 1 \<le> score" by simp_all
    have "scores_ok (snd (record_request hp cfg now fresh c channel d))"
      using ok inv s by (auto simp: record_request_def d1 Let_def trip_def intro!: scores_set_score)
    with inv s show ?thesis by (auto simp: WsRequest split: prod.split)
  qed
qed

definition limit_cap :: "abuse_config \<Rightarrow> int" where
  "limit_cap cfg = max 1 \<lfloor>of_int (ab_max_rpm cfg) * max (ab_new_mult cfg) (ab_max_mult cfg)\<rfloor>"

lemma limit_bound:
  assumes "0 \<le> ab_max_rpm cfg" and "0 \<le> ab_new_mult cfg" and "- 1 \<le> x" and "x \<le> 1"
  shows "limit_for cfg x \<le> limit_cap cfg"
proof -
  define m where "m = (if 0 \<le> x then ab_new_mult cfg + (ab_max_mult cfg - ab_new_mult cfg) * x
    else ab_new_mult cfg * (1 + 1/2 * x))"
  let ?M = "max (ab_new_mult cfg) (ab_max_mult cfg)"
  have "m \<le> ?M"
  proof (cases "0 \<le> x")
    case True
    have "m = ab_new_mult cfg * (1 - x) + ab_max_mult cfg * x" using True by (simp add: m_def algebra_simps)
    also have "\<dots> \<le> ?M * (1 - x) + ?M * x"
      using True assms(4) by (intro add_mono mult_right_mono) auto
    finally show ?thesis by (simp add: algebra_simps)
  next
    case False
    then have "m = ab_new_mult cfg * (1 + 1/2 * x)" by (simp add: m_def)
    also have "\<dots> \<le> ab_new_mult cfg * 1" using False assms(2) by (intro mult_left_mono) auto
    finally show ?thesis by simp
  qed
  then have le: "of_int (ab_max_rpm cfg) * m \<le> of_int (ab_max_rpm cfg) * ?M" using assms(1) by (intro mult_left_mono) auto
  have "py_trunc (of_int (ab_max_rpm cfg) * m) \<le> max 1 \<lfloor>of_int (ab_max_rpm cfg) * ?M\<rfloor>"
  proof (cases "0 \<le> of_int (ab_max_rpm cfg) * m")
    case True
    then have "py_trunc (of_int (ab_max_rpm cfg) * m) = \<lfloor>of_int (ab_max_rpm cfg) * m\<rfloor>" by (simp add: py_trunc_def)
    also have "\<dots> \<le> \<lfloor>of_int (ab_max_rpm cfg) * ?M\<rfloor>" using le by (rule floor_mono)
    finally show ?thesis by simp
  next
    case False
    then have "py_trunc (of_int (ab_max_rpm cfg) * m) \<le> 0" by (simp add: py_trunc_def ceiling_le_zero)
    then show ?thesis by simp
  qed
  then show ?thesis by (simp add: limit_for_def limit_cap_def Let_def flip: m_def)
qed

definition accepted :: "string \<Rightarrow> (string \<times> clock) list \<Rightarrow> clock list" where
  "accepted client acc = map snd (filter (\<lambda>(c, t). c = client) acc)"

text \<open>
  The window of a client holds its accepted requests of the last minute, as of the time \<open>l\<close> of its
  last request.
\<close>

definition window_inv ::
  "abuse_config \<Rightarrow> string \<Rightarrow> detector \<times> (string \<times> clock) list \<times> clock \<Rightarrow> bool"
where
  "window_inv cfg client = (\<lambda>(d, acc, l).
     sorted (cs_request_times (state_of l client d)) \<and> (\<forall>t\<in>set (cs_request_times (state_of l client d)). t \<le> l) \<and>
     mset (filter (\<lambda>t. l - 60 \<le> t) (accepted client acc)) \<subseteq># mset (cs_request_times (state_of l client d)) \<and>
     int (length (filter (\<lambda>t. l - 60 \<le> t) (accepted client acc))) \<le> limit_cap cfg)"

lemma dropWhile_window:
  "sorted (ts::clock list) \<Longrightarrow> dropWhile (\<lambda>t. t < c) ts = filter (\<lambda>t. c \<le> t) ts"
proof (induction ts)
  case (Cons t ts)
  show ?case
  proof (cases "t < c")
    case False
    with Cons.prems have "\<forall>x\<in>set ts. c \<le> x" by auto
    with False show ?thesis by (simp add: filter_True)
  qed (use Cons in auto)
qed simp

lemma window_request:
  assumes pow: "pow_ok hp" "0 \<le> ab_max_rpm cfg" "0 \<le> ab_new_mult cfg" and ok: "scores_ok d"
    and inv: "window_inv cfg client (d, acc, l)" and le: "l \<le> now"
    and r: "record_request hp cfg now fresh c channel d = (v, d')"
  shows "window_inv cfg client (d', if av_blocked v then acc else acc @ [(c, now)], now)"
proof -
  define ts where "ts = cs_request_times (state_of l client d)"
  let ?a = "accepted client acc"
  have ts: "sorted ts" "\<forall>t\<in>set ts. t \<le> l" "mset (filter (\<lambda>t. l - 60 \<le> t) ?a) \<subseteq># mset ts"
    "int (length (filter (\<lambda>t. l - 60 \<le> t) ?a)) \<le> limit_cap cfg"
    using inv by (simp_all add: window_inv_def ts_def)
  have f: "filter (\<lambda>t. now - 60 \<le> t) ?a = filter (\<lambda>t. now - 60 \<le> t) (filter (\<lambda>t. l - 60 \<le> t) ?a)"
    using le by (auto simp: intro!: filter_cong)
  have sub: "mset (filter (\<lambda>t. now - 60 \<le> t) ?a) \<subseteq># filter_mset (\<lambda>t. now - 60 \<le> t) (mset ts)"
    by (subst f, subst mset_filter) (rule multiset_filter_mono [OF ts(3)])
  have len: "length (filter (\<lambda>t. now - 60 \<le> t) ?a) \<le> length (filter (\<lambda>t. l - 60 \<le> t) ?a)"
    by (subst f) (rule length_filter_le)
  then have cap: "int (length (filter (\<lambda>t. now - 60 \<le> t) ?a)) \<le> limit_cap cfg" using ts(4) by linarith
  have sub': "mset (filter (\<lambda>t. now - 60 \<le> t) ?a) \<subseteq># mset ts"
    using sub multiset_filter_subset subset_mset.order_trans by blast
  have times: "cs_request_times (state_of t client e) = cs_request_times (state_of t' client e)" for t t' e
    by (simp add: state_of_def split: option.split)
  show ?thesis
  proof (cases "c = client")
    case False
    then have "dict_get (dt_states d') client = dict_get (dt_states d) client"
      using other_client_state [of client c hp cfg now fresh channel d] r by simp
    then have "cs_request_times (state_of now client d') = ts"
      by (simp add: ts_def state_of_def split: option.split)
    moreover have "accepted client (if av_blocked v then acc else acc @ [(c, now)]) = ?a"
      using False by (simp add: accepted_def)
    ultimately show ?thesis using ts(1,2) sub' cap le by (auto simp: window_inv_def)
  next
    case True
    from record_outcome [OF r] consider
      (kept) "av_blocked v" "dict_get (dt_states d') client = Some (state_of fresh client d)"
    | (moved) st where "dict_get (dt_states d') client = Some st"
        "cs_request_times st = dropWhile (\<lambda>t. t < now - 60) (cs_request_times (state_of fresh client d)) @ [now]"
        "\<not> av_blocked v \<longrightarrow> int (length (cs_request_times st)) \<le> limit_for cfg (judged hp cfg now client d)"
      using True by (auto split: if_splits)
    then show ?thesis
    proof cases
      case kept
      then have "cs_request_times (state_of now client d') = ts"
        using times [of fresh d l] by (simp add: state_of_def [of now] ts_def)
      with kept(1) ts(1,2) sub' cap le show ?thesis by (auto simp: window_inv_def)
    next
      case (moved st)
      have new: "cs_request_times st = filter (\<lambda>t. now - 60 \<le> t) ts @ [now]"
        using moved(2) times [of fresh d l] dropWhile_window [OF ts(1)] by (simp add: ts_def)
      have state: "cs_request_times (state_of now client d') = filter (\<lambda>t. now - 60 \<le> t) ts @ [now]"
        using moved(1) new by (simp add: state_of_def)
      have sorted: "sorted (filter (\<lambda>t. now - 60 \<le> t) ts @ [now])"
        using ts(1,2) le by (auto simp: sorted_append intro: sorted_filter [of id, simplified])
      show ?thesis
      proof (cases "av_blocked v")
        case True
        with state sorted ts(2) le sub cap show ?thesis
          by (auto simp: window_inv_def mset_filter intro: subset_mset.order_trans)
      next
        case False
        obtain score d1 where d1: "decayed hp cfg client now d = (score, d1)" by fastforce
        have "- 1 \<le> judged hp cfg now client d" "judged hp cfg now client d \<le> 1"
          using decayed_ok [OF pow(1) ok d1] by (simp_all add: judged_def d1)
        from limit_bound [OF pow(2,3) this] moved(3) False
        have "int (length (filter (\<lambda>t. now - 60 \<le> t) ts @ [now])) \<le> limit_cap cfg" by (simp add: new)
        moreover have acc: "filter (\<lambda>t. now - 60 \<le> t) (accepted client (acc @ [(c, now)])) =
            filter (\<lambda>t. now - 60 \<le> t) ?a @ [now]"
          using True by (simp add: accepted_def)
        moreover have m: "mset (filter (\<lambda>t. now - 60 \<le> t) ?a @ [now]) \<subseteq># mset (filter (\<lambda>t. now - 60 \<le> t) ts @ [now])"
          using sub by (simp add: mset_filter)
        moreover have "length (filter (\<lambda>t. now - 60 \<le> t) ?a @ [now]) \<le> length (filter (\<lambda>t. now - 60 \<le> t) ts @ [now])"
          using size_mset_mono [OF m] by (simp only: size_mset)
        ultimately have "mset (filter (\<lambda>t. now - 60 \<le> t) (accepted client (acc @ [(c, now)]))) \<subseteq>#
              mset (filter (\<lambda>t. now - 60 \<le> t) ts @ [now])"
            "int (length (filter (\<lambda>t. now - 60 \<le> t) (accepted client (acc @ [(c, now)])))) \<le> limit_cap cfg"
          unfolding acc by linarith+
        then show ?thesis using sorted ts(2) le False
          by (auto simp: window_inv_def state simp del: mset_filter mset_append)
      qed
    qed
  qed
qed

fun clocked :: "clock \<Rightarrow> abuse_event list \<Rightarrow> bool" where
  "clocked l [] \<longleftrightarrow> True"
| "clocked l (WsRequest now fresh c channel # es) \<longleftrightarrow> l \<le> now \<and> clocked now es"
| "clocked l (WsDisconnect c # es) \<longleftrightarrow> clocked l es"

fun last_clock :: "clock \<Rightarrow> abuse_event list \<Rightarrow> clock" where
  "last_clock l [] = l"
| "last_clock l (WsRequest now fresh c channel # es) = last_clock now es"
| "last_clock l (WsDisconnect c # es) = last_clock l es"

lemma window_run:
  assumes "pow_ok hp" "0 \<le> ab_max_rpm cfg" "0 \<le> ab_new_mult cfg" "0 \<le> ab_gain cfg"
  shows "scores_ok d \<Longrightarrow> window_inv cfg client (d, acc, l) \<Longrightarrow> clocked l es \<Longrightarrow> WsDisconnect client \<notin> set es \<Longrightarrow>
    (case foldl (abuse_step hp cfg) (d, acc) es of (d', acc') \<Rightarrow> window_inv cfg client (d', acc', last_clock l es))"
proof (induction es arbitrary: d acc l)
  case (Cons e es)
  show ?case
  proof (cases e)
    case (WsDisconnect c)
    then have "dict_get (dt_states (reset_client c d)) client = dict_get (dt_states d) client"
      using Cons.prems(4) by (simp add: reset_client_def)
    then have "state_of l client (reset_client c d) = state_of l client d" by (simp add: state_of_def)
    then have "window_inv cfg client (reset_client c d, acc, l)" using Cons.prems(2) by (simp add: window_inv_def)
    moreover have "scores_ok (reset_client c d)" using Cons.prems(1) by (simp add: scores_ok_def reset_client_def)
    ultimately show ?thesis using Cons.IH [of "reset_client c d" acc l] Cons.prems WsDisconnect by simp
  next
    case (WsRequest now fresh c channel)
    obtain v d' where r: "record_request hp cfg now fresh c channel d = (v, d')" by fastforce
    let ?acc = "if av_blocked v then acc else acc @ [(c, now)]"
    have "window_inv cfg client (d', ?acc, now)"
      using window_request [OF assms(1-3) Cons.prems(1,2) _ r] Cons.prems(3) WsRequest by simp
    moreover have "scores_ok d'"
      using scores.step_inv [of hp cfg "(d, acc)" e] assms(1,4) Cons.prems(1) by (simp add: WsRequest r)
    ultimately show ?thesis using Cons.IH [of d' ?acc now] Cons.prems WsRequest by (simp add: r)
  qed
qed simp

text \<open>
  C22. A client that stays connected never has more requests accepted within a minute than the largest
  limit a reputation can give, whatever it sends and on whatever channels.
\<close>

theorem requests_per_minute:
  assumes "pow_ok hp" and "0 \<le> ab_max_rpm cfg" "0 \<le> ab_new_mult cfg" "0 \<le> ab_gain cfg"
    and "clocked 0 es" and "WsDisconnect client \<notin> set es"
    and "foldl (abuse_step hp cfg) (\<lparr>dt_states = [], dt_reputations = []\<rparr>, []) es = (d, acc)"
  shows "int (length (filter (\<lambda>t. last_clock 0 es - 60 \<le> t) (accepted client acc))) \<le> limit_cap cfg"
proof -
  have "window_inv cfg client (\<lparr>dt_states = [], dt_reputations = []\<rparr>, [], 0)"
    by (simp add: window_inv_def state_of_def accepted_def limit_cap_def)
  from window_run [OF assms(1-4) _ this assms(5,6)] show ?thesis
    by (simp add: assms(7) scores_ok_def window_inv_def)
qed

subsection \<open>Witnesses\<close>

definition demo_abuse :: abuse_config where
  "demo_abuse = \<lparr>ab_max_rpm = 1, ab_max_wallets = 50, ab_wallet_window = 60, ab_block_duration = 300,
     ab_max_mult = 3, ab_new_mult = 1, ab_half_life = 3600, ab_gain = 1/100\<rparr>"

abbreviation demo_pow :: "rat \<Rightarrow> rat" where
  "demo_pow \<equiv> \<lambda>_. 1/2"

definition demo_requests :: "abuse_event list" where
  "demo_requests = [WsRequest 1 1 ''a'' ''all'', WsRequest 2 2 ''b'' ''all'', WsRequest 3 3 ''a'' ''all'']"

lemma requests_per_minute_witness:
  "case foldl (abuse_step demo_pow demo_abuse) (\<lparr>dt_states = [], dt_reputations = []\<rparr>, []) demo_requests of
     (d, acc) \<Rightarrow> int (length (filter (\<lambda>t. 3 - 60 \<le> t) (accepted ''a'' acc))) \<le> 3"
proof -
  obtain d acc where r: "foldl (abuse_step demo_pow demo_abuse) (\<lparr>dt_states = [], dt_reputations = []\<rparr>, []) demo_requests = (d, acc)"
    by fastforce
  have "limit_cap demo_abuse = 3" by (simp add: limit_cap_def demo_abuse_def)
  moreover have "int (length (filter (\<lambda>t. last_clock 0 demo_requests - 60 \<le> t) (accepted ''a'' acc))) \<le> limit_cap demo_abuse"
    by (rule requests_per_minute [OF _ _ _ _ _ _ r]) (simp_all add: pow_ok_def demo_abuse_def demo_requests_def)
  moreover have "last_clock 0 demo_requests = 3" by (simp add: demo_requests_def)
  ultimately show ?thesis unfolding r by simp
qed

definition demo_tripped :: detector where
  "demo_tripped = fst (foldl (abuse_step demo_pow demo_abuse) (\<lparr>dt_states = [], dt_reputations = []\<rparr>, [])
     [WsRequest 1 1 ''a'' ''all''])"

lemma block_lasts_witness:
  "av_blocked (fst (record_request demo_pow demo_abuse 100 100 ''a'' ''all''
     (fst (foldl (abuse_step demo_pow demo_abuse)
        (snd (record_request demo_pow demo_abuse 3 3 ''a'' ''all'' demo_tripped), []) [WsRequest 50 50 ''a'' ''all'']))))"
proof (rule block_lasts)
  show "record_request demo_pow demo_abuse 3 3 ''a'' ''all'' demo_tripped =
      (fst (record_request demo_pow demo_abuse 3 3 ''a'' ''all'' demo_tripped),
       snd (record_request demo_pow demo_abuse 3 3 ''a'' ''all'' demo_tripped))" by simp
  show "av_blocked (fst (record_request demo_pow demo_abuse 3 3 ''a'' ''all'' demo_tripped))" by code_simp
  show "cs_blocked_until (state_of 3 ''a'' demo_tripped) \<le> 3" by code_simp
qed (simp_all add: demo_abuse_def)

end
