(* ===== verification/WsServer.thy ===== *)
theory WsServer
  imports WsAuth WsAbuse PubSub
begin

text \<open>
  The WebSocket server (\<open>streaming/ws_server.py\<close>) over the router, the authenticator and the abuse
  detector: registration of clients, inbound messages, publication of score events into bounded
  queues, the replay buffer, and the end of a connection.

  The event loop is single-threaded, so what a coroutine does between two \<open>await\<close>s is one step. A
  connection is a number; its queue, permissions, rate limiter and what was sent to it are its
  record, and \<open>_clients\<close> maps a client id to the connection registered last. Sending succeeds
  while the connection is open; pings, metrics and logging are left out.
\<close>

subsection \<open>Messages, rate limiter, sequence numbers\<close>

record score_event =
  se_wallet :: string
  se_pair :: string
  se_body :: json

datatype ws_msg = ScoreUpdate score_event nat string | DroppedNote nat | WsError string
  | TokenRefreshed "rat option"

datatype ws_in = InInvalidJson | InRaises | InInvalid string | InSubscribe "string list"
  | InUnsubscribe "string list" | InReplay string int | InRefresh string | InUnknown

record token_bucket =
  tb_rate :: rat
  tb_tokens :: rat
  tb_last :: clock

definition new_bucket :: "rat \<Rightarrow> clock \<Rightarrow> token_bucket" where
  "new_bucket rate now = \<lparr>tb_rate = rate, tb_tokens = rate, tb_last = now\<rparr>"

definition is_allowed :: "clock \<Rightarrow> token_bucket \<Rightarrow> bool \<times> token_bucket" where
  "is_allowed now b =
     (let elapsed = now - tb_last b;
          tokens = min (tb_rate b) (tb_tokens b + elapsed * tb_rate b)
      in if 1 \<le> tokens then (True, b\<lparr>tb_tokens := tokens - 1, tb_last := now\<rparr>)
         else (False, b\<lparr>tb_tokens := tokens, tb_last := now\<rparr>))"

definition retry_after_ms :: "token_bucket \<Rightarrow> int" where
  "retry_after_ms b =
     (if 1 \<le> tb_tokens b then 0 else py_trunc ((1 - tb_tokens b) / tb_rate b * 1000) + 1)"

subsection \<open>Channel names\<close>

definition pair_char :: "char \<Rightarrow> bool" where
  "pair_char ch \<longleftrightarrow> (let n = of_char ch :: nat in
     (65 \<le> n \<and> n \<le> 90) \<or> (48 \<le> n \<and> n \<le> 57) \<or> ch \<in> {CHR '':'', CHR ''/'', CHR ''-''})"

definition channel_name :: "string \<Rightarrow> bool" where
  "channel_name ch \<longleftrightarrow>
     ch = ''all'' \<or>
     (take 7 ch = ''wallet/'' \<and> is_wallet (drop 7 ch)) \<or>
     (take 5 ch = ''pair/'' \<and> drop 5 ch \<noteq> [] \<and> list_all pair_char (drop 5 ch))"

text \<open>The \<open>$\<close> of the pattern also matches before a final line feed.\<close>

definition validate_channel :: "string \<Rightarrow> bool" where
  "validate_channel ch \<longleftrightarrow>
     channel_name ch \<or> (ch \<noteq> [] \<and> last ch = CHR 0x0A \<and> channel_name (butlast ch))"

lemma documented_pair_rejected: "\<not> validate_channel ''pair/XLM:native/USDC:GA''"
  by code_simp

subsection \<open>State\<close>

record ws_config =
  wf_max_clients :: nat
  wf_depth :: nat
  wf_disconnect :: bool
  wf_max_drops :: nat
  wf_rate :: rat
  wf_replay :: nat
  wf_grace :: rat

record conn =
  cn_client :: string
  cn_queue :: "ws_msg list"
  cn_permissions :: "string list"
  cn_exp :: "rat option"
  cn_drops :: nat
  cn_bucket :: token_bucket
  cn_sent :: "ws_msg list"
  cn_open :: bool

record server =
  sv_clients :: "(string, nat) dict"
  sv_conns :: "(nat, conn) dict"
  sv_seq :: nat
  sv_replay :: "(string, (nat \<times> ws_msg) list) dict"
  sv_router :: router
  sv_abuse :: detector

definition update_conn :: "nat \<Rightarrow> (conn \<Rightarrow> conn) \<Rightarrow> server \<Rightarrow> server" where
  "update_conn n f sv =
     (case dict_get (sv_conns sv) n of
        None \<Rightarrow> sv
      | Some c \<Rightarrow> sv\<lparr>sv_conns := dict_set n (f c) (sv_conns sv)\<rparr>)"

definition send_to :: "nat \<Rightarrow> ws_msg \<Rightarrow> server \<Rightarrow> server" where
  "send_to n m = update_conn n (\<lambda>c. if cn_open c then c\<lparr>cn_sent := cn_sent c @ [m]\<rparr> else c)"

subsection \<open>Connections\<close>

text \<open>The \<open>finally\<close> of the handler: it knows its client only by name.\<close>

definition cleanup :: "string \<Rightarrow> server \<Rightarrow> server" where
  "cleanup client sv =
     (if client = [] then sv
      else sv\<lparr>sv_router := disconnect client (sv_router sv), sv_abuse := reset_client client (sv_abuse sv),
              sv_clients := dict_pop client (sv_clients sv)\<rparr>)"

text \<open>\<open>_extract_token\<close>: the bearer token of the header, else the query parameter \<open>token\<close>.\<close>

fun split_once :: "string \<Rightarrow> string \<Rightarrow> (string \<times> string) option" where
  "split_once sep s =
     (if starts_with sep s then Some ([], drop (length sep) s)
      else (case s of [] \<Rightarrow> None | ch # rest \<Rightarrow> map_option (apfst (Cons ch)) (split_once sep rest)))"

declare split_once.simps [simp del]

definition before_sep :: "string \<Rightarrow> string \<Rightarrow> string" where
  "before_sep sep s = (case split_once sep s of None \<Rightarrow> s | Some (a, b) \<Rightarrow> a)"

definition extract_token :: "string option \<Rightarrow> string \<Rightarrow> string option" where
  "extract_token header path =
     (let h = (case header of None \<Rightarrow> [] | Some h \<Rightarrow> h) in
        if starts_with ''Bearer '' h then Some (drop 7 h)
        else
          (case split_once ''?token='' path of
             None \<Rightarrow> None
           | Some (a, rest) \<Rightarrow>
               (let token = before_sep ''&'' (before_sep ''?token='' rest) in
                  if token = [] then None else Some token)))"

lemma bearer_token: "extract_token (Some (''Bearer '' @ t)) path = Some t"
  by (simp add: extract_token_def del: append.simps)

lemma query_token_example: "extract_token None ''/ws?token=abc&x=1'' = Some ''abc''"
  by code_simp

definition sub_of :: "claims \<Rightarrow> string" where
  "sub_of c = (case dict_get c ''sub'' of Some (JStr s) \<Rightarrow> s | _ \<Rightarrow> ''unknown'')"

definition open_session ::
  "ws_config \<Rightarrow> (string \<Rightarrow> jwt_failure + claims) \<Rightarrow> nat \<Rightarrow> string option \<Rightarrow> clock \<Rightarrow> server \<Rightarrow> server"
where
  "open_session cfg decode n token now sv =
     (case token of
        None \<Rightarrow> sv
      | Some tok \<Rightarrow>
          (case verify_token decode tok of
             None \<Rightarrow> sv
           | Some c \<Rightarrow>
               if wf_max_clients cfg \<le> length (sv_clients sv) then cleanup (sub_of c) sv
               else sv\<lparr>sv_clients := dict_set (sub_of c) n (sv_clients sv),
                       sv_conns := dict_set n
                         \<lparr>cn_client = sub_of c, cn_queue = [], cn_permissions = extract_permissions c,
                          cn_exp = token_expiry c, cn_drops = 0, cn_bucket = new_bucket (wf_rate cfg) now,
                          cn_sent = [], cn_open = True\<rparr> (sv_conns sv)\<rparr>))"

definition close_session :: "nat \<Rightarrow> server \<Rightarrow> server" where
  "close_session n sv =
     (case dict_get (sv_conns sv) n of
        None \<Rightarrow> sv
      | Some c \<Rightarrow>
          if cn_open c then cleanup (cn_client c) (update_conn n (\<lambda>c. c\<lparr>cn_open := False\<rparr>) sv) else sv)"

text \<open>\<open>_token_expiry_watchdog\<close> at one of its wake-ups; its end ends the handler.\<close>

definition watchdog :: "ws_config \<Rightarrow> clock \<Rightarrow> nat \<Rightarrow> server \<Rightarrow> server" where
  "watchdog cfg now n sv =
     (case dict_get (sv_conns sv) n of
        None \<Rightarrow> sv
      | Some c \<Rightarrow>
          (case dict_get (sv_clients sv) (cn_client c) of
             None \<Rightarrow> close_session n sv
           | Some m \<Rightarrow>
               (case dict_get (sv_conns sv) m of
                  None \<Rightarrow> sv
                | Some cm \<Rightarrow>
                    (case cn_exp cm of
                       None \<Rightarrow> sv
                     | Some t \<Rightarrow> if t + wf_grace cfg \<le> now then close_session n sv else sv))))"

subsection \<open>Publication\<close>

text \<open>\<open>asyncio.Queue.put_nowait\<close>: \<open>None\<close> is \<open>QueueFull\<close>; a depth of zero is unbounded.\<close>

definition put_nowait :: "nat \<Rightarrow> ws_msg \<Rightarrow> ws_msg list \<Rightarrow> ws_msg list option" where
  "put_nowait depth m q = (if 0 < depth \<and> depth \<le> length q then None else Some (q @ [m]))"

definition enqueue :: "ws_config \<Rightarrow> string \<Rightarrow> ws_msg \<Rightarrow> server \<Rightarrow> server" where
  "enqueue cfg client m sv =
     (case dict_get (sv_clients sv) client of
        None \<Rightarrow> sv
      | Some n \<Rightarrow>
          (case dict_get (sv_conns sv) n of
             None \<Rightarrow> sv
           | Some c \<Rightarrow>
               (case put_nowait (wf_depth cfg) m (cn_queue c) of
                  Some q \<Rightarrow> update_conn n (\<lambda>c. c\<lparr>cn_queue := q\<rparr>) sv
                | None \<Rightarrow>
                    (let drops = Suc (cn_drops c);
                         sv1 = update_conn n (\<lambda>c. c\<lparr>cn_drops := drops\<rparr>) sv
                     in if wf_disconnect cfg \<or> (0 < wf_max_drops cfg \<and> wf_max_drops cfg < drops)
                        then sv1\<lparr>sv_clients := dict_pop client (sv_clients sv1)\<rparr>
                        else
                          (let q = tl (cn_queue c) @ [m];
                               q' = (case put_nowait (wf_depth cfg) (DroppedNote 1) q of None \<Rightarrow> q | Some q' \<Rightarrow> q')
                           in update_conn n (\<lambda>c. c\<lparr>cn_queue := q'\<rparr>) sv1)))))"

definition buffer_append :: "nat \<Rightarrow> string \<Rightarrow> nat \<Rightarrow> ws_msg \<Rightarrow> server \<Rightarrow> server" where
  "buffer_append maxlen channel seq m sv =
     (let b = (case dict_get (sv_replay sv) channel of None \<Rightarrow> [] | Some b \<Rightarrow> b) @ [(seq, m)] in
        sv\<lparr>sv_replay := dict_set channel (drop (length b - maxlen) b) (sv_replay sv)\<rparr>)"

definition replay_since :: "string \<Rightarrow> int \<Rightarrow> server \<Rightarrow> ws_msg list" where
  "replay_since channel since sv =
     (case dict_get (sv_replay sv) channel of
        None \<Rightarrow> []
      | Some b \<Rightarrow> map snd (filter (\<lambda>(seq, m). since \<le> int seq) b))"

definition wallet_channel :: "score_event \<Rightarrow> string" where
  "wallet_channel ev = ''wallet/'' @ se_wallet ev"

definition pair_channel :: "score_event \<Rightarrow> string" where
  "pair_channel ev = ''pair/'' @ se_pair ev"

text \<open>Whom an event is enqueued for, on which channel, in order.\<close>

definition publish_targets :: "score_event \<Rightarrow> router \<Rightarrow> (string \<times> string) list" where
  "publish_targets ev r =
     (let sent = get_subscribers (wallet_channel ev) r in
        map (\<lambda>c. (c, wallet_channel ev)) sent @
        map (\<lambda>c. (c, pair_channel ev)) (filter (\<lambda>c. c \<notin> set sent) (get_subscribers (pair_channel ev) r)) @
        map (\<lambda>c. (c, ''all'')) (filter (\<lambda>c. c \<notin> set sent) (get_subscribers ''all'' r)))"

definition publish :: "ws_config \<Rightarrow> score_event \<Rightarrow> server \<Rightarrow> server" where
  "publish cfg ev sv =
     (if se_wallet ev = [] \<or> se_pair ev = [] then sv
      else
        (let seq = Suc (sv_seq sv);
             sv1 = fold (\<lambda>(c, ch). enqueue cfg c (ScoreUpdate ev seq ch)) (publish_targets ev (sv_router sv))
                     (sv\<lparr>sv_seq := seq\<rparr>)
         in if get_subscribers (wallet_channel ev) (sv_router sv) = [] then sv1
            else fold (\<lambda>ch. buffer_append (wf_replay cfg) ch seq (ScoreUpdate ev seq ch))
                   [wallet_channel ev, pair_channel ev, ''all''] sv1))"

text \<open>One turn of \<open>_process_outbound\<close>: a message the limiter refuses has already left the queue.\<close>

definition outbound :: "clock \<Rightarrow> nat \<Rightarrow> server \<Rightarrow> server" where
  "outbound now n sv =
     (case dict_get (sv_conns sv) n of
        None \<Rightarrow> sv
      | Some c \<Rightarrow>
          (case cn_queue c of
             [] \<Rightarrow> sv
           | m # q \<Rightarrow>
               if \<not> cn_open c then sv
               else
                 (let (ok, b) = is_allowed now (cn_bucket c) in
                    send_to n (if ok then m else WsError ''rate_limit'')
                      (update_conn n (\<lambda>c. c\<lparr>cn_queue := q, cn_bucket := b\<rparr>) sv))))"

subsection \<open>Inbound messages\<close>

definition handle_subscribe :: "nat \<Rightarrow> conn \<Rightarrow> string list \<Rightarrow> server \<Rightarrow> server" where
  "handle_subscribe n c channels sv =
     (if list_ex (\<lambda>ch. \<not> validate_channel ch) channels then send_to n (WsError ''invalid_channel'') sv
      else if list_ex (\<lambda>ch. \<not> is_permitted_channel (cn_permissions c) ch) channels
      then send_to n (WsError ''forbidden'') sv
      else sv\<lparr>sv_router := subscribe (cn_client c) channels (sv_router sv)\<rparr>)"

definition handle_unsubscribe :: "nat \<Rightarrow> conn \<Rightarrow> string list \<Rightarrow> server \<Rightarrow> server" where
  "handle_unsubscribe n c channels sv =
     (if list_ex (\<lambda>ch. \<not> validate_channel ch) channels then send_to n (WsError ''invalid_channel'') sv
      else sv\<lparr>sv_router := unsubscribe (cn_client c) channels (sv_router sv)\<rparr>)"

definition handle_replay :: "nat \<Rightarrow> conn \<Rightarrow> string \<Rightarrow> int \<Rightarrow> server \<Rightarrow> server" where
  "handle_replay n c channel since sv =
     (if \<not> validate_channel channel then send_to n (WsError ''invalid_channel'') sv
      else if \<not> is_permitted_channel (cn_permissions c) channel then send_to n (WsError ''forbidden'') sv
      else fold (send_to n) (replay_since channel since sv) sv)"

definition handle_refresh ::
  "(string \<Rightarrow> jwt_failure + claims) \<Rightarrow> clock \<Rightarrow> nat \<Rightarrow> conn \<Rightarrow> string \<Rightarrow> server \<Rightarrow> server"
where
  "handle_refresh decode now n c token sv =
     (case dict_get (sv_clients sv) (cn_client c) of
        None \<Rightarrow> close_session n sv
      | Some m \<Rightarrow>
          (case dict_get (sv_conns sv) m of
             None \<Rightarrow> close_session n sv
           | Some cm \<Rightarrow>
               (case verify_refresh decode token (cn_client c) (cn_exp cm) now of
                  None \<Rightarrow> close_session n sv
                | Some cl \<Rightarrow>
                    send_to n (TokenRefreshed (token_expiry cl))
                      (update_conn m (\<lambda>c. c\<lparr>cn_exp := token_expiry cl\<rparr>)
                        (update_conn n (\<lambda>c. c\<lparr>cn_permissions := extract_permissions cl\<rparr>) sv)))))"

text \<open>The channel the abuse detector is shown: the first of a subscription only.\<close>

fun check_channel :: "ws_in \<Rightarrow> string" where
  "check_channel (InSubscribe (ch # chs)) = ch"
| "check_channel (InInvalid ch) = ch"
| "check_channel _ = []"

definition inbound ::
  "(rat \<Rightarrow> rat) \<Rightarrow> abuse_config \<Rightarrow> (string \<Rightarrow> jwt_failure + claims) \<Rightarrow> clock \<Rightarrow> clock \<Rightarrow> clock \<Rightarrow> nat \<Rightarrow>
   ws_in \<Rightarrow> server \<Rightarrow> server"
where
  "inbound hp acfg decode now fresh wall n msg sv =
     (case dict_get (sv_conns sv) n of
        None \<Rightarrow> sv
      | Some c \<Rightarrow>
          if \<not> cn_open c then sv
          else if msg = InInvalidJson then send_to n (WsError ''invalid_json'') sv
          else if msg = InRaises then sv
          else
            (let (v, ab) = record_request hp acfg now fresh (cn_client c) (check_channel msg) (sv_abuse sv);
                 sv1 = sv\<lparr>sv_abuse := ab\<rparr>
             in if av_blocked v then close_session n (send_to n (WsError (av_reason v)) sv1)
                else
                  (case msg of
                     InSubscribe chs \<Rightarrow> handle_subscribe n c chs sv1
                   | InUnsubscribe chs \<Rightarrow> handle_unsubscribe n c chs sv1
                   | InReplay ch since \<Rightarrow> handle_replay n c ch since sv1
                   | InRefresh token \<Rightarrow> handle_refresh decode wall n c token sv1
                   | InInvalid ch \<Rightarrow> send_to n (WsError ''validation_error'') sv1
                   | _ \<Rightarrow> send_to n (WsError ''unknown_type'') sv1)))"

subsection \<open>Binding\<close>

text \<open>\<open>_is_loopback_host\<close>: \<open>parse\<close> is \<open>ipaddress.ip_address(host).is_loopback\<close>, \<open>None\<close> where it raises.\<close>

definition is_loopback_host :: "(string \<Rightarrow> bool option) \<Rightarrow> string \<Rightarrow> bool" where
  "is_loopback_host parse host \<longleftrightarrow> host = ''localhost'' \<or> parse host = Some True"

text \<open>\<open>True\<close> where \<open>run_ws_server\<close> goes on to bind; \<open>allow\<close> is the variable \<open>WS_ALLOW_EXTERNAL\<close>.\<close>

definition may_bind :: "(string \<Rightarrow> bool option) \<Rightarrow> string \<Rightarrow> string option \<Rightarrow> string option \<Rightarrow> bool" where
  "may_bind parse host bind_host allow \<longleftrightarrow>
     is_loopback_host parse (case bind_host of None \<Rightarrow> host | Some h \<Rightarrow> h) \<or>
     (case allow of None \<Rightarrow> False | Some v \<Rightarrow> v \<noteq> [])"

subsection \<open>Histories\<close>

datatype ws_event = WsOpen nat "string option" clock | WsIn nat ws_in clock clock clock | WsOut nat clock
  | WsPublish score_event | WsClose nat | WsWatch nat clock

record ws_world =
  ww_config :: ws_config
  ww_abuse :: abuse_config
  ww_half_pow :: "rat \<Rightarrow> rat"
  ww_decode :: "string \<Rightarrow> jwt_failure + claims"

fun ws_step :: "ws_world \<Rightarrow> server \<Rightarrow> ws_event \<Rightarrow> server" where
  "ws_step w sv (WsOpen n token now) =
     (if dict_get (sv_conns sv) n = None then open_session (ww_config w) (ww_decode w) n token now sv else sv)"
| "ws_step w sv (WsIn n msg now fresh wall) =
     inbound (ww_half_pow w) (ww_abuse w) (ww_decode w) now fresh wall n msg sv"
| "ws_step w sv (WsOut n now) = outbound now n sv"
| "ws_step w sv (WsPublish ev) = publish (ww_config w) ev sv"
| "ws_step w sv (WsClose n) = close_session n sv"
| "ws_step w sv (WsWatch n now) = watchdog (ww_config w) now n sv"

definition ws_init :: "int \<Rightarrow> server" where
  "ws_init attempts = \<lparr>sv_clients = [], sv_conns = [], sv_seq = 0, sv_replay = [],
     sv_router = router_init attempts, sv_abuse = \<lparr>dt_states = [], dt_reputations = []\<rparr>\<rparr>"

text \<open>A client may read a channel because one of the tokens \<open>T\<close> names it and permits the channel.\<close>

definition grants :: "ws_world \<Rightarrow> string set \<Rightarrow> string \<Rightarrow> string \<Rightarrow> bool" where
  "grants w T client ch \<longleftrightarrow> (\<exists>t c. t \<in> T \<and> verify_token (ww_decode w) t = Some c \<and> sub_of c = client \<and>
     is_permitted_channel (extract_permissions c) ch)"

fun tokens_in :: "string set \<Rightarrow> ws_event \<Rightarrow> bool" where
  "tokens_in T (WsOpen n (Some t) now) \<longleftrightarrow> t \<in> T"
| "tokens_in T (WsIn n (InRefresh t) now fresh wall) \<longleftrightarrow> t \<in> T"
| "tokens_in T _ \<longleftrightarrow> True"

definition msg_ok :: "ws_world \<Rightarrow> string set \<Rightarrow> string \<Rightarrow> ws_msg \<Rightarrow> bool" where
  "msg_ok w T client m \<longleftrightarrow>
     (case m of ScoreUpdate ev s ch \<Rightarrow> grants w T client ch | DroppedNote k \<Rightarrow> False | _ \<Rightarrow> True)"

definition conn_ok :: "ws_world \<Rightarrow> string set \<Rightarrow> conn \<Rightarrow> bool" where
  "conn_ok w T c \<longleftrightarrow>
     (\<forall>ch. is_permitted_channel (cn_permissions c) ch \<longrightarrow> grants w T (cn_client c) ch) \<and>
     (\<forall>m. m \<in> set (cn_queue c) \<union> set (cn_sent c) \<longrightarrow> msg_ok w T (cn_client c) m) \<and>
     (0 < wf_depth (ww_config w) \<longrightarrow> length (cn_queue c) \<le> wf_depth (ww_config w))"

definition router_granted :: "ws_world \<Rightarrow> string set \<Rightarrow> router \<Rightarrow> bool" where
  "router_granted w T r \<longleftrightarrow> (\<exists>P. abstracts r P \<and> (\<forall>c ch. (c, ch) \<in> P \<longrightarrow> grants w T c ch))"

definition replay_ok :: "ws_world \<Rightarrow> server \<Rightarrow> bool" where
  "replay_ok w sv \<longleftrightarrow> (\<forall>ch b. dict_get (sv_replay sv) ch = Some b \<longrightarrow>
     sorted_wrt (<) (map fst b) \<and> (\<forall>s m. (s, m) \<in> set b \<longrightarrow> s \<le> sv_seq sv \<and> (\<exists>ev. m = ScoreUpdate ev s ch)) \<and>
     length b \<le> wf_replay (ww_config w))"

definition ws_inv :: "ws_world \<Rightarrow> string set \<Rightarrow> server \<Rightarrow> bool" where
  "ws_inv w T sv \<longleftrightarrow>
     router_granted w T (sv_router sv) \<and> replay_ok w sv \<and>
     (\<forall>n c. dict_get (sv_conns sv) n = Some c \<longrightarrow> conn_ok w T c) \<and>
     (\<forall>client n. dict_get (sv_clients sv) client = Some n \<longrightarrow>
        (\<exists>c. dict_get (sv_conns sv) n = Some c \<and> cn_client c = client))"

lemma msg_ok_plain [simp]: "msg_ok w T client (WsError e)" "msg_ok w T client (TokenRefreshed x)"
  by (simp_all add: msg_ok_def)

lemma ws_inv_client:
  assumes "ws_inv w T sv" and "dict_get (sv_clients sv) client = Some n"
  obtains c where "dict_get (sv_conns sv) n = Some c" "cn_client c = client" "conn_ok w T c"
  using assms unfolding ws_inv_def by blast

lemma update_conn_fields [simp]:
  "sv_router (update_conn n f sv) = sv_router sv" "sv_replay (update_conn n f sv) = sv_replay sv"
  "sv_seq (update_conn n f sv) = sv_seq sv" "sv_clients (update_conn n f sv) = sv_clients sv"
  "sv_abuse (update_conn n f sv) = sv_abuse sv"
  by (simp_all add: update_conn_def split: option.split)

lemma update_conn_get [simp]:
  "dict_get (sv_conns (update_conn n f sv)) m =
     (if m = n then map_option f (dict_get (sv_conns sv) n) else dict_get (sv_conns sv) m)"
  by (simp add: update_conn_def split: option.split)

lemma send_to_fields [simp]:
  "sv_router (send_to n m sv) = sv_router sv" "sv_replay (send_to n m sv) = sv_replay sv"
  "sv_seq (send_to n m sv) = sv_seq sv" "sv_clients (send_to n m sv) = sv_clients sv"
  "sv_abuse (send_to n m sv) = sv_abuse sv"
  by (simp_all add: send_to_def)

lemma update_conn_inv:
  assumes "ws_inv w T sv"
    and "\<And>c. dict_get (sv_conns sv) n = Some c \<Longrightarrow> conn_ok w T c \<Longrightarrow> conn_ok w T (f c) \<and> cn_client (f c) = cn_client c"
  shows "ws_inv w T (update_conn n f sv)"
  unfolding ws_inv_def
proof (intro conjI allI impI)
  show "router_granted w T (sv_router (update_conn n f sv))" "replay_ok w (update_conn n f sv)"
    using assms(1) by (simp_all add: ws_inv_def replay_ok_def)
next
  fix m c
  assume m: "dict_get (sv_conns (update_conn n f sv)) m = Some c"
  show "conn_ok w T c"
  proof (cases "m = n")
    case True
    with m obtain c0 where "dict_get (sv_conns sv) n = Some c0" "c = f c0" by auto
    with assms show ?thesis by (auto simp: ws_inv_def)
  next
    case False
    with m assms(1) show ?thesis by (simp add: ws_inv_def)
  qed
next
  fix client m
  assume m: "dict_get (sv_clients (update_conn n f sv)) client = Some m"
  then have "dict_get (sv_clients sv) client = Some m" by simp
  with assms(1) obtain c where c: "dict_get (sv_conns sv) m = Some c" "cn_client c = client" "conn_ok w T c"
    by (rule ws_inv_client)
  with c assms(2) show "\<exists>c. dict_get (sv_conns (update_conn n f sv)) m = Some c \<and> cn_client c = client"
    by (cases "m = n") auto
qed

lemma send_to_inv:
  assumes "ws_inv w T sv" and "\<And>c. dict_get (sv_conns sv) n = Some c \<Longrightarrow> msg_ok w T (cn_client c) m"
  shows "ws_inv w T (send_to n m sv)"
  unfolding send_to_def using assms(1)
  by (rule update_conn_inv) (auto simp: conn_ok_def assms(2))

lemma abuse_inv [simp]: "ws_inv w T (sv\<lparr>sv_abuse := a\<rparr>) \<longleftrightarrow> ws_inv w T sv"
  by (simp add: ws_inv_def replay_ok_def)

lemma cleanup_inv:
  assumes "ws_inv w T sv"
  shows "ws_inv w T (cleanup client sv)"
proof (cases "client = []")
  case False
  obtain P where P: "abstracts (sv_router sv) P" "\<forall>c ch. (c, ch) \<in> P \<longrightarrow> grants w T c ch"
    using assms by (auto simp: ws_inv_def router_granted_def)
  have "router_granted w T (disconnect client (sv_router sv))"
    unfolding router_granted_def by (rule exI, rule conjI, rule disconnect_abstracts [OF P(1)]) (use P(2) in auto)
  with assms False show ?thesis by (auto simp: ws_inv_def cleanup_def replay_ok_def)
qed (use assms in \<open>simp add: cleanup_def\<close>)

lemma close_inv:
  assumes "ws_inv w T sv"
  shows "ws_inv w T (close_session n sv)"
proof (cases "dict_get (sv_conns sv) n")
  case (Some c)
  have "ws_inv w T (update_conn n (\<lambda>c. c\<lparr>cn_open := False\<rparr>) sv)"
    using assms by (rule update_conn_inv) (auto simp: conn_ok_def)
  with Some assms show ?thesis by (simp add: close_session_def cleanup_inv)
qed (use assms in \<open>simp add: close_session_def\<close>)

lemma watchdog_inv: "ws_inv w T sv \<Longrightarrow> ws_inv w T (watchdog cfg now n sv)"
  by (simp add: watchdog_def close_inv split: option.split)

lemma open_inv:
  assumes inv: "ws_inv w T sv" and ok: "tokens_in T (WsOpen n token now)" and new: "dict_get (sv_conns sv) n = None"
  shows "ws_inv w T (open_session (ww_config w) (ww_decode w) n token now sv)"
proof (cases token)
  case (Some tok)
  show ?thesis
  proof (cases "verify_token (ww_decode w) tok")
    case None
    with inv Some show ?thesis by (simp add: open_session_def)
  next
    case (Some c)
    note tok = \<open>token = Some tok\<close>
    let ?c = "\<lparr>cn_client = sub_of c, cn_queue = [], cn_permissions = extract_permissions c,
      cn_exp = token_expiry c, cn_drops = 0, cn_bucket = new_bucket (wf_rate (ww_config w)) now,
      cn_sent = [], cn_open = True\<rparr>"
    have "conn_ok w T ?c" using ok tok Some by (auto simp: conn_ok_def grants_def)
    then have "ws_inv w T (sv\<lparr>sv_clients := dict_set (sub_of c) n (sv_clients sv), sv_conns := dict_set n ?c (sv_conns sv)\<rparr>)"
      using inv new ws_inv_client [OF inv] by (auto simp: ws_inv_def replay_ok_def) (metis option.distinct(1))
    with inv Some tok cleanup_inv show ?thesis by (simp add: open_session_def)
  qed
qed (use inv in \<open>simp add: open_session_def\<close>)

lemma put_nowait_Some: "put_nowait d m q = Some q' \<longleftrightarrow> q' = q @ [m] \<and> (0 < d \<longrightarrow> length q < d)"
  by (auto simp: put_nowait_def)

text \<open>After the oldest message made room for the new one the queue is full again: no notice fits.\<close>

lemma no_room_for_notice:
  assumes "put_nowait d m q = None" and "length q \<le> d"
  shows "put_nowait d (DroppedNote 1) (tl q @ [m]) = None" and "length (tl q @ [m]) \<le> d"
  using assms by (auto simp: put_nowait_def split: if_splits)

lemma enqueue_inv:
  assumes inv: "ws_inv w T sv" and m: "msg_ok w T client m"
  shows "ws_inv w T (enqueue (ww_config w) client m sv)"
proof (cases "dict_get (sv_clients sv) client")
  case (Some n)
  with inv obtain c where c: "dict_get (sv_conns sv) n = Some c" "cn_client c = client" and ok: "conn_ok w T c"
    by (rule ws_inv_client)
  show ?thesis
  proof (cases "put_nowait (wf_depth (ww_config w)) m (cn_queue c)")
    case (Some q)
    have "ws_inv w T (update_conn n (\<lambda>c. c\<lparr>cn_queue := q\<rparr>) sv)"
      using inv
    proof (rule update_conn_inv)
      fix c' assume "dict_get (sv_conns sv) n = Some c'" "conn_ok w T c'"
      with c(1) Some m c(2) show "conn_ok w T (c'\<lparr>cn_queue := q\<rparr>) \<and> cn_client (c'\<lparr>cn_queue := q\<rparr>) = cn_client c'"
        by (auto simp: conn_ok_def put_nowait_Some)
    qed
    with Some c \<open>dict_get (sv_clients sv) client = Some n\<close> show ?thesis by (simp add: enqueue_def)
  next
    case None
    let ?d = "wf_depth (ww_config w)"
    let ?sv1 = "update_conn n (\<lambda>c'. c'\<lparr>cn_drops := Suc (cn_drops c)\<rparr>) sv"
    have sv1: "ws_inv w T ?sv1" using inv by (rule update_conn_inv) (auto simp: conn_ok_def)
    then have 1: "ws_inv w T (?sv1\<lparr>sv_clients := dict_pop client (sv_clients ?sv1)\<rparr>)"
      by (auto simp: ws_inv_def replay_ok_def)
    have len: "length (cn_queue c) \<le> ?d" using ok None by (auto simp: conn_ok_def put_nowait_def split: if_splits)
    have q: "put_nowait ?d (DroppedNote 1) (tl (cn_queue c) @ [m]) = None" "length (tl (cn_queue c) @ [m]) \<le> ?d"
      using no_room_for_notice [OF None len] by simp_all
    have 2: "ws_inv w T (update_conn n (\<lambda>c'. c'\<lparr>cn_queue := tl (cn_queue c) @ [m]\<rparr>) ?sv1)"
      using sv1
    proof (rule update_conn_inv)
      fix c' assume "dict_get (sv_conns ?sv1) n = Some c'" "conn_ok w T c'"
      with c m q(2) ok list.set_sel(2) [of "cn_queue c"]
      show "conn_ok w T (c'\<lparr>cn_queue := tl (cn_queue c) @ [m]\<rparr>) \<and>
          cn_client (c'\<lparr>cn_queue := tl (cn_queue c) @ [m]\<rparr>) = cn_client c'"
        by (cases "cn_queue c") (auto simp: conn_ok_def)
    qed
    show ?thesis
      using None c \<open>dict_get (sv_clients sv) client = Some n\<close> 1 2 q(1)
      by (simp add: enqueue_def Let_def)
  qed
qed (use inv in \<open>simp add: enqueue_def\<close>)

lemma enqueue_fields [simp]:
  "sv_router (enqueue cfg client m sv) = sv_router sv" "sv_replay (enqueue cfg client m sv) = sv_replay sv"
  "sv_seq (enqueue cfg client m sv) = sv_seq sv"
  by (simp_all add: enqueue_def Let_def split: option.split)

lemma enqueue_all_inv:
  assumes "ws_inv w T sv" and "\<forall>(c, ch)\<in>set ts. grants w T c ch"
  shows "ws_inv w T (fold (\<lambda>(c, ch). enqueue (ww_config w) c (ScoreUpdate ev s ch)) ts sv)"
  using assms by (induction ts arbitrary: sv) (auto simp: enqueue_inv msg_ok_def)

lemma enqueue_all_fields [simp]:
  "sv_router (fold (\<lambda>(c, ch). enqueue cfg c (ScoreUpdate ev s ch)) ts sv) = sv_router sv"
  "sv_replay (fold (\<lambda>(c, ch). enqueue cfg c (ScoreUpdate ev s ch)) ts sv) = sv_replay sv"
  "sv_seq (fold (\<lambda>(c, ch). enqueue cfg c (ScoreUpdate ev s ch)) ts sv) = sv_seq sv"
  by (induction ts arbitrary: sv) auto

lemma publish_targets_subscribed:
  assumes "router_granted w T r" and "(c, ch) \<in> set (publish_targets ev r)"
  shows "grants w T c ch"
proof -
  obtain P where P: "abstracts r P" "\<forall>c ch. (c, ch) \<in> P \<longrightarrow> grants w T c ch"
    using assms(1) by (auto simp: router_granted_def)
  have "c \<in> set (get_subscribers ch r)" using assms(2) by (auto simp: publish_targets_def Let_def)
  then have "(c, ch) \<in> P" using P(1) by (simp add: abstracts_def router_ok_def get_subscribers_def)
  with P(2) show ?thesis by blast
qed

lemma buffer_append_fields [simp]:
  "sv_router (buffer_append k ch s m sv) = sv_router sv" "sv_seq (buffer_append k ch s m sv) = sv_seq sv"
  "sv_conns (buffer_append k ch s m sv) = sv_conns sv" "sv_clients (buffer_append k ch s m sv) = sv_clients sv"
  "sv_abuse (buffer_append k ch s m sv) = sv_abuse sv"
  by (simp_all add: buffer_append_def Let_def)

text \<open>The buffers of the channels already appended to hold the new sequence number; the others are older.\<close>

definition replay_below :: "ws_world \<Rightarrow> nat \<Rightarrow> string set \<Rightarrow> server \<Rightarrow> bool" where
  "replay_below w n done sv \<longleftrightarrow> (\<forall>ch b. dict_get (sv_replay sv) ch = Some b \<longrightarrow>
     sorted_wrt (<) (map fst b) \<and> length b \<le> wf_replay (ww_config w) \<and>
     (\<forall>s m. (s, m) \<in> set b \<longrightarrow> (s < n \<or> (s = n \<and> ch \<in> done)) \<and> (\<exists>ev. m = ScoreUpdate ev s ch)))"

lemma buffer_append_below:
  assumes below: "replay_below w n done sv" and new: "ch \<notin> done"
  shows "replay_below w n (insert ch done) (buffer_append (wf_replay (ww_config w)) ch n (ScoreUpdate ev n ch) sv)"
proof -
  define b where "b = (case dict_get (sv_replay sv) ch of None \<Rightarrow> [] | Some b \<Rightarrow> b)"
  define b' where "b' = b @ [(n, ScoreUpdate ev n ch)]"
  let ?k = "wf_replay (ww_config w)"
  have b: "sorted_wrt (<) (map fst b)" "\<forall>s m. (s, m) \<in> set b \<longrightarrow> s < n \<and> (\<exists>ev. m = ScoreUpdate ev s ch)"
    using below new by (cases "dict_get (sv_replay sv) ch"; fastforce simp: b_def replay_below_def)+
  then have b': "sorted_wrt (<) (map fst b')" "\<forall>s m. (s, m) \<in> set b' \<longrightarrow> (s < n \<or> s = n) \<and> (\<exists>ev. m = ScoreUpdate ev s ch)"
    by (auto simp: b'_def sorted_wrt_append)
  have sub: "set (drop (length b' - ?k) b') \<subseteq> set b'" by (rule set_drop_subset)
  have "sorted_wrt (<) (map fst (drop (length b' - ?k) b'))"
    using b'(1) by (metis drop_map sorted_wrt_drop)
  moreover have "length (drop (length b' - ?k) b') \<le> ?k" by simp
  ultimately have "sorted_wrt (<) (map fst (drop (length b' - ?k) b')) \<and> length (drop (length b' - ?k) b') \<le> ?k \<and>
      (\<forall>s m. (s, m) \<in> set (drop (length b' - ?k) b') \<longrightarrow> (s < n \<or> s = n) \<and> (\<exists>ev. m = ScoreUpdate ev s ch))"
    using b'(2) sub by blast
  moreover have "sv_replay (buffer_append ?k ch n (ScoreUpdate ev n ch) sv) =
      dict_set ch (drop (length b' - ?k) b') (sv_replay sv)"
    by (simp add: buffer_append_def Let_def b'_def b_def)
  ultimately show ?thesis using below unfolding replay_below_def by (auto split: if_splits)
qed

lemma replay_below_ok: "replay_below w (sv_seq sv) D sv \<Longrightarrow> replay_ok w sv"
  unfolding replay_below_def replay_ok_def by (metis less_imp_le order_refl)

lemma channels_differ: "wallet_channel ev \<noteq> pair_channel ev" "wallet_channel ev \<noteq> ''all''" "pair_channel ev \<noteq> ''all''"
  by (simp_all add: wallet_channel_def pair_channel_def)

lemma publish_inv:
  assumes "ws_inv w T sv"
  shows "ws_inv w T (publish (ww_config w) ev sv)"
proof (cases "se_wallet ev = [] \<or> se_pair ev = []")
  case False
  define n where "n = Suc (sv_seq sv)"
  define sv1 where "sv1 = fold (\<lambda>(c, ch). enqueue (ww_config w) c (ScoreUpdate ev n ch))
    (publish_targets ev (sv_router sv)) (sv\<lparr>sv_seq := n\<rparr>)"
  have "ws_inv w T (sv\<lparr>sv_seq := n\<rparr>)"
    using assms unfolding ws_inv_def replay_ok_def n_def by (auto intro: le_SucI)
  then have 1: "ws_inv w T sv1"
    unfolding sv1_def
    by (rule enqueue_all_inv) (use assms publish_targets_subscribed in \<open>auto simp: ws_inv_def\<close>)
  let ?k = "wf_replay (ww_config w)"
  let ?sv2 = "fold (\<lambda>ch. buffer_append ?k ch n (ScoreUpdate ev n ch)) [wallet_channel ev, pair_channel ev, ''all''] sv1"
  have "replay_below w n {} sv1"
    using assms by (force simp: ws_inv_def replay_ok_def replay_below_def sv1_def n_def)
  from buffer_append_below [OF buffer_append_below [OF buffer_append_below [OF this, of "wallet_channel ev" ev],
      of "pair_channel ev" ev], of "''all''" ev]
  have "replay_below w n {''all'', pair_channel ev, wallet_channel ev} ?sv2"
    using channels_differ [of ev] by simp
  moreover have "sv_seq sv1 = n" by (simp add: sv1_def)
  ultimately have "replay_ok w ?sv2" using replay_below_ok [of w ?sv2] by simp
  then have 2: "ws_inv w T ?sv2" using 1 by (auto simp: ws_inv_def)
  have "publish (ww_config w) ev sv =
      (if get_subscribers (wallet_channel ev) (sv_router sv) = [] then sv1 else ?sv2)"
    using False by (simp add: publish_def Let_def n_def sv1_def)
  with 1 2 show ?thesis by simp
qed (use assms in \<open>simp add: publish_def\<close>)

lemma outbound_inv:
  assumes "ws_inv w T sv"
  shows "ws_inv w T (outbound now n sv)"
proof (cases "dict_get (sv_conns sv) n")
  case (Some c)
  then have ok: "conn_ok w T c" using assms by (simp add: ws_inv_def)
  show ?thesis
  proof (cases "cn_queue c")
    case (Cons m q)
    obtain a b where a: "is_allowed now (cn_bucket c) = (a, b)" by fastforce
    have "ws_inv w T (update_conn n (\<lambda>c. c\<lparr>cn_queue := q, cn_bucket := b\<rparr>) sv)"
      using assms by (rule update_conn_inv) (use Some ok Cons in \<open>auto simp: conn_ok_def\<close>)
    then have "ws_inv w T (send_to n (if a then m else WsError ''rate_limit'')
        (update_conn n (\<lambda>c. c\<lparr>cn_queue := q, cn_bucket := b\<rparr>) sv))"
      by (rule send_to_inv) (use Some ok Cons in \<open>auto simp: conn_ok_def\<close>)
    with Some Cons a assms show ?thesis by (simp add: outbound_def)
  qed (use assms Some in \<open>simp add: outbound_def\<close>)
qed (use assms in \<open>simp add: outbound_def\<close>)

lemma send_plain: "ws_inv w T sv \<Longrightarrow> ws_inv w T (send_to n (WsError e) sv)"
  "ws_inv w T sv \<Longrightarrow> ws_inv w T (send_to n (TokenRefreshed x) sv)"
  by (rule send_to_inv, assumption, simp add: msg_ok_def)+

lemma send_to_client:
  "dict_get (sv_conns sv) n = Some c \<Longrightarrow>
     \<exists>c'. dict_get (sv_conns (send_to k m sv)) n = Some c' \<and> cn_client c' = cn_client c"
  by (cases "n = k") (auto simp: send_to_def)

lemma send_all_inv:
  assumes "ws_inv w T sv" and "dict_get (sv_conns sv) n = Some c" and "\<forall>m\<in>set ms. msg_ok w T (cn_client c) m"
  shows "ws_inv w T (fold (send_to n) ms sv)"
  using assms
proof (induction ms arbitrary: sv c)
  case (Cons m ms)
  have inv: "ws_inv w T (send_to n m sv)"
    using Cons.prems(1) by (rule send_to_inv) (use Cons.prems(2,3) in auto)
  obtain c' where c': "dict_get (sv_conns (send_to n m sv)) n = Some c'" "cn_client c' = cn_client c"
    using send_to_client [OF Cons.prems(2)] by blast
  show ?case using Cons.IH [OF inv c'(1)] Cons.prems(3) c'(2) by simp
qed simp

lemma subscribe_inv:
  assumes inv: "ws_inv w T sv" and c: "conn_ok w T c"
  shows "ws_inv w T (handle_subscribe n c chs sv)"
proof -
  obtain P where P: "abstracts (sv_router sv) P" "\<forall>c ch. (c, ch) \<in> P \<longrightarrow> grants w T c ch"
    using inv by (auto simp: ws_inv_def router_granted_def)
  have "ws_inv w T (sv\<lparr>sv_router := subscribe (cn_client c) chs (sv_router sv)\<rparr>)"
    if "\<forall>ch\<in>set chs. is_permitted_channel (cn_permissions c) ch"
  proof -
    have "router_granted w T (subscribe (cn_client c) chs (sv_router sv))"
      unfolding router_granted_def
      by (rule exI, rule conjI, rule subscribe_abstracts [OF P(1)]) (use P(2) c that in \<open>auto simp: conn_ok_def\<close>)
    with inv show ?thesis by (simp add: ws_inv_def replay_ok_def)
  qed
  then show ?thesis by (auto simp: handle_subscribe_def list_ex_iff send_plain(1) [OF inv])
qed

lemma unsubscribe_inv:
  assumes inv: "ws_inv w T sv"
  shows "ws_inv w T (handle_unsubscribe n c chs sv)"
proof -
  obtain P where P: "abstracts (sv_router sv) P" "\<forall>c ch. (c, ch) \<in> P \<longrightarrow> grants w T c ch"
    using inv by (auto simp: ws_inv_def router_granted_def)
  have "router_granted w T (unsubscribe (cn_client c) chs (sv_router sv))"
    unfolding router_granted_def
    by (rule exI, rule conjI, rule unsubscribe_abstracts [OF P(1)]) (use P(2) in auto)
  then have "ws_inv w T (sv\<lparr>sv_router := unsubscribe (cn_client c) chs (sv_router sv)\<rparr>)"
    using inv by (simp add: ws_inv_def replay_ok_def)
  then show ?thesis by (simp add: handle_unsubscribe_def send_plain(1) [OF inv])
qed

lemma replay_inv:
  assumes inv: "ws_inv w T sv" and n: "dict_get (sv_conns sv) n = Some c" and c: "conn_ok w T c" "cn_client c = cn_client c0"
    "\<forall>ch. is_permitted_channel (cn_permissions c0) ch \<longrightarrow> grants w T (cn_client c0) ch"
  shows "ws_inv w T (handle_replay n c0 ch since sv)"
proof -
  have "ws_inv w T (fold (send_to n) (replay_since ch since sv) sv)" if p: "is_permitted_channel (cn_permissions c0) ch"
  proof (rule send_all_inv [OF inv n])
    have "\<exists>ev s. m = ScoreUpdate ev s ch" if "m \<in> set (replay_since ch since sv)" for m
    proof -
      from that obtain b s where b: "dict_get (sv_replay sv) ch = Some b" "(s, m) \<in> set b"
        by (cases "dict_get (sv_replay sv) ch") (auto simp: replay_since_def)
      have "replay_ok w sv" using inv by (simp add: ws_inv_def)
      with b show ?thesis unfolding replay_ok_def by blast
    qed
    then show "\<forall>m\<in>set (replay_since ch since sv). msg_ok w T (cn_client c) m"
      using p c by (fastforce simp: msg_ok_def)
  qed
  then show ?thesis by (simp add: handle_replay_def send_plain(1) [OF inv])
qed

lemma sub_of_subject: "dict_get c ''sub'' = Some (JStr s) \<Longrightarrow> sub_of c = s"
  by (simp add: sub_of_def)

lemma refresh_inv:
  assumes inv: "ws_inv w T sv" and t: "token \<in> T" and n: "dict_get (sv_conns sv) n = Some c"
    and c: "cn_client c = cn_client c0"
  shows "ws_inv w T (handle_refresh (ww_decode w) now n c0 token sv)"
proof -
  have "ws_inv w T (send_to n (TokenRefreshed e) (update_conn m (\<lambda>c. c\<lparr>cn_exp := e\<rparr>)
      (update_conn n (\<lambda>c. c\<lparr>cn_permissions := extract_permissions cl\<rparr>) sv)))"
    if v: "verify_refresh (ww_decode w) token (cn_client c0) x now = Some cl" for x cl m e
  proof -
    have g: "verify_token (ww_decode w) token = Some cl" "sub_of cl = cn_client c0"
      using v sub_of_subject by (auto simp: verify_refresh_def split: if_splits option.splits)
    have 1: "ws_inv w T (update_conn n (\<lambda>c. c\<lparr>cn_permissions := extract_permissions cl\<rparr>) sv)"
      using inv by (rule update_conn_inv) (use n c g t in \<open>auto simp: conn_ok_def grants_def\<close>)
    have "ws_inv w T (update_conn m (\<lambda>c. c\<lparr>cn_exp := e\<rparr>)
        (update_conn n (\<lambda>c. c\<lparr>cn_permissions := extract_permissions cl\<rparr>) sv))"
      using 1 by (rule update_conn_inv) (auto simp: conn_ok_def)
    then show ?thesis by (rule send_plain)
  qed
  then show ?thesis using inv close_inv by (simp add: handle_refresh_def split: option.split)
qed

lemma inbound_inv:
  assumes inv: "ws_inv w T sv" and ok: "tokens_in T (WsIn n msg now fresh wall)"
  shows "ws_inv w T (inbound (ww_half_pow w) (ww_abuse w) (ww_decode w) now fresh wall n msg sv)"
proof (cases "dict_get (sv_conns sv) n")
  case (Some c)
  then have c: "conn_ok w T c" using inv by (simp add: ws_inv_def)
  obtain v ab where r: "record_request (ww_half_pow w) (ww_abuse w) now fresh (cn_client c) (check_channel msg) (sv_abuse sv) = (v, ab)"
    by fastforce
  define sv1 where "sv1 = sv\<lparr>sv_abuse := ab\<rparr>"
  have 1: "ws_inv w T sv1" "dict_get (sv_conns sv1) n = Some c" using inv Some by (simp_all add: sv1_def)
  have p: "\<forall>ch. is_permitted_channel (cn_permissions c) ch \<longrightarrow> grants w T (cn_client c) ch"
    using c by (simp add: conn_ok_def)
  have t: "token \<in> T" if "msg = InRefresh token" for token using ok that by simp
  have "ws_inv w T (case msg of
       InSubscribe chs \<Rightarrow> handle_subscribe n c chs sv1
     | InUnsubscribe chs \<Rightarrow> handle_unsubscribe n c chs sv1
     | InReplay ch since \<Rightarrow> handle_replay n c ch since sv1
     | InRefresh token \<Rightarrow> handle_refresh (ww_decode w) wall n c token sv1
     | InInvalid ch \<Rightarrow> send_to n (WsError ''validation_error'') sv1
     | _ \<Rightarrow> send_to n (WsError ''unknown_type'') sv1)"
    using subscribe_inv [OF 1(1) c] unsubscribe_inv [OF 1(1)] replay_inv [OF 1 c refl p] refresh_inv [OF 1(1) _ 1(2) refl] t
      send_plain [OF 1(1)] by (cases msg) simp_all
  moreover have "ws_inv w T (close_session n (send_to n (WsError e) sv1))" for e
    using 1 by (intro close_inv send_plain)
  ultimately show ?thesis using Some inv send_plain [OF inv]
    by (simp add: inbound_def r sv1_def [symmetric])
qed (use inv in \<open>simp add: inbound_def\<close>)

interpretation ws_run: preserved_when "ws_step w" "ws_inv w T" "tokens_in T" for w T
proof
  fix sv e
  assume inv: "ws_inv w T sv" and ok: "tokens_in T e"
  show "ws_inv w T (ws_step w sv e)"
  proof (cases e)
    case (WsOpen n token now)
    with inv ok open_inv show ?thesis by simp
  next
    case (WsIn n msg now fresh wall)
    with inv ok inbound_inv show ?thesis by simp
  qed (use inv outbound_inv publish_inv close_inv watchdog_inv in simp_all)
qed

lemma ws_init_inv: "ws_inv w T (ws_init k)"
  using init_abstracts [of k] by (auto simp: ws_inv_def ws_init_def router_granted_def replay_ok_def)

subsection \<open>Who reads what\<close>

text \<open>
  C23. In every history, a score update that is queued for or was sent to a connection is on a
  channel that some verified token naming that client permits; and the queue never exceeds its
  depth.
\<close>

theorem updates_are_permitted:
  assumes "\<forall>e\<in>set es. tokens_in T e" and "sv = foldl (ws_step w) (ws_init k) es"
    and "dict_get (sv_conns sv) n = Some c"
  shows "(\<forall>ev s ch. ScoreUpdate ev s ch \<in> set (cn_queue c) \<union> set (cn_sent c) \<longrightarrow> grants w T (cn_client c) ch) \<and>
    (0 < wf_depth (ww_config w) \<longrightarrow> length (cn_queue c) \<le> wf_depth (ww_config w))"
proof -
  have "ws_inv w T sv" using ws_run.run_inv_when [OF ws_init_inv assms(1)] assms(2) by simp
  with assms(3) have "conn_ok w T c" by (simp add: ws_inv_def)
  then show ?thesis
    by (fastforce simp: conn_ok_def msg_ok_def)
qed

text \<open>
  The notice of dropped messages is never queued and never sent: after the oldest message has
  made room for the new one, the queue is full.
\<close>

theorem drop_notice_never_sent:
  assumes "\<forall>e\<in>set es. tokens_in T e" and "sv = foldl (ws_step w) (ws_init k) es"
    and "dict_get (sv_conns sv) n = Some c"
  shows "DroppedNote j \<notin> set (cn_queue c) \<union> set (cn_sent c)"
proof -
  have "ws_inv w T sv" using ws_run.run_inv_when [OF ws_init_inv assms(1)] assms(2) by simp
  with assms(3) have "conn_ok w T c" by (simp add: ws_inv_def)
  then show ?thesis by (fastforce simp: conn_ok_def msg_ok_def)
qed

text \<open>
  In every history, a replay returns the buffered updates of the channel from the requested
  sequence number on, in strictly ascending order of sequence numbers that were given out, and at
  most the size of the buffer.
\<close>

theorem replay_is_ordered:
  assumes "\<forall>e\<in>set es. tokens_in T e" and "sv = foldl (ws_step w) (ws_init k) es"
  shows "\<exists>us. replay_since ch since sv = map (\<lambda>(ev, s). ScoreUpdate ev s ch) us \<and> sorted_wrt (<) (map snd us) \<and>
    (\<forall>ev s. (ev, s) \<in> set us \<longrightarrow> since \<le> int s \<and> s \<le> sv_seq sv) \<and> length us \<le> wf_replay (ww_config w)"
proof (cases "dict_get (sv_replay sv) ch")
  case None
  then show ?thesis by (intro exI [of _ "[]"]) (simp add: replay_since_def)
next
  case (Some b)
  have "ws_inv w T sv" using ws_run.run_inv_when [OF ws_init_inv assms(1)] assms(2) by simp
  then have b: "sorted_wrt (<) (map fst b)" "length b \<le> wf_replay (ww_config w)"
    "\<And>s m. (s, m) \<in> set b \<Longrightarrow> s \<le> sv_seq sv \<and> (\<exists>ev. m = ScoreUpdate ev s ch)"
    using Some unfolding ws_inv_def replay_ok_def by blast+
  define f where "f = filter (\<lambda>(seq, m). since \<le> int seq) b"
  define us where "us = map (\<lambda>(s, m). (case m of ScoreUpdate ev _ _ \<Rightarrow> ev, s)) f"
  have f: "\<And>s m. (s, m) \<in> set f \<Longrightarrow> since \<le> int s \<and> s \<le> sv_seq sv \<and> (\<exists>ev. m = ScoreUpdate ev s ch)"
    using b(3) by (auto simp: f_def)
  have "sorted_wrt (<) (map fst f)"
    using b(1) by (simp add: f_def sorted_wrt_map sorted_wrt_filter)
  moreover have "map snd us = map fst f" by (simp add: us_def case_prod_beta)
  moreover have "m = ScoreUpdate (case m of ScoreUpdate ev _ _ \<Rightarrow> ev) s ch" if "(s, m) \<in> set f" for s m
    using f [OF that] by auto
  then have "replay_since ch since sv = map (\<lambda>(ev, s). ScoreUpdate ev s ch) us"
    by (auto simp: replay_since_def Some us_def f_def [symmetric] intro!: map_cong)
  moreover have "length us \<le> wf_replay (ww_config w)"
    unfolding us_def f_def length_map by (rule le_trans [OF length_filter_le b(2)])
  moreover have "\<forall>ev s. (ev, s) \<in> set us \<longrightarrow> since \<le> int s \<and> s \<le> sv_seq sv"
    using f by (auto simp: us_def)
  ultimately show ?thesis by (intro exI [of _ us]) simp
qed

subsection \<open>Publication\<close>

definition subscribers_distinct :: "router \<Rightarrow> bool" where
  "subscribers_distinct r \<longleftrightarrow> (\<forall>ch. distinct (members (rt_channels r) ch))"

lemma distinct_add: "\<forall>k. distinct (members d k) \<Longrightarrow> \<forall>k. distinct (members (add_member c x d) k)"
  by (simp add: add_member_def)

lemma distinct_leave: "\<forall>k. distinct (members d k) \<Longrightarrow> \<forall>k. distinct (members (leave_channel c x d) k)"
  by (simp add: leave_channel_def Let_def drop_member_def distinct_removeAll)

lemma distinct_fold_leave:
  "\<forall>k. distinct (members d k) \<Longrightarrow> \<forall>k. distinct (members (fold (leave_channel c) xs d) k)"
  by (induction xs arbitrary: d) (use distinct_leave in auto)

lemma distinct_subscribe: "subscribers_distinct r \<Longrightarrow> subscribers_distinct (subscribe c chs r)"
  unfolding subscribe_def
  by (induction chs arbitrary: r) (auto simp: subscribe_one_def subscribers_distinct_def distinct_add)

lemma distinct_unsubscribe: "subscribers_distinct r \<Longrightarrow> subscribers_distinct (unsubscribe c chs r)"
  unfolding unsubscribe_def
  by (induction chs arbitrary: r) (auto simp: unsubscribe_one_def subscribers_distinct_def distinct_leave)

interpretation router_distinct: preserved router_step subscribers_distinct
proof
  fix r e assume d: "subscribers_distinct r"
  show "subscribers_distinct (router_step r e)"
  proof (cases e)
    case (Disconnect c)
    with d distinct_fold_leave [of "rt_channels r" c] show ?thesis
      by (simp add: disconnect_def subscribers_distinct_def)
  qed (use d distinct_subscribe distinct_unsubscribe in simp_all)
qed

text \<open>
  What a publication sends: to a subscriber of the wallet's channel the event once; to anyone else
  once for a subscription to the pair's channel and once more for one to \<open>all\<close>, so a client
  subscribed to both receives the same event twice.
\<close>

theorem publication_copies:
  assumes "r = foldl router_step (router_init k) es"
  shows "length (filter (\<lambda>(c, ch). c = client) (publish_targets ev r)) =
    (if client \<in> set (get_subscribers (wallet_channel ev) r) then 1
     else of_bool (client \<in> set (get_subscribers (pair_channel ev) r)) + of_bool (client \<in> set (get_subscribers ''all'' r)))"
proof -
  have one: "length (filter (\<lambda>(c, ch). c = client) (map (\<lambda>c. (c, x)) cs)) = of_bool (client \<in> set cs)"
    if "distinct cs" for cs and x :: string
    using that by (induction cs) auto
  have "subscribers_distinct (router_init k)"
    by (simp add: subscribers_distinct_def router_init_def members_def)
  then have "subscribers_distinct r" unfolding assms by (rule router_distinct.run_inv)
  then have d: "distinct (get_subscribers ch r)" "distinct (filter P (get_subscribers ch r))" for ch P
    by (simp_all add: subscribers_distinct_def get_subscribers_def)
  show ?thesis
    unfolding publish_targets_def Let_def filter_append length_append one [OF d(1)] one [OF d(2)] by auto
qed

text \<open>
  An event that no subscriber of its wallet's channel hears of is never put into a replay buffer,
  even if subscribers of its pair or of \<open>all\<close> receive it.
\<close>

theorem unheard_wallet_not_replayed:
  assumes "get_subscribers (wallet_channel ev) (sv_router sv) = []"
  shows "sv_replay (publish cfg ev sv) = sv_replay sv"
  using assms by (simp add: publish_def Let_def)

subsection \<open>Connections of one client\<close>

text \<open>
  A connection refused because the server is full takes the client's existing session with it:
  its registration, its subscriptions and its abuse record are removed.
\<close>

theorem refused_connection_evicts:
  assumes "verify_token decode token = Some c" and "sub_of c = client" and "client \<noteq> []"
    and "wf_max_clients cfg \<le> length (sv_clients sv)" and "abstracts (sv_router sv) P"
  shows "let sv' = open_session cfg decode n (Some token) now sv in
    dict_get (sv_clients sv') client = None \<and> (\<forall>ch. client \<notin> set (get_subscribers ch (sv_router sv'))) \<and>
    enqueue cfg client m sv' = sv'"
proof -
  have "open_session cfg decode n (Some token) now sv = cleanup client sv"
    using assms(1-4) by (simp add: open_session_def)
  moreover have "dict_get (sv_clients (cleanup client sv)) client = None"
    using assms(3) by (simp add: cleanup_def)
  moreover have "client \<notin> set (get_subscribers ch (disconnect client (sv_router sv)))" for ch
    using disconnect_abstracts [OF assms(5), of client]
    by (fastforce simp: abstracts_def router_ok_def get_subscribers_def)
  ultimately show ?thesis using assms(3) by (simp add: Let_def enqueue_def) (simp add: cleanup_def)
qed

text \<open>
  The server never enforces a block: it closes the connection of a client it blocks, which resets
  the detector, and the client's first message on its next connection is judged afresh.
\<close>

theorem blocked_client_returns:
  assumes "dict_get (sv_conns sv) n = Some c" and "cn_open c" and "cn_client c \<noteq> []"
    and "msg \<noteq> InInvalidJson" and "msg \<noteq> InRaises"
    and "av_blocked (fst (record_request hp acfg now fresh (cn_client c) (check_channel msg) (sv_abuse sv)))"
    and "now \<le> later" and "0 \<le> now" and "1 \<le> ab_max_wallets acfg"
  shows "\<not> av_blocked (fst (record_request hp acfg later fresh' (cn_client c) ch
    (sv_abuse (inbound hp acfg decode now fresh wall n msg sv))))"
proof -
  obtain v ab where r: "record_request hp acfg now fresh (cn_client c) (check_channel msg) (sv_abuse sv) = (v, ab)"
    by fastforce
  let ?sv = "send_to n (WsError (av_reason v)) (sv\<lparr>sv_abuse := ab\<rparr>)"
  obtain c' where c': "dict_get (sv_conns ?sv) n = Some c'" "cn_client c' = cn_client c" "cn_open c'"
    using assms(1,2) by (simp add: send_to_def)
  have "inbound hp acfg decode now fresh wall n msg sv = close_session n ?sv"
    using assms(1-6) by (simp add: inbound_def r)
  also have "sv_abuse \<dots> = reset_client (cn_client c) ab"
    using c' assms(3) by (simp add: close_session_def cleanup_def)
  finally have "sv_abuse (inbound hp acfg decode now fresh wall n msg sv) = reset_client (cn_client c) ab" .
  moreover have "\<not> av_blocked (fst (record_request hp acfg later fresh' (cn_client c) ch (reset_client (cn_client c) ab)))"
    using reset_unblocks [of later acfg hp fresh' "cn_client c" ch ab] assms(7-9) by simp
  ultimately show ?thesis by simp
qed

text \<open>The detector is shown the first channel of a subscription only: the others are not counted.\<close>

lemma later_channels_uncounted: "check_channel (InSubscribe (ch # chs)) = check_channel (InSubscribe [ch])"
  by simp

text \<open>
  A message the outbound limiter refuses is lost: it has left the queue, and the client is sent
  an error in its place.
\<close>

theorem limited_message_is_lost:
  assumes "dict_get (sv_conns sv) n = Some c" and "cn_open c" and "cn_queue c = m # q"
    and "fst (is_allowed now (cn_bucket c)) = False"
  shows "\<exists>c'. dict_get (sv_conns (outbound now n sv)) n = Some c' \<and> cn_queue c' = q \<and>
    cn_sent c' = cn_sent c @ [WsError ''rate_limit'']"
  using assms by (cases "is_allowed now (cn_bucket c)") (simp add: outbound_def send_to_def)

text \<open>A token bucket of the server: what it allows is bounded by its rate and the time passed.\<close>

fun allowed_count :: "token_bucket \<Rightarrow> clock list \<Rightarrow> nat" where
  "allowed_count b [] = 0"
| "allowed_count b (t # ts) = (let (ok, b') = is_allowed t b in of_bool ok + allowed_count b' ts)"

lemma allowed_bound:
  assumes "0 \<le> tb_rate b" and "sorted (tb_last b # ts)" and "0 \<le> tb_tokens b"
  shows "of_nat (allowed_count b ts) \<le> tb_tokens b + tb_rate b * (last (tb_last b # ts) - tb_last b)"
  using assms
proof (induction ts arbitrary: b)
  case (Cons t ts)
  obtain ok b' where a: "is_allowed t b = (ok, b')" by fastforce
  have t: "tb_last b \<le> t" using Cons.prems(2) by simp
  then have 0: "0 \<le> (t - tb_last b) * tb_rate b" using Cons.prems(1) by simp
  from a have b': "tb_rate b' = tb_rate b" "tb_last b' = t" "0 \<le> tb_tokens b'"
    "of_bool ok + tb_tokens b' \<le> tb_tokens b + (t - tb_last b) * tb_rate b"
    using 0 Cons.prems(1,3) by (auto simp: is_allowed_def Let_def split: if_splits)
  have "of_nat (allowed_count b' ts) \<le> tb_tokens b' + tb_rate b' * (last (tb_last b' # ts) - tb_last b')"
    using Cons.IH [of b'] Cons.prems b' by simp
  then have "of_bool ok + of_nat (allowed_count b' ts) \<le>
      tb_tokens b + ((t - tb_last b) * tb_rate b + tb_rate b * (last (t # ts) - t))"
    using b' by (simp only: b'(1,2))
  also have "(t - tb_last b) * tb_rate b + tb_rate b * (last (t # ts) - t) = tb_rate b * (last (t # ts) - tb_last b)"
    by (simp add: algebra_simps)
  finally show ?case by (simp add: a)
qed simp

subsection \<open>Witnesses\<close>

definition demo_decode :: "string \<Rightarrow> jwt_failure + claims" where
  "demo_decode t = (if t = ''T'' then Inr [(''sub'', JStr ''ann''), (''scope'', JStr ''scores:read'')] else Inl JWTError)"

definition demo_world :: ws_world where
  "demo_world = \<lparr>ww_config = \<lparr>wf_max_clients = 1, wf_depth = 1, wf_disconnect = False, wf_max_drops = 0,
       wf_rate = 1, wf_replay = 2, wf_grace = 0\<rparr>, ww_abuse = demo_abuse, ww_half_pow = demo_pow,
     ww_decode = demo_decode\<rparr>"

definition demo_score :: score_event where
  "demo_score = \<lparr>se_wallet = ''W'', se_pair = ''P'', se_body = JNull\<rparr>"

definition demo_history :: "ws_event list" where
  "demo_history = [WsOpen 0 (Some ''T'') 0, WsIn 0 (InSubscribe [''pair/P'', ''all'']) 0 0 0,
     WsPublish demo_score, WsOut 0 1]"

definition demo_server :: server where
  "demo_server = foldl (ws_step demo_world) (ws_init 1) demo_history"

text \<open>The state this history ends in.\<close>

lemma demo_server_value:
  "demo_server = \<lparr>sv_clients = [(''ann'', 0)],
    sv_conns = [(0, \<lparr>cn_client = ''ann'', cn_queue = [], cn_permissions = [''scores:read:all''], cn_exp = None,
        cn_drops = 1, cn_bucket = \<lparr>tb_rate = 1, tb_tokens = 0, tb_last = 1\<rparr>,
        cn_sent = [ScoreUpdate demo_score 1 ''all''], cn_open = True\<rparr>)],
    sv_seq = 1, sv_replay = [],
    sv_router = \<lparr>rt_max_attempts = 1, rt_subscriptions = [(''ann'', [''all'', ''pair/P''])],
        rt_channels = [(''pair/P'', [''ann'']), (''all'', [''ann''])]\<rparr>,
    sv_abuse = \<lparr>dt_states = [(''ann'', \<lparr>cs_request_times = [0], cs_window_start = 0, cs_wallets = [],
          cs_blocked_until = 0\<rparr>)],
        dt_reputations = [(''ann'', \<lparr>rp_score = 1 / 100, rp_updated_at = 0\<rparr>)]\<rparr>\<rparr>"
  by code_simp

definition demo_conn :: conn where
  "demo_conn = the (dict_get (sv_conns demo_server) 0)"

lemma demo_server_conn:
  "dict_get (sv_conns demo_server) 0 = Some demo_conn"
  "cn_sent demo_conn = [ScoreUpdate demo_score 1 ''all'']" "cn_client demo_conn = ''ann''"
  by (simp_all add: demo_conn_def demo_server_value)

lemma demo_tokens: "\<forall>e\<in>set demo_history. tokens_in {''T''} e"
  by (simp add: demo_history_def)

lemma updates_are_permitted_witness:
  "grants demo_world {''T''} ''ann'' ''all''"
  using updates_are_permitted [OF demo_tokens demo_server_def demo_server_conn(1)] demo_server_conn(2,3) by simp

lemma drop_notice_never_sent_witness:
  "DroppedNote 1 \<notin> set (cn_queue demo_conn) \<union> set (cn_sent demo_conn) \<and> cn_drops demo_conn = 1"
proof -
  have "cn_drops demo_conn = 1" by (simp add: demo_conn_def demo_server_value)
  with drop_notice_never_sent [OF demo_tokens demo_server_def demo_server_conn(1)] show ?thesis by blast
qed

lemma replay_is_ordered_witness:
  "\<exists>us. replay_since ''all'' 0 demo_server = map (\<lambda>(ev, s). ScoreUpdate ev s ''all'') us \<and> length us \<le> 2"
  using replay_is_ordered [OF demo_tokens demo_server_def, of "''all''" 0] by (auto simp: demo_world_def)

lemma publication_copies_witness:
  "length (filter (\<lambda>(c, ch). c = ''ann'')
     (publish_targets demo_score (foldl router_step (router_init 1) [Subscribe ''ann'' [''pair/P'', ''all'']]))) = 2"
proof -
  let ?r = "foldl router_step (router_init 1) [Subscribe ''ann'' [''pair/P'', ''all'']]"
  have "''ann'' \<notin> set (get_subscribers (wallet_channel demo_score) ?r)"
    "''ann'' \<in> set (get_subscribers (pair_channel demo_score) ?r)" "''ann'' \<in> set (get_subscribers ''all'' ?r)"
    by code_simp+
  with publication_copies [OF refl, of "''ann''" demo_score 1 "[Subscribe ''ann'' [''pair/P'', ''all'']]"]
  show ?thesis by (simp only: if_False of_bool_eq)
qed

lemma unheard_wallet_not_replayed_witness:
  "sv_replay (publish (ww_config demo_world) demo_score demo_server) = []"
proof -
  have "get_subscribers (wallet_channel demo_score) (sv_router demo_server) = []" "sv_replay demo_server = []"
    unfolding demo_server_value by code_simp+
  with unheard_wallet_not_replayed [OF this(1)] show ?thesis by simp
qed

lemma refused_connection_evicts_witness:
  "dict_get (sv_clients (open_session (ww_config demo_world) demo_decode 1 (Some ''T'') 2 demo_server)) ''ann'' = None \<and>
   dict_get (sv_clients demo_server) ''ann'' = Some 0"
proof -
  have v: "verify_token demo_decode ''T'' = Some [(''sub'', JStr ''ann''), (''scope'', JStr ''scores:read'')]"
    "wf_max_clients (ww_config demo_world) \<le> length (sv_clients demo_server)"
    "dict_get (sv_clients demo_server) ''ann'' = Some 0" unfolding demo_server_value by code_simp+
  have "ws_inv demo_world {''T''} demo_server"
    unfolding demo_server_def using ws_init_inv demo_tokens by (rule ws_run.run_inv_when)
  then obtain P where "abstracts (sv_router demo_server) P" by (auto simp: ws_inv_def router_granted_def)
  from refused_connection_evicts [OF v(1) _ _ v(2) this, of "''ann''" 1 2] v(3) show ?thesis
    by (simp add: sub_of_def Let_def)
qed

lemma blocked_client_returns_witness:
  "\<not> av_blocked (fst (record_request demo_pow demo_abuse 4 4 ''ann'' []
     (sv_abuse (inbound demo_pow demo_abuse demo_decode 3 3 3 0 InUnknown demo_server))))"
proof -
  have "cn_open demo_conn"
    "av_blocked (fst (record_request demo_pow demo_abuse 3 3 (cn_client demo_conn) (check_channel InUnknown) (sv_abuse demo_server)))"
    unfolding demo_conn_def demo_server_value by code_simp+
  from blocked_client_returns [OF demo_server_conn(1) this(1) _ _ _ this(2), of 4 4 "[]" demo_decode 3]
  show ?thesis by (simp add: demo_server_conn(3) demo_abuse_def)
qed

lemma limited_message_is_lost_witness:
  "\<exists>c'. dict_get (sv_conns (outbound 1 0 (publish (ww_config demo_world) demo_score demo_server))) 0 = Some c' \<and>
    cn_queue c' = [] \<and> cn_sent c' = [ScoreUpdate demo_score 1 ''all'', WsError ''rate_limit'']"
proof -
  let ?sv = "publish (ww_config demo_world) demo_score demo_server"
  define c where "c = the (dict_get (sv_conns ?sv) 0)"
  have c: "dict_get (sv_conns ?sv) 0 = Some c" "cn_open c" "cn_queue c = [ScoreUpdate demo_score 2 ''all'']"
    "fst (is_allowed 1 (cn_bucket c)) = False" "cn_sent c = [ScoreUpdate demo_score 1 ''all'']"
    unfolding c_def demo_server_value by code_simp+
  from limited_message_is_lost [OF c(1-4)] c(5) show ?thesis by simp
qed

end
