(* ===== verification/FeatureBuffer.thy ===== *)
theory FeatureBuffer
  imports Base
begin

text \<open>
  The rolling buffer of trades per wallet (\<open>streaming/feature_buffer.py\<close>): its bounds, the
  least-recently-used eviction, the guard against redelivered trades, and what a read does.

  The five dictionaries of the class always change together under the registry lock, so a wallet
  has one entry; the order of the dictionary is the order of last use. The Benford sketches are
  values of a type \<open>'s\<close> with the operations of the parameter record. \<open>build_feature_vector\<close> is left
  out: \<open>get_feature_row\<close> returns what it is given.
\<close>

record trade =
  tr_id :: string
  tr_time :: instant
  tr_base :: string
  tr_counter :: string
  tr_pair :: string
  tr_amount :: rat

record 's sketch_ops =
  sk_windows :: "nat list"
  sk_new :: "nat \<Rightarrow> 's"
  sk_update :: "rat \<Rightarrow> instant \<Rightarrow> 's \<Rightarrow> 's"

record 's wallet_entry =
  we_trades :: "trade list"
  we_seen :: "string list"
  we_sketches :: "(nat, 's) dict"
  we_pairs :: "(string, (nat, 's) dict) dict"

record 's feature_buffer =
  fb_max_trades :: nat
  fb_max_wallets :: "int option"
  fb_evictions :: nat
  fb_wallets :: "(string, 's wallet_entry) dict"

text \<open>\<open>__init__\<close>: zero or nothing disables the wallet bound; \<open>configured\<close> is the setting.\<close>

definition buffer_init :: "int \<Rightarrow> nat \<Rightarrow> int option \<Rightarrow> 's feature_buffer" where
  "buffer_init configured max_trades max_wallets =
     (let m = (case max_wallets of None \<Rightarrow> configured | Some m \<Rightarrow> m) in
        \<lparr>fb_max_trades = max_trades, fb_max_wallets = (if m = 0 then None else Some m),
         fb_evictions = 0, fb_wallets = []\<rparr>)"

definition new_sketches :: "'s sketch_ops \<Rightarrow> (nat, 's) dict" where
  "new_sketches ops = map (\<lambda>h. (h, sk_new ops (h * 3600))) (sk_windows ops)"

definition new_entry :: "'s sketch_ops \<Rightarrow> 's wallet_entry" where
  "new_entry ops = \<lparr>we_trades = [], we_seen = [], we_sketches = new_sketches ops, we_pairs = []\<rparr>"

text \<open>
  The eviction loop; \<open>None\<close> is the \<open>KeyError\<close> of \<open>popitem\<close> on an empty dictionary, which a negative
  bound reaches. The first component counts the evictions.
\<close>

fun evict_lru :: "int \<Rightarrow> (string, 'e) dict \<Rightarrow> (nat \<times> (string, 'e) dict) option" where
  "evict_lru m [] = (if m \<le> 0 then None else Some (0, []))"
| "evict_lru m (p # ps) =
     (if m \<le> int (length (p # ps)) then map_option (apfst Suc) (evict_lru m ps) else Some (0, p # ps))"

definition ensure_wallet :: "'s sketch_ops \<Rightarrow> string \<Rightarrow> 's feature_buffer \<Rightarrow> 's feature_buffer option" where
  "ensure_wallet ops wallet b =
     (case dict_get (fb_wallets b) wallet of
        Some e \<Rightarrow> Some (b\<lparr>fb_wallets := dict_pop wallet (fb_wallets b) @ [(wallet, e)]\<rparr>)
      | None \<Rightarrow>
          map_option (\<lambda>(n, d). b\<lparr>fb_evictions := fb_evictions b + n, fb_wallets := d @ [(wallet, new_entry ops)]\<rparr>)
            (case fb_max_wallets b of None \<Rightarrow> Some (0, fb_wallets b) | Some m \<Rightarrow> evict_lru m (fb_wallets b)))"

definition update_sketches :: "'s sketch_ops \<Rightarrow> trade \<Rightarrow> (nat, 's) dict \<Rightarrow> (nat, 's) dict" where
  "update_sketches ops t d = map (\<lambda>(h, s). (h, sk_update ops (tr_amount t) (tr_time t) s)) d"

text \<open>Appending to a \<open>deque\<close> with a maximal length drops from its left end.\<close>

definition push :: "nat \<Rightarrow> 'a \<Rightarrow> 'a list \<Rightarrow> 'a list" where
  "push maxlen x xs = drop (Suc (length xs) - maxlen) (xs @ [x])"

definition apply_trade :: "'s sketch_ops \<Rightarrow> nat \<Rightarrow> trade \<Rightarrow> 's wallet_entry \<Rightarrow> 's wallet_entry" where
  "apply_trade ops max_trades t e =
     (if tr_id t \<in> set (we_seen e) then e
      else
        (let seen = (if max_trades \<le> length (we_trades e) \<and> we_trades e \<noteq> []
                     then remove1 (tr_id (hd (we_trades e))) (we_seen e) else we_seen e);
             pairs = (case dict_get (we_pairs e) (tr_pair t) of
                        None \<Rightarrow> dict_set (tr_pair t) (new_sketches ops) (we_pairs e)
                      | Some _ \<Rightarrow> we_pairs e)
         in e\<lparr>we_trades := push max_trades t (we_trades e),
              we_seen := seen @ [tr_id t],
              we_sketches := update_sketches ops t (we_sketches e),
              we_pairs := map (\<lambda>(p, d). (p, if p = tr_pair t then update_sketches ops t d else d)) pairs\<rparr>))"

definition update_wallet :: "'s sketch_ops \<Rightarrow> trade \<Rightarrow> string \<Rightarrow> 's feature_buffer \<Rightarrow> 's feature_buffer option"
where
  "update_wallet ops t wallet b =
     map_option (\<lambda>b. b\<lparr>fb_wallets :=
         map (\<lambda>(w, e). (w, if w = wallet then apply_trade ops (fb_max_trades b) t e else e)) (fb_wallets b)\<rparr>)
       (ensure_wallet ops wallet b)"

definition update :: "'s sketch_ops \<Rightarrow> trade \<Rightarrow> 's feature_buffer \<Rightarrow> 's feature_buffer option" where
  "update ops t b =
     (case update_wallet ops t (tr_base t) b of
        None \<Rightarrow> None
      | Some b' \<Rightarrow> update_wallet ops t (tr_counter t) b')"

text \<open>\<open>get_feature_row\<close>: what it hands to \<open>build_feature_vector\<close>, if anything.\<close>

definition get_feature_row ::
  "'s sketch_ops \<Rightarrow> string \<Rightarrow> 's feature_buffer \<Rightarrow> ('s wallet_entry option \<times> 's feature_buffer) option"
where
  "get_feature_row ops wallet b =
     map_option (\<lambda>b'. (case dict_get (fb_wallets b') wallet of
         None \<Rightarrow> None
       | Some e \<Rightarrow> if we_trades e = [] then None else Some e, b')) (ensure_wallet ops wallet b)"

definition wallet_trade_count :: "string \<Rightarrow> 's feature_buffer \<Rightarrow> nat" where
  "wallet_trade_count wallet b =
     (case dict_get (fb_wallets b) wallet of None \<Rightarrow> 0 | Some e \<Rightarrow> length (we_trades e))"

definition all_wallets :: "'s feature_buffer \<Rightarrow> string list" where
  "all_wallets b = dict_keys (fb_wallets b)"

record buffer_statistics =
  bs_wallets :: nat
  bs_trades :: nat
  bs_occupancy :: rat
  bs_evictions :: nat

definition buffer_stats :: "'s feature_buffer \<Rightarrow> buffer_statistics" where
  "buffer_stats b =
     \<lparr>bs_wallets = length (fb_wallets b),
      bs_trades = sum_list (map (\<lambda>(w, e). length (we_trades e)) (fb_wallets b)),
      bs_occupancy = (case fb_max_wallets b of None \<Rightarrow> 0 | Some m \<Rightarrow> of_nat (length (fb_wallets b)) / of_int m),
      bs_evictions = fb_evictions b\<rparr>"

subsection \<open>Bounds\<close>

definition entry_ok :: "nat \<Rightarrow> 's wallet_entry \<Rightarrow> bool" where
  "entry_ok max_trades e \<longleftrightarrow>
     length (we_trades e) \<le> max_trades \<and> we_seen e = map tr_id (we_trades e) \<and> distinct (we_seen e)"

definition buffer_ok :: "'s feature_buffer \<Rightarrow> bool" where
  "buffer_ok b \<longleftrightarrow>
     0 < fb_max_trades b \<and> dict_ok (fb_wallets b) \<and>
     (\<forall>m. fb_max_wallets b = Some m \<longrightarrow> 0 < m \<and> int (length (fb_wallets b)) \<le> m) \<and>
     (\<forall>w e. (w, e) \<in> set (fb_wallets b) \<longrightarrow> entry_ok (fb_max_trades b) e)"

lemma evict_lru_result:
  assumes "0 < m"
  shows "\<exists>n. evict_lru m d = Some (n, drop n d) \<and> n \<le> length d \<and>
    int (length d) - int n < m \<and> (0 < n \<longrightarrow> int (length d) - int n = m - 1)"
proof (induction d)
  case (Cons p d)
  then obtain n where n: "evict_lru m d = Some (n, drop n d)" "n \<le> length d" "int (length d) - int n < m"
    "0 < n \<longrightarrow> int (length d) - int n = m - 1" by blast
  show ?case
  proof (cases "m \<le> int (length (p # d))")
    case True
    with n have "evict_lru m (p # d) = Some (Suc n, drop (Suc n) (p # d))" by simp
    moreover have "int (length (p # d)) - int (Suc n) = m - 1" using n True by (cases n) auto
    ultimately show ?thesis using n by (intro exI [of _ "Suc n"]) auto
  next
    case False
    then show ?thesis by (intro exI [of _ 0]) simp
  qed
qed (use assms in simp)

lemma dict_ok_move:
  "dict_ok d \<Longrightarrow> dict_ok (dict_pop k d @ [(k, e)])"
  by (auto simp: dict_ok_def AList.delete_eq distinct_map_filter)

lemma push_length [simp]: "length (push n x xs) = min n (Suc (length xs))"
  by (simp add: push_def)

lemma apply_trade_ok:
  assumes "entry_ok n e" and "0 < n"
  shows "entry_ok n (apply_trade ops n t e)"
proof (cases "tr_id t \<in> set (we_seen e)")
  case True
  with assms show ?thesis by (simp add: apply_trade_def)
next
  case False
  have e: "length (we_trades e) \<le> n" "we_seen e = map tr_id (we_trades e)" "distinct (map tr_id (we_trades e))"
    using assms(1) unfolding entry_ok_def by metis+
  show ?thesis
  proof (cases "n \<le> length (we_trades e)")
    case True
    then obtain x xs where x: "we_trades e = x # xs" using assms(2) by (cases "we_trades e") auto
    with True e False show ?thesis
      by (auto simp: apply_trade_def entry_ok_def Let_def push_def)
  next
    case small: False
    with e False show ?thesis
      by (auto simp: apply_trade_def entry_ok_def Let_def push_def)
  qed
qed

lemma ensure_wallet_ok:
  assumes "buffer_ok b"
  shows "\<exists>b'. ensure_wallet ops w b = Some b' \<and> buffer_ok b' \<and> w \<in> set (dict_keys (fb_wallets b')) \<and>
    fb_max_trades b' = fb_max_trades b \<and> fb_max_wallets b' = fb_max_wallets b"
proof (cases "dict_get (fb_wallets b) w")
  case (Some e)
  let ?b = "b\<lparr>fb_wallets := dict_pop w (fb_wallets b) @ [(w, e)]\<rparr>"
  have mem: "(w, e) \<in> set (fb_wallets b)" using Some by (rule map_of_SomeD)
  then have "length (dict_pop w (fb_wallets b)) < length (fb_wallets b)"
    by (auto simp: AList.delete_eq intro!: length_filter_less [where x = "(w, e)"])
  moreover have "set (dict_pop w (fb_wallets b)) \<subseteq> set (fb_wallets b)" by (auto simp: AList.delete_eq)
  ultimately have "buffer_ok ?b"
    using assms mem by (fastforce simp: buffer_ok_def dict_ok_move)
  with Some show ?thesis by (simp add: ensure_wallet_def)
next
  case None
  have new: "entry_ok (fb_max_trades b) (new_entry ops)" by (simp add: entry_ok_def new_entry_def)
  have fresh: "w \<notin> set (dict_keys (fb_wallets b))" using None by (simp add: map_of_eq_None_iff)
  obtain n where n: "(case fb_max_wallets b of None \<Rightarrow> Some (0, fb_wallets b) | Some m \<Rightarrow> evict_lru m (fb_wallets b)) =
      Some (n, drop n (fb_wallets b))" "\<forall>m. fb_max_wallets b = Some m \<longrightarrow> int (length (drop n (fb_wallets b))) < m"
  proof (cases "fb_max_wallets b")
    case (Some m)
    then have "0 < m" using assms by (simp add: buffer_ok_def)
    from evict_lru_result [OF this, of "fb_wallets b"] Some that show ?thesis by auto
  qed (use that [of 0] in simp)
  let ?b = "b\<lparr>fb_evictions := fb_evictions b + n, fb_wallets := drop n (fb_wallets b) @ [(w, new_entry ops)]\<rparr>"
  have sub: "set (drop n (fb_wallets b)) \<subseteq> set (fb_wallets b)" by (rule set_drop_subset)
  have "distinct (map fst (drop n (fb_wallets b)))"
    using assms by (simp add: buffer_ok_def dict_ok_def drop_map [symmetric])
  moreover have "w \<notin> set (map fst (drop n (fb_wallets b)))" using fresh sub by auto
  ultimately have "dict_ok (drop n (fb_wallets b) @ [(w, new_entry ops)])" by (simp add: dict_ok_def)
  moreover have "\<forall>m. fb_max_wallets b = Some m \<longrightarrow> 0 < m \<and> int (length (drop n (fb_wallets b) @ [(w, new_entry ops)])) \<le> m"
    using n(2) assms by (auto simp: buffer_ok_def)
  moreover have "\<forall>v e. (v, e) \<in> set (drop n (fb_wallets b) @ [(w, new_entry ops)]) \<longrightarrow> entry_ok (fb_max_trades b) e"
    using sub assms new by (auto simp: buffer_ok_def)
  ultimately have "buffer_ok ?b" using assms by (simp add: buffer_ok_def)
  with None n(1) show ?thesis by (simp add: ensure_wallet_def)
qed

lemma update_wallet_ok:
  assumes "buffer_ok b"
  shows "\<exists>b'. update_wallet ops t w b = Some b' \<and> buffer_ok b' \<and>
    fb_max_trades b' = fb_max_trades b \<and> fb_max_wallets b' = fb_max_wallets b"
proof -
  obtain c where c: "ensure_wallet ops w b = Some c" "buffer_ok c" "fb_max_trades c = fb_max_trades b"
    "fb_max_wallets c = fb_max_wallets b"
    using ensure_wallet_ok [OF assms] by blast
  let ?f = "\<lambda>(v, e). (v, if v = w then apply_trade ops (fb_max_trades c) t e else e)"
  have "map fst (map ?f (fb_wallets c)) = map fst (fb_wallets c)" by (simp add: case_prod_beta)
  then have "dict_ok (map ?f (fb_wallets c))" using c(2) unfolding buffer_ok_def dict_ok_def by metis
  moreover have "entry_ok (fb_max_trades c) e" if "(v, e) \<in> set (map ?f (fb_wallets c))" for v e
    using that c(2) by (auto simp: buffer_ok_def apply_trade_ok)
  ultimately have "buffer_ok (c\<lparr>fb_wallets := map ?f (fb_wallets c)\<rparr>)"
    using c(2) by (simp add: buffer_ok_def)
  with c show ?thesis by (simp add: update_wallet_def)
qed

lemma total_le:
  "(\<forall>v e. (v, e) \<in> set d \<longrightarrow> length (we_trades e) \<le> n) \<Longrightarrow>
     sum_list (map (\<lambda>(v, e). length (we_trades e)) d) \<le> length d * n"
proof (induction d)
  case (Cons p d)
  then have "length (we_trades (snd p)) \<le> n" by (cases p) auto
  with Cons show ?case by (force simp: case_prod_beta)
qed simp

datatype buffer_event = BufferUpdate trade | BufferRead string

fun buffer_step :: "'s sketch_ops \<Rightarrow> 's feature_buffer \<Rightarrow> buffer_event \<Rightarrow> 's feature_buffer" where
  "buffer_step ops b (BufferUpdate t) = (case update ops t b of None \<Rightarrow> b | Some b' \<Rightarrow> b')"
| "buffer_step ops b (BufferRead w) = (case get_feature_row ops w b of None \<Rightarrow> b | Some (r, b') \<Rightarrow> b')"

lemma update_ok:
  assumes "buffer_ok b"
  shows "\<exists>b'. update ops t b = Some b' \<and> buffer_ok b' \<and>
    fb_max_trades b' = fb_max_trades b \<and> fb_max_wallets b' = fb_max_wallets b"
proof -
  obtain c where c: "update_wallet ops t (tr_base t) b = Some c" "buffer_ok c"
    "fb_max_trades c = fb_max_trades b" "fb_max_wallets c = fb_max_wallets b"
    using update_wallet_ok [OF assms] by blast
  with update_wallet_ok [OF c(2), of ops t "tr_counter t"] show ?thesis by (auto simp: update_def)
qed

interpretation buffer_run: preserved "buffer_step ops"
  "\<lambda>b. buffer_ok b \<and> fb_max_trades b = n \<and> fb_max_wallets b = m" for ops :: "'s sketch_ops" and n m
proof
  fix b :: "'s feature_buffer" and e
  assume b: "buffer_ok b \<and> fb_max_trades b = n \<and> fb_max_wallets b = m"
  show "buffer_ok (buffer_step ops b e) \<and> fb_max_trades (buffer_step ops b e) = n \<and>
      fb_max_wallets (buffer_step ops b e) = m"
  proof (cases e)
    case (BufferUpdate t)
    with b update_ok [of b ops t] show ?thesis by auto
  next
    case (BufferRead w)
    with b ensure_wallet_ok [of b ops w] show ?thesis by (auto simp: get_feature_row_def)
  qed
qed

text \<open>
  Memory is bounded: after any history of updates and reads the buffer holds at most
  \<open>max_wallets\<close> wallets and \<open>max_wallets * max_trades\<close> trades, and no operation raises.
\<close>

theorem buffer_memory_bound:
  assumes "0 < n" and "0 < m" and "b = foldl (buffer_step ops) (buffer_init c n (Some m)) es"
  shows "int (bs_wallets (buffer_stats b)) \<le> m \<and> int (bs_trades (buffer_stats b)) \<le> m * int n \<and>
    update ops t b \<noteq> None \<and> get_feature_row ops w b \<noteq> None"
proof -
  have "buffer_ok (buffer_init c n (Some m)) \<and> fb_max_trades (buffer_init c n (Some m)) = n \<and>
      fb_max_wallets (buffer_init c n (Some m)) = Some m"
    using assms(1,2) by (simp add: buffer_ok_def buffer_init_def)
  then have ok: "buffer_ok b" "fb_max_trades b = n" "fb_max_wallets b = Some m"
    using buffer_run.run_inv assms(3) by blast+
  then have len: "int (length (fb_wallets b)) \<le> m" by (simp add: buffer_ok_def)
  have "\<forall>w e. (w, e) \<in> set (fb_wallets b) \<longrightarrow> length (we_trades e) \<le> n"
    using ok unfolding buffer_ok_def entry_ok_def by metis
  from total_le [OF this] have "int (bs_trades (buffer_stats b)) \<le> int (length (fb_wallets b)) * int n"
    unfolding buffer_stats_def by (simp flip: of_nat_mult)
  also have "\<dots> \<le> m * int n" using len by (intro mult_right_mono) auto
  finally show ?thesis
    using len update_ok [OF ok(1), of ops t] ensure_wallet_ok [OF ok(1), of ops w]
    by (auto simp: buffer_stats_def get_feature_row_def)
qed

lemma buffer_memory_bound_witness:
  "int (bs_wallets (buffer_stats (foldl (buffer_step \<lparr>sk_windows = [], sk_new = (\<lambda>n. []), sk_update = (\<lambda>a t s. a # s)\<rparr>)
     (buffer_init 0 2 (Some 3)) [BufferRead ''G1'']))) \<le> 3"
  using buffer_memory_bound [of 2 3 _ "\<lparr>sk_windows = [], sk_new = (\<lambda>n. []), sk_update = (\<lambda>a t s. a # s)\<rparr>" 0
    "[BufferRead ''G1'']"] by simp

subsection \<open>Redelivery\<close>

lemma dict_pop_snoc: "w \<notin> set (dict_keys d) \<Longrightarrow> dict_pop w (d @ [(w, e)]) = d"
  by (force simp: AList.delete_eq filter_id_conv)

lemma dict_pop_snoc_other: "w \<noteq> v \<Longrightarrow> dict_pop w (d @ [(v, e)]) = dict_pop w d @ [(v, e)]"
  by (simp add: AList.delete_eq)

lemma apply_trade_seen: "0 < n \<Longrightarrow> tr_id t \<in> set (we_seen (apply_trade ops n t e))"
  by (simp add: apply_trade_def Let_def)

lemma map_snoc_entry:
  assumes "w \<notin> set (dict_keys d)"
  shows "map (\<lambda>(v, e). (v, if v = w then f e else e)) (d @ [(w, e)]) = d @ [(w, f e)]"
proof -
  have "map (\<lambda>(v, e). (v, if v = w then f e else e)) d = d"
    using assms by (intro map_idI) force
  then show ?thesis by simp
qed

text \<open>A wallet that has seen the trade is only moved to the end of the order.\<close>

lemma update_wallet_seen:
  assumes "dict_ok (fb_wallets b)" and "dict_get (fb_wallets b) w = Some e" and "tr_id t \<in> set (we_seen e)"
  shows "update_wallet ops t w b = Some (b\<lparr>fb_wallets := dict_pop w (fb_wallets b) @ [(w, e)]\<rparr>)"
proof -
  have "w \<notin> set (dict_keys (dict_pop w (fb_wallets b)))" by (auto simp: AList.delete_eq)
  from map_snoc_entry [OF this, of "apply_trade ops (fb_max_trades b) t" e] assms show ?thesis
    by (simp add: update_wallet_def ensure_wallet_def apply_trade_def cong: if_cong)
qed

lemma dict_pop_middle:
  assumes "w \<notin> set (dict_keys p)" and "w \<notin> set (dict_keys r)"
  shows "dict_pop w (p @ (w, e) # r) = p @ r"
proof -
  have "dict_pop w p = p" "dict_pop w r = r"
    using assms by (force simp: AList.delete_eq filter_id_conv)+
  then show ?thesis by (simp add: AList.delete_eq)
qed

lemma dict_get_middle:
  assumes "w \<notin> set (dict_keys p)"
  shows "dict_get (p @ (w, e) # r) w = Some e"
  using assms by (induction p) auto

lemma update_wallet_at:
  assumes "fb_wallets b = p @ (w, e) # r" and "dict_ok (fb_wallets b)" and "tr_id t \<in> set (we_seen e)"
  shows "update_wallet ops t w b = Some (b\<lparr>fb_wallets := p @ r @ [(w, e)]\<rparr>)"
proof -
  have w: "w \<notin> set (dict_keys p)" "w \<notin> set (dict_keys r)"
    using assms(1,2) by (simp_all add: dict_ok_def)
  from update_wallet_seen [OF assms(2) _ assms(3), of w ops] dict_get_middle [OF w(1), of e r]
    dict_pop_middle [OF w, of e] assms(1)
  show ?thesis by simp
qed

lemma update_wallet_shape:
  assumes "buffer_ok b"
  shows "\<exists>n pre e. update_wallet ops t w b =
      Some (b\<lparr>fb_evictions := fb_evictions b + n, fb_wallets := pre @ [(w, e)]\<rparr>) \<and>
    tr_id t \<in> set (we_seen e) \<and> w \<notin> set (dict_keys pre) \<and>
    (pre = dict_pop w (fb_wallets b) \<or>
     pre = drop n (fb_wallets b) \<and>
       (0 < n \<longrightarrow> (\<exists>m. fb_max_wallets b = Some m \<and> int (length pre) = m - 1)))"
proof (cases "dict_get (fb_wallets b) w")
  case (Some e)
  have "w \<notin> set (dict_keys (dict_pop w (fb_wallets b)))" by (auto simp: AList.delete_eq)
  from map_snoc_entry [OF this, of "apply_trade ops (fb_max_trades b) t" e] Some this assms show ?thesis
    by (intro exI [of _ 0] exI [of _ "dict_pop w (fb_wallets b)"]
        exI [of _ "apply_trade ops (fb_max_trades b) t e"])
      (simp add: update_wallet_def ensure_wallet_def buffer_ok_def apply_trade_seen cong: if_cong)
next
  case None
  then have fresh: "w \<notin> set (dict_keys (fb_wallets b))" by (simp add: map_of_eq_None_iff)
  obtain n where n: "(case fb_max_wallets b of None \<Rightarrow> Some (0, fb_wallets b) | Some m \<Rightarrow> evict_lru m (fb_wallets b)) =
      Some (n, drop n (fb_wallets b))"
    "0 < n \<longrightarrow> (\<exists>m. fb_max_wallets b = Some m \<and> int (length (drop n (fb_wallets b))) = m - 1)"
  proof (cases "fb_max_wallets b")
    case (Some m)
    then have "0 < m" using assms by (simp add: buffer_ok_def)
    from evict_lru_result [OF this, of "fb_wallets b"] Some that show ?thesis by auto
  qed (use that [of 0] in simp)
  have "w \<notin> set (dict_keys (drop n (fb_wallets b)))"
    using fresh set_drop_subset [of n "fb_wallets b"] by auto
  from map_snoc_entry [OF this, of "apply_trade ops (fb_max_trades b) t" "new_entry ops"] this None n assms
  show ?thesis
    by (intro exI [of _ n] exI [of _ "drop n (fb_wallets b)"]
        exI [of _ "apply_trade ops (fb_max_trades b) t (new_entry ops)"])
      (simp add: update_wallet_def ensure_wallet_def buffer_ok_def apply_trade_seen cong: if_cong)
qed

lemma update_settles:
  assumes "buffer_ok b" and "fb_max_wallets b \<noteq> Some 1"
  shows "\<exists>b'. update ops t b = Some b' \<and> update ops t b' = Some b'"
proof -
  obtain n1 p1 e1 where u1: "update_wallet ops t (tr_base t) b =
      Some (b\<lparr>fb_evictions := fb_evictions b + n1, fb_wallets := p1 @ [(tr_base t, e1)]\<rparr>)"
    and s1: "tr_id t \<in> set (we_seen e1)" and f1: "tr_base t \<notin> set (dict_keys p1)"
    using update_wallet_shape [OF assms(1)] by blast
  define c where "c = b\<lparr>fb_evictions := fb_evictions b + n1, fb_wallets := p1 @ [(tr_base t, e1)]\<rparr>"
  have c: "buffer_ok c" "fb_max_wallets c = fb_max_wallets b"
    using update_wallet_ok [OF assms(1), of ops t "tr_base t"] u1 by (simp_all add: c_def)
  obtain n2 p2 e2 where u2: "update_wallet ops t (tr_counter t) c =
      Some (c\<lparr>fb_evictions := fb_evictions c + n2, fb_wallets := p2 @ [(tr_counter t, e2)]\<rparr>)"
    and s2: "tr_id t \<in> set (we_seen e2)" and f2: "tr_counter t \<notin> set (dict_keys p2)"
    and d2: "p2 = dict_pop (tr_counter t) (fb_wallets c) \<or> p2 = drop n2 (fb_wallets c) \<and>
       (0 < n2 \<longrightarrow> (\<exists>m. fb_max_wallets c = Some m \<and> int (length p2) = m - 1))"
    using update_wallet_shape [OF c(1)] by blast
  define b' where "b' = c\<lparr>fb_evictions := fb_evictions c + n2, fb_wallets := p2 @ [(tr_counter t, e2)]\<rparr>"
  have b': "update ops t b = Some b'" using u1 u2 by (simp add: update_def b'_def c_def)
  have ok: "dict_ok (fb_wallets b')"
    using update_ok [OF assms(1), of ops t] b' by (auto simp: buffer_ok_def)
  have "update ops t b' = Some b'"
  proof (cases "tr_base t = tr_counter t")
    case True
    have "update_wallet ops t (tr_counter t) b' = Some b'"
      using update_wallet_at [OF _ ok s2, of p2 "tr_counter t" "[]" ops] by (simp add: b'_def)
    with True show ?thesis by (simp add: update_def)
  next
    case False
    have "\<exists>q. p2 = q @ [(tr_base t, e1)] \<and> tr_base t \<notin> set (dict_keys q)"
      using d2
    proof
      assume "p2 = dict_pop (tr_counter t) (fb_wallets c)"
      then have "p2 = dict_pop (tr_counter t) p1 @ [(tr_base t, e1)]"
        using False by (simp add: c_def dict_pop_snoc_other)
      moreover have "tr_base t \<notin> set (dict_keys (dict_pop (tr_counter t) p1))"
        using f1 by (auto simp: AList.delete_eq)
      ultimately show ?thesis by blast
    next
      assume d: "p2 = drop n2 (fb_wallets c) \<and>
        (0 < n2 \<longrightarrow> (\<exists>m. fb_max_wallets c = Some m \<and> int (length p2) = m - 1))"
      have "n2 \<le> length p1"
      proof (rule ccontr)
        assume "\<not> n2 \<le> length p1"
        then have "length p2 = 0" "0 < n2" using d by (simp_all add: c_def)
        with d c(2) assms(2) show False by auto
      qed
      then have "p2 = drop n2 p1 @ [(tr_base t, e1)]" using d by (simp add: c_def)
      moreover have "tr_base t \<notin> set (dict_keys (drop n2 p1))"
        using f1 set_drop_subset [of n2 p1] by auto
      ultimately show ?thesis by blast
    qed
    then obtain q where q: "p2 = q @ [(tr_base t, e1)]" "tr_base t \<notin> set (dict_keys q)" by blast
    let ?d = "b'\<lparr>fb_wallets := q @ [(tr_counter t, e2), (tr_base t, e1)]\<rparr>"
    have "update_wallet ops t (tr_base t) b' = Some ?d"
      using update_wallet_at [OF _ ok s1, of q "tr_base t" "[(tr_counter t, e2)]" ops] q
      by (simp add: b'_def)
    moreover have "dict_ok (fb_wallets ?d)" using ok q by (auto simp: b'_def dict_ok_def)
    then have "update_wallet ops t (tr_counter t) ?d = Some b'"
      using update_wallet_at [of ?d q "tr_counter t" e2 "[(tr_base t, e1)]" t ops] s2 q
      by (simp add: b'_def)
    ultimately show ?thesis by (simp add: update_def)
  qed
  with b' show ?thesis by blast
qed

text \<open>
  A trade delivered twice in a row, with any history before, leaves the buffer exactly as one
  delivery does, provided the bound on wallets is not one.
\<close>

theorem redelivery_changes_nothing:
  assumes "0 < n" and "1 < m"
    and "b = foldl (buffer_step ops) (buffer_init c n (Some m)) es"
  shows "buffer_step ops (buffer_step ops b (BufferUpdate t)) (BufferUpdate t) =
    buffer_step ops b (BufferUpdate t)"
proof -
  have "buffer_ok (buffer_init c n (Some m)) \<and> fb_max_trades (buffer_init c n (Some m)) = n \<and>
      fb_max_wallets (buffer_init c n (Some m)) = Some m"
    using assms(1,2) by (simp add: buffer_ok_def buffer_init_def)
  then have "buffer_ok b" "fb_max_wallets b = Some m"
    using buffer_run.run_inv assms(3) by blast+
  with assms(2) update_settles [of b ops t] show ?thesis by auto
qed

definition demo_sketch :: "rat list sketch_ops" where
  "demo_sketch = \<lparr>sk_windows = [24], sk_new = (\<lambda>n. []), sk_update = (\<lambda>a t s. a # s)\<rparr>"

definition demo_buffer_trade :: "string \<Rightarrow> string \<Rightarrow> string \<Rightarrow> trade" where
  "demo_buffer_trade i a b =
     \<lparr>tr_id = i, tr_time = 0, tr_base = a, tr_counter = b, tr_pair = ''XLM/USDC'', tr_amount = 7\<rparr>"

lemma redelivery_changes_nothing_witness:
  "buffer_step demo_sketch (buffer_step demo_sketch (buffer_init 0 1 (Some 2)) (BufferUpdate (demo_buffer_trade ''t'' ''A'' ''B'')))
     (BufferUpdate (demo_buffer_trade ''t'' ''A'' ''B'')) =
   buffer_step demo_sketch (buffer_init 0 1 (Some 2)) (BufferUpdate (demo_buffer_trade ''t'' ''A'' ''B''))"
  by (rule redelivery_changes_nothing [of 1 2 _ demo_sketch 0 "[]"]) simp_all

text \<open>
  The guard remembers no more than the window does: once a wallet has seen \<open>max_trades\<close> other
  trades, or with a bound of one wallet, the redelivered trade is applied again and the
  digit sketches count it twice.
\<close>

theorem forgotten_trade_counts_twice:
  "map_option (\<lambda>e. dict_get (we_sketches e) 24) (dict_get (fb_wallets
     (foldl (buffer_step demo_sketch) (buffer_init 0 1 None)
       (map BufferUpdate [demo_buffer_trade ''t'' ''A'' ''B'', demo_buffer_trade ''u'' ''A'' ''B'',
         demo_buffer_trade ''t'' ''A'' ''B'']))) ''A'') = Some (Some [7, 7, 7]) \<and>
   foldl (buffer_step demo_sketch) (buffer_init 0 5 (Some 1))
       (map BufferUpdate [demo_buffer_trade ''t'' ''A'' ''B'', demo_buffer_trade ''t'' ''A'' ''B'']) \<noteq>
     foldl (buffer_step demo_sketch) (buffer_init 0 5 (Some 1))
       [BufferUpdate (demo_buffer_trade ''t'' ''A'' ''B'')]"
  by (simp add: buffer_init_def update_def update_wallet_def ensure_wallet_def demo_buffer_trade_def
      demo_sketch_def new_entry_def new_sketches_def apply_trade_def update_sketches_def push_def)

text \<open>
  Reading is not harmless: asking for the features of a wallet without trades registers it and
  evicts the wallet used longest ago, with its trades.
\<close>

theorem reads_evict:
  assumes "buffer_ok b" and "dict_get (fb_wallets b) w = None"
    and "fb_max_wallets b = Some (int (length (fb_wallets b)))"
    and "fb_wallets b = (v, e) # d"
  shows "\<exists>b'. get_feature_row ops w b = Some (None, b') \<and> fb_evictions b' = fb_evictions b + 1 \<and>
    wallet_trade_count v b' = 0 \<and> v \<notin> set (all_wallets b') \<and> w \<in> set (all_wallets b')"
proof -
  have fresh: "w \<noteq> v" "w \<notin> set (dict_keys d)"
    using assms(2,4) by (auto simp: map_of_eq_None_iff split: if_splits)
  have gone: "v \<notin> set (dict_keys d)" using assms(1,4) by (simp add: buffer_ok_def dict_ok_def)
  have "evict_lru (int (Suc (length d))) ((v, e) # d) = Some (1, d)"
    by (cases d) auto
  with assms(2-4) have "ensure_wallet ops w b =
      Some (b\<lparr>fb_evictions := fb_evictions b + 1, fb_wallets := d @ [(w, new_entry ops)]\<rparr>)"
    by (simp add: ensure_wallet_def)
  moreover have "dict_get (d @ [(w, new_entry ops)]) w = Some (new_entry ops)"
    using fresh by (simp add: map_add_def map_of_eq_None_iff [THEN iffD2] split: option.split)
  moreover have "dict_get (d @ [(w, new_entry ops)]) v = None"
    using fresh gone by (auto simp: map_of_eq_None_iff)
  ultimately show ?thesis
    using fresh gone
    by (simp add: get_feature_row_def new_entry_def wallet_trade_count_def all_wallets_def del: map_of_append)
qed

lemma reads_evict_witness:
  "\<exists>b'. get_feature_row demo_sketch ''C''
      (buffer_init 0 5 (Some 1)\<lparr>fb_wallets := [(''B'', new_entry demo_sketch)]\<rparr>) = Some (None, b') \<and>
    fb_evictions b' = fb_evictions (buffer_init 0 5 (Some 1)\<lparr>fb_wallets := [(''B'', new_entry demo_sketch)]\<rparr>) + 1 \<and>
    wallet_trade_count ''B'' b' = 0 \<and> ''B'' \<notin> set (all_wallets b') \<and> ''C'' \<in> set (all_wallets b')"
  by (rule reads_evict [of _ _ "''B''" "new_entry demo_sketch" "[]"])
    (simp_all add: buffer_init_def buffer_ok_def entry_ok_def new_entry_def dict_ok_def)

end
