(* ===== verification/Glob.thy ===== *)
theory Glob
  imports Base
begin

text \<open>
  \<open>fnmatch.fnmatch\<close> of Python's standard library on a POSIX system, which the alert router's pair
  patterns use: \<open>*\<close> matches any text, \<open>?\<close> any character, \<open>[seq]\<close> and \<open>[!seq]\<close> a character in
  or outside a set of characters and ranges; a bracket that is never closed is a literal. A pattern
  is compiled to tokens and the tokens are matched against the whole name.
\<close>

datatype class_item = CSingle char | CRange char char

datatype glob_token = GLit char | GAny | GStar | GClass bool "class_item list"

fun class_items :: "string \<Rightarrow> class_item list" where
  "class_items [] = []"
| "class_items (a # s) =
     (case s of
        b # c # r \<Rightarrow> if b = CHR ''-'' then CRange a c # class_items r else CSingle a # class_items s
      | _ \<Rightarrow> CSingle a # class_items s)"

fun class_has :: "class_item \<Rightarrow> char \<Rightarrow> bool" where
  "class_has (CSingle a) c = (c = a)"
| "class_has (CRange a b) c = (a \<le> c \<and> c \<le> b)"

text \<open>The text up to the closing bracket and the rest; a bracket in first place is a member.\<close>

fun until_bracket :: "string \<Rightarrow> (string \<times> string) option" where
  "until_bracket [] = None"
| "until_bracket (c # s) =
     (if c = CHR '']'' then Some ([], s)
      else (case until_bracket s of None \<Rightarrow> None | Some (x, r) \<Rightarrow> Some (c # x, r)))"

definition class_body :: "string \<Rightarrow> (string \<times> string) option" where
  "class_body s =
     (if s \<noteq> [] \<and> hd s = CHR '']'' then map_option (apfst (Cons (CHR '']''))) (until_bracket (tl s))
      else until_bracket s)"

definition class_of :: "string \<Rightarrow> (glob_token \<times> string) option" where
  "class_of s =
     (let neg = (s \<noteq> [] \<and> hd s = CHR ''!'') in
        map_option (apfst (\<lambda>x. GClass neg (class_items x))) (class_body (if neg then tl s else s)))"

lemma until_bracket_shorter: "until_bracket s = Some (x, r) \<Longrightarrow> length r < length s"
proof (induction s arbitrary: x)
  case (Cons c s)
  then show ?case by (cases "until_bracket s") (auto split: if_splits intro: less_SucI)
qed simp

lemma class_body_shorter: "class_body s = Some (x, r) \<Longrightarrow> length r < length s"
  by (cases s) (auto simp: class_body_def split: if_splits dest: until_bracket_shorter intro: less_SucI
      simp del: until_bracket.simps)

lemma class_of_shorter: "class_of s = Some (t, r) \<Longrightarrow> length r < length s"
  by (cases s) (auto simp: class_of_def Let_def split: if_splits dest: class_body_shorter intro: less_SucI)

function glob_tokens :: "string \<Rightarrow> glob_token list" where
  "glob_tokens [] = []"
| "glob_tokens (c # s) =
     (if c = CHR ''*'' then GStar # glob_tokens s
      else if c = CHR ''?'' then GAny # glob_tokens s
      else if c = CHR ''['' then
        (case class_of s of None \<Rightarrow> GLit c # glob_tokens s | Some (t, r) \<Rightarrow> t # glob_tokens r)
      else GLit c # glob_tokens s)"
  by pat_completeness auto
termination
  by (relation "measure length") (auto dest!: class_of_shorter)

fun glob_match :: "glob_token list \<Rightarrow> string \<Rightarrow> bool" where
  "glob_match [] s = (s = [])"
| "glob_match (GStar # ts) [] = glob_match ts []"
| "glob_match (GStar # ts) (c # s) = (glob_match ts (c # s) \<or> glob_match (GStar # ts) s)"
| "glob_match (GLit a # ts) (c # s) = (c = a \<and> glob_match ts s)"
| "glob_match (GAny # ts) (c # s) = glob_match ts s"
| "glob_match (GClass neg items # ts) (c # s) =
     (((\<exists>i\<in>set items. class_has i c) \<noteq> neg) \<and> glob_match ts s)"
| "glob_match (_ # ts) [] = False"

definition fnmatch :: "string \<Rightarrow> string \<Rightarrow> bool" where
  "fnmatch name pat = glob_match (glob_tokens pat) name"

subsection \<open>What a pattern matches\<close>

text \<open>The language of a list of tokens, as a relation.\<close>

inductive in_glob :: "glob_token list \<Rightarrow> string \<Rightarrow> bool" where
  in_Nil: "in_glob [] []"
| in_star: "in_glob ts s \<Longrightarrow> in_glob (GStar # ts) (x @ s)"
| in_any: "in_glob ts s \<Longrightarrow> in_glob (GAny # ts) (c # s)"
| in_lit: "in_glob ts s \<Longrightarrow> in_glob (GLit c # ts) (c # s)"
| in_class: "in_glob ts s \<Longrightarrow> (\<exists>i\<in>set items. class_has i c) \<noteq> neg \<Longrightarrow> in_glob (GClass neg items # ts) (c # s)"

inductive_cases in_glob_Nil: "in_glob [] s"
inductive_cases in_glob_star: "in_glob (GStar # ts) s"
inductive_cases in_glob_any: "in_glob (GAny # ts) s"
inductive_cases in_glob_lit: "in_glob (GLit c # ts) s"
inductive_cases in_glob_class: "in_glob (GClass neg items # ts) s"

lemma glob_match_star_append: "glob_match ts s \<Longrightarrow> glob_match (GStar # ts) (x @ s)"
proof (induction x)
  case Nil
  then show ?case by (cases s) simp_all
qed simp

lemma glob_match_complete: "in_glob ts s \<Longrightarrow> glob_match ts s"
  by (induction rule: in_glob.induct) (auto intro: glob_match_star_append)

lemma glob_match_sound: "glob_match ts s \<Longrightarrow> in_glob ts s"
proof (induction ts s rule: glob_match.induct)
  case (2 ts)
  then show ?case using in_star [of ts "[]" "[]"] by simp
next
  case (3 ts c s)
  show ?case
  proof (cases "glob_match ts (c # s)")
    case True
    then show ?thesis using 3(1) in_star [of ts "c # s" "[]"] by simp
  next
    case False
    then have "in_glob (GStar # ts) s" using 3 by simp
    then obtain x r where "s = x @ r" "in_glob ts r" by (rule in_glob_star)
    then show ?thesis using in_star [of ts r "c # x"] by simp
  qed
qed (auto intro: in_glob.intros)

theorem glob_match_exact: "glob_match ts s \<longleftrightarrow> in_glob ts s"
  using glob_match_complete glob_match_sound by blast

definition plain :: "string \<Rightarrow> bool" where
  "plain s \<longleftrightarrow> (\<forall>c\<in>set s. c \<noteq> CHR ''*'' \<and> c \<noteq> CHR ''?'' \<and> c \<noteq> CHR ''['')"

lemma glob_tokens_plain: "plain s \<Longrightarrow> glob_tokens (s @ r) = map GLit s @ glob_tokens r"
  by (induction s) (auto simp: plain_def)

lemma glob_match_lits: "glob_match (map GLit p @ ts) s \<longleftrightarrow> (\<exists>r. s = p @ r \<and> glob_match ts r)"
proof (induction p arbitrary: s)
  case (Cons a p)
  then show ?case by (cases s) auto
qed simp

lemma glob_match_all: "glob_match [GStar] s"
  by (induction s) simp_all

theorem fnmatch_plain: "plain p \<Longrightarrow> fnmatch s p \<longleftrightarrow> s = p"
  using glob_tokens_plain [of p "[]"] glob_match_lits [of p "[]" s] by (simp add: fnmatch_def)

theorem fnmatch_prefix: "plain p \<Longrightarrow> fnmatch s (p @ ''*'') \<longleftrightarrow> (\<exists>r. s = p @ r)"
  using glob_match_lits [of p "[GStar]" s] by (simp add: fnmatch_def glob_tokens_plain glob_match_all)

lemma glob_match_star: "glob_match (GStar # ts) s \<longleftrightarrow> (\<exists>x r. s = x @ r \<and> glob_match ts r)"
proof
  assume "glob_match (GStar # ts) s"
  then show "\<exists>x r. s = x @ r \<and> glob_match ts r"
    unfolding glob_match_exact by (elim in_glob_star) blast
qed (auto intro: glob_match_star_append)

lemma glob_match_lits_end: "glob_match (map GLit p) s \<longleftrightarrow> s = p"
  using glob_match_lits [of p "[]" s] by simp

theorem fnmatch_infix:
  "plain p \<Longrightarrow> plain q \<Longrightarrow> fnmatch s (p @ ''*'' @ q) \<longleftrightarrow> (\<exists>x. s = p @ x @ q)"
  using glob_tokens_plain [of q "[]"]
  by (auto simp: fnmatch_def glob_tokens_plain glob_match_lits glob_match_star glob_match_lits_end)

end
