(* ===== verification/AlertRouter.thy ===== *)
theory AlertRouter
  imports Floats Glob
begin

text \<open>
  The declarative alert router (\<open>alerts/router.py\<close>): rules and what they match, the union of their
  destinations, and the loader of \<open>alerts/routing_config.yaml\<close>, which is included as \<open>shipped_config\<close>.

  A configuration is a value of \<open>yaml\<close> (mappings with text keys); \<open>yaml.safe_load\<close> itself and
  \<open>float()\<close> of a text are parameters. Alerts have the fields their \<open>TypedDict\<close> declares that
  routing or \<open>build_per_pair_degradation_alert\<close> uses; each may be missing.
\<close>

datatype yaml = YNull | YBool bool | YInt int | YFloat xf | YStr string | YList "yaml list"
  | YMap "(string \<times> yaml) list"

datatype router_error = RoutingConfigError yaml string | RouterTypeError | RouterOverflowError
  | RouterAttributeError

record route_alert =
  al_asset_pair :: "string option"
  al_detectors :: "string list option"
  al_risk_score :: "xf option"
  al_tenant :: "string option"
  al_metric :: "string option"
  al_degradation :: "xf option"

record route_destination =
  rd_channel :: yaml
  rd_target :: yaml
  rd_severity :: yaml

record routing_rule =
  rr_name :: yaml
  rr_destinations :: "route_destination list"
  rr_min_risk_score :: "xf option"
  rr_detectors :: "yaml list option"
  rr_patterns :: "yaml list option"
  rr_tenant :: yaml
  rr_stop :: bool

text \<open>\<open>bool()\<close>, and the key a value has in a set or dictionary: equal numbers are one key.\<close>

fun truthy :: "yaml \<Rightarrow> bool" where
  "truthy YNull = False"
| "truthy (YBool b) = b"
| "truthy (YInt i) = (i \<noteq> 0)"
| "truthy (YFloat x) = (x \<noteq> Fin 0)"
| "truthy (YStr s) = (s \<noteq> [])"
| "truthy (YList xs) = (xs \<noteq> [])"
| "truthy (YMap m) = (m \<noteq> [])"

fun hash_key :: "yaml \<Rightarrow> yaml option" where
  "hash_key (YBool b) = Some (YFloat (Fin (if b then 1 else 0)))"
| "hash_key (YInt i) = Some (YFloat (Fin (of_int i)))"
| "hash_key (YList xs) = None"
| "hash_key (YMap m) = None"
| "hash_key v = Some v"

text \<open>\<open>RouteDestination.key\<close>; \<open>None\<close> is the \<open>TypeError\<close> of hashing a list or mapping.\<close>

definition dest_key :: "route_destination \<Rightarrow> (yaml \<times> yaml) option" where
  "dest_key d =
     (case (hash_key (rd_channel d), hash_key (rd_target d)) of
        (Some c, Some t) \<Rightarrow> Some (c, t) | _ \<Rightarrow> None)"

fun any_pattern :: "string \<Rightarrow> yaml list \<Rightarrow> bool option" where
  "any_pattern pair [] = Some False"
| "any_pattern pair (YStr p # ps) = (if fnmatch pair p then Some True else any_pattern pair ps)"
| "any_pattern pair (_ # ps) = None"

text \<open>\<open>RoutingRule.matches\<close>; \<open>None\<close> is the \<open>TypeError\<close> of a pattern that is no text.\<close>

definition rule_matches :: "routing_rule \<Rightarrow> route_alert \<Rightarrow> bool option" where
  "rule_matches r a =
     (if (\<exists>m. rr_min_risk_score r = Some m \<and>
            x_lt (case al_risk_score a of None \<Rightarrow> Fin 0 | Some x \<Rightarrow> x) m) then Some False
      else if (\<exists>ds. rr_detectors r = Some ds \<and>
            (\<forall>d\<in>set (case al_detectors a of None \<Rightarrow> [] | Some xs \<Rightarrow> xs). YStr d \<notin> set ds)) then Some False
      else
        (case (case rr_patterns r of
                 None \<Rightarrow> Some True
               | Some ps \<Rightarrow> any_pattern (case al_asset_pair a of None \<Rightarrow> [] | Some p \<Rightarrow> p) ps) of
           None \<Rightarrow> None
         | Some False \<Rightarrow> Some False
         | Some True \<Rightarrow> Some (rr_tenant r = YNull \<or> (\<exists>t. al_tenant a = Some t \<and> rr_tenant r = YStr t))))"

fun add_destinations ::
  "route_destination list \<Rightarrow> route_destination list \<Rightarrow> route_destination list option"
where
  "add_destinations matched [] = Some matched"
| "add_destinations matched (d # ds) =
     (case dest_key d of
        None \<Rightarrow> None
      | Some k \<Rightarrow> add_destinations (if Some k \<in> set (map dest_key matched) then matched else matched @ [d]) ds)"

fun route_rules ::
  "route_alert \<Rightarrow> routing_rule list \<Rightarrow> route_destination list \<Rightarrow> route_destination list option"
where
  "route_rules a [] matched = Some matched"
| "route_rules a (r # rs) matched =
     (case rule_matches r a of
        None \<Rightarrow> None
      | Some False \<Rightarrow> route_rules a rs matched
      | Some True \<Rightarrow>
          (case add_destinations matched (rr_destinations r) of
             None \<Rightarrow> None
           | Some m \<Rightarrow> if rr_stop r then Some m else route_rules a rs m))"

definition route ::
  "routing_rule list \<Rightarrow> route_destination list \<Rightarrow> route_alert \<Rightarrow> route_destination list option"
where
  "route rules defaults a =
     map_option (\<lambda>m. if m = [] then defaults else m) (route_rules a rules [])"

fun explain :: "routing_rule list \<Rightarrow> route_alert \<Rightarrow> yaml list option" where
  "explain [] a = Some []"
| "explain (r # rs) a =
     (case rule_matches r a of
        None \<Rightarrow> None
      | Some b \<Rightarrow> map_option (\<lambda>ns. if b then rr_name r # ns else ns) (explain rs a))"

definition build_per_pair_degradation_alert ::
  "string \<Rightarrow> string \<Rightarrow> xf \<Rightarrow> string \<Rightarrow> xf \<Rightarrow> string option \<Rightarrow> route_alert"
where
  "build_per_pair_degradation_alert pair metric magnitude detector risk tenant =
     \<lparr>al_asset_pair = Some pair, al_detectors = Some [detector], al_risk_score = Some risk,
      al_tenant = tenant, al_metric = Some metric, al_degradation = Some magnitude\<rparr>"

subsection \<open>Loading\<close>

definition yget :: "(string \<times> yaml) list \<Rightarrow> string \<Rightarrow> yaml" where
  "yget m k = (case dict_get m k of None \<Rightarrow> YNull | Some v \<Rightarrow> v)"

definition quoted :: "string \<Rightarrow> string" where
  "quoted s = CHR 0x27 # s @ [CHR 0x27]"

fun parse_destination :: "yaml \<Rightarrow> yaml \<Rightarrow> router_error + route_destination" where
  "parse_destination rule_id (YMap m) =
     (case dict_get m ''channel'' of
        None \<Rightarrow> Inl (RoutingConfigError rule_id (''destination missing required key '' @ quoted ''channel''))
      | Some c \<Rightarrow>
          (case dict_get m ''target'' of
             None \<Rightarrow> Inl (RoutingConfigError rule_id (''destination missing required key '' @ quoted ''target''))
           | Some t \<Rightarrow> Inr \<lparr>rd_channel = c, rd_target = t,
               rd_severity = (case dict_get m ''severity_label'' of None \<Rightarrow> YStr ''default'' | Some s \<Rightarrow> s)\<rparr>))"
| "parse_destination rule_id _ = Inl RouterTypeError"

fun parse_each :: "(yaml \<Rightarrow> 'e + 'a) \<Rightarrow> yaml list \<Rightarrow> 'e + 'a list" where
  "parse_each f [] = Inr []"
| "parse_each f (y # ys) =
     (case f y of
        Inl e \<Rightarrow> Inl e
      | Inr x \<Rightarrow> (case parse_each f ys of Inl e \<Rightarrow> Inl e | Inr xs \<Rightarrow> Inr (x # xs)))"

text \<open>Iterating over a value: the characters of a text, the keys of a mapping.\<close>

fun iterated :: "yaml \<Rightarrow> yaml list option" where
  "iterated (YList xs) = Some xs"
| "iterated (YStr s) = Some (map (\<lambda>c. YStr [c]) s)"
| "iterated (YMap m) = Some (map (YStr \<circ> fst) m)"
| "iterated _ = None"

text \<open>\<open>float()\<close>: an integer that rounds to \<open>2 ** 1024\<close> raises \<open>OverflowError\<close>.\<close>

fun to_float :: "(string \<Rightarrow> xf option) \<Rightarrow> yaml \<Rightarrow> yaml \<Rightarrow> router_error + xf" where
  "to_float parse rule_id (YFloat x) = Inr x"
| "to_float parse rule_id (YBool b) = Inr (Fin (if b then 1 else 0))"
| "to_float parse rule_id (YInt i) =
     (if \<bar>i\<bar> \<ge> 2 ^ 1024 - 2 ^ 970 then Inl RouterOverflowError else Inr (Fin (of_int i)))"
| "to_float parse rule_id (YStr s) =
     (case parse s of
        Some x \<Rightarrow> Inr x
      | None \<Rightarrow> Inl (RoutingConfigError rule_id ''min_risk_score must be numeric''))"
| "to_float parse rule_id _ = Inl (RoutingConfigError rule_id ''min_risk_score must be numeric'')"

definition parse_min_score :: "(string \<Rightarrow> xf option) \<Rightarrow> yaml \<Rightarrow> yaml \<Rightarrow> router_error + xf option" where
  "parse_min_score parse rule_id v =
     (if v = YNull then Inr None else map_sum id Some (to_float parse rule_id v))"

definition parse_detectors :: "yaml \<Rightarrow> yaml \<Rightarrow> router_error + yaml list option" where
  "parse_detectors rule_id v =
     (case v of
        YNull \<Rightarrow> Inr None
      | YList xs \<Rightarrow> if None \<in> set (map hash_key xs) then Inl RouterTypeError else Inr (Some xs)
      | _ \<Rightarrow> Inl (RoutingConfigError rule_id ''detectors must be a list''))"

definition parse_patterns :: "yaml \<Rightarrow> yaml \<Rightarrow> router_error + yaml list option" where
  "parse_patterns rule_id v =
     (case v of
        YNull \<Rightarrow> Inr None
      | YList xs \<Rightarrow> Inr (Some xs)
      | _ \<Rightarrow> Inl (RoutingConfigError rule_id ''asset_pair_patterns must be a list''))"

fun parse_rule :: "(string \<Rightarrow> xf option) \<Rightarrow> nat \<Rightarrow> yaml \<Rightarrow> router_error + routing_rule" where
  "parse_rule parse index (YMap m) =
     (let name = yget m ''name'';
          rule_id = (if truthy name then name else YStr (''rule#'' @ dec index))
      in if \<not> truthy (yget m ''destinations'')
         then Inl (RoutingConfigError rule_id ''rule must define at least one destination'')
         else case iterated (yget m ''destinations'') of
                None \<Rightarrow> Inl RouterTypeError
              | Some raws \<Rightarrow>
          (case parse_each (parse_destination rule_id) raws of Inl e \<Rightarrow> Inl e | Inr destinations \<Rightarrow>
          (case parse_min_score parse rule_id (yget m ''min_risk_score'') of Inl e \<Rightarrow> Inl e | Inr min_score \<Rightarrow>
          (case parse_detectors rule_id (yget m ''detectors'') of Inl e \<Rightarrow> Inl e | Inr detectors \<Rightarrow>
          (case parse_patterns rule_id (yget m ''asset_pair_patterns'') of Inl e \<Rightarrow> Inl e | Inr patterns \<Rightarrow>
             Inr \<lparr>rr_name = rule_id, rr_destinations = destinations, rr_min_risk_score = min_score,
                  rr_detectors = detectors, rr_patterns = patterns, rr_tenant = yget m ''tenant'',
                  rr_stop = truthy (yget m ''stop_on_match'')\<rparr>)))))"
| "parse_rule parse index _ = Inl RouterAttributeError"

fun parse_rules :: "(string \<Rightarrow> xf option) \<Rightarrow> nat \<Rightarrow> yaml list \<Rightarrow> router_error + routing_rule list" where
  "parse_rules parse i [] = Inr []"
| "parse_rules parse i (y # ys) =
     (case parse_rule parse i y of
        Inl e \<Rightarrow> Inl e
      | Inr r \<Rightarrow> (case parse_rules parse (Suc i) ys of Inl e \<Rightarrow> Inl e | Inr rs \<Rightarrow> Inr (r # rs)))"

text \<open>\<open>value or []\<close> followed by the check that it is a list.\<close>

definition as_list :: "yaml \<Rightarrow> string \<Rightarrow> router_error + yaml list" where
  "as_list v reason =
     (if \<not> truthy v then Inr []
      else case v of YList xs \<Rightarrow> Inr xs | _ \<Rightarrow> Inl (RoutingConfigError (YStr ''<root>'') reason))"

definition load_routing_config ::
  "(string \<Rightarrow> xf option) \<Rightarrow> yaml \<Rightarrow> router_error + (routing_rule list \<times> route_destination list)"
where
  "load_routing_config parse loaded =
     (case (if truthy loaded then loaded else YMap []) of
        YMap m \<Rightarrow>
          (case as_list (yget m ''rules'') (quoted ''rules'' @ '' must be a list'') of Inl e \<Rightarrow> Inl e | Inr raws \<Rightarrow>
          (case parse_rules parse 0 raws of Inl e \<Rightarrow> Inl e | Inr rules \<Rightarrow>
          (case as_list (yget m ''default_destinations'') (quoted ''default_destinations'' @ '' must be a list'') of
             Inl e \<Rightarrow> Inl e
           | Inr ds \<Rightarrow> map_sum id (\<lambda>defaults. (rules, defaults))
               (parse_each (parse_destination (YStr ''<default>'')) ds))))
      | _ \<Rightarrow> Inl (RoutingConfigError (YStr ''<root>'') ''config root must be a mapping''))"

subsection \<open>What is routed where\<close>

text \<open>Rules whose patterns are texts and destinations whose keys can be hashed, as annotated.\<close>

definition well_typed :: "routing_rule \<Rightarrow> bool" where
  "well_typed r \<longleftrightarrow>
     (\<forall>ps. rr_patterns r = Some ps \<longrightarrow> (\<forall>p\<in>set ps. \<exists>s. p = YStr s)) \<and>
     (\<forall>d\<in>set (rr_destinations r). dest_key d \<noteq> None)"

text \<open>The rules an alert fires: those that match, up to the first that stops.\<close>

definition fires :: "route_alert \<Rightarrow> routing_rule \<Rightarrow> bool" where
  "fires a r \<longleftrightarrow>
     (case rr_min_risk_score r of None \<Rightarrow> True
        | Some m \<Rightarrow> \<not> x_lt (case al_risk_score a of None \<Rightarrow> Fin 0 | Some x \<Rightarrow> x) m) \<and>
     (case rr_detectors r of None \<Rightarrow> True
        | Some ds \<Rightarrow> (case al_detectors a of None \<Rightarrow> False | Some xs \<Rightarrow> (\<exists>d\<in>set xs. YStr d \<in> set ds))) \<and>
     (case rr_patterns r of None \<Rightarrow> True
        | Some ps \<Rightarrow> (\<exists>p. YStr p \<in> set ps \<and> fnmatch (case al_asset_pair a of None \<Rightarrow> [] | Some s \<Rightarrow> s) p)) \<and>
     (rr_tenant r = YNull \<or> (\<exists>t. al_tenant a = Some t \<and> rr_tenant r = YStr t))"

fun upto_stop :: "routing_rule list \<Rightarrow> routing_rule list" where
  "upto_stop [] = []"
| "upto_stop (r # rs) = (if rr_stop r then [r] else r # upto_stop rs)"

fun first_of_key :: "route_destination list \<Rightarrow> route_destination list" where
  "first_of_key [] = []"
| "first_of_key (d # ds) = d # filter (\<lambda>x. dest_key x \<noteq> dest_key d) (first_of_key ds)"

lemma any_pattern_texts:
  "\<forall>p\<in>set ps. \<exists>s. p = YStr s \<Longrightarrow> any_pattern pair ps = Some (\<exists>p. YStr p \<in> set ps \<and> fnmatch pair p)"
  by (induction pair ps rule: any_pattern.induct) auto

lemma rule_matches_fires: "well_typed r \<Longrightarrow> rule_matches r a = Some (fires a r)"
  by (cases "rr_patterns r"; cases "rr_min_risk_score r"; cases "rr_detectors r"; cases "al_detectors a")
    (auto simp: rule_matches_def fires_def well_typed_def any_pattern_texts split: bool.split)

lemma first_of_key_append:
  "first_of_key (xs @ ys) =
     first_of_key xs @ filter (\<lambda>y. dest_key y \<notin> dest_key ` set xs) (first_of_key ys)"
  by (induction xs) (auto simp: intro!: filter_cong)

lemma set_first_of_key: "dest_key ` set (first_of_key xs) = dest_key ` set xs"
proof (induction xs)
  case (Cons d xs)
  have "dest_key ` set (first_of_key (d # xs)) =
      insert (dest_key d) (dest_key ` {x \<in> set (first_of_key xs). dest_key x \<noteq> dest_key d})"
    by auto
  also have "\<dots> = insert (dest_key d) (dest_key ` set (first_of_key xs))" by auto
  finally show ?case using Cons by simp
qed simp

lemma first_of_key_Nil [simp]: "first_of_key xs = [] \<longleftrightarrow> xs = []"
  by (cases xs) auto

lemma add_destinations_result:
  "\<forall>d\<in>set ds. dest_key d \<noteq> None \<Longrightarrow>
     add_destinations (first_of_key xs) ds = Some (first_of_key (xs @ ds))"
proof (induction ds arbitrary: xs)
  case (Cons d ds)
  then obtain k where k: "dest_key d = Some k" by auto
  have "(if Some k \<in> set (map dest_key (first_of_key xs)) then first_of_key xs else first_of_key xs @ [d]) =
      first_of_key (xs @ [d])"
    using k by (simp add: first_of_key_append set_first_of_key)
  with Cons k show ?case by simp
qed simp

lemma route_rules_result:
  assumes "\<forall>r\<in>set rules. well_typed r"
  shows "route_rules a rules (first_of_key xs) =
    Some (first_of_key (xs @ concat (map rr_destinations (upto_stop (filter (fires a) rules)))))"
  using assms
proof (induction rules arbitrary: xs)
  case (Cons r rs)
  then have m: "rule_matches r a = Some (fires a r)"
    and d: "\<forall>d\<in>set (rr_destinations r). dest_key d \<noteq> None"
    by (simp_all add: rule_matches_fires) (simp add: well_typed_def)
  show ?case
    using Cons m add_destinations_result [OF d, of xs] by (cases "fires a r") auto
qed simp

text \<open>
  C31. Routing computes the destinations of the matching rules up to the first that stops, each
  channel and target once, with the label of the first rule that named it; the defaults are used
  when there are none.
\<close>

theorem route_exact:
  assumes "\<forall>r\<in>set rules. well_typed r"
  shows "route rules defaults a =
    (let ds = concat (map rr_destinations (upto_stop (filter (fires a) rules))) in
       Some (if ds = [] then defaults else first_of_key ds))"
  using route_rules_result [OF assms, of a "[]"] by (simp add: route_def Let_def)

definition demo_dest :: "string \<Rightarrow> string \<Rightarrow> string \<Rightarrow> route_destination" where
  "demo_dest c t l = \<lparr>rd_channel = YStr c, rd_target = YStr t, rd_severity = YStr l\<rparr>"

definition demo_rule :: "string \<Rightarrow> route_destination list \<Rightarrow> xf option \<Rightarrow> bool \<Rightarrow> routing_rule" where
  "demo_rule n ds m stop = \<lparr>rr_name = YStr n, rr_destinations = ds, rr_min_risk_score = m,
     rr_detectors = None, rr_patterns = None, rr_tenant = YNull, rr_stop = stop\<rparr>"

lemma route_exact_witness:
  "route [demo_rule ''low'' [demo_dest ''slack'' ''a'' ''x''] (Some (Fin 10)) False,
      demo_rule ''high'' [demo_dest ''slack'' ''a'' ''y'', demo_dest ''pager'' ''b'' ''z''] (Some (Fin 90)) True,
      demo_rule ''all'' [demo_dest ''hook'' ''c'' ''z''] None False]
     [] (build_per_pair_degradation_alert ''p'' ''auc'' (Fin 1) ''d'' (Fin 95) None) =
   Some [demo_dest ''slack'' ''a'' ''x'', demo_dest ''pager'' ''b'' ''z'']"
  by (subst route_exact)
    (simp_all add: well_typed_def demo_rule_def demo_dest_def dest_key_def fires_def
      build_per_pair_degradation_alert_def)

text \<open>
  C0. A rule in the configuration is read only through the keys it knows: a misspelled key is
  ignored without an error, so a rule whose only condition is misspelled matches every alert.
\<close>

definition known_keys :: "string list" where
  "known_keys = [''name'', ''destinations'', ''min_risk_score'', ''detectors'', ''asset_pair_patterns'',
     ''tenant'', ''stop_on_match'']"

definition condition_keys :: "string list" where
  "condition_keys = [''min_risk_score'', ''detectors'', ''asset_pair_patterns'', ''tenant'']"

theorem misspelled_condition_matches_all:
  assumes "parse_rule parse i (YMap m) = Inr r" and "\<forall>k\<in>set condition_keys. dict_get m k = None"
  shows "parse_rule parse i (YMap (filter (\<lambda>(k, v). k \<in> set known_keys) m)) = Inr r \<and> rule_matches r a = Some True"
proof -
  let ?m = "filter (\<lambda>(k, v). k \<in> set known_keys) m"
  have "dict_get ?m k = dict_get m k" if "k \<in> set known_keys" for k
    using that by (induction m) auto
  then have g: "yget ?m k = yget m k" if "k \<in> set known_keys" for k
    using that by (simp add: yget_def)
  have keys: "yget ?m ''name'' = yget m ''name''" "yget ?m ''destinations'' = yget m ''destinations''"
    "yget ?m ''min_risk_score'' = yget m ''min_risk_score''" "yget ?m ''detectors'' = yget m ''detectors''"
    "yget ?m ''asset_pair_patterns'' = yget m ''asset_pair_patterns''" "yget ?m ''tenant'' = yget m ''tenant''"
    "yget ?m ''stop_on_match'' = yget m ''stop_on_match''"
    by (rule g, simp add: known_keys_def)+
  have "parse_rule parse i (YMap ?m) = parse_rule parse i (YMap m)"
    by (simp only: parse_rule.simps keys)
  moreover have none: "yget m ''min_risk_score'' = YNull" "yget m ''detectors'' = YNull"
    "yget m ''asset_pair_patterns'' = YNull" "yget m ''tenant'' = YNull"
    using assms(2) by (simp_all add: yget_def condition_keys_def)
  have "rr_min_risk_score r = None \<and> rr_detectors r = None \<and> rr_patterns r = None \<and> rr_tenant r = YNull"
    using assms(1)
    by (simp only: parse_rule.simps none parse_min_score_def parse_detectors_def parse_patterns_def Let_def)
      (auto split: if_splits option.splits sum.splits)
  then have "rule_matches r a = Some True" by (simp add: rule_matches_def)
  ultimately show ?thesis using assms(1) by simp
qed

lemma misspelled_condition_matches_all_witness:
  "parse_rule (\<lambda>s. None) 0 (YMap (filter (\<lambda>(k, v). k \<in> set known_keys)
      [(''name'', YStr ''x''), (''min_risk'', YInt 90),
       (''destinations'', YList [YMap [(''channel'', YStr ''c''), (''target'', YStr ''t'')]])])) =
    Inr (demo_rule ''x'' [demo_dest ''c'' ''t'' ''default''] None False) \<and>
   rule_matches (demo_rule ''x'' [demo_dest ''c'' ''t'' ''default''] None False)
     (build_per_pair_degradation_alert ''p'' ''auc'' (Fin 1) ''d'' (Fin 1) None) = Some True"
  by (rule misspelled_condition_matches_all)
    (simp_all add: demo_rule_def demo_dest_def condition_keys_def yget_def parse_min_score_def
      parse_detectors_def parse_patterns_def)

text \<open>
  An alert whose risk score is NaN passes every lower bound a rule sets.
\<close>

theorem nan_risk_passes:
  "al_risk_score a = Some NaN \<Longrightarrow> rule_matches r a = rule_matches (r\<lparr>rr_min_risk_score := None\<rparr>) a"
  by (cases r, cases "al_detectors a")
    (auto simp: rule_matches_def cong: option.case_cong bool.case_cong)

lemma nan_risk_passes_witness:
  "rule_matches (demo_rule ''high'' [] (Some (Fin 90)) True)
      (build_per_pair_degradation_alert ''p'' ''auc'' (Fin 1) ''d'' NaN None) =
    rule_matches (demo_rule ''high'' [] (Some (Fin 90)) True\<lparr>rr_min_risk_score := None\<rparr>)
      (build_per_pair_degradation_alert ''p'' ''auc'' (Fin 1) ''d'' NaN None)"
  by (rule nan_risk_passes) (simp add: build_per_pair_degradation_alert_def)

subsection \<open>Loaded routers\<close>

lemma parse_each_forall:
  "parse_each f ys = Inr xs \<Longrightarrow> list_all2 (\<lambda>y x. f y = Inr x) ys xs"
  by (induction f ys arbitrary: xs rule: parse_each.induct) (auto split: sum.splits)

lemma parse_each_member:
  "parse_each f ys = Inr xs \<Longrightarrow> x \<in> set xs \<Longrightarrow> \<exists>y\<in>set ys. f y = Inr x"
proof (induction f ys arbitrary: xs rule: parse_each.induct)
  case (2 f y ys)
  then obtain x' xs' where "f y = Inr x'" "parse_each f ys = Inr xs'" "xs = x' # xs'"
    by (auto split: sum.splits)
  with 2 show ?case by auto
qed simp

lemma parse_rule_destinations:
  assumes "parse_rule parse i y = Inr r"
  shows "rr_destinations r \<noteq> []"
proof (cases y)
  case (YMap m)
  define name where "name = yget m ''name''"
  define rule_id where "rule_id = (if truthy name then name else YStr (''rule#'' @ dec i))"
  obtain raws where t: "truthy (yget m ''destinations'')" and it: "iterated (yget m ''destinations'') = Some raws"
    and p: "parse_each (parse_destination rule_id) raws = Inr (rr_destinations r)"
    using assms YMap
    by (auto simp: Let_def rule_id_def name_def split: if_splits option.splits sum.splits)
  have "raws \<noteq> []"
    using t it by (cases "yget m ''destinations''") auto
  with parse_each_forall [OF p] show ?thesis by auto
qed (use assms in auto)

lemma parse_rules_forall:
  "parse_rules parse i ys = Inr rs \<Longrightarrow> r \<in> set rs \<Longrightarrow> rr_destinations r \<noteq> []"
proof (induction parse i ys arbitrary: rs rule: parse_rules.induct)
  case (2 parse i y ys)
  then obtain r' rs' where "parse_rule parse i y = Inr r'" "parse_rules parse (Suc i) ys = Inr rs'"
    "rs = r' # rs'"
    by (auto split: sum.splits simp del: parse_rule.simps)
  with 2 parse_rule_destinations show ?case by fastforce
qed simp

lemma map_sum_eq_Inr: "map_sum f g x = Inr y \<longleftrightarrow> (\<exists>z. x = Inr z \<and> y = g z)"
  by (cases x) auto

lemma load_rules:
  assumes "load_routing_config parse y = Inr (rules, defaults)"
  shows "\<exists>m raws. as_list (yget m ''rules'') (quoted ''rules'' @ '' must be a list'') = Inr raws \<and>
    (if truthy y then y else YMap []) = YMap m \<and> parse_rules parse 0 raws = Inr rules"
  using assms
  by (simp add: load_routing_config_def map_sum_eq_Inr split: yaml.splits sum.splits if_splits)

text \<open>
  The router of a loaded configuration falls back to its defaults exactly when no rule
  matches: every loaded rule has a destination.
\<close>

theorem defaults_iff_unmatched:
  assumes "load_routing_config parse y = Inr (rules, defaults)"
    and "\<forall>r\<in>set rules. well_typed r"
  shows "(explain rules a = Some [] \<longleftrightarrow> (\<forall>r\<in>set rules. \<not> fires a r)) \<and>
    route rules defaults a = Some (if \<forall>r\<in>set rules. \<not> fires a r then defaults
      else first_of_key (concat (map rr_destinations (upto_stop (filter (fires a) rules)))))"
proof -
  obtain raws where "parse_rules parse 0 raws = Inr rules" using load_rules [OF assms(1)] by blast
  then have ne: "\<forall>r\<in>set rules. rr_destinations r \<noteq> []" using parse_rules_forall by blast
  have e: "explain rules a = Some (map rr_name (filter (fires a) rules))"
    using assms(2) by (induction rules) (simp_all add: rule_matches_fires)
  have "concat (map rr_destinations (upto_stop (filter (fires a) rules))) = [] \<longleftrightarrow> (\<forall>r\<in>set rules. \<not> fires a r)"
  proof (cases "filter (fires a) rules")
    case Nil
    then show ?thesis by (simp add: filter_empty_conv)
  next
    case (Cons r rs)
    then have "r \<in> set rules \<and> fires a r" by (metis filter_eq_ConsD in_set_conv_decomp)
    with Cons ne show ?thesis by auto
  qed
  with route_rules_result [OF assms(2), of a "[]"] e show ?thesis
    by (auto simp: route_def filter_empty_conv)
qed

lemma defaults_iff_unmatched_witness:
  "(explain [] (build_per_pair_degradation_alert ''p'' ''auc'' (Fin 1) ''d'' (Fin 1) None) = Some []) = True"
  using defaults_iff_unmatched [of "\<lambda>s. None" YNull "[]" "[]"]
  by (simp add: load_routing_config_def yget_def as_list_def)

text \<open>The types the configuration's documentation gives: patterns, channels and targets are texts.\<close>

definition is_text :: "yaml \<Rightarrow> bool" where
  "is_text y \<longleftrightarrow> (\<exists>s. y = YStr s)"

definition typed_destination :: "yaml \<Rightarrow> bool" where
  "typed_destination y = (case y of YMap m \<Rightarrow> is_text (yget m ''channel'') \<and> is_text (yget m ''target'') | _ \<Rightarrow> True)"

definition typed_rule :: "yaml \<Rightarrow> bool" where
  "typed_rule y =
     (case y of
        YMap m \<Rightarrow>
          (case yget m ''asset_pair_patterns'' of YList ps \<Rightarrow> list_all is_text ps | _ \<Rightarrow> True) \<and>
          (case yget m ''destinations'' of YList ds \<Rightarrow> list_all typed_destination ds | _ \<Rightarrow> True)
      | _ \<Rightarrow> True)"

definition typed_config :: "yaml \<Rightarrow> bool" where
  "typed_config y =
     (case y of
        YMap m \<Rightarrow> (case yget m ''rules'' of YList rs \<Rightarrow> list_all typed_rule rs | _ \<Rightarrow> True)
      | _ \<Rightarrow> True)"

lemma parse_destination_typed:
  "parse_destination i y = Inr d \<Longrightarrow> typed_destination y \<Longrightarrow> dest_key d \<noteq> None"
  by (cases y) (auto simp: typed_destination_def is_text_def yget_def dest_key_def split: option.splits)

lemma parse_rule_typed:
  assumes "parse_rule parse i y = Inr r" and "typed_rule y"
  shows "well_typed r"
proof (cases y)
  case (YMap m)
  define rule_id where
    "rule_id = (if truthy (yget m ''name'') then yget m ''name'' else YStr (''rule#'' @ dec i))"
  obtain raws where it: "iterated (yget m ''destinations'') = Some raws"
    and p: "parse_each (parse_destination rule_id) raws = Inr (rr_destinations r)"
    and ps: "parse_patterns rule_id (yget m ''asset_pair_patterns'') = Inr (rr_patterns r)"
    using assms(1) YMap by (auto simp: Let_def rule_id_def split: if_splits option.splits sum.splits)
  have "\<exists>s. x = YStr s" if "rr_patterns r = Some xs" "x \<in> set xs" for xs x
  proof -
    have "yget m ''asset_pair_patterns'' = YList xs"
      using ps that(1) by (auto simp: parse_patterns_def split: yaml.splits)
    with assms(2) that(2) show ?thesis by (auto simp: YMap typed_rule_def list_all_iff is_text_def)
  qed
  moreover have "dest_key d \<noteq> None" if d: "d \<in> set (rr_destinations r)" for d
  proof -
    obtain y' where y': "y' \<in> set raws" "parse_destination rule_id y' = Inr d"
      using parse_each_member [OF p d] by blast
    from y'(2) have "\<exists>m'. y' = YMap m'" by (induction rule_id y' rule: parse_destination.induct) auto
    with it y'(1) have "yget m ''destinations'' = YList raws" by (cases "yget m ''destinations''") auto
    with assms(2) y'(1) have "typed_destination y'" by (auto simp: YMap typed_rule_def list_all_iff)
    with parse_destination_typed [OF y'(2)] show ?thesis by simp
  qed
  ultimately show ?thesis by (simp add: well_typed_def)
qed (use assms in auto)

lemma parse_rules_typed:
  "parse_rules parse i ys = Inr rs \<Longrightarrow> list_all typed_rule ys \<Longrightarrow> \<forall>r\<in>set rs. well_typed r"
proof (induction parse i ys arbitrary: rs rule: parse_rules.induct)
  case (2 parse i y ys)
  then obtain r' rs' where r: "parse_rule parse i y = Inr r'" "parse_rules parse (Suc i) ys = Inr rs'"
    "rs = r' # rs'"
    by (auto split: sum.splits simp del: parse_rule.simps)
  with 2 parse_rule_typed [OF r(1)] show ?case by simp
qed simp

text \<open>
  A configuration of the documented types loads to a router that never raises: whatever the
  alert, \<open>route\<close> and \<open>explain\<close> return.
\<close>

theorem typed_config_routes:
  assumes "load_routing_config parse y = Inr (rules, defaults)" and "typed_config y"
  shows "route rules defaults a \<noteq> None \<and> explain rules a \<noteq> None"
proof -
  obtain m raws where raws: "as_list (yget m ''rules'') (quoted ''rules'' @ '' must be a list'') = Inr raws"
    "(if truthy y then y else YMap []) = YMap m" "parse_rules parse 0 raws = Inr rules"
    using load_rules [OF assms(1)] by blast
  have "list_all typed_rule raws"
  proof (cases "truthy (yget m ''rules'')")
    case True
    then have l: "yget m ''rules'' = YList raws"
      using raws(1) by (cases "yget m ''rules''") (auto simp: as_list_def)
    then have "m \<noteq> []" by (auto simp: yget_def)
    then have "y = YMap m" using raws(2) by (auto split: if_splits)
    with assms(2) l show ?thesis by (simp add: typed_config_def)
  qed (use raws(1) in \<open>simp add: as_list_def\<close>)
  then have wt: "\<forall>r\<in>set rules. well_typed r" by (rule parse_rules_typed [OF raws(3)])
  then have "explain rules a \<noteq> None" by (induction rules) (auto simp: rule_matches_fires)
  with route_rules_result [OF wt, of a "[]"] show ?thesis by (simp add: route_def)
qed

subsection \<open>The shipped configuration\<close>

definition ydest :: "string \<Rightarrow> string \<Rightarrow> string \<Rightarrow> yaml" where
  "ydest c t l = YMap [(''channel'', YStr c), (''target'', YStr t), (''severity_label'', YStr l)]"

definition shipped_rules :: "yaml list" where
  "shipped_rules =
    [YMap [(''name'', YStr ''critical-risk-pagerduty''), (''min_risk_score'', YInt 90),
       (''stop_on_match'', YBool True),
       (''destinations'', YList [ydest ''pagerduty'' ''ledgerlens-critical'' ''critical'',
          ydest ''webhook'' ''${AUDIT_WEBHOOK_URL}'' ''critical''])],
     YMap [(''name'', YStr ''latency-slo-burn-oncall''), (''detectors'', YList [YStr ''latency_slo_burn'']),
       (''stop_on_match'', YBool True),
       (''destinations'', YList [ydest ''pagerduty'' ''ledgerlens-pipeline-oncall'' ''high'',
          ydest ''slack'' ''#ledgerlens-ops'' ''high''])],
     YMap [(''name'', YStr ''consensus-escalated-slack''), (''detectors'', YList [YStr ''consensus_escalator'']),
       (''destinations'', YList [ydest ''slack'' ''#wash-trade-alerts'' ''high''])],
     YMap [(''name'', YStr ''bridge-anchor-pairs-compliance''),
       (''asset_pair_patterns'', YList [YStr ''USDC:*/native'', YStr ''native/USDC:*'']),
       (''destinations'', YList [ydest ''webhook'' ''${COMPLIANCE_WEBHOOK_URL}'' ''high''])],
     YMap [(''name'', YStr ''capacity-forecast-lead-time''), (''detectors'', YList [YStr ''capacity_forecaster'']),
       (''destinations'', YList [ydest ''slack'' ''#capacity-alerts'' ''warning'',
          ydest ''webhook'' ''${CAPACITY_WEBHOOK_URL}'' ''warning''])],
     YMap [(''name'', YStr ''tenant-acme-dedicated-channel''), (''tenant'', YStr ''acme''),
       (''destinations'', YList [ydest ''slack'' ''#acme-wash-trade-alerts'' ''default''])],
     YMap [(''name'', YStr ''ingestion-stream-quality''), (''detectors'', YList [YStr ''stream_quality_monitor'']),
       (''stop_on_match'', YBool True),
       (''destinations'', YList [ydest ''slack'' ''#data-quality'' ''high''])],
     YMap [(''name'', YStr ''watchdog-heartbeat-missed''),
       (''detectors'', YList [YStr ''emergency_watchdog_heartbeat'']), (''stop_on_match'', YBool True),
       (''destinations'', YList [ydest ''pagerduty'' ''ledgerlens-watchdog'' ''critical'',
          ydest ''webhook'' ''${WATCHDOG_DEADMAN_WEBHOOK_URL}'' ''critical''])]]"

text \<open>The key \<open>automated_runbooks\<close> of the file is left out: the loader does not read it.\<close>

definition shipped_config :: yaml where
  "shipped_config = YMap [(''rules'', YList shipped_rules),
     (''default_destinations'', YList [ydest ''webhook'' ''${ALERT_WEBHOOK_URL}'' ''default''])]"

text \<open>\<open>Asset.pair_id\<close>; an issuer that is missing or empty is \<open>native\<close>.\<close>

definition asset_text :: "string \<Rightarrow> string option \<Rightarrow> string" where
  "asset_text code issuer =
     code @ '':'' @ (case issuer of None \<Rightarrow> ''native'' | Some i \<Rightarrow> if i = [] then ''native'' else i)"

definition pair_id :: "string \<times> string option \<Rightarrow> string \<times> string option \<Rightarrow> string" where
  "pair_id a b = asset_text (fst a) (snd a) @ ''/'' @ asset_text (fst b) (snd b)"

definition slash_free :: "string \<times> string option \<Rightarrow> bool" where
  "slash_free a \<longleftrightarrow> CHR ''/'' \<notin> set (fst a) \<and> (\<forall>i. snd a = Some i \<longrightarrow> CHR ''/'' \<notin> set i)"

lemma asset_text_slash: "slash_free a \<Longrightarrow> CHR ''/'' \<notin> set (asset_text (fst a) (snd a))"
  by (auto simp: slash_free_def asset_text_def split: option.splits if_splits)

lemma colon_in_asset: "CHR '':'' \<in> set (asset_text c i)"
  by (simp add: asset_text_def)

lemma compliance_patterns:
  assumes "slash_free a" and "slash_free b"
  shows "\<not> fnmatch (pair_id a b) ''USDC:*/native'' \<and> \<not> fnmatch (pair_id a b) ''native/USDC:*''"
proof
  let ?A = "asset_text (fst a) (snd a)" and ?B = "asset_text (fst b) (snd b)"
  have p: "pair_id a b = ?A @ CHR ''/'' # ?B" by (simp add: pair_id_def)
  have i: "fnmatch s (''USDC:'' @ ''*'' @ ''/native'') \<longleftrightarrow> (\<exists>x. s = ''USDC:'' @ x @ ''/native'')" for s
    by (rule fnmatch_infix) (simp_all add: plain_def)
  show "\<not> fnmatch (pair_id a b) ''USDC:*/native''"
  proof
    assume "fnmatch (pair_id a b) ''USDC:*/native''"
    then obtain x where "pair_id a b = (''USDC:'' @ x) @ CHR ''/'' # ''native''"
      using i [of "pair_id a b"] by auto
    then have "?B = ''native''"
      using p split_last_sep [of "CHR ''/''" ?B "''native''" ?A "''USDC:'' @ x"] asset_text_slash [OF assms(2)]
      by simp
    with colon_in_asset [of "fst b" "snd b"] show False by simp
  qed
  have j: "fnmatch s (''native/USDC:'' @ ''*'') \<longleftrightarrow> (\<exists>r. s = ''native/USDC:'' @ r)" for s
    by (rule fnmatch_prefix) (simp add: plain_def)
  show "\<not> fnmatch (pair_id a b) ''native/USDC:*''"
  proof
    assume "fnmatch (pair_id a b) ''native/USDC:*''"
    then obtain r where "pair_id a b = ''native'' @ CHR ''/'' # ''USDC:'' @ r"
      using j [of "pair_id a b"] by auto
    then have "?A = ''native''"
      using p split_first_sep [of "CHR ''/''" ?A "''native''" ?B "''USDC:'' @ r"] asset_text_slash [OF assms(1)]
      by simp
    with colon_in_asset [of "fst a" "snd a"] show False by simp
  qed
qed

text \<open>
  The compliance rule of the shipped configuration matches no asset pair: it was written for
  pairs such as \<open>USDC:G.../native\<close>, but \<open>pair_id\<close> writes \<open>USDC:G.../XLM:native\<close>.
\<close>

theorem compliance_rule_never_matches:
  assumes "slash_free a" and "slash_free b" and "al_asset_pair x = Some (pair_id a b)"
  shows "\<exists>r. parse_rule parse 3 (shipped_rules ! 3) = Inr r \<and>
    rr_name r = YStr ''bridge-anchor-pairs-compliance'' \<and> rule_matches r x = Some False"
  using compliance_patterns [OF assms(1,2)] assms(3)
  by (simp add: shipped_rules_def ydest_def yget_def parse_min_score_def parse_detectors_def
      parse_patterns_def rule_matches_def)

lemma compliance_rule_never_matches_witness:
  "\<exists>r. parse_rule (\<lambda>s. None) 3 (shipped_rules ! 3) = Inr r \<and>
    rr_name r = YStr ''bridge-anchor-pairs-compliance'' \<and>
    rule_matches r (build_per_pair_degradation_alert (pair_id (''USDC'', Some ''GA5Z'') (''XLM'', None))
      ''auc'' (Fin 1) ''d'' (Fin 0) None) = Some False"
  by (rule compliance_rule_never_matches [where a = "(''USDC'', Some ''GA5Z'')" and b = "(''XLM'', None)"])
    (simp_all add: slash_free_def build_per_pair_degradation_alert_def)

text \<open>
  In the shipped configuration a missed watchdog heartbeat with a risk score of 90 or more
  does not reach the watchdog's own pager and webhook: the first rule stops the evaluation.
\<close>

theorem watchdog_rule_is_shadowed:
  assumes "load_routing_config parse shipped_config = Inr (rules, defaults)"
    and "al_detectors x = Some [''emergency_watchdog_heartbeat'']" and "al_risk_score x = Some (Fin q)" and "90 \<le> q"
  shows "route rules defaults x = Some [demo_dest ''pagerduty'' ''ledgerlens-critical'' ''critical'',
    demo_dest ''webhook'' ''${AUDIT_WEBHOOK_URL}'' ''critical'']"
proof -
  obtain m raws where m: "as_list (yget m ''rules'') (quoted ''rules'' @ '' must be a list'') = Inr raws"
    "shipped_config = YMap m" "parse_rules parse 0 raws = Inr rules"
    using load_rules [OF assms(1)] by (auto simp: shipped_config_def)
  then have "raws = shipped_rules"
    by (auto simp: shipped_config_def yget_def as_list_def shipped_rules_def)
  then obtain y ys where y: "raws = y # ys" "y = hd shipped_rules" by (simp add: shipped_rules_def)
  let ?r = "demo_rule ''critical-risk-pagerduty'' [demo_dest ''pagerduty'' ''ledgerlens-critical'' ''critical'',
    demo_dest ''webhook'' ''${AUDIT_WEBHOOK_URL}'' ''critical''] (Some (Fin 90)) True"
  have "parse_rule parse 0 y = Inr ?r"
    by (simp add: y(2) shipped_rules_def ydest_def yget_def parse_min_score_def parse_detectors_def
        parse_patterns_def demo_rule_def demo_dest_def)
  then obtain rs where rs: "rules = ?r # rs"
    using m(3) y(1) by (auto split: sum.splits)
  have m: "rule_matches ?r x = Some True"
    using assms(3,4) by (simp add: rule_matches_def demo_rule_def)
  have "route_rules x rules [] = Some (rr_destinations ?r)"
    by (simp add: rs m) (simp add: demo_rule_def demo_dest_def dest_key_def)
  then show ?thesis by (simp add: route_def demo_rule_def)
qed

lemma watchdog_rule_is_shadowed_witness:
  "\<exists>rules defaults. load_routing_config (\<lambda>s. None) shipped_config = Inr (rules, defaults) \<and>
    route rules defaults
      (build_per_pair_degradation_alert ''p'' ''m'' (Fin 0) ''emergency_watchdog_heartbeat'' (Fin 100) None) =
      Some [demo_dest ''pagerduty'' ''ledgerlens-critical'' ''critical'',
        demo_dest ''webhook'' ''${AUDIT_WEBHOOK_URL}'' ''critical'']"
proof -
  have "isl (load_routing_config (\<lambda>s. None) shipped_config) = False" by code_simp
  then obtain p where "load_routing_config (\<lambda>s. None) shipped_config = Inr p"
    by (cases "load_routing_config (\<lambda>s. None) shipped_config") simp_all
  then obtain rules defaults where l: "load_routing_config (\<lambda>s. None) shipped_config = Inr (rules, defaults)"
    by (cases p) blast
  from watchdog_rule_is_shadowed [OF l, of _ 100] l show ?thesis
    by (auto simp: build_per_pair_degradation_alert_def)
qed

lemma typed_config_routes_witness:
  "\<exists>rules defaults. load_routing_config (\<lambda>s. None) shipped_config = Inr (rules, defaults) \<and>
    route rules defaults (build_per_pair_degradation_alert ''p'' ''m'' (Fin 0) ''d'' (Fin 1) None) \<noteq> None"
proof -
  have "isl (load_routing_config (\<lambda>s. None) shipped_config) = False" by code_simp
  then obtain p where "load_routing_config (\<lambda>s. None) shipped_config = Inr p"
    by (cases "load_routing_config (\<lambda>s. None) shipped_config") simp_all
  then obtain rules defaults where l: "load_routing_config (\<lambda>s. None) shipped_config = Inr (rules, defaults)"
    by (cases p) blast
  have "typed_config shipped_config"
    by (simp add: shipped_config_def shipped_rules_def typed_config_def typed_rule_def typed_destination_def
        yget_def ydest_def is_text_def)
  from typed_config_routes [OF l this] l show ?thesis by blast
qed

end
