(* ===== verification/Escalation.thy ===== *)
theory Escalation
  imports Base
begin

text \<open>
  Consensus escalation (\<open>alerts/consensus_escalator.py\<close>): detectors record signals for a wallet and
  pair in a Redis hash, and an alert is raised when enough detectors signalled within the window.

  The Redis client is a parameter: the transaction of \<open>HSET\<close> and \<open>EXPIRE\<close>, and \<open>HGETALL\<close>.
  \<open>hash_laws\<close> states their documented behaviour over a view that gives each live key its hash and
  its remaining seconds.
\<close>

definition detector_allowlist :: "string set" where
  "detector_allowlist = {''benford'', ''ml'', ''graph'', ''liquidity'', ''cross_pair''}"

record 'r hash_client =
  hc_record :: "string \<Rightarrow> string \<Rightarrow> clock \<Rightarrow> rat \<Rightarrow> 'r \<Rightarrow> bool \<times> 'r"
  hc_getall :: "string \<Rightarrow> 'r \<Rightarrow> (string, clock) dict option"

record escalated_alert =
  ea_wallet :: string
  ea_pair :: string
  ea_detectors :: "string list"
  ea_span :: rat
  ea_severity :: string

datatype escalation_error = InvalidDetector string | RedisFault

record policy =
  ep_threshold :: nat
  ep_window :: rat

definition escalation_policy :: policy where
  "escalation_policy = \<lparr>ep_threshold = 2, ep_window = 120\<rparr>"

definition consensus_key :: "string \<Rightarrow> string \<Rightarrow> string" where
  "consensus_key wallet pair = ''consensus:'' @ wallet @ '':'' @ pair"

definition record_signal ::
  "'r hash_client \<Rightarrow> policy \<Rightarrow> clock \<Rightarrow> string \<Rightarrow> string \<Rightarrow> string \<Rightarrow> 'r \<Rightarrow> (escalation_error + unit) \<times> 'r"
where
  "record_signal C p now wallet pair detector r =
     (if detector \<notin> detector_allowlist then (Inl (InvalidDetector detector), r)
      else (case hc_record C (consensus_key wallet pair) detector now (ep_window p + 10) r of
              (True, r') \<Rightarrow> (Inr (), r')
            | (False, r') \<Rightarrow> (Inl RedisFault, r')))"

definition check_consensus ::
  "'r hash_client \<Rightarrow> policy \<Rightarrow> clock \<Rightarrow> string \<Rightarrow> string \<Rightarrow> 'r \<Rightarrow> escalation_error + escalated_alert option"
where
  "check_consensus C p now wallet pair r =
     (case hc_getall C (consensus_key wallet pair) r of
        None \<Rightarrow> Inl RedisFault
      | Some signals \<Rightarrow>
          if signals = [] then Inr None
          else
            (let valid = filter (\<lambda>(d, t). now - t \<le> ep_window p) signals in
               if ep_threshold p \<le> length valid
               then Inr (Some \<lparr>ea_wallet = wallet, ea_pair = pair, ea_detectors = map fst valid,
                   ea_span = Max (set (map snd valid)) - Min (set (map snd valid)),
                   ea_severity = ''high''\<rparr>)
               else Inr None))"

definition emit_single_detector_alert :: "string \<Rightarrow> escalation_error + unit" where
  "emit_single_detector_alert detector =
     (if detector \<in> detector_allowlist then Inr () else Inl (InvalidDetector detector))"

subsection \<open>The server\<close>

type_synonym 'r hash_view = "'r \<Rightarrow> string \<Rightarrow> ((string \<rightharpoonup> clock) \<times> rat) option"

definition hash_after :: "((string \<rightharpoonup> clock) \<times> rat) option \<Rightarrow> string \<Rightarrow> clock \<Rightarrow> rat \<Rightarrow> ((string \<rightharpoonup> clock) \<times> rat) option" where
  "hash_after h d t ttl = Some ((case h of None \<Rightarrow> Map.empty | Some (m, _) \<Rightarrow> m)(d \<mapsto> t), ttl)"

definition record_law :: "'r hash_client \<Rightarrow> 'r hash_view \<Rightarrow> bool" where
  "record_law C v \<longleftrightarrow>
     (\<forall>k d t ttl r. case hc_record C k d t ttl r of
        (True, r') \<Rightarrow> v r' = (v r)(k := hash_after (v r k) d t ttl)
      | (False, r') \<Rightarrow> v r' = v r \<or> v r' = (v r)(k := hash_after (v r k) d t ttl))"

definition getall_law :: "'r hash_client \<Rightarrow> 'r hash_view \<Rightarrow> bool" where
  "getall_law C v \<longleftrightarrow>
     (\<forall>k r. case hc_getall C k r of
        None \<Rightarrow> True
      | Some d \<Rightarrow> dict_ok d \<and> map_of d = (case v r k of None \<Rightarrow> Map.empty | Some (m, _) \<Rightarrow> m))"

definition hash_expiry :: "(rat \<Rightarrow> 'r \<Rightarrow> 'r) \<Rightarrow> 'r hash_view \<Rightarrow> bool" where
  "hash_expiry wait v \<longleftrightarrow>
     (\<forall>d r k. v (wait d r) k = (case v r k of None \<Rightarrow> None | Some (m, e) \<Rightarrow> if d < e then Some (m, e - d) else None))"

definition hash_laws :: "'r hash_client \<Rightarrow> (rat \<Rightarrow> 'r \<Rightarrow> 'r) \<Rightarrow> 'r hash_view \<Rightarrow> bool" where
  "hash_laws C wait v \<longleftrightarrow> record_law C v \<and> getall_law C v \<and> hash_expiry wait v"

text \<open>
  A history: signals, with time passing for the clients and the server alike. The ghost
  components keep the last signal of each detector that was recorded without an error, and every
  signal that was tried.
\<close>

datatype escalation_event = Signal string string string | Elapse rat

record 'r escalation_state =
  es_now :: clock
  es_last :: "string \<times> string \<Rightarrow> string \<rightharpoonup> clock"
  es_tried :: "(string \<times> string \<times> string \<times> clock) list"
  es_server :: 'r

fun escalation_step ::
  "'r hash_client \<Rightarrow> (rat \<Rightarrow> 'r \<Rightarrow> 'r) \<Rightarrow> 'r escalation_state \<Rightarrow> escalation_event \<Rightarrow> 'r escalation_state"
where
  "escalation_step C wait s (Signal w a d) =
     (case record_signal C escalation_policy (es_now s) w a d (es_server s) of
        (Inr _, r') \<Rightarrow> s\<lparr>es_last := (es_last s)((w, a) := (es_last s (w, a))(d \<mapsto> es_now s)),
           es_tried := (w, a, d, es_now s) # es_tried s, es_server := r'\<rparr>
      | (Inl _, r') \<Rightarrow> s\<lparr>es_tried := (w, a, d, es_now s) # es_tried s, es_server := r'\<rparr>)"
| "escalation_step C wait s (Elapse d) = s\<lparr>es_now := es_now s + \<bar>d\<bar>, es_server := wait \<bar>d\<bar> (es_server s)\<rparr>"

definition plain_wallet :: "escalation_event \<Rightarrow> bool" where
  "plain_wallet e = (case e of Signal w a d \<Rightarrow> CHR '':'' \<notin> set w | Elapse _ \<Rightarrow> True)"

lemma consensus_key_inj:
  "CHR '':'' \<notin> set w \<Longrightarrow> CHR '':'' \<notin> set w' \<Longrightarrow>
     consensus_key w a = consensus_key w' a' \<longleftrightarrow> w = w' \<and> a = a'"
  using split_first_sep [of "CHR '':''" w w' a a'] by (simp add: consensus_key_def)

definition last_ok :: "'r hash_view \<Rightarrow> clock \<Rightarrow> (string \<times> string \<Rightarrow> string \<rightharpoonup> clock) \<Rightarrow> 'r \<Rightarrow> bool" where
  "last_ok v now g r \<longleftrightarrow>
     (\<forall>w a d t. CHR '':'' \<notin> set w \<longrightarrow> g (w, a) d = Some t \<longrightarrow> t \<le> now \<and>
        (now - t < 130 \<longrightarrow> (\<exists>m e t'. v r (consensus_key w a) = Some (m, e) \<and> m d = Some t' \<and> t \<le> t' \<and>
           130 - (now - t) \<le> e)))"

definition tried_ok :: "'r hash_view \<Rightarrow> clock \<Rightarrow> (string \<times> string \<times> string \<times> clock) list \<Rightarrow> 'r \<Rightarrow> bool" where
  "tried_ok v now tried r \<longleftrightarrow>
     (\<forall>w a m e d t. CHR '':'' \<notin> set w \<longrightarrow> v r (consensus_key w a) = Some (m, e) \<longrightarrow> m d = Some t \<longrightarrow>
        (w, a, d, t) \<in> set tried \<and> d \<in> detector_allowlist)"

lemma last_ok_applied:
  assumes "last_ok v now g r" and "v r' = (v r)(consensus_key w a := hash_after (v r (consensus_key w a)) d now 130)"
    and "CHR '':'' \<notin> set w"
  shows "last_ok v now g r' \<and> last_ok v now (g((w, a) := (g (w, a))(d \<mapsto> now))) r'"
proof -
  have old: "x \<le> now \<and> (now - x < 130 \<longrightarrow> (\<exists>m e t'. v r' (consensus_key u b) = Some (m, e) \<and> m c = Some t' \<and> x \<le> t' \<and>
      130 - (now - x) \<le> e))"
    if u: "CHR '':'' \<notin> set u" and l: "g (u, b) c = Some x" for u b c x
  proof -
    have o: "x \<le> now \<and> (now - x < 130 \<longrightarrow> (\<exists>m e t'. v r (consensus_key u b) = Some (m, e) \<and> m c = Some t' \<and> x \<le> t' \<and>
        130 - (now - x) \<le> e))"
      using assms(1) u l unfolding last_ok_def by blast
    show ?thesis
    proof (cases "consensus_key u b = consensus_key w a")
      case True
      then show ?thesis using o assms(2) by (auto simp: hash_after_def)
    next
      case False
      then show ?thesis using o assms(2) by simp
    qed
  qed
  have new: "\<exists>m e t'. v r' (consensus_key w a) = Some (m, e) \<and> m d = Some t' \<and> now \<le> t' \<and> 130 - (now - now) \<le> e"
    using assms(2) by (simp add: hash_after_def)
  have "last_ok v now g r'" unfolding last_ok_def using old by blast
  moreover have "last_ok v now (g((w, a) := (g (w, a))(d \<mapsto> now))) r'"
    unfolding last_ok_def
  proof (intro allI impI)
    fix u b c x
    assume u: "CHR '':'' \<notin> set u" and l: "(g((w, a) := (g (w, a))(d \<mapsto> now))) (u, b) c = Some x"
    show "x \<le> now \<and> (now - x < 130 \<longrightarrow> (\<exists>m e t'. v r' (consensus_key u b) = Some (m, e) \<and> m c = Some t' \<and> x \<le> t' \<and>
        130 - (now - x) \<le> e))"
    proof (cases "(u, b) = (w, a) \<and> c = d")
      case True
      then have "x = now" using l by simp
      with True new show ?thesis by simp
    next
      case False
      then have "g (u, b) c = Some x" using l by (auto split: if_splits)
      from old [OF u this] show ?thesis .
    qed
  qed
  ultimately show ?thesis ..
qed

lemma tried_ok_applied:
  assumes "tried_ok v now tried r" and "v r' = (v r)(consensus_key w a := hash_after (v r (consensus_key w a)) d now 130)"
    and "CHR '':'' \<notin> set w" and "d \<in> detector_allowlist"
  shows "tried_ok v now ((w, a, d, now) # tried) r'"
  unfolding tried_ok_def
proof (intro allI impI)
  fix u b m e c x
  assume u: "CHR '':'' \<notin> set u" and k: "v r' (consensus_key u b) = Some (m, e)" and m: "m c = Some x"
  have o: "\<And>m e c x. v r (consensus_key u b) = Some (m, e) \<Longrightarrow> m c = Some x \<Longrightarrow>
      (u, b, c, x) \<in> set tried \<and> c \<in> detector_allowlist"
    using assms(1) u unfolding tried_ok_def by blast
  show "(u, b, c, x) \<in> set ((w, a, d, now) # tried) \<and> c \<in> detector_allowlist"
  proof (cases "consensus_key u b = consensus_key w a")
    case True
    then have e: "u = w" "b = a" using consensus_key_inj [OF u assms(3)] by simp_all
    have "m = (case v r (consensus_key w a) of None \<Rightarrow> Map.empty | Some (m, _) \<Rightarrow> m)(d \<mapsto> now)"
      using k assms(2) True by (simp add: hash_after_def)
    with m o assms(4) e show ?thesis by (auto split: if_splits option.splits)
  next
    case False
    then have "v r (consensus_key u b) = Some (m, e)" using k assms(2) by simp
    from o [OF this m] show ?thesis by simp
  qed
qed

lemma tried_ok_more: "tried_ok v now tried r \<Longrightarrow> tried_ok v now' (x # tried) r"
  unfolding tried_ok_def by (meson list.set_intros(2))

lemma last_ok_wait:
  assumes "last_ok v now g r" and "hash_expiry wait v" and "0 \<le> d"
  shows "last_ok v (now + d) g (wait d r)"
  unfolding last_ok_def
proof (intro allI impI)
  fix u b c x
  assume u: "CHR '':'' \<notin> set u" and l: "g (u, b) c = Some x"
  have o: "x \<le> now" "now - x < 130 \<Longrightarrow> \<exists>m e t'. v r (consensus_key u b) = Some (m, e) \<and> m c = Some t' \<and> x \<le> t' \<and>
      130 - (now - x) \<le> e"
    using assms(1) u l unfolding last_ok_def by blast+
  have "\<exists>m e t'. v (wait d r) (consensus_key u b) = Some (m, e) \<and> m c = Some t' \<and> x \<le> t' \<and>
      130 - (now + d - x) \<le> e" if lt: "now + d - x < 130"
  proof -
    have "now - x < 130" using lt assms(3) by linarith
    from o(2) [OF this] obtain m e t' where m: "v r (consensus_key u b) = Some (m, e)" "m c = Some t'" "x \<le> t'"
      "130 - (now - x) \<le> e" by blast
    then have "d < e" using lt by linarith
    with m(1) assms(2) have "v (wait d r) (consensus_key u b) = Some (m, e - d)"
      by (simp add: hash_expiry_def)
    with m show ?thesis by (intro exI [of _ m] exI [of _ "e - d"] exI [of _ t']) auto
  qed
  with o(1) assms(3) show "x \<le> now + d \<and> (now + d - x < 130 \<longrightarrow> (\<exists>m e t'. v (wait d r) (consensus_key u b) = Some (m, e) \<and>
      m c = Some t' \<and> x \<le> t' \<and> 130 - (now + d - x) \<le> e))" by simp
qed

lemma tried_ok_wait:
  assumes "tried_ok v now tried r" and "hash_expiry wait v"
  shows "tried_ok v now' tried (wait d r)"
  unfolding tried_ok_def
proof (intro allI impI)
  fix u b m e c x
  assume u: "CHR '':'' \<notin> set u" and k: "v (wait d r) (consensus_key u b) = Some (m, e)" and m: "m c = Some x"
  obtain e' where "v r (consensus_key u b) = Some (m, e')"
    using k assms(2) unfolding hash_expiry_def by (auto split: option.splits if_splits prod.splits)
  with assms(1) u m show "(u, b, c, x) \<in> set tried \<and> c \<in> detector_allowlist"
    unfolding tried_ok_def by blast
qed

definition escalation_ok :: "'r hash_view \<Rightarrow> 'r escalation_state \<Rightarrow> bool" where
  "escalation_ok v s \<longleftrightarrow> last_ok v (es_now s) (es_last s) (es_server s) \<and>
     tried_ok v (es_now s) (es_tried s) (es_server s)"

lemma escalation_step_ok:
  assumes "hash_laws C wait v" and "escalation_ok v s" and "plain_wallet e"
  shows "escalation_ok v (escalation_step C wait s e)"
proof (cases e)
  case (Signal w a d)
  have w: "CHR '':'' \<notin> set w" using assms(3) Signal by (simp add: plain_wallet_def)
  have ok: "last_ok v (es_now s) (es_last s) (es_server s)" "tried_ok v (es_now s) (es_tried s) (es_server s)"
    using assms(2) by (simp_all add: escalation_ok_def)
  show ?thesis
  proof (cases "d \<in> detector_allowlist")
    case False
    then show ?thesis
      using ok tried_ok_more [OF ok(2)] by (simp add: Signal record_signal_def escalation_ok_def)
  next
    case True
    let ?k = "consensus_key w a"
    obtain b r' where r: "hc_record C ?k d (es_now s) 130 (es_server s) = (b, r')"
      by (cases "hc_record C ?k d (es_now s) 130 (es_server s)")
    let ?upd = "v r' = (v (es_server s))(?k := hash_after (v (es_server s) ?k) d (es_now s) 130)"
    have law: "if b then ?upd else v r' = v (es_server s) \<or> ?upd"
      using assms(1) r unfolding hash_laws_def record_law_def by (smt (verit) case_prod_conv bool.case)
    have same: "escalation_ok v (s\<lparr>es_tried := (w, a, d, es_now s) # es_tried s, es_server := r'\<rparr>)"
      if "v r' = v (es_server s)"
      using ok tried_ok_more [OF ok(2)] that by (simp add: escalation_ok_def last_ok_def tried_ok_def)
    note applied = last_ok_applied [OF ok(1) _ w] tried_ok_applied [OF ok(2) _ w True]
    show ?thesis
    proof (cases b)
      case True
      with law applied [of r'] r \<open>d \<in> detector_allowlist\<close> show ?thesis
        by (simp add: Signal record_signal_def escalation_policy_def escalation_ok_def)
    next
      case False
      with law applied [of r'] r \<open>d \<in> detector_allowlist\<close> same show ?thesis
        by (auto simp: Signal record_signal_def escalation_policy_def escalation_ok_def)
    qed
  qed
next
  case (Elapse d)
  have "hash_expiry wait v" using assms(1) by (simp add: hash_laws_def)
  with assms(2) last_ok_wait [of v "es_now s" "es_last s" "es_server s" wait "\<bar>d\<bar>"]
    tried_ok_wait [of v "es_now s" "es_tried s" "es_server s" wait "es_now s + \<bar>d\<bar>" "\<bar>d\<bar>"]
  show ?thesis by (simp add: Elapse escalation_ok_def)
qed

interpretation escalation_run: preserved_when "escalation_step C wait"
  "\<lambda>s. hash_laws C wait v \<and> escalation_ok v s" plain_wallet for C :: "'r hash_client" and wait v
  by unfold_locales (simp add: escalation_step_ok)

definition escalation_start :: "'r \<Rightarrow> 'r escalation_state" where
  "escalation_start r = \<lparr>es_now = 0, es_last = (\<lambda>_. Map.empty), es_tried = [], es_server = r\<rparr>"

lemma escalation_history:
  assumes "hash_laws C wait v" and "v r0 = Map.empty" and "\<forall>e\<in>set es. plain_wallet e"
  shows "escalation_ok v (foldl (escalation_step C wait) (escalation_start r0) es)"
proof -
  have "escalation_ok v (escalation_start r0)"
    using assms(2) by (simp add: escalation_ok_def escalation_start_def last_ok_def tried_ok_def)
  with escalation_run.run_inv_when assms show ?thesis by blast
qed

lemma two_in_filter:
  "x \<in> set (filter P xs) \<Longrightarrow> y \<in> set (filter P xs) \<Longrightarrow> x \<noteq> y \<Longrightarrow> 2 \<le> length (filter P xs)"
  by (cases "filter P xs"; cases "tl (filter P xs)") auto

text \<open>
  No agreement is missed: when the last signals of two detectors for a pair of a wallet are at
  most 120 seconds old, the check raises an alert that names both, unless Redis fails.
\<close>

theorem agreement_is_escalated:
  assumes "hash_laws C wait v" and "v r0 = Map.empty" and "\<forall>e\<in>set es. plain_wallet e"
    and "s = foldl (escalation_step C wait) (escalation_start r0) es" and "CHR '':'' \<notin> set w"
    and "es_last s (w, a) c = Some t" and "es_now s - t \<le> 120"
    and "es_last s (w, a) d = Some u" and "es_now s - u \<le> 120" and "c \<noteq> d"
  shows "case check_consensus C escalation_policy (es_now s) w a (es_server s) of
      Inl e \<Rightarrow> e = RedisFault
    | Inr None \<Rightarrow> False
    | Inr (Some x) \<Rightarrow> c \<in> set (ea_detectors x) \<and> d \<in> set (ea_detectors x)"
proof (cases "hc_getall C (consensus_key w a) (es_server s)")
  case (Some sig)
  have ok: "last_ok v (es_now s) (es_last s) (es_server s)"
    using escalation_history [OF assms(1-3)] assms(4) by (simp add: escalation_ok_def)
  have live: "\<exists>m e t'. v (es_server s) (consensus_key w a) = Some (m, e) \<and> m x = Some t' \<and> y \<le> t'"
    if "es_last s (w, a) x = Some y" "es_now s - y \<le> 120" for x y
  proof -
    have "es_now s - y < 130" using that(2) by simp
    with ok that(1) assms(5) show ?thesis unfolding last_ok_def by blast
  qed
  have "case hc_getall C (consensus_key w a) (es_server s) of None \<Rightarrow> True
      | Some d \<Rightarrow> dict_ok d \<and> map_of d = (case v (es_server s) (consensus_key w a) of None \<Rightarrow> Map.empty | Some (m, _) \<Rightarrow> m)"
    using assms(1) unfolding hash_laws_def getall_law_def by blast
  with Some have m: "map_of sig = (case v (es_server s) (consensus_key w a) of None \<Rightarrow> Map.empty | Some (m, _) \<Rightarrow> m)"
    by simp
  have in_sig: "\<exists>t'. (x, t') \<in> set (filter (\<lambda>(d, t). es_now s - t \<le> 120) sig)"
    if q: "es_last s (w, a) x = Some y" "es_now s - y \<le> 120" for x y
  proof -
    obtain mm e t' where l: "v (es_server s) (consensus_key w a) = Some (mm, e)" "mm x = Some t'" "y \<le> t'"
      using live [OF q] by blast
    then have "(x, t') \<in> set sig" using m by (auto intro: map_of_SomeD)
    with l q(2) show ?thesis by auto
  qed
  obtain t' u' where in2: "(c, t') \<in> set (filter (\<lambda>(d, t). es_now s - t \<le> 120) sig)"
    "(d, u') \<in> set (filter (\<lambda>(d, t). es_now s - t \<le> 120) sig)"
    using in_sig [OF assms(6,7)] in_sig [OF assms(8,9)] by blast
  from two_in_filter [OF in2] assms(10) have "2 \<le> length (filter (\<lambda>(d, t). es_now s - t \<le> 120) sig)" by simp
  moreover have "sig \<noteq> []" using in2 by auto
  ultimately show ?thesis
    using in2 Some by (force simp: check_consensus_def escalation_policy_def Let_def)
qed (simp add: check_consensus_def)

text \<open>
  No alert without agreement: an alert names at least two different detectors of the
  allowlist, and each of them signalled for this wallet and pair in the last 120 seconds.
\<close>

theorem escalation_needs_agreement:
  assumes "hash_laws C wait v" and "v r0 = Map.empty" and "\<forall>e\<in>set es. plain_wallet e"
    and "s = foldl (escalation_step C wait) (escalation_start r0) es" and "CHR '':'' \<notin> set w"
    and "check_consensus C escalation_policy (es_now s) w a (es_server s) = Inr (Some x)"
  shows "distinct (ea_detectors x) \<and> 2 \<le> length (ea_detectors x) \<and>
    list_all (\<lambda>d. d \<in> detector_allowlist \<and> (\<exists>t. (w, a, d, t) \<in> set (es_tried s) \<and> es_now s - t \<le> 120)) (ea_detectors x)"
proof -
  have ok: "tried_ok v (es_now s) (es_tried s) (es_server s)"
    using escalation_history [OF assms(1-3)] assms(4) by (simp add: escalation_ok_def)
  obtain sig where sig: "hc_getall C (consensus_key w a) (es_server s) = Some sig"
    using assms(6) by (auto simp: check_consensus_def split: option.splits)
  let ?valid = "filter (\<lambda>(d, t). es_now s - t \<le> 120) sig"
  have x: "ea_detectors x = map fst ?valid" "2 \<le> length ?valid"
    using assms(6) sig by (auto simp: check_consensus_def escalation_policy_def Let_def split: if_splits)
  have "case hc_getall C (consensus_key w a) (es_server s) of None \<Rightarrow> True
      | Some d \<Rightarrow> dict_ok d \<and> map_of d = (case v (es_server s) (consensus_key w a) of None \<Rightarrow> Map.empty | Some (m, _) \<Rightarrow> m)"
    using assms(1) unfolding hash_laws_def getall_law_def by blast
  with sig have m: "dict_ok sig"
    "map_of sig = (case v (es_server s) (consensus_key w a) of None \<Rightarrow> Map.empty | Some (m, _) \<Rightarrow> m)" by simp_all
  have each: "d \<in> detector_allowlist \<and> (\<exists>t. (w, a, d, t) \<in> set (es_tried s) \<and> es_now s - t \<le> 120)"
    if d: "d \<in> set (map fst ?valid)" for d
  proof -
    obtain t where t: "(d, t) \<in> set sig" "es_now s - t \<le> 120" using d by auto
    then have "map_of sig d = Some t" using m(1) by (simp add: dict_ok_def)
    then obtain mm e where "v (es_server s) (consensus_key w a) = Some (mm, e)" "mm d = Some t"
      using m(2) by (cases "v (es_server s) (consensus_key w a)") auto
    with ok assms(5) t(2) show ?thesis unfolding tried_ok_def by blast
  qed
  have "distinct (map fst ?valid)" using m(1) by (simp add: dict_ok_def distinct_map_filter)
  with x each show ?thesis by (simp add: list_all_iff)
qed

subsection \<open>An instance\<close>

type_synonym demo_hashes = "string \<Rightarrow> ((string, clock) dict \<times> rat) option"

definition demo_hash_client :: "demo_hashes hash_client" where
  "demo_hash_client = \<lparr>
     hc_record = (\<lambda>k d t ttl r. (True, r(k := Some (dict_set d t (case r k of None \<Rightarrow> [] | Some (m, _) \<Rightarrow> m), ttl)))),
     hc_getall = (\<lambda>k r. Some (case r k of None \<Rightarrow> [] | Some (m, _) \<Rightarrow> AList.clearjunk m))\<rparr>"

definition demo_hash_wait :: "rat \<Rightarrow> demo_hashes \<Rightarrow> demo_hashes" where
  "demo_hash_wait d r = (\<lambda>k. case r k of None \<Rightarrow> None | Some (m, e) \<Rightarrow> if d < e then Some (m, e - d) else None)"

definition demo_hash_view :: "demo_hashes hash_view" where
  "demo_hash_view r k = map_option (\<lambda>(m, e). (map_of m, e)) (r k)"

lemma demo_hash_laws: "hash_laws demo_hash_client demo_hash_wait demo_hash_view"
proof -
  have "record_law demo_hash_client demo_hash_view"
    by (auto simp: record_law_def demo_hash_client_def demo_hash_view_def hash_after_def fun_eq_iff update_conv'
        split: option.splits)
  moreover have "getall_law demo_hash_client demo_hash_view"
    by (auto simp: getall_law_def demo_hash_client_def demo_hash_view_def dict_ok_def map_of_clearjunk
        split: option.splits)
  moreover have "hash_expiry demo_hash_wait demo_hash_view"
    by (auto simp: hash_expiry_def demo_hash_wait_def demo_hash_view_def split: option.splits)
  ultimately show ?thesis by (simp add: hash_laws_def)
qed

definition demo_signals :: "escalation_event list" where
  "demo_signals = [Signal ''G1'' ''p'' ''ml'', Elapse 60, Signal ''G1'' ''p'' ''benford'']"

lemma agreement_is_escalated_witness:
  "case check_consensus demo_hash_client escalation_policy 60 ''G1'' ''p''
      (es_server (foldl (escalation_step demo_hash_client demo_hash_wait) (escalation_start Map.empty) demo_signals)) of
      Inl e \<Rightarrow> e = RedisFault
    | Inr None \<Rightarrow> False
    | Inr (Some x) \<Rightarrow> ''ml'' \<in> set (ea_detectors x) \<and> ''benford'' \<in> set (ea_detectors x)"
proof -
  let ?s = "foldl (escalation_step demo_hash_client demo_hash_wait) (escalation_start Map.empty) demo_signals"
  have n: "es_now ?s = 60" "es_last ?s (''G1'', ''p'') ''ml'' = Some 0" "es_last ?s (''G1'', ''p'') ''benford'' = Some 60"
    by (simp_all add: demo_signals_def escalation_start_def record_signal_def demo_hash_client_def
        detector_allowlist_def)
  have v: "demo_hash_view Map.empty = Map.empty" by (simp add: demo_hash_view_def fun_eq_iff)
  have p: "\<forall>e\<in>set demo_signals. plain_wallet e" by (simp add: demo_signals_def plain_wallet_def)
  from agreement_is_escalated [where s = ?s, OF demo_hash_laws v p refl, of "''G1''" "''p''" "''ml''" 0 "''benford''" 60] n
  show ?thesis by simp
qed

lemma escalation_needs_agreement_witness:
  "\<exists>x. check_consensus demo_hash_client escalation_policy 60 ''G1'' ''p''
      (es_server (foldl (escalation_step demo_hash_client demo_hash_wait) (escalation_start Map.empty) demo_signals)) =
      Inr (Some x) \<and> 2 \<le> length (ea_detectors x)"
proof -
  let ?s = "foldl (escalation_step demo_hash_client demo_hash_wait) (escalation_start Map.empty) demo_signals"
  have n: "es_now ?s = 60"
    by (simp add: demo_signals_def escalation_start_def record_signal_def demo_hash_client_def
        detector_allowlist_def)
  have v: "demo_hash_view Map.empty = Map.empty" by (simp add: demo_hash_view_def fun_eq_iff)
  obtain x where x: "check_consensus demo_hash_client escalation_policy 60 ''G1'' ''p'' (es_server ?s) = Inr (Some x)"
    by (simp add: demo_signals_def escalation_start_def record_signal_def demo_hash_client_def
        detector_allowlist_def check_consensus_def consensus_key_def demo_hash_wait_def escalation_policy_def Let_def)
  have p: "\<forall>e\<in>set demo_signals. plain_wallet e" by (simp add: demo_signals_def plain_wallet_def)
  from escalation_needs_agreement [where s = ?s, OF demo_hash_laws v p refl, of "''G1''" "''p''" x] n x
  show ?thesis by simp
qed

end
