(* ===== verification/ListOverride.thy ===== *)
theory ListOverride
  imports AuditTrail
begin

text \<open>
  The allowlist and denylist that override risk scores (\<open>detection/list_override.py\<close>), with their
  reloading from disk and their audited mutations, which go to the trail of theory AuditTrail, and
  the guard on writes to the production model directory (\<open>detection/production_write_guard.py\<close>).
\<close>

text \<open>A list file is missing, cannot be opened or parsed, or holds a JSON value.\<close>

datatype list_file = MissingFile | UnreadableFile | ParsedFile json

record list_override =
  lo_allow :: "json set"
  lo_deny :: "json set"
  lo_loaded :: clock

fun hashable :: "json \<Rightarrow> bool" where
  "hashable (JList xs) = False"
| "hashable (JObj kvs) = False"
| "hashable _ = True"

text \<open>Every failure, also an element that cannot be hashed, leaves the empty set.\<close>

definition load_list :: "list_file \<Rightarrow> json set" where
  "load_list f =
     (case f of
        ParsedFile (JList xs) \<Rightarrow> if (\<forall>x\<in>set xs. hashable x) then set xs else {}
      | _ \<Rightarrow> {})"

definition reload_lists :: "list_file \<Rightarrow> list_file \<Rightarrow> clock \<Rightarrow> list_override" where
  "reload_lists allow_file deny_file now =
     \<lparr>lo_allow = load_list allow_file, lo_deny = load_list deny_file, lo_loaded = now\<rparr>"

text \<open>
  The mutations with their audit event. \<open>trail\<close> is \<open>None\<close> where the import of the audit trail
  failed; an error of the recording is swallowed.
\<close>

datatype list_mutation = AllowAdd string | AllowRemove string | DenyAdd string | DenyRemove string

definition listed :: "bool \<Rightarrow> json" where
  "listed b = JObj [(KStr ''listed'', JBool b)]"

definition list_event :: "string \<Rightarrow> string \<Rightarrow> string \<Rightarrow> bool \<Rightarrow> bool \<Rightarrow> audit_event" where
  "list_event actor action wallet before after =
     \<lparr>ae_actor = actor, ae_action = action, ae_before = listed before, ae_after = listed after,
      ae_target = Some wallet, ae_metadata = None\<rparr>"

definition list_audit ::
  "(json \<Rightarrow> string) \<Rightarrow> string \<Rightarrow> audit_event \<Rightarrow> audit_line list option \<Rightarrow> audit_line list option"
where
  "list_audit sha now ev trail =
     (case trail of None \<Rightarrow> None | Some ls \<Rightarrow> Some (snd (record_audit_event sha now ev ls)))"

fun mutation_event :: "string \<Rightarrow> list_mutation \<Rightarrow> list_override \<Rightarrow> audit_event" where
  "mutation_event actor (AllowAdd w) s = list_event actor ''allowlist.add'' w (JStr w \<in> lo_allow s) True"
| "mutation_event actor (AllowRemove w) s = list_event actor ''allowlist.remove'' w (JStr w \<in> lo_allow s) False"
| "mutation_event actor (DenyAdd w) s = list_event actor ''denylist.add'' w (JStr w \<in> lo_deny s) True"
| "mutation_event actor (DenyRemove w) s = list_event actor ''denylist.remove'' w (JStr w \<in> lo_deny s) False"

fun mutated :: "list_mutation \<Rightarrow> list_override \<Rightarrow> list_override" where
  "mutated (AllowAdd w) s = s\<lparr>lo_allow := insert (JStr w) (lo_allow s)\<rparr>"
| "mutated (AllowRemove w) s = s\<lparr>lo_allow := lo_allow s - {JStr w}\<rparr>"
| "mutated (DenyAdd w) s = s\<lparr>lo_deny := insert (JStr w) (lo_deny s)\<rparr>"
| "mutated (DenyRemove w) s = s\<lparr>lo_deny := lo_deny s - {JStr w}\<rparr>"

definition mutate_list ::
  "(json \<Rightarrow> string) \<Rightarrow> string \<Rightarrow> string \<Rightarrow> list_mutation \<Rightarrow>
   list_override \<times> audit_line list option \<Rightarrow> list_override \<times> audit_line list option"
where
  "mutate_list sha actor now m st =
     (mutated m (fst st), list_audit sha now (mutation_event actor m (fst st)) (snd st))"

text \<open>\<open>check\<close>; the first component is the override.\<close>

definition check_override ::
  "list_file \<Rightarrow> list_file \<Rightarrow> rat \<Rightarrow> clock \<Rightarrow> clock \<Rightarrow> string \<Rightarrow> list_override \<Rightarrow> int option \<times> list_override"
where
  "check_override allow_file deny_file interval now loaded_at wallet s =
     (let s' = (if now - lo_loaded s \<ge> interval then reload_lists allow_file deny_file loaded_at else s)
      in (if JStr wallet \<in> lo_allow s' then Some 0
          else if JStr wallet \<in> lo_deny s' then Some 100 else None, s'))"

subsection \<open>What the lists answer\<close>

text \<open>
  C0. Between two reloads the answer for a wallet follows the last mutation of it: the allowlist
  has precedence, and mutations of other wallets do not matter.
\<close>

fun allow_last :: "string \<Rightarrow> bool \<Rightarrow> list_mutation list \<Rightarrow> bool" where
  "allow_last w b [] = b"
| "allow_last w b (AllowAdd v # ms) = allow_last w (w = v \<or> b) ms"
| "allow_last w b (AllowRemove v # ms) = allow_last w (b \<and> w \<noteq> v) ms"
| "allow_last w b (_ # ms) = allow_last w b ms"

fun deny_last :: "string \<Rightarrow> bool \<Rightarrow> list_mutation list \<Rightarrow> bool" where
  "deny_last w b [] = b"
| "deny_last w b (DenyAdd v # ms) = deny_last w (w = v \<or> b) ms"
| "deny_last w b (DenyRemove v # ms) = deny_last w (b \<and> w \<noteq> v) ms"
| "deny_last w b (_ # ms) = deny_last w b ms"

lemma mutations_lists:
  "(JStr w \<in> lo_allow (foldl (\<lambda>s m. mutated m s) s ms)) = allow_last w (JStr w \<in> lo_allow s) ms \<and>
   (JStr w \<in> lo_deny (foldl (\<lambda>s m. mutated m s) s ms)) = deny_last w (JStr w \<in> lo_deny s) ms \<and>
   lo_loaded (foldl (\<lambda>s m. mutated m s) s ms) = lo_loaded s"
proof (induction ms arbitrary: s)
  case (Cons m ms)
  have "foldl (\<lambda>s m. mutated m s) s (m # ms) = foldl (\<lambda>s m. mutated m s) (mutated m s) ms" by simp
  with Cons [of "mutated m s"] show ?case by (cases m) (auto simp: disj_commute)
qed simp

lemma fst_mutate_list:
  "fst (foldl (\<lambda>st (now, m). mutate_list sha actor now m st) st ms) =
     foldl (\<lambda>s m. mutated m s) (fst st) (map snd ms)"
  by (induction ms arbitrary: st) (auto simp: mutate_list_def)

theorem override_exact:
  assumes "s = fst (foldl (\<lambda>st (now, m). mutate_list sha actor now m st)
      (reload_lists (ParsedFile (JList (map JStr allow))) (ParsedFile (JList (map JStr deny))) t0, trail) ms)"
    and "now - t0 < interval"
  shows "fst (check_override af df interval now t w s) =
    (if allow_last w (w \<in> set allow) (map snd ms) then Some 0
     else if deny_last w (w \<in> set deny) (map snd ms) then Some 100 else None)"
proof -
  have l: "load_list (ParsedFile (JList (map JStr xs))) = JStr ` set xs" for xs
    by (simp add: load_list_def)
  have i: "JStr w \<in> JStr ` set xs \<longleftrightarrow> w \<in> set xs" for xs by auto
  show ?thesis
    using assms(2) mutations_lists [of w "reload_lists (ParsedFile (JList (map JStr allow)))
        (ParsedFile (JList (map JStr deny))) t0" "map snd ms"]
    by (simp add: assms(1) fst_mutate_list check_override_def reload_lists_def l i)
qed

lemma override_exact_witness:
  "fst (check_override MissingFile MissingFile 60 5 5 ''B''
     (fst (foldl (\<lambda>st (now, m). mutate_list (\<lambda>_. []) ''op'' now m st)
        (reload_lists (ParsedFile (JList (map JStr []))) (ParsedFile (JList (map JStr [''A'']))) 0, None)
        [(''t'', DenyAdd ''B'')]))) = Some 100"
  using override_exact [OF refl, of 5 0 60 MissingFile MissingFile 5 "''B''" "\<lambda>_. []" "''op''" "[]" "[''A'']"
      None "[(''t'', DenyAdd ''B'')]"] by simp

text \<open>
  A reload forgets every mutation: the lists live in memory only, so a wallet that was taken
  off the denylist, with an entry in the audit trail that says so, is scored 100 again as soon as the
  reload interval has passed.
\<close>

theorem removal_is_undone:
  assumes "s = fst (foldl (\<lambda>st (now, m). mutate_list sha actor now m st) st ms)"
    and "interval \<le> now - lo_loaded (fst st)"
    and "JStr w \<in> load_list df" and "JStr w \<notin> load_list af"
  shows "fst (check_override af df interval now t w s) = Some 100"
  using assms mutations_lists [of w "fst st" "map snd ms"]
  by (simp add: fst_mutate_list check_override_def reload_lists_def)

lemma removal_is_undone_witness:
  "fst (check_override MissingFile (ParsedFile (JList [JStr ''A''])) 60 60 60 ''A''
     (fst (foldl (\<lambda>st (now, m). mutate_list (\<lambda>_. []) ''op'' now m st)
       (reload_lists MissingFile (ParsedFile (JList [JStr ''A''])) 0, Some []) [(''t'', DenyRemove ''A'')]))) =
   Some 100"
  by (rule removal_is_undone [OF refl]) (simp_all add: reload_lists_def load_list_def)

text \<open>
  The lists fail open: while the denylist file is missing, unreadable or not a list of texts,
  a check that reloads overrides no wallet to 100.
\<close>

theorem unreadable_denylist_opens:
  assumes "interval \<le> now - lo_loaded s" and "df = MissingFile \<or> df = UnreadableFile \<or> df = ParsedFile (JObj kvs)"
  shows "fst (check_override af df interval now t w s) \<noteq> Some 100"
  using assms by (auto simp: check_override_def reload_lists_def load_list_def Let_def)

lemma unreadable_denylist_opens_witness:
  "fst (check_override MissingFile UnreadableFile 60 60 60 ''A''
     (reload_lists MissingFile (ParsedFile (JList [JStr ''A''])) 0)) \<noteq> Some 100"
  by (rule unreadable_denylist_opens) (simp_all add: reload_lists_def)

subsection \<open>The audit of the mutations\<close>

lemma mutation_event_keyed: "event_str_keyed (mutation_event actor m s)"
  by (cases m) (simp_all add: list_event_def event_str_keyed_def listed_def)

fun mutation_action :: "list_mutation \<Rightarrow> string \<times> string" where
  "mutation_action (AllowAdd w) = (''allowlist.add'', w)"
| "mutation_action (AllowRemove w) = (''allowlist.remove'', w)"
| "mutation_action (DenyAdd w) = (''denylist.add'', w)"
| "mutation_action (DenyRemove w) = (''denylist.remove'', w)"

lemma mutation_recorded:
  assumes "verify_audit_trail sha ls = Inr True"
  shows "\<exists>d. list_audit sha now (mutation_event actor m s) (Some ls) = Some (ls @ [JsonLine (jobj d)]) \<and>
    dict_get d ''action'' = Some (JStr (fst (mutation_action m))) \<and>
    dict_get d ''target'' = Some (JStr (snd (mutation_action m))) \<and>
    verify_audit_trail sha (ls @ [JsonLine (jobj d)]) = Inr True"
proof -
  let ?ev = "mutation_event actor m s"
  from record_is_write [OF assms] obtain es h where h: "read_entries ls = Inr es" "last_hash es = Inr (JStr h)"
    "\<And>now ev. record_audit_event sha now ev ls = write_entry sha now ev (JStr h) ls" by blast
  have c: "event_canonical ?ev" by (rule event_str_keyed_canonical [OF mutation_event_keyed])
  let ?d = "build_entry now ?ev (JStr h) @ [(''hash'', JStr (sha (recorded_text now ?ev (JStr h))))]"
  have r: "list_audit sha now ?ev (Some ls) = Some (ls @ [JsonLine (jobj (canon_items ?d))])"
    using write_entry_effect [OF c, of sha now h ls] by (simp add: list_audit_def h(3) Let_def)
  have dist: "distinct (map fst ?d)" unfolding map_append build_entry_keys by simp
  have "dict_get (canon_items ?d) ''action'' = Some (JStr (fst (mutation_action m))) \<and>
      dict_get (canon_items ?d) ''target'' = Some (JStr (snd (mutation_action m)))"
    by (simp add: canon_items_get [OF dist]) (cases m; simp add: build_entry_def list_event_def opt_str_def)
  moreover have "verify_audit_trail sha (ls @ [JsonLine (jobj (canon_items ?d))]) = Inr True"
  proof -
    have "snd (record_audit_event sha now ?ev ls) = ls @ [JsonLine (jobj (canon_items ?d))]"
      using r by (simp add: list_audit_def)
    then show ?thesis
      using audit_run.step_inv_when [OF assms, of "(now, ?ev)"] mutation_event_keyed by (simp add: audit_step_def)
  qed
  ultimately show ?thesis using r by blast
qed

text \<open>
  Every mutation is on record: after any sequence of them a trail that verified still
  verifies and has one more line for each, in order.
\<close>

theorem mutations_are_audited:
  assumes "verify_audit_trail sha ls = Inr True"
  shows "\<exists>ds. snd (foldl (\<lambda>st (now, m). mutate_list sha actor now m st) (s, Some ls) ms) =
      Some (ls @ map (JsonLine \<circ> jobj) ds) \<and>
    map (\<lambda>d. (dict_get d ''action'', dict_get d ''target'')) ds =
      map (\<lambda>(now, m). (Some (JStr (fst (mutation_action m))), Some (JStr (snd (mutation_action m))))) ms \<and>
    verify_audit_trail sha (ls @ map (JsonLine \<circ> jobj) ds) = Inr True"
  using assms
proof (induction ms arbitrary: s ls)
  case Nil
  then show ?case by (intro exI [of _ "[]"]) simp
next
  case (Cons nm ms)
  obtain now m where nm: "nm = (now, m)" by (cases nm)
  obtain d where d: "list_audit sha now (mutation_event actor m s) (Some ls) = Some (ls @ [JsonLine (jobj d)])"
    "dict_get d ''action'' = Some (JStr (fst (mutation_action m)))"
    "dict_get d ''target'' = Some (JStr (snd (mutation_action m)))"
    "verify_audit_trail sha (ls @ [JsonLine (jobj d)]) = Inr True"
    using mutation_recorded [OF Cons.prems, of now actor m s] by blast
  obtain ds where ds: "snd (foldl (\<lambda>st (now, m). mutate_list sha actor now m st)
        (mutated m s, Some (ls @ [JsonLine (jobj d)])) ms) = Some ((ls @ [JsonLine (jobj d)]) @ map (JsonLine \<circ> jobj) ds)"
    "map (\<lambda>d. (dict_get d ''action'', dict_get d ''target'')) ds =
      map (\<lambda>(now, m). (Some (JStr (fst (mutation_action m))), Some (JStr (snd (mutation_action m))))) ms"
    "verify_audit_trail sha ((ls @ [JsonLine (jobj d)]) @ map (JsonLine \<circ> jobj) ds) = Inr True"
    using Cons.IH [OF d(4), of "mutated m s"] by blast
  show ?case
    using d ds by (intro exI [of _ "d # ds"]) (simp add: nm mutate_list_def comp_def)
qed

lemma mutations_are_audited_witness:
  "\<exists>ds. snd (foldl (\<lambda>st (now, m). mutate_list demo_text ''op'' now m st)
      (reload_lists MissingFile MissingFile 0, Some []) [(''t'', AllowAdd ''A''), (''u'', DenyAdd ''B'')]) =
      Some ([] @ map (JsonLine \<circ> jobj) ds) \<and> length ds = 2"
  using mutations_are_audited [of demo_text "[]" "''op''" "reload_lists MissingFile MissingFile 0"
      "[(''t'', AllowAdd ''A''), (''u'', DenyAdd ''B'')]"]
  by (auto simp: verify_audit_trail_def dest: map_eq_imp_length_eq)

subsection \<open>The production write guard\<close>

text \<open>
  \<open>abspath\<close> is \<open>os.path.abspath\<close> in the working directory and \<open>exists\<close> the file system;
  \<open>False\<close> is \<open>UngatedProductionWriteError\<close>.
\<close>

definition path_join :: "string \<Rightarrow> string \<Rightarrow> string" where
  "path_join a b = (if b \<noteq> [] \<and> hd b = CHR ''/'' then b
     else if a = [] \<or> last a = CHR ''/'' then a @ b else a @ ''/'' @ b)"

definition guard_production_write ::
  "(string \<Rightarrow> string) \<Rightarrow> (string \<Rightarrow> bool) \<Rightarrow> string \<Rightarrow> string \<Rightarrow> bool"
where
  "guard_production_write abspath exists model_dir target_dir =
     (let prod_dir = abspath model_dir in
        if abspath target_dir \<noteq> prod_dir then True
        else \<not> exists (path_join prod_dir ''metrics.json''))"

lemma guard_exact:
  "guard_production_write abspath exists model_dir target_dir \<longleftrightarrow>
     \<not> (abspath target_dir = abspath model_dir \<and> exists (path_join (abspath model_dir) ''metrics.json''))"
  by (simp add: guard_production_write_def Let_def)

text \<open>Paths are compared as texts: a symbolic link to the directory has another path and passes.\<close>

lemma linked_directory_passes:
  "abspath link \<noteq> abspath model_dir \<Longrightarrow> guard_production_write abspath exists model_dir link"
  by (simp add: guard_exact)

end
