(* ===== verification/Workflows.thy ===== *)
theory Workflows
  imports Base
begin

text \<open>
  Resumable workflows (\<open>utils/checkpointing.py\<close>): the checksummed checkpoint files of a directory,
  steps and items that are skipped once done, and what crashes can repeat.

  The directory is a dictionary from file names to contents and modification times. SHA-256 of the
  canonical JSON of a record is the parameter \<open>sha\<close>; a record survives its JSON text unchanged. A
  file holds no JSON, or a record with the checksum that is stored beside it; files with missing
  keys are left out. Workflow ids are ASCII texts.
\<close>

record wf_record =
  wr_id :: string
  wr_version :: int
  wr_updated :: clock
  wr_steps :: "string list"
  wr_progress :: "string \<rightharpoonup> string list"

datatype wf_file = WfNotJson | WfBody wf_record "string option"

type_synonym wf_dir = "(string, wf_file \<times> clock) dict"

datatype wf_error = WfJsonError | WfCorrupt string | WfVersion string int | WfDisk

definition wf_alnum :: "char \<Rightarrow> bool" where
  "wf_alnum c \<longleftrightarrow> (CHR ''0'' \<le> c \<and> c \<le> CHR ''9'') \<or> (CHR ''A'' \<le> c \<and> c \<le> CHR ''Z'') \<or>
     (CHR ''a'' \<le> c \<and> c \<le> CHR ''z'')"

definition wf_path :: "string \<Rightarrow> string" where
  "wf_path workflow_id =
     map (\<lambda>c. if wf_alnum c \<or> c \<in> set ''-_.'' then c else CHR ''_'') workflow_id @ ''.json''"

definition wf_exists :: "string \<Rightarrow> wf_dir \<Rightarrow> bool" where
  "wf_exists workflow_id dir = (dict_get dir (wf_path workflow_id) \<noteq> None)"

definition wf_load :: "(wf_record \<Rightarrow> string) \<Rightarrow> string \<Rightarrow> wf_dir \<Rightarrow> wf_error + wf_record option" where
  "wf_load sha workflow_id dir =
     (case dict_get dir (wf_path workflow_id) of
        None \<Rightarrow> Inr None
      | Some (WfNotJson, _) \<Rightarrow> Inl WfJsonError
      | Some (WfBody r checksum, _) \<Rightarrow>
          if checksum \<noteq> Some (sha r) then Inl (WfCorrupt workflow_id)
          else if wr_version r \<noteq> 1 then Inl (WfVersion workflow_id (wr_version r))
          else Inr (Some r))"

text \<open>\<open>ok\<close> is whether the file system accepts the write; the rename makes it all or nothing.\<close>

definition wf_save :: "(wf_record \<Rightarrow> string) \<Rightarrow> bool \<Rightarrow> clock \<Rightarrow> wf_record \<Rightarrow> wf_dir \<Rightarrow> (wf_error + unit) \<times> wf_dir"
where
  "wf_save sha ok mtime r dir =
     (if ok then (Inr (), dict_set (wf_path (wr_id r)) (WfBody r (Some (sha r)), mtime) dir)
      else (Inl WfDisk, dir))"

definition wf_store_clear :: "string \<Rightarrow> wf_dir \<Rightarrow> wf_dir" where
  "wf_store_clear workflow_id dir = dict_pop (wf_path workflow_id) dir"

definition ends_json :: "string \<Rightarrow> bool" where
  "ends_json name \<longleftrightarrow> length name \<ge> 5 \<and> drop (length name - 5) name = ''.json''"

definition cleanup_stale :: "clock \<Rightarrow> rat \<Rightarrow> wf_dir \<Rightarrow> string list \<times> wf_dir" where
  "cleanup_stale now retention_days dir =
     (let stale = (\<lambda>(name, _, mtime). ends_json name \<and> mtime < now - retention_days * 86400)
      in (sort (map fst (filter stale dir)), filter (\<lambda>e. \<not> stale e) dir))"

subsection \<open>Workflows and steps\<close>

definition fresh_record :: "string \<Rightarrow> clock \<Rightarrow> wf_record" where
  "fresh_record workflow_id now =
     \<lparr>wr_id = workflow_id, wr_version = 1, wr_updated = now, wr_steps = [], wr_progress = Map.empty\<rparr>"

definition wf_open :: "(wf_record \<Rightarrow> string) \<Rightarrow> string \<Rightarrow> clock \<Rightarrow> wf_dir \<Rightarrow> wf_error + wf_record" where
  "wf_open sha workflow_id now dir =
     (case wf_load sha workflow_id dir of
        Inl e \<Rightarrow> Inl e
      | Inr (Some r) \<Rightarrow> Inr r
      | Inr None \<Rightarrow> Inr (fresh_record workflow_id now))"

definition wf_flush ::
  "(wf_record \<Rightarrow> string) \<Rightarrow> bool \<Rightarrow> clock \<Rightarrow> wf_record \<times> wf_dir \<Rightarrow> (wf_error + unit) \<times> wf_record \<times> wf_dir"
where
  "wf_flush sha ok now st =
     (let r = (fst st)\<lparr>wr_updated := now\<rparr> in
        case wf_save sha ok now r (snd st) of (res, dir) \<Rightarrow> (res, r, dir))"

definition is_step_done :: "string \<Rightarrow> wf_record \<Rightarrow> bool" where
  "is_step_done step r \<longleftrightarrow> step \<in> set (wr_steps r)"

definition remaining_steps :: "string list \<Rightarrow> wf_record \<Rightarrow> string list" where
  "remaining_steps steps r = filter (\<lambda>s. \<not> is_step_done s r) steps"

text \<open>\<open>StepCheckpoint\<close>: the set of done items is read from the record when the step is entered.\<close>

definition step_enter :: "string \<Rightarrow> wf_record \<Rightarrow> string list" where
  "step_enter step r = (case wr_progress r step of None \<Rightarrow> [] | Some xs \<Rightarrow> xs)"

definition remaining_items :: "('i \<Rightarrow> string) \<Rightarrow> 'i list \<Rightarrow> string list \<Rightarrow> 'i list" where
  "remaining_items key items done_set = filter (\<lambda>i. key i \<notin> set done_set) items"

definition mark_done ::
  "(wf_record \<Rightarrow> string) \<Rightarrow> string \<Rightarrow> bool \<Rightarrow> bool \<Rightarrow> clock \<Rightarrow> string \<Rightarrow>
   string list \<times> wf_record \<times> wf_dir \<Rightarrow> (wf_error + unit) \<times> string list \<times> wf_record \<times> wf_dir"
where
  "mark_done sha step flush ok now item_key st =
     (case st of (done_set, r, dir) \<Rightarrow>
        let done_set = (if item_key \<in> set done_set then done_set else done_set @ [item_key]);
            r = r\<lparr>wr_progress := (wr_progress r)(step \<mapsto> sort done_set)\<rparr>
        in if flush then (case wf_flush sha ok now (r, dir) of (res, r', dir') \<Rightarrow> (res, done_set, r', dir'))
           else (Inr (), done_set, r, dir))"

text \<open>Leaving the step: with or without an exception, which the context manager lets through.\<close>

definition step_exit ::
  "(wf_record \<Rightarrow> string) \<Rightarrow> string \<Rightarrow> bool \<Rightarrow> bool \<Rightarrow> clock \<Rightarrow> wf_record \<times> wf_dir \<Rightarrow>
   (wf_error + unit) \<times> wf_record \<times> wf_dir"
where
  "step_exit sha step raised ok now st =
     (if raised then wf_flush sha ok now st
      else wf_flush sha ok now
        ((fst st)\<lparr>wr_steps := (if step \<in> set (wr_steps (fst st)) then wr_steps (fst st)
            else wr_steps (fst st) @ [step])\<rparr>, snd st))"

definition wf_clear :: "string \<Rightarrow> clock \<Rightarrow> wf_dir \<Rightarrow> wf_record \<times> wf_dir" where
  "wf_clear workflow_id now dir = (fresh_record workflow_id now, wf_store_clear workflow_id dir)"

subsection \<open>Files\<close>

lemma load_after_save:
  "wr_version r = 1 \<Longrightarrow> wf_load sha (wr_id r) (snd (wf_save sha True t r dir)) = Inr (Some r)"
  by (simp add: wf_load_def wf_save_def)

text \<open>
  A file that was edited is refused: a load returns a record only if its checksum is the one
  that was saved, so another record needs a collision of SHA-256.
\<close>

theorem edited_file_refused:
  assumes "wf_load sha i (dict_set (wf_path i) (WfBody r' (Some (sha r)), t) dir) = Inr (Some x)"
  shows "x = r' \<and> sha r' = sha r"
  using assms by (auto simp: wf_load_def split: if_splits)

lemma edited_file_refused_witness:
  "fresh_record ''w'' 0 = fresh_record ''w'' 0 \<and> wr_id (fresh_record ''w'' 0) = ''w''"
  using edited_file_refused [of "\<lambda>r. wr_id r" "''w''" "fresh_record ''w'' 0" "fresh_record ''w'' 0" 0 "[]"
    "fresh_record ''w'' 0"]
  by (simp add: wf_load_def fresh_record_def)

lemma wf_path_inj_on:
  assumes "\<forall>c\<in>set i. wf_alnum c \<or> c \<in> set ''-_.''" and "\<forall>c\<in>set j. wf_alnum c \<or> c \<in> set ''-_.''"
  shows "wf_path i = wf_path j \<longleftrightarrow> i = j"
proof -
  have "map (\<lambda>c. if wf_alnum c \<or> c \<in> set ''-_.'' then c else CHR ''_'') k = k"
    if "\<forall>c\<in>set k. wf_alnum c \<or> c \<in> set ''-_.''" for k
    using that by (intro map_idI) auto
  with assms show ?thesis by (simp add: wf_path_def)
qed

text \<open>
  Two workflow ids that differ only in characters a file name cannot have share one file: the
  second workflow is opened with the progress of the first, and skips the steps the first has done.
\<close>

theorem colliding_ids_share_progress:
  assumes "wf_path i = wf_path j" and "wr_id r = i" and "wr_version r = 1"
    and "wf_flush sha True now (r, dir) = (Inr (), r', dir')"
  shows "wf_open sha j later dir' = Inr r' \<and> remaining_steps (wr_steps r) r' = [] \<and> wr_id r' = i"
proof -
  have "r' = r\<lparr>wr_updated := now\<rparr>" "dir' = snd (wf_save sha True now (r\<lparr>wr_updated := now\<rparr>) dir)"
    using assms(4) by (auto simp: wf_flush_def wf_save_def Let_def)
  then show ?thesis
    using assms(1-3)
    by (simp add: wf_open_def wf_load_def wf_save_def remaining_steps_def is_step_done_def)
qed

lemma colliding_ids_share_progress_witness:
  "wf_open (\<lambda>r. wr_id r) ''load_eu'' 5
     (snd (snd (wf_flush (\<lambda>r. wr_id r) True 1 ((fresh_record ''load/eu'' 0)\<lparr>wr_steps := [''fetch'']\<rparr>, [])))) =
   Inr (fst (snd (wf_flush (\<lambda>r. wr_id r) True 1 ((fresh_record ''load/eu'' 0)\<lparr>wr_steps := [''fetch'']\<rparr>, []))))"
proof -
  have p: "wf_path ''load/eu'' = wf_path ''load_eu''" by code_simp
  show ?thesis
    using colliding_ids_share_progress [OF p, of "(fresh_record ''load/eu'' 0)\<lparr>wr_steps := [''fetch'']\<rparr>"
        "\<lambda>r. wr_id r" 1 "[]" _ _ 5]
    by (simp add: fresh_record_def wf_flush_def wf_save_def Let_def)
qed

subsection \<open>Crashes\<close>

text \<open>
  The loop of the module's documentation over the items of a step, in a process that is killed
  after \<open>n\<close> operations (the work on an item, or marking it): the log lists the items worked on.
\<close>

fun run_items ::
  "(wf_record \<Rightarrow> string) \<Rightarrow> string \<Rightarrow> clock \<Rightarrow> nat \<Rightarrow> string list \<Rightarrow> string list \<times> wf_record \<times> wf_dir \<Rightarrow> string list \<Rightarrow>
   bool \<times> (string list \<times> wf_record \<times> wf_dir) \<times> string list"
where
  "run_items sha step t n [] st worked = (0 < n, st, worked)"
| "run_items sha step t n (i # items) st worked =
     (if i \<in> set (fst st) then run_items sha step t n items st worked
      else if n = 0 then (False, st, worked)
      else if n = 1 then (False, st, worked @ [i])
      else run_items sha step t (n - 2) items (snd (mark_done sha step True True t i st)) (worked @ [i]))"

definition attempt ::
  "(wf_record \<Rightarrow> string) \<Rightarrow> string \<Rightarrow> string \<Rightarrow> clock \<Rightarrow> string list \<Rightarrow> wf_dir \<times> string list \<Rightarrow> nat \<Rightarrow> wf_dir \<times> string list"
where
  "attempt sha workflow_id step t items st n =
     (case wf_open sha workflow_id t (fst st) of
        Inl e \<Rightarrow> st
      | Inr r \<Rightarrow>
          if is_step_done step r then st
          else (case run_items sha step t n items (step_enter step r, r, fst st) (snd st) of
                  (True, (_, r', dir'), worked) \<Rightarrow> (snd (snd (step_exit sha step False True t (r', dir'))), worked)
                | (False, (_, _, dir'), worked) \<Rightarrow> (dir', worked)))"

definition items_ok ::
  "(wf_record \<Rightarrow> string) \<Rightarrow> string \<Rightarrow> string \<Rightarrow> clock \<Rightarrow> string list \<Rightarrow> string list \<times> wf_record \<times> wf_dir \<Rightarrow> string list \<Rightarrow> bool"
where
  "items_ok sha i step t universe st worked =
     (case st of (D, r, dir) \<Rightarrow>
        wf_open sha i t dir = Inr r \<and> wr_id r = i \<and> wr_version r = 1 \<and> set (step_enter step r) = set D \<and>
        distinct D \<and> distinct (step_enter step r) \<and> set D \<subseteq> set universe \<and> set D \<subseteq> set worked)"

lemma mark_done_ok:
  assumes "items_ok sha i step t universe (D, r, dir) worked" and "x \<notin> set D" and "x \<in> set universe"
    and "mark_done sha step True True t x (D, r, dir) = (res, D', r', dir')"
  shows "items_ok sha i step t universe (D', r', dir') (worked @ [x]) \<and> D' = D @ [x] \<and> wr_steps r' = wr_steps r"
proof -
  define r1 where "r1 = r\<lparr>wr_progress := (wr_progress r)(step \<mapsto> sort (D @ [x])), wr_updated := t\<rparr>"
  have st: "D' = D @ [x]" "r' = r1" "dir' = dict_set (wf_path (wr_id r)) (WfBody r1 (Some (sha r1)), t) dir"
    using assms(2,4) by (auto simp: mark_done_def wf_flush_def wf_save_def Let_def r1_def)
  have "step_enter step r1 = sort (D @ [x])" by (simp add: step_enter_def r1_def)
  moreover have "wr_id r1 = wr_id r" "wr_version r1 = wr_version r" "wr_steps r1 = wr_steps r"
    by (simp_all add: r1_def)
  ultimately show ?thesis
    using assms(1-3) st by (auto simp: items_ok_def wf_open_def wf_load_def)
qed

lemma run_items_ok:
  assumes "items_ok sha i step t universe (D, r, dir) worked" and "set items \<subseteq> set universe"
    and "run_items sha step t n items (D, r, dir) worked = (fin, (D', r', dir'), worked')"
  shows "items_ok sha i step t universe (D', r', dir') worked' \<and> wr_steps r' = wr_steps r \<and>
    length worked' + length D \<le> length worked + length D' + (if fin then 0 else 1) \<and>
    (fin \<longrightarrow> set items \<subseteq> set D') \<and> set D \<subseteq> set D' \<and> (2 * length items < n \<longrightarrow> fin) \<and> set worked \<subseteq> set worked'"
  using assms
proof (induction items arbitrary: n D r dir worked)
  case (Cons x items)
  show ?case
  proof (cases "x \<in> set D")
    case True
    have "run_items sha step t n items (D, r, dir) worked = (fin, (D', r', dir'), worked')"
      using Cons.prems(3) True by simp
    from Cons.IH [OF Cons.prems(1) _ this] Cons.prems(2) True show ?thesis by auto
  next
    case new: False
    show ?thesis
    proof (cases "n \<le> 1")
      case True
      with Cons.prems new show ?thesis
        by (cases "n = 0") (auto simp: items_ok_def)
    next
      case False
      obtain res D1 r1 dir1 where m: "mark_done sha step True True t x (D, r, dir) = (res, D1, r1, dir1)"
        by (cases "mark_done sha step True True t x (D, r, dir)")
      have x: "x \<in> set universe" using Cons.prems(2) by simp
      note ok = mark_done_ok [OF Cons.prems(1) new x m]
      have "run_items sha step t (n - 2) items (D1, r1, dir1) (worked @ [x]) = (fin, (D', r', dir'), worked')"
        using Cons.prems(3) new False m by (simp split: if_splits)
      from Cons.IH [OF conjunct1 [OF ok] _ this] ok Cons.prems(2) show ?thesis by auto
    qed
  qed
qed auto

definition progress_ok ::
  "(wf_record \<Rightarrow> string) \<Rightarrow> string \<Rightarrow> string \<Rightarrow> clock \<Rightarrow> string list \<Rightarrow> nat \<Rightarrow> wf_dir \<times> string list \<Rightarrow> bool"
where
  "progress_ok sha i step t items k st \<longleftrightarrow>
     (\<exists>r. items_ok sha i step t items (step_enter step r, r, fst st) (snd st) \<and> set (snd st) \<subseteq> set items \<and>
        length (snd st) \<le> length (step_enter step r) + k \<and> (is_step_done step r \<longrightarrow> set items \<subseteq> set (snd st)))"

lemma run_items_log:
  "run_items sha step t n items st worked = (fin, st', worked') \<Longrightarrow> set worked' \<subseteq> set worked \<union> set items"
proof (induction items arbitrary: n st worked)
  case (Cons x items)
  show ?case
  proof (cases "x \<in> set (fst st) \<or> n \<le> 1")
    case True
    with Cons show ?thesis by (auto split: if_splits dest!: Cons.IH)
  next
    case False
    then have "run_items sha step t (n - 2) items (snd (mark_done sha step True True t x st)) (worked @ [x]) =
        (fin, st', worked')"
      using Cons.prems by (simp split: if_splits)
    from Cons.IH [OF this] show ?thesis by auto
  qed
qed simp

lemma attempt_ok:
  assumes "progress_ok sha i step t items k st"
  shows "progress_ok sha i step t items (Suc k) (attempt sha i step t items st n) \<and>
    (2 * length items < n \<longrightarrow> set items \<subseteq> set (snd (attempt sha i step t items st n)) \<and>
       (\<forall>m. attempt sha i step t items (attempt sha i step t items st n) m = attempt sha i step t items st n))"
proof -
  obtain r where ok: "items_ok sha i step t items (step_enter step r, r, fst st) (snd st)"
    and log: "set (snd st) \<subseteq> set items" "length (snd st) \<le> length (step_enter step r) + k"
    and fin: "is_step_done step r \<longrightarrow> set items \<subseteq> set (snd st)"
    using assms unfolding progress_ok_def by blast
  have opened: "wf_open sha i t (fst st) = Inr r" using ok by (simp add: items_ok_def)
  show ?thesis
  proof (cases "is_step_done step r")
    case True
    then have "attempt sha i step t items st m = st" for m by (simp add: attempt_def opened)
    with ok log fin True show ?thesis
      unfolding progress_ok_def by (metis le_SucI add_Suc_right)
  next
    case False
    obtain f D' r' dir' worked' where run: "run_items sha step t n items (step_enter step r, r, fst st) (snd st) =
        (f, (D', r', dir'), worked')"
      by (cases "run_items sha step t n items (step_enter step r, r, fst st) (snd st)") auto
    from run_items_ok [OF ok _ run] have
      ok': "items_ok sha i step t items (D', r', dir') worked'" and steps: "wr_steps r' = wr_steps r"
      and len: "length worked' + length (step_enter step r) \<le> length (snd st) + length D' + (if f then 0 else 1)"
      and all: "f \<longrightarrow> set items \<subseteq> set D'" and enough: "2 * length items < n \<longrightarrow> f" by simp_all
    have sub: "set worked' \<subseteq> set items" using run_items_log [OF run] log(1) by auto
    have D: "length D' = length (step_enter step r')"
      using ok' by (simp add: items_ok_def) (metis distinct_card)
    show ?thesis
    proof (cases f)
      case crash: False
      have at: "attempt sha i step t items st n = (dir', worked')"
        using False crash by (simp add: attempt_def opened run)
      have "items_ok sha i step t items (step_enter step r', r', dir') worked'"
        using ok' by (auto simp: items_ok_def)
      moreover have "\<not> is_step_done step r'" using False steps by (simp add: is_step_done_def)
      ultimately have "progress_ok sha i step t items (Suc k) (dir', worked')"
        unfolding progress_ok_def using sub len log(2) D crash by (intro exI [of _ r']) auto
      with at enough crash show ?thesis by simp
    next
      case compl: True
      define r2 where "r2 = r'\<lparr>wr_steps := wr_steps r' @ [step], wr_updated := t\<rparr>"
      define dir2 where "dir2 = dict_set (wf_path (wr_id r')) (WfBody r2 (Some (sha r2)), t) dir'"
      have ns: "step \<notin> set (wr_steps r')" using False steps by (simp add: is_step_done_def)
      have at: "attempt sha i step t items st n = (dir2, worked')"
        using False compl ns
        by (simp add: attempt_def opened run step_exit_def wf_flush_def wf_save_def Let_def r2_def dir2_def)
      have r2: "wr_id r2 = wr_id r'" "wr_version r2 = wr_version r'" "step_enter step r2 = step_enter step r'"
        "is_step_done step r2"
        by (simp_all add: r2_def step_enter_def is_step_done_def)
      have o2: "wf_open sha i t dir2 = Inr r2"
        using ok' r2 by (simp add: items_ok_def wf_open_def wf_load_def dir2_def)
      then have "items_ok sha i step t items (step_enter step r2, r2, dir2) worked'"
        using ok' r2 by (auto simp: items_ok_def)
      moreover have full: "set items \<subseteq> set worked'" using all compl ok' by (auto simp: items_ok_def)
      ultimately have "progress_ok sha i step t items (Suc k) (dir2, worked')"
        unfolding progress_ok_def using sub len log(2) D r2 compl by (intro exI [of _ r2]) auto
      moreover have "attempt sha i step t items (dir2, worked') m = (dir2, worked')" for m
        using o2 r2(4) by (simp add: attempt_def)
      ultimately show ?thesis using at full by simp
    qed
  qed
qed

text \<open>
  C35. However often the process is killed, each attempt repeats the work on at most one item, the
  one in flight; and an attempt that is left alone finishes the step, after which no attempt
  works on anything.
\<close>

theorem crashes_repeat_only_in_flight:
  assumes "dict_get dir (wf_path i) = None" and "st = foldl (attempt sha i step t items) (dir, []) ns"
    and "2 * length items < n"
  shows "length (snd st) \<le> card (set items) + length ns \<and>
    set (snd (attempt sha i step t items st n)) = set items \<and>
    length (snd (attempt sha i step t items st n)) \<le> card (set items) + length ns + 1 \<and>
    attempt sha i step t items (attempt sha i step t items st n) m = attempt sha i step t items st n"
proof -
  have "progress_ok sha i step t items 0 (dir, [])"
    using assms(1) by (auto simp: progress_ok_def items_ok_def wf_open_def wf_load_def fresh_record_def step_enter_def
        is_step_done_def intro!: exI [of _ "fresh_record i t"])
  moreover have "progress_ok sha i step t items (k + length ns) (foldl (attempt sha i step t items) x ns)"
    if "progress_ok sha i step t items k x" for k x
    using that
  proof (induction ns arbitrary: k x)
    case (Cons n ns)
    from Cons.IH [OF conjunct1 [OF attempt_ok [OF Cons.prems, of n]]] show ?case by simp
  qed simp
  ultimately have st: "progress_ok sha i step t items (length ns) st" using assms(2) by fastforce
  have len: "length (snd x) \<le> card (set items) + k \<and> set (snd x) \<subseteq> set items"
    if "progress_ok sha i step t items k x" for k x
  proof -
    obtain r where r: "items_ok sha i step t items (step_enter step r, r, fst x) (snd x)" "set (snd x) \<subseteq> set items"
      "length (snd x) \<le> length (step_enter step r) + k"
      using \<open>progress_ok sha i step t items k x\<close> unfolding progress_ok_def by blast
    then have "length (step_enter step r) \<le> card (set items)"
      by (simp add: items_ok_def) (metis List.finite_set card_mono distinct_card)
    with r show ?thesis by simp
  qed
  from attempt_ok [OF st, of n] assms(3) len [OF st] len [of "Suc (length ns)" "attempt sha i step t items st n"]
  show ?thesis by auto
qed

lemma crashes_repeat_only_in_flight_witness:
  "length (snd (foldl (attempt (\<lambda>r. wr_id r) ''w'' ''score'' 0 [''A'', ''B'']) ([], []) [3, 1])) \<le> 2 + 2"
  using crashes_repeat_only_in_flight [where n = 5 and m = 0, OF _ refl, of "[]" "''w''" "[''A'', ''B'']" "\<lambda>r. wr_id r"
      "''score''" 0 "[3, 1]"]
  by simp

end
