(* ===== verification/UnitCheckpoint.thy ===== *)
theory UnitCheckpoint
  imports Json
begin

text \<open>
  The checkpoint of a batch pipeline (\<open>utils/checkpoint.py\<close>): which units of work are done or have
  failed, kept in one JSON file that belongs to a pipeline and to the fingerprint of its inputs.

  The file is missing, holds no JSON, or holds the object \<open>_save\<close> writes. SHA-256 of the
  canonical JSON text of the inputs is the parameter \<open>sha\<close>. Times are the texts of \<open>isoformat()\<close>.
\<close>

record done_entry =
  de_at :: string
  de_artifact :: "string option"
  de_metadata :: json

record failed_entry =
  fe_at :: string
  fe_error :: string
  fe_attempts :: nat

record pipeline_checkpoint =
  pc_pipeline :: string
  pc_fingerprint :: string
  pc_inputs :: "(string, json) dict"
  pc_completed :: "(string, done_entry) dict"
  pc_failed :: "(string, failed_entry) dict"
  pc_started :: string

datatype ckpt_file = NoCkptFile | NotJsonFile | CkptFile int pipeline_checkpoint

datatype ckpt_error = CheckpointCorruptError | CheckpointMismatchError "(string \<times> json option \<times> json option) list"
  | CkptTypeError | CkptOSError

text \<open>\<open>compute_fingerprint\<close>: the first 16 hex digits.\<close>

definition compute_fingerprint :: "(json \<Rightarrow> string) \<Rightarrow> (string, json) dict \<Rightarrow> string option" where
  "compute_fingerprint sha inputs = map_option (\<lambda>j. take 16 (sha j)) (canon (jobj inputs))"

text \<open>\<open>_describe_input_diff\<close>: the keys whose values differ, in order.\<close>

definition input_diff ::
  "(string, json) dict \<Rightarrow> (string, json) dict \<Rightarrow> (string \<times> json option \<times> json option) list"
where
  "input_diff old new =
     filter (\<lambda>(k, a, b). a \<noteq> b)
       (map (\<lambda>k. (k, dict_get old k, dict_get new k)) (sort (remdups (dict_keys old @ dict_keys new))))"

text \<open>
  \<open>_save\<close>: serialising metadata whose keys are not all of one kind raises \<open>TypeError\<close>; the rename makes
  the write all or nothing. What comes back from the file is the canonical form of the metadata.
\<close>

definition stored_entry :: "done_entry \<Rightarrow> done_entry option" where
  "stored_entry e = map_option (\<lambda>m. e\<lparr>de_metadata := m\<rparr>) (canon (de_metadata e))"

fun stored_entries :: "(string, done_entry) dict \<Rightarrow> (string, done_entry) dict option" where
  "stored_entries [] = Some []"
| "stored_entries ((u, e) # d) =
     (case (stored_entry e, stored_entries d) of (Some e', Some d') \<Rightarrow> Some ((u, e') # d') | _ \<Rightarrow> None)"

definition ckpt_save ::
  "bool \<Rightarrow> pipeline_checkpoint \<Rightarrow> ckpt_file \<Rightarrow> (ckpt_error + unit) \<times> ckpt_file"
where
  "ckpt_save ok c f =
     (if \<not> ok then (Inl CkptOSError, f)
      else case stored_entries (pc_completed c) of
             None \<Rightarrow> (Inl CkptTypeError, f)
           | Some d \<Rightarrow> (Inr (), CkptFile 1 (c\<lparr>pc_completed := d\<rparr>)))"

definition load_or_create ::
  "(json \<Rightarrow> string) \<Rightarrow> bool \<Rightarrow> string \<Rightarrow> string \<Rightarrow> (string, json) dict \<Rightarrow> bool \<Rightarrow> ckpt_file \<Rightarrow>
   (ckpt_error + pipeline_checkpoint) \<times> ckpt_file"
where
  "load_or_create sha ok now pipeline inputs fresh f =
     (case compute_fingerprint sha inputs of
        None \<Rightarrow> (Inl CkptTypeError, f)
      | Some fp \<Rightarrow>
          (let f = (if fresh then NoCkptFile else f) in
             case f of
               NoCkptFile \<Rightarrow>
                 (let c = \<lparr>pc_pipeline = pipeline, pc_fingerprint = fp, pc_inputs = inputs, pc_completed = [],
                      pc_failed = [], pc_started = now\<rparr>
                  in case ckpt_save ok c f of (Inl e, f') \<Rightarrow> (Inl e, f') | (Inr _, f') \<Rightarrow> (Inr c, f'))
             | NotJsonFile \<Rightarrow> (Inl CheckpointCorruptError, f)
             | CkptFile version raw \<Rightarrow>
                 if version \<noteq> 1 then (Inl CheckpointCorruptError, f)
                 else if pc_pipeline raw \<noteq> pipeline then (Inl (CheckpointMismatchError []), f)
                 else if pc_fingerprint raw \<noteq> fp
                      then (Inl (CheckpointMismatchError (input_diff (pc_inputs raw) inputs)), f)
                 else (Inr (raw\<lparr>pc_inputs := inputs\<rparr>), f)))"

definition unit_done :: "string \<Rightarrow> pipeline_checkpoint \<Rightarrow> bool" where
  "unit_done u c = (dict_get (pc_completed c) u \<noteq> None)"

definition ckpt_pending :: "string list \<Rightarrow> pipeline_checkpoint \<Rightarrow> string list" where
  "ckpt_pending units c = filter (\<lambda>u. \<not> unit_done u c) units"

definition artifact_path :: "string \<Rightarrow> pipeline_checkpoint \<Rightarrow> string option" where
  "artifact_path u c = (case dict_get (pc_completed c) u of None \<Rightarrow> None | Some e \<Rightarrow> de_artifact e)"

definition record_success ::
  "bool \<Rightarrow> string \<Rightarrow> string option \<Rightarrow> json option \<Rightarrow> string \<Rightarrow> pipeline_checkpoint \<times> ckpt_file \<Rightarrow>
   (ckpt_error + unit) \<times> pipeline_checkpoint \<times> ckpt_file"
where
  "record_success ok now artifact metadata u st =
     (let c = (fst st)\<lparr>pc_completed := dict_set u \<lparr>de_at = now, de_artifact = artifact,
             de_metadata = (case metadata of None \<Rightarrow> JObj [] | Some m \<Rightarrow> m)\<rparr> (pc_completed (fst st)),
           pc_failed := dict_pop u (pc_failed (fst st))\<rparr>
      in case ckpt_save ok c (snd st) of (res, f) \<Rightarrow> (res, c, f))"

definition record_failure ::
  "bool \<Rightarrow> string \<Rightarrow> string \<Rightarrow> string \<Rightarrow> pipeline_checkpoint \<times> ckpt_file \<Rightarrow>
   (ckpt_error + unit) \<times> pipeline_checkpoint \<times> ckpt_file"
where
  "record_failure ok now err u st =
     (let prev = (case dict_get (pc_failed (fst st)) u of None \<Rightarrow> 0 | Some e \<Rightarrow> fe_attempts e);
          c = (fst st)\<lparr>pc_failed := dict_set u \<lparr>fe_at = now, fe_error = err, fe_attempts = prev + 1\<rparr> (pc_failed (fst st))\<rparr>
      in case ckpt_save ok c (snd st) of (res, f) \<Rightarrow> (res, c, f))"

definition ckpt_summary :: "pipeline_checkpoint \<Rightarrow> nat \<times> string list" where
  "ckpt_summary c = (length (pc_completed c), sort (dict_keys (pc_failed c)))"

definition ckpt_clear :: "ckpt_file \<Rightarrow> ckpt_file" where
  "ckpt_clear f = NoCkptFile"

subsection \<open>Resuming\<close>

text \<open>Two checkpoints that agree but for the metadata, which the file holds in canonical form.\<close>

definition same_progress :: "pipeline_checkpoint \<Rightarrow> pipeline_checkpoint \<Rightarrow> bool" where
  "same_progress c c' \<longleftrightarrow> pc_pipeline c = pc_pipeline c' \<and> pc_fingerprint c = pc_fingerprint c' \<and>
     dict_keys (pc_completed c) = dict_keys (pc_completed c') \<and>
     map (\<lambda>(u, e). (de_at e, de_artifact e)) (pc_completed c) = map (\<lambda>(u, e). (de_at e, de_artifact e)) (pc_completed c') \<and>
     pc_failed c = pc_failed c' \<and> pc_started c = pc_started c'"

lemma stored_entries_same:
  "stored_entries d = Some d' \<Longrightarrow> dict_keys d' = dict_keys d \<and>
     map (\<lambda>(u, e). (de_at e, de_artifact e)) d' = map (\<lambda>(u, e). (de_at e, de_artifact e)) d"
  by (induction d arbitrary: d' rule: stored_entries.induct)
    (auto simp: stored_entry_def split: option.splits)

lemma stored_entries_fixed:
  "stored_entries d = Some d' \<Longrightarrow> (\<forall>j j'. canon j = Some j' \<longrightarrow> canon j' = Some j') \<Longrightarrow> stored_entries d' = Some d'"
  by (induction d arbitrary: d' rule: stored_entries.induct)
    (auto simp: stored_entry_def split: option.splits)

text \<open>
  A run that is resumed with the same pipeline and inputs finds all the progress that was
  recorded, and with a different pipeline or fingerprint it is refused and the file is left as it is.
\<close>

theorem resume_finds_progress:
  assumes "ckpt_save True c f = (Inr (), f')"
    and "compute_fingerprint sha inputs = Some fp"
  shows "if pipeline = pc_pipeline c \<and> fp = pc_fingerprint c
    then \<exists>c'. load_or_create sha ok now pipeline inputs False f' = (Inr c', f') \<and> same_progress c c' \<and>
      ckpt_pending units c' = ckpt_pending units c
    else \<exists>d. load_or_create sha ok now pipeline inputs False f' = (Inl (CheckpointMismatchError d), f')"
proof -
  obtain d where d: "stored_entries (pc_completed c) = Some d" "f' = CkptFile 1 (c\<lparr>pc_completed := d\<rparr>)"
    using assms(1) by (auto simp: ckpt_save_def split: option.splits)
  have k: "dict_keys d = dict_keys (pc_completed c)" using stored_entries_same [OF d(1)] by simp
  then have "dict_get d u = None \<longleftrightarrow> dict_get (pc_completed c) u = None" for u
    by (metis map_of_eq_None_iff set_map)
  then have "ckpt_pending units (c\<lparr>pc_completed := d, pc_inputs := inputs\<rparr>) = ckpt_pending units c"
    by (simp add: ckpt_pending_def unit_done_def)
  then show ?thesis
    using assms(2) d stored_entries_same [OF d(1)]
    by (auto simp: load_or_create_def same_progress_def Let_def)
qed

datatype unit_event =
  UnitSuccess bool string string "string option" "json option"
| UnitFailure bool string string string
| UnitResume bool string

fun unit_step ::
  "(json \<Rightarrow> string) \<Rightarrow> pipeline_checkpoint \<times> ckpt_file \<Rightarrow> unit_event \<Rightarrow> pipeline_checkpoint \<times> ckpt_file"
where
  "unit_step sha st (UnitSuccess ok now u artifact metadata) = snd (record_success ok now artifact metadata u st)"
| "unit_step sha st (UnitFailure ok now u err) = snd (record_failure ok now err u st)"
| "unit_step sha st (UnitResume ok now) =
     (case load_or_create sha ok now (pc_pipeline (fst st)) (pc_inputs (fst st)) False (snd st) of
        (Inl e, f) \<Rightarrow> (fst st, f)
      | (Inr c, f) \<Rightarrow> (c, f))"

definition unit_saved :: "(json \<Rightarrow> string) \<Rightarrow> string \<Rightarrow> pipeline_checkpoint \<times> ckpt_file \<Rightarrow> bool" where
  "unit_saved sha u st \<longleftrightarrow> unit_done u (fst st) \<and>
     compute_fingerprint sha (pc_inputs (fst st)) = Some (pc_fingerprint (fst st)) \<and>
     (\<exists>raw. snd st = CkptFile 1 raw \<and> unit_done u raw \<and> pc_pipeline raw = pc_pipeline (fst st) \<and>
        pc_fingerprint raw = pc_fingerprint (fst st))"

lemma stored_get: "stored_entries d = Some d' \<Longrightarrow> dict_get d' u = None \<longleftrightarrow> dict_get d u = None"
  by (induction d arbitrary: d' rule: stored_entries.induct) (auto split: option.splits)

lemma unit_done_stored:
  "stored_entries (pc_completed c) = Some d \<Longrightarrow> unit_done u (c\<lparr>pc_completed := d\<rparr>) = unit_done u c"
  using stored_get [of "pc_completed c" d u] by (simp add: unit_done_def)

lemma save_keeps:
  assumes "unit_saved sha u (c, f)" and "pc_pipeline c' = pc_pipeline c" and "pc_fingerprint c' = pc_fingerprint c"
    and "pc_inputs c' = pc_inputs c" and "unit_done u c'" and "ckpt_save ok c' f = (res, f')"
  shows "unit_saved sha u (c', f')"
proof (cases "ok \<and> stored_entries (pc_completed c') \<noteq> None")
  case True
  then obtain d where d: "stored_entries (pc_completed c') = Some d" by blast
  then have "f' = CkptFile 1 (c'\<lparr>pc_completed := d\<rparr>)" using True assms(6) by (simp add: ckpt_save_def)
  with assms(1-5) unit_done_stored [OF d, of u] show ?thesis by (simp add: unit_saved_def)
next
  case False
  then have "f' = f" using assms(6) by (cases ok) (auto simp: ckpt_save_def)
  with assms(1-5) show ?thesis by (simp add: unit_saved_def)
qed

interpretation unit_run: preserved "unit_step sha" "unit_saved sha u" for sha u
proof
  fix st :: "pipeline_checkpoint \<times> ckpt_file" and e :: unit_event
  assume inv: "unit_saved sha u st"
  obtain c f where st: "st = (c, f)" by (cases st)
  have u: "unit_done u c" using inv st by (simp add: unit_saved_def)
  show "unit_saved sha u (unit_step sha st e)"
  proof (cases e)
    case (UnitSuccess ok now v artifact metadata)
    let ?c = "c\<lparr>pc_completed := dict_set v \<lparr>de_at = now, de_artifact = artifact,
        de_metadata = (case metadata of None \<Rightarrow> JObj [] | Some m \<Rightarrow> m)\<rparr> (pc_completed c), pc_failed := dict_pop v (pc_failed c)\<rparr>"
    obtain res f' where s: "ckpt_save ok ?c f = (res, f')" by (cases "ckpt_save ok ?c f")
    have "unit_saved sha u (?c, f')"
      by (rule save_keeps [OF _ _ _ _ _ s]) (use inv st u in \<open>simp_all add: unit_done_def\<close>)
    with s show ?thesis by (simp add: UnitSuccess st record_success_def Let_def)
  next
    case (UnitFailure ok now v err)
    let ?c = "c\<lparr>pc_failed := dict_set v \<lparr>fe_at = now, fe_error = err,
        fe_attempts = (case dict_get (pc_failed c) v of None \<Rightarrow> 0 | Some e \<Rightarrow> fe_attempts e) + 1\<rparr> (pc_failed c)\<rparr>"
    obtain res f' where s: "ckpt_save ok ?c f = (res, f')" by (cases "ckpt_save ok ?c f")
    have "unit_saved sha u (?c, f')"
      by (rule save_keeps [OF _ _ _ _ _ s]) (use inv st u in \<open>simp_all add: unit_done_def\<close>)
    with s show ?thesis by (simp add: UnitFailure st record_failure_def Let_def)
  next
    case (UnitResume ok now)
    obtain raw where raw: "f = CkptFile 1 raw" "unit_done u raw" "pc_pipeline raw = pc_pipeline c"
      "pc_fingerprint raw = pc_fingerprint c" "compute_fingerprint sha (pc_inputs c) = Some (pc_fingerprint c)"
      using inv st by (auto simp: unit_saved_def)
    then have "unit_step sha st e = (raw\<lparr>pc_inputs := pc_inputs c\<rparr>, f)"
      by (simp add: UnitResume st load_or_create_def)
    with raw show ?thesis by (simp add: unit_saved_def unit_done_def)
  qed
qed

text \<open>
  A unit whose success was recorded without an error is never pending again, through any
  history of further outcomes, refused writes and resumed runs.
\<close>

theorem recorded_success_is_final:
  assumes "compute_fingerprint sha (pc_inputs (fst st)) = Some (pc_fingerprint (fst st))"
    and "record_success ok now artifact metadata u st = (Inr (), st')"
  shows "u \<notin> set (ckpt_pending units (fst (foldl (unit_step sha) st' es)))"
proof -
  have "unit_saved sha u st'"
    using assms
    by (auto simp: record_success_def ckpt_save_def unit_saved_def unit_done_def Let_def
        split: if_splits option.splits dest: stored_get [where u = u])
  then have "unit_saved sha u (foldl (unit_step sha) st' es)" by (rule unit_run.run_inv)
  then show ?thesis by (simp add: unit_saved_def ckpt_pending_def)
qed

text \<open>
  Metadata that JSON cannot express is fatal to the whole run: the call raises after the entry
  was put in memory, so that from then on no outcome of any unit can be saved.
\<close>

theorem bad_metadata_stops_saves:
  assumes "record_success ok now artifact (Some m) u st = (res, c, f)" and "canon m = None" and "v \<noteq> u"
  shows "res \<noteq> Inr () \<and> f = snd st \<and>
    fst (record_success ok' now' artifact' metadata' v (c, f)) \<noteq> Inr () \<and> fst (record_failure ok' now' err v (c, f)) \<noteq> Inr ()"
proof -
  have none: "stored_entries d = None" if "dict_get d u = Some e" "canon (de_metadata e) = None" for d e
    using that by (induction d rule: stored_entries.induct) (auto simp: stored_entry_def split: option.splits if_splits)
  obtain e where c: "dict_get (pc_completed c) u = Some e" "canon (de_metadata e) = None"
    and f: "f = snd st" "res \<noteq> Inr ()"
    using assms(1,2) none by (auto simp: record_success_def ckpt_save_def Let_def split: if_splits option.splits)
  from c assms(3) have "dict_get (dict_set v x (pc_completed c)) u = Some e" for x by simp
  with none c f show ?thesis
    by (simp add: record_success_def record_failure_def ckpt_save_def Let_def)
qed

definition demo_ckpt :: pipeline_checkpoint where
  "demo_ckpt = \<lparr>pc_pipeline = ''run'', pc_fingerprint = ''f'', pc_inputs = [], pc_completed = [],
     pc_failed = [], pc_started = ''t''\<rparr>"

lemma resume_finds_progress_witness:
  "\<exists>c'. load_or_create (\<lambda>j. ''f'') True ''t'' ''run'' [] False (CkptFile 1 demo_ckpt) =
      (Inr c', CkptFile 1 demo_ckpt) \<and> ckpt_pending [''A''] c' = ckpt_pending [''A''] demo_ckpt"
  using resume_finds_progress [of demo_ckpt NoCkptFile "CkptFile 1 demo_ckpt" "\<lambda>j. ''f''" "[]" "''f''" "''run''"
      True "''t''" "[''A'']"]
  by (auto simp: demo_ckpt_def ckpt_save_def compute_fingerprint_def jobj_def sort_items_def)

lemma recorded_success_is_final_witness:
  "''A'' \<notin> set (ckpt_pending [''A'', ''B''] (fst (foldl (unit_step (\<lambda>j. ''f''))
     (snd (record_success True ''t'' None None ''A'' (demo_ckpt, NoCkptFile)))
     [UnitFailure False ''u'' ''B'' ''boom'', UnitResume True ''v''])))"
  by (rule recorded_success_is_final [where ok = True and now = "''t''" and artifact = None and metadata = None
        and u = "''A''" and st = "(demo_ckpt, NoCkptFile)"])
    (simp_all add: demo_ckpt_def compute_fingerprint_def jobj_def sort_items_def record_success_def ckpt_save_def stored_entry_def Let_def)

lemma bad_metadata_stops_saves_witness:
  "fst (record_failure True ''t'' ''boom'' ''B''
     (fst (snd (record_success True ''t'' None (Some (JObj [(KStr ''a'', JNull), (KInt 1, JNull)])) ''A'' (demo_ckpt, NoCkptFile))),
      snd (snd (record_success True ''t'' None (Some (JObj [(KStr ''a'', JNull), (KInt 1, JNull)])) ''A'' (demo_ckpt, NoCkptFile))))) \<noteq>
   Inr ()"
proof -
  obtain res c f where r: "record_success True ''t'' None (Some (JObj [(KStr ''a'', JNull), (KInt 1, JNull)])) ''A''
      (demo_ckpt, NoCkptFile) = (res, c, f)"
    by (cases "record_success True ''t'' None (Some (JObj [(KStr ''a'', JNull), (KInt 1, JNull)])) ''A'' (demo_ckpt, NoCkptFile)")
  have "canon (JObj [(KStr ''a'', JNull), (KInt 1, JNull)]) = None" by code_simp
  from bad_metadata_stops_saves [OF r this, where v = "''B''"] have
    "fst (record_failure True ''t'' ''boom'' ''B'' (c, f)) \<noteq> Inr ()" by blast
  with r show ?thesis by simp
qed

end
