(* ===== verification/Retry.thy ===== *)
theory Retry
  imports Base
begin

text \<open>
  Retrying flaky calls: policies, delays, the loop and its circuit breaker of
  \<open>ingestion/retry_backoff.py\<close>, and the decorator of \<open>utils/retry.py\<close>.

  What the wrapped call does on its \<open>n\<close>-th attempt is a function \<open>f\<close>; \<open>u\<close> gives the random numbers in
  \<open>[0, 1]\<close> the jitter draws, \<open>clk\<close> the readings of the clock before and after an attempt. Delays are
  rationals; a power of floats that exceeds the largest float raises \<open>OverflowError\<close>.
\<close>

record retry_policy =
  rp_attempts :: int
  rp_base :: rat
  rp_max :: rat
  rp_mult :: rat
  rp_jitter :: string

datatype policy_error = BadAttempts | BadBase | BadMax | BadMult | BadJitter | NoExceptions

definition policy_check :: "retry_policy \<Rightarrow> bool \<Rightarrow> policy_error option" where
  "policy_check p has_exceptions =
     (if rp_attempts p < 1 then Some BadAttempts
      else if rp_base p \<le> 0 then Some BadBase
      else if rp_max p < rp_base p then Some BadMax
      else if rp_mult p \<le> 1 then Some BadMult
      else if rp_jitter p \<notin> {''full'', ''equal'', ''none''} then Some BadJitter
      else if \<not> has_exceptions then Some NoExceptions
      else None)"

definition float_power :: "rat \<Rightarrow> nat \<Rightarrow> rat option" where
  "float_power m k = (if m ^ k < 2 ^ 1024 - 2 ^ 970 then Some (m ^ k) else None)"

definition delay_for_attempt :: "retry_policy \<Rightarrow> nat \<Rightarrow> rat \<Rightarrow> rat option" where
  "delay_for_attempt p n u =
     (if n \<le> 1 then Some 0
      else map_option (\<lambda>x.
        let raw = min (rp_base p * x) (rp_max p) in
          if rp_jitter p = ''none'' then raw
          else if rp_jitter p = ''equal'' then raw / 2 + raw / 2 * u
          else raw * u) (float_power (rp_mult p) (n - 2)))"

subsection \<open>The circuit breaker\<close>

datatype retry_circuit = RcClosed | RcOpen | RcHalfOpen

record retry_breaker =
  kb_threshold :: nat
  kb_cooldown :: rat
  kb_state :: retry_circuit
  kb_failures :: nat
  kb_opened_at :: clock
  kb_transitions :: "(retry_circuit \<times> retry_circuit) list"

definition retry_breaker_init :: "nat \<Rightarrow> rat \<Rightarrow> retry_breaker option" where
  "retry_breaker_init threshold cooldown =
     (if threshold < 1 \<or> cooldown \<le> 0 then None
      else Some \<lparr>kb_threshold = threshold, kb_cooldown = cooldown, kb_state = RcClosed, kb_failures = 0,
        kb_opened_at = 0, kb_transitions = []\<rparr>)"

definition kb_move :: "retry_circuit \<Rightarrow> retry_breaker \<Rightarrow> retry_breaker" where
  "kb_move to_state b =
     (if to_state = kb_state b then b
      else b\<lparr>kb_transitions := kb_transitions b @ [(kb_state b, to_state)], kb_state := to_state\<rparr>)"

definition kb_read_state :: "clock \<Rightarrow> retry_breaker \<Rightarrow> retry_breaker" where
  "kb_read_state now b =
     (if kb_state b = RcOpen \<and> now - kb_opened_at b \<ge> kb_cooldown b then kb_move RcHalfOpen b else b)"

definition kb_success :: "retry_breaker \<Rightarrow> retry_breaker" where
  "kb_success b = kb_move RcClosed (b\<lparr>kb_failures := 0\<rparr>)"

definition kb_failure :: "clock \<Rightarrow> retry_breaker \<Rightarrow> retry_breaker" where
  "kb_failure now b =
     (let b = b\<lparr>kb_failures := kb_failures b + 1\<rparr> in
        if kb_state b = RcHalfOpen \<or> kb_threshold b \<le> kb_failures b
        then kb_move RcOpen (b\<lparr>kb_opened_at := now\<rparr>) else b)"

text \<open>How a call ends: a result, an exception the policy retries, another \<open>Exception\<close>, or neither.\<close>

datatype 'v call_outcome = CallReturns 'v | CallRetryable string | CallFatal string | CallInterrupted

definition kb_after :: "clock \<Rightarrow> 'v call_outcome \<Rightarrow> retry_breaker \<Rightarrow> retry_breaker" where
  "kb_after now out b =
     (case out of
        CallReturns _ \<Rightarrow> kb_success b
      | CallRetryable _ \<Rightarrow> kb_failure now b
      | CallFatal _ \<Rightarrow> kb_failure now b
      | CallInterrupted \<Rightarrow> b)"

text \<open>\<open>call\<close>; \<open>None\<close> is \<open>CircuitOpenError\<close>, and the wrapped function is not called.\<close>

definition kb_call :: "clock \<times> clock \<Rightarrow> 'v call_outcome \<Rightarrow> retry_breaker \<Rightarrow> 'v call_outcome option \<times> retry_breaker" where
  "kb_call ts out b =
     (let b = kb_read_state (fst ts) b in
        if kb_state b = RcOpen then (None, b) else (Some out, kb_after (snd ts) out b))"

subsection \<open>The loop\<close>

record attempt_record =
  at_number :: nat
  at_delay :: rat
  at_exception :: "string option"

datatype 'v retry_result = RetryReturned 'v | RetryExhausted | RetryRaised string | RetryCircuitOpen
  | RetryInterrupted | RetryOverflow

function retry_loop ::
  "retry_policy \<Rightarrow> (nat \<Rightarrow> rat) \<Rightarrow> (nat \<Rightarrow> clock \<times> clock) \<Rightarrow> (nat \<Rightarrow> 'v call_outcome) \<Rightarrow> nat \<Rightarrow>
   retry_breaker option \<times> attempt_record list \<Rightarrow> 'v retry_result \<times> retry_breaker option \<times> attempt_record list"
where
  "retry_loop p u clk f n (br, hist) =
     (case delay_for_attempt p n (u n) of
        None \<Rightarrow> (RetryOverflow, br, hist)
      | Some delay \<Rightarrow>
          (case (case br of None \<Rightarrow> (Some (f n), None)
                   | Some b \<Rightarrow> (case kb_call (clk n) (f n) b of (out, b') \<Rightarrow> (out, Some b'))) of
             (None, br') \<Rightarrow> (RetryCircuitOpen, br', hist)
           | (Some (CallReturns v), br') \<Rightarrow>
               (RetryReturned v, br', hist @ [\<lparr>at_number = n, at_delay = delay, at_exception = None\<rparr>])
           | (Some (CallFatal e), br') \<Rightarrow> (RetryRaised e, br', hist)
           | (Some CallInterrupted, br') \<Rightarrow> (RetryInterrupted, br', hist)
           | (Some (CallRetryable e), br') \<Rightarrow>
               (let hist' = hist @ [\<lparr>at_number = n, at_delay = delay, at_exception = Some e\<rparr>] in
                  if rp_attempts p \<le> int n then (RetryExhausted, br', hist')
                  else retry_loop p u clk f (Suc n) (br', hist'))))"
  by pat_completeness auto
termination
  by (relation "measure (\<lambda>(p, u, clk, f, n, st). nat (rp_attempts p) - n)") auto

declare retry_loop.simps [simp del]

definition call_with_retry ::
  "retry_policy \<Rightarrow> (nat \<Rightarrow> rat) \<Rightarrow> (nat \<Rightarrow> clock \<times> clock) \<Rightarrow> (nat \<Rightarrow> 'v call_outcome) \<Rightarrow> retry_breaker option \<Rightarrow>
   'v retry_result \<times> retry_breaker option \<times> attempt_record list"
where
  "call_with_retry p u clk f br = retry_loop p u clk f 1 (br, [])"

text \<open>The decorator of \<open>utils/retry.py\<close>: the result and the delays slept; \<open>None\<close> is the assertion error.\<close>

fun plain_retry :: "nat \<Rightarrow> rat \<Rightarrow> rat \<Rightarrow> (nat \<Rightarrow> 'v call_outcome) \<Rightarrow> nat \<Rightarrow> 'v retry_result option \<times> rat list" where
  "plain_retry 0 delay factor f n = (None, [])"
| "plain_retry (Suc left) delay factor f n =
     (case f n of
        CallReturns v \<Rightarrow> (Some (RetryReturned v), [])
      | CallFatal e \<Rightarrow> (Some (RetryRaised e), [])
      | CallInterrupted \<Rightarrow> (Some RetryInterrupted, [])
      | CallRetryable e \<Rightarrow>
          if left = 0 then (Some (RetryRaised e), [])
          else apsnd (Cons delay) (plain_retry left (delay * factor) factor f (Suc n)))"

definition retry_with_backoff ::
  "int \<Rightarrow> rat \<Rightarrow> rat \<Rightarrow> (nat \<Rightarrow> 'v call_outcome) \<Rightarrow> 'v retry_result option \<times> rat list"
where
  "retry_with_backoff max_attempts base factor f = plain_retry (nat max_attempts) base factor f 1"

subsection \<open>Delays\<close>

definition valid_policy :: "retry_policy \<Rightarrow> bool" where
  "valid_policy p \<longleftrightarrow> policy_check p True = None"

text \<open>
  Every delay lies between zero and the policy's maximum.
\<close>

theorem delay_bounded:
  assumes "valid_policy p" and "delay_for_attempt p n u = Some d" and "0 \<le> u" and "u \<le> 1"
  shows "0 \<le> d \<and> d \<le> rp_max p"
proof (cases "n \<le> 1")
  case True
  with assms(1,2) show ?thesis
    by (simp add: delay_for_attempt_def valid_policy_def policy_check_def split: if_splits)
next
  case False
  have p: "0 < rp_base p" "rp_base p \<le> rp_max p" "1 < rp_mult p"
    using assms(1) by (auto simp: valid_policy_def policy_check_def split: if_splits)
  obtain x where x: "float_power (rp_mult p) (n - 2) = Some x"
    "d = (let raw = min (rp_base p * x) (rp_max p) in
       if rp_jitter p = ''none'' then raw else if rp_jitter p = ''equal'' then raw / 2 + raw / 2 * u else raw * u)"
    using assms(2) False by (auto simp: delay_for_attempt_def)
  define raw where "raw = min (rp_base p * x) (rp_max p)"
  have "0 < x" using x(1) p(3) by (auto simp: float_power_def split: if_splits)
  then have raw: "0 \<le> raw" "raw \<le> rp_max p" using p by (auto simp: raw_def)
  have "0 \<le> raw * u" "raw * u \<le> raw" "0 \<le> raw / 2 * u" "raw / 2 * u \<le> raw / 2"
    using raw(1) assms(3,4) by (auto intro: mult_left_le)
  with raw show ?thesis by (auto simp: x(2) Let_def simp flip: raw_def)
qed

text \<open>
  The cap on the delay does not cap the power: with a multiplier of 2 the 1026th attempt raises
  \<open>OverflowError\<close> instead of waiting the maximal delay.
\<close>

theorem late_attempt_overflows:
  "delay_for_attempt (p\<lparr>rp_mult := 2\<rparr>) 1026 u = None \<and> delay_for_attempt (p\<lparr>rp_mult := 2\<rparr>) 1025 u \<noteq> None"
  by (simp add: delay_for_attempt_def float_power_def)

subsection \<open>What the loop returns\<close>

definition is_retryable :: "'v call_outcome \<Rightarrow> bool" where
  "is_retryable out = (\<exists>e. out = CallRetryable e)"

text \<open>
  The reference: look at the outcomes of the attempts \<open>n\<close>, \<open>n + 1\<close>, ... up to the last one allowed;
  the first that is not retried decides.
\<close>

definition verdict :: "'v call_outcome list \<Rightarrow> 'v retry_result" where
  "verdict outs =
     (case dropWhile is_retryable outs of
        [] \<Rightarrow> RetryExhausted
      | CallReturns v # _ \<Rightarrow> RetryReturned v
      | CallFatal e # _ \<Rightarrow> RetryRaised e
      | _ \<Rightarrow> RetryInterrupted)"

definition no_overflow :: "retry_policy \<Rightarrow> (nat \<Rightarrow> rat) \<Rightarrow> bool" where
  "no_overflow p u \<longleftrightarrow> (\<forall>n. int n \<le> rp_attempts p \<longrightarrow> delay_for_attempt p n (u n) \<noteq> None)"

lemma retry_loop_unguarded:
  assumes "no_overflow p u" and "int n \<le> rp_attempts p"
  shows "fst (retry_loop p u clk f n (None, hist)) = verdict (map f [n..<Suc (nat (rp_attempts p))]) \<and>
    length (snd (snd (retry_loop p u clk f n (None, hist)))) =
      length hist + length (takeWhile is_retryable (map f [n..<Suc (nat (rp_attempts p))])) +
      (if \<exists>v. verdict (map f [n..<Suc (nat (rp_attempts p))]) = RetryReturned v then 1 else 0)"
  using assms
proof (induction "nat (rp_attempts p) - n" arbitrary: n hist)
  case 0
  then have n: "nat (rp_attempts p) = n" by simp
  obtain d where d: "delay_for_attempt p n (u n) = Some d" using 0(2,3) by (auto simp: no_overflow_def)
  show ?case
    using 0(3) n d
    by (subst (1 2) retry_loop.simps) (auto simp: verdict_def is_retryable_def split: call_outcome.splits)
next
  case (Suc m)
  obtain d where d: "delay_for_attempt p n (u n) = Some d" using Suc(3,4) by (auto simp: no_overflow_def)
  have "n < Suc (nat (rp_attempts p))" using Suc(2) by linarith
  then have up: "[n..<Suc (nat (rp_attempts p))] = n # [Suc n..<Suc (nat (rp_attempts p))]"
    by (rule upt_conv_Cons)
  have small: "\<not> rp_attempts p \<le> int n" "int (Suc n) \<le> rp_attempts p" "m = nat (rp_attempts p) - Suc n"
    using Suc(2) by simp_all
  show ?case
  proof (cases "f n")
    case (CallRetryable e)
    let ?h = "hist @ [\<lparr>at_number = n, at_delay = d, at_exception = Some e\<rparr>]"
    have "retry_loop p u clk f n (None, hist) = retry_loop p u clk f (Suc n) (None, ?h)"
      using small d CallRetryable by (subst retry_loop.simps) simp
    with Suc(1) [OF small(3) Suc(3) small(2), of ?h] show ?thesis
      unfolding up by (simp add: CallRetryable verdict_def is_retryable_def)
  next
    case (CallReturns v)
    have "retry_loop p u clk f n (None, hist) =
        (RetryReturned v, None, hist @ [\<lparr>at_number = n, at_delay = d, at_exception = None\<rparr>])"
      using d CallReturns by (subst retry_loop.simps) simp
    then show ?thesis unfolding up by (simp add: CallReturns verdict_def is_retryable_def)
  next
    case (CallFatal e)
    have "retry_loop p u clk f n (None, hist) = (RetryRaised e, None, hist)"
      using d CallFatal by (subst retry_loop.simps) simp
    then show ?thesis unfolding up by (simp add: CallFatal verdict_def is_retryable_def)
  next
    case CallInterrupted
    have "retry_loop p u clk f n (None, hist) = (RetryInterrupted, None, hist)"
      using d CallInterrupted by (subst retry_loop.simps) simp
    then show ?thesis unfolding up by (simp add: CallInterrupted verdict_def is_retryable_def)
  qed
qed

text \<open>
  Without a breaker the loop returns what the first attempt returns that is not retried, or
  reports that all attempts are used up, after recording every attempt that was retried.
\<close>

theorem retry_exact:
  assumes "valid_policy p" and "no_overflow p u"
  shows "fst (call_with_retry p u clk f None) = verdict (map f [1..<Suc (nat (rp_attempts p))]) \<and>
    (fst (call_with_retry p u clk f None) = RetryExhausted \<longrightarrow>
       length (snd (snd (call_with_retry p u clk f None))) = nat (rp_attempts p))"
proof -
  have n: "int 1 \<le> rp_attempts p"
    using assms(1) by (simp add: valid_policy_def policy_check_def split: if_splits)
  note r = retry_loop_unguarded [OF assms(2) n, of clk f "[]"]
  have "length (takeWhile is_retryable outs) = length outs" if "verdict outs = RetryExhausted" for outs :: "'a call_outcome list"
  proof -
    have "\<forall>x\<in>set outs. is_retryable x"
      using that by (auto simp: verdict_def dropWhile_eq_Nil_conv split: list.splits call_outcome.splits)
    then have "takeWhile is_retryable outs = outs" by (simp add: takeWhile_eq_all_conv)
    then show ?thesis by (simp only:)
  qed
  from this [of "map f [1..<Suc (nat (rp_attempts p))]"] r show ?thesis
    unfolding call_with_retry_def by (simp del: upt_Suc)
qed

lemma retry_loop_history:
  "int n \<le> rp_attempts p \<Longrightarrow> length (snd (snd (retry_loop p u clk f n st))) + n \<le> length (snd st) + nat (rp_attempts p) + 1"
proof (induction "nat (rp_attempts p) - n" arbitrary: n st rule: less_induct)
  case less
  obtain br hist where st: "st = (br, hist)" by (cases st)
  show ?case
  proof (cases "delay_for_attempt p n (u n)")
    case None
    with less.prems show ?thesis unfolding st by (subst retry_loop.simps) simp
  next
    case (Some d)
    obtain out br' where c: "(case br of None \<Rightarrow> (Some (f n), None)
        | Some b \<Rightarrow> (case kb_call (clk n) (f n) b of (out, b') \<Rightarrow> (out, Some b'))) = (out, br')"
      by (cases "(case br of None \<Rightarrow> (Some (f n), None)
        | Some b \<Rightarrow> (case kb_call (clk n) (f n) b of (out, b') \<Rightarrow> (out, Some b')))")
    show ?thesis
    proof (cases "\<exists>e. out = Some (CallRetryable e) \<and> int n < rp_attempts p")
      case True
      then obtain e where e: "out = Some (CallRetryable e)" "int n < rp_attempts p" by blast
      let ?h = "hist @ [\<lparr>at_number = n, at_delay = d, at_exception = Some e\<rparr>]"
      have "retry_loop p u clk f n st = retry_loop p u clk f (Suc n) (br', ?h)"
        unfolding st using Some c e by (subst retry_loop.simps) simp
      with less.hyps [of "Suc n" "(br', ?h)"] e(2) show ?thesis unfolding st by simp
    next
      case False
      with less.prems Some c show ?thesis
        unfolding st by (subst retry_loop.simps) (auto split: option.splits call_outcome.splits)
    qed
  qed
qed

text \<open>
  Retrying ends within \<open>max_attempts\<close> attempts, whatever the call does and whatever state the
  breaker is in; the assertion error of the plain decorator needs a bound below one.
\<close>

theorem retry_terminates:
  assumes "valid_policy p"
  shows "length (snd (snd (call_with_retry p u clk f br))) \<le> nat (rp_attempts p) \<and>
    (fst (retry_with_backoff (rp_attempts p) base factor f) \<noteq> None) \<and>
    length (snd (retry_with_backoff (rp_attempts p) base factor f)) < nat (rp_attempts p)"
proof -
  have n: "int 1 \<le> rp_attempts p"
    using assms by (simp add: valid_policy_def policy_check_def split: if_splits)
  have plain: "fst (plain_retry (Suc k) delay factor f m) \<noteq> None \<and>
      length (snd (plain_retry (Suc k) delay factor f m)) \<le> k" for k delay m
  proof (induction k arbitrary: delay m)
    case (Suc k)
    from Suc [of "delay * factor" "Suc m"] show ?case
      unfolding plain_retry.simps(2) [of "Suc k"]
      by (auto split: call_outcome.split simp del: plain_retry.simps)
  qed (auto split: call_outcome.split)
  obtain k where k: "nat (rp_attempts p) = Suc k" using n by (cases "nat (rp_attempts p)") auto
  from retry_loop_history [OF n, of u clk f "(br, [])"] plain [of k base 1] k show ?thesis
    by (simp add: call_with_retry_def retry_with_backoff_def del: plain_retry.simps)
qed

subsection \<open>The breaker\<close>

text \<open>
  An open breaker shields the dependency: until the cooldown has passed no attempt reaches it.
\<close>

theorem open_breaker_shields:
  assumes "kb_state b = RcOpen" and "fst ts - kb_opened_at b < kb_cooldown b"
  shows "kb_call ts out b = (None, b)"
  using assms by (simp add: kb_call_def kb_read_state_def Let_def)

definition kb_ok :: "retry_breaker \<Rightarrow> bool" where
  "kb_ok b \<longleftrightarrow> 0 < kb_threshold b \<and> (kb_state b = RcClosed \<longrightarrow> kb_failures b < kb_threshold b)"

fun kb_run :: "retry_breaker \<Rightarrow> (clock \<times> clock) \<times> 'v call_outcome \<Rightarrow> retry_breaker" where
  "kb_run b (ts, out) = snd (kb_call ts out b)"

interpretation kb_runs: preserved kb_run kb_ok
proof
  fix b :: retry_breaker and e :: "(clock \<times> clock) \<times> 'a call_outcome"
  assume "kb_ok b"
  then show "kb_ok (kb_run b e)"
    by (cases e; cases "snd e")
      (auto simp: kb_ok_def kb_call_def kb_read_state_def kb_move_def kb_after_def kb_success_def kb_failure_def Let_def)
qed

text \<open>
  The breaker opens exactly at the threshold: in every history it is closed only with fewer
  consecutive failures than that, and a closed breaker one failure short opens with the next.
\<close>

theorem breaker_opens_at_threshold:
  assumes "retry_breaker_init k c = Some b0" and "b = foldl kb_run b0 es" and "kb_state b = RcClosed"
  shows "kb_failures b < k \<and>
    (kb_state (snd (kb_call ts (CallRetryable e) b)) = RcOpen \<longleftrightarrow> kb_failures b + 1 = k)"
proof -
  have "kb_ok b0" "kb_threshold b0 = k"
    using assms(1) by (auto simp: retry_breaker_init_def kb_ok_def split: if_splits)
  then have "kb_ok b" using kb_runs.run_inv assms(2) by blast
  moreover have "kb_threshold (kb_run x y) = kb_threshold x" for x :: retry_breaker and y :: "(clock \<times> clock) \<times> 'a call_outcome"
    by (cases y; cases "snd y")
      (auto simp: kb_call_def kb_read_state_def kb_move_def kb_after_def kb_success_def kb_failure_def Let_def)
  then have "kb_threshold (foldl kb_run x es) = kb_threshold x" for x by (induction es arbitrary: x) simp_all
  then have "kb_threshold b = k" using assms(2) \<open>kb_threshold b0 = k\<close> by simp
  ultimately show ?thesis
    using assms(3)
    by (auto simp: kb_ok_def kb_call_def kb_read_state_def kb_move_def kb_after_def kb_failure_def Let_def)
qed

text \<open>
  A breaker that opens while a call is being retried hides what happened: with a threshold below
  the number of attempts the caller gets \<open>CircuitOpenError\<close>, without the exhaustion error that carries
  the history.
\<close>

theorem breaker_hides_exhaustion:
  assumes "1 < rp_attempts p" and "rp_jitter p = ''none''" and "0 < c" and "\<forall>n. \<exists>e. f n = CallRetryable e"
    and "\<forall>n. fst (clk n) = t \<and> snd (clk n) = t"
  shows "\<exists>b. retry_breaker_init 1 c = Some b \<and> fst (call_with_retry p u clk f (Some b)) \<in> {RetryCircuitOpen, RetryOverflow}"
proof -
  obtain e where e: "f 1 = CallRetryable e" using assms(4) by blast
  have "\<not> rp_attempts p \<le> 1" using assms(1) by simp
  then show ?thesis
    using assms(3,5) e
    by (auto simp: retry_breaker_init_def call_with_retry_def kb_call_def kb_read_state_def kb_after_def kb_failure_def
        kb_move_def delay_for_attempt_def Let_def retry_loop.simps [of p u clk f 1] retry_loop.simps [of p u clk f "Suc 0"]
        retry_loop.simps [of p u clk f 2] retry_loop.simps [of p u clk f "Suc (Suc 0)"] split: option.split)
qed

definition demo_policy :: retry_policy where
  "demo_policy = \<lparr>rp_attempts = 3, rp_base = 1, rp_max = 60, rp_mult = 2, rp_jitter = ''full''\<rparr>"

lemma demo_policy_valid: "valid_policy demo_policy"
  by (simp add: valid_policy_def demo_policy_def policy_check_def)

lemma demo_policy_no_overflow: "no_overflow demo_policy (\<lambda>_. 1)"
  unfolding no_overflow_def
proof (intro allI impI)
  fix n :: nat
  assume "int n \<le> rp_attempts demo_policy"
  then have "n \<in> {0, 1, 2, 3}" by (auto simp: demo_policy_def)
  then show "delay_for_attempt demo_policy n 1 \<noteq> None"
    by (auto simp: delay_for_attempt_def demo_policy_def float_power_def )
qed

lemma delay_bounded_witness:
  "0 \<le> (1 / 2 :: rat) \<and> 1 / 2 \<le> rp_max demo_policy"
  by (rule delay_bounded [OF demo_policy_valid, of 2 "1 / 2"])
    (simp_all add: delay_for_attempt_def demo_policy_def float_power_def)

lemma retry_exact_witness:
  "fst (call_with_retry demo_policy (\<lambda>_. 1) (\<lambda>_. (0, 0)) (\<lambda>n. if n = 2 then CallReturns (7::int) else CallRetryable ''timeout'') None) =
    RetryReturned 7"
  using retry_exact [OF demo_policy_valid demo_policy_no_overflow, of "\<lambda>_. (0, 0)"
      "\<lambda>n. if n = 2 then CallReturns (7::int) else CallRetryable ''timeout''"]
  by (simp add: demo_policy_def verdict_def is_retryable_def upt_conv_Cons numeral_3_eq_3 del: upt_Suc)

lemma retry_terminates_witness:
  "length (snd (retry_with_backoff (rp_attempts demo_policy) 1 2 (\<lambda>n. CallRetryable ''e'' :: int call_outcome))) < nat (rp_attempts demo_policy)"
  using retry_terminates [OF demo_policy_valid] by blast

lemma open_breaker_shields_witness:
  "kb_call (5, 5) (CallReturns (1::int)) \<lparr>kb_threshold = 1, kb_cooldown = 30, kb_state = RcOpen, kb_failures = 1,
     kb_opened_at = 0, kb_transitions = []\<rparr> =
   (None, \<lparr>kb_threshold = 1, kb_cooldown = 30, kb_state = RcOpen, kb_failures = 1,
     kb_opened_at = 0, kb_transitions = []\<rparr>)"
  by (rule open_breaker_shields) simp_all

lemma breaker_hides_exhaustion_witness:
  "\<exists>b. retry_breaker_init 1 30 = Some b \<and> fst (call_with_retry (demo_policy\<lparr>rp_jitter := ''none''\<rparr>) (\<lambda>_. 0) (\<lambda>_. (0, 0))
      (\<lambda>n. CallRetryable ''e'' :: int call_outcome) (Some b)) \<in> {RetryCircuitOpen, RetryOverflow}"
  by (rule breaker_hides_exhaustion [where t = 0]) (simp_all add: demo_policy_def)

end
