(* ===== verification/Watchdog.thy ===== *)
theory Watchdog
  imports Base
begin

text \<open>
  The emergency watchdog (\<open>monitoring/emergency_watchdog.py\<close>), which proposes a pause when scores or
  latencies are anomalous, and the pause monitor (\<open>integrations/pause_monitor.py\<close>), which compares the
  chain with the pipeline. The contract client and the external heartbeat are parameters: whether
  the proposal succeeds, and the answers of the chain and of the pipeline.
\<close>

subsection \<open>The watchdog\<close>

record watchdog =
  wd_window_seconds :: rat
  wd_score_threshold :: int
  wd_rate_threshold :: rat
  wd_latency_budget :: rat
  wd_heartbeat_url :: bool
  wd_heartbeat_interval :: rat
  wd_window :: "(clock \<times> int \<times> rat option) list"
  wd_proposed :: bool
  wd_last_heartbeat :: clock

definition watchdog_init :: "rat \<Rightarrow> int \<Rightarrow> rat \<Rightarrow> rat \<Rightarrow> bool \<Rightarrow> rat \<Rightarrow> watchdog" where
  "watchdog_init window score_threshold rate_threshold budget url interval =
     \<lparr>wd_window_seconds = window, wd_score_threshold = score_threshold, wd_rate_threshold = rate_threshold,
      wd_latency_budget = budget, wd_heartbeat_url = url, wd_heartbeat_interval = interval, wd_window = [],
      wd_proposed = False, wd_last_heartbeat = 0\<rparr>"

definition record_score :: "clock \<Rightarrow> int \<Rightarrow> rat option \<Rightarrow> watchdog \<Rightarrow> watchdog" where
  "record_score now score latency w = w\<lparr>wd_window := wd_window w @ [(now, score, latency)]\<rparr>"

definition evict_old :: "clock \<Rightarrow> watchdog \<Rightarrow> watchdog" where
  "evict_old now w =
     w\<lparr>wd_window := dropWhile (\<lambda>(t, _). t < now - wd_window_seconds w) (wd_window w)\<rparr>"

text \<open>Whether a heartbeat is sent, and the state after it; a failed one is swallowed.\<close>

definition maybe_heartbeat :: "clock \<Rightarrow> watchdog \<Rightarrow> bool \<times> watchdog" where
  "maybe_heartbeat now w =
     (if \<not> wd_heartbeat_url w \<or> now - wd_last_heartbeat w < wd_heartbeat_interval w then (False, w)
      else (True, w\<lparr>wd_last_heartbeat := now\<rparr>))"

definition score_rate :: "watchdog \<Rightarrow> rat" where
  "score_rate w =
     of_nat (length (filter (\<lambda>(_, s, _). s > wd_score_threshold w) (wd_window w))) / of_nat (length (wd_window w))"

definition latency_rate :: "watchdog \<Rightarrow> rat" where
  "latency_rate w =
     (let ls = filter (\<lambda>(_, _, l). l \<noteq> None) (wd_window w) in
        if ls = [] then 0
        else of_nat (length (filter (\<lambda>(_, _, l). the l > wd_latency_budget w) ls)) / of_nat (length ls))"

text \<open>\<open>_propose_pause\<close>: the flag is set only when the contract call returned; errors are swallowed.\<close>

definition propose_pause :: "bool \<Rightarrow> watchdog \<Rightarrow> watchdog" where
  "propose_pause submitted w = (if submitted then w\<lparr>wd_proposed := True\<rparr> else w)"

text \<open>\<open>check\<close>: the answer, whether a proposal was sent to the contract, and the state.\<close>

definition watchdog_check :: "clock \<Rightarrow> clock \<Rightarrow> bool \<Rightarrow> watchdog \<Rightarrow> bool \<times> bool \<times> watchdog" where
  "watchdog_check beat_now now submitted w =
     (let w = snd (maybe_heartbeat beat_now w) in
        if wd_proposed w then (False, False, w)
        else
          (let w = evict_old now w in
             if length (wd_window w) < 10 then (False, False, w)
             else if score_rate w > wd_rate_threshold w then (True, submitted, propose_pause submitted w)
             else if latency_rate w > wd_rate_threshold w then (True, submitted, propose_pause submitted w)
             else (False, False, w)))"

definition anomaly_rate :: "clock \<Rightarrow> watchdog \<Rightarrow> rat \<times> watchdog" where
  "anomaly_rate now w =
     (let w = evict_old now w in ((if wd_window w = [] then 0 else score_rate w), w))"

datatype watchdog_event = WdScore clock int "rat option" | WdCheck clock clock bool

fun watchdog_step :: "watchdog \<times> nat \<Rightarrow> watchdog_event \<Rightarrow> watchdog \<times> nat" where
  "watchdog_step (w, n) (WdScore now s l) = (record_score now s l w, n)"
| "watchdog_step (w, n) (WdCheck beat now ok) =
     (case watchdog_check beat now ok w of (_, sent, w') \<Rightarrow> (w', if sent then Suc n else n))"

subsection \<open>What the watchdog does\<close>

interpretation one_proposal: preserved watchdog_step
  "\<lambda>st. snd st = (if wd_proposed (fst st) then 1 else 0)"
proof
  fix st :: "watchdog \<times> nat" and e
  assume "snd st = (if wd_proposed (fst st) then 1 else 0)"
  then show "snd (watchdog_step st e) = (if wd_proposed (fst (watchdog_step st e)) then 1 else 0)"
    by (cases st; cases e)
      (auto simp: record_score_def watchdog_check_def maybe_heartbeat_def evict_old_def propose_pause_def Let_def)
qed

text \<open>
  The watchdog submits at most one pause proposal, in every history of scores and checks.
\<close>

theorem at_most_one_proposal:
  "snd (foldl watchdog_step (watchdog_init win st rt lb url iv, 0) es) \<le> 1"
proof -
  have "snd (watchdog_init win st rt lb url iv, 0::nat) = (if wd_proposed (fst (watchdog_init win st rt lb url iv, 0::nat)) then 1 else 0)"
    by (simp add: watchdog_init_def)
  from one_proposal.run_inv [OF this, of es] show ?thesis by simp
qed

text \<open>
  A check proposes exactly when no proposal was made before, at least ten scores are in the window,
  and the share of high scores or of late events exceeds the threshold.
\<close>

theorem check_exact:
  assumes "sorted (map fst (wd_window w))"
  shows "fst (snd (watchdog_check beat now True w)) \<longleftrightarrow>
    (let v = w\<lparr>wd_window := filter (\<lambda>(t, _). now - wd_window_seconds w \<le> t) (wd_window w)\<rparr> in
       \<not> wd_proposed w \<and> 10 \<le> length (wd_window v) \<and>
       (wd_rate_threshold w < score_rate v \<or> wd_rate_threshold w < latency_rate v))"
proof -
  have "dropWhile (\<lambda>(t, _). t < c) d = filter (\<lambda>(t, _). c \<le> t) d" if "sorted (map fst d)"
    for c :: clock and d :: "(clock \<times> int \<times> rat option) list"
    using that
  proof (induction d)
    case (Cons x d)
    show ?case
    proof (cases "fst x < c")
      case True
      with Cons show ?thesis by (cases x) simp
    next
      case False
      then have "\<forall>y\<in>set (x # d). c \<le> fst y" using Cons.prems by auto
      then have "filter (\<lambda>(t, _). c \<le> t) (x # d) = x # d" by (intro filter_True) force
      with False show ?thesis by (cases x) simp
    qed
  qed simp
  with assms show ?thesis
    by (auto simp: watchdog_check_def maybe_heartbeat_def evict_old_def Let_def score_rate_def latency_rate_def)
qed

text \<open>
  A failed submission is reported as a proposal: \<open>check\<close> answers \<open>True\<close> although nothing reached
  the contract, and only the next check tries again.
\<close>

theorem failed_proposal_reported:
  assumes "\<not> wd_proposed w" and "fst (snd (watchdog_check beat now True w))"
  shows "fst (watchdog_check beat now False w) \<and> \<not> fst (snd (watchdog_check beat now False w)) \<and>
    \<not> wd_proposed (snd (snd (watchdog_check beat now False w)))"
  using assms
  by (auto simp: watchdog_check_def maybe_heartbeat_def evict_old_def propose_pause_def Let_def split: if_splits)

text \<open>
  After its one proposal the watchdog is blind for good, while its heartbeat goes on: no check
  answers \<open>True\<close> again, and every score recorded stays in memory.
\<close>

lemma proposed_run:
  "wd_proposed w \<Longrightarrow> wd_proposed (fst (foldl watchdog_step (w, n) es)) \<and>
     length (wd_window (fst (foldl watchdog_step (w, n) es))) =
       length (wd_window w) + length (filter (\<lambda>e. case e of WdScore _ _ _ \<Rightarrow> True | _ \<Rightarrow> False) es)"
proof (induction es arbitrary: w n)
  case (Cons e es)
  have "wd_proposed (fst (watchdog_step (w, n) e)) \<and>
      length (wd_window (fst (watchdog_step (w, n) e))) =
        length (wd_window w) + (case e of WdScore _ _ _ \<Rightarrow> 1 | _ \<Rightarrow> 0)"
    using Cons.prems by (cases e) (auto simp: record_score_def watchdog_check_def maybe_heartbeat_def)
  with Cons.IH [of "fst (watchdog_step (w, n) e)" "snd (watchdog_step (w, n) e)"] show ?case
    by (cases e) auto
qed simp

theorem blind_after_proposal:
  assumes "wd_proposed w" and "v = fst (foldl watchdog_step (w, n) es)"
  shows "\<not> fst (watchdog_check beat now ok v) \<and>
    length (filter (\<lambda>e. case e of WdScore _ _ _ \<Rightarrow> True | _ \<Rightarrow> False) es) \<le>
      length (wd_window (snd (snd (watchdog_check beat now ok v))))"
  using proposed_run [OF assms(1), of n es] assms(2)
  by (simp add: watchdog_check_def maybe_heartbeat_def Let_def)

subsection \<open>The pause monitor\<close>

text \<open>One tick; \<open>None\<close> is a query of the chain or of the pipeline that raises.\<close>

datatype parity = InParity | Mismatch bool bool | TickFailed

definition check_parity :: "bool option \<Rightarrow> bool option \<Rightarrow> parity" where
  "check_parity onchain_paused pipeline_running =
     (case onchain_paused of
        None \<Rightarrow> TickFailed
      | Some p \<Rightarrow>
          (case pipeline_running of
             None \<Rightarrow> TickFailed
           | Some r \<Rightarrow> if p \<noteq> r then InParity else Mismatch p (\<not> r)))"

text \<open>The loop: a tick, then a sleep of the interval; \<open>busy\<close> is how long each tick takes.\<close>

fun tick_times :: "rat \<Rightarrow> (nat \<Rightarrow> rat) \<Rightarrow> clock \<Rightarrow> nat \<Rightarrow> clock" where
  "tick_times interval busy start 0 = start"
| "tick_times interval busy start (Suc k) = tick_times interval busy start k + busy k + interval"

definition monitor_run ::
  "rat \<Rightarrow> (nat \<Rightarrow> rat) \<Rightarrow> clock \<Rightarrow> (clock \<Rightarrow> bool option) \<Rightarrow> (clock \<Rightarrow> bool option) \<Rightarrow> nat \<Rightarrow> parity"
where
  "monitor_run interval busy start chain pipeline k =
     (let t = tick_times interval busy start k in check_parity (chain t) (pipeline t))"

text \<open>
  A mismatch is seen when it lasts as long as the interval and the time a tick takes, if the
  queries answer; the documented bound, the interval alone, leaves the second part out.
\<close>

theorem mismatch_is_seen:
  assumes "0 < interval" and "\<forall>k. 0 \<le> busy k \<and> busy k \<le> m" and "start \<le> a"
    and "\<forall>t. a \<le> t \<and> t \<le> a + interval + m \<longrightarrow> (\<exists>p. chain t = Some p \<and> pipeline t = Some p)"
  shows "\<exists>k p. monitor_run interval busy start chain pipeline k = Mismatch p (\<not> p) \<and>
    tick_times interval busy start k \<le> a + interval + m"
proof -
  let ?t = "tick_times interval busy start"
  have grow: "start + of_nat k * interval \<le> ?t k" for k
    using assms(2) by (induction k) (auto simp: algebra_simps intro: add_mono order.trans)
  obtain n where "(a - start) / interval < of_nat n" using reals_Archimedean2 by blast
  then have "a < ?t n" using grow [of n] assms(1) by (simp add: field_simps)
  then have ex: "\<exists>k. a \<le> ?t k" by (auto intro: less_imp_le)
  define k where "k = (LEAST k. a \<le> ?t k)"
  have k: "a \<le> ?t k" unfolding k_def using ex by (rule LeastI_ex)
  have "?t k \<le> a + interval + m"
  proof (cases k)
    case 0
    have "0 \<le> m" using assms(2) by (meson order.trans)
    with 0 assms(1,3) show ?thesis by simp
  next
    case (Suc j)
    then have "\<not> a \<le> ?t j" unfolding k_def by (metis lessI not_less_Least)
    moreover have "busy j \<le> m" using assms(2) by blast
    ultimately show ?thesis using Suc by simp
  qed
  with k assms(4) obtain p where "chain (?t k) = Some p" "pipeline (?t k) = Some p" by blast
  with \<open>?t k \<le> a + interval + m\<close> show ?thesis
    by (intro exI [of _ k] exI [of _ p]) (simp add: monitor_run_def check_parity_def)
qed

definition demo_watchdog :: "(clock \<times> int \<times> rat option) list \<Rightarrow> watchdog" where
  "demo_watchdog xs = watchdog_init 60 95 (9 / 10) 2000 True 30\<lparr>wd_window := xs\<rparr>"

lemma check_exact_witness:
  "fst (snd (watchdog_check 0 0 True (demo_watchdog (replicate 10 (0, 99, None))))) \<longleftrightarrow> True"
  using check_exact [of "demo_watchdog (replicate 10 (0, 99, None))" 0 0]
  by (simp add: demo_watchdog_def watchdog_init_def score_rate_def Let_def)

lemma failed_proposal_reported_witness:
  "fst (watchdog_check 0 0 False (demo_watchdog (replicate 10 (0, 99, None)))) \<and>
   \<not> fst (snd (watchdog_check 0 0 False (demo_watchdog (replicate 10 (0, 99, None)))))"
  using failed_proposal_reported [of "demo_watchdog (replicate 10 (0, 99, None))" 0 0]
  by (simp add: demo_watchdog_def watchdog_init_def watchdog_check_def maybe_heartbeat_def evict_old_def score_rate_def
      Let_def)

lemma blind_after_proposal_witness:
  "\<not> fst (watchdog_check 9 9 True (fst (foldl watchdog_step
     (demo_watchdog []\<lparr>wd_proposed := True\<rparr>, 1) (replicate 20 (WdScore 8 100 None)))))"
  using blind_after_proposal [of "demo_watchdog []\<lparr>wd_proposed := True\<rparr>", OF _ refl] by simp

lemma mismatch_is_seen_witness:
  "\<exists>k p. monitor_run 30 (\<lambda>_. 1) 0 (\<lambda>_. Some True) (\<lambda>_. Some True) k = Mismatch p (\<not> p) \<and>
    tick_times 30 (\<lambda>_. 1) 0 k \<le> 100 + 30 + 1"
  by (rule mismatch_is_seen) (auto intro: exI [of _ True])

end
