(* ===== verification/Incidents.thy ===== *)
theory Incidents
  imports Base
begin

text \<open>
  Automated incident response (\<open>monitoring/incident_responder.py\<close>): severity, deduplication, the
  playbook steps, and the gated execution of runbooks with their audit log. SHA-256 is a parameter;
  the shipped playbook (\<open>data/playbooks/high_risk_wallet.yaml\<close>) is included as \<open>shipped_playbook\<close>.
\<close>

record incident_alert =
  ia_risk :: "int option"
  ia_mad :: "rat option"
  ia_type :: "string option"

record playbook =
  pb_risk_threshold :: int
  pb_mad_threshold :: rat
  pb_alert_types :: "string list"
  pb_steps :: "string list"
  pb_window :: rat

record incident =
  in_wallet_hash :: string
  in_fingerprint :: string
  in_type :: string
  in_risk :: int
  in_status :: string
  in_report :: "(string \<times> string \<times> int) option"
  in_history :: "string list"

datatype automation_mode = DryRun | ApprovalRequired | FullAutomation

datatype responder_error = WebhookMustUseHttps | InvalidMode string

text \<open>Notifications are the entries logged as queued; the source sends nothing to the webhook.\<close>

record responder =
  rs_playbook :: playbook
  rs_webhook :: "string option"
  rs_store :: "incident list"
  rs_window :: rat
  rs_seen :: "(string, clock) dict"
  rs_mode :: automation_mode
  rs_queued :: "string list"
  rs_audit :: "(string \<times> string \<times> bool \<times> string) list"

fun parse_mode :: "string \<Rightarrow> responder_error + automation_mode" where
  "parse_mode m =
     (if m = ''dry_run'' then Inr DryRun
      else if m = ''approval_required'' then Inr ApprovalRequired
      else if m = ''full_automation'' then Inr FullAutomation
      else Inl (InvalidMode m))"

definition responder_init ::
  "playbook \<Rightarrow> string option \<Rightarrow> rat option \<Rightarrow> string \<Rightarrow> responder_error + responder"
where
  "responder_init pb webhook window mode =
     (if \<exists>u. webhook = Some u \<and> take 7 u = ''http://'' then Inl WebhookMustUseHttps
      else (case parse_mode mode of
              Inl e \<Rightarrow> Inl e
            | Inr m \<Rightarrow> Inr \<lparr>rs_playbook = pb, rs_webhook = webhook, rs_store = [],
                rs_window = (case window of None \<Rightarrow> pb_window pb | Some w \<Rightarrow> w), rs_seen = [], rs_mode = m,
                rs_queued = [], rs_audit = []\<rparr>))"

definition or_else :: "'a option \<Rightarrow> 'a \<Rightarrow> 'a" where
  "or_else x d = (case x of None \<Rightarrow> d | Some v \<Rightarrow> v)"

definition is_high_severity :: "incident_alert \<Rightarrow> playbook \<Rightarrow> bool" where
  "is_high_severity a pb \<longleftrightarrow>
     or_else (ia_risk a) 0 > pb_risk_threshold pb \<or> or_else (ia_mad a) 0 > pb_mad_threshold pb \<or>
     (\<exists>t. ia_type a = Some t \<and> t \<in> set (pb_alert_types pb))"

definition hash_wallet :: "(string \<Rightarrow> string) \<Rightarrow> string \<Rightarrow> string" where
  "hash_wallet sha wallet = take 16 (sha wallet)"

definition alert_fingerprint :: "(string \<Rightarrow> string) \<Rightarrow> string \<Rightarrow> string \<Rightarrow> int \<Rightarrow> string" where
  "alert_fingerprint sha wallet alert_type risk =
     take 16 (sha (wallet @ '':'' @ alert_type @ '':'' @ dec_int (risk div 10 * 10)))"

definition is_duplicate :: "clock \<Rightarrow> string \<Rightarrow> responder \<Rightarrow> bool" where
  "is_duplicate now fp r =
     (case dict_get (rs_seen r) fp of None \<Rightarrow> False | Some ts \<Rightarrow> now - ts < rs_window r)"

text \<open>\<open>_notify\<close>: without a webhook nothing, else a line in the log.\<close>

definition incident_notify :: "incident \<Rightarrow> responder \<Rightarrow> responder" where
  "incident_notify i r =
     (if rs_webhook r = None \<or> rs_webhook r = Some [] then r
      else r\<lparr>rs_queued := rs_queued r @ [in_fingerprint i]\<rparr>)"

definition run_step ::
  "(string \<Rightarrow> string) \<Rightarrow> string \<Rightarrow> incident_alert \<Rightarrow> string \<Rightarrow> incident \<times> responder \<Rightarrow> incident \<times> responder"
where
  "run_step sha wallet a action st =
     (if action = ''snapshot_risk_history'' then ((fst st)\<lparr>in_history := [hash_wallet sha wallet]\<rparr>, snd st)
      else if action = ''generate_report''
      then ((fst st)\<lparr>in_report := Some (hash_wallet sha wallet, or_else (ia_type a) ''high_risk_wallet'', or_else (ia_risk a) 0)\<rparr>,
            snd st)
      else if action = ''create_incident'' then ((fst st)\<lparr>in_status := ''open''\<rparr>, snd st)
      else if action = ''notify'' then (fst st, incident_notify (fst st) (snd st))
      else st)"

definition execute_playbook ::
  "(string \<Rightarrow> string) \<Rightarrow> string \<Rightarrow> string \<Rightarrow> incident_alert \<Rightarrow> responder \<Rightarrow> incident \<times> responder"
where
  "execute_playbook sha wallet fp a r =
     (let i = \<lparr>in_wallet_hash = hash_wallet sha wallet, in_fingerprint = fp,
            in_type = or_else (ia_type a) ''high_risk_wallet'', in_risk = or_else (ia_risk a) 0, in_status = ''open'',
            in_report = None, in_history = []\<rparr>;
          st = foldl (\<lambda>st action. run_step sha wallet a action st) (i, r) (pb_steps (rs_playbook r));
          r = (snd st)\<lparr>rs_store := rs_store (snd st) @ [fst st]\<rparr>
      in (fst st, incident_notify (fst st) r))"

definition handle_alert ::
  "(string \<Rightarrow> string) \<Rightarrow> clock \<Rightarrow> clock \<Rightarrow> string \<Rightarrow> incident_alert \<Rightarrow> responder \<Rightarrow> incident option \<times> responder"
where
  "handle_alert sha t1 t2 wallet a r =
     (if \<not> is_high_severity a (rs_playbook r) then (None, r)
      else
        (let fp = alert_fingerprint sha wallet (or_else (ia_type a) []) (or_else (ia_risk a) 0) in
           if is_duplicate t1 fp r then (None, r)
           else apfst Some (execute_playbook sha wallet fp a (r\<lparr>rs_seen := dict_set fp t2 (rs_seen r)\<rparr>))))"

definition simulate_alert ::
  "(string \<Rightarrow> string) \<Rightarrow> clock \<Rightarrow> clock \<Rightarrow> string \<Rightarrow> int \<Rightarrow> string \<Rightarrow> responder \<Rightarrow> incident option \<times> responder"
where
  "simulate_alert sha t1 t2 wallet risk alert_type r =
     handle_alert sha t1 t2 wallet \<lparr>ia_risk = Some risk, ia_mad = Some 0, ia_type = Some alert_type\<rparr> r"

subsection \<open>Runbooks\<close>

definition automated_runbooks :: "(string, string) dict" where
  "automated_runbooks = [(''stuck_consumer_group'', ''restart_consumer_group''),
     (''stale_detection_worker'', ''recycle_detection_worker'')]"

record remediation =
  rm_class :: string
  rm_action :: string
  rm_target :: string
  rm_mode :: automation_mode
  rm_executed :: bool
  rm_outcome :: string

text \<open>\<open>_dispatch_remediation\<close>: a log line for a known action, an error for any other.\<close>

definition dispatch_remediation :: "string \<Rightarrow> bool" where
  "dispatch_remediation action \<longleftrightarrow> action = ''restart_consumer_group'' \<or> action = ''recycle_detection_worker''"

definition run_remediation :: "string \<Rightarrow> string \<Rightarrow> string \<Rightarrow> automation_mode \<Rightarrow> remediation" where
  "run_remediation alert_type action target mode =
     (if dispatch_remediation action
      then \<lparr>rm_class = alert_type, rm_action = action, rm_target = target, rm_mode = mode, rm_executed = True,
        rm_outcome = ''succeeded''\<rparr>
      else \<lparr>rm_class = alert_type, rm_action = action, rm_target = target, rm_mode = mode, rm_executed = False,
        rm_outcome = ''failed''\<rparr>)"

definition remediate :: "string \<Rightarrow> string \<Rightarrow> bool \<Rightarrow> responder \<Rightarrow> remediation \<times> responder" where
  "remediate alert_type target approved r =
     (let mode = rs_mode r;
          act = (case dict_get automated_runbooks alert_type of
              None \<Rightarrow> \<lparr>rm_class = alert_type, rm_action = ''none'', rm_target = target, rm_mode = mode,
                rm_executed = False, rm_outcome = ''skipped''\<rparr>
            | Some name \<Rightarrow>
                if mode = DryRun
                then \<lparr>rm_class = alert_type, rm_action = name, rm_target = target, rm_mode = mode,
                  rm_executed = False, rm_outcome = ''dry_run''\<rparr>
                else if mode = ApprovalRequired \<and> \<not> approved
                then \<lparr>rm_class = alert_type, rm_action = name, rm_target = target, rm_mode = mode,
                  rm_executed = False, rm_outcome = ''pending_approval''\<rparr>
                else run_remediation alert_type name target mode)
      in (act, r\<lparr>rs_audit := rs_audit r @ [(rm_class act, rm_target act, rm_executed act, rm_outcome act)]\<rparr>))"

subsection \<open>Runbooks are gated\<close>

text \<open>
  A runbook runs only for the two listed classes, never in dry-run mode and in approval mode only
  when approved; and every decision, executed or not, is one new line of the audit log.
\<close>

theorem remediation_gated:
  "(rm_executed (fst (remediate c t approved r)) \<longleftrightarrow>
     c \<in> {''stuck_consumer_group'', ''stale_detection_worker''} \<and>
     (rs_mode r = FullAutomation \<or> rs_mode r = ApprovalRequired \<and> approved)) \<and>
   (\<exists>outcome. rs_audit (snd (remediate c t approved r)) =
      rs_audit r @ [(c, t, rm_executed (fst (remediate c t approved r)), outcome)])"
  by (cases "rs_mode r")
    (auto simp: remediate_def automated_runbooks_def run_remediation_def dispatch_remediation_def Let_def)

subsection \<open>Deduplication\<close>

lemma foldl_run_step:
  "rs_seen (snd (foldl (\<lambda>st action. run_step sha w a action st) st xs)) = rs_seen (snd st) \<and>
   rs_window (snd (foldl (\<lambda>st action. run_step sha w a action st) st xs)) = rs_window (snd st) \<and>
   rs_playbook (snd (foldl (\<lambda>st action. run_step sha w a action st) st xs)) = rs_playbook (snd st) \<and>
   rs_webhook (snd (foldl (\<lambda>st action. run_step sha w a action st) st xs)) = rs_webhook (snd st) \<and>
   rs_store (snd (foldl (\<lambda>st action. run_step sha w a action st) st xs)) = rs_store (snd st) \<and>
   in_fingerprint (fst (foldl (\<lambda>st action. run_step sha w a action st) st xs)) = in_fingerprint (fst st)"
proof (induction xs arbitrary: st)
  case (Cons x xs)
  have "rs_seen (snd (run_step sha w a x st)) = rs_seen (snd st) \<and>
     rs_window (snd (run_step sha w a x st)) = rs_window (snd st) \<and>
     rs_playbook (snd (run_step sha w a x st)) = rs_playbook (snd st) \<and>
     rs_webhook (snd (run_step sha w a x st)) = rs_webhook (snd st) \<and>
     rs_store (snd (run_step sha w a x st)) = rs_store (snd st) \<and>
     in_fingerprint (fst (run_step sha w a x st)) = in_fingerprint (fst st)"
    by (simp add: run_step_def incident_notify_def)
  with Cons [of "run_step sha w a x st"] show ?case by simp
qed simp

lemma foldl_queued:
  "rs_queued (snd (foldl (\<lambda>st action. run_step sha w a action st) st xs)) =
     rs_queued (snd st) @ replicate (if rs_webhook (snd st) = None \<or> rs_webhook (snd st) = Some [] then 0
       else length (filter (\<lambda>x. x = ''notify'') xs)) (in_fingerprint (fst st))"
proof (induction xs arbitrary: st)
  case (Cons x xs)
  show ?case
    using Cons [of "run_step sha w a x st"] foldl_run_step [of sha w a st "[x]"]
    by (auto simp: run_step_def incident_notify_def replicate_append_same [symmetric])
qed simp

lemma handled:
  assumes "handle_alert sha t1 t2 wallet a r = (Some i, r')"
  shows "execute_playbook sha wallet (alert_fingerprint sha wallet (or_else (ia_type a) []) (or_else (ia_risk a) 0)) a
      (r\<lparr>rs_seen := dict_set (alert_fingerprint sha wallet (or_else (ia_type a) []) (or_else (ia_risk a) 0)) t2 (rs_seen r)\<rparr>) =
    (i, r')"
proof -
  have "apfst Some p = (Some i, r') \<longleftrightarrow> p = (i, r')" for p :: "incident \<times> responder" by (cases p) auto
  with assms show ?thesis by (simp add: handle_alert_def Let_def split: if_splits)
qed

lemma execute_keeps:
  assumes "execute_playbook sha wallet fp a r = (i, r')"
  shows "rs_seen r' = rs_seen r \<and> rs_window r' = rs_window r \<and> in_fingerprint i = fp \<and> rs_playbook r' = rs_playbook r"
  using assms foldl_run_step by (auto simp: execute_playbook_def incident_notify_def Let_def split: if_splits)

definition alert_step ::
  "(string \<Rightarrow> string) \<Rightarrow> responder \<Rightarrow> clock \<times> clock \<times> string \<times> incident_alert \<Rightarrow> responder"
where
  "alert_step sha r e = (case e of (t1, t2, wallet, a) \<Rightarrow> snd (handle_alert sha t1 t2 wallet a r))"

definition seen_at :: "string \<Rightarrow> clock \<Rightarrow> rat \<Rightarrow> responder \<Rightarrow> bool" where
  "seen_at fp t win r \<longleftrightarrow> dict_get (rs_seen r) fp = Some t \<and> rs_window r = win"

interpretation seen_run: preserved_when "alert_step sha" "seen_at fp t win" "\<lambda>(t1, t2, w, a). t1 - t < win"
  for sha fp t win
proof
  fix r :: responder and e :: "clock \<times> clock \<times> string \<times> incident_alert"
  assume inv: "seen_at fp t win r" and ok: "case e of (t1, t2, w, a) \<Rightarrow> t1 - t < win"
  obtain t1 t2 w a where e: "e = (t1, t2, w, a)" by (cases e)
  show "seen_at fp t win (alert_step sha r e)"
  proof (cases "handle_alert sha t1 t2 w a r")
    case (Pair res r')
    show ?thesis
    proof (cases res)
      case None
      then have "r' = r"
        using Pair by (auto simp: handle_alert_def apfst_def map_prod_def Let_def split: if_splits prod.splits)
      with Pair inv show ?thesis by (simp add: e alert_step_def)
    next
      case (Some i)
      let ?fp = "alert_fingerprint sha w (or_else (ia_type a) []) (or_else (ia_risk a) 0)"
      have "?fp \<noteq> fp"
        using Pair Some inv ok by (auto simp: e handle_alert_def is_duplicate_def seen_at_def Let_def split: if_splits)
      with execute_keeps [OF handled [OF Pair [unfolded Some]]] inv show ?thesis
        by (simp add: e alert_step_def Pair seen_at_def)
    qed
  qed
qed

text \<open>
  Within the window one incident is recorded for a wallet, type and score decade: whatever alerts
  come in between, one with the fingerprint of a handled alert is suppressed without a trace.
\<close>

theorem repeated_alert_suppressed:
  assumes "handle_alert sha t1 t2 wallet a r = (Some i, r1)" and "r' = foldl (alert_step sha) r1 es"
    and "\<forall>(s1, s2, w, b)\<in>set es. s1 - t2 < rs_window r" and "t1' - t2 < rs_window r"
    and "alert_fingerprint sha wallet' (or_else (ia_type b) []) (or_else (ia_risk b) 0) = in_fingerprint i"
  shows "handle_alert sha t1' t2' wallet' b r' = (None, r')"
proof -
  have "seen_at (in_fingerprint i) t2 (rs_window r) r1"
    using execute_keeps [OF handled [OF assms(1)]] by (simp add: seen_at_def)
  then have "seen_at (in_fingerprint i) t2 (rs_window r) r'"
    unfolding assms(2) by (rule seen_run.run_inv_when) (use assms(3) in auto)
  then show ?thesis
    using assms(4,5) by (simp add: handle_alert_def is_duplicate_def seen_at_def Let_def)
qed

text \<open>
  An alert is announced once more than its playbook says: besides every step \<open>notify\<close> the incident
  is queued at the end, so a playbook with that step announces one incident twice.
\<close>

theorem notified_once_too_often:
  assumes "handle_alert sha t1 t2 wallet a r = (Some i, r')" and "rs_webhook r = Some (c # url)"
  shows "rs_queued r' = rs_queued r @
    replicate (Suc (length (filter (\<lambda>x. x = ''notify'') (pb_steps (rs_playbook r))))) (in_fingerprint i)"
proof -
  define fp where "fp = alert_fingerprint sha wallet (or_else (ia_type a) []) (or_else (ia_risk a) 0)"
  have "execute_playbook sha wallet fp a (r\<lparr>rs_seen := dict_set fp t2 (rs_seen r)\<rparr>) = (i, r')"
    using handled [OF assms(1)] by (simp add: fp_def)
  then show ?thesis
    using assms(2) foldl_run_step foldl_queued
    by (auto simp: execute_playbook_def incident_notify_def Let_def replicate_append_same)
qed

subsection \<open>The shipped playbook\<close>

definition shipped_playbook :: playbook where
  "shipped_playbook = \<lparr>pb_risk_threshold = 90, pb_mad_threshold = 5 / 100,
     pb_alert_types = [''high_risk_wallet'', ''emergency_drift''],
     pb_steps = [''snapshot_risk_score_history'', ''generate_preliminary_forensic_report'',
       ''create_db_incident_record'', ''post_webhook_notification''], pb_window = 3600\<rparr>"

text \<open>
  With the shipped playbook an incident carries no evidence: none of its actions has a name the
  responder knows, so no history is captured and no report is generated.
\<close>

theorem shipped_playbook_collects_nothing:
  assumes "rs_playbook r = shipped_playbook" and "handle_alert sha t1 t2 wallet a r = (Some i, r')"
  shows "in_history i = [] \<and> in_report i = None"
  using handled [OF assms(2)] assms(1)
  by (auto simp: execute_playbook_def shipped_playbook_def run_step_def Let_def)

definition demo_alert :: incident_alert where
  "demo_alert = \<lparr>ia_risk = Some 95, ia_mad = None, ia_type = Some ''drift''\<rparr>"

definition demo_responder :: "playbook \<Rightarrow> responder" where
  "demo_responder pb = \<lparr>rs_playbook = pb, rs_webhook = Some ''https://h'', rs_store = [], rs_window = 3600,
     rs_seen = [], rs_mode = DryRun, rs_queued = [], rs_audit = []\<rparr>"

lemma demo_handled:
  assumes "pb_risk_threshold pb < 95"
  shows "\<exists>i r'. handle_alert id 0 0 ''G'' demo_alert (demo_responder pb) = (Some i, r')"
proof -
  have "\<exists>i r'. apfst Some p = (Some i, r')" for p :: "incident \<times> responder" by (cases p) simp
  with assms show ?thesis
    by (simp add: handle_alert_def is_high_severity_def is_duplicate_def demo_alert_def demo_responder_def or_else_def Let_def)
qed

lemma repeated_alert_suppressed_witness:
  "\<exists>r'. handle_alert id 5 5 ''G'' demo_alert r' = (None, r')"
proof -
  obtain i r1 where h: "handle_alert id 0 0 ''G'' demo_alert (demo_responder shipped_playbook) = (Some i, r1)"
    using demo_handled [of shipped_playbook] by (auto simp: shipped_playbook_def)
  have "handle_alert id 5 5 ''G'' demo_alert r1 = (None, r1)"
    by (rule repeated_alert_suppressed [OF h, where es = "[]"])
      (use execute_keeps [OF handled [OF h]] in \<open>simp_all add: demo_responder_def\<close>)
  then show ?thesis ..
qed

lemma notified_once_too_often_witness:
  "\<exists>i r'. handle_alert id 0 0 ''G'' demo_alert (demo_responder (shipped_playbook\<lparr>pb_steps := [''notify'']\<rparr>)) = (Some i, r') \<and>
    length (rs_queued r') = 2"
proof -
  obtain i r' where h: "handle_alert id 0 0 ''G'' demo_alert (demo_responder (shipped_playbook\<lparr>pb_steps := [''notify'']\<rparr>)) =
      (Some i, r')"
    using demo_handled [of "shipped_playbook\<lparr>pb_steps := [''notify'']\<rparr>"] by (auto simp: shipped_playbook_def)
  from notified_once_too_often [OF h, of "CHR ''h''" "''ttps://h''"] h show ?thesis
    by (simp add: demo_responder_def)
qed

lemma shipped_playbook_collects_nothing_witness:
  "\<exists>i r'. handle_alert id 0 0 ''G'' demo_alert (demo_responder shipped_playbook) = (Some i, r') \<and> in_history i = []"
proof -
  obtain i r1 where h: "handle_alert id 0 0 ''G'' demo_alert (demo_responder shipped_playbook) = (Some i, r1)"
    using demo_handled [of shipped_playbook] by (auto simp: shipped_playbook_def)
  from shipped_playbook_collects_nothing [OF _ h] h show ?thesis by (simp add: demo_responder_def)
qed

end
