(* ===== verification/SecureAggregation.thy ===== *)
theory SecureAggregation
  imports Floats
begin

text \<open>
  Federated aggregation of gradients (\<open>detection/federated/secure_aggregation.py\<close>): the robust
  aggregation rules, and the secret sharing of the decryption key.

  Gradients are float vectors, a Byzantine participant may send infinities and NaN. NumPy's
  reductions are a record of operations with their documented results as laws; \<open>reference_np\<close>
  satisfies them. A mean is computed in double precision: the rounding error of
  \<open>n\<close> numbers of magnitude at most \<open>M\<close> is bounded by \<open>err n M\<close>, as long as \<open>n * M\<close> stays below the
  bound \<open>big\<close> at which sums overflow. The distances of Krum are computed exactly here. TenSEAL's keys are byte strings handed in from outside, and so are the random
  coefficients. The anomaly scores, which only inform people, need square roots and are left out.
\<close>

subsection \<open>The order of NumPy's sort\<close>

text \<open>Ascending, the infinities at the ends and NaN after everything.\<close>

instantiation xf :: linorder
begin

definition less_eq_xf :: "xf \<Rightarrow> xf \<Rightarrow> bool" where
  "less_eq_xf a b \<longleftrightarrow> b = NaN \<or> x_le a b"

definition less_xf :: "xf \<Rightarrow> xf \<Rightarrow> bool" where
  "less_xf a b \<longleftrightarrow> a \<le> b \<and> \<not> b \<le> (a::xf)"

instance
proof
  fix x y z :: xf
  show "x < y \<longleftrightarrow> x \<le> y \<and> \<not> y \<le> x" by (rule less_xf_def)
  show "x \<le> x" by (auto simp: less_eq_xf_def x_le_def)
  show "x \<le> y \<Longrightarrow> y \<le> z \<Longrightarrow> x \<le> z"
    by (cases x; cases y; cases z; auto simp: less_eq_xf_def x_le_def)
  show "x \<le> y \<Longrightarrow> y \<le> x \<Longrightarrow> x = y" by (cases x; cases y; auto simp: less_eq_xf_def x_le_def)
  show "x \<le> y \<or> y \<le> x" by (cases x; cases y; auto simp: less_eq_xf_def x_le_def)
qed

end

lemma xf_le [simp]:
  "Fin a \<le> Fin b \<longleftrightarrow> a \<le> b" "\<not> NaN \<le> Fin a" "\<not> PInf \<le> Fin a" "\<not> Fin a \<le> NInf" "x \<le> NaN"
  by (auto simp: less_eq_xf_def x_le_def)

lemma xf_between: "Fin a \<le> x \<Longrightarrow> x \<le> Fin b \<Longrightarrow> \<exists>r. x = Fin r \<and> a \<le> r \<and> r \<le> b"
  by (cases x) simp_all

subsection \<open>NumPy\<close>

record np_ops =
  np_sort :: "xf list \<Rightarrow> xf list"
  np_mean :: "xf list \<Rightarrow> xf"
  np_median :: "xf list \<Rightarrow> xf"
  np_argsort :: "xf list \<Rightarrow> nat list"
  np_floor_mul :: "nat \<Rightarrow> rat \<Rightarrow> int"

text \<open>
  \<open>np_floor_mul n f\<close> is \<open>int(np.floor(n * f))\<close>. Rounding to nearest is monotone and keeps integers, so
  the product never falls below the integers under it, and for a fraction below one half it stays
  below \<open>n / 2\<close>.
\<close>

definition np_laws :: "(nat \<Rightarrow> rat \<Rightarrow> rat) \<Rightarrow> rat \<Rightarrow> np_ops \<Rightarrow> bool" where
  "np_laws err big np \<longleftrightarrow>
     (\<forall>n M. 0 \<le> M \<longrightarrow> 0 \<le> err n M) \<and>
     (\<forall>xs. np_sort np xs = sort xs) \<and>
     (\<forall>rs M. rs \<noteq> [] \<and> (\<forall>r\<in>set rs. \<bar>r\<bar> \<le> M) \<and> of_nat (length rs) * M \<le> big \<longrightarrow>
        (\<exists>m. np_mean np (map Fin rs) = Fin m \<and> \<bar>m - sum_list rs / of_nat (length rs)\<bar> \<le> err (length rs) M)) \<and>
     (\<forall>xs. NaN \<in> set xs \<longrightarrow> np_mean np xs = NaN \<and> np_median np xs = NaN) \<and>
     (\<forall>xs n. length xs = 2 * n + 1 \<and> NaN \<notin> set xs \<longrightarrow> np_median np xs = sort xs ! n) \<and>
     (\<forall>xs n a b M. length xs = 2 * n \<and> 0 < n \<and> sort xs ! (n - 1) = Fin a \<and> sort xs ! n = Fin b \<and> NaN \<notin> set xs \<and>
        \<bar>a\<bar> \<le> M \<and> \<bar>b\<bar> \<le> M \<and> 2 * M \<le> big \<longrightarrow>
        (\<exists>m. np_median np xs = Fin m \<and> \<bar>m - (a + b) / 2\<bar> \<le> err 2 M)) \<and>
     (\<forall>xs. distinct (np_argsort np xs) \<and> set (np_argsort np xs) = {..<length xs} \<and>
        sorted (map ((!) xs) (np_argsort np xs))) \<and>
     (\<forall>n f. \<lfloor>of_nat n * f\<rfloor> \<le> np_floor_mul np n f \<and>
        (0 \<le> f \<and> f < 1 / 2 \<and> 0 < n \<longrightarrow> 2 * np_floor_mul np n f < int n))"

lemma np_lawsD:
  assumes "np_laws err big np"
  shows "0 \<le> M \<Longrightarrow> 0 \<le> err n M"
    and "np_sort np xs = sort xs"
    and "rs \<noteq> [] \<Longrightarrow> \<forall>r\<in>set rs. \<bar>r\<bar> \<le> M \<Longrightarrow> of_nat (length rs) * M \<le> big \<Longrightarrow>
      \<exists>m. np_mean np (map Fin rs) = Fin m \<and> \<bar>m - sum_list rs / of_nat (length rs)\<bar> \<le> err (length rs) M"
    and "NaN \<in> set xs \<Longrightarrow> np_mean np xs = NaN \<and> np_median np xs = NaN"
    and "length xs = 2 * n + 1 \<Longrightarrow> NaN \<notin> set xs \<Longrightarrow> np_median np xs = sort xs ! n"
    and "distinct (np_argsort np xs)" and "set (np_argsort np xs) = {..<length xs}"
    and "sorted (map ((!) xs) (np_argsort np xs))"
    and "\<lfloor>of_nat n * f\<rfloor> \<le> np_floor_mul np n f"
    and "0 \<le> f \<Longrightarrow> f < 1 / 2 \<Longrightarrow> 0 < n \<Longrightarrow> 2 * np_floor_mul np n f < int n"
  using assms unfolding np_laws_def by simp_all

lemma np_median_even:
  assumes "np_laws err big np" and "length xs = 2 * n" "0 < n" "sort xs ! (n - 1) = Fin a" "sort xs ! n = Fin b"
    "NaN \<notin> set xs" "\<bar>a\<bar> \<le> M" "\<bar>b\<bar> \<le> M" "2 * M \<le> big"
  shows "\<exists>m. np_median np xs = Fin m \<and> \<bar>m - (a + b) / 2\<bar> \<le> err 2 M"
  using assms unfolding np_laws_def by metis

lemma trim_count:
  assumes "0 \<le> f" and "f < 1 / (2::rat)" and "0 < (n::nat)"
  shows "2 * \<lfloor>of_nat n * f\<rfloor> < int n"
proof -
  have "of_int \<lfloor>of_nat n * f\<rfloor> \<le> of_nat n * f" by simp
  also have "\<dots> < of_nat n * (1 / 2)" using assms by (intro mult_strict_left_mono) auto
  finally have "2 * of_int \<lfloor>of_nat n * f\<rfloor> < (of_int (int n) :: rat)" by simp
  then show ?thesis by (metis of_int_less_iff of_int_mult of_int_numeral)
qed

definition x_scale :: "nat \<Rightarrow> xf \<Rightarrow> xf" where
  "x_scale n x = (case x_div x (Fin (of_nat n)) of Some y \<Rightarrow> y | None \<Rightarrow> NaN)"

definition reference_np :: np_ops where
  "reference_np = \<lparr>np_sort = sort,
     np_mean = (\<lambda>xs. x_scale (length xs) (foldr x_add xs (Fin 0))),
     np_median = (\<lambda>xs. if NaN \<in> set xs \<or> xs = [] then NaN
        else let s = sort xs; n = length xs div 2 in
          if odd (length xs) then s ! n else x_scale 2 (x_add (s ! (n - 1)) (s ! n))),
     np_argsort = (\<lambda>xs. sort_key ((!) xs) [0..<length xs]),
     np_floor_mul = (\<lambda>n f. \<lfloor>of_nat n * f\<rfloor>)\<rparr>"

lemma sum_Fin: "foldr x_add (map Fin rs) (Fin 0) = Fin (sum_list rs)"
  by (induction rs) simp_all

lemma sum_NaN: "NaN \<in> set xs \<Longrightarrow> foldr x_add xs a = NaN"
proof (induction xs)
  case (Cons x xs)
  have nan: "x_add y NaN = NaN" for y by (cases y) simp_all
  from Cons show ?case by (auto simp: nan)
qed simp

lemma reference_np_laws: "np_laws (\<lambda>_ _. 0) big reference_np"
  unfolding np_laws_def
proof (intro conjI allI impI)
  fix xs :: "xf list" and n :: nat and a b M
  assume "length xs = 2 * n \<and> 0 < n \<and> sort xs ! (n - 1) = Fin a \<and> sort xs ! n = Fin b \<and> NaN \<notin> set xs \<and>
    \<bar>a\<bar> \<le> M \<and> \<bar>b\<bar> \<le> M \<and> 2 * M \<le> big"
  then show "\<exists>m. np_median reference_np xs = Fin m \<and> \<bar>m - (a + b) / 2\<bar> \<le> 0"
    by (intro exI [of _ "(a + b) / 2"]) (auto simp: reference_np_def x_scale_def Let_def)
next
  fix n :: nat and f :: rat assume "0 \<le> f \<and> f < 1 / 2 \<and> 0 < n"
  then show "2 * np_floor_mul reference_np n f < int n" using trim_count by (simp add: reference_np_def)
qed (auto simp: reference_np_def sum_Fin sum_NaN x_scale_def Let_def)

subsection \<open>Aggregation rules\<close>

datatype strategy = Mean | TrimmedMean | Median | Krum

record agg_config =
  ag_strategy :: strategy
  ag_trim_fraction :: rat
  ag_n_byzantine :: int

datatype agg_error = BadTrimFraction | BadByzantine | NoGradients | DimensionMismatch

definition agg_config_check :: "strategy \<Rightarrow> rat \<Rightarrow> int \<Rightarrow> agg_error + agg_config" where
  "agg_config_check strategy trim_fraction n_byzantine =
     (if \<not> (0 \<le> trim_fraction \<and> trim_fraction < 1 / 2) then Inl BadTrimFraction
      else if n_byzantine < 0 then Inl BadByzantine
      else Inr \<lparr>ag_strategy = strategy, ag_trim_fraction = trim_fraction, ag_n_byzantine = n_byzantine\<rparr>)"

type_synonym gradient = "xf list"

definition as_matrix :: "gradient list \<Rightarrow> agg_error + gradient list" where
  "as_matrix gradients =
     (if gradients = [] then Inl NoGradients
      else if list_ex (\<lambda>g. length g \<noteq> length (hd gradients)) gradients then Inl DimensionMismatch
      else Inr gradients)"

text \<open>A reduction along axis 0.\<close>

definition column :: "gradient list \<Rightarrow> nat \<Rightarrow> xf list" where
  "column matrix j = map (\<lambda>g. g ! j) matrix"

definition axis0 :: "(xf list \<Rightarrow> xf) \<Rightarrow> nat \<Rightarrow> gradient list \<Rightarrow> gradient" where
  "axis0 f d matrix = map (\<lambda>j. f (column matrix j)) [0..<d]"

fun x_square :: "xf \<Rightarrow> xf" where
  "x_square (Fin a) = Fin (a * a)"
| "x_square NaN = NaN"
| "x_square _ = PInf"

definition sq_dist :: "gradient \<Rightarrow> gradient \<Rightarrow> xf" where
  "sq_dist g h = foldr x_add (map2 (\<lambda>a b. x_square (x_sub a b)) g h) (Fin 0)"

definition krum_keep :: "int \<Rightarrow> gradient list \<Rightarrow> int" where
  "krum_keep n_byzantine matrix = int (length matrix) - n_byzantine - 2"

text \<open>The diagonal of the distance matrix is infinite.\<close>

definition krum_score :: "np_ops \<Rightarrow> int \<Rightarrow> gradient list \<Rightarrow> nat \<Rightarrow> xf" where
  "krum_score np n_byzantine matrix i =
     (let row = map (\<lambda>j. if j = i then PInf else sq_dist (matrix ! i) (matrix ! j)) [0..<length matrix];
          n_neighbours = max 1 (krum_keep n_byzantine matrix)
      in foldr x_add (take (nat n_neighbours) (np_sort np row)) (Fin 0))"

definition krum_selected :: "np_ops \<Rightarrow> int \<Rightarrow> gradient list \<Rightarrow> nat list" where
  "krum_selected np n_byzantine matrix =
     take (nat (krum_keep n_byzantine matrix))
       (np_argsort np (map (krum_score np n_byzantine matrix) [0..<length matrix]))"

definition krum :: "np_ops \<Rightarrow> nat \<Rightarrow> int \<Rightarrow> gradient list \<Rightarrow> gradient" where
  "krum np d n_byzantine matrix =
     (if krum_keep n_byzantine matrix < 1 then axis0 (np_median np) d matrix
      else axis0 (np_mean np) d (map ((!) matrix) (krum_selected np n_byzantine matrix)))"

definition trimmed :: "np_ops \<Rightarrow> nat \<Rightarrow> xf list \<Rightarrow> xf" where
  "trimmed np k xs = np_mean np (drop k (take (length xs - k) (np_sort np xs)))"

definition aggregate_gradients :: "np_ops \<Rightarrow> gradient list \<Rightarrow> agg_config option \<Rightarrow> agg_error + gradient" where
  "aggregate_gradients np gradients config =
     (let c = (case config of Some c \<Rightarrow> c
                | None \<Rightarrow> \<lparr>ag_strategy = Mean, ag_trim_fraction = 1 / 10, ag_n_byzantine = 0\<rparr>) in
      case as_matrix gradients of Inl e \<Rightarrow> Inl e
      | Inr matrix \<Rightarrow>
          let n = length matrix; d = length (hd matrix) in
          Inr (case ag_strategy c of
             Mean \<Rightarrow> axis0 (np_mean np) d matrix
           | Median \<Rightarrow> axis0 (np_median np) d matrix
           | TrimmedMean \<Rightarrow>
               (let k = nat (np_floor_mul np n (ag_trim_fraction c)) in
                if k = 0 then axis0 (np_mean np) d matrix else axis0 (trimmed np k) d matrix)
           | Krum \<Rightarrow> krum np d (ag_n_byzantine c) matrix))"

subsection \<open>Robustness\<close>

text \<open>
  Order statistics: with at most \<open>k\<close> elements outside \<open>[lo, hi]\<close>, the element of the sorted list at a
  position with \<open>k\<close> elements on each side is inside.
\<close>

definition outliers :: "rat \<Rightarrow> rat \<Rightarrow> xf list \<Rightarrow> nat" where
  "outliers lo hi xs = length (filter (\<lambda>x. \<not> (Fin lo \<le> x \<and> x \<le> Fin hi)) xs)"

lemma filter_sort_length: "length (filter P (sort xs)) = length (filter P xs)"
  by (simp add: filter_sort)

lemma count_prefix:
  assumes "i < length s" and "\<forall>m\<le>i. P (s ! m)"
  shows "i < length (filter P s)"
proof -
  have "i < length (filter P (take (Suc i) s))" using assms by (simp add: filter_True all_set_conv_all_nth)
  also have "\<dots> \<le> length (filter P s)"
    by (subst (2) append_take_drop_id [of "Suc i" s, symmetric]) (simp only: filter_append length_append le_add1)
  finally show ?thesis .
qed

lemma count_suffix:
  assumes "i < length s" and "\<forall>m. i \<le> m \<and> m < length s \<longrightarrow> P (s ! m)"
  shows "length s - i \<le> length (filter P s)"
proof -
  have "length s - i = length (filter P (drop i s))" using assms by (simp add: filter_True all_set_conv_all_nth)
  also have "\<dots> \<le> length (filter P s)"
    by (subst (2) append_take_drop_id [of i s, symmetric]) (simp only: filter_append length_append le_add2)
  finally show ?thesis .
qed

lemma length_filter_mono: "(\<And>x. P x \<Longrightarrow> Q x) \<Longrightarrow> length (filter P xs) \<le> length (filter Q xs)"
  by (induction xs) auto

lemma order_statistic:
  assumes "outliers lo hi xs \<le> k" and "k \<le> i" and "i + k < length xs"
  shows "Fin lo \<le> sort xs ! i \<and> sort xs ! i \<le> Fin hi"
proof (intro conjI; rule ccontr)
  let ?s = "sort xs"
  have i: "i < length ?s" using assms by simp
  assume n: "\<not> Fin lo \<le> ?s ! i"
  have "\<forall>m\<le>i. \<not> Fin lo \<le> ?s ! m"
    using n i sorted_nth_mono [OF sorted_sort] order_trans by blast
  from count_prefix [OF i this] have "i < length (filter (\<lambda>x. \<not> Fin lo \<le> x) ?s)" .
  also have "\<dots> \<le> outliers lo hi xs"
    unfolding outliers_def filter_sort_length by (rule length_filter_mono) simp
  finally show False using assms by simp
next
  let ?s = "sort xs"
  have i: "i < length ?s" using assms by simp
  assume n: "\<not> ?s ! i \<le> Fin hi"
  have "\<forall>m. i \<le> m \<and> m < length ?s \<longrightarrow> \<not> ?s ! m \<le> Fin hi"
    using n i sorted_nth_mono [OF sorted_sort] order_trans by blast
  from count_suffix [OF i this] have "length xs - i \<le> length (filter (\<lambda>x. \<not> x \<le> Fin hi) ?s)" by simp
  also have "\<dots> \<le> outliers lo hi xs"
    unfolding outliers_def filter_sort_length by (rule length_filter_mono) simp
  finally show False using assms by simp
qed

text \<open>The larger end of a box in absolute value, and the box widened by an error.\<close>

definition box_size :: "rat \<Rightarrow> rat \<Rightarrow> rat" where
  "box_size lo hi = max \<bar>lo\<bar> \<bar>hi\<bar>"

lemma in_interval_size: "lo \<le> r \<Longrightarrow> r \<le> hi \<Longrightarrow> \<bar>r\<bar> \<le> box_size lo hi"
  by (auto simp: box_size_def abs_le_iff max_def)

definition widened :: "rat \<Rightarrow> rat \<Rightarrow> rat \<Rightarrow> rat \<Rightarrow> bool" where
  "widened e lo hi r \<longleftrightarrow> lo - e \<le> r \<and> r \<le> hi + e"

lemma widenedI: "\<bar>r - q\<bar> \<le> e \<Longrightarrow> lo \<le> q \<Longrightarrow> q \<le> hi \<Longrightarrow> widened e lo hi r"
  by (auto simp: widened_def abs_le_iff)

lemma mean_between:
  assumes "np_laws err big np" and "xs \<noteq> []" and "\<forall>x\<in>set xs. Fin lo \<le> x \<and> x \<le> Fin hi"
    and "of_nat (length xs) * box_size lo hi \<le> big"
  shows "\<exists>r. np_mean np xs = Fin r \<and> widened (err (length xs) (box_size lo hi)) lo hi r"
proof -
  have "\<exists>rs. xs = map Fin rs \<and> (\<forall>r\<in>set rs. lo \<le> r \<and> r \<le> hi)"
    using assms(3)
  proof (induction xs)
    case (Cons x xs)
    then obtain r rs where "x = Fin r" "lo \<le> r" "r \<le> hi" "xs = map Fin rs" "\<forall>r\<in>set rs. lo \<le> r \<and> r \<le> hi"
      using xf_between [of lo x hi] by auto
    then show ?case by (intro exI [of _ "r # rs"]) simp
  qed simp
  then obtain rs where rs: "xs = map Fin rs" "\<forall>r\<in>set rs. lo \<le> r \<and> r \<le> hi" by blast
  have "of_nat (length rs) * lo \<le> sum_list rs \<and> sum_list rs \<le> of_nat (length rs) * hi"
    using rs(2) by (induction rs) (auto simp: algebra_simps)
  moreover have "0 < length rs" using assms(2) rs by simp
  ultimately have mean: "lo \<le> sum_list rs / of_nat (length rs)" "sum_list rs / of_nat (length rs) \<le> hi"
    by (simp_all add: field_simps)
  have "\<forall>r\<in>set rs. \<bar>r\<bar> \<le> box_size lo hi" using rs(2) in_interval_size by blast
  moreover have "rs \<noteq> []" "of_nat (length rs) * box_size lo hi \<le> big" using assms(2,4) rs(1) by simp_all
  ultimately obtain m where "np_mean np (map Fin rs) = Fin m"
      "\<bar>m - sum_list rs / of_nat (length rs)\<bar> \<le> err (length rs) (box_size lo hi)"
    using np_lawsD(3) [OF assms(1)] by blast
  with widenedI [OF _ mean] show ?thesis using rs(1) by auto
qed

lemma trimmed_between:
  assumes "np_laws err big np" and "outliers lo hi xs \<le> k" and "2 * k < length xs"
    and "of_nat (length xs) * box_size lo hi \<le> big"
  shows "\<exists>r. trimmed np k xs = Fin r \<and> widened (err (length xs - 2 * k) (box_size lo hi)) lo hi r"
proof -
  let ?ys = "drop k (take (length xs - k) (np_sort np xs))"
  have s: "np_sort np xs = sort xs" by (rule np_lawsD(2) [OF assms(1)])
  have len: "length ?ys = length xs - 2 * k" by (simp add: s)
  have "\<exists>r. np_mean np ?ys = Fin r \<and> widened (err (length ?ys) (box_size lo hi)) lo hi r"
  proof (rule mean_between [OF assms(1)])
    show "?ys \<noteq> []" using assms(3) by (simp add: s)
    show "\<forall>x\<in>set ?ys. Fin lo \<le> x \<and> x \<le> Fin hi"
      unfolding all_set_conv_all_nth
    proof (intro allI impI)
      fix i assume "i < length ?ys"
      then have "k + i + k < length xs" by (simp add: s)
      from order_statistic [OF assms(2) _ this] \<open>k + i + k < length xs\<close>
      show "Fin lo \<le> ?ys ! i \<and> ?ys ! i \<le> Fin hi" by (simp add: s)
    qed
    have "of_nat (length ?ys) * box_size lo hi \<le> of_nat (length xs) * box_size lo hi"
      unfolding len by (intro mult_right_mono) (auto simp: box_size_def)
    with assms(4) show "of_nat (length ?ys) * box_size lo hi \<le> big" by (rule order_trans [rotated])
  qed
  then show ?thesis by (simp only: trimmed_def len)
qed

lemma median_between:
  assumes laws: "np_laws err big np" and "2 * outliers lo hi xs < length xs" and "NaN \<notin> set xs"
    and big: "2 * box_size lo hi \<le> big"
  shows "\<exists>r. np_median np xs = Fin r \<and> widened (err 2 (box_size lo hi)) lo hi r"
proof (cases "even (length xs)")
  case True
  then obtain n where n: "length xs = 2 * n" by (rule evenE)
  have "Fin lo \<le> sort xs ! i \<and> sort xs ! i \<le> Fin hi" if "i = n - 1 \<or> i = n" for i
    using that assms(2) n by (intro order_statistic [of lo hi xs "outliers lo hi xs"]) auto
  then obtain a b where ab: "sort xs ! (n - 1) = Fin a" "sort xs ! n = Fin b" "lo \<le> a" "a \<le> hi" "lo \<le> b" "b \<le> hi"
    using xf_between by metis
  have "0 < n" using assms(2) n by simp
  from np_median_even [OF laws n this ab(1,2) assms(3) in_interval_size [OF ab(3,4)] in_interval_size [OF ab(5,6)] big]
  obtain m where m: "np_median np xs = Fin m" "\<bar>m - (a + b) / 2\<bar> \<le> err 2 (box_size lo hi)" by blast
  moreover have "lo \<le> (a + b) / 2" "(a + b) / 2 \<le> hi" using ab by simp_all
  ultimately show ?thesis using widenedI by blast
next
  case False
  then obtain n where n: "length xs = 2 * n + 1" by (metis oddE)
  then have "Fin lo \<le> sort xs ! n \<and> sort xs ! n \<le> Fin hi"
    using assms(2) by (intro order_statistic [of lo hi xs "outliers lo hi xs"]) auto
  then obtain r where r: "sort xs ! n = Fin r" "lo \<le> r" "r \<le> hi" using xf_between by blast
  have "0 \<le> err 2 (box_size lo hi)" using np_lawsD(1) [OF laws] by (simp add: box_size_def)
  then have "widened (err 2 (box_size lo hi)) lo hi r" using widenedI [OF _ r(2,3), of r] by simp
  then show ?thesis using np_lawsD(5) [OF laws n assms(3)] r(1) by auto
qed

text \<open>A gradient all of whose coordinates lie in a box; the box of the honest participants.\<close>

definition in_box :: "(nat \<Rightarrow> rat) \<Rightarrow> (nat \<Rightarrow> rat) \<Rightarrow> gradient \<Rightarrow> bool" where
  "in_box lo hi g = list_all (\<lambda>j. Fin (lo j) \<le> g ! j \<and> g ! j \<le> Fin (hi j)) [0..<length g]"

definition strangers :: "(nat \<Rightarrow> rat) \<Rightarrow> (nat \<Rightarrow> rat) \<Rightarrow> gradient list \<Rightarrow> nat" where
  "strangers lo hi gs = length (filter (\<lambda>g. \<not> in_box lo hi g) gs)"

lemma as_matrix_ok: "as_matrix gs = Inr m \<Longrightarrow> m = gs \<and> gs \<noteq> [] \<and> (\<forall>g\<in>set gs. length g = length (hd gs))"
  by (clarsimp simp only: as_matrix_def list_ex_iff split: if_splits) blast

lemma column_outliers:
  assumes "\<forall>g\<in>set gs. length g = d" and "j < d"
  shows "outliers (lo j) (hi j) (column gs j) \<le> strangers lo hi gs"
proof -
  have out: "\<not> in_box lo hi g" if "g \<in> set gs" "\<not> (Fin (lo j) \<le> g ! j \<and> g ! j \<le> Fin (hi j))" for g
    using that assms by (auto simp: in_box_def list_all_iff)
  have "outliers (lo j) (hi j) (column gs j) = length (filter (\<lambda>g. \<not> (Fin (lo j) \<le> g ! j \<and> g ! j \<le> Fin (hi j))) gs)"
    by (simp add: outliers_def column_def filter_map o_def)
  also have "\<dots> = length (filter (\<lambda>g. g \<in> set gs \<and> \<not> (Fin (lo j) \<le> g ! j \<and> g ! j \<le> Fin (hi j))) gs)"
    by (intro arg_cong [where f = length] filter_cong) auto
  also have "\<dots> \<le> strangers lo hi gs"
    unfolding strangers_def by (rule length_filter_mono) (use out in blast)
  finally show ?thesis .
qed

definition near_box :: "(nat \<Rightarrow> rat) \<Rightarrow> (nat \<Rightarrow> rat) \<Rightarrow> (rat \<Rightarrow> rat) \<Rightarrow> gradient \<Rightarrow> bool" where
  "near_box lo hi err g =
     list_all (\<lambda>j. Fin (lo j - err (box_size (lo j) (hi j))) \<le> g ! j \<and>
       g ! j \<le> Fin (hi j + err (box_size (lo j) (hi j)))) [0..<length g]"

lemma near_box_exact: "near_box lo hi (\<lambda>_. 0) g = in_box lo hi g"
  by (simp add: near_box_def in_box_def)

lemma axis0_box:
  assumes "\<And>j. j < d \<Longrightarrow> \<exists>r. f (column m j) = Fin r \<and>
    widened (err (box_size (lo j) (hi j))) (lo j) (hi j) r"
  shows "length (axis0 f d m) = d \<and> near_box lo hi err (axis0 f d m)"
  using assms by (fastforce simp: axis0_def near_box_def widened_def list_all_iff)

text \<open>
  C37. The trimmed mean tolerates what it trims: when the participants outside the box of the honest
  gradients are at most the number of values dropped on each side, every coordinate of the aggregate
  is a number inside the box, up to the rounding of a mean of the values kept, whatever those
  participants send, infinities and NaN included. The box must be small enough that the sums of
  values in it do not overflow.
\<close>

theorem trimmed_mean_robust:
  assumes "np_laws err big np" and "as_matrix gs = Inr m" and "agg_config_check TrimmedMean f b = Inr c"
    and "strangers lo hi gs \<le> nat \<lfloor>of_nat (length gs) * f\<rfloor>"
    and "\<forall>j < length (hd gs). of_nat (length gs) * box_size (lo j) (hi j) \<le> big"
  shows "\<exists>v. aggregate_gradients np gs (Some c) = Inr v \<and> length v = length (hd gs) \<and>
    near_box lo hi (err (length gs - 2 * nat (np_floor_mul np (length gs) f))) v"
proof -
  let ?k = "nat (np_floor_mul np (length gs) f)"
  have m: "m = gs" "gs \<noteq> []" "\<forall>g\<in>set gs. length g = length (hd gs)" using as_matrix_ok [OF assms(2)] by blast+
  have c: "ag_strategy c = TrimmedMean" "ag_trim_fraction c = f" "0 \<le> f" "f < 1 / 2"
    using assms(3) by (auto simp: agg_config_check_def split: if_splits)
  have "2 * np_floor_mul np (length gs) f < int (length gs)"
    using np_lawsD(10) [OF assms(1) c(3,4)] m(2) by simp
  moreover have "0 < length gs" using m(2) by simp
  ultimately have k: "2 * ?k < length gs" by (cases "0 \<le> np_floor_mul np (length gs) f") auto
  have "strangers lo hi gs \<le> ?k"
    using assms(4) nat_mono [OF np_lawsD(9) [OF assms(1)]] by (rule order_trans)
  then have o: "outliers (lo j) (hi j) (column gs j) \<le> ?k" if "j < length (hd gs)" for j
    using column_outliers [OF m(3) that, of lo hi] by linarith
  have len: "length (column gs j) = length gs" for j by (simp add: column_def)
  show ?thesis
  proof (cases "?k = 0")
    case True
    have b: "\<exists>r. np_mean np (column gs j) = Fin r \<and>
        widened (err (length gs) (box_size (lo j) (hi j))) (lo j) (hi j) r" if "j < length (hd gs)" for j
      unfolding len [of j, symmetric]
    proof (rule mean_between [OF assms(1)])
      show "column gs j \<noteq> []" using m(2) by (simp add: column_def)
      show "\<forall>x\<in>set (column gs j). Fin (lo j) \<le> x \<and> x \<le> Fin (hi j)"
        using o [OF that] True by (simp add: outliers_def filter_empty_conv)
      show "of_nat (length (column gs j)) * box_size (lo j) (hi j) \<le> big"
        using assms(5) that by (simp add: len)
    qed
    have "length (axis0 (np_mean np) (length (hd gs)) gs) = length (hd gs) \<and>
        near_box lo hi (err (length gs)) (axis0 (np_mean np) (length (hd gs)) gs)"
      by (rule axis0_box) (rule b)
    then show ?thesis
      using True assms(2) m(1) c by (simp add: aggregate_gradients_def Let_def)
  next
    case False
    have b: "\<exists>r. trimmed np ?k (column gs j) = Fin r \<and>
        widened (err (length gs - 2 * ?k) (box_size (lo j) (hi j))) (lo j) (hi j) r" if "j < length (hd gs)" for j
      using o [OF that] k assms(5) that trimmed_between [OF assms(1), of "lo j" "hi j" "column gs j" ?k]
      by (simp add: len)
    have "length (axis0 (trimmed np ?k) (length (hd gs)) gs) = length (hd gs) \<and>
        near_box lo hi (err (length gs - 2 * ?k)) (axis0 (trimmed np ?k) (length (hd gs)) gs)"
      by (rule axis0_box) (rule b)
    then show ?thesis
      using False assms(2) m(1) c by (simp add: aggregate_gradients_def Let_def)
  qed
qed

definition demo_gradients :: "gradient list" where
  "demo_gradients = [[Fin 1], [Fin 2], [NaN], [Fin 3], [Fin 2]]"

lemma trimmed_mean_robust_witness:
  "\<exists>v. aggregate_gradients reference_np demo_gradients
     (Some \<lparr>ag_strategy = TrimmedMean, ag_trim_fraction = 1 / 5, ag_n_byzantine = 0\<rparr>) = Inr v \<and>
   length v = length (hd demo_gradients) \<and> near_box (\<lambda>_. 1) (\<lambda>_. 3) (\<lambda>_. 0) v"
  by (rule trimmed_mean_robust [OF reference_np_laws, of demo_gradients _ "1 / 5" 0 _ _ _ 15])
    (simp_all add: as_matrix_def demo_gradients_def agg_config_check_def strangers_def in_box_def box_size_def)

text \<open>
  The coordinate-wise median stays in the box of the honest gradients as long as fewer than half of
  the participants are outside it and none of them sends a NaN, up to the rounding of a mean of two.
\<close>

theorem median_robust:
  assumes "np_laws err big np" and "as_matrix gs = Inr m" and "ag_strategy c = Median"
    and "2 * strangers lo hi gs < length gs" and "\<forall>g\<in>set gs. NaN \<notin> set g"
    and "\<forall>j < length (hd gs). 2 * box_size (lo j) (hi j) \<le> big"
  shows "\<exists>v. aggregate_gradients np gs (Some c) = Inr v \<and> length v = length (hd gs) \<and> near_box lo hi (err 2) v"
proof -
  have m: "m = gs" "gs \<noteq> []" "\<forall>g\<in>set gs. length g = length (hd gs)" using as_matrix_ok [OF assms(2)] by blast+
  have b: "\<exists>r. np_median np (column gs j) = Fin r \<and>
      widened (err 2 (box_size (lo j) (hi j))) (lo j) (hi j) r" if j: "j < length (hd gs)" for j
  proof (rule median_between [OF assms(1)])
    show "2 * outliers (lo j) (hi j) (column gs j) < length (column gs j)"
      using column_outliers [OF m(3) j, of lo hi] assms(4) by (simp add: column_def)
    show "NaN \<notin> set (column gs j)" proof
      assume "NaN \<in> set (column gs j)"
      then obtain g where g: "g \<in> set gs" "NaN = g ! j" by (auto simp: column_def)
      then have "j < length g" using m(3) j by auto
      then show False using g assms(5) nth_mem by metis
    qed
    show "2 * box_size (lo j) (hi j) \<le> big" using assms(6) j by simp
  qed
  have "length (axis0 (np_median np) (length (hd gs)) gs) = length (hd gs) \<and> near_box lo hi (err 2) (axis0 (np_median np) (length (hd gs)) gs)"
    by (rule axis0_box) (rule b)
  then show ?thesis
    using assms(2,3) m(1) by (simp add: aggregate_gradients_def Let_def)
qed

lemma median_robust_witness:
  "\<exists>v. aggregate_gradients reference_np [[Fin 1], [PInf], [Fin 3]]
     (Some \<lparr>ag_strategy = Median, ag_trim_fraction = 0, ag_n_byzantine = 0\<rparr>) = Inr v \<and>
   length v = length (hd [[Fin 1], [PInf], [Fin 3]]) \<and> near_box (\<lambda>_. 1) (\<lambda>_. 3) (\<lambda>_. 0) v"
  by (rule median_robust [OF reference_np_laws, of _ _ _ _ _ 6])
    (simp_all add: as_matrix_def strangers_def in_box_def box_size_def)

text \<open>
  One participant whose gradient has a NaN makes that coordinate of the mean and of the median NaN:
  nothing checks the submitted values.
\<close>

theorem one_nan_poisons:
  assumes "np_laws err big np" and "as_matrix gs = Inr m" and "ag_strategy c \<in> {Mean, Median}"
    and "g \<in> set gs" and "j < length g" and "g ! j = NaN"
  shows "\<exists>v. aggregate_gradients np gs (Some c) = Inr v \<and> v ! j = NaN"
proof -
  have m: "m = gs" "gs \<noteq> []" "length g = length (hd gs)" using as_matrix_ok [OF assms(2)] assms(4) by blast+
  have "NaN \<in> set (column gs j)" using assms(4,6) by (force simp: column_def)
  then have "np_mean np (column gs j) = NaN" "np_median np (column gs j) = NaN"
    using np_lawsD(4) [OF assms(1)] by blast+
  then have n: "axis0 (np_mean np) (length g) gs ! j = NaN" "axis0 (np_median np) (length g) gs ! j = NaN"
    using assms(5) by (simp_all add: axis0_def)
  have "m = gs" "length (hd m) = length g" using m by simp_all
  then show ?thesis
    using assms(2,3) n by (auto simp: aggregate_gradients_def Let_def)
qed

lemma one_nan_poisons_witness:
  "\<exists>v. aggregate_gradients reference_np demo_gradients
     (Some \<lparr>ag_strategy = Median, ag_trim_fraction = 0, ag_n_byzantine = 0\<rparr>) = Inr v \<and> v ! 0 = NaN"
  by (rule one_nan_poisons [OF reference_np_laws, of _ demo_gradients _ "[NaN]"])
    (simp_all add: as_matrix_def demo_gradients_def)

text \<open>
  Krum keeps exactly \<open>n - f - 2\<close> participants, the ones with the smallest scores: no participant left
  out scores below one that was kept.
\<close>

theorem krum_keeps_closest:
  assumes "np_laws err big np" and "0 \<le> b" and "1 \<le> krum_keep b gs"
    and "i \<in> set (krum_selected np b gs)" and "j < length gs" and "j \<notin> set (krum_selected np b gs)"
  shows "krum_score np b gs i \<le> krum_score np b gs j \<and> length (krum_selected np b gs) = nat (krum_keep b gs) \<and>
    distinct (krum_selected np b gs)"
proof -
  let ?s = "map (krum_score np b gs) [0..<length gs]"
  let ?a = "np_argsort np ?s" and ?k = "nat (krum_keep b gs)"
  have a: "distinct ?a" "set ?a = {..<length gs}" "sorted (map ((!) ?s) ?a)"
    using np_lawsD(6-8) [OF assms(1), of ?s] by simp_all
  have len: "length ?a = length gs" using distinct_card [OF a(1)] a(2) by simp
  have sel: "krum_selected np b gs = take ?k ?a" by (simp add: krum_selected_def)
  have "j \<in> set ?a" using assms(5) a(2) by simp
  then have "j \<in> set (drop ?k ?a)" using assms(6) unfolding sel
    by (metis append_take_drop_id Un_iff set_append)
  moreover have "sorted (map ((!) ?s) (take ?k ?a) @ map ((!) ?s) (drop ?k ?a))"
    using a(3) by (metis append_take_drop_id map_append)
  ultimately have "?s ! i \<le> ?s ! j" using assms(4) unfolding sel sorted_append by auto
  moreover have "i < length gs" using assms(4) a(2) set_take_subset unfolding sel by fastforce
  moreover have "?k \<le> length gs" using assms(2) by (simp add: krum_keep_def)
  ultimately show ?thesis using assms(5) len a(1) by (simp add: sel)
qed

subsection \<open>Sharing the decryption key\<close>

definition sss_prime :: int where
  "sss_prime = 2 ^ 127 - 1"

text \<open>Python's \<open>pow\<close> with a modulus, by repeated squaring.\<close>

fun pow_mod :: "int \<Rightarrow> nat \<Rightarrow> int \<Rightarrow> int" where
  "pow_mod b e m =
     (if e = 0 then 1 mod m
      else if even e then pow_mod (b * b mod m) (e div 2) m
      else b * pow_mod (b * b mod m) (e div 2) m mod m)"

declare pow_mod.simps [simp del]

lemma pow_mod: "pow_mod b e m = b ^ e mod m"
proof (induction b e m rule: pow_mod.induct)
  case (1 b e m)
  have sq: "(b * b mod m) ^ (e div 2) mod m = b ^ (2 * (e div 2)) mod m"
    by (simp add: power_mod power_mult power2_eq_square)
  show ?case
  proof (cases "e = 0 \<or> even e")
    case True
    then show ?thesis using 1 sq by (subst pow_mod.simps) auto
  next
    case False
    then have "e = Suc (2 * (e div 2))" by presburger
    then have "b ^ e = b * b ^ (2 * (e div 2))" using power_Suc [of b "2 * (e div 2)"] by argo
    moreover have "pow_mod b e m = b * pow_mod (b * b mod m) (e div 2) m mod m"
      using False by (subst pow_mod.simps) argo
    moreover have "pow_mod (b * b mod m) (e div 2) m = b ^ (2 * (e div 2)) mod m"
      using 1 sq False by argo
    ultimately show ?thesis using mod_mult_right_eq by metis
  qed
qed

text \<open>
  The shares of a key. \<open>rnd i\<close> are the \<open>k - 1\<close> random coefficients drawn for byte \<open>i\<close>. A share of a byte
  is a residue of 127 bits; what is handed out is its low byte.
\<close>

definition sss_value :: "int \<Rightarrow> int list \<Rightarrow> nat \<Rightarrow> int" where
  "sss_value byte coeffs x =
     sum_list (map (\<lambda>(i, c). c * pow_mod (int x) i sss_prime) (enumerate 0 (byte # coeffs))) mod sss_prime"

definition sss_split :: "int list \<Rightarrow> (nat \<Rightarrow> int list) \<Rightarrow> nat \<Rightarrow> (int \<times> int list) list" where
  "sss_split secret_bytes rnd n =
     map (\<lambda>x. (int x, map (\<lambda>(idx, b). sss_value b (rnd idx) x mod 256) (enumerate 0 secret_bytes))) [1..<Suc n]"

definition lagrange_at_zero :: "(int \<times> int) list \<Rightarrow> int" where
  "lagrange_at_zero points =
     foldl (\<lambda>secret (i, xi, yi).
        let (num, den) = foldl (\<lambda>(num, den) (j, xj, _).
              if i \<noteq> j then (num * (- xj) mod sss_prime, den * (xi - xj) mod sss_prime) else (num, den))
            (yi, 1) (enumerate 0 points)
        in (secret + num * pow_mod den (nat (sss_prime - 2)) sss_prime) mod sss_prime)
      0 (enumerate 0 points)"

datatype sss_error = NoShares | TooFewShares | BadParticipants | BadThreshold | NoTenseal | ShareIndexError

definition sss_reconstruct :: "(int \<times> int list) list \<Rightarrow> sss_error + int list" where
  "sss_reconstruct shares =
     (if shares = [] then Inl NoShares
      else if list_ex (\<lambda>s. length (snd s) < length (snd (hd shares))) shares then Inl ShareIndexError
      else Inr (map (\<lambda>idx. lagrange_at_zero (map (\<lambda>(x, sb). (x, sb ! idx)) shares) mod 256)
                  [0..<length (snd (hd shares))]))"

definition setup_shares ::
  "bool \<Rightarrow> int list \<Rightarrow> (nat \<Rightarrow> int list) \<Rightarrow> int \<Rightarrow> int \<Rightarrow> sss_error + (int \<times> int list) list" where
  "setup_shares tenseal sk_bytes rnd n k =
     (if \<not> (3 \<le> n \<and> n \<le> 50) then Inl BadParticipants
      else if \<not> (1 \<le> k \<and> k \<le> n) then Inl BadThreshold
      else if \<not> tenseal then Inl NoTenseal
      else Inr (sss_split sk_bytes rnd (nat n)))"

definition reconstruct_secret_key :: "int \<Rightarrow> (int \<times> int list) list \<Rightarrow> sss_error + int list" where
  "reconstruct_secret_key k shares =
     (if int (length shares) < k then Inl TooFewShares else sss_reconstruct shares)"

lemma byte_mod: "0 \<le> b \<Longrightarrow> b < 256 \<Longrightarrow> b mod sss_prime = b \<and> b mod 256 = b"
  by (simp add: sss_prime_def)

lemma one_mod_prime: "1 mod sss_prime = 1"
  by (simp add: sss_prime_def)

lemma mod_one_wrap: "0 \<le> r - p \<Longrightarrow> r - p < p \<Longrightarrow> r mod p = r - (p::int)"
  by (metis diff_add_cancel mod_add_self2 mod_pos_pos_trivial)

lemma mod_one_borrow: "r < 0 \<Longrightarrow> 0 \<le> r + p \<Longrightarrow> r mod p = r + (p::int)"
  by (metis add_less_same_cancel2 mod_add_self2 mod_pos_pos_trivial)

lemma shifted_byte:
  assumes "0 \<le> b" and "b < 256" and "0 < c" and "c < (256::int)"
  shows "(b - c) mod 256 \<noteq> b"
proof (cases "b < c")
  case True
  then show ?thesis using assms mod_one_borrow [of "b - c" 256] by simp
next
  case False
  then show ?thesis using assms by simp
qed

text \<open>With a threshold of one every share is the key itself and reconstructs it.\<close>

theorem single_share_recovers:
  assumes "\<forall>b\<in>set sk. 0 \<le> b \<and> b < 256" and "\<forall>i. rnd i = []" and "share \<in> set (sss_split sk rnd n)"
  shows "sss_reconstruct [share] = Inr sk"
proof -
  have "share = (fst share, sk)"
  proof -
    have "sss_value b [] x mod 256 = b" if "b \<in> set sk" for b x
      using that assms(1) byte_mod [of b] by (simp add: sss_value_def pow_mod one_mod_prime)
    then have "map (\<lambda>(idx, b). sss_value b (rnd idx) x mod 256) (enumerate 0 sk) = sk" for x
      using assms(2) by (intro nth_equalityI) (auto simp: nth_enumerate_eq)
    then show ?thesis using assms(3) by (auto simp: sss_split_def)
  qed
  then obtain x where s: "share = (x, sk)" by metis
  have "lagrange_at_zero [(x, b)] mod 256 = b" if "b \<in> set sk" for b
    using that assms(1) byte_mod [of b] by (simp add: lagrange_at_zero_def pow_mod one_mod_prime)
  then have "map (\<lambda>idx. lagrange_at_zero [(x, sk ! idx)] mod 256) [0..<length sk] = sk"
    by (intro nth_equalityI) auto
  then show ?thesis by (simp add: s sss_reconstruct_def)
qed

lemma lagrange_two: "lagrange_at_zero [(1, y), (2, z)] = (2 * y - z) mod sss_prime"
proof -
  have odd: "odd (nat (sss_prime - 2))" by (simp add: sss_prime_def)
  have "pow_mod (- 1 mod sss_prime) (nat (sss_prime - 2)) sss_prime = (- 1) ^ nat (sss_prime - 2) mod sss_prime"
    by (simp add: pow_mod power_mod)
  also have "\<dots> = - 1 mod sss_prime" using odd by simp
  finally have inv: "pow_mod (- 1 mod sss_prime) (nat (sss_prime - 2)) sss_prime = - 1 mod sss_prime" .
  have one: "pow_mod (1 mod sss_prime) (nat (sss_prime - 2)) sss_prime = 1"
    by (simp add: pow_mod one_mod_prime)
  have "lagrange_at_zero [(1, y), (2, z)] =
    ((0 + y * (- 2) mod sss_prime * pow_mod (- 1 mod sss_prime) (nat (sss_prime - 2)) sss_prime) mod sss_prime +
      z * (- 1) mod sss_prime * pow_mod (1 mod sss_prime) (nat (sss_prime - 2)) sss_prime) mod sss_prime"
    by (simp add: lagrange_at_zero_def)
  also have "\<dots> = (y * (- 2) * (- 1) + z * (- 1) * 1) mod sss_prime"
    unfolding inv one by (simp only: mod_simps add_0 mult_1_right)
  also have "y * (- 2) * (- 1) + z * (- 1) * 1 = 2 * y - z" by simp
  finally show ?thesis .
qed

lemma truncated_pair:
  assumes "0 \<le> b" and "b < 256" and "0 \<le> a" and "b + a < sss_prime" and "sss_prime \<le> b + 2 * a"
  shows "lagrange_at_zero [(1, (b + a) mod sss_prime mod 256), (2, (b + 2 * a) mod sss_prime mod 256)] mod 256 \<noteq> b"
proof -
  have "b + 2 * a - sss_prime < sss_prime" using assms by simp
  then have r: "(b + a) mod sss_prime = b + a" "(b + 2 * a) mod sss_prime = b + 2 * a - sss_prime"
    using assms by (auto intro: mod_one_wrap)
  define y z where "y = (b + a) mod 256" and "z = (b + 2 * a - sss_prime) mod 256"
  obtain q1 q2 where q: "b + a = 256 * q1 + y" "b + 2 * a - sss_prime = 256 * q2 + z"
    unfolding y_def z_def by (metis mult_div_mod_eq)
  have bounds: "0 \<le> y" "y < 256" "0 \<le> z" "z < 256" by (simp_all add: y_def z_def)
  have d: "2 * y - z = b - 1 + 256 * (2 ^ 119 + q2 - 2 * q1)" using q by (simp add: sss_prime_def)
  have "(2 * y - z) mod sss_prime = (if 0 \<le> 2 * y - z then 2 * y - z else 2 * y - z + sss_prime)"
  proof (cases "0 \<le> 2 * y - z")
    case True
    moreover have "2 * y - z < sss_prime" using bounds by (simp add: sss_prime_def)
    ultimately show ?thesis by simp
  next
    case False
    moreover have "0 \<le> 2 * y - z + sss_prime" using bounds by (simp add: sss_prime_def)
    ultimately show ?thesis using mod_one_borrow [of "2 * y - z" sss_prime] by simp
  qed
  also have "\<dots> mod 256 = (if 0 \<le> 2 * y - z then (b - 1) mod 256 else (b - 2) mod 256)"
  proof -
    have "2 * y - z + sss_prime = b - 2 + 256 * (2 ^ 119 + q2 - 2 * q1 + 2 ^ 119)"
      using d by (simp add: sss_prime_def)
    then have "(2 * y - z + sss_prime) mod 256 = (b - 2) mod 256" by (simp only: mod_mult_self2)
    moreover have "(2 * y - z) mod 256 = (b - 1) mod 256" unfolding d by (rule mod_mult_self2)
    ultimately show ?thesis by simp
  qed
  also have "\<dots> \<noteq> b"
  proof -
    have "(b - 1) mod 256 \<noteq> b" "(b - 2) mod 256 \<noteq> b" using assms(1,2) by (simp_all add: shifted_byte)
    then show ?thesis by simp
  qed
  finally have "(2 * y - z) mod sss_prime mod 256 \<noteq> b" .
  moreover have "lagrange_at_zero [(1, (b + a) mod sss_prime mod 256), (2, (b + 2 * a) mod sss_prime mod 256)] =
    (2 * y - z) mod sss_prime"
    unfolding lagrange_two r y_def z_def by (rule refl)
  ultimately show ?thesis by (rule back_subst [of "\<lambda>v. v mod 256 \<noteq> b", OF _ sym])
qed

text \<open>
  The threshold key is not recoverable: shares are cut to one byte although the arithmetic is
  modulo a prime of 127 bits. With a threshold of two, one coefficient in the upper half of its range
  anywhere in the key is enough for the first two shares to reconstruct another key.
\<close>

theorem truncated_shares_corrupt:
  assumes "setup_shares True sk rnd n 2 = Inr shares" and "\<forall>b\<in>set sk. 0 \<le> b \<and> b < 256"
    and "i < length sk" and "rnd i = [a]" and "0 \<le> a"
    and "sk ! i + a < sss_prime" and "sss_prime \<le> sk ! i + 2 * a"
  shows "\<exists>sk'. reconstruct_secret_key 2 (take 2 shares) = Inr sk' \<and> length sk' = length sk \<and> sk' ! i \<noteq> sk ! i"
proof -
  let ?share = "\<lambda>x. map (\<lambda>(idx, b). sss_value b (rnd idx) x mod 256) (enumerate 0 sk)"
  have "3 \<le> n" "shares = sss_split sk rnd (nat n)"
    using assms(1) by (auto simp: setup_shares_def split: if_splits)
  moreover have "[1..<Suc (nat n)] = 1 # 2 # [3..<Suc (nat n)]"
    using \<open>3 \<le> n\<close> by (simp add: upt_conv_Cons numeral_2_eq_2 numeral_3_eq_3)
  ultimately have two: "take 2 shares = [(1, ?share 1), (2, ?share 2)]"
    by (simp add: sss_split_def del: upt_Suc)
  have v: "sss_value (sk ! i) (rnd i) x = (sk ! i + a * int x) mod sss_prime" if "x = 1 \<or> x = 2" for x
    using that assms(4) by (auto simp: sss_value_def pow_mod sss_prime_def)
  have "?share 1 ! i = (sk ! i + a) mod sss_prime mod 256" "?share 2 ! i = (sk ! i + 2 * a) mod sss_prime mod 256"
    using assms(3) v [of 1] v [of 2] by (simp_all add: nth_enumerate_eq mult.commute)
  moreover have "reconstruct_secret_key 2 (take 2 shares) =
      Inr (map (\<lambda>j. lagrange_at_zero [(1, ?share 1 ! j), (2, ?share 2 ! j)] mod 256) [0..<length sk])"
    by (simp add: two reconstruct_secret_key_def sss_reconstruct_def del: nth_map)
  moreover have "0 \<le> sk ! i" "sk ! i < 256" using assms(2,3) by simp_all
  note truncated_pair [OF this assms(5-7)]
  ultimately show ?thesis using assms(3) by (simp add: nth_map_upt del: nth_map)
qed

lemma truncated_shares_corrupt_witness:
  "\<exists>sk'. reconstruct_secret_key 2 (take 2 (sss_split [42] (\<lambda>_. [2 ^ 126]) 3)) = Inr sk' \<and>
     length sk' = length [42::int] \<and> sk' ! 0 \<noteq> [42] ! 0"
  by (rule truncated_shares_corrupt [of "[42]" "\<lambda>_. [2 ^ 126]" 3 _ 0 "2 ^ 126"])
    (simp_all add: setup_shares_def sss_prime_def)

end
