(* ===== verification/AnnotationQueue.thy ===== *)
theory AnnotationQueue
  imports Base
begin

text \<open>
  The annotation queue of active learning (\<open>detection/active_learning/annotation_queue.py\<close>): wallets
  waiting for a label, verdicts signed with an HMAC, agreement between annotators, the export of
  verified labels, and the stopping criterion.

  The queue is the list the JSON file holds; every operation reads the file, changes the list and
  replaces the file atomically. The HMAC is a parameter on the text it is computed of. Uncertainties
  and AUC values are rationals; Krippendorff's alpha, computed by a library for display, is left out.
\<close>

subsection \<open>Items\<close>

record annotation =
  an_label :: int
  an_annotator :: string
  an_notes :: string
  an_at :: string
  an_hmac :: string

record queue_item =
  qi_wallet :: string
  qi_asset_pair :: string
  qi_strategy :: string
  qi_selected_at :: string
  qi_status :: "string option"
  qi_epistemic :: "rat option"
  qi_aleatoric :: "rat option"
  qi_verdict :: "annotation option"
  qi_quarantine :: bool
  qi_reason :: string
  qi_annotations :: "annotation list option"
  qi_kappa :: "rat option"

datatype queue_file = NoFile | Unparsable | NotAList | Items "queue_item list"

datatype queue_error = QueueJSONError | EmptyAnnotator | BadLabel | NeedTwoAnnotations nat

definition load_queue :: "queue_file \<Rightarrow> queue_error + queue_item list" where
  "load_queue f = (case f of NoFile \<Rightarrow> Inr [] | Unparsable \<Rightarrow> Inl QueueJSONError
     | NotAList \<Rightarrow> Inr [] | Items q \<Rightarrow> Inr q)"

text \<open>The signed text of a verdict.\<close>

definition verdict_text :: "string \<Rightarrow> int \<Rightarrow> string \<Rightarrow> string \<Rightarrow> string" where
  "verdict_text wallet label annotator stamp =
     wallet @ CHR ''|'' # dec_int label @ CHR ''|'' # annotator @ CHR ''|'' # stamp"

definition compute_hmac :: "(string \<Rightarrow> string) \<Rightarrow> string \<Rightarrow> int \<Rightarrow> string \<Rightarrow> string \<Rightarrow> string" where
  "compute_hmac mac wallet label annotator stamp = mac (verdict_text wallet label annotator stamp)"

definition verified :: "(string \<Rightarrow> string) \<Rightarrow> string \<Rightarrow> annotation \<Rightarrow> bool" where
  "verified mac wallet a \<longleftrightarrow> compute_hmac mac wallet (an_label a) (an_annotator a) (an_at a) = an_hmac a"

text \<open>The loops over the queue change the first item of the wallet.\<close>

fun on_first :: "string \<Rightarrow> (queue_item \<Rightarrow> queue_item) \<Rightarrow> queue_item list \<Rightarrow> queue_item list" where
  "on_first wallet f [] = []"
| "on_first wallet f (i # is) = (if qi_wallet i = wallet then f i # is else i # on_first wallet f is)"

definition item_of :: "string \<Rightarrow> queue_item list \<Rightarrow> queue_item option" where
  "item_of wallet q = find (\<lambda>i. qi_wallet i = wallet) q"

subsection \<open>Writing\<close>

definition pending_item ::
  "string \<Rightarrow> string \<Rightarrow> string \<Rightarrow> (string \<Rightarrow> rat option) \<Rightarrow> (string \<Rightarrow> rat option) \<Rightarrow> string \<Rightarrow> queue_item" where
  "pending_item strategy_name asset_pair now epistemic aleatoric wallet =
     \<lparr>qi_wallet = wallet, qi_asset_pair = asset_pair, qi_strategy = strategy_name, qi_selected_at = now,
      qi_status = Some ''pending'', qi_epistemic = epistemic wallet, qi_aleatoric = aleatoric wallet,
      qi_verdict = None, qi_quarantine = False, qi_reason = [], qi_annotations = None, qi_kappa = None\<rparr>"

definition queue_push ::
  "rat \<Rightarrow> string list \<Rightarrow> string \<Rightarrow> string \<Rightarrow> (string \<Rightarrow> rat option) \<Rightarrow> (string \<Rightarrow> rat option) \<Rightarrow> string \<Rightarrow>
   queue_file \<Rightarrow> queue_error + queue_file" where
  "queue_push threshold wallets strategy_name asset_pair epistemic aleatoric now f =
     (case load_queue f of Inl e \<Rightarrow> Inl e
      | Inr q \<Rightarrow>
          let existing = set (map qi_wallet q);
              taken = filter (\<lambda>w. w \<notin> existing \<and>
                (case aleatoric w of Some a \<Rightarrow> \<not> threshold < a | None \<Rightarrow> True)) wallets
          in Inr (Items (q @ map (pending_item strategy_name asset_pair now epistemic aleatoric) taken)))"

definition manual_item :: "string \<Rightarrow> string \<Rightarrow> string \<Rightarrow> queue_item" where
  "manual_item wallet now status =
     (pending_item ''manual'' [] now (\<lambda>_. None) (\<lambda>_. None) wallet)\<lparr>qi_status := Some status\<rparr>"

definition signed :: "(string \<Rightarrow> string) \<Rightarrow> string \<Rightarrow> int \<Rightarrow> string \<Rightarrow> string \<Rightarrow> string \<Rightarrow> annotation" where
  "signed mac wallet label annotator notes now =
     \<lparr>an_label = label, an_annotator = annotator, an_notes = notes, an_at = now,
      an_hmac = compute_hmac mac wallet label annotator now\<rparr>"

definition annotate ::
  "(string \<Rightarrow> string) \<Rightarrow> string \<Rightarrow> string \<Rightarrow> int \<Rightarrow> string \<Rightarrow> string \<Rightarrow> bool \<Rightarrow> string \<Rightarrow>
   queue_file \<Rightarrow> queue_error + queue_file" where
  "annotate mac now wallet label annotator notes quarantine reason f =
     (if annotator = [] then Inl EmptyAnnotator
      else if label \<notin> {0, 1} then Inl BadLabel
      else case load_queue f of Inl e \<Rightarrow> Inl e
      | Inr q \<Rightarrow>
          let upd = (\<lambda>i. i\<lparr>qi_verdict := Some (signed mac wallet label annotator notes now),
                qi_status := Some ''annotated'', qi_quarantine := quarantine,
                qi_reason := (if quarantine then reason else [])\<rparr>)
          in Inr (Items (case item_of wallet q of
               Some _ \<Rightarrow> on_first wallet upd q
             | None \<Rightarrow> q @ [upd (manual_item wallet now ''annotated'')])))"

subsection \<open>Agreement\<close>

definition indicator_sum :: "bool \<Rightarrow> bool \<Rightarrow> rat" where
  "indicator_sum p q = ((if p then 1 else 0) + (if q then 1 else 0)) / 2"

definition kappa_pair :: "int \<Rightarrow> int \<Rightarrow> rat" where
  "kappa_pair a b =
     (if a = b then 1
      else let p0 = indicator_sum (a = 0) (b = 0); p1 = indicator_sum (a = 1) (b = 1); p_e = p0 ^ 2 + p1 ^ 2
           in if p_e = 1 then 1 else (0 - p_e) / (1 - p_e))"

fun combinations2 :: "'a list \<Rightarrow> ('a \<times> 'a) list" where
  "combinations2 [] = []"
| "combinations2 (x # xs) = map (Pair x) xs @ combinations2 xs"

definition mean_kappa :: "int list \<Rightarrow> rat" where
  "mean_kappa labels =
     (let kappas = map (\<lambda>(a, b). kappa_pair a b) (combinations2 labels)
      in sum_list kappas / of_nat (length kappas))"

definition is_disputed :: "int list \<Rightarrow> bool" where
  "is_disputed labels \<longleftrightarrow> mean_kappa labels < 6 / 10"

definition labels_of_item :: "(string \<Rightarrow> string) \<Rightarrow> string \<Rightarrow> queue_item \<Rightarrow> int list" where
  "labels_of_item mac wallet i =
     map an_label (filter (verified mac wallet) (case qi_annotations i of Some as \<Rightarrow> as | None \<Rightarrow> []))"

definition verified_labels :: "(string \<Rightarrow> string) \<Rightarrow> string \<Rightarrow> queue_item list \<Rightarrow> int list" where
  "verified_labels mac wallet q =
     (case item_of wallet q of Some i \<Rightarrow> labels_of_item mac wallet i | None \<Rightarrow> [])"

text \<open>The kappa, the number of annotators and whether the wallet is disputed.\<close>

definition compute_agreement ::
  "(string \<Rightarrow> string) \<Rightarrow> string \<Rightarrow> queue_file \<Rightarrow> queue_error + rat \<times> nat \<times> bool" where
  "compute_agreement mac wallet f =
     (case load_queue f of Inl e \<Rightarrow> Inl e
      | Inr q \<Rightarrow>
          let labels = verified_labels mac wallet q in
          if length labels < 2 then Inl (NeedTwoAnnotations (length labels))
          else Inr (mean_kappa labels, length labels, is_disputed labels))"

definition refresh_agreement_status :: "(string \<Rightarrow> string) \<Rightarrow> queue_item \<Rightarrow> queue_item" where
  "refresh_agreement_status mac i =
     (let labels = labels_of_item mac (qi_wallet i) i in
      if length labels < 2 then i\<lparr>qi_status := Some ''multi_annotated''\<rparr>
      else i\<lparr>qi_status := Some (if is_disputed labels then ''disputed'' else ''multi_annotated''),
             qi_kappa := Some (mean_kappa labels)\<rparr>)"

definition multi_annotate ::
  "(string \<Rightarrow> string) \<Rightarrow> string \<Rightarrow> string \<Rightarrow> int \<Rightarrow> string \<Rightarrow> string \<Rightarrow> queue_file \<Rightarrow> queue_error + queue_file" where
  "multi_annotate mac now wallet label annotator notes f =
     (if annotator = [] then Inl EmptyAnnotator
      else if label \<notin> {0, 1} then Inl BadLabel
      else case load_queue f of Inl e \<Rightarrow> Inl e
      | Inr q \<Rightarrow>
          let entry = signed mac wallet label annotator notes now in
          (case item_of wallet q of
             Some i \<Rightarrow>
               let as = (case qi_annotations i of Some as \<Rightarrow> as | None \<Rightarrow> []) in
               if list_ex (\<lambda>a. an_annotator a = annotator) as then Inr f
               else Inr (Items (on_first wallet
                 (\<lambda>i. refresh_agreement_status mac (i\<lparr>qi_annotations := Some (as @ [entry])\<rparr>)) q))
           | None \<Rightarrow> Inr (Items (q @ [(manual_item wallet now ''multi_annotated'')\<lparr>qi_annotations := Some [entry]\<rparr>]))))"

definition senior_review_queue :: "(string \<Rightarrow> string) \<Rightarrow> queue_file \<Rightarrow> queue_error + string list" where
  "senior_review_queue mac f =
     (case load_queue f of Inl e \<Rightarrow> Inl e
      | Inr q \<Rightarrow> Inr (map qi_wallet (filter (\<lambda>i.
          qi_status i \<in> {Some ''disputed'', Some ''multi_annotated''} \<and>
          (case compute_agreement mac (qi_wallet i) f of Inr (_, _, d) \<Rightarrow> d | Inl _ \<Rightarrow> False)) q)))"

definition skip :: "string \<Rightarrow> queue_file \<Rightarrow> queue_error + queue_file" where
  "skip wallet f = (case load_queue f of Inl e \<Rightarrow> Inl e
     | Inr q \<Rightarrow> Inr (Items (on_first wallet (\<lambda>i. i\<lparr>qi_status := Some ''skipped''\<rparr>) q)))"

definition dismiss_quarantine :: "string \<Rightarrow> queue_file \<Rightarrow> queue_error + queue_file" where
  "dismiss_quarantine wallet f = (case load_queue f of Inl e \<Rightarrow> Inl e
     | Inr q \<Rightarrow> Inr (Items (on_first wallet (\<lambda>i. i\<lparr>qi_quarantine := False, qi_reason := []\<rparr>) q)))"

subsection \<open>Reading\<close>

definition is_pending :: "queue_item \<Rightarrow> bool" where
  "is_pending i \<longleftrightarrow> qi_status i = Some ''pending''"

text \<open>\<open>sort(reverse=True)\<close> is stable, so it is a stable sort by the negated key.\<close>

definition pop_batch :: "nat \<Rightarrow> queue_file \<Rightarrow> queue_error + queue_item list" where
  "pop_batch n f = (case load_queue f of Inl e \<Rightarrow> Inl e
     | Inr q \<Rightarrow>
         let pending = filter is_pending q;
             ranked = filter (\<lambda>i. qi_epistemic i \<noteq> None) pending;
             unranked = filter (\<lambda>i. qi_epistemic i = None) pending
         in Inr (take n (sort_key (\<lambda>i. - the (qi_epistemic i)) ranked @ unranked)))"

definition skipped_wallets :: "queue_file \<Rightarrow> queue_error + string list" where
  "skipped_wallets f = (case load_queue f of Inl e \<Rightarrow> Inl e
     | Inr q \<Rightarrow> Inr (map qi_wallet (filter (\<lambda>i. qi_status i = Some ''skipped'') q)))"

definition quarantined_samples :: "queue_file \<Rightarrow> queue_error + queue_item list" where
  "quarantined_samples f = (case load_queue f of Inl e \<Rightarrow> Inl e
     | Inr q \<Rightarrow> Inr (filter (\<lambda>i. qi_quarantine i \<and> qi_status i = Some ''annotated'') q))"

text \<open>A missing label is read as -1 and the other missing fields as the empty string.\<close>

definition item_verified :: "(string \<Rightarrow> string) \<Rightarrow> queue_item \<Rightarrow> bool" where
  "item_verified mac i = (case qi_verdict i of
       Some a \<Rightarrow> verified mac (qi_wallet i) a
     | None \<Rightarrow> compute_hmac mac (qi_wallet i) (- 1) [] [] = [])"

definition export_labelled :: "(string \<Rightarrow> string) \<Rightarrow> queue_file \<Rightarrow> queue_error + queue_item list" where
  "export_labelled mac f = (case load_queue f of Inl e \<Rightarrow> Inl e
     | Inr q \<Rightarrow> Inr (filter (\<lambda>i. qi_status i = Some ''annotated'' \<and> item_verified mac i) q))"

subsection \<open>The stopping criterion\<close>

record stopping =
  sc_eer_threshold :: rat
  sc_window :: nat
  sc_auc_threshold :: rat
  sc_history :: "rat list"
  sc_round :: nat

definition record_round_auc :: "rat \<Rightarrow> stopping \<Rightarrow> stopping" where
  "record_round_auc auc s =
     (let h = sc_history s @ [auc] in
      s\<lparr>sc_history := drop (length h - (sc_window s + 1)) h, sc_round := Suc (sc_round s)\<rparr>)"

text \<open>\<open>probs\<close> are the class probabilities of the unlabelled samples.\<close>

definition max_prob :: "rat list \<Rightarrow> rat" where
  "max_prob ps = Max (set ps)"

definition eer :: "rat list list \<Rightarrow> rat" where
  "eer probs = (if probs = [] then 0 else 1 - Max (set (map max_prob probs)))"

definition improvements :: "rat list \<Rightarrow> rat list" where
  "improvements h = map2 (\<lambda>a b. b - a) h (tl h)"

text \<open>\<open>None\<close> is the \<open>ZeroDivisionError\<close> of a window of zero rounds.\<close>

definition should_stop :: "rat list list option \<Rightarrow> stopping \<Rightarrow> bool option" where
  "should_stop probs s =
     (if (case probs of Some ps \<Rightarrow> ps \<noteq> [] \<and> eer ps < sc_eer_threshold s | None \<Rightarrow> False) then Some True
      else if sc_window s + 1 \<le> length (sc_history s) then
        (if sc_window s = 0 then None
         else let imps = improvements (sc_history s);
                  mean_improvement = sum_list (drop (length imps - sc_window s) imps) / of_nat (sc_window s)
              in Some (mean_improvement < sc_auc_threshold s))
      else Some False)"

subsection \<open>Histories\<close>

datatype queue_event =
  Push "string list" string string "string \<Rightarrow> rat option" "string \<Rightarrow> rat option" string
  | Annotate string string int string string bool string
  | MultiAnnotate string string int string string
  | Skip string
  | DismissQuarantine string

definition keep_on_error :: "queue_file \<Rightarrow> queue_error + queue_file \<Rightarrow> queue_file" where
  "keep_on_error f r = (case r of Inr f' \<Rightarrow> f' | Inl _ \<Rightarrow> f)"

fun queue_step :: "(string \<Rightarrow> string) \<Rightarrow> rat \<Rightarrow> queue_file \<Rightarrow> queue_event \<Rightarrow> queue_file" where
  "queue_step mac th f (Push ws st pair ep al now) = keep_on_error f (queue_push th ws st pair ep al now f)"
| "queue_step mac th f (Annotate now w l a notes qu r) = keep_on_error f (annotate mac now w l a notes qu r f)"
| "queue_step mac th f (MultiAnnotate now w l a notes) = keep_on_error f (multi_annotate mac now w l a notes f)"
| "queue_step mac th f (Skip w) = keep_on_error f (skip w f)"
| "queue_step mac th f (DismissQuarantine w) = keep_on_error f (dismiss_quarantine w f)"

definition annotators :: "queue_item \<Rightarrow> string list" where
  "annotators i = (case qi_annotations i of Some as \<Rightarrow> map an_annotator as | None \<Rightarrow> [])"

definition queue_ok :: "queue_file \<Rightarrow> bool" where
  "queue_ok f = (case f of Items q \<Rightarrow> distinct (map qi_wallet q) \<and> list_all (distinct \<circ> annotators) q | _ \<Rightarrow> True)"

fun clean_push :: "queue_event \<Rightarrow> bool" where
  "clean_push (Push ws _ _ _ _ _) = distinct ws"
| "clean_push _ = True"

lemma on_first_wallets [simp]:
  "(\<And>i. qi_wallet (f i) = qi_wallet i) \<Longrightarrow> map qi_wallet (on_first w f q) = map qi_wallet q"
  by (induction q) auto

lemma on_first_all:
  "list_all P q \<Longrightarrow> (\<And>i. item_of w q = Some i \<Longrightarrow> P i \<Longrightarrow> P (f i)) \<Longrightarrow> list_all P (on_first w f q)"
  by (induction q) (auto simp: item_of_def)

lemma item_of_None: "item_of w q = None \<longleftrightarrow> w \<notin> set (map qi_wallet q)"
  by (auto simp: item_of_def find_None_iff)

lemma item_of_SomeD: "item_of w q = Some i \<Longrightarrow> i \<in> set q \<and> qi_wallet i = w"
  by (auto simp: item_of_def find_Some_iff)

lemma load_queue_Inr: "load_queue f = Inr q \<Longrightarrow> queue_ok f \<Longrightarrow> queue_ok (Items q)"
  by (cases f) (auto simp: load_queue_def queue_ok_def)

lemma refresh_fields [simp]:
  "qi_wallet (refresh_agreement_status mac i) = qi_wallet i"
  "qi_annotations (refresh_agreement_status mac i) = qi_annotations i"
  by (simp_all add: refresh_agreement_status_def Let_def)

lemma on_first_ok:
  assumes "queue_ok (Items q)" and "\<And>i. qi_wallet (f i) = qi_wallet i"
    and "\<And>i. item_of w q = Some i \<Longrightarrow> distinct (annotators i) \<Longrightarrow> distinct (annotators (f i))"
  shows "queue_ok (Items (on_first w f q))"
proof -
  have q: "distinct (map qi_wallet q)" "list_all (distinct \<circ> annotators) q"
    using assms(1) by (simp_all add: queue_ok_def)
  have "list_all (distinct \<circ> annotators) (on_first w f q)"
    by (rule on_first_all [OF q(2)]) (use assms(3) in simp)
  then show ?thesis using q(1) assms(2) by (simp add: queue_ok_def)
qed

lemma append_ok:
  "queue_ok (Items q) \<Longrightarrow> qi_wallet i \<notin> set (map qi_wallet q) \<Longrightarrow> distinct (annotators i) \<Longrightarrow> queue_ok (Items (q @ [i]))"
  by (auto simp: queue_ok_def)

lemma queue_push_ok:
  assumes "queue_ok f" and "distinct ws" and "queue_push th ws st pair ep al now f = Inr f'"
  shows "queue_ok f'"
proof -
  obtain q where q: "load_queue f = Inr q" "queue_ok (Items q)"
    using assms load_queue_Inr by (auto simp: queue_push_def split: sum.splits)
  have "map (qi_wallet \<circ> pending_item st pair now ep al) ws' = ws'" for ws'
    by (induction ws') (simp_all add: pending_item_def)
  moreover have "list_all (distinct \<circ> annotators) (map (pending_item st pair now ep al) ws')" for ws'
    by (simp add: list_all_iff annotators_def pending_item_def)
  ultimately show ?thesis using assms(2,3) q
    by (auto simp: queue_push_def Let_def queue_ok_def)
qed

lemma annotate_ok: "queue_ok f \<Longrightarrow> annotate mac now w l a notes qu r f = Inr f' \<Longrightarrow> queue_ok f'"
  by (auto simp: annotate_def Let_def annotators_def manual_item_def pending_item_def item_of_None dest: load_queue_Inr
      split: if_splits sum.splits option.splits intro!: on_first_ok append_ok)

lemma multi_annotate_ok:
  assumes "queue_ok f" and "multi_annotate mac now w l a notes f = Inr f'"
  shows "queue_ok f'"
proof -
  obtain q where q: "load_queue f = Inr q" "queue_ok (Items q)"
    using assms load_queue_Inr by (auto simp: multi_annotate_def split: sum.splits if_splits)
  show ?thesis
  proof (cases "item_of w q")
    case None
    moreover have "w \<notin> set (map qi_wallet q)" using None by (rule item_of_None [THEN iffD1])
    ultimately show ?thesis using assms q
      by (auto simp: multi_annotate_def Let_def annotators_def manual_item_def pending_item_def
          split: if_splits intro!: append_ok)
  next
    case (Some i)
    let ?as = "case qi_annotations i of Some as \<Rightarrow> as | None \<Rightarrow> []"
    have "queue_ok (Items (on_first w (\<lambda>i. refresh_agreement_status mac
        (i\<lparr>qi_annotations := Some (?as @ [signed mac w l a notes now])\<rparr>)) q))" if "\<not> list_ex (\<lambda>x. an_annotator x = a) ?as"
      using q(2) that Some
      by (intro on_first_ok) (auto simp: annotators_def signed_def list_ex_iff split: option.splits)
    then show ?thesis using assms q Some by (auto simp: multi_annotate_def Let_def split: if_splits)
  qed
qed

lemma skip_ok: "queue_ok f \<Longrightarrow> skip w f = Inr f' \<Longrightarrow> queue_ok f'"
  by (auto simp: skip_def annotators_def dest: load_queue_Inr split: sum.splits intro!: on_first_ok)

lemma dismiss_ok: "queue_ok f \<Longrightarrow> dismiss_quarantine w f = Inr f' \<Longrightarrow> queue_ok f'"
  by (auto simp: dismiss_quarantine_def annotators_def dest: load_queue_Inr split: sum.splits intro!: on_first_ok)

interpretation queue_run: preserved_when "queue_step mac th" queue_ok clean_push for mac th
proof
  fix f e
  assume "queue_ok f" and "clean_push e"
  then show "queue_ok (queue_step mac th f e)"
    by (cases e) (auto simp: keep_on_error_def split: sum.split
      intro: queue_push_ok annotate_ok multi_annotate_ok skip_ok dismiss_ok)
qed

text \<open>
  In every history of the queue whose pushes name no wallet twice, each wallet has one item and
  each annotator at most one annotation of it.
\<close>

theorem one_item_per_wallet:
  assumes "\<forall>e\<in>set es. clean_push e" and "foldl (queue_step mac th) NoFile es = Items q"
  shows "distinct (map qi_wallet q) \<and> list_all (distinct \<circ> annotators) q"
  using queue_run.run_inv_when [of NoFile es mac th] assms by (simp add: queue_ok_def)

lemma one_item_per_wallet_witness:
  "distinct (map qi_wallet [pending_item ''entropy'' [] ''now'' (\<lambda>_. None) (\<lambda>_. None) ''A''] ) \<and>
   list_all (distinct \<circ> annotators) [pending_item ''entropy'' [] ''now'' (\<lambda>_. None) (\<lambda>_. None) ''A'']"
  by (rule one_item_per_wallet [of "[Push [''A''] ''entropy'' [] (\<lambda>_. None) (\<lambda>_. None) ''now'', Skip ''B'']" id 0])
    (simp_all add: queue_push_def skip_def load_queue_def keep_on_error_def Let_def pending_item_def)

text \<open>
  A push that names a wallet twice queues it twice, since the wallets already there are read once,
  before the loop. Skipping the wallet then touches the first item only: it is handed out again.
\<close>

theorem skipped_wallet_is_popped:
  "\<exists>f. foldl (queue_step mac 1) NoFile
      [Push [''A'', ''A''] ''entropy'' [] (\<lambda>_. None) (\<lambda>_. None) ''now'', Skip ''A''] = f \<and>
    skipped_wallets f = Inr [''A''] \<and>
    map_sum id (map qi_wallet) (pop_batch 10 f) = Inr [''A'']"
  by (simp add: queue_push_def skip_def load_queue_def keep_on_error_def Let_def pending_item_def
      skipped_wallets_def pop_batch_def is_pending_def)

subsection \<open>What agreement means\<close>

lemma kappa_binary:
  "a \<in> {0, 1} \<Longrightarrow> b \<in> {0, 1} \<Longrightarrow> kappa_pair a b = (if a = b then 1 else - 1)"
  by (auto simp: kappa_pair_def indicator_sum_def power2_eq_square Let_def)

lemma sum_kappa_row:
  "set xs \<subseteq> {0, 1} \<Longrightarrow> x \<in> {0, 1} \<Longrightarrow> sum_list (map (kappa_pair x) xs) =
     (if x = 0 then 1 else - 1) * (of_nat (count_list xs 0) - of_nat (count_list xs 1))"
  by (induction xs) (auto simp: kappa_binary)

lemma sum_kappa:
  assumes "set xs \<subseteq> {0, 1}"
  defines "z \<equiv> of_nat (count_list xs 0)" and "one \<equiv> of_nat (count_list xs 1)"
  shows "2 * sum_list (map (\<lambda>(a, b). kappa_pair a b) (combinations2 xs)) =
     (z - one) ^ 2 - (z + one)"
  using assms(1) unfolding z_def one_def
  by (induction xs) (auto simp: o_def sum_kappa_row power2_eq_square algebra_simps)

lemma length_combinations2: "2 * length (combinations2 xs) + length xs = length xs * length xs"
  by (induction xs) (auto simp: algebra_simps)

lemma count_binary: "set xs \<subseteq> {0, 1} \<Longrightarrow> count_list xs 0 + count_list xs (1::int) = length xs"
  by (induction xs) auto

lemma disputed_iff:
  assumes "set xs \<subseteq> {0, 1}" and "2 \<le> length xs"
  shows "is_disputed xs \<longleftrightarrow>
    length xs * (length xs - 1) < 10 * (count_list xs 0 * count_list xs 1)"
proof -
  define z one n m where "z = (of_nat (count_list xs 0) :: rat)" and "one = (of_nat (count_list xs 1) :: rat)"
    and "n = (of_nat (length xs) :: rat)" and "m = (of_nat (length (combinations2 xs)) :: rat)"
  have n: "n = z + one" using count_binary [OF assms(1)] unfolding n_def z_def one_def by (metis of_nat_add)
  have m: "2 * m + n = n * n"
    using length_combinations2 [of xs] unfolding m_def n_def by (metis of_nat_add of_nat_mult of_nat_numeral)
  have n2: "2 \<le> n" using assms(2) unfolding n_def by (metis of_nat_le_iff of_nat_numeral)
  have "2 * n \<le> n * n" using n2 by (intro mult_right_mono) auto
  then have m0: "0 < m" using m n2 by linarith
  let ?s = "sum_list (map (\<lambda>(a, b). kappa_pair a b) (combinations2 xs))"
  have s: "2 * ?s = n * n - 4 * (z * one) - n"
    using sum_kappa [OF assms(1)] unfolding z_def [symmetric] one_def [symmetric] n
    by (simp add: power2_eq_square algebra_simps)
  have "is_disputed xs \<longleftrightarrow> ?s / m < 6 / 10"
    by (simp add: is_disputed_def mean_kappa_def m_def Let_def)
  also have "\<dots> \<longleftrightarrow> ?s * 10 < 6 * m" using m0 by (simp add: field_simps)
  also have "\<dots> \<longleftrightarrow> n * n - n < 10 * (z * one)" using s m by linarith
  also have "n * n - n = of_nat (length xs * (length xs - 1))"
    using assms(2) unfolding n_def by (simp add: of_nat_diff algebra_simps)
  also have "10 * (z * one) = of_nat (10 * (count_list xs 0 * count_list xs 1))"
    unfolding z_def one_def by simp
  finally show ?thesis by (simp only: of_nat_less_iff)
qed

text \<open>
  A wallet with \<open>n \<ge> 2\<close> verified binary labels, \<open>z\<close> of them clean and \<open>o\<close> wash trading, is disputed
  exactly when \<open>n (n - 1) < 10 z o\<close>: more than a fifth of the pairs of annotators disagree.
\<close>

theorem dispute_exact:
  assumes "load_queue f = Inr q" and "labels = verified_labels mac w q"
    and "set labels \<subseteq> {0, 1}" and "2 \<le> length labels"
  shows "\<exists>k. compute_agreement mac w f =
    Inr (k, length labels, length labels * (length labels - 1) < 10 * (count_list labels 0 * count_list labels 1))"
  using assms disputed_iff [OF assms(3,4)] by (simp add: compute_agreement_def Let_def)

definition demo_item :: "string \<Rightarrow> (string \<times> int) list \<Rightarrow> queue_item" where
  "demo_item w ls = (manual_item w ''t'' ''multi_annotated'')\<lparr>qi_annotations :=
     Some (map (\<lambda>(a, l). signed id w l a [] ''t'') ls)\<rparr>"

lemma dispute_exact_witness:
  "\<exists>k. compute_agreement id ''A'' (Items [demo_item ''A'' [(''x'', 1), (''y'', 0)]]) = Inr (k, 2, True)"
proof -
  have l: "[1, 0] = verified_labels id ''A'' [demo_item ''A'' [(''x'', 1), (''y'', 0)]]"
    by (simp add: verified_labels_def labels_of_item_def demo_item_def item_of_def manual_item_def
      pending_item_def verified_def signed_def)
  have "load_queue (Items [demo_item ''A'' [(''x'', 1), (''y'', 0)]]) = Inr [demo_item ''A'' [(''x'', 1), (''y'', 0)]]"
    by (simp add: load_queue_def)
  from dispute_exact [OF this l] show ?thesis by (simp add: numeral_2_eq_2)
qed

subsection \<open>What the signature protects\<close>

abbreviation bars :: "string \<Rightarrow> nat" where
  "bars s \<equiv> count_list s (CHR ''|'')"

lemma no_bars: "bars s = 0 \<longleftrightarrow> CHR ''|'' \<notin> set s"
  by (simp add: count_list_0_iff)

lemma bar_dec_int [simp]: "CHR ''|'' \<notin> set (dec_int i)"
  by (simp add: dec_int_def dec_no_char)

lemma dec_int_eq: "dec_int i = dec_int j \<longleftrightarrow> i = j"
proof -
  have "CHR ''-'' \<notin> set (dec n)" for n by (simp add: dec_no_char)
  then have "CHR ''-'' # s \<noteq> dec n" "dec n \<noteq> CHR ''-'' # s" for n s by (metis list.set_intros(1))+
  then show ?thesis by (auto simp: dec_int_def)
qed

lemma verdict_text_clean:
  assumes "verdict_text w l a t = verdict_text w' l' a' t'"
    and "CHR ''|'' \<notin> set w" and "CHR ''|'' \<notin> set a" and "CHR ''|'' \<notin> set t"
  shows "w' = w \<and> l' = l \<and> a' = a \<and> t' = t"
proof -
  have "bars (verdict_text w l a t) = 3"
    using assms(2-4) bar_dec_int [of l] by (simp add: verdict_text_def no_bars [symmetric] del: bar_dec_int)
  then have "bars w' + bars a' + bars t' = 0"
    using bar_dec_int [of l'] unfolding assms(1) by (simp add: verdict_text_def no_bars [symmetric] del: bar_dec_int)
  then have "CHR ''|'' \<notin> set w'" "CHR ''|'' \<notin> set a'" "CHR ''|'' \<notin> set t'"
    by (simp_all add: no_bars [symmetric])
  with assms show ?thesis by (auto simp: verdict_text_def split_first_sep dec_int_eq)
qed

text \<open>
  Whatever the queue file holds, an exported row carries a verdict that an annotator gave for
  exactly that wallet, label and time: if the file's HMACs belong to texts that were signed, and no
  signed wallet, annotator or time contains the separator, nothing can be moved to another wallet or
  turned into another label.
\<close>

theorem labels_cannot_be_moved:
  assumes "export_labelled mac f = Inr rows" and "i \<in> set rows" and "\<forall>m. mac m \<noteq> []"
    and "load_queue f = Inr q"
    and "\<forall>j\<in>set q. \<forall>v. qi_verdict j = Some v \<longrightarrow> (\<forall>m. mac m = an_hmac v \<longrightarrow>
           m \<in> (\<lambda>(w, l, a, t). verdict_text w l a t) ` calls)"
    and "\<forall>(w, l, a, t)\<in>calls. CHR ''|'' \<notin> set w \<and> CHR ''|'' \<notin> set a \<and> CHR ''|'' \<notin> set t"
  shows "\<exists>v. qi_verdict i = Some v \<and> (qi_wallet i, an_label v, an_annotator v, an_at v) \<in> calls"
proof -
  have i: "i \<in> set q" "item_verified mac i" using assms(1,2,4) by (auto simp: export_labelled_def)
  obtain v where v: "qi_verdict i = Some v" "verified mac (qi_wallet i) v"
    using i(2) assms(3) by (cases "qi_verdict i") (auto simp: item_verified_def compute_hmac_def)
  have "verdict_text (qi_wallet i) (an_label v) (an_annotator v) (an_at v) \<in> (\<lambda>(w, l, a, t). verdict_text w l a t) ` calls"
    using assms(5) i(1) v by (auto simp: verified_def compute_hmac_def)
  then obtain w l a t where c: "(w, l, a, t) \<in> calls"
    "verdict_text w l a t = verdict_text (qi_wallet i) (an_label v) (an_annotator v) (an_at v)" by auto
  with assms(6) have "CHR ''|'' \<notin> set w" "CHR ''|'' \<notin> set a" "CHR ''|'' \<notin> set t" by auto
  from verdict_text_clean [OF c(2) this] c(1) v(1) show ?thesis by simp
qed

definition demo_annotated :: queue_file where
  "demo_annotated = keep_on_error NoFile (annotate id ''t'' ''A'' 1 ''x'' [] False [] NoFile)"

lemmas demo_annotated_defs = demo_annotated_def annotate_def load_queue_def item_of_def keep_on_error_def Let_def
  export_labelled_def manual_item_def pending_item_def signed_def item_verified_def verified_def compute_hmac_def

lemma labels_cannot_be_moved_witness:
  "list_all (\<lambda>i. \<exists>v. qi_verdict i = Some v \<and>
      (qi_wallet i, an_label v, an_annotator v, an_at v) \<in> {(''A'', 1, ''x'', ''t'')})
    (case export_labelled (Cons CHR ''h'')
      (keep_on_error NoFile (annotate (Cons CHR ''h'') ''t'' ''A'' 1 ''x'' [] False [] NoFile)) of Inr rows \<Rightarrow> rows | Inl _ \<Rightarrow> [])"
proof -
  let ?f = "keep_on_error NoFile (annotate (Cons CHR ''h'') ''t'' ''A'' 1 ''x'' [] False [] NoFile)"
  obtain q where q: "load_queue ?f = Inr q"
    "\<forall>j\<in>set q. \<forall>v. qi_verdict j = Some v \<longrightarrow> (\<forall>m. CHR ''h'' # m = an_hmac v \<longrightarrow>
       m \<in> (\<lambda>(w, l, a, t). verdict_text w l a t) ` {(''A'', 1, ''x'', ''t'')})"
    by (simp add: demo_annotated_defs)
  obtain rows where r: "export_labelled (Cons CHR ''h'') ?f = Inr rows"
    using q(1) by (simp add: export_labelled_def)
  from labels_cannot_be_moved [OF r _ _ q] show ?thesis by (simp add: r list_all_iff)
qed

text \<open>
  A second opinion removes a verdict from the training data: an additional annotation of a wallet that
  has an exported verdict changes the item's status, and the next export leaves the wallet out.
\<close>

theorem second_opinion_unexports:
  assumes "multi_annotate mac now w l a notes (Items q) = Inr f" and "f \<noteq> Items q"
    and "distinct (map qi_wallet q)" and "export_labelled mac f = Inr rows"
  shows "w \<notin> set (map qi_wallet rows)"
proof -
  have gone: "i \<in> set (on_first w g q') \<Longrightarrow> qi_wallet i = w \<Longrightarrow> w \<in> set (map qi_wallet q') \<Longrightarrow>
      distinct (map qi_wallet q') \<Longrightarrow> \<exists>j. i = g j" for i g q'
    by (induction q') (auto split: if_splits)
  have status: "qi_status (refresh_agreement_status mac j) \<noteq> Some ''annotated''" for j
    by (simp add: refresh_agreement_status_def Let_def)
  show ?thesis
  proof (cases "item_of w q")
    case None
    then have "w \<notin> set (map qi_wallet q)" by (rule item_of_None [THEN iffD1])
    then show ?thesis using assms None
      by (auto simp: multi_annotate_def load_queue_def export_labelled_def manual_item_def pending_item_def Let_def
          split: if_splits)
  next
    case (Some j)
    then have w: "w \<in> set (map qi_wallet q)" using item_of_SomeD by fastforce
    obtain g where f: "f = Items (on_first w (\<lambda>i. refresh_agreement_status mac (g i)) q)"
      using assms(1,2) Some by (auto simp: multi_annotate_def load_queue_def Let_def split: if_splits)
    show ?thesis
    proof
      assume "w \<in> set (map qi_wallet rows)"
      then obtain i where i: "i \<in> set rows" "qi_wallet i = w" by auto
      then have "i \<in> set (on_first w (\<lambda>i. refresh_agreement_status mac (g i)) q)" "qi_status i = Some ''annotated''"
        using assms(4) f by (auto simp: export_labelled_def load_queue_def)
      then show False using gone [OF _ i(2) w assms(3)] status by metis
    qed
  qed
qed

subsection \<open>Batches\<close>

text \<open>
  A batch holds the first \<open>n\<close> of the pending items ranked by epistemic uncertainty: only pending
  items, as many as there are up to \<open>n\<close>, and no pending item left out is more uncertain than one
  that was taken.
\<close>

theorem pop_batch_exact:
  assumes "load_queue f = Inr q" and "pop_batch n f = Inr b"
  shows "set b \<subseteq> set q \<and> list_all is_pending b \<and> length b = min n (length (filter is_pending q)) \<and>
    (\<forall>i\<in>set q. \<forall>u. is_pending i \<and> i \<notin> set b \<and> qi_epistemic i = Some u \<longrightarrow>
       (\<forall>j\<in>set b. \<exists>v. qi_epistemic j = Some v \<and> u \<le> v))"
proof -
  let ?p = "filter is_pending q"
  let ?r = "sort_key (\<lambda>i. - the (qi_epistemic i)) (filter (\<lambda>i. qi_epistemic i \<noteq> None) ?p)"
  let ?u = "filter (\<lambda>i. qi_epistemic i = None) ?p"
  have b: "b = take n (?r @ ?u)" using assms by (simp add: pop_batch_def Let_def)
  have len: "length (?r @ ?u) = length ?p"
    using sum_length_filter_compl [of "\<lambda>i. qi_epistemic i \<noteq> None" ?p] by simp
  have sub: "set b \<subseteq> set ?p" using set_take_subset [of n "?r @ ?u"] unfolding b by auto
  have rank: "\<exists>v. qi_epistemic j = Some v \<and> u \<le> v"
    if i: "i \<in> set q" "is_pending i" "i \<notin> set b" "qi_epistemic i = Some u" and j: "j \<in> set b" for i j u
  proof -
    have r: "i \<in> set ?r" using i by simp
    have "n \<le> length ?r"
    proof (rule ccontr)
      assume "\<not> n \<le> length ?r"
      then have "take n (?r @ ?u) = ?r @ take (n - length ?r) ?u" by (simp only: take_append take_all not_le less_imp_le)
      then show False using r i(3) unfolding b by (metis Un_iff set_append)
    qed
    then have b': "b = take n ?r" unfolding b by simp
    have "i \<in> set (drop n ?r)" using r i(3) unfolding b'
      by (metis append_take_drop_id Un_iff set_append)
    moreover have "sorted (map (\<lambda>i. - the (qi_epistemic i)) (take n ?r) @ map (\<lambda>i. - the (qi_epistemic i)) (drop n ?r))"
      by (metis append_take_drop_id map_append sorted_sort_key)
    ultimately have "- the (qi_epistemic j) \<le> - the (qi_epistemic i)" using j unfolding b' sorted_append by auto
    moreover have "j \<in> set ?r" using j set_take_subset [of n ?r] unfolding b' by blast
    then obtain v where "qi_epistemic j = Some v" by auto
    ultimately show ?thesis using i(4) by simp
  qed
  have "length b = min n (length ?p)" unfolding b length_take len by simp
  then show ?thesis using sub rank by (auto simp: list_all_iff)
qed

subsection \<open>Stopping\<close>

lemma improvements_Cons: "improvements (x # y # h) = (y - x) # improvements (y # h)"
  by (simp add: improvements_def)

lemma sum_improvements: "h \<noteq> [] \<Longrightarrow> sum_list (improvements h) = last h - hd h"
proof (induction h rule: induct_list012)
  case (3 x y h)
  then show ?case by (simp add: improvements_Cons)
qed (simp_all add: improvements_def)

lemma length_improvements [simp]: "length (improvements h) = length h - 1"
  by (simp add: improvements_def)

lemma record_round_fields [simp]:
  "sc_window (record_round_auc x s) = sc_window s" "sc_auc_threshold (record_round_auc x s) = sc_auc_threshold s"
  by (simp_all add: record_round_auc_def Let_def)

lemma recorded_history:
  "sc_history s = drop (length aucs - (sc_window s + 1)) aucs \<Longrightarrow>
   sc_history (record_round_auc x s) = drop (length (aucs @ [x]) - (sc_window s + 1)) (aucs @ [x])"
  by (cases "length aucs \<le> sc_window s") (auto simp: record_round_auc_def Let_def Suc_diff_Suc not_le)

text \<open>
  The trend check telescopes: after any rounds, with a window of \<open>w > 0\<close> and no pool of samples,
  the criterion fires exactly when more than \<open>w\<close> rounds were recorded and the last AUC exceeds the one
  \<open>w\<close> rounds before by less than \<open>w\<close> times the threshold.
\<close>

theorem stop_exact:
  assumes "0 < sc_window s0" and "sc_history s0 = []"
    and "s = fold record_round_auc aucs s0"
  shows "should_stop None s = Some (sc_window s0 < length aucs \<and>
    last aucs - aucs ! (length aucs - 1 - sc_window s0) < of_nat (sc_window s0) * sc_auc_threshold s0)"
proof -
  have "sc_history (fold record_round_auc aucs s0) = drop (length aucs - (sc_window s0 + 1)) aucs \<and>
    sc_window (fold record_round_auc aucs s0) = sc_window s0 \<and>
    sc_auc_threshold (fold record_round_auc aucs s0) = sc_auc_threshold s0"
  proof (induction aucs rule: rev_induct)
    case (snoc x aucs)
    then show ?case using recorded_history [of "fold record_round_auc aucs s0" aucs x] by simp
  qed (simp add: assms)
  then have h: "sc_history s = drop (length aucs - (sc_window s0 + 1)) aucs" "sc_window s = sc_window s0"
    "sc_auc_threshold s = sc_auc_threshold s0" unfolding assms(3) by blast+
  show ?thesis
  proof (cases "sc_window s0 < length aucs")
    case True
    then have len: "length (sc_history s) = sc_window s0 + 1" by (simp add: h)
    have "sum_list (improvements (sc_history s)) = last aucs - aucs ! (length aucs - 1 - sc_window s0)"
    proof -
      have "sc_history s \<noteq> []" using len by force
      moreover have "last (sc_history s) = last aucs" "hd (sc_history s) = aucs ! (length aucs - 1 - sc_window s0)"
        using True unfolding h(1) by (simp_all add: last_drop hd_drop_conv_nth)
      ultimately show ?thesis by (simp add: sum_improvements)
    qed
    then show ?thesis using True len assms(1) h(2,3)
      by (simp add: should_stop_def Let_def divide_less_eq mult.commute)
  next
    case False
    then have "length (sc_history s) < sc_window s0 + 1" by (simp add: h)
    then show ?thesis using False h(2) by (simp add: should_stop_def)
  qed
qed

lemma stop_exact_witness:
  "should_stop None (fold record_round_auc [7 / 10, 71 / 100, 711 / 1000]
     \<lparr>sc_eer_threshold = 0, sc_window = 2, sc_auc_threshold = 1 / 200, sc_history = [], sc_round = 0\<rparr>) = Some False"
  using stop_exact [of "\<lparr>sc_eer_threshold = 0, sc_window = 2, sc_auc_threshold = 1 / 200, sc_history = [], sc_round = 0\<rparr>"
      _ "[7 / 10, 71 / 100, 711 / 1000]"] by simp

text \<open>
  The other check looks at the wrong end: one sample the model is sure of stops the annotation,
  however uncertain every other sample is.
\<close>

theorem certain_sample_stops:
  assumes "ps \<in> set probs" and "p \<in> set ps" and "1 - p < sc_eer_threshold s"
  shows "should_stop (Some probs) s = Some True"
proof -
  have "p \<le> max_prob ps" using assms(2) by (simp add: max_prob_def)
  also have "\<dots> \<le> Max (set (map max_prob probs))" using assms(1) by simp
  finally have "eer probs < sc_eer_threshold s" using assms(1,3) by (auto simp: eer_def)
  then show ?thesis using assms(1) by (auto simp: should_stop_def)
qed

lemma certain_sample_stops_witness:
  "should_stop (Some [[1 / 2, 1 / 2], [0, 1]])
     \<lparr>sc_eer_threshold = 1 / 1000, sc_window = 5, sc_auc_threshold = 1 / 200, sc_history = [], sc_round = 0\<rparr> = Some True"
  by (rule certain_sample_stops [of "[0, 1]" _ 1]) simp_all

end
