(* ===== verification/JsonCodec.thy ===== *)
theory JsonCodec
  imports Json
begin

text \<open>
  A text for every JSON value and the function that reads it back. The components that write JSON
  files take the codec of the standard library as a parameter with its round trip as a law; this one
  shows that the law can hold.
\<close>

fun enc_str :: "string \<Rightarrow> string" where
  "enc_str [] = ''.''"
| "enc_str (c # s) = CHR ''x'' # c # enc_str s"

fun read_str :: "string \<Rightarrow> (string \<times> string) option" where
  "read_str [] = None"
| "read_str [a] = (if a = CHR ''.'' then Some ([], []) else None)"
| "read_str (a # c # r) = (if a = CHR ''.'' then Some ([], c # r)
     else map_option (apfst (Cons c)) (read_str r))"

lemma read_enc_str [simp]: "read_str (enc_str s @ r) = Some (s, r)"
  by (induction s) (cases r; simp)+

definition units :: "nat \<Rightarrow> string" where
  "units n = enc_str (replicate n (CHR ''u''))"

definition read_units :: "string \<Rightarrow> (nat \<times> string) option" where
  "read_units s = map_option (apfst length) (read_str s)"

lemma read_units [simp]: "read_units (units n @ r) = Some (n, r)"
  by (simp add: units_def read_units_def)

definition enc_int :: "int \<Rightarrow> string" where
  "enc_int i = units (nat i) @ units (nat (- i))"

definition read_int :: "string \<Rightarrow> (int \<times> string) option" where
  "read_int s = (case read_units s of None \<Rightarrow> None
     | Some (p, r) \<Rightarrow> map_option (apfst (\<lambda>n. int p - int n)) (read_units r))"

lemma read_enc_int [simp]: "read_int (enc_int i @ r) = Some (i, r)"
  by (simp add: read_int_def enc_int_def)

definition enc_rat :: "rat \<Rightarrow> string" where
  "enc_rat q = (let (a, b) = quotient_of q in enc_int a @ enc_int b)"

definition read_rat :: "string \<Rightarrow> (rat \<times> string) option" where
  "read_rat s = (case read_int s of None \<Rightarrow> None
     | Some (a, r) \<Rightarrow> map_option (apfst (\<lambda>b. of_int a / of_int b)) (read_int r))"

lemma read_enc_rat [simp]: "read_rat (enc_rat q @ r) = Some (q, r)"
proof -
  obtain a b where "quotient_of q = (a, b)" by fastforce
  then show ?thesis using quotient_of_div [of q a b] by (simp add: read_rat_def enc_rat_def)
qed

fun enc_key :: "jkey \<Rightarrow> string" where
  "enc_key (KStr s) = CHR ''s'' # enc_str s"
| "enc_key (KInt i) = CHR ''i'' # enc_int i"

fun read_key :: "string \<Rightarrow> (jkey \<times> string) option" where
  "read_key (t # r) = (if t = CHR ''s'' then map_option (apfst KStr) (read_str r)
     else map_option (apfst KInt) (read_int r))"
| "read_key [] = None"

lemma read_enc_key [simp]: "read_key (enc_key k @ r) = Some (k, r)"
  by (cases k) simp_all

fun enc_json :: "json \<Rightarrow> string" where
  "enc_json JNull = ''n''"
| "enc_json (JBool b) = (if b then ''t'' else ''f'')"
| "enc_json (JNum q) = CHR ''#'' # enc_rat q"
| "enc_json (JStr s) = CHR ''s'' # enc_str s"
| "enc_json (JList js) = CHR ''['' # concat (map (\<lambda>j. CHR '','' # enc_json j) js) @ '']''"
| "enc_json (JObj kvs) = CHR ''{'' # concat (map (\<lambda>(k, j). CHR '','' # enc_key k @ enc_json j) kvs) @ ''}''"

text \<open>The readers get as much fuel as the text is long; \<open>read_enc_json\<close> shows that it is enough.\<close>

fun read_json :: "nat \<Rightarrow> string \<Rightarrow> (json \<times> string) option"
  and read_items :: "nat \<Rightarrow> string \<Rightarrow> (json list \<times> string) option"
  and read_fields :: "nat \<Rightarrow> string \<Rightarrow> ((jkey \<times> json) list \<times> string) option" where
  "read_json (Suc n) (t # r) =
     (if t = CHR ''n'' then Some (JNull, r)
      else if t = CHR ''t'' then Some (JBool True, r)
      else if t = CHR ''f'' then Some (JBool False, r)
      else if t = CHR ''#'' then map_option (apfst JNum) (read_rat r)
      else if t = CHR ''s'' then map_option (apfst JStr) (read_str r)
      else if t = CHR ''['' then map_option (apfst JList) (read_items n r)
      else map_option (apfst JObj) (read_fields n r))"
| "read_json n s = None"
| "read_items (Suc n) (t # r) =
     (if t = CHR '']'' then Some ([], r)
      else (case read_json n r of None \<Rightarrow> None
            | Some (j, r') \<Rightarrow> map_option (apfst (Cons j)) (read_items n r')))"
| "read_items n s = None"
| "read_fields (Suc n) (t # r) =
     (if t = CHR ''}'' then Some ([], r)
      else (case read_key r of None \<Rightarrow> None
            | Some (k, r1) \<Rightarrow> (case read_json n r1 of None \<Rightarrow> None
            | Some (j, r2) \<Rightarrow> map_option (apfst (Cons (k, j))) (read_fields n r2))))"
| "read_fields n s = None"

lemma enc_json_not_Nil [simp]: "0 < length (enc_json j)"
  by (cases j) auto

lemma read_items_enc:
  assumes "\<And>j n r. j \<in> set js \<Longrightarrow> length (enc_json j) < n \<Longrightarrow> read_json n (enc_json j @ r) = Some (j, r)"
    and "length (concat (map (\<lambda>j. CHR '','' # enc_json j) js)) + 1 < n"
  shows "read_items n (concat (map (\<lambda>j. CHR '','' # enc_json j) js) @ CHR '']'' # r) = Some (js, r)"
  using assms
proof (induction js arbitrary: n)
  case Nil
  then show ?case by (cases n) simp_all
next
  case (Cons j js)
  then obtain m where m: "n = Suc m" by (cases n) auto
  have "read_json m (enc_json j @ concat (map (\<lambda>j. CHR '','' # enc_json j) js) @ CHR '']'' # r) =
    Some (j, concat (map (\<lambda>j. CHR '','' # enc_json j) js) @ CHR '']'' # r)"
    using Cons.prems m by (intro Cons.prems(1)) simp_all
  moreover have "read_items m (concat (map (\<lambda>j. CHR '','' # enc_json j) js) @ CHR '']'' # r) = Some (js, r)"
    using Cons.prems m by (intro Cons.IH) simp_all
  ultimately show ?case by (simp add: m)
qed

lemma read_fields_enc:
  assumes "\<And>k j n r. (k, j) \<in> set kvs \<Longrightarrow> length (enc_json j) < n \<Longrightarrow> read_json n (enc_json j @ r) = Some (j, r)"
    and "length (concat (map (\<lambda>(k, j). CHR '','' # enc_key k @ enc_json j) kvs)) + 1 < n"
  shows "read_fields n (concat (map (\<lambda>(k, j). CHR '','' # enc_key k @ enc_json j) kvs) @ CHR ''}'' # r) = Some (kvs, r)"
  using assms
proof (induction kvs arbitrary: n)
  case Nil
  then show ?case by (cases n) simp_all
next
  case (Cons kj kvs)
  obtain k j where kj: "kj = (k, j)" by fastforce
  let ?rest = "concat (map (\<lambda>(k, j). CHR '','' # enc_key k @ enc_json j) kvs) @ CHR ''}'' # r"
  obtain m where m: "n = Suc m" using Cons.prems(2) by (cases n) auto
  have "read_json m (enc_json j @ ?rest) = Some (j, ?rest)"
    using Cons.prems(2) m by (intro Cons.prems(1) [of k]) (simp_all add: kj)
  moreover have "read_fields m ?rest = Some (kvs, r)"
    using Cons.prems m by (intro Cons.IH) (simp_all add: kj, blast)
  ultimately show ?case by (simp add: m kj)
qed

lemma read_enc_json: "length (enc_json j) < n \<Longrightarrow> read_json n (enc_json j @ r) = Some (j, r)"
proof (induction j arbitrary: n r)
  case (JList js)
  then obtain m where "n = Suc m" by (cases n) auto
  with JList show ?case by (simp add: read_items_enc)
next
  case (JObj kvs)
  then obtain m where m: "n = Suc m" by (cases n) auto
  have "read_fields m (concat (map (\<lambda>(k, j). CHR '','' # enc_key k @ enc_json j) kvs) @ CHR ''}'' # r) = Some (kvs, r)"
    using JObj m by (intro read_fields_enc) (auto intro: JObj.IH)
  then show ?case by (simp add: m)
qed (case_tac n; simp)+

definition load_json :: "string \<Rightarrow> json option" where
  "load_json s = (case read_json (Suc (length s)) s of Some (j, []) \<Rightarrow> Some j | _ \<Rightarrow> None)"

lemma load_enc_json [simp]: "load_json (enc_json j) = Some j"
  using read_enc_json [of j "Suc (length (enc_json j))" "[]"] by (simp add: load_json_def)

end
