(* ===== verification/ArtifactTrust.thy ===== *)
theory ArtifactTrust
  imports JsonCodec
begin

text \<open>
  The trust chain of model artifacts (\<open>detection/persistence.py\<close>): signing \<open>metrics.json\<close> and
  publishing the hash of an artifact in the transparency log, the verifier used when models are
  loaded and promoted, and the older \<open>ModelArtifact.verify_chain\<close>.

  A directory is a dictionary from file names to contents. SHA-256, Ed25519 and the JSON codec are a
  record of operations; \<open>trust_laws\<close> is what the code relies on. A key file holds an Ed25519 key,
  another kind of key, or cannot be read.
\<close>

subsection \<open>The outside\<close>

type_synonym files = "(string, string) dict"

record trust_ops =
  cr_sha :: "string \<Rightarrow> string"
  cr_sign :: "string \<Rightarrow> string \<Rightarrow> string"
  cr_check :: "string \<Rightarrow> string \<Rightarrow> string \<Rightarrow> bool"
  cr_public :: "string \<Rightarrow> string"
  cr_fingerprint :: "string \<Rightarrow> string"
  cr_loads :: "string \<Rightarrow> json option"
  cr_dumps :: "json \<Rightarrow> string"

definition hex_digest :: "string \<Rightarrow> bool" where
  "hex_digest s \<longleftrightarrow> length s = 64 \<and> list_all (\<lambda>c. c \<in> set ''0123456789abcdef'') s"

definition trust_laws :: "trust_ops \<Rightarrow> bool" where
  "trust_laws c \<longleftrightarrow>
     (\<forall>k m. cr_check c (cr_public c k) (cr_sign c k m) m) \<and>
     (\<forall>j. cr_loads c (cr_dumps c j) = Some j) \<and>
     (\<forall>m. hex_digest (cr_sha c m))"

datatype key_file = KeyUnreadable | OtherKey | Ed25519Key string

datatype trust_error =
    ArtifactMissing | MetricsMissing | NotEd25519 | KeyFileError | MetricsUnparsable | MetricsShape
  | BadHashFormat | ShaMismatch | NoShaEntry | SignatureMissing | NoPublicKey | BadSignature
  | FingerprintMismatch | DataShaMismatch | NotInLog

text \<open>Which of them are a \<open>ModelIntegrityError\<close>; the others leave the code as they are.\<close>

definition is_integrity_error :: "trust_error \<Rightarrow> bool" where
  "is_integrity_error e \<longleftrightarrow> e \<notin> {KeyFileError, MetricsUnparsable, MetricsShape, BadHashFormat}"

definition joblib :: "string \<Rightarrow> string" where
  "joblib model_name = model_name @ ''.joblib''"

abbreviation metrics_file :: string where
  "metrics_file \<equiv> ''metrics.json''"

abbreviation signature_file :: string where
  "signature_file \<equiv> ''metrics.json.sig''"

subsection \<open>The transparency log\<close>

type_synonym transparency_log = "(string \<times> string) list"

definition log_contains :: "string \<Rightarrow> transparency_log \<Rightarrow> bool" where
  "log_contains sha l \<longleftrightarrow> sha \<in> set (map snd l)"

definition log_append :: "string \<Rightarrow> string \<Rightarrow> transparency_log \<Rightarrow> trust_error + transparency_log" where
  "log_append model_name sha l =
     (if \<not> hex_digest sha then Inl BadHashFormat
      else if log_contains sha l then Inr l else Inr (l @ [(model_name, sha)]))"

subsection \<open>Signing\<close>

definition sign_metrics :: "trust_ops \<Rightarrow> key_file \<Rightarrow> files \<Rightarrow> trust_error + files" where
  "sign_metrics c key d =
     (case key of KeyUnreadable \<Rightarrow> Inl KeyFileError | OtherKey \<Rightarrow> Inl NotEd25519
      | Ed25519Key k \<Rightarrow>
          (case dict_get d metrics_file of None \<Rightarrow> Inl KeyFileError
           | Some payload \<Rightarrow> Inr (dict_set signature_file (cr_sign c k payload) d)))"

text \<open>\<open>metrics.setdefault(model_name, {})["artifact_sha256"] = sha\<close>.\<close>

definition set_sha :: "string \<Rightarrow> string \<Rightarrow> json \<Rightarrow> json option" where
  "set_sha model_name sha metrics =
     (case metrics of
        JObj kvs \<Rightarrow>
          (case (case map_of kvs (KStr model_name) of Some e \<Rightarrow> e | None \<Rightarrow> JObj []) of
             JObj e \<Rightarrow> Some (JObj (AList.update (KStr model_name)
                 (JObj (AList.update (KStr ''artifact_sha256'') (JStr sha) e)) kvs))
           | _ \<Rightarrow> None)
      | _ \<Rightarrow> None)"

text \<open>The operation writes files before it can fail, so it returns the directory in every case.\<close>

definition sign_and_register ::
  "trust_ops \<Rightarrow> string \<Rightarrow> key_file \<Rightarrow> files \<times> transparency_log \<Rightarrow> (trust_error + string) \<times> files \<times> transparency_log" where
  "sign_and_register c model_name key st =
     (let (d, l) = st in
      case dict_get d (joblib model_name) of None \<Rightarrow> (Inl ArtifactMissing, d, l)
      | Some content \<Rightarrow>
     (case dict_get d metrics_file of None \<Rightarrow> (Inl MetricsMissing, d, l)
      | Some payload \<Rightarrow>
     (case key of KeyUnreadable \<Rightarrow> (Inl KeyFileError, d, l) | OtherKey \<Rightarrow> (Inl NotEd25519, d, l)
      | Ed25519Key k \<Rightarrow>
          let sha = cr_sha c content in
     (case cr_loads c payload of None \<Rightarrow> (Inl MetricsUnparsable, d, l)
      | Some metrics \<Rightarrow>
     (case set_sha model_name sha metrics of None \<Rightarrow> (Inl MetricsShape, d, l)
      | Some metrics' \<Rightarrow>
          let d1 = dict_set metrics_file (cr_dumps c metrics') d in
     (case sign_metrics c key d1 of Inl e \<Rightarrow> (Inl e, d1, l)
      | Inr d2 \<Rightarrow>
     (case log_append model_name sha l of Inl e \<Rightarrow> (Inl e, d2, l)
      | Inr l' \<Rightarrow> (Inr sha, d2, l'))))))))"

subsection \<open>Verifying\<close>

definition verifier_verify ::
  "trust_ops \<Rightarrow> string \<Rightarrow> string \<Rightarrow> string option \<Rightarrow> files \<Rightarrow> transparency_log \<Rightarrow> trust_error + string" where
  "verifier_verify c model_name public_key expected_sha256 d l =
     (case dict_get d (joblib model_name) of None \<Rightarrow> Inl ArtifactMissing
      | Some content \<Rightarrow>
          let actual_sha = cr_sha c content in
          if expected_sha256 \<noteq> None \<and> expected_sha256 \<noteq> Some actual_sha then Inl ShaMismatch
          else (case dict_get d metrics_file of None \<Rightarrow> Inl MetricsMissing
           | Some payload \<Rightarrow>
          (case dict_get d signature_file of None \<Rightarrow> Inl SignatureMissing
           | Some signature \<Rightarrow>
               if \<not> cr_check c public_key signature payload then Inl BadSignature
               else if \<not> log_contains actual_sha l then Inl NotInLog
               else Inr actual_sha)))"

text \<open>\<open>(metrics.get(model_name) or {}).get("artifact_sha256")\<close>; \<open>None\<close> is an \<open>AttributeError\<close>.\<close>

definition recorded_sha :: "string \<Rightarrow> json \<Rightarrow> json option" where
  "recorded_sha model_name metrics =
     (case metrics of
        JObj kvs \<Rightarrow>
          (case map_of kvs (KStr model_name) of
             None \<Rightarrow> Some JNull
           | Some (JObj e) \<Rightarrow> Some (case map_of e (KStr ''artifact_sha256'') of Some s \<Rightarrow> s | None \<Rightarrow> JNull)
           | Some j \<Rightarrow> if j \<in> {JNull, JBool False, JNum 0, JStr [], JList []} then Some JNull else None)
      | _ \<Rightarrow> None)"

definition get_key :: "string \<Rightarrow> json \<Rightarrow> json" where
  "get_key k metrics = (case metrics of
     JObj kvs \<Rightarrow> (case map_of kvs (KStr k) of Some v \<Rightarrow> v | None \<Rightarrow> JNull) | _ \<Rightarrow> JNull)"

definition artifact_verify_chain ::
  "trust_ops \<Rightarrow> string \<Rightarrow> string option \<Rightarrow> string \<Rightarrow> string option \<Rightarrow> files \<Rightarrow> trust_error + unit" where
  "artifact_verify_chain c model_name public_key fingerprint expected_data d =
     (case dict_get d metrics_file of None \<Rightarrow> Inl MetricsMissing
      | Some payload \<Rightarrow>
     (case cr_loads c payload of None \<Rightarrow> Inl MetricsUnparsable
      | Some metrics \<Rightarrow>
     (case dict_get d (joblib model_name) of None \<Rightarrow> Inl ArtifactMissing
      | Some content \<Rightarrow>
     (case recorded_sha model_name metrics of None \<Rightarrow> Inl MetricsShape
      | Some expected \<Rightarrow>
          if expected = JNull then Inl NoShaEntry
          else if JStr (cr_sha c content) \<noteq> expected then Inl ShaMismatch
          else
     (case dict_get d signature_file of None \<Rightarrow> Inl SignatureMissing
      | Some signature \<Rightarrow>
     (case public_key of None \<Rightarrow> Inl NoPublicKey
      | Some pk \<Rightarrow>
          if \<not> cr_check c pk signature payload then Inl BadSignature
          else if fingerprint \<noteq> [] \<and> cr_fingerprint c pk \<noteq> fingerprint then Inl FingerprintMismatch
          else (case expected_data of None \<Rightarrow> Inr ()
                | Some e \<Rightarrow> if get_key ''training_data_sha256'' metrics \<noteq> JStr e then Inl DataShaMismatch else Inr ())))))))"

subsection \<open>What signing gives\<close>

lemma joblib_inj [simp]: "joblib m = joblib n \<longleftrightarrow> m = n"
  by (simp add: joblib_def)

lemma joblib_not_metrics [simp]: "joblib n \<noteq> metrics_file" "joblib n \<noteq> signature_file"
  by (auto simp: joblib_def append_eq_Cons_conv Cons_eq_append_conv dest!: arg_cong [where f = last])

lemma log_append_contains: "log_append n sha l = Inr l' \<Longrightarrow> log_contains sha l' \<and> (\<forall>h. log_contains h l \<longrightarrow> log_contains h l')"
  by (auto simp: log_append_def log_contains_def split: if_splits)

text \<open>What a successful signature leaves behind.\<close>

lemma sign_and_registerD:
  assumes "sign_and_register c n key (d, l) = (Inr sha, d', l')"
  obtains k content payload metrics metrics' where
    "key = Ed25519Key k" "dict_get d (joblib n) = Some content" "sha = cr_sha c content"
    "dict_get d metrics_file = Some payload" "cr_loads c payload = Some metrics"
    "set_sha n sha metrics = Some metrics'"
    "d' = dict_set signature_file (cr_sign c k (cr_dumps c metrics')) (dict_set metrics_file (cr_dumps c metrics') d)"
    "log_append n sha l = Inr l'"
  using assms by (auto simp: sign_and_register_def Let_def sign_metrics_def
      split: option.splits key_file.splits sum.splits)

lemma recorded_set_sha: "set_sha n sha m = Some m' \<Longrightarrow> recorded_sha k m' = (if k = n then Some (JStr sha) else recorded_sha k m)"
  by (auto simp: set_sha_def recorded_sha_def update_conv split: json.splits)

lemma signed_directory:
  assumes "sign_and_register c n (Ed25519Key k) (d, l) = (Inr sha, d', l')" and "trust_laws c"
  shows "\<exists>payload signature metrics. dict_get d' metrics_file = Some payload \<and> dict_get d' signature_file = Some signature \<and>
      cr_check c (cr_public c k) signature payload \<and> cr_loads c payload = Some metrics \<and>
      recorded_sha n metrics = Some (JStr sha)"
    and "dict_get d' (joblib m) = dict_get d (joblib m)"
    and "\<exists>content. dict_get d (joblib n) = Some content \<and> sha = cr_sha c content"
    and "log_contains sha l'" and "\<forall>h. log_contains h l \<longrightarrow> log_contains h l'"
proof -
  from assms(1) obtain content payload metrics metrics' where s:
    "dict_get d (joblib n) = Some content" "sha = cr_sha c content" "set_sha n sha metrics = Some metrics'"
    "d' = dict_set signature_file (cr_sign c k (cr_dumps c metrics')) (dict_set metrics_file (cr_dumps c metrics') d)"
    "log_append n sha l = Inr l'"
    by (elim sign_and_registerD) auto
  show "\<exists>payload signature metrics. dict_get d' metrics_file = Some payload \<and> dict_get d' signature_file = Some signature \<and>
      cr_check c (cr_public c k) signature payload \<and> cr_loads c payload = Some metrics \<and>
      recorded_sha n metrics = Some (JStr sha)"
    using assms(2) recorded_set_sha [OF s(3), of n] by (simp add: s(4) trust_laws_def)
  show "dict_get d' (joblib m) = dict_get d (joblib m)" by (simp add: s(4))
  show "\<exists>content. dict_get d (joblib n) = Some content \<and> sha = cr_sha c content" using s by blast
  show "log_contains sha l'" "\<forall>h. log_contains h l \<longrightarrow> log_contains h l'"
    using log_append_contains [OF s(5)] by blast+
qed

text \<open>
  What is signed verifies: after an artifact was signed and published, both verifiers accept it
  under the matching public key.
\<close>

theorem signed_then_verifies:
  assumes "trust_laws c" and "sign_and_register c n (Ed25519Key k) (d, l) = (Inr sha, d', l')"
  shows "verifier_verify c n (cr_public c k) (Some sha) d' l' = Inr sha \<and>
    artifact_verify_chain c n (Some (cr_public c k)) [] None d' = Inr ()"
proof -
  note sd = signed_directory [OF assms(2,1)]
  from sd(1) obtain payload signature metrics where
    "dict_get d' metrics_file = Some payload" "dict_get d' signature_file = Some signature"
    "cr_check c (cr_public c k) signature payload" "cr_loads c payload = Some metrics"
    "recorded_sha n metrics = Some (JStr sha)" by blast
  moreover from sd(3) obtain content where "dict_get d' (joblib n) = Some content" "sha = cr_sha c content"
    using sd(2) [of n] by auto
  ultimately show ?thesis using sd(4) by (simp add: verifier_verify_def artifact_verify_chain_def Let_def)
qed

text \<open>A toy instance of the outside: digests padded to 64 characters, signatures that are the text.\<close>

definition demo_trust :: trust_ops where
  "demo_trust = \<lparr>cr_sha = (\<lambda>m. take 64 (concat (map (\<lambda>ch. if ch = CHR ''0'' then ''0'' else ''1'') m) @ replicate 64 (CHR ''f''))),
     cr_sign = (\<lambda>k m. m), cr_check = (\<lambda>pk s m. s = m), cr_public = id, cr_fingerprint = id,
     cr_loads = load_json, cr_dumps = enc_json\<rparr>"

lemma hex_padded: "hex_digest (take 64 (concat (map (\<lambda>ch. if ch = CHR ''0'' then ''0'' else ''1'') m) @ replicate 64 (CHR ''f'')))"
proof -
  have "set (concat (map (\<lambda>ch. if ch = CHR ''0'' then ''0'' else ''1'') m) @ replicate 64 (CHR ''f'')) \<subseteq> set ''0123456789abcdef''"
    by auto
  then have "set (take 64 (concat (map (\<lambda>ch. if ch = CHR ''0'' then ''0'' else ''1'') m) @ replicate 64 (CHR ''f'')))
      \<subseteq> set ''0123456789abcdef''" using set_take_subset by fast
  then show ?thesis unfolding hex_digest_def list_all_iff by (intro conjI) (simp, blast)
qed

lemma demo_trust_laws: "trust_laws demo_trust"
  using hex_padded by (simp add: trust_laws_def demo_trust_def)

text \<open>A directory with two models, signed with one key.\<close>

definition demo_dir :: files where
  "demo_dir = [(joblib ''rf'', ''00''), (joblib ''xgb'', ''01''), (metrics_file, enc_json (JObj []))]"

abbreviation demo_sha :: "string \<Rightarrow> string" where
  "demo_sha \<equiv> cr_sha demo_trust"

definition demo_signed :: "files \<times> transparency_log" where
  "demo_signed = snd (sign_and_register demo_trust ''rf'' (Ed25519Key ''k'') (demo_dir, [(''xgb'', demo_sha ''01'')]))"

lemma demo_signed:
  "sign_and_register demo_trust ''rf'' (Ed25519Key ''k'') (demo_dir, [(''xgb'', demo_sha ''01'')]) =
     (Inr (demo_sha ''00''), fst demo_signed, snd demo_signed)" (is "?s = _")
proof -
  have "hex_digest (demo_sha m)" for m using demo_trust_laws by (simp add: trust_laws_def)
  moreover have "cr_loads demo_trust (enc_json j) = Some j" "cr_dumps demo_trust = enc_json" for j
    by (simp_all add: demo_trust_def)
  ultimately have "fst ?s = Inr (demo_sha ''00'')"
    by (simp add: sign_and_register_def demo_dir_def joblib_def set_sha_def sign_metrics_def log_append_def Let_def
        del: enc_json.simps)
  then show ?thesis unfolding demo_signed_def by (metis prod.collapse)
qed

lemma signed_then_verifies_witness:
  "verifier_verify demo_trust ''rf'' (cr_public demo_trust ''k'') (Some (demo_sha ''00'')) (fst demo_signed) (snd demo_signed) =
     Inr (demo_sha ''00'') \<and>
   artifact_verify_chain demo_trust ''rf'' (Some (cr_public demo_trust ''k'')) [] None (fst demo_signed) = Inr ()"
  by (rule signed_then_verifies [OF demo_trust_laws demo_signed])

text \<open>
  The verifier used at load time binds neither the model nor the metrics to the artifact: any content
  whose hash is in the log, of whatever model and however old, is accepted under any name beside any
  signed \<open>metrics.json\<close>. The older check compares with the hash that was signed and refuses it.
\<close>

theorem verifier_accepts_swapped:
  assumes "trust_laws c" and "sign_and_register c n (Ed25519Key k) (d, l) = (Inr sha, d', l')"
    and "log_contains (cr_sha c other) l'" and "cr_sha c other \<noteq> sha"
  shows "verifier_verify c n (cr_public c k) None (dict_set (joblib n) other d') l' = Inr (cr_sha c other) \<and>
    artifact_verify_chain c n (Some (cr_public c k)) [] None (dict_set (joblib n) other d') = Inl ShaMismatch"
proof -
  from signed_directory(1) [OF assms(2,1)] obtain payload signature metrics where
    "dict_get d' metrics_file = Some payload" "dict_get d' signature_file = Some signature"
    "cr_check c (cr_public c k) signature payload" "cr_loads c payload = Some metrics"
    "recorded_sha n metrics = Some (JStr sha)" by blast
  then show ?thesis using assms(3,4) joblib_not_metrics [of n, symmetric]
    by (simp add: verifier_verify_def artifact_verify_chain_def Let_def)
qed

lemma verifier_accepts_swapped_witness:
  "verifier_verify demo_trust ''rf'' (cr_public demo_trust ''k'') None
     (dict_set (joblib ''rf'') ''01'' (fst demo_signed)) (snd demo_signed) = Inr (demo_sha ''01'') \<and>
   artifact_verify_chain demo_trust ''rf'' (Some (cr_public demo_trust ''k'')) [] None
     (dict_set (joblib ''rf'') ''01'' (fst demo_signed)) = Inl ShaMismatch"
proof (rule verifier_accepts_swapped [OF demo_trust_laws demo_signed])
  show "log_contains (demo_sha ''01'') (snd demo_signed)"
    using signed_directory(5) [OF demo_signed demo_trust_laws] by (simp add: log_contains_def)
  show "demo_sha ''01'' \<noteq> demo_sha ''00''" by (simp add: demo_trust_def numeral_eq_Suc)
qed

text \<open>The log only grows, and holds each hash once.\<close>

lemma log_append_only:
  assumes "log_append n sha l = Inr l'" and "distinct (map snd l)"
  shows "distinct (map snd l') \<and> take (length l) l' = l"
  using assms by (auto simp: log_append_def log_contains_def split: if_splits)

end
