(* ===== verification/ModelGovernance.thy ===== *)
theory ModelGovernance
  imports ArtifactTrust ArtifactRegistry
begin

text \<open>
  The gate for promoting and rolling back production models (\<open>detection/model_governance.py\<close>) over the
  trust chain of \<open>ArtifactTrust\<close> and the registry of \<open>ArtifactRegistry\<close>.

  The world holds the table of model versions, the audit log, the directories with their files, the
  transparency log and the registry. The directories of candidates, of production and of the archive
  are entries of one dictionary. Times, time stamps and fresh identifiers are arguments of a request;
  the compatibility contract (\<open>detection/artifact_compatibility.py\<close>) is a parameter, and the registry
  is one passed by the caller. The lock makes what happens under it one step. Metrics are rationals.
\<close>

subsection \<open>State\<close>

record model_version =
  mv_id :: string
  mv_path :: string
  mv_signature :: "(string \<times> string) list"
  mv_status :: string
  mv_promoted_at :: "instant option"
  mv_promoted_by :: "string option"
  mv_parent :: "string option"
  mv_blocked_reason :: "string option"
  mv_rolled_back_by :: "string option"
  mv_quarantined_at :: "instant option"
  mv_quarantine_reason :: "string option"
  mv_archive :: "string option"
  mv_restored_from :: "string option"

definition new_version :: "string \<Rightarrow> string \<Rightarrow> string \<Rightarrow> model_version" where
  "new_version i path status = \<lparr>mv_id = i, mv_path = path, mv_signature = [], mv_status = status,
     mv_promoted_at = None, mv_promoted_by = None, mv_parent = None, mv_blocked_reason = None,
     mv_rolled_back_by = None, mv_quarantined_at = None, mv_quarantine_reason = None, mv_archive = None,
     mv_restored_from = None\<rparr>"

datatype auth_error = EmptyActor | NoSecret | ActorNotAllowed | BadCredential

datatype gov_error =
    Unauthorized auth_error | QuarantinedModel string | RegressionGate | NoSigningKey
  | ArtifactTrust trust_error | OtherTrustError trust_error | Incompatible string
  | RegistryFailure artifact_error | NoModelArtifacts | NoRollbackTarget | NoArchive | DuplicateVersion

record audit_row =
  ad_actor :: string
  ad_action :: string
  ad_models :: "string list"
  ad_success :: bool
  ad_version :: "string option"
  ad_reason :: "gov_error option"

record gov =
  gv_versions :: "model_version list"
  gv_audit :: "audit_row list"
  gv_dirs :: "(string, files) dict"
  gv_log :: transparency_log
  gv_registry :: registry

record gov_config =
  gc_secret :: string
  gc_actors :: string
  gc_hmac :: "string \<Rightarrow> string \<Rightarrow> string"
  gc_tolerance :: rat
  gc_trust :: trust_ops
  gc_key :: "key_file option"
  gc_public :: string
  gc_compatible :: "files \<Rightarrow> string \<Rightarrow> string option"
  gc_model_registry :: "string list"

subsection \<open>Authorization\<close>

fun split_at_char :: "char \<Rightarrow> string \<Rightarrow> string list" where
  "split_at_char c [] = [[]]"
| "split_at_char c (x # s) = (if x = c then [] # split_at_char c s
     else (case split_at_char c s of w # ws \<Rightarrow> (x # w) # ws | [] \<Rightarrow> [[x]]))"

definition is_blank :: "char \<Rightarrow> bool" where
  "is_blank c \<longleftrightarrow> (of_char c :: nat) \<in> {9..13} \<union> {28..32}"

definition strip_blanks :: "string \<Rightarrow> string" where
  "strip_blanks s = rev (dropWhile is_blank (rev (dropWhile is_blank s)))"

definition authorized_actors :: "gov_config \<Rightarrow> string list" where
  "authorized_actors cfg = filter (\<lambda>a. a \<noteq> []) (map strip_blanks (split_at_char CHR '','' (gc_actors cfg)))"

definition expected_credential :: "gov_config \<Rightarrow> string \<Rightarrow> string" where
  "expected_credential cfg actor = gc_hmac cfg (gc_secret cfg) actor"

definition authorize_actor :: "gov_config \<Rightarrow> string \<Rightarrow> string \<Rightarrow> auth_error option" where
  "authorize_actor cfg actor credential =
     (if actor = [] then Some EmptyActor
      else if gc_secret cfg = [] then Some NoSecret
      else if actor \<notin> set (authorized_actors cfg) then Some ActorNotAllowed
      else if expected_credential cfg actor \<noteq> credential then Some BadCredential
      else None)"

subsection \<open>The regression gate\<close>

type_synonym metrics = "(string, (string, rat) dict) dict"

definition regressed :: "rat \<Rightarrow> string \<Rightarrow> (string, rat) dict \<Rightarrow> (string, rat) dict \<Rightarrow> bool" where
  "regressed tolerance key old new =
     (case (dict_get old key, dict_get new key) of (Some a, Some b) \<Rightarrow> b < a - tolerance | _ \<Rightarrow> False)"

definition evaluate_regression_gate :: "metrics option \<Rightarrow> metrics option \<Rightarrow> string list \<Rightarrow> rat \<Rightarrow> bool" where
  "evaluate_regression_gate old_metrics new_metrics model_names tolerance =
     (case old_metrics of None \<Rightarrow> True | Some old \<Rightarrow> if old = [] then True else
      (case new_metrics of None \<Rightarrow> False | Some new \<Rightarrow> if new = [] then False else
        list_all (\<lambda>n. case (dict_get old n, dict_get new n) of
            (None, _) \<Rightarrow> True
          | (Some o_m, None) \<Rightarrow> False
          | (Some o_m, Some n_m) \<Rightarrow> \<not> regressed tolerance ''auc_roc'' o_m n_m \<and> \<not> regressed tolerance ''f1'' o_m n_m)
          model_names))"

subsection \<open>Signing a candidate\<close>

fun sign_all ::
  "trust_ops \<Rightarrow> key_file \<Rightarrow> string \<Rightarrow> string list \<Rightarrow> files \<times> transparency_log \<Rightarrow>
   (trust_error + (string \<times> string) list) \<times> files \<times> transparency_log" where
  "sign_all c key pk [] st = (Inr [], st)"
| "sign_all c key pk (n # ns) st =
     (case sign_and_register c n key st of
        (Inl e, st1) \<Rightarrow> (Inl e, st1)
      | (Inr sha, st1) \<Rightarrow>
          (case verifier_verify c n pk (Some sha) (fst st1) (snd st1) of
             Inl e \<Rightarrow> (Inl e, st1)
           | Inr v \<Rightarrow>
               (case sign_all c key pk ns st1 of
                  (Inl e, st2) \<Rightarrow> (Inl e, st2)
                | (Inr shas, st2) \<Rightarrow> (Inr ((n, v) # shas), st2))))"

definition wrap_trust :: "trust_error \<Rightarrow> gov_error" where
  "wrap_trust e = (if is_integrity_error e then ArtifactTrust e else OtherTrustError e)"

definition sign_and_verify_candidate ::
  "gov_config \<Rightarrow> string list \<Rightarrow> files \<times> transparency_log \<Rightarrow>
   (gov_error + (string \<times> string) list) \<times> files \<times> transparency_log" where
  "sign_and_verify_candidate cfg model_names st =
     (case gc_key cfg of None \<Rightarrow> (Inl NoSigningKey, st)
      | Some key \<Rightarrow> apfst (map_sum wrap_trust id) (sign_all (gc_trust cfg) key (gc_public cfg) model_names st))"

text \<open>The registry's \<open>trust_verifier\<close>, for artifacts that lie in one directory.\<close>

definition trust_verifier :: "gov_config \<Rightarrow> files \<Rightarrow> transparency_log \<Rightarrow> artifact \<Rightarrow> string option" where
  "trust_verifier cfg d l a =
     (case verifier_verify (gc_trust cfg) (art_name a) (gc_public cfg) (Some (art_sha256 a)) d l of
        Inl _ \<Rightarrow> Some ''trust'' | Inr sha \<Rightarrow> if sha \<noteq> art_sha256 a then Some ''sha256'' else None)"

definition verify_compatibility :: "gov_config \<Rightarrow> files \<Rightarrow> string list \<Rightarrow> string option" where
  "verify_compatibility cfg d model_names =
     (case List.find (\<lambda>n. gc_compatible cfg d n \<noteq> None) model_names of
        None \<Rightarrow> None | Some n \<Rightarrow> gc_compatible cfg d n)"

subsection \<open>Files\<close>

definition dir_of :: "gov \<Rightarrow> string \<Rightarrow> files" where
  "dir_of w p = (case dict_get (gv_dirs w) p of Some d \<Rightarrow> d | None \<Rightarrow> [])"

definition set_dir :: "string \<Rightarrow> files \<Rightarrow> gov \<Rightarrow> gov" where
  "set_dir p d w = w\<lparr>gv_dirs := dict_set p d (gv_dirs w)\<rparr>"

definition copy_files :: "files \<Rightarrow> files \<Rightarrow> files" where
  "copy_files src dst = foldl (\<lambda>d (f, c). dict_set f c d) dst src"

definition take_lock :: "string \<Rightarrow> gov \<Rightarrow> gov" where
  "take_lock model_dir w =
     (let d = dir_of w model_dir in
      set_dir model_dir (if dict_get d ''.promotion.lock'' = None then dict_set ''.promotion.lock'' [] d else d) w)"

definition archive_path :: "string \<Rightarrow> string \<Rightarrow> string" where
  "archive_path model_dir stamp = model_dir @ ''/archive/'' @ stamp"

definition archive_production :: "string \<Rightarrow> string \<Rightarrow> gov \<Rightarrow> gov" where
  "archive_production model_dir stamp w =
     set_dir (archive_path model_dir stamp)
       (copy_files (dir_of w model_dir) (dir_of w (archive_path model_dir stamp))) w"

definition publish_files :: "string \<Rightarrow> string \<Rightarrow> gov \<Rightarrow> gov" where
  "publish_files src model_dir w = set_dir model_dir (copy_files (dir_of w src) (dir_of w model_dir)) w"

definition candidate_model_names :: "gov_config \<Rightarrow> files \<Rightarrow> string list option \<Rightarrow> string list" where
  "candidate_model_names cfg d model_names =
     (case model_names of Some ns \<Rightarrow> ns
      | None \<Rightarrow> filter (\<lambda>n. dict_get d (joblib n) \<noteq> None) (gc_model_registry cfg))"

subsection \<open>Versions\<close>

text \<open>The newest of the rows that satisfy \<open>P\<close>, and the oldest, by the time of promotion; a row
  without a time is the oldest.\<close>

definition newest :: "(model_version \<Rightarrow> instant option) \<Rightarrow> (model_version \<Rightarrow> bool) \<Rightarrow> gov \<Rightarrow> model_version option" where
  "newest time_of P w =
     (let rows = filter P (gv_versions w) in
      case sort_key (\<lambda>v. - the (time_of v)) (filter (\<lambda>v. time_of v \<noteq> None) rows) @ filter (\<lambda>v. time_of v = None) rows of
        [] \<Rightarrow> None | v # _ \<Rightarrow> Some v)"

definition oldest :: "(model_version \<Rightarrow> bool) \<Rightarrow> gov \<Rightarrow> model_version option" where
  "oldest P w =
     (let rows = filter P (gv_versions w) in
      case filter (\<lambda>v. mv_promoted_at v = None) rows @
          sort_key (\<lambda>v. the (mv_promoted_at v)) (filter (\<lambda>v. mv_promoted_at v \<noteq> None) rows) of
        [] \<Rightarrow> None | v # _ \<Rightarrow> Some v)"

definition in_production :: "model_version \<Rightarrow> bool" where
  "in_production v \<longleftrightarrow> mv_status v = ''production''"

definition version_named :: "string \<Rightarrow> gov \<Rightarrow> model_version option" where
  "version_named i w = row_where mv_id i (gv_versions w)"

definition change_version :: "string \<Rightarrow> (model_version \<Rightarrow> model_version) \<Rightarrow> gov \<Rightarrow> gov" where
  "change_version i f w = w\<lparr>gv_versions := update_where mv_id i f (gv_versions w)\<rparr>"

definition add_version :: "model_version \<Rightarrow> gov \<Rightarrow> gov" where
  "add_version v w = w\<lparr>gv_versions := gv_versions w @ [v]\<rparr>"

definition audit :: "string \<Rightarrow> string \<Rightarrow> string list \<Rightarrow> string option \<Rightarrow> gov_error option \<Rightarrow> gov \<Rightarrow> gov" where
  "audit actor action models version e w =
     w\<lparr>gv_audit := gv_audit w @ [\<lparr>ad_actor = actor, ad_action = action, ad_models = models,
        ad_success = (e = None), ad_version = version, ad_reason = e\<rparr>]\<rparr>"

definition quarantine_candidate :: "string \<Rightarrow> instant \<Rightarrow> string \<Rightarrow> string \<Rightarrow> gov \<Rightarrow> gov" where
  "quarantine_candidate i now candidate_dir reason w =
     add_version ((new_version i candidate_dir ''quarantined'')
       \<lparr>mv_quarantined_at := Some now, mv_quarantine_reason := Some reason\<rparr>) w"

definition existing_quarantine_reason :: "string \<Rightarrow> gov \<Rightarrow> string option" where
  "existing_quarantine_reason candidate_dir w =
     (case newest mv_quarantined_at (\<lambda>v. mv_path v = candidate_dir \<and> mv_status v = ''quarantined'') w of
        None \<Rightarrow> None | Some v \<Rightarrow> mv_quarantine_reason v)"

definition record_shadow_start :: "string \<Rightarrow> string \<Rightarrow> gov \<Rightarrow> gov_error + gov" where
  "record_shadow_start i candidate_dir w =
     (if version_named i w \<noteq> None then Inl DuplicateVersion
      else Inr (add_version (new_version i candidate_dir ''shadow'') w))"

definition record_shadow_outcome :: "string \<Rightarrow> string \<Rightarrow> string option \<Rightarrow> gov \<Rightarrow> gov" where
  "record_shadow_outcome i status reason w =
     change_version i (\<lambda>v. v\<lparr>mv_status := status, mv_blocked_reason := reason\<rparr>) w"

subsection \<open>Promotion\<close>

text \<open>\<open>pr_backdoor\<close>: the scan's recommendation, and the reason it gives, a string, if it gives one.\<close>

record promotion =
  pr_candidate :: string
  pr_model_dir :: string
  pr_actor :: string
  pr_credential :: string
  pr_old_metrics :: "metrics option"
  pr_new_metrics :: "metrics option"
  pr_model_names :: "string list option"
  pr_backdoor :: "(bool \<times> string option) option"
  pr_now :: instant
  pr_clock :: clock
  pr_stamp :: string
  pr_version_id :: string
  pr_quarantine_id :: string
  pr_artifact_version :: "string \<Rightarrow> string"

text \<open>Registering, validating and promoting every model of the published directory.\<close>

fun promote_all ::
  "(string \<Rightarrow> string option) \<Rightarrow> promotion \<Rightarrow> string list \<Rightarrow> registry \<Rightarrow> (artifact_error + unit) \<times> registry" where
  "promote_all shas pr [] r = (Inr (), r)"
| "promote_all shas pr (n # ns) r =
     (let m = (case pr_new_metrics pr of None \<Rightarrow> [] | Some ms \<Rightarrow>
            (case dict_get ms n of None \<Rightarrow> [] | Some m \<Rightarrow> m)) in
      case register shas (pr_clock pr) (pr_artifact_version pr n) n (pr_model_dir pr @ ''/'' @ joblib n) m [] None r of
        (Inl e, r1) \<Rightarrow> (Inl e, r1)
      | (Inr v, r1) \<Rightarrow>
          (case validate (pr_clock pr) n v r1 of
             (Inl e, r2) \<Rightarrow> (Inl e, r2)
           | (Inr _, r2) \<Rightarrow>
               (case promote (pr_clock pr) n v r2 of
                  (Inl e, r3) \<Rightarrow> (Inl e, r3)
                | (Inr _, r3) \<Rightarrow> promote_all shas pr ns r3)))"

text \<open>The content hashes of the files of a directory, by path.\<close>

definition path_shas :: "gov_config \<Rightarrow> string \<Rightarrow> files \<Rightarrow> string \<Rightarrow> string option" where
  "path_shas cfg dir d path =
     dict_get (map (\<lambda>(f, c). (dir @ ''/'' @ f, cr_sha (gc_trust cfg) c)) d) path"

text \<open>The critical section: archive, publish, the registry, the version table.\<close>

definition publish_candidate ::
  "gov_config \<Rightarrow> promotion \<Rightarrow> string list \<Rightarrow> (string \<times> string) list \<Rightarrow> gov \<Rightarrow> (gov_error + model_version) \<times> gov" where
  "publish_candidate cfg pr names shas w0 =
     (let md = pr_model_dir pr;
          w1 = publish_files (pr_candidate pr) md (archive_production md (pr_stamp pr) (take_lock md w0))
      in case promote_all (path_shas cfg md (dir_of w1 md)) pr names (gv_registry w1) of
           (Inl e, r) \<Rightarrow> (Inl (RegistryFailure e), w1\<lparr>gv_registry := r\<rparr>)
         | (Inr _, r) \<Rightarrow>
             let w2 = w1\<lparr>gv_registry := r\<rparr>;
                 previous = newest mv_promoted_at in_production w2;
                 w3 = (case previous of None \<Rightarrow> w2
                       | Some p \<Rightarrow> change_version (mv_id p) (\<lambda>v. v\<lparr>mv_status := ''deprecated''\<rparr>) w2);
                 v = (new_version (pr_version_id pr) md ''production'')
                   \<lparr>mv_signature := map (\<lambda>(n, sha). (n, take 16 sha)) shas, mv_promoted_at := Some (pr_now pr),
                    mv_promoted_by := Some (pr_actor pr), mv_parent := map_option mv_id previous,
                    mv_archive := Some (archive_path md (pr_stamp pr))\<rparr>
             in (Inr v, audit (pr_actor pr) ''promote'' names (Some (mv_id v)) None (add_version v w3)))"

definition promote_candidate :: "gov_config \<Rightarrow> promotion \<Rightarrow> gov \<Rightarrow> (gov_error + model_version) \<times> gov" where
  "promote_candidate cfg pr w =
     (let names = candidate_model_names cfg (dir_of w (pr_candidate pr)) (pr_model_names pr);
          deny = (\<lambda>e w. (Inl e, audit (pr_actor pr) ''promote'' names None (Some e) w))
      in
      if names = [] then (Inl NoModelArtifacts, w)
      else case authorize_actor cfg (pr_actor pr) (pr_credential pr) of
        Some e \<Rightarrow> deny (Unauthorized e) w
      | None \<Rightarrow>
          let w1 = (case pr_backdoor pr of
                      Some (True, reason) \<Rightarrow> quarantine_candidate (pr_quarantine_id pr) (pr_now pr) (pr_candidate pr)
                        (case reason of Some r \<Rightarrow> r | None \<Rightarrow> ''Backdoor scan flagged this candidate.'') w
                    | _ \<Rightarrow> w)
          in case existing_quarantine_reason (pr_candidate pr) w1 of
             Some reason \<Rightarrow> deny (QuarantinedModel reason) w1
           | None \<Rightarrow>
               if \<not> evaluate_regression_gate (pr_old_metrics pr) (pr_new_metrics pr) names (gc_tolerance cfg)
               then deny RegressionGate w1
               else
                 (case sign_and_verify_candidate cfg names (dir_of w1 (pr_candidate pr), gv_log w1) of
                    (res, d, l) \<Rightarrow>
                      let w2 = (set_dir (pr_candidate pr) d w1)\<lparr>gv_log := l\<rparr> in
                      (case res of
                         Inl (OtherTrustError e) \<Rightarrow> (Inl (OtherTrustError e), w2)
                       | Inl e \<Rightarrow> deny e w2
                       | Inr shas \<Rightarrow>
                           (case verify_compatibility cfg d names of
                              Some e \<Rightarrow> deny (Incompatible e) w2
                            | None \<Rightarrow> publish_candidate cfg pr names shas w2))))"

subsection \<open>Rollback\<close>

record rollback_request =
  rb_model_dir :: string
  rb_actor :: string
  rb_credential :: string
  rb_reason :: string
  rb_target :: "string option"
  rb_now :: instant
  rb_stamp :: string
  rb_version_id :: string

fun verify_all :: "trust_ops \<Rightarrow> string \<Rightarrow> files \<Rightarrow> transparency_log \<Rightarrow> string list \<Rightarrow> trust_error option" where
  "verify_all c pk d l [] = None"
| "verify_all c pk d l (n # ns) = (case verifier_verify c n pk None d l of Inl e \<Rightarrow> Some e | Inr _ \<Rightarrow> verify_all c pk d l ns)"

text \<open>The version to restore and the version whose archive holds it.\<close>

definition rollback_target ::
  "string option \<Rightarrow> model_version option \<Rightarrow> gov \<Rightarrow> model_version option \<times> model_version option" where
  "rollback_target target current w =
     (case target of
        Some t \<Rightarrow> if t \<noteq> [] then
            (case version_named t w of None \<Rightarrow> (None, None)
             | Some v \<Rightarrow> (Some v, oldest (\<lambda>v. mv_parent v = Some t) w))
          else (case current of Some c \<Rightarrow> (case mv_parent c of
                   Some p \<Rightarrow> (version_named p w, Some c) | None \<Rightarrow> (None, None)) | None \<Rightarrow> (None, None))
      | None \<Rightarrow> (case current of Some c \<Rightarrow> (case mv_parent c of
                   Some p \<Rightarrow> (version_named p w, Some c) | None \<Rightarrow> (None, None)) | None \<Rightarrow> (None, None)))"

definition rollback_production :: "gov_config \<Rightarrow> rollback_request \<Rightarrow> gov \<Rightarrow> (gov_error + model_version) \<times> gov" where
  "rollback_production cfg rq w0 =
     (let md = rb_model_dir rq;
          deny = (\<lambda>e w. (Inl e, audit (rb_actor rq) ''rollback'' [md] (rb_target rq) (Some e) w))
      in case authorize_actor cfg (rb_actor rq) (rb_credential rq) of
        Some e \<Rightarrow> deny (Unauthorized e) w0
      | None \<Rightarrow>
          let w = take_lock md w0; current = newest mv_promoted_at in_production w in
          (case rollback_target (rb_target rq) current w of
             (Some t, Some source) \<Rightarrow>
               (case mv_archive source of None \<Rightarrow> deny NoArchive w
                | Some archive \<Rightarrow>
                    (case dict_get (gv_dirs w) archive of None \<Rightarrow> deny NoArchive w
                     | Some d \<Rightarrow>
                         let names = candidate_model_names cfg d None in
                         (case verify_all (gc_trust cfg) (gc_public cfg) d (gv_log w) names of
                            Some e \<Rightarrow> if is_integrity_error e then deny (ArtifactTrust e) w else (Inl (OtherTrustError e), w)
                          | None \<Rightarrow>
                              let w1 = publish_files archive md (archive_production md (rb_stamp rq) w);
                                  w2 = (case current of None \<Rightarrow> w1
                                    | Some c \<Rightarrow> change_version (mv_id c) (\<lambda>v. v\<lparr>mv_status := ''rolled_back'',
                                        mv_rolled_back_by := Some (rb_actor rq), mv_blocked_reason := Some (rb_reason rq)\<rparr>) w1);
                                  v = (new_version (rb_version_id rq) md ''production'')
                                    \<lparr>mv_signature := mv_signature t, mv_promoted_at := Some (rb_now rq),
                                     mv_promoted_by := Some (rb_actor rq), mv_parent := map_option mv_id current,
                                     mv_archive := Some archive, mv_restored_from := Some (mv_id t)\<rparr>
                              in (Inr v, audit (rb_actor rq) ''rollback'' names (Some (mv_id v)) None (add_version v w2)))))
           | _ \<Rightarrow> deny NoRollbackTarget w))"

subsection \<open>What the operations touch\<close>

lemma dir_of_set [simp]: "dir_of (set_dir p d w) q = (if q = p then d else dir_of w q)"
  by (simp add: dir_of_def set_dir_def)

lemma dir_of_unchanged [simp]:
  "dir_of (audit a x ms v e w) = dir_of w" "dir_of (add_version mv w) = dir_of w"
  "dir_of (change_version i f w) = dir_of w" "dir_of (quarantine_candidate i now c r w) = dir_of w"
  "dir_of (w\<lparr>gv_registry := rg\<rparr>) = dir_of w" "dir_of (w\<lparr>gv_log := l\<rparr>) = dir_of w"
  by (auto simp: dir_of_def audit_def add_version_def change_version_def quarantine_candidate_def fun_eq_iff)

lemma dirs_unchanged [simp]:
  "gv_dirs (audit a x ms v e w) = gv_dirs w" "gv_dirs (add_version mv w) = gv_dirs w"
  "gv_dirs (change_version i f w) = gv_dirs w" "gv_dirs (quarantine_candidate i now c r w) = gv_dirs w"
  "gv_dirs (set_dir p d w) = dict_set p d (gv_dirs w)"
  by (simp_all add: audit_def add_version_def change_version_def quarantine_candidate_def set_dir_def)

lemma versions_of_ops [simp]:
  "gv_versions (audit a x ms v e w) = gv_versions w" "gv_versions (set_dir p d w) = gv_versions w"
  "gv_versions (take_lock md w) = gv_versions w" "gv_versions (archive_production md st w) = gv_versions w"
  "gv_versions (publish_files src md w) = gv_versions w"
  "gv_versions (add_version mv w) = gv_versions w @ [mv]"
  "gv_versions (change_version i f w) = update_where mv_id i f (gv_versions w)"
  by (simp_all add: audit_def set_dir_def take_lock_def archive_production_def publish_files_def add_version_def
      change_version_def Let_def)

lemma audit_of_ops [simp]:
  "gv_audit (set_dir p d w) = gv_audit w" "gv_audit (take_lock md w) = gv_audit w"
  "gv_audit (archive_production md st w) = gv_audit w" "gv_audit (publish_files src md w) = gv_audit w"
  "gv_audit (add_version mv w) = gv_audit w" "gv_audit (change_version i f w) = gv_audit w"
  "gv_audit (quarantine_candidate i now c r w) = gv_audit w"
  by (simp_all add: set_dir_def take_lock_def archive_production_def publish_files_def add_version_def
      change_version_def quarantine_candidate_def Let_def)

lemma newest_SomeD: "newest t P w = Some v \<Longrightarrow> v \<in> set (gv_versions w) \<and> P v"
proof -
  assume "newest t P w = Some v"
  then obtain vs where "sort_key (\<lambda>v. - the (t v)) (filter (\<lambda>v. t v \<noteq> None) (filter P (gv_versions w))) @
      filter (\<lambda>v. t v = None) (filter P (gv_versions w)) = v # vs"
    by (auto simp: newest_def Let_def split: list.splits)
  then have "v \<in> set (sort_key (\<lambda>v. - the (t v)) (filter (\<lambda>v. t v \<noteq> None) (filter P (gv_versions w))) @
      filter (\<lambda>v. t v = None) (filter P (gv_versions w)))" by simp
  then show ?thesis by auto
qed

lemma newest_None: "newest t P w = None \<longleftrightarrow> (\<forall>v\<in>set (gv_versions w). \<not> P v)"
proof -
  have "newest t P w = None \<longleftrightarrow> sort_key (\<lambda>v. - the (t v)) (filter (\<lambda>v. t v \<noteq> None) (filter P (gv_versions w))) @
      filter (\<lambda>v. t v = None) (filter P (gv_versions w)) = []"
    by (auto simp: newest_def Let_def split: list.splits)
  also have "\<dots> \<longleftrightarrow> set (sort_key (\<lambda>v. - the (t v)) (filter (\<lambda>v. t v \<noteq> None) (filter P (gv_versions w))) @
      filter (\<lambda>v. t v = None) (filter P (gv_versions w))) = {}" by (simp only: set_empty)
  also have "\<dots> \<longleftrightarrow> (\<forall>v\<in>set (gv_versions w). \<not> P v)" by auto
  finally show ?thesis .
qed

text \<open>A row with a time comes before the rows without one.\<close>

lemma newest_timed:
  assumes "newest t P w = Some v" and "u \<in> set (gv_versions w)" and "P u" and "t u \<noteq> None"
  shows "t v \<noteq> None"
proof -
  let ?s = "sort_key (\<lambda>v. - the (t v)) (filter (\<lambda>v. t v \<noteq> None) (filter P (gv_versions w)))"
  have "u \<in> set ?s" using assms(2-4) by simp
  then have "?s \<noteq> []" by (metis empty_iff list.set(1))
  then obtain x xs where s: "?s = x # xs" by (meson neq_Nil_conv)
  then have "x \<in> set ?s" by simp
  then have "t x \<noteq> None" by simp
  moreover have "v = x" using assms(1) s by (simp add: newest_def Let_def)
  ultimately show ?thesis by simp
qed

lemma sign_failure:
  assumes "sign_and_verify_candidate cfg ns st = (Inl e, d, l)"
  shows "e = NoSigningKey \<or> (\<exists>t. e = wrap_trust t)"
proof (cases "gc_key cfg")
  case None
  then show ?thesis using assms by (simp add: sign_and_verify_candidate_def)
next
  case (Some key)
  obtain r st' where "sign_all (gc_trust cfg) key (gc_public cfg) ns st = (r, st')" by (rule prod.exhaust)
  then show ?thesis using assms Some by (cases r) (auto simp: sign_and_verify_candidate_def)
qed

text \<open>The outcome of a promotion, gate by gate.\<close>

lemma promote_cases:
  assumes "promote_candidate cfg pr w = (res, w')"
  defines "names \<equiv> candidate_model_names cfg (dir_of w (pr_candidate pr)) (pr_model_names pr)"
    and "w1 \<equiv> (case pr_backdoor pr of
                      Some (True, reason) \<Rightarrow> quarantine_candidate (pr_quarantine_id pr) (pr_now pr) (pr_candidate pr)
                        (case reason of Some r \<Rightarrow> r | None \<Rightarrow> ''Backdoor scan flagged this candidate.'') w
                    | _ \<Rightarrow> w)"
  obtains (Empty) "names = []" "res = Inl NoModelArtifacts" "w' = w"
  | (Denied) e w2 where "res = Inl e" "w' = audit (pr_actor pr) ''promote'' names None (Some e) w2"
      "w2 = w \<or> w2 = w1 \<or> (\<exists>d l. w2 = (set_dir (pr_candidate pr) d w1)\<lparr>gv_log := l\<rparr>)"
      "\<forall>t. e \<noteq> OtherTrustError t" "\<forall>r. e \<noteq> RegistryFailure r" "e \<noteq> NoModelArtifacts"
  | (Raised) e d l where "res = Inl (OtherTrustError e)" "w' = (set_dir (pr_candidate pr) d w1)\<lparr>gv_log := l\<rparr>"
  | (Published) shas d l where "names \<noteq> []" "authorize_actor cfg (pr_actor pr) (pr_credential pr) = None"
      "existing_quarantine_reason (pr_candidate pr) w1 = None"
      "evaluate_regression_gate (pr_old_metrics pr) (pr_new_metrics pr) names (gc_tolerance cfg)"
      "sign_and_verify_candidate cfg names (dir_of w1 (pr_candidate pr), gv_log w1) = (Inr shas, d, l)"
      "verify_compatibility cfg d names = None"
      "publish_candidate cfg pr names shas ((set_dir (pr_candidate pr) d w1)\<lparr>gv_log := l\<rparr>) = (res, w')"
proof -
  note u = assms(1) [unfolded promote_candidate_def, folded names_def, folded w1_def]
  show thesis
  proof (cases "names = []")
    case True
    then show thesis using u by (intro Empty) simp_all
  next
    case ne: False
    show thesis
    proof (cases "authorize_actor cfg (pr_actor pr) (pr_credential pr)")
      case (Some e)
      then show thesis using u ne by (intro Denied [of "Unauthorized e" w]) simp_all
    next
      case auth: None
      show thesis
      proof (cases "existing_quarantine_reason (pr_candidate pr) w1")
        case (Some r)
        then show thesis using u ne auth by (intro Denied [of "QuarantinedModel r" w1]) simp_all
      next
        case free: None
        show thesis
        proof (cases "evaluate_regression_gate (pr_old_metrics pr) (pr_new_metrics pr) names (gc_tolerance cfg)")
          case False
          then show thesis using u ne auth free by (intro Denied [of RegressionGate w1]) simp_all
        next
          case gate: True
          obtain r d l where sg: "sign_and_verify_candidate cfg names (dir_of w1 (pr_candidate pr), gv_log w1) = (r, d, l)"
            by (metis prod_cases3)
          let ?w2 = "(set_dir (pr_candidate pr) d w1)\<lparr>gv_log := l\<rparr>"
          show thesis
          proof (cases r)
            case (Inl e)
            have e: "\<forall>x. e \<noteq> RegistryFailure x" "e \<noteq> NoModelArtifacts"
              using sign_failure [OF sg [unfolded Inl]] by (auto simp: wrap_trust_def split: if_splits)
            show thesis
            proof (cases "\<exists>t. e = OtherTrustError t")
              case True
              then show thesis using u ne auth free gate sg Inl by (elim exE, intro Raised) auto
            next
              case False
              then have "res = Inl e" "w' = audit (pr_actor pr) ''promote'' names None (Some e) ?w2"
                using u ne auth free gate sg Inl by (cases e; simp)+
              then show thesis using e False by (intro Denied [of e ?w2]) auto
            qed
          next
            case (Inr shas)
            show thesis
            proof (cases "verify_compatibility cfg d names")
              case (Some e)
              then show thesis using u ne auth free gate sg Inr by (intro Denied [of "Incompatible e" ?w2]) auto
            next
              case None
              then show thesis using u ne auth free gate sg Inr by (intro Published [of shas d l]) auto
            qed
          qed
        qed
      qed
    qed
  qed
qed

subsection \<open>The gate\<close>

lemma quarantine_found:
  assumes "\<forall>v\<in>set (gv_versions w). mv_quarantined_at v \<noteq> None \<longrightarrow> mv_quarantine_reason v \<noteq> None"
    and "v \<in> set (gv_versions w)" "mv_path v = c" "mv_status v = ''quarantined''" "mv_quarantined_at v \<noteq> None"
  shows "existing_quarantine_reason c w \<noteq> None"
proof -
  let ?P = "\<lambda>v. mv_path v = c \<and> mv_status v = ''quarantined''"
  obtain u where u: "newest mv_quarantined_at ?P w = Some u"
    using assms(2-4) newest_None [of mv_quarantined_at ?P w] by (cases "newest mv_quarantined_at ?P w") auto
  then have "mv_quarantined_at u \<noteq> None" by (rule newest_timed) (use assms in auto)
  moreover have "u \<in> set (gv_versions w)" using newest_SomeD [OF u] by simp
  ultimately have "mv_quarantine_reason u \<noteq> None" using assms(1) by blast
  then show ?thesis using u by (simp add: existing_quarantine_reason_def)
qed

definition reasons_kept :: "gov \<Rightarrow> bool" where
  "reasons_kept w \<longleftrightarrow> (\<forall>v\<in>set (gv_versions w). mv_quarantined_at v \<noteq> None \<longrightarrow> mv_quarantine_reason v \<noteq> None)"

text \<open>
  C11. Production changes only behind the gate: if a promotion alters the production directory, then
  the actor was authorised, the candidate is not quarantined and this call's backdoor report does not
  ask for it, the metrics passed the regression gate, every model was signed and verified, and the
  compatibility contract held.
\<close>

theorem promotion_is_gated:
  assumes "promote_candidate cfg pr w = (res, w')" and "pr_candidate pr \<noteq> pr_model_dir pr"
    and "dir_of w' (pr_model_dir pr) \<noteq> dir_of w (pr_model_dir pr)" and "reasons_kept w"
  defines "names \<equiv> candidate_model_names cfg (dir_of w (pr_candidate pr)) (pr_model_names pr)"
  shows "authorize_actor cfg (pr_actor pr) (pr_credential pr) = None \<and>
    existing_quarantine_reason (pr_candidate pr) w = None \<and> (\<forall>r. pr_backdoor pr \<noteq> Some (True, r)) \<and>
    evaluate_regression_gate (pr_old_metrics pr) (pr_new_metrics pr) names (gc_tolerance cfg) \<and>
    (\<exists>shas d l. sign_and_verify_candidate cfg names (dir_of w (pr_candidate pr), gv_log w) = (Inr shas, d, l) \<and>
       verify_compatibility cfg d names = None)"
  using assms(1)
proof (cases rule: promote_cases)
  case Empty
  then show ?thesis using assms(3) by simp
next
  case (Denied e w2)
  have "dir_of w' (pr_model_dir pr) = dir_of w (pr_model_dir pr)"
    using Denied(2,3) assms(2) by (auto split: option.splits prod.splits bool.splits)
  then show ?thesis using assms(3) by simp
next
  case (Raised e d l)
  have "dir_of w' (pr_model_dir pr) = dir_of w (pr_model_dir pr)"
    using Raised(2) assms(2) by (auto split: option.splits prod.splits bool.splits)
  then show ?thesis using assms(3) by simp
next
  case (Published shas d l)
  let ?w1 = "case pr_backdoor pr of None \<Rightarrow> w
     | Some (True, reason) \<Rightarrow> quarantine_candidate (pr_quarantine_id pr) (pr_now pr) (pr_candidate pr)
         (case reason of None \<Rightarrow> ''Backdoor scan flagged this candidate.'' | Some r \<Rightarrow> r) w
     | Some (False, reason) \<Rightarrow> w"
  have b: "pr_backdoor pr \<noteq> Some (True, r)" for r
  proof
    assume r: "pr_backdoor pr = Some (True, r)"
    have "existing_quarantine_reason (pr_candidate pr) ?w1 \<noteq> None"
      using assms(4) unfolding reasons_kept_def
      by (intro quarantine_found [where v = "(new_version (pr_quarantine_id pr) (pr_candidate pr) ''quarantined'')
          \<lparr>mv_quarantined_at := Some (pr_now pr),
           mv_quarantine_reason := Some (case r of None \<Rightarrow> ''Backdoor scan flagged this candidate.'' | Some r \<Rightarrow> r)\<rparr>"])
        (auto simp: r quarantine_candidate_def new_version_def)
    then show False using Published(3) by simp
  qed
  then have "?w1 = w" by (auto split: option.split prod.split bool.split)
  then show ?thesis using Published(2-6) b unfolding names_def by auto
qed

text \<open>
  Attempts are on the record: a promotion that a gate refuses leaves exactly one failed audit row
  with the refusal, one that succeeds exactly one successful row.
\<close>

theorem attempts_are_audited:
  assumes "promote_candidate cfg pr w = (res, w')"
    and "res \<noteq> Inl NoModelArtifacts" and "\<forall>e. res \<noteq> Inl (OtherTrustError e)" and "\<forall>e. res \<noteq> Inl (RegistryFailure e)"
  shows "\<exists>row. gv_audit w' = gv_audit w @ [row] \<and> ad_actor row = pr_actor pr \<and> ad_action row = ''promote'' \<and>
    (case res of Inl e \<Rightarrow> \<not> ad_success row \<and> ad_reason row = Some e
     | Inr v \<Rightarrow> ad_success row \<and> ad_version row = Some (mv_id v))"
proof -
  have w1: "gv_audit (case pr_backdoor pr of None \<Rightarrow> w
     | Some (True, reason) \<Rightarrow> quarantine_candidate (pr_quarantine_id pr) (pr_now pr) (pr_candidate pr)
         (case reason of None \<Rightarrow> ''Backdoor scan flagged this candidate.'' | Some r \<Rightarrow> r) w
     | Some (False, reason) \<Rightarrow> w) = gv_audit w"
    by (auto split: option.split prod.split bool.split)
  from assms(1) show ?thesis
  proof (cases rule: promote_cases)
    case (Denied e w2)
    have "gv_audit w2 = gv_audit w" using Denied(3) w1 by auto
    then show ?thesis using Denied(1,2) by (simp add: audit_def)
  next
    case (Published shas d l)
    have "gv_audit ((set_dir (pr_candidate pr) d (case pr_backdoor pr of None \<Rightarrow> w
     | Some (True, reason) \<Rightarrow> quarantine_candidate (pr_quarantine_id pr) (pr_now pr) (pr_candidate pr)
         (case reason of None \<Rightarrow> ''Backdoor scan flagged this candidate.'' | Some r \<Rightarrow> r) w
     | Some (False, reason) \<Rightarrow> w))\<lparr>gv_log := l\<rparr>) = gv_audit w" using w1 by simp
    then show ?thesis using Published(7) assms(4)
      by (auto simp: publish_candidate_def Let_def audit_def split: prod.splits sum.splits option.splits)
  qed (use assms in auto)
qed

subsection \<open>Histories\<close>

datatype gov_event =
    PromoteEvent promotion | RollbackEvent rollback_request | QuarantineEvent string instant string string
  | ShadowStart string string | ShadowOutcome string string "string option"

fun gov_step :: "gov_config \<Rightarrow> gov \<Rightarrow> gov_event \<Rightarrow> gov" where
  "gov_step cfg w (PromoteEvent pr) = snd (promote_candidate cfg pr w)"
| "gov_step cfg w (RollbackEvent rq) = snd (rollback_production cfg rq w)"
| "gov_step cfg w (QuarantineEvent i now c reason) = quarantine_candidate i now c reason w"
| "gov_step cfg w (ShadowStart i c) = (case record_shadow_start i c w of Inl _ \<Rightarrow> w | Inr w' \<Rightarrow> w')"
| "gov_step cfg w (ShadowOutcome i status reason) = record_shadow_outcome i status reason w"

text \<open>
  What an operation can do to the table of versions: add rows that are not in production, change one
  row in production to another status, and add one row in production.
\<close>

inductive version_change :: "string set \<Rightarrow> model_version list \<Rightarrow> model_version list \<Rightarrow> bool" for ids where
  same: "version_change ids vs vs"
| aside: "\<lbrakk>version_change ids vs us; \<not> in_production v; mv_id v \<in> ids;
     mv_quarantined_at v \<noteq> None \<longrightarrow> mv_quarantine_reason v \<noteq> None\<rbrakk> \<Longrightarrow> version_change ids vs (us @ [v])"
| replaced: "\<lbrakk>version_change ids vs us;
     case p of Some q \<Rightarrow> q \<in> set us \<and> in_production q | None \<Rightarrow> filter in_production us = [];
     \<And>x. \<not> in_production (f x) \<and> mv_id (f x) = mv_id x \<and> mv_quarantined_at (f x) = mv_quarantined_at x \<and>
         mv_quarantine_reason (f x) = mv_quarantine_reason x;
     in_production v; mv_id v \<in> ids; mv_quarantined_at v = None\<rbrakk> \<Longrightarrow>
     version_change ids vs ((case p of Some q \<Rightarrow> update_where mv_id (mv_id q) f us | None \<Rightarrow> us) @ [v])"

lemma newest_production:
  "case newest t in_production w of Some q \<Rightarrow> q \<in> set (gv_versions w) \<and> in_production q
   | None \<Rightarrow> filter in_production (gv_versions w) = []"
  using newest_SomeD [of t in_production w] newest_None [of t in_production w]
  by (auto split: option.split simp: filter_empty_conv)

lemma quarantine_change:
  "version_change {i} (gv_versions w) (gv_versions (quarantine_candidate i now c r w))"
  unfolding quarantine_candidate_def
  by (simp add: new_version_def) (rule aside [OF same]; simp add: in_production_def)

lemma version_change_mono: "version_change ids vs us \<Longrightarrow> ids \<subseteq> ids' \<Longrightarrow> version_change ids' vs us"
  by (induction rule: version_change.induct) (auto intro: version_change.intros)

lemma promote_change:
  "version_change {pr_version_id pr, pr_quarantine_id pr} (gv_versions w) (gv_versions (snd (promote_candidate cfg pr w)))"
proof -
  let ?ids = "{pr_version_id pr, pr_quarantine_id pr}"
  define w1 where "w1 = (case pr_backdoor pr of None \<Rightarrow> w
     | Some (True, reason) \<Rightarrow> quarantine_candidate (pr_quarantine_id pr) (pr_now pr) (pr_candidate pr)
         (case reason of None \<Rightarrow> ''Backdoor scan flagged this candidate.'' | Some r \<Rightarrow> r) w
     | Some (False, reason) \<Rightarrow> w)"
  have w1: "version_change ?ids (gv_versions w) (gv_versions w1)"
    unfolding w1_def by (auto split: option.split prod.split bool.split intro: same version_change_mono [OF quarantine_change])
  obtain res w' where p: "promote_candidate cfg pr w = (res, w')" by (rule prod.exhaust)
  from p have "version_change ?ids (gv_versions w) (gv_versions w')"
  proof (cases rule: promote_cases)
    case (Denied e w2)
    then have "gv_versions w' = gv_versions w \<or> gv_versions w' = gv_versions w1" unfolding w1_def by auto
    then show ?thesis using w1 same by metis
  next
    case (Raised e d l)
    then have "gv_versions w' = gv_versions w1" unfolding w1_def by simp
    then show ?thesis using w1 by simp
  next
    case (Published shas d l)
    let ?w2 = "(set_dir (pr_candidate pr) d w1)\<lparr>gv_log := l\<rparr>"
    have pub: "publish_candidate cfg pr (candidate_model_names cfg (dir_of w (pr_candidate pr)) (pr_model_names pr)) shas ?w2 = (res, w')"
      using Published(7) unfolding w1_def .
    show ?thesis
    proof (cases res)
      case (Inl e)
      then have "gv_versions w' = gv_versions w1"
        using pub by (auto simp: publish_candidate_def Let_def split: prod.splits sum.splits option.splits)
      then show ?thesis using w1 by simp
    next
      case (Inr v)
      then obtain w3 where w3: "gv_versions w3 = gv_versions w1" "in_production v" "mv_id v = pr_version_id pr"
        "mv_quarantined_at v = None"
        "gv_versions w' = (case newest mv_promoted_at in_production w3 of
           Some q \<Rightarrow> update_where mv_id (mv_id q) (\<lambda>v. v\<lparr>mv_status := ''deprecated''\<rparr>) (gv_versions w1)
         | None \<Rightarrow> gv_versions w1) @ [v]"
      proof -
        let ?md = "pr_model_dir pr"
        let ?wa = "publish_files (pr_candidate pr) ?md (archive_production ?md (pr_stamp pr) (take_lock ?md ?w2))"
        obtain r where r: "promote_all (path_shas cfg ?md (dir_of ?wa ?md)) pr
            (candidate_model_names cfg (dir_of w (pr_candidate pr)) (pr_model_names pr)) (gv_registry ?wa) = (Inr (), r)"
          using pub Inr by (auto simp: publish_candidate_def Let_def split: prod.splits sum.splits option.splits)
        show thesis
          by (rule that [of "?wa\<lparr>gv_registry := r\<rparr>"])
            (use pub Inr r in \<open>auto simp: publish_candidate_def Let_def in_production_def new_version_def split: option.splits\<close>)
      qed
      show ?thesis unfolding w3(5)
        by (rule replaced [OF w1]) (use newest_production [where t = mv_promoted_at and w = w3] w3(1-4) in
            \<open>auto simp: in_production_def split: option.splits\<close>)
    qed
  qed (simp add: same)
  then show ?thesis using p by simp
qed

lemma rollback_cases:
  assumes "rollback_production cfg rq w0 = (res, w')"
  defines "w \<equiv> take_lock (rb_model_dir rq) w0" and "md \<equiv> rb_model_dir rq"
  defines "current \<equiv> newest mv_promoted_at in_production w"
  obtains (Denied) e w2 where "res = Inl e" "w2 = w0 \<or> w2 = w"
      "w' = audit (rb_actor rq) ''rollback'' [md] (rb_target rq) (Some e) w2"
  | (Raised) e where "res = Inl (OtherTrustError e)" "w' = w"
  | (Restored) t source archive d v where
      "authorize_actor cfg (rb_actor rq) (rb_credential rq) = None"
      "rollback_target (rb_target rq) current w = (Some t, Some source)" "mv_archive source = Some archive"
      "dict_get (gv_dirs w) archive = Some d"
      "verify_all (gc_trust cfg) (gc_public cfg) d (gv_log w) (candidate_model_names cfg d None) = None"
      "res = Inr v"
      "v = (new_version (rb_version_id rq) md ''production'')
         \<lparr>mv_signature := mv_signature t, mv_promoted_at := Some (rb_now rq),
          mv_promoted_by := Some (rb_actor rq), mv_parent := map_option mv_id current,
          mv_archive := Some archive, mv_restored_from := Some (mv_id t)\<rparr>"
      "gv_dirs w' = gv_dirs (publish_files archive md (archive_production md (rb_stamp rq) w))"
      "gv_versions w' = (case current of
           Some c \<Rightarrow> update_where mv_id (mv_id c) (\<lambda>v. v\<lparr>mv_status := ''rolled_back'',
             mv_rolled_back_by := Some (rb_actor rq), mv_blocked_reason := Some (rb_reason rq)\<rparr>) (gv_versions w0)
         | None \<Rightarrow> gv_versions w0) @ [v]"
      "gv_log w' = gv_log w"
proof -
  note u = assms(1) [unfolded rollback_production_def Let_def, folded w_def md_def current_def]
  show thesis
  proof (cases "authorize_actor cfg (rb_actor rq) (rb_credential rq)")
    case (Some e)
    then show thesis using u by (intro Denied [of "Unauthorized e" w0]) simp_all
  next
    case auth: None
    obtain a b where ab: "rollback_target (rb_target rq) current w = (a, b)" by (rule prod.exhaust)
    show thesis
    proof (cases "a = None \<or> b = None")
      case True
      then show thesis using u auth ab by (intro Denied [of NoRollbackTarget w]) (auto split: option.splits)
    next
      case False
      then obtain t source where ts: "a = Some t" "b = Some source" by auto
      show thesis
      proof (cases "mv_archive source")
        case None
        then show thesis using u auth ab ts by (intro Denied [of NoArchive w]) simp_all
      next
        case ar: (Some archive)
        show thesis
        proof (cases "dict_get (gv_dirs w) archive")
          case None
          then show thesis using u auth ab ts ar by (intro Denied [of NoArchive w]) simp_all
        next
          case d: (Some d)
          show thesis
          proof (cases "verify_all (gc_trust cfg) (gc_public cfg) d (gv_log w) (candidate_model_names cfg d None)")
            case (Some e)
            then show thesis using u auth ab ts ar d
              by (cases "is_integrity_error e") (auto intro: Denied [of "ArtifactTrust e" w] Raised [of e])
          next
            case None
            then show thesis using u auth ab ts ar d
              by (intro Restored [of t source archive d]) (auto simp: new_version_def w_def audit_def add_version_def
                change_version_def publish_files_def archive_production_def set_dir_def split: option.splits)
          qed
        qed
      qed
    qed
  qed
qed

lemma rollback_change:
  "version_change {rb_version_id rq} (gv_versions w) (gv_versions (snd (rollback_production cfg rq w)))"
proof -
  obtain res w' where p: "rollback_production cfg rq w = (res, w')" by (rule prod.exhaust)
  from p have "version_change {rb_version_id rq} (gv_versions w) (gv_versions w')"
  proof (cases rule: rollback_cases)
    case (Denied e w2)
    then have "gv_versions w' = gv_versions w" by auto
    then show ?thesis by (simp add: same)
  next
    case (Raised e)
    then have "gv_versions w' = gv_versions w" by simp
    then show ?thesis by (simp add: same)
  next
    case (Restored t source archive d v)
    have v: "in_production v" "mv_id v = rb_version_id rq" "mv_quarantined_at v = None"
      unfolding Restored(7) by (simp_all add: in_production_def new_version_def)
    show ?thesis unfolding Restored(9)
      by (rule replaced [OF same]) (use newest_production [where t = mv_promoted_at and w = "take_lock (rb_model_dir rq) w"] v in
          \<open>auto simp: in_production_def split: option.splits\<close>)
  qed
  then show ?thesis using p by simp
qed

subsection \<open>Invariants\<close>

definition one_production :: "model_version list \<Rightarrow> bool" where
  "one_production vs \<longleftrightarrow> length (filter in_production vs) \<le> 1"

lemma retired:
  assumes "one_production us" and "q \<in> set us" and "in_production q" and "\<And>x. \<not> in_production (f x)"
  shows "filter in_production (update_where mv_id (mv_id q) f us) = []"
proof -
  have "x = q" if "x \<in> set us" "in_production x" for x
  proof -
    have "filter in_production us \<noteq> []" using assms(2,3) by (auto simp: filter_empty_conv)
    then obtain y where y: "filter in_production us = [y]" using assms(1)
      by (cases "filter in_production us") (auto simp: one_production_def)
    then have "set (filter in_production us) = {y}" by simp
    moreover have "x \<in> set (filter in_production us)" "q \<in> set (filter in_production us)" using that assms(2,3) by auto
    ultimately show ?thesis by (metis singletonD)
  qed
  then show ?thesis using assms(4) by (auto simp: filter_empty_conv update_where_def)
qed

lemma one_production_change: "version_change ids vs us \<Longrightarrow> one_production vs \<Longrightarrow> one_production us"
proof (induction rule: version_change.induct)
  case (replaced vs us p f v)
  then show ?case
    by (cases p) (auto simp: one_production_def dest!: retired [unfolded one_production_def, rotated, where f = f])
qed (simp_all add: one_production_def)

fun honest_outcome :: "gov_event \<Rightarrow> bool" where
  "honest_outcome (ShadowOutcome i status reason) \<longleftrightarrow> status \<noteq> ''production''"
| "honest_outcome _ \<longleftrightarrow> True"

interpretation production_run: preserved_when "gov_step cfg" "\<lambda>w. one_production (gv_versions w)" honest_outcome for cfg
proof
  fix w :: gov and e
  assume inv: "one_production (gv_versions w)" and ok: "honest_outcome e"
  show "one_production (gv_versions (gov_step cfg w e))"
  proof (cases e)
    case (PromoteEvent pr)
    then show ?thesis using one_production_change [OF promote_change inv] by simp
  next
    case (RollbackEvent rq)
    then show ?thesis using one_production_change [OF rollback_change inv] by simp
  next
    case (QuarantineEvent i now c r)
    then show ?thesis using one_production_change [OF quarantine_change inv] by simp
  next
    case (ShadowStart i c)
    then show ?thesis using inv
      by (simp add: record_shadow_start_def one_production_def new_version_def in_production_def)
  next
    case (ShadowOutcome i st r)
    have "length (filter in_production (update_where mv_id i (\<lambda>v. v\<lparr>mv_status := st, mv_blocked_reason := r\<rparr>) vs))
        \<le> length (filter in_production vs)" for vs
      using ok ShadowOutcome by (induction vs) (auto simp: update_where_def in_production_def)
    then show ?thesis using inv ShadowOutcome le_trans
      by (fastforce simp: record_shadow_outcome_def one_production_def)
  qed
qed

text \<open>
  C13. In every history of promotions, rollbacks, quarantines and shadow deployments at most one model
  version is in production, as long as no shadow outcome declares one.
\<close>

theorem one_production_version:
  assumes "\<forall>e\<in>set es. honest_outcome e" and "gv_versions w = []"
  shows "length (filter in_production (gv_versions (foldl (gov_step cfg) w es))) \<le> 1"
  using production_run.run_inv_when [of w es cfg] assms by (simp add: one_production_def)

text \<open>A quarantined row stays, unless an outcome is recorded for its own identifier.\<close>

definition quarantined_row :: "string \<Rightarrow> string \<Rightarrow> model_version list \<Rightarrow> bool" where
  "quarantined_row q c vs \<longleftrightarrow>
     (\<exists>v\<in>set vs. mv_id v = q \<and> mv_path v = c \<and> mv_quarantined_at v \<noteq> None) \<and>
     (\<forall>v\<in>set vs. mv_id v = q \<longrightarrow> mv_status v = ''quarantined'') \<and>
     (\<forall>v\<in>set vs. mv_quarantined_at v \<noteq> None \<longrightarrow> mv_quarantine_reason v \<noteq> None)"

lemma quarantined_change:
  "version_change ids vs us \<Longrightarrow> q \<notin> ids \<Longrightarrow> quarantined_row q c vs \<Longrightarrow> quarantined_row q c us"
proof (induction rule: version_change.induct)
  case (aside vs us v)
  then show ?case by (fastforce simp: quarantined_row_def)
next
  case (replaced vs us p f v)
  then have us: "quarantined_row q c us" by blast
  show ?case
  proof (cases p)
    case None
    then show ?thesis using us replaced by (fastforce simp: quarantined_row_def)
  next
    case (Some y)
    then have y: "mv_id y \<noteq> q" using us replaced(2) by (auto simp: quarantined_row_def in_production_def)
    obtain x where x: "x \<in> set us" "mv_id x = q" "mv_path x = c" "mv_quarantined_at x \<noteq> None"
      using us by (auto simp: quarantined_row_def)
    let ?us = "update_where mv_id (mv_id y) f us"
    have "x \<in> set ?us" using x y by (force simp: update_where_def)
    moreover have "\<forall>z\<in>set ?us. mv_id z = q \<longrightarrow> mv_status z = ''quarantined''"
      using us y replaced(3) by (auto simp: quarantined_row_def update_where_def)
    moreover have "\<forall>z\<in>set ?us. mv_quarantined_at z \<noteq> None \<longrightarrow> mv_quarantine_reason z \<noteq> None"
      using us replaced(3) by (auto simp: quarantined_row_def update_where_def)
    moreover have "mv_id v \<noteq> q" "mv_quarantined_at v = None" using replaced by auto
    ultimately have "quarantined_row q c (?us @ [v])" using x(2-4) unfolding quarantined_row_def by auto
    then show ?thesis by (simp add: Some)
  qed
qed simp

fun leaves_row :: "string \<Rightarrow> gov_event \<Rightarrow> bool" where
  "leaves_row q (PromoteEvent pr) \<longleftrightarrow> q \<noteq> pr_version_id pr \<and> q \<noteq> pr_quarantine_id pr"
| "leaves_row q (RollbackEvent rq) \<longleftrightarrow> q \<noteq> rb_version_id rq"
| "leaves_row q (QuarantineEvent i now c r) \<longleftrightarrow> i \<noteq> q"
| "leaves_row q (ShadowStart i c) \<longleftrightarrow> True"
| "leaves_row q (ShadowOutcome i st r) \<longleftrightarrow> i \<noteq> q"

interpretation quarantine_run: preserved_when "gov_step cfg" "\<lambda>w. quarantined_row q c (gv_versions w)" "leaves_row q"
  for cfg q c
proof
  fix w :: gov and e
  assume inv: "quarantined_row q c (gv_versions w)" and ok: "leaves_row q e"
  show "quarantined_row q c (gv_versions (gov_step cfg w e))"
  proof (cases e)
    case (PromoteEvent pr)
    then show ?thesis using quarantined_change [OF promote_change _ inv] ok by simp
  next
    case (RollbackEvent rq)
    then show ?thesis using quarantined_change [OF rollback_change _ inv] ok by simp
  next
    case (QuarantineEvent i now c' r)
    then show ?thesis using quarantined_change [OF quarantine_change _ inv] ok by simp
  next
    case (ShadowStart i c')
    have "version_named i w \<noteq> None" if "i = q"
      using inv that row_where_None [of mv_id q "gv_versions w"] by (auto simp: quarantined_row_def version_named_def)
    then show ?thesis using inv ShadowStart
      by (cases "i = q") (auto simp: record_shadow_start_def quarantined_row_def new_version_def)
  next
    case (ShadowOutcome i st r)
    then show ?thesis using inv ok
      by (force simp: record_shadow_outcome_def quarantined_row_def update_where_def)
  qed
qed

text \<open>
  C12. Quarantine sticks: once a candidate was quarantined, no later history lets a promotion of that
  directory succeed, unless someone records an outcome for the quarantine row itself.
\<close>

theorem quarantine_sticks:
  assumes "reasons_kept w0" and "\<forall>v\<in>set (gv_versions w0). mv_id v \<noteq> q"
    and "w = foldl (gov_step cfg) (quarantine_candidate q now c reason w0) es" and "\<forall>e\<in>set es. leaves_row q e"
    and "pr_candidate pr = c"
  shows "\<exists>e. fst (promote_candidate cfg pr w) = Inl e"
proof -
  have "quarantined_row q c (gv_versions (quarantine_candidate q now c reason w0))"
    using assms(1,2) by (auto simp: quarantined_row_def reasons_kept_def quarantine_candidate_def new_version_def)
  then have row: "quarantined_row q c (gv_versions w)"
    unfolding assms(3) by (rule quarantine_run.run_inv_when) (rule assms(4))
  have blocked: "existing_quarantine_reason c w' \<noteq> None"
    if "set (gv_versions w) \<subseteq> set (gv_versions w')"
      "\<forall>v\<in>set (gv_versions w'). mv_quarantined_at v \<noteq> None \<longrightarrow> mv_quarantine_reason v \<noteq> None" for w'
  proof -
    obtain v where "v \<in> set (gv_versions w)" "mv_id v = q" "mv_path v = c" "mv_quarantined_at v \<noteq> None"
      using row by (auto simp: quarantined_row_def)
    moreover from this have "mv_status v = ''quarantined''" using row by (auto simp: quarantined_row_def)
    ultimately show ?thesis using that by (intro quarantine_found [where v = v]) auto
  qed
  obtain res w' where p: "promote_candidate cfg pr w = (res, w')" by (rule prod.exhaust)
  from p have "\<exists>e. res = Inl e"
  proof (cases rule: promote_cases)
    case (Published shas d l)
    have "existing_quarantine_reason c (case pr_backdoor pr of None \<Rightarrow> w
     | Some (True, reason) \<Rightarrow> quarantine_candidate (pr_quarantine_id pr) (pr_now pr) (pr_candidate pr)
         (case reason of None \<Rightarrow> ''Backdoor scan flagged this candidate.'' | Some r \<Rightarrow> r) w
     | Some (False, reason) \<Rightarrow> w) \<noteq> None"
      by (rule blocked) (use row in \<open>auto simp: quarantined_row_def quarantine_candidate_def new_version_def
          split: option.splits prod.splits bool.splits\<close>)
    then show ?thesis using Published(3) assms(5) by simp
  qed auto
  then show ?thesis using p by simp
qed

subsection \<open>What a rollback restores\<close>

lemma dict_get_copy:
  "dict_ok src \<Longrightarrow> dict_get (copy_files src dst) f = (case dict_get src f of Some c \<Rightarrow> Some c | None \<Rightarrow> dict_get dst f)"
proof (induction src arbitrary: dst)
  case (Cons fc src)
  obtain g c where fc: "fc = (g, c)" by fastforce
  have "dict_ok src" "dict_get src g = None" using Cons.prems fc by (auto simp: dict_ok_def map_of_eq_None_iff)
  then show ?case using Cons.IH [of "dict_set g c dst"] fc
    by (auto simp: copy_files_def split: option.split)
qed (simp add: copy_files_def)

lemma dict_ok_copy: "dict_ok dst \<Longrightarrow> dict_ok (copy_files src dst)"
  by (induction src arbitrary: dst) (auto simp: copy_files_def)

lemma archive_differs [simp]:
  "archive_path md s \<noteq> md" "md \<noteq> archive_path md s" "archive_path md s = archive_path md t \<longleftrightarrow> s = t"
  by (auto simp: archive_path_def dest: arg_cong [where f = length])

lemma newest_only: "filter P (gv_versions w) = [v] \<Longrightarrow> newest t P w = Some v"
  by (cases "t v") (simp_all add: newest_def)

lemma locked_files:
  "dict_get (dir_of w md) f = Some c \<Longrightarrow> dict_get (dir_of (take_lock md w) md) f = Some c"
  "dict_ok (dir_of w md) \<Longrightarrow> dict_ok (dir_of (take_lock md w) md)"
  "p \<noteq> md \<Longrightarrow> dir_of (take_lock md w) p = dir_of w p"
  "p \<noteq> md \<Longrightarrow> dict_get (gv_dirs (take_lock md w)) p = dict_get (gv_dirs w) p"
  by (auto simp: take_lock_def Let_def)

text \<open>A promotion that succeeds leaves an archive of what was in production and one production row.\<close>

lemma promote_success:
  assumes "promote_candidate cfg pr w = (Inr v, w')" and "one_production (gv_versions w)"
    and "pr_candidate pr \<noteq> pr_model_dir pr" and "pr_candidate pr \<noteq> archive_path (pr_model_dir pr) (pr_stamp pr)"
    and "dict_get (gv_dirs w) (archive_path (pr_model_dir pr) (pr_stamp pr)) = None"
    and "dict_ok (dir_of w (pr_model_dir pr))"
  defines "ar \<equiv> archive_path (pr_model_dir pr) (pr_stamp pr)"
  shows "filter in_production (gv_versions w') = [v]" and "mv_archive v = Some ar"
    and "\<exists>d. dict_get (gv_dirs w') ar = Some d \<and> dict_ok d \<and>
      (\<forall>f c. dict_get (dir_of w (pr_model_dir pr)) f = Some c \<longrightarrow> dict_get d f = Some c)"
proof -
  let ?md = "pr_model_dir pr"
  define w1 where "w1 = (case pr_backdoor pr of None \<Rightarrow> w
     | Some (True, reason) \<Rightarrow> quarantine_candidate (pr_quarantine_id pr) (pr_now pr) (pr_candidate pr)
         (case reason of None \<Rightarrow> ''Backdoor scan flagged this candidate.'' | Some r \<Rightarrow> r) w
     | Some (False, reason) \<Rightarrow> w)"
  have w1: "dir_of w1 = dir_of w" "gv_dirs w1 = gv_dirs w"
    "filter in_production (gv_versions w1) = filter in_production (gv_versions w)"
    unfolding w1_def by (auto split: option.split prod.split bool.split
        simp: quarantine_candidate_def new_version_def in_production_def)
  from assms(1) obtain names shas d l where
    pub: "publish_candidate cfg pr names shas ((set_dir (pr_candidate pr) d w1)\<lparr>gv_log := l\<rparr>) = (Inr v, w')"
    unfolding w1_def by (cases rule: promote_cases) auto
  define w2 where "w2 = take_lock ?md ((set_dir (pr_candidate pr) d w1)\<lparr>gv_log := l\<rparr>)"
  define w3 where "w3 = publish_files (pr_candidate pr) ?md (archive_production ?md (pr_stamp pr) w2)"
  obtain r where r: "promote_all (path_shas cfg ?md (dir_of w3 ?md)) pr names (gv_registry w3) = (Inr (), r)"
    using pub by (auto simp: publish_candidate_def Let_def w2_def w3_def split: prod.splits sum.splits option.splits)
  let ?prev = "newest mv_promoted_at in_production (w3\<lparr>gv_registry := r\<rparr>)"
  have v: "in_production v" "mv_archive v = Some ar" "gv_dirs w' = gv_dirs w3"
    "gv_versions w' = (case ?prev of
       Some q \<Rightarrow> update_where mv_id (mv_id q) (\<lambda>v. v\<lparr>mv_status := ''deprecated''\<rparr>) (gv_versions w1)
     | None \<Rightarrow> gv_versions w1) @ [v]"
    using pub r by (auto simp: publish_candidate_def Let_def w2_def w3_def in_production_def new_version_def ar_def
        split: option.splits)
  show "mv_archive v = Some ar" by (rule v(2))
  have vs: "gv_versions (w3\<lparr>gv_registry := r\<rparr>) = gv_versions w1" by (simp add: w3_def w2_def)
  have "filter in_production (case ?prev of
       Some q \<Rightarrow> update_where mv_id (mv_id q) (\<lambda>v. v\<lparr>mv_status := ''deprecated''\<rparr>) (gv_versions w1)
     | None \<Rightarrow> gv_versions w1) = []"
  proof (cases ?prev)
    case None
    then show ?thesis using newest_production [where t = mv_promoted_at and w = "w3\<lparr>gv_registry := r\<rparr>"] vs by simp
  next
    case (Some q)
    then have "q \<in> set (gv_versions w1)" "in_production q"
      using newest_production [where t = mv_promoted_at and w = "w3\<lparr>gv_registry := r\<rparr>"] vs by simp_all
    moreover have "one_production (gv_versions w1)" using assms(2) w1(3) by (simp add: one_production_def)
    ultimately show ?thesis using Some by (simp add: retired in_production_def)
  qed
  then show "filter in_production (gv_versions w') = [v]" unfolding v(4) using v(1) by simp
  have ar: "ar \<noteq> ?md" "ar \<noteq> pr_candidate pr" using assms(4) by (auto simp: ar_def)
  have "dict_get (gv_dirs w') ar = Some (copy_files (dir_of w2 ?md) (dir_of w2 ar))"
    unfolding v(3) w3_def by (simp add: publish_files_def archive_production_def ar_def)
  moreover have "dir_of w2 ar = []"
    unfolding w2_def using ar assms(5) w1(1) by (simp add: locked_files(3) dir_of_def [of w] ar_def)
  moreover have ok: "dict_ok (dir_of w2 ?md)"
    unfolding w2_def by (rule locked_files(2)) (use assms(3,6) w1(1) in simp)
  moreover have "dict_get (dir_of w2 ?md) f = Some c" if "dict_get (dir_of w ?md) f = Some c" for f c
    unfolding w2_def by (rule locked_files(1)) (use that assms(3) w1(1) in simp)
  ultimately show "\<exists>d. dict_get (gv_dirs w') ar = Some d \<and> dict_ok d \<and>
      (\<forall>f c. dict_get (dir_of w ?md) f = Some c \<longrightarrow> dict_get d f = Some c)"
    by (auto simp: dict_get_copy dict_ok_copy)
qed

text \<open>A rollback without a named target publishes the archive of the version in production.\<close>

lemma rollback_success:
  assumes "rollback_production cfg rq w = (Inr v, w')" and "rb_target rq = None"
    and "filter in_production (gv_versions w) = [s]" and "mv_archive s = Some ar"
    and "dict_get (gv_dirs w) ar = Some d" and "dict_ok d"
    and "ar \<noteq> rb_model_dir rq" and "ar \<noteq> archive_path (rb_model_dir rq) (rb_stamp rq)"
  shows "dict_get d f = Some c \<Longrightarrow> dict_get (dir_of w' (rb_model_dir rq)) f = Some c"
    and "dict_get (gv_dirs w') ar = Some d" and "mv_archive v = Some ar" and "mv_parent v = Some (mv_id s)"
    and "mv_restored_from v = mv_parent s" and "mv_parent s \<noteq> None"
    and "filter in_production (gv_versions w') = [v]"
proof -
  let ?w = "take_lock (rb_model_dir rq) w" and ?md = "rb_model_dir rq"
  have cur: "newest mv_promoted_at in_production ?w = Some s" using assms(3) by (intro newest_only) simp
  from assms(1) have "(\<forall>f c. dict_get d f = Some c \<longrightarrow> dict_get (dir_of w' ?md) f = Some c) \<and>
      dict_get (gv_dirs w') ar = Some d \<and> mv_archive v = Some ar \<and> mv_parent v = Some (mv_id s) \<and>
      mv_restored_from v = mv_parent s \<and> mv_parent s \<noteq> None \<and> filter in_production (gv_versions w') = [v]"
  proof (cases rule: rollback_cases)
    case (Restored t source archive d' v0)
    have src: "source = s" "mv_parent s = Some (mv_id t)"
      using Restored(2) assms(2) by (auto simp: cur rollback_target_def version_named_def dest: row_where_SomeD split: option.splits)
    then have ar: "archive = ar" "d' = d" using Restored(3,4) assms(4,5,7) locked_files(4) [of ar ?md w] by auto
    have v: "v = v0" using Restored(6) by simp
    have dirs: "gv_dirs w' = gv_dirs (publish_files ar ?md (archive_production ?md (rb_stamp rq) ?w))"
      using Restored(8) ar by simp
    have d: "dir_of (archive_production ?md (rb_stamp rq) ?w) ar = d"
      using assms(5,7,8) locked_files(3) [of ar ?md w] by (simp add: archive_production_def dir_of_def [of w])
    have "dir_of w' ?md = copy_files d (dir_of (archive_production ?md (rb_stamp rq) ?w) ?md)"
      unfolding dir_of_def [of w'] dirs using d by (simp add: publish_files_def)
    then have files: "dict_get d f = Some c \<longrightarrow> dict_get (dir_of w' ?md) f = Some c" for f c
      using assms(6) by (simp add: dict_get_copy)
    have "dict_get (gv_dirs w') ar = Some d"
      unfolding dirs using assms(5,7,8) locked_files(4) [of ar ?md w] by (simp add: publish_files_def archive_production_def)
    moreover have "filter in_production (gv_versions w') = [v]"
    proof -
      have s: "s \<in> set (gv_versions w)" "in_production s" using arg_cong [OF assms(3), of set] by auto
      have "one_production (gv_versions w)" using assms(3) by (simp add: one_production_def)
      from retired [OF this s, where f = "\<lambda>v. v\<lparr>mv_status := ''rolled_back'',
             mv_rolled_back_by := Some (rb_actor rq), mv_blocked_reason := Some (rb_reason rq)\<rparr>"]
      show ?thesis unfolding Restored(9) using v Restored(7) by (simp add: cur in_production_def new_version_def)
    qed
    ultimately show ?thesis
      using files v Restored(7) ar src cur by (simp add: new_version_def)
  qed simp_all
  then show "dict_get d f = Some c \<Longrightarrow> dict_get (dir_of w' ?md) f = Some c"
    and "dict_get (gv_dirs w') ar = Some d" and "mv_archive v = Some ar" and "mv_parent v = Some (mv_id s)"
    and "mv_restored_from v = mv_parent s" and "mv_parent s \<noteq> None"
    and "filter in_production (gv_versions w') = [v]" by blast+
qed

text \<open>
  C14. Rolling back brings back the previous production: after a successful promotion and a successful
  rollback, every file that was in production before the promotion is there again with its content.
\<close>

theorem rollback_restores:
  assumes "promote_candidate cfg pr w = (Inr v, w1)" and "rollback_production cfg rq w1 = (Inr v1, w2)"
    and "one_production (gv_versions w)" and "dict_ok (dir_of w (pr_model_dir pr))"
    and "pr_candidate pr \<notin> {pr_model_dir pr, archive_path (pr_model_dir pr) (pr_stamp pr)}"
    and "dict_get (gv_dirs w) (archive_path (pr_model_dir pr) (pr_stamp pr)) = None"
    and "rb_model_dir rq = pr_model_dir pr" and "rb_target rq = None" and "rb_stamp rq \<noteq> pr_stamp pr"
    and "dict_get (dir_of w (pr_model_dir pr)) f = Some c"
  shows "dict_get (dir_of w2 (pr_model_dir pr)) f = Some c \<and> mv_restored_from v1 = mv_parent v"
proof -
  have c: "pr_candidate pr \<noteq> pr_model_dir pr" "pr_candidate pr \<noteq> archive_path (pr_model_dir pr) (pr_stamp pr)"
    using assms(5) by auto
  note ps = promote_success [OF assms(1,3) c assms(6,4)]
  from ps(3) obtain d where
    d: "dict_get (gv_dirs w1) (archive_path (pr_model_dir pr) (pr_stamp pr)) = Some d" "dict_ok d"
      "dict_get d f = Some c" using assms(10) by blast
  have ar: "archive_path (pr_model_dir pr) (pr_stamp pr) \<noteq> rb_model_dir rq"
    "archive_path (pr_model_dir pr) (pr_stamp pr) \<noteq> archive_path (rb_model_dir rq) (rb_stamp rq)"
    using assms(7,9) by simp_all
  note rs = rollback_success [OF assms(2,8) ps(1,2) d(1,2) ar]
  show ?thesis using rs(1) [OF d(3)] rs(5) assms(7) by simp
qed

text \<open>
  A rollback cannot be undone: the row a rollback writes points to the archive it restored from,
  not to the snapshot it took. A second rollback claims to restore the version that was rolled back,
  and publishes the files of the one before it once more.
\<close>

theorem second_rollback_mislabels:
  assumes "promote_candidate cfg pr w = (Inr v, w1)" and "rollback_production cfg rq w1 = (Inr v1, w2)"
    and "rollback_production cfg rq' w2 = (Inr v2, w3)"
    and "one_production (gv_versions w)" and "dict_ok (dir_of w (pr_model_dir pr))"
    and "pr_candidate pr \<notin> {pr_model_dir pr, archive_path (pr_model_dir pr) (pr_stamp pr)}"
    and "dict_get (gv_dirs w) (archive_path (pr_model_dir pr) (pr_stamp pr)) = None"
    and "rb_model_dir rq = pr_model_dir pr" and "rb_target rq = None" and "rb_stamp rq \<noteq> pr_stamp pr"
    and "rb_model_dir rq' = pr_model_dir pr" and "rb_target rq' = None" and "rb_stamp rq' \<noteq> pr_stamp pr"
    and "dict_get (dir_of w (pr_model_dir pr)) f = Some c"
  shows "mv_restored_from v2 = Some (mv_id v) \<and> dict_get (dir_of w3 (pr_model_dir pr)) f = Some c"
proof -
  note ps = promote_success [OF assms(1,4) _ _ assms(7,5)]
  have c: "pr_candidate pr \<noteq> pr_model_dir pr" "pr_candidate pr \<noteq> archive_path (pr_model_dir pr) (pr_stamp pr)"
    using assms(6) by auto
  from ps(3) [OF c] obtain d where
    d: "dict_get (gv_dirs w1) (archive_path (pr_model_dir pr) (pr_stamp pr)) = Some d" "dict_ok d"
      "dict_get d f = Some c" using assms(14) by blast
  have ar: "archive_path (pr_model_dir pr) (pr_stamp pr) \<noteq> rb_model_dir rq"
    "archive_path (pr_model_dir pr) (pr_stamp pr) \<noteq> archive_path (rb_model_dir rq) (rb_stamp rq)"
    using assms(8,10) by simp_all
  note r1 = rollback_success [OF assms(2,9) ps(1) [OF c] ps(2) [OF c] d(1,2) ar]
  have ar': "archive_path (pr_model_dir pr) (pr_stamp pr) \<noteq> rb_model_dir rq'"
    "archive_path (pr_model_dir pr) (pr_stamp pr) \<noteq> archive_path (rb_model_dir rq') (rb_stamp rq')"
    using assms(11,13) by simp_all
  note r2 = rollback_success [OF assms(3,12) r1(7) r1(3) r1(2) d(2) ar']
  show ?thesis using r2(1) [OF d(3)] r2(5) r1(4) assms(11) by simp
qed

text \<open>
  A registry that refuses comes too late: the candidate is in production already, and neither the
  audit log nor the table of versions knows of it.
\<close>

theorem refused_registry_publishes:
  assumes "promote_candidate cfg pr w = (Inl (RegistryFailure e), w')" and "pr_candidate pr \<noteq> pr_model_dir pr"
    and "pr_candidate pr \<noteq> archive_path (pr_model_dir pr) (pr_stamp pr)"
    and "pr_backdoor pr = None"
  shows "gv_audit w' = gv_audit w \<and> gv_versions w' = gv_versions w \<and>
    dir_of w' (pr_model_dir pr) = copy_files (dir_of w' (pr_candidate pr)) (dir_of (take_lock (pr_model_dir pr) w) (pr_model_dir pr))"
  using assms(1)
proof (cases rule: promote_cases)
  case (Published shas d l)
  let ?w2 = "(set_dir (pr_candidate pr) d w)\<lparr>gv_log := l\<rparr>" and ?md = "pr_model_dir pr"
  let ?w3 = "publish_files (pr_candidate pr) ?md (archive_production ?md (pr_stamp pr) (take_lock ?md ?w2))"
  obtain r where w': "w' = ?w3\<lparr>gv_registry := r\<rparr>"
    using Published(7) assms(4) by (auto simp: publish_candidate_def Let_def split: prod.splits sum.splits)
  have "dir_of (take_lock ?md ?w2) ?md = dir_of (take_lock ?md w) ?md"
    using assms(2) by (simp add: take_lock_def Let_def)
  then show ?thesis unfolding w' using assms(2,3) locked_files(3) [of "pr_candidate pr" ?md]
    by (simp add: publish_files_def archive_production_def)
qed (simp_all, metis)

subsection \<open>A concrete history\<close>

definition demo_gov_config :: gov_config where
  "demo_gov_config = \<lparr>gc_secret = ''s'', gc_actors = ''ops, ci'', gc_hmac = (\<lambda>k a. k @ a), gc_tolerance = 1 / 100,
     gc_trust = demo_trust, gc_key = Some (Ed25519Key ''k''), gc_public = ''k'', gc_compatible = (\<lambda>_ _. None),
     gc_model_registry = [''rf'']\<rparr>"

definition demo_candidate :: "string \<Rightarrow> files" where
  "demo_candidate content = [(joblib ''rf'', content), (metrics_file, ''{}'')]"

definition demo_gov :: gov where
  "demo_gov = \<lparr>gv_versions = [], gv_audit = [], gv_dirs = [(''A'', demo_candidate ''00''), (''B'', demo_candidate ''11'')],
     gv_log = [], gv_registry = registry_load [] (Some (\<lambda>_. None))\<rparr>"

definition demo_promotion :: "string \<Rightarrow> promotion" where
  "demo_promotion c = \<lparr>pr_candidate = c, pr_model_dir = ''m'', pr_actor = ''ci'', pr_credential = ''sci'',
     pr_old_metrics = None, pr_new_metrics = None, pr_model_names = None, pr_backdoor = None, pr_now = 1, pr_clock = 1,
     pr_stamp = c, pr_version_id = c, pr_quarantine_id = ''q'', pr_artifact_version = (\<lambda>_. c)\<rparr>"

definition demo_rollback :: "string \<Rightarrow> rollback_request" where
  "demo_rollback i = \<lparr>rb_model_dir = ''m'', rb_actor = ''ops'', rb_credential = ''sops'', rb_reason = [], rb_target = None,
     rb_now = 2, rb_stamp = i, rb_version_id = i\<rparr>"

definition demo_signed_files :: "files \<times> transparency_log" where
  "demo_signed_files = snd (sign_and_verify_candidate demo_gov_config [''rf''] (demo_candidate ''00'', []))"

definition demo_live :: gov where
  "demo_live = demo_gov\<lparr>gv_dirs := [(''B'', demo_candidate ''11''), (''m'', fst demo_signed_files), (''m/archive/A'', [])],
     gv_log := snd demo_signed_files,
     gv_versions := [\<lparr>mv_id = ''A'', mv_path = ''m'', mv_signature = [], mv_status = ''production'', mv_promoted_at = Some 1,
        mv_promoted_by = Some ''ci'', mv_parent = None, mv_blocked_reason = None, mv_rolled_back_by = None,
        mv_quarantined_at = None, mv_quarantine_reason = None, mv_archive = Some ''m/archive/A'', mv_restored_from = None\<rparr>]\<rparr>"

definition demo_promoted :: "(gov_error + model_version) \<times> gov" where
  "demo_promoted = promote_candidate demo_gov_config (demo_promotion ''B'') demo_live"

definition demo_back :: "(gov_error + model_version) \<times> gov" where
  "demo_back = rollback_production demo_gov_config (demo_rollback ''x'') (snd demo_promoted)"

definition demo_again :: "(gov_error + model_version) \<times> gov" where
  "demo_again = rollback_production demo_gov_config (demo_rollback ''y'') (snd demo_back)"

lemma demo_promoted_ok:
  "\<not> isl (fst demo_promoted)" "dict_get (dir_of (snd demo_promoted) ''m'') (joblib ''rf'') = Some ''11''"
  by code_simp+

lemma demo_back_ok: "\<not> isl (fst demo_back)"
  by code_simp

lemma demo_again_ok: "\<not> isl (fst demo_again)"
  by code_simp

lemma demo_live_ok:
  "one_production (gv_versions demo_live)" "dict_ok (dir_of demo_live ''m'')"
  "dict_get (gv_dirs demo_live) (archive_path ''m'' ''B'') = None"
  "dict_get (dir_of demo_live ''m'') (joblib ''rf'') = Some ''00''"
  by code_simp+

lemmas demo_history = demo_promoted_ok demo_back_ok demo_again_ok demo_live_ok

lemma not_isl_pair: "\<not> isl (fst p) \<Longrightarrow> p = (Inr (projr (fst p)), snd p)"
  by (cases p; cases "fst p") auto

lemma demo_steps:
  "promote_candidate demo_gov_config (demo_promotion ''B'') demo_live = (Inr (projr (fst demo_promoted)), snd demo_promoted)"
  "rollback_production demo_gov_config (demo_rollback ''x'') (snd demo_promoted) = (Inr (projr (fst demo_back)), snd demo_back)"
  "rollback_production demo_gov_config (demo_rollback ''y'') (snd demo_back) = (Inr (projr (fst demo_again)), snd demo_again)"
  using demo_history unfolding demo_promoted_def [symmetric] demo_back_def [symmetric] demo_again_def [symmetric]
  by (intro not_isl_pair; blast)+

lemma promotion_is_gated_witness:
  "authorize_actor demo_gov_config ''ci'' ''sci'' = None \<and> existing_quarantine_reason ''A'' demo_gov = None"
proof -
  have d: "dir_of (snd (promote_candidate demo_gov_config (demo_promotion ''A'') demo_gov)) ''m'' \<noteq> dir_of demo_gov ''m''"
    by code_simp
  have "reasons_kept demo_gov" by (simp add: reasons_kept_def demo_gov_def)
  from promotion_is_gated [of demo_gov_config "demo_promotion ''A''" demo_gov _
      "snd (promote_candidate demo_gov_config (demo_promotion ''A'') demo_gov)", OF prod.collapse [symmetric] _ _ this] d
  show ?thesis by (simp add: demo_promotion_def)
qed

lemma attempts_are_audited_witness:
  "\<exists>row. gv_audit (snd (promote_candidate demo_gov_config ((demo_promotion ''A'')\<lparr>pr_credential := []\<rparr>) demo_gov)) = [row] \<and>
     \<not> ad_success row"
proof -
  let ?p = "promote_candidate demo_gov_config ((demo_promotion ''A'')\<lparr>pr_credential := []\<rparr>) demo_gov"
  have f: "fst ?p = Inl (Unauthorized BadCredential)" by code_simp
  have "gv_audit demo_gov = []" by (simp add: demo_gov_def)
  with attempts_are_audited [of demo_gov_config "(demo_promotion ''A'')\<lparr>pr_credential := []\<rparr>" demo_gov _ "snd ?p",
      OF prod.collapse [symmetric]] show ?thesis by (auto simp: f)
qed

lemma one_production_version_witness:
  "length (filter in_production (gv_versions (foldl (gov_step demo_gov_config) demo_gov
     [PromoteEvent (demo_promotion ''A''), PromoteEvent (demo_promotion ''B''), RollbackEvent (demo_rollback ''x'')]))) \<le> 1"
  by (rule one_production_version) (simp_all add: demo_gov_def)

lemma quarantine_sticks_witness:
  "\<exists>e. fst (promote_candidate demo_gov_config (demo_promotion ''A'')
     (foldl (gov_step demo_gov_config) (quarantine_candidate ''row'' 0 ''A'' ''backdoor'' demo_gov)
       [PromoteEvent (demo_promotion ''B''), ShadowOutcome ''B'' ''archived'' None])) = Inl e"
  by (rule quarantine_sticks [OF _ _ refl]) (simp_all add: reasons_kept_def demo_gov_def demo_promotion_def)

lemma rollback_restores_witness:
  "dict_get (dir_of (snd demo_back) ''m'') (joblib ''rf'') = Some ''00'' \<and>
   mv_restored_from (projr (fst demo_back)) = mv_parent (projr (fst demo_promoted))"
  using rollback_restores [OF demo_steps(1,2), of "joblib ''rf''" "''00''"] demo_history
  by (simp add: demo_promotion_def demo_rollback_def archive_path_def)

lemma second_rollback_mislabels_witness:
  "mv_restored_from (projr (fst demo_again)) = Some (mv_id (projr (fst demo_promoted))) \<and>
   dict_get (dir_of (snd demo_again) ''m'') (joblib ''rf'') = Some ''00''"
  using second_rollback_mislabels [OF demo_steps, of "joblib ''rf''" "''00''"] demo_history
  by (simp add: demo_promotion_def demo_rollback_def archive_path_def)

lemma refused_registry_publishes_witness:
  "gv_audit (snd (promote_candidate demo_gov_config (demo_promotion ''A'') (demo_gov\<lparr>gv_registry := registry_load [] None\<rparr>))) = [] \<and>
   dict_get (dir_of (snd (promote_candidate demo_gov_config (demo_promotion ''A'') (demo_gov\<lparr>gv_registry := registry_load [] None\<rparr>))) ''m'')
     (joblib ''rf'') = Some ''00''"
proof -
  let ?w = "demo_gov\<lparr>gv_registry := registry_load [] None\<rparr>"
  let ?p = "promote_candidate demo_gov_config (demo_promotion ''A'') ?w"
  have "fst ?p = Inl (RegistryFailure (TrustVerificationRequiredError ''rf'' ''A''))" by code_simp
  then have p: "?p = (Inl (RegistryFailure (TrustVerificationRequiredError ''rf'' ''A'')), snd ?p)" by (metis prod.collapse)
  have "dict_get (dir_of (snd ?p) ''m'') (joblib ''rf'') = Some ''00''" by code_simp
  moreover have "gv_audit ?w = []" by (simp add: demo_gov_def)
  ultimately show ?thesis using refused_registry_publishes [OF p] by (simp add: demo_promotion_def archive_path_def)
qed

end
