(* ===== verification/ReorgBuffer.thy ===== *)
theory ReorgBuffer
  imports Base "HOL-Library.Multiset"
begin

text \<open>
  The confirmation buffer of contract events (\<open>ReorgAwareEventProcessor\<close> in
  \<open>integrations/soroban_event_listener.py\<close>): events wait by ledger until the tip of the chain has
  moved far enough, and are retracted when their ledger is orphaned.

  The events are of any type, with the ledger they are read from; the callback is a predicate that
  says for which events it raises.
\<close>

subsection \<open>The buffer\<close>

record 'e pending_event =
  pe_ledger :: int
  pe_data :: 'e
  pe_received_at :: instant

record 'e reorg_buffer =
  rp_depth :: int
  rp_pending :: "(int, 'e pending_event list) dict"
  rp_finalized :: "'e pending_event list"
  rp_retracted :: "int list"

definition reorg_init :: "int \<Rightarrow> 'e reorg_buffer" where
  "reorg_init depth = \<lparr>rp_depth = depth, rp_pending = [], rp_finalized = [], rp_retracted = []\<rparr>"

definition pending_at :: "int \<Rightarrow> 'e reorg_buffer \<Rightarrow> 'e pending_event list" where
  "pending_at seq b = (case dict_get (rp_pending b) seq of Some es \<Rightarrow> es | None \<Rightarrow> [])"

text \<open>The events of one ledger up to the first on which the callback raises, and whether it did.\<close>

fun deliver_ledger :: "('e pending_event \<Rightarrow> bool) \<Rightarrow> 'e pending_event list \<Rightarrow> 'e pending_event list \<times> bool" where
  "deliver_ledger raises [] = ([], False)"
| "deliver_ledger raises (e # es) =
     (if raises e then ([e], True)
      else (case deliver_ledger raises es of (done_es, r) \<Rightarrow> (e # done_es, r)))"

fun finalize_ledgers ::
  "('e pending_event \<Rightarrow> bool) \<Rightarrow> int \<Rightarrow> int list \<Rightarrow> 'e reorg_buffer \<Rightarrow> 'e pending_event list \<Rightarrow>
   'e pending_event list option \<times> 'e reorg_buffer" where
  "finalize_ledgers raises cutoff [] b newly = (Some newly, b)"
| "finalize_ledgers raises cutoff (seq # seqs) b newly =
     (if cutoff < seq then (Some newly, b)
      else (case deliver_ledger raises (pending_at seq b) of
              (es, raised) \<Rightarrow>
                let b' = b\<lparr>rp_pending := dict_pop seq (rp_pending b), rp_finalized := rp_finalized b @ es\<rparr> in
                if raised then (None, b') else finalize_ledgers raises cutoff seqs b' (newly @ es)))"

text \<open>\<open>None\<close> is the exception of the callback.\<close>

definition finalize_events ::
  "('e pending_event \<Rightarrow> bool) \<Rightarrow> int \<Rightarrow> 'e reorg_buffer \<Rightarrow> 'e pending_event list option \<times> 'e reorg_buffer" where
  "finalize_events raises tip b =
     finalize_ledgers raises (tip - rp_depth b) (sort (dict_keys (rp_pending b))) b []"

definition process_event ::
  "('e pending_event \<Rightarrow> bool) \<Rightarrow> int \<Rightarrow> 'e \<Rightarrow> instant \<Rightarrow> int \<Rightarrow> 'e reorg_buffer \<Rightarrow>
   'e pending_event list option \<times> 'e reorg_buffer" where
  "process_event raises ledger data now tip b =
     finalize_events raises tip
       (b\<lparr>rp_pending := dict_set ledger
           (pending_at ledger b @ [\<lparr>pe_ledger = ledger, pe_data = data, pe_received_at = now\<rparr>]) (rp_pending b)\<rparr>)"

fun retract_ledgers :: "int list \<Rightarrow> 'e reorg_buffer \<Rightarrow> 'e pending_event list \<Rightarrow> 'e pending_event list \<times> 'e reorg_buffer" where
  "retract_ledgers [] b out = (out, b)"
| "retract_ledgers (seq # seqs) b out =
     (case dict_get (rp_pending b) seq of
        Some es \<Rightarrow> retract_ledgers seqs
          (b\<lparr>rp_pending := dict_pop seq (rp_pending b), rp_retracted := List.insert seq (rp_retracted b)\<rparr>) (out @ es)
      | None \<Rightarrow> retract_ledgers seqs (b\<lparr>rp_retracted := List.insert seq (rp_retracted b)\<rparr>) out)"

definition handle_reorg :: "int list \<Rightarrow> 'e reorg_buffer \<Rightarrow> 'e pending_event list \<times> 'e reorg_buffer" where
  "handle_reorg orphaned b = retract_ledgers orphaned b []"

subsection \<open>One call\<close>

definition all_pending :: "'e reorg_buffer \<Rightarrow> 'e pending_event multiset" where
  "all_pending b = mset (concat (map snd (rp_pending b)))"

definition buffer_wf :: "'e reorg_buffer \<Rightarrow> bool" where
  "buffer_wf b \<longleftrightarrow> dict_ok (rp_pending b) \<and>
     (\<forall>seq es. (seq, es) \<in> set (rp_pending b) \<longrightarrow> (\<forall>e\<in>set es. pe_ledger e = seq))"

text \<open>A callback that never raises.\<close>

abbreviation quiet :: "'e pending_event \<Rightarrow> bool" where
  "quiet \<equiv> \<lambda>_. False"

lemma deliver_quiet [simp]: "deliver_ledger quiet es = (es, False)"
  by (induction es) auto

lemma deliver_prefix: "fst (deliver_ledger raises es) = take (length (fst (deliver_ledger raises es))) es"
  by (induction es) (auto split: prod.splits)

lemma mset_pop:
  "dict_ok d \<Longrightarrow> mset (concat (map snd (dict_pop k d))) + mset (case dict_get d k of Some es \<Rightarrow> es | None \<Rightarrow> []) =
     mset (concat (map snd d))"
proof (induction d)
  case (Cons kv d)
  obtain k' v where kv: "kv = (k', v)" by fastforce
  have d: "dict_ok d" "dict_get d k' = None" using Cons.prems kv by (auto simp: dict_ok_def map_of_eq_None_iff)
  then have "dict_pop k' d = d" by (simp add: delete_idem map_of_eq_None_iff)
  then show ?case using Cons.IH [OF d(1)] kv by (auto simp: ac_simps)
qed simp

lemma mset_set:
  "dict_ok d \<Longrightarrow> mset (concat (map snd (dict_set k (case dict_get d k of Some es \<Rightarrow> es @ [e] | None \<Rightarrow> [e]) d))) =
     mset (concat (map snd d)) + {#e#}"
proof (induction d)
  case (Cons kv d)
  obtain k' v where kv: "kv = (k', v)" by fastforce
  have "dict_ok d" using Cons.prems by (simp add: dict_ok_def)
  then show ?case using Cons.IH kv by (auto simp: ac_simps)
qed simp

lemma set_dict_pop: "set (dict_pop k d) \<subseteq> set d"
  by (induction d) auto

lemma wf_pop: "buffer_wf b \<Longrightarrow> buffer_wf (b\<lparr>rp_pending := dict_pop k (rp_pending b), rp_finalized := fs, rp_retracted := rs\<rparr>)"
  using set_dict_pop [of k "rp_pending b"] by (auto simp: buffer_wf_def)

lemma wf_finalized [simp]: "buffer_wf (b\<lparr>rp_finalized := fs\<rparr>) = buffer_wf b" "buffer_wf (b\<lparr>rp_retracted := rs\<rparr>) = buffer_wf b"
  by (simp_all add: buffer_wf_def)

lemma pending_at_ledger: "buffer_wf b \<Longrightarrow> e \<in> set (pending_at seq b) \<Longrightarrow> pe_ledger e = seq"
  by (cases "dict_get (rp_pending b) seq") (auto simp: buffer_wf_def pending_at_def dest: map_of_SomeD)

text \<open>What finalising does when the callback does not raise.\<close>

lemma finalize_ledgers_spec:
  assumes "buffer_wf b" and "sorted seqs" and "finalize_ledgers quiet cutoff seqs b newly = (r, b')"
  shows "\<exists>es. r = Some (newly @ es) \<and> rp_finalized b' = rp_finalized b @ es \<and> buffer_wf b' \<and>
    all_pending b = all_pending b' + mset es \<and> (\<forall>e\<in>set es. pe_ledger e \<le> cutoff) \<and> sorted (map pe_ledger es) \<and>
    (\<forall>e\<in>set es. pe_ledger e \<in> set seqs) \<and>
    (\<forall>seq\<in>set seqs. seq \<le> cutoff \<longrightarrow> dict_get (rp_pending b') seq = None) \<and>
    (\<forall>seq. dict_get (rp_pending b) seq = None \<longrightarrow> dict_get (rp_pending b') seq = None) \<and>
    rp_depth b' = rp_depth b \<and> rp_retracted b' = rp_retracted b"
  using assms
proof (induction seqs arbitrary: b newly)
  case (Cons seq seqs)
  show ?case
  proof (cases "cutoff < seq")
    case True
    then show ?thesis using Cons.prems by auto
  next
    case False
    let ?b = "b\<lparr>rp_pending := dict_pop seq (rp_pending b), rp_finalized := rp_finalized b @ pending_at seq b\<rparr>"
    have step: "finalize_ledgers quiet cutoff seqs ?b (newly @ pending_at seq b) = (r, b')"
      using Cons.prems(3) False by simp
    have wf: "buffer_wf ?b" using wf_pop [OF Cons.prems(1), where k = seq and fs = "rp_finalized b @ pending_at seq b" and rs = "rp_retracted b"] by simp
    from Cons.IH [OF wf _ step] Cons.prems(2) obtain es where es:
      "r = Some ((newly @ pending_at seq b) @ es)" "rp_finalized b' = rp_finalized ?b @ es" "buffer_wf b'"
      "all_pending ?b = all_pending b' + mset es" "\<forall>e\<in>set es. pe_ledger e \<le> cutoff" "sorted (map pe_ledger es)"
      "\<forall>e\<in>set es. pe_ledger e \<in> set seqs"
      "\<forall>s\<in>set seqs. s \<le> cutoff \<longrightarrow> dict_get (rp_pending b') s = None"
      "\<forall>s. dict_get (rp_pending ?b) s = None \<longrightarrow> dict_get (rp_pending b') s = None"
      "rp_depth b' = rp_depth ?b" "rp_retracted b' = rp_retracted ?b" by auto
    have "all_pending b = all_pending ?b + mset (pending_at seq b)"
      using mset_pop [of "rp_pending b" seq] Cons.prems(1) by (simp add: all_pending_def pending_at_def buffer_wf_def)
    then have "all_pending b = all_pending b' + mset (pending_at seq b @ es)" using es(4) by (simp add: ac_simps)
    moreover have l: "\<forall>e\<in>set (pending_at seq b). pe_ledger e = seq" using pending_at_ledger [OF Cons.prems(1)] by blast
    moreover have "sorted (map pe_ledger (pending_at seq b))"
      using l by (induction "pending_at seq b") (auto simp: sorted_wrt_iff_nth_less)
    moreover have "\<forall>x\<in>set (map pe_ledger (pending_at seq b)). \<forall>y\<in>set (map pe_ledger es). x \<le> y"
      using l es(7) Cons.prems(2) by auto
    ultimately have "sorted (map pe_ledger (pending_at seq b @ es))" using es(6) by (simp add: sorted_append)
    then show ?thesis
      using es l False \<open>all_pending b = all_pending b' + mset (pending_at seq b @ es)\<close>
      by (intro exI [of _ "pending_at seq b @ es"]) auto
  qed
qed auto

lemma wf_process:
  assumes "buffer_wf b"
  shows "buffer_wf (b\<lparr>rp_pending := dict_set l (pending_at l b @ [\<lparr>pe_ledger = l, pe_data = x, pe_received_at = t\<rparr>]) (rp_pending b)\<rparr>)"
proof -
  have "pe_ledger e = seq" if "(seq, es) \<in> set (dict_set l (pending_at l b @ [\<lparr>pe_ledger = l, pe_data = x, pe_received_at = t\<rparr>]) (rp_pending b))"
    "e \<in> set es" for seq es e
  proof -
    have "dict_ok (dict_set l (pending_at l b @ [\<lparr>pe_ledger = l, pe_data = x, pe_received_at = t\<rparr>]) (rp_pending b))"
      using assms by (simp add: buffer_wf_def)
    then have "dict_get (dict_set l (pending_at l b @ [\<lparr>pe_ledger = l, pe_data = x, pe_received_at = t\<rparr>]) (rp_pending b)) seq = Some es"
      using that(1) by (simp only: dict_ok_def map_of_eq_Some_iff)
    then have "e \<in> set (pending_at seq b) \<or> seq = l \<and> pe_ledger e = l" using that(2)
      by (cases "seq = l") (auto simp: pending_at_def)
    then show ?thesis using pending_at_ledger [OF assms, of e seq] by blast
  qed
  then show ?thesis using assms by (auto simp: buffer_wf_def)
qed

lemma finalize_spec:
  assumes "buffer_wf b" and "finalize_events quiet tip b = (r, b')"
  shows "\<exists>es. r = Some es \<and> rp_finalized b' = rp_finalized b @ es \<and> buffer_wf b' \<and>
    all_pending b = all_pending b' + mset es \<and> (\<forall>e\<in>set es. pe_ledger e \<le> tip - rp_depth b) \<and> sorted (map pe_ledger es) \<and>
    (\<forall>e\<in>#all_pending b'. tip - rp_depth b < pe_ledger e) \<and> rp_depth b' = rp_depth b \<and> rp_retracted b' = rp_retracted b"
proof -
  from finalize_ledgers_spec [OF assms(1) sorted_sort assms(2) [unfolded finalize_events_def]] obtain es where es:
    "r = Some ([] @ es)" "rp_finalized b' = rp_finalized b @ es" "buffer_wf b'"
    "all_pending b = all_pending b' + mset es" "\<forall>e\<in>set es. pe_ledger e \<le> tip - rp_depth b" "sorted (map pe_ledger es)"
    "\<forall>s\<in>set (sort (dict_keys (rp_pending b))). s \<le> tip - rp_depth b \<longrightarrow> dict_get (rp_pending b') s = None"
    "\<forall>s. dict_get (rp_pending b) s = None \<longrightarrow> dict_get (rp_pending b') s = None"
    "rp_depth b' = rp_depth b" "rp_retracted b' = rp_retracted b" by blast
  have "tip - rp_depth b < pe_ledger e" if "e \<in># all_pending b'" for e
  proof -
    from that have "\<exists>kv\<in>set (rp_pending b'). e \<in> set (snd kv)" by (simp add: all_pending_def)
    then obtain kv where kv: "kv \<in> set (rp_pending b')" "e \<in> set (snd kv)" by blast
    obtain s xs where "kv = (s, xs)" by (rule prod.exhaust)
    then have s: "(s, xs) \<in> set (rp_pending b')" "e \<in> set xs" using kv by simp_all
    then have e: "pe_ledger e = s" using es(3) by (auto simp: buffer_wf_def)
    have g: "dict_get (rp_pending b') s \<noteq> None" using s(1) by (metis weak_map_of_SomeI option.distinct(1))
    then have "dict_get (rp_pending b) s \<noteq> None" using es(8) [rule_format, of s] by argo
    then have "s \<in> set (sort (dict_keys (rp_pending b)))" by (simp add: map_of_eq_None_iff)
    then show ?thesis using es(7) g e by force
  qed
  then show ?thesis using es by auto
qed

lemma retract_spec:
  assumes "buffer_wf b" and "retract_ledgers seqs b out = (r, b')"
  shows "\<exists>es. r = out @ es \<and> buffer_wf b' \<and> all_pending b = all_pending b' + mset es \<and> rp_finalized b' = rp_finalized b \<and>
    rp_depth b' = rp_depth b \<and> (\<forall>e\<in>set es. pe_ledger e \<in> set seqs)"
  using assms
proof (induction seqs arbitrary: b out)
  case (Cons seq seqs)
  show ?case
  proof (cases "dict_get (rp_pending b) seq")
    case None
    then have step: "retract_ledgers seqs (b\<lparr>rp_retracted := List.insert seq (rp_retracted b)\<rparr>) out = (r, b')"
      using Cons.prems(2) by simp
    have "buffer_wf (b\<lparr>rp_retracted := List.insert seq (rp_retracted b)\<rparr>)" using Cons.prems(1) by simp
    from Cons.IH [OF this step] show ?thesis by (auto simp: all_pending_def)
  next
    case (Some xs)
    let ?b = "b\<lparr>rp_pending := dict_pop seq (rp_pending b), rp_retracted := List.insert seq (rp_retracted b)\<rparr>"
    have wf: "buffer_wf ?b"
      using wf_pop [OF Cons.prems(1), where k = seq and fs = "rp_finalized b" and rs = "List.insert seq (rp_retracted b)"] by simp
    have "retract_ledgers seqs ?b (out @ xs) = (r, b')" using Cons.prems(2) Some by simp
    from Cons.IH [OF wf this] obtain es where es: "r = (out @ xs) @ es" "buffer_wf b'"
      "all_pending ?b = all_pending b' + mset es" "rp_finalized b' = rp_finalized b" "rp_depth b' = rp_depth b"
      "\<forall>e\<in>set es. pe_ledger e \<in> set seqs" by auto
    have "all_pending b = all_pending ?b + mset xs"
      using mset_pop [of "rp_pending b" seq] Cons.prems(1) Some by (simp add: all_pending_def buffer_wf_def)
    moreover have "\<forall>e\<in>set xs. pe_ledger e = seq"
      using pending_at_ledger [OF Cons.prems(1)] Some by (auto simp: pending_at_def)
    ultimately show ?thesis using es by (intro exI [of _ "xs @ es"]) (auto simp: ac_simps)
  qed
qed simp

subsection \<open>Histories\<close>

datatype 'e reorg_event = Process int 'e instant int | Finalize int | Reorg "int list"

text \<open>A run of calls, with the events submitted, the events retracted and the highest tip seen.\<close>

record 'e reorg_run =
  rr_buffer :: "'e reorg_buffer"
  rr_submitted :: "'e pending_event list"
  rr_retracted :: "'e pending_event list"
  rr_tip :: int

fun reorg_step :: "'e reorg_run \<Rightarrow> 'e reorg_event \<Rightarrow> 'e reorg_run" where
  "reorg_step s (Process l x t tip) =
     s\<lparr>rr_buffer := snd (process_event quiet l x t tip (rr_buffer s)),
       rr_submitted := rr_submitted s @ [\<lparr>pe_ledger = l, pe_data = x, pe_received_at = t\<rparr>], rr_tip := max (rr_tip s) tip\<rparr>"
| "reorg_step s (Finalize tip) =
     s\<lparr>rr_buffer := snd (finalize_events quiet tip (rr_buffer s)), rr_tip := max (rr_tip s) tip\<rparr>"
| "reorg_step s (Reorg seqs) =
     (case handle_reorg seqs (rr_buffer s) of (out, b) \<Rightarrow> s\<lparr>rr_buffer := b, rr_retracted := rr_retracted s @ out\<rparr>)"

definition reorg_start :: "int \<Rightarrow> int \<Rightarrow> 'e reorg_run" where
  "reorg_start depth tip = \<lparr>rr_buffer = reorg_init depth, rr_submitted = [], rr_retracted = [], rr_tip = tip\<rparr>"

definition reorg_inv :: "int \<Rightarrow> 'e reorg_run \<Rightarrow> bool" where
  "reorg_inv d s \<longleftrightarrow> buffer_wf (rr_buffer s) \<and> rp_depth (rr_buffer s) = d \<and>
     mset (rr_submitted s) = mset (rp_finalized (rr_buffer s)) + all_pending (rr_buffer s) + mset (rr_retracted s) \<and>
     (\<forall>e\<in>set (rp_finalized (rr_buffer s)). pe_ledger e \<le> rr_tip s - d)"

lemma finalize_inv:
  assumes "reorg_inv d s"
  shows "reorg_inv d (s\<lparr>rr_buffer := snd (finalize_events quiet tip (rr_buffer s)), rr_tip := max (rr_tip s) tip\<rparr>)"
proof -
  obtain r b where f: "finalize_events quiet tip (rr_buffer s) = (r, b)" by (rule prod.exhaust)
  from finalize_spec [OF _ this] assms obtain es where
    "rp_finalized b = rp_finalized (rr_buffer s) @ es" "buffer_wf b" "all_pending (rr_buffer s) = all_pending b + mset es"
    "\<forall>e\<in>set es. pe_ledger e \<le> tip - d" "rp_depth b = d" by (auto simp: reorg_inv_def)
  then show ?thesis using assms f by (fastforce simp: reorg_inv_def ac_simps)
qed

interpretation reorg_run: preserved reorg_step "reorg_inv d" for d
proof
  fix s :: "'e reorg_run" and e
  assume inv: "reorg_inv d s"
  show "reorg_inv d (reorg_step s e)"
  proof (cases e)
    case (Process l x t tip)
    let ?e = "\<lparr>pe_ledger = l, pe_data = x, pe_received_at = t\<rparr>"
    let ?b = "(rr_buffer s)\<lparr>rp_pending := dict_set l (pending_at l (rr_buffer s) @ [?e]) (rp_pending (rr_buffer s))\<rparr>"
    have "all_pending ?b = all_pending (rr_buffer s) + {#?e#}"
      using mset_set [of "rp_pending (rr_buffer s)" l ?e] inv
      by (cases "dict_get (rp_pending (rr_buffer s)) l") (simp_all add: all_pending_def reorg_inv_def buffer_wf_def pending_at_def)
    then have "reorg_inv d (s\<lparr>rr_buffer := ?b, rr_submitted := rr_submitted s @ [?e]\<rparr>)"
      using inv wf_process [of "rr_buffer s" l x t] by (simp add: reorg_inv_def)
    note f = finalize_inv [OF this, of tip]
    have "reorg_step s (Process l x t tip) =
        s\<lparr>rr_buffer := ?b, rr_submitted := rr_submitted s @ [?e]\<rparr>
          \<lparr>rr_buffer := snd (finalize_events quiet tip ?b), rr_tip := max (rr_tip s) tip\<rparr>"
      by (simp add: process_event_def)
    with f show ?thesis by (simp add: Process)
  next
    case (Finalize tip)
    then show ?thesis using finalize_inv [OF inv] by simp
  next
    case (Reorg seqs)
    obtain out b where r: "handle_reorg seqs (rr_buffer s) = (out, b)" by (rule prod.exhaust)
    from retract_spec [OF _ this [unfolded handle_reorg_def]] inv obtain es where
      "out = [] @ es" "buffer_wf b" "all_pending (rr_buffer s) = all_pending b + mset es"
      "rp_finalized b = rp_finalized (rr_buffer s)" "rp_depth b = d" by (auto simp: reorg_inv_def)
    then show ?thesis using inv r Reorg by (simp add: reorg_inv_def ac_simps)
  qed
qed

text \<open>
  The confirmation buffer conserves events: in every history of submissions, finalisations and
  reorganisations, with a callback that does not raise, each submitted event is finalised, waiting or
  retracted, exactly once; and no event is finalised before the tip is \<open>depth\<close> ledgers past it.
\<close>

theorem events_conserved:
  assumes "s = foldl reorg_step (reorg_start depth tip) es"
  shows "mset (rr_submitted s) = mset (rp_finalized (rr_buffer s)) + all_pending (rr_buffer s) + mset (rr_retracted s) \<and>
    (\<forall>e\<in>set (rp_finalized (rr_buffer s)). depth \<le> rr_tip s - pe_ledger e)"
proof -
  have "reorg_inv depth (reorg_start depth tip)"
    by (simp add: reorg_inv_def reorg_start_def reorg_init_def buffer_wf_def all_pending_def)
  from reorg_run.run_inv [OF this, of es] show ?thesis unfolding assms by (force simp: reorg_inv_def)
qed

lemma events_conserved_witness:
  "mset (rr_submitted (foldl reorg_step (reorg_start 2 10) [Process 9 ''a'' 0 10, Reorg [9], Process 9 ''b'' 0 11])) =
     mset (rp_finalized (rr_buffer (foldl reorg_step (reorg_start 2 10) [Process 9 ''a'' 0 10, Reorg [9], Process 9 ''b'' 0 11]))) +
     all_pending (rr_buffer (foldl reorg_step (reorg_start 2 10) [Process 9 ''a'' 0 10, Reorg [9], Process 9 ''b'' 0 11])) +
     mset (rr_retracted (foldl reorg_step (reorg_start 2 10) [Process 9 ''a'' 0 10, Reorg [9], Process 9 ''b'' 0 11]))"
  using events_conserved [OF refl, of 2 10 "[Process 9 ''a'' 0 10, Reorg [9], Process 9 ''b'' 0 11]"] by blast

text \<open>
  A callback that raises loses events: the ledger was taken out of the buffer before its events are
  delivered, so the ones after the failure are neither finalised nor waiting.
\<close>

theorem raising_callback_loses:
  assumes "rp_pending b = [(l, es @ e # rest)]" and "\<forall>x\<in>set es. \<not> raises x" and "raises e" and "l \<le> tip - rp_depth b"
  shows "\<exists>b'. finalize_events raises tip b = (None, b') \<and> rp_pending b' = [] \<and> rp_finalized b' = rp_finalized b @ es @ [e]"
proof -
  have "deliver_ledger raises (es @ e # rest) = (es @ [e], True)"
    using assms(2,3) by (induction es) auto
  then show ?thesis using assms(1,4) by (simp add: finalize_events_def pending_at_def)
qed

lemma raising_callback_loses_witness:
  "\<exists>b'. finalize_events (\<lambda>e. pe_data e = ''bad'') 12
      \<lparr>rp_depth = 2, rp_pending = [(9, [\<lparr>pe_ledger = 9, pe_data = ''bad'', pe_received_at = 0\<rparr>,
         \<lparr>pe_ledger = 9, pe_data = ''pause'', pe_received_at = 0\<rparr>])], rp_finalized = [], rp_retracted = []\<rparr> = (None, b') \<and>
    rp_pending b' = [] \<and> rp_finalized b' = [\<lparr>pe_ledger = 9, pe_data = ''bad'', pe_received_at = 0\<rparr>]"
  using raising_callback_loses [of "\<lparr>rp_depth = 2, rp_pending = [(9, [\<lparr>pe_ledger = 9, pe_data = ''bad'', pe_received_at = 0\<rparr>,
      \<lparr>pe_ledger = 9, pe_data = ''pause'', pe_received_at = 0\<rparr>])], rp_finalized = [], rp_retracted = []\<rparr>" 9 "[]"
      "\<lparr>pe_ledger = 9, pe_data = ''bad'', pe_received_at = 0\<rparr>" _ "\<lambda>e. pe_data e = ''bad''" 12] by simp

text \<open>
  The recorded retractions are never consulted: an event of an orphaned ledger that is submitted again
  is buffered and finalised like any other.
\<close>

theorem orphans_return:
  "snd (process_event raises l x t tip (b\<lparr>rp_retracted := seqs\<rparr>)) =
     (snd (process_event raises l x t tip b))\<lparr>rp_retracted := seqs\<rparr>"
proof -
  have "snd (finalize_ledgers raises c ss (b\<lparr>rp_retracted := seqs\<rparr>) n) = (snd (finalize_ledgers raises c ss b n))\<lparr>rp_retracted := seqs\<rparr>"
    for c ss n and b :: "'a reorg_buffer"
  proof (induction ss arbitrary: b n)
    case (Cons s ss)
    have p: "pending_at s (b\<lparr>rp_retracted := seqs\<rparr>) = pending_at s b" by (simp add: pending_at_def)
    have c: "b\<lparr>rp_retracted := seqs, rp_pending := q, rp_finalized := f\<rparr> =
        b\<lparr>rp_pending := q, rp_finalized := f, rp_retracted := seqs\<rparr>" for q f by simp
    show ?case unfolding finalize_ledgers.simps p reorg_buffer.select_convs c
      using Cons.IH [of "b\<lparr>rp_pending := dict_pop s (rp_pending b), rp_finalized := f\<rparr>" for f]
      by (auto split: prod.split simp: Let_def)
  qed simp
  note f = this
  have c: "b\<lparr>rp_retracted := seqs, rp_pending := q\<rparr> = b\<lparr>rp_pending := q, rp_retracted := seqs\<rparr>" for q by simp
  have p: "pending_at l (b\<lparr>rp_retracted := seqs\<rparr>) = pending_at l b" by (simp add: pending_at_def)
  show ?thesis by (simp add: process_event_def finalize_events_def p c f)
qed

end
