(* ===== verification/PyJson.thy ===== *)
theory PyJson
  imports Json "HOL-Library.Monad_Syntax" "HOL-Library.Sublist"
begin

text \<open>
  Python's operations on values \<open>json.loads\<close> returned, when the code does not know their type:
  truth, \<open>in\<close>, \<open>get\<close>, indexing, iteration and \<open>int\<close>. \<open>None\<close> is the \<open>AttributeError\<close>,
  \<open>TypeError\<close>, \<open>KeyError\<close>, \<open>IndexError\<close> or \<open>ValueError\<close>, and \<open>do\<close> blocks propagate it.
  Whitespace and digits are those of ASCII.
\<close>

fun py_truthy :: "json \<Rightarrow> bool" where
  "py_truthy JNull \<longleftrightarrow> False"
| "py_truthy (JBool b) \<longleftrightarrow> b"
| "py_truthy (JNum q) \<longleftrightarrow> q \<noteq> 0"
| "py_truthy (JStr s) \<longleftrightarrow> s \<noteq> []"
| "py_truthy (JList js) \<longleftrightarrow> js \<noteq> []"
| "py_truthy (JObj kvs) \<longleftrightarrow> kvs \<noteq> []"

definition py_or :: "json \<Rightarrow> json \<Rightarrow> json" where
  "py_or a b = (if py_truthy a then a else b)"

fun py_get :: "json \<Rightarrow> string \<Rightarrow> json \<Rightarrow> json option" where
  "py_get (JObj kvs) k d = Some (case map_of kvs (KStr k) of Some v \<Rightarrow> v | None \<Rightarrow> d)"
| "py_get j k d = None"

fun py_in :: "string \<Rightarrow> json \<Rightarrow> bool option" where
  "py_in k (JObj kvs) = Some (map_of kvs (KStr k) \<noteq> None)"
| "py_in k (JList js) = Some (JStr k \<in> set js)"
| "py_in k (JStr s) = Some (list_ex (prefix k) (suffixes s))"
| "py_in k j = None"

fun py_item :: "json \<Rightarrow> string \<Rightarrow> json option" where
  "py_item (JObj kvs) k = map_of kvs (KStr k)"
| "py_item j k = None"

fun py_index :: "json \<Rightarrow> nat \<Rightarrow> json option" where
  "py_index (JList js) i = (if i < length js then Some (js ! i) else None)"
| "py_index (JStr s) i = (if i < length s then Some (JStr [s ! i]) else None)"
| "py_index (JObj kvs) i = map_of kvs (KInt (int i))"
| "py_index j i = None"

fun py_len :: "json \<Rightarrow> nat option" where
  "py_len (JList js) = Some (length js)"
| "py_len (JStr s) = Some (length s)"
| "py_len (JObj kvs) = Some (length kvs)"
| "py_len j = None"

fun key_json :: "jkey \<Rightarrow> json" where
  "key_json (KStr s) = JStr s"
| "key_json (KInt i) = JNum (of_int i)"

fun py_iter :: "json \<Rightarrow> json list option" where
  "py_iter (JList js) = Some js"
| "py_iter (JStr s) = Some (map (\<lambda>c. JStr [c]) s)"
| "py_iter (JObj kvs) = Some (map (key_json \<circ> fst) kvs)"
| "py_iter j = None"

fun py_hashable :: "json \<Rightarrow> bool" where
  "py_hashable (JList js) \<longleftrightarrow> False"
| "py_hashable (JObj kvs) \<longleftrightarrow> False"
| "py_hashable j \<longleftrightarrow> True"

subsection \<open>\<open>int\<close>\<close>

definition ascii_space :: "char \<Rightarrow> bool" where
  "ascii_space c \<longleftrightarrow> c = CHR '' '' \<or> (let n = of_char c :: nat in 9 \<le> n \<and> n \<le> 13 \<or> 28 \<le> n \<and> n \<le> 31)"

definition strip :: "string \<Rightarrow> string" where
  "strip s = rev (dropWhile ascii_space (rev (dropWhile ascii_space s)))"

definition digit_of :: "char \<Rightarrow> int option" where
  "digit_of c = (let n = of_char c :: nat in if 48 \<le> n \<and> n \<le> 57 then Some (int n - 48) else None)"

text \<open>Digits, with single underscores between them.\<close>

fun digits_from :: "int \<Rightarrow> string \<Rightarrow> int option" where
  "digits_from acc [] = Some acc"
| "digits_from acc [c] = map_option (\<lambda>d. acc * 10 + d) (digit_of c)"
| "digits_from acc (c # c' # cs) =
     (if c = CHR ''_'' then map_option (\<lambda>d. acc * 10 + d) (digit_of c') \<bind> (\<lambda>a. digits_from a cs)
      else map_option (\<lambda>d. acc * 10 + d) (digit_of c) \<bind> (\<lambda>a. digits_from a (c' # cs)))"

definition read_digits :: "string \<Rightarrow> int option" where
  "read_digits s = (case s of [] \<Rightarrow> None | c # cs \<Rightarrow> digit_of c \<bind> (\<lambda>a. digits_from a cs))"

definition int_of_text :: "string \<Rightarrow> int option" where
  "int_of_text s =
     (case strip s of
        CHR ''-'' # ds \<Rightarrow> map_option uminus (read_digits ds)
      | CHR ''+'' # ds \<Rightarrow> read_digits ds
      | ds \<Rightarrow> read_digits ds)"

fun py_to_int :: "json \<Rightarrow> int option" where
  "py_to_int (JNum q) = Some (if q < 0 then - \<lfloor>- q\<rfloor> else \<lfloor>q\<rfloor>)"
| "py_to_int (JBool b) = Some (of_bool b)"
| "py_to_int (JStr s) = int_of_text s"
| "py_to_int j = None"

text \<open>The number an arithmetic operator sees; \<open>None\<close> is its \<open>TypeError\<close>.\<close>

fun py_num :: "json \<Rightarrow> rat option" where
  "py_num (JNum q) = Some q"
| "py_num (JBool b) = Some (of_bool b)"
| "py_num j = None"

lemma py_to_int_of_int [simp]: "py_to_int (JNum (of_int i)) = Some i"
  by (auto simp: floor_minus)

end
