(* ===== verification/SorobanListener.thy ===== *)
theory SorobanListener
  imports PyJson
begin

text \<open>
  The two pollers of Soroban contract events (\<open>integrations/soroban_event_listener.py\<close>): the
  score oracle's, which parses, stores and alerts, and the governance listener, which halts the
  pipeline on a pause event.

  Responses of the RPC node are JSON values and \<open>None\<close> is a raised exception. What lies outside is
  the record \<open>oracle_ops\<close>: SHA-256 and the keyed hash, \<open>json.dumps\<close>, \<open>str\<close> of a value that is
  not text, \<open>datetime.fromisoformat\<close>, which values the database driver accepts, the source of current
  scores and the dispatcher, which may raise.
\<close>

record oracle_ops =
  so_sha :: "string \<Rightarrow> string"
  so_hmac :: "string \<Rightarrow> string"
  so_dumps :: "json \<Rightarrow> string"
  so_str :: "json \<Rightarrow> string"
  so_iso :: "string \<Rightarrow> instant option"
  so_bindable :: "json \<Rightarrow> bool"
  so_score :: "string option \<Rightarrow> int option option"

subsection \<open>Parsing\<close>

record contract_event =
  ce_event_type :: string
  ce_ledger :: int
  ce_timestamp :: instant
  ce_event_id :: "string option"
  ce_contract_id :: json
  ce_score :: json
  ce_asset_pair :: json
  ce_wallet_hash :: "string option"
  ce_consumer_hash :: "string option"
  ce_old_threshold :: json
  ce_new_threshold :: json

definition known_event_types :: "string list" where
  "known_event_types = [''score_read'', ''score_updated'', ''threshold_updated'']"

definition hash_address :: "oracle_ops \<Rightarrow> json \<Rightarrow> string option" where
  "hash_address w j = (case j of JStr s \<Rightarrow> Some (so_hmac w s) | _ \<Rightarrow> None)"

definition parse_timestamp :: "oracle_ops \<Rightarrow> json \<Rightarrow> instant option" where
  "parse_timestamp w j =
     (case j of
        JStr s \<Rightarrow> so_iso w (concat (map (\<lambda>c. if c = CHR ''Z'' then ''+00:00'' else [c]) s))
      | _ \<Rightarrow> None)"

fun decode_entries :: "json list \<Rightarrow> (json, json) dict \<Rightarrow> (json, json) dict option" where
  "decode_entries [] d = Some d"
| "decode_entries (e # es) d = do {
     k \<leftarrow> py_get e ''key'' (JObj []);
     key \<leftarrow> py_get k ''value'' JNull;
     if key = JNull then decode_entries es d
     else do {
       v \<leftarrow> py_get e ''val'' (JObj []);
       val \<leftarrow> py_get v ''value'' JNull;
       if py_hashable key then decode_entries es (dict_set key val d) else None
     }
   }"

definition decode_value_map :: "json \<Rightarrow> (json, json) dict option" where
  "decode_value_map j =
     (if \<not> py_truthy j then Some []
      else do {
        t \<leftarrow> py_get j ''type'' JNull;
        if t \<noteq> JStr ''map'' then Some []
        else do { v \<leftarrow> py_get j ''value'' (JList []); es \<leftarrow> py_iter v; decode_entries es [] }
      })"

definition field_of :: "(json, json) dict \<Rightarrow> string \<Rightarrow> json" where
  "field_of d k = (case dict_get d (JStr k) of Some v \<Rightarrow> v | None \<Rightarrow> JNull)"

definition so_text :: "oracle_ops \<Rightarrow> json \<Rightarrow> string" where
  "so_text w j = (case j of JStr s \<Rightarrow> s | _ \<Rightarrow> so_str w j)"

text \<open>The parts of a synthetic identity are separated by the unit separator, byte 31.\<close>

definition joined_parts :: "string list \<Rightarrow> string" where
  "joined_parts ps = concat (map (\<lambda>p. p @ [char_of (31::nat)]) ps)"

definition event_identity ::
  "oracle_ops \<Rightarrow> json \<Rightarrow> json \<Rightarrow> string \<Rightarrow> int \<Rightarrow> json \<Rightarrow> string option" where
  "event_identity w raw payload ty ledger stamp = do {
     a \<leftarrow> py_get raw ''id'' JNull;
     native \<leftarrow> (if py_truthy a then Some a else py_get payload ''id'' JNull);
     if py_truthy native then Some (so_text w native)
     else do {
       c \<leftarrow> py_get payload ''contractId'' JNull;
       c' \<leftarrow> (if py_truthy c then Some c else py_get raw ''contractId'' JNull);
       topic \<leftarrow> py_get payload ''topic'' JNull;
       value \<leftarrow> py_get payload ''value'' JNull;
       Some (''synthetic:'' @ so_sha w (joined_parts
         [so_text w (py_or c' (JStr [])), ty, dec_int ledger, so_text w (py_or stamp (JStr [])),
          so_dumps w topic, so_dumps w value]))
     }
   }"

text \<open>Whether the payload is nested under \<open>data\<close>, the shape of Horizon's effects.\<close>

definition nested :: "json \<Rightarrow> bool option" where
  "nested raw = do {
     d \<leftarrow> py_in ''data'' raw;
     if d then do { inner \<leftarrow> py_get raw ''data'' (JObj []); py_in ''topic'' inner } else Some False
   }"

definition wallet_hash :: "oracle_ops \<Rightarrow> json \<Rightarrow> string option option" where
  "wallet_hash w topics = do {
     n \<leftarrow> py_len topics;
     if n \<le> 1 then Some None
     else do {
       t \<leftarrow> py_index topics 1;
       ty \<leftarrow> py_get t ''type'' JNull;
       if ty \<noteq> JStr ''address'' then Some None
       else do { v \<leftarrow> py_item t ''value''; h \<leftarrow> hash_address w v; Some (Some h) }
     }
   }"

text \<open>The event, once its type is known.\<close>

definition build_event :: "oracle_ops \<Rightarrow> instant \<Rightarrow> json \<Rightarrow> json \<Rightarrow> json \<Rightarrow> json \<Rightarrow> json \<Rightarrow> contract_event option" where
  "build_event w now raw payload stamp topics ty = do {
     l \<leftarrow> py_get payload ''ledger'' (JNum 0);
     ledger \<leftarrow> py_to_int l;
     ts \<leftarrow> (if py_truthy stamp then parse_timestamp w stamp else Some now);
     c \<leftarrow> py_get payload ''contractId'' JNull;
     contract \<leftarrow> (if py_truthy c then Some c else py_get raw ''contractId'' JNull);
     eid \<leftarrow> event_identity w raw payload (so_text w ty) ledger stamp;
     wallet \<leftarrow> wallet_hash w topics;
     v \<leftarrow> py_get payload ''value'' JNull;
     fields \<leftarrow> decode_value_map v;
     let consumer = field_of fields ''consumer'';
     ch \<leftarrow> (if py_truthy consumer then map_option Some (hash_address w consumer) else Some None);
     Some \<lparr>ce_event_type = so_text w ty, ce_ledger = ledger, ce_timestamp = ts,
       ce_event_id = Some eid, ce_contract_id = contract, ce_score = field_of fields ''score'',
       ce_asset_pair = field_of fields ''asset_pair'', ce_wallet_hash = wallet,
       ce_consumer_hash = ch, ce_old_threshold = field_of fields ''old_threshold'',
       ce_new_threshold = field_of fields ''new_threshold''\<rparr>
   }"

text \<open>The value is \<open>Some None\<close> for an event that is ignored.\<close>

definition parse_contract_event :: "oracle_ops \<Rightarrow> instant \<Rightarrow> json \<Rightarrow> contract_event option option" where
  "parse_contract_event w now raw =
     (if \<not> py_truthy raw then Some None
      else do {
        inner \<leftarrow> nested raw;
        payload \<leftarrow> (if inner then py_item raw ''data'' else Some raw);
        stamp \<leftarrow> py_get raw (if inner then ''created_at'' else ''ledgerClosedAt'') JNull;
        tp \<leftarrow> py_get payload ''topic'' JNull;
        let topics = py_or tp (JList []);
        if \<not> py_truthy topics then Some None
        else do {
          t0 \<leftarrow> py_index topics 0;
          ty \<leftarrow> py_get t0 ''value'' JNull;
          if \<not> py_hashable ty then None
          else if ty \<notin> JStr ` set known_event_types then Some None
          else map_option Some (build_event w now raw payload stamp topics ty)
        }
      })"

subsection \<open>The store\<close>

record oracle_db =
  od_events :: "contract_event list"
  od_marks :: "(string, int) dict"

definition bindable :: "oracle_ops \<Rightarrow> contract_event \<Rightarrow> bool" where
  "bindable w e \<longleftrightarrow> list_all (so_bindable w)
     [ce_contract_id e, JNum (of_int (ce_ledger e)), ce_score e, ce_asset_pair e, ce_old_threshold e, ce_new_threshold e]"

text \<open>The insertion with its unique constraint: a null identity conflicts with nothing.\<close>

definition insert_event :: "contract_event \<Rightarrow> contract_event list \<Rightarrow> bool \<times> contract_event list" where
  "insert_event e t =
     (if ce_event_id e \<noteq> None \<and> ce_event_id e \<in> ce_event_id ` set t then (False, t) else (True, t @ [e]))"

definition persist_event :: "oracle_ops \<Rightarrow> contract_event \<Rightarrow> oracle_db \<Rightarrow> (bool \<times> oracle_db) option" where
  "persist_event w e db =
     (if ce_event_id e \<noteq> None \<and> ce_event_id e \<in> ce_event_id ` set (od_events db) then Some (False, db)
      else if \<not> bindable w e then None
      else (case insert_event e (od_events db) of (new, t) \<Rightarrow> Some (new, db\<lparr>od_events := t\<rparr>)))"

definition get_watermark :: "string \<Rightarrow> oracle_db \<Rightarrow> int" where
  "get_watermark c db = (case dict_get (od_marks db) c of Some l \<Rightarrow> l | None \<Rightarrow> 0)"

definition set_watermark :: "string \<Rightarrow> int \<Rightarrow> oracle_db \<Rightarrow> oracle_db" where
  "set_watermark c l db = db\<lparr>od_marks := dict_set c l (od_marks db)\<rparr>"

subsection \<open>Confirmation\<close>

definition fetch_latest_ledger :: "json option \<Rightarrow> int option" where
  "fetch_latest_ledger response = do {
     r \<leftarrow> response;
     result \<leftarrow> py_get r ''result'' (JObj []);
     sequence \<leftarrow> py_get result ''sequence'' JNull;
     if sequence = JNull then None else py_to_int sequence
   }"

definition raw_ledger :: "json \<Rightarrow> int option" where
  "raw_ledger raw = do {
     inner \<leftarrow> nested raw;
     payload \<leftarrow> (if inner then py_get raw ''data'' JNull else Some raw);
     d \<leftarrow> py_get raw ''ledger'' (JNum 0);
     l \<leftarrow> py_get payload ''ledger'' d;
     py_to_int (py_or l (JNum 0))
   }"

fun split_each :: "int \<Rightarrow> json list \<Rightarrow> (json list \<times> json list) option" where
  "split_each cutoff [] = Some ([], [])"
| "split_each cutoff (raw # raws) = do {
     l \<leftarrow> raw_ledger raw;
     (confirmed, pending) \<leftarrow> split_each cutoff raws;
     Some (if l \<le> cutoff then (raw # confirmed, pending) else (confirmed, raw # pending))
   }"

definition split_confirmed :: "json list \<Rightarrow> int option \<Rightarrow> int \<Rightarrow> (json list \<times> json list) option" where
  "split_confirmed raws latest depth =
     (if depth \<le> 0 then Some (raws, [])
      else (case latest of None \<Rightarrow> Some ([], raws) | Some tip \<Rightarrow> split_each (tip - depth) raws))"

subsection \<open>The score oracle's poller\<close>

record oracle_config =
  oc_contract :: string
  oc_depth :: int
  oc_dispatcher :: bool
  oc_score_fn :: bool
  oc_threshold :: int

record oracle_alert =
  oa_event :: contract_event
  oa_delta :: rat
  oa_current :: int

record oracle_state =
  os_db :: oracle_db
  os_alerts :: "oracle_alert list"

text \<open>The alert raised for an event, if any; the comparison raises when the score is no number.\<close>

definition check_stale_score_alert :: "contract_event \<Rightarrow> int option \<Rightarrow> int \<Rightarrow> oracle_alert option option" where
  "check_stale_score_alert e current threshold =
     (if ce_event_type e \<noteq> ''score_read'' then Some None
      else (case current of
              None \<Rightarrow> Some None
            | Some c \<Rightarrow>
                if ce_score e = JNull then Some None
                else do {
                  s \<leftarrow> py_num (ce_score e);
                  let delta = \<bar>of_int c - s\<bar>;
                  Some (if delta \<le> of_int threshold then None
                        else Some \<lparr>oa_event = e, oa_delta = delta, oa_current = c\<rparr>)
                }))"

text \<open>Alerting on one event: the alert sent, \<open>None\<close> when the score source or the comparison raises.\<close>

definition alert_for :: "oracle_ops \<Rightarrow> oracle_config \<Rightarrow> contract_event \<Rightarrow> oracle_alert list option" where
  "alert_for w c e =
     (if ce_event_type e = ''score_read'' \<and> oc_dispatcher c \<and> oc_score_fn c
      then do {
        current \<leftarrow> so_score w (ce_wallet_hash e);
        a \<leftarrow> check_stale_score_alert e current (oc_threshold c);
        Some (case a of None \<Rightarrow> [] | Some x \<Rightarrow> [x])
      }
      else Some [])"

text \<open>
  The loop of a batch: the events parsed and the highest ledger, \<open>None\<close> when it raised, and the
  state it leaves in either case. A dispatcher that raises is the predicate \<open>refuses\<close>; the alert
  it refused is counted as sent. The clock, read for an event that carries no time of its own, stands
  still during a batch.
\<close>

fun oracle_events ::
  "oracle_ops \<Rightarrow> (oracle_alert \<Rightarrow> bool) \<Rightarrow> oracle_config \<Rightarrow> instant \<Rightarrow> json list \<Rightarrow> contract_event list \<Rightarrow>
   oracle_state \<Rightarrow> contract_event list option \<times> oracle_state" where
  "oracle_events w refuses c now [] parsed s = (Some parsed, s)"
| "oracle_events w refuses c now (raw # raws) parsed s =
     (case parse_contract_event w now raw of
        None \<Rightarrow> (None, s)
      | Some None \<Rightarrow> oracle_events w refuses c now raws parsed s
      | Some (Some e) \<Rightarrow>
          (case persist_event w e (os_db s) of
             None \<Rightarrow> (None, s)
           | Some (new, db) \<Rightarrow>
               (case alert_for w c e of
                  None \<Rightarrow> (None, s\<lparr>os_db := db\<rparr>)
                | Some as \<Rightarrow>
                    let s' = s\<lparr>os_db := db, os_alerts := os_alerts s @ as\<rparr> in
                    if list_ex refuses as then (None, s')
                    else oracle_events w refuses c now raws (parsed @ [e]) s')))"

definition max_ledger :: "contract_event list \<Rightarrow> int option" where
  "max_ledger es =
     fold (\<lambda>e m. Some (case m of None \<Rightarrow> ce_ledger e | Some l \<Rightarrow> max l (ce_ledger e))) es None"

definition process_batch ::
  "oracle_ops \<Rightarrow> (oracle_alert \<Rightarrow> bool) \<Rightarrow> oracle_config \<Rightarrow> instant \<Rightarrow> json list \<Rightarrow> int option \<Rightarrow>
   oracle_state \<Rightarrow> contract_event list option \<times> oracle_state" where
  "process_batch w refuses c now raws latest s =
     (case (if 0 < oc_depth c \<and> latest \<noteq> None then split_confirmed raws latest (oc_depth c) else Some (raws, [])) of
        None \<Rightarrow> (None, s)
      | Some (confirmed, pending) \<Rightarrow>
          (case oracle_events w refuses c now confirmed [] s of
             (None, s') \<Rightarrow> (None, s')
           | (Some parsed, s') \<Rightarrow>
               (Some parsed,
                (case max_ledger parsed of
                   None \<Rightarrow> s'
                 | Some l \<Rightarrow> s'\<lparr>os_db := set_watermark (oc_contract c) l (os_db s')\<rparr>))))"

text \<open>The node: the response to \<open>getEvents\<close> from a ledger on, and to \<open>getLatestLedger\<close>.\<close>

record rpc_node =
  rn_events :: "int \<Rightarrow> json option"
  rn_latest :: "json option"

definition response_events :: "json option \<Rightarrow> json option" where
  "response_events response = do {
     r \<leftarrow> response;
     result \<leftarrow> py_get r ''result'' (JObj []);
     py_get result ''events'' (JList [])
   }"

definition oracle_poll ::
  "oracle_ops \<Rightarrow> (oracle_alert \<Rightarrow> bool) \<Rightarrow> oracle_config \<Rightarrow> instant \<Rightarrow> rpc_node \<Rightarrow>
   oracle_state \<Rightarrow> contract_event list option \<times> oracle_state" where
  "oracle_poll w refuses c now node s =
     (case response_events (rn_events node (get_watermark (oc_contract c) (os_db s))) of
        None \<Rightarrow> (None, s)
      | Some events \<Rightarrow>
          if \<not> py_truthy events then (Some [], s)
          else let latest = (if 0 < oc_depth c then fetch_latest_ledger (rn_latest node) else None) in
               if 0 < oc_depth c \<and> latest = None then (Some [], s)
               else (case py_iter events of
                       None \<Rightarrow> (None, s)
                     | Some raws \<Rightarrow> process_batch w refuses c now raws latest s))"

subsection \<open>The governance listener\<close>

datatype gov_call = ThresholdChanged json | ContractPaused json | ContractUnpaused

record listener_config =
  gc_governance :: string
  gc_pause :: string
  gc_depth :: int

text \<open>The durable position is present when the listener was given a database.\<close>

record gov_state =
  gv_start :: int
  gv_durable :: "int option"
  gv_paused :: bool
  gv_calls :: "gov_call list"

definition gov_init :: "int option \<Rightarrow> gov_state" where
  "gov_init durable = \<lparr>gv_start = (case durable of Some l \<Rightarrow> l | None \<Rightarrow> 0), gv_durable = durable,
     gv_paused = False, gv_calls = []\<rparr>"

definition save_start :: "int \<Rightarrow> gov_state \<Rightarrow> gov_state" where
  "save_start l s = s\<lparr>gv_start := l, gv_durable := map_option (\<lambda>_. l) (gv_durable s)\<rparr>"

definition sym_to_str :: "json \<Rightarrow> json option" where
  "sym_to_str j = do { d \<leftarrow> py_get j ''str'' (JStr []); py_get j ''sym'' d }"

definition extract_u32 :: "json \<Rightarrow> json option" where
  "extract_u32 j = (if j = JNull then Some JNull else py_get j ''u32'' JNull)"

definition extract_string :: "json \<Rightarrow> json option" where
  "extract_string j =
     (if j = JNull then Some JNull
      else do { s \<leftarrow> py_get j ''str'' JNull; if py_truthy s then Some s else py_get j ''sym'' JNull })"

text \<open>The handler an event calls, with the new value of the pause flag; \<open>None\<close> is an exception.\<close>

definition gov_action :: "listener_config \<Rightarrow> json \<Rightarrow> gov_call option option" where
  "gov_action c e = do {
     topics \<leftarrow> py_get e ''topic'' (JList []);
     if \<not> py_truthy topics then Some None
     else do {
       t0 \<leftarrow> py_index topics 0;
       name \<leftarrow> sym_to_str t0;
       cid \<leftarrow> py_get e ''contractId'' (JStr []);
       value \<leftarrow> py_get e ''value'' JNull;
       if name = JStr ''t_changed'' \<and> cid = JStr (gc_governance c) then
         do { n \<leftarrow> extract_u32 value; Some (if n = JNull then None else Some (ThresholdChanged n)) }
       else if name = JStr ''c_paused'' \<and> cid = JStr (gc_pause c) then
         do { r \<leftarrow> extract_string value; Some (Some (ContractPaused (py_or r (JStr ''unknown'')))) }
       else if name = JStr ''c_unpaused'' \<and> cid = JStr (gc_pause c) then Some (Some ContractUnpaused)
       else Some None
     }
   }"

definition paused_by :: "gov_call \<Rightarrow> bool \<Rightarrow> bool" where
  "paused_by a p = (case a of ThresholdChanged _ \<Rightarrow> p | ContractPaused _ \<Rightarrow> True | ContractUnpaused \<Rightarrow> False)"

text \<open>The flag is set before the handler is called, so also when it raises.\<close>

definition gov_dispatch :: "(gov_call \<Rightarrow> bool) \<Rightarrow> listener_config \<Rightarrow> json \<Rightarrow> gov_state \<Rightarrow> unit option \<times> gov_state" where
  "gov_dispatch raises c e s =
     (case gov_action c e of
        None \<Rightarrow> (None, s)
      | Some None \<Rightarrow> (Some (), s)
      | Some (Some a) \<Rightarrow>
          (if raises a then None else Some (),
           s\<lparr>gv_paused := paused_by a (gv_paused s), gv_calls := gv_calls s @ [a]\<rparr>))"

fun gov_dispatch_all :: "(gov_call \<Rightarrow> bool) \<Rightarrow> listener_config \<Rightarrow> json list \<Rightarrow> gov_state \<Rightarrow> unit option \<times> gov_state" where
  "gov_dispatch_all raises c [] s = (Some (), s)"
| "gov_dispatch_all raises c (e # es) s =
     (case gov_dispatch raises c e s of
        (None, s') \<Rightarrow> (None, s')
      | (Some u, s') \<Rightarrow> gov_dispatch_all raises c es s')"

text \<open>\<open>last_ledger + 1\<close>, with the exceptions of the look-up and of the addition.\<close>

definition next_start :: "json list \<Rightarrow> gov_state \<Rightarrow> rat option" where
  "next_start es s = do { l \<leftarrow> py_get (last es) ''ledger'' (JNum (of_int (gv_start s))); n \<leftarrow> py_num l; Some (n + 1) }"

text \<open>Ledgers are integers; a fractional one would be kept as it is and is truncated here.\<close>

definition fetch_events :: "listener_config \<Rightarrow> rpc_node \<Rightarrow> gov_state \<Rightarrow> json list option \<times> gov_state" where
  "fetch_events c node s =
     (case response_events (rn_events node (gv_start s)) of
        None \<Rightarrow> (None, s)
      | Some events \<Rightarrow>
          if \<not> py_truthy events then (Some [], s)
          else
            (case (if 0 < gc_depth c
                   then (case fetch_latest_ledger (rn_latest node) of
                           None \<Rightarrow> Some []
                         | Some tip \<Rightarrow>
                             do { raws \<leftarrow> py_iter events; cp \<leftarrow> split_confirmed raws (Some tip) (gc_depth c); Some (fst cp) })
                   else (case events of JList raws \<Rightarrow> Some raws | _ \<Rightarrow> None)) of
               None \<Rightarrow> (None, s)
             | Some [] \<Rightarrow> (Some [], s)
             | Some (e # es) \<Rightarrow>
                 (case next_start (e # es) s of
                    None \<Rightarrow> (None, s)
                  | Some l \<Rightarrow> (Some (e # es), save_start \<lfloor>l\<rfloor> s))))"

definition gov_poll :: "(gov_call \<Rightarrow> bool) \<Rightarrow> listener_config \<Rightarrow> rpc_node \<Rightarrow> gov_state \<Rightarrow> json list option \<times> gov_state" where
  "gov_poll raises c node s =
     (case fetch_events c node s of
        (None, s1) \<Rightarrow> (None, s1)
      | (Some es, s1) \<Rightarrow>
          (case gov_dispatch_all raises c es s1 of (r, s2) \<Rightarrow> (map_option (\<lambda>_. es) r, s2)))"

text \<open>A restart keeps what is in the database.\<close>

definition gov_restart :: "gov_state \<Rightarrow> gov_state" where
  "gov_restart s = gov_init (gv_durable s)"

subsection \<open>What the governance listener sees\<close>

definition event_ledger :: "json \<Rightarrow> int" where
  "event_ledger e = (case raw_ledger e of Some l \<Rightarrow> l | None \<Rightarrow> 0)"

text \<open>An event in the shape of Soroban's node, of a non-negative ledger, that is dispatched without an exception.\<close>

definition plain_event :: "listener_config \<Rightarrow> json \<Rightarrow> bool" where
  "plain_event c e \<longleftrightarrow> (case e of
     JObj kvs \<Rightarrow> map_of kvs (KStr ''data'') = None \<and>
       (case map_of kvs (KStr ''ledger'') of Some (JNum q) \<Rightarrow> 0 \<le> q \<and> of_int \<lfloor>q\<rfloor> = q | _ \<Rightarrow> False) \<and> gov_action c e \<noteq> None
   | _ \<Rightarrow> False)"

text \<open>
  What the node is documented to do: it returns the first 200 events from a ledger on, in the order
  of the chain, and the sequence number of the tip.
\<close>

definition serves :: "rpc_node \<Rightarrow> json list \<Rightarrow> int \<Rightarrow> bool" where
  "serves node chain tip \<longleftrightarrow>
     (\<forall>start. response_events (rn_events node start) = Some (JList (take 200 (filter (\<lambda>e. start \<le> event_ledger e) chain)))) \<and>
     fetch_latest_ledger (rn_latest node) = Some tip"

definition confirmed_upto :: "int \<Rightarrow> json list \<Rightarrow> json list" where
  "confirmed_upto l chain = filter (\<lambda>e. event_ledger e \<le> l) chain"

definition calls_of :: "listener_config \<Rightarrow> json list \<Rightarrow> gov_call list" where
  "calls_of c es = List.map_filter (\<lambda>e. case gov_action c e of Some a \<Rightarrow> a | None \<Rightarrow> None) es"

text \<open>
  The life of a listener: polls, each with the chain its node serves, and restarts (\<open>None\<close>). The
  chain grows, what is \<open>depth\<close> ledgers below the tip is final, and at most 200 events are new at a
  poll.
\<close>

type_synonym gov_view = "rpc_node \<times> json list \<times> int"

fun views_ok :: "listener_config \<Rightarrow> json list \<Rightarrow> int \<Rightarrow> gov_view option list \<Rightarrow> bool" where
  "views_ok c chain tip [] \<longleftrightarrow> True"
| "views_ok c chain tip (None # vs) \<longleftrightarrow> views_ok c chain tip vs"
| "views_ok c chain tip (Some (node, chain', tip') # vs) \<longleftrightarrow>
     tip \<le> tip' \<and> confirmed_upto (tip - gc_depth c) chain' = confirmed_upto (tip - gc_depth c) chain \<and>
     sorted (map event_ledger chain') \<and> list_all (plain_event c) chain' \<and>
     length (filter (\<lambda>e. tip - gc_depth c < event_ledger e) chain') \<le> 200 \<and>
     serves node chain' tip' \<and> views_ok c chain' tip' vs"

text \<open>The calls made before the last restart, and the listener.\<close>

fun gov_life :: "listener_config \<Rightarrow> gov_view option list \<Rightarrow> gov_call list \<times> gov_state \<Rightarrow> gov_call list \<times> gov_state" where
  "gov_life c [] ps = ps"
| "gov_life c (None # vs) (past, s) = gov_life c vs (past @ gv_calls s, gov_restart s)"
| "gov_life c (Some (node, _) # vs) (past, s) = gov_life c vs (past, snd (gov_poll (\<lambda>_. False) c node s))"

lemma plain_eventE:
  assumes "plain_event c e"
  obtains l where "raw_ledger e = Some l" "event_ledger e = l" "0 \<le> l" "\<And>d. py_get e ''ledger'' d = Some (JNum (of_int l))"
    "gov_action c e \<noteq> None"
proof -
  obtain kvs where k: "e = JObj kvs" using assms by (cases e) (auto simp: plain_event_def)
  obtain j where j: "map_of kvs (KStr ''ledger'') = Some j"
    using assms k by (cases "map_of kvs (KStr ''ledger'')") (auto simp: plain_event_def)
  obtain q where "j = JNum q" using assms k j by (cases j) (auto simp: plain_event_def)
  then have e: "e = JObj kvs" "map_of kvs (KStr ''data'') = None" "map_of kvs (KStr ''ledger'') = Some (JNum q)"
    "0 \<le> q" "of_int \<lfloor>q\<rfloor> = q" "gov_action c e \<noteq> None"
    using assms k j by (simp_all add: plain_event_def)
  have "raw_ledger e = Some \<lfloor>q\<rfloor>"
    using e(2-5) by (auto simp: raw_ledger_def nested_def e(1) py_or_def)
  then show thesis using e by (intro that [of "\<lfloor>q\<rfloor>"]) (auto simp: event_ledger_def)
qed

lemma split_each_plain:
  "list_all (plain_event c) es \<Longrightarrow>
     \<exists>pending. split_each cutoff es = Some (confirmed_upto cutoff es, pending)"
  by (induction es) (auto simp: confirmed_upto_def elim!: plain_eventE)

lemma calls_Nil [simp]: "calls_of c [] = []"
  by (simp add: calls_of_def List.map_filter_def)

lemma calls_append [simp]: "calls_of c (xs @ ys) = calls_of c xs @ calls_of c ys"
  by (simp add: calls_of_def List.map_filter_def)

lemma dispatch_all_quiet:
  "list_all (plain_event c) es \<Longrightarrow>
     gov_dispatch_all (\<lambda>_. False) c es s =
       (Some (), s\<lparr>gv_paused := fold paused_by (calls_of c es) (gv_paused s), gv_calls := gv_calls s @ calls_of c es\<rparr>)"
proof (induction es arbitrary: s)
  case (Cons e es)
  then have "gov_action c e \<noteq> None" by (auto elim: plain_eventE)
  then show ?case using Cons by (auto simp: gov_dispatch_def calls_of_def List.map_filter_def)
qed (simp add: calls_of_def List.map_filter_def)

text \<open>One poll of a node that serves a chain of plain events.\<close>

lemma fetch_plain:
  assumes "serves node chain tip" and "list_all (plain_event c) chain" and "0 < gc_depth c"
    and "es = confirmed_upto (tip - gc_depth c) (take 200 (filter (\<lambda>e. gv_start s \<le> event_ledger e) chain))"
  shows "fetch_events c node s = (Some es, if es = [] then s else save_start (event_ledger (last es) + 1) s)"
    and "list_all (plain_event c) es"
proof -
  let ?raws = "take 200 (filter (\<lambda>e. gv_start s \<le> event_ledger e) chain)"
  have plain: "list_all (plain_event c) ?raws" using assms(2) by (auto simp: list_all_iff dest: in_set_takeD)
  from split_each_plain [OF this] obtain p where p: "split_each (tip - gc_depth c) ?raws = Some (es, p)"
    using assms(4) by blast
  show es: "list_all (plain_event c) es" using plain assms(4) by (auto simp: list_all_iff confirmed_upto_def)
  show "fetch_events c node s = (Some es, if es = [] then s else save_start (event_ledger (last es) + 1) s)"
  proof (cases es)
    case Nil
    then show ?thesis using assms(1,3) p
      by (cases "?raws = []") (simp_all add: fetch_events_def serves_def split_confirmed_def)
  next
    case (Cons e0 es0)
    then have ne: "?raws \<noteq> []" using assms(4) by (auto simp: confirmed_upto_def)
    have "plain_event c (last es)" using Cons es by (auto simp: list_all_iff)
    then have nxt: "next_start es s = Some (of_int (event_ledger (last es) + 1))"
      by (auto simp: next_start_def elim!: plain_eventE)
    then show ?thesis
      using assms(1,3) p ne Cons nxt by (simp add: fetch_events_def serves_def split_confirmed_def del: last.simps)
  qed
qed

lemma gov_poll_plain:
  assumes "serves node chain tip" and "list_all (plain_event c) chain" and "0 < gc_depth c"
    and "es = confirmed_upto (tip - gc_depth c) (take 200 (filter (\<lambda>e. gv_start s \<le> event_ledger e) chain))"
  shows "snd (gov_poll (\<lambda>_. False) c node s) =
    (if es = [] then s
     else (save_start (event_ledger (last es) + 1) s)
       \<lparr>gv_paused := fold paused_by (calls_of c es) (gv_paused s), gv_calls := gv_calls s @ calls_of c es\<rparr>)"
  using fetch_plain [OF assms] dispatch_all_quiet [OF fetch_plain(2) [OF assms]]
  by (simp add: gov_poll_def save_start_def)

definition gov_inv :: "listener_config \<Rightarrow> json list \<Rightarrow> int \<Rightarrow> gov_call list \<Rightarrow> gov_state \<Rightarrow> bool" where
  "gov_inv c chain tip past s \<longleftrightarrow>
     past @ gv_calls s = calls_of c (confirmed_upto (tip - gc_depth c) chain) \<and>
     gv_paused s = fold paused_by (gv_calls s) False \<and>
     gv_durable s \<in> {None, Some (gv_start s)} \<and>
     (\<forall>e\<in>set (confirmed_upto (tip - gc_depth c) chain). event_ledger e < gv_start s) \<and>
     gv_start s \<le> max 0 (tip - gc_depth c + 1)"

lemma sorted_upto_split:
  assumes "sorted (map event_ledger es)" and "a \<le> b"
  shows "confirmed_upto b es = confirmed_upto a es @ filter (\<lambda>e. a < event_ledger e \<and> event_ledger e \<le> b) es"
  using assms
proof (induction es)
  case (Cons e es)
  have "confirmed_upto a es = []" if "a < event_ledger e"
    using that Cons.prems(1) by (auto simp: confirmed_upto_def filter_empty_conv)
  then show ?case using Cons by (auto simp: confirmed_upto_def)
qed (simp add: confirmed_upto_def)

lemma sorted_upto_last:
  "sorted (map event_ledger es) \<Longrightarrow> e \<in> set es \<Longrightarrow> event_ledger e \<le> event_ledger (last es)"
  by (induction es) (auto split: if_splits)

text \<open>Each poll keeps the invariant.\<close>

lemma gov_poll_inv:
  assumes "gov_inv c chain tip past s" and "views_ok c chain tip (Some (node, chain', tip') # vs)" and "0 < gc_depth c"
  shows "gov_inv c chain' tip' past (snd (gov_poll (\<lambda>_. False) c node s))"
proof -
  let ?d = "gc_depth c"
  define new where "new = filter (\<lambda>e. tip - ?d < event_ledger e \<and> event_ledger e \<le> tip' - ?d) chain'"
  from assms(2) have v: "tip \<le> tip'" "confirmed_upto (tip - ?d) chain' = confirmed_upto (tip - ?d) chain" "sorted (map event_ledger chain')"
    "list_all (plain_event c) chain'" "length (filter (\<lambda>e. tip - ?d < event_ledger e) chain') \<le> 200" "serves node chain' tip'"
    by simp_all
  from assms(1) have i: "past @ gv_calls s = calls_of c (confirmed_upto (tip - ?d) chain)" "gv_durable s \<in> {None, Some (gv_start s)}" "gv_paused s = fold paused_by (gv_calls s) False"
    "\<forall>e\<in>set (confirmed_upto (tip - ?d) chain). event_ledger e < gv_start s" "gv_start s \<le> max 0 (tip - ?d + 1)"
    by (simp_all add: gov_inv_def)
  have split: "confirmed_upto (tip' - ?d) chain' = confirmed_upto (tip - ?d) chain @ new"
    using sorted_upto_split [OF v(3), of "tip - ?d" "tip' - ?d"] v(1,2) by (simp add: new_def)
  have pos: "0 \<le> event_ledger e" if "e \<in> set chain'" for e
    using that v(4) by (auto simp: list_all_iff elim!: plain_eventE)
  have "gv_start s \<le> event_ledger e \<longleftrightarrow> tip - ?d < event_ledger e" if e: "e \<in> set chain'" for e
  proof
    assume "gv_start s \<le> event_ledger e"
    then have "e \<notin> set (confirmed_upto (tip - ?d) chain')" using i(4) v(2) by force
    then show "tip - ?d < event_ledger e" using e by (simp add: confirmed_upto_def)
  next
    assume "tip - ?d < event_ledger e"
    then show "gv_start s \<le> event_ledger e" using i(5) pos [OF e] by auto
  qed
  then have f: "filter (\<lambda>e. gv_start s \<le> event_ledger e) chain' = filter (\<lambda>e. tip - ?d < event_ledger e) chain'"
    by (simp cong: filter_cong)
  have "new = confirmed_upto (tip' - ?d) (take 200 (filter (\<lambda>e. gv_start s \<le> event_ledger e) chain'))"
    using v(5) by (simp add: f confirmed_upto_def new_def conj_commute)
  note poll = gov_poll_plain [OF v(6) v(4) assms(3) this]
  show ?thesis
  proof (cases "new = []")
    case True
    then show ?thesis using poll i split v(1) by (auto simp: gov_inv_def)
  next
    case False
    have last: "\<forall>e\<in>set new. event_ledger e \<le> event_ledger (last new)"
      using sorted_upto_last [of new] v(3) by (auto simp: new_def sorted_map intro: sorted_wrt_filter)
    have new: "tip - ?d < event_ledger (last new)" "event_ledger (last new) \<le> tip' - ?d" "0 \<le> event_ledger (last new)"
      using last_in_set [OF False] pos by (auto simp: new_def)
    have "\<forall>e\<in>set (confirmed_upto (tip - ?d) chain @ new). event_ledger e < event_ledger (last new) + 1"
      using last new(1) v(2) by (auto simp: confirmed_upto_def)
    then show ?thesis
      using poll False i new split by (auto simp: gov_inv_def save_start_def simp flip: append_assoc)
  qed
qed

lemma gov_restart_inv:
  assumes "gov_inv c chain tip past s" and "gv_durable s \<noteq> None"
  shows "gov_inv c chain tip (past @ gv_calls s) (gov_restart s)"
  using assms by (auto simp: gov_inv_def gov_restart_def gov_init_def)

lemma gov_poll_durable:
  assumes "views_ok c chain tip (Some (node, chain', tip') # vs)" and "0 < gc_depth c"
  shows "(gv_durable (snd (gov_poll (\<lambda>_. False) c node s)) = None) = (gv_durable s = None)"
  using gov_poll_plain [of node chain' tip' c _ s] assms by (simp add: save_start_def)

fun last_view :: "json list \<times> int \<Rightarrow> gov_view option list \<Rightarrow> json list \<times> int" where
  "last_view v [] = v"
| "last_view v (None # vs) = last_view v vs"
| "last_view v (Some (node, v') # vs) = last_view v' vs"

lemma last_view_append: "last_view v (vs @ [Some (node, v')]) = v'"
  by (induction v vs rule: last_view.induct) simp_all

lemma gov_life_inv:
  "gov_inv c (fst v) (snd v) (fst ps) (snd ps) \<Longrightarrow> views_ok c (fst v) (snd v) vs \<Longrightarrow> 0 < gc_depth c \<Longrightarrow>
   None \<notin> set vs \<or> gv_durable (snd ps) \<noteq> None \<Longrightarrow>
   gov_inv c (fst (last_view v vs)) (snd (last_view v vs)) (fst (gov_life c vs ps)) (snd (gov_life c vs ps))"
proof (induction v vs arbitrary: ps rule: last_view.induct)
  case (2 v vs)
  obtain past s where ps: "ps = (past, s)" by fastforce
  have "gv_durable (gov_restart s) \<noteq> None"
    using 2(5) ps by (auto simp: gov_restart_def gov_init_def)
  then show ?case using 2 gov_restart_inv [of c "fst v" "snd v" past s] by (simp add: ps)
next
  case (3 v node v' vs)
  obtain past s where ps: "ps = (past, s)" by fastforce
  obtain chain' tip' where v': "v' = (chain', tip')" by fastforce
  have views: "views_ok c (fst v) (snd v) (Some (node, chain', tip') # vs)" using 3(3) v' by simp
  have "gov_inv c chain' tip' past (snd (gov_poll (\<lambda>_. False) c node s))"
    by (rule gov_poll_inv [OF _ views 3(4)]) (use 3(2) ps in simp)
  then show ?case using 3(1) [of "(past, snd (gov_poll (\<lambda>_. False) c node s))"] 3(3-5)
      gov_poll_durable [OF views 3(4), of s] by (auto simp: ps v')
qed simp

text \<open>
  C10. Over the whole life of a governance listener its handlers are called once for each confirmed
  event, in the order of the chain, whatever happens to the ledgers above the confirmation depth, and
  the pause flag is that of the last pause or unpause since the listener was last started. It takes
  a node that serves a chain whose ledgers are final at that depth, at most 200 new events (the limit
  of a page) per poll, handlers that do not raise, no stop of the process within a poll, and a
  database if the listener is restarted.
\<close>

theorem governance_exactly_once:
  assumes "views_ok c [] (gc_depth c - 1) (vs @ [Some (node, chain, tip)])" and "0 < gc_depth c"
    and "durable = Some 0 \<or> durable = None \<and> None \<notin> set vs"
    and "gov_life c (vs @ [Some (node, chain, tip)]) ([], gov_init durable) = (past, s)"
  shows "past @ gv_calls s = calls_of c (confirmed_upto (tip - gc_depth c) chain) \<and>
    gv_paused s = fold paused_by (gv_calls s) False"
proof -
  have "gov_inv c [] (gc_depth c - 1) [] (gov_init durable)"
    using assms(3) by (auto simp: gov_inv_def gov_init_def confirmed_upto_def calls_of_def List.map_filter_def)
  then have "gov_inv c chain tip past s"
    using gov_life_inv [of c "([], gc_depth c - 1)" "([], gov_init durable)" "vs @ [Some (node, chain, tip)]"]
      assms by (auto simp: last_view_append gov_init_def)
  then show ?thesis by (simp add: gov_inv_def)
qed

text \<open>A node that serves a given chain.\<close>

definition chain_node :: "json list \<Rightarrow> int \<Rightarrow> rpc_node" where
  "chain_node chain tip =
     \<lparr>rn_events = \<lambda>start. Some (JObj [(KStr ''result'', JObj [(KStr ''events'',
        JList (take 200 (filter (\<lambda>e. start \<le> event_ledger e) chain)))])]),
      rn_latest = Some (JObj [(KStr ''result'', JObj [(KStr ''sequence'', JNum (of_int tip))])])\<rparr>"

lemma chain_node_serves [simp]: "serves (chain_node chain tip) chain tip"
  by (simp add: chain_node_def serves_def response_events_def fetch_latest_ledger_def)

definition pause_event :: "string \<Rightarrow> int \<Rightarrow> json" where
  "pause_event name l = JObj [(KStr ''topic'', JList [JObj [(KStr ''sym'', JStr name)]]),
     (KStr ''contractId'', JStr ''P''), (KStr ''value'', JObj [(KStr ''str'', JStr ''drill'')]),
     (KStr ''ledger'', JNum (of_int l))]"

definition demo_listener :: listener_config where
  "demo_listener = \<lparr>gc_governance = ''G'', gc_pause = ''P'', gc_depth = 10\<rparr>"

text \<open>
  In the first view a pause event of ledger 15 is not yet final, and is later replaced; the listener
  is restarted in between.
\<close>

definition demo_life :: "gov_view option list" where
  "demo_life =
     [Some (chain_node [pause_event ''c_paused'' 5, pause_event ''c_paused'' 15] 20,
        [pause_event ''c_paused'' 5, pause_event ''c_paused'' 15], 20), None]"

lemma governance_exactly_once_witness:
  "case gov_life demo_listener (demo_life @ [Some (chain_node [pause_event ''c_paused'' 5, pause_event ''c_unpaused'' 16] 30,
        [pause_event ''c_paused'' 5, pause_event ''c_unpaused'' 16], 30)]) ([], gov_init (Some 0)) of
     (past, s) \<Rightarrow> past @ gv_calls s = [ContractPaused (JStr ''drill''), ContractUnpaused]"
proof -
  let ?vs = "demo_life @ [Some (chain_node [pause_event ''c_paused'' 5, pause_event ''c_unpaused'' 16] 30,
        [pause_event ''c_paused'' 5, pause_event ''c_unpaused'' 16], 30)]"
  have views: "views_ok demo_listener [] (gc_depth demo_listener - 1) ?vs"
    unfolding demo_life_def append_Cons append_Nil views_ok.simps
    by (simp only: chain_node_serves simp_thms) code_simp
  have calls: "calls_of demo_listener (confirmed_upto (30 - gc_depth demo_listener)
      [pause_event ''c_paused'' 5, pause_event ''c_unpaused'' 16]) = [ContractPaused (JStr ''drill''), ContractUnpaused]"
    by code_simp
  obtain past s where life: "gov_life demo_listener ?vs ([], gov_init (Some 0)) = (past, s)" by fastforce
  show ?thesis
    using governance_exactly_once [OF views _ _ life] calls life by (simp add: demo_listener_def)
qed

text \<open>
  The response is limited to 200 events and the position advances by whole ledgers: when the limit
  falls within a ledger, the rest of that ledger is never dispatched.
\<close>

theorem limit_skips_events:
  assumes "serves node chain tip" and "list_all (plain_event c) chain" and "sorted (map event_ledger chain)" and "0 < gc_depth c"
    and "filter (\<lambda>e. gv_start s \<le> event_ledger e) chain = es @ e # rest" and "length es = 200"
    and "event_ledger (last es) = event_ledger e" and "event_ledger e \<le> tip - gc_depth c"
  shows "gv_calls (snd (gov_poll (\<lambda>_. False) c node s)) = gv_calls s @ calls_of c es \<and>
    event_ledger e < gv_start (snd (gov_poll (\<lambda>_. False) c node s))"
proof -
  have ne: "es \<noteq> []" using assms(6) by auto
  have "sorted (map event_ledger (es @ e # rest))"
    unfolding assms(5) [symmetric] using assms(3) by (simp add: sorted_map sorted_wrt_filter)
  then have "\<forall>x\<in>set es. event_ledger x \<le> tip - gc_depth c" using assms(8) by (fastforce simp: sorted_append)
  then have "es = confirmed_upto (tip - gc_depth c) (take 200 (filter (\<lambda>e. gv_start s \<le> event_ledger e) chain))"
    using assms(5,6) by (simp add: confirmed_upto_def)
  from gov_poll_plain [OF assms(1,2,4) this] show ?thesis using ne assms(7) by (simp add: save_start_def)
qed

lemma limit_skips_events_witness:
  "event_ledger (pause_event ''c_paused'' 5) < gv_start (snd (gov_poll (\<lambda>_. False) demo_listener
     (chain_node (replicate 200 (pause_event ''noise'' 5) @ [pause_event ''c_paused'' 5]) 20) (gov_init None)))"
proof -
  have "plain_event demo_listener (pause_event ''noise'' 5)" "plain_event demo_listener (pause_event ''c_paused'' 5)"
    "event_ledger (pause_event ''noise'' 5) = 5" "event_ledger (pause_event ''c_paused'' 5) = 5" by code_simp+
  then show ?thesis
    using limit_skips_events [OF chain_node_serves, of demo_listener
        "replicate 200 (pause_event ''noise'' 5) @ [pause_event ''c_paused'' 5]" "gov_init None" "replicate 200 (pause_event ''noise'' 5)" "pause_event ''c_paused'' 5" "[]" 20]
    by (simp add: demo_listener_def gov_init_def list_all_iff sorted_append last_replicate)
qed

text \<open>
  The position is saved before the events are dispatched: when a handler raises, the events after it
  are never dispatched, a pause among them.
\<close>

lemma dispatch_all_raises:
  assumes "list_all (plain_event c) pre" and "\<forall>a\<in>set (calls_of c pre). \<not> raises a"
    and "gov_action c e = Some (Some a)" and "raises a"
  shows "gov_dispatch_all raises c (pre @ e # post) s =
    (None, s\<lparr>gv_paused := fold paused_by (calls_of c pre @ [a]) (gv_paused s), gv_calls := gv_calls s @ calls_of c pre @ [a]\<rparr>)"
  using assms(1,2)
proof (induction pre arbitrary: s)
  case Nil
  then show ?case using assms(3,4) by (simp add: gov_dispatch_def calls_of_def List.map_filter_def)
next
  case (Cons x pre)
  then have x: "gov_action c x \<noteq> None" by (auto elim: plain_eventE)
  then obtain y where y: "gov_action c x = Some y" by blast
  have "\<forall>a\<in>set (calls_of c pre). \<not> raises a" using Cons.prems(2) by (auto simp: calls_of_def List.map_filter_def)
  with Cons.IH Cons.prems(1) have IH: "gov_dispatch_all raises c (pre @ e # post) s =
    (None, s\<lparr>gv_paused := fold paused_by (calls_of c pre @ [a]) (gv_paused s), gv_calls := gv_calls s @ calls_of c pre @ [a]\<rparr>)" for s
    by simp
  show ?case
  proof (cases y)
    case None
    then show ?thesis using IH y by (simp add: gov_dispatch_def calls_of_def List.map_filter_def)
  next
    case (Some b)
    then have "\<not> raises b" using Cons.prems(2) y by (simp add: calls_of_def List.map_filter_def)
    then show ?thesis using IH y Some by (simp add: gov_dispatch_def calls_of_def List.map_filter_def)
  qed
qed

theorem raising_handler_skips:
  assumes "serves node chain tip" and "list_all (plain_event c) chain" and "0 < gc_depth c"
    and "confirmed_upto (tip - gc_depth c) (take 200 (filter (\<lambda>e. gv_start s \<le> event_ledger e) chain)) = pre @ e # post"
    and "\<forall>a\<in>set (calls_of c pre). \<not> raises a" and "gov_action c e = Some (Some a)" and "raises a"
  shows "fst (gov_poll raises c node s) = None \<and>
    gv_calls (snd (gov_poll raises c node s)) = gv_calls s @ calls_of c pre @ [a] \<and>
    gv_paused (snd (gov_poll raises c node s)) = fold paused_by (calls_of c pre @ [a]) (gv_paused s) \<and>
    gv_start (snd (gov_poll raises c node s)) = event_ledger (last (e # post)) + 1"
proof -
  have "list_all (plain_event c) pre" using fetch_plain(2) [OF assms(1-3) assms(4) [symmetric]] by simp
  from dispatch_all_raises [OF this assms(5-7)] show ?thesis
    using fetch_plain(1) [OF assms(1-3) assms(4) [symmetric]] by (simp add: gov_poll_def save_start_def)
qed

lemma raising_handler_skips_witness:
  "gv_paused (snd (gov_poll (\<lambda>a. a = ContractUnpaused) demo_listener
      (chain_node [pause_event ''c_unpaused'' 4, pause_event ''c_paused'' 5] 20) (gov_init None))) = False \<and>
   gv_start (snd (gov_poll (\<lambda>a. a = ContractUnpaused) demo_listener
      (chain_node [pause_event ''c_unpaused'' 4, pause_event ''c_paused'' 5] 20) (gov_init None))) = 6"
proof -
  have e: "plain_event demo_listener (pause_event ''c_unpaused'' 4)" "plain_event demo_listener (pause_event ''c_paused'' 5)"
    "event_ledger (pause_event ''c_unpaused'' 4) = 4" "event_ledger (pause_event ''c_paused'' 5) = 5"
    "gov_action demo_listener (pause_event ''c_unpaused'' 4) = Some (Some ContractUnpaused)" by code_simp+
  then show ?thesis
    using raising_handler_skips [OF chain_node_serves, of demo_listener "[pause_event ''c_unpaused'' 4, pause_event ''c_paused'' 5]" 20 "gov_init None"
        "[]" "pause_event ''c_unpaused'' 4" "[pause_event ''c_paused'' 5]" "\<lambda>a. a = ContractUnpaused" ContractUnpaused]
    by (simp add: demo_listener_def gov_init_def confirmed_upto_def calls_of_def List.map_filter_def paused_by_def)
qed

text \<open>
  The pause flag is kept in memory only: a listener that restarts after a pause resumes past the pause
  event and believes the contract is not paused.
\<close>

theorem restart_forgets_pause:
  assumes "serves node chain tip" and "list_all (plain_event c) chain" and "0 < gc_depth c"
    and "confirmed_upto (tip - gc_depth c) (take 200 (filter (\<lambda>e. gv_start s \<le> event_ledger e) chain)) = pre @ [e]"
    and "gov_action c e = Some (Some (ContractPaused r))" and "gv_durable s = Some d"
  shows "gv_paused (snd (gov_poll (\<lambda>_. False) c node s)) \<and>
    \<not> gv_paused (gov_restart (snd (gov_poll (\<lambda>_. False) c node s))) \<and>
    event_ledger e < gv_start (gov_restart (snd (gov_poll (\<lambda>_. False) c node s)))"
proof -
  have "calls_of c [e] = [ContractPaused r]" using assms(5) by (simp add: calls_of_def List.map_filter_def)
  then show ?thesis
    using gov_poll_plain [OF assms(1-3) assms(4) [symmetric]] assms(6)
    by (simp add: save_start_def gov_restart_def gov_init_def paused_by_def)
qed

lemma restart_forgets_pause_witness:
  "\<not> gv_paused (gov_restart (snd (gov_poll (\<lambda>_. False) demo_listener (chain_node [pause_event ''c_paused'' 5] 20) (gov_init (Some 0)))))"
proof -
  have e: "plain_event demo_listener (pause_event ''c_paused'' 5)" "event_ledger (pause_event ''c_paused'' 5) = 5"
    "gov_action demo_listener (pause_event ''c_paused'' 5) = Some (Some (ContractPaused (JStr ''drill'')))" by code_simp+
  then show ?thesis
    using restart_forgets_pause [OF chain_node_serves, of demo_listener "[pause_event ''c_paused'' 5]" 20 "gov_init (Some 0)"
        "[]" "pause_event ''c_paused'' 5" "JStr ''drill''" 0]
    by (simp add: demo_listener_def gov_init_def confirmed_upto_def)
qed

subsection \<open>What the score oracle stores\<close>

definition stored :: "oracle_state \<Rightarrow> string option set" where
  "stored s = ce_event_id ` set (od_events (os_db s))"

lemma build_event_id: "build_event w now raw payload stamp topics ty = Some e \<Longrightarrow> ce_event_id e \<noteq> None"
  unfolding build_event_def Let_def bind_eq_Some_conv by clarsimp

lemma parsed_has_id: "parse_contract_event w now raw = Some (Some e) \<Longrightarrow> ce_event_id e \<noteq> None"
  by (auto simp: parse_contract_event_def Let_def bind_eq_Some_conv split: if_splits dest: build_event_id)

lemma persist_spec:
  assumes "persist_event w e db = Some (new, db')" and "ce_event_id e \<noteq> None"
  shows "od_marks db' = od_marks db" "od_events db' = od_events db @ (if new then [e] else [])"
    "ce_event_id e \<in> ce_event_id ` set (od_events db')" "new \<longleftrightarrow> ce_event_id e \<notin> ce_event_id ` set (od_events db)"
  using assms by (auto simp: persist_event_def insert_event_def split: if_splits)

lemma persist_stored:
  "ce_event_id e \<noteq> None \<Longrightarrow> ce_event_id e \<in> ce_event_id ` set (od_events db) \<Longrightarrow> persist_event w e db = Some (False, db)"
  by (simp add: persist_event_def)

text \<open>One event of the loop.\<close>

lemma oracle_events_Cons_cases:
  assumes "oracle_events w refuses c now (raw # raws) parsed s = (r, s')"
  obtains (stop) "r = None" "s' = s" "parse_contract_event w now raw = None \<or>
        (\<exists>e. parse_contract_event w now raw = Some (Some e) \<and> persist_event w e (os_db s) = None)"
  | (skip) "parse_contract_event w now raw = Some None" "oracle_events w refuses c now raws parsed s = (r, s')"
  | (stored) e new db where "parse_contract_event w now raw = Some (Some e)" "persist_event w e (os_db s) = Some (new, db)"
      "r = None" "os_db s' = db"
  | (alerted) e new db as where "parse_contract_event w now raw = Some (Some e)" "persist_event w e (os_db s) = Some (new, db)"
      "alert_for w c e = Some as" "\<not> list_ex refuses as"
      "oracle_events w refuses c now raws (parsed @ [e]) (s\<lparr>os_db := db, os_alerts := os_alerts s @ as\<rparr>) = (r, s')"
  using assms by (auto simp: Let_def split: option.splits if_splits prod.splits)

lemma oracle_events_marks:
  "oracle_events w refuses c now raws parsed s = (r, s') \<Longrightarrow> od_marks (os_db s') = od_marks (os_db s)"
proof (induction raws arbitrary: parsed s)
  case (Cons raw raws)
  from Cons.prems show ?case
  proof (cases rule: oracle_events_Cons_cases)
    case (alerted e new db as)
    then show ?thesis using Cons.IH persist_spec(1) [OF alerted(2) parsed_has_id [OF alerted(1)]] by fastforce
  next
    case (stored e new db)
    then show ?thesis using persist_spec(1) [OF stored(2) parsed_has_id [OF stored(1)]] by simp
  qed (use Cons.IH in auto)
qed simp

lemma oracle_events_new:
  "oracle_events w refuses c now raws parsed s = (r, s') \<Longrightarrow>
     \<exists>es. od_events (os_db s') = od_events (os_db s) @ es \<and>
       (\<forall>e\<in>set es. \<exists>raw\<in>set raws. parse_contract_event w now raw = Some (Some e)) \<and>
       (distinct (map ce_event_id (od_events (os_db s))) \<longrightarrow> distinct (map ce_event_id (od_events (os_db s'))))"
proof (induction raws arbitrary: parsed s)
  case (Cons raw raws)
  from Cons.prems show ?case
  proof (cases rule: oracle_events_Cons_cases)
    case (skip)
    from Cons.IH [OF skip(2)] show ?thesis by auto
  next
    case (stored e new db)
    note p = persist_spec [OF stored(2) parsed_has_id [OF stored(1)]]
    show ?thesis using p stored by (intro exI [of _ "if new then [e] else []"]) auto
  next
    case (alerted e new db as)
    note p = persist_spec [OF alerted(2) parsed_has_id [OF alerted(1)]]
    from Cons.IH [OF alerted(5)] obtain es where
      es: "od_events (os_db s') = od_events db @ es" "\<forall>e\<in>set es. \<exists>raw\<in>set raws. parse_contract_event w now raw = Some (Some e)"
      "distinct (map ce_event_id (od_events db)) \<longrightarrow> distinct (map ce_event_id (od_events (os_db s')))" by auto
    show ?thesis using p es alerted(1) by (intro exI [of _ "(if new then [e] else []) @ es"]) auto
  qed auto
qed simp

text \<open>Whether a raw event gets past parsing and alerting does not depend on the state.\<close>

definition passes :: "oracle_ops \<Rightarrow> (oracle_alert \<Rightarrow> bool) \<Rightarrow> oracle_config \<Rightarrow> instant \<Rightarrow> json \<Rightarrow> bool" where
  "passes w refuses c now raw \<longleftrightarrow>
     (case parse_contract_event w now raw of
        None \<Rightarrow> False
      | Some None \<Rightarrow> True
      | Some (Some e) \<Rightarrow> (case alert_for w c e of None \<Rightarrow> False | Some as \<Rightarrow> \<not> list_ex refuses as))"

definition id_stored :: "oracle_ops \<Rightarrow> instant \<Rightarrow> oracle_state \<Rightarrow> json \<Rightarrow> bool" where
  "id_stored w now s raw \<longleftrightarrow>
     (case parse_contract_event w now raw of Some (Some e) \<Rightarrow> ce_event_id e \<in> stored s | _ \<Rightarrow> True)"

definition parsed_of :: "oracle_ops \<Rightarrow> instant \<Rightarrow> json list \<Rightarrow> contract_event list" where
  "parsed_of w now raws = List.map_filter (\<lambda>r. case parse_contract_event w now r of Some (Some e) \<Rightarrow> Some e | _ \<Rightarrow> None) raws"

lemma stored_mono:
  assumes "oracle_events w refuses c now raws parsed s = (r, s')"
  shows "stored s \<subseteq> stored s'"
  using oracle_events_new [OF assms] by (auto simp: stored_def)

lemma oracle_events_run:
  assumes "oracle_events w refuses c now raws parsed s = (Some es, s')"
  shows "(\<forall>raw\<in>set raws. passes w refuses c now raw \<and> id_stored w now s' raw) \<and> es = parsed @ parsed_of w now raws"
  using assms
proof (induction raws arbitrary: parsed s)
  case (Cons raw raws)
  from Cons.prems show ?case
  proof (cases rule: oracle_events_Cons_cases)
    case skip
    then show ?thesis using Cons.IH [OF skip(2)] by (simp add: passes_def id_stored_def parsed_of_def List.map_filter_def)
  next
    case (alerted e new db as)
    from persist_spec(3) [OF alerted(2) parsed_has_id [OF alerted(1)]] stored_mono [OF alerted(5)]
    have "ce_event_id e \<in> stored s'" by (auto simp: stored_def)
    then show ?thesis using Cons.IH [OF alerted(5)] alerted
      by (simp add: passes_def id_stored_def parsed_of_def List.map_filter_def)
  qed auto
qed (simp add: parsed_of_def List.map_filter_def)

lemma oracle_events_replay:
  assumes "\<forall>raw\<in>set raws. passes w refuses c now raw \<and> id_stored w now s raw"
  shows "\<exists>as. oracle_events w refuses c now raws parsed s = (Some (parsed @ parsed_of w now raws), s\<lparr>os_alerts := os_alerts s @ as\<rparr>)"
  using assms
proof (induction raws arbitrary: parsed s)
  case Nil
  show ?case by (intro exI [of _ "[]"]) (simp add: parsed_of_def List.map_filter_def)
next
  case (Cons raw raws)
  then have raw: "passes w refuses c now raw" "id_stored w now s raw" by simp_all
  obtain pr where pr: "parse_contract_event w now raw = Some pr" using raw(1) by (auto simp: passes_def split: option.splits)
  show ?case
  proof (cases pr)
    case None
    then show ?thesis using pr Cons.IH [of s parsed] Cons.prems by (simp add: parsed_of_def List.map_filter_def)
  next
    case (Some e)
    then obtain as where as: "alert_for w c e = Some as" "\<not> list_ex refuses as"
      using raw(1) pr by (auto simp: passes_def split: option.splits)
    have p: "persist_event w e (os_db s) = Some (False, os_db s)"
      using raw(2) pr Some parsed_has_id [of w now raw e] by (intro persist_stored) (simp_all add: id_stored_def stored_def)
    have st: "id_stored w now (s\<lparr>os_alerts := as\<rparr>) raw = id_stored w now s raw" for as raw
      by (auto simp: id_stored_def stored_def split: option.splits)
    have "\<forall>raw\<in>set raws. passes w refuses c now raw \<and> id_stored w now (s\<lparr>os_alerts := os_alerts s @ as\<rparr>) raw"
      using Cons.prems by (simp add: st)
    from Cons.IH [OF this, of "parsed @ [e]"] obtain bs where
      "oracle_events w refuses c now raws (parsed @ [e]) (s\<lparr>os_alerts := os_alerts s @ as\<rparr>) =
         (Some (parsed @ e # parsed_of w now raws), s\<lparr>os_alerts := os_alerts s @ as @ bs\<rparr>)" by auto
    then show ?thesis using pr Some as p
      by (intro exI [of _ "as @ bs"]) (simp add: Let_def parsed_of_def List.map_filter_def)
  qed
qed

lemma oracle_events_append:
  "oracle_events w refuses c now (xs @ ys) parsed s =
     (case oracle_events w refuses c now xs parsed s of
        (None, s') \<Rightarrow> (None, s')
      | (Some p, s') \<Rightarrow> oracle_events w refuses c now ys p s')"
  by (induction xs arbitrary: parsed s) (auto simp: Let_def split: option.splits prod.splits)

definition confirmed_of :: "oracle_config \<Rightarrow> json list \<Rightarrow> int option \<Rightarrow> (json list \<times> json list) option" where
  "confirmed_of c raws latest =
     (if 0 < oc_depth c \<and> latest \<noteq> None then split_confirmed raws latest (oc_depth c) else Some (raws, []))"

lemma process_batch_alt:
  "process_batch w refuses c now raws latest s =
     (case confirmed_of c raws latest of
        None \<Rightarrow> (None, s)
      | Some (confirmed, pending) \<Rightarrow>
          (case oracle_events w refuses c now confirmed [] s of
             (None, s') \<Rightarrow> (None, s')
           | (Some parsed, s') \<Rightarrow>
               (Some parsed,
                (case max_ledger parsed of
                   None \<Rightarrow> s'
                 | Some l \<Rightarrow> s'\<lparr>os_db := set_watermark (oc_contract c) l (os_db s')\<rparr>))))"
  by (simp add: process_batch_def confirmed_of_def)

lemma set_watermark_simps [simp]:
  "od_events (set_watermark c l db) = od_events db" "get_watermark c (set_watermark c l db) = l"
  by (simp_all add: set_watermark_def get_watermark_def)

lemma batch_failed_marks: "process_batch w refuses c now raws latest s = (None, s') \<Longrightarrow> od_marks (os_db s') = od_marks (os_db s)"
  by (auto simp: process_batch_alt dest: oracle_events_marks split: option.splits prod.splits)

lemma batch_new:
  assumes "process_batch w refuses c now raws latest s = (r, s')" and "confirmed_of c raws latest = Some (confirmed, pending)"
  shows "\<exists>es. od_events (os_db s') = od_events (os_db s) @ es \<and>
       (\<forall>e\<in>set es. \<exists>raw\<in>set confirmed. parse_contract_event w now raw = Some (Some e)) \<and>
       (distinct (map ce_event_id (od_events (os_db s))) \<longrightarrow> distinct (map ce_event_id (od_events (os_db s'))))"
proof -
  obtain r1 s1 where o: "oracle_events w refuses c now confirmed [] s = (r1, s1)" by (rule prod.exhaust)
  have "od_events (os_db s') = od_events (os_db s1)"
    using assms o by (cases r1) (auto simp: process_batch_alt split: option.splits)
  then show ?thesis using oracle_events_new [OF o] by simp
qed

text \<open>A poll is one of nothing, a refusal, or a batch of the events the node returned.\<close>

lemma oracle_poll_cases:
  assumes "oracle_poll w refuses c now node s = (r, s')"
  obtains (nothing) "s' = s"
  | (batch) events raws latest where
      "response_events (rn_events node (get_watermark (oc_contract c) (os_db s))) = Some events" "py_iter events = Some raws"
      "0 < oc_depth c \<longrightarrow> latest \<noteq> None \<and> latest = fetch_latest_ledger (rn_latest node)"
      "process_batch w refuses c now raws latest s = (r, s')"
  using assms by (auto simp: oracle_poll_def Let_def split: option.splits if_splits)

definition oracle_step :: "oracle_ops \<Rightarrow> oracle_config \<Rightarrow> oracle_state \<Rightarrow> (oracle_alert \<Rightarrow> bool) \<times> instant \<times> rpc_node \<Rightarrow> oracle_state" where
  "oracle_step w c s p = (case p of (refuses, now, node) \<Rightarrow> snd (oracle_poll w refuses c now node s))"

definition ids_distinct :: "oracle_state \<Rightarrow> bool" where
  "ids_distinct s \<longleftrightarrow> distinct (map ce_event_id (od_events (os_db s)))"

lemma oracle_poll_distinct:
  assumes "ids_distinct s" and "oracle_poll w refuses c now node s = (r, s')"
  shows "ids_distinct s'"
  using assms(2)
proof (cases rule: oracle_poll_cases)
  case (batch events raws latest)
  then show ?thesis
    using batch_new [OF batch(4)] assms(1)
    by (cases "confirmed_of c raws latest") (auto simp: process_batch_alt ids_distinct_def)
qed (use assms(1) in simp)

interpretation oracle_run: preserved "oracle_step w c" ids_distinct for w c
proof
  fix s :: oracle_state and p :: "(oracle_alert \<Rightarrow> bool) \<times> instant \<times> rpc_node"
  assume "ids_distinct s"
  obtain refuses now node where p: "p = (refuses, now, node)" by (rule prod_cases3)
  obtain r s' where "oracle_poll w refuses c now node s = (r, s')" by (rule prod.exhaust)
  with oracle_poll_distinct [OF \<open>ids_distinct s\<close> this] show "ids_distinct (oracle_step w c s p)"
    by (simp add: oracle_step_def p)
qed

text \<open>
  Every contract event is stored once: in every history of polls, of any nodes, replays and
  failures, no identity is in the table twice.
\<close>

theorem events_stored_once:
  "distinct (map ce_event_id (od_events (os_db (foldl (oracle_step w c) \<lparr>os_db = \<lparr>od_events = [], od_marks = []\<rparr>, os_alerts = []\<rparr> ps))))"
  using oracle_run.run_inv [of "\<lparr>os_db = \<lparr>od_events = [], od_marks = []\<rparr>, os_alerts = []\<rparr>" w c ps] by (simp add: ids_distinct_def)

lemma oracle_events_alerts:
  "\<exists>bs. oracle_events w refuses c now raws parsed (s\<lparr>os_alerts := as\<rparr>) =
     (fst (oracle_events w refuses c now raws parsed s), snd (oracle_events w refuses c now raws parsed s)\<lparr>os_alerts := bs\<rparr>)"
proof (induction raws arbitrary: parsed s as)
  case (Cons raw raws)
  have IH: "\<exists>bs. oracle_events w refuses c now raws (parsed @ [e]) (s\<lparr>os_db := db, os_alerts := as @ xs\<rparr>) =
     (fst (oracle_events w refuses c now raws (parsed @ [e]) (s\<lparr>os_db := db, os_alerts := os_alerts s @ xs\<rparr>)),
      snd (oracle_events w refuses c now raws (parsed @ [e]) (s\<lparr>os_db := db, os_alerts := os_alerts s @ xs\<rparr>))\<lparr>os_alerts := bs\<rparr>)" for e db xs
    using Cons.IH [where parsed = "parsed @ [e]" and s = "s\<lparr>os_db := db, os_alerts := os_alerts s @ xs\<rparr>" and as = "as @ xs"] by simp
  have "\<exists>bs. s\<lparr>os_alerts := as, os_db := db\<rparr> = s\<lparr>os_db := db, os_alerts := bs\<rparr>" for db by (intro exI [of _ as]) simp
  then show ?case
    using IH Cons.IH [where parsed = parsed and s = s and as = as] by (auto simp: Let_def split: option.splits prod.splits)
qed auto

text \<open>
  C40. A batch interrupted anywhere and run again leaves the events and the position of a batch that was
  not interrupted; the alerts of the events before the interruption are sent again.
\<close>

theorem interrupted_batch_completes:
  assumes "process_batch w refuses c now raws latest s = (Some es, s1)" and "confirmed_of c raws latest = Some (confirmed, pending)"
    and "s2 = snd (oracle_events w refuses c now (take n confirmed) [] s)"
  shows "\<exists>s3. process_batch w refuses c now raws latest s2 = (Some es, s3) \<and> os_db s3 = os_db s1"
proof -
  obtain s' where o: "oracle_events w refuses c now confirmed [] s = (Some es, s')"
    using assms(1,2) by (auto simp: process_batch_alt split: option.splits prod.splits)
  have "oracle_events w refuses c now (take n confirmed @ drop n confirmed) [] s = (Some es, s')" using o by simp
  then obtain p where p: "oracle_events w refuses c now (take n confirmed) [] s = (Some p, s2)"
    and q: "oracle_events w refuses c now (drop n confirmed) p s2 = (Some es, s')"
    using assms(3) unfolding oracle_events_append by (auto split: prod.splits option.splits)
  from oracle_events_replay [of "take n confirmed" w refuses c now s2 "[]"] oracle_events_run [OF p] obtain as where
    "oracle_events w refuses c now (take n confirmed) [] s2 = (Some p, s2\<lparr>os_alerts := os_alerts s2 @ as\<rparr>)" by auto
  then have "oracle_events w refuses c now confirmed [] s2 =
      oracle_events w refuses c now (drop n confirmed) p (s2\<lparr>os_alerts := os_alerts s2 @ as\<rparr>)"
    using oracle_events_append [of w refuses c now "take n confirmed" "drop n confirmed" "[]" s2] by simp
  moreover obtain bs where
    "oracle_events w refuses c now (drop n confirmed) p (s2\<lparr>os_alerts := os_alerts s2 @ as\<rparr>) = (Some es, s'\<lparr>os_alerts := bs\<rparr>)"
    using oracle_events_alerts [where w = w and refuses = refuses and c = c and now = now and raws = "drop n confirmed"
      and parsed = p and s = s2 and as = "os_alerts s2 @ as"] q by auto
  ultimately have o2: "oracle_events w refuses c now confirmed [] s2 = (Some es, s'\<lparr>os_alerts := bs\<rparr>)" by simp
  show ?thesis
    using assms(1,2) o o2 by (cases "max_ledger es") (auto simp: process_batch_alt)
qed

definition demo_ops :: oracle_ops where
  "demo_ops = \<lparr>so_sha = id, so_hmac = id, so_dumps = \<lambda>_. [], so_str = \<lambda>_. [], so_iso = \<lambda>_. Some 0,
     so_bindable = \<lambda>_. True, so_score = \<lambda>_. Some (Some 90)\<rparr>"

definition demo_oracle :: oracle_config where
  "demo_oracle = \<lparr>oc_contract = ''C'', oc_depth = 10, oc_dispatcher = True, oc_score_fn = True, oc_threshold = 20\<rparr>"

definition entry :: "string \<Rightarrow> json \<Rightarrow> json" where
  "entry k v = JObj [(KStr ''key'', JObj [(KStr ''value'', JStr k)]), (KStr ''val'', JObj [(KStr ''value'', v)])]"

text \<open>A read of a score, and one whose wallet topic carries no address.\<close>

definition demo_read :: "string \<Rightarrow> int \<Rightarrow> int \<Rightarrow> json" where
  "demo_read i l score = JObj [(KStr ''id'', JStr i), (KStr ''ledger'', JNum (of_int l)),
     (KStr ''topic'', JList [JObj [(KStr ''value'', JStr ''score_read'')]]),
     (KStr ''value'', JObj [(KStr ''type'', JStr ''map''), (KStr ''value'', JList [entry ''score'' (JNum (of_int score))])])]"

definition demo_poison :: "int \<Rightarrow> json" where
  "demo_poison l = JObj [(KStr ''id'', JStr ''x''), (KStr ''ledger'', JNum (of_int l)),
     (KStr ''topic'', JList [JObj [(KStr ''value'', JStr ''score_read'')], JObj [(KStr ''type'', JStr ''address'')]])]"

definition fixed_node :: "json list \<Rightarrow> int \<Rightarrow> rpc_node" where
  "fixed_node raws tip =
     \<lparr>rn_events = \<lambda>_. Some (JObj [(KStr ''result'', JObj [(KStr ''events'', JList raws)])]),
      rn_latest = Some (JObj [(KStr ''result'', JObj [(KStr ''sequence'', JNum (of_int tip))])])\<rparr>"

definition oracle_start :: oracle_state where
  "oracle_start = \<lparr>os_db = \<lparr>od_events = [], od_marks = []\<rparr>, os_alerts = []\<rparr>"

lemma interrupted_batch_completes_witness:
  "\<exists>s3. process_batch demo_ops (\<lambda>_. False) demo_oracle 0 [demo_read ''a'' 1 50, demo_read ''b'' 1 50] (Some 20)
      (snd (oracle_events demo_ops (\<lambda>_. False) demo_oracle 0 [demo_read ''a'' 1 50] [] oracle_start)) =
      (fst (process_batch demo_ops (\<lambda>_. False) demo_oracle 0 [demo_read ''a'' 1 50, demo_read ''b'' 1 50] (Some 20) oracle_start), s3) \<and>
    os_db s3 = os_db (snd (process_batch demo_ops (\<lambda>_. False) demo_oracle 0 [demo_read ''a'' 1 50, demo_read ''b'' 1 50] (Some 20) oracle_start))"
proof -
  let ?raws = "[demo_read ''a'' 1 50, demo_read ''b'' 1 50]"
  have "fst (process_batch demo_ops (\<lambda>_. False) demo_oracle 0 ?raws (Some 20) oracle_start) \<noteq> None" by code_simp
  then obtain es where es: "process_batch demo_ops (\<lambda>_. False) demo_oracle 0 ?raws (Some 20) oracle_start =
      (Some es, snd (process_batch demo_ops (\<lambda>_. False) demo_oracle 0 ?raws (Some 20) oracle_start))"
    by (metis option.exhaust prod.collapse)
  have c: "confirmed_of demo_oracle ?raws (Some 20) = Some (?raws, [])" by code_simp
  have "snd (oracle_events demo_ops (\<lambda>_. False) demo_oracle 0 [demo_read ''a'' 1 50] [] oracle_start) =
      snd (oracle_events demo_ops (\<lambda>_. False) demo_oracle 0 (take 1 ?raws) [] oracle_start)" by simp
  from interrupted_batch_completes [OF es c this] show ?thesis by (metis es fst_conv)
qed

text \<open>
  Only final events are stored: every event a poll adds was returned by the node with a ledger at
  least \<open>confirmation_depth\<close> below the tip the node reported.
\<close>

theorem only_final_events_stored:
  assumes "0 < oc_depth c" and "oracle_poll w refuses c now node s = (r, s')"
    and "e \<in> set (od_events (os_db s'))" and "e \<notin> set (od_events (os_db s))"
  shows "\<exists>raws raw l tip. response_events (rn_events node (get_watermark (oc_contract c) (os_db s))) \<bind> py_iter = Some raws \<and>
    raw \<in> set raws \<and> parse_contract_event w now raw = Some (Some e) \<and> raw_ledger raw = Some l \<and>
    fetch_latest_ledger (rn_latest node) = Some tip \<and> oc_depth c \<le> tip - l"
  using assms(2)
proof (cases rule: oracle_poll_cases)
  case (batch events raws latest)
  from batch(3) assms(1) obtain tip where tip: "latest = Some tip" "fetch_latest_ledger (rn_latest node) = Some tip" by auto
  have "s' = s" if "confirmed_of c raws latest = None" using batch(4) that by (simp add: process_batch_alt)
  then have "confirmed_of c raws latest \<noteq> None" using assms(3,4) by blast
  then obtain confirmed pending where c: "confirmed_of c raws latest = Some (confirmed, pending)" by auto
  have split: "split_each cutoff rs = Some (cs, ps) \<Longrightarrow> x \<in> set cs \<Longrightarrow> x \<in> set rs \<and> (\<exists>l\<le>cutoff. raw_ledger x = Some l)"
    for cutoff rs cs ps x
    by (induction rs arbitrary: cs ps) (auto simp: bind_eq_Some_conv split: if_splits)
  from batch_new [OF batch(4) c] obtain es where es: "od_events (os_db s') = od_events (os_db s) @ es"
    "\<forall>e\<in>set es. \<exists>raw\<in>set confirmed. parse_contract_event w now raw = Some (Some e)" by blast
  from es(1) assms(3,4) have "e \<in> set es" by auto
  with es(2) obtain raw where raw: "raw \<in> set confirmed" "parse_contract_event w now raw = Some (Some e)" by blast
  have "split_each (tip - oc_depth c) raws = Some (confirmed, pending)"
    using c assms(1) tip(1) by (simp add: confirmed_of_def split_confirmed_def)
  from split [OF this raw(1)] obtain l where "raw \<in> set raws" "l \<le> tip - oc_depth c" "raw_ledger raw = Some l" by blast
  then show ?thesis using batch(1,2) tip(2) raw(2)
    by (intro exI [of _ raws] exI [of _ raw] exI [of _ l] exI [of _ tip]) simp
qed (use assms(3,4) in simp)

lemma only_final_events_stored_witness:
  "\<exists>raws raw l tip. response_events (rn_events (fixed_node [demo_read ''a'' 1 50, demo_read ''b'' 15 50] 20) 0) \<bind> py_iter = Some raws \<and>
    raw \<in> set raws \<and> parse_contract_event demo_ops 0 raw =
      Some (Some (hd (od_events (os_db (snd (oracle_poll demo_ops (\<lambda>_. False) demo_oracle 0
        (fixed_node [demo_read ''a'' 1 50, demo_read ''b'' 15 50] 20) oracle_start)))))) \<and> raw_ledger raw = Some l \<and>
    fetch_latest_ledger (rn_latest (fixed_node [demo_read ''a'' 1 50, demo_read ''b'' 15 50] 20)) = Some tip \<and> 10 \<le> tip - l"
proof -
  let ?n = "fixed_node [demo_read ''a'' 1 50, demo_read ''b'' 15 50] 20"
  let ?p = "oracle_poll demo_ops (\<lambda>_. False) demo_oracle 0 ?n oracle_start"
  have ne: "od_events (os_db (snd ?p)) \<noteq> []" by code_simp
  have d: "0 < oc_depth demo_oracle" "oc_depth demo_oracle = 10" "get_watermark (oc_contract demo_oracle) (os_db oracle_start) = 0"
    by (simp_all add: demo_oracle_def oracle_start_def get_watermark_def)
  have "hd (od_events (os_db (snd ?p))) \<notin> set (od_events (os_db oracle_start))" by (simp add: oracle_start_def)
  from only_final_events_stored [OF d(1) surjective_pairing hd_in_set [OF ne] this] show ?thesis unfolding d(2,3) .
qed

text \<open>
  One event that cannot be parsed stops the listener: every poll raises at it and the position never
  advances, so the events after it are read again and never stored.
\<close>

lemma oracle_events_stop:
  assumes "parse_contract_event w now bad = None"
  shows "oracle_events w refuses c now (pre @ bad # post) parsed s = oracle_events w refuses c now (pre @ [bad]) parsed s \<and>
    fst (oracle_events w refuses c now (pre @ bad # post) parsed s) = None"
  unfolding oracle_events_append using assms by (auto split: prod.splits option.splits)

theorem poison_event_stops:
  assumes "\<And>l. response_events (rn_events node l) = Some (JList raws)" and "fetch_latest_ledger (rn_latest node) = Some tip"
    and "0 < oc_depth c" and "split_confirmed raws (Some tip) (oc_depth c) = Some (pre @ bad # post, pending)"
    and "parse_contract_event w now bad = None"
  shows "od_marks (os_db (((\<lambda>s. snd (oracle_poll w refuses c now node s)) ^^ n) s)) = od_marks (os_db s) \<and>
    fst (oracle_poll w refuses c now node (((\<lambda>s. snd (oracle_poll w refuses c now node s)) ^^ n) s)) = None \<and>
    (\<forall>e\<in>set (od_events (os_db (((\<lambda>s. snd (oracle_poll w refuses c now node s)) ^^ n) s))).
      e \<in> set (od_events (os_db s)) \<or> Some (Some e) \<in> parse_contract_event w now ` set pre)"
proof (induction n)
  case 0
  have "fst (oracle_poll w refuses c now node t) = None" for t
    using assms oracle_events_stop [OF assms(5), of refuses c pre post "[]" t]
    by (cases raws) (auto simp: oracle_poll_def process_batch_alt confirmed_of_def split_confirmed_def split: prod.splits option.splits)
  then show ?case by simp
next
  case (Suc n)
  let ?t = "((\<lambda>s. snd (oracle_poll w refuses c now node s)) ^^ n) s"
  have raws: "raws \<noteq> []" using assms(3,4) by (auto simp: split_confirmed_def)
  have poll: "oracle_poll w refuses c now node t =
      (None, snd (oracle_events w refuses c now (pre @ [bad]) [] t))" for t
    using assms raws oracle_events_stop [OF assms(5), of refuses c pre post "[]" t]
    by (auto simp: oracle_poll_def process_batch_alt confirmed_of_def split: prod.splits option.splits)
  obtain r t' where o: "oracle_events w refuses c now (pre @ [bad]) [] ?t = (r, t')" by (rule prod.exhaust)
  from oracle_events_new [OF o] obtain es where es: "od_events (os_db t') = od_events (os_db ?t) @ es"
    "\<forall>e\<in>set es. \<exists>raw\<in>set (pre @ [bad]). parse_contract_event w now raw = Some (Some e)" by blast
  have "\<forall>e\<in>set es. Some (Some e) \<in> parse_contract_event w now ` set pre" using es(2) assms(5) by force
  then show ?case using Suc o oracle_events_marks [OF o] es(1) by (auto simp: poll)
qed

lemma poison_event_stops_witness:
  "fst (oracle_poll demo_ops (\<lambda>_. False) demo_oracle 0 (fixed_node [demo_poison 1, demo_read ''a'' 2 50] 20)
     (((\<lambda>s. snd (oracle_poll demo_ops (\<lambda>_. False) demo_oracle 0 (fixed_node [demo_poison 1, demo_read ''a'' 2 50] 20) s)) ^^ 5) oracle_start)) = None"
proof -
  have r: "response_events (rn_events (fixed_node [demo_poison 1, demo_read ''a'' 2 50] 20) l) = Some (JList [demo_poison 1, demo_read ''a'' 2 50])"
    "fetch_latest_ledger (rn_latest (fixed_node [demo_poison 1, demo_read ''a'' 2 50] 20)) = Some 20" for l
    by (simp_all add: fixed_node_def response_events_def fetch_latest_ledger_def)
  have c: "split_confirmed [demo_poison 1, demo_read ''a'' 2 50] (Some 20) (oc_depth demo_oracle) = Some ([] @ demo_poison 1 # [demo_read ''a'' 2 50], [])"
    "parse_contract_event demo_ops 0 (demo_poison 1) = None" "0 < oc_depth demo_oracle" by code_simp+
  show ?thesis
    using poison_event_stops [OF r(1) r(2) c(3) c(1) c(2), where n = 5 and s = oracle_start and refuses = "\<lambda>_. False"] by blast
qed

text \<open>
  The position is the highest ledger stored and polls start at it: the events of that ledger come back
  with every poll, and a stale score is reported again each time although the event is stored already.
\<close>

theorem stale_alert_repeats:
  assumes "\<And>l. response_events (rn_events node l) = Some (JList [raw])" and "fetch_latest_ledger (rn_latest node) = Some tip"
    and "0 < oc_depth c" and "split_confirmed [raw] (Some tip) (oc_depth c) = Some ([raw], [])"
    and "parse_contract_event w now raw = Some (Some e)" and "alert_for w c e = Some [a]" and "\<not> refuses a"
    and "ce_event_id e \<in> stored s"
  shows "os_alerts (((\<lambda>s. snd (oracle_poll w refuses c now node s)) ^^ n) s) = os_alerts s @ replicate n a \<and>
    od_events (os_db (((\<lambda>s. snd (oracle_poll w refuses c now node s)) ^^ n) s)) = od_events (os_db s)"
proof (induction n)
  case (Suc n)
  let ?t = "((\<lambda>s. snd (oracle_poll w refuses c now node s)) ^^ n) s"
  have "persist_event w e (os_db ?t) = Some (False, os_db ?t)"
    using Suc assms(8) parsed_has_id [OF assms(5)] by (intro persist_stored) (simp_all add: stored_def)
  then have "oracle_events w refuses c now [raw] [] ?t = (Some [e], ?t\<lparr>os_alerts := os_alerts ?t @ [a]\<rparr>)"
    using assms(5-7) by simp
  then show ?case
    using Suc assms(1-4) by (simp add: oracle_poll_def process_batch_alt confirmed_of_def max_ledger_def replicate_append_same)
qed simp

lemma stale_alert_repeats_witness:
  "length (os_alerts (((\<lambda>s. snd (oracle_poll demo_ops (\<lambda>_. False) demo_oracle 0 (fixed_node [demo_read ''a'' 1 50] 20) s)) ^^ 3)
     (snd (oracle_poll demo_ops (\<lambda>_. False) demo_oracle 0 (fixed_node [demo_read ''a'' 1 50] 20) oracle_start)))) = 4"
proof -
  let ?n = "fixed_node [demo_read ''a'' 1 50] 20"
  let ?s = "snd (oracle_poll demo_ops (\<lambda>_. False) demo_oracle 0 ?n oracle_start)"
  have r: "response_events (rn_events ?n l) = Some (JList [demo_read ''a'' 1 50])"
    "fetch_latest_ledger (rn_latest ?n) = Some 20" for l
    by (simp_all add: fixed_node_def response_events_def fetch_latest_ledger_def)
  have c: "split_confirmed [demo_read ''a'' 1 50] (Some 20) (oc_depth demo_oracle) = Some ([demo_read ''a'' 1 50], [])"
    "0 < oc_depth demo_oracle" "map_option (map_option ce_event_id) (parse_contract_event demo_ops 0 (demo_read ''a'' 1 50)) = Some (Some (Some ''a''))"
    "map_option length (parse_contract_event demo_ops 0 (demo_read ''a'' 1 50) \<bind> id \<bind> alert_for demo_ops demo_oracle) = Some 1"
    "map ce_event_id (od_events (os_db ?s)) = [Some ''a'']" "length (os_alerts ?s) = 1" by code_simp+
  from c(3) obtain e where e: "parse_contract_event demo_ops 0 (demo_read ''a'' 1 50) = Some (Some e)" "ce_event_id e = Some ''a''" by auto
  with c(4) obtain a where a: "alert_for demo_ops demo_oracle e = Some [a]" by (auto simp: length_Suc_conv)
  have "Some ''a'' \<in> set (map ce_event_id (od_events (os_db ?s)))" unfolding c(5) by simp
  then have st: "ce_event_id e \<in> stored ?s" by (simp add: stored_def e(2))
  have "os_alerts (((\<lambda>s. snd (oracle_poll demo_ops (\<lambda>_. False) demo_oracle 0 ?n s)) ^^ 3) ?s) = os_alerts ?s @ replicate 3 a"
    using stale_alert_repeats [OF r(1) r(2) c(2) c(1) e(1) a, where refuses = "\<lambda>_. False" and n = 3 and s = ?s] st by blast
  then have "length (os_alerts (((\<lambda>s. snd (oracle_poll demo_ops (\<lambda>_. False) demo_oracle 0 ?n s)) ^^ 3) ?s)) = length (os_alerts ?s @ replicate 3 a)"
    by (rule arg_cong)
  also have "\<dots> = 4" using c(6) by simp
  finally show ?thesis .
qed

end
