(* ===== verification/PyDecimal.thy ===== *)
theory PyDecimal
  imports Base
begin

text \<open>
  Python's \<open>decimal.Decimal\<close> as its specification and \<open>_pydecimal\<close> define it: an integer coefficient
  with a decimal exponent, the infinities and NaN; contexts with a precision and a rounding mode;
  addition, multiplication, division, integer division, \<open>quantize\<close>, comparison, and the reading of a
  text. Left out are the sign of zero, signalling NaN and the limits of the exponent, which start at
  999999, so that a quotient by an infinity is a plain zero. The standard contexts of the program trap \<open>InvalidOperation\<close>, \<open>DivisionByZero\<close> and
  \<open>Overflow\<close>, so an invalid operation is always an exception, \<open>None\<close> here.
\<close>

datatype rounding = HalfEven | HalfUp | HalfDown | RoundDown | RoundUp | RoundFloor | RoundCeiling | Round05Up

datatype pydec = Dec (coef: int) (expo: int) | DInf bool | DNaN

record dctx =
  cx_prec :: nat
  cx_round :: rounding

definition std_ctx :: dctx where
  "std_ctx = \<lparr>cx_prec = 28, cx_round = HalfEven\<rparr>"

definition finite_dec :: "pydec \<Rightarrow> bool" where
  "finite_dec x \<longleftrightarrow> (\<exists>c e. x = Dec c e)"

definition dval :: "pydec \<Rightarrow> rat" where
  "dval x = of_int (coef x) * 10 powi expo x"

subsection \<open>Digits\<close>

fun ndigits :: "nat \<Rightarrow> nat" where
  "ndigits n = (if n < 10 then 1 else Suc (ndigits (n div 10)))"

declare ndigits.simps [simp del]

lemma ndigits_pos [simp]: "0 < ndigits n"
  by (subst ndigits.simps) simp

lemma ndigits_le: "0 < k \<Longrightarrow> ndigits n \<le> k \<longleftrightarrow> n < 10 ^ k"
proof (induction n arbitrary: k rule: ndigits.induct)
  case (1 n)
  show ?case
  proof (cases "n < 10")
    case True
    then have "n < 10 ^ k" using 1(2) by (cases k) (auto intro: less_le_trans)
    then show ?thesis using True 1(2) by (subst ndigits.simps) simp
  next
    case False
    show ?thesis
    proof (cases "k = 1")
      case True
      have "\<not> Suc (ndigits (n div 10)) \<le> 1" by (simp add: le_less_linear not_le)
      then show ?thesis using False True by (subst ndigits.simps) simp
    next
      case k: False
      then obtain j where j: "k = Suc j" "0 < j" using 1(2) by (cases k) auto
      have "n div 10 < 10 ^ j \<longleftrightarrow> n < 10 ^ k" by (auto simp: j(1) div_less_iff_less_mult mult.commute)
      then show ?thesis using 1(1) [OF False j(2)] False by (subst ndigits.simps) (simp add: j(1))
    qed
  qed
qed

lemma ndigits_power: "10 ^ (ndigits n - 1) \<le> n \<or> n = 0"
proof (cases "ndigits n = 1")
  case False
  then have "0 < ndigits n - 1" using ndigits_pos [of n] by linarith
  from ndigits_le [OF this, of n] show ?thesis using ndigits_pos [of n] by linarith
qed auto

definition digits_of :: "int \<Rightarrow> nat" where
  "digits_of c = ndigits (nat \<bar>c\<bar>)"

lemma digits_of_le: "0 < k \<Longrightarrow> digits_of c \<le> k \<longleftrightarrow> \<bar>c\<bar> < 10 ^ k"
  unfolding digits_of_def ndigits_le
  by (metis abs_ge_zero nat_less_iff of_nat_numeral of_nat_power)

lemma digits_of_pos [simp]: "0 < digits_of c"
  by (simp add: digits_of_def)

subsection \<open>Rounding\<close>

definition round_up :: "rounding \<Rightarrow> bool \<Rightarrow> nat \<Rightarrow> nat \<Rightarrow> nat \<Rightarrow> bool" where
  "round_up m neg q r d =
     (case m of
        HalfEven \<Rightarrow> d < 2 * r \<or> 2 * r = d \<and> odd q
      | HalfUp \<Rightarrow> d \<le> 2 * r
      | HalfDown \<Rightarrow> d < 2 * r
      | RoundDown \<Rightarrow> False
      | RoundUp \<Rightarrow> 0 < r
      | RoundFloor \<Rightarrow> neg \<and> 0 < r
      | RoundCeiling \<Rightarrow> \<not> neg \<and> 0 < r
      | Round05Up \<Rightarrow> 0 < r \<and> q mod 5 = 0)"

text \<open>The quotient of an integer by a positive one, rounded to an integer.\<close>

definition round_quot :: "rounding \<Rightarrow> int \<Rightarrow> nat \<Rightarrow> int" where
  "round_quot m n d =
     (let a = nat \<bar>n\<bar>; q = a div d; r = a mod d in
        sgn n * int (if round_up m (n < 0) q r d then Suc q else q))"

lemma round_up_0 [simp]: "0 < d \<Longrightarrow> \<not> round_up m neg q 0 d"
  by (cases m) (auto simp: round_up_def)

lemma round_quot_exact: "0 < d \<Longrightarrow> round_quot m (n * int d) d = n"
  by (simp add: round_quot_def Let_def abs_mult nat_mult_distrib sgn_mult mult.commute [of _ "nat _"]
      flip: mult.assoc) (metis linorder_not_less mult_sgn_abs nat_0_le abs_ge_zero mult.commute)

lemma round_quot_bound:
  assumes "0 < d"
  shows "\<bar>round_quot m n d * int d - n\<bar> < int d"
    and "m = HalfEven \<Longrightarrow> 2 * \<bar>round_quot m n d * int d - n\<bar> \<le> int d"
proof -
  define a q r where "a = nat \<bar>n\<bar>" and "q = a div d" and "r = a mod d"
  have a: "int a = int q * int d + int r" "r < d" using assms
    by (simp_all add: q_def r_def flip: of_nat_mult of_nat_add)
  have n: "n = sgn n * int a" by (simp add: a_def sgn_mult_abs)
  define up where "up = round_up m (n < 0) q r d"
  have v: "round_quot m n d = sgn n * (int q + of_bool up)"
    by (simp add: round_quot_def Let_def up_def a_def q_def r_def)
  have e: "round_quot m n d * int d - n = sgn n * (of_bool up * int d - int r)"
    unfolding v by (subst (2) n) (simp add: a(1) algebra_simps)
  have r0: "\<not> up" if "r = 0" using that assms by (simp add: up_def)
  have "\<bar>of_bool up * int d - int r\<bar> < int d" using a(2) r0 assms by (cases up) auto
  moreover have "\<bar>sgn n * x\<bar> \<le> \<bar>x\<bar>" for x by (simp add: abs_mult abs_sgn_eq)
  ultimately show "\<bar>round_quot m n d * int d - n\<bar> < int d" unfolding e using order_le_less_trans by blast
  assume "m = HalfEven"
  then have "2 * \<bar>of_bool up * int d - int r\<bar> \<le> int d" using a(2) by (auto simp: up_def round_up_def)
  then show "2 * \<bar>round_quot m n d * int d - n\<bar> \<le> int d" unfolding e
    using \<open>\<And>x. \<bar>sgn n * x\<bar> \<le> \<bar>x\<bar>\<close> [of "of_bool up * int d - int r"] order_trans mult_left_mono [of _ _ 2]
    by (metis zero_le_numeral)
qed

subsection \<open>Values at an exponent\<close>

definition shift_dec :: "int \<Rightarrow> int \<Rightarrow> int" where
  "shift_dec c k = c * 10 ^ nat k"

lemma dval_Dec: "dval (Dec c e) = of_int c * 10 powi e"
  by (simp add: dval_def)

lemma dval_shift: "0 \<le> k \<Longrightarrow> dval (Dec (shift_dec c k) e) = dval (Dec c (e + k))"
proof -
  assume k: "0 \<le> k"
  then have "(10::rat) powi k = 10 ^ nat k" by (simp add: power_int_def)
  then show ?thesis by (simp add: dval_Dec shift_dec_def power_int_add)
qed

lemma dval_scale: "dval (Dec (c * 10 ^ k) e) = dval (Dec c (e + int k))"
  using dval_shift [of "int k" c e] by (simp add: shift_dec_def)

lemma powi_pos [simp]: "0 < (10::rat) powi e"
  by simp

text \<open>The coefficient at a smaller exponent.\<close>

definition coef_at :: "int \<Rightarrow> pydec \<Rightarrow> int" where
  "coef_at e x = shift_dec (coef x) (expo x - e)"

lemma dval_at: "e \<le> expo x \<Longrightarrow> dval x = of_int (coef_at e x) * 10 powi e"
  using dval_shift [of "expo x - e" "coef x" e] by (simp add: coef_at_def dval_def)

subsection \<open>Contexts\<close>

text \<open>Rounding a result to the precision.\<close>

definition dec_fix :: "dctx \<Rightarrow> int \<Rightarrow> int \<Rightarrow> pydec" where
  "dec_fix cx c e =
     (let n = digits_of c in
        if n \<le> cx_prec cx then Dec c e
        else let k = n - cx_prec cx; c' = round_quot (cx_round cx) c (10 ^ k) in
          if cx_prec cx < digits_of c' then Dec (c' div 10) (e + int k + 1) else Dec c' (e + int k))"

text \<open>\<open>_rescale\<close>: to a given exponent, rounding when digits are dropped.\<close>

definition rescale :: "rounding \<Rightarrow> int \<Rightarrow> pydec \<Rightarrow> pydec" where
  "rescale m e x =
     (if e \<le> expo x then Dec (coef_at e x) e
      else Dec (round_quot m (coef x) (10 ^ nat (e - expo x))) e)"

definition dec_add :: "dctx \<Rightarrow> pydec \<Rightarrow> pydec \<Rightarrow> pydec option" where
  "dec_add cx x y =
     (case (x, y) of
        (DNaN, _) \<Rightarrow> Some DNaN
      | (_, DNaN) \<Rightarrow> Some DNaN
      | (DInf s, DInf t) \<Rightarrow> if s = t then Some (DInf s) else None
      | (DInf s, _) \<Rightarrow> Some (DInf s)
      | (_, DInf t) \<Rightarrow> Some (DInf t)
      | (Dec _ _, Dec _ _) \<Rightarrow>
          let e = min (expo x) (expo y) in Some (dec_fix cx (coef_at e x + coef_at e y) e))"

fun dec_minus :: "pydec \<Rightarrow> pydec" where
  "dec_minus (Dec c e) = Dec (- c) e"
| "dec_minus (DInf s) = DInf (\<not> s)"
| "dec_minus DNaN = DNaN"

definition dec_sub :: "dctx \<Rightarrow> pydec \<Rightarrow> pydec \<Rightarrow> pydec option" where
  "dec_sub cx x y = dec_add cx x (dec_minus y)"

text \<open>The unary operators round to the context too.\<close>

fun dec_pos :: "dctx \<Rightarrow> pydec \<Rightarrow> pydec" where
  "dec_pos cx (Dec c e) = dec_fix cx c e"
| "dec_pos cx x = x"

definition dec_neg :: "dctx \<Rightarrow> pydec \<Rightarrow> pydec" where
  "dec_neg cx x = dec_pos cx (dec_minus x)"

definition dec_negative :: "pydec \<Rightarrow> bool" where
  "dec_negative x \<longleftrightarrow> (case x of Dec c e \<Rightarrow> c < 0 | DInf s \<Rightarrow> s | DNaN \<Rightarrow> False)"

definition dec_abs :: "dctx \<Rightarrow> pydec \<Rightarrow> pydec" where
  "dec_abs cx x = (if dec_negative x then dec_neg cx x else dec_pos cx x)"

text \<open>Infinity times zero is invalid.\<close>

definition dec_zero :: "pydec \<Rightarrow> bool" where
  "dec_zero x \<longleftrightarrow> (case x of Dec c e \<Rightarrow> c = 0 | _ \<Rightarrow> False)"

definition dec_mul :: "dctx \<Rightarrow> pydec \<Rightarrow> pydec \<Rightarrow> pydec option" where
  "dec_mul cx x y =
     (case (x, y) of
        (DNaN, _) \<Rightarrow> Some DNaN
      | (_, DNaN) \<Rightarrow> Some DNaN
      | (Dec _ _, Dec _ _) \<Rightarrow> Some (dec_fix cx (coef x * coef y) (expo x + expo y))
      | _ \<Rightarrow> if dec_zero x \<or> dec_zero y then None else Some (DInf (dec_negative x \<noteq> dec_negative y)))"

text \<open>
  Division: one digit more than the precision, with a sticky last digit when there is a remainder; an
  exact quotient is brought towards the ideal exponent.
\<close>

fun strip_zeros :: "nat \<Rightarrow> nat \<Rightarrow> nat \<times> nat" where
  "strip_zeros 0 q = (q, 0)"
| "strip_zeros (Suc k) q = (if q mod 10 = 0 then (case strip_zeros k (q div 10) of (q', j) \<Rightarrow> (q', Suc j)) else (q, 0))"

lemma strip_zeros_numeral [simp]:
  "strip_zeros (numeral k) q =
     (if q mod 10 = 0 then (case strip_zeros (pred_numeral k) (q div 10) of (q', j) \<Rightarrow> (q', Suc j)) else (q, 0))"
  by (simp only: numeral_eq_Suc strip_zeros.simps)

definition dec_quotient :: "dctx \<Rightarrow> int \<Rightarrow> int \<Rightarrow> int \<Rightarrow> int \<Rightarrow> pydec" where
  "dec_quotient cx c e d f =
     (let shift = int (digits_of d) - int (digits_of c) + int (cx_prec cx) + 1;
          a = nat \<bar>c\<bar>; b = nat \<bar>d\<bar>;
          (q, r) = (if 0 \<le> shift then (a * 10 ^ nat shift div b, a * 10 ^ nat shift mod b)
                    else (a div (b * 10 ^ nat (- shift)), a mod (b * 10 ^ nat (- shift))));
          (q', ex) = (if r \<noteq> 0 then (if q mod 5 = 0 then Suc q else q, e - f - shift)
                      else (case strip_zeros (nat shift) q of (q', j) \<Rightarrow> (q', e - f - shift + int j)))
      in dec_fix cx (sgn c * sgn d * int q') ex)"

definition dec_div :: "dctx \<Rightarrow> pydec \<Rightarrow> pydec \<Rightarrow> pydec option" where
  "dec_div cx x y =
     (case (x, y) of
        (DNaN, _) \<Rightarrow> Some DNaN
      | (_, DNaN) \<Rightarrow> Some DNaN
      | (DInf s, DInf t) \<Rightarrow> None
      | (DInf s, _) \<Rightarrow> Some (DInf (s \<noteq> dec_negative y))
      | (_, DInf t) \<Rightarrow> Some (Dec 0 0)
      | (Dec c e, Dec d f) \<Rightarrow>
          if d = 0 then None
          else if c = 0 then Some (Dec 0 (e - f))
          else Some (dec_quotient cx c e d f))"

text \<open>\<open>//\<close> truncates towards zero, and \<open>%\<close> has the sign of the dividend.\<close>

definition dec_divmod :: "dctx \<Rightarrow> pydec \<Rightarrow> pydec \<Rightarrow> (pydec \<times> pydec) option" where
  "dec_divmod cx x y =
     (let e = min (expo x) (expo y); a = nat \<bar>coef_at e x\<bar>; b = nat \<bar>coef_at e y\<bar> in
        if 10 ^ cx_prec cx \<le> a div b then None
        else Some (Dec (sgn (coef x) * sgn (coef y) * int (a div b)) 0, dec_fix cx (sgn (coef x) * int (a mod b)) e))"

definition dec_floordiv :: "dctx \<Rightarrow> pydec \<Rightarrow> pydec \<Rightarrow> pydec option" where
  "dec_floordiv cx x y =
     (case (x, y) of
        (DNaN, _) \<Rightarrow> Some DNaN
      | (_, DNaN) \<Rightarrow> Some DNaN
      | (DInf s, DInf t) \<Rightarrow> None
      | (DInf s, _) \<Rightarrow> Some (DInf (s \<noteq> dec_negative y))
      | (_, DInf t) \<Rightarrow> Some (Dec 0 0)
      | (Dec _ _, Dec d _) \<Rightarrow> if d = 0 then None else map_option fst (dec_divmod cx x y))"

definition dec_mod :: "dctx \<Rightarrow> pydec \<Rightarrow> pydec \<Rightarrow> pydec option" where
  "dec_mod cx x y =
     (case (x, y) of
        (DNaN, _) \<Rightarrow> Some DNaN
      | (_, DNaN) \<Rightarrow> Some DNaN
      | (DInf s, _) \<Rightarrow> None
      | (_, DInf t) \<Rightarrow> Some (dec_pos cx x)
      | (Dec _ _, Dec d _) \<Rightarrow> if d = 0 then None else map_option snd (dec_divmod cx x y))"

text \<open>\<open>quantize\<close> to an exponent; a result with too many digits is invalid.\<close>

definition dec_quantize :: "nat \<Rightarrow> rounding \<Rightarrow> int \<Rightarrow> pydec \<Rightarrow> pydec option" where
  "dec_quantize prec m e x =
     (case x of
        DNaN \<Rightarrow> Some DNaN
      | DInf s \<Rightarrow> None
      | Dec _ _ \<Rightarrow> let y = rescale m e x in if prec < digits_of (coef y) then None else Some y)"

text \<open>\<open>==\<close> and \<open><\<close>; an order comparison with NaN is invalid.\<close>

fun dec_eq :: "pydec \<Rightarrow> pydec \<Rightarrow> bool" where
  "dec_eq (Dec c e) (Dec d f) \<longleftrightarrow> coef_at (min e f) (Dec c e) = coef_at (min e f) (Dec d f)"
| "dec_eq (DInf s) (DInf t) \<longleftrightarrow> s = t"
| "dec_eq x y \<longleftrightarrow> False"

fun dec_less :: "pydec \<Rightarrow> pydec \<Rightarrow> bool option" where
  "dec_less DNaN y = None"
| "dec_less x DNaN = None"
| "dec_less (DInf s) (DInf t) = Some (s \<and> \<not> t)"
| "dec_less (DInf s) y = Some s"
| "dec_less x (DInf t) = Some (\<not> t)"
| "dec_less (Dec c e) (Dec d f) = Some (coef_at (min e f) (Dec c e) < coef_at (min e f) (Dec d f))"

text \<open>\<open>int\<close> truncates.\<close>

fun dec_int_of :: "pydec \<Rightarrow> int option" where
  "dec_int_of (Dec c e) = Some (if 0 \<le> e then shift_dec c e else sgn c * (\<bar>c\<bar> div 10 ^ nat (- e)))"
| "dec_int_of x = None"

subsection \<open>Exactness\<close>

text \<open>A result that fits the precision is not rounded.\<close>

lemma dec_fix_fits: "0 < cx_prec cx \<Longrightarrow> \<bar>c\<bar> < 10 ^ cx_prec cx \<Longrightarrow> dec_fix cx c e = Dec c e"
  by (simp add: dec_fix_def digits_of_le [symmetric])

lemma digits_of_scale: "c \<noteq> 0 \<Longrightarrow> digits_of (c * 10 ^ j) = digits_of c + j"
proof (induction j)
  case (Suc j)
  have "ndigits (n * 10) = Suc (ndigits n)" if "0 < n" for n
    using that by (subst ndigits.simps) simp
  then have "digits_of (x * 10) = Suc (digits_of x)" if "x \<noteq> 0" for x
    using that by (simp add: digits_of_def abs_mult nat_mult_distrib)
  from this [of "c * 10 ^ j"] Suc show ?case by (simp add: mult.assoc [symmetric] mult.commute [of 10])
qed simp

text \<open>Neither is one whose excess digits are zeros.\<close>

lemma dec_fix_zeros:
  assumes "0 < cx_prec cx" and "\<bar>c\<bar> < 10 ^ cx_prec cx"
  shows "\<exists>c' e'. dec_fix cx (c * 10 ^ j) e = Dec c' e' \<and> dval (Dec c' e') = dval (Dec (c * 10 ^ j) e) \<and> e \<le> e' \<and> e' \<le> e + int j"
proof (cases "c = 0 \<or> digits_of (c * 10 ^ j) \<le> cx_prec cx")
  case True
  then have "dec_fix cx (c * 10 ^ j) e = Dec (c * 10 ^ j) e"
    using assms(1) by (auto simp: dec_fix_def digits_of_le)
  then show ?thesis by auto
next
  case False
  define k where "k = digits_of (c * 10 ^ j) - cx_prec cx"
  have d: "digits_of c \<le> cx_prec cx" using assms digits_of_le by blast
  with False have k: "0 < k" "k \<le> j" unfolding k_def using digits_of_scale [of c j] by auto
  have c: "c * 10 ^ j = c * 10 ^ (j - k) * int (10 ^ k)" using k(2) by (simp flip: power_add)
  then have r: "round_quot (cx_round cx) (c * 10 ^ j) (10 ^ k) = c * 10 ^ (j - k)"
    by (simp only: round_quot_exact zero_less_power zero_less_numeral)
  have "digits_of (c * 10 ^ (j - k)) = cx_prec cx"
    using False k digits_of_scale [of c j] digits_of_scale [of c "j - k"] by (simp add: k_def)
  then have "dec_fix cx (c * 10 ^ j) e = Dec (c * 10 ^ (j - k)) (e + int k)"
    using False r by (simp add: dec_fix_def Let_def k_def)
  moreover have "dval (Dec (c * 10 ^ (j - k)) (e + int k)) = dval (Dec (c * 10 ^ j) e)"
    using dval_scale [of "c * 10 ^ (j - k)" k e] c by (simp only: of_nat_power of_nat_numeral)
  ultimately show ?thesis using k by auto
qed

lemma dec_eq_iff: "dec_eq (Dec c e) (Dec d f) \<longleftrightarrow> dval (Dec c e) = dval (Dec d f)"
  using dval_at [of "min e f" "Dec c e"] dval_at [of "min e f" "Dec d f"] by simp

lemma dec_less_iff: "dec_less (Dec c e) (Dec d f) = Some (dval (Dec c e) < dval (Dec d f))"
  using dval_at [of "min e f" "Dec c e"] dval_at [of "min e f" "Dec d f"] by simp

text \<open>The value at a common exponent, added.\<close>

lemma dval_add_at:
  "e \<le> expo x \<Longrightarrow> e \<le> expo y \<Longrightarrow> dval (Dec (coef_at e x + coef_at e y) e) = dval x + dval y"
  using dval_at [of e x] dval_at [of e y] by (simp add: dval_Dec distrib_right)

lemma dec_add_Dec:
  "dec_add cx (Dec c e) (Dec d f) =
     Some (dec_fix cx (coef_at (min e f) (Dec c e) + coef_at (min e f) (Dec d f)) (min e f))"
  by (simp add: dec_add_def Let_def)

subsection \<open>The error of rounding\<close>

definition unit_error :: "dctx \<Rightarrow> rat" where
  "unit_error cx = 1 / 10 ^ (cx_prec cx - 1)"

text \<open>With half-even rounding a result is off by at most half a unit of its last digit.\<close>

lemma dec_fix_error:
  assumes "0 < cx_prec cx" and "cx_round cx = HalfEven"
  shows "\<exists>c' e'. dec_fix cx c e = Dec c' e' \<and> 2 * \<bar>dval (Dec c' e') - dval (Dec c e)\<bar> \<le> unit_error cx * \<bar>dval (Dec c e)\<bar>"
proof (cases "digits_of c \<le> cx_prec cx")
  case True
  then show ?thesis by (simp add: dec_fix_def unit_error_def)
next
  case False
  define k where "k = digits_of c - cx_prec cx"
  define r where "r = round_quot HalfEven c (10 ^ k)"
  have c0: "c \<noteq> 0" using False assms(1) by (auto simp: digits_of_le not_le)
  have big: "10 ^ (cx_prec cx - 1 + k) \<le> \<bar>c\<bar>"
  proof -
    have n: "digits_of c - 1 = cx_prec cx - 1 + k" using False assms(1) by (simp add: k_def)
    have "10 ^ (digits_of c - 1) \<le> nat \<bar>c\<bar>" using ndigits_power [of "nat \<bar>c\<bar>"] c0 by (simp add: digits_of_def)
    then have "int (10 ^ (digits_of c - 1)) \<le> \<bar>c\<bar>" by linarith
    then show ?thesis unfolding n [symmetric] by simp
  qed
  have half: "2 * \<bar>r * 10 ^ k - c\<bar> \<le> 10 ^ k" using round_quot_bound(2) [of "10 ^ k" HalfEven c] by (simp add: r_def)
  have "dec_fix cx c e = (if cx_prec cx < digits_of r then Dec (r div 10) (e + int k + 1) else Dec r (e + int k))"
    using False by (simp add: dec_fix_def Let_def k_def r_def assms(2))
  moreover have "dval (Dec (r div 10) (e + int k + 1)) = dval (Dec r (e + int k))" if "cx_prec cx < digits_of r"
  proof -
    have "\<bar>c\<bar> < 10 ^ (cx_prec cx + k)" using digits_of_le [of "cx_prec cx + k" c] assms(1) False by (simp add: k_def)
    have up: "\<bar>r\<bar> \<le> 10 ^ cx_prec cx"
    proof (rule ccontr)
      assume "\<not> \<bar>r\<bar> \<le> 10 ^ cx_prec cx"
      then have "10 ^ cx_prec cx + 1 \<le> \<bar>r\<bar>" by simp
      then have "(10 ^ cx_prec cx + 1) * 10 ^ k \<le> \<bar>r\<bar> * 10 ^ k" by (rule mult_right_mono) simp
      then have "10 ^ (cx_prec cx + k) + 10 ^ k \<le> \<bar>r * 10 ^ k\<bar>" by (simp add: distrib_right power_add abs_mult)
      moreover have "\<bar>r * 10 ^ k\<bar> \<le> \<bar>r * 10 ^ k - c\<bar> + \<bar>c\<bar>" by linarith
      moreover have False if "A + B \<le> R" "R \<le> D + C" "0 < B" "2 * D \<le> B" "C < A" for A B C D R :: int
        using that by linarith
      ultimately show False using half \<open>\<bar>c\<bar> < 10 ^ (cx_prec cx + k)\<close> by (metis zero_less_power zero_less_numeral)
    qed
    moreover have "10 ^ cx_prec cx \<le> \<bar>r\<bar>" using that digits_of_le [OF assms(1), of r] by simp
    ultimately have "\<bar>r\<bar> = 10 ^ cx_prec cx" by simp
    then have "10 dvd \<bar>r\<bar>" using assms(1) by (simp add: dvd_power)
    then have "r div 10 * 10 = r" by simp
    then show ?thesis using dval_scale [of "r div 10" 1 "e + int k"] by simp
  qed
  moreover have "2 * \<bar>dval (Dec r (e + int k)) - dval (Dec c e)\<bar> \<le> unit_error cx * \<bar>dval (Dec c e)\<bar>"
  proof -
    have v: "dval (Dec r (e + int k)) = of_int (r * 10 ^ k) * 10 powi e" using dval_scale [of r k e] by (simp only: dval_Dec)
    have "dval (Dec r (e + int k)) - dval (Dec c e) = of_int (r * 10 ^ k - c) * 10 powi e"
      unfolding v dval_Dec [of c e] by (simp add: left_diff_distrib)
    then have l: "2 * \<bar>dval (Dec r (e + int k)) - dval (Dec c e)\<bar> = of_int (2 * \<bar>r * 10 ^ k - c\<bar>) * 10 powi e"
      by (simp add: abs_mult)
    have "of_int (2 * \<bar>r * 10 ^ k - c\<bar>) \<le> (of_int (10 ^ k) :: rat)" using half by (simp only: of_int_le_iff)
    also have "\<dots> = unit_error cx * of_int (10 ^ (cx_prec cx - 1 + k))" by (simp add: unit_error_def power_add)
    also have "\<dots> \<le> unit_error cx * of_int \<bar>c\<bar>"
      using big by (intro mult_left_mono) (simp_all only: of_int_le_iff, simp add: unit_error_def)
    finally have "of_int (2 * \<bar>r * 10 ^ k - c\<bar>) * 10 powi e \<le> unit_error cx * of_int \<bar>c\<bar> * 10 powi e"
      by (rule mult_right_mono) simp
    then show ?thesis unfolding l by (simp add: dval_Dec abs_mult)
  qed
  ultimately show ?thesis by auto
qed

lemma strip_zeros_spec:
  "strip_zeros k q = (q', j) \<Longrightarrow> q = q' * 10 ^ j \<and> j \<le> k \<and> (j = k \<or> q' mod 10 \<noteq> 0)"
proof (induction k arbitrary: q q' j)
  case (Suc k)
  show ?case
  proof (cases "q mod 10 = 0")
    case True
    then obtain q1 j1 where s: "strip_zeros k (q div 10) = (q1, j1)" "q' = q1" "j = Suc j1"
      using Suc.prems by (auto split: prod.splits)
    from Suc.IH [OF s(1)] have "q div 10 = q1 * 10 ^ j1" "j1 \<le> k" "j1 = k \<or> q1 mod 10 \<noteq> 0" by auto
    moreover have "q = q div 10 * 10" using True by auto
    ultimately show ?thesis using s by (metis Suc_le_mono mult.assoc mult.commute power_Suc)
  qed (use Suc.prems in auto)
qed simp

lemma dec_quotient_shift:
  assumes "int (digits_of d) - int (digits_of c) + int (cx_prec cx) + 1 = int sh"
  shows "dec_quotient cx c e d f =
    (let t = nat \<bar>c\<bar> * 10 ^ sh; b = nat \<bar>d\<bar>;
         (q, ex) = (if t mod b \<noteq> 0 then (if t div b mod 5 = 0 then Suc (t div b) else t div b, e - f - int sh)
                    else (case strip_zeros sh (t div b) of (q, j) \<Rightarrow> (q, e - f - int sh + int j)))
     in dec_fix cx (sgn c * sgn d * int q) ex)"
  unfolding dec_quotient_def assms by (simp add: Let_def)

text \<open>Division by a power of ten of a number that fits is exact, and keeps the scale.\<close>

lemma dec_div_pow10:
  assumes "0 < cx_prec cx" and "\<bar>n\<bar> < 10 ^ cx_prec cx"
  shows "\<exists>c e. dec_div cx (Dec n 0) (Dec (10 ^ p) 0) = Some (Dec c e) \<and> dval (Dec c e) = of_int n / 10 ^ p \<and> - int p \<le> e \<and> e \<le> 0"
proof (cases "n = 0")
  case False
  have dp: "digits_of (10 ^ p) = Suc p" using digits_of_scale [of 1 p] by (simp add: digits_of_def ndigits.simps)
  define sh where "sh = Suc p + cx_prec cx + 1 - digits_of n"
  have dn: "digits_of n \<le> cx_prec cx" using assms digits_of_le by blast
  then have sh: "int (digits_of ((10::int) ^ p)) - int (digits_of n) + int (cx_prec cx) + 1 = int sh" "p < sh"
    by (simp_all add: dp sh_def)
  define a where "a = nat \<bar>n\<bar>"
  have pw: "a * 10 ^ sh = a * 10 ^ (sh - p) * 10 ^ p" using sh(2) by (simp flip: power_add)
  have b: "nat ((10::int) ^ p) = 10 ^ p" by (simp add: nat_power_eq)
  obtain q j where st: "strip_zeros sh (a * 10 ^ (sh - p)) = (q, j)" by (rule prod.exhaust)
  note q = strip_zeros_spec [OF st]
  have quot: "dec_div cx (Dec n 0) (Dec (10 ^ p) 0) = Some (dec_fix cx (sgn n * int q) (- int sh + int j))"
    using False st by (simp add: dec_div_def dec_quotient_shift [OF sh(1)] b pw a_def [symmetric] Let_def)
  have j: "sh - p \<le> j"
  proof (rule ccontr)
    assume "\<not> sh - p \<le> j"
    then have e: "sh - p = sh - p - Suc j + 1 + j" by simp
    have "10 ^ (sh - p) = 10 ^ (sh - p - Suc j) * 10 * (10::nat) ^ j" by (subst e) (simp only: power_add power_one_right)
    with q have "q * 10 ^ j = (a * 10 ^ (sh - p - Suc j) * 10) * 10 ^ j" by (simp add: mult.assoc)
    then have "q = a * 10 ^ (sh - p - Suc j) * 10" by simp
    then have "q mod 10 = 0" by simp
    with q \<open>\<not> sh - p \<le> j\<close> show False by auto
  qed
  have "q \<le> a"
  proof -
    have "q * 10 ^ (j - (sh - p)) * 10 ^ (sh - p) = a * 10 ^ (sh - p)" using q j by (simp add: mult.assoc flip: power_add)
    then have "q * 10 ^ (j - (sh - p)) = a" by simp
    then show ?thesis by (metis le_add2 mult_le_cancel1 mult.right_neutral one_le_numeral one_le_power)
  qed
  then have "int q \<le> \<bar>n\<bar>" by (simp add: a_def)
  then have "\<bar>sgn n * int q\<bar> < 10 ^ cx_prec cx"
    using assms(2) False by (simp only: abs_mult abs_sgn_eq if_False mult_1 abs_of_nat)
  from dec_fix_fits [OF assms(1) this] have r: "dec_div cx (Dec n 0) (Dec (10 ^ p) 0) = Some (Dec (sgn n * int q) (- int sh + int j))"
    unfolding quot by simp
  have "dval (Dec (sgn n * int q) (- int sh + int j)) = dval (Dec (sgn n * int q * 10 ^ j) (- int sh))"
    by (simp only: dval_scale)
  also have "sgn n * int q * 10 ^ j = sgn n * int (a * 10 ^ (sh - p))" using q by simp
  also have "\<dots> = n * 10 ^ (sh - p)" by (simp add: a_def mult.assoc [symmetric] sgn_mult_abs)
  also have "dval (Dec (n * 10 ^ (sh - p)) (- int sh)) = of_int n * 10 powi (- int p)"
    using sh(2) by (simp add: dval_scale) (simp add: dval_Dec of_nat_diff)
  also have "\<dots> = of_int n / 10 ^ p" by (simp add: power_int_minus field_simps)
  finally have "dval (Dec (sgn n * int q) (- int sh + int j)) = of_int n / 10 ^ p" .
  moreover have "- int p \<le> - int sh + int j" "- int sh + int j \<le> 0" using j q sh(2) by auto
  ultimately show ?thesis using r by blast
qed (auto simp: dec_div_def dval_Dec)

lemma dec_fix_close:
  assumes "0 < cx_prec cx" and "cx_round cx = HalfEven" and "10 * \<bar>dval (Dec c e) - y\<bar> \<le> unit_error cx * \<bar>y\<bar>"
  shows "\<exists>c' e'. dec_fix cx c e = Dec c' e' \<and> \<bar>dval (Dec c' e') - y\<bar> \<le> unit_error cx * \<bar>y\<bar>"
proof -
  define u where "u = unit_error cx"
  have u: "0 < u" "u \<le> 1" by (simp_all add: u_def unit_error_def)
  obtain c' e' where f: "dec_fix cx c e = Dec c' e'" "2 * \<bar>dval (Dec c' e') - dval (Dec c e)\<bar> \<le> u * \<bar>dval (Dec c e)\<bar>"
    using dec_fix_error [OF assms(1,2), of c e] by (auto simp: u_def)
  define z where "z = dval (Dec c e)"
  define Y W D where "Y = \<bar>y\<bar>" and "W = u * Y" and "D = \<bar>z - y\<bar>"
  have z: "10 * D \<le> W" using assms(3) by (simp add: z_def u_def D_def W_def Y_def)
  have "W \<le> 1 * Y" unfolding W_def using u by (intro mult_right_mono) (auto simp: Y_def)
  moreover have "\<bar>z\<bar> \<le> D + Y" unfolding D_def Y_def by linarith
  ultimately have "10 * \<bar>z\<bar> \<le> 11 * Y" using z by linarith
  then have "u * (10 * \<bar>z\<bar>) \<le> u * (11 * Y)" using u by (intro mult_left_mono) auto
  then have "10 * (u * \<bar>z\<bar>) \<le> 11 * W" by (simp add: W_def)
  moreover have "2 * \<bar>dval (Dec c' e') - z\<bar> \<le> u * \<bar>z\<bar>" using f(2) by (simp add: z_def)
  moreover have "\<bar>dval (Dec c' e') - y\<bar> \<le> \<bar>dval (Dec c' e') - z\<bar> + D" unfolding D_def by linarith
  moreover have "0 \<le> W" using u by (simp add: W_def Y_def)
  moreover have "X \<le> W" if "10 * U \<le> 11 * W" "2 * A \<le> U" "X \<le> A + D" "0 \<le> W" "10 * D \<le> W" for X U A :: rat
    using that by linarith
  ultimately have "\<bar>dval (Dec c' e') - y\<bar> \<le> W" using z by metis
  then have "\<bar>dval (Dec c' e') - y\<bar> \<le> u * \<bar>y\<bar>" by (simp add: W_def Y_def)
  then show ?thesis using f(1) by (auto simp: u_def)
qed

text \<open>Any quotient is off by at most one unit of the precision.\<close>

lemma dec_quotient_error:
  assumes "0 < cx_prec cx" and "cx_round cx = HalfEven" and "c \<noteq> 0" and "d \<noteq> 0"
  shows "\<exists>c' e'. dec_quotient cx c e d f = Dec c' e' \<and>
    \<bar>dval (Dec c' e') - dval (Dec c e) / dval (Dec d f)\<bar> \<le> unit_error cx * \<bar>dval (Dec c e) / dval (Dec d f)\<bar>"
proof -
  define sh where "sh = int (digits_of d) - int (digits_of c) + int (cx_prec cx) + 1"
  define a b s where "a = nat \<bar>c\<bar>" and "b = nat \<bar>d\<bar>" and "s = sgn c * sgn d"
  define N B where "N = (if 0 \<le> sh then a * 10 ^ nat sh else a)" and "B = (if 0 \<le> sh then b else b * 10 ^ nat (- sh))"
  have ab: "0 < a" "0 < b" using assms(3,4) by (simp_all add: a_def b_def)
  have B: "0 < B" using ab by (simp add: B_def)
  have cd: "of_int c = (of_int (sgn c) * of_nat a :: rat)" "of_int d = (of_int (sgn d) * of_nat b :: rat)"
    by (auto simp: a_def b_def sgn_if)
  define M where "M = (of_nat N / of_nat B :: rat)"
  have M: "M = of_nat a / of_nat b * 10 powi sh"
    by (auto simp: M_def N_def B_def power_int_def field_simps)
  define y where "y = dval (Dec c e) / dval (Dec d f)"
  have sg: "of_int (sgn c) / of_int (sgn d) = (of_int s :: rat)"
    using assms(3,4) by (auto simp: s_def sgn_if)
  have "y = of_int (sgn c) / of_int (sgn d) * (of_nat a / of_nat b) * (10 powi e / 10 powi f)"
    by (simp add: y_def dval_Dec cd)
  also have "10 powi e / 10 powi f = (10 powi sh * 10 powi (e - f - sh) :: rat)"
    by (simp add: power_int_diff)
  finally have y: "y = of_int s * M * 10 powi (e - f - sh)" by (simp add: sg M)
  have s1: "\<bar>of_int s\<bar> = (1::rat)" using assms(3,4) by (auto simp: s_def sgn_if)
  have Mbig: "10 ^ cx_prec cx \<le> M"
  proof -
    have "10 ^ (digits_of c - 1) \<le> a" using ndigits_power [of a] ab by (simp add: digits_of_def a_def)
    then have A: "(10::rat) ^ (digits_of c - 1) \<le> of_nat a" by (metis of_nat_le_iff of_nat_numeral of_nat_power)
    have "\<bar>d\<bar> < 10 ^ digits_of d" using digits_of_le [of "digits_of d" d] by simp
    then have "b \<le> 10 ^ digits_of d" by (simp add: b_def nat_le_iff)
    then have Bd: "of_nat b \<le> (10::rat) ^ digits_of d" by (metis of_nat_le_iff of_nat_numeral of_nat_power)
    have "(10::rat) ^ cx_prec cx = 10 powi (int (digits_of c - 1) - int (digits_of d) + sh)"
    proof -
      have "int (digits_of c - 1) - int (digits_of d) + sh = int (cx_prec cx)" using digits_of_pos [of c] by (cases "digits_of c") (simp_all add: sh_def)
      then show ?thesis by simp
    qed
    also have "\<dots> = 10 ^ (digits_of c - 1) / 10 ^ digits_of d * 10 powi sh"
      by (simp add: power_int_add power_int_diff)
    also have "\<dots> \<le> of_nat a / of_nat b * 10 powi sh"
      using A Bd ab by (intro mult_right_mono frac_le) auto
    finally show ?thesis by (simp only: M)
  qed
  have "0 \<le> M" by (simp add: M_def)
  then have ya: "\<bar>y\<bar> = M * 10 powi (e - f - sh)" using s1 by (simp add: y abs_mult)
  define q r where "q = N div B" and "r = N mod B"
  show ?thesis
  proof (cases "r = 0")
    case False
    define q' where "q' = (if q mod 5 = 0 then Suc q else q)"
    have val: "dec_quotient cx c e d f = dec_fix cx (s * int q') (e - f - sh)"
      using False by (cases "0 \<le> sh") (simp_all add: dec_quotient_def Let_def sh_def [symmetric] a_def [symmetric] b_def [symmetric] s_def [symmetric]
        q'_def q_def r_def N_def B_def)
    have "of_nat N = (of_nat q * of_nat B + of_nat r :: rat)" by (simp add: q_def r_def flip: of_nat_mult of_nat_add)
    then have "M = of_nat q + of_nat r / of_nat B" using B by (simp add: M_def field_simps)
    moreover have "0 \<le> (of_nat r / of_nat B :: rat)" "of_nat r / of_nat B \<le> (1::rat)"
      using B by (simp_all add: r_def less_imp_le)
    ultimately have "\<bar>of_nat q' - M\<bar> \<le> 1" by (auto simp: q'_def)
    moreover have "dval (Dec (s * int q') (e - f - sh)) - y = of_int s * (of_nat q' - M) * 10 powi (e - f - sh)"
      by (simp add: dval_Dec y algebra_simps)
    ultimately have "\<bar>dval (Dec (s * int q') (e - f - sh)) - y\<bar> \<le> 1 * 10 powi (e - f - sh)"
      using s1 by (simp add: abs_mult)
    also have "\<dots> \<le> unit_error cx / 10 * M * 10 powi (e - f - sh)"
    proof (rule mult_right_mono)
      have "1 = unit_error cx / 10 * 10 ^ cx_prec cx" using assms(1) by (cases "cx_prec cx") (simp_all add: unit_error_def)
      also have "\<dots> \<le> unit_error cx / 10 * M" using Mbig by (intro mult_left_mono) (auto simp: unit_error_def)
      finally show "1 \<le> unit_error cx / 10 * M" .
    qed simp
    finally have "10 * \<bar>dval (Dec (s * int q') (e - f - sh)) - y\<bar> \<le> unit_error cx * \<bar>y\<bar>" by (simp add: ya)
    from dec_fix_close [OF assms(1,2) this] show ?thesis by (simp add: val y_def)
  next
    case True
    obtain q' j where st: "strip_zeros (nat sh) q = (q', j)" by (rule prod.exhaust)
    have val: "dec_quotient cx c e d f = dec_fix cx (s * int q') (e - f - sh + int j)"
      using True st by (cases "0 \<le> sh") (simp_all add: dec_quotient_def Let_def sh_def [symmetric] a_def [symmetric] b_def [symmetric] s_def [symmetric]
        q_def r_def N_def B_def)
    have q: "q = q' * 10 ^ j" using strip_zeros_spec [OF st] by simp
    have "N = q * B" using True by (auto simp: q_def r_def)
    then have "M = of_nat q" using B by (simp add: M_def)
    then have "dval (Dec (s * int q' * 10 ^ j) (e - f - sh)) = y" by (simp add: dval_Dec y q)
    then have "dval (Dec (s * int q') (e - f - sh + int j)) = y" by (simp only: dval_scale)
    then show ?thesis using dec_fix_close [OF assms(1,2), of "s * int q'" "e - f - sh + int j" y] val
      by (simp add: y_def unit_error_def)
  qed
qed

text \<open>Rounding stays within the unit interval.\<close>

definition unit_dec :: "pydec \<Rightarrow> bool" where
  "unit_dec d \<longleftrightarrow> finite_dec d \<and> 0 \<le> dval d \<and> dval d \<le> 1"

lemma round_quot_le: "0 < d \<Longrightarrow> n \<le> M * int d \<Longrightarrow> round_quot m n d \<le> M"
proof -
  assume d: "0 < d" and n: "n \<le> M * int d"
  have "round_quot m n d * int d < n + int d" using round_quot_bound(1) [OF d, of m n] by linarith
  also have "\<dots> \<le> (M + 1) * int d" using n by (simp add: distrib_right)
  finally have "round_quot m n d < M + 1" by (rule mult_right_less_imp_less) simp
  then show ?thesis by simp
qed

lemma round_quot_nonneg: "0 \<le> n \<Longrightarrow> 0 \<le> round_quot m n d"
  unfolding round_quot_def Let_def by (intro mult_nonneg_nonneg) (auto simp: sgn_if)

lemma dec_fix_unit:
  assumes "unit_dec (Dec c e)" and "0 < cx_prec cx"
  shows "unit_dec (dec_fix cx c e)"
proof (cases "digits_of c \<le> cx_prec cx")
  case True
  then show ?thesis using assms(1) by (simp add: dec_fix_def)
next
  case False
  define k where "k = digits_of c - cx_prec cx"
  define r where "r = round_quot (cx_round cx) c (10 ^ k)"
  have c: "0 \<le> c" "of_int c * 10 powi e \<le> (1::rat)" using assms(1) linorder_not_le [of "(10::rat) powi e" 0] powi_pos [of e]
    by (auto simp: unit_dec_def dval_Dec zero_le_mult_iff)
  have c0: "c \<noteq> 0" using False assms(2) by (auto simp: digits_of_le not_le)
  have "10 ^ (digits_of c - 1) \<le> nat c" using ndigits_power [of "nat \<bar>c\<bar>"] c0 c(1) by (simp add: digits_of_def)
  then have "(10::rat) ^ (digits_of c - 1) \<le> of_int c" by (metis c(1) of_int_of_nat_eq of_nat_le_iff of_nat_numeral of_nat_power int_nat_eq)
  then have "(10::rat) ^ (digits_of c - 1) * 10 powi e \<le> 1" using c(2) mult_right_mono [of _ _ "10 powi e"] by (metis order_trans powi_pos less_imp_le)
  then have "(10::rat) powi (int (digits_of c - 1) + e) \<le> 10 powi 0" by (simp add: power_int_add)
  moreover have "(10::rat) powi 0 < 10 powi (int (digits_of c - 1) + e)" if "0 < int (digits_of c - 1) + e"
    using that by (rule power_int_strict_increasing) simp
  ultimately have "int (digits_of c - 1) + e \<le> 0" by (meson linorder_not_le)
  then have ek: "e + int k \<le> 0" using assms(2) False by (simp add: k_def)
  define m where "m = nat (- (e + int k))"
  have e: "e = - int (m + k)" using ek by (simp add: m_def)
  have "of_int c \<le> (of_int (10 ^ m * 10 ^ k) :: rat)" using c(2) unfolding e by (simp only: power_int_minus power_int_of_nat power_add) (simp add: field_simps)
  then have "c \<le> 10 ^ m * int (10 ^ k)" by (simp only: of_int_le_iff of_nat_power of_nat_numeral)
  then have r: "0 \<le> r" "r \<le> 10 ^ m" unfolding r_def using c(1) by (auto intro: round_quot_le round_quot_nonneg)
  have em: "e + int k = - int m" by (simp add: e)
  have "of_int r \<le> (of_int (10 ^ m) :: rat)" using r(2) by (simp only: of_int_le_iff)
  then have v: "dval (Dec r (e + int k)) \<le> 1" "0 \<le> dval (Dec r (e + int k))"
    unfolding em using r(1) by (simp_all add: dval_Dec power_int_minus field_simps)
  have "of_int (r div 10 * 10) \<le> (of_int r :: rat)" unfolding of_int_le_iff by linarith
  then have "of_int (r div 10 * 10) * 10 powi (e + int k) \<le> (of_int r :: rat) * 10 powi (e + int k)" by (rule mult_right_mono) simp
  moreover have "dval (Dec (r div 10) (e + int k + 1)) = of_int (r div 10 * 10) * 10 powi (e + int k)"
    by (simp add: dval_Dec power_int_add)
  ultimately have "dval (Dec (r div 10) (e + int k + 1)) \<le> dval (Dec r (e + int k))" by (simp only: dval_Dec)
  then have w: "dval (Dec (r div 10) (e + int k + 1)) \<le> 1" using v(1) by (rule order_trans)
  have "0 \<le> dval (Dec (r div 10) (e + int k + 1))" using r(1) by (simp add: dval_Dec pos_imp_zdiv_nonneg_iff)
  moreover have "dec_fix cx c e = (if cx_prec cx < digits_of r then Dec (r div 10) (e + int k + 1) else Dec r (e + int k))"
    using False by (simp add: dec_fix_def Let_def k_def r_def)
  ultimately show ?thesis using v w by (simp add: unit_dec_def finite_dec_def)
qed

lemma dec_mul_unit:
  assumes "unit_dec x" and "unit_dec y" and "0 < cx_prec cx"
  shows "\<exists>z. dec_mul cx x y = Some z \<and> unit_dec z"
proof -
  obtain c e d f where xy: "x = Dec c e" "y = Dec d f" using assms(1,2) by (auto simp: unit_dec_def finite_dec_def)
  have v: "dval (Dec (c * d) (e + f)) = dval x * dval y" by (simp add: xy dval_Dec power_int_add)
  have "unit_dec (Dec (c * d) (e + f))" using assms(1,2) unfolding unit_dec_def v by (simp add: finite_dec_def mult_le_one)
  from dec_fix_unit [OF this assms(3)] show ?thesis by (simp add: xy dec_mul_def)
qed

text \<open>Products and quotients within the error of the context.\<close>

lemma dec_mul_close:
  assumes "0 < cx_prec cx" and "cx_round cx = HalfEven"
  shows "\<exists>c' e'. dec_mul cx (Dec c e) (Dec d f) = Some (Dec c' e') \<and>
    2 * \<bar>dval (Dec c' e') - dval (Dec c e) * dval (Dec d f)\<bar> \<le> unit_error cx * \<bar>dval (Dec c e) * dval (Dec d f)\<bar>"
proof -
  have v: "dval (Dec (c * d) (e + f)) = dval (Dec c e) * dval (Dec d f)" by (simp add: dval_Dec power_int_add)
  from dec_fix_error [OF assms, of "c * d" "e + f"] show ?thesis unfolding v by (simp add: dec_mul_def)
qed

lemma dec_quantize_spec:
  assumes "dec_quantize prec HalfEven e (Dec c f) = Some y" and "0 < prec"
  shows "\<exists>k. y = Dec k e \<and> \<bar>k\<bar> < 10 ^ prec \<and> 2 * \<bar>dval y - dval (Dec c f)\<bar> \<le> 10 powi e \<and>
    (e \<le> f \<longrightarrow> dval y = dval (Dec c f))"
proof -
  obtain k where k: "rescale HalfEven e (Dec c f) = Dec k e" by (cases "e \<le> f") (auto simp: rescale_def)
  with assms have y: "y = Dec k e" and "digits_of k \<le> prec" by (auto simp: dec_quantize_def Let_def split: if_splits)
  then have d: "\<bar>k\<bar> < 10 ^ prec" using digits_of_le [OF assms(2)] by blast
  show ?thesis
  proof (cases "e \<le> f")
    case True
    then have "k = coef_at e (Dec c f)" using k by (simp add: rescale_def)
    then have "dval y = dval (Dec c f)" using dval_at [of e "Dec c f"] True by (simp add: y dval_Dec)
    then show ?thesis using y d by auto
  next
    case False
    define n where "n = nat (e - f)"
    have e: "e = f + int n" using False by (simp add: n_def)
    have "k = round_quot HalfEven c (10 ^ n)" using k False by (simp add: rescale_def n_def)
    then have "2 * \<bar>k * 10 ^ n - c\<bar> \<le> 10 ^ n" using round_quot_bound(2) [of "10 ^ n" HalfEven c] by simp
    then have "of_int (2 * \<bar>k * 10 ^ n - c\<bar>) \<le> (of_int (10 ^ n) :: rat)" by (simp only: of_int_le_iff)
    then have b: "of_int (2 * \<bar>k * 10 ^ n - c\<bar>) * 10 powi f \<le> (of_int (10 ^ n) :: rat) * 10 powi f"
      by (rule mult_right_mono) simp
    have "dval y - dval (Dec c f) = of_int (k * 10 ^ n - c) * 10 powi f"
      unfolding y e dval_scale [of k n f, symmetric] by (simp add: dval_Dec left_diff_distrib)
    then have "2 * \<bar>dval y - dval (Dec c f)\<bar> = of_int (2 * \<bar>k * 10 ^ n - c\<bar>) * 10 powi f" by (simp add: abs_mult)
    also have "\<dots> \<le> 10 powi e" using b by (simp add: e power_int_add mult.commute)
    finally show ?thesis using y d False by auto
  qed
qed

subsection \<open>The text of a number\<close>

text \<open>
  \<open>Decimal(text)\<close>: blanks around it, underscores anywhere, a sign, digits with a point, an exponent; or
  the words for the special values.
\<close>

definition dec_digit :: "char \<Rightarrow> bool" where
  "dec_digit ch \<longleftrightarrow> (let n = of_char ch :: nat in 48 \<le> n \<and> n \<le> 57)"

definition dec_blank :: "char \<Rightarrow> bool" where
  "dec_blank ch \<longleftrightarrow> (let n = of_char ch :: nat in n = 32 \<or> 9 \<le> n \<and> n \<le> 13 \<or> 28 \<le> n \<and> n \<le> 31)"

definition dec_lower :: "char \<Rightarrow> char" where
  "dec_lower ch = (let n = of_char ch :: nat in if 65 \<le> n \<and> n \<le> 90 then char_of (n + 32) else ch)"

definition dec_digits_value :: "string \<Rightarrow> int" where
  "dec_digits_value ds = foldl (\<lambda>a ch. a * 10 + (int (of_char ch) - 48)) 0 ds"

definition read_sign :: "string \<Rightarrow> int \<times> string" where
  "read_sign s = (case s of CHR ''-'' # t \<Rightarrow> (- 1, t) | CHR ''+'' # t \<Rightarrow> (1, t) | _ \<Rightarrow> (1, s))"

definition read_exponent :: "string \<Rightarrow> int option" where
  "read_exponent s =
     (case s of
        [] \<Rightarrow> Some 0
      | ch # t \<Rightarrow>
          if ch \<noteq> CHR ''e'' then None
          else (case read_sign t of (sg, ds) \<Rightarrow>
            if ds \<noteq> [] \<and> list_all dec_digit ds then Some (sg * dec_digits_value ds) else None))"

definition read_number :: "string \<Rightarrow> (int \<times> int) option" where
  "read_number s =
     (let whole = takeWhile dec_digit s; rest = dropWhile dec_digit s;
          (frac, tail) = (case rest of CHR ''.'' # t \<Rightarrow> (takeWhile dec_digit t, dropWhile dec_digit t) | _ \<Rightarrow> ([], rest))
      in if whole @ frac = [] then None
         else map_option (\<lambda>e. (dec_digits_value (whole @ frac), e - int (length frac))) (read_exponent tail))"

definition decimal_of_text :: "string \<Rightarrow> pydec option" where
  "decimal_of_text text =
     (let t = map dec_lower (filter (\<lambda>ch. ch \<noteq> CHR ''_'')
                (rev (dropWhile dec_blank (rev (dropWhile dec_blank text)))));
          (sg, body) = read_sign t
      in if body \<in> {''inf'', ''infinity''} then Some (DInf (sg < 0))
         else if take 3 body = ''nan'' \<and> list_all dec_digit (drop 3 body)
              \<or> take 4 body = ''snan'' \<and> list_all dec_digit (drop 4 body) then Some DNaN
         else map_option (\<lambda>(c, e). Dec (sg * c) e) (read_number body))"

lemma decimal_text_examples:
  "decimal_of_text '' -12.50 '' = Some (Dec (- 1250) (- 2))" "decimal_of_text ''1e5'' = Some (Dec 1 5)"
  "decimal_of_text ''.'' = None" "decimal_of_text ''-Infinity'' = Some (DInf True)" "decimal_of_text ''1.2.3'' = None"
  by code_simp+

end
