(* ===== verification/DecimalGuards.thy ===== *)
theory DecimalGuards
  imports PyDecimal
begin

text \<open>
  The precision guards of amounts (\<open>utils/decimal_guards.py\<close>): validation at the ingestion boundary, the
  class \<open>DecimalAmount\<close> with its arithmetic, the conversion to Stellar's stroops, and sums. Every
  operation takes the decimal context in force, which \<open>decimal_context\<close> changes.

  A float is given by its \<open>str\<close>, through which the code converts it; warnings are left out, and so is
  \<open>__pow__\<close>.
\<close>

subsection \<open>Validation\<close>

datatype amount_input = InText string | InInt int | InFloat string | InDecimal pydec | InOther

datatype amount_error =
    NotADecimal | NaNAmount | InfiniteAmount | NegativeAmount | BelowMinimum | AboveMaximum
  | TooManyPlaces | FractionalStroops | StroopsRange amount_error | StroopsNotInteger | PrecisionLoss
  | InvalidOperation | DivideByZero | ExponentType

definition to_pydec :: "amount_input \<Rightarrow> pydec option" where
  "to_pydec v = (case v of InText s \<Rightarrow> decimal_of_text s | InInt i \<Rightarrow> Some (Dec i 0)
     | InFloat s \<Rightarrow> decimal_of_text s | InDecimal d \<Rightarrow> Some d | InOther \<Rightarrow> None)"

definition less_dec :: "pydec \<Rightarrow> pydec \<Rightarrow> bool" where
  "less_dec x y \<longleftrightarrow> dec_less x y = Some True"

definition validate_amount ::
  "amount_input \<Rightarrow> pydec option \<Rightarrow> pydec option \<Rightarrow> bool \<Rightarrow> amount_error + pydec" where
  "validate_amount value min_value max_value allow_negative =
     (case to_pydec value of
        None \<Rightarrow> Inl NotADecimal
      | Some DNaN \<Rightarrow> Inl NaNAmount
      | Some (DInf s) \<Rightarrow> Inl InfiniteAmount
      | Some d \<Rightarrow>
          if \<not> allow_negative \<and> less_dec d (Dec 0 0) then Inl NegativeAmount
          else if (case min_value of Some lo \<Rightarrow> less_dec d lo | None \<Rightarrow> False) then Inl BelowMinimum
          else if (case max_value of Some hi \<Rightarrow> less_dec hi d | None \<Rightarrow> False) then Inl AboveMaximum
          else Inr d)"

abbreviation stellar_precision :: int where
  "stellar_precision \<equiv> 7"

definition stroops_multiplier :: pydec where
  "stroops_multiplier = Dec 10000000 0"

definition stellar_max :: pydec where
  "stellar_max = Dec 9223372036854775807 (- 7)"

definition stellar_min :: pydec where
  "stellar_min = Dec (- 9223372036854775807) (- 7)"

definition is_float :: "amount_input \<Rightarrow> bool" where
  "is_float v \<longleftrightarrow> (case v of InFloat _ \<Rightarrow> True | _ \<Rightarrow> False)"

definition validate_stellar_amount :: "dctx \<Rightarrow> amount_input \<Rightarrow> amount_error + pydec" where
  "validate_stellar_amount cx value =
     (case validate_amount value (Some stellar_min) (Some stellar_max) True of
        Inl e \<Rightarrow> Inl e
      | Inr d \<Rightarrow>
          (case (if is_float value then dec_quantize (cx_prec cx) HalfEven (- stellar_precision) d else Some d) of
             None \<Rightarrow> Inl InvalidOperation
           | Some d' \<Rightarrow> if expo d' < - stellar_precision then Inl TooManyPlaces else Inr d'))"

subsection \<open>\<open>DecimalAmount\<close>\<close>

text \<open>The constructor; a float is not validated.\<close>

definition decimal_amount :: "amount_input \<Rightarrow> amount_error + pydec" where
  "decimal_amount v =
     (case v of
        InFloat s \<Rightarrow> (case decimal_of_text s of None \<Rightarrow> Inl InvalidOperation | Some d \<Rightarrow> Inr d)
      | _ \<Rightarrow> validate_amount v None None True)"

text \<open>A result of the decimal arithmetic made into an amount again.\<close>

definition amount_of :: "pydec option \<Rightarrow> amount_error + pydec" where
  "amount_of r = (case r of None \<Rightarrow> Inl InvalidOperation | Some d \<Rightarrow> decimal_amount (InDecimal d))"

definition amount_add :: "dctx \<Rightarrow> pydec \<Rightarrow> pydec \<Rightarrow> amount_error + pydec" where
  "amount_add cx a b = amount_of (dec_add cx a b)"

definition amount_sub :: "dctx \<Rightarrow> pydec \<Rightarrow> pydec \<Rightarrow> amount_error + pydec" where
  "amount_sub cx a b = amount_of (dec_sub cx a b)"

definition amount_mul :: "dctx \<Rightarrow> pydec \<Rightarrow> pydec \<Rightarrow> amount_error + pydec" where
  "amount_mul cx a b = amount_of (dec_mul cx a b)"

definition amount_div :: "dctx \<Rightarrow> pydec \<Rightarrow> pydec \<Rightarrow> amount_error + pydec" where
  "amount_div cx a b = (if dec_eq b (Dec 0 0) then Inl DivideByZero else amount_of (dec_div cx a b))"

definition amount_floordiv :: "dctx \<Rightarrow> pydec \<Rightarrow> pydec \<Rightarrow> amount_error + pydec" where
  "amount_floordiv cx a b = (if dec_eq b (Dec 0 0) then Inl DivideByZero else amount_of (dec_floordiv cx a b))"

definition amount_mod :: "dctx \<Rightarrow> pydec \<Rightarrow> pydec \<Rightarrow> amount_error + pydec" where
  "amount_mod cx a b = (if dec_eq b (Dec 0 0) then Inl DivideByZero else amount_of (dec_mod cx a b))"

definition amount_neg :: "dctx \<Rightarrow> pydec \<Rightarrow> amount_error + pydec" where
  "amount_neg cx a = amount_of (Some (dec_neg cx a))"

definition amount_abs :: "dctx \<Rightarrow> pydec \<Rightarrow> amount_error + pydec" where
  "amount_abs cx a = amount_of (Some (dec_abs cx a))"

definition amount_round :: "dctx \<Rightarrow> int \<Rightarrow> pydec \<Rightarrow> amount_error + pydec" where
  "amount_round cx places a = amount_of (dec_quantize (cx_prec cx) HalfEven (- places) a)"

text \<open>The exponent of a special value is a letter, which does not compare with a number.\<close>

definition to_stroops :: "dctx \<Rightarrow> pydec \<Rightarrow> amount_error + int" where
  "to_stroops cx a =
     (case validate_stellar_amount cx (InDecimal a) of
        Inl e \<Rightarrow> (case a of Dec c ex \<Rightarrow> if ex < - stellar_precision then Inl FractionalStroops else Inl (StroopsRange e)
                  | _ \<Rightarrow> Inl ExponentType)
      | Inr _ \<Rightarrow>
          (case dec_mul cx a stroops_multiplier of
             None \<Rightarrow> Inl InvalidOperation
           | Some p \<Rightarrow>
               (case dec_int_of p of
                  None \<Rightarrow> Inl InvalidOperation
                | Some n \<Rightarrow> if dec_eq (Dec n 0) p then Inr n else Inl PrecisionLoss)))"

definition from_stroops :: "dctx \<Rightarrow> amount_input \<Rightarrow> amount_error + pydec" where
  "from_stroops cx v =
     (case v of
        InInt n \<Rightarrow>
          (case dec_div cx (Dec n 0) stroops_multiplier of
             None \<Rightarrow> Inl InvalidOperation
           | Some d \<Rightarrow>
               (case validate_stellar_amount cx (InDecimal d) of
                  Inl e \<Rightarrow> Inl (StroopsRange e)
                | Inr _ \<Rightarrow> decimal_amount (InDecimal d)))
      | _ \<Rightarrow> Inl StroopsNotInteger)"

definition is_zero :: "pydec \<Rightarrow> bool" where
  "is_zero a \<longleftrightarrow> dec_eq a (Dec 0 0)"

definition safe_divide :: "dctx \<Rightarrow> amount_input \<Rightarrow> amount_input \<Rightarrow> amount_input option \<Rightarrow> amount_error + pydec" where
  "safe_divide cx numerator denominator dflt =
     (case decimal_amount numerator of Inl e \<Rightarrow> Inl e
      | Inr n \<Rightarrow>
          (case decimal_amount denominator of Inl e \<Rightarrow> Inl e
           | Inr d \<Rightarrow>
               if is_zero d then (case dflt of None \<Rightarrow> decimal_amount (InText ''0'') | Some v \<Rightarrow> decimal_amount v)
               else amount_div cx n d))"

fun sum_from :: "dctx \<Rightarrow> pydec \<Rightarrow> amount_input list \<Rightarrow> amount_error + pydec" where
  "sum_from cx acc [] = Inr acc"
| "sum_from cx acc (v # vs) =
     (case decimal_amount v of Inl e \<Rightarrow> Inl e
      | Inr a \<Rightarrow> (case amount_add cx acc a of Inl e \<Rightarrow> Inl e | Inr t \<Rightarrow> sum_from cx t vs))"

definition sum_amounts :: "dctx \<Rightarrow> amount_input list \<Rightarrow> amount_error + pydec" where
  "sum_amounts cx vs = sum_from cx (Dec 0 0) vs"

text \<open>A float of exact value \<open>q\<close> is first written with two extra digits; \<open>None\<close> is NaN or an infinity.\<close>

definition safe_float_to_decimal :: "dctx \<Rightarrow> rat option \<Rightarrow> bool \<Rightarrow> nat \<Rightarrow> amount_error + pydec" where
  "safe_float_to_decimal cx value is_nan precision =
     (let d = (case value of
                 Some q \<Rightarrow> (case quotient_of q of (n, m) \<Rightarrow>
                   Dec (round_quot HalfEven (n * 10 ^ (precision + 2)) (nat m)) (- int (precision + 2)))
               | None \<Rightarrow> if is_nan then DNaN else DInf False)
      in case dec_quantize (cx_prec cx) HalfEven (- int precision) d of None \<Rightarrow> Inl InvalidOperation | Some r \<Rightarrow> Inr r)"

definition check_precision_loss :: "dctx \<Rightarrow> amount_input \<Rightarrow> pydec \<Rightarrow> pydec \<Rightarrow> bool option" where
  "check_precision_loss cx original converted tolerance = (case to_pydec original of
     None \<Rightarrow> None
   | Some d \<Rightarrow> (case dec_sub cx d converted of None \<Rightarrow> None
       | Some diff \<Rightarrow> map_option Not (dec_less tolerance (dec_abs cx diff))))"


subsection \<open>Validation, as a predicate\<close>

lemma validate_amount_Dec:
  "validate_amount (InDecimal (Dec c e)) None None True = Inr (Dec c e)"
  by (simp add: validate_amount_def to_pydec_def)

lemma decimal_amount_Dec [simp]: "decimal_amount (InDecimal (Dec c e)) = Inr (Dec c e)"
  by (simp add: decimal_amount_def validate_amount_Dec)

text \<open>The amounts the Stellar network can hold, but for the least one.\<close>

definition stellar_amount :: "pydec \<Rightarrow> bool" where
  "stellar_amount d \<longleftrightarrow> finite_dec d \<and> - stellar_precision \<le> expo d \<and> \<bar>dval d\<bar> * 10 ^ 7 \<le> 2 ^ 63 - 1"

lemma stellar_bounds:
  "dval stellar_max * 10 ^ 7 = 2 ^ 63 - 1" "dval stellar_min * 10 ^ 7 = - (2 ^ 63 - 1)"
  by (simp_all add: stellar_max_def stellar_min_def dval_Dec power_int_minus)

lemma less_dec_iff: "less_dec (Dec c e) (Dec d f) \<longleftrightarrow> dval (Dec c e) < dval (Dec d f)"
  by (simp only: less_dec_def dec_less_iff option.inject eq_True)

lemma stellar_range:
  "less_dec (Dec c e) stellar_min \<longleftrightarrow> dval (Dec c e) * 10 ^ 7 < - (2 ^ 63 - 1)"
  "less_dec stellar_max (Dec c e) \<longleftrightarrow> 2 ^ 63 - 1 < dval (Dec c e) * 10 ^ 7"
proof -
  have s: "x < y \<longleftrightarrow> x * 10 ^ 7 < y * 10 ^ 7" for x y :: rat by simp
  show "less_dec (Dec c e) stellar_min \<longleftrightarrow> dval (Dec c e) * 10 ^ 7 < - (2 ^ 63 - 1)"
    unfolding stellar_min_def less_dec_iff unfolding s [of "dval (Dec c e)"]
    by (simp only: stellar_bounds(2) [unfolded stellar_min_def])
  show "less_dec stellar_max (Dec c e) \<longleftrightarrow> 2 ^ 63 - 1 < dval (Dec c e) * 10 ^ 7"
    unfolding stellar_max_def less_dec_iff unfolding s [of _ "dval (Dec c e)"]
    by (simp only: stellar_bounds(1) [unfolded stellar_max_def])
qed

lemma validate_stellar_Dec:
  "validate_stellar_amount cx (InDecimal (Dec c e)) =
     (if dval (Dec c e) * 10 ^ 7 < - (2 ^ 63 - 1) then Inl BelowMinimum
      else if 2 ^ 63 - 1 < dval (Dec c e) * 10 ^ 7 then Inl AboveMaximum
      else if e < - stellar_precision then Inl TooManyPlaces else Inr (Dec c e))"
  unfolding validate_stellar_amount_def validate_amount_def to_pydec_def
  by (simp only: amount_input.case option.case pydec.case stellar_range is_float_def split: if_splits) simp

lemma stellar_amount_valid:
  "stellar_amount (Dec c e) \<longleftrightarrow> validate_stellar_amount cx (InDecimal (Dec c e)) = Inr (Dec c e)"
proof -
  have a: "\<bar>x\<bar> \<le> M \<longleftrightarrow> \<not> x < - M \<and> \<not> M < x" for x M :: rat by linarith
  have "\<bar>dval (Dec c e)\<bar> * 10 ^ 7 = \<bar>dval (Dec c e) * 10 ^ 7\<bar>" by (simp add: abs_mult)
  then show ?thesis unfolding stellar_amount_def validate_stellar_Dec finite_dec_def
    by (simp only: a) (simp split: if_splits)
qed

subsection \<open>Stroops\<close>

lemma scaled_value:
  assumes "- 7 \<le> e"
  shows "dval (Dec c e) * 10 ^ 7 = of_int (shift_dec c (e + 7))"
proof -
  have "dval (Dec c e) * 10 ^ 7 = dval (Dec (c * 10 ^ 7) e)" by (simp add: dval_Dec)
  also have "\<dots> = dval (Dec c (0 + (e + 7)))" using dval_scale [of c 7 e] by (simp add: add.commute)
  also have "\<dots> = of_int (shift_dec c (e + 7))" using assms by (subst dval_shift [symmetric]) (simp_all add: dval_Dec)
  finally show ?thesis .
qed

lemma shift_grows: "\<bar>c\<bar> \<le> \<bar>shift_dec c k\<bar>"
proof -
  have "\<bar>c\<bar> * 1 \<le> \<bar>c\<bar> * 10 ^ nat k" by (intro mult_left_mono) auto
  then show ?thesis by (simp add: shift_dec_def abs_mult)
qed

text \<open>Ten million times a coefficient at seven places is whole, rounded or not.\<close>

lemma scaled_whole:
  assumes "- 7 \<le> e" and "0 < cx_prec cx"
  shows "\<exists>c' e' n. dec_fix cx (c * 10 ^ 7) e = Dec c' e' \<and> dval (Dec c' e') = of_int n"
proof (cases "digits_of (c * 10 ^ 7) \<le> cx_prec cx + 7 \<or> c = 0")
  case True
  have n: "dval (Dec (c * 10 ^ 7) e) = of_int (shift_dec c (e + 7))"
    using scaled_value [OF assms(1), of c] by (simp add: dval_Dec)
  have "\<bar>c\<bar> < 10 ^ cx_prec cx"
  proof (cases "c = 0")
    case False
    then have "digits_of c \<le> cx_prec cx" using True digits_of_scale [of c 7] by simp
    then show ?thesis using digits_of_le assms(2) by blast
  qed simp
  from dec_fix_zeros [OF assms(2) this, of 7 e] n show ?thesis by metis
next
  case False
  define k where "k = digits_of (c * 10 ^ 7) - cx_prec cx"
  have k: "7 < k" "\<not> digits_of (c * 10 ^ 7) \<le> cx_prec cx" using False unfolding k_def by linarith+
  define r where "r = round_quot (cx_round cx) (c * 10 ^ 7) (10 ^ k)"
  have f: "dec_fix cx (c * 10 ^ 7) e = (if cx_prec cx < digits_of r then Dec (r div 10) (e + int k + 1) else Dec r (e + int k))"
    using k(2) by (simp only: dec_fix_def Let_def k_def [symmetric] r_def [symmetric] if_False)
  have w: "dval (Dec m i) = of_int (shift_dec m i)" if "0 \<le> i" for m i
    using that dval_shift [of i m 0] by (simp add: dval_Dec)
  show ?thesis unfolding f using w [of "e + int k + 1" "r div 10"] w [of "e + int k" r] k(1) assms(1) by auto
qed

text \<open>\<open>int\<close> of a whole number is that number.\<close>

lemma dec_int_whole:
  assumes "dval (Dec c e) = of_int n"
  shows "dec_int_of (Dec c e) = Some n"
proof (cases "0 \<le> e")
  case True
  then have "of_int (shift_dec c e) = (of_int n :: rat)"
    using assms dval_shift [of e c 0] by (simp add: dval_Dec)
  then show ?thesis using True by simp
next
  case False
  define k where "k = nat (- e)"
  have e: "e = - int k" using False by (simp add: k_def)
  have "of_int c = (of_int (n * 10 ^ k) :: rat)" using assms by (simp add: dval_Dec e power_int_minus field_simps)
  then have c: "c = n * 10 ^ k" by (simp only: of_int_eq_iff)
  have "sgn c * (\<bar>c\<bar> div 10 ^ k) = n" by (simp add: c abs_mult sgn_mult mult.commute [of _ "10 ^ k"] sgn_mult_abs)
  then show ?thesis using False by (simp add: k_def)
qed

lemma to_stroops_Dec:
  assumes "stellar_amount (Dec c e)"
  shows "to_stroops cx (Dec c e) =
    (case dec_int_of (dec_fix cx (c * 10 ^ 7) e) of None \<Rightarrow> Inl InvalidOperation
     | Some n \<Rightarrow> if dec_eq (Dec n 0) (dec_fix cx (c * 10 ^ 7) e) then Inr n else Inl PrecisionLoss)"
proof -
  have "dec_mul cx (Dec c e) stroops_multiplier = Some (dec_fix cx (c * 10 ^ 7) e)"
    by (simp add: dec_mul_def stroops_multiplier_def)
  then show ?thesis using assms unfolding stellar_amount_valid [of c e cx] to_stroops_def
    by (simp only: sum.case option.case)
qed

lemma to_stroops_whole:
  assumes "stellar_amount (Dec c e)" and "0 < cx_prec cx" and "dec_fix cx (c * 10 ^ 7) e = Dec c' e'" and "dval (Dec c' e') = of_int n"
  shows "to_stroops cx (Dec c e) = Inr n"
proof -
  have "dec_eq (Dec n 0) (Dec c' e')" unfolding dec_eq_iff using assms(4) by (simp add: dval_Dec)
  then show ?thesis by (simp only: to_stroops_Dec [OF assms(1)] assms(3) dec_int_whole [OF assms(4)] option.case if_True)
qed

lemma stroops_value:
  assumes "stellar_amount a" and "19 \<le> cx_prec cx"
  shows "\<exists>n. to_stroops cx a = Inr n \<and> of_int n = dval a * 10 ^ 7"
proof -
  obtain c e where a: "a = Dec c e" using assms(1) by (auto simp: stellar_amount_def finite_dec_def)
  have e: "- 7 \<le> e" and v: "\<bar>dval (Dec c e)\<bar> * 10 ^ 7 \<le> 2 ^ 63 - 1" using assms(1) by (auto simp: a stellar_amount_def)
  have val: "dval (Dec (c * 10 ^ 7) e) = dval (Dec c e) * 10 ^ 7" by (simp add: dval_Dec)
  note whole = scaled_value [OF e, of c]
  have "\<bar>of_int (shift_dec c (e + 7))\<bar> \<le> (2 ^ 63 - 1 :: rat)" using v unfolding whole [symmetric] by (simp add: abs_mult)
  then have "of_int \<bar>shift_dec c (e + 7)\<bar> \<le> (of_int (2 ^ 63 - 1) :: rat)" by simp
  then have s: "\<bar>shift_dec c (e + 7)\<bar> \<le> 2 ^ 63 - 1" by (simp only: of_int_le_iff)
  then have "\<bar>c\<bar> < 10 ^ 19" using shift_grows [of c "e + 7"] by simp
  also have "(10::int) ^ 19 \<le> 10 ^ cx_prec cx" using assms(2) by (intro power_increasing) auto
  finally have c: "\<bar>c\<bar> < 10 ^ cx_prec cx" .
  have p: "0 < cx_prec cx" using assms(2) by simp
  from dec_fix_zeros [OF p c, of 7 e] obtain c' e' where
    f: "dec_fix cx (c * 10 ^ 7) e = Dec c' e'" "dval (Dec c' e') = of_int (shift_dec c (e + 7))"
    unfolding val whole by auto
  from to_stroops_whole [OF _ p f] assms(1) show ?thesis unfolding a whole by blast
qed

text \<open>
  Every amount with at most seven places inside the 64-bit range converts to exactly ten million times its value,
  in every context of at least nineteen digits.\<close>

theorem stroops_exact:
  assumes "stellar_amount a" and "19 \<le> cx_prec cx"
  shows "\<exists>n. to_stroops cx a = Inr n \<and> of_int n = dval a * 10 ^ 7"
  using assms by (rule stroops_value)

lemma stroops_exact_witness:
  "\<exists>n. to_stroops std_ctx (Dec 1005 (- 1)) = Inr n \<and> of_int n = dval (Dec 1005 (- 1)) * 10 ^ 7"
  by (rule stroops_exact) (simp_all add: stellar_amount_def finite_dec_def dval_Dec power_int_minus std_ctx_def)

text \<open>
  C36. Stroops to an amount and back is the identity, over the whole range but its least value.\<close>

theorem stroops_round_trip:
  assumes "\<bar>n\<bar> \<le> 2 ^ 63 - 1" and "19 \<le> cx_prec cx"
  shows "\<exists>a. from_stroops cx (InInt n) = Inr a \<and> dval a = of_int n / 10 ^ 7 \<and> to_stroops cx a = Inr n"
proof -
  have "\<bar>n\<bar> < 10 ^ 19" using assms(1) by simp
  also have "(10::int) ^ 19 \<le> 10 ^ cx_prec cx" using assms(2) by (intro power_increasing) auto
  finally have n: "\<bar>n\<bar> < 10 ^ cx_prec cx" .
  have p: "0 < cx_prec cx" using assms(2) by simp
  from dec_div_pow10 [OF p n, of 7] obtain c e where
    d: "dec_div cx (Dec n 0) stroops_multiplier = Some (Dec c e)" "dval (Dec c e) = of_int n / 10 ^ 7" "- 7 \<le> e"
    by (auto simp: stroops_multiplier_def)
  have "\<bar>of_int n\<bar> \<le> (of_int (2 ^ 63 - 1) :: rat)" using assms(1) by linarith
  then have sa: "stellar_amount (Dec c e)" using d(2,3) by (simp add: stellar_amount_def finite_dec_def)
  have fs: "from_stroops cx (InInt n) = Inr (Dec c e)"
    using sa unfolding stellar_amount_valid [of c e cx] by (simp add: from_stroops_def d(1))
  from scaled_whole [OF d(3) p, of c] obtain c' e' m where
    f: "dec_fix cx (c * 10 ^ 7) e = Dec c' e'" "dval (Dec c' e') = of_int m" by blast
  have "\<bar>c\<bar> < 10 ^ cx_prec cx"
  proof -
    have "of_int n = (of_int (shift_dec c (e + 7)) :: rat)" using d(2) scaled_value [OF d(3), of c] by simp
    then have "n = shift_dec c (e + 7)" by (simp only: of_int_eq_iff)
    then show ?thesis using n shift_grows [of c "e + 7"] by simp
  qed
  from dec_fix_zeros [OF p this, of 7 e] have "dval (Dec c' e') = dval (Dec c e) * 10 ^ 7"
    unfolding f(1) by (auto simp: dval_Dec)
  then have "m = n" using f(2) d(2) by simp
  then show ?thesis using fs d(2) to_stroops_whole [OF sa p f] by auto
qed

lemma stroops_round_trip_witness:
  "\<exists>a. from_stroops std_ctx (InInt 1005000000) = Inr a \<and> dval a = of_int 1005000000 / 10 ^ 7 \<and> to_stroops std_ctx a = Inr 1005000000"
  by (rule stroops_round_trip) (simp_all add: std_ctx_def)

text \<open>The least 64-bit number of stroops, in the documented range, is refused.\<close>

lemma least_stroops_refused: "from_stroops std_ctx (InInt (- (2 ^ 63))) = Inl (StroopsRange BelowMinimum)"
  by
   (simp add: from_stroops_def to_stroops_def stroops_multiplier_def dec_mul_def dec_div_def dec_quotient_def dec_fix_def digits_of_def ndigits.simps std_ctx_def validate_stellar_Dec dval_Dec power_int_minus Let_def round_quot_def round_up_def coef_at_def shift_dec_def)

text \<open>The documented result \<open>100.5000000\<close> is \<open>100.5\<close>.\<close>

lemma from_stroops_strips: "from_stroops std_ctx (InInt 1005000000) = Inr (Dec 1005 (- 1))"
  by
   (simp add: from_stroops_def to_stroops_def stroops_multiplier_def dec_mul_def dec_div_def dec_quotient_def dec_fix_def digits_of_def ndigits.simps std_ctx_def validate_stellar_Dec dval_Dec power_int_minus Let_def round_quot_def round_up_def coef_at_def shift_dec_def)

text \<open>
  The check for a loss of precision at the end of the conversion never fails: in every context a
  valid amount converts to some number.\<close>

theorem precision_loss_undetected:
  assumes "stellar_amount a" and "0 < cx_prec cx"
  shows "\<exists>n. to_stroops cx a = Inr n"
proof -
  obtain c e where a: "a = Dec c e" using assms(1) by (auto simp: stellar_amount_def finite_dec_def)
  have e: "- 7 \<le> e" using assms(1) by (simp add: a stellar_amount_def)
  from scaled_whole [OF e assms(2), of c] obtain c' e' n where
    "dec_fix cx (c * 10 ^ 7) e = Dec c' e'" "dval (Dec c' e') = of_int n" by blast
  from to_stroops_whole [OF _ assms(2) this] assms(1) show ?thesis by (auto simp: a)
qed

text \<open>With a precision of ten, as in the documentation's example, the number is not the amount's.\<close>

lemma precision_loss_undetected_witness:
  "(\<exists>n. to_stroops (std_ctx\<lparr>cx_prec := 10\<rparr>) (Dec 123456789015 (- 1)) = Inr n) \<and>
   to_stroops (std_ctx\<lparr>cx_prec := 10\<rparr>) (Dec 123456789015 (- 1)) = Inr 123456789000000000"
proof
  show "\<exists>n. to_stroops (std_ctx\<lparr>cx_prec := 10\<rparr>) (Dec 123456789015 (- 1)) = Inr n"
    by (rule precision_loss_undetected)
      (simp_all add: stellar_amount_def finite_dec_def dval_Dec power_int_minus std_ctx_def)
qed (simp add: from_stroops_def to_stroops_def stroops_multiplier_def dec_mul_def dec_div_def dec_quotient_def dec_fix_def digits_of_def ndigits.simps std_ctx_def validate_stellar_Dec dval_Dec power_int_minus Let_def round_quot_def round_up_def coef_at_def shift_dec_def)

subsection \<open>Sums\<close>

definition at_places :: "nat \<Rightarrow> pydec \<Rightarrow> bool" where
  "at_places p d \<longleftrightarrow> finite_dec d \<and> - int p \<le> expo d"

text \<open>An exact sum of two numbers with at most \<open>p\<close> places.\<close>

lemma dec_add_exact:
  assumes "at_places p x" and "at_places p y" and "\<bar>dval x + dval y\<bar> * 10 ^ p < 10 ^ cx_prec cx" and "0 < cx_prec cx"
  shows "\<exists>z. dec_add cx x y = Some z \<and> at_places p z \<and> dval z = dval x + dval y"
proof -
  obtain c e d f where xy: "x = Dec c e" "y = Dec d f" using assms(1,2) by (auto simp: at_places_def finite_dec_def)
  define m where "m = min e f"
  have m: "- int p \<le> m" "m \<le> e" "m \<le> f" using assms(1,2) by (auto simp: xy at_places_def m_def)
  define s where "s = coef_at m x + coef_at m y"
  have v: "dval (Dec s m) = dval x + dval y" unfolding s_def using m by (intro dval_add_at) (simp_all add: xy)
  define k where "k = nat (m + int p)"
  have k: "m = - int p + int k" using m(1) by (simp add: k_def)
  have "dval x + dval y = of_int (s * 10 ^ k) / 10 ^ p" unfolding v [symmetric] k dval_scale [symmetric]
    by (simp add: dval_Dec power_int_minus field_simps)
  then have "\<bar>of_int (s * 10 ^ k)\<bar> < (10 ^ cx_prec cx :: rat)" using assms(3) by (simp add: abs_mult)
  then have "of_int \<bar>s * 10 ^ k\<bar> < (of_int (10 ^ cx_prec cx) :: rat)" by simp
  then have "\<bar>s * 10 ^ k\<bar> < 10 ^ cx_prec cx" by (simp only: of_int_less_iff)
  then have "\<bar>s\<bar> < 10 ^ cx_prec cx" using shift_grows [of s "int k"] by (simp add: shift_dec_def)
  from dec_fix_fits [OF assms(4) this] have "dec_add cx x y = Some (Dec s m)"
    by (simp add: xy dec_add_Dec s_def m_def)
  then show ?thesis using m v by (simp add: at_places_def finite_dec_def)
qed

lemma amount_of_places: "at_places p z \<Longrightarrow> amount_of (Some z) = Inr z"
  by (auto simp: amount_of_def at_places_def finite_dec_def)

lemma sum_from_exact:
  "at_places p acc \<Longrightarrow> \<forall>d\<in>set ds. at_places p d \<Longrightarrow> 0 < cx_prec cx \<Longrightarrow>
   (\<bar>dval acc\<bar> + (\<Sum>d\<leftarrow>ds. \<bar>dval d\<bar>)) * 10 ^ p < 10 ^ cx_prec cx \<Longrightarrow>
   \<exists>t. sum_from cx acc (map InDecimal ds) = Inr t \<and> at_places p t \<and> dval t = dval acc + (\<Sum>d\<leftarrow>ds. dval d)"
proof (induction ds arbitrary: acc)
  case (Cons d ds)
  define rest where "rest = (\<Sum>d\<leftarrow>ds. \<bar>dval d\<bar>)"
  have rest: "0 \<le> rest" unfolding rest_def by (rule sum_list_nonneg) auto
  have "\<bar>dval acc + dval d\<bar> \<le> \<bar>dval acc\<bar> + (\<bar>dval d\<bar> + rest)" using rest by linarith
  then have "\<bar>dval acc + dval d\<bar> * 10 ^ p \<le> (\<bar>dval acc\<bar> + (\<bar>dval d\<bar> + rest)) * 10 ^ p" by (rule mult_right_mono) simp
  also have "\<dots> < 10 ^ cx_prec cx" using Cons.prems(4) by (simp add: rest_def)
  finally obtain z where z: "dec_add cx acc d = Some z" "at_places p z" "dval z = dval acc + dval d"
    using dec_add_exact [of p acc d cx] Cons.prems by auto
  have "\<bar>dval z\<bar> + rest \<le> \<bar>dval acc\<bar> + (\<bar>dval d\<bar> + rest)" unfolding z(3) by linarith
  then have "(\<bar>dval z\<bar> + rest) * 10 ^ p \<le> (\<bar>dval acc\<bar> + (\<bar>dval d\<bar> + rest)) * 10 ^ p" by (rule mult_right_mono) simp
  also have "\<dots> < 10 ^ cx_prec cx" using Cons.prems(4) by (simp add: rest_def)
  finally obtain t where t: "sum_from cx z (map InDecimal ds) = Inr t" "at_places p t" "dval t = dval z + (\<Sum>d\<leftarrow>ds. dval d)"
    using Cons.IH [OF z(2)] Cons.prems(2,3) by (auto simp: rest_def)
  obtain c e where "d = Dec c e" using Cons.prems(2) by (auto simp: at_places_def finite_dec_def)
  then have "decimal_amount (InDecimal d) = Inr d" by simp
  moreover have "amount_add cx acc d = Inr z" by (simp add: amount_add_def z(1) amount_of_places [OF z(2)])
  ultimately show ?case using t z(3) by simp
qed auto

text \<open>
  The sum of amounts with at most \<open>p\<close> places is exact, and so in any order, as long as the sum of
  their sizes in units of the last place has fewer digits than the precision.\<close>

theorem sum_exact:
  assumes "\<forall>d\<in>set ds. at_places p d" and "0 < cx_prec cx"
    and "(\<Sum>d\<leftarrow>ds. \<bar>dval d\<bar>) * 10 ^ p < 10 ^ cx_prec cx"
  shows "\<exists>t. sum_amounts cx (map InDecimal ds) = Inr t \<and> dval t = (\<Sum>d\<leftarrow>ds. dval d)"
proof -
  have "at_places p (Dec 0 0)" by (simp add: at_places_def finite_dec_def)
  from sum_from_exact [OF this assms(1,2)] assms(3) show ?thesis
    by (auto simp: sum_amounts_def dval_Dec)
qed

lemma sum_exact_witness:
  "\<exists>t. sum_amounts std_ctx (map InDecimal [Dec 10050 (- 2), Dec (- 2525) (- 2)]) = Inr t \<and>
    dval t = (\<Sum>d\<leftarrow>[Dec 10050 (- 2), Dec (- 2525) (- 2)]. dval d)"
  by (rule sum_exact [where p = 7]) (simp_all add: at_places_def finite_dec_def dval_Dec power_int_minus std_ctx_def)

text \<open>Beyond it the sum depends on the order.\<close>

lemma sum_order_matters:
  "sum_amounts std_ctx (map InDecimal [Dec 1 28, Dec 4 0, Dec (- 1) 28]) = Inr (Dec 0 1)"
  "sum_amounts std_ctx (map InDecimal [Dec 1 28, Dec (- 1) 28, Dec 4 0]) = Inr (Dec 4 0)"
  by (simp_all add: sum_amounts_def amount_add_def amount_of_def dec_add_Dec coef_at_def shift_dec_def dec_fix_def
      digits_of_def ndigits.simps std_ctx_def Let_def round_quot_def round_up_def)

subsection \<open>Rounding\<close>

lemma amount_round_spec:
  assumes "amount_round cx p (Dec c e) = Inr d" and "0 < cx_prec cx"
  shows "finite_dec d \<and> expo d = - p \<and> 2 * \<bar>dval d - dval (Dec c e)\<bar> \<le> 10 powi (- p) \<and>
    (- p \<le> e \<longrightarrow> dval d = dval (Dec c e))"
proof -
  obtain y where y: "dec_quantize (cx_prec cx) HalfEven (- p) (Dec c e) = Some y" "amount_of (Some y) = Inr d"
    using assms(1) by (cases "dec_quantize (cx_prec cx) HalfEven (- p) (Dec c e)") (auto simp: amount_round_def amount_of_def)
  from dec_quantize_spec [OF y(1) assms(2)] obtain k where
    k: "y = Dec k (- p)" "2 * \<bar>dval y - dval (Dec c e)\<bar> \<le> 10 powi (- p)" "- p \<le> e \<longrightarrow> dval y = dval (Dec c e)" by blast
  have "d = y" using y(2) by (simp add: amount_of_def k(1))
  then show ?thesis using k by (auto simp: finite_dec_def)
qed

text \<open>
  An amount rounded to seven places is within half a stroop of its value, and if it is still in range it
  always converts to the stroops nearest that value.\<close>

theorem rounded_amount_converts:
  assumes "amount_round cx 7 (Dec c e) = Inr d" and "\<bar>dval d\<bar> * 10 ^ 7 \<le> 2 ^ 63 - 1" and "19 \<le> cx_prec cx"
  shows "\<exists>n. to_stroops cx d = Inr n \<and> 2 * \<bar>of_int n - dval (Dec c e) * 10 ^ 7\<bar> \<le> 1"
proof -
  note r = amount_round_spec [OF assms(1)]
  have "stellar_amount d" using r assms(2,3) by (simp add: stellar_amount_def)
  from stroops_value [OF this assms(3)] obtain n where n: "to_stroops cx d = Inr n" "of_int n = dval d * 10 ^ 7" by blast
  have "2 * \<bar>dval d - dval (Dec c e)\<bar> * 10 ^ 7 \<le> 10 powi (- 7) * (10 ^ 7 :: rat)"
    using r assms(3) by (intro mult_right_mono) auto
  also have "\<dots> = 1" by (simp add: power_int_minus)
  finally have "2 * \<bar>(dval d - dval (Dec c e)) * 10 ^ 7\<bar> \<le> 1" by (simp only: abs_mult) simp
  then show ?thesis unfolding left_diff_distrib n(2) [symmetric] using n(1) by blast
qed

lemma rounded_amount_converts_witness:
  "\<exists>n. to_stroops std_ctx (Dec 1 (- 7)) = Inr n \<and> 2 * \<bar>of_int n - dval (Dec 128 (- 9)) * 10 ^ 7\<bar> \<le> 1"
  by (rule rounded_amount_converts)
    (simp_all add: amount_round_def dec_quantize_def rescale_def round_quot_def round_up_def Let_def std_ctx_def
      digits_of_def ndigits.simps amount_of_def dval_Dec power_int_minus)

subsection \<open>Amounts that are not numbers, and integer division\<close>

text \<open>The constructor accepts a float NaN or infinity, against its documentation, and so does the conversion of floats.\<close>

lemma float_nan_accepted:
  "decimal_amount (InFloat ''nan'') = Inr DNaN" "decimal_amount (InFloat ''inf'') = Inr (DInf False)"
  "safe_float_to_decimal std_ctx None True 7 = Inr DNaN"
  by code_simp+

lemma text_nan_refused: "decimal_amount (InText ''nan'') = Inl NaNAmount"
  by code_simp

text \<open>\<open>//\<close>, documented as floor division, truncates; the remainder then has the sign of the dividend.\<close>

lemma floor_division_truncates:
  "amount_floordiv std_ctx (Dec (- 7) 0) (Dec 2 0) = Inr (Dec (- 3) 0)"
  "amount_mod std_ctx (Dec (- 7) 0) (Dec 2 0) = Inr (Dec (- 1) 0)"
  by (simp_all add: amount_floordiv_def amount_mod_def dec_floordiv_def dec_mod_def dec_divmod_def coef_at_def shift_dec_def
      Let_def amount_of_def std_ctx_def dec_fix_def digits_of_def ndigits.simps)

subsection \<open>Division\<close>

text \<open>
  A quotient of finite amounts by a non-zero one is off by at most one unit of the precision, relatively;
  a zero divisor gives the default.\<close>

theorem safe_divide_close:
  assumes "decimal_amount num = Inr (Dec c e)" and "decimal_amount den = Inr (Dec d f)" and "0 < cx_prec cx" and "cx_round cx = HalfEven"
  shows "\<exists>q. safe_divide cx num den None = Inr q \<and>
    (if d = 0 then q = Dec 0 0
     else \<bar>dval q - dval (Dec c e) / dval (Dec d f)\<bar> \<le> unit_error cx * \<bar>dval (Dec c e) / dval (Dec d f)\<bar>)"
proof -
  have z: "is_zero (Dec d f) \<longleftrightarrow> d = 0" unfolding is_zero_def dec_eq_iff by (simp add: dval_Dec)
  have dv: "safe_divide cx num den None = (if d = 0 then decimal_amount (InText ''0'') else amount_of (dec_div cx (Dec c e) (Dec d f)))"
    by (simp only: safe_divide_def assms(1,2) sum.case option.case z amount_div_def is_zero_def [symmetric] split: if_split) simp
  have zero: "decimal_amount (InText ''0'') = Inr (Dec 0 0)" by code_simp
  consider "d = 0" | "d \<noteq> 0" "c = 0" | "d \<noteq> 0" "c \<noteq> 0" by blast
  then show ?thesis
  proof cases
    case 1
    then show ?thesis by (simp add: dv zero)
  next
    case 2
    then show ?thesis by (simp add: dv dec_div_def amount_of_def dval_Dec)
  next
    case 3
    from dec_quotient_error [OF assms(3,4) 3(2,1), of e f] obtain c' e' where
      q: "dec_quotient cx c e d f = Dec c' e'"
      "\<bar>dval (Dec c' e') - dval (Dec c e) / dval (Dec d f)\<bar> \<le> unit_error cx * \<bar>dval (Dec c e) / dval (Dec d f)\<bar>" by blast
    have "safe_divide cx num den None = Inr (Dec c' e')" using 3 by (simp add: dv dec_div_def q(1) amount_of_def)
    then show ?thesis using q(2) 3 by auto
  qed
qed

lemma safe_divide_close_witness:
  "\<exists>q. safe_divide std_ctx (InInt 1) (InInt 3) None = Inr q \<and>
    (if (3::int) = 0 then q = Dec 0 0
     else \<bar>dval q - dval (Dec 1 0) / dval (Dec 3 0)\<bar> \<le> unit_error std_ctx * \<bar>dval (Dec 1 0) / dval (Dec 3 0)\<bar>)"
  by (rule safe_divide_close) (simp_all add: decimal_amount_def validate_amount_def to_pydec_def std_ctx_def)

end
