(* ===== verification/DecimalAgg.thy ===== *)
theory DecimalAgg
  imports DecimalGuards
begin

text \<open>
  Decimal aggregation for the financial reports (\<open>utils/decimal_agg.py\<close>): sum, mean, extremes, weighted
  mean and percentage, each in a local context of 28 digits with half-even rounding, and the reports over
  columns. A column is the list of its entries, \<open>None\<close> being Python's; a float is given by its \<open>str\<close>, as
  in the theory of the precision guards.
\<close>

subsection \<open>Conversion\<close>

datatype column_error = NotANumber | BadOperation | EmptySequence | ZeroTotalWeight | ZeroWhole | NegativePlaces | UnknownAggregation | NoColumn

type_synonym cell = "amount_input option"

definition internal_ctx :: dctx where
  "internal_ctx = \<lparr>cx_prec = 28, cx_round = HalfEven\<rparr>"

definition to_decimal :: "amount_input \<Rightarrow> column_error + pydec" where
  "to_decimal v = (case to_pydec v of None \<Rightarrow> Inl NotANumber | Some d \<Rightarrow> Inr d)"

definition checked :: "pydec option \<Rightarrow> column_error + pydec" where
  "checked r = (case r of None \<Rightarrow> Inl BadOperation | Some d \<Rightarrow> Inr d)"

definition agg_quantize :: "pydec \<Rightarrow> int \<Rightarrow> column_error + pydec" where
  "agg_quantize value places =
     (if places < 0 then Inl NegativePlaces
      else checked (dec_quantize (cx_prec internal_ctx) (cx_round internal_ctx) (- places) value))"

subsection \<open>Aggregation\<close>

text \<open>The loop of the sum and of the mean: entries that are missing or NaN are skipped.\<close>

fun add_entries :: "pydec \<Rightarrow> nat \<Rightarrow> cell list \<Rightarrow> column_error + (pydec \<times> nat)" where
  "add_entries acc k [] = Inr (acc, k)"
| "add_entries acc k (v # vs) =
     (case v of
        None \<Rightarrow> add_entries acc k vs
      | Some x \<Rightarrow>
          (case to_decimal x of
             Inl err \<Rightarrow> Inl err
           | Inr d \<Rightarrow>
               if d = DNaN then add_entries acc k vs
               else (case checked (dec_add internal_ctx acc d) of Inl err \<Rightarrow> Inl err | Inr t \<Rightarrow> add_entries t (Suc k) vs)))"

definition decimal_sum :: "cell list \<Rightarrow> column_error + pydec" where
  "decimal_sum vs = (case add_entries (Dec 0 0) 0 vs of Inl err \<Rightarrow> Inl err | Inr (t, k) \<Rightarrow> Inr t)"

definition decimal_mean :: "cell list \<Rightarrow> column_error + pydec" where
  "decimal_mean vs =
     (case add_entries (Dec 0 0) 0 vs of
        Inl err \<Rightarrow> Inl err
      | Inr (t, k) \<Rightarrow> if k = 0 then Inl EmptySequence else checked (dec_div internal_ctx t (Dec (int k) 0)))"

text \<open>The extremes share a loop; \<open>better d r\<close> says that \<open>d\<close> replaces \<open>r\<close>.\<close>

fun pick_entry :: "(pydec \<Rightarrow> pydec \<Rightarrow> bool) \<Rightarrow> pydec option \<Rightarrow> cell list \<Rightarrow> column_error + pydec option" where
  "pick_entry better r [] = Inr r"
| "pick_entry better r (v # vs) =
     (case v of
        None \<Rightarrow> pick_entry better r vs
      | Some x \<Rightarrow>
          (case to_decimal x of
             Inl err \<Rightarrow> Inl err
           | Inr d \<Rightarrow>
               if d = DNaN then pick_entry better r vs
               else pick_entry better (case r of None \<Rightarrow> Some d | Some b \<Rightarrow> Some (if better d b then d else b)) vs))"

definition picked :: "column_error + pydec option \<Rightarrow> column_error + pydec" where
  "picked r = (case r of Inl err \<Rightarrow> Inl err | Inr None \<Rightarrow> Inl EmptySequence | Inr (Some d) \<Rightarrow> Inr d)"

definition decimal_max :: "cell list \<Rightarrow> column_error + pydec" where
  "decimal_max vs = picked (pick_entry (\<lambda>d b. less_dec b d) None vs)"

definition decimal_min :: "cell list \<Rightarrow> column_error + pydec" where
  "decimal_min vs = picked (pick_entry less_dec None vs)"

fun weigh_entries :: "pydec \<Rightarrow> pydec \<Rightarrow> (cell \<times> cell) list \<Rightarrow> column_error + (pydec \<times> pydec)" where
  "weigh_entries num den [] = Inr (num, den)"
| "weigh_entries num den ((v, w) # vs) =
     (case (v, w) of
        (Some x, Some y) \<Rightarrow>
          (case to_decimal x of
             Inl err \<Rightarrow> Inl err
           | Inr dv \<Rightarrow>
               (case to_decimal y of
                  Inl err \<Rightarrow> Inl err
                | Inr dw \<Rightarrow>
                    if dv = DNaN \<or> dw = DNaN then weigh_entries num den vs
                    else (case dec_mul internal_ctx dv dw of
                            None \<Rightarrow> Inl BadOperation
                          | Some p \<Rightarrow>
                              (case (dec_add internal_ctx num p, dec_add internal_ctx den dw) of
                                 (Some num', Some den') \<Rightarrow> weigh_entries num' den' vs
                               | _ \<Rightarrow> Inl BadOperation))))
      | _ \<Rightarrow> weigh_entries num den vs)"

definition decimal_weighted_mean :: "cell list \<Rightarrow> cell list \<Rightarrow> column_error + pydec" where
  "decimal_weighted_mean vs ws =
     (case weigh_entries (Dec 0 0) (Dec 0 0) (zip vs ws) of
        Inl err \<Rightarrow> Inl err
      | Inr (num, den) \<Rightarrow> if dec_eq den (Dec 0 0) then Inl ZeroTotalWeight else checked (dec_div internal_ctx num den))"

definition decimal_percentage :: "amount_input \<Rightarrow> amount_input \<Rightarrow> column_error + pydec" where
  "decimal_percentage part whole =
     (case to_decimal part of
        Inl err \<Rightarrow> Inl err
      | Inr p \<Rightarrow>
          (case to_decimal whole of
             Inl err \<Rightarrow> Inl err
           | Inr w \<Rightarrow>
               if dec_eq w (Dec 0 0) then Inl ZeroWhole
               else (case dec_div internal_ctx p w of
                       None \<Rightarrow> Inl BadOperation
                     | Some q \<Rightarrow> checked (dec_mul internal_ctx q (Dec 100 0)))))"

subsection \<open>Columns and reports\<close>

text \<open>\<open>dropna\<close> of pandas on a column of objects.\<close>

definition dropna :: "cell list \<Rightarrow> cell list" where
  "dropna vs = filter (\<lambda>v. v \<noteq> None \<and> v \<noteq> Some (InFloat ''nan'') \<and> v \<noteq> Some (InDecimal DNaN)) vs"

definition agg_function :: "string \<Rightarrow> (cell list \<Rightarrow> column_error + pydec) option" where
  "agg_function name =
     map_of [(''sum'', decimal_sum), (''mean'', decimal_mean), (''max'', decimal_max), (''min'', decimal_min)] name"

definition aggregate_column :: "cell list \<Rightarrow> string \<Rightarrow> int \<Rightarrow> column_error + pydec" where
  "aggregate_column series agg places =
     (case agg_function agg of
        None \<Rightarrow> Inl UnknownAggregation
      | Some f \<Rightarrow> (case f (dropna series) of Inl err \<Rightarrow> Inl err | Inr raw \<Rightarrow> agg_quantize raw places))"

fun aggregate_report ::
  "(string \<Rightarrow> cell list option) \<Rightarrow> (string \<times> string) list \<Rightarrow> int \<Rightarrow> column_error + (string \<times> pydec) list" where
  "aggregate_report df [] places = Inr []"
| "aggregate_report df ((col, agg) # rest) places =
     (case df col of
        None \<Rightarrow> Inl NoColumn
      | Some series \<Rightarrow>
          (case aggregate_column series agg places of
             Inl err \<Rightarrow> Inl err
           | Inr d \<Rightarrow> (case aggregate_report df rest places of Inl err \<Rightarrow> Inl err | Inr ds \<Rightarrow> Inr ((col, d) # ds))))"

subsection \<open>The numbers of a column\<close>

text \<open>The entries that count, and the columns whose entries all read.\<close>

definition entry_value :: "cell \<Rightarrow> pydec option" where
  "entry_value v = (case v of None \<Rightarrow> None | Some x \<Rightarrow> (case to_pydec x of Some d \<Rightarrow> if d = DNaN then None else Some d | None \<Rightarrow> None))"

definition readable :: "cell list \<Rightarrow> bool" where
  "readable vs \<longleftrightarrow> (\<forall>x. Some x \<in> set vs \<longrightarrow> to_pydec x \<noteq> None)"

definition numbers :: "cell list \<Rightarrow> pydec list" where
  "numbers vs = List.map_filter entry_value vs"

lemma numbers_Nil [simp]: "numbers [] = []"
  by (simp add: numbers_def map_filter_simps)

lemma numbers_Cons: "numbers (v # vs) = (case entry_value v of None \<Rightarrow> numbers vs | Some d \<Rightarrow> d # numbers vs)"
  by (simp add: numbers_def map_filter_simps split: option.split)

lemma numbers_not_nan: "d \<in> set (numbers vs) \<Longrightarrow> d \<noteq> DNaN"
  by (induction vs) (auto simp: numbers_Cons entry_value_def split: option.splits if_splits)

lemma readable_Cons: "readable (v # vs) \<longleftrightarrow> (\<forall>x. v = Some x \<longrightarrow> to_pydec x \<noteq> None) \<and> readable vs"
  by (auto simp: readable_def)

text \<open>Dropping the missing entries leaves the numbers.\<close>

lemma dropna_numbers:
  assumes "decimal_of_text ''nan'' = Some DNaN"
  shows "numbers (dropna vs) = numbers vs"
  by (induction vs) (auto simp: dropna_def numbers_Cons entry_value_def to_pydec_def assms split: option.splits)

lemma dropna_readable: "readable vs \<Longrightarrow> readable (dropna vs)"
  by (auto simp: readable_def dropna_def)

lemma add_entries_skip:
  "entry_value v = None \<Longrightarrow> readable (v # vs) \<Longrightarrow> add_entries acc k (v # vs) = add_entries acc k vs"
  by (auto simp: entry_value_def readable_Cons to_decimal_def split: option.splits if_splits)

lemma add_entries_take:
  "entry_value v = Some d \<Longrightarrow> add_entries acc k (v # vs) =
     (case dec_add internal_ctx acc d of None \<Rightarrow> Inl BadOperation | Some t \<Rightarrow> add_entries t (Suc k) vs)"
  by (auto simp: entry_value_def to_decimal_def checked_def split: option.splits if_splits)

lemma pick_entry_skip:
  "entry_value v = None \<Longrightarrow> readable (v # vs) \<Longrightarrow> pick_entry better r (v # vs) = pick_entry better r vs"
  by (auto simp: entry_value_def readable_Cons to_decimal_def split: option.splits if_splits)

lemma pick_entry_take:
  "entry_value v = Some d \<Longrightarrow> pick_entry better r (v # vs) =
     pick_entry better (case r of None \<Rightarrow> Some d | Some b \<Rightarrow> Some (if better d b then d else b)) vs"
  by (auto simp: entry_value_def to_decimal_def split: option.splits if_splits)

declare add_entries.simps(2) [simp del] pick_entry.simps(2) [simp del]

subsection \<open>Sums and means\<close>

text \<open>The loop over numbers of at most \<open>p\<close> places that together stay below the precision.\<close>

lemma add_entries_exact:
  "readable vs \<Longrightarrow> at_places p acc \<Longrightarrow> \<forall>d\<in>set (numbers vs). at_places p d \<Longrightarrow>
   (\<bar>dval acc\<bar> + (\<Sum>d\<leftarrow>numbers vs. \<bar>dval d\<bar>)) * 10 ^ p < 10 ^ 28 \<Longrightarrow>
   \<exists>t. add_entries acc k vs = Inr (t, k + length (numbers vs)) \<and> at_places p t \<and> dval t = dval acc + (\<Sum>d\<leftarrow>numbers vs. dval d)"
proof (induction vs arbitrary: acc k)
  case (Cons v vs)
  show ?case
  proof (cases "entry_value v")
    case None
    then have n: "numbers (v # vs) = numbers vs" by (simp add: numbers_Cons)
    show ?thesis unfolding add_entries_skip [OF None Cons.prems(1)] n
      using Cons.IH [of acc k] Cons.prems unfolding n readable_Cons by blast
  next
    case (Some d)
    define rest where "rest = (\<Sum>d\<leftarrow>numbers vs. \<bar>dval d\<bar>)"
    have rest: "0 \<le> rest" unfolding rest_def by (rule sum_list_nonneg) auto
    have small: "(\<bar>dval acc\<bar> + (\<bar>dval d\<bar> + rest)) * 10 ^ p < 10 ^ 28"
      using Cons.prems(4) by (simp add: numbers_Cons Some rest_def)
    have pd: "at_places p d" "\<forall>d\<in>set (numbers vs). at_places p d" using Cons.prems(3) by (auto simp: numbers_Cons Some)
    have bounded: "x * 10 ^ p < 10 ^ 28" if "x \<le> \<bar>dval acc\<bar> + (\<bar>dval d\<bar> + rest)" for x
      by (rule order_le_less_trans [OF mult_right_mono [OF that] small]) simp
    have "\<bar>dval acc + dval d\<bar> \<le> \<bar>dval acc\<bar> + (\<bar>dval d\<bar> + rest)" using rest by linarith
    from bounded [OF this] obtain z where
      z: "dec_add internal_ctx acc d = Some z" "at_places p z" "dval z = dval acc + dval d"
      using dec_add_exact [OF Cons.prems(2) pd(1), of internal_ctx] by (auto simp: internal_ctx_def)
    have "\<bar>dval z\<bar> + rest \<le> \<bar>dval acc\<bar> + (\<bar>dval d\<bar> + rest)" unfolding z(3) by linarith
    from bounded [OF this] Cons.IH [OF _ z(2) pd(2), of "Suc k"] Cons.prems(1) obtain t where
      t: "add_entries z (Suc k) vs = Inr (t, Suc k + length (numbers vs))" "at_places p t" "dval t = dval z + (\<Sum>d\<leftarrow>numbers vs. dval d)"
      by (auto simp: rest_def readable_Cons)
    show ?thesis using t by (simp add: add_entries_take [OF Some] z numbers_Cons Some)
  qed
qed auto

lemma zero_places: "at_places p (Dec 0 0)" "dval (Dec 0 0) = 0"
  by (simp_all add: at_places_def finite_dec_def dval_Dec)

text \<open>
  The sum of a column skips what is missing or NaN and is exact, floats entering by their decimal text,
  as long as the sizes of the numbers in units of the last place sum to fewer than 29 digits.\<close>

theorem decimal_sum_exact:
  assumes "readable vs" and "\<forall>d\<in>set (numbers vs). at_places p d" and "(\<Sum>d\<leftarrow>numbers vs. \<bar>dval d\<bar>) * 10 ^ p < 10 ^ 28"
  shows "\<exists>t. decimal_sum vs = Inr t \<and> dval t = (\<Sum>d\<leftarrow>numbers vs. dval d)"
  using add_entries_exact [OF assms(1) zero_places(1) assms(2), of 0] assms(3)
  by (auto simp: decimal_sum_def zero_places)

lemma decimal_sum_exact_witness:
  "\<exists>t. decimal_sum [Some (InFloat ''0.1''), None, Some (InFloat ''0.2''), Some (InFloat ''nan''), Some (InFloat ''0.3'')] = Inr t \<and>
    dval t = (\<Sum>d\<leftarrow>numbers [Some (InFloat ''0.1''), None, Some (InFloat ''0.2''), Some (InFloat ''nan''), Some (InFloat ''0.3'')]. dval d)"
proof -
  have t: "decimal_of_text ''0.1'' = Some (Dec 1 (- 1))" "decimal_of_text ''0.2'' = Some (Dec 2 (- 1))"
    "decimal_of_text ''0.3'' = Some (Dec 3 (- 1))" "decimal_of_text ''nan'' = Some DNaN" by code_simp+
  show ?thesis
    by (rule decimal_sum_exact [where p = 7])
      (auto simp: readable_def numbers_Cons entry_value_def to_pydec_def t at_places_def finite_dec_def dval_Dec power_int_minus)
qed

text \<open>
  Under the same bound the mean is within one unit of the 28th digit of the true mean, relatively.\<close>

theorem decimal_mean_close:
  assumes "readable vs" and "\<forall>d\<in>set (numbers vs). at_places p d" and "(\<Sum>d\<leftarrow>numbers vs. \<bar>dval d\<bar>) * 10 ^ p < 10 ^ 28"
    and "numbers vs \<noteq> []"
  shows "\<exists>m. decimal_mean vs = Inr m \<and>
    (let true_mean = (\<Sum>d\<leftarrow>numbers vs. dval d) / of_nat (length (numbers vs))
     in \<bar>dval m - true_mean\<bar> \<le> \<bar>true_mean\<bar> / 10 ^ 27)"
proof -
  define k where "k = length (numbers vs)"
  have k: "0 < k" using assms(4) by (simp add: k_def)
  from add_entries_exact [OF assms(1) zero_places(1) assms(2), of 0] assms(3) obtain t where
    t: "add_entries (Dec 0 0) 0 vs = Inr (t, k)" "at_places p t" "dval t = (\<Sum>d\<leftarrow>numbers vs. dval d)"
    by (auto simp: zero_places k_def)
  obtain c e where c: "t = Dec c e" using t(2) by (auto simp: at_places_def finite_dec_def)
  have m: "decimal_mean vs = checked (dec_div internal_ctx (Dec c e) (Dec (int k) 0))"
    using k by (simp add: decimal_mean_def t(1) c)
  have kv: "dval (Dec (int k) 0) = of_nat k" by (simp add: dval_Dec)
  show ?thesis
  proof (cases "c = 0")
    case True
    then show ?thesis using k t(3) by (simp add: m dec_div_def checked_def dval_Dec c flip: k_def)
  next
    case False
    from dec_quotient_error [of internal_ctx c "int k" e 0] False k obtain c' e' where
      "dec_quotient internal_ctx c e (int k) 0 = Dec c' e'"
      "\<bar>dval (Dec c' e') - dval t / of_nat k\<bar> \<le> unit_error internal_ctx * \<bar>dval t / of_nat k\<bar>"
      by (auto simp: internal_ctx_def kv c)
    then show ?thesis using False k
      by (intro exI [of _ "Dec c' e'"]) (simp add: m dec_div_def checked_def Let_def t(3) unit_error_def internal_ctx_def flip: k_def)
  qed
qed

lemma decimal_mean_close_witness:
  "\<exists>m. decimal_mean [Some (InInt 1), None, Some (InInt 3)] = Inr m \<and>
    (let true_mean = (\<Sum>d\<leftarrow>numbers [Some (InInt 1), None, Some (InInt 3)]. dval d) / of_nat (length (numbers [Some (InInt 1), None, Some (InInt 3)]))
     in \<bar>dval m - true_mean\<bar> \<le> \<bar>true_mean\<bar> / 10 ^ 27)"
  by (rule decimal_mean_close [where p = 7])
    (auto simp: readable_def numbers_Cons entry_value_def to_pydec_def at_places_def finite_dec_def dval_Dec)

subsection \<open>Extremes\<close>

lemma less_dec_simps:
  "less_dec (Dec c e) (Dec d f) \<longleftrightarrow> dval (Dec c e) < dval (Dec d f)"
  "less_dec (DInf s) (DInf t) \<longleftrightarrow> s \<and> \<not> t" "less_dec (DInf s) (Dec d f) \<longleftrightarrow> s" "less_dec (Dec c e) (DInf t) \<longleftrightarrow> \<not> t"
  by (simp_all only: less_dec_iff) (auto simp: less_dec_def)

lemma less_dec_trans:
  "a \<noteq> DNaN \<Longrightarrow> b \<noteq> DNaN \<Longrightarrow> c \<noteq> DNaN \<Longrightarrow> \<not> less_dec b a \<Longrightarrow> less_dec b c \<Longrightarrow> \<not> less_dec c a"
  by (cases a; cases b; cases c) (auto simp: less_dec_simps)

lemma less_dec_trans2:
  "a \<noteq> DNaN \<Longrightarrow> b \<noteq> DNaN \<Longrightarrow> c \<noteq> DNaN \<Longrightarrow> \<not> less_dec a b \<Longrightarrow> less_dec c b \<Longrightarrow> \<not> less_dec a c"
  by (cases a; cases b; cases c) (auto simp: less_dec_simps)

lemma less_dec_irrefl: "\<not> less_dec a a"
  by (cases a) (auto simp: less_dec_simps less_dec_def)

definition weak_order :: "(pydec \<Rightarrow> pydec \<Rightarrow> bool) \<Rightarrow> bool" where
  "weak_order better \<longleftrightarrow> (\<forall>a. \<not> better a a) \<and>
     (\<forall>a b c. a \<noteq> DNaN \<longrightarrow> b \<noteq> DNaN \<longrightarrow> c \<noteq> DNaN \<longrightarrow> \<not> better a b \<longrightarrow> better c b \<longrightarrow> \<not> better a c)"

lemma weak_orderD:
  "weak_order better \<Longrightarrow> a \<noteq> DNaN \<Longrightarrow> b \<noteq> DNaN \<Longrightarrow> c \<noteq> DNaN \<Longrightarrow> \<not> better a b \<Longrightarrow> better c b \<Longrightarrow> \<not> better a c"
  unfolding weak_order_def by blast

lemma weak_orders: "weak_order less_dec" "weak_order (\<lambda>d b. less_dec b d)"
  unfolding weak_order_def using less_dec_irrefl less_dec_trans less_dec_trans2 by blast+

lemma pick_entry_best:
  assumes "weak_order better"
  shows "readable vs \<Longrightarrow> b \<noteq> DNaN \<Longrightarrow> \<exists>m. pick_entry better (Some b) vs = Inr (Some m) \<and>
    m \<noteq> DNaN \<and> m \<in> insert b (set (numbers vs)) \<and> (\<forall>d\<in>insert b (set (numbers vs)). \<not> better d m) \<and>
    (\<forall>a. a \<noteq> DNaN \<longrightarrow> \<not> better a b \<longrightarrow> \<not> better a m)"
proof (induction vs arbitrary: b)
  case (Cons v vs)
  show ?case
  proof (cases "entry_value v")
    case None
    then have n: "numbers (v # vs) = numbers vs" by (simp add: numbers_Cons)
    show ?thesis unfolding pick_entry_skip [OF None Cons.prems(1)] n
      using Cons.IH [of b] Cons.prems unfolding readable_Cons by blast
  next
    case (Some d)
    have d: "d \<noteq> DNaN" using Some by (auto simp: entry_value_def split: option.splits if_splits)
    define b' where "b' = (if better d b then d else b)"
    have b': "b' \<noteq> DNaN" using d Cons.prems(2) by (simp add: b'_def)
    from Cons.IH [OF _ b'] Cons.prems(1) obtain m where
      m: "pick_entry better (Some b') vs = Inr (Some m)" "m \<noteq> DNaN" "m \<in> insert b' (set (numbers vs))"
        "\<forall>d\<in>insert b' (set (numbers vs)). \<not> better d m" "\<forall>a. a \<noteq> DNaN \<longrightarrow> \<not> better a b' \<longrightarrow> \<not> better a m"
      unfolding readable_Cons by blast
    have keep: "\<not> better a b'" if "a \<noteq> DNaN" "\<not> better a b" for a
      using weak_orderD [OF assms that(1) Cons.prems(2) d that(2)] that(2) by (simp add: b'_def)
    have irrefl: "\<not> better a a" for a using assms by (simp add: weak_order_def)
    have "\<not> better d b'" using irrefl by (auto simp: b'_def)
    then have "\<not> better d m" "\<not> better b m" using m(5) d Cons.prems(2) keep irrefl by blast+
    moreover have "pick_entry better (Some b) (v # vs) = Inr (Some m)"
      using m(1) by (simp add: pick_entry_take [OF Some] b'_def)
    moreover have "m \<in> insert b (insert d (set (numbers vs)))" using m(3) by (auto simp: b'_def split: if_splits)
    ultimately show ?thesis using m keep by (auto simp: numbers_Cons Some)
  qed
next
  case Nil
  have "\<not> better b b" using assms by (simp add: weak_order_def)
  then show ?case using Nil.prems by auto
qed

lemma picked_best:
  assumes "weak_order better"
  shows "readable vs \<Longrightarrow> if numbers vs = [] then picked (pick_entry better None vs) = Inl EmptySequence
    else \<exists>m\<in>set (numbers vs). picked (pick_entry better None vs) = Inr m \<and> (\<forall>d\<in>set (numbers vs). \<not> better d m)"
proof (induction vs)
  case (Cons v vs)
  show ?case
  proof (cases "entry_value v")
    case None
    then have n: "numbers (v # vs) = numbers vs" by (simp add: numbers_Cons)
    show ?thesis unfolding pick_entry_skip [OF None Cons.prems] n using Cons unfolding readable_Cons by blast
  next
    case (Some d)
    have d: "d \<noteq> DNaN" using Some by (auto simp: entry_value_def split: option.splits if_splits)
    have "readable vs" using Cons.prems by (simp add: readable_Cons)
    from pick_entry_best [OF assms this d] show ?thesis
      by (auto simp: pick_entry_take [OF Some] numbers_Cons Some picked_def)
  qed
qed (simp add: picked_def)

text \<open>
  The maximum of a column is one of its numbers and none is greater, infinities included; without
  numbers it is an error.\<close>

theorem decimal_max_greatest:
  assumes "readable vs"
  shows "if numbers vs = [] then decimal_max vs = Inl EmptySequence
    else \<exists>m\<in>set (numbers vs). decimal_max vs = Inr m \<and> (\<forall>d\<in>set (numbers vs). \<not> less_dec m d)"
  unfolding decimal_max_def 
  by (rule picked_best [OF weak_orders(2) assms])

lemma decimal_max_greatest_witness:
  "\<exists>m. decimal_max [Some (InInt 1), None, Some (InInt 3)] = Inr m \<and> \<not> less_dec m (Dec 3 0)"
proof -
  have n: "numbers [Some (InInt 1), None, Some (InInt 3)] = [Dec 1 0, Dec 3 0]"
    by (simp add: numbers_Cons entry_value_def to_pydec_def)
  have "readable [Some (InInt 1), None, Some (InInt 3)]" by (auto simp: readable_def to_pydec_def)
  from decimal_max_greatest [OF this] show ?thesis unfolding n by auto
qed

lemma decimal_min_least:
  assumes "readable vs" and "numbers vs \<noteq> []"
  shows "\<exists>m\<in>set (numbers vs). decimal_min vs = Inr m \<and> (\<forall>d\<in>set (numbers vs). \<not> less_dec d m)"
  using picked_best [OF weak_orders(1) assms(1)] assms(2)
  by (auto simp: decimal_min_def)

end
