(* ===== verification/Currency.thy ===== *)
theory Currency
  imports DecimalGuards
begin

text \<open>
  The normalisation of amounts across assets (\<open>utils/currency_normalization.py\<close>): currency pairs, the
  mock provider and the caching wrapper, the conversion of one amount, the aggregation of several, the
  classification of assets, and the strategies for XLM, USD and conversion through an intermediate asset.

  The protocol \<open>ExchangeRateProvider\<close> is the locale \<open>rate_provider\<close>: a lookup on the provider's state,
  with the law that what it returns passed the checks of \<open>CurrencyPair\<close>. An operation reads the clock
  once, as \<open>now\<close>, a naive local time in microseconds. The decimal context is Python's standard one.
\<close>

subsection \<open>Data\<close>

text \<open>A \<open>datetime\<close> without and with a time zone.\<close>

datatype moment = Wall int | Zoned int

record asset =
  a_code :: string
  a_issuer :: "string option"

datatype currency_error =
    BadRate | BadConfidence | BadNumber | BadAmount amount_error | MixedTimezones

record currency_pair =
  p_from :: asset
  p_to :: asset
  p_rate :: pydec
  p_time :: moment
  p_source :: string
  p_liquidity :: "pydec option"
  p_conf :: pydec

abbreviation dec_one :: pydec where
  "dec_one \<equiv> Dec 1 0"

abbreviation dec_nought :: pydec where
  "dec_nought \<equiv> Dec 0 0"

text \<open>The check \<open>confidence < 0 or confidence > 1\<close> of the dataclasses; a comparison with NaN raises.\<close>

definition check_confidence :: "pydec \<Rightarrow> currency_error option" where
  "check_confidence c =
     (case dec_less c dec_nought of
        None \<Rightarrow> Some BadNumber
      | Some True \<Rightarrow> Some BadConfidence
      | Some False \<Rightarrow> (case dec_less dec_one c of None \<Rightarrow> Some BadNumber | Some b \<Rightarrow> if b then Some BadConfidence else None))"

text \<open>\<open>CurrencyPair.__post_init__\<close>.\<close>

definition make_pair :: "currency_pair \<Rightarrow> currency_error + currency_pair" where
  "make_pair p =
     (case dec_less dec_nought (p_rate p) of
        None \<Rightarrow> Inl BadNumber
      | Some False \<Rightarrow> Inl BadRate
      | Some True \<Rightarrow> (case check_confidence (p_conf p) of Some err \<Rightarrow> Inl err | None \<Rightarrow> Inr p))"

definition inverse_pair :: "currency_pair \<Rightarrow> currency_error + currency_pair" where
  "inverse_pair p =
     (case dec_div std_ctx dec_one (p_rate p) of
        None \<Rightarrow> Inl BadNumber
      | Some r \<Rightarrow> make_pair (p\<lparr>p_from := p_to p, p_to := p_from p, p_rate := r\<rparr>))"

abbreviation staleness_threshold :: int where
  "staleness_threshold \<equiv> 300000000"

definition pair_stale :: "int \<Rightarrow> currency_pair \<Rightarrow> int \<Rightarrow> currency_error + bool" where
  "pair_stale now p threshold =
     (case p_time p of Wall t \<Rightarrow> Inr (threshold < now - t) | Zoned t \<Rightarrow> Inl MixedTimezones)"

text \<open>\<open>f"{code}:{issuer or 'native'}"\<close>.\<close>

definition asset_key :: "asset \<Rightarrow> string" where
  "asset_key a = a_code a @ '':'' @ (case a_issuer a of Some (ch # s) \<Rightarrow> ch # s | _ \<Rightarrow> ''native'')"

definition pair_key :: "asset \<Rightarrow> asset \<Rightarrow> string \<times> string" where
  "pair_key x y = (asset_key x, asset_key y)"

definition same_asset :: "asset \<Rightarrow> asset \<Rightarrow> bool" where
  "same_asset x y \<longleftrightarrow> a_code x = a_code y \<and> a_issuer x = a_issuer y"

datatype norm_status = Success | NoRate | StaleRate | LowLiquidity | MultiHop | NormError

record norm =
  n_value :: pydec
  n_base :: asset
  n_original :: pydec
  n_asset :: asset
  n_rate :: "currency_pair option"
  n_conf :: pydec
  n_status :: norm_status
  n_path :: "asset list"

definition make_norm :: "norm \<Rightarrow> currency_error + norm" where
  "make_norm r = (case check_confidence (n_conf r) of Some err \<Rightarrow> Inl err | None \<Rightarrow> Inr r)"

definition is_successful :: "norm \<Rightarrow> bool" where
  "is_successful r \<longleftrightarrow> n_status r = Success"

definition is_same_currency :: "norm \<Rightarrow> bool" where
  "is_same_currency r \<longleftrightarrow> same_asset (n_base r) (n_asset r)"

definition xlm :: asset where
  "xlm = \<lparr>a_code = ''XLM'', a_issuer = None\<rparr>"

definition usdc :: asset where
  "usdc = \<lparr>a_code = ''USDC'', a_issuer = Some ''GA5ZSEJYB37JRC5AVCIA5MOP4RHTM335X2KGX3IHOJAPP5RE34K4KZVN''\<rparr>"

definition usdt :: asset where
  "usdt = \<lparr>a_code = ''USDT'', a_issuer = Some ''GCQTGZQQ5G4PTM2GL7CDIFKUBIPEC52BROAQIAPW53XBRJVN6ZJVTG6V''\<rparr>"

subsection \<open>The mock provider\<close>

text \<open>Its two dictionaries, in insertion order.\<close>

record mock =
  m_rates :: "((string \<times> string) \<times> pydec) list"
  m_confs :: "((string \<times> string) \<times> pydec) list"

text \<open>The forward rate is stored before the inverse is computed, which may raise.\<close>

definition set_rate :: "mock \<Rightarrow> asset \<Rightarrow> asset \<Rightarrow> pydec \<Rightarrow> pydec \<Rightarrow> mock \<times> currency_error option" where
  "set_rate m from to rate conf =
     (let m1 = m\<lparr>m_rates := AList.update (pair_key from to) rate (m_rates m),
                 m_confs := AList.update (pair_key from to) conf (m_confs m)\<rparr>
      in case dec_div std_ctx dec_one rate of
           None \<Rightarrow> (m1, Some BadNumber)
         | Some back \<Rightarrow>
             (m1\<lparr>m_rates := AList.update (pair_key to from) back (m_rates m1),
                 m_confs := AList.update (pair_key to from) conf (m_confs m1)\<rparr>, None))"

definition default_mock :: mock where
  "default_mock =
     fst (set_rate (fst (set_rate \<lparr>m_rates = [], m_confs = []\<rparr> usdc xlm (Dec 85 (- 1)) (Dec 95 (- 2))))
        usdt xlm (Dec 84 (- 1)) (Dec 90 (- 2)))"

definition moment_or_now :: "int \<Rightarrow> moment option \<Rightarrow> moment" where
  "moment_or_now now ts = (case ts of None \<Rightarrow> Wall now | Some t \<Rightarrow> t)"

definition mock_get ::
  "mock \<Rightarrow> int \<Rightarrow> asset \<Rightarrow> asset \<Rightarrow> moment option \<Rightarrow> mock \<times> (currency_error + currency_pair option)" where
  "mock_get m now from to ts =
     (m, if same_asset from to
         then map_sum id Some (make_pair \<lparr>p_from = from, p_to = to, p_rate = Dec 10 (- 1), p_time = moment_or_now now ts,
                p_source = ''identity'', p_liquidity = None, p_conf = Dec 10 (- 1)\<rparr>)
         else (case map_of (m_rates m) (pair_key from to) of
                 None \<Rightarrow> Inr None
               | Some r \<Rightarrow>
                   map_sum id Some (make_pair \<lparr>p_from = from, p_to = to, p_rate = r, p_time = moment_or_now now ts,
                     p_source = ''mock'', p_liquidity = None,
                     p_conf = (case map_of (m_confs m) (pair_key from to) of None \<Rightarrow> Dec 10 (- 1) | Some c \<Rightarrow> c)\<rparr>)))"

definition mock_available :: "mock \<Rightarrow> asset \<Rightarrow> bool" where
  "mock_available m a \<longleftrightarrow> list_ex (\<lambda>((x, y), r). asset_key a = x \<or> asset_key a = y) (m_rates m)"

type_synonym 's get_rate = "'s \<Rightarrow> int \<Rightarrow> asset \<Rightarrow> asset \<Rightarrow> moment option \<Rightarrow> 's \<times> (currency_error + currency_pair option)"

text \<open>A batch is one lookup after the other; the results are keyed by the pair's own key. What was not found is collected for the wrapper.\<close>

type_synonym rates = "((string \<times> string) \<times> currency_pair) list"

fun rates_batch ::
  "'s get_rate \<Rightarrow> 's \<Rightarrow> int \<Rightarrow> rates \<Rightarrow> (asset \<times> asset) list \<Rightarrow> moment option \<Rightarrow> 's \<times> (currency_error + rates \<times> (asset \<times> asset) list)" where
  "rates_batch get s now acc [] ts = (s, Inr (acc, []))"
| "rates_batch get s now acc ((x, y) # pairs) ts =
     (case get s now x y ts of
        (s1, Inl err) \<Rightarrow> (s1, Inl err)
      | (s1, Inr None) \<Rightarrow> map_prod id (map_sum id (map_prod id (\<lambda>missing. (x, y) # missing))) (rates_batch get s1 now acc pairs ts)
      | (s1, Inr (Some p)) \<Rightarrow> rates_batch get s1 now (AList.update (pair_key (p_from p) (p_to p)) p acc) pairs ts)"

definition mock_batch :: "mock \<Rightarrow> int \<Rightarrow> (asset \<times> asset) list \<Rightarrow> moment option \<Rightarrow> mock \<times> (currency_error + rates)" where
  "mock_batch m now pairs ts = map_prod id (map_sum id fst) (rates_batch mock_get m now [] pairs ts)"

subsection \<open>The caching wrapper\<close>

text \<open>The key of a time is its ISO text, or \<open>current\<close>; here the time itself.\<close>

type_synonym fx_key = "string \<times> string \<times> moment option"

record 's cached =
  c_inner :: 's
  c_entries :: "(fx_key \<times> currency_pair \<times> int) list"

definition fx_key :: "asset \<Rightarrow> asset \<Rightarrow> moment option \<Rightarrow> fx_key" where
  "fx_key from to ts = (asset_key from, asset_key to, ts)"

text \<open>The cache and the times have the same keys; an expired entry is deleted before the lookup.\<close>

definition cached_get :: "int \<Rightarrow> 's get_rate \<Rightarrow> 's cached get_rate" where
  "cached_get ttl get c now from to ts =
     (let k = fx_key from to ts in
      case map_of (c_entries c) k of
        Some (p, at_time) \<Rightarrow>
          if now - at_time < ttl then (c, Inr (Some p))
          else (case get (c_inner c) now from to ts of
                  (s, Inr (Some q)) \<Rightarrow> (c\<lparr>c_inner := s, c_entries := AList.update k (q, now) (AList.delete k (c_entries c))\<rparr>, Inr (Some q))
                | (s, r) \<Rightarrow> (c\<lparr>c_inner := s, c_entries := AList.delete k (c_entries c)\<rparr>, r))
      | None \<Rightarrow>
          (case get (c_inner c) now from to ts of
             (s, Inr (Some q)) \<Rightarrow> (c\<lparr>c_inner := s, c_entries := AList.update k (q, now) (c_entries c)\<rparr>, Inr (Some q))
           | (s, r) \<Rightarrow> (c\<lparr>c_inner := s\<rparr>, r)))"

text \<open>The wrapper's batch asks the inner provider again for what it did not find.\<close>

definition cached_batch ::
  "int \<Rightarrow> 's get_rate \<Rightarrow> ('s \<Rightarrow> int \<Rightarrow> (asset \<times> asset) list \<Rightarrow> moment option \<Rightarrow> 's \<times> (currency_error + rates)) \<Rightarrow>
   's cached \<Rightarrow> int \<Rightarrow> (asset \<times> asset) list \<Rightarrow> moment option \<Rightarrow> 's cached \<times> (currency_error + rates)" where
  "cached_batch ttl get batch c now pairs ts =
     (case rates_batch (cached_get ttl get) c now [] pairs ts of
        (c1, Inl err) \<Rightarrow> (c1, Inl err)
      | (c1, Inr (found, missing)) \<Rightarrow>
          if missing = [] then (c1, Inr found)
          else (case batch (c_inner c1) now missing ts of
                  (s, Inl err) \<Rightarrow> (c1\<lparr>c_inner := s\<rparr>, Inl err)
                | (s, Inr fetched) \<Rightarrow>
                    (c1\<lparr>c_inner := s, c_entries := foldl (\<lambda>es (k, p). AList.update (fst k, snd k, ts) (p, now) es) (c_entries c1) fetched\<rparr>,
                     Inr (foldl (\<lambda>rs (k, p). AList.update k p rs) found fetched))))"

definition clear_rates :: "'s cached \<Rightarrow> 's cached" where
  "clear_rates c = c\<lparr>c_entries := []\<rparr>"

definition cache_stats :: "'s cached \<Rightarrow> nat \<times> int option \<times> int option" where
  "cache_stats c =
     (let ts = map (\<lambda>(k, p, t). t) (c_entries c)
      in (length (c_entries c), if ts = [] then None else Some (foldr min ts (hd ts)), if ts = [] then None else Some (foldr max ts (hd ts))))"

subsection \<open>Conversion\<close>

text \<open>A \<open>DecimalAmount\<close> is taken as it is, a \<open>Decimal\<close> is validated and must not be negative.\<close>

datatype amount_arg = Checked pydec | Unchecked pydec

definition arg_decimal :: "amount_arg \<Rightarrow> currency_error + pydec" where
  "arg_decimal a =
     (case a of
        Checked d \<Rightarrow> Inr d
      | Unchecked d \<Rightarrow> (case validate_amount (InDecimal d) None None False of Inl err \<Rightarrow> Inl (BadAmount err) | Inr d \<Rightarrow> Inr d))"

text \<open>The conversion with a rate at hand.\<close>

definition convert_with :: "int \<Rightarrow> pydec \<Rightarrow> asset \<Rightarrow> asset \<Rightarrow> currency_pair \<Rightarrow> currency_error + norm" where
  "convert_with now amount from to p =
     (case pair_stale now p staleness_threshold of
        Inl err \<Rightarrow> Inl err
      | Inr stale \<Rightarrow>
          (case (if stale then dec_mul std_ctx (p_conf p) (Dec 5 (- 1)) else Some (p_conf p)) of
             None \<Rightarrow> Inl BadNumber
           | Some conf \<Rightarrow>
               (case dec_mul std_ctx amount (p_rate p) of
                  None \<Rightarrow> Inl BadNumber
                | Some v \<Rightarrow>
                    make_norm \<lparr>n_value = v, n_base = to, n_original = amount, n_asset = from, n_rate = Some p,
                      n_conf = conf, n_status = (if stale then StaleRate else Success), n_path = [from, to]\<rparr>)))"

definition normalize_amount ::
  "'s get_rate \<Rightarrow> 's \<Rightarrow> int \<Rightarrow> amount_arg \<Rightarrow> asset \<Rightarrow> asset \<Rightarrow> moment option \<Rightarrow> 's \<times> (currency_error + norm)" where
  "normalize_amount get s now amount from to ts =
     (case arg_decimal amount of
        Inl err \<Rightarrow> (s, Inl err)
      | Inr d \<Rightarrow>
          if same_asset from to
          then (s, make_norm \<lparr>n_value = d, n_base = to, n_original = d, n_asset = from, n_rate = None,
                  n_conf = Dec 10 (- 1), n_status = Success, n_path = [from]\<rparr>)
          else (case get s now from to ts of
                  (s1, Inl err) \<Rightarrow> (s1, Inl err)
                | (s1, Inr None) \<Rightarrow>
                    (s1, make_norm \<lparr>n_value = d, n_base = from, n_original = d, n_asset = from, n_rate = None,
                       n_conf = Dec 0 (- 1), n_status = NoRate, n_path = [from]\<rparr>)
                | (s1, Inr (Some p)) \<Rightarrow> (s1, convert_with now d from to p)))"

subsection \<open>Aggregation\<close>

record agg =
  g_total :: pydec
  g_conf :: pydec
  g_ok :: bool
  g_path :: "asset list"

definition add_norm :: "agg \<Rightarrow> asset \<Rightarrow> norm \<Rightarrow> currency_error + agg" where
  "add_norm g a r =
     (if is_successful r
      then (case dec_add std_ctx (g_total g) (n_value r) of
              None \<Rightarrow> Inl BadNumber
            | Some t \<Rightarrow>
                Inr (g\<lparr>g_total := t, g_conf := (if less_dec (n_conf r) (g_conf g) then n_conf r else g_conf g),
                       g_path := (if a \<in> set (g_path g) then g_path g else g_path g @ [a])\<rparr>))
      else Inr (g\<lparr>g_ok := False\<rparr>))"

fun aggregate_from ::
  "'s get_rate \<Rightarrow> 's \<Rightarrow> int \<Rightarrow> agg \<Rightarrow> (amount_arg \<times> asset) list \<Rightarrow> asset \<Rightarrow> moment option \<Rightarrow> 's \<times> (currency_error + agg)" where
  "aggregate_from get s now g [] base ts = (s, Inr g)"
| "aggregate_from get s now g ((x, a) # rest) base ts =
     (case normalize_amount get s now x a base ts of
        (s1, Inl err) \<Rightarrow> (s1, Inl err)
      | (s1, Inr r) \<Rightarrow>
          (case add_norm g a r of Inl err \<Rightarrow> (s1, Inl err) | Inr g1 \<Rightarrow> aggregate_from get s1 now g1 rest base ts))"

definition aggregate_normalized ::
  "'s get_rate \<Rightarrow> 's \<Rightarrow> int \<Rightarrow> (amount_arg \<times> asset) list \<Rightarrow> asset \<Rightarrow> moment option \<Rightarrow> 's \<times> (currency_error + norm)" where
  "aggregate_normalized get s now amounts base ts =
     (if amounts = []
      then (s, make_norm \<lparr>n_value = dec_nought, n_base = base, n_original = dec_nought, n_asset = base, n_rate = None,
              n_conf = Dec 10 (- 1), n_status = Success, n_path = []\<rparr>)
      else (case aggregate_from get s now \<lparr>g_total = dec_nought, g_conf = Dec 10 (- 1), g_ok = True, g_path = []\<rparr> amounts base ts of
              (s1, Inl err) \<Rightarrow> (s1, Inl err)
            | (s1, Inr g) \<Rightarrow>
                (s1, make_norm \<lparr>n_value = g_total g, n_base = base, n_original = g_total g, n_asset = base, n_rate = None,
                   n_conf = g_conf g, n_status = (if g_ok g then Success else NormError), n_path = g_path g\<rparr>)))"

subsection \<open>Classification\<close>

datatype asset_type = Native | Stablecoin | Token | Synthetic | UnknownType

datatype coin_type = FiatBacked | CryptoBacked | Algorithmic | Commodity

record asset_info =
  md_asset :: asset
  md_type :: asset_type
  md_coin :: "coin_type option"
  md_liquidity :: pydec
  md_base :: "asset option"
  md_name :: string

type_synonym classifier = "string \<Rightarrow> asset_info option"

definition known_issuers :: "string list" where
  "known_issuers = [''GA5ZSEJYB37JRC5AVCIA5MOP4RHTM335X2KGX3IHOJAPP5RE34K4KZVN'',
     ''GCQTGZQQ5G4PTM2GL7CDIFKUBIPEC52BROAQIAPW53XBRJVN6ZJVTG6V'', ''GBNZILSTVQZ4R7IKQDGHYGY2QXL5QOFJYQMXPKWRRM5PAV7Y4M67AQUA'']"

definition new_classifier :: classifier where
  "new_classifier = [asset_key xlm \<mapsto> \<lparr>md_asset = xlm, md_type = Native, md_coin = None, md_liquidity = Dec 10 (- 1), md_base = None, md_name = ''Stellar Lumens (XLM)''\<rparr>,
     asset_key usdc \<mapsto> \<lparr>md_asset = usdc, md_type = Stablecoin, md_coin = Some FiatBacked, md_liquidity = Dec 95 (- 2), md_base = Some xlm, md_name = ''USD Coin (USDC)''\<rparr>,
     asset_key usdt \<mapsto> \<lparr>md_asset = usdt, md_type = Stablecoin, md_coin = Some FiatBacked, md_liquidity = Dec 90 (- 2), md_base = Some xlm, md_name = ''Tether USD (USDT)''\<rparr>]"

definition fresh_metadata :: "asset \<Rightarrow> asset_info" where
  "fresh_metadata a =
     (case a_issuer a of
        None \<Rightarrow> \<lparr>md_asset = a, md_type = Native, md_coin = None, md_liquidity = Dec 10 (- 1), md_base = None, md_name = ''Stellar Lumens (XLM)''\<rparr>
      | Some issuer \<Rightarrow>
          if issuer \<in> set known_issuers
          then \<lparr>md_asset = a, md_type = Stablecoin, md_coin = Some FiatBacked, md_liquidity = Dec 8 (- 1), md_base = Some xlm, md_name = a_code a @ '' Stablecoin''\<rparr>
          else if a_code a \<in> {''USDC'', ''USDT'', ''USDD'', ''DAI'', ''BUSD''}
          then \<lparr>md_asset = a, md_type = Stablecoin, md_coin = Some FiatBacked, md_liquidity = Dec 7 (- 1), md_base = Some xlm, md_name = a_code a @ '' Stablecoin''\<rparr>
          else \<lparr>md_asset = a, md_type = Token, md_coin = None, md_liquidity = Dec 5 (- 1), md_base = Some xlm, md_name = a_code a\<rparr>)"

definition classify :: "classifier \<Rightarrow> asset \<Rightarrow> classifier \<times> asset_info" where
  "classify cl a =
     (case cl (asset_key a) of
        Some md \<Rightarrow> (cl, md)
      | None \<Rightarrow> (cl(asset_key a \<mapsto> fresh_metadata a), fresh_metadata a))"

definition is_stablecoin :: "classifier \<Rightarrow> asset \<Rightarrow> classifier \<times> bool" where
  "is_stablecoin cl a = (case classify cl a of (cl1, md) \<Rightarrow> (cl1, md_type md = Stablecoin))"

definition is_native :: "asset \<Rightarrow> bool" where
  "is_native a \<longleftrightarrow> a_issuer a = None \<and> a_code a = ''XLM''"

definition preferred_base :: "classifier \<Rightarrow> asset \<Rightarrow> classifier \<times> asset" where
  "preferred_base cl a = (case classify cl a of (cl1, md) \<Rightarrow> (cl1, case md_base md of None \<Rightarrow> xlm | Some b \<Rightarrow> b))"

subsection \<open>Strategies\<close>

definition xlm_normalize ::
  "'s get_rate \<Rightarrow> 's \<Rightarrow> int \<Rightarrow> amount_arg \<Rightarrow> asset \<Rightarrow> moment option \<Rightarrow> 's \<times> (currency_error + norm)" where
  "xlm_normalize get s now amount a ts = normalize_amount get s now amount a xlm ts"

definition usd_normalize ::
  "'s get_rate \<Rightarrow> 's \<times> classifier \<Rightarrow> int \<Rightarrow> amount_arg \<Rightarrow> asset \<Rightarrow> moment option \<Rightarrow> ('s \<times> classifier) \<times> (currency_error + norm)" where
  "usd_normalize get st now amount a ts =
     (case st of (s, cl) \<Rightarrow>
      case is_stablecoin cl a of (cl1, coin) \<Rightarrow>
      if coin
      then ((s, cl1), case arg_decimal amount of
              Inl err \<Rightarrow> Inl err
            | Inr d \<Rightarrow> make_norm \<lparr>n_value = d, n_base = usdc, n_original = d, n_asset = a, n_rate = None,
                n_conf = Dec 99 (- 2), n_status = Success, n_path = [a]\<rparr>)
      else (case normalize_amount get s now amount a usdc ts of (s1, r) \<Rightarrow> ((s1, cl1), r)))"

text \<open>One intermediate asset: both hops, and the product of the confidences with the penalty.\<close>

definition hop_through ::
  "'s get_rate \<Rightarrow> 's \<Rightarrow> int \<Rightarrow> amount_arg \<Rightarrow> asset \<Rightarrow> asset \<Rightarrow> moment option \<Rightarrow> asset \<Rightarrow>
   's \<times> (currency_error + (norm \<times> pydec) option)" where
  "hop_through get s now amount a base ts via =
     (if same_asset via a \<or> same_asset via base then (s, Inr None)
      else (case normalize_amount get s now amount a via ts of
              (s1, Inl err) \<Rightarrow> (s1, Inl err)
            | (s1, Inr h1) \<Rightarrow>
                if \<not> is_successful h1 then (s1, Inr None)
                else (case normalize_amount get s1 now (Unchecked (n_value h1)) via base ts of
                        (s2, Inl err) \<Rightarrow> (s2, Inl err)
                      | (s2, Inr h2) \<Rightarrow>
                          if \<not> is_successful h2 then (s2, Inr None)
                          else (s2, case Option.bind (dec_mul std_ctx (n_conf h1) (n_conf h2)) (\<lambda>c. dec_mul std_ctx c (Dec 9 (- 1))) of
                                      None \<Rightarrow> Inl BadNumber
                                    | Some c \<Rightarrow> Inr (Some (h2, c))))))"

fun best_hop ::
  "'s get_rate \<Rightarrow> 's \<Rightarrow> int \<Rightarrow> amount_arg \<Rightarrow> asset \<Rightarrow> asset \<Rightarrow> moment option \<Rightarrow> norm \<Rightarrow> pydec \<Rightarrow> asset list \<Rightarrow>
   's \<times> (currency_error + norm)" where
  "best_hop get s now amount a base ts best conf [] = (s, Inr best)"
| "best_hop get s now amount a base ts best conf (via # vias) =
     (case hop_through get s now amount a base ts via of
        (s1, Inl err) \<Rightarrow> (s1, Inl err)
      | (s1, Inr None) \<Rightarrow> best_hop get s1 now amount a base ts best conf vias
      | (s1, Inr (Some (h2, c))) \<Rightarrow>
          if less_dec conf c
          then (case arg_decimal amount of
                  Inl err \<Rightarrow> (s1, Inl err)
                | Inr d \<Rightarrow>
                    (case make_norm \<lparr>n_value = n_value h2, n_base = base, n_original = d, n_asset = a, n_rate = n_rate h2,
                            n_conf = c, n_status = MultiHop, n_path = [a, via, base]\<rparr> of
                       Inl err \<Rightarrow> (s1, Inl err)
                     | Inr r \<Rightarrow> best_hop get s1 now amount a base ts r c vias))
          else best_hop get s1 now amount a base ts best conf vias)"

definition liquid_assets :: "asset list" where
  "liquid_assets = [xlm, usdc, usdt]"

definition multi_hop_normalize ::
  "'s get_rate \<Rightarrow> 's \<Rightarrow> int \<Rightarrow> amount_arg \<Rightarrow> asset \<Rightarrow> asset \<Rightarrow> moment option \<Rightarrow> 's \<times> (currency_error + norm)" where
  "multi_hop_normalize get s now amount a base ts =
     (case normalize_amount get s now amount a base ts of
        (s1, Inl err) \<Rightarrow> (s1, Inl err)
      | (s1, Inr direct) \<Rightarrow>
          if is_successful direct then (s1, Inr direct)
          else best_hop get s1 now amount a base ts direct (Dec 0 (- 1)) liquid_assets)"

subsection \<open>Valid pairs\<close>

definition pair_ok :: "currency_pair \<Rightarrow> bool" where
  "pair_ok p \<longleftrightarrow> less_dec dec_nought (p_rate p) \<and> unit_dec (p_conf p)"

lemma check_confidence_iff: "check_confidence c = None \<longleftrightarrow> unit_dec c"
proof (cases c)
  case (Dec d f)
  show ?thesis unfolding check_confidence_def Dec dec_less_iff
    by (auto simp: unit_dec_def finite_dec_def dval_Dec split: bool.splits)
qed (auto simp: check_confidence_def unit_dec_def finite_dec_def split: bool.splits)

lemma make_pair_Inr: "make_pair p = Inr q \<longleftrightarrow> q = p \<and> pair_ok p"
  by (auto simp: make_pair_def pair_ok_def less_dec_def check_confidence_iff [symmetric] split: option.splits bool.splits)

lemma make_pair_confidence: "unit_dec (p_conf p) \<Longrightarrow> make_pair p \<noteq> Inl BadConfidence"
  by (auto simp: make_pair_def check_confidence_iff [symmetric] split: option.splits bool.splits)

lemma make_norm_unit: "unit_dec (n_conf r) \<Longrightarrow> make_norm r = Inr r"
  by (simp add: make_norm_def check_confidence_iff [symmetric])

lemma units: "unit_dec (Dec 10 (- 1))" "unit_dec (Dec 0 (- 1))" "unit_dec (Dec 5 (- 1))" "unit_dec (Dec 9 (- 1))"
  "unit_dec (Dec 99 (- 2))" "unit_dec (Dec 95 (- 2))" "unit_dec (Dec 90 (- 2))"
  by (simp_all add: unit_dec_def finite_dec_def dval_Dec power_int_minus)

lemma std_ctx_sel [simp]: "cx_prec std_ctx = 28" "cx_round std_ctx = HalfEven"
  by (simp_all add: std_ctx_def)

text \<open>An operation that keeps confidences in the unit interval and never fails for one that is not.\<close>

definition sound :: "currency_error + norm \<Rightarrow> bool" where
  "sound r \<longleftrightarrow> (case r of Inl err \<Rightarrow> err \<noteq> BadConfidence | Inr n \<Rightarrow> unit_dec (n_conf n))"

lemma sound_simps [simp]: "sound (Inl err) \<longleftrightarrow> err \<noteq> BadConfidence" "sound (Inr n) \<longleftrightarrow> unit_dec (n_conf n)"
  by (simp_all add: sound_def)

lemma sound_make_norm: "unit_dec (n_conf r) \<Longrightarrow> sound (make_norm r)"
  by (simp add: make_norm_unit)

lemma convert_with_sound:
  assumes "unit_dec (p_conf p)"
  shows "sound (convert_with now d from to p)"
proof (cases "pair_stale now p staleness_threshold")
  case (Inl err)
  then have "err = MixedTimezones" by (auto simp: pair_stale_def split: moment.splits)
  then show ?thesis using Inl by (simp add: convert_with_def)
next
  case (Inr stale)
  obtain c where c: "(if stale then dec_mul std_ctx (p_conf p) (Dec 5 (- 1)) else Some (p_conf p)) = Some c" "unit_dec c"
    using dec_mul_unit [OF assms units(3), of std_ctx] assms by (cases stale) auto
  show ?thesis
    by (cases "dec_mul std_ctx d (p_rate p)") (simp_all only: convert_with_def Inr sum.case c(1) option.case, simp_all add: sound_make_norm c(2))
qed

lemma arg_decimal_error: "arg_decimal a = Inl err \<Longrightarrow> err \<noteq> BadConfidence"
  by (auto simp: arg_decimal_def split: amount_arg.splits sum.splits)

text \<open>A cache of valid pairs.\<close>

definition pairs_ok :: "('k \<times> currency_pair \<times> int) list \<Rightarrow> bool" where
  "pairs_ok es \<longleftrightarrow> (\<forall>k p t. map_of es k = Some (p, t) \<longrightarrow> pair_ok p)"

lemma pairs_okD: "pairs_ok es \<Longrightarrow> map_of es k = Some (p, t) \<Longrightarrow> pair_ok p"
  unfolding pairs_ok_def by blast

lemma pairs_ok_delete: "pairs_ok es \<Longrightarrow> pairs_ok (AList.delete k es)"
  unfolding pairs_ok_def by (simp add: delete_conv')

lemma pairs_ok_update: "pairs_ok es \<Longrightarrow> pair_ok p \<Longrightarrow> pairs_ok (AList.update k (p, t) es)"
  unfolding pairs_ok_def by (simp add: update_conv')

subsection \<open>The provider's contract\<close>

locale rate_provider =
  fixes get :: "'s get_rate" and good :: "'s \<Rightarrow> bool"
  assumes lawful: "good s \<Longrightarrow> get s now x y ts = (s1, r) \<Longrightarrow>
    good s1 \<and> r \<noteq> Inl BadConfidence \<and> (\<forall>p. r = Inr (Some p) \<longrightarrow> pair_ok p)"
begin

lemma normalize_sound:
  assumes "good s" and "normalize_amount get s now a x y ts = (s1, r)"
  shows "good s1 \<and> sound r"
proof (cases "arg_decimal a")
  case (Inl err)
  then show ?thesis using assms arg_decimal_error by (auto simp: normalize_amount_def)
next
  case (Inr d)
  obtain s2 q where g: "get s now x y ts = (s2, q)" by (rule prod.exhaust)
  note law = lawful [OF assms(1) g]
  show ?thesis
  proof (cases q)
    case (Inr b)
    then show ?thesis using assms law g \<open>arg_decimal a = Inr d\<close> convert_with_sound
      by (cases b) (auto simp: normalize_amount_def pair_ok_def make_norm_unit units split: if_splits)
  qed (use assms law g \<open>arg_decimal a = Inr d\<close> in \<open>auto simp: normalize_amount_def make_norm_unit units split: if_splits\<close>)
qed

lemma hop_sound:
  assumes "good s" and "hop_through get s now a x base ts via = (s1, r)"
  shows "good s1 \<and> r \<noteq> Inl BadConfidence \<and> (\<forall>h c. r = Inr (Some (h, c)) \<longrightarrow> unit_dec c)"
proof (cases "same_asset via x \<or> same_asset via base")
  case False
  obtain s2 q1 where n1: "normalize_amount get s now a x via ts = (s2, q1)" by (rule prod.exhaust)
  note l1 = normalize_sound [OF assms(1) n1]
  show ?thesis
  proof (cases q1)
    case (Inl err)
    then show ?thesis using assms(2) l1 False n1 by (auto simp: hop_through_def)
  next
    case (Inr h1)
    obtain s3 q2 where n2: "normalize_amount get s2 now (Unchecked (n_value h1)) via base ts = (s3, q2)" by (rule prod.exhaust)
    note l2 = normalize_sound [OF conjunct1 [OF l1] n2]
    show ?thesis
    proof (cases q2)
      case (Inr h2)
      have u: "unit_dec (n_conf h1)" "unit_dec (n_conf h2)" using l1 l2 Inr \<open>q1 = Inr h1\<close> by auto
      obtain c1 where c1: "dec_mul std_ctx (n_conf h1) (n_conf h2) = Some c1" "unit_dec c1"
        using dec_mul_unit [OF u, of std_ctx] by auto
      obtain c2 where c2: "dec_mul std_ctx c1 (Dec 9 (- 1)) = Some c2" "unit_dec c2"
        using dec_mul_unit [OF c1(2) units(4), of std_ctx] by auto
      show ?thesis using assms(2) l1 l2 False n1 n2 \<open>q1 = Inr h1\<close> Inr c1(1) c2
        by (auto simp: hop_through_def split: if_splits)
    qed (use assms(2) l1 l2 False n1 n2 Inr in \<open>auto simp: hop_through_def split: if_splits\<close>)
  qed
qed (use assms in \<open>auto simp: hop_through_def\<close>)

lemma best_hop_sound:
  "good s \<Longrightarrow> unit_dec (n_conf best) \<Longrightarrow> best_hop get s now a x base ts best conf vias = (s1, r) \<Longrightarrow> good s1 \<and> sound r"
proof (induction vias arbitrary: s best conf)
  case (Cons via vias)
  obtain s2 q where h: "hop_through get s now a x base ts via = (s2, q)" by (rule prod.exhaust)
  note law = hop_sound [OF Cons.prems(1) h]
  show ?case
  proof (cases q)
    case (Inr b)
    show ?thesis
    proof (cases "\<exists>h2 c. b = Some (h2, c) \<and> less_dec conf c")
      case True
      then obtain h2 c where b: "b = Some (h2, c)" "less_dec conf c" by blast
      have c: "unit_dec c" using law Inr b by auto
      show ?thesis
      proof (cases "arg_decimal a")
        case (Inl err)
        then show ?thesis using Cons.prems(3) arg_decimal_error [OF Inl] h \<open>q = Inr b\<close> b law by auto
      next
        case (Inr d)
        let ?n = "\<lparr>n_value = n_value h2, n_base = base, n_original = d, n_asset = x, n_rate = n_rate h2,
          n_conf = c, n_status = MultiHop, n_path = [x, via, base]\<rparr>"
        have "best_hop get s2 now a x base ts ?n c vias = (s1, r)"
          using Cons.prems(3) h \<open>q = Inr b\<close> b Inr c by (simp add: make_norm_unit)
        from Cons.IH [OF _ _ this] law c show ?thesis by simp
      qed
    next
      case False
      then show ?thesis using Cons.prems Cons.IH [of s2 best conf] h Inr law by (cases b) (auto split: if_splits)
    qed
  qed (use Cons.prems h law in auto)
qed auto

lemma multi_hop_sound:
  assumes "good s" and "multi_hop_normalize get s now a x base ts = (s1, r)"
  shows "good s1 \<and> sound r"
proof -
  obtain s2 q where n: "normalize_amount get s now a x base ts = (s2, q)" by (rule prod.exhaust)
  note law = normalize_sound [OF assms(1) n]
  show ?thesis
  proof (cases q)
    case (Inr direct)
    then show ?thesis using assms(2) n law best_hop_sound [of s2 direct] by (auto simp: multi_hop_normalize_def split: if_splits)
  qed (use assms(2) n law in \<open>auto simp: multi_hop_normalize_def\<close>)
qed

lemma aggregate_from_sound:
  "good s \<Longrightarrow> unit_dec (g_conf g) \<Longrightarrow> aggregate_from get s now g xs base ts = (s1, r) \<Longrightarrow>
   good s1 \<and> r \<noteq> Inl BadConfidence \<and> (\<forall>g1. r = Inr g1 \<longrightarrow> unit_dec (g_conf g1))"
proof (induction xs arbitrary: s g)
  case (Cons xa xs)
  obtain x a where xa: "xa = (x, a)" by (rule prod.exhaust)
  obtain s2 q where n: "normalize_amount get s now x a base ts = (s2, q)" by (rule prod.exhaust)
  note law = normalize_sound [OF Cons.prems(1) n]
  show ?case
  proof (cases q)
    case (Inr m)
    show ?thesis
    proof (cases "add_norm g a m")
      case (Inl err)
      then have "err = BadNumber" by (auto simp: add_norm_def split: if_splits option.splits)
      then show ?thesis using Cons.prems(3) n Inl \<open>q = Inr m\<close> law by (auto simp: xa)
    next
      case (Inr g1)
      then have "unit_dec (g_conf g1)" using Cons.prems(2) law \<open>q = Inr m\<close>
        by (auto simp: add_norm_def split: if_splits option.splits)
      then show ?thesis using Cons.prems(3) Cons.IH [of s2 g1] n Inr \<open>q = Inr m\<close> law by (auto simp: xa)
    qed
  qed (use Cons.prems n law in \<open>auto simp: xa\<close>)
qed auto

lemma aggregate_sound:
  assumes "good s" and "aggregate_normalized get s now xs base ts = (s1, r)"
  shows "good s1 \<and> sound r"
proof (cases "xs = []")
  case False
  let ?g = "\<lparr>g_total = dec_nought, g_conf = Dec 10 (- 1), g_ok = True, g_path = []\<rparr>"
  obtain s2 q where a: "aggregate_from get s now ?g xs base ts = (s2, q)" by (rule prod.exhaust)
  from aggregate_from_sound [OF assms(1) _ a] have law: "good s2 \<and> q \<noteq> Inl BadConfidence \<and> (\<forall>g1. q = Inr g1 \<longrightarrow> unit_dec (g_conf g1))"
    by (simp add: units)
  show ?thesis using assms(2) False a law by (cases q) (auto simp: aggregate_normalized_def make_norm_unit)
qed (use assms in \<open>auto simp: aggregate_normalized_def make_norm_unit units\<close>)

text \<open>The caching wrapper keeps the contract.\<close>

lemma cached_lawful:
  assumes "good (c_inner c) \<and> pairs_ok (c_entries c)" and "cached_get ttl get c now x y ts = (c1, r)"
  shows "(good (c_inner c1) \<and> pairs_ok (c_entries c1)) \<and>
    r \<noteq> Inl BadConfidence \<and> (\<forall>p. r = Inr (Some p) \<longrightarrow> pair_ok p)"
proof -
  obtain s2 q where g: "get (c_inner c) now x y ts = (s2, q)" by (rule prod.exhaust)
  from assms(1) have law: "good s2 \<and> q \<noteq> Inl BadConfidence \<and> (\<forall>p. q = Inr (Some p) \<longrightarrow> pair_ok p)"
    using lawful [OF _ g] by blast
  show ?thesis
  proof (cases q)
    case (Inl err)
    then show ?thesis using assms law g
      by (auto simp: cached_get_def Let_def pairs_ok_delete pairs_okD split: option.splits if_splits)
  next
    case (Inr b)
    then show ?thesis using assms law g
      by (cases b) (auto simp: cached_get_def Let_def pairs_ok_delete pairs_ok_update pairs_okD split: option.splits if_splits)
  qed
qed

end

subsection \<open>The contract holds\<close>

definition mock_good :: "mock \<Rightarrow> bool" where
  "mock_good m \<longleftrightarrow> (\<forall>k c. map_of (m_confs m) k = Some c \<longrightarrow> unit_dec c)"

lemma mock_lawful:
  assumes "mock_good m" and "mock_get m now x y ts = (m1, r)"
  shows "mock_good m1 \<and> r \<noteq> Inl BadConfidence \<and> (\<forall>p. r = Inr (Some p) \<longrightarrow> pair_ok p)"
proof -
  have mp: "map_sum id Some (make_pair p) \<noteq> Inl BadConfidence \<and> (\<forall>q. map_sum id Some (make_pair p) = Inr (Some q) \<longrightarrow> pair_ok q)"
    if "unit_dec (p_conf p)" for p
    using make_pair_confidence [OF that] make_pair_Inr [of p] by (cases "make_pair p") auto
  show ?thesis
  proof (cases "same_asset x y")
    case True
    let ?p = "\<lparr>p_from = x, p_to = y, p_rate = Dec 10 (- 1), p_time = moment_or_now now ts,
      p_source = ''identity'', p_liquidity = None, p_conf = Dec 10 (- 1)\<rparr>"
    show ?thesis using assms mp [of ?p] units(1) True by (auto simp: mock_get_def)
  next
    case False
    show ?thesis
    proof (cases "map_of (m_rates m) (pair_key x y)")
      case (Some rate)
      let ?c = "case map_of (m_confs m) (pair_key x y) of None \<Rightarrow> Dec 10 (- 1) | Some c \<Rightarrow> c"
      let ?p = "\<lparr>p_from = x, p_to = y, p_rate = rate, p_time = moment_or_now now ts, p_source = ''mock'', p_liquidity = None, p_conf = ?c\<rparr>"
      have "unit_dec c" if "map_of (m_confs m) k = Some c" for k c using assms(1) that unfolding mock_good_def by blast
      then have "unit_dec ?c" using units(1) by (cases "map_of (m_confs m) (pair_key x y)") simp_all
      then show ?thesis using assms mp [of ?p] False Some by (simp add: mock_get_def) blast
    qed (use assms False in \<open>auto simp: mock_get_def\<close>)
  qed
qed

interpretation mock: rate_provider mock_get mock_good
  by unfold_locales (rule mock_lawful)

interpretation cached_mock: rate_provider "cached_get ttl mock_get" "\<lambda>c. mock_good (c_inner c) \<and> pairs_ok (c_entries c)" for ttl
  by unfold_locales (rule mock.cached_lawful)

lemma set_rate_good: "mock_good m \<Longrightarrow> unit_dec conf \<Longrightarrow> mock_good (fst (set_rate m x y rate conf))"
  by (auto simp: set_rate_def Let_def mock_good_def update_conv' split: option.splits)

lemma default_mock_good: "mock_good default_mock"
  unfolding default_mock_def by (intro set_rate_good units) (simp add: mock_good_def)

text \<open>
  C32. With a provider whose confidences are between 0 and 1, cached or not, every conversion, aggregation and
  conversion through an intermediate asset returns a confidence between 0 and 1 and is never refused for its
  confidence, in spite of the rounding of the products.\<close>

theorem confidences_stay_valid:
  assumes "mock_good (c_inner c) \<and> pairs_ok (c_entries c)"
  shows "sound (snd (normalize_amount (cached_get ttl mock_get) c now a x y ts)) \<and>
    sound (snd (multi_hop_normalize (cached_get ttl mock_get) c now a x y ts)) \<and>
    sound (snd (aggregate_normalized (cached_get ttl mock_get) c now xs y ts)) \<and>
    sound (snd (multi_hop_normalize mock_get (c_inner c) now a x y ts))"
  by (intro conjI conjunct2 [OF cached_mock.normalize_sound [OF assms prod.collapse [symmetric]]]
      conjunct2 [OF cached_mock.multi_hop_sound [OF assms prod.collapse [symmetric]]]
      conjunct2 [OF cached_mock.aggregate_sound [OF assms prod.collapse [symmetric]]]
      conjunct2 [OF mock.multi_hop_sound [OF conjunct1 [OF assms] prod.collapse [symmetric]]])

lemma confidences_stay_valid_witness:
  "let c = \<lparr>c_inner = default_mock, c_entries = []\<rparr>; get = cached_get 300000000 mock_get in
    sound (snd (normalize_amount get c 0 (Checked (Dec 1 0)) usdc xlm None)) \<and>
    sound (snd (multi_hop_normalize get c 0 (Checked (Dec 1 0)) usdc xlm None)) \<and>
    sound (snd (aggregate_normalized get c 0 [(Checked (Dec 1 0), usdc)] xlm None)) \<and>
    sound (snd (multi_hop_normalize mock_get (c_inner c) 0 (Checked (Dec 1 0)) usdc xlm None))"
  unfolding Let_def by (rule confidences_stay_valid) (simp add: default_mock_good pairs_ok_def)

subsection \<open>Rates of the past\<close>

text \<open>The mock provider stamps a rate with the time asked for.\<close>

lemma mock_get_time: "mock_get m now x y (Some t) = (m1, Inr (Some p)) \<Longrightarrow> p_time p = t"
  by (auto simp: mock_get_def moment_or_now_def make_pair_Inr split: if_splits option.splits sum.splits)
    (auto simp: map_sum_def make_pair_Inr split: sum.splits)

lemma mock_get_state: "fst (mock_get m now x y ts) = m"
  by (simp add: mock_get_def)

lemma normalize_past:
  assumes "\<not> same_asset a base" and "staleness_threshold < now - t"
    and "normalize_amount mock_get m now x a base (Some (Wall t)) = (m1, Inr r)"
  shows "\<not> is_successful r"
proof (cases "arg_decimal x")
  case (Inr d)
  obtain m2 q where g: "mock_get m now a base (Some (Wall t)) = (m2, q)" by (rule prod.exhaust)
  show ?thesis
  proof (cases q)
    case (Inr b)
    show ?thesis
    proof (cases b)
      case None
      then show ?thesis using assms g Inr \<open>arg_decimal x = Inr d\<close>
        by (auto simp: normalize_amount_def make_norm_unit units is_successful_def)
    next
      case (Some p)
      have "p_time p = Wall t" using mock_get_time g Inr Some by blast
      then have "pair_stale now p staleness_threshold = Inr True" using assms(2) by (simp add: pair_stale_def)
      then have "n_status r = StaleRate" if "convert_with now d a base p = Inr r"
        using that by (auto simp: convert_with_def make_norm_def split: option.splits)
      then show ?thesis using assms g Inr Some \<open>arg_decimal x = Inr d\<close> by (auto simp: normalize_amount_def is_successful_def)
    qed
  qed (use assms g \<open>arg_decimal x = Inr d\<close> in \<open>auto simp: normalize_amount_def\<close>)
qed (use assms in \<open>auto simp: normalize_amount_def\<close>)

lemma aggregate_past:
  assumes "staleness_threshold < now - t"
  shows "\<forall>(x, a)\<in>set xs. \<not> same_asset a base \<Longrightarrow> aggregate_from mock_get m now g xs base (Some (Wall t)) = (m1, Inr g1) \<Longrightarrow>
    g1 = (if xs = [] then g else g\<lparr>g_ok := False\<rparr>)"
proof (induction xs arbitrary: m g)
  case (Cons xa xs)
  obtain x a where xa: "xa = (x, a)" by (rule prod.exhaust)
  obtain m2 q where n: "normalize_amount mock_get m now x a base (Some (Wall t)) = (m2, q)" by (rule prod.exhaust)
  show ?case
  proof (cases q)
    case (Inr r)
    have "\<not> is_successful r" using normalize_past [OF _ assms n [unfolded Inr]] Cons.prems(1) by (auto simp: xa)
    then have "aggregate_from mock_get m2 now (g\<lparr>g_ok := False\<rparr>) xs base (Some (Wall t)) = (m1, Inr g1)"
      using Cons.prems(2) n Inr by (simp add: xa add_norm_def)
    from Cons.IH [OF _ this] Cons.prems(1) show ?thesis by (auto simp: xa)
  qed (use Cons.prems n in \<open>auto simp: xa\<close>)
qed auto

text \<open>
  The staleness of a rate is its age at the time of the call, also when the rate of a past time was asked for:
  an aggregation of foreign amounts at a time more than five minutes past is always zero, with the status of an error.\<close>

theorem past_aggregate_is_zero:
  assumes "staleness_threshold < now - t" and "\<forall>(x, a)\<in>set xs. \<not> same_asset a base" and "xs \<noteq> []"
    and "aggregate_normalized mock_get m now xs base (Some (Wall t)) = (m1, Inr r)"
  shows "n_value r = dec_nought \<and> n_status r = NormError"
proof -
  let ?g = "\<lparr>g_total = dec_nought, g_conf = Dec 10 (- 1), g_ok = True, g_path = []\<rparr>"
  obtain m2 q where a: "aggregate_from mock_get m now ?g xs base (Some (Wall t)) = (m2, q)" by (rule prod.exhaust)
  show ?thesis
  proof (cases q)
    case (Inr g1)
    from aggregate_past [OF assms(1,2) a [unfolded Inr]] assms(3) have "g1 = ?g\<lparr>g_ok := False\<rparr>" by simp
    then show ?thesis using assms(3,4) a Inr by (auto simp: aggregate_normalized_def make_norm_unit units)
  qed (use assms a in \<open>auto simp: aggregate_normalized_def\<close>)
qed

definition demo_mock :: mock where
  "demo_mock = \<lparr>m_rates = [(pair_key usdc xlm, Dec 85 (- 1))], m_confs = [(pair_key usdc xlm, Dec 95 (- 2))]\<rparr>"

definition demo_pair :: "moment \<Rightarrow> currency_pair" where
  "demo_pair t = \<lparr>p_from = usdc, p_to = xlm, p_rate = Dec 85 (- 1), p_time = t, p_source = ''mock'', p_liquidity = None, p_conf = Dec 95 (- 2)\<rparr>"

lemma demo_get: "mock_get demo_mock now usdc xlm ts = (demo_mock, Inr (Some (demo_pair (moment_or_now now ts))))"
proof -
  have "pair_ok (demo_pair t)" for t by (simp add: pair_ok_def demo_pair_def less_dec_iff dval_Dec units)
  then have "make_pair (demo_pair t) = Inr (demo_pair t)" for t by (simp add: make_pair_Inr)
  then show ?thesis by (simp add: mock_get_def demo_mock_def demo_pair_def same_asset_def usdc_def xlm_def)
qed

lemma foreign: "\<not> same_asset usdc xlm" "\<not> same_asset usdt xlm" "\<not> same_asset xlm usdc"
  by (simp_all add: same_asset_def usdc_def usdt_def xlm_def)

lemma dec_mul_eval: "dec_mul std_ctx (Dec c e) (Dec d f) = Some (dec_fix std_ctx (c * d) (e + f))"
  by (simp add: dec_mul_def)

lemma dec_fix_small: "\<bar>c\<bar> < 10 ^ 28 \<Longrightarrow> dec_fix std_ctx c e = Dec c e"
  by (rule dec_fix_fits) simp_all

lemma past_aggregate_is_zero_witness:
  "\<exists>m1 r. aggregate_normalized mock_get demo_mock 400000000 [(Checked (Dec 100 0), usdc)] xlm (Some (Wall 0)) = (m1, Inr r) \<and>
    n_value r = dec_nought \<and> n_status r = NormError"
proof -
  have "dec_mul std_ctx (Dec 95 (- 2)) (Dec 5 (- 1)) = Some (Dec 475 (- 3))" by (simp add: dec_mul_eval dec_fix_small)
  moreover have "unit_dec (Dec 475 (- 3))" by (simp add: unit_dec_def finite_dec_def dval_Dec power_int_minus)
  ultimately obtain r where r:
    "aggregate_normalized mock_get demo_mock 400000000 [(Checked (Dec 100 0), usdc)] xlm (Some (Wall 0)) = (demo_mock, Inr r)"
    by (simp add: aggregate_normalized_def normalize_amount_def arg_decimal_def foreign demo_get moment_or_now_def
        convert_with_def pair_stale_def demo_pair_def dec_mul_eval make_norm_unit add_norm_def is_successful_def units)
  from past_aggregate_is_zero [OF _ _ _ r] foreign r show ?thesis by auto
qed

text \<open>A time with a time zone, as the trades of the ledger have, makes the conversion raise \<open>TypeError\<close>.\<close>

lemma zoned_time_raises:
  "normalize_amount mock_get demo_mock now (Checked (Dec 100 0)) usdc xlm (Some (Zoned t)) = (demo_mock, Inl MixedTimezones)"
  by (simp add: normalize_amount_def arg_decimal_def foreign demo_get moment_or_now_def convert_with_def pair_stale_def demo_pair_def)

text \<open>At the present time the conversion is the product with the rate.\<close>

lemma present_conversion:
  "snd (normalize_amount mock_get demo_mock now (Checked (Dec 100 0)) usdc xlm None) =
     Inr \<lparr>n_value = Dec 8500 (- 1), n_base = xlm, n_original = Dec 100 0, n_asset = usdc, n_rate = Some (demo_pair (Wall now)),
       n_conf = Dec 95 (- 2), n_status = Success, n_path = [usdc, xlm]\<rparr>"
  by (simp add: normalize_amount_def arg_decimal_def foreign demo_get moment_or_now_def convert_with_def pair_stale_def
      demo_pair_def dec_mul_eval dec_fix_small make_norm_unit units)

subsection \<open>Who counts as a dollar\<close>

text \<open>
  A new classifier takes any issued asset whose code is one of five, and any asset of a known issuer, for a
  stablecoin; the strategy for dollars then returns its amount one to one, with confidence 0.99 and without asking
  the provider, whoever issued it.\<close>

theorem anyone_issues_dollars:
  assumes "a_issuer a = Some issuer" and "a_code a \<in> {''USDC'', ''USDT'', ''USDD'', ''DAI'', ''BUSD''} \<or> issuer \<in> set known_issuers"
    and "new_classifier (asset_key a) = None"
  shows "\<exists>st r. usd_normalize get (s, new_classifier) now (Checked d) a ts = (st, Inr r) \<and> fst st = s \<and>
    n_value r = d \<and> n_base r = usdc \<and> n_status r = Success \<and> n_conf r = Dec 99 (- 2)"
  using assms by (auto simp: usd_normalize_def is_stablecoin_def classify_def fresh_metadata_def arg_decimal_def make_norm_unit units)

lemma anyone_issues_dollars_witness:
  "\<exists>st r. usd_normalize mock_get (demo_mock, new_classifier) 0 (Checked (Dec 1000000 0)) \<lparr>a_code = ''USDC'', a_issuer = Some ''GEVIL''\<rparr> None = (st, Inr r) \<and>
    fst st = demo_mock \<and> n_value r = Dec 1000000 0 \<and> n_base r = usdc \<and> n_status r = Success \<and> n_conf r = Dec 99 (- 2)"
  by (rule anyone_issues_dollars) (simp_all add: new_classifier_def asset_key_def usdc_def usdt_def xlm_def)

text \<open>The data model allows the issuer \<open>native\<close> for XLM too; such an XLM has no rate to XLM.\<close>

lemma native_issuer_is_foreign:
  "n_status r = NoRate" if "snd (normalize_amount mock_get default_mock now (Checked d) \<lparr>a_code = ''XLM'', a_issuer = Some ''native''\<rparr> xlm None) = Inr r"
proof -
  have "map_of (m_rates default_mock) (pair_key \<lparr>a_code = ''XLM'', a_issuer = Some ''native''\<rparr> xlm) = None"
    by (simp add: default_mock_def set_rate_def Let_def pair_key_def asset_key_def usdc_def usdt_def xlm_def dec_div_def update_conv')
  then show ?thesis using that
    by (auto simp: normalize_amount_def arg_decimal_def mock_get_def same_asset_def xlm_def make_norm_unit units)
qed

text \<open>Setting a rate of zero raises, but the forward rate stays stored and makes every later lookup raise.\<close>

lemma zero_rate_sticks:
  "case set_rate demo_mock usdc xlm (Dec 0 0) dec_one of (m, err) \<Rightarrow>
     err = Some BadNumber \<and> mock_get m now usdc xlm ts = (m, Inl BadRate)"
  by (simp add: set_rate_def Let_def demo_mock_def dec_div_def mock_get_def foreign make_pair_def)

subsection \<open>The cache\<close>

text \<open>
  A rate found is returned again without asking the provider, whatever its state, until the time to live is
  over; then the provider is asked.\<close>

theorem cache_until_ttl:
  assumes "cached_get ttl get c now x y ts = (c1, Inr (Some p))" and "map_of (c_entries c) (fx_key x y ts) = None"
  shows "if later - now < ttl then cached_get ttl get c1 later x y ts = (c1, Inr (Some p))
    else snd (cached_get ttl get c1 later x y ts) = snd (get (c_inner c1) later x y ts)"
proof -
  obtain s where "get (c_inner c) now x y ts = (s, Inr (Some p))"
    and c1: "c1 = c\<lparr>c_inner := s, c_entries := AList.update (fx_key x y ts) (p, now) (c_entries c)\<rparr>"
    using assms by (auto simp: cached_get_def Let_def split: prod.splits sum.splits option.splits)
  then have e: "map_of (c_entries c1) (fx_key x y ts) = Some (p, now)" by (simp add: update_conv')
  show ?thesis by (auto simp: cached_get_def Let_def e split: prod.splits sum.splits option.splits)
qed

lemma cache_until_ttl_witness:
  "\<exists>c1 p. cached_get 300 mock_get \<lparr>c_inner = demo_mock, c_entries = []\<rparr> 0 usdc xlm None = (c1, Inr (Some p)) \<and>
    (if 299 - 0 < (300::int) then cached_get 300 mock_get c1 299 usdc xlm None = (c1, Inr (Some p))
     else snd (cached_get 300 mock_get c1 299 usdc xlm None) = snd (mock_get (c_inner c1) 299 usdc xlm None))"
proof -
  obtain c1 p where g: "cached_get 300 mock_get \<lparr>c_inner = demo_mock, c_entries = []\<rparr> 0 usdc xlm None = (c1, Inr (Some p))"
    by (simp add: cached_get_def Let_def demo_get)
  from cache_until_ttl [OF g, of 299] g show ?thesis by auto
qed

subsection \<open>Conversion through an intermediate asset\<close>

definition hop_result :: "'s get_rate \<Rightarrow> 's \<Rightarrow> int \<Rightarrow> amount_arg \<Rightarrow> asset \<Rightarrow> asset \<Rightarrow> moment option \<Rightarrow> asset \<Rightarrow> (norm \<times> pydec) option" where
  "hop_result get s now a x base ts via = (case snd (hop_through get s now a x base ts via) of Inr b \<Rightarrow> b | Inl err \<Rightarrow> None)"

text \<open>The result of a hop that was chosen.\<close>

definition chosen :: "asset \<Rightarrow> asset \<Rightarrow> asset \<Rightarrow> norm \<times> pydec \<Rightarrow> norm \<Rightarrow> bool" where
  "chosen x base via hc r \<longleftrightarrow> n_value r = n_value (fst hc) \<and> n_conf r = snd hc \<and> n_path r = [x, via, base] \<and> n_status r = MultiHop"

lemma normalize_pure: "(\<And>s now x y ts. fst (get s now x y ts) = s) \<Longrightarrow> fst (normalize_amount get s now a x y ts) = s"
  by (auto simp: normalize_amount_def split: sum.splits prod.splits option.splits) (metis fst_conv)+

lemma hop_pure:
  assumes "\<And>s now x y ts. fst (get s now x y ts) = s"
  shows "fst (hop_through get s now a x base ts via) = s"
proof -
  obtain s2 q1 where n1: "normalize_amount get s now a x via ts = (s2, q1)" by (rule prod.exhaust)
  then have "s2 = s" using normalize_pure [of get s now a x via ts] assms by simp
  then show ?thesis using n1 normalize_pure [of get s now _ via base ts, OF assms]
    by (auto simp: hop_through_def split: sum.splits prod.splits) (metis fst_conv)+
qed

context rate_provider
begin

lemma best_hop_best:
  assumes pure: "\<And>s now x y ts. fst (get s now x y ts) = s" and "good s"
  shows "finite_dec conf \<Longrightarrow> best_hop get s now a x base ts best conf vias = (s1, Inr r) \<Longrightarrow>
    \<exists>k. dval conf \<le> dval k \<and> (\<forall>via\<in>set vias. \<forall>h c. hop_result get s now a x base ts via = Some (h, c) \<longrightarrow> dval c \<le> dval k) \<and>
      (r = best \<and> k = conf \<or> (\<exists>via\<in>set vias. \<exists>hc. hop_result get s now a x base ts via = Some hc \<and> chosen x base via hc r \<and> k = snd hc))"
proof (induction vias arbitrary: best conf)
  case Nil
  then show ?case by auto
next
  case (Cons via vias)
  let ?R = "hop_result get s now a x base ts"
  obtain q where h: "hop_through get s now a x base ts via = (s, q)"
    using hop_pure [of get s now a x base ts via, OF pure] by (metis prod.collapse)
  note law = hop_sound [OF assms(2) h]
  from Cons.prems(2) h obtain b where q: "q = Inr b" by (cases q) auto
  have R: "?R via = b" by (simp add: hop_result_def h q)
  show ?case
  proof (cases "\<exists>h2 c. b = Some (h2, c) \<and> less_dec conf c")
    case True
    then obtain h2 c where b: "b = Some (h2, c)" "less_dec conf c" by blast
    have c: "unit_dec c" using law q b by auto
    then have fc: "finite_dec c" by (simp add: unit_dec_def)
    then have lt: "dval conf < dval c" using Cons.prems(1) b(2) by (auto simp: finite_dec_def less_dec_iff)
    from Cons.prems(2) obtain d where d: "arg_decimal a = Inr d" by (cases "arg_decimal a") (auto simp: h q b)
    let ?n = "\<lparr>n_value = n_value h2, n_base = base, n_original = d, n_asset = x, n_rate = n_rate h2,
      n_conf = c, n_status = MultiHop, n_path = [x, via, base]\<rparr>"
    have "best_hop get s now a x base ts ?n c vias = (s1, Inr r)" using Cons.prems(2) h q b d c by (simp add: make_norm_unit)
    from Cons.IH [OF fc this] obtain k where
      k: "dval c \<le> dval k" "\<forall>via\<in>set vias. \<forall>h c. ?R via = Some (h, c) \<longrightarrow> dval c \<le> dval k"
        "r = ?n \<and> k = c \<or> (\<exists>via\<in>set vias. \<exists>hc. ?R via = Some hc \<and> chosen x base via hc r \<and> k = snd hc)" by blast
    have "chosen x base via (h2, c) ?n" by (simp add: chosen_def)
    then have "\<exists>via'\<in>set (via # vias). \<exists>hc. ?R via' = Some hc \<and> chosen x base via' hc r \<and> k = snd hc"
      using k(3) R b(1) by fastforce
    moreover have "\<forall>via'\<in>set (via # vias). \<forall>h c. ?R via' = Some (h, c) \<longrightarrow> dval c \<le> dval k" using k(1,2) R b(1) by auto
    ultimately show ?thesis using k(1) lt by (intro exI [of _ k]) auto
  next
    case False
    then have "best_hop get s now a x base ts best conf vias = (s1, Inr r)"
      using Cons.prems(2) h q by (cases b) (auto split: if_splits)
    from Cons.IH [OF Cons.prems(1) this] obtain k where
      k: "dval conf \<le> dval k" "\<forall>via\<in>set vias. \<forall>h c. ?R via = Some (h, c) \<longrightarrow> dval c \<le> dval k"
        "r = best \<and> k = conf \<or> (\<exists>via\<in>set vias. \<exists>hc. ?R via = Some hc \<and> chosen x base via hc r \<and> k = snd hc)" by blast
    have "dval c \<le> dval k" if "?R via = Some (h2, c)" for h2 c
    proof -
      have "b = Some (h2, c)" using that R by simp
      then have "unit_dec c" "\<not> less_dec conf c" using law q False by auto
      then have "dval c \<le> dval conf" using Cons.prems(1) by (auto simp: unit_dec_def finite_dec_def less_dec_iff)
      then show ?thesis using k(1) by simp
    qed
    then show ?thesis using k by (intro exI [of _ k]) auto
  qed
qed

end

text \<open>
  C33. When there is no fresh direct rate, the result is the conversion through the liquid asset with the highest
  combined confidence, at its value; only when every path has confidence zero is it the direct attempt.\<close>

theorem multi_hop_best:
  assumes "mock_good m" and "snd (normalize_amount mock_get m now a x base ts) = Inr direct" and "\<not> is_successful direct"
    and "multi_hop_normalize mock_get m now a x base ts = (m1, Inr r)"
  shows "(\<exists>via\<in>set liquid_assets. \<exists>hc. hop_result mock_get m now a x base ts via = Some hc \<and> chosen x base via hc r \<and>
      (\<forall>via'\<in>set liquid_assets. \<forall>h c. hop_result mock_get m now a x base ts via' = Some (h, c) \<longrightarrow> dval c \<le> dval (n_conf r))) \<or>
    r = direct \<and> (\<forall>via\<in>set liquid_assets. \<forall>h c. hop_result mock_get m now a x base ts via = Some (h, c) \<longrightarrow> dval c \<le> 0)"
proof -
  have "fst (normalize_amount mock_get m now a x base ts) = m" by (rule normalize_pure) (rule mock_get_state)
  then have n: "normalize_amount mock_get m now a x base ts = (m, Inr direct)" using assms(2) by (metis prod.collapse)
  have b: "best_hop mock_get m now a x base ts direct (Dec 0 (- 1)) liquid_assets = (m1, Inr r)"
    using assms(3,4) n by (simp add: multi_hop_normalize_def)
  have fd: "finite_dec (Dec 0 (- 1))" by (simp add: finite_dec_def)
  have z: "dval (Dec 0 (- 1)) = 0" by (simp add: dval_Dec)
  from mock.best_hop_best [OF mock_get_state assms(1) fd b] obtain k where
    k: "\<forall>via\<in>set liquid_assets. \<forall>h c. hop_result mock_get m now a x base ts via = Some (h, c) \<longrightarrow> dval c \<le> dval k"
      "r = direct \<and> k = Dec 0 (- 1) \<or> (\<exists>via\<in>set liquid_assets. \<exists>hc. hop_result mock_get m now a x base ts via = Some hc \<and> chosen x base via hc r \<and> k = snd hc)"
    by blast
  from k(2) show ?thesis
  proof (elim disjE conjE bexE exE)
    assume "r = direct" "k = Dec 0 (- 1)"
    then show ?thesis using k(1) z by simp
  next
    fix via hc assume "via \<in> set liquid_assets" "hop_result mock_get m now a x base ts via = Some hc" "chosen x base via hc r" "k = snd hc"
    moreover from this have "n_conf r = k" by (simp add: chosen_def)
    then have "\<forall>via'\<in>set liquid_assets. \<forall>h c. hop_result mock_get m now a x base ts via' = Some (h, c) \<longrightarrow> dval c \<le> dval (n_conf r)"
      using k(1) by simp
    ultimately show ?thesis by blast
  qed
qed

definition tok :: asset where
  "tok = \<lparr>a_code = ''TOK'', a_issuer = Some ''GTOK''\<rparr>"

definition hop_mock :: mock where
  "hop_mock = \<lparr>m_rates = [(pair_key tok xlm, Dec 2 0), (pair_key xlm usdc, Dec 5 (- 1))],
     m_confs = [(pair_key tok xlm, Dec 9 (- 1)), (pair_key xlm usdc, Dec 9 (- 1))]\<rparr>"

definition hop_pair :: "asset \<Rightarrow> asset \<Rightarrow> pydec \<Rightarrow> currency_pair" where
  "hop_pair x y rate = \<lparr>p_from = x, p_to = y, p_rate = rate, p_time = Wall 0, p_source = ''mock'', p_liquidity = None, p_conf = Dec 9 (- 1)\<rparr>"

lemma hop_mock_gets:
  "mock_get hop_mock 0 tok xlm None = (hop_mock, Inr (Some (hop_pair tok xlm (Dec 2 0))))"
  "mock_get hop_mock 0 xlm usdc None = (hop_mock, Inr (Some (hop_pair xlm usdc (Dec 5 (- 1)))))"
  "mock_get hop_mock 0 tok usdc None = (hop_mock, Inr None)" "mock_get hop_mock 0 tok usdt None = (hop_mock, Inr None)"
proof -
  have "pair_ok (hop_pair x y rate)" if "0 < dval rate" "finite_dec rate" for x y rate
    using that by (auto simp: pair_ok_def hop_pair_def finite_dec_def less_dec_iff dval_Dec units)
  then have "make_pair (hop_pair x y rate) = Inr (hop_pair x y rate)" if "0 < dval rate" "finite_dec rate" for x y rate
    using that by (simp add: make_pair_Inr)
  then have "make_pair (hop_pair tok xlm (Dec 2 0)) = Inr (hop_pair tok xlm (Dec 2 0))"
    "make_pair (hop_pair xlm usdc (Dec 5 (- 1))) = Inr (hop_pair xlm usdc (Dec 5 (- 1)))"
    by (simp_all add: dval_Dec finite_dec_def)
  then show "mock_get hop_mock 0 tok xlm None = (hop_mock, Inr (Some (hop_pair tok xlm (Dec 2 0))))"
    "mock_get hop_mock 0 xlm usdc None = (hop_mock, Inr (Some (hop_pair xlm usdc (Dec 5 (- 1)))))"
    "mock_get hop_mock 0 tok usdc None = (hop_mock, Inr None)" "mock_get hop_mock 0 tok usdt None = (hop_mock, Inr None)"
    by (simp_all add: mock_get_def hop_mock_def hop_pair_def same_asset_def usdc_def xlm_def usdt_def tok_def
        pair_key_def asset_key_def moment_or_now_def)
qed

lemma tok_foreign: "\<not> same_asset tok xlm" "\<not> same_asset tok usdc" "\<not> same_asset tok usdt" "\<not> same_asset xlm tok" "\<not> same_asset usdt tok"
  "\<not> same_asset usdt usdc" "same_asset usdc usdc" "\<not> same_asset xlm usdc"
  by (simp_all add: same_asset_def tok_def xlm_def usdc_def usdt_def)

lemma hop_norms:
  "normalize_amount mock_get hop_mock 0 (Checked (Dec 100 0)) tok usdc None =
     (hop_mock, Inr \<lparr>n_value = Dec 100 0, n_base = tok, n_original = Dec 100 0, n_asset = tok, n_rate = None,
       n_conf = Dec 0 (- 1), n_status = NoRate, n_path = [tok]\<rparr>)"
  "normalize_amount mock_get hop_mock 0 (Checked (Dec 100 0)) tok usdt None =
     (hop_mock, Inr \<lparr>n_value = Dec 100 0, n_base = tok, n_original = Dec 100 0, n_asset = tok, n_rate = None,
       n_conf = Dec 0 (- 1), n_status = NoRate, n_path = [tok]\<rparr>)"
  "normalize_amount mock_get hop_mock 0 (Checked (Dec 100 0)) tok xlm None =
     (hop_mock, Inr \<lparr>n_value = Dec 200 0, n_base = xlm, n_original = Dec 100 0, n_asset = tok, n_rate = Some (hop_pair tok xlm (Dec 2 0)),
       n_conf = Dec 9 (- 1), n_status = Success, n_path = [tok, xlm]\<rparr>)"
  "normalize_amount mock_get hop_mock 0 (Unchecked (Dec 200 0)) xlm usdc None =
     (hop_mock, Inr \<lparr>n_value = Dec 1000 (- 1), n_base = usdc, n_original = Dec 200 0, n_asset = xlm, n_rate = Some (hop_pair xlm usdc (Dec 5 (- 1))),
       n_conf = Dec 9 (- 1), n_status = Success, n_path = [xlm, usdc]\<rparr>)"
  by (simp_all add: normalize_amount_def arg_decimal_def tok_foreign hop_mock_gets make_norm_unit units convert_with_def pair_stale_def
      hop_pair_def dec_mul_eval dec_fix_small validate_amount_def to_pydec_def less_dec_iff dval_Dec)

text \<open>A token without a rate to the dollar is converted through XLM; the result is not \<open>is_successful\<close>.\<close>

lemma hop_run:
  "multi_hop_normalize mock_get hop_mock 0 (Checked (Dec 100 0)) tok usdc None =
     (hop_mock, Inr \<lparr>n_value = Dec 1000 (- 1), n_base = usdc, n_original = Dec 100 0, n_asset = tok, n_rate = Some (hop_pair xlm usdc (Dec 5 (- 1))),
       n_conf = Dec 729 (- 3), n_status = MultiHop, n_path = [tok, xlm, usdc]\<rparr>)"
proof -
  have "unit_dec (Dec 729 (- 3))" by (simp add: unit_dec_def finite_dec_def dval_Dec power_int_minus)
  moreover have "less_dec (Dec 0 (- 1)) (Dec 729 (- 3))" by (simp add: less_dec_iff dval_Dec)
  ultimately show ?thesis
    by (simp add: multi_hop_normalize_def hop_norms is_successful_def liquid_assets_def hop_through_def tok_foreign
        dec_mul_eval dec_fix_small arg_decimal_def make_norm_unit)
qed

lemma multi_hop_best_witness:
  "\<exists>m1 r. multi_hop_normalize mock_get hop_mock 0 (Checked (Dec 100 0)) tok usdc None = (m1, Inr r) \<and> n_path r = [tok, xlm, usdc] \<and>
    (\<exists>via hc. via \<in> set liquid_assets \<and> hop_result mock_get hop_mock 0 (Checked (Dec 100 0)) tok usdc None via = Some hc \<and> chosen tok usdc via hc r)"
proof -
  have "mock_good hop_mock" by (simp add: mock_good_def hop_mock_def units)
  from multi_hop_best [OF this _ _ hop_run] show ?thesis
    unfolding hop_run by (simp add: hop_norms is_successful_def) blast
qed

text \<open>The second hop takes the value as a \<open>Decimal\<close>, which must not be negative: a negative amount, allowed for the
  direct conversion, makes the conversion through an intermediate asset raise.\<close>

lemma negative_hop_raises:
  "multi_hop_normalize mock_get hop_mock 0 (Checked (Dec (- 100) 0)) tok usdc None = (hop_mock, Inl (BadAmount NegativeAmount))"
  by (simp add: multi_hop_normalize_def normalize_amount_def arg_decimal_def tok_foreign hop_mock_gets make_norm_unit units
      is_successful_def liquid_assets_def hop_through_def convert_with_def pair_stale_def hop_pair_def dec_mul_eval dec_fix_small
      validate_amount_def to_pydec_def less_dec_iff dval_Dec)

subsection \<open>Inverse rates\<close>

lemma unit_error_std: "unit_error std_ctx = 1 / 10 ^ 27"
  by (simp add: unit_error_def)

lemma less_dec_nought: "less_dec dec_nought (Dec c e) \<longleftrightarrow> 0 < dval (Dec c e)"
  by (simp add: less_dec_iff) (simp add: dval_Dec)

text \<open>The reciprocal of a positive rate.\<close>

lemma reciprocal_close:
  assumes "0 < dval (Dec c e)"
  shows "\<exists>c' e'. dec_div std_ctx dec_one (Dec c e) = Some (Dec c' e') \<and> 0 < dval (Dec c' e') \<and>
    \<bar>dval (Dec c' e') - 1 / dval (Dec c e)\<bar> \<le> 1 / dval (Dec c e) / 10 ^ 27"
proof -
  have c: "c \<noteq> 0" using assms by (auto simp: dval_Dec)
  have one: "dval dec_one = 1" by (simp add: dval_Dec)
  define y where "y = 1 / dval (Dec c e)"
  have y: "0 < y" using assms by (simp add: y_def)
  from dec_quotient_error [of std_ctx 1 c 0 e] c obtain c' e' where
    q: "dec_quotient std_ctx 1 0 c e = Dec c' e'" "\<bar>dval (Dec c' e') - y\<bar> \<le> 1 / 10 ^ 27 * \<bar>y\<bar>"
    by (auto simp: one y_def unit_error_std)
  have "0 < dval (Dec c' e')" 
  proof -
    have "1 / 10 ^ 27 * \<bar>y\<bar> < y" using y by simp
    then show ?thesis using q(2) by linarith
  qed
  then show ?thesis using c q y by (simp add: dec_div_def y_def)
qed

text \<open>
  The inverse of a pair with a finite rate always exists, is valid, swaps the assets and has the reciprocal rate
  up to one unit of the 27th decimal place, relatively.\<close>

theorem inverse_close:
  assumes "pair_ok p" and "finite_dec (p_rate p)"
  shows "\<exists>q. inverse_pair p = Inr q \<and> pair_ok q \<and> p_from q = p_to p \<and> p_to q = p_from p \<and>
    \<bar>dval (p_rate q) - 1 / dval (p_rate p)\<bar> \<le> 1 / dval (p_rate p) / 10 ^ 27"
proof -
  obtain c e where r: "p_rate p = Dec c e" using assms(2) by (auto simp: finite_dec_def)
  have "0 < dval (Dec c e)" using assms(1) by (simp add: pair_ok_def r less_dec_nought)
  from reciprocal_close [OF this] obtain c' e' where
    i: "dec_div std_ctx dec_one (Dec c e) = Some (Dec c' e')" "0 < dval (Dec c' e')"
      "\<bar>dval (Dec c' e') - 1 / dval (Dec c e)\<bar> \<le> 1 / dval (Dec c e) / 10 ^ 27" by blast
  let ?q = "p\<lparr>p_from := p_to p, p_to := p_from p, p_rate := Dec c' e'\<rparr>"
  have "pair_ok ?q" using assms(1) i(2) by (simp add: pair_ok_def less_dec_nought)
  then have "inverse_pair p = Inr ?q" by (simp add: inverse_pair_def r i(1) make_pair_Inr)
  then show ?thesis using \<open>pair_ok ?q\<close> i(3) by (simp add: r)
qed

lemma inverse_close_witness:
  "\<exists>q. inverse_pair (demo_pair (Wall 0)) = Inr q \<and> pair_ok q \<and> p_from q = xlm \<and> p_to q = usdc \<and>
    \<bar>dval (p_rate q) - 1 / dval (Dec 85 (- 1))\<bar> \<le> 1 / dval (Dec 85 (- 1)) / 10 ^ 27"
  using inverse_close [of "demo_pair (Wall 0)"]
  by (simp add: pair_ok_def demo_pair_def less_dec_nought dval_Dec units finite_dec_def)

text \<open>Three small relative errors together.\<close>

lemma three_errors:
  fixes a b c r s u :: rat
  assumes "0 \<le> u" "u \<le> 1 / 10" "0 < r" and b: "2 * \<bar>b - a * r\<bar> \<le> u * \<bar>a * r\<bar>" and s: "\<bar>s - 1 / r\<bar> \<le> 1 / r * u"
    and c: "2 * \<bar>c - b * s\<bar> \<le> u * \<bar>b * s\<bar>"
  shows "\<bar>c - a\<bar> \<le> 3 * u * \<bar>a\<bar>"
proof -
  define A where "A = \<bar>a\<bar>"
  have A: "0 \<le> A" by (simp add: A_def)
  have "b / r - a = (b - a * r) / r" using assms(3) by (simp add: diff_divide_distrib)
  then have d: "2 * \<bar>b / r - a\<bar> = 2 * \<bar>b - a * r\<bar> / r" using assms(3) by simp
  have "2 * \<bar>b - a * r\<bar> / r \<le> u * \<bar>a * r\<bar> / r" using b by (rule divide_right_mono) (use assms(3) in simp)
  also have "\<dots> = u * A" using assms(3) by (simp add: abs_mult A_def)
  finally have 1: "2 * \<bar>b / r - a\<bar> \<le> u * A" unfolding d .
  have br: "\<bar>b / r\<bar> \<le> A + u * A / 2" 
  proof -
    have "\<bar>z\<bar> \<le> A + U / 2" if "2 * \<bar>z - a\<bar> \<le> U" for z U :: rat
      using that abs_triangle_ineq [of "z - a" a] unfolding A_def by simp
    from this [OF 1] show ?thesis .
  qed
  have "b * s - b / r = b * (s - 1 / r)" by (simp add: right_diff_distrib)
  then have "\<bar>b * s - b / r\<bar> = \<bar>b\<bar> * \<bar>s - 1 / r\<bar>" by (simp only: abs_mult)
  also have "\<dots> \<le> \<bar>b\<bar> * (1 / r * u)" using s by (intro mult_left_mono) auto
  also have "\<dots> = u * \<bar>b / r\<bar>" using assms(3) by simp
  also have "\<dots> \<le> u * (A + u * A / 2)" using br assms(1) by (rule mult_left_mono)
  finally have 2: "\<bar>b * s - b / r\<bar> \<le> u * (A + u * A / 2)" .
  have uA: "u * (u * A) \<le> 1 / 10 * (u * A)" using assms(1,2) A by (intro mult_right_mono) auto
  have U: "0 \<le> u * A" using assms(1) A by simp
  have bs: "\<bar>b * s\<bar> \<le> A + u * A / 2 + u * (A + u * A / 2)" using 2 br by linarith
  have "2 * \<bar>c - b * s\<bar> \<le> u * (A + u * A / 2 + u * (A + u * A / 2))"
    using c bs assms(1) mult_left_mono [OF bs assms(1)] by linarith
  also have "\<dots> = u * A + 3 / 2 * (u * (u * A)) + u * (u * (u * A)) / 2" by (simp add: algebra_simps)
  finally have 3: "2 * \<bar>c - b * s\<bar> \<le> u * A + 3 / 2 * (u * (u * A)) + u * (u * (u * A)) / 2" .
  have "u * (u * (u * A)) \<le> 1 / 10 * (u * (u * A))" using assms(1,2) A by (intro mult_right_mono) auto
  moreover have "u * (A + u * A / 2) = u * A + u * (u * A) / 2" by (simp add: algebra_simps)
  moreover have "X + Y + Z \<le> 3 * w" if "2 * X \<le> w" "Y \<le> V" "2 * Z \<le> w + 3 / 2 * w2 + w3 / 2" "w3 \<le> 1 / 10 * w2" "V = w + w2 / 2"
    "w2 \<le> 1 / 10 * w" "0 \<le> w" for X Y Z V w w2 w3 :: rat using that by linarith
  ultimately have "\<bar>b / r - a\<bar> + \<bar>b * s - b / r\<bar> + \<bar>c - b * s\<bar> \<le> 3 * (u * A)" using 1 2 3 uA U by blast
  moreover have "\<bar>c - a\<bar> \<le> \<bar>b / r - a\<bar> + \<bar>b * s - b / r\<bar> + \<bar>c - b * s\<bar>"
    using abs_triangle_ineq [of "c - b * s" "b * s - a"] abs_triangle_ineq [of "b * s - b / r" "b / r - a"] by simp
  ultimately have "\<bar>c - a\<bar> \<le> 3 * (u * A)" by (rule order_trans [rotated])
  then show ?thesis by (simp add: A_def)
qed

text \<open>
  C18. Converting an amount with a fresh rate and back with the inverse pair gives the amount up to three units of the
  27th decimal place, relatively.\<close>

theorem conversion_round_trip:
  assumes "pair_ok p" and "finite_dec (p_rate p)" and "finite_dec amount"
    and "convert_with now amount (p_from p) (p_to p) p = Inr there"
    and "inverse_pair p = Inr q" and "convert_with now (n_value there) (p_to p) (p_from p) q = Inr back"
  shows "\<bar>dval (n_value back) - dval amount\<bar> \<le> 3 * (1 / 10 ^ 27) * \<bar>dval amount\<bar>"
proof -
  obtain c e where r: "p_rate p = Dec c e" using assms(2) by (auto simp: finite_dec_def)
  obtain d f where a: "amount = Dec d f" using assms(3) by (auto simp: finite_dec_def)
  have pos: "0 < dval (Dec c e)" using assms(1) by (simp add: pair_ok_def r less_dec_nought)
  from reciprocal_close [OF pos] obtain c' e' where
    i: "dec_div std_ctx dec_one (Dec c e) = Some (Dec c' e')"
      "\<bar>dval (Dec c' e') - 1 / dval (Dec c e)\<bar> \<le> 1 / dval (Dec c e) / 10 ^ 27" by blast
  then have q: "p_rate q = Dec c' e'" using assms(5) by (auto simp: inverse_pair_def r make_pair_Inr)
  have val: "dec_mul std_ctx x (p_rate p') = Some (n_value y)" if "convert_with now x v w p' = Inr y" for x v w p' y
    using that by (auto simp: convert_with_def make_norm_def split: sum.splits option.splits if_splits)
  from dec_mul_close [of std_ctx d f c e] val [OF assms(4)] obtain c1 e1 where
    t: "n_value there = Dec c1 e1" "2 * \<bar>dval (Dec c1 e1) - dval (Dec d f) * dval (Dec c e)\<bar> \<le> 1 / 10 ^ 27 * \<bar>dval (Dec d f) * dval (Dec c e)\<bar>"
    by (auto simp: a r unit_error_std)
  from dec_mul_close [of std_ctx c1 e1 c' e'] val [OF assms(6)] obtain c2 e2 where
    b: "n_value back = Dec c2 e2" "2 * \<bar>dval (Dec c2 e2) - dval (Dec c1 e1) * dval (Dec c' e')\<bar> \<le> 1 / 10 ^ 27 * \<bar>dval (Dec c1 e1) * dval (Dec c' e')\<bar>"
    by (auto simp: t q unit_error_std)
  show ?thesis unfolding a b(1) by (rule three_errors [OF _ _ pos t(2) _ b(2)]) (use i(2) in simp_all)
qed

lemma conversion_round_trip_witness:
  "\<exists>there q back. convert_with 0 (Dec 100 0) usdc xlm (demo_pair (Wall 0)) = Inr there \<and> inverse_pair (demo_pair (Wall 0)) = Inr q \<and>
    convert_with 0 (n_value there) xlm usdc q = Inr back \<and>
    \<bar>dval (n_value back) - dval (Dec 100 0)\<bar> \<le> 3 * (1 / 10 ^ 27) * \<bar>dval (Dec 100 0)\<bar>"
proof -
  have ok: "pair_ok (demo_pair (Wall 0))" "finite_dec (p_rate (demo_pair (Wall 0)))"
    by (simp_all add: pair_ok_def demo_pair_def less_dec_nought dval_Dec units finite_dec_def)
  obtain there where t: "convert_with 0 (Dec 100 0) (p_from (demo_pair (Wall 0))) (p_to (demo_pair (Wall 0))) (demo_pair (Wall 0)) = Inr there"
    "n_value there = Dec 8500 (- 1)"
    by (simp add: convert_with_def pair_stale_def demo_pair_def dec_mul_eval dec_fix_small make_norm_unit units)
  obtain c e where i: "dec_div std_ctx dec_one (Dec 85 (- 1)) = Some (Dec c e)" "0 < dval (Dec c e)"
    using reciprocal_close [of 85 "- 1"] by (auto simp: dval_Dec)
  define q where "q = (demo_pair (Wall 0))\<lparr>p_from := xlm, p_to := usdc, p_rate := Dec c e\<rparr>"
  have q: "inverse_pair (demo_pair (Wall 0)) = Inr q"
    using i by (simp add: inverse_pair_def demo_pair_def q_def make_pair_Inr pair_ok_def less_dec_nought units)
  obtain ret where b: "convert_with 0 (n_value there) (p_to (demo_pair (Wall 0))) (p_from (demo_pair (Wall 0))) q = Inr ret"
    unfolding t(2) by (simp add: convert_with_def pair_stale_def q_def demo_pair_def dec_mul_eval make_norm_unit units)
  from conversion_round_trip [OF ok _ t(1) q b] t(1) q b show ?thesis by (auto simp: finite_dec_def demo_pair_def)
qed

end
