(* ===== verification/UnionFind.thy ===== *)
theory UnionFind
  imports Base
begin

text \<open>
  The union-find of \<open>detection/cross_chain/graph_partition.py\<close>, with path halving and union by size, and
  the resolution of a whole graph with it. The specification is the connectivity of the edges.

  A computation is \<open>None\<close> when a loop would not end, \<open>Inl\<close> when a dictionary lacks a key.
\<close>

type_synonym 'a run = "(unit + 'a) option"

definition and_then :: "'a run \<Rightarrow> ('a \<Rightarrow> 'b run) \<Rightarrow> 'b run" where
  "and_then m f = (case m of None \<Rightarrow> None | Some (Inl u) \<Rightarrow> Some (Inl u) | Some (Inr x) \<Rightarrow> f x)"

lemma and_then_simps [simp]: "and_then (Some (Inr x)) f = f x"
  by (simp add: and_then_def)

subsection \<open>The class\<close>

record union_find =
  uf_parent :: "(string, string) dict"
  uf_size :: "(string, nat) dict"

definition uf_empty :: union_find where
  "uf_empty = \<lparr>uf_parent = [], uf_size = []\<rparr>"

definition uf_contains :: "union_find \<Rightarrow> string \<Rightarrow> bool" where
  "uf_contains u x \<longleftrightarrow> dict_get (uf_parent u) x \<noteq> None"

definition uf_add :: "union_find \<Rightarrow> string \<Rightarrow> union_find" where
  "uf_add u x =
     (if uf_contains u x then u
      else u\<lparr>uf_parent := dict_set x x (uf_parent u), uf_size := dict_set x 1 (uf_size u)\<rparr>)"

text \<open>The loop of \<open>find\<close>: every node on the way is made to point to its grandparent.\<close>

partial_function (option) find_root :: "(string, string) dict \<Rightarrow> string \<Rightarrow> (string \<times> (string, string) dict) run" where
  "find_root p x =
     (case dict_get p x of
        None \<Rightarrow> Some (Inl ())
      | Some y \<Rightarrow>
          if y = x then Some (Inr (x, p))
          else (case dict_get p y of None \<Rightarrow> Some (Inl ()) | Some z \<Rightarrow> find_root (dict_set x z p) z))"

definition uf_find :: "union_find \<Rightarrow> string \<Rightarrow> (string \<times> union_find) run" where
  "uf_find u x = and_then (find_root (uf_parent u) x) (\<lambda>(r, p). Some (Inr (r, u\<lparr>uf_parent := p\<rparr>)))"

definition uf_link :: "union_find \<Rightarrow> string \<Rightarrow> string \<Rightarrow> union_find run" where
  "uf_link u ra rb =
     (if ra = rb then Some (Inr u)
      else (case (dict_get (uf_size u) ra, dict_get (uf_size u) rb) of
              (Some m, Some n) \<Rightarrow>
                (let (hi, lo) = (if m < n then (rb, ra) else (ra, rb))
                 in Some (Inr (u\<lparr>uf_parent := dict_set lo hi (uf_parent u), uf_size := dict_set hi (m + n) (uf_size u)\<rparr>)))
            | _ \<Rightarrow> Some (Inl ())))"

definition uf_union :: "union_find \<Rightarrow> string \<Rightarrow> string \<Rightarrow> union_find run" where
  "uf_union u a b =
     and_then (uf_find (uf_add (uf_add u a) b) a) (\<lambda>(ra, u1).
     and_then (uf_find u1 b) (\<lambda>(rb, u2). uf_link u2 ra rb))"

type_synonym edge = "string \<times> string"

fun union_all :: "union_find \<Rightarrow> edge list \<Rightarrow> union_find run" where
  "union_all u [] = Some (Inr u)"
| "union_all u ((a, b) # es) = and_then (uf_union u a b) (\<lambda>u1. union_all u1 es)"

fun find_all :: "union_find \<Rightarrow> string list \<Rightarrow> ((string, string) dict \<times> union_find) run" where
  "find_all u [] = Some (Inr ([], u))"
| "find_all u (x # xs) =
     and_then (uf_find u x) (\<lambda>(r, u1). and_then (find_all u1 xs) (\<lambda>(rs, u2). Some (Inr ((x, r) # rs, u2))))"

definition resolve_whole_graph :: "edge list \<Rightarrow> (string, string) dict run" where
  "resolve_whole_graph es =
     and_then (union_all uf_empty es) (\<lambda>u. and_then (find_all u (dict_keys (uf_parent u))) (\<lambda>(rs, u1). Some (Inr rs)))"

definition canonical_components :: "(string, string) dict \<Rightarrow> string set set" where
  "canonical_components asg = set (map (\<lambda>(x, r). {y. dict_get asg y = Some r}) asg)"

subsection \<open>Connectivity\<close>

definition linked :: "edge set \<Rightarrow> (string \<times> string) set" where
  "linked E = (E \<union> E\<inverse>)\<^sup>*"

definition nodes_of :: "edge set \<Rightarrow> string set" where
  "nodes_of E = fst ` E \<union> snd ` E"

lemma linked_refl [simp]: "(x, x) \<in> linked E"
  by (simp add: linked_def)

lemma linked_sym: "(x, y) \<in> linked E \<Longrightarrow> (y, x) \<in> linked E"
  unfolding linked_def by (meson converse_iff symD symI sym_Un_converse sym_rtrancl)

lemma linked_trans: "(x, y) \<in> linked E \<Longrightarrow> (y, z) \<in> linked E \<Longrightarrow> (x, z) \<in> linked E"
  unfolding linked_def by (rule rtrancl_trans)

lemma linked_edge: "(x, y) \<in> E \<Longrightarrow> (x, y) \<in> linked E"
  unfolding linked_def by blast

lemma linked_mono: "E \<subseteq> F \<Longrightarrow> linked E \<subseteq> linked F"
  unfolding linked_def by (intro rtrancl_mono) blast

lemma linked_empty [simp]: "linked {} = Id"
  by (simp add: linked_def)

text \<open>An equivalence that holds of every edge holds along every path.\<close>

lemma linked_induct:
  assumes "(x, y) \<in> linked E" and "P x x" and "\<And>u v. (u, v) \<in> E \<Longrightarrow> P x u \<Longrightarrow> P x v" and "\<And>u v. (u, v) \<in> E \<Longrightarrow> P x v \<Longrightarrow> P x u"
  shows "P x y"
  using assms(1) unfolding linked_def by (induction rule: rtrancl_induct) (use assms(2-4) in blast)+

lemma linked_insert:
  "(x, y) \<in> linked (insert (a, b) E) \<longleftrightarrow>
     (x, y) \<in> linked E \<or> (x, a) \<in> linked E \<and> (b, y) \<in> linked E \<or> (x, b) \<in> linked E \<and> (a, y) \<in> linked E"
proof
  assume "(x, y) \<in> linked (insert (a, b) E)"
  then show "(x, y) \<in> linked E \<or> (x, a) \<in> linked E \<and> (b, y) \<in> linked E \<or> (x, b) \<in> linked E \<and> (a, y) \<in> linked E"
  proof (rule linked_induct)
    fix u v assume "(u, v) \<in> insert (a, b) E"
      and "(x, u) \<in> linked E \<or> (x, a) \<in> linked E \<and> (b, u) \<in> linked E \<or> (x, b) \<in> linked E \<and> (a, u) \<in> linked E"
    then show "(x, v) \<in> linked E \<or> (x, a) \<in> linked E \<and> (b, v) \<in> linked E \<or> (x, b) \<in> linked E \<and> (a, v) \<in> linked E"
      by (metis insertE linked_edge linked_refl linked_trans linked_sym prod.inject)
  next
    fix u v assume "(u, v) \<in> insert (a, b) E"
      and "(x, v) \<in> linked E \<or> (x, a) \<in> linked E \<and> (b, v) \<in> linked E \<or> (x, b) \<in> linked E \<and> (a, v) \<in> linked E"
    then show "(x, u) \<in> linked E \<or> (x, a) \<in> linked E \<and> (b, u) \<in> linked E \<or> (x, b) \<in> linked E \<and> (a, u) \<in> linked E"
      by (metis insertE linked_edge linked_refl linked_trans linked_sym prod.inject)
  qed simp
next
  have ab: "(a, b) \<in> linked (insert (a, b) E)" by (rule linked_edge) simp
  have m: "linked E \<subseteq> linked (insert (a, b) E)" by (rule linked_mono) blast
  assume "(x, y) \<in> linked E \<or> (x, a) \<in> linked E \<and> (b, y) \<in> linked E \<or> (x, b) \<in> linked E \<and> (a, y) \<in> linked E"
  then show "(x, y) \<in> linked (insert (a, b) E)" using ab m linked_trans linked_sym by (meson subsetD)
qed

subsection \<open>The forest\<close>

text \<open>The representative and a rank that grows towards it.\<close>

definition forest :: "(string \<Rightarrow> string option) \<Rightarrow> (string \<Rightarrow> string) \<Rightarrow> (string \<Rightarrow> nat) \<Rightarrow> bool" where
  "forest P rep rk \<longleftrightarrow> (\<forall>x y. P x = Some y \<longrightarrow> P y \<noteq> None \<and> rep y = rep x \<and> (y \<noteq> x \<longrightarrow> rk x < rk y) \<and>
     rk x \<le> rk (rep x) \<and> P (rep x) = Some (rep x) \<and> (y = x \<longrightarrow> rep x = x))"

lemma forestD:
  assumes "forest P rep rk" and "P x = Some y"
  shows "P y \<noteq> None" "rep y = rep x" "y \<noteq> x \<Longrightarrow> rk x < rk y" "rk x \<le> rk (rep x)" "P (rep x) = Some (rep x)" "y = x \<Longrightarrow> rep x = x"
  using assms unfolding forest_def by blast+

lemma forest_halve:
  assumes "forest (dict_get p) rep rk" and "dict_get p x = Some y" and "y \<noteq> x" and "dict_get p y = Some z"
  shows "forest (dict_get (dict_set x z p)) rep rk"
proof -
  note x = forestD [OF assms(1,2)] and y = forestD [OF assms(1,4)]
  have zx: "rk x < rk z" using x(3) y(3) assms(3) by (cases "z = y") auto
  show ?thesis unfolding forest_def
  proof (intro allI impI)
    fix v w assume "dict_get (dict_set x z p) v = Some w"
    then show "dict_get (dict_set x z p) w \<noteq> None \<and> rep w = rep v \<and> (w \<noteq> v \<longrightarrow> rk v < rk w) \<and> rk v \<le> rk (rep v) \<and>
      dict_get (dict_set x z p) (rep v) = Some (rep v) \<and> (w = v \<longrightarrow> rep v = v)"
    proof (cases "v = x")
      case True
      then have "w = z" using \<open>dict_get (dict_set x z p) v = Some w\<close> by simp
      moreover have "rep x \<noteq> x" using x(5) assms(2,3) by auto
      ultimately show ?thesis using True x y zx assms(3) by auto
    next
      case False
      then have v: "dict_get p v = Some w" using \<open>dict_get (dict_set x z p) v = Some w\<close> by simp
      note f = forestD [OF assms(1) v]
      have "rep v \<noteq> x" using f(5) assms(2,3) by auto
      then show ?thesis using f by auto
    qed
  qed
qed

text \<open>\<open>find\<close> returns the representative, and only moves nodes closer to it.\<close>

lemma find_root_ok:
  "forest (dict_get p) rep rk \<Longrightarrow> dict_get p x \<noteq> None \<Longrightarrow>
   \<exists>q. find_root p x = Some (Inr (rep x, q)) \<and> forest (dict_get q) rep rk \<and>
     (\<forall>v. dict_get q v = None \<longleftrightarrow> dict_get p v = None) \<and> (\<forall>v. dict_get q v = Some v \<longleftrightarrow> dict_get p v = Some v) \<and>
     (dict_ok p \<longrightarrow> dict_ok q)"
proof (induction "rk (rep x) - rk x" arbitrary: p x rule: less_induct)
  case less
  then obtain y where y: "dict_get p x = Some y" by auto
  note f = forestD [OF less.prems(1) y]
  show ?case
  proof (cases "y = x")
    case True
    then have "find_root p x = Some (Inr (rep x, p))" using f(6) y by (subst find_root.simps) simp
    then show ?thesis using less.prems(1) by blast
  next
    case False
    obtain z where z: "dict_get p y = Some z" using f(1) by auto
    note fy = forestD [OF less.prems(1) z]
    have rz: "rk x < rk z" using f(3) fy(3) False by (cases "z = y") auto
    let ?p = "dict_set x z p"
    have fp: "forest (dict_get ?p) rep rk" by (rule forest_halve [OF less.prems(1) y False z])
    have zn: "dict_get ?p z \<noteq> None" using fy(1) by auto
    have rep: "rep z = rep x" using f(2) fy(2) by simp
    have "rk z \<le> rk (rep z)" using forestD(4) [OF fp] zn by blast
    then have "rk (rep z) - rk z < rk (rep x) - rk x" using rz rep by simp
    from less.hyps [OF this fp zn] obtain q where
      q: "find_root ?p z = Some (Inr (rep x, q))" "forest (dict_get q) rep rk"
        "\<forall>v. dict_get q v = None \<longleftrightarrow> dict_get ?p v = None" "\<forall>v. dict_get q v = Some v \<longleftrightarrow> dict_get ?p v = Some v" "dict_ok ?p \<longrightarrow> dict_ok q"
      using rep by auto
    have "find_root p x = Some (Inr (rep x, q))" using q(1) y z False by (subst find_root.simps) simp
    moreover have "z \<noteq> x" using rz by auto
    ultimately show ?thesis using q y False by (intro exI [of _ q]) auto
  qed
qed

text \<open>The invariant of the whole structure; the sizes bound the rank, and so the height.\<close>

definition uf_ok :: "union_find \<Rightarrow> (string \<Rightarrow> string) \<Rightarrow> (string \<Rightarrow> nat) \<Rightarrow> bool" where
  "uf_ok u rep rk \<longleftrightarrow> dict_ok (uf_parent u) \<and> forest (dict_get (uf_parent u)) rep rk \<and>
     (\<forall>r. dict_get (uf_parent u) r = Some r \<longrightarrow>
        (\<exists>n. dict_get (uf_size u) r = Some n \<and> n = card {x. uf_contains u x \<and> rep x = r} \<and> 2 ^ rk r \<le> n))"

lemma finite_nodes: "finite {x. uf_contains u x \<and> P x}"
proof -
  have "{x. uf_contains u x \<and> P x} \<subseteq> dom (dict_get (uf_parent u))" by (auto simp: uf_contains_def)
  then show ?thesis by (rule finite_subset) (rule finite_dom_map_of)
qed

lemma uf_find_ok:
  assumes "uf_ok u rep rk" and "uf_contains u x"
  shows "\<exists>u1. uf_find u x = Some (Inr (rep x, u1)) \<and> uf_ok u1 rep rk \<and> (\<forall>v. uf_contains u1 v \<longleftrightarrow> uf_contains u v)"
proof -
  from find_root_ok [of "uf_parent u" rep rk x] assms obtain q where
    q: "find_root (uf_parent u) x = Some (Inr (rep x, q))" "forest (dict_get q) rep rk"
      "\<forall>v. dict_get q v = None \<longleftrightarrow> dict_get (uf_parent u) v = None" "\<forall>v. dict_get q v = Some v \<longleftrightarrow> dict_get (uf_parent u) v = Some v" "dict_ok q"
    by (auto simp: uf_ok_def uf_contains_def)
  let ?u = "u\<lparr>uf_parent := q\<rparr>"
  have c: "uf_contains ?u v \<longleftrightarrow> uf_contains u v" for v using q(3) by (simp add: uf_contains_def)
  then have "uf_ok ?u rep rk" using assms(1) q unfolding uf_ok_def by simp
  then show ?thesis using q(1) c by (simp add: uf_find_def)
qed

text \<open>What the structure knows: its nodes, and the links among them.\<close>

definition uf_spec :: "union_find \<Rightarrow> string set \<Rightarrow> edge set \<Rightarrow> bool" where
  "uf_spec u V E \<longleftrightarrow> nodes_of E \<subseteq> V \<and> (\<forall>x. uf_contains u x \<longleftrightarrow> x \<in> V) \<and>
     (\<exists>rep rk. uf_ok u rep rk \<and> (\<forall>x\<in>V. \<forall>y\<in>V. rep x = rep y \<longleftrightarrow> (x, y) \<in> linked E))"

lemma uf_spec_empty: "uf_spec uf_empty {} {}"
  by (auto simp: uf_spec_def nodes_of_def uf_contains_def uf_empty_def uf_ok_def forest_def)

lemma linked_outside: "nodes_of E \<subseteq> V \<Longrightarrow> x \<notin> V \<Longrightarrow> (x, y) \<in> linked E \<longleftrightarrow> y = x"
proof -
  assume V: "nodes_of E \<subseteq> V" "x \<notin> V"
  then have "(x, w) \<notin> E \<union> E\<inverse>" for w by (force simp: nodes_of_def)
  then show ?thesis unfolding linked_def by (metis converse_rtranclE rtrancl.rtrancl_refl)
qed

lemma uf_spec_add:
  assumes "uf_spec u V E"
  shows "uf_spec (uf_add u x) (insert x V) E"
proof (cases "uf_contains u x")
  case True
  then show ?thesis using assms by (auto simp: uf_spec_def uf_add_def insert_absorb)
next
  case False
  from assms obtain rep rk where V: "nodes_of E \<subseteq> V" "\<And>x. uf_contains u x \<longleftrightarrow> x \<in> V"
    and ok: "uf_ok u rep rk" and L: "\<forall>x\<in>V. \<forall>y\<in>V. rep x = rep y \<longleftrightarrow> (x, y) \<in> linked E" by (auto simp: uf_spec_def)
  have xV: "x \<notin> V" using False V by simp
  have u: "uf_add u x = u\<lparr>uf_parent := dict_set x x (uf_parent u), uf_size := dict_set x 1 (uf_size u)\<rparr>"
    using False by (simp add: uf_add_def)
  have c: "uf_contains (uf_add u x) v \<longleftrightarrow> v = x \<or> uf_contains u v" for v by (simp add: u uf_contains_def)
  have f: "forest (dict_get (uf_parent u)) rep rk" using ok by (simp add: uf_ok_def)
  have repV: "rep v \<in> V" if v: "v \<in> V" for v
  proof -
    obtain w where "dict_get (uf_parent u) v = Some w" using V(2) [of v] v by (auto simp: uf_contains_def)
    from forestD(5) [OF f this] V(2) show ?thesis by (auto simp: uf_contains_def)
  qed
  let ?rep = "rep(x := x)"
  let ?rk = "rk(x := 0)"
  have fx: "forest (dict_get (uf_parent (uf_add u x))) ?rep ?rk" unfolding forest_def
  proof (intro allI impI)
    fix v w assume vw: "dict_get (uf_parent (uf_add u x)) v = Some w"
    show "dict_get (uf_parent (uf_add u x)) w \<noteq> None \<and> ?rep w = ?rep v \<and> (w \<noteq> v \<longrightarrow> ?rk v < ?rk w) \<and> ?rk v \<le> ?rk (?rep v) \<and>
      dict_get (uf_parent (uf_add u x)) (?rep v) = Some (?rep v) \<and> (w = v \<longrightarrow> ?rep v = v)"
    proof (cases "v = x")
      case True
      then have "w = x" using vw by (simp add: u)
      then show ?thesis using True vw by simp
    next
      case False
      then have v: "dict_get (uf_parent u) v = Some w" using vw by (simp add: u)
      note d = forestD [OF f v]
      have "v \<in> V" using v V(2) by (auto simp: uf_contains_def)
      moreover have "w \<in> V" using d(1) V(2) by (auto simp: uf_contains_def)
      ultimately have "w \<noteq> x" "rep v \<noteq> x" using xV repV by auto
      then show ?thesis using d False by (auto simp: u)
    qed
  qed
  have "\<exists>n. dict_get (uf_size (uf_add u x)) r = Some n \<and> n = card {v. uf_contains (uf_add u x) v \<and> ?rep v = r} \<and> 2 ^ ?rk r \<le> n"
    if r: "dict_get (uf_parent (uf_add u x)) r = Some r" for r
  proof (cases "r = x")
    case True
    have "{v. uf_contains (uf_add u x) v \<and> ?rep v = x} = {x}" using repV xV V(2) c by auto
    then show ?thesis using True by (simp add: u)
  next
    case False
    then have "dict_get (uf_parent u) r = Some r" using r by (simp add: u)
    moreover have "{v. uf_contains (uf_add u x) v \<and> ?rep v = r} = {v. uf_contains u v \<and> rep v = r}"
      using False xV V(2) c by auto
    ultimately show ?thesis using ok False by (auto simp: uf_ok_def u)
  qed
  moreover have "dict_ok (uf_parent (uf_add u x))" using ok by (simp add: u uf_ok_def)
  ultimately have "uf_ok (uf_add u x) ?rep ?rk" using fx by (simp add: uf_ok_def)
  moreover have "\<forall>v\<in>insert x V. \<forall>w\<in>insert x V. ?rep v = ?rep w \<longleftrightarrow> (v, w) \<in> linked E"
  proof (intro ballI)
    fix v w assume vw: "v \<in> insert x V" "w \<in> insert x V"
    have o: "(x, y) \<in> linked E \<longleftrightarrow> y = x" "(y, x) \<in> linked E \<longleftrightarrow> y = x" for y
      using linked_outside [OF V(1) xV] linked_sym by blast+
    show "?rep v = ?rep w \<longleftrightarrow> (v, w) \<in> linked E"
      using vw L repV xV o by (cases "v = x"; cases "w = x") auto
  qed
  ultimately show ?thesis using V c unfolding uf_spec_def by blast
qed

lemma forest_link:
  assumes f: "forest P rep rk" and hi: "P hi = Some hi" and lo: "P lo = Some lo" and ne: "hi \<noteq> lo"
  shows "forest (P(lo \<mapsto> hi)) (\<lambda>v. if rep v = lo then hi else rep v) (rk(hi := max (rk hi) (Suc (rk lo))))"
  unfolding forest_def
proof (intro allI impI)
  fix v w
  let ?P = "P(lo \<mapsto> hi)" and ?rep = "\<lambda>v. if rep v = lo then hi else rep v" and ?rk = "rk(hi := max (rk hi) (Suc (rk lo)))"
  assume vw: "?P v = Some w"
  have r: "rep hi = hi" "rep lo = lo" using forestD(6) [OF f hi] forestD(6) [OF f lo] by simp_all
  show "?P w \<noteq> None \<and> ?rep w = ?rep v \<and> (w \<noteq> v \<longrightarrow> ?rk v < ?rk w) \<and> ?rk v \<le> ?rk (?rep v) \<and>
    ?P (?rep v) = Some (?rep v) \<and> (w = v \<longrightarrow> ?rep v = v)"
  proof (cases "v = lo")
    case True
    then show ?thesis using vw hi ne r by auto
  next
    case False
    then have v: "P v = Some w" using vw by simp
    note d = forestD [OF f v]
    show ?thesis
    proof (cases "v = hi")
      case True
      then show ?thesis using v hi ne r by auto
    next
      case vhi: False
      have "rk v \<le> rk lo" if "rep v = lo" using d(4) that by simp
      then show ?thesis using d hi ne r False vhi by (auto simp: le_max_iff_disj less_max_iff_disj)
    qed
  qed
qed

lemma uf_link_ok:
  assumes "uf_ok u rep rk" and "uf_contains u ra" "rep ra = ra" and "uf_contains u rb" "rep rb = rb"
  shows "\<exists>u1 rep1 rk1. uf_link u ra rb = Some (Inr u1) \<and> uf_ok u1 rep1 rk1 \<and> (\<forall>v. uf_contains u1 v \<longleftrightarrow> uf_contains u v) \<and>
    (\<forall>v w. rep1 v = rep1 w \<longleftrightarrow> rep v = rep w \<or> {rep v, rep w} = {ra, rb})"
proof (cases "ra = rb")
  case True
  then have "uf_link u ra rb = Some (Inr u)" by (simp add: uf_link_def)
  moreover have "(rep v = rep w) = (rep v = rep w \<or> {rep v, rep w} = {ra, rb})" for v w using True by auto
  ultimately show ?thesis using assms(1) by blast
next
  case False
  have f: "forest (dict_get (uf_parent u)) rep rk" using assms(1) by (simp add: uf_ok_def)
  have roots: "dict_get (uf_parent u) ra = Some ra" "dict_get (uf_parent u) rb = Some rb"
    using assms(2-5) forestD(5) [OF f] by (metis not_None_eq uf_contains_def)+
  obtain m n where sz: "dict_get (uf_size u) ra = Some m" "dict_get (uf_size u) rb = Some n"
    using assms(1) roots by (auto simp: uf_ok_def)
  define hi lo where "hi = (if m < n then rb else ra)" and "lo = (if m < n then ra else rb)"
  define sh sl where "sh = (if m < n then n else m)" and "sl = (if m < n then m else n)"
  have hl: "dict_get (uf_parent u) hi = Some hi" "dict_get (uf_parent u) lo = Some lo" "hi \<noteq> lo" "{hi, lo} = {ra, rb}"
    using roots False by (auto simp: hi_def lo_def)
  have s: "dict_get (uf_size u) hi = Some sh" "dict_get (uf_size u) lo = Some sl" "sl \<le> sh" "m + n = sh + sl"
    using sz by (auto simp: hi_def lo_def sh_def sl_def)
  let ?u = "u\<lparr>uf_parent := dict_set lo hi (uf_parent u), uf_size := dict_set hi (m + n) (uf_size u)\<rparr>"
  let ?rep = "\<lambda>v. if rep v = lo then hi else rep v" and ?rk = "rk(hi := max (rk hi) (Suc (rk lo)))"
  have link: "uf_link u ra rb = Some (Inr ?u)" using False sz by (simp add: uf_link_def hi_def lo_def)
  have c: "uf_contains ?u v \<longleftrightarrow> uf_contains u v" for v using hl(2) by (simp add: uf_contains_def)
  have card: "sh = card {x. uf_contains u x \<and> rep x = hi}" "2 ^ rk hi \<le> sh" "sl = card {x. uf_contains u x \<and> rep x = lo}" "2 ^ rk lo \<le> sl"
    using assms(1) hl(1,2) s(1,2) by (auto simp: uf_ok_def)
  have "\<exists>k. dict_get (uf_size ?u) r = Some k \<and> k = card {x. uf_contains ?u x \<and> ?rep x = r} \<and> 2 ^ ?rk r \<le> k"
    if r: "dict_get (uf_parent ?u) r = Some r" for r
  proof (cases "r = hi")
    case True
    have "{x. uf_contains ?u x \<and> ?rep x = hi} = {x. uf_contains u x \<and> rep x = hi} \<union> {x. uf_contains u x \<and> rep x = lo}"
      unfolding c by auto
    moreover have "card ({x. uf_contains u x \<and> rep x = hi} \<union> {x. uf_contains u x \<and> rep x = lo}) = sh + sl"
      unfolding card(1,3) by (rule card_Un_disjoint) (use finite_nodes hl(3) in auto)
    moreover have "2 ^ max (rk hi) (Suc (rk lo)) \<le> sh + sl" using card(2,4) s(3) by (auto simp: max_def)
    ultimately show ?thesis using True s(4) by auto
  next
    case False
    then have lo: "r \<noteq> lo" using r hl(3) by auto
    then have "dict_get (uf_parent u) r = Some r" using r by simp
    moreover have "{x. uf_contains ?u x \<and> ?rep x = r} = {x. uf_contains u x \<and> rep x = r}" using False lo c by auto
    ultimately show ?thesis using assms(1) False by (auto simp: uf_ok_def)
  qed
  moreover have "forest (dict_get (uf_parent ?u)) ?rep ?rk"
    using forest_link [OF f hl(1-3)] by (simp add: fun_upd_def update_conv')
  moreover have "dict_ok (uf_parent ?u)" using assms(1) by (simp add: uf_ok_def)
  ultimately have "uf_ok ?u ?rep ?rk" by (simp add: uf_ok_def)
  moreover have "(?rep v = ?rep w) = (rep v = rep w \<or> {rep v, rep w} = {ra, rb})" for v w
    unfolding hl(4) [symmetric] by (auto simp: doubleton_eq_iff)
  ultimately show ?thesis using link c by blast
qed

lemma uf_spec_union:
  assumes "uf_spec u V E"
  shows "\<exists>u1. uf_union u a b = Some (Inr u1) \<and> uf_spec u1 (insert a (insert b V)) (insert (a, b) E)"
proof -
  let ?u = "uf_add (uf_add u a) b" and ?V = "insert a (insert b V)"
  have "uf_spec ?u ?V E" using uf_spec_add [OF uf_spec_add [OF assms], of a b] by (simp add: insert_commute)
  then obtain rep rk where V: "nodes_of E \<subseteq> ?V" "\<And>x. uf_contains ?u x \<longleftrightarrow> x \<in> ?V" and ok: "uf_ok ?u rep rk"
    and L: "\<And>x y. x \<in> ?V \<Longrightarrow> y \<in> ?V \<Longrightarrow> rep x = rep y \<longleftrightarrow> (x, y) \<in> linked E" unfolding uf_spec_def by blast
  have "uf_contains ?u a" using V by simp
  from uf_find_ok [OF ok this] obtain u1 where u1: "uf_find ?u a = Some (Inr (rep a, u1))" "uf_ok u1 rep rk" "\<And>v. uf_contains u1 v \<longleftrightarrow> uf_contains ?u v" by blast
  have "uf_contains u1 b" using V u1(3) by simp
  from uf_find_ok [OF u1(2) this] obtain u2 where u2: "uf_find u1 b = Some (Inr (rep b, u2))" "uf_ok u2 rep rk" "\<And>v. uf_contains u2 v \<longleftrightarrow> v \<in> ?V"
    using u1(3) V by blast
  have f: "forest (dict_get (uf_parent u2)) rep rk" using u2(2) by (simp add: uf_ok_def)
  have root: "uf_contains u2 (rep v) \<and> rep (rep v) = rep v" if v: "v \<in> ?V" for v
  proof -
    obtain w where "dict_get (uf_parent u2) v = Some w" using u2(3) [of v] v by (auto simp: uf_contains_def)
    from forestD(5) [OF f this] forestD(6) [OF f] show ?thesis by (auto simp: uf_contains_def)
  qed
  have ra: "uf_contains u2 (rep a)" "rep (rep a) = rep a" and rb: "uf_contains u2 (rep b)" "rep (rep b) = rep b" using root by simp_all
  from uf_link_ok [OF u2(2) ra rb] obtain u3 rep3 rk3 where
    u3: "uf_link u2 (rep a) (rep b) = Some (Inr u3)" "uf_ok u3 rep3 rk3" "\<And>v. uf_contains u3 v \<longleftrightarrow> uf_contains u2 v"
      "\<And>v w. rep3 v = rep3 w \<longleftrightarrow> rep v = rep w \<or> {rep v, rep w} = {rep a, rep b}" by blast
  have un: "uf_union u a b = Some (Inr u3)" using u1(1) u2(1) u3(1) by (simp add: uf_union_def)
  have "rep3 x = rep3 y \<longleftrightarrow> (x, y) \<in> linked (insert (a, b) E)" if "x \<in> ?V" "y \<in> ?V" for x y
    unfolding u3(4) linked_insert doubleton_eq_iff using L that linked_sym by (metis insertCI)
  moreover have "nodes_of (insert (a, b) E) \<subseteq> ?V" using V(1) by (auto simp: nodes_of_def)
  ultimately have "uf_spec u3 ?V (insert (a, b) E)" unfolding uf_spec_def using u3(2,3) u2(3) by blast
  then show ?thesis using un by blast
qed

lemma union_all_spec:
  "uf_spec u V E \<Longrightarrow> \<exists>u1. union_all u es = Some (Inr u1) \<and> uf_spec u1 (V \<union> nodes_of (set es)) (E \<union> set es)"
proof (induction es arbitrary: u V E)
  case (Cons e es)
  obtain a b where e: "e = (a, b)" by (rule prod.exhaust)
  from uf_spec_union [OF Cons.prems, of a b] obtain u1 where
    u1: "uf_union u a b = Some (Inr u1)" "uf_spec u1 (insert a (insert b V)) (insert (a, b) E)" by blast
  from Cons.IH [OF u1(2)] obtain u2 where
    "union_all u1 es = Some (Inr u2)" "uf_spec u2 (insert a (insert b V) \<union> nodes_of (set es)) (insert (a, b) E \<union> set es)" by blast
  moreover have "insert a (insert b V) \<union> nodes_of (set es) = V \<union> nodes_of (set (e # es))" by (auto simp: nodes_of_def e)
  moreover have "insert (a, b) E \<union> set es = E \<union> set (e # es)" by (auto simp: e)
  ultimately show ?case using u1(1) by (simp add: e)
qed (simp add: nodes_of_def)

lemma find_all_ok:
  "uf_ok u rep rk \<Longrightarrow> \<forall>x\<in>set xs. uf_contains u x \<Longrightarrow>
   \<exists>u1. find_all u xs = Some (Inr (map (\<lambda>x. (x, rep x)) xs, u1)) \<and> uf_ok u1 rep rk \<and> (\<forall>v. uf_contains u1 v \<longleftrightarrow> uf_contains u v)"
proof (induction xs arbitrary: u)
  case (Cons x xs)
  from uf_find_ok [OF Cons.prems(1), of x] Cons.prems(2) obtain u1 where
    u1: "uf_find u x = Some (Inr (rep x, u1))" "uf_ok u1 rep rk" "\<forall>v. uf_contains u1 v \<longleftrightarrow> uf_contains u v" by auto
  from Cons.IH [OF u1(2)] u1(3) Cons.prems(2) show ?case using u1(1) by auto
qed auto

lemma map_of_pairs: "map_of (map (\<lambda>x. (x, f x)) xs) v = (if v \<in> set xs then Some (f v) else None)"
  by (induction xs) auto

lemma resolve_correct:
  "\<exists>asg. resolve_whole_graph es = Some (Inr asg) \<and> dict_ok asg \<and> (\<forall>x. dict_get asg x \<noteq> None \<longleftrightarrow> x \<in> nodes_of (set es)) \<and>
    (\<forall>x r. dict_get asg x = Some r \<longrightarrow> r \<in> nodes_of (set es) \<and> (x, r) \<in> linked (set es)) \<and>
    (\<forall>x\<in>nodes_of (set es). \<forall>y\<in>nodes_of (set es). dict_get asg x = dict_get asg y \<longleftrightarrow> (x, y) \<in> linked (set es))"
proof -
  from union_all_spec [OF uf_spec_empty, of es] obtain u where
    u: "union_all uf_empty es = Some (Inr u)" "uf_spec u (nodes_of (set es)) (set es)" by auto
  from u(2) obtain rep rk where V: "\<And>x. uf_contains u x \<longleftrightarrow> x \<in> nodes_of (set es)" and ok: "uf_ok u rep rk"
    and L: "\<And>x y. x \<in> nodes_of (set es) \<Longrightarrow> y \<in> nodes_of (set es) \<Longrightarrow> rep x = rep y \<longleftrightarrow> (x, y) \<in> linked (set es)"
    unfolding uf_spec_def by blast
  have keys: "set (dict_keys (uf_parent u)) = nodes_of (set es)" using V by (auto simp: uf_contains_def map_of_eq_None_iff)
  from find_all_ok [OF ok, of "dict_keys (uf_parent u)"] obtain u1 where
    "find_all u (dict_keys (uf_parent u)) = Some (Inr (map (\<lambda>x. (x, rep x)) (dict_keys (uf_parent u)), u1))"
    using V keys by auto
  then have r: "resolve_whole_graph es = Some (Inr (map (\<lambda>x. (x, rep x)) (dict_keys (uf_parent u))))"
    by (simp add: resolve_whole_graph_def u(1))
  define asg where "asg = map (\<lambda>x. (x, rep x)) (dict_keys (uf_parent u))"
  have g: "dict_get asg x = (if x \<in> nodes_of (set es) then Some (rep x) else None)" for x
    unfolding asg_def map_of_pairs keys by simp
  have rep: "rep x \<in> nodes_of (set es) \<and> rep (rep x) = rep x" if x: "x \<in> nodes_of (set es)" for x
  proof -
    have f: "forest (dict_get (uf_parent u)) rep rk" using ok by (simp add: uf_ok_def)
    obtain w where "dict_get (uf_parent u) x = Some w" using V [of x] x by (auto simp: uf_contains_def)
    from forestD(5) [OF f this] forestD(6) [OF f] V show ?thesis by (auto simp: uf_contains_def)
  qed
  then have "(x, rep x) \<in> linked (set es)" if "x \<in> nodes_of (set es)" for x
    using L [of x "rep x"] rep [OF that] that by auto
  moreover have "dict_ok asg" using ok by (simp add: asg_def uf_ok_def dict_ok_def comp_def)
  ultimately show ?thesis unfolding r asg_def [symmetric] using rep L by (intro exI [of _ asg]) (auto simp: g)
qed

text \<open>
  Resolving a whole graph always ends, and its result names exactly the nodes of the edges, with one
  representative for two nodes exactly when a path of edges connects them.\<close>

theorem resolve_whole_graph_correct:
  "\<exists>asg. resolve_whole_graph es = Some (Inr asg) \<and> dict_ok asg \<and> (\<forall>x. dict_get asg x \<noteq> None \<longleftrightarrow> x \<in> nodes_of (set es)) \<and>
    (\<forall>x r. dict_get asg x = Some r \<longrightarrow> r \<in> nodes_of (set es) \<and> (x, r) \<in> linked (set es)) \<and>
    (\<forall>x\<in>nodes_of (set es). \<forall>y\<in>nodes_of (set es). dict_get asg x = dict_get asg y \<longleftrightarrow> (x, y) \<in> linked (set es))"
  by (rule resolve_correct)

subsection \<open>How long \<open>find\<close> runs\<close>

text \<open>The number of rounds of the loop.\<close>

partial_function (option) find_rounds :: "(string, string) dict \<Rightarrow> string \<Rightarrow> nat option" where
  "find_rounds p x =
     (case dict_get p x of
        None \<Rightarrow> None
      | Some y \<Rightarrow>
          if y = x then Some 0
          else (case dict_get p y of None \<Rightarrow> None | Some z \<Rightarrow> Option.bind (find_rounds (dict_set x z p) z) (\<lambda>k. Some (Suc k))))"

lemma find_rounds_ok:
  "forest (dict_get p) rep rk \<Longrightarrow> dict_get p x \<noteq> None \<Longrightarrow> \<exists>k. find_rounds p x = Some k \<and> k \<le> rk (rep x) - rk x"
proof (induction "rk (rep x) - rk x" arbitrary: p x rule: less_induct)
  case less
  then obtain y where y: "dict_get p x = Some y" by auto
  note f = forestD [OF less.prems(1) y]
  show ?case
  proof (cases "y = x")
    case True
    then show ?thesis using y by (subst find_rounds.simps) simp
  next
    case False
    obtain z where z: "dict_get p y = Some z" using f(1) by auto
    note fy = forestD [OF less.prems(1) z]
    have rz: "rk x < rk z" using f(3) fy(3) False by (cases "z = y") auto
    have fp: "forest (dict_get (dict_set x z p)) rep rk" by (rule forest_halve [OF less.prems(1) y False z])
    have zn: "dict_get (dict_set x z p) z \<noteq> None" using fy(1) by auto
    have rep: "rep z = rep x" using f(2) fy(2) by simp
    have le: "rk z \<le> rk (rep z)" using forestD(4) [OF fp] zn by blast
    then have "rk (rep z) - rk z < rk (rep x) - rk x" using rz rep by simp
    from less.hyps [OF this fp zn] obtain k where "find_rounds (dict_set x z p) z = Some k" "k \<le> rk (rep z) - rk z" by blast
    then show ?thesis using y z False rz rep le by (subst find_rounds.simps) simp
  qed
qed

text \<open>
  C39. In a structure built by unions, \<open>find\<close> ends after at most the logarithm of the number of nodes in rounds.\<close>

theorem find_logarithmic:
  assumes "union_all uf_empty es = Some (Inr u)" and "uf_contains u x"
  shows "\<exists>k. find_rounds (uf_parent u) x = Some k \<and> 2 ^ k \<le> card (nodes_of (set es))"
proof -
  from union_all_spec [OF uf_spec_empty, of es] assms(1) have sp: "uf_spec u (nodes_of (set es)) (set es)" by simp
  then obtain rep rk where V: "\<And>x. uf_contains u x \<longleftrightarrow> x \<in> nodes_of (set es)" and ok: "uf_ok u rep rk" unfolding uf_spec_def by blast
  have f: "forest (dict_get (uf_parent u)) rep rk" using ok by (simp add: uf_ok_def)
  obtain k where k: "find_rounds (uf_parent u) x = Some k" "k \<le> rk (rep x) - rk x"
    using find_rounds_ok [OF f] assms(2) by (auto simp: uf_contains_def)
  obtain y where "dict_get (uf_parent u) x = Some y" using assms(2) by (auto simp: uf_contains_def)
  from forestD(5) [OF f this] ok have "2 ^ rk (rep x) \<le> card {v. uf_contains u v \<and> rep v = rep x}" by (auto simp: uf_ok_def)
  also have "\<dots> \<le> card (nodes_of (set es))" by (rule card_mono) (auto simp: V nodes_of_def)
  finally have "2 ^ rk (rep x) \<le> card (nodes_of (set es))" .
  moreover have "(2::nat) ^ k \<le> 2 ^ rk (rep x)" using k(2) by (intro power_increasing) auto
  ultimately show ?thesis using k(1) by (metis order_trans)
qed

lemma demo_unions:
  "union_all uf_empty [(''a'', ''b''), (''c'', ''d''), (''b'', ''d'')] =
     Some (Inr \<lparr>uf_parent = [(''a'', ''a''), (''b'', ''a''), (''c'', ''a''), (''d'', ''c'')],
       uf_size = [(''a'', 4), (''b'', 1), (''c'', 2), (''d'', 1)]\<rparr>)"
  by (simp add: uf_union_def uf_find_def uf_add_def uf_contains_def uf_empty_def uf_link_def find_root.simps and_then_def)

lemma find_logarithmic_witness:
  "\<exists>k. find_rounds [(''a'', ''a''), (''b'', ''a''), (''c'', ''a''), (''d'', ''c'')] ''d'' = Some k \<and>
    2 ^ k \<le> card (nodes_of (set [(''a'', ''b''), (''c'', ''d''), (''b'', ''d'')]))"
  using find_logarithmic [OF demo_unions, of "''d''"] by (simp add: uf_contains_def)

lemma resolve_whole_graph_correct_witness:
  "\<exists>asg. resolve_whole_graph [(''a'', ''b''), (''c'', ''d''), (''b'', ''d'')] = Some (Inr asg) \<and>
    dict_get asg ''a'' \<noteq> None \<and> dict_get asg ''a'' = dict_get asg ''c'' \<and> dict_get asg ''e'' = None"
proof -
  let ?E = "set [(''a'', ''b''), (''c'', ''d''), (''b'', ''d'')]"
  from resolve_whole_graph_correct [of "[(''a'', ''b''), (''c'', ''d''), (''b'', ''d'')]"] obtain asg where
    r: "resolve_whole_graph [(''a'', ''b''), (''c'', ''d''), (''b'', ''d'')] = Some (Inr asg)"
    and dom: "\<And>x. dict_get asg x \<noteq> None \<longleftrightarrow> x \<in> nodes_of ?E"
    and same: "\<And>x y. x \<in> nodes_of ?E \<Longrightarrow> y \<in> nodes_of ?E \<Longrightarrow> dict_get asg x = dict_get asg y \<longleftrightarrow> (x, y) \<in> linked ?E" by blast
  have n: "nodes_of ?E = {''a'', ''b'', ''c'', ''d''}" by (auto simp: nodes_of_def)
  have "(''a'', ''b'') \<in> linked ?E" "(''b'', ''d'') \<in> linked ?E" "(''c'', ''d'') \<in> linked ?E" by (rule linked_edge, simp)+
  then have "(''a'', ''c'') \<in> linked ?E" using linked_trans linked_sym by blast
  then have "dict_get asg ''a'' = dict_get asg ''c''" using same [of "''a''" "''c''"] n by simp
  moreover have "dict_get asg ''a'' \<noteq> None" using dom [of "''a''"] n by simp
  moreover have "dict_get asg ''e'' = None" using dom [of "''e''"] n by auto
  ultimately show ?thesis using r by blast
qed

end
