(* ===== verification/GraphPartition.thy ===== *)
theory GraphPartition
  imports UnionFind
begin

text \<open>
  The partitioned identity resolution of \<open>detection/cross_chain/graph_partition.py\<close>: edges in shards,
  local components per shard, and the coordinator that reconciles the boundary nodes.

  The BLAKE2b hash, the chain of an address and the order in which Python enumerates a set are parameters;
  of the last only that it enumerates the set is assumed.
\<close>

subsection \<open>Partitioning\<close>

definition guess_chain :: "string \<Rightarrow> string" where
  "guess_chain address =
     (if take 2 address = ''0x'' \<and> length address = 42 then ''ethereum''
      else if length address = 56 \<and> take 1 address = ''G'' then ''stellar''
      else if 32 \<le> length address \<and> length address \<le> 44 then ''solana''
      else ''stellar'')"

text \<open>An unknown strategy is a \<open>ValueError\<close>.\<close>

definition shard_key :: "(string \<Rightarrow> string) \<Rightarrow> edge \<Rightarrow> string \<Rightarrow> string option" where
  "shard_key chain_of e strategy =
     (case e of (u, v) \<Rightarrow>
      if strategy = ''anchor''
      then Some (let cu = chain_of u; cv = chain_of v
                 in if cu = ''stellar'' \<and> cv \<noteq> ''stellar'' then u
                    else if cv = ''stellar'' \<and> cu \<noteq> ''stellar'' then v
                    else min u v)
      else if strategy = ''chain_pair''
      then Some (min (chain_of u) (chain_of v) @ ''|'' @ max (chain_of u) (chain_of v))
      else if strategy = ''hash'' then Some (min u v)
      else None)"

record gp_env =
  ge_hash :: "string \<Rightarrow> nat"
  ge_chain :: "string \<Rightarrow> string"
  ge_edges :: "edge list \<Rightarrow> edge list"
  ge_nodes :: "string list \<Rightarrow> string list"

record resolver =
  r_num :: nat
  r_strategy :: string
  r_edges :: "edge list list"
  r_local :: "(string, string) dict list"
  r_members :: "(string, string list) dict list"
  r_node_shards :: "(string, (nat, int) dict) dict"
  r_boundary :: "string list"
  r_dirty :: "nat list"
  r_coord :: "union_find option"
  r_groups :: "(string, string list) dict"
  r_last :: nat

definition new_resolver :: "nat \<Rightarrow> string \<Rightarrow> resolver option" where
  "new_resolver n strategy =
     (if n < 1 then None
      else Some \<lparr>r_num = n, r_strategy = strategy, r_edges = replicate n [], r_local = replicate n [],
             r_members = replicate n [], r_node_shards = [], r_boundary = [], r_dirty = [], r_coord = None, r_groups = [], r_last = 0\<rparr>)"

definition shard_of :: "gp_env \<Rightarrow> resolver \<Rightarrow> edge \<Rightarrow> nat option" where
  "shard_of env r e = map_option (\<lambda>k. ge_hash env k mod r_num r) (shard_key (ge_chain env) e (r_strategy r))"

definition norm_edge :: "edge \<Rightarrow> edge" where
  "norm_edge e = (case e of (u, v) \<Rightarrow> if u \<le> v then (u, v) else (v, u))"

definition shards_at :: "(string, (nat, int) dict) dict \<Rightarrow> string \<Rightarrow> (nat, int) dict" where
  "shards_at ns v = (case dict_get ns v of None \<Rightarrow> [] | Some d \<Rightarrow> d)"

definition touch :: "string \<Rightarrow> nat \<Rightarrow> int \<Rightarrow> resolver \<Rightarrow> resolver" where
  "touch node idx delta r =
     (let shards = shards_at (r_node_shards r) node;
          count = (case dict_get shards idx of None \<Rightarrow> 0 | Some k \<Rightarrow> k) + delta;
          shards' = (if 0 < count then dict_set idx count shards else dict_pop idx shards)
      in r\<lparr>r_node_shards := (if shards' = [] then dict_pop node (r_node_shards r) else dict_set node shards' (r_node_shards r)),
           r_boundary := (if 1 < length shards' then List.insert node (r_boundary r) else removeAll node (r_boundary r))\<rparr>)"

text \<open>One edge added or removed; the flag is \<open>False\<close> when the strategy is unknown.\<close>

definition add_one :: "gp_env \<Rightarrow> edge \<Rightarrow> resolver \<Rightarrow> resolver \<times> bool" where
  "add_one env e0 r =
     (let e = norm_edge e0 in
      if fst e = snd e then (r, True)
      else (case shard_of env r e of
              None \<Rightarrow> (r, False)
            | Some idx \<Rightarrow>
                if e \<in> set (r_edges r ! idx) then (r, True)
                else ((touch (snd e) idx 1 (touch (fst e) idx 1 (r\<lparr>r_edges := (r_edges r)[idx := e # r_edges r ! idx]\<rparr>)))
                        \<lparr>r_dirty := List.insert idx (r_dirty r), r_coord := None\<rparr>, True)))"

definition remove_one :: "gp_env \<Rightarrow> edge \<Rightarrow> resolver \<Rightarrow> resolver \<times> bool" where
  "remove_one env e0 r =
     (let e = norm_edge e0 in
      case shard_of env r e of
        None \<Rightarrow> (r, False)
      | Some idx \<Rightarrow>
          if e \<in> set (r_edges r ! idx)
          then ((touch (snd e) idx (- 1) (touch (fst e) idx (- 1) (r\<lparr>r_edges := (r_edges r)[idx := removeAll e (r_edges r ! idx)]\<rparr>)))
                  \<lparr>r_dirty := List.insert idx (r_dirty r), r_coord := None\<rparr>, True)
          else (r, True))"

fun each_edge :: "(edge \<Rightarrow> resolver \<Rightarrow> resolver \<times> bool) \<Rightarrow> edge list \<Rightarrow> resolver \<Rightarrow> resolver \<times> bool" where
  "each_edge f [] r = (r, True)"
| "each_edge f (e # es) r = (case f e r of (r1, ok) \<Rightarrow> if ok then each_edge f es r1 else (r1, False))"

definition add_edges :: "gp_env \<Rightarrow> edge list \<Rightarrow> resolver \<Rightarrow> resolver \<times> bool" where
  "add_edges env es r = each_edge (add_one env) es r"

definition remove_edges :: "gp_env \<Rightarrow> edge list \<Rightarrow> resolver \<Rightarrow> resolver \<times> bool" where
  "remove_edges env es r = each_edge (remove_one env) es r"

definition shard_sizes :: "resolver \<Rightarrow> nat list" where
  "shard_sizes r = map length (r_edges r)"

definition boundary_nodes :: "resolver \<Rightarrow> nat" where
  "boundary_nodes r = length (r_boundary r)"

subsection \<open>Resolution\<close>

text \<open>The label \<open>f"{idx}:{root}"\<close>, and its reading with \<open>split(":", 1)\<close> and \<open>int\<close>.\<close>

definition label :: "nat \<Rightarrow> string \<Rightarrow> string" where
  "label i rt = dec i @ '':'' @ rt"

definition read_nat :: "string \<Rightarrow> nat" where
  "read_nat ds = foldl (\<lambda>n ch. 10 * n + (of_char ch - 48)) 0 ds"

definition split_label :: "string \<Rightarrow> nat \<times> string" where
  "split_label l = (read_nat (takeWhile (\<lambda>ch. ch \<noteq> CHR '':'') l), drop 1 (dropWhile (\<lambda>ch. ch \<noteq> CHR '':'') l))"

text \<open>\<open>defaultdict(list)\<close>: the keys grouped by their value.\<close>

definition at_key :: "(string, string list) dict \<Rightarrow> string \<Rightarrow> string list" where
  "at_key g k = (case dict_get g k of None \<Rightarrow> [] | Some xs \<Rightarrow> xs)"

definition group_by_root :: "(string \<times> string) list \<Rightarrow> (string, string list) dict" where
  "group_by_root rs = foldl (\<lambda>g (x, rt). dict_set rt (at_key g rt @ [x]) g) [] rs"

fun resolve_dirty :: "gp_env \<Rightarrow> nat list \<Rightarrow> resolver \<Rightarrow> resolver run" where
  "resolve_dirty env [] r = Some (Inr r)"
| "resolve_dirty env (idx # rest) r =
     and_then (resolve_whole_graph (ge_edges env (r_edges r ! idx)))
       (\<lambda>loc. resolve_dirty env rest (r\<lparr>r_local := (r_local r)[idx := loc], r_members := (r_members r)[idx := group_by_root loc]\<rparr>))"

text \<open>The labels of a node; \<open>None\<close> is a missing key.\<close>

definition node_labels :: "resolver \<Rightarrow> string \<Rightarrow> string list option" where
  "node_labels r v =
     (case dict_get (r_node_shards r) v of
        None \<Rightarrow> None
      | Some d \<Rightarrow> those (map (\<lambda>i. map_option (label i) (dict_get (r_local r ! i) v)) (dict_keys d)))"

fun union_labels :: "union_find \<Rightarrow> string \<Rightarrow> string list \<Rightarrow> union_find run" where
  "union_labels u l [] = Some (Inr u)"
| "union_labels u l (m # ms) = and_then (uf_union u l m) (\<lambda>u1. union_labels u1 l ms)"

fun reconcile :: "resolver \<Rightarrow> union_find \<Rightarrow> string list \<Rightarrow> union_find run" where
  "reconcile r u [] = Some (Inr u)"
| "reconcile r u (v # vs) =
     (case node_labels r v of
        Some (l # ls) \<Rightarrow> and_then (union_labels (uf_add u l) l ls) (\<lambda>u1. reconcile r u1 vs)
      | _ \<Rightarrow> Some (Inl ()))"

definition resolve :: "gp_env \<Rightarrow> resolver \<Rightarrow> resolver run" where
  "resolve env r =
     (if r_coord r \<noteq> None then Some (Inr r)
      else and_then (resolve_dirty env (sort (r_dirty r)) r) (\<lambda>r1.
           and_then (reconcile r1 uf_empty (ge_nodes env (r_boundary r1))) (\<lambda>u.
           and_then (find_all u (dict_keys (uf_parent u))) (\<lambda>(rs, u1).
             Some (Inr (r1\<lparr>r_dirty := [], r_last := length (r_dirty r), r_coord := Some u1, r_groups := group_by_root rs\<rparr>))))))"

text \<open>\<open>_label\<close>: the node's label in the first of its shards; \<open>None\<close> for an unknown node.\<close>

definition first_label :: "resolver \<Rightarrow> string \<Rightarrow> string option run" where
  "first_label r v =
     (case shards_at (r_node_shards r) v of
        [] \<Rightarrow> Some (Inr None)
      | (i, k) # rest \<Rightarrow> (case dict_get (r_local r ! i) v of None \<Rightarrow> Some (Inl ()) | Some rt \<Rightarrow> Some (Inr (Some (label i rt)))))"

definition component_id :: "gp_env \<Rightarrow> resolver \<Rightarrow> string \<Rightarrow> (string option \<times> resolver) run" where
  "component_id env r v =
     and_then (resolve env r) (\<lambda>r1.
     and_then (first_label r1 v) (\<lambda>ol.
       case (ol, r_coord r1) of
         (Some l, Some u) \<Rightarrow>
           if uf_contains u l
           then and_then (uf_find u l) (\<lambda>(rt, u1). Some (Inr (Some rt, r1\<lparr>r_coord := Some u1\<rparr>)))
           else Some (Inr (Some l, r1))
       | (Some l, None) \<Rightarrow> Some (Inl ())
       | (None, _) \<Rightarrow> Some (Inr (None, r1))))"

fun gather :: "resolver \<Rightarrow> string list \<Rightarrow> string set option" where
  "gather r [] = Some {}"
| "gather r (l # ls) =
     (case split_label l of (i, rt) \<Rightarrow>
      case (dict_get (r_members r ! i) rt, gather r ls) of
        (Some ms, Some rest) \<Rightarrow> Some (set ms \<union> rest)
      | _ \<Rightarrow> None)"

definition component_of :: "gp_env \<Rightarrow> resolver \<Rightarrow> string \<Rightarrow> (string set \<times> resolver) run" where
  "component_of env r v =
     and_then (component_id env r v) (\<lambda>(ort, r1).
       case ort of
         None \<Rightarrow> Some (Inr ({}, r1))
       | Some rt \<Rightarrow>
           (case gather r1 (case dict_get (r_groups r1) rt of None \<Rightarrow> [rt] | Some ls \<Rightarrow> ls) of
              None \<Rightarrow> Some (Inl ())
            | Some ms \<Rightarrow> Some (Inr (ms, r1))))"

fun assign_all :: "gp_env \<Rightarrow> string list \<Rightarrow> resolver \<Rightarrow> ((string, string option) dict \<times> resolver) run" where
  "assign_all env [] r = Some (Inr ([], r))"
| "assign_all env (v # vs) r =
     and_then (component_id env r v) (\<lambda>(l, r1).
     and_then (assign_all env vs r1) (\<lambda>(rest, r2). Some (Inr ((v, l) # rest, r2))))"

definition assignment :: "gp_env \<Rightarrow> resolver \<Rightarrow> ((string, string option) dict \<times> resolver) run" where
  "assignment env r = and_then (resolve env r) (\<lambda>r1. assign_all env (dict_keys (r_node_shards r1)) r1)"

subsection \<open>Labels\<close>

lemma read_nat_dec: "read_nat (dec n) = n"
proof (induction n rule: dec.induct)
  case (1 n)
  have d: "(of_char (char_of (48 + m) :: char) :: nat) = 48 + m" if "m < 10" for m using that by simp
  show ?case
  proof (cases "n < 10")
    case True
    then show ?thesis by (subst dec.simps) (simp add: read_nat_def d)
  next
    case False
    then have "read_nat (dec n) = 10 * read_nat (dec (n div 10)) + n mod 10"
      by (subst dec.simps) (simp add: read_nat_def d)
    then show ?thesis using 1 [OF False] by simp
  qed
qed

lemma no_colon: "CHR '':'' \<notin> set (dec n)"
  by (rule dec_no_char) simp

lemma span_sep: "c \<notin> set xs \<Longrightarrow> takeWhile (\<lambda>x. x \<noteq> c) (xs @ c # ys) = xs \<and> dropWhile (\<lambda>x. x \<noteq> c) (xs @ c # ys) = c # ys"
  by (induction xs) auto

lemma split_label_label: "split_label (label i rt) = (i, rt)"
  using span_sep [OF no_colon, of i rt] by (simp add: split_label_def label_def read_nat_dec)

lemma label_inj [simp]: "label i r = label j q \<longleftrightarrow> i = j \<and> r = q"
  using split_label_label by (metis prod.inject)

lemma group_by_root_at: "set (at_key (group_by_root rs) rt) = {x. (x, rt) \<in> set rs}"
proof (induction rs rule: rev_induct)
  case (snoc xr rs)
  then show ?case by (cases xr) (auto simp: group_by_root_def at_key_def split: option.splits)
qed (simp add: group_by_root_def at_key_def)

lemma group_by_root_keys: "dict_get (group_by_root rs) rt \<noteq> None \<longleftrightarrow> rt \<in> snd ` set rs"
proof (induction rs rule: rev_induct)
  case (snoc xr rs)
  then show ?case by (cases xr) (auto simp: group_by_root_def)
qed (simp add: group_by_root_def)

subsection \<open>The partition\<close>

definition at_node :: "string \<Rightarrow> edge \<Rightarrow> bool" where
  "at_node v e \<longleftrightarrow> fst e = v \<or> snd e = v"

definition edge_count :: "edge list list \<Rightarrow> nat \<Rightarrow> string \<Rightarrow> int" where
  "edge_count es i v = (if i < length es then int (length (filter (at_node v) (es ! i))) else 0)"

text \<open>The bookkeeping of the nodes for given counts.\<close>

definition counts_ok :: "(nat \<Rightarrow> string \<Rightarrow> int) \<Rightarrow> resolver \<Rightarrow> bool" where
  "counts_ok cnt r \<longleftrightarrow>
     (\<forall>v. dict_ok (shards_at (r_node_shards r) v) \<and>
          (\<forall>i k. dict_get (shards_at (r_node_shards r) v) i = Some k \<longleftrightarrow> k = cnt i v \<and> 0 < k)) \<and>
     (\<forall>v. dict_get (r_node_shards r) v \<noteq> Some []) \<and>
     (\<forall>v. v \<in> set (r_boundary r) \<longleftrightarrow> 1 < length (shards_at (r_node_shards r) v))"

lemma touch_counts:
  assumes "counts_ok cnt r" and "0 \<le> cnt idx node" and "0 \<le> cnt idx node + delta"
  shows "counts_ok (cnt(idx := (cnt idx)(node := cnt idx node + delta))) (touch node idx delta r)"
proof -
  define sh where "sh = shards_at (r_node_shards r) node"
  define count where "count = cnt idx node + delta"
  define sh' where "sh' = (if 0 < count then dict_set idx count sh else dict_pop idx sh)"
  have ok: "dict_ok sh" "\<And>i k. dict_get sh i = Some k \<longleftrightarrow> k = cnt i node \<and> 0 < k" using assms(1) by (auto simp: counts_ok_def sh_def)
  have get: "(case dict_get sh idx of None \<Rightarrow> 0 | Some k \<Rightarrow> k) = cnt idx node"
    using ok(2) [of idx] assms(2) by (cases "dict_get sh idx") (auto simp: order_le_less)
  have sh': "dict_ok sh'" "\<And>i k. dict_get sh' i = Some k \<longleftrightarrow> k = (if i = idx then count else cnt i node) \<and> 0 < k"
    using ok assms(3) by (auto simp: sh'_def count_def)
  have t: "r_node_shards (touch node idx delta r) = (if sh' = [] then dict_pop node (r_node_shards r) else dict_set node sh' (r_node_shards r))"
    "r_boundary (touch node idx delta r) = (if 1 < length sh' then List.insert node (r_boundary r) else removeAll node (r_boundary r))"
    unfolding touch_def Let_def sh_def [symmetric] get count_def [symmetric] sh'_def [symmetric] by simp_all
  have at: "shards_at (r_node_shards (touch node idx delta r)) v = (if v = node then sh' else shards_at (r_node_shards r) v)" for v
    by (auto simp: t shards_at_def)
  have b: "v \<in> set (r_boundary (touch node idx delta r)) \<longleftrightarrow> 1 < length (shards_at (r_node_shards (touch node idx delta r)) v)" for v
    using assms(1) unfolding at by (auto simp: t counts_ok_def)
  have n: "dict_get (r_node_shards (touch node idx delta r)) v \<noteq> Some []" for v
    using assms(1) by (auto simp: t counts_ok_def)
  show ?thesis unfolding counts_ok_def
  proof (intro conjI allI)
    show "dict_ok (shards_at (r_node_shards (touch node idx delta r)) v)" for v
      using assms(1) sh'(1) unfolding at by (auto simp: counts_ok_def)
    show "(dict_get (shards_at (r_node_shards (touch node idx delta r)) v) i = Some k) \<longleftrightarrow>
      k = (cnt(idx := (cnt idx)(node := cnt idx node + delta))) i v \<and> 0 < k" for v i k
      using assms(1) sh'(2) unfolding at by (auto simp: counts_ok_def count_def)
  qed (use b n in blast)+
qed

lemma touch_fields [simp]:
  "r_num (touch v i d r) = r_num r" "r_strategy (touch v i d r) = r_strategy r" "r_edges (touch v i d r) = r_edges r"
  "r_local (touch v i d r) = r_local r" "r_members (touch v i d r) = r_members r" "r_dirty (touch v i d r) = r_dirty r"
  "r_coord (touch v i d r) = r_coord r"
  by (simp_all add: touch_def Let_def)

text \<open>The local components of one shard.\<close>

definition local_ok :: "edge set \<Rightarrow> (string, string) dict \<Rightarrow> (string, string list) dict \<Rightarrow> bool" where
  "local_ok E loc mem \<longleftrightarrow>
     (\<forall>x. dict_get loc x \<noteq> None \<longleftrightarrow> x \<in> nodes_of E) \<and>
     (\<forall>x r. dict_get loc x = Some r \<longrightarrow> r \<in> nodes_of E \<and> (x, r) \<in> linked E) \<and>
     (\<forall>x\<in>nodes_of E. \<forall>y\<in>nodes_of E. dict_get loc x = dict_get loc y \<longleftrightarrow> (x, y) \<in> linked E) \<and>
     (\<forall>r. set (at_key mem r) = {x. dict_get loc x = Some r}) \<and>
     (\<forall>x r. dict_get loc x = Some r \<longrightarrow> dict_get mem r \<noteq> None)"

lemma local_okD:
  assumes "local_ok E loc mem" and "dict_get loc x = Some r"
  shows "x \<in> nodes_of E" "r \<in> nodes_of E" "(x, r) \<in> linked E" "dict_get mem r \<noteq> None"
  using assms unfolding local_ok_def by (metis option.distinct(1))+

lemma local_ok_get: "local_ok E loc mem \<Longrightarrow> x \<in> nodes_of E \<Longrightarrow> \<exists>r. dict_get loc x = Some r"
  unfolding local_ok_def by blast

lemma local_ok_empty: "local_ok {} [] []"
  by (simp add: local_ok_def nodes_of_def at_key_def)

lemma local_ok_resolved:
  assumes "resolve_whole_graph es = Some (Inr loc)"
  shows "local_ok (set es) loc (group_by_root loc)"
proof -
  from resolve_correct [of es] assms have r: "dict_ok loc"
    "\<forall>x. dict_get loc x \<noteq> None \<longleftrightarrow> x \<in> nodes_of (set es)"
    "\<forall>x r. dict_get loc x = Some r \<longrightarrow> r \<in> nodes_of (set es) \<and> (x, r) \<in> linked (set es)"
    "\<forall>x\<in>nodes_of (set es). \<forall>y\<in>nodes_of (set es). dict_get loc x = dict_get loc y \<longleftrightarrow> (x, y) \<in> linked (set es)"
    by auto
  have "set (at_key (group_by_root loc) r) = {x. dict_get loc x = Some r}" for r
    using r(1) by (simp add: group_by_root_at dict_ok_def)
  moreover have "dict_get (group_by_root loc) r \<noteq> None" if "dict_get loc x = Some r" for x r
    unfolding group_by_root_keys using map_of_SomeD [OF that] by force
  ultimately show ?thesis using r unfolding local_ok_def by blast
qed

text \<open>The labels of a node, of the boundary, and the links the coordinator has to make.\<close>

definition labels_at :: "resolver \<Rightarrow> string \<Rightarrow> string set" where
  "labels_at r v = {label i x | i x. dict_get (shards_at (r_node_shards r) v) i \<noteq> None \<and> dict_get (r_local r ! i) v = Some x}"

definition boundary_labels :: "resolver \<Rightarrow> string set" where
  "boundary_labels r = (\<Union>v\<in>set (r_boundary r). labels_at r v)"

definition label_links :: "resolver \<Rightarrow> edge set" where
  "label_links r = {(l, m). \<exists>v\<in>set (r_boundary r). l \<in> labels_at r v \<and> m \<in> labels_at r v}"

definition coord_for :: "resolver \<Rightarrow> union_find \<Rightarrow> (string \<Rightarrow> string) \<Rightarrow> (string \<Rightarrow> nat) \<Rightarrow> bool" where
  "coord_for r u rep rk \<longleftrightarrow> (uf_ok u rep rk \<and> (\<forall>l. uf_contains u l \<longleftrightarrow> l \<in> boundary_labels r) \<and>
     (\<forall>l\<in>boundary_labels r. \<forall>m\<in>boundary_labels r. rep l = rep m \<longleftrightarrow> (l, m) \<in> linked (label_links r)) \<and>
     (\<forall>q. set (at_key (r_groups r) q) = {l \<in> boundary_labels r. rep l = q}) \<and>
     (\<forall>q. dict_get (r_groups r) q \<noteq> None \<longleftrightarrow> q \<in> rep ` boundary_labels r))"

definition coord_ok :: "resolver \<Rightarrow> union_find \<Rightarrow> bool" where
  "coord_ok r u \<longleftrightarrow> (\<exists>rep rk. coord_for r u rep rk)"

lemma coord_forD:
  assumes "coord_for r u rep rk"
  shows "uf_ok u rep rk" "uf_contains u l \<longleftrightarrow> l \<in> boundary_labels r"
    "l \<in> boundary_labels r \<Longrightarrow> m \<in> boundary_labels r \<Longrightarrow> rep l = rep m \<longleftrightarrow> (l, m) \<in> linked (label_links r)"
    "set (at_key (r_groups r) q) = {l \<in> boundary_labels r. rep l = q}"
    "dict_get (r_groups r) q \<noteq> None \<longleftrightarrow> q \<in> rep ` boundary_labels r"
  using assms by (simp_all add: coord_for_def)

definition shape_ok :: "gp_env \<Rightarrow> resolver \<Rightarrow> bool" where
  "shape_ok env r \<longleftrightarrow> 0 < r_num r \<and> length (r_edges r) = r_num r \<and> length (r_local r) = r_num r \<and> length (r_members r) = r_num r \<and>
     r_strategy r \<in> {''anchor'', ''chain_pair'', ''hash''} \<and>
     (\<forall>i<r_num r. distinct (r_edges r ! i) \<and>
        (\<forall>e\<in>set (r_edges r ! i). norm_edge e = e \<and> fst e \<noteq> snd e \<and> shard_of env r e = Some i)) \<and>
     counts_ok (edge_count (r_edges r)) r \<and> set (r_dirty r) \<subseteq> {..<r_num r}"

definition resolved_but :: "nat set \<Rightarrow> resolver \<Rightarrow> bool" where
  "resolved_but D r \<longleftrightarrow> (\<forall>i<r_num r. i \<notin> D \<longrightarrow> local_ok (set (r_edges r ! i)) (r_local r ! i) (r_members r ! i))"

definition gp_ok :: "gp_env \<Rightarrow> resolver \<Rightarrow> bool" where
  "gp_ok env r \<longleftrightarrow> shape_ok env r \<and> resolved_but (set (r_dirty r)) r \<and>
     (\<forall>u. r_coord r = Some u \<longrightarrow> r_dirty r = [] \<and> coord_ok r u)"

definition all_edges :: "resolver \<Rightarrow> edge set" where
  "all_edges r = (\<Union>i<r_num r. set (r_edges r ! i))"

definition env_ok :: "gp_env \<Rightarrow> bool" where
  "env_ok env \<longleftrightarrow> (\<forall>xs. set (ge_edges env xs) = set xs) \<and> (\<forall>xs. set (ge_nodes env xs) = set xs)"

lemma at_node_count: "i < length es \<Longrightarrow> 0 < edge_count es i v \<longleftrightarrow> v \<in> nodes_of (set (es ! i))"
proof -
  assume "i < length es"
  then have "0 < edge_count es i v \<longleftrightarrow> (\<exists>e\<in>set (es ! i). at_node v e)"
    by (simp add: edge_count_def) (metis filter_empty_conv length_greater_0_conv)
  then show ?thesis by (force simp: at_node_def nodes_of_def)
qed

lemma shards_at_iff:
  assumes "shape_ok env r"
  shows "dict_get (shards_at (r_node_shards r) v) i \<noteq> None \<longleftrightarrow> i < r_num r \<and> v \<in> nodes_of (set (r_edges r ! i))"
proof -
  have "dict_get (shards_at (r_node_shards r) v) i \<noteq> None \<longleftrightarrow> 0 < edge_count (r_edges r) i v"
    using assms by (auto simp: shape_ok_def counts_ok_def)
  also have "\<dots> \<longleftrightarrow> i < r_num r \<and> v \<in> nodes_of (set (r_edges r ! i))"
    using assms at_node_count [of i "r_edges r" v] by (cases "i < r_num r") (auto simp: shape_ok_def edge_count_def)
  finally show ?thesis .
qed

subsection \<open>Labels and connectivity\<close>

lemma resolvedD: "resolved_but {} r \<Longrightarrow> i < r_num r \<Longrightarrow> local_ok (set (r_edges r ! i)) (r_local r ! i) (r_members r ! i)"
  by (simp add: resolved_but_def)

lemma labels_at_iff:
  assumes "shape_ok env r" and "resolved_but {} r"
  shows "label i x \<in> labels_at r v \<longleftrightarrow> i < r_num r \<and> dict_get (r_local r ! i) v = Some x"
proof -
  have "v \<in> nodes_of (set (r_edges r ! i))" if "i < r_num r" "dict_get (r_local r ! i) v = Some x"
    using local_okD(1) [OF resolvedD [OF assms(2) that(1)] that(2)] .
  then show ?thesis unfolding labels_at_def using shards_at_iff [OF assms(1), of v i] by auto
qed

lemma labels_at_form: "l \<in> labels_at r v \<Longrightarrow> \<exists>i x. l = label i x"
  by (auto simp: labels_at_def)

lemma labels_at_same:
  assumes "shape_ok env r" and "l \<in> labels_at r v" and "m \<in> labels_at r v"
  shows "(l, m) \<in> linked (label_links r)"
proof (cases "v \<in> set (r_boundary r)")
  case True
  then show ?thesis using assms(2,3) by (intro linked_edge) (auto simp: label_links_def)
next
  case False
  have "length (shards_at (r_node_shards r) v) \<le> 1" using assms(1) False by (auto simp: shape_ok_def counts_ok_def not_less)
  then obtain p where "shards_at (r_node_shards r) v = [] \<or> shards_at (r_node_shards r) v = [p]"
    by (cases "shards_at (r_node_shards r) v") auto
  then have "l = m" using assms(2,3) by (auto simp: labels_at_def split: if_splits)
  then show ?thesis by simp
qed

lemma edge_same_label:
  assumes "shape_ok env r" and "resolved_but {} r" and "(x, y) \<in> all_edges r"
  shows "\<exists>l. l \<in> labels_at r x \<and> l \<in> labels_at r y"
proof -
  obtain i where i: "i < r_num r" "(x, y) \<in> set (r_edges r ! i)" using assms(3) by (auto simp: all_edges_def)
  have n: "x \<in> nodes_of (set (r_edges r ! i))" "y \<in> nodes_of (set (r_edges r ! i))" using i(2) by (force simp: nodes_of_def)+
  have ok: "local_ok (set (r_edges r ! i)) (r_local r ! i) (r_members r ! i)" using assms(2) i(1) by (simp add: resolved_but_def)
  then have "dict_get (r_local r ! i) x = dict_get (r_local r ! i) y" using n linked_edge [OF i(2)] by (simp add: local_ok_def)
  moreover obtain q where "dict_get (r_local r ! i) x = Some q" using local_ok_get [OF ok n(1)] by blast
  ultimately have "label i q \<in> labels_at r x" "label i q \<in> labels_at r y" using labels_at_iff [OF assms(1,2)] i(1) by simp_all
  then show ?thesis by blast
qed

lemma linked_labels:
  assumes "shape_ok env r" and "resolved_but {} r" and "(x, y) \<in> linked (all_edges r)"
    and "l \<in> labels_at r x" and "m \<in> labels_at r y"
  shows "(l, m) \<in> linked (label_links r)"
proof -
  have "\<forall>l\<in>labels_at r x. \<forall>m\<in>labels_at r y. (l, m) \<in> linked (label_links r)"
    using assms(3)
  proof (rule linked_induct)
    show "\<forall>l\<in>labels_at r x. \<forall>m\<in>labels_at r x. (l, m) \<in> linked (label_links r)" using labels_at_same [OF assms(1)] by blast
  next
    fix u v assume e: "(u, v) \<in> all_edges r" and h: "\<forall>l\<in>labels_at r x. \<forall>m\<in>labels_at r u. (l, m) \<in> linked (label_links r)"
    from edge_same_label [OF assms(1,2) e] obtain k where "k \<in> labels_at r u" "k \<in> labels_at r v" by blast
    then show "\<forall>l\<in>labels_at r x. \<forall>m\<in>labels_at r v. (l, m) \<in> linked (label_links r)"
      using h labels_at_same [OF assms(1)] linked_trans by blast
  next
    fix u v assume e: "(u, v) \<in> all_edges r" and h: "\<forall>l\<in>labels_at r x. \<forall>m\<in>labels_at r v. (l, m) \<in> linked (label_links r)"
    from edge_same_label [OF assms(1,2) e] obtain k where "k \<in> labels_at r u" "k \<in> labels_at r v" by blast
    then show "\<forall>l\<in>labels_at r x. \<forall>m\<in>labels_at r u. (l, m) \<in> linked (label_links r)"
      using h labels_at_same [OF assms(1)] linked_trans by blast
  qed
  then show ?thesis using assms(4,5) by blast
qed

lemma local_linked:
  assumes "resolved_but {} r" and "i < r_num r" and "dict_get (r_local r ! i) v = Some x"
  shows "(v, x) \<in> linked (all_edges r)"
proof -
  have "(v, x) \<in> linked (set (r_edges r ! i))" using local_okD(3) [OF resolvedD [OF assms(1,2)] assms(3)] .
  moreover have "set (r_edges r ! i) \<subseteq> all_edges r" using assms(2) by (auto simp: all_edges_def)
  ultimately show ?thesis using linked_mono by blast
qed

lemma labels_linked:
  assumes "shape_ok env r" and "resolved_but {} r" and "(l, m) \<in> linked (label_links r)"
    and "l \<in> labels_at r x" and "m \<in> labels_at r y"
  shows "(x, y) \<in> linked (all_edges r)"
proof -
  note lab = labels_at_iff [OF assms(1,2)]
  have "\<forall>i a j b. l = label i a \<longrightarrow> m = label j b \<longrightarrow> (a, b) \<in> linked (all_edges r)"
    using assms(3)
  proof (rule linked_induct)
    have step: "\<forall>i a j b. l = label i a \<longrightarrow> k' = label j b \<longrightarrow> (a, b) \<in> linked (all_edges r)"
      if h: "\<forall>i a j b. l = label i a \<longrightarrow> k = label j b \<longrightarrow> (a, b) \<in> linked (all_edges r)"
        and v: "k \<in> labels_at r v" "k' \<in> labels_at r v" for k k' v
    proof (intro allI impI)
      fix i a j b assume "l = label i a" "k' = label j b"
      obtain i' c where k: "k = label i' c" using labels_at_form v(1) by blast
      have "(v, c) \<in> linked (all_edges r)" "(v, b) \<in> linked (all_edges r)"
        using v local_linked [OF assms(2)] by (auto simp: k \<open>k' = label j b\<close> lab)
      moreover have "(a, c) \<in> linked (all_edges r)" using h k \<open>l = label i a\<close> by blast
      ultimately show "(a, b) \<in> linked (all_edges r)" using linked_trans linked_sym by blast
    qed
    show "\<forall>i a j b. l = label i a \<longrightarrow> v = label j b \<longrightarrow> (a, b) \<in> linked (all_edges r)"
      if "(u, v) \<in> label_links r" "\<forall>i a j b. l = label i a \<longrightarrow> u = label j b \<longrightarrow> (a, b) \<in> linked (all_edges r)" for u v
      using step [OF that(2)] that(1) by (auto simp: label_links_def)
    show "\<forall>i a j b. l = label i a \<longrightarrow> u = label j b \<longrightarrow> (a, b) \<in> linked (all_edges r)"
      if "(u, v) \<in> label_links r" "\<forall>i a j b. l = label i a \<longrightarrow> v = label j b \<longrightarrow> (a, b) \<in> linked (all_edges r)" for u v
      using step [OF that(2)] that(1) by (auto simp: label_links_def)
  qed auto
  moreover obtain i a where l: "l = label i a" using labels_at_form assms(4) by blast
  moreover obtain j b where m: "m = label j b" using labels_at_form assms(5) by blast
  moreover have "(x, a) \<in> linked (all_edges r)" "(y, b) \<in> linked (all_edges r)"
    using assms(4,5) local_linked [OF assms(2)] by (auto simp: l m lab)
  ultimately show ?thesis using linked_trans linked_sym by blast
qed

lemma linked_from_links: "(l, m) \<in> linked (label_links r) \<Longrightarrow> l = m \<or> l \<in> boundary_labels r \<and> m \<in> boundary_labels r"
proof -
  have n: "nodes_of (label_links r) \<subseteq> boundary_labels r" by (auto simp: nodes_of_def label_links_def boundary_labels_def)
  assume h: "(l, m) \<in> linked (label_links r)"
  show ?thesis using linked_outside [OF n, of l m] linked_outside [OF n, of m l] h linked_sym [OF h] by blast
qed

lemma labels_at_ex:
  assumes "shape_ok env r" and "resolved_but {} r"
  shows "(\<exists>l. l \<in> labels_at r v) \<longleftrightarrow> v \<in> nodes_of (all_edges r)"
proof
  assume "\<exists>l. l \<in> labels_at r v"
  then obtain i x where "label i x \<in> labels_at r v" using labels_at_form by blast
  then have "i < r_num r" "v \<in> nodes_of (set (r_edges r ! i))"
    using labels_at_iff [OF assms] local_okD(1) [OF resolvedD [OF assms(2)]] by blast+
  then show "v \<in> nodes_of (all_edges r)" by (force simp: nodes_of_def all_edges_def)
next
  assume "v \<in> nodes_of (all_edges r)"
  then obtain i where i: "i < r_num r" "v \<in> nodes_of (set (r_edges r ! i))" by (force simp: nodes_of_def all_edges_def)
  then obtain x where "dict_get (r_local r ! i) v = Some x" using local_ok_get [OF resolvedD [OF assms(2)]] by blast
  then show "\<exists>l. l \<in> labels_at r v" using labels_at_iff [OF assms] i(1) by blast
qed

subsection \<open>Resolving\<close>

lemma resolve_dirty_ok:
  assumes "env_ok env"
  shows "length (r_local r) = r_num r \<Longrightarrow> length (r_members r) = r_num r \<Longrightarrow> set idxs \<subseteq> {..<r_num r} \<Longrightarrow> resolved_but D r \<Longrightarrow>
    \<exists>loc mem. resolve_dirty env idxs r = Some (Inr (r\<lparr>r_local := loc, r_members := mem\<rparr>)) \<and> length loc = r_num r \<and> length mem = r_num r \<and>
      resolved_but (D - set idxs) (r\<lparr>r_local := loc, r_members := mem\<rparr>)"
proof (induction idxs arbitrary: r D)
  case Nil
  have "r\<lparr>r_local := r_local r, r_members := r_members r\<rparr> = r" by simp
  then show ?case using Nil by (metis Diff_empty list.set(1) resolve_dirty.simps(1))
next
  case (Cons idx rest)
  from resolve_correct obtain loc1 where
    loc1: "resolve_whole_graph (ge_edges env (r_edges r ! idx)) = Some (Inr loc1)" by blast
  have ok: "local_ok (set (r_edges r ! idx)) loc1 (group_by_root loc1)"
    using local_ok_resolved [OF loc1] assms by (simp add: env_ok_def)
  let ?r = "r\<lparr>r_local := (r_local r)[idx := loc1], r_members := (r_members r)[idx := group_by_root loc1]\<rparr>"
  have "resolved_but (D - {idx}) ?r" unfolding resolved_but_def
  proof (intro allI impI)
    fix i assume i: "i < r_num ?r" "i \<notin> D - {idx}"
    show "local_ok (set (r_edges ?r ! i)) (r_local ?r ! i) (r_members ?r ! i)"
      using ok i Cons.prems by (cases "i = idx") (simp_all add: resolved_but_def)
  qed
  moreover have "length (r_local ?r) = r_num ?r" "length (r_members ?r) = r_num ?r" "set rest \<subseteq> {..<r_num ?r}" using Cons.prems(1-3) by simp_all
  ultimately obtain loc mem where
    g: "resolve_dirty env rest ?r = Some (Inr (?r\<lparr>r_local := loc, r_members := mem\<rparr>))" "length loc = r_num ?r" "length mem = r_num ?r"
    "resolved_but (D - {idx} - set rest) (?r\<lparr>r_local := loc, r_members := mem\<rparr>)" using Cons.IH [of ?r "D - {idx}"] by blast
  have e: "?r\<lparr>r_local := loc, r_members := mem\<rparr> = r\<lparr>r_local := loc, r_members := mem\<rparr>" by simp
  have "resolve_dirty env (idx # rest) r = Some (Inr (r\<lparr>r_local := loc, r_members := mem\<rparr>))"
    using g(1) unfolding e by (simp add: loc1)
  moreover have "D - {idx} - set rest = D - set (idx # rest)" by auto
  ultimately have "resolve_dirty env (idx # rest) r = Some (Inr (r\<lparr>r_local := loc, r_members := mem\<rparr>)) \<and> length loc = r_num r \<and>
    length mem = r_num r \<and> resolved_but (D - set (idx # rest)) (r\<lparr>r_local := loc, r_members := mem\<rparr>)"
    using g(2-4) unfolding e by simp
  then show ?case by blast
qed

lemma those_map: "(\<And>x. x \<in> set xs \<Longrightarrow> f x \<noteq> None) \<Longrightarrow> \<exists>ys. those (map f xs) = Some ys \<and> set ys = {y. \<exists>x\<in>set xs. f x = Some y} \<and> length ys = length xs"
proof (induction xs)
  case (Cons x xs)
  then obtain ys where ys: "those (map f xs) = Some ys" "set ys = {y. \<exists>x\<in>set xs. f x = Some y}" "length ys = length xs" by auto
  obtain y where "f x = Some y" using Cons.prems [of x] by auto
  then show ?case using ys by (auto split: option.splits)
qed simp

lemma node_labels_ok:
  assumes "shape_ok env r" and "resolved_but {} r" and "v \<in> set (r_boundary r)"
  shows "\<exists>l ls. node_labels r v = Some (l # ls) \<and> set (l # ls) = labels_at r v"
proof -
  have len: "1 < length (shards_at (r_node_shards r) v)" using assms(1,3) by (auto simp: shape_ok_def counts_ok_def)
  then obtain d where d: "dict_get (r_node_shards r) v = Some d" "1 < length d" by (auto simp: shards_at_def split: option.splits)
  then have at: "shards_at (r_node_shards r) v = d" by (simp add: shards_at_def)
  let ?f = "\<lambda>i. map_option (label i) (dict_get (r_local r ! i) v)"
  have "?f i \<noteq> None" if "i \<in> set (dict_keys d)" for i
  proof -
    have "dict_get d i \<noteq> None" using that by (simp add: map_of_eq_None_iff)
    then have "i < r_num r" "v \<in> nodes_of (set (r_edges r ! i))" using shards_at_iff [OF assms(1), of v i] at by simp_all
    then show ?thesis using local_ok_get [OF resolvedD [OF assms(2)]] by fastforce
  qed
  from those_map [of "dict_keys d" ?f, OF this] obtain ys where
    ys: "those (map ?f (dict_keys d)) = Some ys" "set ys = {y. \<exists>i\<in>set (dict_keys d). ?f i = Some y}" "length ys = length (dict_keys d)" by blast
  have "set ys = labels_at r v" unfolding ys(2) labels_at_def at by (force simp: map_of_eq_None_iff)
  moreover obtain l ls where "ys = l # ls" using ys(3) d(2) by (cases ys) auto
  ultimately show ?thesis using ys(1) d(1) by (auto simp: node_labels_def)
qed

lemma union_labels_ok:
  "uf_spec u V E \<Longrightarrow> l \<in> V \<Longrightarrow> \<exists>u1. union_labels u l ms = Some (Inr u1) \<and> uf_spec u1 (V \<union> set ms) (E \<union> Pair l ` set ms)"
proof (induction ms arbitrary: u V E)
  case (Cons m ms)
  from uf_spec_union [OF Cons.prems(1), of l m] obtain u1 where
    u1: "uf_union u l m = Some (Inr u1)" "uf_spec u1 (insert l (insert m V)) (insert (l, m) E)" by blast
  have V: "insert l (insert m V) = insert m V" using Cons.prems(2) by auto
  have "l \<in> insert m V" using Cons.prems(2) by simp
  from Cons.IH [OF u1(2) [unfolded V] this] obtain u2 where
    "union_labels u1 l ms = Some (Inr u2)" "uf_spec u2 (insert m V \<union> set ms) (insert (l, m) E \<union> Pair l ` set ms)" by blast
  then show ?case using u1(1) by (simp add: insert_commute)
qed simp

text \<open>The links made form a star for every boundary node.\<close>

lemma reconcile_ok:
  assumes "shape_ok env r" and "resolved_but {} r"
  shows "uf_spec u V E \<Longrightarrow> set vs \<subseteq> set (r_boundary r) \<Longrightarrow>
    \<exists>u1 S. reconcile r u vs = Some (Inr u1) \<and> uf_spec u1 (V \<union> (\<Union>v\<in>set vs. labels_at r v)) (E \<union> S) \<and>
      S \<subseteq> label_links r \<and> (\<forall>v\<in>set vs. \<forall>l\<in>labels_at r v. \<forall>m\<in>labels_at r v. (l, m) \<in> linked S)"
proof (induction vs arbitrary: u V E)
  case (Cons v vs)
  have "v \<in> set (r_boundary r)" using Cons.prems(2) by simp
  from node_labels_ok [OF assms this] obtain l ls where
    ls: "node_labels r v = Some (l # ls)" "set (l # ls) = labels_at r v" by blast
  from union_labels_ok [OF uf_spec_add [OF Cons.prems(1), of l], of l ls] obtain u1 where
    u1: "union_labels (uf_add u l) l ls = Some (Inr u1)" "uf_spec u1 (insert l V \<union> set ls) (E \<union> Pair l ` set ls)" by auto
  from Cons.IH [OF u1(2)] Cons.prems(2) obtain u2 S where
    u2: "reconcile r u1 vs = Some (Inr u2)"
      "uf_spec u2 (insert l V \<union> set ls \<union> (\<Union>v\<in>set vs. labels_at r v)) (E \<union> Pair l ` set ls \<union> S)"
      "S \<subseteq> label_links r" "\<forall>v\<in>set vs. \<forall>l\<in>labels_at r v. \<forall>m\<in>labels_at r v. (l, m) \<in> linked S" by auto
  let ?S = "Pair l ` set ls \<union> S"
  have V: "insert l V \<union> set ls \<union> (\<Union>v\<in>set vs. labels_at r v) = V \<union> (\<Union>v\<in>set (v # vs). labels_at r v)"
    using ls(2) by auto
  have "Pair l ` set ls \<subseteq> label_links r" using ls(2) Cons.prems(2) by (auto simp: label_links_def)
  moreover have star: "(l, m) \<in> linked ?S" if "m \<in> labels_at r v" for m
    using that unfolding ls(2) [symmetric] by (auto intro: linked_edge)
  then have "\<forall>m\<in>labels_at r v. \<forall>m'\<in>labels_at r v. (m, m') \<in> linked ?S" using linked_sym linked_trans by blast
  moreover have "linked S \<subseteq> linked ?S" by (rule linked_mono) blast
  ultimately show ?case using u1(1) u2 V ls(1)
    by (intro exI [of _ u2] exI [of _ ?S]) (auto simp: Un_assoc)
qed (auto intro: exI [of _ "{}"])

lemma linked_same:
  assumes "S \<subseteq> label_links r" and "\<forall>v\<in>set (r_boundary r). \<forall>l\<in>labels_at r v. \<forall>m\<in>labels_at r v. (l, m) \<in> linked S"
  shows "linked S = linked (label_links r)"
proof
  show "linked S \<subseteq> linked (label_links r)" by (rule linked_mono [OF assms(1)])
  show "linked (label_links r) \<subseteq> linked S"
  proof
    fix p assume "p \<in> linked (label_links r)"
    then obtain x y where p: "p = (x, y)" "(x, y) \<in> linked (label_links r)" by (cases p) auto
    have "(x, y) \<in> linked S" using p(2)
    proof (rule linked_induct)
      show "(x, v) \<in> linked S" if "(u, v) \<in> label_links r" "(x, u) \<in> linked S" for u v
        using that assms(2) linked_trans by (auto simp: label_links_def)
      show "(x, u) \<in> linked S" if "(u, v) \<in> label_links r" "(x, v) \<in> linked S" for u v
        using that assms(2) linked_trans by (auto simp: label_links_def)
    qed simp
    then show "p \<in> linked S" by (simp add: p(1))
  qed
qed

text \<open>After \<open>resolve\<close> nothing is dirty and the coordinator is right; edges and nodes are as before.\<close>

lemma resolve_ok:
  assumes "env_ok env" and "gp_ok env r"
  shows "\<exists>r1 u. resolve env r = Some (Inr r1) \<and> gp_ok env r1 \<and> r_coord r1 = Some u \<and> all_edges r1 = all_edges r"
proof (cases "r_coord r")
  case (Some u)
  then show ?thesis using assms(2) by (auto simp: resolve_def)
next
  case None
  have sh: "shape_ok env r" using assms(2) by (simp add: gp_ok_def)
  have "length (r_local r) = r_num r" "length (r_members r) = r_num r" "set (sort (r_dirty r)) \<subseteq> {..<r_num r}" "resolved_but (set (r_dirty r)) r"
    using assms(2) by (simp_all add: gp_ok_def shape_ok_def)
  from resolve_dirty_ok [OF assms(1) this] obtain loc mem where
    d: "resolve_dirty env (sort (r_dirty r)) r = Some (Inr (r\<lparr>r_local := loc, r_members := mem\<rparr>))"
      "length loc = r_num r" "length mem = r_num r" "resolved_but {} (r\<lparr>r_local := loc, r_members := mem\<rparr>)" by auto
  let ?r1 = "r\<lparr>r_local := loc, r_members := mem\<rparr>"
  have sh1: "shape_ok env ?r1" using sh d(2,3) by (auto simp: shape_ok_def counts_ok_def shard_of_def)
  have "set (ge_nodes env (r_boundary ?r1)) = set (r_boundary ?r1)" using assms(1) by (simp add: env_ok_def)
  with reconcile_ok [OF sh1 d(4) uf_spec_empty, of "ge_nodes env (r_boundary ?r1)"] obtain u S where
    u: "reconcile ?r1 uf_empty (ge_nodes env (r_boundary ?r1)) = Some (Inr u)" "uf_spec u (boundary_labels ?r1) S"
      "S \<subseteq> label_links ?r1" "\<forall>v\<in>set (r_boundary ?r1). \<forall>l\<in>labels_at ?r1 v. \<forall>m\<in>labels_at ?r1 v. (l, m) \<in> linked S"
    by (auto simp: boundary_labels_def)
  have L: "linked S = linked (label_links ?r1)" by (rule linked_same [OF u(3,4)])
  from u(2) obtain rep rk where V: "\<And>l. uf_contains u l \<longleftrightarrow> l \<in> boundary_labels ?r1" and ok: "uf_ok u rep rk"
    and R: "\<forall>l\<in>boundary_labels ?r1. \<forall>m\<in>boundary_labels ?r1. rep l = rep m \<longleftrightarrow> (l, m) \<in> linked (label_links ?r1)"
    unfolding uf_spec_def L by blast
  have keys: "set (dict_keys (uf_parent u)) = boundary_labels ?r1" using V by (auto simp: uf_contains_def map_of_eq_None_iff)
  from find_all_ok [OF ok, of "dict_keys (uf_parent u)"] V keys obtain u1 where
    f: "find_all u (dict_keys (uf_parent u)) = Some (Inr (map (\<lambda>l. (l, rep l)) (dict_keys (uf_parent u)), u1))"
      "uf_ok u1 rep rk" "\<And>v. uf_contains u1 v \<longleftrightarrow> uf_contains u v" by auto
  define rs where "rs = map (\<lambda>l. (l, rep l)) (dict_keys (uf_parent u))"
  have rs: "set rs = (\<lambda>l. (l, rep l)) ` boundary_labels ?r1" unfolding rs_def using keys by auto
  let ?r2 = "?r1\<lparr>r_dirty := [], r_last := length (r_dirty r), r_coord := Some u1, r_groups := group_by_root rs\<rparr>"
  have res: "resolve env r = Some (Inr ?r2)" using None d(1) u(1) f(1) by (simp add: resolve_def rs_def)
  have same: "boundary_labels ?r2 = boundary_labels ?r1" "label_links ?r2 = label_links ?r1"
    by (simp_all add: boundary_labels_def label_links_def labels_at_def)
  have "coord_for ?r2 u1 rep rk" unfolding coord_for_def same
  proof (intro conjI)
    show "uf_ok u1 rep rk" by (rule f(2))
    show "\<forall>l\<in>boundary_labels ?r1. \<forall>m\<in>boundary_labels ?r1. rep l = rep m \<longleftrightarrow> (l, m) \<in> linked (label_links ?r1)" by (rule R)
    show "\<forall>l. uf_contains u1 l \<longleftrightarrow> l \<in> boundary_labels ?r1" using f(3) V by blast
    show "\<forall>q. set (at_key (r_groups ?r2) q) = {l \<in> boundary_labels ?r1. rep l = q}" by (auto simp: group_by_root_at rs)
    show "\<forall>q. dict_get (r_groups ?r2) q \<noteq> None \<longleftrightarrow> q \<in> rep ` boundary_labels ?r1"
      using group_by_root_keys [of rs] by (simp add: rs image_image)
  qed
  then have "coord_ok ?r2 u1" by (auto simp: coord_ok_def)
  moreover have "shape_ok env ?r2" using sh1 by (auto simp: shape_ok_def counts_ok_def shard_of_def)
  moreover have "resolved_but (set (r_dirty ?r2)) ?r2" using d(4) by (simp add: resolved_but_def)
  ultimately have "gp_ok env ?r2" by (simp add: gp_ok_def)
  then show ?thesis using res by (intro exI [of _ ?r2] exI [of _ u1]) (simp add: all_edges_def)
qed

subsection \<open>Components\<close>

definition component :: "edge set \<Rightarrow> string \<Rightarrow> string set" where
  "component E v = (if v \<in> nodes_of E then {w. (v, w) \<in> linked E} else {})"

lemma linked_nodes: "v \<in> nodes_of E \<Longrightarrow> (v, w) \<in> linked E \<Longrightarrow> w \<in> nodes_of E"
  using linked_outside [of E "nodes_of E" w v] linked_sym by blast

text \<open>The members of one label.\<close>

lemma members_of_label:
  assumes "shape_ok env r" and "resolved_but {} r" and "l \<in> labels_at r v"
  shows "\<exists>i x ms. split_label l = (i, x) \<and> dict_get (r_members r ! i) x = Some ms \<and> set ms = {w. l \<in> labels_at r w}"
proof -
  obtain i x where l: "l = label i x" using labels_at_form assms(3) by blast
  note lab = labels_at_iff [OF assms(1,2)]
  have i: "i < r_num r" "dict_get (r_local r ! i) v = Some x" using assms(3) lab by (simp_all add: l)
  note ok = resolvedD [OF assms(2) i(1)]
  obtain ms where ms: "dict_get (r_members r ! i) x = Some ms" using local_okD(4) [OF ok i(2)] by blast
  have "set (at_key (r_members r ! i) x) = {w. dict_get (r_local r ! i) w = Some x}" using ok by (simp add: local_ok_def)
  then have "set ms = {w. l \<in> labels_at r w}" using i(1) lab by (simp add: at_key_def ms l)
  then show ?thesis using ms split_label_label l by blast
qed

lemma gather_ok:
  assumes "shape_ok env r" and "resolved_but {} r"
  shows "\<forall>l\<in>set ls. \<exists>v. l \<in> labels_at r v \<Longrightarrow> gather r ls = Some {w. \<exists>l\<in>set ls. l \<in> labels_at r w}"
proof (induction ls)
  case (Cons l ls)
  obtain v where "l \<in> labels_at r v" using Cons.prems by auto
  from members_of_label [OF assms this] obtain i x ms where
    "split_label l = (i, x)" "dict_get (r_members r ! i) x = Some ms" "set ms = {w. l \<in> labels_at r w}" by blast
  then show ?case using Cons by auto
qed simp

lemma component_id_ok:
  assumes "env_ok env" and "gp_ok env r"
  shows "\<exists>ol r1. component_id env r v = Some (Inr (ol, r1)) \<and> gp_ok env r1 \<and> all_edges r1 = all_edges r \<and> r_dirty r1 = [] \<and>
    (ol = None \<longleftrightarrow> v \<notin> nodes_of (all_edges r)) \<and>
    (\<forall>l. ol = Some l \<longrightarrow> set (case dict_get (r_groups r1) l of None \<Rightarrow> [l] | Some ls \<Rightarrow> ls) =
       {m. (\<exists>w. m \<in> labels_at r1 w) \<and> (\<exists>k. k \<in> labels_at r1 v \<and> (k, m) \<in> linked (label_links r1))})"
proof -
  from resolve_ok [OF assms] obtain r1 u where
    r1: "resolve env r = Some (Inr r1)" "gp_ok env r1" "r_coord r1 = Some u" "all_edges r1 = all_edges r" by blast
  have sh: "shape_ok env r1" and dirty: "r_dirty r1 = []" and rb: "resolved_but {} r1" and co: "coord_ok r1 u"
    using r1(2,3) by (auto simp: gp_ok_def)
  note lab = labels_at_iff [OF sh rb]
  from co obtain rep rk where cf: "coord_for r1 u rep rk" by (auto simp: coord_ok_def)
  note c = coord_forD(1,2) [OF cf] and R = coord_forD(3) [OF cf] and G = coord_forD(4,5) [OF cf]
  show ?thesis
  proof (cases "shards_at (r_node_shards r1) v")
    case Nil
    have "labels_at r1 v = {}" by (simp add: labels_at_def Nil)
    then have "v \<notin> nodes_of (all_edges r)" using labels_at_ex [OF sh rb, of v] r1(4) by auto
    moreover have "component_id env r v = Some (Inr (None, r1))" using r1 Nil by (simp add: component_id_def first_label_def)
    ultimately show ?thesis using r1 dirty by auto
  next
    case (Cons p rest)
    obtain i k where p: "p = (i, k)" by (rule prod.exhaust)
    have ni: "i < r_num r1" "v \<in> nodes_of (set (r_edges r1 ! i))" using shards_at_iff [OF sh, of v i] Cons p by simp_all
    obtain x where x: "dict_get (r_local r1 ! i) v = Some x" using local_ok_get [OF resolvedD [OF rb ni(1)] ni(2)] by blast
    have fl: "first_label r1 v = Some (Inr (Some (label i x)))" using Cons p x by (simp add: first_label_def)
    define l where "l = label i x"
    have l: "l \<in> labels_at r1 v" using ni(1) x lab by (simp add: l_def)
    have vn: "v \<in> nodes_of (all_edges r)" using labels_at_ex [OF sh rb, of v] l r1(4) by auto
    have cls: "{m. (\<exists>w. m \<in> labels_at r1 w) \<and> (\<exists>k. k \<in> labels_at r1 v \<and> (k, m) \<in> linked (label_links r1))} =
        {m. (\<exists>w. m \<in> labels_at r1 w) \<and> (l, m) \<in> linked (label_links r1)}"
    proof -
      have "(\<exists>k. k \<in> labels_at r1 v \<and> (k, m) \<in> linked (label_links r1)) \<longleftrightarrow> (l, m) \<in> linked (label_links r1)" for m
      proof
        assume "\<exists>k. k \<in> labels_at r1 v \<and> (k, m) \<in> linked (label_links r1)"
        then obtain k where k: "k \<in> labels_at r1 v" "(k, m) \<in> linked (label_links r1)" by blast
        show "(l, m) \<in> linked (label_links r1)" using labels_at_same [OF sh l k(1)] k(2) by (rule linked_trans)
      qed (use l in blast)
      then show ?thesis by simp
    qed
    have bl: "\<exists>w. m \<in> labels_at r1 w" if "m \<in> boundary_labels r1" for m using that by (auto simp: boundary_labels_def)
    show ?thesis
    proof (cases "uf_contains u l")
      case True
      then have lb: "l \<in> boundary_labels r1" using c(2) by simp
      from uf_find_ok [OF c(1) True] obtain u1 where
        u1: "uf_find u l = Some (Inr (rep l, u1))" "uf_ok u1 rep rk" "\<And>w. uf_contains u1 w \<longleftrightarrow> uf_contains u w" by blast
      let ?r2 = "r1\<lparr>r_coord := Some u1\<rparr>"
      have id: "component_id env r v = Some (Inr (Some (rep l), ?r2))"
        using r1(1,3) fl True u1(1) by (simp add: component_id_def l_def)
      have same: "boundary_labels ?r2 = boundary_labels r1" "label_links ?r2 = label_links r1" "\<And>w. labels_at ?r2 w = labels_at r1 w"
        by (simp_all add: boundary_labels_def label_links_def labels_at_def)
      have "coord_for ?r2 u1 rep rk" unfolding coord_for_def same using u1(2,3) c(2) R G by simp
      then have "coord_ok ?r2 u1" by (auto simp: coord_ok_def)
      then have gp: "gp_ok env ?r2" using r1(2) dirty by (auto simp: gp_ok_def shape_ok_def counts_ok_def shard_of_def resolved_but_def)
      have "set (case dict_get (r_groups ?r2) (rep l) of None \<Rightarrow> [rep l] | Some ls \<Rightarrow> ls) = set (at_key (r_groups r1) (rep l))"
        using G(2) [of "rep l"] lb by (auto simp: at_key_def split: option.splits)
      also have "\<dots> = {m. (\<exists>w. m \<in> labels_at r1 w) \<and> (l, m) \<in> linked (label_links r1)}"
      proof (intro equalityI subsetI)
        fix m assume "m \<in> set (at_key (r_groups r1) (rep l))"
        then have m: "m \<in> boundary_labels r1" "rep m = rep l" unfolding G(1) by simp_all
        show "m \<in> {m. (\<exists>w. m \<in> labels_at r1 w) \<and> (l, m) \<in> linked (label_links r1)}"
          using bl [OF m(1)] R [OF lb m(1)] m(2) by simp
      next
        fix m assume "m \<in> {m. (\<exists>w. m \<in> labels_at r1 w) \<and> (l, m) \<in> linked (label_links r1)}"
        then have lm: "(l, m) \<in> linked (label_links r1)" by simp
        have mb: "m \<in> boundary_labels r1" using linked_from_links [OF lm] lb by auto
        show "m \<in> set (at_key (r_groups r1) (rep l))" unfolding G(1) using R [OF lb mb] lm mb by simp
      qed
      finally have val: "set (case dict_get (r_groups ?r2) (rep l) of None \<Rightarrow> [rep l] | Some ls \<Rightarrow> ls) =
        {m. (\<exists>w. m \<in> labels_at r1 w) \<and> (l, m) \<in> linked (label_links r1)}" .
      have e: "all_edges ?r2 = all_edges r" "r_dirty ?r2 = []" using r1(4) dirty by (simp_all add: all_edges_def)
      show ?thesis
        by (rule exI [of _ "Some (rep l)"], rule exI [of _ ?r2], unfold same e val id)
          (use gp vn cls val in simp)
    next
      case False
      then have lb: "l \<notin> boundary_labels r1" using c(2) by simp
      have id: "component_id env r v = Some (Inr (Some l, r1))"
        using r1(1,3) fl False by (simp add: component_id_def l_def)
      have "dict_get (r_groups r1) l = None"
      proof (rule ccontr)
        assume "dict_get (r_groups r1) l \<noteq> None"
        then obtain m where m: "m \<in> boundary_labels r1" "l = rep m" using G(2) by blast
        have f: "forest (dict_get (uf_parent u)) rep rk" using c(1) by (simp add: uf_ok_def)
        obtain y where "dict_get (uf_parent u) m = Some y" using m(1) c(2) by (auto simp: uf_contains_def)
        from forestD(5) [OF f this] show False using False m(2) by (simp add: uf_contains_def)
      qed
      then have "set (case dict_get (r_groups r1) l of None \<Rightarrow> [l] | Some ls \<Rightarrow> ls) = {l}" by simp
      also have "{l} = {m. (\<exists>w. m \<in> labels_at r1 w) \<and> (l, m) \<in> linked (label_links r1)}"
      proof (intro equalityI subsetI)
        fix m assume "m \<in> {m. (\<exists>w. m \<in> labels_at r1 w) \<and> (l, m) \<in> linked (label_links r1)}"
        then have "(l, m) \<in> linked (label_links r1)" by simp
        then show "m \<in> {l}" using linked_from_links lb by auto
      qed (use l in auto)
      finally have val: "set (case dict_get (r_groups r1) l of None \<Rightarrow> [l] | Some ls \<Rightarrow> ls) =
        {m. (\<exists>w. m \<in> labels_at r1 w) \<and> (l, m) \<in> linked (label_links r1)}" .
      show ?thesis
        by (rule exI [of _ "Some l"], rule exI [of _ r1]) (simp add: id vn r1(2,4) dirty val cls)
    qed
  qed
qed

text \<open>What \<open>component_of\<close> returns is the component of the whole graph.\<close>

lemma component_of_ok:
  assumes "env_ok env" and "gp_ok env r"
  shows "\<exists>r1. component_of env r v = Some (Inr (component (all_edges r) v, r1)) \<and> gp_ok env r1 \<and> all_edges r1 = all_edges r"
proof -
  from component_id_ok [OF assms, of v] obtain ol r1 where
    c: "component_id env r v = Some (Inr (ol, r1))" "gp_ok env r1" "all_edges r1 = all_edges r" "r_dirty r1 = []"
      "ol = None \<longleftrightarrow> v \<notin> nodes_of (all_edges r)"
      "\<And>l. ol = Some l \<Longrightarrow> set (case dict_get (r_groups r1) l of None \<Rightarrow> [l] | Some ls \<Rightarrow> ls) =
         {m. (\<exists>w. m \<in> labels_at r1 w) \<and> (\<exists>k. k \<in> labels_at r1 v \<and> (k, m) \<in> linked (label_links r1))}" by blast
  have sh: "shape_ok env r1" and rb: "resolved_but {} r1" using c(2,4) by (auto simp: gp_ok_def)
  show ?thesis
  proof (cases ol)
    case None
    then show ?thesis using c by (simp add: component_of_def component_def)
  next
    case (Some l)
    define ls where "ls = (case dict_get (r_groups r1) l of None \<Rightarrow> [l] | Some ls \<Rightarrow> ls)"
    have ls: "set ls = {m. (\<exists>w. m \<in> labels_at r1 w) \<and> (\<exists>k. k \<in> labels_at r1 v \<and> (k, m) \<in> linked (label_links r1))}"
      unfolding ls_def by (rule c(6) [OF Some])
    have vn: "v \<in> nodes_of (all_edges r1)" using c(3,5) Some by auto
    have "gather r1 ls = Some {w. \<exists>l\<in>set ls. l \<in> labels_at r1 w}" by (rule gather_ok [OF sh rb]) (auto simp: ls)
    moreover have "{w. \<exists>l\<in>set ls. l \<in> labels_at r1 w} = {w. (v, w) \<in> linked (all_edges r1)}"
    proof (intro equalityI subsetI)
      fix w assume "w \<in> {w. \<exists>l\<in>set ls. l \<in> labels_at r1 w}"
      then show "w \<in> {w. (v, w) \<in> linked (all_edges r1)}" using labels_linked [OF sh rb] by (auto simp: ls)
    next
      fix w assume "w \<in> {w. (v, w) \<in> linked (all_edges r1)}"
      then have vw: "(v, w) \<in> linked (all_edges r1)" by simp
      obtain k where k: "k \<in> labels_at r1 v" using labels_at_ex [OF sh rb] vn by blast
      obtain m where m: "m \<in> labels_at r1 w" using labels_at_ex [OF sh rb] linked_nodes [OF vn vw] by blast
      show "w \<in> {w. \<exists>l\<in>set ls. l \<in> labels_at r1 w}" using linked_labels [OF sh rb vw k m] k m by (auto simp: ls)
    qed
    ultimately show ?thesis using c vn Some by (simp add: component_of_def component_def ls_def)
  qed
qed

subsection \<open>Changing the edges\<close>

lemma counts_ok_cong:
  "r_node_shards q = r_node_shards r \<Longrightarrow> r_boundary q = r_boundary r \<Longrightarrow> counts_ok cnt q = counts_ok cnt r"
  by (simp add: counts_ok_def)

lemma touch_both:
  assumes "counts_ok cnt r" and "a \<noteq> b" and "0 \<le> cnt idx a" "0 \<le> cnt idx b" and "0 \<le> cnt idx a + d" "0 \<le> cnt idx b + d"
  shows "counts_ok (\<lambda>i v. if i = idx \<and> (v = a \<or> v = b) then cnt i v + d else cnt i v) (touch b idx d (touch a idx d r))"
proof -
  let ?c = "cnt(idx := (cnt idx)(a := cnt idx a + d))"
  have "?c idx b = cnt idx b" using assms(2) by simp
  then have "counts_ok (?c(idx := (?c idx)(b := ?c idx b + d))) (touch b idx d (touch a idx d r))"
    using touch_counts [OF touch_counts [OF assms(1,3,5)], of idx b d] assms(4,6) by simp
  moreover have "?c(idx := (?c idx)(b := ?c idx b + d)) = (\<lambda>i v. if i = idx \<and> (v = a \<or> v = b) then cnt i v + d else cnt i v)"
    using assms(2) by (auto simp: fun_eq_iff)
  ultimately show ?thesis by simp
qed

definition moved :: "edge \<Rightarrow> nat \<Rightarrow> int \<Rightarrow> edge list \<Rightarrow> resolver \<Rightarrow> resolver" where
  "moved e idx d xs r = (touch (snd e) idx d (touch (fst e) idx d (r\<lparr>r_edges := (r_edges r)[idx := xs]\<rparr>)))
     \<lparr>r_dirty := List.insert idx (r_dirty r), r_coord := None\<rparr>"

lemma moved_fields:
  "r_num (moved e idx d xs r) = r_num r" "r_strategy (moved e idx d xs r) = r_strategy r"
  "r_edges (moved e idx d xs r) = (r_edges r)[idx := xs]" "r_local (moved e idx d xs r) = r_local r"
  "r_members (moved e idx d xs r) = r_members r" "r_dirty (moved e idx d xs r) = List.insert idx (r_dirty r)"
  "r_coord (moved e idx d xs r) = None"
  by (simp_all add: moved_def)

lemma shard_of_cong: "r_num q = r_num r \<Longrightarrow> r_strategy q = r_strategy r \<Longrightarrow> shard_of env q e = shard_of env r e"
  by (simp add: shard_of_def)

lemma edge_count_update:
  "idx < length es \<Longrightarrow> edge_count (es[idx := xs]) i v = (if i = idx then int (length (filter (at_node v) xs)) else edge_count es i v)"
  by (auto simp: edge_count_def)

lemma moved_ok:
  assumes "gp_ok env r" and "idx < r_num r" and "fst e \<noteq> snd e" and "distinct xs"
    and "\<And>x. x \<in> set xs \<Longrightarrow> norm_edge x = x \<and> fst x \<noteq> snd x \<and> shard_of env r x = Some idx"
    and "\<And>v. int (length (filter (at_node v) xs)) = edge_count (r_edges r) idx v + (if at_node v e then d else 0)"
  shows "gp_ok env (moved e idx d xs r)"
proof -
  let ?m = "moved e idx d xs r"
  have sh: "shape_ok env r" and rb: "resolved_but (set (r_dirty r)) r" using assms(1) by (simp_all add: gp_ok_def)
  have len: "idx < length (r_edges r)" using sh assms(2) by (simp add: shape_ok_def)
  let ?cnt = "edge_count (r_edges r)"
  let ?r = "r\<lparr>r_edges := (r_edges r)[idx := xs]\<rparr>"
  have pos: "0 \<le> ?cnt idx v" for v by (simp add: edge_count_def)
  have new: "0 \<le> ?cnt idx v + d" if "at_node v e" for v using assms(6) [of v] that by (metis of_nat_0_le_iff)
  have "counts_ok ?cnt ?r" using sh counts_ok_cong [of ?r r] by (simp add: shape_ok_def)
  from touch_both [OF this assms(3) pos pos, of d] new have
    "counts_ok (\<lambda>i v. if i = idx \<and> (v = fst e \<or> v = snd e) then ?cnt i v + d else ?cnt i v)
      (touch (snd e) idx d (touch (fst e) idx d ?r))" by (simp add: at_node_def)
  moreover have "(\<lambda>i v. if i = idx \<and> (v = fst e \<or> v = snd e) then ?cnt i v + d else ?cnt i v) = edge_count (r_edges ?m)"
    using assms(6) by (auto simp: fun_eq_iff moved_fields edge_count_update [OF len] at_node_def)
  ultimately have "counts_ok (edge_count (r_edges ?m)) ?m"
    using counts_ok_cong [of ?m "touch (snd e) idx d (touch (fst e) idx d ?r)"] by (simp add: moved_def)
  moreover have "distinct (r_edges ?m ! i) \<and>
      (\<forall>x\<in>set (r_edges ?m ! i). norm_edge x = x \<and> fst x \<noteq> snd x \<and> shard_of env ?m x = Some i)" if "i < r_num r" for i
  proof (cases "i = idx")
    case True
    then show ?thesis using assms(4,5) len shard_of_cong [of ?m r env] by (simp add: moved_fields)
  next
    case False
    then show ?thesis using sh that shard_of_cong [of ?m r env] by (simp add: moved_fields shape_ok_def)
  qed
  ultimately have s: "shape_ok env ?m" using sh assms(2) unfolding shape_ok_def by (simp add: moved_fields)
  have "resolved_but (set (r_dirty ?m)) ?m" unfolding resolved_but_def
  proof (intro allI impI)
    fix i assume "i < r_num ?m" "i \<notin> set (r_dirty ?m)"
    then have "i < r_num r" "i \<notin> set (r_dirty r)" "i \<noteq> idx" by (auto simp: moved_fields)
    then show "local_ok (set (r_edges ?m ! i)) (r_local ?m ! i) (r_members ?m ! i)" using rb by (simp add: moved_fields resolved_but_def)
  qed
  then show ?thesis using s by (simp add: gp_ok_def moved_fields)
qed

lemma all_edges_moved:
  assumes "shape_ok env r" and "idx < r_num r"
  shows "all_edges (moved e idx d xs r) = (\<Union>i\<in>{..<r_num r} - {idx}. set (r_edges r ! i)) \<union> set xs"
proof -
  have "idx < length (r_edges r)" using assms by (simp add: shape_ok_def)
  then show ?thesis using assms(2) by (auto simp: all_edges_def moved_fields nth_list_update split: if_splits)
qed

lemma norm_edge_norm [simp]: "norm_edge (norm_edge e) = norm_edge e"
  by (auto simp: norm_edge_def split: prod.splits)

lemma shard_of_ok:
  assumes "shape_ok env r"
  shows "\<exists>idx. shard_of env r e = Some idx \<and> idx < r_num r"
proof -
  obtain k where "shard_key (ge_chain env) e (r_strategy r) = Some k"
    using assms by (cases e) (auto simp: shape_ok_def shard_key_def)
  then show ?thesis using assms by (simp add: shard_of_def shape_ok_def)
qed

lemma in_shard:
  assumes "shape_ok env r" and "i < r_num r" and "e \<in> set (r_edges r ! i)"
  shows "shard_of env r e = Some i" "norm_edge e = e" "fst e \<noteq> snd e"
  using assms by (simp_all add: shape_ok_def)

lemma count_cons:
  "idx < length es \<Longrightarrow> int (length (filter (at_node v) (e # es ! idx))) = edge_count es idx v + (if at_node v e then 1 else 0)"
  by (simp add: edge_count_def)

lemma count_remove: "e \<in> set xs \<Longrightarrow> length (filter P xs) = length (filter P (remove1 e xs)) + (if P e then 1 else 0)"
  by (induction xs) auto

lemma add_one_ok:
  assumes "gp_ok env r"
  shows "\<exists>r1. add_one env e r = (r1, True) \<and> gp_ok env r1 \<and>
    all_edges r1 = (if fst e = snd e then all_edges r else insert (norm_edge e) (all_edges r))"
proof -
  have sh: "shape_ok env r" using assms by (simp add: gp_ok_def)
  define n where "n = norm_edge e"
  have same: "fst n = snd n \<longleftrightarrow> fst e = snd e" by (auto simp: n_def norm_edge_def split: prod.splits)
  obtain idx where idx: "shard_of env r n = Some idx" "idx < r_num r" using shard_of_ok [OF sh] by blast
  have len: "idx < length (r_edges r)" using sh idx(2) by (simp add: shape_ok_def)
  consider (loop) "fst e = snd e" | (old) "fst e \<noteq> snd e" "n \<in> set (r_edges r ! idx)" | (new) "fst e \<noteq> snd e" "n \<notin> set (r_edges r ! idx)" by blast
  then show ?thesis
  proof cases
    case loop
    then show ?thesis using assms same by (simp add: add_one_def n_def)
  next
    case old
    then have "n \<in> all_edges r" using idx(2) by (auto simp: all_edges_def)
    then show ?thesis using assms same old idx by (simp add: add_one_def n_def insert_absorb)
  next
    case new
    let ?m = "moved n idx 1 (n # r_edges r ! idx) r"
    have "gp_ok env ?m"
    proof (rule moved_ok [OF assms idx(2)])
      show "fst n \<noteq> snd n" using new same by simp
      show "distinct (n # r_edges r ! idx)" using new sh idx(2) by (simp add: shape_ok_def)
      show "norm_edge x = x \<and> fst x \<noteq> snd x \<and> shard_of env r x = Some idx" if "x \<in> set (n # r_edges r ! idx)" for x
      proof (cases "x = n")
        case True
        then show ?thesis using idx(1) new(1) same by (simp add: n_def)
      next
        case False
        then show ?thesis using in_shard [OF sh idx(2), of x] that by simp
      qed
      show "int (length (filter (at_node v) (n # r_edges r ! idx))) = edge_count (r_edges r) idx v + (if at_node v n then 1 else 0)" for v
        by (rule count_cons [OF len])
    qed
    moreover have "all_edges ?m = insert n (all_edges r)"
      unfolding all_edges_moved [OF sh idx(2)] using idx(2) by (auto simp: all_edges_def)
    moreover have "add_one env e r = (?m, True)" using new same idx(1) by (simp add: add_one_def moved_def n_def Let_def)
    ultimately show ?thesis using new(1) by (simp add: n_def)
  qed
qed

lemma remove_one_ok:
  assumes "gp_ok env r"
  shows "\<exists>r1. remove_one env e r = (r1, True) \<and> gp_ok env r1 \<and> all_edges r1 = all_edges r - {norm_edge e}"
proof -
  have sh: "shape_ok env r" using assms by (simp add: gp_ok_def)
  define n where "n = norm_edge e"
  obtain idx where idx: "shard_of env r n = Some idx" "idx < r_num r" using shard_of_ok [OF sh] by blast
  have len: "idx < length (r_edges r)" using sh idx(2) by (simp add: shape_ok_def)
  have elsewhere: "n \<notin> set (r_edges r ! i)" if "i < r_num r" "i \<noteq> idx" for i using in_shard(1) [OF sh that(1), of n] idx(1) that(2) by auto
  show ?thesis
  proof (cases "n \<in> set (r_edges r ! idx)")
    case False
    then have "n \<notin> all_edges r" using elsewhere by (auto simp: all_edges_def)
    then show ?thesis using assms False idx by (simp add: remove_one_def n_def)
  next
    case True
    have dist: "distinct (r_edges r ! idx)" using sh idx(2) by (simp add: shape_ok_def)
    let ?xs = "removeAll n (r_edges r ! idx)"
    let ?m = "moved n idx (- 1) ?xs r"
    have "gp_ok env ?m"
    proof (rule moved_ok [OF assms idx(2)])
      show "fst n \<noteq> snd n" using in_shard(3) [OF sh idx(2) True] .
      show "distinct ?xs" using dist by (simp add: distinct_removeAll)
      show "norm_edge x = x \<and> fst x \<noteq> snd x \<and> shard_of env r x = Some idx" if "x \<in> set ?xs" for x
        using that in_shard [OF sh idx(2), of x] by simp
      show "int (length (filter (at_node v) ?xs)) = edge_count (r_edges r) idx v + (if at_node v n then - 1 else 0)" for v
        using count_remove [OF True, of "at_node v"] len distinct_remove1_removeAll [OF dist] by (simp add: edge_count_def)
    qed
    moreover have "all_edges ?m = all_edges r - {n}"
      unfolding all_edges_moved [OF sh idx(2)] using idx(2) elsewhere by (auto simp: all_edges_def)
    moreover have "remove_one env e r = (?m, True)" using True idx(1) by (simp add: remove_one_def moved_def n_def Let_def)
    ultimately show ?thesis by (simp add: n_def)
  qed
qed

definition added :: "edge list \<Rightarrow> edge set" where
  "added es = norm_edge ` {e \<in> set es. fst e \<noteq> snd e}"

lemma added_cons: "added (e # es) = (if fst e = snd e then added es else insert (norm_edge e) (added es))"
  by (auto simp: added_def)

lemma add_edges_ok: "gp_ok env r \<Longrightarrow> \<exists>r1. add_edges env es r = (r1, True) \<and> gp_ok env r1 \<and> all_edges r1 = all_edges r \<union> added es"
proof (induction es arbitrary: r)
  case (Cons e es)
  from add_one_ok [OF Cons.prems, of e] obtain r1 where
    r1: "add_one env e r = (r1, True)" "gp_ok env r1" "all_edges r1 = (if fst e = snd e then all_edges r else insert (norm_edge e) (all_edges r))" by blast
  from Cons.IH [OF r1(2)] obtain r2 where
    "add_edges env es r1 = (r2, True)" "gp_ok env r2" "all_edges r2 = all_edges r1 \<union> added es" by blast
  then show ?case using r1 by (simp add: add_edges_def added_cons)
qed (simp add: add_edges_def added_def)

lemma remove_edges_ok: "gp_ok env r \<Longrightarrow> \<exists>r1. remove_edges env es r = (r1, True) \<and> gp_ok env r1 \<and> all_edges r1 = all_edges r - norm_edge ` set es"
proof (induction es arbitrary: r)
  case (Cons e es)
  from remove_one_ok [OF Cons.prems, of e] obtain r1 where
    r1: "remove_one env e r = (r1, True)" "gp_ok env r1" "all_edges r1 = all_edges r - {norm_edge e}" by blast
  from Cons.IH [OF r1(2)] obtain r2 where
    "remove_edges env es r1 = (r2, True)" "gp_ok env r2" "all_edges r2 = all_edges r1 - norm_edge ` set es" by blast
  then show ?case using r1 by (auto simp: remove_edges_def)
qed (simp add: remove_edges_def)

lemma new_resolver_ok:
  assumes "new_resolver n strategy = Some r" and "strategy \<in> {''anchor'', ''chain_pair'', ''hash''}"
  shows "gp_ok env r \<and> all_edges r = {}"
proof -
  have n: "0 < n" and r: "r = \<lparr>r_num = n, r_strategy = strategy, r_edges = replicate n [], r_local = replicate n [],
      r_members = replicate n [], r_node_shards = [], r_boundary = [], r_dirty = [], r_coord = None, r_groups = [], r_last = 0\<rparr>"
    using assms(1) by (auto simp: new_resolver_def split: if_splits)
  have "counts_ok (edge_count (r_edges r)) r" by (simp add: r counts_ok_def shards_at_def edge_count_def)
  then have "shape_ok env r" using n assms(2) by (simp add: shape_ok_def r)
  moreover have "resolved_but {} r" by (simp add: resolved_but_def r local_ok_empty)
  ultimately show ?thesis by (simp add: gp_ok_def r all_edges_def)
qed

subsection \<open>A session\<close>

datatype gp_op = Add "edge list" | Remove "edge list" | Query string

definition gp_step :: "gp_env \<Rightarrow> resolver \<Rightarrow> gp_op \<Rightarrow> resolver" where
  "gp_step env r p =
     (case p of
        Add es \<Rightarrow> fst (add_edges env es r)
      | Remove es \<Rightarrow> fst (remove_edges env es r)
      | Query v \<Rightarrow> (case component_of env r v of Some (Inr (ms, r1)) \<Rightarrow> r1 | _ \<Rightarrow> r))"

text \<open>The graph the operations describe: a set of undirected edges without loops.\<close>

fun graph_step :: "edge set \<Rightarrow> gp_op \<Rightarrow> edge set" where
  "graph_step E (Add es) = E \<union> added es"
| "graph_step E (Remove es) = E - norm_edge ` set es"
| "graph_step E (Query v) = E"

lemma gp_step_ok:
  assumes "env_ok env" and "gp_ok env r"
  shows "gp_ok env (gp_step env r p) \<and> all_edges (gp_step env r p) = graph_step (all_edges r) p"
proof (cases p)
  case (Add es)
  from add_edges_ok [OF assms(2), of es] obtain r1 where
    "add_edges env es r = (r1, True)" "gp_ok env r1" "all_edges r1 = all_edges r \<union> added es" by blast
  then show ?thesis by (simp add: gp_step_def Add)
next
  case (Remove es)
  from remove_edges_ok [OF assms(2), of es] obtain r1 where
    "remove_edges env es r = (r1, True)" "gp_ok env r1" "all_edges r1 = all_edges r - norm_edge ` set es" by blast
  then show ?thesis by (simp add: gp_step_def Remove)
next
  case (Query v)
  from component_of_ok [OF assms, of v] obtain r1 where
    "component_of env r v = Some (Inr (component (all_edges r) v, r1))" "gp_ok env r1" "all_edges r1 = all_edges r" by blast
  then show ?thesis by (simp add: gp_step_def Query)
qed

lemma session_ok:
  "env_ok env \<Longrightarrow> gp_ok env r \<Longrightarrow> gp_ok env (foldl (gp_step env) r ps) \<and> all_edges (foldl (gp_step env) r ps) = foldl graph_step (all_edges r) ps"
proof (induction ps arbitrary: r)
  case (Cons p ps)
  from gp_step_ok [OF Cons.prems, of p] have
    g: "gp_ok env (gp_step env r p)" "all_edges (gp_step env r p) = graph_step (all_edges r) p" by blast+
  from Cons.IH [OF Cons.prems(1) g(1)] show ?case unfolding g(2) foldl_Cons .
qed simp

text \<open>
  C26. The partitioned resolver answers as the whole graph would: after any sequence of additions, removals and
  queries, for every number of shards, every hash and each of the three strategies, \<open>component_of\<close> returns
  (no missing key, no endless \<open>find\<close>) exactly the connected component of the address in the graph of the edges
  added and not removed, and the empty set for an address without edges.
\<close>

theorem partitioned_resolution_exact:
  assumes "env_ok env" and "new_resolver n strategy = Some r0" and "strategy \<in> {''anchor'', ''chain_pair'', ''hash''}"
  shows "\<exists>r1. component_of env (foldl (gp_step env) r0 ps) v = Some (Inr (component (foldl graph_step {} ps) v, r1))"
proof -
  from new_resolver_ok [OF assms(2,3)] have r0: "gp_ok env r0" "all_edges r0 = {}" by simp_all
  from session_ok [OF assms(1) r0(1)] have s: "gp_ok env (foldl (gp_step env) r0 ps)"
    "all_edges (foldl (gp_step env) r0 ps) = foldl graph_step {} ps" by (simp_all add: r0(2))
  from component_of_ok [OF assms(1) s(1), of v] show ?thesis by (auto simp: s(2))
qed

definition demo_env :: gp_env where
  "demo_env = \<lparr>ge_hash = length, ge_chain = guess_chain, ge_edges = (\<lambda>xs. xs), ge_nodes = (\<lambda>xs. xs)\<rparr>"

theorem partitioned_resolution_exact_witness:
  "\<exists>r0 r1. new_resolver 4 ''hash'' = Some r0 \<and>
     component_of demo_env (foldl (gp_step demo_env) r0 [Add [(''a'', ''bb''), (''bb'', ''c'')], Query ''c'', Remove [(''bb'', ''a'')]]) ''c'' =
       Some (Inr (component {(''bb'', ''c'')} ''c'', r1))"
proof -
  obtain r0 where r0: "new_resolver 4 ''hash'' = Some r0" by (simp add: new_resolver_def)
  have "env_ok demo_env" by (simp add: env_ok_def demo_env_def)
  from partitioned_resolution_exact [OF this r0, of "[Add [(''a'', ''bb''), (''bb'', ''c'')], Query ''c'', Remove [(''bb'', ''a'')]]" "''c''"]
  have "\<exists>r1. component_of demo_env (foldl (gp_step demo_env) r0 [Add [(''a'', ''bb''), (''bb'', ''c'')], Query ''c'', Remove [(''bb'', ''a'')]]) ''c'' =
       Some (Inr (component {(''bb'', ''c'')} ''c'', r1))" by (simp add: added_cons) (simp add: added_def norm_edge_def)
  then show ?thesis using r0 by blast
qed

end
