(* ===== verification/SolanaAddress.thy ===== *)
theory SolanaAddress
  imports PyJson "HOL-Library.Word"
begin

text \<open>
  The Solana side of \<open>detection/cross_chain/solana_resolver.py\<close>: base58, the test for points of the Ed25519
  curve, program-derived addresses, the classification of addresses, and the parser of Wormhole messages.
  SHA-256 is a parameter; RPC requests are not modelled.
\<close>

type_synonym bytes = "8 word list"

subsection \<open>Positional numerals\<close>

text \<open>The digits of a number, most significant first, as the loops of \<open>divmod\<close> produce them.\<close>

fun digs :: "nat \<Rightarrow> nat \<Rightarrow> nat list" where
  "digs b n = (if n = 0 \<or> b < 2 then [] else digs b (n div b) @ [n mod b])"

declare digs.simps [simp del]

definition undigs :: "nat \<Rightarrow> nat list \<Rightarrow> nat" where
  "undigs b ds = foldl (\<lambda>n d. n * b + d) 0 ds"

lemma undigs_simps [simp]: "undigs b [] = 0" "undigs b (ds @ [d]) = undigs b ds * b + d"
  by (simp_all add: undigs_def)

lemma undigs_zeros [simp]: "undigs b (replicate k 0 @ ds) = undigs b ds"
  by (induction k) (simp_all add: undigs_def)

lemma digs_0 [simp]: "digs b 0 = []"
  by (simp add: digs.simps)

lemma digs_pos: "2 \<le> b \<Longrightarrow> n \<noteq> 0 \<Longrightarrow> digs b n = digs b (n div b) @ [n mod b]"
  by (subst digs.simps) simp

lemma digs_less: "d \<in> set (digs b n) \<Longrightarrow> d < b"
  by (induction b n rule: digs.induct) (subst (asm) (2) digs.simps, auto split: if_splits)

lemma undigs_digs [simp]: "2 \<le> b \<Longrightarrow> undigs b (digs b n) = n"
proof (induction b n rule: digs.induct)
  case (1 b n)
  then show ?case by (cases "n = 0") (simp_all add: digs_pos)
qed

lemma digs_lead: "2 \<le> b \<Longrightarrow> n \<noteq> 0 \<Longrightarrow> digs b n \<noteq> [] \<and> hd (digs b n) \<noteq> 0"
proof (induction b n rule: digs.induct)
  case (1 b n)
  show ?case
  proof (cases "n div b = 0")
    case True
    then have "n < b" using 1 by (simp add: div_eq_0_iff)
    then show ?thesis using 1 True by (simp add: digs_pos)
  next
    case False
    have "digs b (n div b) \<noteq> [] \<and> hd (digs b (n div b)) \<noteq> 0" using 1 False by simp
    then show ?thesis using digs_pos [OF 1(2,3)] by simp
  qed
qed

lemma digs_undigs:
  assumes "2 \<le> b"
  shows "\<forall>d\<in>set ds. d < b \<Longrightarrow> ds = [] \<or> hd ds \<noteq> 0 \<Longrightarrow> digs b (undigs b ds) = ds"
proof (induction ds rule: rev_induct)
  case (snoc d ds)
  have IH: "digs b (undigs b ds) = ds" using snoc by (cases ds) auto
  have d: "d < b" using snoc.prems(1) by simp
  have "undigs b ds * b + d \<noteq> 0"
  proof
    assume z: "undigs b ds * b + d = 0"
    then have "undigs b ds = 0" using assms by simp
    then have "ds = []" using IH by simp
    then show False using snoc.prems(2) z by simp
  qed
  then show ?case using assms d IH by (simp add: digs_pos)
qed simp

lemma undigs_less: "2 \<le> b \<Longrightarrow> \<forall>d\<in>set ds. d < b \<Longrightarrow> undigs b ds < b ^ length ds"
proof (induction ds rule: rev_induct)
  case (snoc d ds)
  then have "undigs b ds + 1 \<le> b ^ length ds" "d < b" by simp_all
  then have "(undigs b ds + 1) * b \<le> b ^ length ds * b" by (intro mult_right_mono) simp_all
  then show ?case using \<open>d < b\<close> by (simp add: algebra_simps)
qed simp

lemma digs_length_le: "2 \<le> b \<Longrightarrow> n < b ^ k \<Longrightarrow> length (digs b n) \<le> k"
proof (induction k arbitrary: n)
  case (Suc k)
  show ?case
  proof (cases "n = 0")
    case False
    have "n div b < b ^ k" using Suc.prems by (simp add: less_mult_imp_div_less mult.commute)
    then show ?thesis using Suc False by (simp add: digs_pos)
  qed simp
qed simp

text \<open>A change of base that keeps the leading zeros.\<close>

definition convert :: "nat \<Rightarrow> nat \<Rightarrow> nat list \<Rightarrow> nat list" where
  "convert b c ds = replicate (length (takeWhile (\<lambda>d. d = 0) ds)) 0 @ digs c (undigs b ds)"

lemma zeros_split: "ds = replicate (length (takeWhile (\<lambda>d. d = (0::nat)) ds)) 0 @ dropWhile (\<lambda>d. d = 0) ds"
proof -
  have "takeWhile (\<lambda>d. d = (0::nat)) ds = replicate (length (takeWhile (\<lambda>d. d = 0) ds)) 0"
    by (rule replicate_eqI) (auto dest: set_takeWhileD)
  then show ?thesis by (metis takeWhile_dropWhile_id)
qed

lemma take_zeros: "xs = [] \<or> hd xs \<noteq> (0::nat) \<Longrightarrow> takeWhile (\<lambda>d. d = 0) (replicate k 0 @ xs) = replicate k 0"
  by (induction k) (cases xs; simp)+

lemma convert_convert:
  assumes "2 \<le> b" and "2 \<le> c" and "\<forall>d\<in>set ds. d < b"
  shows "convert c b (convert b c ds) = ds"
proof -
  define z where "z = length (takeWhile (\<lambda>d. d = 0) ds)"
  define r where "r = dropWhile (\<lambda>d. d = 0) ds"
  have ds: "ds = replicate z 0 @ r" unfolding z_def r_def by (rule zeros_split)
  have r: "r = [] \<or> hd r \<noteq> 0" unfolding r_def by (induction ds) auto
  have n: "undigs b ds = undigs b r" by (subst ds) simp
  have lead: "digs c (undigs b r) = [] \<or> hd (digs c (undigs b r)) \<noteq> 0" using digs_lead [OF assms(2)] by (cases "undigs b r = 0") auto
  have "convert b c ds = replicate z 0 @ digs c (undigs b r)" by (simp add: convert_def n flip: z_def)
  then have "convert c b (convert b c ds) = replicate z 0 @ digs b (undigs b r)"
    by (simp add: convert_def take_zeros [OF lead] assms(2))
  also have "digs b (undigs b r) = r" using assms(1,3) r by (intro digs_undigs) (auto simp: ds)
  finally show ?thesis by (simp flip: ds)
qed

lemma convert_less: "0 < c \<Longrightarrow> d \<in> set (convert b c ds) \<Longrightarrow> d < c"
  by (auto simp: convert_def dest: digs_less)

subsection \<open>Base58\<close>

definition base58_alphabet :: string where
  "base58_alphabet = ''123456789ABCDEFGHJKLMNPQRSTUVWXYZabcdefghijkmnopqrstuvwxyz''"

definition base58_index :: "char \<Rightarrow> nat option" where
  "base58_index ch = map_of (zip base58_alphabet [0..<58]) ch"

text \<open>\<open>None\<close> is the \<open>SolanaValidationError\<close> of a foreign character.\<close>

definition base58_decode :: "string \<Rightarrow> bytes option" where
  "base58_decode s =
     (case those (map base58_index s) of
        None \<Rightarrow> None
      | Some ds \<Rightarrow> Some (replicate (length (takeWhile (\<lambda>ch. ch = CHR ''1'') s)) 0 @ map word_of_nat (digs 256 (undigs 58 ds))))"

definition base58_encode :: "bytes \<Rightarrow> string" where
  "base58_encode raw =
     replicate (length (takeWhile (\<lambda>x. x = 0) raw)) CHR ''1'' @ map (nth base58_alphabet) (digs 58 (undigs 256 (map unat raw)))"

lemma alphabet_length [simp]: "length base58_alphabet = 58"
  by (simp add: base58_alphabet_def)

lemma alphabet_distinct: "distinct base58_alphabet"
  by (simp add: base58_alphabet_def)

lemma index_nth [simp]: "d < 58 \<Longrightarrow> base58_index (base58_alphabet ! d) = Some d"
  unfolding base58_index_def using map_of_zip_nth [of base58_alphabet "[0..<58]" d] alphabet_distinct by simp

lemma index_Some: "base58_index ch = Some d \<longleftrightarrow> d < 58 \<and> base58_alphabet ! d = ch"
proof
  assume "base58_index ch = Some d"
  then have "(ch, d) \<in> set (zip base58_alphabet [0..<58])" unfolding base58_index_def by (rule map_of_SomeD)
  then show "d < 58 \<and> base58_alphabet ! d = ch" by (auto simp: set_zip)
qed auto

lemma index_None: "base58_index ch = None \<longleftrightarrow> ch \<notin> set base58_alphabet"
  by (metis alphabet_length index_Some in_set_conv_nth not_None_eq)

lemma alphabet_0 [simp]: "base58_alphabet ! 0 = CHR ''1''" "base58_index CHR ''1'' = Some 0"
proof -
  show "base58_alphabet ! 0 = CHR ''1''" by (simp add: base58_alphabet_def)
  then show "base58_index CHR ''1'' = Some 0" by (simp add: index_Some)
qed

lemma encode_convert: "base58_encode raw = map (nth base58_alphabet) (convert 256 58 (map unat raw))"
proof -
  have "length (takeWhile (\<lambda>d. d = 0) (map unat raw)) = length (takeWhile (\<lambda>x. x = 0) raw)"
    by (simp add: takeWhile_map comp_def unat_eq_0)
  then show ?thesis by (simp add: base58_encode_def convert_def)
qed

lemma decode_convert:
  assumes "those (map base58_index s) = Some ds"
  shows "base58_decode s = Some (map word_of_nat (convert 58 256 ds))"
proof -
  have "length (takeWhile (\<lambda>ch. ch = CHR ''1'') s) = length (takeWhile (\<lambda>d. d = 0) ds)"
    using assms
  proof (induction s arbitrary: ds)
    case (Cons c s)
    obtain d ds' where ds: "base58_index c = Some d" "those (map base58_index s) = Some ds'" "ds = d # ds'"
      using Cons.prems by (auto split: option.splits)
    have "c = CHR ''1'' \<longleftrightarrow> d = 0" using ds(1) index_Some alphabet_0 by (metis option.inject)
    then show ?case using Cons.IH [OF ds(2)] by (simp add: ds(3))
  qed simp
  then show ?thesis using assms by (simp add: base58_decode_def convert_def)
qed

lemma those_indices: "\<forall>d\<in>set ds. d < 58 \<Longrightarrow> those (map base58_index (map (nth base58_alphabet) ds)) = Some ds"
  by (induction ds) simp_all

lemma indices_nth: "those (map base58_index s) = Some ds \<Longrightarrow> map (nth base58_alphabet) ds = s \<and> (\<forall>d\<in>set ds. d < 58)"
proof (induction s arbitrary: ds)
  case (Cons c s)
  then obtain d ds' where "base58_index c = Some d" "those (map base58_index s) = Some ds'" "ds = d # ds'"
    by (auto split: option.splits)
  then show ?case using Cons.IH by (auto simp: index_Some)
qed simp

lemma bytes_of_nats: "\<forall>d\<in>set ds. d < 256 \<Longrightarrow> map unat (map (word_of_nat :: nat \<Rightarrow> 8 word) ds) = ds"
  by (induction ds) (simp_all add: unat_of_nat take_bit_eq_mod)

lemma nats_of_bytes: "map word_of_nat (map unat (raw :: bytes)) = raw"
  by (induction raw) simp_all

lemma unat_byte: "\<forall>d\<in>set (map unat (raw :: bytes)). d < 256"
proof -
  have "unat (w :: 8 word) < 256" for w using unsigned_less [of w] by simp
  then show ?thesis by auto
qed

lemma decode_encode: "base58_decode (base58_encode raw) = Some raw"
proof -
  have "\<forall>d\<in>set (convert 256 58 (map unat raw)). d < 58" by (auto dest: convert_less [rotated])
  then have "those (map base58_index (base58_encode raw)) = Some (convert 256 58 (map unat raw))"
    unfolding encode_convert by (rule those_indices)
  then have "base58_decode (base58_encode raw) = Some (map word_of_nat (convert 58 256 (convert 256 58 (map unat raw))))"
    by (rule decode_convert)
  also have "convert 58 256 (convert 256 58 (map unat raw)) = map unat raw" using unat_byte by (intro convert_convert) simp_all
  finally show ?thesis by (simp only: nats_of_bytes)
qed

text \<open>
  C29. Base58 loses nothing: decoding an encoding gives the bytes back, leading zero bytes included, and every
  text that can be decoded is the encoding of its bytes.\<close>

theorem base58_round_trip:
  "base58_decode (base58_encode raw) = Some raw \<and>
   (base58_decode s = None \<longleftrightarrow> \<not> set s \<subseteq> set base58_alphabet) \<and>
   (base58_decode s = Some raw \<longleftrightarrow> s = base58_encode raw)"
proof -
  have none: "base58_decode s = None \<longleftrightarrow> \<not> set s \<subseteq> set base58_alphabet"
  proof -
    have "base58_decode s = None \<longleftrightarrow> those (map base58_index s) = None" by (simp add: base58_decode_def split: option.splits)
    also have "\<dots> \<longleftrightarrow> (\<exists>ch\<in>set s. base58_index ch = None)" by (induction s) (auto split: option.splits)
    finally show ?thesis by (auto simp: index_None)
  qed
  have conv: "s = base58_encode raw" if got: "base58_decode s = Some raw"
  proof -
    obtain ds where ds: "those (map base58_index s) = Some ds" using got by (auto simp: base58_decode_def split: option.splits)
    from indices_nth [OF ds] have nth: "map (nth base58_alphabet) ds = s" and less: "\<forall>d\<in>set ds. d < 58" by simp_all
    have raw: "raw = map word_of_nat (convert 58 256 ds)" using decode_convert [OF ds] got by simp
    have "map unat raw = convert 58 256 ds" unfolding raw by (rule bytes_of_nats) (auto dest: convert_less [rotated])
    then have "convert 256 58 (map unat raw) = ds" using less by (simp add: convert_convert)
    then show ?thesis by (simp add: encode_convert nth)
  qed
  show ?thesis using none conv decode_encode by blast
qed

subsection \<open>Points of the curve\<close>

fun modpow :: "int \<Rightarrow> nat \<Rightarrow> int \<Rightarrow> int" where
  "modpow b e m =
     (if e = 0 then 1 mod m
      else let h = modpow (b * b mod m) (e div 2) m in if odd e then b * h mod m else h)"

declare modpow.simps [simp del]

definition ed25519_p :: int where
  "ed25519_p = 2 ^ 255 - 19"

definition ed25519_d :: int where
  "ed25519_d = - 121665 * modpow 121666 (nat (ed25519_p - 2)) ed25519_p mod ed25519_p"

text \<open>The bytes have length 32; \<open>pubkey_bytes\<close> checks that.\<close>

definition is_on_curve :: "bytes \<Rightarrow> bool" where
  "is_on_curve raw =
     (let y = take_bit 255 (int (undigs 256 (map unat (rev raw)))) in
      if ed25519_p \<le> y then False
      else let y2 = y * y mod ed25519_p;
               u = (y2 - 1) mod ed25519_p;
               v = (ed25519_d * y2 + 1) mod ed25519_p;
               x2 = u * modpow v (nat (ed25519_p - 2)) ed25519_p mod ed25519_p
           in x2 = 0 \<or> modpow x2 (nat ((ed25519_p - 1) div 2)) ed25519_p = 1)"

definition pubkey_bytes :: "string \<Rightarrow> bytes option" where
  "pubkey_bytes s = (case base58_decode s of None \<Rightarrow> None | Some raw \<Rightarrow> if length raw = 32 then Some raw else None)"

subsection \<open>Program-derived addresses\<close>

text \<open>\<open>SolanaValidationError\<close>, and the \<open>ValueError\<close> and \<open>TypeError\<close> that \<open>classify\<close> lets through.\<close>

datatype sol_error = Bad_Key | Bad_Byte | Bad_Type

datatype seed = SBytes bytes | SInt int | SText string

definition validate_solana_address :: "string \<Rightarrow> bool" where
  "validate_solana_address address =
     (let a = strip address in 32 \<le> length a \<and> length a \<le> 44 \<and> set a \<subseteq> set base58_alphabet)"

definition utf8 :: "string \<Rightarrow> bytes" where
  "utf8 s = concat (map (\<lambda>ch. let n = of_char ch :: nat in if n < 128 then [of_nat n] else [of_nat (192 + n div 64), of_nat (128 + n mod 64)]) s)"

definition seed_bytes :: "seed \<Rightarrow> sol_error + bytes" where
  "seed_bytes sd =
     (case sd of
        SBytes bs \<Rightarrow> Inr bs
      | SInt i \<Rightarrow> if 0 \<le> i \<and> i < 256 then Inr [word_of_int i] else Inl Bad_Byte
      | SText s \<Rightarrow>
          Inr (case (if validate_solana_address s then base58_decode s else None) of
                 Some raw \<Rightarrow> if length raw = 32 then raw else utf8 s
               | None \<Rightarrow> utf8 s))"

fun seeds_input :: "seed list \<Rightarrow> sol_error + bytes" where
  "seeds_input [] = Inr []"
| "seeds_input (sd # sds) =
     (case seed_bytes sd of
        Inl e \<Rightarrow> Inl e
      | Inr raw \<Rightarrow>
          if 32 < length raw then Inl Bad_Key
          else (case seeds_input sds of Inl e \<Rightarrow> Inl e | Inr rest \<Rightarrow> Inr (raw @ rest)))"

definition pda_marker :: bytes where
  "pda_marker = utf8 ''ProgramDerivedAddress''"

definition create_program_address :: "(bytes \<Rightarrow> bytes) \<Rightarrow> seed list \<Rightarrow> string \<Rightarrow> sol_error + string option" where
  "create_program_address sha seeds program =
     (if 16 < length seeds then Inl Bad_Key
      else (case seeds_input seeds of
              Inl e \<Rightarrow> Inl e
            | Inr input \<Rightarrow>
                (case pubkey_bytes program of
                   None \<Rightarrow> Inl Bad_Key
                 | Some key \<Rightarrow>
                     let digest = sha (input @ key @ pda_marker) in
                     if is_on_curve digest then Inr None else Inr (Some (base58_encode digest)))))"

fun try_bumps :: "(bytes \<Rightarrow> bytes) \<Rightarrow> seed list \<Rightarrow> string \<Rightarrow> nat list \<Rightarrow> sol_error + string \<times> nat" where
  "try_bumps sha seeds program [] = Inl Bad_Key"
| "try_bumps sha seeds program (b # bs) =
     (case create_program_address sha (seeds @ [SBytes [of_nat b]]) program of
        Inl e \<Rightarrow> Inl e
      | Inr (Some a) \<Rightarrow> Inr (a, b)
      | Inr None \<Rightarrow> try_bumps sha seeds program bs)"

definition find_program_address :: "(bytes \<Rightarrow> bytes) \<Rightarrow> seed list \<Rightarrow> string \<Rightarrow> sol_error + string \<times> nat" where
  "find_program_address sha seeds program = try_bumps sha seeds program (rev [0..<256])"

definition known_programs :: "(string, string) dict" where
  "known_programs =
     [(''TokenkegQfeZyiNwAJbNbGKPFXCWuBvf9Ss623VQ5DA'', ''spl_token''),
      (''TokenzQdBNbLqP5VEhdkAS6EAFqZ1ALBG8PS3Kd1pJG'', ''spl_token_2022''),
      (''ATokenGPvbdGVxr1b2hvZbsiqW5xWH25efTNsLJA8knL'', ''associated_token_account''),
      (''worm2ZoG2kUd4vFXhvjh93UUH596ayRfgQ2MgjNMTth'', ''wormhole_core''),
      (''wormDTUJ6AWPNvk59vGQbDvGJmqbDTdgWgAqcLBCgUb'', ''wormhole_token_bridge''),
      (''675kPX9MHTjS2zt1qfr1NYHuzeLXfQM9H24wFSUt1Mp8'', ''raydium_amm_v4''),
      (''whirLbMiicVdio4qvUfM5KAg6Ct8VwpYzGff3uctyCc'', ''orca_whirlpool''),
      (''MarBmsSgKXdrN1egZf5sqe1TMai9K1rChYNDJgjq7aD'', ''marinade'')]"

definition associated_token_address :: "(bytes \<Rightarrow> bytes) \<Rightarrow> string \<Rightarrow> string \<Rightarrow> string \<Rightarrow> sol_error + string" where
  "associated_token_address sha wallet mint token_program =
     map_sum id fst (find_program_address sha [SText wallet, SText token_program, SText mint] ''ATokenGPvbdGVxr1b2hvZbsiqW5xWH25efTNsLJA8knL'')"

subsection \<open>Classification\<close>

record pda_hint =
  ph_program :: string
  ph_seeds :: "seed list"
  ph_pattern :: string

text \<open>The owner of an account is a value of unknown type, read from JSON.\<close>

record classification =
  cl_address :: string
  cl_kind :: string
  cl_program :: json
  cl_name :: "string option"
  cl_pattern :: "string option"
  cl_bump :: "nat option"

definition plain_class :: "string \<Rightarrow> string \<Rightarrow> classification" where
  "plain_class address kind = \<lparr>cl_address = address, cl_kind = kind, cl_program = JNull, cl_name = None, cl_pattern = None, cl_bump = None\<rparr>"

text \<open>\<open>KNOWN_PROGRAM_IDS.get\<close>; \<open>None\<close> is the \<open>TypeError\<close> of an unhashable key.\<close>

definition program_name :: "json \<Rightarrow> string option option" where
  "program_name j =
     (if py_hashable j then Some (case j of JStr s \<Rightarrow> dict_get known_programs s | _ \<Rightarrow> None) else None)"

fun match_hints :: "(bytes \<Rightarrow> bytes) \<Rightarrow> string \<Rightarrow> pda_hint list \<Rightarrow> sol_error + classification option" where
  "match_hints sha address [] = Inr None"
| "match_hints sha address (h # hs) =
     (case find_program_address sha (ph_seeds h) (ph_program h) of
        Inl Bad_Key \<Rightarrow> match_hints sha address hs
      | Inl e \<Rightarrow> Inl e
      | Inr (derived, bump) \<Rightarrow>
          if derived = address
          then Inr (Some \<lparr>cl_address = address, cl_kind = ''pda'', cl_program = JStr (ph_program h),
                 cl_name = dict_get known_programs (ph_program h), cl_pattern = Some (ph_pattern h), cl_bump = Some bump\<rparr>)
          else match_hints sha address hs)"

definition classify_off_curve :: "string \<Rightarrow> json \<Rightarrow> sol_error + classification" where
  "classify_off_curve address owner =
     (case program_name (py_or owner (JStr [])) of
        None \<Rightarrow> Inl Bad_Type
      | Some name \<Rightarrow> Inr ((plain_class address ''pda_unverified'')\<lparr>cl_program := owner, cl_name := name\<rparr>))"

definition classify_on_curve :: "string \<Rightarrow> json \<Rightarrow> sol_error + classification" where
  "classify_on_curve address owner =
     (if py_truthy owner
      then (case program_name owner of
              None \<Rightarrow> Inl Bad_Type
            | Some (Some name) \<Rightarrow> Inr ((plain_class address ''program_owned'')\<lparr>cl_program := owner, cl_name := Some name\<rparr>)
            | Some None \<Rightarrow> Inr (plain_class address ''wallet''))
      else Inr (plain_class address ''wallet''))"

definition classify_solana_address :: "(bytes \<Rightarrow> bytes) \<Rightarrow> string \<Rightarrow> pda_hint list \<Rightarrow> json \<Rightarrow> sol_error + classification" where
  "classify_solana_address sha address hints owner =
     (if \<not> validate_solana_address address then Inr (plain_class address ''invalid'')
      else (case dict_get known_programs address of
              Some name \<Rightarrow> Inr ((plain_class address ''program'')\<lparr>cl_program := JStr address, cl_name := Some name\<rparr>)
            | None \<Rightarrow>
                (case pubkey_bytes address of
                   None \<Rightarrow> Inr (plain_class address ''invalid'')
                 | Some raw \<Rightarrow>
                     (case match_hints sha address hints of
                        Inl e \<Rightarrow> Inl e
                      | Inr (Some c) \<Rightarrow> Inr c
                      | Inr None \<Rightarrow> if is_on_curve raw then classify_on_curve address owner else classify_off_curve address owner))))"

definition non_user_kinds :: "string set" where
  "non_user_kinds = {''pda'', ''pda_unverified'', ''program'', ''program_owned''}"

text \<open>A link of a resolver, by the keys the filter reads and writes.\<close>

record sol_link =
  sl_address :: string
  sl_hints :: "pda_hint list"
  sl_owner :: json
  sl_kind :: "string option"
  sl_program :: "json option"

fun filter_pda_links :: "(bytes \<Rightarrow> bytes) \<Rightarrow> bool \<Rightarrow> sol_link list \<Rightarrow> sol_error + sol_link list" where
  "filter_pda_links sha include [] = Inr []"
| "filter_pda_links sha include (l # ls) =
     (if sl_address l = [] then map_sum id (Cons l) (filter_pda_links sha include ls)
      else (case classify_solana_address sha (sl_address l) (sl_hints l) (sl_owner l) of
              Inl e \<Rightarrow> Inl e
            | Inr c \<Rightarrow>
                let tagged = l\<lparr>sl_kind := Some (cl_kind c)\<rparr> in
                if cl_kind c \<in> non_user_kinds
                then if include then map_sum id (Cons (tagged\<lparr>sl_program := Some (cl_program c)\<rparr>)) (filter_pda_links sha include ls)
                     else filter_pda_links sha include ls
                else map_sum id (Cons tagged) (filter_pda_links sha include ls)))"

subsection \<open>Derived addresses\<close>

lemma modpow_eq: "modpow b e m = b ^ e mod m"
proof (induction b e m rule: modpow.induct)
  case (1 b e m)
  show ?case
  proof (cases "e = 0")
    case True
    then show ?thesis by (subst modpow.simps) simp
  next
    case False
    define h where "h = modpow (b * b mod m) (e div 2) m"
    have h: "h = (b * b mod m) ^ (e div 2) mod m" using 1 [OF False] by (simp add: h_def)
    have sq: "h = b ^ (2 * (e div 2)) mod m" unfolding h by (simp add: power_mod power_mult power2_eq_square)
    have e: "b ^ e = (if odd e then b * b ^ (2 * (e div 2)) else b ^ (2 * (e div 2)))"
      by (metis even_two_times_div_two odd_two_times_div_two_succ power_Suc Suc_eq_plus1)
    have "modpow b e m = (if odd e then b * h mod m else h)"
      using False by (subst modpow.simps) (simp add: Let_def h_def)
    then show ?thesis unfolding e sq by (simp add: mod_mult_right_eq)
  qed
qed

lemma alphabet_not_space: "ch \<in> set base58_alphabet \<Longrightarrow> \<not> ascii_space ch"
  by (auto simp: base58_alphabet_def ascii_space_def)

lemma strip_base58: "set s \<subseteq> set base58_alphabet \<Longrightarrow> strip s = s"
proof -
  assume s: "set s \<subseteq> set base58_alphabet"
  have "dropWhile ascii_space t = t" if "set t \<subseteq> set base58_alphabet" for t
    using that alphabet_not_space by (cases t) auto
  then show ?thesis using s by (simp add: strip_def)
qed

lemma encode_alphabet: "set (base58_encode raw) \<subseteq> set base58_alphabet"
proof
  fix ch assume "ch \<in> set (base58_encode raw)"
  then obtain d where d: "d \<in> set (convert 256 58 (map unat raw))" "ch = base58_alphabet ! d" by (auto simp: encode_convert)
  have "d < length base58_alphabet" using convert_less [OF _ d(1)] by simp
  then show "ch \<in> set base58_alphabet" unfolding d(2) by (rule nth_mem)
qed

lemma encode_length:
  assumes "length raw = 32"
  shows "32 \<le> length (base58_encode raw) \<and> length (base58_encode raw) \<le> 44"
proof -
  define ds where "ds = map unat raw"
  define z where "z = length (takeWhile (\<lambda>d. d = 0) ds)"
  define r where "r = dropWhile (\<lambda>d. d = 0) ds"
  have ds: "ds = replicate z 0 @ r" unfolding z_def r_def by (rule zeros_split)
  have len: "z + length r = 32" using assms arg_cong [OF ds, of length] by (simp add: ds_def)
  have b: "\<forall>d\<in>set r. d < 256" using unat_byte [of raw] ds by (auto simp flip: ds_def)
  have r: "r = [] \<or> hd r \<noteq> 0" unfolding r_def by (induction ds) auto
  define n where "n = undigs 256 r"
  have n: "undigs 256 ds = n" unfolding n_def by (subst ds) simp
  have e: "length (base58_encode raw) = z + length (digs 58 n)"
    by (simp add: encode_convert convert_def n flip: ds_def z_def)
  have "n < 58 ^ length (digs 58 n)"
    using undigs_less [of 58 "digs 58 n"] by (simp add: digs_less)
  also have "\<dots> \<le> 256 ^ length (digs 58 n)" by (intro power_mono) simp_all
  finally have "length (digs 256 n) \<le> length (digs 58 n)" by (intro digs_length_le) simp_all
  moreover have "digs 256 n = r" unfolding n_def using b r by (intro digs_undigs) simp_all
  ultimately have lo: "length r \<le> length (digs 58 n)" by simp
  have "n < 256 ^ length r" unfolding n_def using b by (intro undigs_less) simp_all
  also have "(256::nat) ^ length r \<le> 58 ^ (44 - z)"
  proof (rule mult_right_le_imp_le)
    have "(256::nat) ^ length r * 58 ^ z \<le> 256 ^ length r * 256 ^ z" by (intro mult_left_mono power_mono) simp_all
    also have "\<dots> = 256 ^ 32" using len by (simp add: power_add [symmetric] add.commute)
    also have "(256::nat) ^ 32 \<le> 58 ^ 44" by simp
    also have "(58::nat) ^ 44 = 58 ^ (44 - z) * 58 ^ z" using len by (simp add: power_add [symmetric])
    finally show "(256::nat) ^ length r * 58 ^ z \<le> 58 ^ (44 - z) * 58 ^ z" .
  qed simp
  finally have "length (digs 58 n) \<le> 44 - z" by (intro digs_length_le) simp_all
  then show ?thesis using lo len e by simp
qed

lemma encode_valid: "length raw = 32 \<Longrightarrow> validate_solana_address (base58_encode raw) \<and> pubkey_bytes (base58_encode raw) = Some raw"
  using encode_length [of raw] encode_alphabet [of raw] strip_base58 [OF encode_alphabet, of raw]
  by (simp add: validate_solana_address_def pubkey_bytes_def decode_encode Let_def)

lemma create_off_curve:
  assumes "create_program_address sha seeds program = Inr (Some a)"
  shows "\<exists>input. \<not> is_on_curve (sha input) \<and> a = base58_encode (sha input)"
  using assms by (auto simp: create_program_address_def Let_def split: if_splits sum.splits option.splits)

lemma try_bumps_spec:
  "try_bumps sha seeds program bs = Inr (a, b) \<Longrightarrow>
   \<exists>pre post. bs = pre @ b # post \<and> create_program_address sha (seeds @ [SBytes [of_nat b]]) program = Inr (Some a) \<and>
     (\<forall>b'\<in>set pre. create_program_address sha (seeds @ [SBytes [of_nat b']]) program = Inr None)"
proof (induction bs)
  case (Cons c bs)
  let ?r = "create_program_address sha (seeds @ [SBytes [of_nat c]]) program"
  consider e where "?r = Inl e" | x where "?r = Inr (Some x)" | "?r = Inr None" by (metis option.exhaust sum.exhaust)
  then show ?case
  proof cases
    case 3
    then obtain pre post where "bs = pre @ b # post" "create_program_address sha (seeds @ [SBytes [of_nat b]]) program = Inr (Some a)"
      "\<forall>b'\<in>set pre. create_program_address sha (seeds @ [SBytes [of_nat b']]) program = Inr None" using Cons by auto
    then show ?thesis using 3 by (intro exI [of _ "c # pre"] exI [of _ post]) simp
  qed (use Cons.prems in \<open>auto intro: exI [of _ "[]"]\<close>)
qed simp

lemma derived_off_curve:
  assumes "find_program_address sha seeds program = Inr (a, bump)"
  shows "\<exists>input. \<not> is_on_curve (sha input) \<and> a = base58_encode (sha input)"
  using try_bumps_spec [OF assms [unfolded find_program_address_def]] create_off_curve by blast

lemma match_hints_kind: "match_hints sha address hs = Inr (Some c) \<Longrightarrow> cl_kind c = ''pda''"
  by (induction hs) (auto split: sum.splits sol_error.splits prod.splits if_splits)

lemma derived_kind:
  assumes "\<And>x. length (sha x) = 32" and "find_program_address sha seeds program = Inr (a, bump)"
    and "classify_solana_address sha a hints owner = Inr c"
  shows "cl_kind c \<in> {''pda'', ''pda_unverified'', ''program''}"
proof -
  obtain input where off: "\<not> is_on_curve (sha input)" and a: "a = base58_encode (sha input)" using derived_off_curve [OF assms(2)] by blast
  have v: "validate_solana_address a" "pubkey_bytes a = Some (sha input)" using encode_valid assms(1) by (simp_all add: a)
  show ?thesis
  proof (cases "dict_get known_programs a")
    case (Some name)
    then show ?thesis using assms(3) v by (auto simp: classify_solana_address_def plain_class_def)
  next
    case None
    then consider "match_hints sha a hints = Inr (Some c)" | "classify_off_curve a owner = Inr c"
      using assms(3) v off by (auto simp: classify_solana_address_def split: sum.splits option.splits)
    then show ?thesis
      by cases (auto dest: match_hints_kind simp: classify_off_curve_def plain_class_def split: option.splits)
  qed
qed

lemma classify_any: "classify_solana_address sha address hints owner = Inr c \<Longrightarrow> cl_address c = address"
proof -
  have "match_hints sha address hs = Inr (Some c) \<Longrightarrow> cl_address c = address" for hs
    by (induction hs) (auto split: sum.splits sol_error.splits prod.splits if_splits)
  then show "classify_solana_address sha address hints owner = Inr c \<Longrightarrow> cl_address c = address"
    by (auto simp: classify_solana_address_def classify_on_curve_def classify_off_curve_def plain_class_def
        split: if_splits option.splits sum.splits)
qed

text \<open>
  A program-derived address is never taken for a wallet: whatever hints and owner come with it, an address
  that \<open>find_program_address\<close> derived is a program, a verified or an unverified program-derived address.\<close>

theorem pda_never_wallet:
  assumes "\<And>x. length (sha x) = 32" and "find_program_address sha seeds program = Inr (a, bump)"
    and "classify_solana_address sha a hints owner = Inr c"
  shows "cl_kind c \<in> {''pda'', ''pda_unverified'', ''program''}"
  by (rule derived_kind [OF assms])

text \<open>So the filter keeps no link to such an address.\<close>

theorem derived_links_filtered:
  assumes "\<And>x. length (sha x) = 32" and "find_program_address sha seeds program = Inr (a, bump)"
    and "filter_pda_links sha False ls = Inr ks"
  shows "a \<notin> sl_address ` set ks"
  using assms(3)
proof (induction ls arbitrary: ks)
  case (Cons l ls)
  have kind: "cl_kind c \<in> non_user_kinds" if "classify_solana_address sha a (sl_hints l) (sl_owner l) = Inr c" for c
    using derived_kind [OF assms(1,2) that] by (auto simp: non_user_kinds_def)
  obtain input where off: "\<not> is_on_curve (sha input)" and a: "a = base58_encode (sha input)" using derived_off_curve [OF assms(2)] by blast
  have "a \<noteq> []" using encode_length [OF assms(1), of input] by (auto simp: a)
  then show ?case using Cons kind
    by (cases "filter_pda_links sha False ls") (auto simp: Let_def split: if_splits sum.splits)
qed simp

text \<open>The bump is the greatest that leads off the curve.\<close>

theorem canonical_bump:
  assumes "find_program_address sha seeds program = Inr (a, bump)"
  shows "bump < 256 \<and> create_program_address sha (seeds @ [SBytes [of_nat bump]]) program = Inr (Some a) \<and>
    (\<forall>b. bump < b \<and> b < 256 \<longrightarrow> create_program_address sha (seeds @ [SBytes [of_nat b]]) program = Inr None)"
proof -
  from try_bumps_spec [OF assms [unfolded find_program_address_def]] obtain pre post where
    s: "rev [0..<256] = pre @ bump # post" and c: "create_program_address sha (seeds @ [SBytes [of_nat bump]]) program = Inr (Some a)"
    and p: "\<forall>b'\<in>set pre. create_program_address sha (seeds @ [SBytes [of_nat b']]) program = Inr None" by blast
  have r: "[0..<256] = rev post @ bump # rev pre" using arg_cong [OF s, of rev] by simp
  have srt: "sorted (rev post @ bump # rev pre)" "distinct (rev post @ bump # rev pre)" unfolding r [symmetric] by simp_all
  have m: "b \<in> set (rev post @ bump # rev pre) \<longleftrightarrow> b < 256" for b unfolding r [symmetric] by auto
  have "b \<in> set pre" if "bump < b" "b < 256" for b
    using m [of b] srt(1) that by (auto simp: sorted_append)
  then show ?thesis using c p m [of bump] by auto
qed

text \<open>Every byte 255: no point of the curve, as the coordinate is not below the prime.\<close>

lemma all_ones_off_curve: "\<not> is_on_curve (replicate 32 (- 1))"
proof -
  have "undigs 256 (replicate n 255) = 256 ^ n - 1" for n
    by (induction n) (simp_all add: replicate_append_same [symmetric] algebra_simps del: replicate_append_same)
  then have "int (undigs 256 (replicate 32 255)) = 2 ^ 256 - 1" by simp
  then show ?thesis by (simp add: is_on_curve_def ed25519_p_def unsigned_minus_1_eq_mask mask_eq_exp_minus_1 take_bit_eq_mod)
qed

definition demo_sha :: "bytes \<Rightarrow> bytes" where
  "demo_sha x = replicate 32 (- 1)"

lemma demo_derived:
  "find_program_address demo_sha [SText ''reserve''] (base58_encode (replicate 32 0)) = Inr (base58_encode (replicate 32 (- 1)), 255)"
proof -
  have r: "rev [0..<256] = 255 # rev [0..<(255::nat)]" using upt_Suc_append [of 0 255] by simp
  have "\<not> validate_solana_address ''reserve''"
    by (simp add: validate_solana_address_def strip_def ascii_space_def)
  then have "seeds_input [SText ''reserve'', SBytes [of_nat 255]] = Inr (utf8 ''reserve'' @ [255])"
    by (simp add: seed_bytes_def utf8_def)
  then show ?thesis unfolding find_program_address_def r
    by (simp add: create_program_address_def encode_valid demo_sha_def all_ones_off_curve Let_def)
qed

lemma demo_classified: "\<exists>c. classify_solana_address demo_sha (base58_encode (replicate 32 (- 1))) [] JNull = Inr c"
  using encode_valid [of "replicate 32 (- 1)"]
  by (simp add: classify_solana_address_def all_ones_off_curve classify_off_curve_def program_name_def py_or_def split: option.splits)

theorem pda_never_wallet_witness:
  "\<exists>a bump c. find_program_address demo_sha [SText ''reserve''] (base58_encode (replicate 32 0)) = Inr (a, bump) \<and>
     classify_solana_address demo_sha a [] JNull = Inr c \<and> cl_kind c \<in> {''pda'', ''pda_unverified'', ''program''}"
proof -
  obtain c where c: "classify_solana_address demo_sha (base58_encode (replicate 32 (- 1))) [] JNull = Inr c" using demo_classified by blast
  have "length (demo_sha x) = 32" for x by (simp add: demo_sha_def)
  from pda_never_wallet [OF this demo_derived c] show ?thesis using demo_derived c by blast
qed

theorem canonical_bump_witness:
  "create_program_address demo_sha [SText ''reserve'', SBytes [255]] (base58_encode (replicate 32 0)) =
     Inr (Some (base58_encode (replicate 32 (- 1))))"
  using canonical_bump [OF demo_derived] by simp

theorem derived_links_filtered_witness:
  "base58_encode (replicate 32 (- 1)) \<notin> sl_address ` set ([] :: sol_link list) \<and>
   filter_pda_links demo_sha False [\<lparr>sl_address = base58_encode (replicate 32 (- 1)), sl_hints = [], sl_owner = JNull, sl_kind = None, sl_program = None\<rparr>] = Inr []"
proof -
  obtain c where c: "classify_solana_address demo_sha (base58_encode (replicate 32 (- 1))) [] JNull = Inr c" using demo_classified by blast
  have len: "length (demo_sha x) = 32" for x by (simp add: demo_sha_def)
  have "cl_kind c \<in> non_user_kinds" using derived_kind [OF len demo_derived c] by (auto simp: non_user_kinds_def)
  moreover have "base58_encode (replicate 32 (- 1)) \<noteq> []" using encode_length [of "replicate 32 (- 1)"] by auto
  ultimately have f: "filter_pda_links demo_sha False [\<lparr>sl_address = base58_encode (replicate 32 (- 1)), sl_hints = [], sl_owner = JNull, sl_kind = None, sl_program = None\<rparr>] = Inr []"
    using c by simp
  from derived_links_filtered [OF len demo_derived f] f show ?thesis by simp
qed

text \<open>
  The constant the module documents as the Wormhole program decodes to 31 bytes: it is no public key, and the
  classification calls it invalid.\<close>

definition wormhole_program_id :: string where
  "wormhole_program_id = ''wormDTL6mgvNpWAoVgqKmqDQMUqr94c3gqPqstQQQm''"

lemma wormhole_id_is_no_key: "pubkey_bytes wormhole_program_id = None"
proof -
  have i: "those (map base58_index wormhole_program_id) = Some [54, 46, 49, 44, 12, 26, 19, 5, 44, 39, 53, 21, 47, 29, 9, 46, 28, 39, 48, 18, 44, 48, 12, 23, 20, 27, 48, 49, 8, 3, 35, 2, 39, 48, 22, 48, 50, 51, 23, 23, 23, 44]"
    by (simp add: wormhole_program_id_def base58_index_def base58_alphabet_def upt_rec)
  have v: "undigs 58 [54, 46, 49, 44, 12, 26, 19, 5, 44, 39, 53, 21, 47, 29, 9, 46, 28, 39, 48, 18, 44, 48, 12, 23, 20, 27, 48, 49, 8, 3, 35, 2, 39, 48, 22, 48, 50, 51, 23, 23, 23, 44] = 109494137495273613444462435032411629035651883031955605698182392692926605734" by (simp add: undigs_def)
  have "length (digs 256 109494137495273613444462435032411629035651883031955605698182392692926605734) \<le> 31" by (rule digs_length_le) simp_all
  moreover have "takeWhile (\<lambda>ch. ch = CHR ''1'') wormhole_program_id = []" by (simp add: wormhole_program_id_def)
  ultimately show ?thesis by (simp add: pubkey_bytes_def base58_decode_def i v)
qed

end
