(* ===== verification/WormholeVaa.thy ===== *)
theory WormholeVaa
  imports SolanaAddress
begin

text \<open>
  The Wormhole messages of \<open>detection/cross_chain/solana_resolver.py\<close>: the parser of the transaction data and
  the extraction of a Stellar address from what it returns.
\<close>

record vaa =
  v_version :: nat
  v_guardian_set :: nat
  v_signatures :: nat
  v_timestamp :: nat
  v_nonce :: nat
  v_chain :: nat
  v_emitter :: string
  v_sequence :: nat
  v_consistency :: nat
  v_type :: nat
  v_dest_chain :: nat
  v_dest :: string

definition byte_slice :: "bytes \<Rightarrow> nat \<Rightarrow> nat \<Rightarrow> bytes" where
  "byte_slice data i n = take n (drop i data)"

definition from_big :: "bytes \<Rightarrow> nat" where
  "from_big raw = undigs 256 (map unat raw)"

definition hex_digit :: "nat \<Rightarrow> char" where
  "hex_digit d = ''0123456789abcdef'' ! d"

definition hex_text :: "bytes \<Rightarrow> string" where
  "hex_text raw = concat (map (\<lambda>x. [hex_digit (unat x div 16), hex_digit (unat x mod 16)]) raw)"

text \<open>The errors are \<open>WormholeVAAValidationError\<close>; an \<open>IndexError\<close> is caught and answered \<open>None\<close>.\<close>

datatype vaa_error = Unsupported_Version nat | Vaa_Too_Short | Payload_Too_Short

definition parse_body :: "bytes \<Rightarrow> nat \<Rightarrow> nat \<Rightarrow> nat \<Rightarrow> vaa_error + vaa option" where
  "parse_body data i guardians signatures =
     (if length data < i + 19 then Inl Vaa_Too_Short
      else if length data \<le> i + 50 then Inr None
      else if length data < i + 54 then Inl Payload_Too_Short
      else Inr (Some \<lparr>v_version = 1, v_guardian_set = guardians, v_signatures = signatures,
             v_timestamp = from_big (byte_slice data i 4), v_nonce = from_big (byte_slice data (i + 4) 4),
             v_chain = from_big (byte_slice data (i + 8) 2), v_emitter = hex_text (byte_slice data (i + 10) 32),
             v_sequence = from_big (byte_slice data (i + 42) 8), v_consistency = unat (data ! (i + 50)),
             v_type = unat (data ! (i + 51)), v_dest_chain = from_big (byte_slice data (i + 52) 2),
             v_dest = hex_text (byte_slice data (i + 54) 32)\<rparr>))"

definition parse_wormhole_vaa_payload :: "bytes \<Rightarrow> vaa_error + vaa option" where
  "parse_wormhole_vaa_payload data =
     (if data = [] then Inr None
      else if data ! 0 \<noteq> 1 then Inl (Unsupported_Version (unat (data ! 0)))
      else if length data < 20 then Inr None
      else parse_body data (6 + unat (data ! 5) * 65) (from_big (byte_slice data 1 4)) (unat (data ! 5)))"

text \<open>\<open>bytes.fromhex\<close>: pairs of digits, with ASCII blanks between them.\<close>

definition is_hex :: "char \<Rightarrow> bool" where
  "is_hex ch \<longleftrightarrow> (let n = of_char ch :: nat in 48 \<le> n \<and> n \<le> 57 \<or> 65 \<le> n \<and> n \<le> 70 \<or> 97 \<le> n \<and> n \<le> 102)"

definition hex_blank :: "char \<Rightarrow> bool" where
  "hex_blank ch \<longleftrightarrow> (let n = of_char ch :: nat in n = 32 \<or> 9 \<le> n \<and> n \<le> 13)"

fun fromhex_ok :: "string \<Rightarrow> bool" where
  "fromhex_ok [] \<longleftrightarrow> True"
| "fromhex_ok [x] \<longleftrightarrow> hex_blank x"
| "fromhex_ok (x # y # s) \<longleftrightarrow> (if hex_blank x then fromhex_ok (y # s) else is_hex x \<and> is_hex y \<and> fromhex_ok s)"

definition extract_stellar_address :: "vaa option \<Rightarrow> string option" where
  "extract_stellar_address ov =
     (case ov of
        None \<Rightarrow> None
      | Some v \<Rightarrow>
          let dest = v_dest v in
          if length dest = 56 then if fromhex_ok dest then Some dest else None
          else if take 1 dest = ''G'' \<and> 50 \<le> length dest \<and> length dest \<le> 60 then Some dest
          else None)"

subsection \<open>A message and its reading\<close>

text \<open>The layout the parser documents, written out for given fields.\<close>

definition to_big :: "nat \<Rightarrow> nat \<Rightarrow> bytes" where
  "to_big k n = (let ds = digs 256 n in replicate (k - length ds) 0 @ map word_of_nat ds)"

definition message :: "nat \<Rightarrow> bytes list \<Rightarrow> nat \<Rightarrow> nat \<Rightarrow> nat \<Rightarrow> bytes \<Rightarrow> nat \<Rightarrow> nat \<Rightarrow> nat \<Rightarrow> nat \<Rightarrow> bytes \<Rightarrow> bytes" where
  "message guardians sigs time nonce chain emitter sequence consistency kind dest_chain dest =
     [1] @ to_big 4 guardians @ [of_nat (length sigs)] @ concat sigs @ to_big 4 time @ to_big 4 nonce @ to_big 2 chain @
     emitter @ to_big 8 sequence @ [of_nat consistency] @ [of_nat kind] @ to_big 2 dest_chain @ dest"

lemma to_big_length: "n < 256 ^ k \<Longrightarrow> length (to_big k n) = k"
  using digs_length_le [of 256 n k] by (simp add: to_big_def Let_def)

lemma from_to_big: "n < 256 ^ k \<Longrightarrow> from_big (to_big k n) = n"
proof -
  have "map unat (map (word_of_nat :: nat \<Rightarrow> 8 word) (digs 256 n)) = digs 256 n"
    by (rule bytes_of_nats) (simp add: digs_less)
  then have "from_big (replicate k 0 @ map word_of_nat (digs 256 n)) = n" for k by (simp add: from_big_def)
  then show ?thesis by (simp add: to_big_def Let_def)
qed

lemma slice_at: "D = xs @ ys @ zs \<Longrightarrow> length xs = i \<Longrightarrow> length ys = n \<Longrightarrow> byte_slice D i n = ys"
  by (simp add: byte_slice_def)

lemma nth_at: "D = xs @ y # zs \<Longrightarrow> length xs = i \<Longrightarrow> D ! i = y"
  by (simp add: nth_append)

lemma signatures_length: "\<forall>s\<in>set sigs. length s = 65 \<Longrightarrow> length (concat sigs) = length sigs * 65"
  by (induction sigs) auto

lemma read_message:
  assumes "guardians < 256 ^ 4" and "length sigs < 256" and "\<forall>s\<in>set sigs. length s = 65" and "time < 256 ^ 4"
    and "nonce < 256 ^ 4" and "chain < 256 ^ 2" and "length emitter = 32" and "sequence < 256 ^ 8"
    and "consistency < 256" and "kind < 256" and "dest_chain < 256 ^ 2" and "length dest = 32"
  shows "parse_wormhole_vaa_payload (message guardians sigs time nonce chain emitter sequence consistency kind dest_chain dest) =
    Inr (Some \<lparr>v_version = 1, v_guardian_set = guardians, v_signatures = length sigs, v_timestamp = time, v_nonce = nonce,
      v_chain = chain, v_emitter = hex_text emitter, v_sequence = sequence, v_consistency = consistency, v_type = kind,
      v_dest_chain = dest_chain, v_dest = hex_text dest\<rparr>)"
proof -
  define A where "A = [1] @ to_big 4 guardians @ [of_nat (length sigs)] @ concat sigs"
  define D where "D = message guardians sigs time nonce chain emitter sequence consistency kind dest_chain dest"
  define i where "i = 6 + length sigs * 65"
  note len = to_big_length [OF assms(1)] to_big_length [OF assms(4)] to_big_length [OF assms(5)] to_big_length [OF assms(6)]
    to_big_length [OF assms(8)] to_big_length [OF assms(11)]
  have A: "length A = i" using signatures_length [OF assms(3)] by (simp add: A_def i_def len)
  have D: "D = A @ to_big 4 time @ to_big 4 nonce @ to_big 2 chain @ emitter @ to_big 8 sequence @ [of_nat consistency] @ [of_nat kind] @
      to_big 2 dest_chain @ dest" by (simp add: D_def A_def message_def)
  have lD: "length D = i + 86" by (simp add: D A len assms)
  have byte: "unat (of_nat n :: 8 word) = n" if "n < 256" for n using that by (simp add: unat_of_nat take_bit_eq_mod)
  define R where "R = to_big 4 time @ to_big 4 nonce @ to_big 2 chain @ emitter @ to_big 8 sequence"
  have lR: "length (A @ R) = i + 50" by (simp add: A R_def len assms)
  have head: "D ! 0 = 1" "byte_slice D 1 4 = to_big 4 guardians" "D ! 5 = of_nat (length sigs)"
  proof -
    define T where "T = concat sigs @ drop (length A) D"
    have d: "D = 1 # to_big 4 guardians @ of_nat (length sigs) # T" by (simp add: T_def D A_def)
    show "D ! 0 = 1" by (simp add: d)
    show "byte_slice D 1 4 = to_big 4 guardians" by (rule slice_at [of D "[1]"]) (simp_all add: d len)
    show "D ! 5 = of_nat (length sigs)" by (rule nth_at [of D "1 # to_big 4 guardians"]) (simp_all add: d len)
  qed
  have slices: "byte_slice D i 4 = to_big 4 time" "byte_slice D (i + 4) 4 = to_big 4 nonce" "byte_slice D (i + 8) 2 = to_big 2 chain"
    "byte_slice D (i + 10) 32 = emitter" "byte_slice D (i + 42) 8 = to_big 8 sequence"
  proof -
    show "byte_slice D i 4 = to_big 4 time" by (rule slice_at [of D A]) (simp_all add: D A len)
    show "byte_slice D (i + 4) 4 = to_big 4 nonce" by (rule slice_at [of D "A @ to_big 4 time"]) (simp_all add: D A len)
    show "byte_slice D (i + 8) 2 = to_big 2 chain"
      by (rule slice_at [of D "A @ to_big 4 time @ to_big 4 nonce"]) (simp_all add: D A len)
    show "byte_slice D (i + 10) 32 = emitter"
      by (rule slice_at [of D "A @ to_big 4 time @ to_big 4 nonce @ to_big 2 chain"]) (simp_all add: D A len assms)
    show "byte_slice D (i + 42) 8 = to_big 8 sequence"
      by (rule slice_at [of D "A @ to_big 4 time @ to_big 4 nonce @ to_big 2 chain @ emitter"]) (simp_all add: D A len assms)
  qed
  have tail: "D ! (i + 50) = of_nat consistency" "D ! (i + 51) = of_nat kind" "byte_slice D (i + 52) 2 = to_big 2 dest_chain"
    "byte_slice D (i + 54) 32 = dest"
  proof -
    have d: "D = (A @ R) @ of_nat consistency # of_nat kind # to_big 2 dest_chain @ dest" by (simp add: D R_def)
    show "D ! (i + 50) = of_nat consistency" by (rule nth_at [OF d lR])
    show "D ! (i + 51) = of_nat kind"
      by (rule nth_at [of D "(A @ R) @ [of_nat consistency]"]) (use lR in \<open>simp_all add: d\<close>)
    show "byte_slice D (i + 52) 2 = to_big 2 dest_chain"
      by (rule slice_at [of D "(A @ R) @ [of_nat consistency, of_nat kind]"]) (use lR in \<open>simp_all add: d len\<close>)
    show "byte_slice D (i + 54) 32 = dest"
      by (rule slice_at [of D "(A @ R) @ of_nat consistency # of_nat kind # to_big 2 dest_chain" dest "[]"])
        (use lR in \<open>simp_all add: d len assms\<close>)
  qed
  have b: "parse_body D i guardians (length sigs) = Inr (Some \<lparr>v_version = 1, v_guardian_set = guardians, v_signatures = length sigs,
      v_timestamp = time, v_nonce = nonce, v_chain = chain, v_emitter = hex_text emitter, v_sequence = sequence,
      v_consistency = consistency, v_type = kind, v_dest_chain = dest_chain, v_dest = hex_text dest\<rparr>)"
    unfolding parse_body_def slices tail from_to_big [OF assms(4)] from_to_big [OF assms(5)] from_to_big [OF assms(6)]
      from_to_big [OF assms(8)] from_to_big [OF assms(11)] byte [OF assms(9)] byte [OF assms(10)] using lD by simp
  have "D \<noteq> []" "\<not> length D < 20" using lD by (auto simp: i_def)
  then show ?thesis unfolding D_def [symmetric] parse_wormhole_vaa_payload_def
    using head byte [OF assms(2)] from_to_big [OF assms(1)] b by (simp add: i_def)
qed

text \<open>
  The parser reads what the layout writes: every field of a message of any number of signatures comes back.\<close>

theorem vaa_round_trip:
  assumes "guardians < 256 ^ 4" and "length sigs < 256" and "\<forall>s\<in>set sigs. length s = 65" and "time < 256 ^ 4"
    and "nonce < 256 ^ 4" and "chain < 256 ^ 2" and "length emitter = 32" and "sequence < 256 ^ 8"
    and "consistency < 256" and "kind < 256" and "dest_chain < 256 ^ 2" and "length dest = 32"
  shows "parse_wormhole_vaa_payload (message guardians sigs time nonce chain emitter sequence consistency kind dest_chain dest) =
    Inr (Some \<lparr>v_version = 1, v_guardian_set = guardians, v_signatures = length sigs, v_timestamp = time, v_nonce = nonce,
      v_chain = chain, v_emitter = hex_text emitter, v_sequence = sequence, v_consistency = consistency, v_type = kind,
      v_dest_chain = dest_chain, v_dest = hex_text dest\<rparr>)"
  by (rule read_message [OF assms])

theorem vaa_round_trip_witness:
  "parse_wormhole_vaa_payload (message 3 [replicate 65 7] 1700000000 1 2 (replicate 32 9) 77 15 1 8 (replicate 32 5)) =
    Inr (Some \<lparr>v_version = 1, v_guardian_set = 3, v_signatures = 1, v_timestamp = 1700000000, v_nonce = 1,
      v_chain = 2, v_emitter = hex_text (replicate 32 9), v_sequence = 77, v_consistency = 15, v_type = 1,
      v_dest_chain = 8, v_dest = hex_text (replicate 32 5)\<rparr>)"
  using vaa_round_trip [of 3 "[replicate 65 7]" 1700000000 1 2 "replicate 32 9" 77 15 1 8 "replicate 32 5"] by simp

subsection \<open>No address is ever extracted\<close>

lemma hex_text_length: "length (hex_text raw) = 2 * length raw"
  by (induction raw) (simp_all add: hex_text_def)

lemma hex_digit_not_G: "d < 16 \<Longrightarrow> hex_digit d \<noteq> CHR ''G''"
  by (auto simp: hex_digit_def numeral_nat less_Suc_eq nth_Cons')

lemma hex_text_lead: "hex_text raw \<noteq> [] \<Longrightarrow> hd (hex_text raw) \<noteq> CHR ''G''"
proof (cases raw)
  case (Cons x raw)
  have "unat x < 256" using unsigned_less [of x] by simp
  then have "unat x div 16 < 16" by simp
  then show ?thesis by (simp add: Cons hex_text_def hex_digit_not_G)
qed (simp add: hex_text_def)

text \<open>
  Nothing a complete message carries is ever taken for a Stellar address: the 32 bytes of a destination give 64
  hexadecimal digits, and the extraction wants 56 or a leading \<open>G\<close>.\<close>

theorem complete_message_extracts_nothing:
  assumes "parse_wormhole_vaa_payload data = Inr ov" and "20 \<le> length data" and "length data \<ge> 92 + unat (data ! 5) * 65"
  shows "extract_stellar_address ov = None"
proof (cases ov)
  case (Some v)
  let ?i = "6 + unat (data ! 5) * 65"
  have "v_dest v = hex_text (byte_slice data (?i + 54) 32)"
    using assms(1) Some by (auto simp: parse_wormhole_vaa_payload_def parse_body_def split: if_splits)
  moreover have "length (byte_slice data (?i + 54) 32) = 32" using assms(3) by (simp add: byte_slice_def)
  ultimately have l: "length (v_dest v) = 64" by (simp add: hex_text_length)
  then show ?thesis using Some by (simp add: extract_stellar_address_def Let_def)
qed (simp add: extract_stellar_address_def)

text \<open>A real Stellar address has 56 characters and a \<open>G\<close>: it is read as digits and refused.\<close>

theorem stellar_address_refused:
  assumes "length (v_dest v) = 56" and "take 1 (v_dest v) = ''G''"
  shows "extract_stellar_address (Some v) = None"
proof -
  obtain s where s: "v_dest v = CHR ''G'' # s" using assms(2) by (cases "v_dest v") auto
  then have "\<not> fromhex_ok (v_dest v)" by (cases s) (auto simp: is_hex_def hex_blank_def)
  then show ?thesis using assms(1) by (simp add: extract_stellar_address_def Let_def)
qed

definition demo_vaa :: vaa where
  "demo_vaa = \<lparr>v_version = 1, v_guardian_set = 0, v_signatures = 0, v_timestamp = 0, v_nonce = 0, v_chain = 1, v_emitter = [],
     v_sequence = 0, v_consistency = 0, v_type = 1, v_dest_chain = 21, v_dest = CHR ''G'' # replicate 55 CHR ''A''\<rparr>"

theorem stellar_address_refused_witness: "extract_stellar_address (Some demo_vaa) = None"
  using stellar_address_refused [of demo_vaa] by (simp add: demo_vaa_def)

theorem complete_message_extracts_nothing_witness:
  "extract_stellar_address (Some \<lparr>v_version = 1, v_guardian_set = 3, v_signatures = 0, v_timestamp = 7, v_nonce = 1,
      v_chain = 2, v_emitter = hex_text (replicate 32 9), v_sequence = 77, v_consistency = 15, v_type = 1,
      v_dest_chain = 8, v_dest = hex_text (replicate 32 5)\<rparr>) = None"
proof -
  let ?m = "message 3 [] 7 1 2 (replicate 32 9) 77 15 1 8 (replicate 32 5)"
  have p: "parse_wormhole_vaa_payload ?m = Inr (Some \<lparr>v_version = 1, v_guardian_set = 3, v_signatures = 0, v_timestamp = 7, v_nonce = 1,
      v_chain = 2, v_emitter = hex_text (replicate 32 9), v_sequence = 77, v_consistency = 15, v_type = 1,
      v_dest_chain = 8, v_dest = hex_text (replicate 32 5)\<rparr>)"
    using read_message [of 3 "[]" 7 1 2 "replicate 32 9" 77 15 1 8 "replicate 32 5"] by simp
  show ?thesis by (rule complete_message_extracts_nothing [OF p]) (simp_all add: message_def to_big_length nth_append)
qed

end
