(* ===== verification/IdentityGraph.thy ===== *)
theory IdentityGraph
  imports GraphPartition SolanaAddress RateLimiter
begin

text \<open>
  The identity graph of \<open>detection/cross_chain/identity_graph.py\<close> with the confidences of \<open>confidence.py\<close> and the
  queries of \<open>resolver.py\<close>. The tables are lists of rows; the rounding of floats is a parameter \<open>fl\<close>, of which only
  that it is monotone, idempotent and exact on 0 and 1 is assumed.
\<close>

subsection \<open>Confidences\<close>

definition rounds :: "(rat \<Rightarrow> rat) \<Rightarrow> bool" where
  "rounds fl \<longleftrightarrow> (\<forall>a b. a \<le> b \<longrightarrow> fl a \<le> fl b) \<and> (\<forall>a. fl (fl a) = fl a) \<and> fl 0 = 0 \<and> fl 1 = 1"

record evidence =
  ev_type :: string
  ev_strength :: rat
  ev_metadata :: json

definition evidence_reliability :: "(string, rat) dict" where
  "evidence_reliability =
     [(''bridge'', 1), (''wormhole_bridge'', 1), (''shared_deposit'', 9 / 10), (''amount_fingerprint'', 55 / 100),
      (''behavioral'', 8 / 10), (''timing_correlation'', 7 / 10)]"

definition reliability :: "(rat \<Rightarrow> rat) \<Rightarrow> string \<Rightarrow> rat" where
  "reliability fl t = fl (case dict_get evidence_reliability t of Some r \<Rightarrow> r | None \<Rightarrow> 8 / 10)"

definition probability :: "(rat \<Rightarrow> rat) \<Rightarrow> evidence \<Rightarrow> rat" where
  "probability fl e = fl (min (max (ev_strength e) 0) 1 * reliability fl (ev_type e))"

definition combine_confidence :: "(rat \<Rightarrow> rat) \<Rightarrow> evidence list \<Rightarrow> rat" where
  "combine_confidence fl es = fl (1 - foldl (\<lambda>miss e. fl (miss * fl (1 - probability fl e))) 1 es)"

subsection \<open>The tables\<close>

record node =
  nd_chain :: string
  nd_risk :: rat

record edge_row =
  ce_id :: nat
  ce_source :: string
  ce_target :: string
  ce_type :: string
  ce_confidence :: rat
  ce_metadata :: "json option"

record id_graph =
  ig_nodes :: "(string, node) dict"
  ig_rows :: "edge_row list"

definition normalize_address :: "string \<Rightarrow> string" where
  "normalize_address address =
     (let a = strip address; l = map lower_char a in if take 2 a = ''0x'' \<or> take 2 l = ''0x'' then l else a)"

text \<open>\<open>_is_excluded_solana_address\<close>; the configured default of the flag is resolved by the caller.\<close>

definition is_excluded :: "(bytes \<Rightarrow> bytes) \<Rightarrow> bool \<Rightarrow> string \<Rightarrow> json \<Rightarrow> sol_error + bool" where
  "is_excluded sha include address metadata =
     (if include \<or> take 2 address = ''0x'' \<or> \<not> (32 \<le> length address \<and> length address \<le> 44) then Inr False
      else (case py_get (py_or metadata (JObj [])) ''owner_program_ids'' (JObj []) of
              None \<Rightarrow> Inl Bad_Type
            | Some owners \<Rightarrow>
                (case py_get owners address JNull of
                   None \<Rightarrow> Inl Bad_Type
                 | Some owner \<Rightarrow> map_sum id (\<lambda>c. cl_kind c \<in> non_user_kinds) (classify_solana_address sha address [] owner))))"

definition add_node :: "string \<Rightarrow> string \<Rightarrow> rat \<Rightarrow> id_graph \<Rightarrow> id_graph" where
  "add_node address chain risk g =
     g\<lparr>ig_nodes := dict_set (normalize_address address) \<lparr>nd_chain = map lower_char chain, nd_risk = risk\<rparr> (ig_nodes g)\<rparr>"

definition ensure_node :: "string \<Rightarrow> id_graph \<Rightarrow> id_graph" where
  "ensure_node address g =
     (if dict_get (ig_nodes g) address \<noteq> None then g
      else g\<lparr>ig_nodes := dict_set address
               \<lparr>nd_chain = (if take 2 address = ''0x'' \<and> length address = 42 then ''ethereum''
                            else if 32 \<le> length address \<and> length address \<le> 44 then ''solana'' else ''stellar''),
                nd_risk = 0\<rparr> (ig_nodes g)\<rparr>)"

definition edge_key :: "edge_row \<Rightarrow> string \<times> string \<times> string" where
  "edge_key r = (ce_source r, ce_target r, ce_type r)"

definition upsert_row :: "string \<Rightarrow> string \<Rightarrow> string \<Rightarrow> rat \<Rightarrow> json option \<Rightarrow> edge_row list \<Rightarrow> edge_row list" where
  "upsert_row s t ty conf meta rows =
     (case row_where edge_key (s, t, ty) rows of
        None \<Rightarrow> rows @ [\<lparr>ce_id = Suc (length rows), ce_source = s, ce_target = t, ce_type = ty, ce_confidence = conf, ce_metadata = meta\<rparr>]
      | Some _ \<Rightarrow> update_where edge_key (s, t, ty) (\<lambda>r. r\<lparr>ce_confidence := conf, ce_metadata := meta\<rparr>) rows)"

text \<open>The result tells whether a row was written: a link to a program address is skipped.\<close>

definition graph_add_edge ::
  "(bytes \<Rightarrow> bytes) \<Rightarrow> bool \<Rightarrow> string \<Rightarrow> string \<Rightarrow> string \<Rightarrow> rat \<Rightarrow> json \<Rightarrow> id_graph \<Rightarrow> sol_error + (edge_row option \<times> id_graph)" where
  "graph_add_edge sha include source target ty conf metadata g =
     (let s = normalize_address source; t = normalize_address target in
      case is_excluded sha include s metadata of
        Inl e \<Rightarrow> Inl e
      | Inr True \<Rightarrow> Inr (None, g)
      | Inr False \<Rightarrow>
          (case is_excluded sha include t metadata of
             Inl e \<Rightarrow> Inl e
           | Inr True \<Rightarrow> Inr (None, g)
           | Inr False \<Rightarrow>
               (let g1 = ensure_node t (ensure_node s g);
                    g2 = g1\<lparr>ig_rows := upsert_row s t ty conf (if py_truthy metadata then Some metadata else None) (ig_rows g1)\<rparr>
                in Inr (row_where edge_key (s, t, ty) (ig_rows g2), g2))))"

text \<open>A link of a detector; \<open>lk_extra\<close> are its other keys.\<close>

record link =
  lk_stellar :: string
  lk_linked :: string
  lk_confidence :: "rat option"
  lk_metadata :: "(string, json) dict"
  lk_extra :: "(string, json) dict"

definition link_metadata :: "link \<Rightarrow> (string, json) dict" where
  "link_metadata l = foldl (\<lambda>d (k, v). if dict_get d k = None then dict_set k v d else d) (lk_metadata l) (lk_extra l)"

text \<open>Every link is committed on its own; an error keeps those before it. Skipped links are counted too.\<close>

fun add_links :: "(bytes \<Rightarrow> bytes) \<Rightarrow> bool \<Rightarrow> string \<Rightarrow> link list \<Rightarrow> id_graph \<Rightarrow> (sol_error + nat) \<times> id_graph" where
  "add_links sha include ty [] g = (Inr 0, g)"
| "add_links sha include ty (l # ls) g =
     (case graph_add_edge sha include (lk_stellar l) (lk_linked l) ty (case lk_confidence l of None \<Rightarrow> 1 | Some c \<Rightarrow> c) (jobj (link_metadata l)) g of
        Inl e \<Rightarrow> (Inl e, g)
      | Inr (row, g1) \<Rightarrow> (case add_links sha include ty ls g1 of (n, g2) \<Rightarrow> (map_sum id Suc n, g2)))"

fun json_default :: "string \<Rightarrow> json \<Rightarrow> json \<Rightarrow> json" where
  "json_default k v (JObj kvs) = (if map_of kvs (KStr k) = None then JObj (kvs @ [(KStr k, v)]) else JObj kvs)"
| "json_default k v j = j"

definition row_evidence :: "edge_row \<Rightarrow> evidence" where
  "row_evidence r =
     \<lparr>ev_type = ce_type r, ev_strength = ce_confidence r,
      ev_metadata = json_default ''target_address'' (JStr (ce_target r)) (json_default ''source_address'' (JStr (ce_source r))
        (case ce_metadata r of None \<Rightarrow> JObj [] | Some m \<Rightarrow> m))\<rparr>"

definition edge_evidence :: "id_graph \<Rightarrow> string \<Rightarrow> string \<Rightarrow> evidence list" where
  "edge_evidence g x y =
     (let a = normalize_address x; b = normalize_address y in
      map row_evidence (filter (\<lambda>r. ce_source r = a \<and> ce_target r = b \<or> ce_source r = b \<and> ce_target r = a) (ig_rows g)))"

definition link_confidence :: "(rat \<Rightarrow> rat) \<Rightarrow> id_graph \<Rightarrow> string \<Rightarrow> string \<Rightarrow> rat" where
  "link_confidence fl g x y = combine_confidence fl (edge_evidence g x y)"

subsection \<open>Best-first search\<close>

text \<open>\<open>heapq\<close>: the least of the pairs of negated confidence and address.\<close>

definition heap_le :: "rat \<times> string \<Rightarrow> rat \<times> string \<Rightarrow> bool" where
  "heap_le p q \<longleftrightarrow> fst p < fst q \<or> fst p = fst q \<and> snd p \<le> snd q"

fun heap_least :: "rat \<times> string \<Rightarrow> (rat \<times> string) list \<Rightarrow> rat \<times> string" where
  "heap_least p [] = p"
| "heap_least p (q # qs) = heap_least (if heap_le p q then p else q) qs"

fun relax :: "(rat \<Rightarrow> rat) \<Rightarrow> string list \<Rightarrow> rat \<Rightarrow> (string \<times> rat) list \<Rightarrow> (rat \<times> string) list \<Rightarrow> (string, rat) dict \<Rightarrow>
    (rat \<times> string) list \<times> (string, rat) dict" where
  "relax fl done_set c [] heap best = (heap, best)"
| "relax fl done_set c ((v, w) # ns) heap best =
     (let conf = fl (c * w) in
      if v \<notin> set done_set \<and> (case dict_get best v of None \<Rightarrow> - 1 | Some b \<Rightarrow> b) < conf
      then relax fl done_set c ns (heap @ [(- conf, v)]) (dict_set v conf best)
      else relax fl done_set c ns heap best)"

text \<open>
  The loop, for the weighted links \<open>expand\<close> of a node; \<open>visited\<close> holds the nodes that are done, with their
  confidence. \<open>None\<close> is a loop without end.\<close>

partial_function (option) best_first ::
  "(rat \<Rightarrow> rat) \<Rightarrow> (string \<Rightarrow> (string \<times> rat) list) \<Rightarrow> (rat \<times> string) list \<Rightarrow> (string, rat) dict \<Rightarrow> (string \<times> rat) list \<Rightarrow>
     (string \<times> rat) list option" where
  "best_first fl expand heap best visited =
     (case heap of
        [] \<Rightarrow> Some visited
      | p # ps \<Rightarrow>
          let top = heap_least p ps; rest = remove1 top heap in
          if snd top \<in> fst ` set visited then best_first fl expand rest best visited
          else let visited1 = visited @ [(snd top, - fst top)];
                   relaxed = relax fl (map fst visited1) (- fst top) (expand (snd top)) rest best
               in best_first fl expand (fst relaxed) (snd relaxed) visited1)"

definition search :: "(rat \<Rightarrow> rat) \<Rightarrow> (string \<Rightarrow> (string \<times> rat) list) \<Rightarrow> string \<Rightarrow> (string \<times> rat) list option" where
  "search fl expand start = best_first fl expand [(- 1, start)] [(start, 1)] []"

subsection \<open>Components\<close>

definition neighbour :: "string \<Rightarrow> edge_row \<Rightarrow> string" where
  "neighbour v r = (if ce_source r = v then ce_target r else ce_source r)"

definition evidence_by_neighbour :: "id_graph \<Rightarrow> string \<Rightarrow> (string, evidence list) dict" where
  "evidence_by_neighbour g v =
     foldl (\<lambda>d r. dict_set (neighbour v r) ((case dict_get d (neighbour v r) of None \<Rightarrow> [] | Some es \<Rightarrow> es) @ [row_evidence r]) d)
       [] (filter (\<lambda>r. ce_source r = v \<or> ce_target r = v) (ig_rows g))"

definition clamped :: "rat \<Rightarrow> rat" where
  "clamped c = max 0 (min 1 c)"

definition links_of :: "(rat \<Rightarrow> rat) \<Rightarrow> id_graph \<Rightarrow> rat \<Rightarrow> string \<Rightarrow> (string \<times> rat) list" where
  "links_of fl g min_confidence v =
     (if dict_get (ig_nodes g) v = None then []
      else filter (\<lambda>(w, c). \<not> c < min_confidence)
             (map (\<lambda>(w, es). (w, clamped (combine_confidence fl es))) (evidence_by_neighbour g v)))"

record node_info =
  ni_address :: string
  ni_chain :: string
  ni_risk :: rat
  ni_confidence :: rat

definition node_infos :: "id_graph \<Rightarrow> (string \<times> rat) list \<Rightarrow> node_info list" where
  "node_infos g visited =
     concat (map (\<lambda>(v, c). case dict_get (ig_nodes g) v of
        None \<Rightarrow> []
      | Some n \<Rightarrow> [\<lparr>ni_address = v, ni_chain = nd_chain n, ni_risk = nd_risk n, ni_confidence = c\<rparr>]) visited)"

definition chain_group :: "string \<Rightarrow> string" where
  "chain_group chain =
     (let k = map lower_char chain in
      if k \<in> {''ethereum'', ''eth'', ''evm''} then ''eth'' else if k \<in> {''solana'', ''sol''} then ''sol'' else k)"

definition group_by_chain :: "node_info list \<Rightarrow> string \<Rightarrow> (string, node_info list) dict" where
  "group_by_chain infos exclude =
     foldl (\<lambda>d i. let k = chain_group (ni_chain i) in dict_set k ((case dict_get d k of None \<Rightarrow> [] | Some is \<Rightarrow> is) @ [i]) d)
       [(''eth'', []), (''sol'', []), (''stellar'', [])] (filter (\<lambda>i. ni_address i \<noteq> exclude) infos)"

definition connected_component :: "(rat \<Rightarrow> rat) \<Rightarrow> id_graph \<Rightarrow> string \<Rightarrow> rat \<Rightarrow> (string, node_info list) dict option" where
  "connected_component fl g address min_confidence =
     (let start = normalize_address address in
      if dict_get (ig_nodes g) start = None then Some [(''eth'', []), (''sol'', []), (''stellar'', [])]
      else map_option (\<lambda>visited. group_by_chain (node_infos g visited) start) (search fl (links_of fl g min_confidence) start))"

definition load_edges :: "id_graph \<Rightarrow> (string \<times> string \<times> rat) list" where
  "load_edges g = map (\<lambda>r. (ce_source r, ce_target r, ce_confidence r)) (ig_rows g)"

definition build_resolver :: "gp_env \<Rightarrow> nat \<Rightarrow> string \<Rightarrow> id_graph \<Rightarrow> (resolver \<times> bool) option" where
  "build_resolver env shards strategy g =
     map_option (add_edges env (map (\<lambda>(u, v, c). (u, v)) (load_edges g))) (new_resolver shards strategy)"

subsection \<open>Queries\<close>

definition group_of :: "(string, node_info list) dict \<Rightarrow> string \<Rightarrow> node_info list" where
  "group_of groups k = (case dict_get groups k of None \<Rightarrow> [] | Some is \<Rightarrow> is)"

text \<open>\<open>resolve\<close>, \<open>resolve_risk_scores\<close> and \<open>resolve_weighted_risk_scores\<close> of \<open>resolver.py\<close>.\<close>

definition resolve_addresses :: "(rat \<Rightarrow> rat) \<Rightarrow> id_graph \<Rightarrow> string \<Rightarrow> rat \<Rightarrow> (string list \<times> string list) option" where
  "resolve_addresses fl g address min_confidence =
     map_option (\<lambda>gs. (map ni_address (group_of gs ''eth''), map ni_address (group_of gs ''sol''))) (connected_component fl g address min_confidence)"

definition risk_scores :: "(rat \<Rightarrow> rat) \<Rightarrow> id_graph \<Rightarrow> string \<Rightarrow> rat \<Rightarrow> (string, rat) dict option" where
  "risk_scores fl g address min_confidence =
     map_option (\<lambda>gs. foldl (\<lambda>d i. dict_set (ni_address i) (ni_risk i) d) [] (group_of gs ''eth'' @ group_of gs ''sol''))
       (connected_component fl g address min_confidence)"

definition weighted_risk_scores :: "(rat \<Rightarrow> rat) \<Rightarrow> id_graph \<Rightarrow> string \<Rightarrow> (string, rat) dict option" where
  "weighted_risk_scores fl g address =
     map_option (\<lambda>gs. foldl (\<lambda>d i. dict_set (ni_address i) (fl (ni_risk i * ni_confidence i)) d) [] (group_of gs ''eth'' @ group_of gs ''sol''))
       (connected_component fl g address 0)"

definition link_evidence :: "(rat \<Rightarrow> rat) \<Rightarrow> id_graph \<Rightarrow> string \<Rightarrow> string \<Rightarrow> rat \<times> evidence list" where
  "link_evidence fl g x y = (combine_confidence fl (edge_evidence g x y), edge_evidence g x y)"

text \<open>The batch form.\<close>

definition adjacency :: "id_graph \<Rightarrow> (string, (string \<times> rat) list) dict" where
  "adjacency g =
     (let add = (\<lambda>u p d. dict_set u ((case dict_get d u of None \<Rightarrow> [] | Some ps \<Rightarrow> ps) @ [p]) d)
      in foldl (\<lambda>d (u, v, c). add v (u, clamped c) (add u (v, clamped c) d)) [] (load_edges g))"

definition adjacent :: "(string, (string \<times> rat) list) dict \<Rightarrow> string \<Rightarrow> (string \<times> rat) list" where
  "adjacent adj v = (case dict_get adj v of None \<Rightarrow> [] | Some ps \<Rightarrow> ps)"

definition bulk_scores :: "(rat \<Rightarrow> rat) \<Rightarrow> id_graph \<Rightarrow> string \<Rightarrow> (string \<times> rat) list \<Rightarrow> (string, rat) dict" where
  "bulk_scores fl g start visited =
     concat (map (\<lambda>(v, c). case dict_get (ig_nodes g) v of
        Some n \<Rightarrow> if v \<noteq> start \<and> nd_chain n \<in> {''ethereum'', ''eth'', ''evm'', ''solana'', ''sol''} then [(v, fl (nd_risk n * c))] else []
      | None \<Rightarrow> []) visited)"

fun bulk_each :: "(rat \<Rightarrow> rat) \<Rightarrow> id_graph \<Rightarrow> (string, string) dict \<Rightarrow> (string, (string, rat) dict) dict option" where
  "bulk_each fl g [] = Some []"
| "bulk_each fl g ((orig, start) # ws) =
     (case search fl (adjacent (adjacency g)) start of
        None \<Rightarrow> None
      | Some visited \<Rightarrow>
          let scores = bulk_scores fl g start visited in
          map_option (\<lambda>rest. if scores = [] then rest else (orig, scores) # rest) (bulk_each fl g ws))"

definition weighted_risk_scores_bulk :: "(rat \<Rightarrow> rat) \<Rightarrow> id_graph \<Rightarrow> string list \<Rightarrow> (string, (string, rat) dict) dict option" where
  "weighted_risk_scores_bulk fl g addresses =
     bulk_each fl g (filter (\<lambda>(orig, start). dict_get (ig_nodes g) start \<noteq> None)
       (foldl (\<lambda>d a. dict_set a (normalize_address a) d) [] addresses))"

text \<open>\<open>precision_recall\<close>: pairs are unordered.\<close>

record quality =
  q_tp :: nat
  q_fp :: nat
  q_fn :: nat
  q_precision :: rat
  q_recall :: rat
  q_f1 :: rat

definition pair_sets :: "(string \<times> string) list \<Rightarrow> string set set" where
  "pair_sets ps = set (map (\<lambda>(a, b). {a, b}) ps)"

definition precision_recall :: "(rat \<Rightarrow> rat) \<Rightarrow> (string \<times> string, rat) dict \<Rightarrow> (string \<times> string) list \<Rightarrow> rat \<Rightarrow> quality" where
  "precision_recall fl scored true_pairs threshold =
     (let truth = pair_sets true_pairs;
          predicted = pair_sets (map fst (filter (\<lambda>(p, c). threshold \<le> c) scored));
          tp = card (predicted \<inter> truth); fp = card (predicted - truth); fn = card (truth - predicted);
          p = (if 0 < tp + fp then fl (of_nat tp / of_nat (tp + fp)) else 0);
          r = (if 0 < tp + fn then fl (of_nat tp / of_nat (tp + fn)) else 0)
      in \<lparr>q_tp = tp, q_fp = fp, q_fn = fn, q_precision = p, q_recall = r, q_f1 = (if fl (p + r) \<noteq> 0 then fl (fl (fl (2 * p) * r) / fl (p + r)) else 0)\<rparr>)"

subsection \<open>Correctness of the search\<close>

inductive walk :: "(rat \<Rightarrow> rat) \<Rightarrow> (string \<Rightarrow> (string \<times> rat) list) \<Rightarrow> string \<Rightarrow> string \<Rightarrow> rat \<Rightarrow> bool"
  for fl :: "rat \<Rightarrow> rat" and expand :: "string \<Rightarrow> (string \<times> rat) list" and start :: string where
  walk_start: "walk fl expand start start 1"
| walk_step: "walk fl expand start v c \<Longrightarrow> (w, q) \<in> set (expand v) \<Longrightarrow> walk fl expand start w (fl (c * q))"

definition strongest :: "(rat \<Rightarrow> rat) \<Rightarrow> (string \<Rightarrow> (string \<times> rat) list) \<Rightarrow> string \<Rightarrow> string \<Rightarrow> rat \<Rightarrow> bool" where
  "strongest fl expand start v c \<longleftrightarrow> walk fl expand start v c \<and> (\<forall>c'. walk fl expand start v c' \<longrightarrow> c' \<le> c)"

definition weights_ok :: "(string \<Rightarrow> (string \<times> rat) list) \<Rightarrow> bool" where
  "weights_ok expand \<longleftrightarrow> (\<forall>v w q. (w, q) \<in> set (expand v) \<longrightarrow> 0 \<le> q \<and> q \<le> 1)"

lemma roundsD:
  assumes "rounds fl"
  shows "a \<le> b \<Longrightarrow> fl a \<le> fl b" "fl (fl a) = fl a" "fl 0 = 0" "fl 1 = 1"
  using assms by (simp_all add: rounds_def)

lemma fl_unit: "rounds fl \<Longrightarrow> 0 \<le> a \<Longrightarrow> a \<le> 1 \<Longrightarrow> 0 \<le> fl a \<and> fl a \<le> 1"
  using roundsD(1) [of fl 0 a] roundsD(1) [of fl a 1] roundsD(3,4) [of fl] by simp

lemma walk_unit:
  assumes "rounds fl" and "weights_ok expand"
  shows "walk fl expand start v c \<Longrightarrow> 0 \<le> c \<and> c \<le> 1 \<and> fl c = c"
proof (induction rule: walk.induct)
  case (walk_step v c w q)
  have q: "0 \<le> q" "q \<le> 1" using assms(2) walk_step(2) by (auto simp: weights_ok_def)
  have "0 \<le> c * q" "c * q \<le> 1" using walk_step q by (auto intro: mult_le_one)
  then show ?case using fl_unit [OF assms(1)] roundsD(2) [OF assms(1)] by blast
qed (simp add: roundsD(4) [OF assms(1)])

lemma walk_shrinks:
  assumes "rounds fl" and "weights_ok expand" and "walk fl expand start v c" and "(w, q) \<in> set (expand v)"
  shows "fl (c * q) \<le> c"
proof -
  have c: "0 \<le> c" "fl c = c" using walk_unit [OF assms(1,2,3)] by simp_all
  have "q \<le> 1" using assms(2,4) by (auto simp: weights_ok_def)
  then have "c * q \<le> c" using c(1) by (simp add: mult_left_le)
  then show ?thesis using roundsD(1) [OF assms(1)] c(2) by metis
qed

lemma heap_least_spec: "heap_least p ps \<in> set (p # ps) \<and> (\<forall>q\<in>set (p # ps). heap_le (heap_least p ps) q)"
proof (induction ps arbitrary: p)
  case (Cons q qs)
  have tr: "heap_le a c" if "heap_le a b" "heap_le b c" for a b c using that by (auto simp: heap_le_def)
  have tot: "heap_le a b \<or> heap_le b a" for a b by (auto simp: heap_le_def)
  let ?m = "if heap_le p q then p else q"
  have m: "heap_le ?m p" "heap_le ?m q" using tot [of p q] tot [of p p] tot [of q q] by auto
  from Cons.IH [of ?m] have "heap_least ?m qs \<in> set (?m # qs)" "heap_le (heap_least ?m qs) ?m"
    "\<And>x. x \<in> set qs \<Longrightarrow> heap_le (heap_least ?m qs) x" by auto
  note h = this
  have p: "heap_le (heap_least ?m qs) p" by (rule tr [OF h(2) m(1)])
  have q: "heap_le (heap_least ?m qs) q" by (rule tr [OF h(2) m(2)])
  have i: "heap_least ?m qs \<in> set (p # q # qs)" using h(1) by (auto split: if_splits)
  show ?case unfolding heap_least.simps using i p q h(3) by simp
qed (simp add: heap_le_def)

text \<open>The invariant of the loop.\<close>

definition heap_ok where
  "heap_ok fl expand start heap \<longleftrightarrow> (\<forall>n v. (n, v) \<in> set heap \<longrightarrow> walk fl expand start v (- n))"

definition best_ok :: "(rat \<times> string) list \<Rightarrow> (string, rat) dict \<Rightarrow> string set \<Rightarrow> bool" where
  "best_ok heap best D \<longleftrightarrow> (\<forall>v b. dict_get best v = Some b \<longrightarrow> v \<notin> D \<longrightarrow> (- b, v) \<in> set heap)"

definition seen :: "(string, rat) dict \<Rightarrow> string set \<Rightarrow> string \<Rightarrow> rat \<Rightarrow> bool" where
  "seen best D w c \<longleftrightarrow> w \<in> D \<or> (\<exists>b. dict_get best w = Some b \<and> c \<le> b)"

lemma relax_ok:
  assumes "rounds fl" and "weights_ok expand" and "walk fl expand start u c"
  shows "set ns \<subseteq> set (expand u) \<Longrightarrow> heap_ok fl expand start heap \<Longrightarrow> best_ok heap best (set d) \<Longrightarrow>
    heap_ok fl expand start (fst (relax fl d c ns heap best)) \<and>
    best_ok (fst (relax fl d c ns heap best)) (snd (relax fl d c ns heap best)) (set d) \<and>
    (\<forall>w x. seen best (set d) w x \<longrightarrow> seen (snd (relax fl d c ns heap best)) (set d) w x) \<and>
    (\<forall>w q. (w, q) \<in> set ns \<longrightarrow> seen (snd (relax fl d c ns heap best)) (set d) w (fl (c * q))) \<and>
    snd ` set (fst (relax fl d c ns heap best)) \<subseteq> snd ` set heap \<union> fst ` set ns"
proof (induction ns arbitrary: heap best)
  case (Cons p ns)
  obtain v q where p: "p = (v, q)" by (rule prod.exhaust)
  define conf where "conf = fl (c * q)"
  have vq: "(v, q) \<in> set (expand u)" and ns: "set ns \<subseteq> set (expand u)" using Cons.prems(1) by (simp_all add: p)
  have step: "walk fl expand start v conf" unfolding conf_def by (rule walk_step [OF assms(3) vq])
  have conf0: "0 \<le> conf" using walk_unit [OF assms(1,2) step] by simp
  show ?case
  proof (cases "v \<notin> set d \<and> (case dict_get best v of None \<Rightarrow> - 1 | Some b \<Rightarrow> b) < conf")
    case True
    let ?h = "heap @ [(- conf, v)]" and ?b = "dict_set v conf best"
    have r: "relax fl d c (p # ns) heap best = relax fl d c ns ?h ?b" using True by (simp add: p conf_def Let_def)
    have h: "heap_ok fl expand start ?h" using Cons.prems(2) step by (auto simp: heap_ok_def)
    have b: "best_ok ?h ?b (set d)" using Cons.prems(3) by (auto simp: best_ok_def)
    have mon: "seen ?b (set d) w x" if "seen best (set d) w x" for w x
      using that True by (auto simp: seen_def split: option.splits)
    have "seen ?b (set d) v conf" by (simp add: seen_def)
    with Cons.IH [OF ns h b] mon show ?thesis unfolding r by (auto simp: p conf_def)
  next
    case False
    have r: "relax fl d c (p # ns) heap best = relax fl d c ns heap best" unfolding p relax.simps Let_def conf_def [symmetric] using False by (rule if_not_P)
    have "seen best (set d) v conf" using False conf0 by (auto simp: seen_def split: option.splits)
    with Cons.IH [OF ns Cons.prems(2,3)] show ?thesis unfolding r by (auto simp: p conf_def)
  qed
qed simp

definition search_inv where
  "search_inv fl expand start heap best visited \<longleftrightarrow>
     heap_ok fl expand start heap \<and> best_ok heap best (fst ` set visited) \<and> distinct (map fst visited) \<and>
     (\<forall>v c. (v, c) \<in> set visited \<longrightarrow> strongest fl expand start v c) \<and>
     (\<forall>u c w q. (u, c) \<in> set visited \<longrightarrow> (w, q) \<in> set (expand u) \<longrightarrow> seen best (fst ` set visited) w (fl (c * q))) \<and>
     seen best (fst ` set visited) start 1"

lemma search_invD:
  assumes "search_inv fl expand start heap best visited"
  shows "heap_ok fl expand start heap" "best_ok heap best (fst ` set visited)" "distinct (map fst visited)"
    "(v, c) \<in> set visited \<Longrightarrow> strongest fl expand start v c"
    "(u, c) \<in> set visited \<Longrightarrow> (w, q) \<in> set (expand u) \<Longrightarrow> seen best (fst ` set visited) w (fl (c * q))"
    "seen best (fst ` set visited) start 1"
  using assms by (simp_all add: search_inv_def)

text \<open>Every walk leads to a visited node or is bettered by an entry of the heap.\<close>

lemma walk_covered:
  assumes "rounds fl" and "weights_ok expand" and "search_inv fl expand start heap best visited"
  shows "walk fl expand start v c \<Longrightarrow> v \<in> fst ` set visited \<or> (\<exists>n w. (n, w) \<in> set heap \<and> c \<le> - n)"
proof (induction rule: walk.induct)
  case walk_start
  have bo: "best_ok heap best (fst ` set visited)" by (rule search_invD(2) [OF assms(3)])
  show ?case using search_invD(6) [OF assms(3)] bo unfolding seen_def best_ok_def by fastforce
next
  case (walk_step v c w q)
  have bo: "best_ok heap best (fst ` set visited)" by (rule search_invD(2) [OF assms(3)])
  from walk_step.IH show ?case
  proof
    assume "v \<in> fst ` set visited"
    then obtain cv where cv: "(v, cv) \<in> set visited" by auto
    have le: "c \<le> cv" using search_invD(4) [OF assms(3) cv] walk_step(1) by (simp add: strongest_def)
    have "0 \<le> q" using assms(2) walk_step(2) by (auto simp: weights_ok_def)
    then have fle: "fl (c * q) \<le> fl (cv * q)" using le by (intro roundsD(1) [OF assms(1)] mult_right_mono)
    have "seen best (fst ` set visited) w (fl (cv * q))" by (rule search_invD(5) [OF assms(3) cv walk_step(2)])
    then show ?thesis
    proof (cases "w \<in> fst ` set visited")
      case False
      then obtain b where b: "dict_get best w = Some b" "fl (cv * q) \<le> b"
        using \<open>seen best (fst ` set visited) w (fl (cv * q))\<close> by (auto simp: seen_def)
      have "(- b, w) \<in> set heap" using bo b(1) False by (simp add: best_ok_def)
      then show ?thesis using b(2) fle by (intro disjI2 exI [of _ "- b"] exI [of _ w]) simp
    qed simp
  next
    assume "\<exists>n w. (n, w) \<in> set heap \<and> c \<le> - n"
    then obtain n x where "(n, x) \<in> set heap" "c \<le> - n" by blast
    then show ?thesis using walk_shrinks [OF assms(1,2) walk_step(1,2)] by (intro disjI2 exI [of _ n] exI [of _ x]) simp
  qed
qed

lemma heap_ok_remove: "heap_ok fl expand start heap \<Longrightarrow> heap_ok fl expand start (remove1 x heap)"
  unfolding heap_ok_def using set_remove1_subset [of x heap] by blast

lemma best_ok_remove:
  assumes "best_ok heap best D"
  shows "best_ok (remove1 p heap) best (insert (snd p) D)"
  unfolding best_ok_def
proof (intro allI impI)
  fix v b assume a: "dict_get best v = Some b" "v \<notin> insert (snd p) D"
  have "v \<notin> D" using a(2) by simp
  with assms a(1) have "(- b, v) \<in> set heap" unfolding best_ok_def by blast
  moreover have "(- b, v) \<noteq> p" using a(2) by auto
  ultimately show "(- b, v) \<in> set (remove1 p heap)" by simp
qed

lemma search_step:
  assumes "rounds fl" and "weights_ok expand" and inv: "search_inv fl expand start (p # ps) best visited"
    and tp: "tp = heap_least p ps" and new: "snd tp \<notin> fst ` set visited"
    and v1: "visited1 = visited @ [(snd tp, - fst tp)]"
    and rel: "relaxed = relax fl (map fst visited1) (- fst tp) (expand (snd tp)) (remove1 tp (p # ps)) best"
  shows "search_inv fl expand start (fst relaxed) (snd relaxed) visited1"
    and "snd ` set (fst relaxed) \<subseteq> snd ` set (p # ps) \<union> fst ` set (expand (snd tp))"
proof -
  obtain n u where t: "tp = (n, u)" by (rule prod.exhaust)
  have mem: "(n, u) \<in> set (p # ps)" and least: "\<And>q. q \<in> set (p # ps) \<Longrightarrow> heap_le (n, u) q"
    using heap_least_spec [of p ps] t tp by auto
  have wk: "walk fl expand start u (- n)" using search_invD(1) [OF inv] mem unfolding heap_ok_def by blast
  have strong: "strongest fl expand start u (- n)" unfolding strongest_def
  proof (intro conjI allI impI)
    fix c assume "walk fl expand start u c"
    from walk_covered [OF assms(1,2) inv this] new obtain m w where "(m, w) \<in> set (p # ps)" "c \<le> - m" by (auto simp: t)
    moreover have "n \<le> m" using least [OF \<open>(m, w) \<in> set (p # ps)\<close>] by (auto simp: heap_le_def)
    ultimately show "c \<le> - n" by simp
  qed (rule wk)
  let ?D = "set (map fst visited1)"
  let ?rest = "remove1 tp (p # ps)"
  have D: "fst ` set visited1 = ?D" "?D = insert u (fst ` set visited)" by (auto simp: v1 t)
  have h: "heap_ok fl expand start ?rest" by (rule heap_ok_remove [OF search_invD(1) [OF inv]])
  have b: "best_ok ?rest best ?D" using best_ok_remove [OF search_invD(2) [OF inv], of tp] by (simp only: D(2) t snd_conv)
  from relax_ok [OF assms(1,2) wk subset_refl h b]
  have r: "heap_ok fl expand start (fst relaxed)" "best_ok (fst relaxed) (snd relaxed) ?D"
    "\<And>w x. seen best ?D w x \<Longrightarrow> seen (snd relaxed) ?D w x"
    "\<And>w q. (w, q) \<in> set (expand u) \<Longrightarrow> seen (snd relaxed) ?D w (fl (- n * q))"
    "snd ` set (fst relaxed) \<subseteq> snd ` set ?rest \<union> fst ` set (expand u)"
    unfolding rel t by simp_all
  have wide: "seen best ?D w x" if "seen best (fst ` set visited) w x" for w x using that D(2) by (auto simp: seen_def)
  show "search_inv fl expand start (fst relaxed) (snd relaxed) visited1" unfolding search_inv_def D(1)
  proof (intro conjI allI impI)
    show "distinct (map fst visited1)" using search_invD(3) [OF inv] new by (simp add: v1)
    show "strongest fl expand start v c" if "(v, c) \<in> set visited1" for v c
      using that search_invD(4) [OF inv] strong by (auto simp: v1 t)
    show "seen (snd relaxed) ?D w (fl (c * q))" if e: "(x, c) \<in> set visited1" "(w, q) \<in> set (expand x)" for x c w q
    proof (cases "(x, c) \<in> set visited")
      case True
      show ?thesis by (rule r(3) [OF wide [OF search_invD(5) [OF inv True e(2)]]])
    next
      case False
      then have "x = u" "c = - n" using e(1) by (auto simp: v1 t)
      then show ?thesis using r(4) e(2) by simp
    qed
    show "seen (snd relaxed) ?D start 1" by (rule r(3) [OF wide [OF search_invD(6) [OF inv]]])
  qed (use r(1,2) in simp_all)
  have "snd ` set ?rest \<subseteq> snd ` set (p # ps)" by (intro image_mono set_remove1_subset)
  with r(5) show "snd ` set (fst relaxed) \<subseteq> snd ` set (p # ps) \<union> fst ` set (expand (snd tp))"
    unfolding t snd_conv by blast
qed

lemma best_first_ok:
  assumes "rounds fl" and "weights_ok expand" and "finite U" and closed: "\<And>v. fst ` set (expand v) \<subseteq> U"
  shows "search_inv fl expand start heap best visited \<Longrightarrow> snd ` set heap \<subseteq> U \<Longrightarrow>
    \<exists>res. best_first fl expand heap best visited = Some res \<and> (\<exists>best'. search_inv fl expand start [] best' res)"
proof (induction "(card (U - fst ` set visited), length heap)" arbitrary: heap best visited
    rule: wf_induct_rule [OF wf_lex_prod [OF wf_less_than wf_less_than], case_names less])
  case (less heap visited best)
  show ?case
  proof (cases heap)
    case Nil
    have "best_first fl expand heap best visited = Some visited" unfolding Nil by (subst best_first.simps) simp
    moreover have "search_inv fl expand start [] best visited" using less.prems(1) by (simp only: Nil)
    ultimately show ?thesis by blast
  next
    case (Cons p ps)
    define tp where "tp = heap_least p ps"
    have mem: "tp \<in> set heap" using heap_least_spec [of p ps] by (simp add: tp_def Cons)
    show ?thesis
    proof (cases "snd tp \<in> fst ` set visited")
      case True
      have eq: "best_first fl expand heap best visited = best_first fl expand (remove1 tp heap) best visited"
        using True unfolding Cons tp_def by (subst best_first.simps) (simp add: Let_def)
      have "heap_ok fl expand start (remove1 tp heap)"
        by (rule heap_ok_remove [OF search_invD(1) [OF less.prems(1)]])
      moreover have "best_ok (remove1 tp heap) best (fst ` set visited)"
        using best_ok_remove [OF search_invD(2) [OF less.prems(1)], of tp] unfolding insert_absorb [OF True] .
      ultimately have inv: "search_inv fl expand start (remove1 tp heap) best visited"
        using less.prems(1) unfolding search_inv_def by blast
      have sub: "snd ` set (remove1 tp heap) \<subseteq> U" using less.prems(2) set_remove1_subset [of tp heap] by blast
      have "length (remove1 tp heap) < length heap" using mem length_pos_if_in_set [OF mem] by (simp add: length_remove1)
      then have "((card (U - fst ` set visited), length (remove1 tp heap)), card (U - fst ` set visited), length heap) \<in> less_than <*lex*> less_than"
        by simp
      from less.hyps [OF this inv sub] show ?thesis unfolding eq .
    next
      case False
      define visited1 where "visited1 = visited @ [(snd tp, - fst tp)]"
      define relaxed where "relaxed = relax fl (map fst visited1) (- fst tp) (expand (snd tp)) (remove1 tp heap) best"
      have eq: "best_first fl expand heap best visited = best_first fl expand (fst relaxed) (snd relaxed) visited1"
        using False unfolding relaxed_def visited1_def Cons tp_def by (subst best_first.simps) (simp add: Let_def)
      note step = search_step [OF assms(1,2) less.prems(1) [unfolded Cons] tp_def False visited1_def relaxed_def [unfolded Cons]]
      have sub: "snd ` set (fst relaxed) \<subseteq> U" using step(2) less.prems(2) closed [of "snd tp"] unfolding Cons by blast
      have "snd tp \<in> U" using less.prems(2) mem by auto
      then have "U - fst ` set visited1 \<subset> U - fst ` set visited" using False by (auto simp: visited1_def)
      then have "card (U - fst ` set visited1) < card (U - fst ` set visited)" using assms(3) by (intro psubset_card_mono) simp_all
      then have "((card (U - fst ` set visited1), length (fst relaxed)), card (U - fst ` set visited), length heap) \<in> less_than <*lex*> less_than"
        by simp
      from less.hyps [OF this step(1) sub] show ?thesis unfolding eq .
    qed
  qed
qed

lemma search_ok:
  assumes "rounds fl" and "weights_ok expand" and "finite U" and "\<And>v. fst ` set (expand v) \<subseteq> U"
  shows "\<exists>res. search fl expand start = Some res \<and> distinct (map fst res) \<and> (\<forall>v c. (v, c) \<in> set res \<longleftrightarrow> strongest fl expand start v c) \<and>
    (\<forall>v c. walk fl expand start v c \<longrightarrow> v \<in> fst ` set res)"
proof -
  have "search_inv fl expand start [(- 1, start)] [(start, 1)] []"
    using walk_start [of fl expand start] by (simp add: search_inv_def heap_ok_def best_ok_def seen_def)
  moreover have "snd ` set [(- 1 :: rat, start)] \<subseteq> insert start U" by simp
  moreover have "fst ` set (expand v) \<subseteq> insert start U" for v using assms(4) by blast
  ultimately obtain res best' where r: "search fl expand start = Some res" and inv: "search_inv fl expand start [] best' res"
    using best_first_ok [OF assms(1,2), of "insert start U" start "[(- 1, start)]" "[(start, 1)]" "[]"] assms(3)
    unfolding search_def by (metis finite_insert)
  have "(v, c) \<in> set res" if s: "strongest fl expand start v c" for v c
  proof -
    have w: "walk fl expand start v c" using s by (simp add: strongest_def)
    obtain c' where c': "(v, c') \<in> set res" using walk_covered [OF assms(1,2) inv w] by auto
    have "strongest fl expand start v c'" by (rule search_invD(4) [OF inv c'])
    then have "c' = c" using s by (auto simp: strongest_def intro: antisym)
    then show ?thesis using c' by simp
  qed
  moreover have "v \<in> fst ` set res" if "walk fl expand start v c" for v c
    using walk_covered [OF assms(1,2) inv that] by simp
  ultimately show ?thesis using r search_invD(3) [OF inv] search_invD(4) [OF inv] by blast
qed

subsection \<open>Confidences are probabilities\<close>

lemma probability_unit:
  assumes "rounds fl"
  shows "0 \<le> probability fl e \<and> probability fl e \<le> 1"
proof -
  have "0 \<le> (case dict_get evidence_reliability t of Some r \<Rightarrow> r | None \<Rightarrow> 8 / 10) \<and>
      (case dict_get evidence_reliability t of Some r \<Rightarrow> r | None \<Rightarrow> 8 / 10) \<le> (1 :: rat)" for t
    by (simp add: evidence_reliability_def)
  then have "0 \<le> reliability fl t \<and> reliability fl t \<le> 1" for t unfolding reliability_def by (intro fl_unit [OF assms]) blast+
  moreover have "0 \<le> min (max (ev_strength e) 0) 1 \<and> min (max (ev_strength e) 0) 1 \<le> 1" by simp
  ultimately show ?thesis unfolding probability_def by (intro fl_unit [OF assms] mult_nonneg_nonneg mult_le_one) simp_all
qed

definition missed :: "(rat \<Rightarrow> rat) \<Rightarrow> evidence list \<Rightarrow> rat" where
  "missed fl es = foldl (\<lambda>miss e. fl (miss * fl (1 - probability fl e))) 1 es"

lemma missed_simps: "missed fl [] = 1" "missed fl (es @ [e]) = fl (missed fl es * fl (1 - probability fl e))"
  by (simp_all add: missed_def)

lemma missed_unit:
  assumes "rounds fl"
  shows "0 \<le> missed fl es \<and> missed fl es \<le> 1 \<and> fl (missed fl es) = missed fl es"
proof (induction es rule: rev_induct)
  case Nil
  then show ?case using roundsD(4) [OF assms] by (simp add: missed_simps)
next
  case (snoc e es)
  have q: "0 \<le> fl (1 - probability fl e) \<and> fl (1 - probability fl e) \<le> 1"
    using probability_unit [OF assms, of e] by (intro fl_unit [OF assms]) simp_all
  have "0 \<le> missed fl es * fl (1 - probability fl e)" "missed fl es * fl (1 - probability fl e) \<le> 1"
    using snoc q by (simp_all add: mult_le_one)
  then show ?case unfolding missed_simps using fl_unit [OF assms] roundsD(2) [OF assms] by blast
qed

lemma combine_missed: "combine_confidence fl es = fl (1 - missed fl es)"
  by (simp add: combine_confidence_def missed_def)

lemma combine_unit: "rounds fl \<Longrightarrow> 0 \<le> combine_confidence fl es \<and> combine_confidence fl es \<le> 1"
  unfolding combine_missed using missed_unit [of fl es] by (intro fl_unit) simp_all

text \<open>More evidence never lowers the confidence of a link, whatever the rounding.\<close>

theorem more_evidence_raises:
  assumes "rounds fl"
  shows "combine_confidence fl es \<le> combine_confidence fl (es @ es')"
proof (induction es' rule: rev_induct)
  case (snoc e es')
  let ?m = "missed fl (es @ es')"
  have m: "0 \<le> ?m" "fl ?m = ?m" using missed_unit [OF assms] by simp_all
  have "fl (1 - probability fl e) \<le> 1"
    using probability_unit [OF assms, of e] fl_unit [OF assms, of "1 - probability fl e"] by simp
  then have "?m * fl (1 - probability fl e) \<le> ?m" using m(1) by (simp add: mult_left_le)
  then have "fl (?m * fl (1 - probability fl e)) \<le> fl ?m" by (rule roundsD(1) [OF assms])
  then have "missed fl ((es @ es') @ [e]) \<le> ?m" unfolding missed_simps m(2) .
  then have "combine_confidence fl (es @ es') \<le> combine_confidence fl ((es @ es') @ [e])"
    unfolding combine_missed by (intro roundsD(1) [OF assms]) simp
  then show ?case using snoc by simp
qed simp

lemma rounds_exact: "rounds (\<lambda>x. x)"
  by (simp add: rounds_def)

theorem more_evidence_raises_witness:
  "combine_confidence (\<lambda>x. x) [\<lparr>ev_type = ''bridge'', ev_strength = 1 / 2, ev_metadata = JNull\<rparr>] \<le>
   combine_confidence (\<lambda>x. x) ([\<lparr>ev_type = ''bridge'', ev_strength = 1 / 2, ev_metadata = JNull\<rparr>] @
     [\<lparr>ev_type = ''behavioral'', ev_strength = 1 / 2, ev_metadata = JNull\<rparr>])"
  by (rule more_evidence_raises [OF rounds_exact])

subsection \<open>Links and groups\<close>

lemma group_fold:
  "dict_get (foldl (\<lambda>d r. dict_set (k r) ((case dict_get d (k r) of None \<Rightarrow> [] | Some es \<Rightarrow> es) @ [h r]) d) d0 rs) w =
     (case dict_get d0 w of
        None \<Rightarrow> (if filter (\<lambda>r. k r = w) rs = [] then None else Some (map h (filter (\<lambda>r. k r = w) rs)))
      | Some es \<Rightarrow> Some (es @ map h (filter (\<lambda>r. k r = w) rs)))"
proof (induction rs rule: rev_induct)
  case (snoc r rs)
  then show ?case by (cases "k r = w") (auto split: option.splits)
qed (simp split: option.splits)

lemma group_fold_ok:
  "dict_ok d0 \<Longrightarrow> dict_ok (foldl (\<lambda>d r. dict_set (k r) ((case dict_get d (k r) of None \<Rightarrow> [] | Some es \<Rightarrow> es) @ [h r]) d) d0 rs)"
  by (induction rs rule: rev_induct) simp_all

text \<open>The rows between two nodes, and the confidence of their link.\<close>

definition pair_rows :: "id_graph \<Rightarrow> string \<Rightarrow> string \<Rightarrow> edge_row list" where
  "pair_rows g v w = filter (\<lambda>r. ce_source r = v \<and> ce_target r = w \<or> ce_source r = w \<and> ce_target r = v) (ig_rows g)"

definition pair_confidence :: "(rat \<Rightarrow> rat) \<Rightarrow> id_graph \<Rightarrow> string \<Rightarrow> string \<Rightarrow> rat" where
  "pair_confidence fl g v w = combine_confidence fl (map row_evidence (pair_rows g v w))"

lemma link_confidence_pair: "link_confidence fl g x y = pair_confidence fl g (normalize_address x) (normalize_address y)"
  by (simp add: link_confidence_def pair_confidence_def edge_evidence_def pair_rows_def Let_def)

lemma evidence_get:
  "dict_get (evidence_by_neighbour g v) w = (if pair_rows g v w = [] then None else Some (map row_evidence (pair_rows g v w)))"
proof -
  have f: "filter (\<lambda>r. neighbour v r = w) (filter (\<lambda>r. ce_source r = v \<or> ce_target r = v) (ig_rows g)) = pair_rows g v w"
    unfolding pair_rows_def filter_filter by (rule filter_cong) (auto simp: neighbour_def)
  show ?thesis unfolding evidence_by_neighbour_def group_fold f by simp
qed

lemma evidence_dict: "dict_ok (evidence_by_neighbour g v)"
  unfolding evidence_by_neighbour_def by (rule group_fold_ok) simp

lemma links_of_iff:
  assumes "rounds fl"
  shows "(w, c) \<in> set (links_of fl g m v) \<longleftrightarrow>
    dict_get (ig_nodes g) v \<noteq> None \<and> pair_rows g v w \<noteq> [] \<and> c = pair_confidence fl g v w \<and> m \<le> c"
proof (cases "dict_get (ig_nodes g) v")
  case None
  then show ?thesis by (simp add: links_of_def)
next
  case (Some n)
  have cl: "clamped (combine_confidence fl es) = combine_confidence fl es" for es
    using combine_unit [OF assms, of es] by (simp add: clamped_def)
  have "(w, es) \<in> set (evidence_by_neighbour g v) \<longleftrightarrow> dict_get (evidence_by_neighbour g v) w = Some es" for es
    using evidence_dict by (simp add: dict_ok_def)
  then have "(w, es) \<in> set (evidence_by_neighbour g v) \<longleftrightarrow> pair_rows g v w \<noteq> [] \<and> es = map row_evidence (pair_rows g v w)" for es
    by (auto simp: evidence_get)
  moreover have "(w, c) \<in> set (map (\<lambda>(w, es). (w, combine_confidence fl es)) d) \<longleftrightarrow> (\<exists>es. (w, es) \<in> set d \<and> c = combine_confidence fl es)" for d
    by force
  ultimately show ?thesis by (simp add: links_of_def Some cl pair_confidence_def not_less)
qed

lemma links_weights: "rounds fl \<Longrightarrow> weights_ok (links_of fl g m)"
  unfolding weights_ok_def using combine_unit by (auto simp: links_of_iff pair_confidence_def)

definition endpoints :: "id_graph \<Rightarrow> string set" where
  "endpoints g = ce_source ` set (ig_rows g) \<union> ce_target ` set (ig_rows g)"

lemma pair_rows_endpoints: "pair_rows g v w \<noteq> [] \<Longrightarrow> v \<in> endpoints g \<and> w \<in> endpoints g"
proof -
  assume "pair_rows g v w \<noteq> []"
  then obtain r where "r \<in> set (pair_rows g v w)" by (cases "pair_rows g v w") auto
  then show ?thesis by (force simp: pair_rows_def endpoints_def)
qed

lemma links_search:
  assumes "rounds fl"
  shows "\<exists>res. search fl (links_of fl g m) start = Some res \<and> distinct (map fst res) \<and>
    (\<forall>v c. (v, c) \<in> set res \<longleftrightarrow> strongest fl (links_of fl g m) start v c) \<and>
    (\<forall>v c. walk fl (links_of fl g m) start v c \<longrightarrow> v \<in> fst ` set res)"
proof (rule search_ok [OF assms links_weights [OF assms], of "endpoints g"])
  show "fst ` set (links_of fl g m v) \<subseteq> endpoints g" for v
    using pair_rows_endpoints by (auto simp: links_of_iff [OF assms])
qed (simp add: endpoints_def)

text \<open>A path of trust multiplies the confidences of the links of known nodes, each at least the minimum.\<close>

inductive trust_path :: "(rat \<Rightarrow> rat) \<Rightarrow> id_graph \<Rightarrow> rat \<Rightarrow> string \<Rightarrow> string \<Rightarrow> rat \<Rightarrow> bool"
  for fl :: "rat \<Rightarrow> rat" and g :: id_graph and m :: rat and start :: string where
  trust_start: "trust_path fl g m start start 1"
| trust_link: "trust_path fl g m start v c \<Longrightarrow> dict_get (ig_nodes g) v \<noteq> None \<Longrightarrow> pair_rows g v w \<noteq> [] \<Longrightarrow>
    m \<le> pair_confidence fl g v w \<Longrightarrow> trust_path fl g m start w (fl (c * pair_confidence fl g v w))"

lemma walk_trust:
  assumes "rounds fl"
  shows "walk fl (links_of fl g m) start v c \<longleftrightarrow> trust_path fl g m start v c"
proof
  assume "walk fl (links_of fl g m) start v c"
  then show "trust_path fl g m start v c"
  proof (induction rule: walk.induct)
    case (walk_step v c w q)
    then show ?case using trust_link [of fl g m start v c w] by (simp add: links_of_iff [OF assms])
  qed (rule trust_start)
next
  assume "trust_path fl g m start v c"
  then show "walk fl (links_of fl g m) start v c"
  proof (induction rule: trust_path.induct)
    case (trust_link v c w)
    then show ?case by (intro walk_step) (simp_all add: links_of_iff [OF assms])
  qed (rule walk_start)
qed

lemma group_by_chain_iff:
  "i \<in> set (group_of (group_by_chain infos ex) k) \<longleftrightarrow> i \<in> set infos \<and> ni_address i \<noteq> ex \<and> k = chain_group (ni_chain i)"
proof -
  let ?is = "filter (\<lambda>i. chain_group (ni_chain i) = k) (filter (\<lambda>i. ni_address i \<noteq> ex) infos)"
  have "dict_get (group_by_chain infos ex) k =
      (case dict_get [(''eth'', []), (''sol'', []), (''stellar'', [])] k of
         None \<Rightarrow> if ?is = [] then None else Some ?is
       | Some es \<Rightarrow> Some (es @ ?is))"
    using group_fold [of "\<lambda>i. chain_group (ni_chain i)" "\<lambda>i. i" "[(''eth'', []), (''sol'', []), (''stellar'', [])]"
        "filter (\<lambda>i. ni_address i \<noteq> ex) infos" k]
    unfolding group_by_chain_def Let_def list.map_ident .
  moreover define J where "J = ?is"
  ultimately have "dict_get (group_by_chain infos ex) k =
      (case dict_get [(''eth'', []), (''sol'', []), (''stellar'', [])] k of None \<Rightarrow> if J = [] then None else Some J | Some es \<Rightarrow> Some (es @ J))" by simp
  then have "set (group_of (group_by_chain infos ex) k) = set J" by (simp add: group_of_def)
  then have "set (group_of (group_by_chain infos ex) k) = set ?is" by (simp only: J_def)
  then show ?thesis by auto
qed

lemma node_infos_iff:
  "i \<in> set (node_infos g visited) \<longleftrightarrow>
     (\<exists>n. (ni_address i, ni_confidence i) \<in> set visited \<and> dict_get (ig_nodes g) (ni_address i) = Some n \<and>
        ni_chain i = nd_chain n \<and> ni_risk i = nd_risk n)"
proof
  assume "i \<in> set (node_infos g visited)"
  then obtain v c where vc: "(v, c) \<in> set visited" "i \<in> set (case dict_get (ig_nodes g) v of
        None \<Rightarrow> []
      | Some n \<Rightarrow> [\<lparr>ni_address = v, ni_chain = nd_chain n, ni_risk = nd_risk n, ni_confidence = c\<rparr>])"
    by (auto simp: node_infos_def)
  then show "\<exists>n. (ni_address i, ni_confidence i) \<in> set visited \<and> dict_get (ig_nodes g) (ni_address i) = Some n \<and>
        ni_chain i = nd_chain n \<and> ni_risk i = nd_risk n"
    by (cases "dict_get (ig_nodes g) v") simp_all
next
  assume "\<exists>n. (ni_address i, ni_confidence i) \<in> set visited \<and> dict_get (ig_nodes g) (ni_address i) = Some n \<and>
        ni_chain i = nd_chain n \<and> ni_risk i = nd_risk n"
  then obtain n where n: "(ni_address i, ni_confidence i) \<in> set visited" "dict_get (ig_nodes g) (ni_address i) = Some n"
    "ni_chain i = nd_chain n" "ni_risk i = nd_risk n" by blast
  then have "i = \<lparr>ni_address = ni_address i, ni_chain = nd_chain n, ni_risk = nd_risk n, ni_confidence = ni_confidence i\<rparr>" by simp
  then show "i \<in> set (node_infos g visited)" unfolding node_infos_def using n(1,2) by force
qed

lemma component_found:
  assumes "rounds fl" and "dict_get (ig_nodes g) (normalize_address a) \<noteq> None"
  shows "\<exists>groups. connected_component fl g a m = Some groups \<and>
    (\<forall>i k. i \<in> set (group_of groups k) \<longleftrightarrow>
       ni_address i \<noteq> normalize_address a \<and>
       (\<exists>n. dict_get (ig_nodes g) (ni_address i) = Some n \<and> ni_chain i = nd_chain n \<and> ni_risk i = nd_risk n \<and> k = chain_group (nd_chain n)) \<and>
       trust_path fl g m (normalize_address a) (ni_address i) (ni_confidence i) \<and>
       (\<forall>c. trust_path fl g m (normalize_address a) (ni_address i) c \<longrightarrow> c \<le> ni_confidence i)) \<and>
    (\<forall>v c. trust_path fl g m (normalize_address a) v c \<longrightarrow> v \<noteq> normalize_address a \<longrightarrow> dict_get (ig_nodes g) v \<noteq> None \<longrightarrow>
       (\<exists>k. \<exists>i\<in>set (group_of groups k). ni_address i = v))"
proof -
  let ?start = "normalize_address a"
  from links_search [OF assms(1), of g m ?start] obtain res where
    r: "search fl (links_of fl g m) ?start = Some res" "\<And>v c. (v, c) \<in> set res \<longleftrightarrow> strongest fl (links_of fl g m) ?start v c"
      "\<And>v c. walk fl (links_of fl g m) ?start v c \<Longrightarrow> v \<in> fst ` set res" by blast
  let ?groups = "group_by_chain (node_infos g res) ?start"
  obtain n0 where "dict_get (ig_nodes g) ?start = Some n0" using assms(2) by blast
  then have cc: "connected_component fl g a m = Some ?groups" using r(1) by (simp add: connected_component_def Let_def)
  have mem: "i \<in> set (group_of ?groups k) \<longleftrightarrow>
       ni_address i \<noteq> ?start \<and>
       (\<exists>n. dict_get (ig_nodes g) (ni_address i) = Some n \<and> ni_chain i = nd_chain n \<and> ni_risk i = nd_risk n \<and> k = chain_group (nd_chain n)) \<and>
       trust_path fl g m ?start (ni_address i) (ni_confidence i) \<and>
       (\<forall>c. trust_path fl g m ?start (ni_address i) c \<longrightarrow> c \<le> ni_confidence i)" for i k
    unfolding group_by_chain_iff node_infos_iff r(2) strongest_def walk_trust [OF assms(1)] by auto
  have found: "\<exists>k. \<exists>i\<in>set (group_of ?groups k). ni_address i = v"
    if t: "trust_path fl g m ?start v c" and v: "v \<noteq> ?start" "dict_get (ig_nodes g) v \<noteq> None" for v c
  proof -
    have "v \<in> fst ` set res" using r(3) t walk_trust [OF assms(1)] by blast
    then obtain cv where cv: "(v, cv) \<in> set res" by auto
    obtain n where n: "dict_get (ig_nodes g) v = Some n" using v(2) by blast
    let ?i = "\<lparr>ni_address = v, ni_chain = nd_chain n, ni_risk = nd_risk n, ni_confidence = cv\<rparr>"
    have "?i \<in> set (node_infos g res)" unfolding node_infos_iff using cv n by simp
    then have "?i \<in> set (group_of ?groups (chain_group (nd_chain n)))" unfolding group_by_chain_iff using v(1) by simp
    then show ?thesis by force
  qed
  show ?thesis using cc mem found by blast
qed

text \<open>
  C30. The component search returns, for every other known node it can reach over links of at least the minimal
  confidence, the node with its chain and risk and the confidence of the strongest path to it: no path has a
  greater product. It returns nothing else, whatever the rounding of the products.\<close>

theorem component_strongest:
  assumes "rounds fl" and "dict_get (ig_nodes g) (normalize_address a) \<noteq> None"
  shows "\<exists>groups. connected_component fl g a m = Some groups \<and>
    (\<forall>i k. i \<in> set (group_of groups k) \<longleftrightarrow>
       ni_address i \<noteq> normalize_address a \<and>
       (\<exists>n. dict_get (ig_nodes g) (ni_address i) = Some n \<and> ni_chain i = nd_chain n \<and> ni_risk i = nd_risk n \<and> k = chain_group (nd_chain n)) \<and>
       trust_path fl g m (normalize_address a) (ni_address i) (ni_confidence i) \<and>
       (\<forall>c. trust_path fl g m (normalize_address a) (ni_address i) c \<longrightarrow> c \<le> ni_confidence i)) \<and>
    (\<forall>v c. trust_path fl g m (normalize_address a) v c \<longrightarrow> v \<noteq> normalize_address a \<longrightarrow> dict_get (ig_nodes g) v \<noteq> None \<longrightarrow>
       (\<exists>k. \<exists>i\<in>set (group_of groups k). ni_address i = v))"
  by (rule component_found [OF assms])

subsection \<open>Histories of the graph\<close>

datatype ig_op = Op_Node string string rat | Op_Edge string string string rat json | Op_Links string "link list"

definition ig_step :: "(bytes \<Rightarrow> bytes) \<Rightarrow> bool \<Rightarrow> id_graph \<Rightarrow> ig_op \<Rightarrow> id_graph" where
  "ig_step sha include g op =
     (case op of
        Op_Node a chain risk \<Rightarrow> add_node a chain risk g
      | Op_Edge s t ty conf meta \<Rightarrow> (case graph_add_edge sha include s t ty conf meta g of Inl e \<Rightarrow> g | Inr (row, g1) \<Rightarrow> g1)
      | Op_Links ty ls \<Rightarrow> snd (add_links sha include ty ls g))"

definition ig_empty :: id_graph where
  "ig_empty = \<lparr>ig_nodes = [], ig_rows = []\<rparr>"

definition ig_run :: "(bytes \<Rightarrow> bytes) \<Rightarrow> bool \<Rightarrow> ig_op list \<Rightarrow> id_graph" where
  "ig_run sha include ops = foldl (ig_step sha include) ig_empty ops"

lemma upsert_endpoints:
  "ce_source ` set (upsert_row s t ty conf meta rows) \<union> ce_target ` set (upsert_row s t ty conf meta rows) \<subseteq>
     insert s (insert t (ce_source ` set rows \<union> ce_target ` set rows))"
  by (auto simp: upsert_row_def update_where_def split: option.splits)

lemma ensure_known: "dict_get (ig_nodes (ensure_node a g)) v \<noteq> None \<longleftrightarrow> v = a \<or> dict_get (ig_nodes g) v \<noteq> None"
  "ig_rows (ensure_node a g) = ig_rows g"
  by (auto simp: ensure_node_def)

lemma graph_add_edge_cases:
  assumes "graph_add_edge sha include s t ty conf meta g = Inr (row, g1)"
  shows "g1 = g \<or> (is_excluded sha include (normalize_address s) meta = Inr False \<and> is_excluded sha include (normalize_address t) meta = Inr False \<and>
     endpoints g1 \<subseteq> insert (normalize_address s) (insert (normalize_address t) (endpoints g)) \<and>
     (\<forall>v. dict_get (ig_nodes g1) v \<noteq> None \<longleftrightarrow> v = normalize_address s \<or> v = normalize_address t \<or> dict_get (ig_nodes g) v \<noteq> None))"
proof -
  let ?s = "normalize_address s" and ?t = "normalize_address t"
  let ?g = "ensure_node ?t (ensure_node ?s g)"
  have up: "endpoints (?g\<lparr>ig_rows := upsert_row ?s ?t ty conf x (ig_rows ?g)\<rparr>) \<subseteq> insert ?s (insert ?t (endpoints g))" for x
    using upsert_endpoints [of ?s ?t ty conf x "ig_rows g"] by (simp add: endpoints_def ensure_known)
  have known: "dict_get (ig_nodes (?g\<lparr>ig_rows := x\<rparr>)) v \<noteq> None \<longleftrightarrow> v = ?s \<or> v = ?t \<or> dict_get (ig_nodes g) v \<noteq> None" for x v
  proof -
    have "ig_nodes (?g\<lparr>ig_rows := x\<rparr>) = ig_nodes ?g" by simp
    then show ?thesis unfolding ensure_known(1) by (simp only: ensure_known(1)) blast
  qed
  have "g1 = g \<or> (is_excluded sha include ?s meta = Inr False \<and> is_excluded sha include ?t meta = Inr False \<and>
      (\<exists>x. g1 = ?g\<lparr>ig_rows := upsert_row ?s ?t ty conf x (ig_rows ?g)\<rparr>))"
    using assms unfolding graph_add_edge_def Let_def by (simp split: sum.splits bool.splits) blast
  then show ?thesis using up known by blast
qed

text \<open>A property that every accepted edge and every node keep holds after every history.\<close>

lemma ig_step_keeps:
  assumes node: "\<And>a chain risk g. P g \<Longrightarrow> P (add_node a chain risk g)"
    and edge: "\<And>s t ty conf meta g row g1. P g \<Longrightarrow> graph_add_edge sha include s t ty conf meta g = Inr (row, g1) \<Longrightarrow> P g1"
  shows "P g \<Longrightarrow> P (ig_step sha include g op)"
proof (cases op)
  case (Op_Node a chain risk)
  assume "P g"
  then show ?thesis using node by (simp add: ig_step_def Op_Node)
next
  case (Op_Edge s t ty conf meta)
  assume "P g"
  then show ?thesis using edge by (auto simp: ig_step_def Op_Edge split: sum.splits prod.splits)
next
  case (Op_Links ty ls)
  assume g: "P g"
  have "P (snd (add_links sha include ty ls g))" using g
  proof (induction ls arbitrary: g)
    case (Cons l ls)
    then show ?case using edge by (auto split: sum.splits prod.splits) (metis snd_conv)
  qed simp
  then show ?thesis by (simp add: ig_step_def Op_Links)
qed

lemma ig_run_keeps:
  assumes "\<And>a chain risk g. P g \<Longrightarrow> P (add_node a chain risk g)"
    and "\<And>s t ty conf meta g row g1. P g \<Longrightarrow> graph_add_edge sha include s t ty conf meta g = Inr (row, g1) \<Longrightarrow> P g1"
    and "P ig_empty"
  shows "P (ig_run sha include ops)"
proof -
  have "P g \<Longrightarrow> P (foldl (ig_step sha include) g ops)" for g
  proof (induction ops arbitrary: g)
    case (Cons op ops)
    have "P (ig_step sha include g op)" by (rule ig_step_keeps [OF assms(1,2) Cons.prems])
    from Cons.IH [OF this] show ?case by simp
  qed simp
  then show ?thesis using assms(3) by (simp add: ig_run_def)
qed

lemma endpoints_add_node: "endpoints (add_node a chain risk g) = endpoints g"
  by (simp add: endpoints_def add_node_def)

definition nodes_known :: "id_graph \<Rightarrow> bool" where
  "nodes_known g \<longleftrightarrow> (\<forall>v\<in>endpoints g. dict_get (ig_nodes g) v \<noteq> None)"

lemma run_nodes_known: "nodes_known (ig_run sha include ops)"
proof (rule ig_run_keeps)
  show "nodes_known (add_node a chain risk g)" if "nodes_known g" for a chain risk g
    using that unfolding nodes_known_def endpoints_add_node by (auto simp: add_node_def)
  show "nodes_known g1" if g: "nodes_known g" and e: "graph_add_edge sha include s t ty conf meta g = Inr (row, g1)"
    for s t ty conf meta g row g1
    using graph_add_edge_cases [OF e]
  proof
    assume h: "is_excluded sha include (normalize_address s) meta = Inr False \<and> is_excluded sha include (normalize_address t) meta = Inr False \<and>
      endpoints g1 \<subseteq> insert (normalize_address s) (insert (normalize_address t) (endpoints g)) \<and>
      (\<forall>v. dict_get (ig_nodes g1) v \<noteq> None \<longleftrightarrow> v = normalize_address s \<or> v = normalize_address t \<or> dict_get (ig_nodes g) v \<noteq> None)"
    show ?thesis unfolding nodes_known_def
    proof
      fix v assume "v \<in> endpoints g1"
      then have "v = normalize_address s \<or> v = normalize_address t \<or> v \<in> endpoints g" using h by auto
      moreover have "dict_get (ig_nodes g) v \<noteq> None" if "v \<in> endpoints g" using g that unfolding nodes_known_def by (rule bspec)
      ultimately show "dict_get (ig_nodes g1) v \<noteq> None" using h by metis
    qed
  qed (use g in simp)
qed (simp add: nodes_known_def endpoints_def ig_empty_def)

lemma derived_excluded:
  assumes "\<And>x. length (sha x) = 32" and "find_program_address sha seeds program = Inr (a, bump)"
  shows "is_excluded sha False a meta \<noteq> Inr False"
proof
  assume ex: "is_excluded sha False a meta = Inr False"
  obtain input where a: "a = base58_encode (sha input)" using derived_off_curve [OF assms(2)] by blast
  have len: "32 \<le> length a" "length a \<le> 44" using encode_length [OF assms(1), of input] by (simp_all add: a)
  have "CHR ''0'' \<notin> set base58_alphabet" by (simp add: base58_alphabet_def)
  then have "CHR ''0'' \<notin> set a" using encode_alphabet [of "sha input"] unfolding a by blast
  then have no_hex: "take 2 a \<noteq> ''0x''" by (metis in_set_takeD list.set_intros(1))
  obtain owner where "map_sum id (\<lambda>c. cl_kind c \<in> non_user_kinds) (classify_solana_address sha a [] owner) = Inr False"
    using ex len no_hex by (auto simp: is_excluded_def split: option.splits)
  then obtain c where c: "classify_solana_address sha a [] owner = Inr c" "cl_kind c \<notin> non_user_kinds"
    by (cases "classify_solana_address sha a [] owner") auto
  have "cl_kind c \<in> {''pda'', ''pda_unverified'', ''program''}" by (rule derived_kind [OF assms c(1)])
  then show False using c(2) by (auto simp: non_user_kinds_def)
qed

text \<open>
  C38. No program-derived address enters the identity graph: with the default configuration, after any history of
  nodes, edges and batches of links, no stored edge has as an endpoint an address that
  \<open>find_program_address\<close> derives, for any seeds and program.\<close>

theorem pda_never_linked:
  assumes "\<And>x. length (sha x) = 32" and "find_program_address sha seeds program = Inr (a, bump)"
    and "r \<in> set (ig_rows (ig_run sha False ops))"
  shows "ce_source r \<noteq> a \<and> ce_target r \<noteq> a"
proof -
  have "a \<notin> endpoints (ig_run sha False ops)"
  proof (rule ig_run_keeps)
    show "a \<notin> endpoints g1" if g: "a \<notin> endpoints g" and e: "graph_add_edge sha False s t ty conf meta g = Inr (row, g1)"
      for s t ty conf meta g row g1
      using graph_add_edge_cases [OF e] g derived_excluded [OF assms(1,2), of meta] by auto
  qed (simp_all add: endpoints_add_node, simp add: endpoints_def ig_empty_def)
  then show ?thesis using assms(3) by (auto simp: endpoints_def)
qed

subsection \<open>The partitioned resolver agrees\<close>

lemma linked_lift: "(\<And>u v. (u, v) \<in> E \<Longrightarrow> (u, v) \<in> linked F) \<Longrightarrow> (x, y) \<in> linked E \<Longrightarrow> (x, y) \<in> linked F"
proof -
  assume e: "\<And>u v. (u, v) \<in> E \<Longrightarrow> (u, v) \<in> linked F" and xy: "(x, y) \<in> linked E"
  from xy show "(x, y) \<in> linked F"
  proof (rule linked_induct)
    show "(x, v) \<in> linked F" if "(u, v) \<in> E" "(x, u) \<in> linked F" for u v using linked_trans [OF that(2) e [OF that(1)]] .
    show "(x, u) \<in> linked F" if "(u, v) \<in> E" "(x, v) \<in> linked F" for u v
      using linked_trans [OF that(2) linked_sym [OF e [OF that(1)]]] .
  qed simp
qed

lemma linked_added: "(x, y) \<in> linked (added es) \<longleftrightarrow> (x, y) \<in> linked (set es)"
proof
  assume "(x, y) \<in> linked (added es)"
  then show "(x, y) \<in> linked (set es)"
  proof (rule linked_lift [rotated])
    fix u v assume "(u, v) \<in> added es"
    then obtain a b where ab: "(a, b) \<in> set es" "(u, v) = norm_edge (a, b)" by (auto simp: added_def)
    then consider "u = a" "v = b" | "u = b" "v = a" by (auto simp: norm_edge_def split: if_splits)
    then show "(u, v) \<in> linked (set es)" using linked_edge [OF ab(1)] linked_sym by cases auto
  qed
next
  assume "(x, y) \<in> linked (set es)"
  then show "(x, y) \<in> linked (added es)"
  proof (rule linked_lift [rotated])
    fix u v assume uv: "(u, v) \<in> set es"
    show "(u, v) \<in> linked (added es)"
    proof (cases "u = v")
      case False
      then have n: "norm_edge (u, v) \<in> added es" using uv by (force simp: added_def)
      show ?thesis
      proof (cases "u \<le> v")
        case True
        then show ?thesis using n linked_edge by (simp add: norm_edge_def)
      next
        case False
        then have "(v, u) \<in> linked (added es)" using n linked_edge by (simp add: norm_edge_def)
        then show ?thesis by (rule linked_sym)
      qed
    qed simp
  qed
qed

lemma component_others: "component (added es) v - {v} = {w. w \<noteq> v \<and> (v, w) \<in> linked (set es)}"
proof (cases "v \<in> nodes_of (added es)")
  case True
  then show ?thesis by (auto simp: component_def linked_added)
next
  case False
  have "(v, w) \<in> linked (added es) \<longleftrightarrow> w = v" for w by (rule linked_outside [OF subset_refl False])
  then show ?thesis using False by (auto simp: component_def linked_added)
qed

definition row_edges :: "id_graph \<Rightarrow> edge list" where
  "row_edges g = map (\<lambda>(u, v, c). (u, v)) (load_edges g)"

lemma pair_rows_edge: "pair_rows g v w \<noteq> [] \<longleftrightarrow> (v, w) \<in> set (row_edges g) \<or> (w, v) \<in> set (row_edges g)"
proof -
  have "pair_rows g v w \<noteq> [] \<longleftrightarrow> (\<exists>r\<in>set (ig_rows g). ce_source r = v \<and> ce_target r = w \<or> ce_source r = w \<and> ce_target r = v)"
    by (auto simp: pair_rows_def filter_empty_conv)
  then show ?thesis by (force simp: row_edges_def load_edges_def)
qed

lemma trust_linked:
  assumes "rounds fl" and "nodes_known g" and "dict_get (ig_nodes g) v \<noteq> None"
  shows "(\<exists>c. trust_path fl g 0 v w c) \<longleftrightarrow> (v, w) \<in> linked (set (row_edges g))"
proof
  assume "\<exists>c. trust_path fl g 0 v w c"
  then obtain c where "trust_path fl g 0 v w c" by blast
  then show "(v, w) \<in> linked (set (row_edges g))"
  proof (induction rule: trust_path.induct)
    case (trust_link u c w)
    have "(u, w) \<in> linked (set (row_edges g))"
      using trust_link(3) linked_edge linked_sym unfolding pair_rows_edge by blast
    then show ?case using linked_trans [OF trust_link(5)] by blast
  qed simp
next
  assume "(v, w) \<in> linked (set (row_edges g))"
  then show "\<exists>c. trust_path fl g 0 v w c"
  proof (rule linked_induct)
    have known: "dict_get (ig_nodes g) u \<noteq> None" if "pair_rows g u x \<noteq> []" for u x
      using pair_rows_endpoints [OF that] assms(2) by (simp add: nodes_known_def)
    have step: "\<exists>c. trust_path fl g 0 v x c" if p: "pair_rows g u x \<noteq> []" and c: "\<exists>c. trust_path fl g 0 v u c" for u x
    proof -
      obtain c where "trust_path fl g 0 v u c" using c by blast
      moreover have "0 \<le> pair_confidence fl g u x" using combine_unit [OF assms(1)] by (simp add: pair_confidence_def)
      ultimately show ?thesis using trust_link [of fl g 0 v u c x] known [OF p] p by blast
    qed
    show "\<exists>c. trust_path fl g 0 v x c" if "(u, x) \<in> set (row_edges g)" "\<exists>c. trust_path fl g 0 v u c" for u x
      using step [of u x] that pair_rows_edge [of g u x] by blast
    show "\<exists>c. trust_path fl g 0 v u c" if "(u, x) \<in> set (row_edges g)" "\<exists>c. trust_path fl g 0 v x c" for u x
      using step [of x u] that pair_rows_edge [of g x u] by blast
    show "\<exists>c. trust_path fl g 0 v v c" using trust_start by blast
  qed
qed

text \<open>
  C34. The partitioned resolver built from the tables and the search over them agree: after any history of the graph,
  for any number of shards, strategy and hash, both find the same other addresses for a known node.\<close>

theorem partition_agrees_with_search:
  assumes "rounds fl" and "env_ok env" and "g = ig_run sha include ops" and "dict_get (ig_nodes g) (normalize_address a) \<noteq> None"
    and "build_resolver env shards strategy g = Some (r, ok)" and "strategy \<in> {''anchor'', ''chain_pair'', ''hash''}"
  shows "\<exists>groups ms r1. connected_component fl g a 0 = Some groups \<and>
    component_of env r (normalize_address a) = Some (Inr (ms, r1)) \<and>
    ms - {normalize_address a} = {ni_address i | i k. i \<in> set (group_of groups k)}"
proof -
  let ?v = "normalize_address a"
  have kn: "nodes_known g" unfolding assms(3) by (rule run_nodes_known)
  obtain r0 where r0: "new_resolver shards strategy = Some r0" "add_edges env (row_edges g) r0 = (r, ok)"
    using assms(5) by (auto simp: build_resolver_def row_edges_def)
  from new_resolver_ok [OF r0(1) assms(6)] have gp0: "gp_ok env r0" "all_edges r0 = {}" by simp_all
  from add_edges_ok [OF gp0(1), of "row_edges g"] r0(2) gp0(2) have gp: "gp_ok env r" "all_edges r = added (row_edges g)" by auto
  from component_of_ok [OF assms(2) gp(1), of ?v] obtain r1 where
    c: "component_of env r ?v = Some (Inr (component (added (row_edges g)) ?v, r1))" unfolding gp(2) by blast
  from component_found [OF assms(1,4), of 0] obtain groups where
    cc: "connected_component fl g a 0 = Some groups" and
    mem: "\<And>i k. i \<in> set (group_of groups k) \<Longrightarrow> ni_address i \<noteq> ?v \<and> trust_path fl g 0 ?v (ni_address i) (ni_confidence i)" and
    all: "\<And>v c. trust_path fl g 0 ?v v c \<Longrightarrow> v \<noteq> ?v \<Longrightarrow> dict_get (ig_nodes g) v \<noteq> None \<Longrightarrow> \<exists>k. \<exists>i\<in>set (group_of groups k). ni_address i = v"
    by blast
  have "{ni_address i | i k. i \<in> set (group_of groups k)} = {w. w \<noteq> ?v \<and> (?v, w) \<in> linked (set (row_edges g))}"
  proof (intro equalityI subsetI)
    fix w assume "w \<in> {ni_address i | i k. i \<in> set (group_of groups k)}"
    then obtain i k where i: "i \<in> set (group_of groups k)" "w = ni_address i" by blast
    show "w \<in> {w. w \<noteq> ?v \<and> (?v, w) \<in> linked (set (row_edges g))}"
      using mem [OF i(1)] trust_linked [OF assms(1) kn assms(4), of w] i(2) by auto
  next
    fix w assume "w \<in> {w. w \<noteq> ?v \<and> (?v, w) \<in> linked (set (row_edges g))}"
    then have w: "w \<noteq> ?v" "(?v, w) \<in> linked (set (row_edges g))" by simp_all
    obtain t where t: "trust_path fl g 0 ?v w t" using trust_linked [OF assms(1) kn assms(4), of w] w(2) by blast
    have "dict_get (ig_nodes g) w \<noteq> None"
      using t
    proof (cases rule: trust_path.cases)
      case trust_start
      then show ?thesis using w(1) by simp
    next
      case (trust_link u c)
      then show ?thesis using pair_rows_endpoints kn by (simp add: nodes_known_def)
    qed
    from all [OF t w(1) this] show "w \<in> {ni_address i | i k. i \<in> set (group_of groups k)}" by blast
  qed
  then have "component (added (row_edges g)) ?v - {?v} = {ni_address i | i k. i \<in> set (group_of groups k)}"
    unfolding component_others by (rule sym)
  with cc c show ?thesis by blast
qed

subsection \<open>Witnesses\<close>

definition demo_stellar :: string where
  "demo_stellar = CHR ''G'' # replicate 55 CHR ''A''"

definition demo_ethereum :: string where
  "demo_ethereum = ''0x'' @ replicate 40 CHR ''a''"

definition demo_ops :: "ig_op list" where
  "demo_ops = [Op_Edge demo_stellar demo_ethereum ''behavioral'' 1 JNull, Op_Node demo_ethereum ''ethereum'' 50]"

definition demo_graph :: id_graph where
  "demo_graph = \<lparr>ig_nodes = [(demo_stellar, \<lparr>nd_chain = ''stellar'', nd_risk = 0\<rparr>), (demo_ethereum, \<lparr>nd_chain = ''ethereum'', nd_risk = 50\<rparr>)],
     ig_rows = [\<lparr>ce_id = 1, ce_source = demo_stellar, ce_target = demo_ethereum, ce_type = ''behavioral'', ce_confidence = 1, ce_metadata = None\<rparr>]\<rparr>"

lemma demo_normal: "normalize_address demo_stellar = demo_stellar" "normalize_address demo_ethereum = demo_ethereum"
proof -
  have "dropWhile ascii_space (replicate n ch @ s) = replicate n ch @ s" if "\<not> ascii_space ch" "0 < n" for n ch s
    using that by (cases n) auto
  then have r: "dropWhile ascii_space (replicate 55 CHR ''A'' @ s) = replicate 55 CHR ''A'' @ s"
    "dropWhile ascii_space (replicate 40 CHR ''a'' @ s) = replicate 40 CHR ''a'' @ s" for s by (simp_all add: ascii_space_def)
  have "strip demo_stellar = demo_stellar" using r(1)
    by (simp add: strip_def demo_stellar_def ascii_space_def)
  moreover have "strip demo_ethereum = demo_ethereum" using r(2)
    by (simp add: strip_def demo_ethereum_def ascii_space_def)
  ultimately show "normalize_address demo_stellar = demo_stellar" "normalize_address demo_ethereum = demo_ethereum"
    by (simp_all add: normalize_address_def Let_def demo_stellar_def demo_ethereum_def lower_char_def map_replicate_const numeral_2_eq_2 char_of_def)
qed

lemma demo_lengths: "length demo_stellar = 56" "length demo_ethereum = 42" "take 2 demo_ethereum = ''0x''" "demo_stellar \<noteq> demo_ethereum"
  by (simp_all add: demo_stellar_def demo_ethereum_def)

lemma demo_run: "ig_run sha False demo_ops = demo_graph"
  by (simp add: ig_run_def demo_ops_def ig_step_def graph_add_edge_def add_node_def demo_normal is_excluded_def demo_lengths ensure_node_def
      ig_empty_def upsert_row_def demo_graph_def lower_char_def edge_key_def Let_def demo_lengths(4) [symmetric])

lemma demo_pair: "pair_rows demo_graph v w = (if v = demo_stellar \<and> w = demo_ethereum \<or> v = demo_ethereum \<and> w = demo_stellar then ig_rows demo_graph else [])"
  by (auto simp: pair_rows_def demo_graph_def)

lemma demo_confidence:
  "pair_confidence (\<lambda>x. x) demo_graph demo_stellar demo_ethereum = 4 / 5"
  "pair_confidence (\<lambda>x. x) demo_graph demo_ethereum demo_stellar = 4 / 5"
  by (simp_all add: pair_confidence_def demo_pair)
    (simp_all add: demo_graph_def combine_confidence_def probability_def reliability_def evidence_reliability_def row_evidence_def)

lemma demo_trust:
  "trust_path (\<lambda>x. x) demo_graph 0 demo_stellar v c \<Longrightarrow> c \<le> 1 \<and> (v = demo_ethereum \<longrightarrow> c \<le> 4 / 5)"
proof (induction rule: trust_path.induct)
  case trust_start
  then show ?case using demo_lengths(4) by simp
next
  case (trust_link v c w)
  have "pair_confidence (\<lambda>x. x) demo_graph v w = 4 / 5"
    using trust_link(3) by (auto simp: demo_pair demo_confidence split: if_splits)
  then show ?case using trust_link(5) by (simp only:) simp
qed

theorem component_strongest_witness:
  "\<exists>groups. connected_component (\<lambda>x. x) demo_graph demo_stellar 0 = Some groups \<and>
     \<lparr>ni_address = demo_ethereum, ni_chain = ''ethereum'', ni_risk = 50, ni_confidence = 4 / 5\<rparr> \<in> set (group_of groups ''eth'')"
proof -
  let ?i = "\<lparr>ni_address = demo_ethereum, ni_chain = ''ethereum'', ni_risk = 50, ni_confidence = 4 / 5\<rparr>"
  have k: "dict_get (ig_nodes demo_graph) (normalize_address demo_stellar) \<noteq> None" by (simp add: demo_normal demo_graph_def)
  from component_strongest [OF rounds_exact k, of 0] obtain groups where
    g: "connected_component (\<lambda>x. x) demo_graph demo_stellar 0 = Some groups" and
    all: "\<And>i k. i \<in> set (group_of groups k) \<longleftrightarrow>
       ni_address i \<noteq> normalize_address demo_stellar \<and>
       (\<exists>n. dict_get (ig_nodes demo_graph) (ni_address i) = Some n \<and> ni_chain i = nd_chain n \<and> ni_risk i = nd_risk n \<and> k = chain_group (nd_chain n)) \<and>
       trust_path (\<lambda>x. x) demo_graph 0 (normalize_address demo_stellar) (ni_address i) (ni_confidence i) \<and>
       (\<forall>c. trust_path (\<lambda>x. x) demo_graph 0 (normalize_address demo_stellar) (ni_address i) c \<longrightarrow> c \<le> ni_confidence i)" by blast
  note m = all [of ?i "''eth''"]
  have "trust_path (\<lambda>x. x) demo_graph 0 demo_stellar demo_ethereum (1 * pair_confidence (\<lambda>x. x) demo_graph demo_stellar demo_ethereum)"
    by (rule trust_link [OF trust_start]) (simp_all add: demo_pair demo_confidence, simp_all add: demo_graph_def)
  then have "trust_path (\<lambda>x. x) demo_graph 0 demo_stellar demo_ethereum (4 / 5)" by (simp add: demo_confidence)
  moreover have "chain_group ''ethereum'' = ''eth''" by code_simp
  moreover have "dict_get (ig_nodes demo_graph) demo_ethereum = Some \<lparr>nd_chain = ''ethereum'', nd_risk = 50\<rparr>"
    using demo_lengths(4) by (simp add: demo_graph_def)
  ultimately have "?i \<in> set (group_of groups ''eth'')" unfolding m demo_normal
    using demo_trust demo_lengths(4) by simp
  then show ?thesis using g by blast
qed

theorem pda_never_linked_witness:
  "demo_stellar \<noteq> base58_encode (replicate 32 (- 1)) \<and> demo_ethereum \<noteq> base58_encode (replicate 32 (- 1))"
proof -
  have len: "length (demo_sha x) = 32" for x by (simp add: demo_sha_def)
  let ?r = "\<lparr>ce_id = 1, ce_source = demo_stellar, ce_target = demo_ethereum, ce_type = ''behavioral'', ce_confidence = 1, ce_metadata = None\<rparr>"
  have "?r \<in> set (ig_rows (ig_run demo_sha False demo_ops))" by (simp add: demo_run) (simp add: demo_graph_def)
  from pda_never_linked [OF len demo_derived this] show ?thesis by simp
qed

theorem partition_agrees_with_search_witness:
  "\<exists>r ok groups ms r1. build_resolver demo_env 4 ''hash'' demo_graph = Some (r, ok) \<and>
     connected_component (\<lambda>x. x) demo_graph demo_stellar 0 = Some groups \<and>
     component_of demo_env r demo_stellar = Some (Inr (ms, r1)) \<and>
     ms - {demo_stellar} = {ni_address i | i k. i \<in> set (group_of groups k)}"
proof -
  have e: "env_ok demo_env" by (simp add: env_ok_def demo_env_def)
  have k: "dict_get (ig_nodes demo_graph) (normalize_address demo_stellar) \<noteq> None" by (simp add: demo_normal demo_graph_def)
  obtain r ok where b: "build_resolver demo_env 4 ''hash'' demo_graph = Some (r, ok)"
    by (simp add: build_resolver_def new_resolver_def) (metis prod.exhaust)
  have st: "''hash'' \<in> {''anchor'', ''chain_pair'', ''hash''}" by simp
  from partition_agrees_with_search [OF rounds_exact e demo_run [of demo_sha, symmetric] k b st] obtain groups ms r1 where
    p: "connected_component (\<lambda>x. x) demo_graph demo_stellar 0 = Some groups" "component_of demo_env r demo_stellar = Some (Inr (ms, r1))"
      "ms - {demo_stellar} = {ni_address i | i k. i \<in> set (group_of groups k)}" unfolding demo_normal by (elim exE conjE) rule
  show ?thesis
    by (rule exI [of _ r], rule exI [of _ ok], rule exI [of _ groups], rule exI [of _ ms], rule exI [of _ r1], intro conjI)
      (rule b p)+
qed

subsection \<open>What the batch form computes\<close>

text \<open>
  The batch form multiplies the stored confidences of single rows: it ignores the reliability of the evidence, and
  its scores differ from those of the function it is documented to be the batch form of.\<close>

lemma demo_links:
  "links_of (\<lambda>x. x) demo_graph 0 demo_stellar = [(demo_ethereum, 4 / 5)]"
  "links_of (\<lambda>x. x) demo_graph 0 demo_ethereum = [(demo_stellar, 4 / 5)]"
  using demo_lengths(4) demo_lengths(4) [symmetric]
  by (simp_all add: links_of_def evidence_by_neighbour_def demo_graph_def neighbour_def clamped_def combine_confidence_def
      probability_def reliability_def evidence_reliability_def row_evidence_def)

lemma demo_adjacent:
  "adjacent (adjacency demo_graph) demo_stellar = [(demo_ethereum, 1)]"
  "adjacent (adjacency demo_graph) demo_ethereum = [(demo_stellar, 1)]"
  using demo_lengths(4) demo_lengths(4) [symmetric]
  by (simp_all add: adjacent_def adjacency_def load_edges_def demo_graph_def clamped_def Let_def)

lemma demo_search:
  assumes "expand demo_stellar = [(demo_ethereum, c)]" and "expand demo_ethereum = [(demo_stellar, c)]" and "0 \<le> c"
  shows "search (\<lambda>x. x) expand demo_stellar = Some [(demo_stellar, 1), (demo_ethereum, c)]"
proof -
  have c: "- 1 < c" using assms(3) by simp
  have "best_first (\<lambda>x. x) expand [] [(demo_stellar, 1), (demo_ethereum, c)] [(demo_stellar, 1), (demo_ethereum, c)] =
      Some [(demo_stellar, 1), (demo_ethereum, c)]" by (subst best_first.simps) simp
  then have "best_first (\<lambda>x. x) expand [(- c, demo_ethereum)] [(demo_stellar, 1), (demo_ethereum, c)] [(demo_stellar, 1)] =
      Some [(demo_stellar, 1), (demo_ethereum, c)]"
    using assms demo_lengths(4) [symmetric] by (subst best_first.simps) (simp add: Let_def)
  then show ?thesis unfolding search_def
    using assms c demo_lengths(4) demo_lengths(4) [symmetric] by (subst best_first.simps) (simp add: Let_def)
qed

lemma bulk_ignores_reliability:
  "weighted_risk_scores (\<lambda>x. x) demo_graph demo_stellar = Some [(demo_ethereum, 40)]"
  "weighted_risk_scores_bulk (\<lambda>x. x) demo_graph [demo_stellar] = Some [(demo_stellar, [(demo_ethereum, 50)])]"
proof -
  have n: "dict_get (ig_nodes demo_graph) demo_stellar = Some \<lparr>nd_chain = ''stellar'', nd_risk = 0\<rparr>"
    "dict_get (ig_nodes demo_graph) demo_ethereum = Some \<lparr>nd_chain = ''ethereum'', nd_risk = 50\<rparr>"
    using demo_lengths(4) by (simp_all add: demo_graph_def)
  have e: "chain_group ''ethereum'' = ''eth''" by code_simp
  have s: "search (\<lambda>x. x) (links_of (\<lambda>x. x) demo_graph 0) demo_stellar = Some [(demo_stellar, 1), (demo_ethereum, 4 / 5)]"
    "search (\<lambda>x. x) (adjacent (adjacency demo_graph)) demo_stellar = Some [(demo_stellar, 1), (demo_ethereum, 1)]"
    by (rule demo_search; simp add: demo_links demo_adjacent)+
  have g: "group_by_chain (node_infos demo_graph [(demo_stellar, 1), (demo_ethereum, 4 / 5)]) demo_stellar =
      [(''eth'', [\<lparr>ni_address = demo_ethereum, ni_chain = ''ethereum'', ni_risk = 50, ni_confidence = 4 / 5\<rparr>]), (''sol'', []), (''stellar'', [])]"
    using demo_lengths(4) [symmetric] by (simp add: node_infos_def n group_by_chain_def e Let_def)
  show "weighted_risk_scores (\<lambda>x. x) demo_graph demo_stellar = Some [(demo_ethereum, 40)]"
    by (simp add: weighted_risk_scores_def connected_component_def demo_normal n s g group_of_def)
  show "weighted_risk_scores_bulk (\<lambda>x. x) demo_graph [demo_stellar] = Some [(demo_stellar, [(demo_ethereum, 50)])]"
    using demo_lengths(4) [symmetric] by (simp add: weighted_risk_scores_bulk_def demo_normal n s bulk_scores_def Let_def)
qed

lemma normalize_base58: "set s \<subseteq> set base58_alphabet \<Longrightarrow> normalize_address s = s"
proof -
  assume s: "set s \<subseteq> set base58_alphabet"
  have low: "lower_char ch \<noteq> CHR ''0''" if "ch \<in> set base58_alphabet" for ch
  proof
    assume z: "lower_char ch = CHR ''0''"
    have "ch \<noteq> CHR ''0''" using that by (auto simp: base58_alphabet_def)
    then have up: "65 \<le> (of_char ch :: nat)" "of_char ch \<le> (90 :: nat)" and "lower_char ch = char_of (of_char ch + (32 :: nat))"
      using z by (auto simp: lower_char_def split: if_splits)
    then have "(of_char (CHR ''0'') :: nat) = of_char ch + 32" using z by (simp add: take_bit_eq_mod)
    then show False using up by simp
  qed
  have "take 2 t \<noteq> ''0x''" if "CHR ''0'' \<notin> set t" for t :: string using that by (metis in_set_takeD list.set_intros(1))
  moreover have "CHR ''0'' \<notin> set s" using s by (auto simp: base58_alphabet_def)
  moreover have "CHR ''0'' \<notin> set (map lower_char s)" using s low by force
  ultimately show ?thesis by (simp add: normalize_address_def Let_def strip_base58 [OF s])
qed

text \<open>A link to a program address is skipped and counted as stored.\<close>

theorem add_links_overcounts:
  assumes "\<And>x. length (sha x) = 32" and "find_program_address sha seeds program = Inr (a, bump)"
  shows "add_links sha False ty [\<lparr>lk_stellar = a, lk_linked = b, lk_confidence = None, lk_metadata = [], lk_extra = []\<rparr>] g = (Inr 1, g)"
proof -
  obtain input where a: "a = base58_encode (sha input)" and off: "\<not> is_on_curve (sha input)" using derived_off_curve [OF assms(2)] by blast
  have n: "normalize_address a = a" unfolding a by (rule normalize_base58 [OF encode_alphabet])
  have len: "32 \<le> length a" "length a \<le> 44" using encode_length [OF assms(1), of input] by (simp_all add: a)
  have "classify_solana_address sha a [] JNull \<noteq> Inl e" for e
    using encode_valid [OF assms(1), of input] off unfolding a
    by (auto simp: classify_solana_address_def classify_off_curve_def program_name_def py_or_def split: option.splits)
  then obtain c where c: "classify_solana_address sha a [] JNull = Inr c" by (cases "classify_solana_address sha a [] JNull") auto
  have "cl_kind c \<in> non_user_kinds" using derived_kind [OF assms c] by (auto simp: non_user_kinds_def)
  then have "is_excluded sha False a (JObj []) \<noteq> Inr False" "is_excluded sha False a (JObj []) \<noteq> Inl e" for e
    using derived_excluded [OF assms] c by (auto simp: is_excluded_def py_or_def)
  then have x: "is_excluded sha False a (JObj []) = Inr True" by (cases "is_excluded sha False a (JObj [])") auto
  have j: "jobj (link_metadata \<lparr>lk_stellar = a, lk_linked = b, lk_confidence = None, lk_metadata = [], lk_extra = []\<rparr>) = JObj []"
    by (simp add: jobj_def keyed_def link_metadata_def)
  show ?thesis by (simp add: graph_add_edge_def n x j Let_def)
qed

theorem add_links_overcounts_witness:
  "add_links demo_sha False ''bridge''
     [\<lparr>lk_stellar = base58_encode (replicate 32 (- 1)), lk_linked = [], lk_confidence = None, lk_metadata = [], lk_extra = []\<rparr>] ig_empty = (Inr 1, ig_empty)"
  by (rule add_links_overcounts [OF _ demo_derived]) (simp add: demo_sha_def)

end
