(* ===== verification/Spec2Isabelle.thy ===== *)
theory Spec2Isabelle
  imports Base ExactlyOnce SqlDedup RedisDedup TradeDedup Checkpoints Recovery AlertDispatch
    AlertGrouping CircuitBreaker ArtifactRegistry RollbackTrigger CacheInvalidation JobLedger
    Watermarks CursorStore PubSub MerkleChain Json AuditTrail Floats RateLimiter WsAuth WsAbuse WsServer
    FeatureBuffer Glob AlertRouter Escalation ListOverride Workflows UnitCheckpoint Retry Watchdog
    Incidents SecureAggregation AnnotationQueue JsonCodec ArtifactTrust ModelGovernance
    ReorgBuffer PyJson SorobanListener PyDecimal DecimalGuards DecimalAgg Currency UnionFind GraphPartition
    SolanaAddress WormholeVaa IdentityGraph
begin

text \<open>
  A verification development for Ledgerlens-data, the Python data plane of a wash-trading detector
  for the Stellar ledger: trades are ingested from Horizon and Kafka, deduplicated, scored by a
  staged pipeline and turned into alerts.

  \<^bold>\<open>What is modelled.\<close> The parts of the program whose correctness is a matter of state and order:
  what is processed once, what survives a crash, what is sent, what is active.

  \<^item> \<open>Base\<close>: dictionaries with insertion order, SQL tables, separated keys, decimal numerals, and
    the locales \<open>preserved\<close>, \<open>preserved_when\<close> and \<open>preserved_rel\<close> for invariants of histories.
  \<^item> \<open>ExactlyOnce\<close> (\<open>pipeline/exactly_once.py\<close>): dedup keys, states, decisions and errors; the
    backend protocol as a record of operations; the store that delegates to a backend; the locale
    \<open>exactly_once\<close> of what a backend promises.
  \<^item> \<open>SqlDedup\<close>: \<open>SqlExactlyOnceBackend\<close>. Each method on the table of rows, the retry loop of
    transient faults, and \<open>check_and_stage\<close> as its sequence of transactions, for the race of any
    number of callers.
  \<^item> \<open>RedisDedup\<close>: \<open>RedisExactlyOnceBackend\<close>. The Redis client is a record of operations with
    named laws (\<open>redis_laws\<close>), which a table with expiry times satisfies; \<open>check_and_stage\<close> is also
    given as its two commands, for the race of any number of callers while time passes.
  \<^item> \<open>TradeDedup\<close> (\<open>ingestion/trade_deduplicator.py\<close>): the cache of seen trades over the store, the
    canonical key of a trade record, and the cross-source window.
  \<^item> \<open>Checkpoints\<close> (\<open>pipeline/idempotency.py\<close>): the checkpoint table, the context manager around a
    stage as its \<open>__enter__\<close> and \<open>__exit__\<close>, and the idempotent write of risk scores.
  \<^item> \<open>Recovery\<close> (\<open>pipeline/recovery.py\<close>): stage tracking, consistency checks of a recovered run, the
    manager that blocks a run that failed them, in any history of checks, approvals and restarts,
    and the rollback of partial writes.
  \<^item> \<open>AlertDispatch\<close> (\<open>streaming/alert_ledger.py\<close>, \<open>streaming/alert_dispatcher.py\<close>): the write-ahead
    ledger of alert deliveries over \<open>SqlDedup\<close>, the three sinks, and the reconciliation at startup.
  \<^item> \<open>AlertGrouping\<close> (\<open>alerts/deduplicator.py\<close>): merging alerts of one wallet and pair, with the
    partition of the stream as its specification.
  \<^item> \<open>CircuitBreaker\<close> (\<open>utils/circuit_breaker.py\<close>): admission, success and failure as steps.
  \<^item> \<open>ArtifactRegistry\<close> (\<open>detection/artifact_lifecycle.py\<close>) and \<open>RollbackTrigger\<close>
    (\<open>detection/rollback_trigger.py\<close>): the lifecycle of model artifacts with its manifest on disk,
    and the monitor that rolls a regressed model back.
  \<^item> \<open>CacheInvalidation\<close> (\<open>detection/cache_invalidation.py\<close>): the dependency graph, its worklist
    closure and the registry of caches.
  \<^item> \<open>JobLedger\<close> (\<open>utils/idempotency.py\<close>): the job ledger, \<open>run\<close> whole and as the interleaved
    statements of concurrent callers.
  \<^item> \<open>Watermarks\<close> (\<open>ingestion/watermark_tracker.py\<close>), \<open>CursorStore\<close> (\<open>streaming/cursor_store.py\<close>):
    positions kept in memory and on disk, crashes and restarts; the cursor stores implement one
    locale and the manager is verified against it.
  \<^item> \<open>PubSub\<close> (\<open>streaming/pubsub_router.py\<close>): subscriptions, routing, delivery and dead letters.
  \<^item> \<open>Json\<close>: JSON values with text and integer keys and their canonical form. \<open>AuditTrail\<close>
    (\<open>audit_trail.py\<close> and the signed log of \<open>detection/audit_trail.py\<close>): the hash-chained trail of
    administrative actions and the log of signed reports. \<open>MerkleChain\<close> (the rest of
    \<open>detection/audit_trail.py\<close>): the Merkle commitment with its table and restarts.
  \<^item> \<open>Floats\<close>: Python floats as rationals with the two infinities and NaN. \<open>RateLimiter\<close>
    (\<open>ingestion/rate_limiter.py\<close>): the adaptive limiter of HTTP sources and the shared token bucket
    as interleaved Redis transactions.
  \<^item> \<open>WsAuth\<close> (\<open>streaming/ws_auth.py\<close>), \<open>WsAbuse\<close> (\<open>streaming/ws_abuse_detector.py\<close>) and
    \<open>WsServer\<close> (\<open>streaming/ws_server.py\<close>): tokens and their channels, the reputation of clients,
    and the server over both and the router of \<open>PubSub\<close>.
  \<^item> \<open>FeatureBuffer\<close> (\<open>streaming/feature_buffer.py\<close>): the bounded buffer of trades per wallet.
  \<^item> \<open>Glob\<close> (the shell patterns of Python's \<open>fnmatch\<close>) and \<open>AlertRouter\<close> (\<open>alerts/router.py\<close>):
    loading, routing and explaining rules, on the configuration the repository ships.
    \<open>Escalation\<close> (\<open>alerts/consensus_escalator.py\<close>): agreement of detectors over a Redis hash.
  \<^item> \<open>ListOverride\<close> (\<open>detection/list_override.py\<close>, \<open>production_write_guard.py\<close>): allow and deny
    lists over the trail of \<open>AuditTrail\<close>.
  \<^item> \<open>Workflows\<close> (\<open>utils/checkpointing.py\<close>) and \<open>UnitCheckpoint\<close> (\<open>utils/checkpoint.py\<close>): resumable
    workflows and batches of units, with crashes at any point. \<open>Retry\<close>
    (\<open>ingestion/retry_backoff.py\<close>, \<open>utils/retry.py\<close>): the retry loops and their breaker.
  \<^item> \<open>Watchdog\<close> (\<open>monitoring/emergency_watchdog.py\<close>, \<open>integrations/pause_monitor.py\<close>) and
    \<open>Incidents\<close> (\<open>monitoring/incident_responder.py\<close> with the shipped playbook).
  \<^item> \<open>SecureAggregation\<close> (\<open>detection/federated/secure_aggregation.py\<close>): the robust aggregation
    rules over float vectors, with NumPy's rounding as a bound in its laws, and the sharing of the key. \<open>AnnotationQueue\<close>
    (\<open>detection/active_learning/annotation_queue.py\<close>): the queue of wallets to label, agreement and
    the stopping rule.
  \<^item> \<open>JsonCodec\<close> (a text form of JSON values, so that the witnesses can run), \<open>ArtifactTrust\<close>
    (\<open>detection/persistence.py\<close>): signatures, the transparency log and the verifiers.
    \<open>ModelGovernance\<close> (\<open>detection/model_governance.py\<close>): promotion, rollback and quarantine over the
    registry of \<open>ArtifactRegistry\<close>, with the production directory and the audit log.
  \<^item> \<open>PyJson\<close> (Python's operations on JSON values of unknown type), \<open>ReorgBuffer\<close> and
    \<open>SorobanListener\<close> (\<open>integrations/soroban_event_listener.py\<close>): the confirmation buffer, the score
    oracle's poller with its store, and the governance listener.
  \<^item> \<open>PyDecimal\<close> (Python's \<open>decimal\<close>: contexts, rounding, the operations and their errors),
    \<open>DecimalGuards\<close> (\<open>utils/decimal_guards.py\<close>): validated amounts and stroops; \<open>DecimalAgg\<close>
    (\<open>utils/decimal_agg.py\<close>): the aggregations of reports; \<open>Currency\<close>
    (\<open>utils/currency_normalization.py\<close>): conversion between assets over the locale \<open>rate_provider\<close>,
    which the mock provider and the caching wrapper implement.
  \<^item> \<open>UnionFind\<close>, \<open>GraphPartition\<close> (\<open>detection/cross_chain/graph_partition.py\<close>): union-find with
    path halving, and the sharded identity resolution with its bookkeeping, whose specification is
    the connected component in the graph of the edges.
  \<^item> \<open>SolanaAddress\<close>, \<open>WormholeVaa\<close> (\<open>detection/cross_chain/solana_resolver.py\<close>): base58, points of
    the Ed25519 curve, program-derived addresses and their classification; Wormhole messages.
  \<^item> \<open>IdentityGraph\<close> (\<open>detection/cross_chain/identity_graph.py\<close>, \<open>confidence.py\<close>, \<open>resolver.py\<close>): the tables of
    wallets and links over both, the noisy-or of evidence and the best-first search for the strongest
    paths, under any monotone and idempotent rounding.

  \<^bold>\<open>How the code is read.\<close> State is passed explicitly: a record per object, an SQL table as the list
  of its rows, a file as the value it holds. A raised exception is the \<open>Inl\<close> of a sum or a
  constructor of the component's error type, and what an external part can do wrong (a database
  error, a failing HTTP request, a raised Redis error, a full disk) is an argument or a field of the
  world the operation acts on. A method that holds a lock is one step; where the code commits
  several transactions, the theories give each its own step and prove that run alone they compose to
  the method. Times are arguments: exact microseconds for \<open>datetime\<close>, rationals for \<open>time.time()\<close>.
  Integers are Python's, so \<open>int\<close>; the ledger sequence inside a Horizon id is read with the bit
  operations of the source. SHA-256, signatures and ISO times are parameters, with what the code
  relies on as named hypotheses; the text of a JSON value is a parameter too, except in the audit
  logs, where the order of its keys matters and \<open>Json\<close> writes it out.

  \<^bold>\<open>Fuel and termination.\<close> Every loop is a structural recursion or a total function with a
  termination proof (\<open>dependents_loop\<close>: a measure on the keys not yet visited and the stack;
  \<open>glob_tokens\<close>: the characters of the pattern left; \<open>retry_loop\<close>: the attempts left); the
  retry loops carry the source's own bound on attempts. No definition has artificial fuel.

  \<^bold>\<open>What the lemmas show.\<close> Safety of the deduplication under concurrency and faults, and where it
  ends; replay of committed work, checkpoints and jobs; the write-ahead discipline of alerts; the
  invariants of the registry, the breaker, the graph and the router; exactness of the recovery
  check, the grouping, the routing and the cascade; how much a crash can lose. Several theorems
  state defects of the code as it stands, each with a concrete run.

  \<^bold>\<open>What is not modelled.\<close> Numerical detection and machine learning (\<open>detection/\<close> apart from the
  modules above, \<open>features/\<close>, \<open>training/\<close>, \<open>evaluation/\<close>), whose behaviour is that of NumPy,
  pandas, scikit-learn and PyTorch; the HTTP servers and Kafka clients, whose logic
  is in the libraries they call; logging, metrics, command lines, scripts, migrations, schemas,
  benchmarks and examples. Within the modelled files, log lines, Prometheus gauges other than the
  breaker's, the pings of the WebSocket server and rendering for people are left out, and of the
  cross-chain detection the RPC client of Solana and the matchers and detectors that produce links.
\<close>

end
